(* ===== verification/Kernel_Prelude.thy ===== *)
theory Kernel_Prelude
  imports Main "HOL-Library.Word"
begin

text \<open>
  Shared vocabulary of the development: the outcome of a kernel routine that may
  panic or run off an array, unsigned 32-bit arithmetic written out on naturals,
  the conversions that C performs when a value is stored in a narrower field, and
  the error numbers of \<^verbatim>\<open>h/errno.h\<close> that the modelled code assigns to
  \<^verbatim>\<open>u.u_error\<close>.
\<close>

named_theorems kernel_simps \<open>unfolding rules of the wrap-around arithmetic under its side conditions\<close>

section \<open>Outcomes\<close>

text \<open>
  \<open>Ret\<close> is a normal return, \<open>Panic\<close> a call of \<^verbatim>\<open>panic()\<close> with its message, and
  \<open>Fault\<close> an access outside the array the code walks (undefined behaviour in C).
\<close>

datatype 'a outcome = Ret 'a | Panic string | Fault

fun obind :: "'a outcome \<Rightarrow> ('a \<Rightarrow> 'b outcome) \<Rightarrow> 'b outcome" where
  "obind (Ret x) f = f x"
| "obind (Panic s) f = Panic s"
| "obind Fault f = Fault"

fun returns :: "'a outcome \<Rightarrow> bool" where
  "returns (Ret x) = True"
| "returns _ = False"

lemma obind_Ret_iff: "obind m f = Ret y \<longleftrightarrow> (\<exists>x. m = Ret x \<and> f x = Ret y)"
  by (cases m) auto

lemma obind_assoc: "obind (obind m f) g = obind m (\<lambda>x. obind (f x) g)"
  by (cases m) auto

lemma returns_iff: "returns m \<longleftrightarrow> (\<exists>x. m = Ret x)"
  by (cases m) auto

section \<open>Machine arithmetic\<close>

abbreviation two32 :: nat where
  "two32 \<equiv> 4294967296"

definition add32 :: "nat \<Rightarrow> nat \<Rightarrow> nat" where
  "add32 a b = (a + b) mod two32"

definition sub32 :: "nat \<Rightarrow> nat \<Rightarrow> nat" where
  "sub32 a b = (a + (two32 - b mod two32)) mod two32"

lemma add32_id [kernel_simps]: "a + b < two32 \<Longrightarrow> add32 a b = a + b"
  by (simp add: add32_def)

lemma sub32_id [kernel_simps]:
  assumes "b \<le> a" and "a < two32"
  shows "sub32 a b = a - b"
proof -
  have "b mod two32 = b" and "a + (two32 - b) = (a - b) + two32"
    using assms by simp_all
  then have "sub32 a b = ((a - b) + two32) mod two32"
    by (simp only: sub32_def)
  also have "\<dots> = a - b"
    using assms by (simp only: mod_add_self2) simp
  finally show ?thesis .
qed

lemma add32_less [simp]: "add32 a b < two32"
  by (simp add: add32_def)

lemma sub32_less [simp]: "sub32 a b < two32"
  by (simp add: sub32_def)

text \<open>Stores into unsigned short, short and int fields.\<close>

definition to_u16 :: "int \<Rightarrow> int" where
  "to_u16 x = x mod 65536"

definition to_s16 :: "int \<Rightarrow> int" where
  "to_s16 x = (x + 32768) mod 65536 - 32768"

definition to_s32 :: "int \<Rightarrow> int" where
  "to_s32 x = (x + 2147483648) mod 4294967296 - 2147483648"

definition to_u32 :: "int \<Rightarrow> int" where
  "to_u32 x = x mod 4294967296"

lemma to_u16_id [kernel_simps]: "0 \<le> x \<Longrightarrow> x < 65536 \<Longrightarrow> to_u16 x = x"
  by (simp add: to_u16_def)

lemma to_s16_id [kernel_simps]: "-32768 \<le> x \<Longrightarrow> x < 32768 \<Longrightarrow> to_s16 x = x"
  by (simp add: to_s16_def)

lemma to_s32_id [kernel_simps]:
  "-2147483648 \<le> x \<Longrightarrow> x < 2147483648 \<Longrightarrow> to_s32 x = x"
  by (simp add: to_s32_def)

lemma to_u32_id [kernel_simps]: "0 \<le> x \<Longrightarrow> x < 4294967296 \<Longrightarrow> to_u32 x = x"
  by (simp add: to_u32_def)

lemma to_u16_range [simp]: "0 \<le> to_u16 x" "to_u16 x < 65536"
  by (simp_all add: to_u16_def)

lemma to_s16_range [simp]: "-32768 \<le> to_s16 x" "to_s16 x < 32768"
proof -
  have "0 \<le> (x + 32768) mod 65536" and "(x + 32768) mod 65536 < 65536"
    by simp_all
  then show "-32768 \<le> to_s16 x" and "to_s16 x < 32768"
    by (auto simp: to_s16_def)
qed

lemma to_s32_range [simp]: "-2147483648 \<le> to_s32 x" "to_s32 x < 2147483648"
proof -
  have "0 \<le> (x + 2147483648) mod 4294967296"
    and "(x + 2147483648) mod 4294967296 < 4294967296"
    by simp_all
  then show "-2147483648 \<le> to_s32 x" and "to_s32 x < 2147483648"
    by (auto simp: to_s32_def)
qed

section \<open>Arrays as lists\<close>

text \<open>An update at an index outside the list changes nothing.\<close>

lemma nth_upd: "xs[i := y] ! j = (if i = j \<and> i < length xs then y else xs ! j)"
  by (cases "i < length xs") (simp_all add: nth_list_update list_update_beyond not_less)

section \<open>Error numbers\<close>

text \<open>\<open>E_OK\<close> is \<^verbatim>\<open>u.u_error == 0\<close>.\<close>

datatype errno = E_OK | EPERM | ENOENT | ESRCH | EINTR | E2BIG | EBADF | EAGAIN | ENOMEM
  | EACCES | EFAULT | EEXIST | EINVAL | EFBIG | ENOSPC | ERANGE | ENOMSG | EIDRM | EDEADLK
  | ENOLCK | EMFILE | ENFILE | ENAMETOOLONG

end
