(* ===== verification/Seg_List.thy ===== *)
theory Seg_List
  imports Kernel_Prelude
begin

text \<open>
  The abstract specification of the kernel's two range allocators, the resource maps of
  \<^verbatim>\<open>sys/subr_rmap.c\<close> and the IPC maps of \<^verbatim>\<open>sys/sysV_map.c\<close>: a list of
  free segments in address order, separated by gaps (abutting segments are always
  coalesced), and what allocating and freeing mean for the set of free units. The locale
  \<open>extent_allocator\<close> is the interface the rest of the kernel relies on.
\<close>

type_synonym seg = "nat \<times> nat"  \<comment> \<open>first unit, number of units\<close>

section \<open>Free lists\<close>

fun segs_ok :: "nat \<Rightarrow> nat \<Rightarrow> seg list \<Rightarrow> bool" where
  "segs_ok lim lo [] = True"
| "segs_ok lim lo ((a, s) # xs) = (lo < a \<and> 0 < s \<and> a + s < lim \<and> segs_ok lim (a + s) xs)"

fun units :: "seg list \<Rightarrow> nat set" where
  "units [] = {}"
| "units ((a, s) # xs) = {a..<a + s} \<union> units xs"

fun seg_alloc :: "nat \<Rightarrow> seg list \<Rightarrow> (nat \<times> seg list) option" where
  "seg_alloc n [] = None"
| "seg_alloc n ((a, s) # xs) =
     (if n \<le> s then Some (a, if s = n then xs else (a + n, s - n) # xs)
      else map_option (\<lambda>(r, ys). (r, (a, s) # ys)) (seg_alloc n xs))"

fun seg_free :: "nat \<Rightarrow> nat \<Rightarrow> seg list \<Rightarrow> seg list" where
  "seg_free n a [] = [(a, n)]"
| "seg_free n a ((b, s) # xs) =
     (if a + n < b then (a, n) # (b, s) # xs
      else if a + n = b then (a, n + s) # xs
      else if b + s = a then
        (case xs of
           [] \<Rightarrow> [(b, s + n)]
         | (c, t) # ys \<Rightarrow> if a + n = c then (b, s + n + t) # ys else (b, s + n) # xs)
      else (b, s) # seg_free n a xs)"

lemma segs_ok_weaken: "segs_ok lim lo xs \<Longrightarrow> lo' \<le> lo \<Longrightarrow> segs_ok lim lo' xs"
  by (cases xs) auto

lemma segs_ok_append:
  "segs_ok lim lo (xs @ (b, s) # ys) \<Longrightarrow> segs_ok lim lo xs \<and> segs_ok lim (b + s) ys
     \<and> lo < b \<and> 0 < s \<and> b + s < lim"
proof (induction lim lo xs rule: segs_ok.induct)
  case (2 lim lo a t xs)
  then show ?case by auto
qed auto

lemma units_lower: "segs_ok lim lo xs \<Longrightarrow> x \<in> units xs \<Longrightarrow> lo < x"
  by (induction lim lo xs rule: segs_ok.induct) auto

lemma units_upper: "segs_ok lim lo xs \<Longrightarrow> x \<in> units xs \<Longrightarrow> x < lim"
  by (induction lim lo xs rule: segs_ok.induct) auto

lemma units_upper_end: "segs_ok lim lo xs \<Longrightarrow> x \<in> units xs \<Longrightarrow> Suc x < lim"
  by (induction lim lo xs rule: segs_ok.induct) auto

lemma units_append [simp]: "units (xs @ ys) = units xs \<union> units ys"
  by (induction xs rule: units.induct) auto

lemma finite_units [simp]: "finite (units xs)"
  by (induction xs rule: units.induct) auto

text \<open>\<open>clear_of a n xs\<close>: no segment meets the \<open>n\<close> units from \<open>a\<close>.\<close>

fun clear_of :: "nat \<Rightarrow> nat \<Rightarrow> seg list \<Rightarrow> bool" where
  "clear_of a n [] = True"
| "clear_of a n ((b, s) # xs) = ((a + n \<le> b \<or> b + s \<le> a) \<and> clear_of a n xs)"

lemma clear_of_units: "clear_of a n xs \<Longrightarrow> x \<in> units xs \<Longrightarrow> x < a \<or> a + n \<le> x"
  by (induction a n xs rule: clear_of.induct) auto

lemma clear_of_append [simp]: "clear_of a n (us @ vs) \<longleftrightarrow> clear_of a n us \<and> clear_of a n vs"
  by (induction us) auto

lemma clear_of_below: "\<forall>(b, s) \<in> set us. b + s \<le> a \<Longrightarrow> clear_of a n us"
  by (induction us) auto

lemma segs_ok_dropWhile:
  "segs_ok lim lo xs \<Longrightarrow> segs_ok lim a (dropWhile (\<lambda>(b, s). b \<le> a) xs)"
proof (induction xs arbitrary: lo)
  case (Cons y xs)
  obtain b s where y: "y = (b, s)" by (cases y)
  show ?case using Cons.IH [of "b + s"] Cons.prems by (auto simp: y)
qed simp

lemma clear_of_above: "segs_ok lim (a + n) xs \<Longrightarrow> clear_of a n xs"
proof (induction xs)
  case (Cons y xs)
  obtain b s where y: "y = (b, s)" by (cases y)
  have "segs_ok lim (a + n) xs"
    using Cons.prems segs_ok_weaken [of lim "b + s" xs "a + n"] by (simp add: y)
  then show ?case using Cons.IH Cons.prems by (simp add: y)
qed simp

lemma units_disjoint_clear_of:
  assumes "segs_ok lim lo xs" and "0 < n"
  shows "{a..<a + n} \<inter> units xs = {} \<longleftrightarrow> clear_of a n xs"
proof
  assume "clear_of a n xs"
  then show "{a..<a + n} \<inter> units xs = {}" by (force dest: clear_of_units)
next
  assume "{a..<a + n} \<inter> units xs = {}"
  with assms show "clear_of a n xs"
  proof (induction lim lo xs rule: segs_ok.induct)
    case (2 lim lo b s xs)
    have "max a b \<notin> {a..<a + n} \<inter> units ((b, s) # xs)" using "2.prems"(3) by blast
    then have "a + n \<le> b \<or> b + s \<le> a" using "2.prems"(1,2) by auto
    moreover have "{a..<a + n} \<inter> units xs = {}" using "2.prems"(3) by auto
    ultimately show ?case using 2 by auto
  qed simp
qed

section \<open>Allocation\<close>

lemma seg_alloc_None: "seg_alloc n xs = None \<longleftrightarrow> (\<forall>(a, s) \<in> set xs. s < n)"
  by (induction n xs rule: seg_alloc.induct) auto

lemma seg_alloc_take:
  assumes "segs_ok lim lo xs" and "seg_alloc n xs = Some (r, ys)" and "0 < n"
  shows "segs_ok lim lo ys \<and> {r..<r + n} \<subseteq> units xs \<and> units ys = units xs - {r..<r + n}
    \<and> lo < r"
  using assms
proof (induction n xs arbitrary: lo r ys rule: seg_alloc.induct)
  case (1 n)
  then show ?case by simp
next
  case (2 n a s xs)
  from "2.prems" have ok: "lo < a" "0 < s" "a + s < lim" "segs_ok lim (a + s) xs"
    by auto
  have clear: "clear_of a s xs" using ok(4) by (rule clear_of_above)
  show ?case
  proof (cases "n \<le> s")
    case True
    with "2.prems" have r: "r = a" and ys: "ys = (if s = n then xs else (a + n, s - n) # xs)"
      by auto
    have "segs_ok lim lo ys"
      using ok True "2.prems"(3) segs_ok_weaken [OF ok(4), of lo] by (auto simp: ys)
    moreover have "units ys = units ((a, s) # xs) - {r..<r + n}"
      using True by (auto simp: ys r dest: clear_of_units [OF clear])
    moreover have "{r..<r + n} \<subseteq> units ((a, s) # xs)" and "lo < r"
      using True ok(1) by (auto simp: r)
    ultimately show ?thesis by blast
  next
    case False
    with "2.prems" obtain zs where zs: "seg_alloc n xs = Some (r, zs)" and ys: "ys = (a, s) # zs"
      by auto
    have IH: "segs_ok lim (a + s) zs" "{r..<r + n} \<subseteq> units xs"
      "units zs = units xs - {r..<r + n}" "a + s < r"
      using "2.IH" [OF False ok(4) zs "2.prems"(3)] by auto
    have "{a..<a + s} \<inter> {r..<r + n} = {}" using IH(4) by simp
    then have "units ys = units ((a, s) # xs) - {r..<r + n}"
      by (simp add: ys IH(3) Un_Diff Diff_triv)
    moreover have "{r..<r + n} \<subseteq> units ((a, s) # xs)" and "lo < r"
      using IH(2,4) ok(1) by (simp_all add: le_supI2)
    ultimately show ?thesis using ok IH(1) by (simp add: ys)
  qed
qed

lemma seg_alloc_first_fit:
  assumes "seg_alloc n xs = Some (r, ys)"
  obtains us s vs where "xs = us @ (r, s) # vs" and "n \<le> s" and "\<forall>(a, t) \<in> set us. t < n"
  using assms
proof (induction n xs arbitrary: r ys thesis rule: seg_alloc.induct)
  case (2 n a s xs)
  show ?case
  proof (cases "n \<le> s")
    case True
    with "2.prems" show ?thesis by (intro "2.prems"(1) [of "[]"]) auto
  next
    case False
    with "2.prems" obtain zs where "seg_alloc n xs = Some (r, zs)" by auto
    then obtain us t vs where "xs = us @ (r, t) # vs" "n \<le> t" "\<forall>(a, t) \<in> set us. t < n"
      using "2.IH" [OF False] by blast
    with False show ?thesis by (intro "2.prems"(1) [of "(a, s) # us"]) auto
  qed
qed simp

lemma seg_alloc_length:
  "seg_alloc n xs = Some (r, ys) \<Longrightarrow> length ys = length xs \<or> Suc (length ys) = length xs"
  by (induction n xs arbitrary: r ys rule: seg_alloc.induct) (auto split: if_splits)

section \<open>Freeing\<close>

lemma seg_free_units:
  assumes "segs_ok lim lo xs" and "clear_of a n xs" and "0 < n"
  shows "units (seg_free n a xs) = units xs \<union> {a..<a + n}"
  using assms
proof (induction n a xs arbitrary: lo rule: seg_free.induct)
  case (1 n a)
  then show ?case by simp
next
  case (2 n a b s xs)
  have ok: "0 < s" "segs_ok lim (b + s) xs" and disj: "clear_of a n xs"
    using "2.prems" by auto
  consider "a + n < b" | "a + n = b" | "b + s = a" "b < a + n" | "b + s < a"
    using ok(1) "2.prems" by fastforce
  then show ?case
  proof cases
    case 3
    show ?thesis
    proof (cases xs)
      case (Cons y ys)
      then show ?thesis using 3 by (cases y) (auto simp: ac_simps)
    qed (use 3 in auto)
  next
    case 4
    then show ?thesis
      using "2.IH" [OF _ _ _ ok(2) disj "2.prems"(3)] by auto
  qed auto
qed

lemma seg_free_ok:
  assumes "segs_ok lim lo xs" and "clear_of a n xs" and "0 < n"
    and "lo < a" and "a + n < lim"
  shows "segs_ok lim lo (seg_free n a xs)"
  using assms
proof (induction n a xs arbitrary: lo rule: seg_free.induct)
  case (1 n a)
  then show ?case by simp
next
  case (2 n a b s xs)
  have ok: "0 < s" "segs_ok lim (b + s) xs" and disj: "clear_of a n xs"
    using "2.prems"(1,2) by auto
  consider "a + n < b" | "a + n = b" | "b + s = a" "b < a + n" | "b + s < a"
    using ok(1) "2.prems" by fastforce
  then show ?case
  proof cases
    case 3
    show ?thesis
    proof (cases xs)
      case Nil
      then show ?thesis using "2.prems" 3 by auto
    next
      case (Cons y ys)
      then show ?thesis using "2.prems" 3 by (cases y) (auto simp: add.assoc)
    qed
  next
    case 4
    then have "segs_ok lim (b + s) (seg_free n a xs)"
      using ok(2) disj "2.prems" by (intro "2.IH") auto
    then show ?thesis using 4 "2.prems" by auto
  qed (use "2.prems" in \<open>auto simp: add.assoc\<close>)
qed

lemma seg_free_length: "length (seg_free n a xs) \<le> Suc (length xs)"
  by (induction n a xs rule: seg_free.induct) (auto split: list.splits)

lemma seg_free_skip:
  "(\<forall>(b, s) \<in> set us. b + s < a) \<Longrightarrow> seg_free n a (us @ vs) = us @ seg_free n a vs"
  by (induction us) (auto split: list.splits)

lemma segs_ok_delete: "segs_ok lim lo (us @ x # vs) \<Longrightarrow> segs_ok lim lo (us @ vs)"
proof (induction us arbitrary: lo)
  case Nil
  then show ?case by (cases x) (auto elim: segs_ok_weaken)
next
  case (Cons y us)
  then show ?case by (cases y) auto
qed

lemma segs_ok_prefix: "segs_ok lim lo (us @ vs) \<Longrightarrow> segs_ok lim lo us"
proof (induction us arbitrary: lo)
  case (Cons y us)
  then show ?case by (cases y) simp
qed simp

lemma segs_ok_suffix: "segs_ok lim lo (us @ vs) \<Longrightarrow> segs_ok lim lo vs"
proof (induction us arbitrary: lo)
  case (Cons y us)
  obtain b s where y: "y = (b, s)" by (cases y)
  have vs: "segs_ok lim (b + s) vs" using Cons.prems by (intro Cons.IH) (simp add: y)
  have "lo \<le> b + s" using Cons.prems by (simp add: y)
  with vs show ?case by (rule segs_ok_weaken)
qed simp

lemma segs_ok_above:
  "segs_ok lim lo xs \<Longrightarrow> (c, t) \<in> set xs \<Longrightarrow> lo < c \<and> 0 < t \<and> c + t < lim"
proof (induction xs arbitrary: lo)
  case (Cons y xs)
  obtain b s where y: "y = (b, s)" by (cases y)
  show ?case using Cons.prems Cons.IH [of "b + s"] by (auto simp: y)
qed simp

lemma segs_ok_ends:
  "segs_ok lim lo (us @ [(b, s)]) \<Longrightarrow> (c, t) \<in> set us \<Longrightarrow> c + t < b"
proof (induction us arbitrary: lo)
  case (Cons y us)
  obtain d e where y: "y = (d, e)" by (cases y)
  have "segs_ok lim (d + e) (us @ [(b, s)])" using Cons.prems by (simp add: y)
  then show ?case
    using Cons.IH Cons.prems(2) segs_ok_append [of lim "d + e" us b s "[]"] by (auto simp: y)
qed simp

text \<open>The four situations of a free, between the segments \<open>us\<close> below and \<open>vs\<close> above.\<close>

lemma free_split:
  assumes "segs_ok lim lo xs" and "clear_of a n xs" and "0 < n"
  obtains us vs where "xs = us @ vs"
    and "us = takeWhile (\<lambda>(b, s). b \<le> a) xs" and "vs = dropWhile (\<lambda>(b, s). b \<le> a) xs"
    and "\<forall>(b, s) \<in> set us. b + s \<le> a" and "\<And>c t vs'. vs = (c, t) # vs' \<Longrightarrow> a + n \<le> c"
proof -
  let ?us = "takeWhile (\<lambda>(b, s). b \<le> a) xs" and ?vs = "dropWhile (\<lambda>(b, s). b \<le> a) xs"
  have clear: "a + n \<le> b \<or> b + s \<le> a" if "(b, s) \<in> set xs" for b s
    using assms(2) that by (induction a n xs rule: clear_of.induct) auto
  have "b + s \<le> a" if "(b, s) \<in> set ?us" for b s
    using set_takeWhileD [OF that] clear [of b s] assms(3) by auto
  moreover have "a + n \<le> c" if "?vs = (c, t) # vs'" for c t vs'
  proof -
    have "\<not> c \<le> a" using that by (auto dest: dropWhile_eq_Cons_conv [THEN iffD1])
    moreover have "(c, t) \<in> set xs"
      using that set_dropWhileD [of "(c, t)"] by (metis list.set_intros(1))
    ultimately show ?thesis using clear [of c t] by auto
  qed
  ultimately show ?thesis by (intro that [of ?us ?vs]) auto
qed

lemma segs_ok_abut_free:
  assumes "segs_ok lim lo (us @ [(b, s)] @ vs)" and "b + s = a" and "0 < n"
    and "\<And>c t vs'. vs = (c, t) # vs' \<Longrightarrow> a + n \<le> c"
  shows "seg_free n a (us @ [(b, s)] @ vs) =
    (case vs of (c, t) # vs' \<Rightarrow> if a + n = c then us @ (b, s + n + t) # vs' else us @ (b, s + n) # vs
     | [] \<Rightarrow> us @ [(b, s + n)])"
proof -
  have "segs_ok lim lo (us @ [(b, s)])"
    using assms(1) segs_ok_prefix [of lim lo "us @ [(b, s)]" vs] by simp
  then have "\<forall>(c, t) \<in> set us. c + t < a"
    using segs_ok_ends assms(2) by fastforce
  then have "seg_free n a (us @ [(b, s)] @ vs) = us @ seg_free n a ((b, s) # vs)"
    by (simp add: seg_free_skip)
  also have "seg_free n a ((b, s) # vs) = (case vs of [] \<Rightarrow> [(b, s + n)]
      | (c, t) # ys \<Rightarrow> if a + n = c then (b, s + n + t) # ys else (b, s + n) # vs)"
    using assms(2,3) by (simp split: list.split)
  finally show ?thesis by (simp split: list.split)
qed

lemma seg_free_above:
  assumes "\<forall>(b, s) \<in> set us. b + s < a" and "0 < n"
    and "\<And>c t vs'. vs = (c, t) # vs' \<Longrightarrow> a + n \<le> c"
  shows "seg_free n a (us @ vs) =
    (case vs of (c, t) # vs' \<Rightarrow> if a + n = c then us @ (a, n + t) # vs' else us @ (a, n) # vs
     | [] \<Rightarrow> us @ [(a, n)])"
proof (cases vs)
  case Nil
  then show ?thesis using assms(1) seg_free_skip [of us a n "[]"] by simp
next
  case (Cons y ys)
  then show ?thesis using assms(1,2) assms(3) [of "fst y" "snd y" ys]
    by (cases y) (simp add: seg_free_skip)
qed

lemma ends_at_last:
  assumes "segs_ok lim lo us" and "\<forall>(b, s) \<in> set us. b + s \<le> a"
    and "(b, s) \<in> set us" and "b + s = a"
  shows "\<exists>us'. us = us' @ [(b, s)]"
proof (cases us rule: rev_cases)
  case (snoc us' y)
  obtain c t where y: "y = (c, t)" by (cases y)
  have "(b, s) \<notin> set us'"
    using segs_ok_ends [of lim lo us' c t b s] assms snoc y by auto
  then show ?thesis using assms(3) snoc by auto
qed (use assms in simp)

lemma units_split: "segs_ok lim lo (us @ (b, s) # vs) \<Longrightarrow>
  units (us @ vs) = units (us @ (b, s) # vs) - {b..<b + s}"
proof -
  assume ok: "segs_ok lim lo (us @ (b, s) # vs)"
  have vs: "clear_of b s vs"
    using segs_ok_append [OF ok] clear_of_above by blast
  have "c + t \<le> b" if "(c, t) \<in> set us" for c t
    using segs_ok_ends [of lim lo us b s c t] ok segs_ok_prefix [of lim lo "us @ [(b, s)]" vs] that
    by simp
  then have us: "clear_of b s us" by (intro clear_of_below) auto
  show ?thesis
    by (auto dest: clear_of_units [OF us] clear_of_units [OF vs])
qed

section \<open>The allocator interface\<close>

text \<open>
  \<open>al m n\<close> is a successful or failed request for \<open>n\<close> units, \<open>fr m n a\<close> the return of
  \<open>n\<close> units at \<open>a\<close> (\<open>None\<close> when the map has no room to record them and units are lost),
  \<open>avail m\<close> the set of free units. The caller must not return units that are free.
\<close>

locale extent_allocator =
  fixes al :: "'m \<Rightarrow> nat \<Rightarrow> (nat \<times> 'm) option"
    and fr :: "'m \<Rightarrow> nat \<Rightarrow> nat \<Rightarrow> 'm option"
    and avail :: "'m \<Rightarrow> nat set"
    and inv :: "'m \<Rightarrow> bool"
    and lim :: nat
  assumes al_inv: "inv m \<Longrightarrow> 0 < n \<Longrightarrow> al m n = Some (r, m') \<Longrightarrow> inv m'"
    and al_avail: "inv m \<Longrightarrow> 0 < n \<Longrightarrow> al m n = Some (r, m') \<Longrightarrow>
      {r..<r + n} \<subseteq> avail m \<and> avail m' = avail m - {r..<r + n}"
    and al_range: "inv m \<Longrightarrow> 0 < n \<Longrightarrow> al m n = Some (r, m') \<Longrightarrow> 0 < r \<and> r + n < lim"
    and fr_inv: "inv m \<Longrightarrow> 0 < n \<Longrightarrow> 0 < a \<Longrightarrow> a + n < lim \<Longrightarrow> {a..<a + n} \<inter> avail m = {} \<Longrightarrow>
      fr m n a = Some m' \<Longrightarrow> inv m'"
    and fr_avail: "inv m \<Longrightarrow> 0 < n \<Longrightarrow> 0 < a \<Longrightarrow> a + n < lim \<Longrightarrow> {a..<a + n} \<inter> avail m = {} \<Longrightarrow>
      fr m n a = Some m' \<Longrightarrow> avail m' = avail m \<union> {a..<a + n}"
begin

lemma al_al_disjoint:
  assumes "inv m" and "0 < n" and "0 < k"
    and "al m n = Some (r, m1)" and "al m1 k = Some (q, m2)"
  shows "{r..<r + n} \<inter> {q..<q + k} = {}"
  using al_avail [OF assms(1,2,4)] al_avail [OF al_inv [OF assms(1,2,4)] assms(3,5)] by blast

lemma al_fr_avail:
  assumes "inv m" and "0 < n" and "al m n = Some (r, m1)" and "fr m1 n r = Some m2"
  shows "avail m2 = avail m \<and> inv m2"
proof -
  have i1: "inv m1" using al_inv assms by blast
  have r: "0 < r" "r + n < lim" using al_range [OF assms(1-3)] by auto
  note av = al_avail [OF assms(1-3)]
  have gone: "{r..<r + n} \<inter> avail m1 = {}" using av by blast
  have "avail m2 = avail m1 \<union> {r..<r + n}" using fr_avail [OF i1 assms(2) r gone assms(4)] by blast
  then show ?thesis
    using av fr_inv [OF i1 assms(2) r gone assms(4)] by auto
qed

text \<open>A sequence of requests: every unit granted is granted once.\<close>

fun grants :: "'m \<Rightarrow> nat list \<Rightarrow> (nat \<times> nat) list" where
  "grants m [] = []"
| "grants m (n # ns) =
     (case al m n of None \<Rightarrow> grants m ns | Some (r, m') \<Rightarrow> (r, n) # grants m' ns)"

lemma grants_within:
  "inv m \<Longrightarrow> \<forall>n \<in> set ns. 0 < n \<Longrightarrow> (r, n) \<in> set (grants m ns) \<Longrightarrow> {r..<r + n} \<subseteq> avail m"
proof (induction ns arbitrary: m)
  case (Cons k ns)
  show ?case
  proof (cases "al m k")
    case (Some p)
    then obtain q m' where al: "al m k = Some (q, m')" by (cases p) auto
    have k: "0 < k" using Cons.prems by simp
    have "(r, n) = (q, k) \<or> {r..<r + n} \<subseteq> avail m'"
      using Cons.IH [OF al_inv [OF Cons.prems(1) k al]] Cons.prems al by auto
    then show ?thesis using al_avail [OF Cons.prems(1) k al] by blast
  qed (use Cons in auto)
qed simp

lemma grants_disjoint:
  "inv m \<Longrightarrow> \<forall>n \<in> set ns. 0 < n \<Longrightarrow>
   sorted_wrt (\<lambda>(r, n) (q, k). {r..<r + n} \<inter> {q..<q + k} = {}) (grants m ns)"
proof (induction ns arbitrary: m)
  case (Cons k ns)
  show ?case
  proof (cases "al m k")
    case (Some p)
    then obtain q m' where al: "al m k = Some (q, m')" by (cases p) auto
    have k: "0 < k" and ns: "\<forall>n \<in> set ns. 0 < n" using Cons.prems by auto
    note inv' = al_inv [OF Cons.prems(1) k al]
    have "{q..<q + k} \<inter> {r..<r + n} = {}" if "(r, n) \<in> set (grants m' ns)" for r n
      using grants_within [OF inv' ns that] al_avail [OF Cons.prems(1) k al] by blast
    then show ?thesis using Cons.IH [OF inv' ns] al by (auto simp del: Int_atLeastLessThan)
  qed (use Cons in auto)
qed simp

end

end
