(* ===== verification/Rmap.thy ===== *)
theory Rmap
  imports Seg_List
begin

text \<open>
  The resource maps of \<^verbatim>\<open>sys/subr_rmap.c\<close>. A map is a header and an array of
  slots; the slots before the first one of size 0 (the delimiter) are the free segments.
  The array is a list, a cursor \<^verbatim>\<open>bp\<close> into it splits it into the slots before it
  and the rest, and running off the array is the outcome \<open>Fault\<close>. Sizes and addresses are
  unsigned 32-bit values, with the wrap-around of \<open>add32\<close> and \<open>sub32\<close>. The spin lock
  and the debug counter of segments are not modelled.
\<close>

section \<open>Data\<close>

record mapent =
  m_size :: nat
  m_addr :: nat

record rmap =
  m_limit :: nat               \<comment> \<open>index of the slot \<^verbatim>\<open>m_limit\<close> points at\<close>
  m_ep :: "mapent list"        \<comment> \<open>the slots, from \<^verbatim>\<open>(struct mapent *)(mp+1)\<close>\<close>
  m_lost :: "(nat \<times> nat) list" \<comment> \<open>segments reported lost on the console\<close>

definition delim :: mapent where
  "delim = \<lparr>m_size = 0, m_addr = 0\<rparr>"

definition sizeof_map :: nat where "sizeof_map = 8"

definition sizeof_mapent :: nat where "sizeof_mapent = 8"

section \<open>Operations\<close>

text \<open>\<open>ep\<close> is the storage behind the header that the caller provides.\<close>

definition rminit :: "mapent list \<Rightarrow> nat \<Rightarrow> nat \<Rightarrow> nat \<Rightarrow> rmap outcome" where
  "rminit ep sz addr mapsize =
     (if sizeof_map + sizeof_mapent * (mapsize - 1) > sizeof_map * mapsize
        then Panic ''rminit: sizeof(struct map) < sizeof(struct mapent)''
      else if (sz = 0) \<noteq> (addr = 0) then Panic ''rminit: size and addr inconsistent''
      else if length ep < 2 then Fault
      else Ret \<lparr>m_limit = mapsize - 1,
                m_ep = ep[0 := \<lparr>m_size = sz, m_addr = addr\<rparr>, 1 := delim],
                m_lost = []\<rparr>)"

text \<open>
  Closing the gap at the cursor: \<^verbatim>\<open>do { bp++; *(bp-1) = *bp; } while (bp->m_size)\<close>.
  The result holds the slots from the old cursor and the number of steps made.
\<close>

fun shift_do :: "mapent list \<Rightarrow> (mapent list \<times> nat) outcome" where
  "shift_do (x # y # zs) =
     (if m_size y = 0 then Ret (y # y # zs, 1)
      else obind (shift_do (y # zs)) (\<lambda>(r, k). Ret (y # r, Suc k)))"
| "shift_do _ = Fault"

text \<open>The same with the test first: \<^verbatim>\<open>while (bp->m_size) { bp++; *(bp-1) = *bp; }\<close>.\<close>

fun shift_while :: "mapent list \<Rightarrow> (mapent list \<times> nat) outcome" where
  "shift_while [] = Fault"
| "shift_while (x # xs) = (if m_size x = 0 then Ret (x # xs, 0) else shift_do (x # xs))"

fun rmalloc_walk :: "nat \<Rightarrow> mapent list \<Rightarrow> (nat \<times> mapent list) outcome" where
  "rmalloc_walk sz [] = Fault"
| "rmalloc_walk sz (bp # rest) =
     (if m_size bp = 0 then Ret (0, bp # rest)
      else if m_size bp \<ge> sz then
        (let bp' = \<lparr>m_size = sub32 (m_size bp) sz, m_addr = add32 (m_addr bp) sz\<rparr>
         in if m_size bp' = 0
            then obind (shift_do (bp' # rest)) (\<lambda>(r, k). Ret (m_addr bp, r))
            else Ret (m_addr bp, bp' # rest))
      else obind (rmalloc_walk sz rest) (\<lambda>(a, r). Ret (a, bp # r)))"

definition rmalloc :: "rmap \<Rightarrow> nat \<Rightarrow> (nat \<times> rmap) outcome" where
  "rmalloc mp sz =
     obind (rmalloc_walk sz (m_ep mp)) (\<lambda>(a, ep). Ret (a, mp\<lparr>m_ep := ep\<rparr>))"

text \<open>\<^verbatim>\<open>for (; bp->m_addr <= addr && bp->m_size != 0; bp++)\<close>: the slots passed and the rest.\<close>

fun rmfree_scan :: "nat \<Rightarrow> mapent list \<Rightarrow> (mapent list \<times> mapent list) outcome" where
  "rmfree_scan addr [] = Fault"
| "rmfree_scan addr (bp # rest) =
     (if m_addr bp \<le> addr \<and> m_size bp \<noteq> 0
      then obind (rmfree_scan addr rest) (\<lambda>(pre, suf). Ret (bp # pre, suf))
      else Ret ([], bp # rest))"

text \<open>The swapping loop that makes a new entry: the slots written and the slots from \<^verbatim>\<open>bp\<close>.\<close>

fun push_in :: "mapent \<Rightarrow> mapent list \<Rightarrow> (mapent list \<times> mapent list) outcome" where
  "push_in e [] = Fault"
| "push_in e (bp # rest) =
     (if m_size bp = 0 then Ret ([e], rest)
      else obind (push_in bp rest) (\<lambda>(w, r). Ret (e # w, r)))"

definition rmfree_new :: "rmap \<Rightarrow> mapent list \<Rightarrow> mapent list \<Rightarrow> nat \<Rightarrow> nat \<Rightarrow> (nat \<times> rmap) outcome" where
  "rmfree_new mp pre suf sz addr =
     obind (push_in \<lparr>m_size = sz, m_addr = addr\<rparr> suf) (\<lambda>(w, rest).
       let ep = pre @ w @ rest; bp = length pre + length w
       in if bp + 1 > m_limit mp then
            (if bp < 2 then Fault
             else let old = ep ! (bp - 2)
                  in Ret (sz, mp\<lparr>m_ep := ep[bp - 2 := ep ! (bp - 1), bp - 1 := delim],
                       m_lost := m_lost mp @ [(m_addr old, add32 (m_addr old) (m_size old))]\<rparr>))
          else if bp < length ep then Ret (sz, mp\<lparr>m_ep := ep[bp := delim]\<rparr>)
          else Fault)"

definition rmfree :: "rmap \<Rightarrow> nat \<Rightarrow> nat \<Rightarrow> (nat \<times> rmap) outcome" where
  "rmfree mp sz addr =
     obind (rmfree_scan addr (m_ep mp)) (\<lambda>(pre, suf).
       let bp = hd suf; lp = last pre; lend = add32 (m_addr lp) (m_size lp)
       in if pre \<noteq> [] \<and> lend \<ge> addr then
            (if lend > addr then Panic ''rmfree: overlap''
             else let lp' = lp\<lparr>m_size := add32 (m_size lp) sz\<rparr>
                  in if m_addr bp \<noteq> 0 \<and> add32 addr sz \<ge> m_addr bp then
                       (if add32 addr sz > m_addr bp then Panic ''rmfree: abut to right''
                        else let lp'' = lp'\<lparr>m_size := add32 (m_size lp') (m_size bp)\<rparr>
                             in obind (shift_while suf) (\<lambda>(suf', k).
                                  let ep = butlast pre @ lp'' # suf'
                                  in Ret (m_size (ep ! (length pre + k - 1)), mp\<lparr>m_ep := ep\<rparr>)))
                     else Ret (m_size lp', mp\<lparr>m_ep := butlast pre @ lp' # suf\<rparr>))
          else if add32 addr sz \<ge> m_addr bp \<and> m_size bp \<noteq> 0 then
            (if add32 addr sz > m_addr bp then Panic ''rmfree: abut to left''
             else let bp' = \<lparr>m_size = add32 (m_size bp) sz, m_addr = sub32 (m_addr bp) sz\<rparr>
                  in Ret (m_size bp', mp\<lparr>m_ep := pre @ bp' # tl suf\<rparr>))
          else rmfree_new mp pre suf sz addr)"

text \<open>
  The search of \<^verbatim>\<open>do_rmget\<close>: \<open>None\<close> is the early return 0 of an exact request, otherwise
  the slots before the cursor, the slots from it, and the address (which a non-exact
  request moves to the segment it chose).
\<close>

fun rmget_above_scan :: "nat \<Rightarrow> nat \<Rightarrow> mapent list \<Rightarrow>
    (mapent list \<times> mapent list \<times> nat) outcome" where
  "rmget_above_scan sz addr [] = Fault"
| "rmget_above_scan sz addr (bp # rest) =
     (if m_size bp = 0 then Ret ([], bp # rest, addr)
      else if m_size bp \<ge> sz then Ret ([], bp # rest, m_addr bp)
      else obind (rmget_above_scan sz addr rest) (\<lambda>(pre, suf, a). Ret (bp # pre, suf, a)))"

fun rmget_scan :: "bool \<Rightarrow> nat \<Rightarrow> nat \<Rightarrow> mapent list \<Rightarrow>
    (mapent list \<times> mapent list \<times> nat) option outcome" where
  "rmget_scan exact sz addr [] = Fault"
| "rmget_scan exact sz addr (bp # rest) =
     (if m_size bp = 0 then Ret (Some ([], bp # rest, addr))
      else if m_addr bp \<le> addr \<and> add32 (m_addr bp) (m_size bp) > addr
        then Ret (Some ([], bp # rest, addr))
      else if m_addr bp > addr then
        (if exact then Ret None
         else obind (rmget_above_scan sz addr (bp # rest)) (\<lambda>r. Ret (Some r)))
      else obind (rmget_scan exact sz addr rest)
             (\<lambda>r. Ret (map_option (\<lambda>(pre, suf, a). (bp # pre, suf, a)) r)))"

text \<open>\<^verbatim>\<open>for (bp2=bp; bp2->m_size; bp2++);\<close>: the distance to the delimiter.\<close>

fun find_delim :: "mapent list \<Rightarrow> nat outcome" where
  "find_delim [] = Fault"
| "find_delim (bp # rest) =
     (if m_size bp = 0 then Ret 0 else obind (find_delim rest) (\<lambda>k. Ret (Suc k)))"

definition do_rmget :: "rmap \<Rightarrow> nat \<Rightarrow> nat \<Rightarrow> bool \<Rightarrow> (nat \<times> rmap) outcome" where
  "do_rmget mp sz addr0 exact =
     obind (rmget_scan exact sz addr0 (m_ep mp)) (\<lambda>found. case found of
       None \<Rightarrow> Ret (0, mp)
     | Some (pre, suf, addr) \<Rightarrow>
        (let bp = hd suf; bend = add32 (m_addr bp) (m_size bp); aend = add32 addr sz
         in if m_size bp = 0 then Ret (0, mp)
            else if bend < aend then Ret (0, mp)
            else if m_addr bp = addr then
              (if bend = aend
               then obind (shift_while suf) (\<lambda>(suf', k). Ret (addr, mp\<lparr>m_ep := pre @ suf'\<rparr>))
               else Ret (addr, mp\<lparr>m_ep := pre @ \<lparr>m_size = sub32 (m_size bp) sz,
                                  m_addr = add32 (m_addr bp) sz\<rparr> # tl suf\<rparr>))
            else if bend = aend
              then Ret (addr, mp\<lparr>m_ep := pre @ bp\<lparr>m_size := sub32 (m_size bp) sz\<rparr> # tl suf\<rparr>)
            else obind (find_delim suf) (\<lambda>j.
              if length pre + j + 1 \<ge> m_limit mp then Ret (0, mp)
              else if length suf \<le> j + 1 then Fault
              else Ret (addr, mp\<lparr>m_ep := pre @ bp\<lparr>m_size := sub32 addr (m_addr bp)\<rparr>
                     # \<lparr>m_size = sub32 bend aend, m_addr = aend\<rparr>
                     # take j (tl suf) @ drop (j + 2) suf\<rparr>))))"

definition rmget :: "rmap \<Rightarrow> nat \<Rightarrow> nat \<Rightarrow> (nat \<times> rmap) outcome" where
  "rmget mp sz addr = do_rmget mp sz addr True"

section \<open>Abstraction\<close>

definition enc :: "seg list \<Rightarrow> mapent list" where
  "enc xs = map (\<lambda>(a, s). \<lparr>m_size = s, m_addr = a\<rparr>) xs"

definition free_segs :: "rmap \<Rightarrow> seg list" where
  "free_segs mp = map (\<lambda>e. (m_addr e, m_size e)) (takeWhile (\<lambda>e. m_size e \<noteq> 0) (m_ep mp))"

definition rmap_wf :: "rmap \<Rightarrow> bool" where
  "rmap_wf mp \<longleftrightarrow> segs_ok two32 0 (free_segs mp) \<and> length (free_segs mp) < length (m_ep mp)
     \<and> m_ep mp ! length (free_segs mp) = delim \<and> m_limit mp = length (m_ep mp)"

lemma enc_simps [simp]:
  "enc [] = []" "enc ((a, s) # xs) = \<lparr>m_size = s, m_addr = a\<rparr> # enc xs"
  "enc (xs @ ys) = enc xs @ enc ys" "length (enc xs) = length xs"
  "(enc xs = []) = (xs = [])"
  by (simp_all add: enc_def)

lemma delim_simps [simp]: "m_size delim = 0" "m_addr delim = 0"
  by (simp_all add: delim_def)

lemma mapent_eta [simp]: "\<lparr>m_size = m_size e, m_addr = m_addr e\<rparr> = (e :: mapent)"
  by (cases e) simp

lemma segs_ok_sizes: "segs_ok lim lo xs \<Longrightarrow> e \<in> set (enc xs) \<Longrightarrow> m_size e \<noteq> 0"
  by (induction lim lo xs rule: segs_ok.induct) auto

lemma free_segs_enc:
  assumes "segs_ok lim lo xs" and "m_ep mp = enc xs @ delim # rest"
  shows "free_segs mp = xs"
proof -
  have "takeWhile (\<lambda>e. m_size e \<noteq> 0) (m_ep mp) = enc xs"
    unfolding assms(2) using segs_ok_sizes [OF assms(1)]
    by (subst takeWhile_append2) auto
  moreover have "map (\<lambda>e. (m_addr e, m_size e)) (enc xs) = xs"
    by (simp add: enc_def o_def case_prod_unfold)
  ultimately show ?thesis by (simp add: free_segs_def)
qed

lemma rmap_wfI:
  assumes "segs_ok two32 0 xs" and "m_ep mp = enc xs @ delim # rest"
    and "m_limit mp = length (m_ep mp)"
  shows "rmap_wf mp"
  using assms by (simp add: rmap_wf_def free_segs_enc [OF assms(1,2)] nth_append)

lemma rmap_wfE:
  assumes "rmap_wf mp"
  obtains rest where "segs_ok two32 0 (free_segs mp)"
    and "m_ep mp = enc (free_segs mp) @ delim # rest"
    and "m_limit mp = length (m_ep mp)"
proof -
  let ?n = "length (free_segs mp)"
  have enc: "enc (free_segs mp) = takeWhile (\<lambda>e. m_size e \<noteq> 0) (m_ep mp)"
    by (simp add: enc_def free_segs_def o_def)
  have "m_ep mp = takeWhile (\<lambda>e. m_size e \<noteq> 0) (m_ep mp) @ drop ?n (m_ep mp)"
    by (simp add: free_segs_def flip: dropWhile_eq_drop)
  also have "drop ?n (m_ep mp) = delim # drop (Suc ?n) (m_ep mp)"
    using assms by (simp add: rmap_wf_def Cons_nth_drop_Suc [symmetric])
  finally show ?thesis
    using assms that enc by (simp add: rmap_wf_def)
qed

section \<open>The array walks compute the list operations\<close>

lemma shift_do_enc:
  "segs_ok lim lo xs \<Longrightarrow>
   shift_do (x # enc xs @ delim # rest) = Ret (enc xs @ delim # delim # rest, Suc (length xs))"
proof (induction xs arbitrary: x lo)
  case (Cons y ys)
  then show ?case by (cases y) auto
qed simp

lemma rmalloc_walk_enc:
  assumes "segs_ok two32 lo xs" and "0 < n"
  shows "rmalloc_walk n (enc xs @ delim # rest) =
    (case seg_alloc n xs of
       None \<Rightarrow> Ret (0, enc xs @ delim # rest)
     | Some (r, ys) \<Rightarrow>
         Ret (r, enc ys @ delim # (if length ys < length xs then delim # rest else rest)))"
  using assms
proof (induction n xs arbitrary: lo rule: seg_alloc.induct)
  case (2 n a s xs)
  then show ?case
    by (auto simp: Let_def sub32_id add32_id shift_do_enc split: option.splits)
qed simp

lemma rmalloc_refines:
  assumes wf: "rmap_wf mp" and n: "0 < n"
  obtains mp' where "rmap_wf mp'" and "m_lost mp' = m_lost mp"
    and "m_limit mp' = m_limit mp"
    and "case seg_alloc n (free_segs mp) of
           None \<Rightarrow> rmalloc mp n = Ret (0, mp) \<and> mp' = mp
         | Some (r, ys) \<Rightarrow> rmalloc mp n = Ret (r, mp') \<and> free_segs mp' = ys"
proof -
  obtain rest where ok: "segs_ok two32 0 (free_segs mp)"
    and ep: "m_ep mp = enc (free_segs mp) @ delim # rest"
    and lim: "m_limit mp = length (m_ep mp)"
    using wf by (rule rmap_wfE)
  show ?thesis
  proof (cases "seg_alloc n (free_segs mp)")
    case None
    have "rmalloc_walk n (m_ep mp) = Ret (0, m_ep mp)"
      using rmalloc_walk_enc [OF ok n, of rest] ep None by simp
    then have "rmalloc mp n = Ret (0, mp)" by (simp add: rmalloc_def)
    with None wf show ?thesis by (intro that [of mp]) auto
  next
    case (Some p)
    then obtain r ys where p: "seg_alloc n (free_segs mp) = Some (r, ys)" by (cases p) auto
    define tail where "tail = (if length ys < length (free_segs mp) then delim # rest else rest)"
    define mp' where "mp' = mp\<lparr>m_ep := enc ys @ delim # tail\<rparr>"
    have "rmalloc mp n = Ret (r, mp')"
      using rmalloc_walk_enc [OF ok n, of rest] ep p by (simp add: rmalloc_def mp'_def tail_def)
    moreover have ok': "segs_ok two32 0 ys" using seg_alloc_take [OF ok p n] by simp
    have ep': "m_ep mp' = enc ys @ delim # tail" by (simp add: mp'_def)
    have "length (m_ep mp') = length (m_ep mp)"
      using seg_alloc_length [OF p] by (subst ep, auto simp: mp'_def tail_def)
    then have "rmap_wf mp'" by (intro rmap_wfI [OF ok' ep']) (simp add: lim mp'_def)
    ultimately show ?thesis
      using free_segs_enc [OF ok' ep'] by (intro that [of mp']) (auto simp: p mp'_def)
  qed
qed

lemma rmfree_scan_enc:
  "segs_ok lim lo xs \<Longrightarrow> rmfree_scan a (enc xs @ delim # rest) =
     Ret (enc (takeWhile (\<lambda>(b, s). b \<le> a) xs),
          enc (dropWhile (\<lambda>(b, s). b \<le> a) xs) @ delim # rest)"
proof (induction xs arbitrary: lo)
  case (Cons y ys)
  then show ?case by (cases y) auto
qed simp

lemma push_in_enc:
  "segs_ok lim lo xs \<Longrightarrow> push_in e (enc xs @ delim # rest) = Ret (e # enc xs, rest)"
proof (induction xs arbitrary: e lo)
  case (Cons y ys)
  then show ?case by (cases y) auto
qed simp

lemma find_delim_enc:
  "segs_ok lim lo xs \<Longrightarrow> find_delim (enc xs @ delim # rest) = Ret (length xs)"
proof (induction xs arbitrary: lo)
  case (Cons y ys)
  then show ?case by (cases y) auto
qed simp

text \<open>What a map that overflows drops: the second to last of the segments.\<close>

definition rm_discard :: "seg list \<Rightarrow> seg list" where
  "rm_discard zs = take (length zs - 2) zs @ [last zs]"

lemma rm_discard_ok:
  assumes "segs_ok lim lo zs" and "2 \<le> length zs"
  shows "segs_ok lim lo (rm_discard zs)"
proof -
  let ?n = "length zs - 2"
  have "zs \<noteq> []" using assms(2) by auto
  have "zs = take ?n zs @ zs ! ?n # drop (Suc ?n) zs"
    using assms(2) by (simp add: id_take_nth_drop)
  moreover have "drop (Suc ?n) zs = [last zs]"
    using assms(2) \<open>zs \<noteq> []\<close> by (intro nth_equalityI) (auto simp: last_conv_nth numeral_2_eq_2 Suc_diff_Suc)
  ultimately have "zs = take ?n zs @ zs ! ?n # [last zs]" by simp
  then show ?thesis
    using assms(1) segs_ok_delete [of lim lo "take ?n zs" "zs ! ?n" "[last zs]"]
    by (simp add: rm_discard_def)
qed

lemma shift_while_enc:
  "segs_ok lim lo ((c, t) # xs) \<Longrightarrow> shift_while (enc ((c, t) # xs) @ delim # rest) =
     Ret (enc xs @ delim # delim # rest, Suc (length xs))"
  using shift_do_enc [of lim "c + t" xs] by simp

lemma rmfree_both:
  assumes ep: "m_ep mp = enc (us @ [(b, s)] @ (c, t) # vs) @ delim # rest"
    and scan: "rmfree_scan a (m_ep mp) =
      Ret (enc (us @ [(b, s)]), enc ((c, t) # vs) @ delim # rest)"
    and ok: "segs_ok two32 0 (us @ [(b, s)] @ (c, t) # vs)"
    and abut: "b + s = a" "a + n = c" and n: "0 < n"
  shows "rmfree mp n a = Ret (0, mp\<lparr>m_ep := enc (us @ (b, s + n + t) # vs) @ delim # delim # rest\<rparr>)"
proof -
  have ok': "segs_ok two32 (b + s) ((c, t) # vs)" "b + s < two32" "0 < c" "c + t < two32"
    using segs_ok_append [of two32 0 us b s "(c, t) # vs"] ok by auto
  have nth: "(enc us @ x # enc vs @ delim # r) ! Suc (length us + length vs) = delim" for x r
    by (simp add: nth_append)
  show ?thesis
    using ok' abut n nth shift_while_enc [OF ok'(1), of rest]
    by (simp add: rmfree_def scan Let_def add32_id butlast_append add.assoc)
qed

lemma rmfree_left:
  assumes scan: "rmfree_scan a (m_ep mp) = Ret (enc (us @ [(b, s)]), enc vs @ delim # rest)"
    and ok: "segs_ok two32 0 (us @ [(b, s)] @ vs)" and abut: "b + s = a" and n: "0 < n"
    and above: "\<And>c t vs'. vs = (c, t) # vs' \<Longrightarrow> a + n < c" and lim: "a + n < two32"
  shows "rmfree mp n a = Ret (s + n, mp\<lparr>m_ep := enc (us @ (b, s + n) # vs) @ delim # rest\<rparr>)"
proof -
  have "b + s < two32" using segs_ok_append [of two32 0 us b s vs] ok by auto
  then show ?thesis
    using abut n above lim
    by (cases vs) (auto simp: rmfree_def scan Let_def add32_id butlast_append split: prod.split)
qed

text \<open>No segment abuts on the left: the last one before the cursor ends below \<open>a\<close>.\<close>

lemma not_left:
  assumes "segs_ok two32 0 us" and "\<forall>(b, s) \<in> set us. b + s < a"
  shows "enc us = [] \<or> add32 (m_addr (last (enc us))) (m_size (last (enc us))) < a"
proof (cases us rule: rev_cases)
  case (snoc us' y)
  obtain b s where y: "y = (b, s)" by (cases y)
  have "b + s < two32" using segs_ok_append [of two32 0 us' b s "[]"] assms(1) snoc y by auto
  then show ?thesis using assms(2) snoc y by (auto simp: add32_id)
qed simp

lemma rmfree_right:
  assumes scan: "rmfree_scan a (m_ep mp) = Ret (enc us, enc ((c, t) # vs) @ delim # rest)"
    and ok: "segs_ok two32 0 (us @ (c, t) # vs)" and below: "\<forall>(b, s) \<in> set us. b + s < a"
    and abut: "a + n = c" and n: "0 < n"
  shows "rmfree mp n a = Ret (n + t, mp\<lparr>m_ep := enc (us @ (a, n + t) # vs) @ delim # rest\<rparr>)"
proof -
  have ok': "segs_ok two32 0 us" "c + t < two32" "0 < t"
    using segs_ok_append [of two32 0 us c t vs] ok by auto
  have "a + n < two32" using ok' abut by simp
  then show ?thesis
    using ok' abut n not_left [OF ok'(1) below]
    by (auto simp: rmfree_def scan Let_def add32_id sub32_id add.commute)
qed

lemma rmfree_alone:
  assumes scan: "rmfree_scan a (m_ep mp) = Ret (enc us, enc vs @ delim # rest)"
    and ok: "segs_ok two32 0 (us @ vs)" and below: "\<forall>(b, s) \<in> set us. b + s < a"
    and above: "\<And>c t vs'. vs = (c, t) # vs' \<Longrightarrow> a + n < c" and lim: "a + n < two32"
  shows "rmfree mp n a = rmfree_new mp (enc us) (enc vs @ delim # rest) n a"
proof -
  note nl = not_left [OF segs_ok_prefix [OF ok] below]
  show ?thesis
  proof (cases vs)
    case Nil
    then show ?thesis using nl by (auto simp: rmfree_def scan Let_def)
  next
    case (Cons y ys)
    obtain c t where y: "y = (c, t)" by (cases y)
    have "a + n < c" using above Cons y by blast
    then show ?thesis using nl lim by (auto simp: rmfree_def scan Let_def Cons y add32_id)
  qed
qed

text \<open>The new entry fits, or a segment is discarded.\<close>

lemma rmfree_new_enc:
  fixes a n :: nat
  assumes ok: "segs_ok two32 0 vs" and ep: "m_ep mp = enc (us @ vs) @ delim # rest"
    and lim: "m_limit mp = length (m_ep mp)" and two: "2 \<le> length (m_ep mp)"
  defines "zs \<equiv> us @ (a, n) # vs"
  shows "rmfree_new mp (enc us) (enc vs @ delim # rest) n a =
    (if rest \<noteq> [] then Ret (n, mp\<lparr>m_ep := enc zs @ delim # tl rest\<rparr>)
     else Ret (n, mp\<lparr>m_ep := enc (rm_discard zs) @ [delim],
                 m_lost := m_lost mp @ [(fst (zs ! (length zs - 2)),
                   add32 (fst (zs ! (length zs - 2))) (snd (zs ! (length zs - 2))))]\<rparr>))"
proof (cases "rest = []")
  case False
  then show ?thesis
    by (cases rest) (auto simp: rmfree_new_def push_in_enc [OF ok] Let_def zs_def ep lim
        list_update_append nth_append)
next
  case True
  have len: "2 \<le> length zs" using two by (simp add: ep True zs_def)
  then have ne: "zs \<noteq> []" by auto
  have enc_zs: "enc us @ \<lparr>m_size = n, m_addr = a\<rparr> # enc vs = enc zs" by (simp add: zs_def)
  have nth: "enc zs ! i = \<lparr>m_size = snd (zs ! i), m_addr = fst (zs ! i)\<rparr>" if "i < length zs" for i
    using that by (simp add: enc_def case_prod_unfold)
  have upd: "(enc zs)[length zs - 2 := enc zs ! (length zs - 1), length zs - 1 := delim]
      = enc (rm_discard zs) @ [delim]"
  proof (rule nth_equalityI)
    fix i assume "i < length ((enc zs)[length zs - 2 := enc zs ! (length zs - 1),
      length zs - 1 := delim])"
    then have i: "i < length zs" by simp
    consider "i < length zs - 2" | "i = length zs - 2" | "i = length zs - 1" using i len by linarith
    then show "(enc zs)[length zs - 2 := enc zs ! (length zs - 1), length zs - 1 := delim] ! i
        = (enc (rm_discard zs) @ [delim]) ! i"
      by cases (use len ne i in \<open>auto simp: rm_discard_def nth_append enc_def last_conv_nth\<close>)
  qed (use len in \<open>auto simp: rm_discard_def\<close>)
  have bp: "length (enc us) + length (\<lparr>m_size = n, m_addr = a\<rparr> # enc vs) = length zs"
    by (simp add: zs_def)
  have lim': "m_limit mp = length zs" using lim by (simp add: ep True zs_def)
  show ?thesis
    unfolding rmfree_new_def push_in_enc [OF ok] obind.simps prod.case Let_def bp lim' True
      append_Nil2 enc_zs upd
    using len nth [of "length zs - 2"] by simp
qed

text \<open>What \<^verbatim>\<open>rmfree\<close> does to the free list, with or without room for it.\<close>

definition rmfree_segs :: "rmap \<Rightarrow> nat \<Rightarrow> nat \<Rightarrow> seg list" where
  "rmfree_segs mp n a =
     (let zs = seg_free n a (free_segs mp)
      in if length zs < length (m_ep mp) then zs else rm_discard zs)"

definition rmfree_lost :: "rmap \<Rightarrow> nat \<Rightarrow> nat \<Rightarrow> (nat \<times> nat) list" where
  "rmfree_lost mp n a =
     (let zs = seg_free n a (free_segs mp); (b, s) = zs ! (length zs - 2)
      in if length zs < length (m_ep mp) then [] else [(b, add32 b s)])"

text \<open>
  The value returned is the length of the segment that now holds the freed units, but for
  the case where the freed units close the gap between two segments.
\<close>

definition closes_gap :: "seg list \<Rightarrow> nat \<Rightarrow> nat \<Rightarrow> bool" where
  "closes_gap xs n a \<longleftrightarrow> (\<exists>(b, s) \<in> set xs. b + s = a) \<and> (\<exists>(c, t) \<in> set xs. a + n = c)"

definition seg_len_at :: "seg list \<Rightarrow> nat \<Rightarrow> nat" where
  "seg_len_at xs a = sum_list (map (\<lambda>(b, s). if b \<le> a \<and> a < b + s then s else 0) xs)"

lemma seg_len_at_append [simp]: "seg_len_at (xs @ ys) a = seg_len_at xs a + seg_len_at ys a"
  by (simp add: seg_len_at_def)

lemma seg_len_at_Cons [simp]:
  "seg_len_at ((b, s) # xs) a = (if b \<le> a \<and> a < b + s then s else 0) + seg_len_at xs a"
  "seg_len_at [] a = 0"
  by (simp_all add: seg_len_at_def)

lemma seg_len_at_below: "\<forall>(b, s) \<in> set us. b + s \<le> a \<Longrightarrow> seg_len_at us a = 0"
  by (induction us) auto

lemma seg_len_at_above: "segs_ok lim a vs \<Longrightarrow> seg_len_at vs a = 0"
proof (induction vs)
  case (Cons y vs)
  obtain c t where y: "y = (c, t)" by (cases y)
  have "segs_ok lim a vs" using Cons.prems segs_ok_weaken [of lim "c + t" vs a] by (simp add: y)
  then show ?case using Cons by (simp add: y)
qed simp

lemma closes_gap_iff:
  assumes "segs_ok lim lo us" and "segs_ok lim a vs" and "0 < n"
    and below: "\<forall>(b, s) \<in> set us. b + s \<le> a"
    and above: "\<And>c t vs'. vs = (c, t) # vs' \<Longrightarrow> a + n \<le> c"
  shows "closes_gap (us @ vs) n a \<longleftrightarrow>
    (\<exists>us' b s c t vs'. us = us' @ [(b, s)] \<and> b + s = a \<and> vs = (c, t) # vs' \<and> a + n = c)"
proof
  assume gap: "closes_gap (us @ vs) n a"
  have vs_above: "a < c \<and> 0 < t" if "(c, t) \<in> set vs" for c t
    using segs_ok_above [OF assms(2) that] by simp
  obtain b s where b: "(b, s) \<in> set us" "b + s = a"
    using gap vs_above by (fastforce simp: closes_gap_def)
  obtain c t where c: "(c, t) \<in> set vs" "a + n = c"
    using gap below assms(3) by (fastforce simp: closes_gap_def)
  obtain d e vs' where vs: "vs = (d, e) # vs'" using c by (cases vs) auto
  have "c = d"
  proof (rule ccontr)
    assume "c \<noteq> d"
    then have "(c, t) \<in> set vs'" using c vs by auto
    moreover have "segs_ok lim (d + e) vs'" using assms(2) vs by simp
    ultimately have "d + e < c" using segs_ok_above by blast
    then show False using above [OF vs] c by simp
  qed
  then show "\<exists>us' b s c t vs'. us = us' @ [(b, s)] \<and> b + s = a \<and> vs = (c, t) # vs' \<and> a + n = c"
    using ends_at_last [OF assms(1) below b] b vs c by blast
qed (auto simp: closes_gap_def)

lemma same_lost [simp]: "mp\<lparr>m_ep := e, m_lost := m_lost mp\<rparr> = mp\<lparr>m_ep := e\<rparr>"
  by (cases mp) simp

text \<open>The whole of \<^verbatim>\<open>rmfree\<close> on a well-formed map: no panic, no fault.\<close>

lemma rmfree_map:
  assumes wf: "rmap_wf mp" and n: "0 < n" and clear: "clear_of a n (free_segs mp)"
    and lim: "a + n < two32" and two: "2 \<le> length (m_ep mp)"
  obtains rest where "rmfree mp n a = Ret
      (if closes_gap (free_segs mp) n a then 0 else seg_len_at (seg_free n a (free_segs mp)) a,
       mp\<lparr>m_ep := enc (rmfree_segs mp n a) @ delim # rest, m_lost := m_lost mp @ rmfree_lost mp n a\<rparr>)"
    and "length (rmfree_segs mp n a) + length rest + 1 = length (m_ep mp)"
proof -
  obtain rest where ok: "segs_ok two32 0 (free_segs mp)"
    and ep: "m_ep mp = enc (free_segs mp) @ delim # rest"
    and limit: "m_limit mp = length (m_ep mp)"
    using wf by (rule rmap_wfE)
  obtain us vs where xs: "free_segs mp = us @ vs"
    and us: "us = takeWhile (\<lambda>(b, s). b \<le> a) (free_segs mp)"
    and vs: "vs = dropWhile (\<lambda>(b, s). b \<le> a) (free_segs mp)"
    and below: "\<forall>(b, s) \<in> set us. b + s \<le> a"
    and above: "\<And>c t vs'. vs = (c, t) # vs' \<Longrightarrow> a + n \<le> c"
    using free_split [OF ok clear n] by metis
  have scan: "rmfree_scan a (m_ep mp) = Ret (enc us, enc vs @ delim # rest)"
    unfolding ep us vs by (rule rmfree_scan_enc [OF ok])
  have len: "length (m_ep mp) = length us + length vs + 1 + length rest"
    by (simp add: ep xs)
  have oku: "segs_ok two32 0 us" using ok segs_ok_prefix by (simp add: xs)
  have okv: "segs_ok two32 a vs" "segs_ok two32 0 vs"
    using segs_ok_suffix [of two32 0 us vs] ok above n by (cases vs; fastforce simp: xs)+
  have lenv: "seg_len_at vs a = 0" using okv(1) by (rule seg_len_at_above)
  note gap = closes_gap_iff [OF oku okv(1) n below above]
  show ?thesis
  proof (cases "\<exists>us' b s. us = us' @ [(b, s)] \<and> b + s = a")
    case True
    then obtain us' b s where us': "us = us' @ [(b, s)]" "b + s = a" by blast
    have ok': "segs_ok two32 0 (us' @ [(b, s)] @ vs)" using ok by (simp add: xs us')
    have s: "0 < s" using segs_ok_append [of two32 0 us' b s vs] ok' by simp
    have len': "seg_len_at us' a = 0" using below by (intro seg_len_at_below) (simp add: us')
    note free = segs_ok_abut_free [OF ok' us'(2) n above, folded append_assoc us'(1)]
    show ?thesis
    proof (cases "\<exists>c t vs'. vs = (c, t) # vs' \<and> a + n = c")
      case both: True
      then obtain c t vs' where v: "vs = (c, t) # vs'" "a + n = c" by blast
      have zs: "seg_free n a (free_segs mp) = us' @ (b, s + n + t) # vs'"
        using free v by (simp add: xs us')
      have segs: "rmfree_segs mp n a = us' @ (b, s + n + t) # vs'" "rmfree_lost mp n a = []"
        using len by (auto simp: rmfree_segs_def rmfree_lost_def zs us' v split: prod.split)
      have "rmfree mp n a =
          Ret (0, mp\<lparr>m_ep := enc (us' @ (b, s + n + t) # vs') @ delim # delim # rest\<rparr>)"
        using scan ok' ep us'(2) v(2) n by (intro rmfree_both) (auto simp: us' v xs)
      then show ?thesis using gap us' v len
        by (intro that [of "delim # rest"]) (auto simp: segs xs)
    next
      case left: False
      then have above': "\<And>c t vs'. vs = (c, t) # vs' \<Longrightarrow> a + n < c" using above by fastforce
      have zs: "seg_free n a (free_segs mp) = us' @ (b, s + n) # vs"
        using free left by (cases vs) (auto simp: xs us')
      have segs: "rmfree_segs mp n a = us' @ (b, s + n) # vs" "rmfree_lost mp n a = []"
        using len by (auto simp: rmfree_segs_def rmfree_lost_def zs us' split: prod.split)
      have "rmfree mp n a = Ret (s + n, mp\<lparr>m_ep := enc (us' @ (b, s + n) # vs) @ delim # rest\<rparr>)"
        using scan by (intro rmfree_left [OF _ ok' us'(2) n above' lim]) (simp_all add: us')
      moreover have "\<not> closes_gap (free_segs mp) n a" using gap left by (auto simp: xs)
      ultimately show ?thesis using len n us' len' lenv
        by (intro that [of rest]) (auto simp: segs zs)
    qed
  next
    case False
    have strict: "\<forall>(b, s) \<in> set us. b + s < a"
      using False ends_at_last [OF oku below] below by fastforce
    have nogap: "\<not> closes_gap (free_segs mp) n a" using gap False by (auto simp: xs)
    have lenu: "seg_len_at us a = 0" using below by (rule seg_len_at_below)
    note free = seg_free_above [of us a n vs, OF strict n above]
    show ?thesis
    proof (cases "\<exists>c t vs'. vs = (c, t) # vs' \<and> a + n = c")
      case right: True
      then obtain c t vs' where v: "vs = (c, t) # vs'" "a + n = c" by blast
      have zs: "seg_free n a (free_segs mp) = us @ (a, n + t) # vs'"
        using free v by (simp add: xs)
      have segs: "rmfree_segs mp n a = us @ (a, n + t) # vs'" "rmfree_lost mp n a = []"
        using len by (auto simp: rmfree_segs_def rmfree_lost_def zs v split: prod.split)
      have "rmfree mp n a = Ret (n + t, mp\<lparr>m_ep := enc (us @ (a, n + t) # vs') @ delim # rest\<rparr>)"
        using scan ok by (intro rmfree_right [OF _ _ strict v(2) n]) (simp_all add: v xs)
      then show ?thesis using len n nogap lenu lenv v
        by (intro that [of rest]) (auto simp: segs zs)
    next
      case alone: False
      then have above': "\<And>c t vs'. vs = (c, t) # vs' \<Longrightarrow> a + n < c" using above by fastforce
      define zs where "zs = us @ (a, n) # vs"
      have zs': "seg_free n a (free_segs mp) = zs"
        using free alone by (cases vs) (auto simp: xs zs_def)
      have eq: "rmfree mp n a = rmfree_new mp (enc us) (enc vs @ delim # rest) n a"
        using ok by (intro rmfree_alone [OF scan _ strict above' lim]) (simp_all add: xs)
      note new = rmfree_new_enc [OF okv(2) ep [unfolded xs] limit two, of n a, folded zs_def]
      have l: "seg_len_at zs a = n" using lenu lenv n by (simp add: zs_def)
      have lz: "length zs < length (m_ep mp) \<longleftrightarrow> rest \<noteq> []" using len by (cases rest) (auto simp: zs_def)
      show ?thesis
      proof (cases "rest = []")
        case True
        have "length (rm_discard zs) + 1 = length zs"
          using two len True by (auto simp: rm_discard_def zs_def)
        then show ?thesis using new True nogap lz len l
          by (intro that [of "[]"])
            (auto simp: eq rmfree_segs_def rmfree_lost_def zs' Let_def zs_def split: prod.split)
      next
        case False
        then show ?thesis using new nogap lz len l
          by (intro that [of "tl rest"])
            (auto simp: eq rmfree_segs_def rmfree_lost_def zs' Let_def zs_def split: prod.split)
      qed
    qed
  qed
qed

lemma free_segs_update:
  assumes "segs_ok two32 0 ys"
  shows "free_segs (mp\<lparr>m_ep := enc ys @ delim # rest, m_lost := l\<rparr>) = ys"
    and "free_segs (mp\<lparr>m_ep := enc ys @ delim # rest\<rparr>) = ys"
  using free_segs_enc [OF assms] by simp_all

lemma rmap_wf_update:
  assumes "segs_ok two32 0 ys" and "rmap_wf mp"
    and "length ys + length rest + 1 = length (m_ep mp)"
  shows "rmap_wf (mp\<lparr>m_ep := enc ys @ delim # rest, m_lost := l\<rparr>)"
    and "rmap_wf (mp\<lparr>m_ep := enc ys @ delim # rest\<rparr>)"
  using assms(2,3) by (auto simp: rmap_wf_def free_segs_update [OF assms(1)] assms(1) nth_append)

lemma rmfree_segs_ok:
  assumes "rmap_wf mp" and "0 < n" and "clear_of a n (free_segs mp)"
    and "0 < a" and "a + n < two32" and "2 \<le> length (m_ep mp)"
  shows "segs_ok two32 0 (rmfree_segs mp n a)"
proof -
  have "segs_ok two32 0 (seg_free n a (free_segs mp))"
    using assms by (intro seg_free_ok) (simp_all add: rmap_wf_def)
  then show ?thesis
    using assms(6) by (auto simp: rmfree_segs_def Let_def intro: rm_discard_ok)
qed

section \<open>Allocation at a given address\<close>

fun seg_take :: "nat \<Rightarrow> nat \<Rightarrow> seg list \<Rightarrow> seg list option" where
  "seg_take n a [] = None"
| "seg_take n a ((b, s) # xs) =
     (if b \<le> a \<and> a < b + s then
        (if a + n \<le> b + s
         then Some ((if b < a then [(b, a - b)] else [])
                @ (if a + n < b + s then [(a + n, b + s - (a + n))] else []) @ xs)
         else None)
      else if a < b then None
      else map_option (Cons (b, s)) (seg_take n a xs))"

lemma seg_take_skip:
  "segs_ok lim lo us \<Longrightarrow> \<forall>(b, s) \<in> set us. b + s \<le> a \<Longrightarrow>
   seg_take n a (us @ vs) = map_option (append us) (seg_take n a vs)"
proof (induction us arbitrary: lo)
  case (Cons y us)
  obtain b s where y: "y = (b, s)" by (cases y)
  show ?case using Cons.IH [of "b + s"] Cons.prems
    by (auto simp: y option.map_comp o_def)
qed (simp add: option.map_ident_strong)

lemma seg_take_units:
  assumes "segs_ok lim lo xs" and "seg_take n a xs = Some ys" and "0 < n"
  shows "segs_ok lim lo ys \<and> {a..<a + n} \<subseteq> units xs \<and> units ys = units xs - {a..<a + n}"
  using assms
proof (induction n a xs arbitrary: lo ys rule: seg_take.induct)
  case (2 n a b s xs)
  have ok: "lo < b" "0 < s" "b + s < lim" "segs_ok lim (b + s) xs" using "2.prems" by auto
  have clear: "clear_of b s xs" using ok(4) by (rule clear_of_above)
  show ?case
  proof (cases "b \<le> a \<and> a < b + s")
    case True
    then have le: "a + n \<le> b + s" and ys: "ys = (if b < a then [(b, a - b)] else [])
        @ (if a + n < b + s then [(a + n, b + s - (a + n))] else []) @ xs"
      using "2.prems" by (auto split: if_splits)
    have "segs_ok lim lo ys"
      using ok True le "2.prems"(3) segs_ok_weaken [OF ok(4)] by (auto simp: ys)
    moreover have "units ys = units ((b, s) # xs) - {a..<a + n}"
      using True le by (auto simp: ys dest: clear_of_units [OF clear])
    moreover have "{a..<a + n} \<subseteq> units ((b, s) # xs)" using True le by auto
    ultimately show ?thesis by blast
  next
    case False
    with "2.prems" obtain zs where zs: "seg_take n a xs = Some zs" and ys: "ys = (b, s) # zs"
      and b: "b + s \<le> a" by (auto split: if_splits)
    have IH: "segs_ok lim (b + s) zs" "{a..<a + n} \<subseteq> units xs"
      "units zs = units xs - {a..<a + n}"
      using "2.IH" [OF False _ ok(4) zs "2.prems"(3)] b ok(2) by auto
    have "{b..<b + s} \<inter> {a..<a + n} = {}" using b by simp
    then have "units ys = units ((b, s) # xs) - {a..<a + n}"
      by (simp add: ys IH(3) Un_Diff Diff_triv)
    moreover have "{a..<a + n} \<subseteq> units ((b, s) # xs)" using IH(2) by (simp add: le_supI2)
    ultimately show ?thesis using ok IH(1) by (simp add: ys)
  qed
qed simp

lemma seg_take_None:
  assumes "segs_ok lim lo xs" and "seg_take n a xs = None" and "0 < n"
  shows "\<not> {a..<a + n} \<subseteq> units xs"
  using assms
proof (induction n a xs arbitrary: lo rule: seg_take.induct)
  case (2 n a b s xs)
  have ok: "0 < s" "segs_ok lim (b + s) xs" using "2.prems" by auto
  consider "b \<le> a" "a < b + s" "b + s < a + n" | "a < b" | "b + s \<le> a"
    using "2.prems"(2) by (fastforce split: if_splits)
  then show ?case
  proof cases
    case 1
    then have "b + s \<in> {a..<a + n}" "b + s \<notin> units ((b, s) # xs)"
      using units_lower [OF ok(2)] by auto
    then show ?thesis by blast
  next
    case 2
    have "a \<notin> units ((b, s) # xs)" using 2 units_lower [OF ok(2), of a] by auto
    moreover have "a \<in> {a..<a + n}" using "2.prems"(3) by simp
    ultimately show ?thesis by blast
  next
    case 3
    then have "seg_take n a xs = None" using "2.prems"(2) ok(1) by (auto split: if_splits)
    then have "\<not> {a..<a + n} \<subseteq> units xs"
      using "2.IH" [OF _ _ ok(2) _ "2.prems"(3)] 3 ok(1) by auto
    then obtain x where "x \<in> {a..<a + n}" "x \<notin> units xs" by blast
    moreover have "x \<notin> {b..<b + s}" using 3 \<open>x \<in> {a..<a + n}\<close> by simp
    ultimately show ?thesis by auto
  qed
qed simp

lemma seg_take_length: "seg_take n a xs = Some ys \<Longrightarrow> length ys \<le> Suc (length xs)"
  by (induction n a xs arbitrary: ys rule: seg_take.induct) (auto split: if_splits)

lemma rmget_scan_enc:
  "segs_ok two32 lo xs \<Longrightarrow> rmget_scan True n a (enc xs @ delim # rest) =
    (let us = takeWhile (\<lambda>(b, s). b + s \<le> a) xs; vs = dropWhile (\<lambda>(b, s). b + s \<le> a) xs
     in if vs \<noteq> [] \<and> a < fst (hd vs) then Ret None
        else Ret (Some (enc us, enc vs @ delim # rest, a)))"
proof (induction xs arbitrary: lo)
  case (Cons y ys)
  obtain b s where y: "y = (b, s)" by (cases y)
  show ?case using Cons.IH [of "b + s"] Cons.prems by (auto simp: y Let_def add32_id)
qed simp

lemma rmget_map:
  assumes wf: "rmap_wf mp" and n: "0 < n" and lim: "a + n < two32"
  shows "case seg_take n a (free_segs mp) of
      None \<Rightarrow> rmget mp n a = Ret (0, mp)
    | Some ys \<Rightarrow>
        (if length ys < length (m_ep mp)
         then \<exists>rest. rmget mp n a = Ret (a, mp\<lparr>m_ep := enc ys @ delim # rest\<rparr>)
                \<and> length ys + length rest + 1 = length (m_ep mp)
         else rmget mp n a = Ret (0, mp))"
proof -
  obtain rest where ok: "segs_ok two32 0 (free_segs mp)"
    and ep: "m_ep mp = enc (free_segs mp) @ delim # rest"
    and limit: "m_limit mp = length (m_ep mp)"
    using wf by (rule rmap_wfE)
  define us where "us = takeWhile (\<lambda>(b, s). b + s \<le> a) (free_segs mp)"
  define vs where "vs = dropWhile (\<lambda>(b, s). b + s \<le> a) (free_segs mp)"
  have xs: "free_segs mp = us @ vs" by (simp add: us_def vs_def)
  have below: "\<forall>(b, s) \<in> set us. b + s \<le> a" by (auto simp: us_def dest: set_takeWhileD)
  have take: "seg_take n a (free_segs mp) = map_option (append us) (seg_take n a vs)"
    using seg_take_skip [OF segs_ok_prefix below] ok by (simp add: xs)
  have scan: "rmget_scan True n a (m_ep mp) =
      (if vs \<noteq> [] \<and> a < fst (hd vs) then Ret None
       else Ret (Some (enc us, enc vs @ delim # rest, a)))"
    using rmget_scan_enc [OF ok, of n a rest] by (simp add: ep us_def vs_def Let_def)
  have len: "length (m_ep mp) = length us + length vs + 1 + length rest"
    by (simp add: ep xs)
  show ?thesis
  proof (cases vs)
    case Nil
    then show ?thesis using take scan by (simp add: rmget_def do_rmget_def Let_def)
  next
    case (Cons y ws)
    obtain b s where y: "y = (b, s)" by (cases y)
    have bs: "a < b + s"
      using Cons y dropWhile_eq_Cons_conv [of "\<lambda>(b, s). b + s \<le> a" "free_segs mp" "(b, s)" ws]
      by (auto simp: vs_def)
    have okv: "b + s < two32" "0 < s" "segs_ok two32 (b + s) ws"
      using segs_ok_append [of two32 0 us b s ws] ok by (auto simp: xs Cons y)
    note step = rmget_def do_rmget_def scan Let_def add32_id sub32_id
    consider "a < b" | "b \<le> a" "b + s < a + n" | "b = a" "b + s = a + n" | "b = a" "a + n < b + s"
      | "b < a" "b + s = a + n" | "b < a" "a + n < b + s" by linarith
    then show ?thesis
    proof cases
      case 3
      have "shift_while (enc vs @ delim # rest) = Ret (enc ws @ delim # delim # rest, Suc (length ws))"
        using okv shift_do_enc [of two32 "b + s" ws] by (simp add: Cons y)
      then show ?thesis using 3 okv take n len Cons y
        by (auto simp: step intro!: exI [of _ "delim # rest"])
    next
      case 5
      then have "s - n = a - b" by linarith
      then show ?thesis using 5 okv take n lim len bs Cons y by (auto simp: step)
    next
      case 6
      have fd: "find_delim (enc vs @ delim # rest) = Ret (Suc (length ws))"
        using okv find_delim_enc [of two32 "b + s" ws] by (simp add: Cons y)
      have ys: "seg_take n a (free_segs mp) =
          Some (us @ (b, a - b) # (a + n, b + s - (a + n)) # ws)"
        using take 6 bs by (simp add: Cons y)
      show ?thesis
      proof (cases rest)
        case Nil
        then show ?thesis using 6 okv fd limit len lim by (simp add: ys step Cons y)
      next
        case (Cons r rs)
        then show ?thesis using 6 okv fd limit len lim
          by (auto simp: ys step \<open>vs = y # ws\<close> y intro!: exI [of _ rs])
      qed
    qed (use okv take n lim len bs Cons y in \<open>auto simp: step\<close>)
  qed
qed

section \<open>The resource map as an extent allocator\<close>

lemma rmfree_overlap:
  assumes wf: "rmap_wf mp" and n: "0 < n" and lim: "a + n < two32"
    and clash: "\<not> clear_of a n (free_segs mp)"
  shows "\<exists>msg. rmfree mp n a = Panic msg"
proof -
  obtain rest where ok: "segs_ok two32 0 (free_segs mp)"
    and ep: "m_ep mp = enc (free_segs mp) @ delim # rest"
    using wf by (rule rmap_wfE)
  define us where "us = takeWhile (\<lambda>(b, s). b \<le> a) (free_segs mp)"
  define vs where "vs = dropWhile (\<lambda>(b, s). b \<le> a) (free_segs mp)"
  have xs: "free_segs mp = us @ vs" by (simp add: us_def vs_def)
  have scan: "rmfree_scan a (m_ep mp) = Ret (enc us, enc vs @ delim # rest)"
    unfolding ep us_def vs_def by (rule rmfree_scan_enc [OF ok])
  show ?thesis
  proof (cases "\<exists>us' b s. us = us' @ [(b, s)] \<and> a < b + s")
    case True
    then obtain us' b s where us': "us = us' @ [(b, s)]" "a < b + s" by blast
    have "b + s < two32" using segs_ok_above [OF ok, of b s] by (simp add: xs us')
    then show ?thesis using us' by (simp add: rmfree_def scan Let_def add32_id)
  next
    case False
    have below: "\<forall>(b, s) \<in> set us. b + s \<le> a"
    proof (cases us rule: rev_cases)
      case (snoc us' y)
      obtain b s where y: "y = (b, s)" by (cases y)
      have "b + s \<le> a" using False snoc y by auto
      moreover have "c + t < b" if "(c, t) \<in> set us'" for c t
        using segs_ok_ends [of two32 0 us' b s c t] that ok segs_ok_prefix
        by (simp add: xs snoc y)
      ultimately show ?thesis by (fastforce simp: snoc y)
    qed simp
    have vs_a: "segs_ok two32 a vs" unfolding vs_def by (rule segs_ok_dropWhile [OF ok])
    have not_clear: "\<not> clear_of a n vs"
      using clash clear_of_below [OF below] by (simp add: xs)
    then obtain c t ws where v: "vs = (c, t) # ws" by (cases vs) auto
    have "\<not> a + n \<le> c"
    proof
      assume le: "a + n \<le> c"
      have ws: "segs_ok two32 (c + t) ws" using vs_a by (simp add: v)
      have "segs_ok two32 (a + n) ws" using le by (intro segs_ok_weaken [OF ws]) simp
      then have "clear_of a n ws" by (rule clear_of_above)
      then show False using not_clear le by (simp add: v)
    qed
    then have hit: "c < a + n" by simp
    have "a < c" "0 < t" using vs_a by (simp_all add: v)
    moreover have "us = [] \<or> add32 (m_addr (last (enc us))) (m_size (last (enc us))) \<le> a"
    proof (cases us rule: rev_cases)
      case (snoc us' y)
      obtain b s where y: "y = (b, s)" by (cases y)
      have "b + s < two32" using segs_ok_above [OF ok, of b s] by (simp add: xs snoc y)
      then show ?thesis using below by (simp add: snoc y add32_id)
    qed simp
    ultimately show ?thesis using v hit lim
      by (auto simp: rmfree_def scan Let_def add32_id)
  qed
qed

definition rmap_inv :: "rmap \<Rightarrow> bool" where
  "rmap_inv mp \<longleftrightarrow> rmap_wf mp \<and> 2 \<le> length (m_ep mp)"

text \<open>A request that the map grants, and a free that loses nothing.\<close>

definition rm_grant :: "rmap \<Rightarrow> nat \<Rightarrow> (nat \<times> rmap) option" where
  "rm_grant mp n = (case rmalloc mp n of Ret (r, mp') \<Rightarrow> if r = 0 then None else Some (r, mp') | _ \<Rightarrow> None)"

definition rm_return :: "rmap \<Rightarrow> nat \<Rightarrow> nat \<Rightarrow> rmap option" where
  "rm_return mp n a =
     (case rmfree mp n a of Ret (_, mp') \<Rightarrow> if m_lost mp' = m_lost mp then Some mp' else None | _ \<Rightarrow> None)"

lemma rm_grant_Some:
  assumes inv: "rmap_inv mp" and n: "0 < n" and g: "rm_grant mp n = Some (r, mp')"
  shows "rmap_inv mp' \<and> seg_alloc n (free_segs mp) = Some (r, free_segs mp')"
proof -
  have wf: "rmap_wf mp" using inv by (simp add: rmap_inv_def)
  obtain mp2 where m2: "rmap_wf mp2" "m_limit mp2 = m_limit mp"
    and c: "case seg_alloc n (free_segs mp) of
           None \<Rightarrow> rmalloc mp n = Ret (0, mp) \<and> mp2 = mp
         | Some (r, ys) \<Rightarrow> rmalloc mp n = Ret (r, mp2) \<and> free_segs mp2 = ys"
    using rmalloc_refines [OF wf n] by metis
  have "seg_alloc n (free_segs mp) = Some (r, free_segs mp2) \<and> mp2 = mp'"
    using c g by (auto simp: rm_grant_def split: option.splits if_splits)
  then show ?thesis using m2 inv by (auto simp: rmap_inv_def rmap_wf_def)
qed

lemma rm_return_Some:
  assumes inv: "rmap_inv mp" and n: "0 < n" and a: "0 < a" "a + n < two32"
    and g: "rm_return mp n a = Some mp'"
  shows "rmap_inv mp' \<and> clear_of a n (free_segs mp) \<and> free_segs mp' = seg_free n a (free_segs mp)"
proof -
  have wf: "rmap_wf mp" and two: "2 \<le> length (m_ep mp)" using inv by (simp_all add: rmap_inv_def)
  have clear: "clear_of a n (free_segs mp)"
    using rmfree_overlap [OF wf n a(2)] g by (auto simp: rm_return_def split: outcome.splits)
  obtain rest where fr: "rmfree mp n a = Ret
      (if closes_gap (free_segs mp) n a then 0 else seg_len_at (seg_free n a (free_segs mp)) a,
       mp\<lparr>m_ep := enc (rmfree_segs mp n a) @ delim # rest, m_lost := m_lost mp @ rmfree_lost mp n a\<rparr>)"
    and len: "length (rmfree_segs mp n a) + length rest + 1 = length (m_ep mp)"
    using rmfree_map [OF wf n clear a(2) two] by metis
  note ok = rmfree_segs_ok [OF wf n clear a two]
  have lost: "rmfree_lost mp n a = []"
    and mp': "mp' = mp\<lparr>m_ep := enc (rmfree_segs mp n a) @ delim # rest, m_lost := m_lost mp @ []\<rparr>"
    using g by (auto simp: rm_return_def fr split: if_splits)
  have segs: "rmfree_segs mp n a = seg_free n a (free_segs mp)"
    using lost by (auto simp: rmfree_segs_def rmfree_lost_def Let_def split: if_splits prod.splits)
  have "rmap_wf mp'" unfolding mp' by (rule rmap_wf_update [OF ok wf len])
  moreover have "length (m_ep mp') = length (m_ep mp)" using len by (simp add: mp')
  ultimately show ?thesis
    using two clear segs free_segs_update [OF ok] by (simp add: rmap_inv_def mp')
qed

interpretation rm: extent_allocator rm_grant rm_return "\<lambda>mp. units (free_segs mp)" rmap_inv two32
proof
  fix m r m' and n :: nat
  assume i: "rmap_inv m" "0 < n" "rm_grant m n = Some (r, m')"
  have ok: "segs_ok two32 0 (free_segs m)" using i by (simp add: rmap_inv_def rmap_wf_def)
  note g = rm_grant_Some [OF i]
  note t = seg_alloc_take [OF ok conjunct2 [OF g] i(2)]
  show "rmap_inv m'" using g by simp
  show "{r..<r + n} \<subseteq> units (free_segs m) \<and>
    units (free_segs m') = units (free_segs m) - {r..<r + n}" using t by simp
  have "r + n - 1 \<in> units (free_segs m)" using t i(2) by auto
  then show "0 < r \<and> r + n < two32" using t units_upper_end [OF ok] i(2) by fastforce
next
  fix m m' and n a :: nat
  assume i: "rmap_inv m" "0 < n" "0 < a" "a + n < two32" and
    "{a..<a + n} \<inter> units (free_segs m) = {}" and r: "rm_return m n a = Some m'"
  have ok: "segs_ok two32 0 (free_segs m)" using i by (simp add: rmap_inv_def rmap_wf_def)
  note g = rm_return_Some [OF i r]
  show "rmap_inv m'" using g by simp
  show "units (free_segs m') = units (free_segs m) \<union> {a..<a + n}"
    using g seg_free_units [OF ok _ i(2)] by simp
qed

lemma rm_discard_units:
  assumes "segs_ok lim lo zs" and "2 \<le> length zs" and "zs ! (length zs - 2) = (b, s)"
  shows "units (rm_discard zs) = units zs - {b..<b + s}" and "b + s < lim"
proof -
  let ?us = "take (length zs - 2) zs"
  have ne: "zs \<noteq> []" using assms(2) by auto
  have "zs = ?us @ zs ! (length zs - 2) # drop (Suc (length zs - 2)) zs"
    using assms(2) by (simp add: id_take_nth_drop)
  moreover have "drop (Suc (length zs - 2)) zs = [last zs]"
    using assms(2) ne by (intro nth_equalityI) (auto simp: last_conv_nth numeral_2_eq_2 Suc_diff_Suc)
  ultimately have zs: "zs = ?us @ (b, s) # [last zs]" using assms(3) by simp
  show "units (rm_discard zs) = units zs - {b..<b + s}"
    using units_split [of lim lo ?us b s "[last zs]"] assms(1) zs
    by (simp only: rm_discard_def zs [symmetric])
  show "b + s < lim"
    using segs_ok_append [of lim lo ?us b s "[last zs]"] assms(1) zs by simp
qed

section \<open>Properties\<close>

definition rm_example :: rmap where
  "rm_example = \<lparr>m_limit = 5, m_ep = [\<lparr>m_size = 10, m_addr = 5\<rparr>, \<lparr>m_size = 6, m_addr = 20\<rparr>,
     delim, delim, delim], m_lost = []\<rparr>"

lemma rm_example_wf [simp]:
  "rmap_wf rm_example" "free_segs rm_example = [(5, 10), (20, 6)]"
  "length (m_ep rm_example) = 5" "m_lost rm_example = []"
  by (simp_all add: rm_example_def rmap_wf_def free_segs_def)

lemma first_fit_hd:
  "seg_alloc n xs = Some (r, ys) \<Longrightarrow> r = fst (hd (filter (\<lambda>(a, s). n \<le> s) xs))"
  by (induction n xs arbitrary: r ys rule: seg_alloc.induct) (auto split: if_splits)

text \<open>
  C1. On a well-formed resource map \<^verbatim>\<open>rmalloc\<close> never panics and never leaves the array.
  When some segment is large enough it returns the base of the first such segment, takes
  exactly the requested units out of the free set and keeps the map well-formed;
  otherwise it returns 0 and changes nothing.
\<close>

theorem rmalloc_first_fit:
  assumes "rmap_wf mp" and "0 < n"
  shows "\<exists>r mp'. rmalloc mp n = Ret (r, mp') \<and> rmap_wf mp' \<and> m_lost mp' = m_lost mp \<and>
    (if \<exists>(a, s) \<in> set (free_segs mp). n \<le> s
     then r = fst (hd (filter (\<lambda>(a, s). n \<le> s) (free_segs mp))) \<and> 0 < r \<and>
          {r..<r + n} \<subseteq> units (free_segs mp) \<and>
          units (free_segs mp') = units (free_segs mp) - {r..<r + n}
     else r = 0 \<and> mp' = mp)"
proof -
  obtain mp' where m: "rmap_wf mp'" "m_lost mp' = m_lost mp"
    and c: "case seg_alloc n (free_segs mp) of
           None \<Rightarrow> rmalloc mp n = Ret (0, mp) \<and> mp' = mp
         | Some (r, ys) \<Rightarrow> rmalloc mp n = Ret (r, mp') \<and> free_segs mp' = ys"
    using rmalloc_refines [OF assms] by metis
  have ok: "segs_ok two32 0 (free_segs mp)" using assms(1) by (simp add: rmap_wf_def)
  show ?thesis
  proof (cases "seg_alloc n (free_segs mp)")
    case None
    then have "\<not> (\<exists>(a, s) \<in> set (free_segs mp). n \<le> s)" by (auto simp: seg_alloc_None)
    then show ?thesis using c m None by auto
  next
    case (Some p)
    then obtain r ys where p: "seg_alloc n (free_segs mp) = Some (r, ys)" by (cases p) auto
    then have "\<exists>(a, s) \<in> set (free_segs mp). n \<le> s"
      using seg_alloc_None [of n "free_segs mp"] by fastforce
    then show ?thesis
      using c m p seg_alloc_take [OF ok p assms(2)] first_fit_hd [OF p] by auto
  qed
qed

theorem rmalloc_first_fit_witness:
  "\<exists>mp'. rmalloc rm_example 7 = Ret (5, mp') \<and> units (free_segs mp') = {12..<15} \<union> {20..<26}"
proof -
  have "rmalloc rm_example 7 = Ret (5, rm_example\<lparr>m_ep := [\<lparr>m_size = 3, m_addr = 12\<rparr>,
      \<lparr>m_size = 6, m_addr = 20\<rparr>, delim, delim, delim]\<rparr>)"
    by (simp add: rmalloc_def rm_example_def Let_def add32_def sub32_def)
  then show ?thesis
    using rmalloc_first_fit [OF rm_example_wf(1), of 7] by (auto simp: ivl_disj_un)
qed

text \<open>
  C2. Returning units that are not already free never panics and never leaves the array.
  The map stays well-formed, and every unit is accounted for: the free set grows by the
  returned units, minus the one segment that a full map discards and reports on the
  console. Nothing is discarded while the map has a spare slot.
\<close>

theorem rmfree_accounts:
  assumes "rmap_wf mp" and "2 \<le> length (m_ep mp)" and "0 < n" and "0 < a" and "a + n < two32"
    and "{a..<a + n} \<inter> units (free_segs mp) = {}"
  shows "\<exists>r mp' lost. rmfree mp n a = Ret (r, mp') \<and> rmap_wf mp' \<and>
    m_lost mp' = m_lost mp @ lost \<and> length lost \<le> 1 \<and>
    units (free_segs mp') = (units (free_segs mp) \<union> {a..<a + n}) - (\<Union>(b, e) \<in> set lost. {b..<e}) \<and>
    (length (free_segs mp) + 1 < length (m_ep mp) \<longrightarrow> lost = [])"
proof -
  have ok: "segs_ok two32 0 (free_segs mp)" using assms(1) by (simp add: rmap_wf_def)
  have clear: "clear_of a n (free_segs mp)"
    using units_disjoint_clear_of [OF ok assms(3)] assms(6) by blast
  let ?zs = "seg_free n a (free_segs mp)"
  obtain r rest where fr: "rmfree mp n a = Ret (r, mp\<lparr>m_ep := enc (rmfree_segs mp n a) @ delim # rest,
      m_lost := m_lost mp @ rmfree_lost mp n a\<rparr>)"
    and len: "length (rmfree_segs mp n a) + length rest + 1 = length (m_ep mp)"
    using rmfree_map [OF assms(1,3) clear assms(5,2)] by metis
  note ok' = rmfree_segs_ok [OF assms(1,3) clear assms(4,5,2)]
  have zs: "segs_ok two32 0 ?zs" "units ?zs = units (free_segs mp) \<union> {a..<a + n}"
    using seg_free_ok [OF ok clear assms(3-5)] seg_free_units [OF ok clear assms(3)] by auto
  have units': "units (rmfree_segs mp n a) =
      units ?zs - (\<Union>(b, e) \<in> set (rmfree_lost mp n a). {b..<e})"
  proof (cases "length ?zs < length (m_ep mp)")
    case True
    then show ?thesis by (auto simp: rmfree_segs_def rmfree_lost_def Let_def split: prod.split)
  next
    case False
    obtain b s where bs: "?zs ! (length ?zs - 2) = (b, s)" by (cases "?zs ! (length ?zs - 2)")
    note d = rm_discard_units [OF zs(1) _ bs]
    show ?thesis
      using False assms(2) d by (simp add: rmfree_segs_def rmfree_lost_def Let_def bs add32_id)
  qed
  have "length (free_segs mp) + 1 < length (m_ep mp) \<longrightarrow> rmfree_lost mp n a = []"
    using seg_free_length [of n a "free_segs mp"]
    by (auto simp: rmfree_lost_def Let_def split: prod.split)
  moreover have "length (rmfree_lost mp n a) \<le> 1"
    by (auto simp: rmfree_lost_def Let_def split: prod.split)
  ultimately show ?thesis
    using fr units' zs(2) free_segs_update(1) [OF ok'] rmap_wf_update(1) [OF ok' assms(1) len]
    by (intro exI conjI) (assumption | simp)+
qed

theorem rmfree_accounts_witness:
  "rmfree rm_example 3 16 = Ret (3, rm_example\<lparr>m_ep := [\<lparr>m_size = 10, m_addr = 5\<rparr>,
     \<lparr>m_size = 3, m_addr = 16\<rparr>, \<lparr>m_size = 6, m_addr = 20\<rparr>, delim, delim]\<rparr>) \<and>
   (\<exists>r mp'. rmfree rm_example 3 16 = Ret (r, mp') \<and>
      units (free_segs mp') = units (free_segs rm_example) \<union> {16..<19})"
proof -
  have "{16..<16 + 3} \<inter> units (free_segs rm_example) = {}" by auto
  then obtain r mp' lost where p: "rmfree rm_example 3 16 = Ret (r, mp')"
    "units (free_segs mp') = (units (free_segs rm_example) \<union> {16..<16 + 3})
       - (\<Union>(b, e) \<in> set lost. {b..<e})"
    "length (free_segs rm_example) + 1 < length (m_ep rm_example) \<longrightarrow> lost = []"
    using rmfree_accounts [OF rm_example_wf(1), of 3 16] by auto
  have c: "rmfree rm_example 3 16 = Ret (3, rm_example\<lparr>m_ep := [\<lparr>m_size = 10, m_addr = 5\<rparr>,
     \<lparr>m_size = 3, m_addr = 16\<rparr>, \<lparr>m_size = 6, m_addr = 20\<rparr>, delim, delim]\<rparr>)"
    by (simp add: rmfree_def rmfree_new_def rm_example_def Let_def add32_def)
  have "lost = []" using p(3) by simp
  then have "units (free_segs mp') = units (free_segs rm_example) \<union> {16..<19}"
    using p(2) by simp
  then show ?thesis using c p(1) by blast
qed

text \<open>
  C3. \<^verbatim>\<open>rmfree\<close> panics exactly when some of the returned units are free already: its three
  checks catch every double free, and nothing else.
\<close>

theorem rmfree_panics_iff_overlap:
  assumes "rmap_wf mp" and "2 \<le> length (m_ep mp)" and "0 < n" and "0 < a" and "a + n < two32"
  shows "(\<exists>msg. rmfree mp n a = Panic msg) \<longleftrightarrow> {a..<a + n} \<inter> units (free_segs mp) \<noteq> {}"
proof -
  have ok: "segs_ok two32 0 (free_segs mp)" using assms(1) by (simp add: rmap_wf_def)
  show ?thesis
  proof (cases "clear_of a n (free_segs mp)")
    case True
    then show ?thesis
      using rmfree_map [OF assms(1,3) True assms(5,2)] units_disjoint_clear_of [OF ok assms(3)]
      by (metis outcome.distinct(1))
  next
    case False
    then show ?thesis
      using rmfree_overlap [OF assms(1,3,5)] units_disjoint_clear_of [OF ok assms(3)] by metis
  qed
qed

theorem rmfree_panics_iff_overlap_witness:
  "(\<exists>msg. rmfree rm_example 4 12 = Panic msg) \<and> 12 \<in> units (free_segs rm_example)"
proof -
  have "12 \<in> {12..<12 + 4} \<inter> units (free_segs rm_example)" by simp
  then have "{12..<12 + 4} \<inter> units (free_segs rm_example) \<noteq> {}" by blast
  then show ?thesis
    using rmfree_panics_iff_overlap [OF rm_example_wf(1), of 4 12] by simp
qed

text \<open>
  \<^verbatim>\<open>rmget\<close> takes the units at the given address exactly when all of them are free and
  the map can record what is left of the segment; otherwise it returns 0 and changes
  nothing. It never panics and never leaves the array.
\<close>

theorem rmget_exact:
  assumes "rmap_wf mp" and "0 < n" and "0 < a" and "a + n < two32"
  shows "\<exists>r mp'. rmget mp n a = Ret (r, mp') \<and> rmap_wf mp' \<and>
    (if r = 0 then mp' = mp \<and>
       (\<not> {a..<a + n} \<subseteq> units (free_segs mp) \<or> length (free_segs mp) + 1 = length (m_ep mp))
     else r = a \<and> {a..<a + n} \<subseteq> units (free_segs mp) \<and>
       units (free_segs mp') = units (free_segs mp) - {a..<a + n})"
proof -
  have ok: "segs_ok two32 0 (free_segs mp)" using assms(1) by (simp add: rmap_wf_def)
  note m = rmget_map [OF assms(1,2,4)]
  show ?thesis
  proof (cases "seg_take n a (free_segs mp)")
    case None
    then have "\<not> {a..<a + n} \<subseteq> units (free_segs mp)" using seg_take_None [OF ok _ assms(2)] by simp
    then show ?thesis using m None assms(1) by auto
  next
    case (Some ys)
    note t = seg_take_units [OF ok Some assms(2)]
    show ?thesis
    proof (cases "length ys < length (m_ep mp)")
      case True
      then obtain rest where g: "rmget mp n a = Ret (a, mp\<lparr>m_ep := enc ys @ delim # rest\<rparr>)"
        and l: "length ys + length rest + 1 = length (m_ep mp)" using m Some by auto
      have ys: "segs_ok two32 0 ys" using t by simp
      show ?thesis
        using t assms(3) g rmap_wf_update(2) [OF ys assms(1) l] free_segs_update(2) [OF ys]
        by (intro exI conjI) (assumption | simp)+
    next
      case False
      then have "length (free_segs mp) + 1 = length (m_ep mp)"
        using seg_take_length [OF Some] assms(1) by (simp add: rmap_wf_def)
      then show ?thesis using m Some False assms(1) by auto
    qed
  qed
qed

theorem rmget_exact_witness:
  "\<exists>mp'. rmget rm_example 2 8 = Ret (8, mp') \<and> units (free_segs mp') = units (free_segs rm_example) - {8..<10}"
proof -
  have "rmget rm_example 2 8 = Ret (8, rm_example\<lparr>m_ep := [\<lparr>m_size = 3, m_addr = 5\<rparr>,
     \<lparr>m_size = 5, m_addr = 10\<rparr>, \<lparr>m_size = 6, m_addr = 20\<rparr>, delim, delim]\<rparr>)"
    by (simp add: rmget_def do_rmget_def rm_example_def Let_def add32_def sub32_def)
  then show ?thesis using rmget_exact [OF rm_example_wf(1), of 2 8] by auto
qed

text \<open>
  Whatever sequence of requests a well-formed map serves, the extents it grants are
  pairwise disjoint: no unit of a resource is ever handed out twice.
\<close>

theorem rmalloc_grants_disjoint:
  assumes "rmap_wf mp" and "2 \<le> length (m_ep mp)" and "\<forall>n \<in> set ns. 0 < n"
  shows "sorted_wrt (\<lambda>(r, n) (q, k). {r..<r + n} \<inter> {q..<q + k} = {})
    (extent_allocator.grants rm_grant mp ns)"
  using assms by (intro rm.grants_disjoint) (simp_all add: rmap_inv_def)

theorem rmalloc_grants_disjoint_witness:
  "extent_allocator.grants rm_grant rm_example [4, 6, 6] = [(5, 4), (9, 6), (20, 6)] \<and>
   sorted_wrt (\<lambda>(r, n) (q, k). {r..<r + n} \<inter> {q..<q + k} = {})
    (extent_allocator.grants rm_grant rm_example [4, 6, 6])"
proof -
  have "extent_allocator.grants rm_grant rm_example [4, 6, 6] = [(5, 4), (9, 6), (20, 6)]"
    by (simp add: rm_grant_def rmalloc_def rm_example_def Let_def add32_def sub32_def)
  then show ?thesis
    using rmalloc_grants_disjoint [OF rm_example_wf(1), of "[4, 6, 6]"] by simp
qed

text \<open>
  The value \<^verbatim>\<open>rmfree\<close> returns. It is the length of the free segment that now holds the
  returned units, as its comment promises, except when they close the gap between two
  segments: the cursor has then run to the end of the array and the value is 0.
\<close>

theorem rmfree_value:
  assumes "rmap_wf mp" and "2 \<le> length (m_ep mp)" and "0 < n" and "a + n < two32"
    and "{a..<a + n} \<inter> units (free_segs mp) = {}"
  shows "\<exists>mp'. rmfree mp n a =
    Ret (if closes_gap (free_segs mp) n a then 0 else seg_len_at (seg_free n a (free_segs mp)) a, mp')"
proof -
  have ok: "segs_ok two32 0 (free_segs mp)" using assms(1) by (simp add: rmap_wf_def)
  have "clear_of a n (free_segs mp)"
    using units_disjoint_clear_of [OF ok assms(3)] assms(5) by blast
  then show ?thesis using rmfree_map [OF assms(1,3) _ assms(4,2)] by metis
qed

theorem rmfree_value_witness:
  "(\<exists>mp'. rmfree rm_example 5 15 = Ret (0, mp') \<and> free_segs mp' = [(5, 21)])"
proof -
  have "{15..<15 + 5} \<inter> units (free_segs rm_example) = {}" by auto
  then have "\<exists>mp'. rmfree rm_example 5 15 = Ret (0, mp')"
    using rmfree_value [OF rm_example_wf(1), of 5 15] by (auto simp: closes_gap_def)
  moreover have "rmfree rm_example 5 15 = Ret (0, rm_example\<lparr>m_ep := [\<lparr>m_size = 21, m_addr = 5\<rparr>,
      delim, delim, delim, delim]\<rparr>)"
    by (simp add: rmfree_def rm_example_def Let_def add32_def)
  ultimately show ?thesis by (simp add: free_segs_def rm_example_def)
qed

end
