(* ===== verification/Uarea.thy ===== *)
theory Uarea
  imports Kernel_Prelude
begin

text \<open>
  The parts of the user area (\<^verbatim>\<open>h/user.h\<close>) that the modelled system calls read and
  write: the credentials behind \<^verbatim>\<open>u.u_cred\<close>, the error and result words, and the
  identity of the calling process. The super-user tests are those of
  \<^verbatim>\<open>sys/kern_prot.c\<close>.
\<close>

abbreviation NGROUPS :: nat where
  "NGROUPS \<equiv> 20"

abbreviation NOGROUP :: int where
  "NOGROUP \<equiv> -1"

record ucred =
  cr_uid :: int
  cr_gid :: int
  cr_groups :: "int list"   \<comment> \<open>\<^verbatim>\<open>cr_groups[NGROUPS]\<close>, ended by \<^verbatim>\<open>NOGROUP\<close>\<close>
  cr_ruid :: int
  cr_rgid :: int
  cr_ref :: int

record uarea =
  u_cred :: ucred
  u_sgid :: int
  u_error :: errno
  u_rval1 :: int
  u_rval2 :: int
  u_asu :: bool             \<comment> \<open>\<^verbatim>\<open>u_acflag & ASU\<close>\<close>
  p_suid :: int             \<comment> \<open>\<^verbatim>\<open>u_procp->p_suid\<close>\<close>
  p_pid :: int
  p_index :: nat            \<comment> \<open>\<^verbatim>\<open>pindx(u.u_procp)\<close>\<close>

abbreviation u_uid :: "uarea \<Rightarrow> int" where "u_uid u \<equiv> cr_uid (u_cred u)"
abbreviation u_gid :: "uarea \<Rightarrow> int" where "u_gid u \<equiv> cr_gid (u_cred u)"
abbreviation u_ruid :: "uarea \<Rightarrow> int" where "u_ruid u \<equiv> cr_ruid (u_cred u)"
abbreviation u_rgid :: "uarea \<Rightarrow> int" where "u_rgid u \<equiv> cr_rgid (u_cred u)"
abbreviation u_groups :: "uarea \<Rightarrow> int list" where "u_groups u \<equiv> cr_groups (u_cred u)"

abbreviation set_error :: "errno \<Rightarrow> uarea \<Rightarrow> uarea" where
  "set_error e u \<equiv> u\<lparr>u_error := e\<rparr>"

definition suser :: "uarea \<Rightarrow> bool \<times> uarea" where
  "suser u = (if u_uid u = 0 then (True, u\<lparr>u_asu := True\<rparr>) else (False, set_error EPERM u))"

definition resuser :: "uarea \<Rightarrow> bool \<times> uarea" where
  "resuser u = (if u_uid u = 0 \<or> u_ruid u = 0 \<or> p_suid u = 0
                then (True, u\<lparr>u_asu := True\<rparr>) else (False, set_error EPERM u))"

text \<open>The loop over a group set stops at \<^verbatim>\<open>NGROUPS\<close> or at the first \<^verbatim>\<open>NOGROUP\<close>.\<close>

fun group_scan :: "(int \<Rightarrow> bool) \<Rightarrow> nat \<Rightarrow> int list \<Rightarrow> bool" where
  "group_scan hit 0 gs = False"
| "group_scan hit (Suc n) [] = False"
| "group_scan hit (Suc n) (g # gs) =
     (if g = NOGROUP then False else if hit g then True else group_scan hit n gs)"

definition groupmember :: "int \<Rightarrow> uarea \<Rightarrow> bool" where
  "groupmember gid u \<longleftrightarrow> u_gid u = gid \<or> group_scan (\<lambda>g. g = gid) NGROUPS (u_groups u)"

lemma group_scan_iff:
  "group_scan hit n gs \<longleftrightarrow> (\<exists>g \<in> set (takeWhile (\<lambda>g. g \<noteq> NOGROUP) (take n gs)). hit g)"
  by (induction hit n gs rule: group_scan.induct) auto

lemma suser_simps [simp]:
  "fst (suser u) \<longleftrightarrow> u_uid u = 0"
  "u_cred (snd (suser u)) = u_cred u"
  "p_index (snd (suser u)) = p_index u"
  "p_pid (snd (suser u)) = p_pid u"
  "p_suid (snd (suser u)) = p_suid u"
  "u_sgid (snd (suser u)) = u_sgid u"
  "u_rval1 (snd (suser u)) = u_rval1 u"
  by (simp_all add: suser_def)

lemma resuser_simps [simp]:
  "fst (resuser u) \<longleftrightarrow> u_uid u = 0 \<or> u_ruid u = 0 \<or> p_suid u = 0"
  "u_cred (snd (resuser u)) = u_cred u"
  "p_suid (snd (resuser u)) = p_suid u"
  "u_sgid (snd (resuser u)) = u_sgid u"
  by (simp_all add: resuser_def)

end
