(* ===== verification/Ipc_Perm.thy ===== *)
theory Ipc_Perm
  imports Uarea
begin

text \<open>
  The permission structures common to the System V IPC facilities,
  \<^verbatim>\<open>sys/sysV_ipc.c\<close>: access checks, key lookup and allocation, and the sleeping
  lock that the message queues use. Modes are 16-bit words.
\<close>

unbundle bit_operations_syntax

section \<open>Data\<close>

abbreviation IPC_ALLOC :: "16 word" where "IPC_ALLOC \<equiv> 0x8000"
abbreviation IPC_LOCKED :: "16 word" where "IPC_LOCKED \<equiv> 0x4000"
abbreviation IPC_WANTED :: "16 word" where "IPC_WANTED \<equiv> 0x0800"
abbreviation IPC_CREAT :: "32 word" where "IPC_CREAT \<equiv> 0x0200"
abbreviation IPC_EXCL :: "32 word" where "IPC_EXCL \<equiv> 0x0400"
abbreviation IPC_NOWAIT :: "32 word" where "IPC_NOWAIT \<equiv> 0x0800"
abbreviation (input) IPC_PRIVATE :: int where "IPC_PRIVATE \<equiv> 0"
abbreviation (input) IPC_RMID :: int where "IPC_RMID \<equiv> 0"
abbreviation (input) IPC_SET :: int where "IPC_SET \<equiv> 1"
abbreviation (input) IPC_STAT :: int where "IPC_STAT \<equiv> 2"

record ipc_perm =
  ip_uid :: int
  ip_gid :: int
  ip_cuid :: int
  ip_cgid :: int
  ip_mode :: "16 word"
  ip_seq :: int     \<comment> \<open>unsigned short\<close>
  ip_key :: int

definition allocated :: "ipc_perm \<Rightarrow> bool" where
  "allocated p \<longleftrightarrow> ip_mode p AND IPC_ALLOC \<noteq> 0"

definition is_locked :: "ipc_perm \<Rightarrow> bool" where
  "is_locked p \<longleftrightarrow> ip_mode p AND IPC_LOCKED \<noteq> 0"

definition is_wanted :: "ipc_perm \<Rightarrow> bool" where
  "is_wanted p \<longleftrightarrow> ip_mode p AND IPC_WANTED \<noteq> 0"

section \<open>Access\<close>

text \<open>The result is the C value (\<open>False\<close> is zero, access granted) and the new user area.\<close>

definition ipcaccess :: "ipc_perm \<Rightarrow> 16 word \<Rightarrow> uarea \<Rightarrow> bool \<times> uarea" where
  "ipcaccess p mode u =
     (if u_uid u = 0 then (False, u)
      else let mode' =
          (if u_uid u \<noteq> ip_uid p \<and> u_uid u \<noteq> ip_cuid p then
             (if u_gid u = ip_gid p \<or> u_gid u = ip_cgid p then drop_bit 3 mode
              else if group_scan (\<lambda>g. ip_gid p = g \<or> ip_cgid p = g) NGROUPS (u_groups u)
                   then drop_bit 3 mode
              else drop_bit 3 (drop_bit 3 mode))
           else mode)
        in if mode' AND ip_mode p \<noteq> 0 then (False, u) else (True, set_error EACCES u))"

text \<open>The test before a control command: the owner, the creator, or the super-user.\<close>

definition owner_or_suser :: "ipc_perm \<Rightarrow> uarea \<Rightarrow> bool \<times> uarea" where
  "owner_or_suser p u =
     (if u_uid u \<noteq> ip_uid p \<and> u_uid u \<noteq> ip_cuid p then suser u else (True, u))"

section \<open>Lookup and allocation\<close>

text \<open>
  The array is the list of the permission structures at the head of the facility's
  entries; \<open>Inr (i, status, perms)\<close> is entry \<open>i\<close>, \<open>status\<close> 1 when it was created.
\<close>

fun first_free :: "nat \<Rightarrow> ipc_perm list \<Rightarrow> nat option" where
  "first_free i [] = None"
| "first_free i (p # ps) = (if allocated p then first_free (Suc i) ps else Some i)"

datatype key_search = Hit nat | Refused errno | Miss "nat option"

fun key_scan :: "int \<Rightarrow> 32 word \<Rightarrow> nat \<Rightarrow> nat option \<Rightarrow> ipc_perm list \<Rightarrow> key_search" where
  "key_scan key flag i a [] = Miss a"
| "key_scan key flag i a (p # ps) =
     (if allocated p then
        (if ip_key p = key then
           (if flag AND (IPC_CREAT OR IPC_EXCL) = IPC_CREAT OR IPC_EXCL then Refused EEXIST
            else if (flag AND 0x1FF) AND NOT (ucast (ip_mode p)) \<noteq> 0 then Refused EACCES
            else Hit i)
         else key_scan key flag (Suc i) a ps)
      else key_scan key flag (Suc i) (if a = None then Some i else a) ps)"

definition ipc_init :: "int \<Rightarrow> 32 word \<Rightarrow> uarea \<Rightarrow> ipc_perm \<Rightarrow> ipc_perm" where
  "ipc_init key flag u p =
     p\<lparr>ip_mode := IPC_ALLOC OR ucast (flag AND 0x1FF), ip_key := key,
       ip_cuid := u_uid u, ip_uid := u_uid u, ip_cgid := u_gid u, ip_gid := u_gid u\<rparr>"

definition ipcgetperm ::
  "int \<Rightarrow> 32 word \<Rightarrow> uarea \<Rightarrow> ipc_perm list \<Rightarrow> errno + (nat \<times> int \<times> ipc_perm list)" where
  "ipcgetperm key flag u ps =
     (if key = IPC_PRIVATE then
        (case first_free 0 ps of
           None \<Rightarrow> Inl ENOSPC
         | Some i \<Rightarrow> Inr (i, 1, ps[i := ipc_init key flag u (ps ! i)]))
      else
        (case key_scan key flag 0 None ps of
           Refused e \<Rightarrow> Inl e
         | Hit i \<Rightarrow> Inr (i, 0, ps)
         | Miss a \<Rightarrow>
             if flag AND IPC_CREAT = 0 then Inl ENOENT
             else (case a of
                     None \<Rightarrow> Inl ENOSPC
                   | Some i \<Rightarrow> Inr (i, 1, ps[i := ipc_init key flag u (ps ! i)]))))"

section \<open>The sleeping lock\<close>

text \<open>
  \<open>ipc_lock_try\<close> is one test of the loop of \<^verbatim>\<open>ipc_lock\<close>: the lock is taken, or the
  entry is marked wanted and the process sleeps. \<open>ipc_lock_gone\<close> is the test after the
  sleep, against the sequence number recorded at the call. \<open>ipc_unlock\<close> also returns
  whether it called \<^verbatim>\<open>wakeup\<close>.
\<close>

definition ipc_lock_try :: "ipc_perm \<Rightarrow> bool \<times> ipc_perm" where
  "ipc_lock_try p =
     (if is_locked p then (False, p\<lparr>ip_mode := ip_mode p OR IPC_WANTED\<rparr>)
      else (True, p\<lparr>ip_mode := ip_mode p OR IPC_LOCKED\<rparr>))"

definition ipc_lock_gone :: "int \<Rightarrow> ipc_perm \<Rightarrow> bool" where
  "ipc_lock_gone orig_seq p \<longleftrightarrow> \<not> allocated p \<or> ip_seq p \<noteq> orig_seq"

definition ipc_unlock :: "ipc_perm \<Rightarrow> bool \<times> ipc_perm" where
  "ipc_unlock p =
     (let p' = p\<lparr>ip_mode := ip_mode p AND NOT IPC_LOCKED\<rparr>
      in if is_wanted p' then (True, p'\<lparr>ip_mode := ip_mode p' AND NOT IPC_WANTED\<rparr>) else (False, p'))"

text \<open>
  The whole routine on an entry inside a larger state: \<open>get\<close> and \<open>put\<close> access the entry,
  the list holds what the rest of the system does during each sleep, and \<open>Blocked\<close> is a
  process still asleep when the list ends. \<open>Locked\<close> carries what is left of the list.
\<close>

datatype 's lock_result = Locked 's "('s \<Rightarrow> 's) list" | Gone 's | Blocked 's

fun ipc_lock_loop :: "('s \<Rightarrow> ipc_perm) \<Rightarrow> (ipc_perm \<Rightarrow> 's \<Rightarrow> 's) \<Rightarrow> int \<Rightarrow> ('s \<Rightarrow> 's) list \<Rightarrow> 's
    \<Rightarrow> 's lock_result" where
  "ipc_lock_loop get put orig_seq envs s =
     (case ipc_lock_try (get s) of
        (True, p) \<Rightarrow> Locked (put p s) envs
      | (False, p) \<Rightarrow>
          (case envs of
             [] \<Rightarrow> Blocked (put p s)
           | e # es \<Rightarrow>
               let s' = e (put p s)
               in if ipc_lock_gone orig_seq (get s') then Gone s'
                  else ipc_lock_loop get put orig_seq es s'))"

definition ipc_lock :: "('s \<Rightarrow> ipc_perm) \<Rightarrow> (ipc_perm \<Rightarrow> 's \<Rightarrow> 's) \<Rightarrow> ('s \<Rightarrow> 's) list \<Rightarrow> 's
    \<Rightarrow> 's lock_result" where
  "ipc_lock get put envs s = ipc_lock_loop get put (ip_seq (get s)) envs s"

section \<open>Mode bits\<close>

lemma single_bit:
  fixes w :: "16 word"
  shows "w AND 0x8000 = 0 \<longleftrightarrow> \<not> bit w 15" "w AND 0x4000 = 0 \<longleftrightarrow> \<not> bit w 14"
    "w AND 0x0800 = 0 \<longleftrightarrow> \<not> bit w 11" "w AND 0x0400 = 0 \<longleftrightarrow> \<not> bit w 10"
    "w AND 0x0200 = 0 \<longleftrightarrow> \<not> bit w 9"
  using and_exp_eq_0_iff_not_bit [of w 15] and_exp_eq_0_iff_not_bit [of w 14]
    and_exp_eq_0_iff_not_bit [of w 11] and_exp_eq_0_iff_not_bit [of w 10]
    and_exp_eq_0_iff_not_bit [of w 9] by simp_all

lemma mode_bits:
  "allocated p \<longleftrightarrow> bit (ip_mode p) 15"
  "is_locked p \<longleftrightarrow> bit (ip_mode p) 14"
  "is_wanted p \<longleftrightarrow> bit (ip_mode p) 11"
  by (simp_all add: allocated_def is_locked_def is_wanted_def single_bit)

lemma allocated_init [simp]: "allocated (ipc_init key flag u p)"
  by (simp add: mode_bits ipc_init_def bit_simps)

lemma not_locked_init [simp]: "\<not> is_locked (ipc_init key flag u p)"
  by (simp add: mode_bits ipc_init_def bit_simps)

lemma not_wanted_init [simp]: "\<not> is_wanted (ipc_init key flag u p)"
  by (simp add: mode_bits ipc_init_def bit_simps)

lemma ipc_init_simps [simp]:
  "ip_key (ipc_init key flag u p) = key" "ip_seq (ipc_init key flag u p) = ip_seq p"
  "ip_uid (ipc_init key flag u p) = u_uid u" "ip_cuid (ipc_init key flag u p) = u_uid u"
  "ip_gid (ipc_init key flag u p) = u_gid u" "ip_cgid (ipc_init key flag u p) = u_gid u"
  by (simp_all add: ipc_init_def)

lemma lock_try_simps:
  "allocated (snd (ipc_lock_try p)) = allocated p"
  "ip_seq (snd (ipc_lock_try p)) = ip_seq p"
  "is_locked (snd (ipc_lock_try p))"
  "is_wanted (snd (ipc_lock_try p)) \<longleftrightarrow> is_wanted p \<or> is_locked p"
  "fst (ipc_lock_try p) \<longleftrightarrow> \<not> is_locked p"
  by (auto simp: ipc_lock_try_def mode_bits bit_simps)

lemma unlock_simps:
  "allocated (snd (ipc_unlock p)) = allocated p"
  "ip_seq (snd (ipc_unlock p)) = ip_seq p"
  "\<not> is_locked (snd (ipc_unlock p))"
  "\<not> is_wanted (snd (ipc_unlock p))"
  "fst (ipc_unlock p) = is_wanted p"
  by (auto simp: ipc_unlock_def Let_def mode_bits bit_simps)

section \<open>Lookup\<close>

lemma first_free_Some:
  "first_free i ps = Some k \<Longrightarrow> i \<le> k \<and> k - i < length ps \<and> \<not> allocated (ps ! (k - i))
     \<and> (\<forall>p \<in> set (take (k - i) ps). allocated p)"
proof (induction i ps rule: first_free.induct)
  case (2 i p ps)
  show ?case
  proof (cases "allocated p")
    case True
    then have IH: "Suc i \<le> k" "k - Suc i < length ps" "\<not> allocated (ps ! (k - Suc i))"
      "\<forall>p \<in> set (take (k - Suc i) ps). allocated p"
      using 2 by auto
    then obtain d where d: "k - i = Suc d" "k - Suc i = d" by (cases "k - i") auto
    show ?thesis using True IH by (auto simp: d)
  qed (use 2 in auto)
qed simp

lemma first_free_None: "first_free i ps = None \<longleftrightarrow> (\<forall>p \<in> set ps. allocated p)"
  by (induction i ps rule: first_free.induct) auto

definition key_match :: "int \<Rightarrow> ipc_perm \<Rightarrow> bool" where
  "key_match key p \<longleftrightarrow> allocated p \<and> ip_key p = key"

definition key_reply :: "32 word \<Rightarrow> nat \<Rightarrow> ipc_perm \<Rightarrow> key_search" where
  "key_reply flag i p =
     (if flag AND (IPC_CREAT OR IPC_EXCL) = IPC_CREAT OR IPC_EXCL then Refused EEXIST
      else if (flag AND 0x1FF) AND NOT (ucast (ip_mode p)) \<noteq> 0 then Refused EACCES
      else Hit i)"

lemma key_scan_miss:
  "\<forall>p \<in> set ps. \<not> key_match key p \<Longrightarrow>
   key_scan key flag i a ps = Miss (if a = None then first_free i ps else a)"
  by (induction ps arbitrary: i a) (auto simp: key_match_def)

lemma key_scan_match:
  assumes "\<exists>p \<in> set ps. key_match key p"
  shows "\<exists>k < length ps. key_match key (ps ! k) \<and>
    key_scan key flag i a ps = key_reply flag (i + k) (ps ! k)"
  using assms
proof (induction ps arbitrary: i a)
  case (Cons p ps)
  show ?case
  proof (cases "key_match key p")
    case True
    then show ?thesis by (intro exI [of _ 0]) (simp add: key_match_def key_reply_def)
  next
    case False
    then have "\<exists>p \<in> set ps. key_match key p" using Cons.prems by auto
    then obtain k where "k < length ps" "key_match key (ps ! k)"
      "key_scan key flag (Suc i) (if \<not> allocated p \<and> a = None then Some i else a) ps
         = key_reply flag (Suc i + k) (ps ! k)"
      using Cons.IH by blast
    with False show ?thesis
      by (intro exI [of _ "Suc k"]) (auto simp: key_match_def split: if_splits)
  qed
qed simp

text \<open>No two allocated entries carry the same key, unless it is \<^verbatim>\<open>IPC_PRIVATE\<close>.\<close>

definition keys_unique :: "ipc_perm list \<Rightarrow> bool" where
  "keys_unique ps \<longleftrightarrow> (\<forall>i < length ps. \<forall>j < length ps. allocated (ps ! i) \<longrightarrow> allocated (ps ! j) \<longrightarrow>
     ip_key (ps ! i) = ip_key (ps ! j) \<longrightarrow> ip_key (ps ! i) \<noteq> IPC_PRIVATE \<longrightarrow> i = j)"

lemma keys_unique_init:
  assumes "keys_unique ps" and "key = IPC_PRIVATE \<or> (\<forall>p \<in> set ps. \<not> key_match key p)"
  shows "keys_unique (ps[i := ipc_init key flag u (ps ! i)])"
proof -
  have "\<not> key_match key (ps ! j)" if "key \<noteq> IPC_PRIVATE" "j < length ps" for j
    using assms(2) that nth_mem by auto
  then show ?thesis
    using assms(1) unfolding keys_unique_def key_match_def
    by (cases "i < length ps") (auto simp: nth_list_update split: if_splits)
qed

lemma keys_unique_free:
  assumes "keys_unique ps" and "\<not> allocated p"
  shows "keys_unique (ps[i := p])"
  using assms unfolding keys_unique_def
  by (cases "i < length ps") (auto simp: nth_list_update split: if_splits)

lemma keys_unique_update:
  assumes "keys_unique ps" and "allocated p \<Longrightarrow> allocated (ps ! i)"
    and "ip_key p = ip_key (ps ! i)"
  shows "keys_unique (ps[i := p])"
  using assms unfolding keys_unique_def
  by (cases "i < length ps") (auto simp: nth_list_update split: if_splits)

lemma ipcgetperm_result:
  assumes "keys_unique ps" and "ipcgetperm key flag u ps = Inr (i, status, ps')"
  shows "i < length ps \<and> length ps' = length ps \<and> keys_unique ps' \<and> key_match key (ps' ! i) \<and>
    (status = 0 \<and> ps' = ps \<and> key \<noteq> IPC_PRIVATE \<and>
       flag AND (IPC_CREAT OR IPC_EXCL) \<noteq> IPC_CREAT OR IPC_EXCL \<and>
       (flag AND 0x1FF) AND NOT (ucast (ip_mode (ps ! i))) = 0 \<or>
     status = 1 \<and> \<not> allocated (ps ! i) \<and> ps' = ps[i := ps' ! i] \<and>
       ip_mode (ps' ! i) = IPC_ALLOC OR ucast (flag AND 0x1FF) \<and>
       ip_uid (ps' ! i) = u_uid u \<and> ip_cuid (ps' ! i) = u_uid u \<and>
       ip_gid (ps' ! i) = u_gid u \<and> ip_cgid (ps' ! i) = u_gid u \<and>
       ip_seq (ps' ! i) = ip_seq (ps ! i))"
proof -
  have new: ?thesis
    if ff: "first_free 0 ps = Some i" and st: "status = 1"
      and ps': "ps' = ps[i := ipc_init key flag u (ps ! i)]"
      and nm: "key = IPC_PRIVATE \<or> (\<forall>p \<in> set ps. \<not> key_match key p)"
  proof -
    have i: "i < length ps" "\<not> allocated (ps ! i)" using first_free_Some [OF ff] by simp_all
    have "ip_mode (ipc_init key flag u (ps ! i)) = IPC_ALLOC OR ucast (flag AND 0x1FF)"
      by (simp add: ipc_init_def)
    then show ?thesis
      using i st keys_unique_init [OF assms(1) nm, of i flag u] by (simp add: ps' key_match_def)
  qed
  show ?thesis
  proof (cases "key = IPC_PRIVATE")
    case True
    then show ?thesis
      using new assms(2) by (auto simp: ipcgetperm_def split: option.splits)
  next
    case False
    show ?thesis
    proof (cases "\<exists>p \<in> set ps. key_match key p")
      case True
      then obtain k where k: "k < length ps" "key_match key (ps ! k)"
        "key_scan key flag 0 None ps = key_reply flag k (ps ! k)"
        using key_scan_match [of ps key flag 0 None] by auto
      then show ?thesis
        using assms False by (auto simp: ipcgetperm_def key_reply_def split: if_splits)
    next
      case nm: False
      then have miss: "key_scan key flag 0 None ps = Miss (first_free 0 ps)"
        by (simp add: key_scan_miss)
      have "first_free 0 ps = Some i" "status = 1" "ps' = ps[i := ipc_init key flag u (ps ! i)]"
        using assms(2) False by (auto simp: ipcgetperm_def miss split: if_splits option.splits)
      then show ?thesis using nm by (intro new) auto
    qed
  qed
qed

lemma key_scan_refused: "key_scan key flag i a ps = Refused e \<Longrightarrow> e = EEXIST \<or> e = EACCES"
  by (induction key flag i a ps rule: key_scan.induct) (auto split: if_splits)

lemma ipcgetperm_Inl: "ipcgetperm key flag u ps = Inl e \<Longrightarrow> e \<in> {EEXIST, EACCES, ENOENT, ENOSPC}"
  by (auto simp: ipcgetperm_def dest: key_scan_refused split: if_splits option.splits key_search.splits)

section \<open>The lock as a protocol\<close>

text \<open>
  Processes that call the routines on one entry, as the message queues do: a call follows
  a successful \<^verbatim>\<open>msgconv\<close>, a holder may change the low mode bits, release the lock, or
  remove the entry (\<^verbatim>\<open>IPC_RMID\<close>), and a free entry may be created again.
\<close>

datatype lk_proc = Away | Asleep int | Woken int | Holding

fun wake :: "bool \<Rightarrow> lk_proc \<Rightarrow> lk_proc" where
  "wake w (Asleep s) = (if w then Woken s else Asleep s)"
| "wake w pr = pr"

type_synonym lk_state = "ipc_perm \<times> (nat \<Rightarrow> lk_proc)"

definition lk_attempt :: "nat \<Rightarrow> int \<Rightarrow> lk_state \<Rightarrow> lk_state" where
  "lk_attempt i s c =
     (case ipc_lock_try (fst c) of (got, p) \<Rightarrow> (p, (snd c)(i := if got then Holding else Asleep s)))"

definition lk_release :: "nat \<Rightarrow> lk_state \<Rightarrow> lk_state" where
  "lk_release i c =
     (case ipc_unlock (fst c) of (w, p) \<Rightarrow> (p, (\<lambda>j. wake w (snd c j))(i := Away)))"

inductive lk_step :: "lk_state \<Rightarrow> lk_state \<Rightarrow> bool" where
  call: "allocated p \<Longrightarrow> ps i = Away \<Longrightarrow> lk_step (p, ps) (lk_attempt i (ip_seq p) (p, ps))"
| retry: "ps i = Woken s \<Longrightarrow> \<not> ipc_lock_gone s p \<Longrightarrow> lk_step (p, ps) (lk_attempt i s (p, ps))"
| give_up: "ps i = Woken s \<Longrightarrow> ipc_lock_gone s p \<Longrightarrow> lk_step (p, ps) (p, ps(i := Away))"
| change: "ps i = Holding \<Longrightarrow> lk_step (p, ps)
     (p\<lparr>ip_uid := a, ip_gid := b, ip_mode := (ip_mode p AND NOT 0x1FF) OR (m AND 0x1FF)\<rparr>, ps)"
| unlock: "ps i = Holding \<Longrightarrow> lk_step (p, ps) (lk_release i (p, ps))"
| remove: "ps i = Holding \<Longrightarrow> lk_release i (p\<lparr>ip_seq := s\<rparr>, ps) = (p', ps') \<Longrightarrow>
     lk_step (p, ps) (p'\<lparr>ip_mode := 0\<rparr>, ps')"
| create: "\<not> allocated p \<Longrightarrow> lk_step (p, ps) (ipc_init key flag u p, ps)"

inductive lk_reachable :: "lk_state \<Rightarrow> bool" where
  lk_start: "\<not> allocated p \<Longrightarrow> \<not> is_locked p \<Longrightarrow> lk_reachable (p, \<lambda>i. Away)"
| lk_next: "lk_reachable c \<Longrightarrow> lk_step c d \<Longrightarrow> lk_reachable d"

inductive_cases lk_stepE: "lk_step c d"

definition lk_inv :: "lk_state \<Rightarrow> bool" where
  "lk_inv c \<longleftrightarrow>
     (if is_locked (fst c)
      then allocated (fst c) \<and> (\<exists>h. \<forall>i. snd c i = Holding \<longleftrightarrow> i = h) \<and>
           (is_wanted (fst c) \<or> (\<forall>i s. snd c i \<noteq> Asleep s))
      else \<forall>i. snd c i \<noteq> Holding \<and> (\<forall>s. snd c i \<noteq> Asleep s))"

lemma lk_inv_lockedI:
  "is_locked (fst c) \<Longrightarrow> allocated (fst c) \<Longrightarrow> (\<And>i. snd c i = Holding \<longleftrightarrow> i = h) \<Longrightarrow>
   is_wanted (fst c) \<or> (\<forall>i s. snd c i \<noteq> Asleep s) \<Longrightarrow> lk_inv c"
  by (auto simp: lk_inv_def)

lemma lk_inv_lockedE:
  assumes "lk_inv c" and "is_locked (fst c)"
  obtains h where "allocated (fst c)" and "\<And>i. snd c i = Holding \<longleftrightarrow> i = h"
    and "is_wanted (fst c) \<or> (\<forall>i s. snd c i \<noteq> Asleep s)"
  using assms by (auto simp: lk_inv_def)

lemma lk_inv_free:
  "\<not> is_locked (fst c) \<Longrightarrow> lk_inv c \<longleftrightarrow> (\<forall>i. snd c i \<noteq> Holding \<and> (\<forall>s. snd c i \<noteq> Asleep s))"
  by (simp add: lk_inv_def)

lemma wake_simps [simp]:
  "wake w pr = Holding \<longleftrightarrow> pr = Holding" "wake w pr = Asleep s \<longleftrightarrow> pr = Asleep s \<and> \<not> w"
  by (cases pr; simp)+

lemma lk_inv_attempt:
  assumes "lk_inv c" and "allocated (fst c)" and i: "snd c i \<noteq> Holding"
  shows "lk_inv (lk_attempt i s c)"
proof -
  define p where "p = snd (ipc_lock_try (fst c))"
  note t = lock_try_simps [of "fst c", folded p_def]
  have c': "lk_attempt i s c = (p, (snd c)(i := if \<not> is_locked (fst c) then Holding else Asleep s))"
    unfolding lk_attempt_def p_def using t(5) by (cases "ipc_lock_try (fst c)") simp
  show ?thesis
  proof (cases "is_locked (fst c)")
    case True
    then obtain h where h: "\<And>i. snd c i = Holding \<longleftrightarrow> i = h" using lk_inv_lockedE [OF assms(1)] by metis
    then have "i \<noteq> h" using i by blast
    then show ?thesis unfolding c' by (intro lk_inv_lockedI [where h = h]) (use t h True assms in auto)
  next
    case False
    then have "\<forall>j. snd c j \<noteq> Holding \<and> (\<forall>s. snd c j \<noteq> Asleep s)" using assms(1) lk_inv_free by blast
    then show ?thesis unfolding c' by (intro lk_inv_lockedI [where h = i]) (use t False assms in auto)
  qed
qed

lemma lk_inv_release:
  assumes "lk_inv c" and i: "snd c i = Holding"
  shows "\<not> is_locked (fst (lk_release i c)) \<and> lk_inv (lk_release i c)"
proof -
  have locked: "is_locked (fst c)" using assms by (auto simp: lk_inv_def split: if_splits)
  obtain h where h: "\<And>i. snd c i = Holding \<longleftrightarrow> i = h"
    and w: "is_wanted (fst c) \<or> (\<forall>i s. snd c i \<noteq> Asleep s)"
    using lk_inv_lockedE [OF assms(1) locked] by metis
  define p where "p = snd (ipc_unlock (fst c))"
  note t = unlock_simps [of "fst c", folded p_def]
  have c': "lk_release i c = (p, (\<lambda>j. wake (is_wanted (fst c)) (snd c j))(i := Away))"
    unfolding lk_release_def p_def using t(5) by (cases "ipc_unlock (fst c)") simp
  have "i = h" using i unfolding h .
  then have "\<forall>j. snd (lk_release i c) j \<noteq> Holding \<and> (\<forall>s. snd (lk_release i c) j \<noteq> Asleep s)"
    unfolding c' using h w by auto
  moreover have "\<not> is_locked (fst (lk_release i c))" unfolding c' using t(3) by simp
  ultimately show ?thesis by (simp add: lk_inv_free)
qed

lemma lk_inv_step: "lk_step c d \<Longrightarrow> lk_inv c \<Longrightarrow> lk_inv d"
proof (induction rule: lk_step.induct)
  case (call p ps i)
  then show ?case by (intro lk_inv_attempt) simp_all
next
  case (retry ps i s p)
  then show ?case by (intro lk_inv_attempt) (simp_all add: ipc_lock_gone_def)
next
  case (give_up ps i s p)
  show ?case
  proof (cases "is_locked p")
    case True
    then obtain h where h: "\<And>i. ps i = Holding \<longleftrightarrow> i = h" and a: "allocated p"
      and w: "is_wanted p \<or> (\<forall>i s. ps i \<noteq> Asleep s)"
      using lk_inv_lockedE [OF give_up.prems] by (metis fst_conv snd_conv)
    have "i \<noteq> h" using h give_up.hyps(1) by (metis lk_proc.distinct(11))
    then show ?thesis
      by (intro lk_inv_lockedI [where h = h]) (use True h a w in auto)
  next
    case False
    then show ?thesis using give_up.prems by (auto simp: lk_inv_free)
  qed
next
  case (change ps i p m b a)
  let ?q = "p\<lparr>ip_uid := a, ip_gid := b, ip_mode := (ip_mode p AND NOT 0x1FF) OR (m AND 0x1FF)\<rparr>"
  have "is_locked ?q = is_locked p" "is_wanted ?q = is_wanted p" "allocated ?q = allocated p"
    by (simp_all add: mode_bits bit_simps)
  then show ?case using change.prems by (simp only: lk_inv_def fst_conv snd_conv)
next
  case (unlock ps i p)
  then show ?case using lk_inv_release by simp
next
  case (remove ps i s p p' ps')
  let ?q = "p\<lparr>ip_seq := s\<rparr>"
  have "is_locked ?q = is_locked p" "is_wanted ?q = is_wanted p" "allocated ?q = allocated p"
    by (simp_all add: mode_bits)
  then have "lk_inv (?q, ps)" using remove.prems by (simp only: lk_inv_def fst_conv snd_conv)
  then have "\<not> is_locked p' \<and> lk_inv (p', ps')"
    using lk_inv_release [of "(p\<lparr>ip_seq := s\<rparr>, ps)" i] remove.hyps by simp
  then have "\<forall>i. ps' i \<noteq> Holding \<and> (\<forall>s. ps' i \<noteq> Asleep s)"
    using lk_inv_free [of "(p', ps')"] by simp
  moreover have "\<not> is_locked (p'\<lparr>ip_mode := 0\<rparr>)" by (simp add: mode_bits)
  ultimately show ?case by (simp add: lk_inv_free)
next
  case (create p ps key flag u)
  have "\<not> is_locked p" using create by (auto simp: lk_inv_def)
  then show ?case using create by (simp add: lk_inv_free)
qed

lemma lk_inv_reachable: "lk_reachable c \<Longrightarrow> lk_inv c"
proof (induction rule: lk_reachable.induct)
  case (lk_start p)
  then show ?case by (simp add: lk_inv_free)
next
  case (lk_next c d)
  then show ?case by (blast intro: lk_inv_step)
qed

section \<open>Identifier tables\<close>

text \<open>
  The interface that \<^verbatim>\<open>semconv\<close> and \<^verbatim>\<open>msgconv\<close> share: an identifier is the sequence
  number of a slot times the table size plus the slot, and it is valid while the slot is
  allocated under that sequence number.
\<close>

locale id_table =
  fixes conv :: "'s \<Rightarrow> int \<Rightarrow> nat option"
    and entry :: "'s \<Rightarrow> nat \<Rightarrow> ipc_perm"
    and mni :: int
  assumes conv_iff: "conv st s = Some i \<longleftrightarrow> 0 \<le> s \<and> i = nat (s mod mni) \<and>
      allocated (entry st i) \<and> s div mni = ip_seq (entry st i)"
begin

lemma conv_roundtrip:
  assumes "int i < mni" and "allocated (entry st i)" and "0 \<le> ip_seq (entry st i)"
  shows "conv st (ip_seq (entry st i) * mni + int i) = Some i"
  using assms by (auto simp: conv_iff)

lemma conv_inj:
  assumes "0 < mni" and "conv st s = Some i" and "conv st t = Some i"
  shows "s = t"
proof -
  have "nat (s mod mni) = nat (t mod mni)" and d: "s div mni = t div mni"
    using assms(2,3) by (auto simp: conv_iff)
  moreover have "0 \<le> s mod mni" "0 \<le> t mod mni" using assms(1) by simp_all
  ultimately have "s mod mni = t mod mni" by simp
  with d have "s mod mni = t mod mni" "s div mni = t div mni" by simp_all
  then show ?thesis by (metis div_mult_mod_eq)
qed

lemma conv_bound:
  assumes "0 < mni" and "conv st s = Some i"
  shows "int i < mni"
  using assms by (auto simp: conv_iff)

lemma conv_stale:
  assumes "conv st s = Some i"
    and "\<not> allocated (entry st' i) \<or> ip_seq (entry st' i) \<noteq> ip_seq (entry st i)"
  shows "conv st' s = None"
proof (rule ccontr)
  assume "conv st' s \<noteq> None"
  then obtain j where "conv st' s = Some j" by auto
  then show False using assms by (auto simp: conv_iff)
qed

lemma conv_same:
  assumes "conv st s = Some i" and "allocated (entry st' i)" and "ip_seq (entry st' i) = ip_seq (entry st i)"
  shows "conv st' s = Some i"
  using assms by (auto simp: conv_iff)

end

section \<open>Properties\<close>

definition perm_example :: "ipc_perm list" where
  "perm_example =
     [\<lparr>ip_uid = 5, ip_gid = 6, ip_cuid = 5, ip_cgid = 6, ip_mode = 0x81A4, ip_seq = 3, ip_key = 77\<rparr>,
      \<lparr>ip_uid = 0, ip_gid = 0, ip_cuid = 0, ip_cgid = 0, ip_mode = 0, ip_seq = 9, ip_key = 0\<rparr>]"

definition user_example :: uarea where
  "user_example = \<lparr>u_cred = \<lparr>cr_uid = 8, cr_gid = 9, cr_groups = replicate 20 NOGROUP, cr_ruid = 8,
     cr_rgid = 9, cr_ref = 1\<rparr>, u_sgid = 9, u_error = E_OK, u_rval1 = 0, u_rval2 = 0, u_asu = False,
     p_suid = 8, p_pid = 120, p_index = 1\<rparr>"

lemma keys_unique_example: "keys_unique perm_example"
  by (auto simp: keys_unique_def perm_example_def less_Suc_eq allocated_def)

text \<open>
  C9. When \<^verbatim>\<open>ipcgetperm\<close> succeeds it returns an allocated entry that carries the key.
  An existing entry is returned unchanged, only for a public key, only without the
  create-exclusive flags and only when it grants every requested mode bit. A new entry
  was free before, belongs to the caller, has exactly the requested mode bits and keeps
  its sequence number; all other entries are unchanged. Either way no two allocated
  entries share a public key afterwards.
\<close>

theorem ipcgetperm_success:
  assumes "keys_unique ps" and "ipcgetperm key flag u ps = Inr (i, status, ps')"
  shows "i < length ps \<and> length ps' = length ps \<and> keys_unique ps' \<and> key_match key (ps' ! i) \<and>
    (status = 0 \<and> ps' = ps \<and> key \<noteq> IPC_PRIVATE \<and>
       flag AND (IPC_CREAT OR IPC_EXCL) \<noteq> IPC_CREAT OR IPC_EXCL \<and>
       (flag AND 0x1FF) AND NOT (ucast (ip_mode (ps ! i))) = 0 \<or>
     status = 1 \<and> \<not> allocated (ps ! i) \<and> ps' = ps[i := ps' ! i] \<and>
       ip_mode (ps' ! i) = IPC_ALLOC OR ucast (flag AND 0x1FF) \<and>
       ip_uid (ps' ! i) = u_uid u \<and> ip_cuid (ps' ! i) = u_uid u \<and>
       ip_gid (ps' ! i) = u_gid u \<and> ip_cgid (ps' ! i) = u_gid u \<and>
       ip_seq (ps' ! i) = ip_seq (ps ! i))"
  using assms by (rule ipcgetperm_result)

theorem ipcgetperm_success_witness:
  "\<exists>ps'. ipcgetperm 78 0x2A4 user_example perm_example = Inr (1, 1, ps') \<and> keys_unique ps' \<and>
     ip_mode (ps' ! 1) = 0x80A4"
proof -
  have e: "ipcgetperm 78 0x2A4 user_example perm_example =
      Inr (1, 1, perm_example[1 := ipc_init 78 0x2A4 user_example (perm_example ! 1)])"
    by (simp add: ipcgetperm_def perm_example_def allocated_def)
  show ?thesis using ipcgetperm_success [OF keys_unique_example e] e by auto
qed

text \<open>
  C10. The failures of \<^verbatim>\<open>ipcgetperm\<close> are exactly these: EEXIST when the public key exists
  and the flags ask for exclusive creation, EACCES when it exists, is not asked for
  exclusively and lacks a requested mode bit, ENOENT when it does not exist and creation
  is not requested, and ENOSPC when an entry must be created and all are in use.
\<close>

theorem ipcgetperm_errors:
  assumes "keys_unique ps"
  shows "ipcgetperm key flag u ps = Inl e \<longleftrightarrow>
    (if key \<noteq> IPC_PRIVATE \<and> (\<exists>p \<in> set ps. key_match key p) then
       (\<exists>p \<in> set ps. key_match key p \<and>
          (if flag AND (IPC_CREAT OR IPC_EXCL) = IPC_CREAT OR IPC_EXCL then e = EEXIST
           else e = EACCES \<and> (flag AND 0x1FF) AND NOT (ucast (ip_mode p)) \<noteq> 0))
     else if key \<noteq> IPC_PRIVATE \<and> flag AND IPC_CREAT = 0 then e = ENOENT
     else e = ENOSPC \<and> (\<forall>p \<in> set ps. allocated p))"
proof (cases "key \<noteq> IPC_PRIVATE \<and> (\<exists>p \<in> set ps. key_match key p)")
  case True
  then obtain k where k: "k < length ps" "key_match key (ps ! k)"
    "key_scan key flag 0 None ps = key_reply flag k (ps ! k)"
    using key_scan_match [of ps key flag 0 None] by auto
  have uniq: "p = ps ! k" if m: "p \<in> set ps" "key_match key p" for p
  proof -
    obtain j where "j < length ps" "p = ps ! j" using m(1) by (auto simp: in_set_conv_nth)
    then show ?thesis using assms m(2) k(1,2) True by (auto simp: keys_unique_def key_match_def)
  qed
  have in_set: "ps ! k \<in> set ps" using k(1) by simp
  have "ipcgetperm key flag u ps = Inl e \<longleftrightarrow>
     (if flag AND (IPC_CREAT OR IPC_EXCL) = IPC_CREAT OR IPC_EXCL then e = EEXIST
      else e = EACCES \<and> (flag AND 0x1FF) AND NOT (ucast (ip_mode (ps ! k))) \<noteq> 0)"
    using True k(3) by (auto simp: ipcgetperm_def key_reply_def)
  moreover have "(\<exists>p \<in> set ps. key_match key p \<and> P p) \<longleftrightarrow> P (ps ! k)" for P
    using k(2) in_set uniq by blast
  ultimately show ?thesis using True by (simp only: simp_thms if_True)
next
  case False
  show ?thesis
  proof (cases "key = IPC_PRIVATE")
    case True
    then show ?thesis
      by (auto simp: ipcgetperm_def first_free_None [of 0, symmetric] split: option.splits)
  next
    case nz: False
    then have "key_scan key flag 0 None ps = Miss (first_free 0 ps)"
      using False by (simp add: key_scan_miss)
    then show ?thesis
      using False nz
      by (auto simp: ipcgetperm_def first_free_None [of 0, symmetric] split: option.splits)
  qed
qed

theorem ipcgetperm_errors_witness:
  "ipcgetperm 77 0x1FF user_example perm_example = Inl EACCES"
proof -
  have m: "key_match 77 (perm_example ! 0)" by (simp add: key_match_def perm_example_def allocated_def)
  then have "\<exists>p \<in> set perm_example. key_match 77 p" by (auto simp: perm_example_def)
  moreover have "\<exists>p \<in> set perm_example. key_match 77 p \<and>
      (0x1FF AND 0x1FF) AND NOT (ucast (ip_mode p)) \<noteq> (0 :: 32 word)"
    using m by (auto simp: perm_example_def)
  ultimately show ?thesis
    using ipcgetperm_errors [OF keys_unique_example, of 77 "0x1FF" user_example EACCES] by simp
qed

text \<open>
  C11. The sleeping lock of an IPC entry, used by any number of processes in any
  interleaving with removals and re-creations of the entry: at most one process holds it,
  a locked entry is allocated and has a holder, and no wakeup is lost, that is, whenever
  a process is asleep on the lock some process holds it and the wanted bit is set, so
  that the release wakes the sleeper.
\<close>

theorem ipc_lock_protocol:
  assumes "lk_reachable (p, ps)"
  shows "(\<forall>i j. ps i = Holding \<longrightarrow> ps j = Holding \<longrightarrow> i = j) \<and>
    (is_locked p \<longleftrightarrow> (\<exists>i. ps i = Holding)) \<and> (is_locked p \<longrightarrow> allocated p) \<and>
    (\<forall>i s. ps i = Asleep s \<longrightarrow> is_wanted p \<and> (\<exists>j. ps j = Holding \<and>
       snd (lk_release j (p, ps)) i = Woken s))"
proof -
  note inv = lk_inv_reachable [OF assms]
  show ?thesis
  proof (cases "is_locked p")
    case True
    then obtain h where h: "\<And>i. ps i = Holding \<longleftrightarrow> i = h" and a: "allocated p"
      and w: "is_wanted p \<or> (\<forall>i s. ps i \<noteq> Asleep s)"
      using lk_inv_lockedE [OF inv] by (metis fst_conv snd_conv)
    have rel: "snd (lk_release h (p, ps)) i = Woken s" if "ps i = Asleep s" for i s
    proof -
      have "i \<noteq> h" using that h [of i] by auto
      moreover have "fst (ipc_unlock p)" using w that unlock_simps(5) by blast
      ultimately show ?thesis
        using that by (cases "ipc_unlock p") (simp add: lk_release_def)
    qed
    show ?thesis using True h a w rel by auto
  next
    case False
    then show ?thesis using inv by (auto simp: lk_inv_free)
  qed
qed

theorem ipc_lock_protocol_witness:
  "\<exists>p ps. lk_reachable (p, ps) \<and> ps 0 = Holding \<and> ps 1 = Asleep 9 \<and> is_wanted p \<and>
     snd (lk_release 0 (p, ps)) 1 = Woken 9"
proof -
  let ?p = "ipc_init 78 0x2A4 user_example (perm_example ! 1)"
  have "lk_reachable (perm_example ! 1, \<lambda>i. Away)"
    by (rule lk_start) (simp_all add: perm_example_def allocated_def is_locked_def)
  then have r1: "lk_reachable (?p, \<lambda>i. Away)"
    by (rule lk_next) (rule create, simp add: perm_example_def allocated_def)
  have seq: "ip_seq ?p = 9" by (simp add: perm_example_def)
  define p1 where "p1 = snd (ipc_lock_try ?p)"
  note t1 = lock_try_simps [of ?p, folded p1_def]
  have a1: "lk_attempt 0 9 (?p, \<lambda>i. Away) = (p1, (\<lambda>i. Away)(0 := Holding))"
    using t1(5) by (cases "ipc_lock_try ?p") (simp add: lk_attempt_def p1_def)
  have r2: "lk_reachable (p1, (\<lambda>i. Away)(0 := Holding))"
    using lk_next [OF r1] call [of ?p "\<lambda>i. Away" 0] seq a1 by simp
  define p2 where "p2 = snd (ipc_lock_try p1)"
  let ?ps = "(\<lambda>i. Away)(0 := Holding, 1 := Asleep 9)"
  have a2: "lk_attempt 1 9 (p1, (\<lambda>i. Away)(0 := Holding)) = (p2, ?ps)"
    using lock_try_simps(5) [of p1] t1(3)
    by (cases "ipc_lock_try p1") (simp add: lk_attempt_def p2_def)
  have p2: "lk_reachable (p2, ?ps)"
    using lk_next [OF r2] call [of p1 "(\<lambda>i. Away)(0 := Holding)" 1] t1 seq a2 by simp
  have "?ps 1 = Asleep 9" by simp
  then obtain j where j: "is_wanted p2" "?ps j = Holding" "snd (lk_release j (p2, ?ps)) 1 = Woken 9"
    using ipc_lock_protocol [OF p2] by blast
  have "j = 0" using j(2) by (simp split: if_splits)
  then show ?thesis using p2 j by (intro exI [of _ p2] exI [of _ ?ps]) simp
qed

end
