(* ===== verification/Ipc_Map.thy ===== *)
theory Ipc_Map
  imports Seg_List
begin

text \<open>
  The allocation maps of the System V IPC facilities, \<^verbatim>\<open>sys/sysV_map.c\<close> with the
  macros of \<^verbatim>\<open>h/ipc.h\<close>. Slot 0 is a header: its size field counts the slots still
  unused (\<^verbatim>\<open>ipcmapsize\<close>), its address field the waiters (\<^verbatim>\<open>ipcmapwant\<close>). Sizes are
  signed, addresses unsigned 16-bit values; the stores write the conversions out.
\<close>

section \<open>Data\<close>

record ipcent =
  im_size :: int
  im_addr :: int

record ipcmap =
  ipcmapsize :: int
  ipcmapwant :: int
  im_slots :: "ipcent list"    \<comment> \<open>from \<^verbatim>\<open>ipcmapstart(mp)\<close>\<close>
  im_lost :: "(int \<times> int) list" \<comment> \<open>items reported lost on the console\<close>

definition zero_ent :: ipcent where
  "zero_ent = \<lparr>im_size = 0, im_addr = 0\<rparr>"

section \<open>Operations\<close>

definition ipcmapinit :: "ipcmap \<Rightarrow> int \<Rightarrow> ipcmap" where
  "ipcmapinit mp y = mp\<lparr>ipcmapsize := to_s16 (y - 2)\<rparr>"

fun im_shift :: "ipcent list \<Rightarrow> ipcent list outcome" where
  "im_shift (x # y # zs) =
     (if im_size y = 0 then Ret (y # y # zs)
      else obind (im_shift (y # zs)) (\<lambda>r. Ret (y # r)))"
| "im_shift _ = Fault"

definition im_shift_while :: "ipcent list \<Rightarrow> ipcent list outcome" where
  "im_shift_while xs =
     (case xs of [] \<Rightarrow> Fault | x # _ \<Rightarrow> if im_size x = 0 then Ret xs else im_shift xs)"

text \<open>The result is the address, the slots, and whether a slot was given up.\<close>

fun ipcmalloc_walk :: "int \<Rightarrow> ipcent list \<Rightarrow> (int \<times> ipcent list \<times> bool) outcome" where
  "ipcmalloc_walk n [] = Fault"
| "ipcmalloc_walk n (bp # rest) =
     (if im_size bp = 0 then Ret (0, bp # rest, False)
      else if im_size bp \<ge> n then
        (let bp' = \<lparr>im_size = to_s16 (im_size bp - n), im_addr = to_u16 (im_addr bp + n)\<rparr>
         in if im_size bp' = 0
            then obind (im_shift (bp' # rest)) (\<lambda>r. Ret (im_addr bp, r, True))
            else Ret (im_addr bp, bp' # rest, False))
      else obind (ipcmalloc_walk n rest) (\<lambda>(a, r, z). Ret (a, bp # r, z)))"

definition ipcmalloc :: "ipcmap \<Rightarrow> int \<Rightarrow> (int \<times> ipcmap) outcome" where
  "ipcmalloc mp n =
     obind (ipcmalloc_walk n (im_slots mp)) (\<lambda>(a, slots, z).
       Ret (a, mp\<lparr>im_slots := slots,
                  ipcmapsize := (if z then to_s16 (ipcmapsize mp + 1) else ipcmapsize mp)\<rparr>))"

fun ipcmfree_scan :: "int \<Rightarrow> ipcent list \<Rightarrow> (ipcent list \<times> ipcent list) outcome" where
  "ipcmfree_scan a [] = Fault"
| "ipcmfree_scan a (bp # rest) =
     (if im_addr bp \<le> a \<and> im_size bp \<noteq> 0
      then obind (ipcmfree_scan a rest) (\<lambda>(pre, suf). Ret (bp # pre, suf))
      else Ret ([], bp # rest))"

fun im_push :: "ipcent \<Rightarrow> ipcent list \<Rightarrow> ipcent list outcome" where
  "im_push e [] = Fault"
| "im_push e (bp # rest) =
     (if im_size bp = 0 then Ret (e # rest) else obind (im_push bp rest) (\<lambda>r. Ret (e # r)))"

definition ipcmfree_wake :: "ipcmap \<Rightarrow> ipcmap \<times> bool" where
  "ipcmfree_wake mp = (if ipcmapwant mp \<noteq> 0 then (mp\<lparr>ipcmapwant := 0\<rparr>, True) else (mp, False))"

text \<open>The boolean result tells whether \<^verbatim>\<open>wakeup(mp)\<close> was called.\<close>

definition ipcmfree :: "ipcmap \<Rightarrow> int \<Rightarrow> int \<Rightarrow> (ipcmap \<times> bool) outcome" where
  "ipcmfree mp n a =
     obind (ipcmfree_scan a (im_slots mp)) (\<lambda>(pre, suf).
       let bp = hd suf; lp = last pre
       in if pre \<noteq> [] \<and> im_addr lp + im_size lp = a then
            (let lp' = lp\<lparr>im_size := to_s16 (im_size lp + n)\<rparr>
             in if a + n = im_addr bp then
                  (let lp'' = lp'\<lparr>im_size := to_s16 (im_size lp' + im_size bp)\<rparr>
                   in obind (im_shift_while suf) (\<lambda>suf'.
                        Ret (ipcmfree_wake (mp\<lparr>im_slots := butlast pre @ lp'' # suf',
                               ipcmapsize := to_s16 (ipcmapsize mp + 1)\<rparr>))))
                else Ret (ipcmfree_wake (mp\<lparr>im_slots := butlast pre @ lp' # suf\<rparr>)))
          else if a + n = im_addr bp \<and> im_size bp \<noteq> 0 then
            Ret (ipcmfree_wake (mp\<lparr>im_slots := pre @ \<lparr>im_size = to_s16 (im_size bp + n),
                   im_addr = to_u16 (im_addr bp - n)\<rparr> # tl suf\<rparr>))
          else if n \<noteq> 0 then
            (if ipcmapsize mp = 0 then Ret (mp\<lparr>im_lost := im_lost mp @ [(n, a)]\<rparr>, False)
             else obind (im_push \<lparr>im_size = to_s16 n, im_addr = to_u16 a\<rparr> suf) (\<lambda>suf'.
                    Ret (ipcmfree_wake (mp\<lparr>im_slots := pre @ suf',
                           ipcmapsize := to_s16 (ipcmapsize mp - 1)\<rparr>))))
          else Ret (ipcmfree_wake mp))"

section \<open>Abstraction\<close>

text \<open>\<^verbatim>\<open>h/msg.h\<close> asks for fewer than 32768 items in a map; they are numbered from 1.\<close>

abbreviation map_lim :: nat where
  "map_lim \<equiv> 32769"

definition imap_segs :: "ipcmap \<Rightarrow> seg list" where
  "imap_segs mp = map (\<lambda>e. (nat (im_addr e), nat (im_size e)))
     (takeWhile (\<lambda>e. im_size e \<noteq> 0) (im_slots mp))"

definition ienc :: "seg list \<Rightarrow> ipcent list" where
  "ienc xs = map (\<lambda>(a, s). \<lparr>im_size = int s, im_addr = int a\<rparr>) xs"

definition imap_wf :: "ipcmap \<Rightarrow> bool" where
  "imap_wf mp \<longleftrightarrow> segs_ok map_lim 0 (imap_segs mp) \<and>
     0 \<le> ipcmapsize mp \<and> ipcmapsize mp \<le> 32767 - int (length (imap_segs mp)) \<and>
     im_slots mp = ienc (imap_segs mp) @ replicate (Suc (nat (ipcmapsize mp))) zero_ent"

lemma zero_ent_simps [simp]: "im_size zero_ent = 0" "im_addr zero_ent = 0"
  by (simp_all add: zero_ent_def)

lemma ienc_simps [simp]:
  "ienc [] = []" "ienc ((a, s) # xs) = \<lparr>im_size = int s, im_addr = int a\<rparr> # ienc xs"
  "ienc (xs @ ys) = ienc xs @ ienc ys" "length (ienc xs) = length xs" "(ienc xs = []) = (xs = [])"
  by (simp_all add: ienc_def)

lemma ienc_sizes: "segs_ok lim lo xs \<Longrightarrow> e \<in> set (ienc xs) \<Longrightarrow> im_size e \<noteq> 0"
  by (induction lim lo xs rule: segs_ok.induct) auto

lemma imap_segs_ienc:
  assumes "segs_ok lim lo xs" and "im_slots mp = ienc xs @ replicate (Suc k) zero_ent"
  shows "imap_segs mp = xs"
proof -
  have "takeWhile (\<lambda>e. im_size e \<noteq> 0) (im_slots mp) = ienc xs"
    unfolding assms(2) using ienc_sizes [OF assms(1)] by (subst takeWhile_append2) auto
  moreover have "map (\<lambda>e. (nat (im_addr e), nat (im_size e))) (ienc xs) = xs"
    by (simp add: ienc_def o_def case_prod_unfold)
  ultimately show ?thesis by (simp add: imap_segs_def)
qed

lemma imap_wfI:
  assumes "segs_ok map_lim 0 xs" and "im_slots mp = ienc xs @ replicate (Suc k) zero_ent"
    and "ipcmapsize mp = int k" and "int k + int (length xs) \<le> 32767"
  shows "imap_wf mp \<and> imap_segs mp = xs"
  using assms imap_segs_ienc [OF assms(1,2)] by (simp add: imap_wf_def del: replicate_Suc)

lemma imap_wfE:
  assumes "imap_wf mp"
  obtains k where "segs_ok map_lim 0 (imap_segs mp)"
    and "im_slots mp = ienc (imap_segs mp) @ replicate (Suc k) zero_ent"
    and "ipcmapsize mp = int k" and "int k + int (length (imap_segs mp)) \<le> 32767"
proof (rule that [of "nat (ipcmapsize mp)"])
qed (use assms in \<open>simp_all add: imap_wf_def del: replicate_Suc\<close>)

section \<open>The array walks compute the list operations\<close>

lemma im_shift_enc:
  "segs_ok lim lo xs \<Longrightarrow>
   im_shift (x # ienc xs @ replicate (Suc k) zero_ent) = Ret (ienc xs @ replicate (Suc (Suc k)) zero_ent)"
proof (induction xs arbitrary: x lo)
  case (Cons y ys)
  then show ?case by (cases y) auto
qed simp

lemma ipcmalloc_walk_enc:
  assumes "segs_ok map_lim lo xs" and "0 < n"
  shows "ipcmalloc_walk (int n) (ienc xs @ replicate (Suc k) zero_ent) =
    (case seg_alloc n xs of
       None \<Rightarrow> Ret (0, ienc xs @ replicate (Suc k) zero_ent, False)
     | Some (r, ys) \<Rightarrow> Ret (int r,
         ienc ys @ replicate (if length ys < length xs then Suc (Suc k) else Suc k) zero_ent,
         length ys < length xs))"
  using assms
proof (induction n xs arbitrary: lo rule: seg_alloc.induct)
  case (2 n a s xs)
  have ok: "0 < s" "a + s < map_lim" "segs_ok map_lim (a + s) xs" using "2.prems" by auto
  show ?case
  proof (cases "n \<le> s")
    case True
    have "to_s16 (int s - int n) = int (s - n)" "to_u16 (int a + int n) = int (a + n)"
      using True ok "2.prems"(2) by (simp_all add: to_s16_id to_u16_id of_nat_diff)
    then show ?thesis
      using True ok im_shift_enc [OF ok(3)] by (auto simp: Let_def)
  next
    case False
    then show ?thesis using "2.IH" [OF False ok(3) "2.prems"(2)] ok by (auto split: option.splits)
  qed
qed simp

lemma ipcmfree_scan_enc:
  "segs_ok lim lo xs \<Longrightarrow> ipcmfree_scan (int a) (ienc xs @ replicate (Suc k) zero_ent) =
     Ret (ienc (takeWhile (\<lambda>(b, s). b \<le> a) xs),
          ienc (dropWhile (\<lambda>(b, s). b \<le> a) xs) @ replicate (Suc k) zero_ent)"
proof (induction xs arbitrary: lo)
  case (Cons y ys)
  then show ?case by (cases y) auto
qed simp

lemma im_push_enc:
  "segs_ok lim lo xs \<Longrightarrow>
   im_push e (ienc xs @ replicate (Suc k) zero_ent) = Ret (e # ienc xs @ replicate k zero_ent)"
proof (induction xs arbitrary: e lo)
  case (Cons y ys)
  then show ?case by (cases y) auto
qed simp

lemma ipcmalloc_refines:
  assumes wf: "imap_wf mp" and n: "0 < n"
  shows "case seg_alloc n (imap_segs mp) of
      None \<Rightarrow> ipcmalloc mp (int n) = Ret (0, mp)
    | Some (r, ys) \<Rightarrow> \<exists>mp'. ipcmalloc mp (int n) = Ret (int r, mp') \<and> imap_wf mp' \<and>
        imap_segs mp' = ys \<and> ipcmapwant mp' = ipcmapwant mp \<and> im_lost mp' = im_lost mp \<and>
        ipcmapsize mp' + int (length ys) = ipcmapsize mp + int (length (imap_segs mp))"
proof -
  obtain k where ok: "segs_ok map_lim 0 (imap_segs mp)"
    and sl: "im_slots mp = ienc (imap_segs mp) @ replicate (Suc k) zero_ent"
    and k: "ipcmapsize mp = int k" "int k + int (length (imap_segs mp)) \<le> 32767"
    using wf by (rule imap_wfE)
  note walk = ipcmalloc_walk_enc [OF ok n, of k, folded sl]
  show ?thesis
  proof (cases "seg_alloc n (imap_segs mp)")
    case None
    then show ?thesis using walk by (simp add: ipcmalloc_def)
  next
    case (Some p)
    then obtain r ys where p: "seg_alloc n (imap_segs mp) = Some (r, ys)" by (cases p) auto
    define z where "z = (length ys < length (imap_segs mp))"
    define mp' where "mp' = mp\<lparr>im_slots := ienc ys @ replicate (if z then Suc (Suc k) else Suc k) zero_ent,
        ipcmapsize := (if z then to_s16 (ipcmapsize mp + 1) else ipcmapsize mp)\<rparr>"
    have len: "length ys = (if z then length (imap_segs mp) - 1 else length (imap_segs mp))"
      "z \<Longrightarrow> 0 < length (imap_segs mp)"
      using seg_alloc_length [OF p] by (auto simp: z_def)
    have kz: "int (Suc k) + int (length (imap_segs mp) - 1) \<le> 32767" if zt: z
    proof -
      obtain m where "length (imap_segs mp) = Suc m"
        using len(2) zt by (cases "length (imap_segs mp)") auto
      then show ?thesis using k(2) by simp
    qed
    have "int k + 1 < 32768" if z using len(2) [OF that] k by linarith
    then have s16: "to_s16 (int k + 1) = int (Suc k)" if z using that by (simp add: to_s16_id)
    then have "imap_wf mp' \<and> imap_segs mp' = ys"
      using seg_alloc_take [OF ok p n] len k kz
      by (intro imap_wfI [where k = "if z then Suc k else k"]) (auto simp: mp'_def)
    moreover have "ipcmalloc mp (int n) = Ret (int r, mp')"
      using walk p by (simp add: ipcmalloc_def mp'_def z_def)
    moreover have "ipcmapsize mp' + int (length ys) = ipcmapsize mp + int (length (imap_segs mp))"
    proof (cases z)
      case True
      then have "length (imap_segs mp) = Suc (length ys)" using len by simp
      then show ?thesis using k s16 [OF True] True by (simp add: mp'_def)
    qed (use len in \<open>simp add: mp'_def\<close>)
    ultimately show ?thesis using p by (auto simp: mp'_def)
  qed
qed

text \<open>It gives nothing only when no free segment is long enough.\<close>

lemma ipcmalloc_no_room:
  assumes wf: "imap_wf mp" and n: "0 < n" and z: "ipcmalloc mp (int n) = Ret (0, mm)"
  shows "\<forall>(a, s) \<in> set (imap_segs mp). s < n"
proof (cases "seg_alloc n (imap_segs mp)")
  case None
  then show ?thesis by (simp add: seg_alloc_None)
next
  case (Some p)
  then obtain r ys where p: "seg_alloc n (imap_segs mp) = Some (r, ys)" by (cases p) auto
  obtain k where "segs_ok map_lim 0 (imap_segs mp)" using wf by (rule imap_wfE)
  then have "0 < r" using seg_alloc_take [OF _ p n] by blast
  moreover have "r = 0" using ipcmalloc_refines [OF wf n] p z by simp
  ultimately show ?thesis by simp
qed

text \<open>
  What freeing does: the list operation, unless a new entry is needed and no slot is left.
  The waiters are woken unless the units are lost.
\<close>

lemma ipcmfree_refines:
  assumes wf: "imap_wf mp" and n: "0 < n" and clear: "clear_of a n (imap_segs mp)"
    and lim: "a + n < map_lim"
    and a: "0 < a"
  defines "zs \<equiv> seg_free n a (imap_segs mp)"
  shows "if length zs \<le> length (imap_segs mp) \<or> ipcmapsize mp \<noteq> 0
    then \<exists>mp'. ipcmfree mp (int n) (int a) = Ret (ipcmfree_wake mp') \<and> imap_wf mp' \<and>
        imap_segs mp' = zs \<and> ipcmapwant mp' = ipcmapwant mp \<and> im_lost mp' = im_lost mp \<and>
        ipcmapsize mp' + int (length zs) = ipcmapsize mp + int (length (imap_segs mp))
    else ipcmfree mp (int n) (int a) = Ret (mp\<lparr>im_lost := im_lost mp @ [(int n, int a)]\<rparr>, False)"
proof -
  obtain k where ok: "segs_ok map_lim 0 (imap_segs mp)"
    and sl: "im_slots mp = ienc (imap_segs mp) @ replicate (Suc k) zero_ent"
    and k: "ipcmapsize mp = int k" "int k + int (length (imap_segs mp)) \<le> 32767"
    using wf by (rule imap_wfE)
  obtain us vs where xs: "imap_segs mp = us @ vs"
    and us: "us = takeWhile (\<lambda>(b, s). b \<le> a) (imap_segs mp)"
    and vs: "vs = dropWhile (\<lambda>(b, s). b \<le> a) (imap_segs mp)"
    and below: "\<forall>(b, s) \<in> set us. b + s \<le> a"
    and above: "\<And>c t vs'. vs = (c, t) # vs' \<Longrightarrow> a + n \<le> c"
    using free_split [OF ok clear n] by metis
  have scan: "ipcmfree_scan (int a) (im_slots mp) = Ret (ienc us, ienc vs @ replicate (Suc k) zero_ent)"
    unfolding sl us vs by (rule ipcmfree_scan_enc [OF ok])
  have zok: "segs_ok map_lim 0 zs" unfolding zs_def by (rule seg_free_ok [OF ok clear n a lim])
  have oku: "segs_ok map_lim 0 us" using ok unfolding xs by (rule segs_ok_prefix)
  have okv: "segs_ok map_lim 0 vs" using ok unfolding xs by (rule segs_ok_suffix)
  note step = ipcmfree_def scan Let_def
  show ?thesis
  proof (cases "\<exists>us' b s. us = us' @ [(b, s)] \<and> b + s = a")
    case True
    then obtain us' b s where us': "us = us' @ [(b, s)]" "b + s = a" by blast
    have ok': "segs_ok map_lim 0 (us' @ [(b, s)] @ vs)" using ok by (simp add: xs us')
    have bs: "b + s < map_lim" "segs_ok map_lim (b + s) vs"
      using segs_ok_append [of map_lim 0 us' b s vs] ok' by simp_all
    have sn: "to_s16 (int s + int n) = int (s + n)" using lim us'(2) n bs a
        segs_ok_above [OF ok', of b s] by (simp add: to_s16_id)
    note free = segs_ok_abut_free [OF ok' us'(2) n above, folded append_assoc us'(1)]
    show ?thesis
    proof (cases "\<exists>c t vs'. vs = (c, t) # vs' \<and> a + n = c")
      case both: True
      then obtain c t vs' where v: "vs = (c, t) # vs'" "a + n = c" by blast
      have zs: "zs = us' @ (b, s + n + t) # vs'" using free v by (simp add: xs us' zs_def)
      have ct: "c + t < map_lim" "0 < t" "segs_ok map_lim (c + t) vs'" using bs(2) by (simp_all add: v)
      have snt: "to_s16 (int (s + n) + int t) = int (s + n + t)"
        using us'(2) v(2) ct segs_ok_above [OF ok', of b s] by (simp add: to_s16_id)
      have sh: "im_shift_while (ienc vs @ replicate (Suc k) zero_ent)
          = Ret (ienc vs' @ replicate (Suc (Suc k)) zero_ent)"
        using im_shift_enc [OF ct(3)] ct(2) by (simp add: im_shift_while_def v)
      have k1: "to_s16 (int k + 1) = int (Suc k)" using k(2) by (simp add: to_s16_id xs us')
      define mp' where "mp' = mp\<lparr>im_slots := ienc zs @ replicate (Suc (Suc k)) zero_ent,
          ipcmapsize := int (Suc k)\<rparr>"
      have wf': "imap_wf mp' \<and> imap_segs mp' = zs"
        using k(2) by (intro imap_wfI [OF zok, where k = "Suc k"]) (simp_all add: mp'_def zs xs us' v)
      have "ipcmfree mp (int n) (int a) = Ret (ipcmfree_wake mp')"
        using us'(2) v sh sn snt k1 k(1) by (simp add: step us'(1) mp'_def zs butlast_append)
      then show ?thesis using wf' k by (auto simp: zs xs us' v mp'_def intro!: exI [of _ mp'])
    next
      case left: False
      have zs: "zs = us' @ (b, s + n) # vs" using free left by (cases vs) (auto simp: xs us' zs_def)
      have nb: "vs = [] \<or> int a + int n \<noteq> im_addr (hd (ienc vs))" using left by (cases vs) auto
      define mp' where "mp' = mp\<lparr>im_slots := ienc zs @ replicate (Suc k) zero_ent\<rparr>"
      have wf': "imap_wf mp' \<and> imap_segs mp' = zs"
        using k by (intro imap_wfI [OF zok, where k = k]) (simp_all add: mp'_def zs xs us')
      have "ipcmfree mp (int n) (int a) = Ret (ipcmfree_wake mp')"
        using us'(2) nb sn k(1) n by (cases vs) (auto simp: step us'(1) mp'_def zs butlast_append)
      then show ?thesis using wf' k by (auto simp: zs xs us' mp'_def intro!: exI [of _ mp'])
    qed
  next
    case False
    have strict: "\<forall>(b, s) \<in> set us. b + s < a"
      using False ends_at_last [OF oku below] below by fastforce
    have nolp: "\<not> (ienc us \<noteq> [] \<and> im_addr (last (ienc us)) + im_size (last (ienc us)) = int a)"
    proof (cases us rule: rev_cases)
      case (snoc us' y)
      then show ?thesis using strict by (cases y) auto
    qed simp
    show ?thesis
    proof (cases "\<exists>c t vs'. vs = (c, t) # vs' \<and> a + n = c")
      case right: True
      then obtain c t vs' where v: "vs = (c, t) # vs'" "a + n = c" by blast
      have "zs = us @ seg_free n a vs" using strict by (simp add: zs_def xs seg_free_skip)
      then have zs: "zs = us @ (a, n + t) # vs'" using v by simp
      have ct: "c + t < map_lim" "0 < t" using okv by (simp_all add: v)
      have st: "to_s16 (int t + int n) = int (n + t)" "to_u16 (int c - int n) = int a"
        using v(2) ct a by (simp_all add: to_s16_id to_u16_id)
      define mp' where "mp' = mp\<lparr>im_slots := ienc zs @ replicate (Suc k) zero_ent\<rparr>"
      have wf': "imap_wf mp' \<and> imap_segs mp' = zs"
        using k by (intro imap_wfI [OF zok, where k = k]) (simp_all add: mp'_def zs xs v)
      have "ipcmfree mp (int n) (int a) = Ret (ipcmfree_wake mp')"
        unfolding step obind.simps prod.case if_not_P [OF nolp]
        using v(2) ct st by (simp add: mp'_def zs v(1))
      then show ?thesis using wf' k by (auto simp: zs xs v mp'_def intro!: exI [of _ mp'])
    next
      case alone: False
      have zsf: "zs = us @ seg_free n a vs" using strict by (simp add: zs_def xs seg_free_skip)
      have zs: "zs = us @ (a, n) # vs"
      proof (cases vs)
        case (Cons y ys)
        then show ?thesis using zsf alone above [of "fst y" "snd y" ys] by (cases y) auto
      qed (use zsf in simp)
      have nb: "\<not> (int a + int n = im_addr (hd (ienc vs @ replicate (Suc k) zero_ent)) \<and>
          im_size (hd (ienc vs @ replicate (Suc k) zero_ent)) \<noteq> 0)"
        using alone by (cases vs) auto
      have na: "to_s16 (int n) = int n" "to_u16 (int a) = int a"
        using lim a n by (simp_all add: to_s16_id to_u16_id)
      have fr: "ipcmfree mp (int n) (int a) =
         (if ipcmapsize mp = 0 then Ret (mp\<lparr>im_lost := im_lost mp @ [(int n, int a)]\<rparr>, False)
          else obind (im_push \<lparr>im_size = int n, im_addr = int a\<rparr> (ienc vs @ replicate (Suc k) zero_ent))
            (\<lambda>suf'. Ret (ipcmfree_wake (mp\<lparr>im_slots := ienc us @ suf',
                           ipcmapsize := to_s16 (ipcmapsize mp - 1)\<rparr>))))"
        unfolding step obind.simps prod.case if_not_P [OF nolp] if_not_P [OF nb]
        using n na by simp
      show ?thesis
      proof (cases k)
        case 0
        then show ?thesis using fr k(1) by (simp add: zs xs)
      next
        case (Suc k')
        have k': "to_s16 (int k - 1) = int k'" using k(2) Suc by (simp add: to_s16_id)
        define mp' where "mp' = mp\<lparr>im_slots := ienc zs @ replicate (Suc k') zero_ent,
            ipcmapsize := int k'\<rparr>"
        have wf': "imap_wf mp' \<and> imap_segs mp' = zs"
          using k Suc by (intro imap_wfI [OF zok, where k = k']) (simp_all add: mp'_def zs xs)
        have "ipcmfree mp (int n) (int a) = Ret (ipcmfree_wake mp')"
          using fr im_push_enc [OF okv, of _ k] k(1) k' Suc by (simp add: mp'_def zs)
        then show ?thesis using wf' k Suc by (auto simp: zs xs mp'_def intro!: exI [of _ mp'])
      qed
    qed
  qed
qed

section \<open>The map as an extent allocator\<close>

definition im_grant :: "ipcmap \<Rightarrow> nat \<Rightarrow> (nat \<times> ipcmap) option" where
  "im_grant mp n = (case ipcmalloc mp (int n) of
     Ret (r, mp') \<Rightarrow> if r = 0 then None else Some (nat r, mp') | _ \<Rightarrow> None)"

definition im_return :: "ipcmap \<Rightarrow> nat \<Rightarrow> nat \<Rightarrow> ipcmap option" where
  "im_return mp n a = (case ipcmfree mp (int n) (int a) of
     Ret (mp', _) \<Rightarrow> if im_lost mp' = im_lost mp then Some mp' else None | _ \<Rightarrow> None)"

lemma ipcmfree_wake_simps [simp]:
  "im_slots (fst (ipcmfree_wake mp)) = im_slots mp"
  "ipcmapsize (fst (ipcmfree_wake mp)) = ipcmapsize mp"
  "im_lost (fst (ipcmfree_wake mp)) = im_lost mp"
  "imap_segs (fst (ipcmfree_wake mp)) = imap_segs mp"
  "imap_wf (fst (ipcmfree_wake mp)) = imap_wf mp"
  by (simp_all add: ipcmfree_wake_def imap_wf_def imap_segs_def)

lemma im_grant_Some:
  assumes wf: "imap_wf mp" and n: "0 < n" and g: "im_grant mp n = Some (r, mp')"
  shows "imap_wf mp' \<and> seg_alloc n (imap_segs mp) = Some (r, imap_segs mp')"
  using ipcmalloc_refines [OF wf n] g
  by (auto simp: im_grant_def split: option.splits if_splits)

lemma im_return_Some:
  assumes wf: "imap_wf mp" and n: "0 < n" and a: "0 < a" "a + n < map_lim"
    and clear: "clear_of a n (imap_segs mp)" and g: "im_return mp n a = Some mp'"
  shows "imap_wf mp' \<and> imap_segs mp' = seg_free n a (imap_segs mp)"
proof (cases "length (seg_free n a (imap_segs mp)) \<le> length (imap_segs mp) \<or> ipcmapsize mp \<noteq> 0")
  case True
  then obtain mp2 where m2: "ipcmfree mp (int n) (int a) = Ret (ipcmfree_wake mp2)" "imap_wf mp2"
    "imap_segs mp2 = seg_free n a (imap_segs mp)"
    using ipcmfree_refines [OF wf n clear a(2,1)] by auto
  have "mp' = fst (ipcmfree_wake mp2)"
    using g by (simp add: im_return_def m2(1) split: prod.splits if_splits)
  then show ?thesis using m2 by simp
next
  case False
  then have "im_return mp n a = None"
    using ipcmfree_refines [OF wf n clear a(2,1)] by (simp add: im_return_def)
  then show ?thesis using g by simp
qed

interpretation im: extent_allocator im_grant im_return "\<lambda>mp. units (imap_segs mp)" imap_wf map_lim
proof
  fix m r m' and n :: nat
  assume i: "imap_wf m" "0 < n" "im_grant m n = Some (r, m')"
  have ok: "segs_ok map_lim 0 (imap_segs m)" using i by (simp add: imap_wf_def)
  note g = im_grant_Some [OF i]
  note t = seg_alloc_take [OF ok conjunct2 [OF g] i(2)]
  show "imap_wf m'" using g by simp
  show "{r..<r + n} \<subseteq> units (imap_segs m) \<and>
    units (imap_segs m') = units (imap_segs m) - {r..<r + n}" using t by simp
  have "r + n - 1 \<in> units (imap_segs m)" using t i(2) by auto
  then show "0 < r \<and> r + n < map_lim" using t units_upper_end [OF ok] i(2) by fastforce
next
  fix m m' and n a :: nat
  assume i: "imap_wf m" "0 < n" "0 < a" "a + n < map_lim" and
    d: "{a..<a + n} \<inter> units (imap_segs m) = {}" and r: "im_return m n a = Some m'"
  have ok: "segs_ok map_lim 0 (imap_segs m)" using i by (simp add: imap_wf_def)
  have clear: "clear_of a n (imap_segs m)" using d units_disjoint_clear_of [OF ok i(2)] by simp
  note g = im_return_Some [OF i clear r]
  show "imap_wf m'" using g by simp
  show "units (imap_segs m') = units (imap_segs m) \<union> {a..<a + n}"
    using g seg_free_units [OF ok clear i(2)] by simp
qed

lemma ipcmfree_effect:
  assumes "imap_wf mp" and "0 < n" and "0 < a" and "a + n < map_lim"
    and "{a..<a + n} \<inter> units (imap_segs mp) = {}"
  shows "(\<exists>mp'. ipcmfree mp (int n) (int a) = Ret (mp', ipcmapwant mp \<noteq> 0) \<and> imap_wf mp' \<and>
      units (imap_segs mp') = units (imap_segs mp) \<union> {a..<a + n} \<and> im_lost mp' = im_lost mp \<and>
      ipcmapwant mp' = 0 \<and> length (im_slots mp') = length (im_slots mp)) \<or>
    ipcmapsize mp = 0 \<and>
      ipcmfree mp (int n) (int a) = Ret (mp\<lparr>im_lost := im_lost mp @ [(int n, int a)]\<rparr>, False)"
proof -
  have ok: "segs_ok map_lim 0 (imap_segs mp)" using assms(1) by (simp add: imap_wf_def)
  have clear: "clear_of a n (imap_segs mp)"
    using assms(5) units_disjoint_clear_of [OF ok assms(2)] by simp
  note r = ipcmfree_refines [OF assms(1,2) clear assms(4,3)]
  note u = seg_free_units [OF ok clear assms(2)]
  have slots: "length (im_slots m) = length (imap_segs m) + Suc (nat (ipcmapsize m))"
    if "imap_wf m" for m
    using that unfolding imap_wf_def by (metis ienc_simps(4) length_append length_replicate)
  show ?thesis
  proof (cases "length (seg_free n a (imap_segs mp)) \<le> length (imap_segs mp) \<or> ipcmapsize mp \<noteq> 0")
    case True
    then obtain m2 where m2: "ipcmfree mp (int n) (int a) = Ret (ipcmfree_wake m2)" "imap_wf m2"
      "imap_segs m2 = seg_free n a (imap_segs mp)" "ipcmapwant m2 = ipcmapwant mp"
      "im_lost m2 = im_lost mp"
      "ipcmapsize m2 + int (length (imap_segs m2)) = ipcmapsize mp + int (length (imap_segs mp))"
      using r by auto
    have "0 \<le> ipcmapsize m2" "0 \<le> ipcmapsize mp" using m2(2) assms(1) by (simp_all add: imap_wf_def)
    then have "length (im_slots m2) = length (im_slots mp)"
      using slots [OF m2(2)] slots [OF assms(1)] m2(6) by linarith
    moreover have "ipcmfree_wake m2 = (fst (ipcmfree_wake m2), ipcmapwant mp \<noteq> 0)"
      "ipcmapwant (fst (ipcmfree_wake m2)) = 0"
      by (simp_all add: ipcmfree_wake_def m2(4))
    ultimately show ?thesis
      using m2 u by (intro disjI1 exI [of _ "fst (ipcmfree_wake m2)"]) auto
  qed (use r in auto)
qed

section \<open>Properties\<close>

definition im_example :: ipcmap where
  "im_example = \<lparr>ipcmapsize = 2, ipcmapwant = 1,
     im_slots = [\<lparr>im_size = 3, im_addr = 2\<rparr>, \<lparr>im_size = 4, im_addr = 9\<rparr>,
       zero_ent, zero_ent, zero_ent], im_lost = []\<rparr>"

lemma im_example_wf [simp]:
  "imap_wf im_example" "imap_segs im_example = [(2, 3), (9, 4)]" "ipcmapsize im_example = 2"
  "ipcmapwant im_example = 1" "im_lost im_example = []"
  by (simp_all add: im_example_def imap_wf_def imap_segs_def numeral_2_eq_2)

text \<open>
  Freeing units of an IPC map that are allocated keeps the map well-formed, coalesces
  with both neighbours, adds exactly those units to the free set and wakes the waiters,
  and the sum of used and unused slots is kept. Only when the units abut no segment and
  no slot is left does it lose them; then it changes nothing but the console log, and the
  waiters are not woken.
\<close>

theorem ipcmfree_accounts:
  assumes "imap_wf mp" and "0 < n" and "0 < a" and "a + n < map_lim"
    and "{a..<a + n} \<inter> units (imap_segs mp) = {}"
  shows "(\<exists>mp'. ipcmfree mp (int n) (int a) = Ret (mp', ipcmapwant mp \<noteq> 0) \<and> imap_wf mp' \<and>
      units (imap_segs mp') = units (imap_segs mp) \<union> {a..<a + n} \<and> im_lost mp' = im_lost mp \<and>
      ipcmapwant mp' = 0 \<and> length (im_slots mp') = length (im_slots mp)) \<or>
    ipcmapsize mp = 0 \<and>
      ipcmfree mp (int n) (int a) = Ret (mp\<lparr>im_lost := im_lost mp @ [(int n, int a)]\<rparr>, False)"
  using assms by (rule ipcmfree_effect)

theorem ipcmfree_accounts_witness:
  "\<exists>mp'. ipcmfree im_example 4 5 = Ret (mp', True) \<and> units (imap_segs mp') = {2..<13} \<and>
     ipcmapwant mp' = 0"
proof -
  have "{5..<5 + 4} \<inter> units (imap_segs im_example) = {}" by auto
  then show ?thesis
    using ipcmfree_accounts [OF im_example_wf(1), of 4 5] by (auto simp: ivl_disj_un)
qed

text \<open>
  An IPC map never hands out a unit twice: the ranges granted by any sequence of
  requests are pairwise disjoint.
\<close>

theorem ipcmalloc_grants_disjoint:
  assumes "imap_wf mp" and "\<forall>n \<in> set ns. 0 < n"
  shows "sorted_wrt (\<lambda>(r, n) (q, k). {r..<r + n} \<inter> {q..<q + k} = {}) (im.grants mp ns)"
  using assms by (rule im.grants_disjoint)

theorem ipcmalloc_grants_disjoint_witness:
  "im.grants im_example [2, 4, 1] = [(2, 2), (9, 4), (4, 1)] \<and>
   sorted_wrt (\<lambda>(r, n) (q, k). {r..<r + n} \<inter> {q..<q + k} = {}) (im.grants im_example [2, 4, 1])"
proof
  show "im.grants im_example [2, 4, 1] = [(2, 2), (9, 4), (4, 1)]"
    by (simp add: im_grant_def ipcmalloc_def im_example_def to_s16_def to_u16_def numeral_2_eq_2)
  show "sorted_wrt (\<lambda>(r, n) (q, k). {r..<r + n} \<inter> {q..<q + k} = {}) (im.grants im_example [2, 4, 1])"
    by (rule ipcmalloc_grants_disjoint) simp_all
qed

end
