(* ===== verification/Sem_Undo.thy ===== *)
theory Sem_Undo
  imports Ipc_Perm Ipc_Map
begin

text \<open>
  The state of the semaphore facility (\<^verbatim>\<open>h/sem.h\<close>) and its adjust-on-exit
  bookkeeping, \<^verbatim>\<open>semaoe\<close> and \<^verbatim>\<open>semunrm\<close> of \<^verbatim>\<open>sys/sysV_sem.c\<close>. Every
  process with pending adjustments owns a \<^verbatim>\<open>struct sem_undo\<close>; those with at least one
  entry are linked from \<^verbatim>\<open>semunp\<close>, the unused ones from \<^verbatim>\<open>semfup\<close>. Pointers to
  these structures are indices into the array \<^verbatim>\<open>semu\<close>; \<open>un_ent\<close> holds the first
  \<^verbatim>\<open>un_cnt\<close> entries of the array of that name.
\<close>

section \<open>Data\<close>

record sem =
  semval :: int    \<comment> \<open>unsigned short, as are the others\<close>
  sempid :: int
  semncnt :: int
  semzcnt :: int

record semid_ds =
  sem_perm :: ipc_perm
  sem_base :: nat   \<comment> \<open>index of the first semaphore in \<^verbatim>\<open>sem[]\<close>\<close>
  sem_nsems :: int
  sem_otime :: int
  sem_ctime :: int

record undo =
  un_aoe :: int
  un_num :: int
  un_id :: int

record sem_undo =
  un_np :: "nat option"
  un_ent :: "undo list"

record seminfo =
  si_semmap :: int
  semmni :: int
  semmns :: int
  semmnu :: nat
  semmsl :: int
  semopm :: int
  semume :: nat
  semvmx :: int
  semaem :: int

datatype semchan = Ncnt nat | Zcnt nat | Semmap

record semstate =
  sema :: "semid_ds list"
  semv :: "sem list"                 \<comment> \<open>\<^verbatim>\<open>sem[]\<close>\<close>
  semmap :: ipcmap
  sem_undos :: "nat \<Rightarrow> nat option"    \<comment> \<open>\<^verbatim>\<open>sem_undo[pindx(p)]\<close>\<close>
  semu :: "sem_undo list"
  semunp :: "nat option"
  semfup :: "nat option"
  sem_time :: int
  sem_woken :: "semchan list"        \<comment> \<open>calls of \<^verbatim>\<open>wakeup\<close>, latest last\<close>

abbreviation un_cnt :: "sem_undo \<Rightarrow> nat" where
  "un_cnt up \<equiv> length (un_ent up)"

section \<open>Adjust on exit\<close>

definition set_ent :: "nat \<Rightarrow> undo list \<Rightarrow> semstate \<Rightarrow> semstate" where
  "set_ent up es st = st\<lparr>semu := (semu st)[up := (semu st ! up)\<lparr>un_ent := es\<rparr>]\<rparr>"

definition set_np :: "nat \<Rightarrow> nat option \<Rightarrow> semstate \<Rightarrow> semstate" where
  "set_np up q st = st\<lparr>semu := (semu st)[up := (semu st ! up)\<lparr>un_np := q\<rparr>]\<rparr>"

text \<open>The walk that unlinks \<open>up\<close> from the chain, started at \<open>p\<close>; at most one visit per structure.\<close>

fun unlink_walk :: "nat \<Rightarrow> nat option \<Rightarrow> nat \<Rightarrow> semstate \<Rightarrow> semstate" where
  "unlink_walk (Suc n) (Some q) up st =
     (if un_np (semu st ! q) = Some up then set_np q (un_np (semu st ! up)) st
      else unlink_walk n (un_np (semu st ! q)) up st)"
| "unlink_walk _ _ up st = st"

definition unlink_undo :: "nat \<Rightarrow> semstate \<Rightarrow> semstate" where
  "unlink_undo up st =
     (if semunp st = Some up then st\<lparr>semunp := un_np (semu st ! up)\<rparr>
      else unlink_walk (length (semu st)) (semunp st) up st)"

definition undo_before :: "int \<Rightarrow> int \<Rightarrow> undo \<Rightarrow> bool" where
  "undo_before sid num e \<longleftrightarrow> un_id e < sid \<or> (un_id e = sid \<and> un_num e < num)"

text \<open>The undo structure of the calling process, taken from the free chain if it has none.\<close>

definition semaoe_struct :: "uarea \<Rightarrow> semstate \<Rightarrow> (nat \<times> semstate) option" where
  "semaoe_struct u st =
     (case sem_undos st (p_index u) of
        Some up \<Rightarrow> Some (up, st)
      | None \<Rightarrow>
          (case semfup st of
             None \<Rightarrow> None
           | Some up \<Rightarrow>
               Some (up, (set_np up None (st\<lparr>semfup := un_np (semu st ! up)\<rparr>))
                           \<lparr>sem_undos := (sem_undos st)(p_index u := Some up)\<rparr>)))"

definition semaoe_entry ::
  "seminfo \<Rightarrow> int \<Rightarrow> int \<Rightarrow> int \<Rightarrow> nat \<Rightarrow> uarea \<Rightarrow> semstate \<Rightarrow> bool \<times> uarea \<times> semstate" where
  "semaoe_entry si val sid num up u st =
     (let ents = un_ent (semu st ! up);
          pre = takeWhile (undo_before sid num) ents;
          suf = dropWhile (undo_before sid num) ents
      in case suf of
           e # rest \<Rightarrow>
             if un_id e = sid \<and> un_num e = num then
               (let t = un_aoe e - val
                in if t > semaem si \<or> t < - semaem si then (True, set_error ERANGE u, st)
                   else if to_s16 t = 0 then
                     (let st1 = set_ent up (pre @ rest) st
                      in (False, u, if pre @ rest = []
                                    then set_np up None (unlink_undo up st1) else st1))
                   else (False, u, set_ent up (pre @ e\<lparr>un_aoe := to_s16 t\<rparr> # rest) st))
             else if length ents \<ge> semume si then (True, set_error EINVAL u, st)
             else (False, u, set_ent up (pre @ \<lparr>un_aoe = to_s16 (- val), un_num = num, un_id = sid\<rparr> # suf) st)
         | [] \<Rightarrow>
             if length ents \<ge> semume si then (True, set_error EINVAL u, st)
             else (let st1 = (if ents = [] then (set_np up (semunp st) st)\<lparr>semunp := Some up\<rparr> else st)
                   in (False, u, set_ent up (pre @ [\<lparr>un_aoe = to_s16 (- val), un_num = num, un_id = sid\<rparr>]) st1)))"

text \<open>The boolean is the C result: \<open>True\<close> when \<^verbatim>\<open>u.u_error\<close> was set.\<close>

definition semaoe :: "seminfo \<Rightarrow> int \<Rightarrow> int \<Rightarrow> int \<Rightarrow> uarea \<Rightarrow> semstate \<Rightarrow> bool \<times> uarea \<times> semstate" where
  "semaoe si val sid num u st =
     (if val = 0 then (False, u, st)
      else if val > semaem si \<or> val < - semaem si then (True, set_error ERANGE u, st)
      else (case semaoe_struct u st of
              None \<Rightarrow> (True, set_error ENOSPC u, st)
            | Some (up, st') \<Rightarrow> semaoe_entry si val sid num up u st'))"

section \<open>Undo entry removal\<close>

fun unrm_entries :: "int \<Rightarrow> int \<Rightarrow> int \<Rightarrow> undo list \<Rightarrow> undo list" where
  "unrm_entries sid low high [] = []"
| "unrm_entries sid low high (e # es) =
     (if sid < un_id e then e # es
      else if sid > un_id e \<or> low > un_num e then e # unrm_entries sid low high es
      else if high < un_num e then e # es
      else unrm_entries sid low high es)"

fun semunrm_walk :: "nat \<Rightarrow> int \<Rightarrow> int \<Rightarrow> int \<Rightarrow> nat option \<Rightarrow> nat option \<Rightarrow> semstate \<Rightarrow> semstate" where
  "semunrm_walk (Suc n) sid low high pp (Some p) st =
     (let st1 = set_ent p (unrm_entries sid low high (un_ent (semu st ! p))) st;
          next = un_np (semu st1 ! p)
      in if un_ent (semu st1 ! p) = [] then
           (case pp of
              None \<Rightarrow> semunrm_walk n sid low high None next (set_np p None (st1\<lparr>semunp := next\<rparr>))
            | Some q \<Rightarrow> semunrm_walk n sid low high pp next (set_np p None (set_np q next st1)))
         else semunrm_walk n sid low high (Some p) next st1)"
| "semunrm_walk _ sid low high pp p st = st"

definition semunrm :: "int \<Rightarrow> int \<Rightarrow> int \<Rightarrow> semstate \<Rightarrow> semstate" where
  "semunrm sid low high st = semunrm_walk (length (semu st)) sid low high None (semunp st) st"

section \<open>Chains\<close>

text \<open>\<open>lseg xs p is q\<close>: following \<^verbatim>\<open>un_np\<close> from \<open>p\<close> visits the structures \<open>is\<close> and ends at \<open>q\<close>.\<close>

fun lseg :: "sem_undo list \<Rightarrow> nat option \<Rightarrow> nat list \<Rightarrow> nat option \<Rightarrow> bool" where
  "lseg xs p [] q \<longleftrightarrow> p = q"
| "lseg xs p (i # is) q \<longleftrightarrow> p = Some i \<and> i < length xs \<and> lseg xs (un_np (xs ! i)) is q"

abbreviation chain :: "sem_undo list \<Rightarrow> nat option \<Rightarrow> nat list \<Rightarrow> bool" where
  "chain xs p is \<equiv> lseg xs p is None"

lemma lseg_append:
  "lseg xs p (us @ vs) r \<longleftrightarrow> (\<exists>q. lseg xs p us q \<and> lseg xs q vs r)"
  by (induction us arbitrary: p) auto

lemma lseg_bound: "lseg xs p is q \<Longrightarrow> i \<in> set is \<Longrightarrow> i < length xs"
  by (induction "is" arbitrary: p) auto

lemma lseg_cong:
  "length xs = length ys \<Longrightarrow> \<forall>i \<in> set is. un_np (xs ! i) = un_np (ys ! i) \<Longrightarrow>
   lseg xs p is q = lseg ys p is q"
  by (induction "is" arbitrary: p) auto

lemma lseg_frame: "i \<notin> set is \<Longrightarrow> lseg (xs[i := y]) p is q = lseg xs p is q"
  by (rule lseg_cong) (simp, metis nth_list_update_neq)

lemma lseg_appendI: "lseg xs p us q \<Longrightarrow> lseg xs q vs r \<Longrightarrow> lseg xs p (us @ vs) r"
  by (auto simp: lseg_append)

lemma lseg_relink:
  assumes "lseg xs p (us @ [i]) q" and "i \<notin> set us"
  shows "lseg (xs[i := (xs ! i)\<lparr>un_np := r\<rparr>]) p (us @ [i]) r"
  using assms by (auto simp: lseg_append lseg_frame)

lemma lseg_length:
  assumes "lseg xs p is q" and "distinct is"
  shows "length is \<le> length xs"
proof -
  have "set is \<subseteq> {..<length xs}" using lseg_bound [OF assms(1)] by auto
  then show ?thesis using card_mono [of "{..<length xs}" "set is"] distinct_card [OF assms(2)] by simp
qed

lemma unlink_walk_chain:
  assumes "lseg (semu st) p (us @ q # up # vs) r" and "distinct (us @ q # up # vs)"
    and "length us < n"
  shows "unlink_walk n p up st = set_np q (un_np (semu st ! up)) st"
  using assms
proof (induction us arbitrary: p n)
  case Nil
  then show ?case by (cases n) auto
next
  case (Cons i us)
  then obtain m where n: "n = Suc m" by (cases n) auto
  have seg: "lseg (semu st) (un_np (semu st ! i)) (us @ q # up # vs) r" "p = Some i"
    using Cons.prems(1) by auto
  have "un_np (semu st ! i) = Some (hd (us @ [q]))" using seg(1) by (cases us) auto
  moreover have "up \<notin> set us" "up \<noteq> q" using Cons.prems(2) by auto
  ultimately have "un_np (semu st ! i) \<noteq> Some up" by (cases us) auto
  then show ?case using Cons.IH [OF seg(1), of m] Cons.prems seg(2) by (simp add: n)
qed

lemma unlink_undo_chain:
  assumes "chain (semu st) (semunp st) act" and "distinct act" and "up \<in> set act"
  shows "chain (semu (unlink_undo up st)) (semunp (unlink_undo up st)) (remove1 up act) \<and>
    (\<exists>p ys. unlink_undo up st = st\<lparr>semunp := p, semu := ys\<rparr> \<and> length ys = length (semu st) \<and>
       (\<forall>i. un_ent (ys ! i) = un_ent (semu st ! i)) \<and>
       (\<forall>i. i \<notin> set act \<longrightarrow> ys ! i = semu st ! i))"
proof -
  obtain us vs where act: "act = us @ up # vs" "up \<notin> set us" using assms(3) by (metis split_list_first)
  show ?thesis
  proof (cases us rule: rev_cases)
    case Nil
    then have "semunp st = Some up" using assms(1) act by simp
    then show ?thesis using assms(1) act Nil
      by (intro conjI exI [of _ "un_np (semu st ! up)"] exI [of _ "semu st"]) (simp_all add: unlink_undo_def)
  next
    case (snoc ws q)
    have d: "distinct (ws @ q # up # vs)" using assms(2) act snoc by simp
    have seg: "lseg (semu st) (semunp st) (ws @ q # up # vs) None" using assms(1) act snoc by simp
    have n: "length ws < length (semu st)" using lseg_length [OF seg d] by simp
    have "semunp st \<noteq> Some up" using seg d by (cases ws) auto
    then have un: "unlink_undo up st = set_np q (un_np (semu st ! up)) st"
      using unlink_walk_chain [OF seg d n] by (simp add: unlink_undo_def)
    have pre: "lseg (semu st) (semunp st) (ws @ [q]) (Some up)"
      and post: "lseg (semu st) (un_np (semu st ! up)) vs None"
      using seg by (auto simp: lseg_append)
    have "lseg (semu (set_np q (un_np (semu st ! up)) st)) (semunp st) ((ws @ [q]) @ vs) None"
    proof (rule lseg_appendI)
      show "lseg (semu (set_np q (un_np (semu st ! up)) st)) (semunp st) (ws @ [q]) (un_np (semu st ! up))"
        using lseg_relink [OF pre] d by (simp add: set_np_def)
      show "lseg (semu (set_np q (un_np (semu st ! up)) st)) (un_np (semu st ! up)) vs None"
        using post d by (simp add: set_np_def lseg_frame)
    qed
    moreover have "remove1 up act = (ws @ [q]) @ vs" using act snoc by (simp add: remove1_append)
    moreover have "un_ent ((semu st)[q := (semu st ! q)\<lparr>un_np := n\<rparr>] ! i) = un_ent (semu st ! i)" for i n
      by (simp add: nth_upd)
    moreover have "q \<in> set act" using act snoc by simp
    ultimately show ?thesis unfolding un
      by (intro conjI exI [of _ "semunp st"]
          exI [of _ "(semu st)[q := (semu st ! q)\<lparr>un_np := un_np (semu st ! up)\<rparr>]"])
        (auto simp: set_np_def nth_upd)
  qed
qed

section \<open>Sorted entries\<close>

definition undo_less :: "undo \<Rightarrow> undo \<Rightarrow> bool" where
  "undo_less a b \<longleftrightarrow> undo_before (un_id b) (un_num b) a"

definition ents_ok :: "seminfo \<Rightarrow> undo list \<Rightarrow> bool" where
  "ents_ok si es \<longleftrightarrow> sorted_wrt undo_less es \<and> length es \<le> semume si \<and>
     (\<forall>e \<in> set es. - semaem si \<le> un_aoe e \<and> un_aoe e \<le> semaem si \<and> un_aoe e \<noteq> 0)"

definition is_entry :: "int \<Rightarrow> int \<Rightarrow> undo \<Rightarrow> bool" where
  "is_entry sid num e \<longleftrightarrow> un_id e = sid \<and> un_num e = num"

text \<open>The adjustment a list of entries records for a semaphore.\<close>

fun ents_adj :: "undo list \<Rightarrow> int \<Rightarrow> int \<Rightarrow> int" where
  "ents_adj [] sid num = 0"
| "ents_adj (e # es) sid num = (if is_entry sid num e then un_aoe e else ents_adj es sid num)"

lemma ents_adj_none: "\<forall>e \<in> set es. \<not> is_entry sid num e \<Longrightarrow> ents_adj es sid num = 0"
  by (induction es) auto

lemma ents_adj_append:
  "ents_adj (xs @ ys) sid num =
     (if \<exists>e \<in> set xs. is_entry sid num e then ents_adj xs sid num else ents_adj ys sid num)"
  by (induction xs) auto

lemma undo_less_trans: "undo_less a b \<Longrightarrow> undo_less b c \<Longrightarrow> undo_less a c"
  by (auto simp: undo_less_def undo_before_def)

lemma undo_total: "undo_before sid num e \<or> is_entry sid num e \<or>
    (sid < un_id e \<or> (un_id e = sid \<and> num < un_num e))"
  by (auto simp: undo_before_def is_entry_def)

lemma before_not_entry: "undo_before sid num e \<Longrightarrow> \<not> is_entry sid num e"
  by (auto simp: undo_before_def is_entry_def)

text \<open>The search of \<^verbatim>\<open>semaoe\<close> splits a sorted list at the entry or at its place.\<close>

lemma entry_split:
  assumes "sorted_wrt undo_less es"
  obtains pre suf where "es = pre @ suf"
    and "pre = takeWhile (undo_before sid num) es" and "suf = dropWhile (undo_before sid num) es"
    and "\<forall>e \<in> set pre. undo_before sid num e"
    and "\<forall>e \<in> set suf. \<not> undo_before sid num e"
    and "\<forall>e \<in> set (tl suf). \<not> is_entry sid num e"
proof -
  let ?pre = "takeWhile (undo_before sid num) es" and ?suf = "dropWhile (undo_before sid num) es"
  have "?pre @ ?suf = es" by simp
  then have sorted: "sorted_wrt undo_less (?pre @ ?suf)" using assms by (rule ssubst)
  have suf: "(\<forall>e \<in> set ?suf. \<not> undo_before sid num e) \<and> (\<forall>e \<in> set (tl ?suf). \<not> is_entry sid num e)"
  proof (cases ?suf)
    case (Cons e rest)
    have h: "\<not> undo_before sid num e" using hd_dropWhile [of "undo_before sid num" es] Cons by simp
    have "undo_less e f" if "f \<in> set rest" for f
      using sorted that by (auto simp: Cons sorted_wrt_append)
    then have "\<not> undo_before sid num f \<and> \<not> is_entry sid num f" if "f \<in> set rest" for f
      using h that unfolding undo_less_def undo_before_def is_entry_def by force
    then show ?thesis using h unfolding Cons by auto
  next
    case Nil
    show ?thesis unfolding Nil by simp
  qed
  show ?thesis
    using suf by (intro that [of ?pre ?suf]) (auto dest: set_takeWhileD)
qed

lemma ents_insert:
  assumes "sorted_wrt undo_less (pre @ suf)"
    and "\<forall>e \<in> set pre. undo_before sid num e"
    and "\<forall>e \<in> set suf. \<not> undo_before sid num e \<and> \<not> is_entry sid num e"
    and "is_entry sid num n"
  shows "sorted_wrt undo_less (pre @ n # suf)"
  using assms unfolding sorted_wrt_append
  by (auto simp: undo_less_def undo_before_def is_entry_def)

lemma ents_replace:
  assumes "sorted_wrt undo_less (pre @ e # rest)" and "un_id n = un_id e" and "un_num n = un_num e"
  shows "sorted_wrt undo_less (pre @ n # rest)"
  using assms unfolding sorted_wrt_append by (auto simp: undo_less_def undo_before_def)

section \<open>The undo invariant\<close>

definition undo_rep :: "seminfo \<Rightarrow> semstate \<Rightarrow> nat list \<Rightarrow> nat list \<Rightarrow> bool" where
  "undo_rep si st act free \<longleftrightarrow>
     chain (semu st) (semunp st) act \<and> chain (semu st) (semfup st) free \<and> distinct (act @ free) \<and>
     (\<forall>i < length (semu st). ents_ok si (un_ent (semu st ! i))) \<and>
     (\<forall>i \<in> set act. un_ent (semu st ! i) \<noteq> [] \<and> (\<exists>p. sem_undos st p = Some i)) \<and>
     (\<forall>i \<in> set free. un_ent (semu st ! i) = []) \<and>
     (\<forall>p i. sem_undos st p = Some i \<longrightarrow> i < length (semu st) \<and> i \<notin> set free \<and>
        (un_ent (semu st ! i) \<noteq> [] \<longrightarrow> i \<in> set act)) \<and>
     (\<forall>p q i. sem_undos st p = Some i \<longrightarrow> sem_undos st q = Some i \<longrightarrow> p = q)"

definition undo_wf :: "seminfo \<Rightarrow> semstate \<Rightarrow> bool" where
  "undo_wf si st \<longleftrightarrow> (\<exists>act free. undo_rep si st act free)"

text \<open>What exiting now would add to a semaphore on behalf of a process.\<close>

definition adj :: "semstate \<Rightarrow> nat \<Rightarrow> int \<Rightarrow> int \<Rightarrow> int" where
  "adj st p sid num =
     (case sem_undos st p of None \<Rightarrow> 0 | Some up \<Rightarrow> ents_adj (un_ent (semu st ! up)) sid num)"

definition same_sems :: "semstate \<Rightarrow> semstate \<Rightarrow> bool" where
  "same_sems st st' \<longleftrightarrow> sema st' = sema st \<and> semv st' = semv st \<and> semmap st' = semmap st \<and>
     sem_time st' = sem_time st \<and> sem_woken st' = sem_woken st \<and> length (semu st') = length (semu st)"

lemma same_sems_refl [simp]: "same_sems st st"
  by (simp add: same_sems_def)

lemma same_sems_trans: "same_sems a b \<Longrightarrow> same_sems b c \<Longrightarrow> same_sems a c"
  by (simp add: same_sems_def)

definition si_wf :: "seminfo \<Rightarrow> bool" where
  "si_wf si \<longleftrightarrow> 0 \<le> semaem si \<and> semaem si \<le> 32767 \<and> 0 \<le> semvmx si \<and> semvmx si \<le> 65535 \<and>
     0 < semume si \<and> 0 < semmni si \<and> semmni si \<le> 32767 \<and> 0 < semmsl si \<and> semmsl si \<le> 32767 \<and>
     0 < semmns si \<and> semmns si < 32768"

lemma rep_change:
  assumes rep: "undo_rep si st act free" and p: "sem_undos st p = Some up"
    and same: "sem_undos st' = sem_undos st" "length (semu st') = length (semu st)"
    and ent: "\<And>i. i < length (semu st) \<Longrightarrow> un_ent (semu st' ! i) = (if i = up then es else un_ent (semu st ! i))"
    and ok: "ents_ok si es"
    and ch: "chain (semu st') (semunp st') act'" "chain (semu st') (semfup st') free"
    and act': "distinct act'" "set act' = (if es = [] then set act - {up} else insert up (set act))"
  shows "undo_rep si st' act' free"
    and "adj st' q sid num = (if q = p then ents_adj es sid num else adj st q sid num)"
proof -
  have up: "up < length (semu st)" "up \<notin> set free" "un_ent (semu st ! up) \<noteq> [] \<Longrightarrow> up \<in> set act"
    using rep p unfolding undo_rep_def by blast+
  have inj: "\<And>q i. sem_undos st q = Some i \<Longrightarrow> i = up \<Longrightarrow> q = p"
    using rep p unfolding undo_rep_def by blast
  have bnd: "i < length (semu st)" if "i \<in> set act \<union> set free" for i
    using rep that lseg_bound unfolding undo_rep_def by blast
  have d: "set act \<inter> set free = {}" "distinct free" using rep unfolding undo_rep_def by simp_all
  show "undo_rep si st' act' free"
    unfolding undo_rep_def same
  proof (intro conjI)
    show "distinct (act' @ free)" using act' d up(2) by auto
    show "\<forall>i < length (semu st). ents_ok si (un_ent (semu st' ! i))"
      using rep ent ok unfolding undo_rep_def by simp
    show "\<forall>i \<in> set act'. un_ent (semu st' ! i) \<noteq> [] \<and> (\<exists>p. sem_undos st p = Some i)"
      using rep ent act'(2) p up bnd unfolding undo_rep_def by (auto split: if_splits)
    show "\<forall>i \<in> set free. un_ent (semu st' ! i) = []"
      using rep ent up(2) bnd unfolding undo_rep_def by auto
    show "\<forall>p i. sem_undos st p = Some i \<longrightarrow> i < length (semu st) \<and> i \<notin> set free \<and>
        (un_ent (semu st' ! i) \<noteq> [] \<longrightarrow> i \<in> set act')"
    proof (intro allI impI)
      fix q i
      assume "sem_undos st q = Some i"
      then have i: "i < length (semu st)" "i \<notin> set free" "un_ent (semu st ! i) \<noteq> [] \<longrightarrow> i \<in> set act"
        using rep unfolding undo_rep_def by blast+
      then show "i < length (semu st) \<and> i \<notin> set free \<and> (un_ent (semu st' ! i) \<noteq> [] \<longrightarrow> i \<in> set act')"
        using ent [OF i(1)] act'(2) by (cases "i = up") auto
    qed
    show "\<forall>p q i. sem_undos st p = Some i \<longrightarrow> sem_undos st q = Some i \<longrightarrow> p = q"
      using rep unfolding undo_rep_def by blast
  qed (use ch in simp_all)
  have "i < length (semu st)" if "sem_undos st q = Some i" for i
    using rep that unfolding undo_rep_def by blast
  then have i: "i < length (semu st) \<and> (i = up \<longrightarrow> q = p)" if "sem_undos st q = Some i" for i
    using that inj by blast
  show "adj st' q sid num = (if q = p then ents_adj es sid num else adj st q sid num)"
  proof (cases "sem_undos st q")
    case None
    then show ?thesis using p by (auto simp: adj_def same)
  next
    case (Some k)
    then show ?thesis using p i [OF Some] ent [of k] by (auto simp: adj_def same)
  qed
qed

lemma rep_owner:
  assumes "undo_rep si st act free" and "sem_undos st p = Some up"
  shows "up < length (semu st)" and "up \<notin> set free"
    and "up \<in> set act \<longleftrightarrow> un_ent (semu st ! up) \<noteq> []" and "ents_ok si (un_ent (semu st ! up))"
  using assms unfolding undo_rep_def by blast+

lemma set_ent_simps [simp]:
  "sem_undos (set_ent up es st) = sem_undos st" "semunp (set_ent up es st) = semunp st"
  "semfup (set_ent up es st) = semfup st" "length (semu (set_ent up es st)) = length (semu st)"
  "same_sems st (set_ent up es st)"
  by (simp_all add: set_ent_def same_sems_def)

lemma set_np_simps [simp]:
  "sem_undos (set_np up q st) = sem_undos st" "semunp (set_np up q st) = semunp st"
  "semfup (set_np up q st) = semfup st" "length (semu (set_np up q st)) = length (semu st)"
  "same_sems st (set_np up q st)"
  by (simp_all add: set_np_def same_sems_def)

lemma set_ent_nth:
  "i < length (semu st) \<Longrightarrow> un_ent (semu (set_ent up es st) ! i) = (if i = up then es else un_ent (semu st ! i))"
  "un_np (semu (set_ent up es st) ! i) = un_np (semu st ! i)"
  by (simp_all add: set_ent_def nth_upd)

lemma set_np_nth:
  "un_ent (semu (set_np up q st) ! i) = un_ent (semu st ! i)"
  "i \<noteq> up \<Longrightarrow> un_np (semu (set_np up q st) ! i) = un_np (semu st ! i)"
  "up < length (semu st) \<Longrightarrow> un_np (semu (set_np up q st) ! up) = q"
  by (simp_all add: set_np_def nth_upd)

lemma chain_set_ent [simp]: "lseg (semu (set_ent up es st)) p is q = lseg (semu st) p is q"
  by (rule lseg_cong) (simp_all add: set_ent_nth)

lemma chain_set_np: "up \<notin> set is \<Longrightarrow> lseg (semu (set_np up r st)) p is q = lseg (semu st) p is q"
  by (rule lseg_cong) (simp, metis set_np_nth(2))

section \<open>Recording an adjustment\<close>

lemma entry_adj:
  assumes "\<forall>e \<in> set pre. undo_before sid num e" and "is_entry sid num e"
  shows "ents_adj (pre @ e # rest) s n =
    (if s = sid \<and> n = num then un_aoe e else ents_adj (pre @ rest) s n)"
  using assms by (auto simp: ents_adj_append is_entry_def undo_before_def)

lemma no_entry_adj:
  assumes "\<forall>e \<in> set pre. undo_before sid num e" and "\<forall>e \<in> set rest. \<not> is_entry sid num e"
  shows "ents_adj (pre @ rest) sid num = 0"
  using assms by (intro ents_adj_none) (auto dest: before_not_entry)

lemma semaoe_struct_spec:
  assumes rep: "undo_rep si st act free" and s: "semaoe_struct u st = Some (up, st')"
  shows "(\<exists>free'. undo_rep si st' act free') \<and> sem_undos st' (p_index u) = Some up \<and> same_sems st st' \<and>
    (\<forall>q s n. adj st' q s n = adj st q s n)"
proof (cases "sem_undos st (p_index u)")
  case (Some up')
  then show ?thesis using s rep by (auto simp: semaoe_struct_def)
next
  case None
  then have fup: "semfup st = Some up"
    and st': "st' = (set_np up None (st\<lparr>semfup := un_np (semu st ! up)\<rparr>))
                           \<lparr>sem_undos := (sem_undos st)(p_index u := Some up)\<rparr>"
    using s by (auto simp: semaoe_struct_def split: option.splits)
  obtain free' where free: "free = up # free'" using rep fup by (cases free) (auto simp: undo_rep_def)
  have up: "up < length (semu st)" "up \<notin> set act" "up \<notin> set free'" "un_ent (semu st ! up) = []"
    "lseg (semu st) (un_np (semu st ! up)) free' None"
    using rep unfolding undo_rep_def free by auto
  have unowned: "sem_undos st q \<noteq> Some up" for q
    using rep unfolding undo_rep_def free by auto
  have semu': "semu st' = (semu st)[up := (semu st ! up)\<lparr>un_np := None\<rparr>]" by (simp add: st' set_np_def)
  have ent: "un_ent (semu st' ! i) = un_ent (semu st ! i)" for i by (simp add: semu' nth_upd)
  have f': "semunp st' = semunp st" "semfup st' = un_np (semu st ! up)"
    "sem_undos st' = (sem_undos st)(p_index u := Some up)" "length (semu st') = length (semu st)"
    by (simp_all add: st')
  have "undo_rep si st' act free'"
    unfolding undo_rep_def f' ent
  proof (intro conjI)
    show "lseg (semu st') (semunp st) act None"
      using rep up(2) by (simp add: undo_rep_def semu' lseg_frame)
    show "lseg (semu st') (un_np (semu st ! up)) free' None"
      using up(3,5) by (simp add: semu' lseg_frame)
    show "\<forall>i \<in> set act. un_ent (semu st ! i) \<noteq> [] \<and> (\<exists>p. ((sem_undos st)(p_index u := Some up)) p = Some i)"
      using rep None unfolding undo_rep_def by (metis fun_upd_other option.distinct(1))
    show "\<forall>p i. ((sem_undos st)(p_index u := Some up)) p = Some i \<longrightarrow> i < length (semu st) \<and> i \<notin> set free' \<and>
        (un_ent (semu st ! i) \<noteq> [] \<longrightarrow> i \<in> set act)"
    proof (intro allI impI)
      fix q i
      assume "((sem_undos st)(p_index u := Some up)) q = Some i"
      then have "i = up \<or> sem_undos st q = Some i" by (auto split: if_splits)
      then show "i < length (semu st) \<and> i \<notin> set free' \<and> (un_ent (semu st ! i) \<noteq> [] \<longrightarrow> i \<in> set act)"
        using rep up unfolding undo_rep_def free by auto
    qed
    show "\<forall>p q i. ((sem_undos st)(p_index u := Some up)) p = Some i \<longrightarrow>
        ((sem_undos st)(p_index u := Some up)) q = Some i \<longrightarrow> p = q"
      using rep unowned unfolding undo_rep_def by auto
  qed (use rep free in \<open>auto simp: undo_rep_def\<close>)
  moreover have "adj st' q s n = adj st q s n" for q s n
    using None by (auto simp: adj_def f' ent up(4) split: option.split)
  moreover have "same_sems st st'" by (simp add: st' same_sems_def set_np_def)
  ultimately show ?thesis using f' by auto
qed

lemma unlink_empty:
  assumes rep: "undo_rep si st act free" and p: "sem_undos st p = Some up"
    and ne: "un_ent (semu st ! up) \<noteq> []" and ok: "ents_ok si []"
  defines "st' \<equiv> set_np up None (unlink_undo up (set_ent up [] st))"
  shows "undo_rep si st' (remove1 up act) free \<and> same_sems st st' \<and> sem_undos st' = sem_undos st \<and>
    adj st' q s n = (if q = p then 0 else adj st q s n)"
proof -
  have up: "up < length (semu st)" "up \<notin> set free" "up \<in> set act" using rep_owner [OF rep p] ne by auto
  let ?s1 = "set_ent up [] st"
  have ch1: "chain (semu ?s1) (semunp ?s1) act" "distinct act" "chain (semu st) (semfup st) free"
    "set act \<inter> set free = {}"
    using rep by (auto simp: undo_rep_def)
  obtain np ys where s2: "unlink_undo up ?s1 = ?s1\<lparr>semunp := np, semu := ys\<rparr>"
    and ys: "length ys = length (semu st)" "\<And>i. un_ent (ys ! i) = un_ent (semu ?s1 ! i)"
      "\<And>i. i \<notin> set act \<Longrightarrow> ys ! i = semu ?s1 ! i"
    and ch2: "chain ys np (remove1 up act)"
    using unlink_undo_chain [OF ch1(1,2) up(3)] by auto
  have st': "st' = set_np up None (?s1\<lparr>semunp := np, semu := ys\<rparr>)" by (simp add: st'_def s2)
  have f: "sem_undos st' = sem_undos st" "length (semu st') = length (semu st)" "semunp st' = np"
    "semfup st' = semfup st"
    by (simp_all add: st' set_ent_def ys(1))
  have ent: "un_ent (semu st' ! i) = (if i = up then [] else un_ent (semu st ! i))"
    if "i < length (semu st)" for i
    using that by (simp add: st' set_np_nth ys(2) set_ent_nth)
  have c1: "chain (semu st') (semunp st') (remove1 up act)"
    unfolding st' using ch2 ch1(2) by (subst chain_set_np) (simp_all add: set_remove1_eq)
  have c2: "chain (semu st') (semfup st') free"
  proof -
    have "un_np (ys ! i) = un_np (semu st ! i)" if "i \<in> set free" for i
    proof -
      have "i \<notin> set act" using that ch1(4) by blast
      then show ?thesis using ys(3) set_ent_nth(2) by metis
    qed
    then have "lseg ys (semfup st) free None = lseg (semu st) (semfup st) free None"
      by (intro lseg_cong) (simp_all add: ys(1))
    then show ?thesis
      unfolding st' using up(2) ch1(3) by (subst chain_set_np) (simp_all add: set_ent_def)
  qed
  note ch = rep_change [OF rep p f(1,2) ent ok c1 c2]
  have "same_sems st st'" by (simp add: st' same_sems_def set_np_def set_ent_def ys(1))
  then show ?thesis using ch ch1(2) f by (simp add: set_remove1_eq)
qed

lemma ents_ok_bound:
  assumes "ents_ok si es" and "0 \<le> semaem si"
  shows "- semaem si \<le> ents_adj es sid num \<and> ents_adj es sid num \<le> semaem si"
proof -
  have "ents_adj es sid num = 0 \<or> (\<exists>e \<in> set es. ents_adj es sid num = un_aoe e)"
    by (induction es) auto
  then show ?thesis using assms by (auto simp: ents_ok_def)
qed

lemma ents_adj_nonzero:
  assumes "ents_ok si es"
  shows "ents_adj es sid num \<noteq> 0 \<longleftrightarrow> (\<exists>e \<in> set es. is_entry sid num e)"
proof -
  have "\<forall>e \<in> set es. un_aoe e \<noteq> 0" using assms by (simp add: ents_ok_def)
  then show ?thesis by (induction es) auto
qed

lemma ents_adj_entry:
  "sorted_wrt undo_less es \<Longrightarrow> e \<in> set es \<Longrightarrow> ents_adj es (un_id e) (un_num e) = un_aoe e"
proof (induction es)
  case (Cons f es)
  show ?case
  proof (cases "e = f")
    case False
    then have "e \<in> set es" "undo_less f e" using Cons.prems by auto
    then have "\<not> is_entry (un_id e) (un_num e) f"
      by (auto simp: is_entry_def undo_less_def undo_before_def)
    then show ?thesis using Cons \<open>e \<in> set es\<close> by simp
  qed (simp add: is_entry_def)
qed simp

text \<open>The number of entries is the number of semaphores with an adjustment.\<close>

lemma ents_count:
  assumes "ents_ok si es"
  shows "length es = card {(s, n). ents_adj es s n \<noteq> 0}"
proof -
  let ?k = "\<lambda>e. (un_id e, un_num e)"
  have irr: "?k a \<noteq> ?k b" if "undo_less a b" for a b
    using that by (auto simp: undo_less_def undo_before_def)
  have "sorted_wrt undo_less es" using assms by (simp add: ents_ok_def)
  then have "distinct (map ?k es)"
  proof (induction es)
    case (Cons a es)
    then show ?case using irr by (force simp: image_iff)
  qed simp
  moreover have "{(s, n). ents_adj es s n \<noteq> 0} = set (map ?k es)"
    using ents_adj_nonzero [OF assms] by (auto simp: is_entry_def)
  ultimately show ?thesis by (metis distinct_card length_map)
qed

definition proc_entries :: "semstate \<Rightarrow> nat \<Rightarrow> nat" where
  "proc_entries st p = card {(s, n). adj st p s n \<noteq> 0}"

lemma semaoe_entry_spec:
  assumes si: "si_wf si" and rep: "undo_rep si st act free" and p: "sem_undos st (p_index u) = Some up"
    and val: "val \<noteq> 0" "- semaem si \<le> val" "val \<le> semaem si"
    and r: "semaoe_entry si val sid num up u st = (err, u', st')"
  defines "a \<equiv> adj st (p_index u) sid num"
  shows "(\<exists>act'. undo_rep si st' act' free) \<and> same_sems st st' \<and> sem_undos st' = sem_undos st \<and>
    (err \<longleftrightarrow> (if a \<noteq> 0 then a - val > semaem si \<or> a - val < - semaem si
              else proc_entries st (p_index u) \<ge> semume si)) \<and>
    (if err then st' = st \<and> (u' = set_error ERANGE u \<or> u' = set_error EINVAL u)
     else u' = u \<and> (\<forall>q s n. adj st' q s n =
       (if q = p_index u \<and> s = sid \<and> n = num then a - val else adj st q s n)))"
proof -
  define es where "es = un_ent (semu st ! up)"
  have up: "up < length (semu st)" "up \<notin> set free" "up \<in> set act \<longleftrightarrow> es \<noteq> []" and ok: "ents_ok si es"
    using rep_owner [OF rep p] by (simp_all add: es_def)
  have adj_p: "adj st (p_index u) s n = ents_adj es s n" for s n by (simp add: adj_def p es_def)
  have cnt: "proc_entries st (p_index u) = length es" using ents_count [OF ok] by (simp add: proc_entries_def adj_p)
  have sorted: "sorted_wrt undo_less es" using ok by (simp add: ents_ok_def)
  obtain pre suf where es: "es = pre @ suf"
    and pre: "pre = takeWhile (undo_before sid num) es" and suf: "suf = dropWhile (undo_before sid num) es"
    and before: "\<forall>e \<in> set pre. undo_before sid num e"
    and after: "\<forall>e \<in> set suf. \<not> undo_before sid num e" "\<forall>e \<in> set (tl suf). \<not> is_entry sid num e"
    using entry_split [OF sorted] by metis
  have aem: "0 \<le> semaem si" "semaem si \<le> 32767" using si by (simp_all add: si_wf_def)
  have rep_st: "chain (semu st) (semunp st) act" "chain (semu st) (semfup st) free" "distinct act"
    using rep by (simp_all add: undo_rep_def)
  have adj_q: "adj st q s n = (if q = p_index u then ents_adj es s n else adj st q s n)" for q s n
    by (simp add: adj_p)
  have change: ?thesis
    if "undo_rep si st' act' free" "same_sems st st'" "sem_undos st' = sem_undos st"
      "\<And>q s n. adj st' q s n = (if q = p_index u then ents_adj es' s n else adj st q s n)"
      "\<And>s n. ents_adj es' s n = (if s = sid \<and> n = num then a - val else ents_adj es s n)"
      "\<not> err" "u' = u"
      "if a \<noteq> 0 then - semaem si \<le> a - val \<and> a - val \<le> semaem si else length es < semume si"
    for act' es'
    using that adj_p cnt by (auto split: if_splits)
  show ?thesis
  proof (cases "\<exists>e rest. suf = e # rest \<and> is_entry sid num e")
    case True
    then obtain e rest where e: "suf = e # rest" "is_entry sid num e" by blast
    have a: "a = un_aoe e" using entry_adj [OF before e(2)] by (simp add: a_def adj_p es e(1))
    have a0: "a \<noteq> 0" using ok by (simp add: a es e(1) ents_ok_def)
    have ent0: "ents_adj (pre @ rest) sid num = 0" using no_entry_adj [OF before] after(2) e(1) by simp
    have es_ad: "ents_adj es s n = (if s = sid \<and> n = num then a else ents_adj (pre @ rest) s n)" for s n
      using entry_adj [OF before e(2)] by (simp add: es e(1) a)
    show ?thesis
    proof (cases "un_aoe e - val > semaem si \<or> un_aoe e - val < - semaem si")
      case True
      then have "err" "u' = set_error ERANGE u" "st' = st"
        using r e by (auto simp: semaoe_entry_def Let_def es_def [symmetric] pre [symmetric] suf [symmetric] is_entry_def)
      then show ?thesis using True rep a0 a by auto
    next
      case inr: False
      then have s16: "to_s16 (un_aoe e - val) = un_aoe e - val" using aem by (simp add: to_s16_id)
      show ?thesis
      proof (cases "un_aoe e = val")
        case True
        show ?thesis
        proof (cases "pre @ rest = []")
          case nil: True
          then have st': "st' = set_np up None (unlink_undo up (set_ent up [] st))" "\<not> err" "u' = u"
            using r e inr s16 True
            by (auto simp: semaoe_entry_def Let_def es_def [symmetric] pre [symmetric] suf [symmetric] is_entry_def)
          have ne: "un_ent (semu st ! up) \<noteq> []" using es e(1) by (simp add: es_def [symmetric])
          have "ents_ok si []" by (simp add: ents_ok_def)
          note un = unlink_empty [OF rep p ne this, folded st'(1)]
          show ?thesis
            by (rule change [where es' = "[]"]) (use un st' es_ad nil True a a0 inr in \<open>auto\<close>)
        next
          case ne: False
          then have st': "st' = set_ent up (pre @ rest) st" "\<not> err" "u' = u"
            using r e inr s16 True
            by (auto simp: semaoe_entry_def Let_def es_def [symmetric] pre [symmetric] suf [symmetric] is_entry_def)
          have ok': "ents_ok si (pre @ rest)"
            using ok by (auto simp: ents_ok_def es e(1) sorted_wrt_append)
          have ins: "distinct act" "set act = (if pre @ rest = [] then set act - {up} else insert up (set act))"
            using ne up(3) rep_st(3) es e(1) by auto
          note ch = rep_change [OF rep p, of "set_ent up (pre @ rest) st" "pre @ rest" act, OF _ _ set_ent_nth(1) ok' _ _ ins]
          show ?thesis
            by (rule change [where es' = "pre @ rest" and act' = act])
              (use ch st' rep_st es_ad True a a0 inr ent0 in \<open>auto\<close>)
        qed
      next
        case nv: False
        let ?e = "e\<lparr>un_aoe := un_aoe e - val\<rparr>"
        have st': "st' = set_ent up (pre @ ?e # rest) st" "\<not> err" "u' = u"
          using r e inr s16 nv
          by (auto simp: semaoe_entry_def Let_def es_def [symmetric] pre [symmetric] suf [symmetric] is_entry_def)
        have "sorted_wrt undo_less (pre @ e # rest)" using sorted by (simp add: es e(1))
        then have "sorted_wrt undo_less (pre @ ?e # rest)" by (rule ents_replace) simp_all
        then have ok': "ents_ok si (pre @ ?e # rest)"
          using ok inr nv by (auto simp: ents_ok_def es e(1))
        have ins: "distinct act" "set act = (if pre @ ?e # rest = [] then set act - {up} else insert up (set act))"
          using up(3) rep_st(3) es e(1) by auto
        note ch = rep_change [OF rep p, of "set_ent up (pre @ ?e # rest) st" "pre @ ?e # rest" act, OF _ _ set_ent_nth(1) ok' _ _ ins]
        have "is_entry sid num ?e" using e(2) by (simp add: is_entry_def)
        note ea = entry_adj [OF before this]
        show ?thesis
          by (rule change [where es' = "pre @ ?e # rest" and act' = act])
            (use ch st' rep_st es_ad ea a a0 inr in \<open>auto\<close>)
      qed
    qed
  next
    case False
    have none: "\<forall>e \<in> set suf. \<not> is_entry sid num e"
      using False after(2) by (cases suf) auto
    have a0: "a = 0" using no_entry_adj [OF before none] by (simp add: a_def adj_p es)
    note red = semaoe_entry_def Let_def es_def [symmetric] pre [symmetric] suf [symmetric]
    show ?thesis
    proof (cases "length es \<ge> semume si")
      case True
      then have "err" "u' = set_error EINVAL u" "st' = st"
        using r False by (auto simp: red is_entry_def split: list.splits)
      then show ?thesis using True rep a0 cnt by auto
    next
      case room: False
      let ?n = "\<lparr>un_aoe = - val, un_num = num, un_id = sid\<rparr>"
      let ?es = "pre @ ?n # suf"
      have s16: "to_s16 (- val) = - val" using val aem by (simp add: to_s16_id)
      have n: "is_entry sid num ?n" by (simp add: is_entry_def)
      have "sorted_wrt undo_less ?es"
        using sorted before after(1) none n by (intro ents_insert) (simp_all add: es)
      then have ok': "ents_ok si ?es"
        using ok room val by (auto simp: ents_ok_def es)
      have ead: "ents_adj ?es s n = (if s = sid \<and> n = num then a - val else ents_adj es s n)" for s n
        using entry_adj [OF before n] by (simp add: a0 es)
      define st1 where "st1 = (if es = [] then (set_np up (semunp st) st)\<lparr>semunp := Some up\<rparr> else st)"
      define act' where "act' = (if es = [] then up # act else act)"
      have st': "st' = set_ent up ?es st1" "\<not> err" "u' = u"
      proof -
        have "st' = set_ent up ?es st1 \<and> \<not> err \<and> u' = u"
        proof (cases suf)
          case Nil
          then show ?thesis using r room s16 by (simp add: red st1_def not_le)
        next
          case (Cons e rest)
          then have "es \<noteq> []" "\<not> (un_id e = sid \<and> un_num e = num)"
            using es none by (auto simp: is_entry_def)
          then show ?thesis using r room s16 Cons by (auto simp: red st1_def not_le)
        qed
        then show "st' = set_ent up ?es st1" "\<not> err" "u' = u" by auto
      qed
      have f: "sem_undos st1 = sem_undos st" "length (semu st1) = length (semu st)"
        "semfup st1 = semfup st" "same_sems st st1" "\<And>i. un_ent (semu st1 ! i) = un_ent (semu st ! i)"
        by (simp_all add: st1_def set_np_nth) (simp add: same_sems_def set_np_def)
      have c1: "chain (semu st1) (semunp st1) act'"
        using rep_st(1) up(1,3) by (auto simp: st1_def act'_def chain_set_np set_np_nth)
      have c2: "chain (semu st1) (semfup st1) free"
        using rep_st(2) up(2) by (auto simp: st1_def chain_set_np)
      have ins: "distinct act'" "set act' = (if ?es = [] then set act - {up} else insert up (set act))"
        using up(3) rep_st(3) by (auto simp: act'_def)
      have ent: "un_ent (semu (set_ent up ?es st1) ! i) = (if i = up then ?es else un_ent (semu st ! i))"
        if "i < length (semu st)" for i
        using that f(2,5) by (simp add: set_ent_nth)
      note ch = rep_change [OF rep p, of "set_ent up ?es st1" "?es" act', OF _ _ ent ok' _ _ ins]
      have ss: "same_sems st (set_ent up ?es st1)" using f(4) same_sems_trans set_ent_simps(5) by blast
      show ?thesis
        by (rule change [where es' = "?es" and act' = act'])
          (use ch st' f c1 c2 ead a0 room ss in \<open>auto\<close>)
    qed
  qed
qed

text \<open>
  \<open>semaoe\<close> as seen through \<open>adj\<close>: it subtracts \<open>val\<close> from the caller's adjustment of
  the semaphore, or fails and changes no adjustment.
\<close>

definition aoe_fails :: "seminfo \<Rightarrow> int \<Rightarrow> int \<Rightarrow> int \<Rightarrow> nat \<Rightarrow> semstate \<Rightarrow> bool" where
  "aoe_fails si val sid num p st \<longleftrightarrow> val \<noteq> 0 \<and>
     (val > semaem si \<or> val < - semaem si \<or>
      (sem_undos st p = None \<and> semfup st = None) \<or>
      (if adj st p sid num \<noteq> 0
       then adj st p sid num - val > semaem si \<or> adj st p sid num - val < - semaem si
       else proc_entries st p \<ge> semume si))"

lemma semaoe_spec:
  assumes si: "si_wf si" and wf: "undo_wf si st" and r: "semaoe si val sid num u st = (err, u', st')"
  shows "undo_wf si st' \<and> same_sems st st' \<and> (err \<longleftrightarrow> aoe_fails si val sid num (p_index u) st) \<and>
    (\<forall>q. sem_undos st q \<noteq> None \<longrightarrow> sem_undos st' q = sem_undos st q) \<and>
    (if err then (\<exists>e \<in> {ERANGE, EINVAL, ENOSPC}. u' = set_error e u) \<and>
        (\<forall>q s n. adj st' q s n = adj st q s n)
     else u' = u \<and> (val \<noteq> 0 \<longrightarrow> sem_undos st' (p_index u) \<noteq> None) \<and>
       (\<forall>q s n. adj st' q s n =
          (if q = p_index u \<and> s = sid \<and> n = num then adj st q s n - val else adj st q s n)))"
proof -
  obtain act free where rep: "undo_rep si st act free" using wf by (auto simp: undo_wf_def)
  show ?thesis
  proof (cases "val = 0 \<or> val > semaem si \<or> val < - semaem si")
    case True
    then show ?thesis using r wf by (auto simp: semaoe_def aoe_fails_def split: if_splits)
  next
    case False
    then have val: "val \<noteq> 0" "- semaem si \<le> val" "val \<le> semaem si" by auto
    show ?thesis
    proof (cases "semaoe_struct u st")
      case None
      then have "sem_undos st (p_index u) = None" "semfup st = None"
        by (auto simp: semaoe_struct_def split: option.splits)
      moreover have "err" "u' = set_error ENOSPC u" "st' = st"
        using r None False by (auto simp: semaoe_def)
      ultimately show ?thesis using wf val by (auto simp: aoe_fails_def)
    next
      case (Some p)
      then obtain up st1 where s1: "semaoe_struct u st = Some (up, st1)" by (cases p) auto
      then have av: "\<not> (sem_undos st (p_index u) = None \<and> semfup st = None)"
        by (auto simp: semaoe_struct_def split: option.splits)
      obtain free' where rep1: "undo_rep si st1 act free'" and p1: "sem_undos st1 (p_index u) = Some up"
        and ss: "same_sems st st1" and ad: "\<And>q s n. adj st1 q s n = adj st q s n"
        using semaoe_struct_spec [OF rep s1] by auto
      have keep: "sem_undos st1 q = sem_undos st q" if "sem_undos st q \<noteq> None" for q
        using s1 that by (auto simp: semaoe_struct_def split: option.splits)
      have r1: "semaoe_entry si val sid num up u st1 = (err, u', st')"
        using r False s1 by (simp add: semaoe_def)
      have pe: "proc_entries st1 (p_index u) = proc_entries st (p_index u)"
        by (simp add: proc_entries_def ad)
      note sp = semaoe_entry_spec [OF si rep1 p1 val r1, unfolded ad pe]
      have "undo_wf si st'" using sp by (auto simp: undo_wf_def)
      moreover have "same_sems st st'" using sp ss same_sems_trans by blast
      moreover have "err \<longleftrightarrow> aoe_fails si val sid num (p_index u) st"
      proof -
        have "\<not> val > semaem si" "\<not> val < - semaem si" using val by auto
        then have "aoe_fails si val sid num (p_index u) st \<longleftrightarrow>
            (if adj st (p_index u) sid num \<noteq> 0
             then adj st (p_index u) sid num - val > semaem si \<or> adj st (p_index u) sid num - val < - semaem si
             else proc_entries st (p_index u) \<ge> semume si)"
          unfolding aoe_fails_def using val(1) av by blast
        then show ?thesis using sp by simp
      qed
      ultimately show ?thesis using sp keep p1 ad by (auto split: if_splits)
    qed
  qed
qed

lemma adj_bound:
  assumes "si_wf si" and "undo_wf si st"
  shows "- semaem si \<le> adj st p sid num \<and> adj st p sid num \<le> semaem si"
proof (cases "sem_undos st p")
  case None
  then show ?thesis using assms(1) by (simp add: adj_def si_wf_def)
next
  case (Some up)
  obtain act free where rep: "undo_rep si st act free" using assms(2) by (auto simp: undo_wf_def)
  show ?thesis using ents_ok_bound [OF rep_owner(4) [OF rep Some]] Some assms(1)
    by (simp add: adj_def si_wf_def)
qed

lemma proc_entries_bound:
  assumes "undo_wf si st"
  shows "proc_entries st p \<le> semume si" and "finite {(s, n). adj st p s n \<noteq> 0}"
proof -
  obtain act free where rep: "undo_rep si st act free" using assms by (auto simp: undo_wf_def)
  have "proc_entries st p \<le> semume si \<and> finite {(s, n). adj st p s n \<noteq> 0}"
  proof (cases "sem_undos st p")
    case None
    then show ?thesis by (simp add: proc_entries_def adj_def)
  next
    case (Some up)
    note ok = rep_owner(4) [OF rep Some]
    have "{(s, n). adj st p s n \<noteq> 0} \<subseteq> (\<lambda>e. (un_id e, un_num e)) ` set (un_ent (semu st ! up))"
      using ents_adj_nonzero [OF ok] Some by (auto simp: adj_def is_entry_def)
    then have "finite {(s, n). adj st p s n \<noteq> 0}" by (rule finite_subset) simp
    then show ?thesis
      using ents_count [OF ok] ok Some by (simp add: proc_entries_def adj_def ents_ok_def)
  qed
  then show "proc_entries st p \<le> semume si" "finite {(s, n). adj st p s n \<noteq> 0}" by auto
qed

text \<open>An adjustment can always be taken back, which is what \<^verbatim>\<open>semundo\<close> relies on.\<close>

lemma semaoe_undoes:
  assumes si: "si_wf si" and wf0: "undo_wf si st0" and wf: "undo_wf si st"
    and own: "sem_undos st (p_index u) \<noteq> None"
    and val: "- semaem si \<le> val" "val \<le> semaem si"
    and ad: "\<And>q s n. adj st q s n =
      (if q = p_index u \<and> s = sid \<and> n = num then adj st0 q s n - val else adj st0 q s n)"
  shows "\<exists>st'. semaoe si (- val) sid num u st = (False, u, st') \<and> undo_wf si st' \<and> same_sems st st' \<and>
    (\<forall>q. sem_undos st q \<noteq> None \<longrightarrow> sem_undos st' q = sem_undos st q) \<and>
    (\<forall>q s n. adj st' q s n = adj st0 q s n)"
proof -
  obtain err u' st' where r: "semaoe si (- val) sid num u st = (err, u', st')"
    by (cases "semaoe si (- val) sid num u st") auto
  note sp = semaoe_spec [OF si wf r]
  let ?p = "p_index u" and ?k = "(sid, num)"
  have "\<not> aoe_fails si (- val) sid num ?p st"
  proof (cases "val = 0")
    case False
    have b: "- semaem si \<le> adj st0 ?p sid num" "adj st0 ?p sid num \<le> semaem si"
      using adj_bound [OF si wf0] by auto
    have "proc_entries st ?p < semume si" if z: "adj st ?p sid num = 0"
    proof -
      have nz: "adj st0 ?p sid num \<noteq> 0" using z ad [of ?p sid num] False by simp
      have "{(s, n). adj st ?p s n \<noteq> 0} = {(s, n). adj st0 ?p s n \<noteq> 0} - {?k}"
        using z ad [of ?p] by auto
      then have "proc_entries st ?p < proc_entries st0 ?p"
        unfolding proc_entries_def using nz proc_entries_bound(2) [OF wf0]
        by (simp only:) (rule card_Diff1_less, auto)
      then show ?thesis using proc_entries_bound(1) [OF wf0, of ?p] by simp
    qed
    then show ?thesis using b val own ad [of ?p sid num] by (auto simp: aoe_fails_def)
  qed (simp add: aoe_fails_def)
  then have "\<not> err" "u' = u" using sp by auto
  moreover have "\<forall>q s n. adj st' q s n = adj st0 q s n" using sp ad \<open>\<not> err\<close> by simp
  ultimately show ?thesis using sp r by (intro exI [of _ st']) auto
qed

section \<open>Removing the adjustments of a range of semaphores\<close>

definition in_range :: "int \<Rightarrow> int \<Rightarrow> int \<Rightarrow> undo \<Rightarrow> bool" where
  "in_range sid low high e \<longleftrightarrow> un_id e = sid \<and> low \<le> un_num e \<and> un_num e \<le> high"

lemma unrm_filter:
  "sorted_wrt undo_less es \<Longrightarrow>
   unrm_entries sid low high es = filter (\<lambda>e. \<not> in_range sid low high e) es"
proof (induction es)
  case (Cons e es)
  have later: "undo_less e f" if "f \<in> set es" for f using Cons.prems that by simp
  have stop: "filter (\<lambda>f. \<not> in_range sid low high f) es = es"
    if "sid < un_id e \<or> (un_id e = sid \<and> high < un_num e)"
  proof -
    have "\<not> in_range sid low high f" if "f \<in> set es" for f
      using later [OF that] \<open>sid < un_id e \<or> _\<close> by (auto simp: undo_less_def undo_before_def in_range_def)
    then show ?thesis by (simp add: filter_id_conv)
  qed
  show ?case
    using Cons stop by (auto simp: in_range_def)
qed simp

lemma unrm_adj:
  assumes "ents_ok si es"
  shows "ents_ok si (unrm_entries sid low high es)"
    and "ents_adj (unrm_entries sid low high es) s n =
      (if s = sid \<and> low \<le> n \<and> n \<le> high then 0 else ents_adj es s n)"
proof -
  have sorted: "sorted_wrt undo_less es" using assms by (simp add: ents_ok_def)
  note f = unrm_filter [OF sorted]
  show "ents_ok si (unrm_entries sid low high es)"
    using assms unfolding f ents_ok_def
    by (auto simp: sorted_wrt_filter intro: le_trans [OF length_filter_le])
  show "ents_adj (unrm_entries sid low high es) s n =
      (if s = sid \<and> low \<le> n \<and> n \<le> high then 0 else ents_adj es s n)"
    unfolding f by (induction es) (auto simp: in_range_def is_entry_def)
qed

lemma semunrm_walk_spec:
  assumes "lseg (semu st) (semunp st) (kept @ rest) None" and "distinct (kept @ rest)"
    and "lseg (semu st) p rest None" and "pp = (if kept = [] then None else Some (last kept))"
    and "length rest \<le> n"
  shows "\<exists>ys np. semunrm_walk n sid low high pp p st = st\<lparr>semu := ys, semunp := np\<rparr> \<and>
    length ys = length (semu st) \<and> lseg ys np (kept @ filter (\<lambda>i. unrm_entries sid low high (un_ent (semu st ! i)) \<noteq> []) rest) None \<and>
    (\<forall>i < length (semu st). un_ent (ys ! i) =
       (if i \<in> set rest then unrm_entries sid low high (un_ent (semu st ! i)) else un_ent (semu st ! i))) \<and>
    (\<forall>i. i \<notin> set (kept @ rest) \<longrightarrow> ys ! i = semu st ! i)"
  using assms
proof (induction rest arbitrary: st kept p pp n)
  case Nil
  then have "semunrm_walk n sid low high pp p st = st" by (cases n) auto
  then show ?case using Nil.prems by (intro exI [of _ "semu st"] exI [of _ "semunp st"]) simp
next
  case (Cons i rest)
  obtain m where n: "n = Suc m" using Cons.prems(5) by (cases n) auto
  have p: "p = Some i" "i < length (semu st)" and rest: "lseg (semu st) (un_np (semu st ! i)) rest None"
    using Cons.prems(3) by auto
  define es where "es = unrm_entries sid low high (un_ent (semu st ! i))"
  define st1 where "st1 = set_ent i es st"
  have next1: "un_np (semu st1 ! i) = un_np (semu st ! i)" by (simp add: st1_def set_ent_nth)
  have ent1: "un_ent (semu st1 ! i) = es" using p(2) by (simp add: st1_def set_ent_nth)
  have other1: "semu st1 ! j = semu st ! j" if "j \<noteq> i" for j using that by (simp add: st1_def set_ent_def nth_upd)
  have f1: "length (semu st1) = length (semu st)" "semunp st1 = semunp st" by (simp_all add: st1_def)
  have seg1: "lseg (semu st1) (semunp st) (kept @ i # rest) None" "lseg (semu st1) (un_np (semu st ! i)) rest None"
    using Cons.prems(1) rest by (simp_all add: st1_def)
  note step = n p(1) es_def [symmetric] st1_def [symmetric]
  show ?case
  proof (cases "es = []")
    case False
    have w: "semunrm_walk n sid low high pp p st = semunrm_walk m sid low high (Some i) (un_np (semu st ! i)) st1"
      using False ent1 next1 by (simp add: step Let_def)
    obtain ys np where ih: "semunrm_walk m sid low high (Some i) (un_np (semu st ! i)) st1 = st1\<lparr>semu := ys, semunp := np\<rparr>"
      "length ys = length (semu st1)"
      "lseg ys np ((kept @ [i]) @ filter (\<lambda>i. unrm_entries sid low high (un_ent (semu st1 ! i)) \<noteq> []) rest) None"
      "\<forall>j < length (semu st1). un_ent (ys ! j) =
         (if j \<in> set rest then unrm_entries sid low high (un_ent (semu st1 ! j)) else un_ent (semu st1 ! j))"
      "\<forall>j. j \<notin> set ((kept @ [i]) @ rest) \<longrightarrow> ys ! j = semu st1 ! j"
      using Cons.IH [of st1 "kept @ [i]" "un_np (semu st ! i)" "Some i" m] Cons.prems seg1 n f1 by auto
    have fl: "filter (\<lambda>i. unrm_entries sid low high (un_ent (semu st1 ! i)) \<noteq> []) rest = filter
        (\<lambda>i. unrm_entries sid low high (un_ent (semu st ! i)) \<noteq> []) rest"
    proof (rule filter_cong [OF refl])
      fix j assume "j \<in> set rest"
      then have "j \<noteq> i" using Cons.prems(2) by auto
      then show "(unrm_entries sid low high (un_ent (semu st1 ! j)) \<noteq> []) =
          (unrm_entries sid low high (un_ent (semu st ! j)) \<noteq> [])" using other1 by simp
    qed
    show ?thesis
    proof (intro exI conjI)
      show "semunrm_walk n sid low high pp p st = st\<lparr>semu := ys, semunp := np\<rparr>"
        using w ih(1) by (simp add: st1_def set_ent_def)
      show "lseg ys np (kept @ filter (\<lambda>i. unrm_entries sid low high (un_ent (semu st ! i)) \<noteq> []) (i # rest)) None"
        using ih(3) fl False by (simp add: es_def)
      show "\<forall>j < length (semu st). un_ent (ys ! j) = (if j \<in> set (i # rest)
          then unrm_entries sid low high (un_ent (semu st ! j)) else un_ent (semu st ! j))"
      proof (intro allI impI)
        fix j assume "j < length (semu st)"
        then show "un_ent (ys ! j) = (if j \<in> set (i # rest)
          then unrm_entries sid low high (un_ent (semu st ! j)) else un_ent (semu st ! j))"
          using ih(4) f1 Cons.prems(2) ent1 other1 [of j] by (cases "j = i") (auto simp: es_def)
      qed
    qed (use ih f1 other1 in auto)
  next
    case True
    have d: "i \<notin> set kept" "i \<notin> set rest" "distinct (kept @ rest)" using Cons.prems(2) by auto
    define st2 where "st2 = (case pp of
        None \<Rightarrow> set_np i None (st1\<lparr>semunp := un_np (semu st ! i)\<rparr>)
      | Some q \<Rightarrow> set_np i None (set_np q (un_np (semu st ! i)) st1))"
    have w: "semunrm_walk n sid low high pp p st = semunrm_walk m sid low high pp (un_np (semu st ! i)) st2"
      unfolding n p(1) semunrm_walk.simps Let_def es_def [symmetric] st1_def [symmetric] st2_def
      using True ent1 next1 by (simp split: option.split)
    have seg2: "lseg (semu st2) (semunp st2) (kept @ rest) None"
    proof (cases kept rule: rev_cases)
      case Nil
      then have "st2 = set_np i None (st1\<lparr>semunp := un_np (semu st ! i)\<rparr>)"
        using Cons.prems(4) by (simp add: st2_def)
      then show ?thesis using seg1(2) d Nil by (simp add: chain_set_np)
    next
      case (snoc k q)
      then have st2': "st2 = set_np i None (set_np q (un_np (semu st ! i)) st1)"
        using Cons.prems(4) by (simp add: st2_def)
      have "lseg (semu st1) (semunp st1) (k @ [q]) (Some i)"
        using seg1(1) by (auto simp: snoc lseg_append f1)
      then have "lseg (semu (set_np q (un_np (semu st ! i)) st1)) (semunp st1) (k @ [q]) (un_np (semu st ! i))"
        using lseg_relink [of "semu st1"] d(3) snoc by (simp add: set_np_def)
      moreover have "lseg (semu (set_np q (un_np (semu st ! i)) st1)) (un_np (semu st ! i)) rest None"
        using seg1(2) d(3) by (simp add: chain_set_np snoc)
      ultimately have "lseg (semu (set_np q (un_np (semu st ! i)) st1)) (semunp st1) (kept @ rest) None"
        unfolding snoc by (rule lseg_appendI)
      then show ?thesis using d by (simp add: st2' chain_set_np)
    qed
    have seg3: "lseg (semu st2) (un_np (semu st ! i)) rest None"
    proof -
      have "pp = None \<or> (\<exists>q. pp = Some q \<and> q \<notin> set rest)"
        using Cons.prems(2,4) by (cases kept rule: rev_cases) auto
      then show ?thesis using seg1(2) d(2) by (auto simp: st2_def chain_set_np)
    qed
    have f2: "length (semu st2) = length (semu st)" by (simp add: st2_def st1_def split: option.split)
    have ent2: "un_ent (semu st2 ! j) = un_ent (semu st1 ! j)" for j
      by (simp add: st2_def set_np_nth split: option.split)
    have other2: "semu st2 ! j = semu st ! j" if "j \<notin> set (kept @ i # rest)" for j
    proof -
      have "j \<noteq> i" "\<And>q. pp = Some q \<Longrightarrow> j \<noteq> q"
        using that Cons.prems(4) by (auto simp: split: if_splits)
      then show ?thesis using other1 by (auto simp: st2_def set_np_def nth_upd split: option.split)
    qed
    obtain ys np where ih: "semunrm_walk m sid low high pp (un_np (semu st ! i)) st2 = st2\<lparr>semu := ys, semunp := np\<rparr>"
      "length ys = length (semu st2)"
      "lseg ys np (kept @ filter (\<lambda>i. unrm_entries sid low high (un_ent (semu st2 ! i)) \<noteq> []) rest) None"
      "\<forall>j < length (semu st2). un_ent (ys ! j) =
         (if j \<in> set rest then unrm_entries sid low high (un_ent (semu st2 ! j)) else un_ent (semu st2 ! j))"
      "\<forall>j. j \<notin> set (kept @ rest) \<longrightarrow> ys ! j = semu st2 ! j"
      using Cons.IH [of st2 kept "un_np (semu st ! i)" pp m] Cons.prems seg2 seg3 d n by auto
    have fl: "filter (\<lambda>i. unrm_entries sid low high (un_ent (semu st2 ! i)) \<noteq> []) rest = filter
        (\<lambda>i. unrm_entries sid low high (un_ent (semu st ! i)) \<noteq> []) rest"
    proof (rule filter_cong [OF refl])
      fix j assume "j \<in> set rest"
      then have "j \<noteq> i" using Cons.prems(2) by auto
      then show "(unrm_entries sid low high (un_ent (semu st2 ! j)) \<noteq> []) =
          (unrm_entries sid low high (un_ent (semu st ! j)) \<noteq> [])" using other1 ent2 by simp
    qed
    show ?thesis
    proof (intro exI conjI)
      show "semunrm_walk n sid low high pp p st = st\<lparr>semu := ys, semunp := np\<rparr>"
        using w ih(1) by (simp add: st2_def st1_def set_ent_def set_np_def split: option.splits)
      show "lseg ys np (kept @ filter (\<lambda>i. unrm_entries sid low high (un_ent (semu st ! i)) \<noteq> []) (i # rest)) None"
        using ih(3) fl True by (simp add: es_def)
      show "\<forall>j < length (semu st). un_ent (ys ! j) = (if j \<in> set (i # rest)
          then unrm_entries sid low high (un_ent (semu st ! j)) else un_ent (semu st ! j))"
      proof (intro allI impI)
        fix j assume "j < length (semu st)"
        then show "un_ent (ys ! j) = (if j \<in> set (i # rest)
          then unrm_entries sid low high (un_ent (semu st ! j)) else un_ent (semu st ! j))"
          using ih(4) f2 d ent1 ent2 other1 [of j] by (cases "j = i") (auto simp: es_def)
      qed
    qed (use ih f2 other2 in auto)
  qed
qed

lemma semunrm_spec:
  assumes wf: "undo_wf si st"
  shows "undo_wf si (semunrm sid low high st) \<and> same_sems st (semunrm sid low high st) \<and>
    sem_undos (semunrm sid low high st) = sem_undos st \<and>
    (\<forall>q s n. adj (semunrm sid low high st) q s n =
       (if s = sid \<and> low \<le> n \<and> n \<le> high then 0 else adj st q s n))"
proof -
  obtain act free where rep: "undo_rep si st act free" using wf by (auto simp: undo_wf_def)
  have ch: "chain (semu st) (semunp st) act" "distinct act" "chain (semu st) (semfup st) free"
    "set act \<inter> set free = {}" "distinct free"
    using rep by (auto simp: undo_rep_def)
  let ?rm = "\<lambda>i. unrm_entries sid low high (un_ent (semu st ! i))"
  obtain ys np where st': "semunrm sid low high st = st\<lparr>semu := ys, semunp := np\<rparr>"
    and ys: "length ys = length (semu st)" "lseg ys np (filter (\<lambda>i. ?rm i \<noteq> []) act) None"
      "\<And>i. i < length (semu st) \<Longrightarrow> un_ent (ys ! i) = (if i \<in> set act then ?rm i else un_ent (semu st ! i))"
      "\<And>i. i \<notin> set act \<Longrightarrow> ys ! i = semu st ! i"
    using semunrm_walk_spec [of st "[]" act "semunp st" None "length (semu st)" sid low high]
      ch lseg_length [OF ch(1,2)] by (auto simp: semunrm_def)
  have all: "un_ent (ys ! i) = ?rm i" if "sem_undos st q = Some i" for q i
  proof (cases "i \<in> set act")
    case False
    then have "un_ent (semu st ! i) = []" using rep_owner(3) [OF rep that] by simp
    then show ?thesis using ys(4) [OF False] by simp
  qed (use ys(3) rep_owner(1) [OF rep that] in simp)
  have cf: "chain ys (semfup st) free"
  proof -
    have "un_np (ys ! i) = un_np (semu st ! i)" if "i \<in> set free" for i
    proof -
      have "i \<notin> set act" using that ch(4) by blast
      then show ?thesis using ys(4) by simp
    qed
    then show ?thesis using ch(3) ys(1) by (subst lseg_cong [of ys "semu st"]) auto
  qed
  have okall: "ents_ok si (un_ent (ys ! i))" if "i < length (semu st)" for i
    using rep that ys(3) unrm_adj(1) by (auto simp: undo_rep_def)
  have f: "semu (semunrm sid low high st) = ys" "semunp (semunrm sid low high st) = np"
    "semfup (semunrm sid low high st) = semfup st" "sem_undos (semunrm sid low high st) = sem_undos st"
    by (simp_all add: st')
  have "undo_rep si (semunrm sid low high st) (filter (\<lambda>i. ?rm i \<noteq> []) act) free"
    unfolding undo_rep_def f ys(1)
  proof (intro conjI)
    show "\<forall>i \<in> set (filter (\<lambda>i. ?rm i \<noteq> []) act). un_ent (ys ! i) \<noteq> [] \<and> (\<exists>p. sem_undos st p = Some i)"
      using rep ys(3) lseg_bound [OF ch(1)] by (auto simp: undo_rep_def)
    show "\<forall>i \<in> set free. un_ent (ys ! i) = []"
    proof
      fix i assume i: "i \<in> set free"
      then have "i \<notin> set act" using ch(4) by blast
      then show "un_ent (ys ! i) = []" using ys(4) rep i by (simp add: undo_rep_def)
    qed
    show "\<forall>p i. sem_undos st p = Some i \<longrightarrow> i < length (semu st) \<and> i \<notin> set free \<and>
        (un_ent (ys ! i) \<noteq> [] \<longrightarrow> i \<in> set (filter (\<lambda>i. ?rm i \<noteq> []) act))"
    proof (intro allI impI)
      fix q i assume q: "sem_undos st q = Some i"
      have "i \<in> set act" if "?rm i \<noteq> []"
        using that rep_owner(3) [OF rep q] by (cases "un_ent (semu st ! i)") auto
      then show "i < length (semu st) \<and> i \<notin> set free \<and>
          (un_ent (ys ! i) \<noteq> [] \<longrightarrow> i \<in> set (filter (\<lambda>i. ?rm i \<noteq> []) act))"
        using rep_owner(1,2) [OF rep q] all [OF q] by simp
    qed
    show "\<forall>p q i. sem_undos st p = Some i \<longrightarrow> sem_undos st q = Some i \<longrightarrow> p = q"
      using rep unfolding undo_rep_def by blast
  qed (use ys(2) cf okall ch in auto)
  moreover have "adj (semunrm sid low high st) q s n =
      (if s = sid \<and> low \<le> n \<and> n \<le> high then 0 else adj st q s n)" for q s n
  proof (cases "sem_undos st q")
    case (Some i)
    then show ?thesis
      using all [OF Some] unrm_adj(2) [OF rep_owner(4) [OF rep Some]] by (simp add: adj_def st')
  qed (simp add: adj_def st')
  ultimately show ?thesis by (auto simp: undo_wf_def st' same_sems_def ys(1))
qed

section \<open>Giving a structure back\<close>

lemma set_np_twice: "set_np up a (set_np up b st) = set_np up a st"
proof (cases "up < length (semu st)")
  case False
  then have "(semu st)[up := x] = semu st" for x by (simp add: list_update_beyond)
  then show ?thesis by (simp add: set_np_def)
qed (simp add: set_np_def)

lemma release_rep:
  assumes rep: "undo_rep si st act free" and p: "sem_undos st p = Some up" and e: "un_ent (semu st ! up) = []"
  defines "st' \<equiv> (set_np up (semfup st) st)\<lparr>semfup := Some up, sem_undos := (sem_undos st)(p := None)\<rparr>"
  shows "undo_rep si st' act (up # free)" and "adj st' q s n = (if q = p then 0 else adj st q s n)"
proof -
  have up: "up < length (semu st)" "up \<notin> set free" "up \<notin> set act" using rep_owner [OF rep p] e by auto
  have f: "semu st' = semu (set_np up (semfup st) st)" "semunp st' = semunp st" "semfup st' = Some up"
    "sem_undos st' = (sem_undos st)(p := None)" "length (semu (set_np up (semfup st) st)) = length (semu st)"
    by (simp_all add: st'_def)
  have inj: "q = p" if "sem_undos st q = Some up" for q
    using rep p that unfolding undo_rep_def by blast
  show "undo_rep si st' act (up # free)"
    unfolding undo_rep_def f set_np_nth(1)
  proof (intro conjI)
    show "lseg (semu (set_np up (semfup st) st)) (semunp st) act None"
      using rep up by (simp add: chain_set_np undo_rep_def)
    show "lseg (semu (set_np up (semfup st) st)) (Some up) (up # free) None"
      using rep up by (simp add: chain_set_np set_np_nth undo_rep_def)
    show "distinct (act @ up # free)" using rep up by (simp add: undo_rep_def)
    show "\<forall>i \<in> set act. un_ent (semu st ! i) \<noteq> [] \<and> (\<exists>q. ((sem_undos st)(p := None)) q = Some i)"
    proof
      fix i assume i: "i \<in> set act"
      then obtain q where "sem_undos st q = Some i" "un_ent (semu st ! i) \<noteq> []"
        using rep unfolding undo_rep_def by blast
      moreover have "i \<noteq> up" using i up by blast
      ultimately show "un_ent (semu st ! i) \<noteq> [] \<and> (\<exists>q. ((sem_undos st)(p := None)) q = Some i)"
        using p by (intro conjI exI [of _ q]) auto
    qed
    show "\<forall>i \<in> set (up # free). un_ent (semu st ! i) = []" using rep e by (simp add: undo_rep_def)
    show "\<forall>q i. ((sem_undos st)(p := None)) q = Some i \<longrightarrow> i < length (semu st) \<and>
        i \<notin> set (up # free) \<and> (un_ent (semu st ! i) \<noteq> [] \<longrightarrow> i \<in> set act)"
    proof (intro allI impI)
      fix q i assume "((sem_undos st)(p := None)) q = Some i"
      then have q: "sem_undos st q = Some i" "q \<noteq> p" by (auto split: if_splits)
      then have "i \<noteq> up" using inj by blast
      then show "i < length (semu st) \<and> i \<notin> set (up # free) \<and>
          (un_ent (semu st ! i) \<noteq> [] \<longrightarrow> i \<in> set act)"
        using rep_owner [OF rep q(1)] by simp
    qed
    show "\<forall>q r i. ((sem_undos st)(p := None)) q = Some i \<longrightarrow> ((sem_undos st)(p := None)) r = Some i \<longrightarrow> q = r"
      using rep unfolding undo_rep_def by (metis fun_upd_apply option.distinct(1))
    show "\<forall>i < length (semu st). ents_ok si (un_ent (semu st ! i))" using rep by (simp add: undo_rep_def)
  qed
  show "adj st' q s n = (if q = p then 0 else adj st q s n)"
    by (simp add: adj_def f set_np_nth split: option.split)
qed

lemma exit_unlink:
  assumes rep: "undo_rep si st act free" and p: "sem_undos st p = Some up"
  defines "st1 \<equiv> (if un_ent (semu st ! up) = [] then st else unlink_undo up (set_ent up [] st))"
  defines "st' \<equiv> (set_np up (semfup st1) st1)\<lparr>semfup := Some up, sem_undos := (sem_undos st1)(p := None)\<rparr>"
  shows "undo_wf si st' \<and> same_sems st st' \<and> sem_undos st' p = None \<and>
    (\<forall>q s n. adj st' q s n = (if q = p then 0 else adj st q s n))"
proof (cases "un_ent (semu st ! up) = []")
  case True
  then have "st' = (set_np up (semfup st) st)\<lparr>semfup := Some up, sem_undos := (sem_undos st)(p := None)\<rparr>"
    by (simp add: st'_def st1_def)
  then show ?thesis
    using release_rep [OF rep p True] by (auto simp: undo_wf_def same_sems_def set_np_def)
next
  case False
  have "ents_ok si []" by (simp add: ents_ok_def)
  note un = unlink_empty [OF rep p False this]
  let ?s2 = "set_np up None (unlink_undo up (set_ent up [] st))"
  have rep2: "undo_rep si ?s2 (remove1 up act) free" and p2: "sem_undos ?s2 p = Some up"
    and ss: "same_sems st ?s2" using un p by auto
  have "adj ?s2 p s n = 0" for s n using un by simp
  have e2: "un_ent (semu ?s2 ! up) = []"
  proof (rule ccontr)
    assume "un_ent (semu ?s2 ! up) \<noteq> []"
    then have "up \<in> set (remove1 up act)" using rep_owner(3) [OF rep2 p2] by simp
    then show False using rep by (simp add: undo_rep_def set_remove1_eq)
  qed
  have st': "st' = (set_np up (semfup ?s2) ?s2)\<lparr>semfup := Some up, sem_undos := (sem_undos ?s2)(p := None)\<rparr>"
    using False by (simp add: st'_def st1_def set_np_twice)
  note rel = release_rep [OF rep2 p2 e2, folded st']
  have "same_sems ?s2 st'" by (simp add: st' same_sems_def set_np_def)
  then have "same_sems st st'" using ss same_sems_trans by blast
  moreover have "sem_undos st' p = None" by (simp add: st')
  moreover have "adj st' q s n = (if q = p then 0 else adj st q s n)" for q s n
    using rel(2) un by simp
  ultimately show ?thesis using rel(1) by (auto simp: undo_wf_def)
qed

end
