(* ===== verification/Sysv_Sem.thy ===== *)
theory Sysv_Sem
  imports Sem_Undo
begin

text \<open>
  The semaphore system calls of \<^verbatim>\<open>sys/sysV_sem.c\<close>: \<^verbatim>\<open>semctl\<close>, \<^verbatim>\<open>semget\<close> and
  \<^verbatim>\<open>semop\<close>, the clean-up at process exit and the initialization at boot. A routine
  takes the caller's user area and the state of the facility and returns both. Where the
  code may sleep (\<^verbatim>\<open>semop\<close>, or a page fault inside \<^verbatim>\<open>copyin\<close>) the other processes
  may change the state; what they do is an argument.
\<close>

section \<open>Constants and helpers\<close>

abbreviation SEM_A :: "16 word" where "SEM_A \<equiv> 0x80"
abbreviation SEM_R :: "16 word" where "SEM_R \<equiv> 0x100"
abbreviation SEM_UNDO :: "16 word" where "SEM_UNDO \<equiv> 0x1000"
abbreviation SEM_NOWAIT :: "16 word" where "SEM_NOWAIT \<equiv> 0x0800"

record sembuf =
  sem_num :: int      \<comment> \<open>unsigned short\<close>
  sem_op :: int       \<comment> \<open>short\<close>
  sem_flg :: "16 word"

definition upd_sem :: "nat \<Rightarrow> (sem \<Rightarrow> sem) \<Rightarrow> semstate \<Rightarrow> semstate" where
  "upd_sem k f st = st\<lparr>semv := (semv st)[k := f (semv st ! k)]\<rparr>"

definition woke :: "semchan \<Rightarrow> semstate \<Rightarrow> semstate" where
  "woke c st = st\<lparr>sem_woken := sem_woken st @ [c]\<rparr>"

definition wake_ncnt :: "nat \<Rightarrow> semstate \<Rightarrow> semstate" where
  "wake_ncnt k st =
     (if semncnt (semv st ! k) \<noteq> 0 then woke (Ncnt k) (upd_sem k (\<lambda>p. p\<lparr>semncnt := 0\<rparr>) st) else st)"

definition wake_zcnt :: "nat \<Rightarrow> semstate \<Rightarrow> semstate" where
  "wake_zcnt k st =
     (if semzcnt (semv st ! k) \<noteq> 0 then woke (Zcnt k) (upd_sem k (\<lambda>p. p\<lparr>semzcnt := 0\<rparr>) st) else st)"

text \<open>\<^verbatim>\<open>semconv\<close>: the index of the entry, or \<open>None\<close> with EINVAL.\<close>

definition semconv :: "seminfo \<Rightarrow> int \<Rightarrow> uarea \<Rightarrow> semstate \<Rightarrow> nat option \<times> uarea" where
  "semconv si s u st =
     (if s < 0 then (None, set_error EINVAL u)
      else let i = nat (s mod semmni si)
           in if \<not> allocated (sem_perm (sema st ! i)) \<or> s div semmni si \<noteq> ip_seq (sem_perm (sema st ! i))
              then (None, set_error EINVAL u) else (Some i, u))"

section \<open>semctl\<close>

datatype sem_out = NoOut | OutDs semid_ds | OutVals "int list"

text \<open>The user memory as the call sees it: what is copied in, and whether a copy out succeeds.\<close>

record sem_mem =
  in_ds :: "semstate \<Rightarrow> semstate \<times> (int \<times> int \<times> 16 word) option"
  in_vals :: "nat \<Rightarrow> semstate \<Rightarrow> semstate \<times> int list option"
  out_ok :: bool

fun rmid_reset :: "nat \<Rightarrow> nat \<Rightarrow> semstate \<Rightarrow> semstate" where
  "rmid_reset k 0 st = st"
| "rmid_reset k (Suc n) st =
     rmid_reset (Suc k) n
       (wake_zcnt k (wake_ncnt k (upd_sem k (\<lambda>p. p\<lparr>semval := 0, sempid := 0\<rparr>) st)))"

definition sem_rmid :: "seminfo \<Rightarrow> int \<Rightarrow> nat \<Rightarrow> uarea \<Rightarrow> semstate \<Rightarrow> (uarea \<times> semstate) outcome" where
  "sem_rmid si semid i u st =
     (let sp = sema st ! i; (ok, u1) = owner_or_suser (sem_perm sp) u
      in if \<not> ok then Ret (u1, st)
         else let st1 = semunrm semid 0 (sem_nsems sp) st;
                  st2 = rmid_reset (sem_base sp) (nat (sem_nsems sp)) st1
              in obind (ipcmfree (semmap st2) (sem_nsems sp) (int (sem_base sp) + 1)) (\<lambda>(mp, w).
                   Ret (u1, st2\<lparr>semmap := mp,
                     sem_woken := sem_woken st2 @ (if w then [Semmap] else []),
                     sema := (sema st2)[i := sp\<lparr>sem_perm := (sem_perm sp)\<lparr>
                       ip_seq := (if to_s32 (semid + semmni si) < 0 then 0
                                  else to_u16 (ip_seq (sem_perm sp) + 1)),
                       ip_mode := 0\<rparr>\<rparr>]\<rparr>)))"

definition sem_set :: "seminfo \<Rightarrow> int \<Rightarrow> nat \<Rightarrow> sem_mem \<Rightarrow> uarea \<Rightarrow> semstate \<Rightarrow> uarea \<times> semstate" where
  "sem_set si semid i mem u st =
     (case in_ds mem st of
        (st1, None) \<Rightarrow> (set_error EFAULT u, st1)
      | (st1, Some (uid, gid, mode)) \<Rightarrow>
          (case semconv si semid u st1 of
             (None, u1) \<Rightarrow> (u1, st1)
           | (Some _, u1) \<Rightarrow>
               (let sp = sema st1 ! i; (ok, u2) = owner_or_suser (sem_perm sp) u1
                in if \<not> ok then (u2, st1)
                   else (u2, st1\<lparr>sema := (sema st1)[i := sp\<lparr>sem_perm := (sem_perm sp)\<lparr>
                          ip_uid := uid, ip_gid := gid, ip_mode := (mode AND 0x1FF) OR IPC_ALLOC\<rparr>,
                          sem_ctime := sem_time st1\<rparr>]\<rparr>))))"

text \<open>The entry in the format of \<^verbatim>\<open>struct osemid_ds\<close>: the identifiers are cut to 16 bits.\<close>

definition old_ds :: "semid_ds \<Rightarrow> semid_ds" where
  "old_ds sp = sp\<lparr>sem_perm := (sem_perm sp)\<lparr>ip_uid := to_u16 (ip_uid (sem_perm sp)),
     ip_gid := to_u16 (ip_gid (sem_perm sp)), ip_cuid := to_u16 (ip_cuid (sem_perm sp)),
     ip_cgid := to_u16 (ip_cgid (sem_perm sp))\<rparr>\<rparr>"

definition sem_stat :: "bool \<Rightarrow> nat \<Rightarrow> sem_mem \<Rightarrow> uarea \<Rightarrow> semstate \<Rightarrow> sem_out \<times> uarea" where
  "sem_stat old i mem u st =
     (let sp = sema st ! i
      in case ipcaccess (sem_perm sp) SEM_R u of
           (True, u1) \<Rightarrow> (NoOut, u1)
         | (False, u1) \<Rightarrow>
             if out_ok mem then (OutDs (if old then old_ds sp else sp), u1)
             else (NoOut, set_error EFAULT u1))"

text \<open>GETNCNT, GETPID, GETVAL and GETZCNT read one field of one semaphore.\<close>

definition sem_get1 :: "(sem \<Rightarrow> int) \<Rightarrow> nat \<Rightarrow> int \<Rightarrow> uarea \<Rightarrow> semstate \<Rightarrow> uarea" where
  "sem_get1 fld i semnum u st =
     (let sp = sema st ! i
      in case ipcaccess (sem_perm sp) SEM_R u of
           (True, u1) \<Rightarrow> u1
         | (False, u1) \<Rightarrow>
             if semnum \<ge> sem_nsems sp then set_error EINVAL u1
             else u1\<lparr>u_rval1 := fld (semv st ! (sem_base sp + nat semnum))\<rparr>)"

definition sem_getall :: "nat \<Rightarrow> sem_mem \<Rightarrow> uarea \<Rightarrow> semstate \<Rightarrow> sem_out \<times> uarea" where
  "sem_getall i mem u st =
     (let sp = sema st ! i
      in case ipcaccess (sem_perm sp) SEM_R u of
           (True, u1) \<Rightarrow> (NoOut, u1)
         | (False, u1) \<Rightarrow>
             if out_ok mem
             then (OutVals (map (\<lambda>k. semval (semv st ! (sem_base sp + k))) [0..<nat (sem_nsems sp)]),
                   set_error E_OK u1)
             else (NoOut, set_error EFAULT u1))"

definition sem_store :: "nat \<Rightarrow> int \<Rightarrow> semstate \<Rightarrow> semstate" where
  "sem_store k v st =
     (let st1 = upd_sem k (\<lambda>p. p\<lparr>semval := v\<rparr>) st
      in if v \<noteq> 0 then wake_ncnt k st1 else wake_zcnt k st1)"

definition sem_setval :: "seminfo \<Rightarrow> int \<Rightarrow> nat \<Rightarrow> int \<Rightarrow> int \<Rightarrow> uarea \<Rightarrow> semstate \<Rightarrow> uarea \<times> semstate" where
  "sem_setval si semid i semnum arg u st =
     (let sp = sema st ! i
      in case ipcaccess (sem_perm sp) SEM_A u of
           (True, u1) \<Rightarrow> (u1, st)
         | (False, u1) \<Rightarrow>
             if semnum \<ge> sem_nsems sp then (set_error EINVAL u1, st)
             else if to_u32 arg > semvmx si then (set_error ERANGE u1, st)
             else (let k = sem_base sp + nat semnum;
                       st1 = upd_sem k (\<lambda>p. p\<lparr>sempid := to_u16 (p_pid u1)\<rparr>) (sem_store k (to_u16 arg) st)
                   in (u1, semunrm semid (to_u16 semnum) (to_u16 semnum) st1)))"

fun setall_loop :: "int \<Rightarrow> nat \<Rightarrow> int list \<Rightarrow> semstate \<Rightarrow> semstate" where
  "setall_loop pid k [] st = st"
| "setall_loop pid k (v # vs) st =
     setall_loop pid (Suc k) vs (upd_sem k (\<lambda>p. p\<lparr>sempid := to_u16 pid\<rparr>) (sem_store k v st))"

definition sem_setall :: "seminfo \<Rightarrow> int \<Rightarrow> nat \<Rightarrow> sem_mem \<Rightarrow> uarea \<Rightarrow> semstate \<Rightarrow> uarea \<times> semstate" where
  "sem_setall si semid i mem u st =
     (case in_vals mem (nat (sem_nsems (sema st ! i))) st of
        (st1, None) \<Rightarrow> (set_error EFAULT u, st1)
      | (st1, Some vals) \<Rightarrow>
          (case semconv si semid (set_error E_OK u) st1 of
             (None, u1) \<Rightarrow> (u1, st1)
           | (Some _, u1) \<Rightarrow>
               (let sp = sema st1 ! i
                in case ipcaccess (sem_perm sp) SEM_A u1 of
                     (True, u2) \<Rightarrow> (u2, st1)
                   | (False, u2) \<Rightarrow>
                       if \<exists>v \<in> set vals. v > semvmx si then (set_error ERANGE u2, st1)
                       else (u2, setall_loop (p_pid u2) (sem_base sp) vals
                                   (semunrm semid 0 (sem_nsems sp) st1)))))"

text \<open>The commands of \<^verbatim>\<open>h/sem.h\<close>; the semaphore number is unsigned.\<close>

definition semctl1 :: "seminfo \<Rightarrow> bool \<Rightarrow> int \<Rightarrow> int \<Rightarrow> int \<Rightarrow> int \<Rightarrow> sem_mem \<Rightarrow> uarea \<Rightarrow> semstate
    \<Rightarrow> (sem_out \<times> uarea \<times> semstate) outcome" where
  "semctl1 si old semid semnum cmd arg mem u st =
     (case semconv si semid u st of
        (None, u1) \<Rightarrow> Ret (NoOut, u1, st)
      | (Some i, u0) \<Rightarrow>
          (let u1 = u0\<lparr>u_rval1 := 0\<rparr>; num = to_u32 semnum
           in if cmd = IPC_RMID then obind (sem_rmid si semid i u1 st) (\<lambda>(u2, st2). Ret (NoOut, u2, st2))
              else if cmd = IPC_SET then (case sem_set si semid i mem u1 st of (u2, st2) \<Rightarrow> Ret (NoOut, u2, st2))
              else if cmd = IPC_STAT then (case sem_stat old i mem u1 st of (out, u2) \<Rightarrow> Ret (out, u2, st))
              else if cmd = 3 then Ret (NoOut, sem_get1 semncnt i num u1 st, st)
              else if cmd = 4 then Ret (NoOut, sem_get1 sempid i num u1 st, st)
              else if cmd = 5 then Ret (NoOut, sem_get1 semval i num u1 st, st)
              else if cmd = 6 then (case sem_getall i mem u1 st of (out, u2) \<Rightarrow> Ret (out, u2, st))
              else if cmd = 7 then Ret (NoOut, sem_get1 semzcnt i num u1 st, st)
              else if cmd = 8 then (case sem_setval si semid i num arg u1 st of (u2, st2) \<Rightarrow> Ret (NoOut, u2, st2))
              else if cmd = 9 then (case sem_setall si semid i mem u1 st of (u2, st2) \<Rightarrow> Ret (NoOut, u2, st2))
              else Ret (NoOut, set_error EINVAL u1, st)))"

section \<open>semexit, semget and seminit\<close>

fun semexit_loop :: "seminfo \<Rightarrow> undo list \<Rightarrow> uarea \<Rightarrow> semstate \<Rightarrow> uarea \<times> semstate" where
  "semexit_loop si [] u st = (u, st)"
| "semexit_loop si (e # es) u st =
     (case semconv si (un_id e) u st of
        (None, u1) \<Rightarrow> semexit_loop si es u1 st
      | (Some i, u1) \<Rightarrow>
          (let k = sem_base (sema st ! i) + nat (un_num e); v = semval (semv st ! k) + un_aoe e
           in if v < 0 \<or> v > semvmx si then semexit_loop si es u1 st
              else let st1 = upd_sem k (\<lambda>p. p\<lparr>semval := to_u16 v\<rparr>) st;
                       st2 = (if v = 0 then wake_zcnt k st1 else st1);
                       st3 = (if un_aoe e > 0 then wake_ncnt k st2 else st2)
                   in semexit_loop si es u1 st3))"

text \<open>The entries are taken from the last to the first.\<close>

definition semexit :: "seminfo \<Rightarrow> uarea \<Rightarrow> semstate \<Rightarrow> uarea \<times> semstate" where
  "semexit si u st =
     (case sem_undos st (p_index u) of
        None \<Rightarrow> (u, st)
      | Some up \<Rightarrow>
          (let (u1, st1) =
             (if un_cnt (semu st ! up) = 0 then (u, st)
              else case semexit_loop si (rev (un_ent (semu st ! up))) u st of
                     (u1, st1) \<Rightarrow> (u1, unlink_undo up (set_ent up [] st1)))
           in (u1, (set_np up (semfup st1) st1)
                     \<lparr>semfup := Some up, sem_undos := (sem_undos st1)(p_index u := None)\<rparr>)))"

definition put_perms :: "ipc_perm list \<Rightarrow> semstate \<Rightarrow> semstate" where
  "put_perms ps st = st\<lparr>sema := map2 (\<lambda>sp p. sp\<lparr>sem_perm := p\<rparr>) (sema st) ps\<rparr>"

definition clear_mode :: "nat \<Rightarrow> semstate \<Rightarrow> semstate" where
  "clear_mode i st =
     st\<lparr>sema := (sema st)[i := (sema st ! i)\<lparr>sem_perm := (sem_perm (sema st ! i))\<lparr>ip_mode := 0\<rparr>\<rparr>]\<rparr>"

definition zero_sem :: sem where
  "zero_sem = \<lparr>semval = 0, sempid = 0, semncnt = 0, semzcnt = 0\<rparr>"

fun bzero_sems :: "nat \<Rightarrow> nat \<Rightarrow> semstate \<Rightarrow> semstate" where
  "bzero_sems k 0 st = st"
| "bzero_sems k (Suc n) st = bzero_sems (Suc k) n (upd_sem k (\<lambda>_. zero_sem) st)"

definition semget :: "seminfo \<Rightarrow> int \<Rightarrow> int \<Rightarrow> 32 word \<Rightarrow> uarea \<Rightarrow> semstate \<Rightarrow> (uarea \<times> semstate) outcome" where
  "semget si key nsems semflg u st =
     (case ipcgetperm key semflg u (map sem_perm (sema st)) of
        Inl e \<Rightarrow> Ret (set_error e u, st)
      | Inr (i, s, ps) \<Rightarrow>
          (let st1 = put_perms ps st;
               fin = (\<lambda>st. (u\<lparr>u_rval1 := to_s32 (ip_seq (sem_perm (sema st ! i)) * semmni si + int i)\<rparr>, st))
           in if s \<noteq> 0 then
                (if nsems \<le> 0 \<or> nsems > semmsl si then Ret (set_error EINVAL u, clear_mode i st1)
                 else obind (ipcmalloc (semmap st1) nsems) (\<lambda>(a, mp).
                   let st2 = st1\<lparr>semmap := mp\<rparr>
                   in if a = 0 then Ret (set_error ENOSPC u, clear_mode i st2)
                      else let st3 = bzero_sems (nat (a - 1)) (nat nsems) st2
                           in Ret (fin (st3\<lparr>sema := (sema st3)[i := (sema st3 ! i)
                                \<lparr>sem_base := nat (a - 1), sem_nsems := to_u16 nsems,
                                 sem_ctime := sem_time st3, sem_otime := 0\<rparr>]\<rparr>))))
              else if nsems \<noteq> 0 \<and> sem_nsems (sema st1 ! i) < nsems then Ret (set_error EINVAL u, st1)
              else Ret (fin st1)))"

text \<open>At boot the arrays are zero; the map receives all semaphores and the free chain all structures.\<close>

definition seminit :: "seminfo \<Rightarrow> semstate \<Rightarrow> semstate outcome" where
  "seminit si st =
     obind (ipcmfree (ipcmapinit (semmap st) (si_semmap si)) (semmns si) 1) (\<lambda>(mp, w).
       Ret (st\<lparr>semmap := mp,
               semu := map (\<lambda>i. (semu st ! i)\<lparr>un_np := (if Suc i < semmnu si then Some (Suc i) else None)\<rparr>)
                         [0..<length (semu st)],
               semfup := Some 0\<rparr>))"

section \<open>semop\<close>

text \<open>One operation: done, refused with an error, or it must wait (\<open>True\<close>: for an increase).\<close>

datatype op_result = OpOk | OpError | OpWait bool

definition op_aoe :: "seminfo \<Rightarrow> int \<Rightarrow> sembuf \<Rightarrow> uarea \<Rightarrow> semstate \<Rightarrow> bool \<times> uarea \<times> semstate" where
  "op_aoe si semid op u st =
     (if sem_flg op AND SEM_UNDO \<noteq> 0 then semaoe si (sem_op op) semid (to_s16 (sem_num op)) u st
      else (False, u, st))"

definition sem_do_op :: "seminfo \<Rightarrow> int \<Rightarrow> nat \<Rightarrow> sembuf \<Rightarrow> uarea \<Rightarrow> semstate
    \<Rightarrow> op_result \<times> uarea \<times> semstate" where
  "sem_do_op si semid base op u st =
     (let k = base + nat (sem_num op); v = semval (semv st ! k)
      in if sem_op op > 0 then
           (if sem_op op + v > semvmx si
            then (OpError, if u_error u = E_OK then set_error ERANGE u else u, st)
            else case op_aoe si semid op u st of
                (True, u1, st1) \<Rightarrow> (OpError, if u_error u1 = E_OK then set_error ERANGE u1 else u1, st1)
              | (False, u1, st1) \<Rightarrow>
                  (OpOk, u1, wake_ncnt k (upd_sem k (\<lambda>p. p\<lparr>semval := to_u16 (v + sem_op op)\<rparr>) st1)))
         else if sem_op op < 0 then
           (if v \<ge> - sem_op op then
              (case op_aoe si semid op u st of
                 (True, u1, st1) \<Rightarrow> (OpError, u1, st1)
               | (False, u1, st1) \<Rightarrow>
                   let st2 = upd_sem k (\<lambda>p. p\<lparr>semval := to_u16 (v + sem_op op)\<rparr>) st1
                   in (OpOk, u1, if semval (semv st2 ! k) = 0 then wake_zcnt k st2 else st2))
            else (OpWait True, u, st))
         else if v \<noteq> 0 then (OpWait False, u, st)
         else (OpOk, u, st))"

text \<open>The operations done so far, latest first, are taken back.\<close>

fun semundo :: "seminfo \<Rightarrow> int \<Rightarrow> nat \<Rightarrow> sembuf list \<Rightarrow> uarea \<Rightarrow> semstate \<Rightarrow> uarea \<times> semstate" where
  "semundo si semid base [] u st = (u, st)"
| "semundo si semid base (op # ops) u st =
     (if sem_op op = 0 then semundo si semid base ops u st
      else let k = base + nat (sem_num op);
               st1 = upd_sem k (\<lambda>p. p\<lparr>semval := to_u16 (semval p - sem_op op)\<rparr>) st
           in if sem_flg op AND SEM_UNDO \<noteq> 0
              then (case semaoe si (to_s16 (- sem_op op)) semid (to_s16 (sem_num op)) u st1 of
                      (_, u2, st2) \<Rightarrow> semundo si semid base ops u2 st2)
              else semundo si semid base ops u st1)"

datatype pass_result = PassDone | PassError | PassWait bool sembuf

fun semop_pass :: "seminfo \<Rightarrow> int \<Rightarrow> nat \<Rightarrow> sembuf list \<Rightarrow> sembuf list \<Rightarrow> uarea \<Rightarrow> semstate
    \<Rightarrow> pass_result \<times> uarea \<times> semstate" where
  "semop_pass si semid base done [] u st = (PassDone, u, st)"
| "semop_pass si semid base done (op # ops) u st =
     (case sem_do_op si semid base op u st of
        (OpOk, u1, st1) \<Rightarrow> semop_pass si semid base (op # done) ops u1 st1
      | (OpError, u1, st1) \<Rightarrow>
          (case semundo si semid base done u1 st1 of (u2, st2) \<Rightarrow> (PassError, u2, st2))
      | (OpWait b, u1, st1) \<Rightarrow>
          (case semundo si semid base done u1 st1 of (u2, st2) \<Rightarrow> (PassWait b op, u2, st2)))"

fun set_pids :: "int \<Rightarrow> nat \<Rightarrow> sembuf list \<Rightarrow> semstate \<Rightarrow> semstate" where
  "set_pids pid base [] st = st"
| "set_pids pid base (op # ops) st =
     set_pids pid base ops (upd_sem (base + nat (sem_num op)) (\<lambda>p. p\<lparr>sempid := to_u16 pid\<rparr>) st)"

text \<open>The counts of sleepers around a sleep: before it, and after an interrupted one.\<close>

definition begin_wait :: "bool \<Rightarrow> nat \<Rightarrow> semstate \<Rightarrow> semstate" where
  "begin_wait n k st =
     (if n then upd_sem k (\<lambda>p. p\<lparr>semncnt := to_u16 (semncnt p + 1)\<rparr>) st
      else upd_sem k (\<lambda>p. p\<lparr>semzcnt := to_u16 (semzcnt p + 1)\<rparr>) st)"

definition end_wait :: "bool \<Rightarrow> nat \<Rightarrow> semstate \<Rightarrow> semstate" where
  "end_wait n k st =
     (if n then (if semncnt (semv st ! k) \<le> 1 then woke (Ncnt k) (upd_sem k (\<lambda>p. p\<lparr>semncnt := 0\<rparr>) st)
                 else upd_sem k (\<lambda>p. p\<lparr>semncnt := to_u16 (semncnt p - 1)\<rparr>) st)
      else (if semzcnt (semv st ! k) \<le> 1 then woke (Zcnt k) (upd_sem k (\<lambda>p. p\<lparr>semzcnt := 0\<rparr>) st)
            else upd_sem k (\<lambda>p. p\<lparr>semzcnt := to_u16 (semzcnt p - 1)\<rparr>) st))"

datatype sem_run = Finished uarea semstate | Sleeping bool nat uarea semstate

text \<open>
  The loop at label \<^verbatim>\<open>check\<close>. Each element of the list is one sleep: whether a signal
  interrupted it, and what the other processes did meanwhile. A call still asleep when
  the list ends is \<open>Sleeping\<close>.
\<close>

fun semop_loop :: "seminfo \<Rightarrow> int \<Rightarrow> nat \<Rightarrow> sembuf list \<Rightarrow> bool \<Rightarrow> (bool \<times> (semstate \<Rightarrow> semstate)) list
    \<Rightarrow> uarea \<Rightarrow> semstate \<Rightarrow> sem_run" where
  "semop_loop si semid i ops again envs u st =
     (if again \<and> fst (semconv si semid u st) = None then Finished (set_error EIDRM u) st
      else let base = sem_base (sema st ! i)
           in case semop_pass si semid base [] ops u st of
                (PassDone, u1, st1) \<Rightarrow>
                  let st2 = set_pids (p_pid u1) base ops st1
                  in Finished (u1\<lparr>u_rval1 := 0\<rparr>)
                       (st2\<lparr>sema := (sema st2)[i := (sema st2 ! i)\<lparr>sem_otime := sem_time st2\<rparr>]\<rparr>)
              | (PassError, u1, st1) \<Rightarrow> Finished u1 st1
              | (PassWait n op, u1, st1) \<Rightarrow>
                  if sem_flg op AND SEM_NOWAIT \<noteq> 0 then Finished (set_error EAGAIN u1) st1
                  else let k = base + nat (sem_num op); st2 = begin_wait n k st1
                       in case envs of
                            [] \<Rightarrow> Sleeping n k u1 st2
                          | (interrupted, f) # es \<Rightarrow>
                              if interrupted then Finished (set_error EINTR u1) (end_wait n k (f st2))
                              else semop_loop si semid i ops True es u1 (f st2))"

fun semop_check :: "semid_ds \<Rightarrow> sembuf list \<Rightarrow> uarea \<Rightarrow> bool \<times> uarea" where
  "semop_check sp [] u = (True, u)"
| "semop_check sp (op # ops) u =
     (case ipcaccess (sem_perm sp) (if sem_op op \<noteq> 0 then SEM_A else SEM_R) u of
        (True, u1) \<Rightarrow> (False, u1)
      | (False, u1) \<Rightarrow>
          if sem_num op \<ge> sem_nsems sp then (False, set_error EFBIG u1) else semop_check sp ops u1)"

definition semop :: "seminfo \<Rightarrow> int \<Rightarrow> int \<Rightarrow> (semstate \<Rightarrow> semstate \<times> sembuf list option)
    \<Rightarrow> (bool \<times> (semstate \<Rightarrow> semstate)) list \<Rightarrow> uarea \<Rightarrow> semstate \<Rightarrow> sem_run" where
  "semop si semid nsops in_ops envs u st =
     (if to_u32 nsops > semopm si then Finished (set_error E2BIG u) st
      else case in_ops st of
             (st1, None) \<Rightarrow> Finished (set_error EFAULT u) st1
           | (st1, Some ops) \<Rightarrow>
               (case semconv si semid (set_error E_OK u) st1 of
                  (None, u1) \<Rightarrow> Finished u1 st1
                | (Some i, u1) \<Rightarrow>
                    (case semop_check (sema st1 ! i) ops u1 of
                       (False, u2) \<Rightarrow> Finished u2 st1
                     | (True, u2) \<Rightarrow> semop_loop si semid i ops False envs u2 st1)))"

section \<open>Frame facts\<close>

abbreviation sv :: "semstate \<Rightarrow> nat \<Rightarrow> int" where
  "sv st k \<equiv> semval (semv st ! k)"

lemma upd_sem_simps [simp]:
  "sema (upd_sem k f st) = sema st" "semmap (upd_sem k f st) = semmap st"
  "sem_undos (upd_sem k f st) = sem_undos st" "semu (upd_sem k f st) = semu st"
  "semunp (upd_sem k f st) = semunp st" "semfup (upd_sem k f st) = semfup st"
  "length (semv (upd_sem k f st)) = length (semv st)" "sem_time (upd_sem k f st) = sem_time st"
  by (simp_all add: upd_sem_def)

lemma woke_simps [simp]:
  "sema (woke c st) = sema st" "semmap (woke c st) = semmap st"
  "sem_undos (woke c st) = sem_undos st" "semu (woke c st) = semu st"
  "semunp (woke c st) = semunp st" "semfup (woke c st) = semfup st" "semv (woke c st) = semv st"
  "sem_time (woke c st) = sem_time st"
  by (simp_all add: woke_def)

lemma sv_upd: "sv (upd_sem k f st) j = (if j = k \<and> k < length (semv st) then semval (f (semv st ! k)) else sv st j)"
  by (simp add: upd_sem_def nth_upd)

lemma sv_upd_same [simp]: "(\<And>p. semval (f p) = semval p) \<Longrightarrow> sv (upd_sem k f st) j = sv st j"
  by (simp add: sv_upd)

lemma sem_wake_simps [simp]:
  "sema (wake_ncnt k st) = sema st" "semmap (wake_ncnt k st) = semmap st"
  "sem_undos (wake_ncnt k st) = sem_undos st" "semu (wake_ncnt k st) = semu st"
  "semunp (wake_ncnt k st) = semunp st" "semfup (wake_ncnt k st) = semfup st"
  "length (semv (wake_ncnt k st)) = length (semv st)" "sv (wake_ncnt k st) j = sv st j"
  "sema (wake_zcnt k st) = sema st" "semmap (wake_zcnt k st) = semmap st"
  "sem_undos (wake_zcnt k st) = sem_undos st" "semu (wake_zcnt k st) = semu st"
  "semunp (wake_zcnt k st) = semunp st" "semfup (wake_zcnt k st) = semfup st"
  "length (semv (wake_zcnt k st)) = length (semv st)" "sv (wake_zcnt k st) j = sv st j"
  by (simp_all add: wake_ncnt_def wake_zcnt_def)

definition same_undo :: "semstate \<Rightarrow> semstate \<Rightarrow> bool" where
  "same_undo st st' \<longleftrightarrow> semu st' = semu st \<and> semunp st' = semunp st \<and> semfup st' = semfup st \<and>
     sem_undos st' = sem_undos st"

lemma same_undoD:
  assumes "same_undo st st'"
  shows "undo_wf si st' = undo_wf si st" and "adj st' q s n = adj st q s n"
    and "sem_undos st' = sem_undos st"
  using assms by (simp_all add: same_undo_def undo_wf_def undo_rep_def adj_def cong: option.case_cong)

definition vals_ok :: "seminfo \<Rightarrow> semstate \<Rightarrow> bool" where
  "vals_ok si st \<longleftrightarrow> (\<forall>k < length (semv st). 0 \<le> sv st k \<and> sv st k \<le> semvmx si)"

text \<open>Same semaphore values, same entries and same pending adjustments.\<close>

definition veq :: "semstate \<Rightarrow> semstate \<Rightarrow> bool" where
  "veq st st' \<longleftrightarrow> (\<forall>k < length (semv st). sv st' k = sv st k) \<and> length (semv st') = length (semv st) \<and>
     sema st' = sema st \<and> semmap st' = semmap st \<and> (\<forall>q s n. adj st' q s n = adj st q s n)"

lemma veq_refl [simp]: "veq st st"
  by (simp add: veq_def)

lemma veq_trans: "veq a b \<Longrightarrow> veq b c \<Longrightarrow> veq a c"
  by (simp add: veq_def)

lemma veq_vals_ok: "veq st st' \<Longrightarrow> vals_ok si st' = vals_ok si st"
  by (simp add: veq_def vals_ok_def)

definition owns :: "semstate \<Rightarrow> semstate \<Rightarrow> bool" where
  "owns st st' \<longleftrightarrow> (\<forall>q. sem_undos st q \<noteq> None \<longrightarrow> sem_undos st' q = sem_undos st q)"

lemma owns_refl [simp]: "owns st st"
  by (simp add: owns_def)

lemma owns_trans: "owns a b \<Longrightarrow> owns b c \<Longrightarrow> owns a c"
  by (auto simp: owns_def)

lemma owns_none: "owns a b \<Longrightarrow> sem_undos a q \<noteq> None \<Longrightarrow> sem_undos b q \<noteq> None"
  by (auto simp: owns_def)

section \<open>One operation\<close>

definition undo_flag :: "sembuf \<Rightarrow> bool" where
  "undo_flag op \<longleftrightarrow> sem_flg op AND SEM_UNDO \<noteq> 0"

definition op_val :: "nat \<Rightarrow> sembuf \<Rightarrow> nat \<Rightarrow> int" where
  "op_val base op k = (if k = base + nat (sem_num op) then sem_op op else 0)"

definition op_adj :: "nat \<Rightarrow> int \<Rightarrow> sembuf \<Rightarrow> nat \<Rightarrow> int \<Rightarrow> int \<Rightarrow> int" where
  "op_adj p semid op q s n =
     (if undo_flag op \<and> q = p \<and> s = semid \<and> n = sem_num op then sem_op op else 0)"

definition op_ok :: "nat \<Rightarrow> nat \<Rightarrow> sembuf \<Rightarrow> bool" where
  "op_ok base len op \<longleftrightarrow> 0 \<le> sem_num op \<and> sem_num op < 32768 \<and> base + nat (sem_num op) < len \<and>
     -32768 \<le> sem_op op \<and> sem_op op \<le> 32767"

text \<open>\<open>st\<close> is \<open>st1\<close> after operation \<open>op\<close>, as far as values and adjustments go.\<close>

definition op_effect :: "seminfo \<Rightarrow> int \<Rightarrow> nat \<Rightarrow> nat \<Rightarrow> sembuf \<Rightarrow> semstate \<Rightarrow> semstate \<Rightarrow> bool" where
  "op_effect si semid base p op st1 st \<longleftrightarrow>
     (\<forall>k < length (semv st1). sv st k = sv st1 k + op_val base op k) \<and>
     length (semv st) = length (semv st1) \<and> sema st = sema st1 \<and> semmap st = semmap st1 \<and>
     (\<forall>q s n. adj st q s n = adj st1 q s n - op_adj p semid op q s n) \<and>
     (undo_flag op \<and> sem_op op \<noteq> 0 \<longrightarrow> - semaem si \<le> sem_op op \<and> sem_op op \<le> semaem si)"

lemma op_aoe_spec:
  assumes si: "si_wf si" and wf: "undo_wf si st" and op: "op_ok base len op"
    and r: "op_aoe si semid op u st = (err, u', st')"
  shows "undo_wf si st' \<and> same_sems st st' \<and> owns st st' \<and>
    (if err then (\<exists>e. e \<noteq> E_OK \<and> u' = set_error e u) \<and> (\<forall>q s n. adj st' q s n = adj st q s n)
     else u' = u \<and> (undo_flag op \<and> sem_op op \<noteq> 0 \<longrightarrow> sem_undos st' (p_index u) \<noteq> None \<and>
            - semaem si \<le> sem_op op \<and> sem_op op \<le> semaem si) \<and>
       (\<forall>q s n. adj st' q s n = adj st q s n - op_adj (p_index u) semid op q s n))"
proof (cases "undo_flag op")
  case True
  have n: "to_s16 (sem_num op) = sem_num op" using op by (simp add: op_ok_def to_s16_id)
  have "semaoe si (sem_op op) semid (sem_num op) u st = (err, u', st')"
    using r True n by (simp add: op_aoe_def undo_flag_def)
  note sp = semaoe_spec [OF si wf this]
  have "\<not> err \<Longrightarrow> sem_op op \<noteq> 0 \<Longrightarrow> - semaem si \<le> sem_op op \<and> sem_op op \<le> semaem si"
    using sp by (auto simp: aoe_fails_def)
  then show ?thesis using sp True by (auto simp: owns_def op_adj_def split: if_splits)
next
  case False
  then show ?thesis using r wf by (auto simp: op_aoe_def undo_flag_def op_adj_def)
qed

lemma same_semsD:
  "same_sems st st' \<Longrightarrow> semv st' = semv st" "same_sems st st' \<Longrightarrow> sema st' = sema st"
  "same_sems st st' \<Longrightarrow> semmap st' = semmap st" "same_sems st st' \<Longrightarrow> sem_time st' = sem_time st"
  by (simp_all add: same_sems_def)

lemma sem_do_op_spec:
  assumes si: "si_wf si" and wf: "undo_wf si st" and vals: "vals_ok si st"
    and op: "op_ok base (length (semv st)) op" and u: "u_error u = E_OK"
    and r: "sem_do_op si semid base op u st = (res, u1, st1)"
  shows "undo_wf si st1 \<and> owns st st1 \<and>
    (if res = OpOk then u1 = u \<and> vals_ok si st1 \<and> op_effect si semid base (p_index u) op st st1 \<and>
        (undo_flag op \<and> sem_op op \<noteq> 0 \<longrightarrow> sem_undos st1 (p_index u) \<noteq> None)
     else veq st st1 \<and>
       (if res = OpError then \<exists>e. e \<noteq> E_OK \<and> u1 = set_error e u
        else u1 = u \<and> st1 = st \<and>
          (res = OpWait True \<and> sv st (base + nat (sem_num op)) + sem_op op < 0 \<or>
           res = OpWait False \<and> sem_op op = 0 \<and> sv st (base + nat (sem_num op)) \<noteq> 0)))"
proof -
  define k where "k = base + nat (sem_num op)"
  have k: "k < length (semv st)" using op by (simp add: op_ok_def k_def)
  have v: "0 \<le> sv st k" "sv st k \<le> semvmx si" "semvmx si \<le> 65535"
    using vals k si by (auto simp: vals_ok_def si_wf_def)
  obtain err u' st' where a: "op_aoe si semid op u st = (err, u', st')"
    by (cases "op_aoe si semid op u st") auto
  note sp = op_aoe_spec [OF si wf op a]
  have f: "semv st' = semv st" "sema st' = sema st" "semmap st' = semmap st"
    using sp same_semsD [of st st'] by auto
  have fail: ?thesis if "err" "res = OpError" "u1 = u'" "st1 = st'"
    using that sp u f by (auto simp: veq_def)
  have ok: ?thesis
    if "\<not> err" "res = OpOk" "u1 = u'" "same_undo (upd_sem k (\<lambda>p. p\<lparr>semval := to_u16 (sv st k + sem_op op)\<rparr>) st') st1"
      "\<And>j. sv st1 j = sv (upd_sem k (\<lambda>p. p\<lparr>semval := to_u16 (sv st k + sem_op op)\<rparr>) st') j"
      "sema st1 = sema st'" "semmap st1 = semmap st'" "length (semv st1) = length (semv st')"
      "0 \<le> sv st k + sem_op op" "sv st k + sem_op op \<le> semvmx si"
  proof -
    let ?st2 = "upd_sem k (\<lambda>p. p\<lparr>semval := to_u16 (sv st k + sem_op op)\<rparr>) st'"
    have "same_undo st' ?st2" by (simp add: same_undo_def)
    then have su: "same_undo st' st1" using that(4) by (simp add: same_undo_def)
    note d = same_undoD [OF su]
    have svs: "sv st1 j = sv st j + op_val base op j" for j
      using that(5,9,10) v(3) k by (simp add: sv_upd f op_val_def k_def [symmetric] to_u16_id)
    have "vals_ok si st1"
      using vals that(8,9,10) f svs by (auto simp: vals_ok_def op_val_def k_def)
    then show ?thesis
      using that sp svs f d by (auto simp: op_effect_def owns_def)
  qed
  show ?thesis
  proof (cases "sem_op op > 0")
    case True
    show ?thesis
    proof (cases "sem_op op + sv st k > semvmx si")
      case over: True
      then show ?thesis using r True wf u by (auto simp: sem_do_op_def Let_def k_def)
    next
      case inr: False
      show ?thesis
      proof (cases err)
        case e: True
        then have "u_error u' \<noteq> E_OK" using sp u by auto
        then show ?thesis
          using r True inr a e by (intro fail) (auto simp: sem_do_op_def Let_def k_def)
      next
        case ne: False
        have st1: "res = OpOk" "u1 = u'"
          "st1 = wake_ncnt k (upd_sem k (\<lambda>p. p\<lparr>semval := to_u16 (sv st k + sem_op op)\<rparr>) st')"
          using r True inr a ne by (auto simp: sem_do_op_def Let_def k_def)
        show ?thesis
          by (rule ok) (use st1 ne True inr v in \<open>simp_all add: same_undo_def\<close>)
      qed
    qed
  next
    case np: False
    show ?thesis
    proof (cases "sem_op op < 0")
      case True
      show ?thesis
      proof (cases "sv st k \<ge> - sem_op op")
        case ge: True
        show ?thesis
        proof (cases err)
          case e: True
          then show ?thesis
            using r True ge a np by (intro fail) (auto simp: sem_do_op_def Let_def k_def)
        next
          case ne: False
          let ?st2 = "upd_sem k (\<lambda>p. p\<lparr>semval := to_u16 (sv st k + sem_op op)\<rparr>) st'"
          have st1: "res = OpOk" "u1 = u'" "st1 = (if sv ?st2 k = 0 then wake_zcnt k ?st2 else ?st2)"
            using r True ge a ne np by (auto simp: sem_do_op_def Let_def k_def)
          show ?thesis
            by (rule ok) (use st1 ne True ge v in \<open>simp_all add: same_undo_def\<close>)
        qed
      next
        case lt: False
        then show ?thesis using r True np wf by (auto simp: sem_do_op_def Let_def k_def)
      qed
    next
      case False
      then have "sem_op op = 0" using np by simp
      then show ?thesis
        using r wf vals by (auto simp: sem_do_op_def Let_def k_def op_effect_def op_val_def op_adj_def
            split: if_splits)
    qed
  qed
qed

section \<open>Taking operations back\<close>

text \<open>\<open>st\<close> is \<open>st0\<close> after the operations \<open>done\<close>, latest first.\<close>

fun applied :: "seminfo \<Rightarrow> int \<Rightarrow> nat \<Rightarrow> nat \<Rightarrow> sembuf list \<Rightarrow> semstate \<Rightarrow> semstate \<Rightarrow> bool" where
  "applied si semid base p [] st0 st \<longleftrightarrow> veq st0 st"
| "applied si semid base p (op # done) st0 st \<longleftrightarrow>
     (\<exists>st1. applied si semid base p done st0 st1 \<and> undo_wf si st1 \<and> vals_ok si st1 \<and>
        op_effect si semid base p op st1 st)"

lemma op_effect_veq: "op_effect si semid base p op st1 st \<Longrightarrow> veq st st' \<Longrightarrow> op_effect si semid base p op st1 st'"
  by (simp add: op_effect_def veq_def)

lemma applied_veq: "applied si semid base p done st0 st \<Longrightarrow> veq st st' \<Longrightarrow> applied si semid base p done st0 st'"
  by (cases "done") (auto intro: veq_trans op_effect_veq)

lemma applied_frame:
  "applied si semid base p done st0 st \<Longrightarrow>
   length (semv st) = length (semv st0) \<and> sema st = sema st0 \<and> semmap st = semmap st0"
  by (induction "done" arbitrary: st) (auto simp: veq_def op_effect_def)

lemma applied_vals:
  "applied si semid base p done st0 st \<Longrightarrow>
   (\<forall>k < length (semv st0). sv st k = sv st0 k + (\<Sum>op \<leftarrow> done. op_val base op k)) \<and>
   (\<forall>q s n. adj st q s n = adj st0 q s n - (\<Sum>op \<leftarrow> done. op_adj p semid op q s n))"
proof (induction "done" arbitrary: st)
  case (Cons op "done")
  then obtain st1 where "applied si semid base p done st0 st1" "op_effect si semid base p op st1 st" by auto
  then show ?case using Cons.IH applied_frame by (fastforce simp: op_effect_def)
qed (simp add: veq_def)

lemma semundo_spec:
  assumes si: "si_wf si" and "undo_wf si st" and "applied si semid base p done st0 st"
    and "p = p_index u" and "\<forall>op \<in> set done. op_ok base (length (semv st0)) op"
    and "\<exists>op \<in> set done. undo_flag op \<and> sem_op op \<noteq> 0 \<Longrightarrow> sem_undos st p \<noteq> None"
  shows "\<exists>st'. semundo si semid base done u st = (u, st') \<and> veq st0 st' \<and> undo_wf si st' \<and> owns st st'"
  using assms(2-)
proof (induction "done" arbitrary: st)
  case Nil
  then show ?case by simp
next
  case (Cons op "done")
  obtain st1 where st1: "applied si semid base p done st0 st1" "undo_wf si st1" "vals_ok si st1"
    and eff: "op_effect si semid base p op st1 st"
    using Cons.prems(2) by auto
  have op: "op_ok base (length (semv st1)) op"
    using Cons.prems(4) applied_frame [OF st1(1)] by simp
  have cont: ?case
    if s2: "semundo si semid base (op # done) u st = semundo si semid base done u st2"
      and v2: "veq st1 st2" and w2: "undo_wf si st2" "owns st st2" for st2
  proof -
    have "applied si semid base p done st0 st2" using applied_veq [OF st1(1) v2] .
    moreover have "sem_undos st2 p \<noteq> None" if "\<exists>op \<in> set done. undo_flag op \<and> sem_op op \<noteq> 0"
      using Cons.prems(5) that owns_none [OF w2(2)] by auto
    ultimately obtain st' where "semundo si semid base done u st2 = (u, st')" "veq st0 st'" "undo_wf si st'"
      "owns st2 st'"
      using Cons.IH [OF w2(1)] Cons.prems(3,4) by auto
    then show ?thesis using s2 owns_trans [OF w2(2)] by auto
  qed
  show ?case
  proof (cases "sem_op op = 0")
    case True
    have "veq st1 st" using eff True by (auto simp: veq_def op_effect_def op_val_def op_adj_def)
    then show ?thesis using Cons.prems(1) True by (intro cont [of st]) simp_all
  next
    case nz: False
    define k where "k = base + nat (sem_num op)"
    define st2 where "st2 = upd_sem k (\<lambda>p. p\<lparr>semval := to_u16 (semval p - sem_op op)\<rparr>) st"
    have su: "same_undo st st2" by (simp add: st2_def same_undo_def)
    note d = same_undoD [OF su]
    have sv2: "sv st2 j = sv st1 j" if "j < length (semv st1)" for j
    proof -
      have "0 \<le> sv st1 j" "sv st1 j \<le> 65535"
        using st1(3) that si unfolding vals_ok_def si_wf_def by force+
      then show ?thesis
        using eff that by (auto simp: st2_def sv_upd op_effect_def op_val_def k_def to_u16_id)
    qed
    have f2: "sema st2 = sema st1" "semmap st2 = semmap st1" "length (semv st2) = length (semv st1)"
      using eff by (simp_all add: st2_def op_effect_def)
    show ?thesis
    proof (cases "undo_flag op")
      case True
      have own: "sem_undos st2 p \<noteq> None" using Cons.prems(5) True nz d(3) by auto
      have bound: "- semaem si \<le> sem_op op" "sem_op op \<le> semaem si" "semaem si \<le> 32767"
        using eff True nz si by (auto simp: op_effect_def si_wf_def)
      have n16: "to_s16 (sem_num op) = sem_num op" "to_s16 (- sem_op op) = - sem_op op"
        using op bound by (simp_all add: op_ok_def to_s16_id)
      have ad: "adj st2 q s n = (if q = p_index u \<and> s = semid \<and> n = sem_num op
          then adj st1 q s n - sem_op op else adj st1 q s n)" for q s n
        using eff True Cons.prems(3) d(2) by (simp add: op_effect_def op_adj_def)
      obtain st3 where st3: "semaoe si (- sem_op op) semid (sem_num op) u st2 = (False, u, st3)"
        "undo_wf si st3" "same_sems st2 st3" "owns st2 st3" "\<And>q s n. adj st3 q s n = adj st1 q s n"
        using semaoe_undoes [OF si st1(2) _ _ bound(1,2) ad] Cons.prems(1,3) own d(1)
        by (auto simp: owns_def)
      have "veq st1 st3"
        using sv2 f2 st3(5) same_semsD [OF st3(3)] by (simp add: veq_def)
      moreover have "owns st st3" using st3(4) d(3) by (simp add: owns_def)
      ultimately show ?thesis
        using nz True st3 n16
        by (intro cont [of st3]) (simp_all add: Let_def undo_flag_def st2_def k_def)
    next
      case False
      have "veq st1 st2" using sv2 f2 d(2) eff False by (auto simp: veq_def op_effect_def op_adj_def)
      moreover have "owns st st2" using d(3) by (simp add: owns_def)
      ultimately show ?thesis
        using nz False Cons.prems(1) d(1)
        by (intro cont [of st2]) (simp_all add: Let_def undo_flag_def st2_def k_def)
    qed
  qed
qed

lemma semop_pass_spec:
  assumes si: "si_wf si" and "undo_wf si st" and "vals_ok si st" and u: "u_error u = E_OK"
    and "applied si semid base (p_index u) done st0 st"
    and "\<forall>op \<in> set (done @ ops). op_ok base (length (semv st0)) op"
    and "\<exists>op \<in> set done. undo_flag op \<and> sem_op op \<noteq> 0 \<Longrightarrow> sem_undos st (p_index u) \<noteq> None"
    and "semop_pass si semid base done ops u st = (res, u', st')"
  shows "undo_wf si st' \<and>
    (if res = PassDone then u' = u \<and> vals_ok si st' \<and> applied si semid base (p_index u) (rev ops @ done) st0 st'
     else veq st0 st' \<and>
       (if res = PassError then \<exists>e. e \<noteq> E_OK \<and> u' = set_error e u
        else u' = u \<and> (\<exists>n op. res = PassWait n op \<and> op \<in> set ops)))"
  using assms(2,3,5-)
proof (induction ops arbitrary: "done" st)
  case Nil
  then show ?case by auto
next
  case (Cons op ops)
  obtain r u1 st1 where d: "sem_do_op si semid base op u st = (r, u1, st1)"
    by (cases "sem_do_op si semid base op u st") auto
  have len: "length (semv st) = length (semv st0)" using applied_frame [OF Cons.prems(3)] by simp
  have op: "op_ok base (length (semv st)) op" using Cons.prems(4) len by simp
  note sp = sem_do_op_spec [OF si Cons.prems(1,2) op u d]
  show ?case
  proof (cases "r = OpOk")
    case True
    then have st1: "u1 = u" "undo_wf si st1" "vals_ok si st1" "owns st st1"
      "op_effect si semid base (p_index u) op st st1"
      "undo_flag op \<and> sem_op op \<noteq> 0 \<longrightarrow> sem_undos st1 (p_index u) \<noteq> None"
      using sp by auto
    have ap: "applied si semid base (p_index u) (op # done) st0 st1" using Cons.prems(1-3) st1(5) by auto
    have own: "sem_undos st1 (p_index u) \<noteq> None"
      if "\<exists>op' \<in> set (op # done). undo_flag op' \<and> sem_op op' \<noteq> 0"
      using that st1(6) Cons.prems(5) owns_none [OF st1(4)] by auto
    have "semop_pass si semid base (op # done) ops u st1 = (res, u', st')"
      using Cons.prems(6) d True st1(1) by simp
    from Cons.IH [OF st1(2,3) ap _ own this] show ?thesis using Cons.prems(4) by auto
  next
    case False
    have v1: "veq st st1" "undo_wf si st1" "owns st st1" using sp False by auto
    have ap: "applied si semid base (p_index u) done st0 st1" using applied_veq [OF Cons.prems(3) v1(1)] .
    have pi: "p_index u1 = p_index u" using sp False by (auto split: if_splits)
    have own: "sem_undos st1 (p_index u) \<noteq> None" if "\<exists>op' \<in> set done. undo_flag op' \<and> sem_op op' \<noteq> 0"
      using that Cons.prems(5) owns_none [OF v1(3)] by auto
    have "\<forall>op \<in> set done. op_ok base (length (semv st0)) op" using Cons.prems(4) by simp
    then obtain st2 where st2: "semundo si semid base done u1 st1 = (u1, st2)" "veq st0 st2" "undo_wf si st2"
      using semundo_spec [OF si v1(2) ap, of u1] pi own by auto
    show ?thesis
    proof (cases r)
      case OpError
      then show ?thesis using sp Cons.prems(6) d st2 by auto
    next
      case (OpWait n)
      then show ?thesis using sp Cons.prems(6) d st2 by auto
    qed (use False in simp)
  qed
qed

section \<open>The facility invariant\<close>

interpretation semid: id_table "\<lambda>st s. fst (semconv si s u st)" "\<lambda>st i. sem_perm (sema st ! i)" "semmni si"
  by unfold_locales (auto simp: semconv_def Let_def)

lemma semconv_snd: "fst (semconv si s u st) = Some i \<Longrightarrow> semconv si s u st = (Some i, u)"
  by (auto simp: semconv_def Let_def split: if_splits)

lemma semconv_indep: "fst (semconv si s u st) = fst (semconv si s u' st)"
  by (simp add: semconv_def Let_def)

definition set_units :: "semstate \<Rightarrow> nat \<Rightarrow> nat set" where
  "set_units st i = {Suc (sem_base (sema st ! i))..<Suc (sem_base (sema st ! i)) + nat (sem_nsems (sema st ! i))}"

definition live :: "semstate \<Rightarrow> nat \<Rightarrow> bool" where
  "live st i \<longleftrightarrow> i < length (sema st) \<and> allocated (sem_perm (sema st ! i))"

text \<open>
  The semaphores of the live sets are disjoint, none is in the free map, and identifiers
  and keys are in order.
\<close>

definition sets_wf :: "seminfo \<Rightarrow> semstate \<Rightarrow> bool" where
  "sets_wf si st \<longleftrightarrow>
     length (sema st) = nat (semmni si) \<and> length (semv st) = nat (semmns si) \<and>
     imap_wf (semmap st) \<and> units (imap_segs (semmap st)) \<subseteq> {1..nat (semmns si)} \<and>
     (\<forall>i. live st i \<longrightarrow> 0 < sem_nsems (sema st ! i) \<and> sem_nsems (sema st ! i) \<le> semmsl si \<and>
        set_units st i \<subseteq> {1..nat (semmns si)} \<and> set_units st i \<inter> units (imap_segs (semmap st)) = {}) \<and>
     (\<forall>i j. live st i \<longrightarrow> live st j \<longrightarrow> i \<noteq> j \<longrightarrow> set_units st i \<inter> set_units st j = {}) \<and>
     (\<forall>i < length (sema st). 0 \<le> ip_seq (sem_perm (sema st ! i)) \<and> ip_seq (sem_perm (sema st ! i)) < 65536) \<and>
     keys_unique (map sem_perm (sema st))"

text \<open>A pending adjustment names a semaphore of a live set.\<close>

definition adj_ok :: "seminfo \<Rightarrow> semstate \<Rightarrow> bool" where
  "adj_ok si st \<longleftrightarrow> (\<forall>q s n u. adj st q s n \<noteq> 0 \<longrightarrow>
     (\<exists>i. fst (semconv si s u st) = Some i \<and> 0 \<le> n \<and> n < sem_nsems (sema st ! i)))"

definition sem_inv :: "seminfo \<Rightarrow> semstate \<Rightarrow> bool" where
  "sem_inv si st \<longleftrightarrow> undo_wf si st \<and> vals_ok si st \<and> sets_wf si st \<and> adj_ok si st"

lemma semconv_live:
  assumes "si_wf si" and "sets_wf si st" and "fst (semconv si s u st) = Some i"
  shows "live st i" and "i < length (sema st)"
proof -
  have "int i < semmni si" using semid.conv_bound [OF _ assms(3)] assms(1) by (simp add: si_wf_def)
  then show "i < length (sema st)" using assms(2) by (simp add: sets_wf_def)
  then show "live st i" using assms(3) by (auto simp: live_def semid.conv_iff)
qed

text \<open>A semaphore of a live set is inside the array, and belongs to one set only.\<close>

lemma live_index:
  assumes "si_wf si" and "sets_wf si st" and "live st i" and "0 \<le> n" and "n < sem_nsems (sema st ! i)"
  shows "sem_base (sema st ! i) + nat n < length (semv st)"
proof -
  have "set_units st i \<subseteq> {1..nat (semmns si)}" using assms(2,3) by (simp add: sets_wf_def)
  moreover have "Suc (sem_base (sema st ! i)) + nat n \<in> set_units st i"
    using assms(4,5) by (simp add: set_units_def)
  ultimately have "Suc (sem_base (sema st ! i)) + nat n \<in> {1..nat (semmns si)}" by blast
  then show ?thesis using assms(2) by (simp add: sets_wf_def)
qed

lemma live_index_inj:
  assumes "si_wf si" and "sets_wf si st" and "live st i" and "0 \<le> n" and "n < sem_nsems (sema st ! i)"
    and "live st j" and "0 \<le> m" and "m < sem_nsems (sema st ! j)"
    and "sem_base (sema st ! i) + nat n = sem_base (sema st ! j) + nat m"
  shows "i = j \<and> n = m"
proof (cases "i = j")
  case False
  then have "set_units st i \<inter> set_units st j = {}" using assms(2,3,6) by (simp add: sets_wf_def)
  moreover have "Suc (sem_base (sema st ! i)) + nat n \<in> set_units st i"
    "Suc (sem_base (sema st ! j)) + nat m \<in> set_units st j"
    using assms by (simp_all add: set_units_def)
  ultimately show ?thesis using assms(9) by auto
qed (use assms in simp)

text \<open>Changes that keep the shape of the sets keep \<open>sets_wf\<close>.\<close>

definition same_shape :: "semid_ds \<Rightarrow> semid_ds \<Rightarrow> bool" where
  "same_shape a b \<longleftrightarrow> sem_base b = sem_base a \<and> sem_nsems b = sem_nsems a \<and>
     allocated (sem_perm b) = allocated (sem_perm a) \<and> ip_seq (sem_perm b) = ip_seq (sem_perm a) \<and>
     ip_key (sem_perm b) = ip_key (sem_perm a)"

lemma same_shape_refl [simp]: "same_shape a a"
  by (simp add: same_shape_def)

lemma sets_wf_shape:
  assumes "sets_wf si st" and len: "length (sema st') = length (sema st)" "length (semv st') = length (semv st)"
    and "semmap st' = semmap st"
    and sh: "\<And>i. i < length (sema st) \<Longrightarrow> same_shape (sema st ! i) (sema st' ! i)"
  shows "sets_wf si st'" and "fst (semconv si s u st) = Some i \<Longrightarrow> i < length (sema st) \<Longrightarrow>
     fst (semconv si s u st') = Some i \<and> sem_nsems (sema st' ! i) = sem_nsems (sema st ! i)"
proof -
  have live: "live st' i \<longleftrightarrow> live st i" for i using sh len by (auto simp: live_def same_shape_def)
  have units: "live st i \<Longrightarrow> set_units st' i = set_units st i \<and>
      sem_nsems (sema st' ! i) = sem_nsems (sema st ! i)" for i
    using sh by (auto simp: live_def same_shape_def set_units_def)
  have keys: "keys_unique (map sem_perm (sema st'))"
    using assms(1) sh unfolding sets_wf_def keys_unique_def same_shape_def by (simp add: len)
  have seq: "\<forall>i < length (sema st'). 0 \<le> ip_seq (sem_perm (sema st' ! i)) \<and> ip_seq (sem_perm (sema st' ! i)) < 65536"
    using assms(1) sh by (simp add: sets_wf_def same_shape_def len)
  show "sets_wf si st'"
    using assms(1) keys seq unfolding sets_wf_def len live assms(4)
    by (auto simp: units simp del: Int_atLeastLessThan)
  show "fst (semconv si s u st) = Some i \<Longrightarrow> i < length (sema st) \<Longrightarrow>
     fst (semconv si s u st') = Some i \<and> sem_nsems (sema st' ! i) = sem_nsems (sema st ! i)"
    using sh [of i] by (auto simp: semid.conv_iff same_shape_def)
qed

section \<open>Routines that only touch the semaphores\<close>

definition only_sems :: "semstate \<Rightarrow> semstate \<Rightarrow> bool" where
  "only_sems st st' \<longleftrightarrow> sema st' = sema st \<and> semmap st' = semmap st \<and> same_undo st st' \<and>
     length (semv st') = length (semv st)"

lemma only_sems_refl [simp]: "only_sems st st"
  by (simp add: only_sems_def same_undo_def)

lemma only_sems_trans [trans]: "only_sems a b \<Longrightarrow> only_sems b c \<Longrightarrow> only_sems a c"
  by (simp add: only_sems_def same_undo_def)

lemma only_sems_basic [simp]:
  "only_sems st (upd_sem k f st')  = only_sems st st'" "only_sems st (woke c st') = only_sems st st'"
  "only_sems st (wake_ncnt k st') = only_sems st st'" "only_sems st (wake_zcnt k st') = only_sems st st'"
  by (simp_all add: only_sems_def same_undo_def)

lemma only_sems_store [simp]: "only_sems st (sem_store k v st') = only_sems st st'"
  by (simp add: sem_store_def Let_def)

lemma sv_store [simp]: "sv (sem_store k v st) j = (if j = k \<and> k < length (semv st) then v else sv st j)"
  by (simp add: sem_store_def Let_def sv_upd)

lemma len_store [simp]: "length (semv (sem_store k v st)) = length (semv st)"
  by (simp add: sem_store_def Let_def)

lemma only_sems_loops:
  "only_sems st (rmid_reset k n st)" "only_sems st (setall_loop pid k vs st)"
  "only_sems st (set_pids pid base ops st)" "only_sems st (bzero_sems k n st)"
proof -
  show "only_sems st (rmid_reset k n st)"
    by (induction k n st rule: rmid_reset.induct) (auto intro: only_sems_trans [rotated])
  show "only_sems st (setall_loop pid k vs st)"
    by (induction pid k vs st rule: setall_loop.induct) (auto intro: only_sems_trans [rotated])
  show "only_sems st (set_pids pid base ops st)"
    by (induction pid base ops st rule: set_pids.induct) (auto intro: only_sems_trans [rotated])
  show "only_sems st (bzero_sems k n st)"
    by (induction k n st rule: bzero_sems.induct) (auto intro: only_sems_trans [rotated])
qed

lemma len_loops [simp]:
  "length (semv (rmid_reset k n st)) = length (semv st)"
  "length (semv (setall_loop pid k vs st)) = length (semv st)"
  "length (semv (set_pids pid base ops st)) = length (semv st)"
  "length (semv (bzero_sems k n st)) = length (semv st)"
  using only_sems_loops by (auto simp: only_sems_def)

lemma sv_rmid_reset:
  "sv (rmid_reset k n st) j = (if k \<le> j \<and> j < k + n \<and> j < length (semv st) then 0 else sv st j)"
  by (induction k n st rule: rmid_reset.induct) (auto simp: sv_upd)

lemma sv_bzero:
  "sv (bzero_sems k n st) j = (if k \<le> j \<and> j < k + n \<and> j < length (semv st) then 0 else sv st j)"
  by (induction k n st rule: bzero_sems.induct) (auto simp: sv_upd zero_sem_def)

lemma sv_setall:
  "sv (setall_loop pid k vs st) j =
     (if k \<le> j \<and> j < k + length vs \<and> j < length (semv st) then vs ! (j - k) else sv st j)"
proof (induction pid k vs st rule: setall_loop.induct)
  case (2 pid k v vs st)
  show ?case
  proof (cases "k < j")
    case True
    then have "j - k = Suc (j - Suc k)" by simp
    then show ?thesis unfolding setall_loop.simps 2 using True by (auto simp: sv_upd)
  next
    case False
    then show ?thesis unfolding setall_loop.simps 2 by (auto simp: sv_upd)
  qed
qed simp

lemma sv_set_pids [simp]: "sv (set_pids pid base ops st) j = sv st j"
  by (induction pid base ops st rule: set_pids.induct) (auto simp: sv_upd)

lemma wait_frame:
  "only_sems st (begin_wait n k st)" "only_sems st (end_wait n k st)"
  "sv (begin_wait n k st) j = sv st j" "sv (end_wait n k st) j = sv st j"
  by (simp_all add: begin_wait_def end_wait_def sv_upd)

text \<open>The invariant after a change of values, shapes and adjustments.\<close>

lemma sem_inv_change:
  assumes si: "si_wf si" and inv: "sem_inv si st"
    and undo: "undo_wf si st'" and vals: "vals_ok si st'"
    and len: "length (sema st') = length (sema st)" "length (semv st') = length (semv st)"
    and map: "semmap st' = semmap st"
    and sh: "\<And>i. i < length (sema st) \<Longrightarrow> same_shape (sema st ! i) (sema st' ! i)"
    and adj: "\<And>q s n u. adj st' q s n \<noteq> 0 \<Longrightarrow> adj st q s n \<noteq> 0 \<or>
      (\<exists>i. fst (semconv si s u st) = Some i \<and> 0 \<le> n \<and> n < sem_nsems (sema st ! i))"
  shows "sem_inv si st'"
proof -
  have sets: "sets_wf si st" and ao: "adj_ok si st" using inv by (simp_all add: sem_inv_def)
  note sh' = sets_wf_shape [OF sets len map sh]
  have "adj_ok si st'"
    unfolding adj_ok_def
  proof (intro allI impI)
    fix q s n u
    assume "adj st' q s n \<noteq> 0"
    then obtain i where i: "fst (semconv si s u st) = Some i" "0 \<le> n" "n < sem_nsems (sema st ! i)"
      using adj [of q s n u] ao unfolding adj_ok_def by blast
    then show "\<exists>i. fst (semconv si s u st') = Some i \<and> 0 \<le> n \<and> n < sem_nsems (sema st' ! i)"
      using sh'(2) [OF _ i(1) semconv_live(2) [OF si sets i(1)]] by auto
  qed
  then show ?thesis using sh'(1) undo vals by (simp add: sem_inv_def)
qed

lemma sem_inv_only:
  assumes "si_wf si" and "sem_inv si st" and "only_sems st st'" and "vals_ok si st'"
  shows "sem_inv si st'"
proof (rule sem_inv_change [OF assms(1,2) _ assms(4)])
  show "undo_wf si st'" using assms(2,3) same_undoD(1) by (auto simp: sem_inv_def only_sems_def)
  show "adj st q s n \<noteq> 0 \<or>
      (\<exists>i. fst (semconv si s u st) = Some i \<and> 0 \<le> n \<and> n < sem_nsems (sema st ! i))" if "adj st' q s n \<noteq> 0" for q s n u
    using that assms(3) same_undoD(2) by (metis only_sems_def)
qed (use assms(3) in \<open>simp_all add: only_sems_def\<close>)

lemma sem_inv_unrm:
  assumes "si_wf si" and "sem_inv si st"
  shows "sem_inv si (semunrm sid low high st)"
proof -
  have "undo_wf si st" using assms(2) by (simp add: sem_inv_def)
  note u = semunrm_spec [OF this, of sid low high]
  have f: "semv (semunrm sid low high st) = semv st" "sema (semunrm sid low high st) = sema st"
    "semmap (semunrm sid low high st) = semmap st"
    using u same_semsD by blast+
  show ?thesis
  proof (rule sem_inv_change [OF assms])
    show "vals_ok si (semunrm sid low high st)" using assms(2) f by (simp add: sem_inv_def vals_ok_def)
    show "adj st q s n \<noteq> 0 \<or>
      (\<exists>i. fst (semconv si s u st) = Some i \<and> 0 \<le> n \<and> n < sem_nsems (sema st ! i))" if "adj (semunrm sid low high st) q s n \<noteq> 0" for q s n u
      using that u by (auto split: if_splits)
  qed (use u f in simp_all)
qed

lemma sem_setval_inv:
  assumes si: "si_wf si" and inv: "sem_inv si st"
    and r: "sem_setval si semid i semnum arg u st = (u', st')"
  shows "sem_inv si st'"
proof -
  have v: "0 \<le> to_u16 arg \<and> to_u16 arg \<le> semvmx si" if "to_u32 arg \<le> semvmx si"
  proof -
    have "to_u16 arg = to_u16 (to_u32 arg)" by (simp add: to_u16_def to_u32_def mod_mod_cancel)
    moreover have "to_u16 (to_u32 arg) = to_u32 arg"
      using that si by (intro to_u16_id) (simp_all add: si_wf_def to_u32_def)
    ultimately show ?thesis using that by (simp add: to_u32_def)
  qed
  have st: "sem_inv si (upd_sem k (\<lambda>p. p\<lparr>sempid := pid\<rparr>) (sem_store k (to_u16 arg) st))"
    if "to_u32 arg \<le> semvmx si" for k pid
    using v [OF that] inv
    by (intro sem_inv_only [OF si inv]) (auto simp: vals_ok_def sem_inv_def)
  show ?thesis
    using r inv sem_inv_unrm [OF si st]
    by (auto simp: sem_setval_def Let_def not_less split: prod.splits bool.splits if_splits)
qed

lemma sem_setall_inv:
  assumes si: "si_wf si" and inv: "sem_inv si st"
    and io: "\<And>n s. fst (in_vals mem n s) = s"
    and vals: "\<And>n s s' vs. in_vals mem n s = (s', Some vs) \<Longrightarrow> \<forall>v \<in> set vs. 0 \<le> v"
    and r: "sem_setall si semid i mem u st = (u', st')"
  shows "sem_inv si st'"
proof -
  obtain vo where vo: "in_vals mem (nat (sem_nsems (sema st ! i))) st = (st, vo)"
    using io [of "nat (sem_nsems (sema st ! i))" st] by (metis prod.collapse)
  have go: "sem_inv si (setall_loop pid b vs (semunrm semid 0 h st))"
    if "vo = Some vs" "\<not> (\<exists>v \<in> set vs. v > semvmx si)" for pid b vs h
  proof (rule sem_inv_only [OF si sem_inv_unrm [OF si inv] only_sems_loops(2)])
    have "0 \<le> v \<and> v \<le> semvmx si" if "v \<in> set vs" for v
      using vals vo \<open>vo = Some vs\<close> \<open>\<not> _\<close> that by force
    moreover have "vals_ok si (semunrm semid 0 h st)"
      using sem_inv_unrm [OF si inv] by (simp add: sem_inv_def)
    ultimately show "vals_ok si (setall_loop pid b vs (semunrm semid 0 h st))"
      by (auto simp: vals_ok_def sv_setall)
  qed
  show ?thesis
    using r inv go vo
    by (auto simp: sem_setall_def Let_def split: prod.splits bool.splits if_splits option.splits)
qed

lemma sem_set_inv:
  assumes si: "si_wf si" and inv: "sem_inv si st" and io: "\<And>s. fst (in_ds mem s) = s"
    and i: "fst (semconv si semid u st) = Some i"
    and r: "sem_set si semid i mem u st = (u', st')"
  shows "sem_inv si st'"
proof -
  obtain vo where vo: "in_ds mem st = (st, vo)"
    using io [of st] by (metis prod.collapse)
  have sets: "sets_wf si st" using inv by (simp add: sem_inv_def)
  have a: "allocated (sem_perm (sema st ! i))" using i by (auto simp: semid.conv_iff)
  have go: "sem_inv si (st\<lparr>sema := (sema st)[i := (sema st ! i)\<lparr>sem_perm := (sem_perm (sema st ! i))\<lparr>
        ip_uid := uid, ip_gid := gid, ip_mode := (mode AND 0x1FF) OR IPC_ALLOC\<rparr>, sem_ctime := t\<rparr>]\<rparr>)"
    for uid gid t and mode :: "16 word"
  proof -
    let ?sp = "(sema st ! i)\<lparr>sem_perm := (sem_perm (sema st ! i))\<lparr>
        ip_uid := uid, ip_gid := gid, ip_mode := (mode AND 0x1FF) OR IPC_ALLOC\<rparr>, sem_ctime := t\<rparr>"
    let ?st = "st\<lparr>sema := (sema st)[i := ?sp]\<rparr>"
    have su: "same_undo st ?st" by (simp add: same_undo_def)
    have "same_shape (sema st ! i) ?sp" using a by (simp add: same_shape_def mode_bits bit_simps)
    then have sh: "same_shape (sema st ! j) (sema ?st ! j)" for j by (auto simp: nth_upd)
    show ?thesis
      by (rule sem_inv_change [OF si inv _ _ _ _ _ sh])
        (use inv same_undoD [OF su] in \<open>simp_all add: sem_inv_def vals_ok_def\<close>)
  qed
  show ?thesis
    using r inv go vo i
    by (auto simp: sem_set_def Let_def split: prod.splits bool.splits if_splits option.splits)
qed

text \<open>Removing a set: its units return to the map or are lost, the entry is free.\<close>

lemma remove_inv:
  assumes si: "si_wf si" and inv: "sem_inv si st" and live: "live st i"
    and free: "(\<exists>w. ipcmfree (semmap st) (sem_nsems (sema st ! i)) (int (sem_base (sema st ! i)) + 1) = Ret (mp, w))"
    and perm: "\<not> allocated p" "0 \<le> ip_seq p" "ip_seq p < 65536"
    and noadj: "\<And>q s n u. adj st q s n \<noteq> 0 \<Longrightarrow> fst (semconv si s u st) \<noteq> Some i"
  defines "st' \<equiv> st\<lparr>semmap := mp, sema := (sema st)[i := (sema st ! i)\<lparr>sem_perm := p\<rparr>]\<rparr>"
  shows "sem_inv si st'"
proof -
  have sets: "sets_wf si st" and ao: "adj_ok si st" using inv by (simp_all add: sem_inv_def)
  define a n where "a = Suc (sem_base (sema st ! i))" and "n = nat (sem_nsems (sema st ! i))"
  have i: "i < length (sema st)" and n: "0 < n" "sem_nsems (sema st ! i) = int n"
    using live sets by (auto simp: live_def sets_wf_def n_def)
  have su: "set_units st i = {a..<a + n}" by (simp add: set_units_def a_def n_def)
  have rng: "{a..<a + n} \<subseteq> {1..nat (semmns si)}" and gone: "{a..<a + n} \<inter> units (imap_segs (semmap st)) = {}"
    and mwf: "imap_wf (semmap st)"
    using sets live by (simp_all add: sets_wf_def su [symmetric])
  have "a + n - 1 \<in> {a..<a + n}" using n(1) by simp
  then have "a + n - 1 \<in> {1..nat (semmns si)}" using rng by blast
  moreover have "nat (semmns si) < 32768" using si unfolding si_wf_def by linarith
  ultimately have lim: "a + n < map_lim" "0 < a" by (simp_all add: a_def)
  have fr: "\<exists>w. ipcmfree (semmap st) (int n) (int a) = Ret (mp, w)" using free n(2) by (simp add: a_def add.commute)
  have mp: "imap_wf mp" "units (imap_segs mp) \<subseteq> units (imap_segs (semmap st)) \<union> {a..<a + n}"
  proof -
    obtain w where w: "ipcmfree (semmap st) (int n) (int a) = Ret (mp, w)" using fr by blast
    have "imap_wf mp \<and> units (imap_segs mp) \<subseteq> units (imap_segs (semmap st)) \<union> {a..<a + n}"
      using ipcmfree_effect [OF mwf n(1) lim(2,1) gone]
    proof (elim disjE exE conjE)
      assume "ipcmfree (semmap st) (int n) (int a) =
        Ret ((semmap st)\<lparr>im_lost := im_lost (semmap st) @ [(int n, int a)]\<rparr>, False)"
      then have "mp = (semmap st)\<lparr>im_lost := im_lost (semmap st) @ [(int n, int a)]\<rparr>" using w by simp
      then have "imap_segs mp = imap_segs (semmap st)" "imap_wf mp = imap_wf (semmap st)"
        by (simp_all add: imap_segs_def imap_wf_def)
      then show ?thesis using mwf by simp
    next
      fix mp'
      assume "ipcmfree (semmap st) (int n) (int a) = Ret (mp', ipcmapwant (semmap st) \<noteq> 0)" "imap_wf mp'"
        "units (imap_segs mp') = units (imap_segs (semmap st)) \<union> {a..<a + n}"
      then show ?thesis using w by simp
    qed
    then show "imap_wf mp" "units (imap_segs mp) \<subseteq> units (imap_segs (semmap st)) \<union> {a..<a + n}" by simp_all
  qed
  have live': "live st' j \<longleftrightarrow> live st j \<and> j \<noteq> i" for j
    using perm i by (auto simp: live_def st'_def nth_list_update)
  have same: "set_units st' j = set_units st j" "sem_nsems (sema st' ! j) = sem_nsems (sema st ! j)" for j
    by (simp_all add: st'_def set_units_def nth_upd)
  have dis: "set_units st j \<inter> units (imap_segs mp) = {}" if "live st j" "j \<noteq> i" for j
  proof -
    have "set_units st j \<inter> units (imap_segs (semmap st)) = {}" "set_units st j \<inter> set_units st i = {}"
      using sets live that by (simp_all add: sets_wf_def)
    then show ?thesis using mp(2) su by blast
  qed
  have keys: "keys_unique (map sem_perm (sema st'))"
  proof -
    have "map sem_perm (sema st') = (map sem_perm (sema st))[i := p]" by (simp add: st'_def map_update)
    moreover have "keys_unique ((map sem_perm (sema st))[i := p])"
      using sets perm(1) by (intro keys_unique_free) (simp_all add: sets_wf_def)
    ultimately show ?thesis by simp
  qed
  have "sets_wf si st'"
    unfolding sets_wf_def live' same
  proof (intro conjI)
    show "units (imap_segs (semmap st')) \<subseteq> {1..nat (semmns si)}"
      using mp(2) rng sets unfolding st'_def sets_wf_def by auto
    show "\<forall>j. live st j \<and> j \<noteq> i \<longrightarrow> 0 < sem_nsems (sema st ! j) \<and> sem_nsems (sema st ! j) \<le> semmsl si \<and>
        set_units st j \<subseteq> {1..nat (semmns si)} \<and> set_units st j \<inter> units (imap_segs (semmap st')) = {}"
      using sets dis unfolding sets_wf_def by (auto simp: st'_def simp del: Int_atLeastLessThan)
    show "\<forall>j k. live st j \<and> j \<noteq> i \<longrightarrow> live st k \<and> k \<noteq> i \<longrightarrow> j \<noteq> k \<longrightarrow> set_units st j \<inter> set_units st k = {}"
      using sets unfolding sets_wf_def by blast
    show "\<forall>j < length (sema st'). 0 \<le> ip_seq (sem_perm (sema st' ! j)) \<and> ip_seq (sem_perm (sema st' ! j)) < 65536"
      using sets perm i by (auto simp: sets_wf_def st'_def nth_list_update)
  qed (use sets keys mp in \<open>simp_all add: sets_wf_def st'_def\<close>)
  moreover have su': "same_undo st st'" by (simp add: st'_def same_undo_def)
  moreover have "adj_ok si st'"
    unfolding adj_ok_def
  proof (intro allI impI)
    fix q s m u
    assume "adj st' q s m \<noteq> 0"
    then have nz: "adj st q s m \<noteq> 0" using same_undoD(2) [OF su'] by simp
    then obtain j where j: "fst (semconv si s u st) = Some j" "0 \<le> m" "m < sem_nsems (sema st ! j)"
      using ao unfolding adj_ok_def by blast
    have "j \<noteq> i" using noadj [OF nz] j(1) by auto
    then have "fst (semconv si s u st') = Some j"
      by (intro semid.conv_same [OF j(1)]) (use j(1) in \<open>auto simp: st'_def semid.conv_iff\<close>)
    then show "\<exists>i. fst (semconv si s u st') = Some i \<and> 0 \<le> m \<and> m < sem_nsems (sema st' ! i)"
      using j same by auto
  qed
  moreover have "vals_ok si st'" using inv by (simp add: sem_inv_def vals_ok_def st'_def)
  ultimately show ?thesis using inv same_undoD(1) [OF su'] by (simp add: sem_inv_def)
qed

lemma woken_inv: "sem_inv si (st\<lparr>sem_woken := w\<rparr>) = sem_inv si st"
proof -
  have su: "same_undo st (st\<lparr>sem_woken := w\<rparr>)" by (simp add: same_undo_def)
  have "sets_wf si (st\<lparr>sem_woken := w\<rparr>) = sets_wf si st" by (simp add: sets_wf_def live_def set_units_def)
  moreover have "adj_ok si (st\<lparr>sem_woken := w\<rparr>) = adj_ok si st"
    using same_undoD(2) [OF su] by (simp add: adj_ok_def semid.conv_iff)
  ultimately show ?thesis using same_undoD(1) [OF su] by (simp add: sem_inv_def vals_ok_def)
qed

lemma to_u16_bounds: "0 \<le> to_u16 x \<and> to_u16 x < 65536"
  by simp

lemma sem_rmid_inv:
  assumes si: "si_wf si" and inv: "sem_inv si st"
    and i: "fst (semconv si semid u st) = Some i"
    and r: "sem_rmid si semid i u st = Ret (u', st')"
  shows "sem_inv si st'"
proof -
  have sets: "sets_wf si st" and ao: "adj_ok si st" using inv by (simp_all add: sem_inv_def)
  note li = semconv_live [OF si sets i]
  obtain ok u1 where o: "owner_or_suser (sem_perm (sema st ! i)) u = (ok, u1)"
    by (cases "owner_or_suser (sem_perm (sema st ! i)) u") auto
  show ?thesis
  proof (cases ok)
    case False
    then show ?thesis using r o inv by (simp add: sem_rmid_def)
  next
    case True
    define h where "h = sem_nsems (sema st ! i)"
    define st1 where "st1 = semunrm semid 0 h st"
    define st2 where "st2 = rmid_reset (sem_base (sema st ! i)) (nat h) st1"
    have u1: "sema st1 = sema st" "semmap st1 = semmap st"
      "\<And>q s n. adj st1 q s n = (if s = semid \<and> 0 \<le> n \<and> n \<le> h then 0 else adj st q s n)"
      using semunrm_spec [of si st semid 0 h] inv same_semsD by (auto simp: st1_def sem_inv_def)
    have inv1: "sem_inv si st1" unfolding st1_def by (rule sem_inv_unrm [OF si inv])
    have o2: "only_sems st1 st2" by (simp add: st2_def only_sems_loops)
    have inv2: "sem_inv si st2"
      by (rule sem_inv_only [OF si inv1 o2])
        (use inv1 si in \<open>auto simp: st2_def vals_ok_def sv_rmid_reset sem_inv_def si_wf_def\<close>)
    have same: "sema st2 = sema st" "semmap st2 = semmap st" using o2 u1 by (simp_all add: only_sems_def)
    have adj2: "adj st2 q s n = adj st1 q s n" for q s n
      using o2 same_undoD(2) by (auto simp: only_sems_def)
    define p where "p = (sem_perm (sema st ! i))\<lparr>ip_seq := (if to_s32 (semid + semmni si) < 0 then 0
        else to_u16 (ip_seq (sem_perm (sema st ! i)) + 1)), ip_mode := 0\<rparr>"
    obtain mp w where fr: "ipcmfree (semmap st2) h (int (sem_base (sema st ! i)) + 1) = Ret (mp, w)"
      and st': "st' = st2\<lparr>semmap := mp, sem_woken := sem_woken st2 @ (if w then [Semmap] else []),
          sema := (sema st2)[i := (sema st ! i)\<lparr>sem_perm := p\<rparr>]\<rparr>"
      using r True o
      by (auto simp: sem_rmid_def Let_def h_def [symmetric] st1_def [symmetric] st2_def [symmetric]
          p_def [symmetric] obind_Ret_iff)
    have live2: "live st2 i" using li by (simp add: live_def same)
    have noadj: "fst (semconv si s v st2) \<noteq> Some i" if nz: "adj st2 q s n \<noteq> 0" for q s n v
    proof
      assume c: "fst (semconv si s v st2) = Some i"
      then have "fst (semconv si s v st) = Some i" by (auto simp: semid.conv_iff same)
      moreover have "fst (semconv si semid v st) = Some i" using i semconv_indep by metis
      ultimately have s: "s = semid" using semid.conv_inj [of si] si by (metis si_wf_def)
      have nz1: "adj st1 q s n \<noteq> 0" using nz adj2 by simp
      then have "adj st q s n \<noteq> 0" using u1(3) by (auto split: if_splits)
      then obtain j where "fst (semconv si s v st) = Some j" "0 \<le> n" "n < sem_nsems (sema st ! j)"
        using ao unfolding adj_ok_def by blast
      then have "0 \<le> n \<and> n \<le> h" using \<open>fst (semconv si s v st) = Some i\<close> by (simp add: h_def)
      then show False using nz1 u1(3) s by simp
    qed
    have "sem_inv si (st2\<lparr>semmap := mp, sema := (sema st2)[i := (sema st2 ! i)\<lparr>sem_perm := p\<rparr>]\<rparr>)"
    proof (rule remove_inv [OF si inv2 live2 _ _ _ _ noadj])
      show "\<exists>w. ipcmfree (semmap st2) (sem_nsems (sema st2 ! i)) (int (sem_base (sema st2 ! i)) + 1) = Ret (mp, w)"
        using fr by (simp add: same h_def)
      show "\<not> allocated p" by (simp add: p_def allocated_def)
    qed (simp_all add: p_def to_u16_bounds)
    then have "sem_inv si ((st2\<lparr>semmap := mp, sema := (sema st2)[i := (sema st2 ! i)\<lparr>sem_perm := p\<rparr>]\<rparr>)
        \<lparr>sem_woken := sem_woken st2 @ (if w then [Semmap] else [])\<rparr>)"
      by (simp only: woken_inv)
    moreover have "st' = (st2\<lparr>semmap := mp, sema := (sema st2)[i := (sema st2 ! i)\<lparr>sem_perm := p\<rparr>]\<rparr>)
        \<lparr>sem_woken := sem_woken st2 @ (if w then [Semmap] else [])\<rparr>"
      by (simp add: st' same)
    ultimately show ?thesis by simp
  qed
qed

text \<open>A free entry is filled: with a new set taken from the map, or with a permission only.\<close>

lemma create_inv:
  assumes si: "si_wf si" and inv: "sem_inv si st" and i: "i < length (sema st)"
    and un: "\<not> allocated (sem_perm (sema st ! i))"
    and seq: "ip_seq (sem_perm e) = ip_seq (sem_perm (sema st ! i))"
    and keys: "keys_unique ((map sem_perm (sema st))[i := sem_perm e])"
    and mwf: "imap_wf mp"
    and alloc: "allocated (sem_perm e) \<Longrightarrow> 0 < sem_nsems e \<and> sem_nsems e \<le> semmsl si \<and> U \<subseteq> units (imap_segs (semmap st))"
    and U: "U = {Suc (sem_base e)..<Suc (sem_base e) + nat (sem_nsems e)}"
    and mp: "units (imap_segs mp) = (if allocated (sem_perm e) then units (imap_segs (semmap st)) - U
        else units (imap_segs (semmap st)))"
  shows "sem_inv si (st\<lparr>semmap := mp, sema := (sema st)[i := e]\<rparr>)"
proof -
  let ?st = "st\<lparr>semmap := mp, sema := (sema st)[i := e]\<rparr>"
  have sets: "sets_wf si st" and ao: "adj_ok si st" using inv by (simp_all add: sem_inv_def)
  have live': "live ?st j \<longleftrightarrow> (if j = i then allocated (sem_perm e) else live st j)" for j
    using i by (auto simp: live_def nth_list_update)
  have same: "set_units ?st j = (if j = i then U else set_units st j)"
    "sem_nsems (sema ?st ! j) = (if j = i then sem_nsems e else sem_nsems (sema st ! j))" for j
    using i by (simp_all add: set_units_def nth_upd U)
  have sub: "units (imap_segs mp) \<subseteq> units (imap_segs (semmap st))" using mp by (auto split: if_splits)
  have off: "set_units st j \<inter> units (imap_segs mp) = {} \<and> set_units st j \<inter> units (imap_segs (semmap st)) = {}"
    if "live st j" for j
    using sets that sub unfolding sets_wf_def by blast
  have all: "units (imap_segs (semmap st)) \<subseteq> {1..nat (semmns si)}" using sets by (simp add: sets_wf_def)
  have UU: "U \<subseteq> units (imap_segs (semmap st)) \<and> U \<inter> units (imap_segs mp) = {}" if "allocated (sem_perm e)"
    using alloc [OF that] mp that by auto
  have "sets_wf si ?st"
    unfolding sets_wf_def live' same
  proof (intro conjI allI impI)
    fix j assume "if j = i then allocated (sem_perm e) else live st j"
    then have c: "j = i \<and> allocated (sem_perm e) \<or> j \<noteq> i \<and> live st j" by (simp split: if_splits)
    then show "0 < (if j = i then sem_nsems e else sem_nsems (sema st ! j))"
      "(if j = i then sem_nsems e else sem_nsems (sema st ! j)) \<le> semmsl si"
      using alloc sets by (auto simp: sets_wf_def)
    show "(if j = i then U else set_units st j) \<subseteq> {1..nat (semmns si)}"
      using c UU all sets unfolding sets_wf_def by auto
    show "(if j = i then U else set_units st j) \<inter> units (imap_segs (semmap ?st)) = {}"
      using c UU off by auto
  next
    fix j k
    assume "if j = i then allocated (sem_perm e) else live st j" "if k = i then allocated (sem_perm e) else live st k"
      "j \<noteq> k"
    then have c: "j = i \<and> k \<noteq> i \<and> allocated (sem_perm e) \<and> live st k \<or>
        k = i \<and> j \<noteq> i \<and> allocated (sem_perm e) \<and> live st j \<or> j \<noteq> i \<and> k \<noteq> i \<and> live st j \<and> live st k"
      by (auto split: if_splits)
    have dis: "U \<inter> set_units st k = {}" if "allocated (sem_perm e)" "live st k" for k
      using UU [OF that(1)] off [OF that(2)] by blast
    have old: "set_units st j \<inter> set_units st k = {}" if "live st j" "live st k"
      using sets that \<open>j \<noteq> k\<close> by (simp add: sets_wf_def)
    show "(if j = i then U else set_units st j) \<inter> (if k = i then U else set_units st k) = {}"
      using c dis old by (elim disjE conjE) (simp_all add: Int_commute)
  next
    fix j assume "j < length (sema ?st)"
    then show "0 \<le> ip_seq (sem_perm (sema ?st ! j))" "ip_seq (sem_perm (sema ?st ! j)) < 65536"
      using sets i seq by (simp_all add: sets_wf_def nth_list_update)
  qed (use sets keys mwf sub all in \<open>auto simp: sets_wf_def map_update\<close>)
  moreover have su: "same_undo st ?st" by (simp add: same_undo_def)
  moreover have "adj_ok si ?st"
    unfolding adj_ok_def
  proof (intro allI impI)
    fix q s m u
    assume "adj ?st q s m \<noteq> 0"
    then have "adj st q s m \<noteq> 0" using same_undoD(2) [OF su] by simp
    then obtain j where j: "fst (semconv si s u st) = Some j" "0 \<le> m" "m < sem_nsems (sema st ! j)"
      using ao unfolding adj_ok_def by blast
    then have ne: "j \<noteq> i" using un by (auto simp: semid.conv_iff)
    have "fst (semconv si s u ?st) = Some j"
      by (intro semid.conv_same [OF j(1)]) (use j(1) ne in \<open>auto simp: semid.conv_iff\<close>)
    then show "\<exists>i. fst (semconv si s u ?st) = Some i \<and> 0 \<le> m \<and> m < sem_nsems (sema ?st ! i)"
      using j same(2) [of j] ne by auto
  qed
  moreover have "vals_ok si ?st" using inv by (simp add: sem_inv_def vals_ok_def)
  ultimately show ?thesis using inv same_undoD(1) [OF su] by (simp add: sem_inv_def)
qed

lemma put_perms_same: "put_perms (map sem_perm (sema st)) st = st"
proof -
  have "map2 (\<lambda>sp p. sp\<lparr>sem_perm := p\<rparr>) xs (map sem_perm xs) = xs" for xs :: "semid_ds list"
    by (induction xs) auto
  then show ?thesis by (simp add: put_perms_def)
qed

lemma put_perms_upd:
  "put_perms ((map sem_perm (sema st))[i := p]) st = st\<lparr>sema := (sema st)[i := (sema st ! i)\<lparr>sem_perm := p\<rparr>]\<rparr>"
proof -
  have "map2 (\<lambda>sp p. sp\<lparr>sem_perm := p\<rparr>) xs ((map sem_perm xs)[i := p]) = xs[i := (xs ! i)\<lparr>sem_perm := p\<rparr>]"
    for xs :: "semid_ds list" and i
  proof (induction xs arbitrary: i)
    case (Cons x xs)
    have "map2 (\<lambda>sp p. sp\<lparr>sem_perm := p\<rparr>) xs (map sem_perm xs) = xs" by (induction xs) auto
    then show ?case using Cons by (cases i) simp_all
  qed simp
  then show ?thesis by (simp add: put_perms_def)
qed

lemma bzero_inv:
  assumes "si_wf si" and "sem_inv si st"
  shows "sem_inv si (bzero_sems k n st)"
  by (rule sem_inv_only [OF assms only_sems_loops(4)])
    (use assms in \<open>auto simp: vals_ok_def sv_bzero sem_inv_def si_wf_def\<close>)

text \<open>Times are not part of the invariant.\<close>

lemma sem_inv_cong:
  assumes "si_wf si" and "sem_inv si st" and "same_undo st st'" and "semv st' = semv st"
    and "semmap st' = semmap st"
    and "map (\<lambda>e. (sem_base e, sem_nsems e, sem_perm e)) (sema st') =
         map (\<lambda>e. (sem_base e, sem_nsems e, sem_perm e)) (sema st)"
  shows "sem_inv si st'"
proof -
  let ?f = "\<lambda>e. (sem_base e, sem_nsems e, sem_perm e)"
  have len: "length (sema st') = length (sema st)" using arg_cong [OF assms(6), of length] by simp
  have e: "?f (sema st' ! j) = ?f (sema st ! j)" if "j < length (sema st)" for j
  proof -
    have "map ?f (sema st') ! j = map ?f (sema st) ! j" by (simp only: assms(6))
    then show ?thesis using that len by simp
  qed
  show ?thesis
  proof (rule sem_inv_change [OF assms(1,2) _ _ len])
    show "same_shape (sema st ! j) (sema st' ! j)" if "j < length (sema st)" for j
      using e [OF that] by (simp add: same_shape_def)
    show "vals_ok si st'" using assms(2,4) by (simp add: sem_inv_def vals_ok_def)
    show "undo_wf si st'" using assms(2) same_undoD(1) [OF assms(3)] by (simp add: sem_inv_def)
    show "adj st q s n \<noteq> 0 \<or>
      (\<exists>i. fst (semconv si s u st) = Some i \<and> 0 \<le> n \<and> n < sem_nsems (sema st ! i))"
      if "adj st' q s n \<noteq> 0" for q s n u
      using that same_undoD(2) [OF assms(3)] by simp
  qed (use assms in simp_all)
qed

lemma bzero_sema: "bzero_sems k m (s\<lparr>sema := x\<rparr>) = (bzero_sems k m s)\<lparr>sema := x\<rparr>"
proof (induction k m s rule: bzero_sems.induct)
  case (2 k n st)
  have "upd_sem k f (st\<lparr>sema := x\<rparr>) = (upd_sem k f st)\<lparr>sema := x\<rparr>" for f by (simp add: upd_sem_def)
  then show ?case using 2 by simp
qed simp

lemma semget_inv:
  assumes si: "si_wf si" and inv: "sem_inv si st"
    and r: "semget si key nsems flg u st = Ret (u', st')"
  shows "sem_inv si st'"
proof -
  have sets: "sets_wf si st" using inv by (simp add: sem_inv_def)
  have ku: "keys_unique (map sem_perm (sema st))" and mwf: "imap_wf (semmap st)" using sets by (simp_all add: sets_wf_def)
  show ?thesis
  proof (cases "ipcgetperm key flg u (map sem_perm (sema st))")
    case (Inl e)
    then show ?thesis using r inv by (simp add: semget_def)
  next
    case (Inr x)
    then obtain i s ps where g: "ipcgetperm key flg u (map sem_perm (sema st)) = Inr (i, s, ps)" by (cases x) auto
    note res = ipcgetperm_result [OF ku g]
    show ?thesis
    proof (cases "s = 0")
      case True
      then have "ps = map sem_perm (sema st)" using res by auto
      then show ?thesis using r g True inv by (auto simp: semget_def Let_def put_perms_same split: if_splits)
    next
      case False
      then have i: "i < length (sema st)" "\<not> allocated (sem_perm (sema st ! i))"
        and ps: "ps = (map sem_perm (sema st))[i := ps ! i]" and ku': "keys_unique ps"
        and pi: "allocated (ps ! i)" "ip_seq (ps ! i) = ip_seq (sem_perm (sema st ! i))"
        using res by (auto simp: key_match_def)
      define st1 where "st1 = st\<lparr>sema := (sema st)[i := (sema st ! i)\<lparr>sem_perm := ps ! i\<rparr>]\<rparr>"
      have st1: "put_perms ps st = st1" using put_perms_upd [of st i "ps ! i"] ps by (simp add: st1_def)
      have fail: "sem_inv si (clear_mode i st1)"
      proof -
        let ?e = "(sema st ! i)\<lparr>sem_perm := (ps ! i)\<lparr>ip_mode := 0\<rparr>\<rparr>"
        have "\<not> allocated (sem_perm ?e)" by (simp add: allocated_def)
        then have "sem_inv si (st\<lparr>semmap := semmap st, sema := (sema st)[i := ?e]\<rparr>)"
          using ku pi by (intro create_inv [OF si inv i _ _ mwf _ refl] keys_unique_free) simp_all
        then show ?thesis using i by (simp add: clear_mode_def st1_def)
      qed
      show ?thesis
      proof (cases "nsems \<le> 0 \<or> nsems > semmsl si")
        case True
        then show ?thesis using r g False fail by (auto simp: semget_def Let_def st1)
      next
        case ok: False
        define n where "n = nat nsems"
        have n: "0 < n" "nsems = int n" using ok by (simp_all add: n_def)
        have mwf1: "semmap st1 = semmap st" by (simp add: st1_def)
        show ?thesis
        proof (cases "seg_alloc n (imap_segs (semmap st))")
          case None
          then have "ipcmalloc (semmap st) nsems = Ret (0, semmap st)"
            using ipcmalloc_refines [OF mwf n(1)] n(2) by simp
          then show ?thesis using r g False ok fail
            by (auto simp: semget_def Let_def st1 mwf1 clear_mode_def st1_def)
        next
          case (Some y)
          then obtain a ys where al: "seg_alloc n (imap_segs (semmap st)) = Some (a, ys)" by (cases y) auto
          then obtain mp where mp: "ipcmalloc (semmap st) nsems = Ret (int a, mp)" "imap_wf mp" "imap_segs mp = ys"
            using ipcmalloc_refines [OF mwf n(1)] n(2) by auto
          have sok: "segs_ok map_lim 0 (imap_segs (semmap st))" using mwf by (simp add: imap_wf_def)
          have t: "0 < a" "{a..<a + n} \<subseteq> units (imap_segs (semmap st))"
            "units ys = units (imap_segs (semmap st)) - {a..<a + n}"
            using seg_alloc_take [OF sok al n(1)] by simp_all
          have u16: "to_u16 nsems = nsems" using ok si by (intro to_u16_id) (simp_all add: si_wf_def)
          define e where "e = (sema st ! i)\<lparr>sem_perm := ps ! i, sem_base := a - 1, sem_nsems := nsems\<rparr>"
          have base: "Suc (sem_base e) = a" "nat (sem_nsems e) = n" using t(1) n by (simp_all add: e_def)
          define st2 where "st2 = st\<lparr>semmap := mp, sema := (sema st)[i := e]\<rparr>"
          have inv2: "sem_inv si st2"
            unfolding st2_def
          proof (rule create_inv [OF si inv i _ _ mp(2), where U = "{a..<a + n}"])
            show "keys_unique ((map sem_perm (sema st))[i := sem_perm e])" using ku' ps by (simp add: e_def)
            show "ip_seq (sem_perm e) = ip_seq (sem_perm (sema st ! i))" using pi by (simp add: e_def)
            show "0 < sem_nsems e \<and> sem_nsems e \<le> semmsl si \<and> {a..<a + n} \<subseteq> units (imap_segs (semmap st))"
              using ok t(2) by (simp add: e_def)
            show "{a..<a + n} = {Suc (sem_base e)..<Suc (sem_base e) + nat (sem_nsems e)}" by (simp add: base)
            show "units (imap_segs mp) = (if allocated (sem_perm e)
                then units (imap_segs (semmap st)) - {a..<a + n} else units (imap_segs (semmap st)))"
              using t(3) mp(3) pi by (simp add: e_def)
          qed
          let ?st3 = "bzero_sems (a - 1) n (st1\<lparr>semmap := mp\<rparr>)"
          have a1: "nat (int a - 1) = a - 1" using t(1) by simp
          have st': "st' = ?st3\<lparr>sema := (sema ?st3)[i := (sema ?st3 ! i)
              \<lparr>sem_base := a - 1, sem_nsems := nsems, sem_ctime := sem_time ?st3, sem_otime := 0\<rparr>]\<rparr>"
            using r g False ok mp(1) mwf1 t(1) u16
            by (auto simp: semget_def Let_def st1 a1 n_def split: if_splits)
          have o3: "only_sems (st1\<lparr>semmap := mp\<rparr>) ?st3" by (rule only_sems_loops)
          have "st1\<lparr>semmap := mp\<rparr> = st2\<lparr>sema := (sema st)[i := (sema st ! i)\<lparr>sem_perm := ps ! i\<rparr>]\<rparr>"
            by (simp add: st1_def st2_def)
          then have st3: "?st3 = (bzero_sems (a - 1) n st2)\<lparr>sema := (sema st)[i := (sema st ! i)\<lparr>sem_perm := ps ! i\<rparr>]\<rparr>"
            using bzero_sema by simp
          have ob: "only_sems st2 (bzero_sems (a - 1) n st2)" by (rule only_sems_loops)
          show ?thesis
          proof (rule sem_inv_cong [OF si bzero_inv [OF si inv2]])
            show "same_undo (bzero_sems (a - 1) n st2) st'" "semv st' = semv (bzero_sems (a - 1) n st2)"
              "semmap st' = semmap (bzero_sems (a - 1) n st2)"
              unfolding st' st3 by (simp_all add: same_undo_def)
            show "map (\<lambda>e. (sem_base e, sem_nsems e, sem_perm e)) (sema st') =
                map (\<lambda>e. (sem_base e, sem_nsems e, sem_perm e)) (sema (bzero_sems (a - 1) n st2))"
              unfolding st' st3 using ob i by (simp add: only_sems_def st2_def map_update e_def)
          qed
        qed
      qed
    qed
  qed
qed

section \<open>Process exit\<close>

definition clamp_add :: "seminfo \<Rightarrow> int \<Rightarrow> int \<Rightarrow> int" where
  "clamp_add si v a = (if 0 \<le> v + a \<and> v + a \<le> semvmx si then v + a else v)"

definition exit_index :: "seminfo \<Rightarrow> semstate \<Rightarrow> undo \<Rightarrow> nat" where
  "exit_index si st e = sem_base (sema st ! nat (un_id e mod semmni si)) + nat (un_num e)"

definition entry_valid :: "seminfo \<Rightarrow> semstate \<Rightarrow> undo \<Rightarrow> bool" where
  "entry_valid si st e \<longleftrightarrow> (\<forall>u. fst (semconv si (un_id e) u st) = Some (nat (un_id e mod semmni si))) \<and>
     exit_index si st e < length (semv st)"

lemma semexit_loop_spec:
  assumes "si_wf si" and "vals_ok si st" and "\<forall>e \<in> set es. entry_valid si st e"
    and "distinct (map (exit_index si st) es)"
  shows "\<exists>st'. semexit_loop si es u st = (u, st') \<and> only_sems st st' \<and> vals_ok si st' \<and>
    (\<forall>e \<in> set es. sv st' (exit_index si st e) = clamp_add si (sv st (exit_index si st e)) (un_aoe e)) \<and>
    (\<forall>k. k \<notin> exit_index si st ` set es \<longrightarrow> sv st' k = sv st k)"
  using assms(2-)
proof (induction es arbitrary: st)
  case (Cons e es)
  define k where "k = exit_index si st e"
  define v where "v = sv st k + un_aoe e"
  have ev: "entry_valid si st e" using Cons.prems(2) by simp
  then have sc: "semconv si (un_id e) u st = (Some (nat (un_id e mod semmni si)), u)"
    by (intro semconv_snd) (simp add: entry_valid_def)
  define st3 where "st3 = (if v < 0 \<or> v > semvmx si then st
      else let st1 = upd_sem k (\<lambda>p. p\<lparr>semval := to_u16 v\<rparr>) st;
               st2 = (if v = 0 then wake_zcnt k st1 else st1)
           in if un_aoe e > 0 then wake_ncnt k st2 else st2)"
  have loop: "semexit_loop si (e # es) u st = semexit_loop si es u st3"
    by (simp add: sc st3_def Let_def v_def k_def exit_index_def)
  have k: "k < length (semv st)" using ev by (simp add: entry_valid_def k_def)
  have only: "only_sems st st3" by (simp add: st3_def Let_def)
  have same: "sema st3 = sema st" "length (semv st3) = length (semv st)" using only by (simp_all add: only_sems_def)
  have sv3: "sv st3 j = (if j = k then clamp_add si (sv st k) (un_aoe e) else sv st j)" for j
    using k assms(1)
    by (auto simp: st3_def Let_def sv_upd clamp_add_def v_def [symmetric] si_wf_def to_u16_id)
  have vals3: "vals_ok si st3"
    using Cons.prems(1) k unfolding vals_ok_def same sv3 by (auto simp: clamp_add_def)
  have idx: "exit_index si st3 = exit_index si st" by (simp add: exit_index_def same fun_eq_iff)
  have valid3: "\<forall>e \<in> set es. entry_valid si st3 e"
    using Cons.prems(2) by (auto simp: entry_valid_def idx same semid.conv_iff)
  obtain st' where st': "semexit_loop si es u st3 = (u, st')" "only_sems st3 st'" "vals_ok si st'"
    "\<forall>e \<in> set es. sv st' (exit_index si st e) = clamp_add si (sv st3 (exit_index si st e)) (un_aoe e)"
    "\<forall>k. k \<notin> exit_index si st ` set es \<longrightarrow> sv st' k = sv st3 k"
    using Cons.IH [OF vals3 valid3] Cons.prems(3) by (auto simp: idx)
  have fresh: "k \<notin> exit_index si st ` set es" using Cons.prems(3) by (simp add: k_def)
  show ?case
  proof (intro exI [of _ st'] conjI)
    show "semexit_loop si (e # es) u st = (u, st')" using loop st'(1) by simp
    show "only_sems st st'" using only st'(2) by (rule only_sems_trans)
    show "\<forall>f \<in> set (e # es). sv st' (exit_index si st f) = clamp_add si (sv st (exit_index si st f)) (un_aoe f)"
    proof
      fix f assume "f \<in> set (e # es)"
      then consider "f = e" | "f \<in> set es" "exit_index si st f \<noteq> k" using fresh by auto
      then show "sv st' (exit_index si st f) = clamp_add si (sv st (exit_index si st f)) (un_aoe f)"
      proof cases
        case 1
        then show ?thesis using st'(5) fresh sv3 by (simp add: k_def)
      next
        case 2
        then show ?thesis using st'(4) sv3 by simp
      qed
    qed
    show "\<forall>j. j \<notin> exit_index si st ` set (e # es) \<longrightarrow> sv st' j = sv st j"
      using st'(5) sv3 by (auto simp: k_def)
  qed (rule st'(3))
qed simp

text \<open>The identifier of a live set.\<close>

definition set_id :: "seminfo \<Rightarrow> semstate \<Rightarrow> nat \<Rightarrow> int" where
  "set_id si st i = ip_seq (sem_perm (sema st ! i)) * semmni si + int i"

lemma semconv_set_id:
  assumes "si_wf si" and "sets_wf si st" and "live st i"
  shows "fst (semconv si (set_id si st i) u st) = Some i"
proof -
  have "int i < semmni si" using assms by (auto simp: live_def sets_wf_def)
  then show ?thesis
    using assms semid.conv_roundtrip [of i si st] by (auto simp: set_id_def live_def sets_wf_def)
qed

lemma semexit_spec:
  assumes si: "si_wf si" and inv: "sem_inv si st" and r: "semexit si u st = (u', st')"
  shows "u' = u \<and> sem_inv si st' \<and> sem_undos st' (p_index u) = None \<and> sema st' = sema st \<and>
    (\<forall>q s n. adj st' q s n = (if q = p_index u then 0 else adj st q s n)) \<and>
    (\<forall>i n. live st i \<longrightarrow> 0 \<le> n \<longrightarrow> n < sem_nsems (sema st ! i) \<longrightarrow>
       sv st' (sem_base (sema st ! i) + nat n) =
         clamp_add si (sv st (sem_base (sema st ! i) + nat n)) (adj st (p_index u) (set_id si st i) n))"
proof -
  have sets: "sets_wf si st" and vals: "vals_ok si st" and uwf: "undo_wf si st" and ao: "adj_ok si st"
    using inv by (simp_all add: sem_inv_def)
  have clamp0: "clamp_add si (sv st (sem_base (sema st ! i) + nat n)) 0 = sv st (sem_base (sema st ! i) + nat n)" for i n
    by (simp add: clamp_add_def)
  show ?thesis
  proof (cases "sem_undos st (p_index u)")
    case None
    then have "u' = u" "st' = st" "\<And>s n. adj st (p_index u) s n = 0" using r by (simp_all add: semexit_def adj_def)
    then show ?thesis using inv None clamp0 by simp
  next
    case (Some up)
    obtain act free where rep: "undo_rep si st act free" using uwf by (auto simp: undo_wf_def)
    define es where "es = un_ent (semu st ! up)"
    have ok: "ents_ok si es" using rep_owner(4) [OF rep Some] by (simp add: es_def)
    have ad: "adj st (p_index u) s n = ents_adj es s n" for s n by (simp add: adj_def Some es_def)
    have ent: "\<exists>i. fst (semconv si (un_id e) u st) = Some i \<and> 0 \<le> un_num e \<and> un_num e < sem_nsems (sema st ! i) \<and>
        i = nat (un_id e mod semmni si) \<and> live st i \<and> adj st (p_index u) (un_id e) (un_num e) = un_aoe e"
      if e: "e \<in> set es" for e
    proof -
      have "ents_adj es (un_id e) (un_num e) \<noteq> 0"
        using ents_adj_nonzero [OF ok] e by (auto simp: is_entry_def)
      then obtain i where i: "fst (semconv si (un_id e) u st) = Some i" "0 \<le> un_num e" "un_num e < sem_nsems (sema st ! i)"
        using ao ad unfolding adj_ok_def by metis
      have "sorted_wrt undo_less es" using ok by (simp add: ents_ok_def)
      then have "ents_adj es (un_id e) (un_num e) = un_aoe e" using e by (rule ents_adj_entry)
      then show ?thesis using i semconv_live(1) [OF si sets i(1)] ad by (auto simp: semid.conv_iff)
    qed
    have valid: "\<forall>e \<in> set (rev es). entry_valid si st e"
    proof
      fix e assume "e \<in> set (rev es)"
      then obtain i where i: "fst (semconv si (un_id e) u st) = Some i" "0 \<le> un_num e"
        "un_num e < sem_nsems (sema st ! i)" "i = nat (un_id e mod semmni si)" "live st i"
        using ent by force
      have "fst (semconv si (un_id e) v st) = Some i" for v using i(1) semconv_indep by metis
      then show "entry_valid si st e"
        using i live_index [OF si sets i(5,2,3)] by (simp add: entry_valid_def exit_index_def)
    qed
    have key_inj: "un_id e = un_id f \<and> un_num e = un_num f"
      if kk: "e \<in> set es" "f \<in> set es" "exit_index si st e = exit_index si st f" for e f
    proof -
      obtain i where i: "fst (semconv si (un_id e) u st) = Some i" "0 \<le> un_num e"
        "un_num e < sem_nsems (sema st ! i)" "i = nat (un_id e mod semmni si)" "live st i"
        using ent [OF kk(1)] by blast
      obtain j where j: "fst (semconv si (un_id f) u st) = Some j" "0 \<le> un_num f"
        "un_num f < sem_nsems (sema st ! j)" "j = nat (un_id f mod semmni si)" "live st j"
        using ent [OF kk(2)] by blast
      have "i = j \<and> un_num e = un_num f"
        using live_index_inj [OF si sets i(5,2,3) j(5,2,3)] kk(3) i(4) j(4) by (simp add: exit_index_def)
      then show ?thesis using semid.conv_inj [OF _ i(1), of "un_id f"] j(1) si by (auto simp: si_wf_def)
    qed
    have dist: "distinct (map (exit_index si st) (rev es))"
    proof -
      have "sorted_wrt undo_less es" using ok by (simp add: ents_ok_def)
      moreover have "exit_index si st e \<noteq> exit_index si st f" if "e \<in> set es" "f \<in> set es" "undo_less e f" for e f
        using key_inj [OF that(1,2)] that(3) by (auto simp: undo_less_def undo_before_def)
      ultimately have "sorted_wrt (\<lambda>e f. exit_index si st e \<noteq> exit_index si st f) es"
        by (rule sorted_wrt_mono_rel [rotated]) auto
      then have "distinct (map (exit_index si st) es)"
        by (induction es) auto
      then show ?thesis by (simp only: rev_map [symmetric] distinct_rev)
    qed
    obtain st1 where st1: "semexit_loop si (rev es) u st = (u, st1)" "only_sems st st1" "vals_ok si st1"
      "\<forall>e \<in> set es. sv st1 (exit_index si st e) = clamp_add si (sv st (exit_index si st e)) (un_aoe e)"
      "\<forall>k. k \<notin> exit_index si st ` set es \<longrightarrow> sv st1 k = sv st k"
      using semexit_loop_spec [OF si vals valid dist, of u] by auto
    have su: "same_undo st st1" using st1(2) by (simp add: only_sems_def)
    have rep1: "undo_rep si st1 act free" using rep su by (simp add: undo_rep_def same_undo_def)
    have own1: "sem_undos st1 (p_index u) = Some up" using Some su by (simp add: same_undo_def)
    define st2 where "st2 = (if un_ent (semu st1 ! up) = [] then st1 else unlink_undo up (set_ent up [] st1))"
    have semu1: "semu st1 = semu st" using su by (simp add: same_undo_def)
    have empty: "semexit_loop si (rev es) u st = (u, st)" if "es = []" using that by simp
    have st2e: "es = [] \<Longrightarrow> st1 = st" using st1(1) empty by simp
    have st': "u' = u" "st' = (set_np up (semfup st2) st2)\<lparr>semfup := Some up, sem_undos := (sem_undos st2)(p_index u := None)\<rparr>"
      using r Some st1(1) st2e
      by (auto simp: semexit_def Let_def es_def [symmetric] st2_def semu1 split: if_splits)
    note ex = exit_unlink [OF rep1 own1, folded st2_def, folded st'(2)]
    have d1: "adj st1 q s n = adj st q s n" for q s n using same_undoD(2) [OF su] .
    have f: "semv st' = semv st1" "sema st' = sema st" "semmap st' = semmap st"
      using ex same_semsD [of st1 st'] st1(2) by (auto simp: only_sems_def)
    have inv1: "sem_inv si st1" by (rule sem_inv_only [OF si inv st1(2,3)])
    have "sem_inv si st'"
    proof (rule sem_inv_change [OF si inv1])
      show "adj st1 q s n \<noteq> 0 \<or>
        (\<exists>i. fst (semconv si s u st1) = Some i \<and> 0 \<le> n \<and> n < sem_nsems (sema st1 ! i))"
        if "adj st' q s n \<noteq> 0" for q s n u
        using that ex by (auto split: if_splits)
      show "vals_ok si st'" using st1(3) f by (simp add: vals_ok_def)
    qed (use ex f st1(2) in \<open>simp_all add: only_sems_def\<close>)
    moreover have "sv st' (sem_base (sema st ! i) + nat n) =
         clamp_add si (sv st (sem_base (sema st ! i) + nat n)) (adj st (p_index u) (set_id si st i) n)"
      if li: "live st i" "0 \<le> n" "n < sem_nsems (sema st ! i)" for i n
    proof (cases "\<exists>e \<in> set es. exit_index si st e = sem_base (sema st ! i) + nat n")
      case True
      then obtain e where e: "e \<in> set es" "exit_index si st e = sem_base (sema st ! i) + nat n" by blast
      obtain j where j: "fst (semconv si (un_id e) u st) = Some j" "0 \<le> un_num e"
        "un_num e < sem_nsems (sema st ! j)" "j = nat (un_id e mod semmni si)" "live st j"
        "adj st (p_index u) (un_id e) (un_num e) = un_aoe e"
        using ent [OF e(1)] by blast
      have ij: "j = i \<and> un_num e = n"
        using live_index_inj [OF si sets j(5,2,3) li] e(2) j(4) by (simp add: exit_index_def)
      then have "un_id e = set_id si st i"
        using semid.conv_inj [OF _ j(1), of "set_id si st i"] semconv_set_id [OF si sets li(1), of u] si
        by (auto simp: si_wf_def)
      then have "adj st (p_index u) (set_id si st i) n = un_aoe e" using j(6) ij by simp
      then show ?thesis using st1(4) e f by auto
    next
      case False
      have "adj st (p_index u) (set_id si st i) n = 0"
      proof (rule ccontr)
        assume "adj st (p_index u) (set_id si st i) n \<noteq> 0"
        then obtain e where e: "e \<in> set es" "un_id e = set_id si st i" "un_num e = n"
          using ents_adj_nonzero [OF ok] ad by (auto simp: is_entry_def)
        have "fst (semconv si (un_id e) u st) = Some i" using semconv_set_id [OF si sets li(1)] e by simp
        then have "nat (un_id e mod semmni si) = i" by (auto simp: semid.conv_iff)
        then show False using False e by (auto simp: exit_index_def)
      qed
      moreover have "sv st1 (sem_base (sema st ! i) + nat n) = sv st (sem_base (sema st ! i) + nat n)"
      proof -
        have "sem_base (sema st ! i) + nat n \<notin> exit_index si st ` set es" using False by (metis imageE)
        then show ?thesis using st1(5) by blast
      qed
      ultimately show ?thesis using clamp0 f by simp
    qed
    ultimately show ?thesis using ex st' f d1 by simp
  qed
qed

end
