(* ===== verification/Sem_Props.thy ===== *)
theory Sem_Props
  imports Sysv_Sem
begin

text \<open>
  The semaphore facility as a system: its boot state, the steps any process can make,
  the invariant of every reachable state, and the properties of the system calls.
\<close>

section \<open>One pass of semop keeps the invariant\<close>

definition ops_for :: "semid_ds \<Rightarrow> sembuf list \<Rightarrow> bool" where
  "ops_for sp ops \<longleftrightarrow> (\<forall>op \<in> set ops. 0 \<le> sem_num op \<and> sem_num op < sem_nsems sp \<and>
     -32768 \<le> sem_op op \<and> sem_op op \<le> 32767)"

lemma ops_for_ok:
  assumes "si_wf si" and "sem_inv si st" and i: "fst (semconv si semid u st) = Some i"
    and "ops_for (sema st ! i) ops"
  shows "\<forall>op \<in> set ops. op_ok (sem_base (sema st ! i)) (length (semv st)) op"
proof
  fix op assume op: "op \<in> set ops"
  have sets: "sets_wf si st" using assms(2) by (simp add: sem_inv_def)
  note l = semconv_live(1) [OF assms(1) sets i]
  have "sem_nsems (sema st ! i) \<le> 32767" using l sets assms(1) by (force simp: sets_wf_def si_wf_def)
  then show "op_ok (sem_base (sema st ! i)) (length (semv st)) op"
    using op assms(4) live_index [OF assms(1) sets l] by (auto simp: ops_for_def op_ok_def)
qed

lemma sum_list_nonzero: "(\<Sum>x \<leftarrow> xs. f x) \<noteq> (0 :: int) \<Longrightarrow> \<exists>x \<in> set xs. f x \<noteq> 0"
  by (induction xs) auto

lemma pass_inv:
  assumes si: "si_wf si" and inv: "sem_inv si st" and u: "u_error u = E_OK"
    and i: "fst (semconv si semid u st) = Some i" and ops: "ops_for (sema st ! i) ops"
    and r: "semop_pass si semid (sem_base (sema st ! i)) [] ops u st = (res, u', st')"
  shows "sem_inv si st'" and "sema st' = sema st" and "p_pid u' = p_pid u"
    and "length (semv st') = length (semv st)"
proof -
  have uwf: "undo_wf si st" and vals: "vals_ok si st" using inv by (simp_all add: sem_inv_def)
  note ok = ops_for_ok [OF si inv i ops]
  have sp: "undo_wf si st' \<and>
    (if res = PassDone then u' = u \<and> vals_ok si st' \<and>
        applied si semid (sem_base (sema st ! i)) (p_index u) (rev ops @ []) st st'
     else veq st st' \<and>
       (if res = PassError then \<exists>e. e \<noteq> E_OK \<and> u' = set_error e u
        else u' = u \<and> (\<exists>n op. res = PassWait n op \<and> op \<in> set ops)))"
    by (rule semop_pass_spec [OF si uwf vals u _ _ _ r]) (use ok in simp_all)
  show "p_pid u' = p_pid u" using sp by (auto split: if_splits)
  have frame: "length (semv st') = length (semv st) \<and> sema st' = sema st \<and> semmap st' = semmap st"
    using sp applied_frame [of si semid _ _ _ st st'] by (auto simp: veq_def split: if_splits)
  then show "sema st' = sema st" "length (semv st') = length (semv st)" by simp_all
  show "sem_inv si st'"
  proof (rule sem_inv_change [OF si inv])
    show "vals_ok si st'" using sp vals veq_vals_ok by (auto split: if_splits)
    show "adj st q s n \<noteq> 0 \<or>
      (\<exists>i. fst (semconv si s v st) = Some i \<and> 0 \<le> n \<and> n < sem_nsems (sema st ! i))"
      if nz: "adj st' q s n \<noteq> 0" for q s n v
    proof (cases "res = PassDone")
      case True
      then have "adj st' q s n = adj st q s n - (\<Sum>op \<leftarrow> rev ops. op_adj (p_index u) semid op q s n)"
        using sp applied_vals by auto
      then have "adj st q s n \<noteq> 0 \<or> (\<Sum>op \<leftarrow> rev ops. op_adj (p_index u) semid op q s n) \<noteq> 0"
        using nz by auto
      then show ?thesis
      proof
        assume "(\<Sum>op \<leftarrow> rev ops. op_adj (p_index u) semid op q s n) \<noteq> 0"
        then obtain op where "op \<in> set ops" "s = semid" "n = sem_num op"
          using sum_list_nonzero by (fastforce simp: op_adj_def split: if_splits)
        moreover have "fst (semconv si semid v st) = Some i" using i semconv_indep by metis
        ultimately show ?thesis using ops by (auto simp: ops_for_def)
      qed simp
    next
      case False
      then show ?thesis using sp nz by (simp add: veq_def)
    qed
  qed (use sp frame in simp_all)
qed

lemma otime_inv:
  assumes "si_wf si" and "sem_inv si st"
  shows "sem_inv si (st\<lparr>sema := (sema st)[i := (sema st ! i)\<lparr>sem_otime := t\<rparr>]\<rparr>)"
  by (rule sem_inv_cong [OF assms])
    (simp_all add: same_undo_def, intro nth_equalityI, auto simp: nth_upd)

definition run_state :: "sem_run \<Rightarrow> semstate" where
  "run_state r = (case r of Finished u st \<Rightarrow> st | Sleeping n k u st \<Rightarrow> st)"

text \<open>From entry, or from the end of a sleep, to the next sleep or the return.\<close>

lemma semop_segment_inv:
  assumes si: "si_wf si" and inv: "sem_inv si st" and u: "u_error u = E_OK"
    and i: "fst (semconv si semid u st) = Some i" and ops: "ops_for (sema st ! i) ops"
  shows "sem_inv si (run_state (semop_loop si semid i ops again [] u st))"
proof -
  obtain res u1 st1 where p: "semop_pass si semid (sem_base (sema st ! i)) [] ops u st = (res, u1, st1)"
    by (cases "semop_pass si semid (sem_base (sema st ! i)) [] ops u st") auto
  note pi = pass_inv [OF si inv u i ops p]
  have vals1: "vals_ok si st1" using pi(1) by (simp add: sem_inv_def)
  show ?thesis
  proof (cases res)
    case PassDone
    have "sem_inv si (set_pids pid b ops st1)" for pid b
      by (rule sem_inv_only [OF si pi(1) only_sems_loops(3)]) (use vals1 in \<open>simp add: vals_ok_def\<close>)
    then show ?thesis
      using p PassDone i otime_inv [OF si] by (simp add: run_state_def Let_def)
  next
    case PassError
    then show ?thesis using p i pi(1) by (simp add: run_state_def Let_def)
  next
    case (PassWait n op)
    have "sem_inv si (begin_wait n k st1)" for k
      by (rule sem_inv_only [OF si pi(1) wait_frame(1)])
        (use vals1 wait_frame(1) [of st1 n k] in \<open>simp add: vals_ok_def wait_frame only_sems_def\<close>)
    then show ?thesis using p PassWait i pi(1) by (simp add: run_state_def Let_def)
  qed
qed

section \<open>Boot\<close>

text \<open>Zeroed arrays of the configured sizes; the map array has room for \<^verbatim>\<open>seminfo.semmap\<close> entries.\<close>

definition sem_boot :: "seminfo \<Rightarrow> semstate \<Rightarrow> bool" where
  "sem_boot si st \<longleftrightarrow>
     length (sema st) = nat (semmni si) \<and> length (semv st) = nat (semmns si) \<and>
     (\<forall>e \<in> set (sema st). ip_mode (sem_perm e) = 0 \<and> ip_seq (sem_perm e) = 0) \<and>
     (\<forall>x \<in> set (semv st). semval x = 0) \<and>
     3 \<le> si_semmap si \<and> si_semmap si \<le> 32767 \<and>
     im_slots (semmap st) = replicate (nat (si_semmap si - 1)) zero_ent \<and> ipcmapwant (semmap st) = 0 \<and>
     (\<forall>p. sem_undos st p = None) \<and> length (semu st) = semmnu si \<and> 0 < semmnu si \<and>
     (\<forall>x \<in> set (semu st). un_ent x = []) \<and> semunp st = None"

lemma boot_chain:
  assumes "i \<le> m"
  shows "lseg (map (\<lambda>i. (f i)\<lparr>un_np := (if Suc i < m then Some (Suc i) else None)\<rparr>) [0..<m])
    (if i < m then Some i else None) [i..<m] None"
  using assms
proof (induction "m - i" arbitrary: i)
  case (Suc d)
  then have i: "i < m" by simp
  then have "[i..<m] = i # [Suc i..<m]" by (rule upt_conv_Cons)
  moreover have "d = m - Suc i" "Suc i \<le> m" using Suc.hyps(2) i by simp_all
  note Suc.hyps(1) [OF this]
  ultimately show ?case using i by (cases "Suc i < m") simp_all
qed simp

lemma seminit_inv:
  assumes si: "si_wf si" and b: "sem_boot si st"
  shows "\<exists>st'. seminit si st = Ret st' \<and> sem_inv si st'"
proof -
  define m0 where "m0 = ipcmapinit (semmap st) (si_semmap si)"
  have m0: "ipcmapsize m0 = int (nat (si_semmap si - 2))" "im_slots m0 = replicate (Suc (nat (si_semmap si - 2))) zero_ent"
    "ipcmapwant m0 = 0"
  proof -
    have "to_s16 (si_semmap si - 2) = si_semmap si - 2" using b by (intro to_s16_id) (simp_all add: sem_boot_def)
    then show "ipcmapsize m0 = int (nat (si_semmap si - 2))" using b by (simp add: m0_def ipcmapinit_def sem_boot_def)
    have "3 \<le> si_semmap si" using b by (simp add: sem_boot_def)
    then have "nat (si_semmap si - 1) = Suc (nat (si_semmap si - 2))" by arith
    then show "im_slots m0 = replicate (Suc (nat (si_semmap si - 2))) zero_ent"
      using b by (simp add: m0_def ipcmapinit_def sem_boot_def)
    show "ipcmapwant m0 = 0" using b by (simp add: m0_def ipcmapinit_def sem_boot_def)
  qed
  have wf0: "imap_wf m0 \<and> imap_segs m0 = []"
    using m0 b by (intro imap_wfI [where k = "nat (si_semmap si - 2)"]) (simp_all add: sem_boot_def)
  define n where "n = nat (semmns si)"
  have n: "0 < n" "1 + n < map_lim" "semmns si = int n" using si unfolding n_def si_wf_def by linarith+
  have "ipcmapsize m0 \<noteq> 0" using m0 b by (simp add: sem_boot_def)
  then obtain mp where mp: "ipcmfree m0 (int n) (int 1) = Ret (mp, False)" "imap_wf mp" "units (imap_segs mp) = {1..<1 + n}"
    using ipcmfree_effect [of m0 n 1] wf0 n m0(3) by auto
  define st' where "st' = st\<lparr>semmap := mp,
      semu := map (\<lambda>i. (semu st ! i)\<lparr>un_np := (if Suc i < semmnu si then Some (Suc i) else None)\<rparr>)
                         [0..<length (semu st)], semfup := Some 0\<rparr>"
  have init: "seminit si st = Ret st'"
    using mp(1) n(3) by (simp add: seminit_def m0_def st'_def)
  have ent: "un_ent (semu st' ! i) = []" if "i < semmnu si" for i
    using b that by (simp add: st'_def sem_boot_def)
  have len: "length (semu st') = semmnu si" using b by (simp add: st'_def sem_boot_def)
  have "undo_rep si st' [] [0..<semmnu si]"
    unfolding undo_rep_def
  proof (intro conjI)
    show "chain (semu st') (semfup st') [0..<semmnu si]"
      using boot_chain [of 0 "semmnu si" "\<lambda>i. semu st ! i"] b by (simp add: st'_def sem_boot_def)
  qed (use b ent len in \<open>auto simp: sem_boot_def st'_def ents_ok_def\<close>)
  then have "undo_wf si st'" by (auto simp: undo_wf_def)
  moreover have noadj: "adj st' q s m = 0" for q s m using b by (simp add: adj_def st'_def sem_boot_def)
  moreover have "vals_ok si st'" using b si by (simp add: vals_ok_def st'_def sem_boot_def si_wf_def)
  moreover have "sets_wf si st'"
  proof -
    have un: "\<not> allocated (sem_perm (sema st ! i))" if "i < length (sema st)" for i
      using b that by (simp add: sem_boot_def allocated_def)
    then have dead: "\<not> live st' i" for i by (auto simp: live_def st'_def)
    have "units (imap_segs mp) \<subseteq> {1..nat (semmns si)}" using mp(3) by (auto simp: n_def)
    then show ?thesis
      using b mp(2) un dead unfolding sets_wf_def keys_unique_def by (simp add: st'_def sem_boot_def)
  qed
  ultimately show ?thesis using init by (simp add: sem_inv_def adj_ok_def)
qed

section \<open>Steps of the facility\<close>

text \<open>Copies from user memory that do not sleep.\<close>

definition quiet_mem :: "sem_mem \<Rightarrow> bool" where
  "quiet_mem mem \<longleftrightarrow> (\<forall>s. fst (in_ds mem s) = s) \<and> (\<forall>n s. fst (in_vals mem n s) = s) \<and>
     (\<forall>n s s' vs. in_vals mem n s = (s', Some vs) \<longrightarrow> length vs = n \<and> (\<forall>v \<in> set vs. 0 \<le> v))"

lemma semctl1_inv:
  assumes si: "si_wf si" and inv: "sem_inv si st" and mem: "quiet_mem mem"
    and r: "semctl1 si old semid num cmd arg mem u st = Ret (out, u', st')"
  shows "sem_inv si st'"
proof (cases "fst (semconv si semid u st)")
  case None
  then have "semctl1 si old semid num cmd arg mem u st = Ret (NoOut, snd (semconv si semid u st), st)"
    by (cases "semconv si semid u st") (simp add: semctl1_def)
  then show ?thesis using r inv by simp
next
  case (Some i)
  let ?u = "u\<lparr>u_rval1 := 0\<rparr>"
  have sc: "semconv si semid u st = (Some i, u)" using semconv_snd [OF Some] .
  have i: "fst (semconv si semid ?u st) = Some i" using Some semconv_indep by metis
  have m: "\<And>s. fst (in_ds mem s) = s" "\<And>n s. fst (in_vals mem n s) = s"
    "\<And>n s s' vs. in_vals mem n s = (s', Some vs) \<Longrightarrow> \<forall>v \<in> set vs. 0 \<le> v"
    using mem by (auto simp: quiet_mem_def)
  show ?thesis
    using r sem_rmid_inv [OF si inv i] sem_set_inv [OF si inv m(1) i] sem_setval_inv [OF si inv]
      sem_setall_inv [OF si inv m(2,3)] inv
    by (auto simp: semctl1_def sc Let_def obind_Ret_iff split: if_splits prod.splits)
qed

text \<open>
  A step is a whole call, except that \<^verbatim>\<open>semop\<close> is cut at its sleeps: from the check of
  the arguments, or from the end of a sleep, to the next sleep or the return.
\<close>

inductive sem_step :: "seminfo \<Rightarrow> semstate \<Rightarrow> semstate \<Rightarrow> bool" for si where
  step_get: "semget si key nsems flg u st = Ret (u', st') \<Longrightarrow> sem_step si st st'"
| step_ctl: "semctl1 si old semid num cmd arg mem u st = Ret (out, u', st') \<Longrightarrow> quiet_mem mem \<Longrightarrow>
    sem_step si st st'"
| step_op: "fst (semconv si semid u st) = Some i \<Longrightarrow> ops_for (sema st ! i) ops \<Longrightarrow> u_error u = E_OK \<Longrightarrow>
    sem_step si st (run_state (semop_loop si semid i ops again [] u st))"
| step_intr: "sem_step si st (end_wait n k st)"
| step_exit: "semexit si u st = (u', st') \<Longrightarrow> sem_step si st st'"
| step_clock: "sem_step si st (st\<lparr>sem_time := t\<rparr>)"

inductive sem_reachable :: "seminfo \<Rightarrow> semstate \<Rightarrow> bool" for si where
  sem_start: "sem_boot si st0 \<Longrightarrow> seminit si st0 = Ret st \<Longrightarrow> sem_reachable si st"
| sem_next: "sem_reachable si st \<Longrightarrow> sem_step si st st' \<Longrightarrow> sem_reachable si st'"

lemma sem_step_inv: "sem_step si st st' \<Longrightarrow> si_wf si \<Longrightarrow> sem_inv si st \<Longrightarrow> sem_inv si st'"
proof (induction rule: sem_step.induct)
  case (step_get key nsems flg u st u' st')
  show ?case by (rule semget_inv [OF step_get.prems step_get.hyps])
next
  case (step_ctl old semid num cmd arg mem u st out u' st')
  show ?case by (rule semctl1_inv [OF step_ctl.prems step_ctl.hyps(2,1)])
next
  case (step_op semid u st i ops again)
  show ?case by (rule semop_segment_inv [OF step_op.prems step_op.hyps(3,1,2)])
next
  case (step_intr st n k)
  have "length (semv (end_wait n k st)) = length (semv st)"
    using wait_frame(2) [of st n k] by (simp add: only_sems_def)
  then show ?case
    using step_intr by (intro sem_inv_only [OF _ _ wait_frame(2)]) (simp_all add: vals_ok_def wait_frame sem_inv_def)
next
  case (step_exit u st u' st')
  show ?case using semexit_spec [OF step_exit.prems step_exit.hyps] by simp
next
  case (step_clock st t)
  show ?case
    by (rule sem_inv_cong [OF step_clock.prems]) (simp_all add: same_undo_def)
qed

lemma sem_reachable_inv: "sem_reachable si st \<Longrightarrow> si_wf si \<Longrightarrow> sem_inv si st"
proof (induction rule: sem_reachable.induct)
  case (sem_start st0 st)
  then show ?case using seminit_inv by fastforce
next
  case (sem_next st st')
  show ?case by (rule sem_step_inv [OF sem_next.hyps(2) sem_next.prems sem_next.IH [OF sem_next.prems]])
qed

section \<open>An example system\<close>

definition ex_si :: seminfo where
  "ex_si = \<lparr>si_semmap = 4, semmni = 2, semmns = 4, semmnu = 2, semmsl = 3, semopm = 5, semume = 2,
     semvmx = 10, semaem = 8\<rparr>"

definition ex_perm0 :: ipc_perm where
  "ex_perm0 = \<lparr>ip_uid = 0, ip_gid = 0, ip_cuid = 0, ip_cgid = 0, ip_mode = 0, ip_seq = 0, ip_key = 0\<rparr>"

definition ex_free :: semid_ds where
  "ex_free = \<lparr>sem_perm = ex_perm0, sem_base = 0, sem_nsems = 0, sem_otime = 0, sem_ctime = 0\<rparr>"

definition ex_boot :: semstate where
  "ex_boot = \<lparr>sema = [ex_free, ex_free],
     semv = [zero_sem, zero_sem, zero_sem, zero_sem],
     semmap = \<lparr>ipcmapsize = 0, ipcmapwant = 0, im_slots = [zero_ent, zero_ent, zero_ent], im_lost = []\<rparr>,
     sem_undos = (\<lambda>p. None), semu = [\<lparr>un_np = None, un_ent = []\<rparr>, \<lparr>un_np = None, un_ent = []\<rparr>], semunp = None, semfup = None,
     sem_time = 100, sem_woken = []\<rparr>"

definition ex_map :: "nat \<Rightarrow> nat \<Rightarrow> ipcmap" where
  "ex_map a n = \<lparr>ipcmapsize = 1, ipcmapwant = 0,
     im_slots = [\<lparr>im_size = int n, im_addr = int a\<rparr>, zero_ent, zero_ent], im_lost = []\<rparr>"

definition ex_init :: semstate where
  "ex_init = ex_boot\<lparr>semmap := ex_map 1 4,
     semu := [\<lparr>un_np = Some 1, un_ent = []\<rparr>, \<lparr>un_np = None, un_ent = []\<rparr>], semfup := Some 0\<rparr>"

definition ex_perm1 :: ipc_perm where
  "ex_perm1 = \<lparr>ip_uid = 8, ip_gid = 9, ip_cuid = 8, ip_cgid = 9, ip_mode = 0x8180, ip_seq = 0, ip_key = 77\<rparr>"

definition ex_set :: semstate where
  "ex_set = ex_init\<lparr>semmap := ex_map 3 2,
     sema := [\<lparr>sem_perm = ex_perm1, sem_base = 0, sem_nsems = 2, sem_otime = 0, sem_ctime = 100\<rparr>,
              ex_free]\<rparr>"

lemma ex_si_wf: "si_wf ex_si"
  by (simp add: si_wf_def ex_si_def)

lemma ex_boot_ok: "sem_boot ex_si ex_boot"
  by (simp add: sem_boot_def ex_boot_def ex_si_def ex_free_def ex_perm0_def zero_sem_def numeral_3_eq_3)

lemma ex_map_eq: "ipcmfree (ipcmapinit (semmap ex_boot) 4) 4 1 = Ret (ex_map 1 4, False)"
  by (simp add: ex_boot_def ex_map_def ipcmapinit_def ipcmfree_def ipcmfree_wake_def to_s16_def to_u16_def)

lemma ex_init_eq: "seminit ex_si ex_boot = Ret ex_init"
proof -
  have "si_semmap ex_si = 4" "semmns ex_si = 4" "semmnu ex_si = 2" by (simp_all add: ex_si_def)
  moreover have "[0..<length (semu ex_boot)] = [0, 1]" by (simp add: ex_boot_def upt_conv_Cons)
  ultimately show ?thesis
    using ex_map_eq by (simp add: seminit_def ex_init_def) (simp add: ex_boot_def)
qed

lemma ex_perm_eq: "ipcgetperm 77 0x380 user_example (map sem_perm (sema ex_init)) =
    Inr (0, 1, [ex_perm1, ex_perm0])"
  by (simp add: ex_init_def ex_boot_def ex_free_def ex_perm0_def ex_perm1_def ipcgetperm_def allocated_def
      ipc_init_def user_example_def)

lemma ex_alloc_eq: "ipcmalloc (ex_map 1 4) 2 = Ret (1, ex_map 3 2)"
  by (simp add: ex_map_def ipcmalloc_def Let_def to_s16_def to_u16_def)

lemma ex_set_eq: "semget ex_si 77 2 0x380 user_example ex_init = Ret (user_example, ex_set)"
proof -
  have m: "semmap ex_init = ex_map 1 4" "semmni ex_si = 2" "semmsl ex_si = 3" "u_rval1 user_example = 0"
    "to_s32 0 = 0" "to_u16 2 = 2"
    by (simp_all add: ex_init_def ex_si_def user_example_def to_s32_def to_u16_def)
  have p: "put_perms [ex_perm1, ex_perm0] ex_init = ex_init\<lparr>sema := [ex_free\<lparr>sem_perm := ex_perm1\<rparr>, ex_free]\<rparr>"
    by (simp add: put_perms_def ex_init_def ex_boot_def ex_free_def)
  have b: "bzero_sems 0 2 s = s" if "semv s = [zero_sem, zero_sem, zero_sem, zero_sem]" for s
    using that by (simp add: numeral_2_eq_2 upd_sem_def)
  have v: "semv ex_init = [zero_sem, zero_sem, zero_sem, zero_sem]" "sem_time ex_init = 100"
    by (simp_all add: ex_init_def ex_boot_def)
  have "semget ex_si 77 2 0x380 user_example ex_init =
      Ret (user_example\<lparr>u_rval1 := 0\<rparr>, ex_init\<lparr>semmap := ex_map 3 2,
        sema := [ex_free\<lparr>sem_perm := ex_perm1, sem_nsems := 2, sem_ctime := 100\<rparr>, ex_free]\<rparr>)"
    unfolding semget_def ex_perm_eq sum.case prod.case Let_def p
    by (simp add: m ex_alloc_eq [unfolded One_nat_def] v b) (simp add: m ex_free_def ex_perm1_def)
  moreover have "user_example\<lparr>u_rval1 := 0\<rparr> = user_example" by (simp add: user_example_def)
  ultimately show ?thesis by (simp add: ex_set_def ex_free_def)
qed

lemma ex_reachable: "sem_reachable ex_si ex_set"
  using sem_next [OF sem_start [OF ex_boot_ok ex_init_eq] step_get [OF ex_set_eq]] .

section \<open>Identifiers\<close>

lemma put_perms_perms:
  assumes "length ps = length (sema st)"
  shows "map sem_perm (sema (put_perms ps st)) = ps"
proof -
  have "map sem_perm (map2 (\<lambda>sp p. sp\<lparr>sem_perm := p\<rparr>) xs ps) = ps" if "length ps = length xs" for xs :: "semid_ds list"
    using that by (induction xs ps rule: list_induct2') auto
  then show ?thesis using assms by (simp add: put_perms_def)
qed

lemma semget_entry:
  assumes ku: "keys_unique (map sem_perm (sema st))" and r: "semget si key nsems flg u st = Ret (u', st')"
  shows "map (\<lambda>e. ip_seq (sem_perm e)) (sema st') = map (\<lambda>e. ip_seq (sem_perm e)) (sema st)"
    and "u_error u = E_OK \<Longrightarrow> u_error u' = E_OK \<Longrightarrow>
      \<exists>i < length (sema st). key_match key (sem_perm (sema st' ! i)) \<and> u_rval1 u' = to_s32 (set_id si st' i)"
proof -
  let ?A = "map (\<lambda>e. ip_seq (sem_perm e)) (sema st') = map (\<lambda>e. ip_seq (sem_perm e)) (sema st)"
  let ?B = "u_error u = E_OK \<longrightarrow> u_error u' = E_OK \<longrightarrow>
      (\<exists>i < length (sema st). key_match key (sem_perm (sema st' ! i)) \<and> u_rval1 u' = to_s32 (set_id si st' i))"
  have "?A \<and> ?B"
  proof (cases "ipcgetperm key flg u (map sem_perm (sema st))")
    case (Inl e)
    moreover have "e \<noteq> E_OK"
      using ipcgetperm_Inl [OF Inl] by auto
    ultimately show ?thesis using r by (auto simp: semget_def)
  next
    case (Inr x)
    then obtain i s ps where g: "ipcgetperm key flg u (map sem_perm (sema st)) = Inr (i, s, ps)" by (cases x) auto
    note res = ipcgetperm_result [OF ku g]
    have len: "length ps = length (sema st)" "i < length (sema st)" "key_match key (ps ! i)" using res by auto
    have seqs: "map ip_seq ps = map (\<lambda>e. ip_seq (sem_perm e)) (sema st)"
    proof (rule nth_equalityI)
      fix j assume "j < length (map ip_seq ps)"
      then have j: "j < length (sema st)" using len by simp
      have "ip_seq (ps ! j) = ip_seq (sem_perm (sema st ! j))"
      proof (cases "s = 0")
        case True
        then show ?thesis using res j by simp
      next
        case False
        then have "ps = (map sem_perm (sema st))[i := ps ! i]" "ip_seq (ps ! i) = ip_seq (sem_perm (sema st ! i))"
          using res len by auto
        note e = this
        have "ps ! j = (if j = i then ps ! i else sem_perm (sema st ! j))"
          using j by (subst e(1)) (simp add: nth_list_update)
        then show ?thesis using e(2) by simp
      qed
      then show "map ip_seq ps ! j = map (\<lambda>e. ip_seq (sem_perm e)) (sema st) ! j" using j len by simp
    qed (simp add: len)
    define st1 where "st1 = put_perms ps st"
    have perms1: "map sem_perm (sema st1) = ps" using put_perms_perms [OF len(1)] by (simp add: st1_def)
    have good: "?A \<and> ?B" if "map sem_perm (sema st') = ps" "u_rval1 u' = to_s32 (set_id si st' i)"
    proof -
      have "map (\<lambda>e. ip_seq (sem_perm e)) (sema st') = map ip_seq (map sem_perm (sema st'))" by simp
      then have "?A" using that(1) seqs by simp
      moreover have "map sem_perm (sema st') ! i = ps ! i" by (simp only: that(1))
      then have "sem_perm (sema st' ! i) = ps ! i" using arg_cong [OF that(1), of length] len by simp
      ultimately show ?thesis using len that(2) by auto
    qed
    have bad: "?A \<and> ?B" if "u_error u' \<noteq> E_OK" "map (\<lambda>e. ip_seq (sem_perm e)) (sema st') = map ip_seq ps"
      using that seqs by simp
    have seq1: "map (\<lambda>e. ip_seq (sem_perm e)) (sema st1) = map ip_seq ps"
      using arg_cong [OF perms1, of "map ip_seq"] by (simp add: comp_def)
    have clr: "map (\<lambda>e. ip_seq (sem_perm e)) (sema (clear_mode i (st1\<lparr>semmap := m\<rparr>))) = map ip_seq ps"
      "map (\<lambda>e. ip_seq (sem_perm e)) (sema (clear_mode i st1)) = map ip_seq ps" for m
      unfolding clear_mode_def seq1 [symmetric] by (auto intro!: nth_equalityI simp: nth_upd)
    have bz: "sema (bzero_sems k n t) = sema t" for k n t using only_sems_loops(4) by (simp add: only_sems_def)
    have li: "i < length (sema st1)" using arg_cong [OF perms1, of length] len by simp
    show ?thesis
    proof (cases "s = 0")
      case True
      show ?thesis
      proof (cases "nsems \<noteq> 0 \<and> sem_nsems (sema st1 ! i) < nsems")
        case bad: True
        then show ?thesis using r g True seq1 seqs by (auto simp: semget_def Let_def st1_def)
      next
        case False
        then have "st' = st1" "u_rval1 u' = to_s32 (set_id si st' i)"
          using r g True by (auto simp: semget_def Let_def st1_def set_id_def)
        then show ?thesis using perms1 by (intro good) simp_all
      qed
    next
      case new: False
      show ?thesis
      proof (cases "nsems \<le> 0 \<or> nsems > semmsl si")
        case True
        then show ?thesis using r g new clr by (intro bad) (auto simp: semget_def Let_def st1_def)
      next
        case False
        then obtain a mp where al: "ipcmalloc (semmap st1) nsems = Ret (a, mp)"
          using r g new by (auto simp: semget_def Let_def st1_def obind_Ret_iff)
        show ?thesis
        proof (cases "a = 0")
          case True
          then show ?thesis using r g new False al clr
            by (intro bad) (auto simp: semget_def Let_def st1_def)
        next
          case ok: False
          let ?st3 = "bzero_sems (nat (a - 1)) (nat nsems) (st1\<lparr>semmap := mp\<rparr>)"
          let ?e = "(sema ?st3 ! i)\<lparr>sem_base := nat (a - 1), sem_nsems := to_u16 nsems,
              sem_ctime := sem_time ?st3, sem_otime := 0\<rparr>"
          have st': "st' = ?st3\<lparr>sema := (sema ?st3)[i := ?e]\<rparr>" "u_rval1 u' = to_s32 (set_id si st' i)"
            using r g new False al ok by (auto simp: semget_def Let_def st1_def set_id_def)
          have "sema st' = (sema st1)[i := ?e]" by (simp add: st'(1) bz)
          then have "map sem_perm (sema st') = (map sem_perm (sema st1))[i := sem_perm (sema st1 ! i)]"
            by (simp add: map_update bz)
          also have "\<dots> = map sem_perm (sema st1)" using li by (simp add: list_update_same_conv)
          finally show ?thesis using st'(2) perms1 by (intro good) simp_all
        qed
      qed
    qed
  qed
  then show ?A "u_error u = E_OK \<Longrightarrow> u_error u' = E_OK \<Longrightarrow>
      \<exists>i < length (sema st). key_match key (sem_perm (sema st' ! i)) \<and> u_rval1 u' = to_s32 (set_id si st' i)"
    by auto
qed

lemma set_id_s32:
  assumes "si_wf si" and "sets_wf si st" and "i < length (sema st)"
  shows "to_s32 (set_id si st i) = set_id si st i" and "0 \<le> set_id si st i"
proof -
  let ?q = "ip_seq (sem_perm (sema st ! i))"
  have q: "0 \<le> ?q" "?q \<le> 65535" and m: "0 < semmni si" "semmni si \<le> 32767" and i: "int i < semmni si"
    using assms by (auto simp: sets_wf_def si_wf_def)
  have "?q * semmni si \<le> 65535 * 32767" using q m by (intro mult_mono) simp_all
  moreover have "0 \<le> ?q * semmni si" using q m by simp
  ultimately show "to_s32 (set_id si st i) = set_id si st i" "0 \<le> set_id si st i"
    using i m by (simp_all add: set_id_def to_s32_id)
qed

section \<open>Properties\<close>

lemma ex_inv: "sem_inv ex_si ex_set"
  by (rule sem_reachable_inv [OF ex_reachable ex_si_wf])

lemma ex_semconv: "fst (semconv ex_si 0 u ex_set) = Some 0"
  by (simp add: semconv_def ex_set_def ex_si_def ex_perm1_def allocated_def)

text \<open>
  C4. \<^verbatim>\<open>semop\<close> is all or nothing. One pass over the operations either completes, and
  then every semaphore has changed by the sum of the operations on it, every pending
  adjustment by the sum of the SEM_UNDO operations on it, and all values are within 0 and
  SEMVMX; or it fails with an error or must wait, and then the operations already done
  have been taken back exactly: every semaphore value and every process's pending
  adjustments are as before, including the adjustments that had been merged or deleted.
\<close>

theorem semop_all_or_nothing:
  assumes "si_wf si" and "sem_inv si st" and "u_error u = E_OK"
    and "fst (semconv si semid u st) = Some i" and "ops_for (sema st ! i) ops"
    and "semop_pass si semid (sem_base (sema st ! i)) [] ops u st = (res, u', st')"
  shows "sem_inv si st' \<and> sema st' = sema st \<and>
    (if res = PassDone then u' = u \<and>
       (\<forall>k < length (semv st). sv st' k = sv st k + (\<Sum>op \<leftarrow> ops. op_val (sem_base (sema st ! i)) op k)) \<and>
       (\<forall>q s n. adj st' q s n = adj st q s n - (\<Sum>op \<leftarrow> ops. op_adj (p_index u) semid op q s n))
     else
       (\<forall>k < length (semv st). sv st' k = sv st k) \<and> (\<forall>q s n. adj st' q s n = adj st q s n) \<and>
       (if res = PassError then \<exists>e. e \<noteq> E_OK \<and> u' = set_error e u
        else u' = u \<and> (\<exists>n op. res = PassWait n op \<and> op \<in> set ops)))"
proof -
  have uwf: "undo_wf si st" and vals: "vals_ok si st" using assms(2) by (simp_all add: sem_inv_def)
  note ok = ops_for_ok [OF assms(1,2,4,5)]
  have sp: "undo_wf si st' \<and>
    (if res = PassDone then u' = u \<and> vals_ok si st' \<and>
        applied si semid (sem_base (sema st ! i)) (p_index u) (rev ops @ []) st st'
     else veq st st' \<and>
       (if res = PassError then \<exists>e. e \<noteq> E_OK \<and> u' = set_error e u
        else u' = u \<and> (\<exists>n op. res = PassWait n op \<and> op \<in> set ops)))"
    by (rule semop_pass_spec [OF assms(1) uwf vals assms(3) _ _ _ assms(6)]) (use ok in simp_all)
  have sum_rev: "(\<Sum>x \<leftarrow> rev xs. f x) = (\<Sum>x \<leftarrow> xs. f x :: int)" for f :: "sembuf \<Rightarrow> int" and xs
    by (simp add: rev_map [symmetric] sum_list_rev)
  note inv = pass_inv [OF assms(1-5) assms(6)]
  show ?thesis
  proof (cases "res = PassDone")
    case True
    then have ap: "applied si semid (sem_base (sema st ! i)) (p_index u) (rev ops) st st'" using sp by simp
    note v = applied_vals [OF ap, unfolded sum_rev]
    show ?thesis using True sp inv(1,2) v by simp
  next
    case False
    then show ?thesis using sp inv by (simp add: veq_def)
  qed
qed

text \<open>Three operations of which the third must wait: the first two are taken back.\<close>

theorem semop_all_or_nothing_witness:
  "\<exists>u' st'. semop_pass ex_si 0 0 [] [\<lparr>sem_num = 0, sem_op = 3, sem_flg = 0x1000\<rparr>,
      \<lparr>sem_num = 1, sem_op = 1, sem_flg = 0\<rparr>, \<lparr>sem_num = 1, sem_op = -2, sem_flg = 0\<rparr>] user_example ex_set
    = (PassWait True \<lparr>sem_num = 1, sem_op = -2, sem_flg = 0\<rparr>, u', st') \<and> u' = user_example \<and>
    (\<forall>k < 4. sv st' k = 0) \<and> (\<forall>q s n. adj st' q s n = 0)"
proof -
  let ?ops = "[\<lparr>sem_num = 0, sem_op = 3, sem_flg = 0x1000\<rparr>,
      \<lparr>sem_num = 1, sem_op = 1, sem_flg = 0\<rparr>, \<lparr>sem_num = 1, sem_op = -2, sem_flg = 0\<rparr>]"
  obtain res u' st' where p: "semop_pass ex_si 0 0 [] ?ops user_example ex_set = (res, u', st')"
    by (cases "semop_pass ex_si 0 0 [] ?ops user_example ex_set") auto
  have res: "res = PassWait True \<lparr>sem_num = 1, sem_op = -2, sem_flg = 0\<rparr>"
  proof -
    have v: "semv ex_set = [zero_sem, zero_sem, zero_sem, zero_sem]" by (simp add: ex_set_def ex_init_def ex_boot_def)
    have a: "semaoe ex_si 3 0 0 user_example ex_set = (False, user_example, ex_set
        \<lparr>semfup := Some 1, sem_undos := (\<lambda>p. None)(1 := Some 0), semunp := Some 0,
         semu := [\<lparr>un_np = None, un_ent = [\<lparr>un_aoe = -3, un_num = 0, un_id = 0\<rparr>]\<rparr>, \<lparr>un_np = None, un_ent = []\<rparr>]\<rparr>)"
      by (simp add: semaoe_def semaoe_struct_def semaoe_entry_def ex_si_def ex_set_def ex_init_def ex_boot_def
          user_example_def set_np_def set_ent_def Let_def to_s16_def)
    show ?thesis using p
      by (simp add: sem_do_op_def op_aoe_def a v Let_def ex_si_def [THEN arg_cong [of _ _ semvmx]] to_u16_def to_s16_def
          upd_sem_def wake_ncnt_def zero_sem_def split: prod.splits)
  qed
  have u: "u_error user_example = E_OK" by (simp add: user_example_def)
  have b: "sema ex_set ! 0 = \<lparr>sem_perm = ex_perm1, sem_base = 0, sem_nsems = 2, sem_otime = 0, sem_ctime = 100\<rparr>"
    by (simp add: ex_set_def)
  have ops: "ops_for (sema ex_set ! 0) ?ops" by (simp add: ops_for_def b)
  have p': "semop_pass ex_si 0 (sem_base (sema ex_set ! 0)) [] ?ops user_example ex_set = (res, u', st')"
    using p by (simp add: b)
  have z: "sv ex_set k = 0" if "k < 4" for k
    using that by (auto simp: ex_set_def ex_init_def ex_boot_def zero_sem_def less_Suc_eq eval_nat_numeral)
  have l: "length (semv ex_set) = 4" "adj ex_set q s n = 0" for q s n
    by (simp_all add: ex_set_def ex_init_def ex_boot_def adj_def)
  show ?thesis
    using semop_all_or_nothing [OF ex_si_wf ex_inv u ex_semconv ops p'] res p z l by auto
qed

text \<open>
  C5. In every state the facility can reach from boot, by any interleaving of the system
  calls of any processes, process exits and interrupted sleeps, when the copies of user
  memory do not sleep: no two sets have the same key, IPC_PRIVATE apart; each semaphore
  value is between 0 and SEMVMX; the semaphores of different sets are disjoint, lie inside
  the array and are not in the free map; every pending adjustment names a semaphore of an
  existing set; and the undo entries of each structure are strictly sorted, within the
  limits SEMUME and SEMAEM, and not zero.
\<close>

theorem sem_reachable_safe:
  assumes "si_wf si" and "sem_reachable si st"
  shows "(\<forall>i j. live st i \<longrightarrow> live st j \<longrightarrow> ip_key (sem_perm (sema st ! i)) = ip_key (sem_perm (sema st ! j)) \<longrightarrow>
       ip_key (sem_perm (sema st ! i)) \<noteq> IPC_PRIVATE \<longrightarrow> i = j) \<and>
    (\<forall>x \<in> set (semv st). 0 \<le> semval x \<and> semval x \<le> semvmx si) \<and>
    (\<forall>i j. live st i \<longrightarrow> live st j \<longrightarrow> i \<noteq> j \<longrightarrow> set_units st i \<inter> set_units st j = {}) \<and>
    (\<forall>i. live st i \<longrightarrow> set_units st i \<noteq> {} \<and> set_units st i \<subseteq> {1..length (semv st)} \<and>
       set_units st i \<inter> units (imap_segs (semmap st)) = {}) \<and>
    (\<forall>q s n u. adj st q s n \<noteq> 0 \<longrightarrow>
       (\<exists>i. fst (semconv si s u st) = Some i \<and> 0 \<le> n \<and> n < sem_nsems (sema st ! i))) \<and>
    (\<forall>x \<in> set (semu st). sorted_wrt undo_less (un_ent x) \<and> un_cnt x \<le> semume si \<and>
       (\<forall>e \<in> set (un_ent x). - semaem si \<le> un_aoe e \<and> un_aoe e \<le> semaem si \<and> un_aoe e \<noteq> 0))"
proof -
  have inv: "sem_inv si st" using sem_reachable_inv [OF assms(2,1)] .
  then have vals: "vals_ok si st" and sets: "sets_wf si st" and ao: "adj_ok si st" and uwf: "undo_wf si st"
    by (simp_all add: sem_inv_def)
  have "\<forall>x \<in> set (semv st). 0 \<le> semval x \<and> semval x \<le> semvmx si"
    using vals by (auto simp: vals_ok_def in_set_conv_nth)
  moreover have "\<forall>i. live st i \<longrightarrow> set_units st i \<noteq> {}" using sets by (auto simp: sets_wf_def set_units_def)
  moreover have "\<forall>x \<in> set (semu st). ents_ok si (un_ent x)"
    using uwf by (auto simp: undo_wf_def undo_rep_def in_set_conv_nth)
  moreover have "i = j" if "live st i" "live st j" "ip_key (sem_perm (sema st ! i)) = ip_key (sem_perm (sema st ! j))"
      "ip_key (sem_perm (sema st ! i)) \<noteq> IPC_PRIVATE" for i j
    using sets that by (simp add: sets_wf_def keys_unique_def live_def)
  ultimately show ?thesis
    using sets ao unfolding sets_wf_def adj_ok_def ents_ok_def by simp
qed

theorem sem_reachable_safe_witness:
  "set_units ex_set 0 = {1, 2} \<and> live ex_set 0 \<and> set_units ex_set 0 \<inter> units (imap_segs (semmap ex_set)) = {} \<and>
   units (imap_segs (semmap ex_set)) = {3, 4}"
proof -
  have "live ex_set 0" by (simp add: live_def ex_set_def ex_perm1_def allocated_def)
  moreover have "set_units ex_set 0 = {1, 2}" by (auto simp: set_units_def ex_set_def)
  moreover have "units (imap_segs (semmap ex_set)) = {3, 4}"
    by (auto simp: ex_set_def ex_map_def imap_segs_def)
  ultimately show ?thesis using sem_reachable_safe [OF ex_si_wf ex_reachable] by blast
qed

text \<open>
  C6. \<^verbatim>\<open>semget\<close> and \<^verbatim>\<open>semconv\<close> agree: an identifier returned by a successful
  \<^verbatim>\<open>semget\<close> is a non-negative int that \<^verbatim>\<open>semconv\<close> maps back to the entry holding the
  requested key, and two different live sets have different identifiers.
\<close>

theorem semget_id_valid:
  assumes "si_wf si" and "sem_inv si st" and "u_error u = E_OK"
    and "semget si key nsems flg u st = Ret (u', st')" and "u_error u' = E_OK"
  shows "\<exists>i. semconv si (u_rval1 u') v st' = (Some i, v) \<and> 0 \<le> u_rval1 u' \<and>
    u_rval1 u' < 2147483648 \<and> key_match key (sem_perm (sema st' ! i)) \<and> live st' i \<and>
    (\<forall>j. live st' j \<longrightarrow> set_id si st' j = u_rval1 u' \<longrightarrow> j = i)"
proof -
  have ku: "keys_unique (map sem_perm (sema st))" using assms(2) by (simp add: sem_inv_def sets_wf_def)
  have inv': "sem_inv si st'" by (rule semget_inv [OF assms(1,2,4)])
  then have sets': "sets_wf si st'" by (simp add: sem_inv_def)
  have len: "length (sema st') = length (sema st)"
    using arg_cong [OF semget_entry(1) [OF ku assms(4)], of length] by simp
  obtain i where i: "i < length (sema st)" "key_match key (sem_perm (sema st' ! i))"
    "u_rval1 u' = to_s32 (set_id si st' i)"
    using semget_entry(2) [OF ku assms(4,3,5)] by auto
  have l: "live st' i" using i len by (simp add: live_def key_match_def)
  have id: "u_rval1 u' = set_id si st' i" "0 \<le> u_rval1 u'"
    using set_id_s32 [OF assms(1) sets', of i] i len by simp_all
  have r: "u_rval1 u' < 2147483648" unfolding i(3) by simp
  have c: "fst (semconv si (u_rval1 u') v st') = Some i"
    unfolding id(1) by (rule semconv_set_id [OF assms(1) sets' l])
  have "j = i" if "live st' j" "set_id si st' j = u_rval1 u'" for j
    using semconv_set_id [OF assms(1) sets' that(1), of v] c that(2) by simp
  then show ?thesis using semconv_snd [OF c] i(2) l id(2) r by blast
qed

theorem semget_id_valid_witness:
  "semconv ex_si (u_rval1 user_example) user_example ex_set = (Some 0, user_example)"
proof -
  have e: "u_error user_example = E_OK" by (simp add: user_example_def)
  have i0: "sem_inv ex_si ex_init"
    using sem_reachable_inv [OF sem_start [OF ex_boot_ok ex_init_eq] ex_si_wf] .
  obtain i where i: "semconv ex_si (u_rval1 user_example) user_example ex_set = (Some i, user_example)"
    using semget_id_valid [OF ex_si_wf i0 e ex_set_eq e, of user_example] by auto
  have "u_rval1 user_example = 0" by (simp add: user_example_def)
  then show ?thesis using i ex_semconv [of user_example] by simp
qed

lemma semconv_None: "fst (semconv si semid v s) = None \<Longrightarrow> semconv si semid v s = (None, set_error EINVAL v)"
  by (auto simp: semconv_def Let_def split: if_splits)

text \<open>The entry \<^verbatim>\<open>IPC_RMID\<close> leaves behind, and its sequence number.\<close>

lemma sem_rmid_entry:
  assumes "undo_wf si st" and "fst (owner_or_suser (sem_perm (sema st ! i)) u)" and "sem_rmid si semid i u st = Ret (u', st')"
  shows "sema st' = (sema st)[i := (sema st ! i)\<lparr>sem_perm := (sem_perm (sema st ! i))\<lparr>
      ip_seq := (if to_s32 (semid + semmni si) < 0 then 0 else to_u16 (ip_seq (sem_perm (sema st ! i)) + 1)),
      ip_mode := 0\<rparr>\<rparr>]"
proof -
  define st2 where "st2 = rmid_reset (sem_base (sema st ! i)) (nat (sem_nsems (sema st ! i)))
      (semunrm semid 0 (sem_nsems (sema st ! i)) st)"
  have "sema st2 = sema (semunrm semid 0 (sem_nsems (sema st ! i)) st)"
    using only_sems_loops(1) by (simp add: st2_def only_sems_def)
  also have "\<dots> = sema st" using semunrm_spec [OF assms(1)] same_semsD(2) by blast
  finally have sema2: "sema st2 = sema st" .
  show ?thesis
    using assms(2,3) sema2
    by (cases "owner_or_suser (sem_perm (sema st ! i)) u")
      (auto simp: sem_rmid_def Let_def obind_Ret_iff st2_def [symmetric])
qed

lemma rmid_seq_changes:
  assumes si: "si_wf si" and sets: "sets_wf si st" and iv: "fst (semconv si semid u st) = Some i"
  shows "(if to_s32 (semid + semmni si) < 0 then 0 else to_u16 (ip_seq (sem_perm (sema st ! i)) + 1))
    \<noteq> ip_seq (sem_perm (sema st ! i))"
proof -
  let ?q = "ip_seq (sem_perm (sema st ! i))"
  note li = semconv_live [OF si sets iv]
  have q: "0 \<le> ?q" "?q < 65536" using sets li(2) by (simp_all add: sets_wf_def)
  have sid: "semid = set_id si st i"
    using semid.conv_inj [OF _ iv, of "set_id si st i"] semconv_set_id [OF si sets li(1)] si
    by (simp add: si_wf_def)
  have "?q * semmni si \<le> 65535 * 32767" using q si by (intro mult_mono) (simp_all add: si_wf_def)
  moreover have "int i < semmni si" using semid.conv_bound [OF _ iv] si by (simp add: si_wf_def)
  moreover have "0 \<le> ?q * semmni si" using q si by (simp add: si_wf_def)
  ultimately have "0 \<le> semid + semmni si" "semid + semmni si < 2147483648"
    using si by (simp_all add: sid set_id_def si_wf_def)
  then have "\<not> to_s32 (semid + semmni si) < 0" by (simp add: to_s32_id)
  moreover have "to_u16 (?q + 1) \<noteq> ?q"
    using q by (cases "?q = 65535") (simp_all add: to_u16_def)
  ultimately show ?thesis by simp
qed

text \<open>An entry keeps its sequence number under \<^verbatim>\<open>semget\<close>, so a removed identifier stays refused.\<close>

lemma semget_keeps_dead:
  assumes ku: "keys_unique (map sem_perm (sema st'))" and g: "semget si key nsems flg w st' = Ret (w', st'')"
    and iv: "fst (semconv si semid v st) = Some i" and i: "i < length (sema st')"
    and seq: "ip_seq (sem_perm (sema st' ! i)) \<noteq> ip_seq (sem_perm (sema st ! i))"
  shows "fst (semconv si semid v st'') = None"
proof -
  have "map (\<lambda>e. ip_seq (sem_perm e)) (sema st'') ! i = map (\<lambda>e. ip_seq (sem_perm e)) (sema st') ! i"
    using semget_entry(1) [OF ku g] by simp
  moreover have "length (sema st'') = length (sema st')"
    using arg_cong [OF semget_entry(1) [OF ku g], of length] by simp
  ultimately have "ip_seq (sem_perm (sema st'' ! i)) = ip_seq (sem_perm (sema st' ! i))" using i by simp
  then show ?thesis using semid.conv_stale [OF iv, of st''] seq by simp
qed

text \<open>
  C7. After IPC_RMID by an authorized caller the identifier is dead: \<^verbatim>\<open>semconv\<close> refuses
  it with EINVAL, also after a later \<^verbatim>\<open>semget\<close> has re-used the slot; every other
  identifier keeps its meaning, and no process keeps an adjustment for the removed set.
\<close>

theorem sem_removed_id_dead:
  assumes "si_wf si" and "sem_inv si st" and "fst (semconv si semid u st) = Some i"
    and "fst (owner_or_suser (sem_perm (sema st ! i)) u)" and "sem_rmid si semid i u st = Ret (u', st')"
  shows "semconv si semid v st' = (None, set_error EINVAL v) \<and>
    (\<forall>key nsems flg w w' st''. semget si key nsems flg w st' = Ret (w', st'') \<longrightarrow>
       semconv si semid v st'' = (None, set_error EINVAL v)) \<and>
    (\<forall>s j. s \<noteq> semid \<longrightarrow> fst (semconv si s v st) = Some j \<longrightarrow> fst (semconv si s v st') = Some j) \<and>
    (\<forall>q n. adj st' q semid n = 0)"
proof -
  have inv': "sem_inv si st'" by (rule sem_rmid_inv [OF assms(1-3,5)])
  have iv: "fst (semconv si semid v st) = Some i" using assms(3) semconv_indep by metis
  have wf: "undo_wf si st" and sets: "sets_wf si st" using assms(2) by (simp_all add: sem_inv_def)
  have ku: "keys_unique (map sem_perm (sema st'))" using inv' by (simp add: sem_inv_def sets_wf_def)
  note li = semconv_live [OF assms(1) sets assms(3)]
  note sema' = sem_rmid_entry [OF wf assms(4,5)]
  have il: "i < length (sema st')" using li(2) by (simp add: sema')
  have "\<not> allocated (sem_perm (sema st' ! i))" using li(2) by (simp add: sema' allocated_def)
  then have dead: "fst (semconv si semid v st') = None"
    using semid.conv_stale [OF iv, of st'] by simp
  have seq: "ip_seq (sem_perm (sema st' ! i)) \<noteq> ip_seq (sem_perm (sema st ! i))"
    using rmid_seq_changes [OF assms(1) sets assms(3)] li(2) by (simp add: sema')
  have "fst (semconv si s v st') = Some j" if s: "s \<noteq> semid" "fst (semconv si s v st) = Some j" for s j
  proof -
    have "j \<noteq> i" using semid.conv_inj [OF _ s(2), of semid] iv s(1) assms(1) by (auto simp: si_wf_def)
    then have "sema st' ! j = sema st ! j" by (simp add: sema')
    then show ?thesis using s(2) semid.conv_same [OF s(2), of st'] by (auto simp: semid.conv_iff)
  qed
  moreover have "adj st' q semid n = 0" for q n
    using inv' dead unfolding sem_inv_def adj_ok_def by (metis option.distinct(1))
  ultimately show ?thesis
    using semconv_None [OF dead] semconv_None [OF semget_keeps_dead [OF ku _ iv il seq]]
    by (intro conjI allI impI) simp_all
qed

theorem sem_removed_id_dead_witness:
  "\<exists>u' st'. sem_rmid ex_si 0 0 user_example ex_set = Ret (u', st') \<and>
     semconv ex_si 0 user_example st' = (None, set_error EINVAL user_example)"
proof -
  have o: "owner_or_suser (sem_perm (sema ex_set ! 0)) user_example = (True, user_example)"
    by (simp add: owner_or_suser_def ex_set_def ex_perm1_def user_example_def)
  have "ipcmfree (ex_map 3 2) 2 1 = Ret (ex_map 1 4, False)"
    by (simp add: ex_map_def ipcmfree_def ipcmfree_wake_def to_s16_def to_u16_def)
  moreover have "semmap (rmid_reset k n (semunrm a b c ex_set)) = ex_map 3 2" for k n a b c
  proof -
    have "same_sems ex_set (semunrm a b c ex_set)" using semunrm_spec [of ex_si ex_set] ex_inv by (simp add: sem_inv_def)
    then show ?thesis using only_sems_loops(1) [of "semunrm a b c ex_set" k n]
      by (simp add: only_sems_def same_sems_def ex_set_def)
  qed
  ultimately obtain u' st' where r: "sem_rmid ex_si 0 0 user_example ex_set = Ret (u', st')"
    using o by (simp add: sem_rmid_def Let_def ex_set_def)
  have "semconv ex_si 0 user_example st' = (None, set_error EINVAL user_example)"
    using sem_removed_id_dead [OF ex_si_wf ex_inv ex_semconv _ r, of user_example] o by simp
  then show ?thesis using r by blast
qed

text \<open>A process that raised semaphore 0 by 3 with SEM_UNDO.\<close>

definition ex_undo :: semstate where
  "ex_undo = ex_set\<lparr>semfup := Some 1, sem_undos := (\<lambda>p. None)(1 := Some 0), semunp := Some 0,
     semu := [\<lparr>un_np = None, un_ent = [\<lparr>un_aoe = -3, un_num = 0, un_id = 0\<rparr>]\<rparr>, \<lparr>un_np = None, un_ent = []\<rparr>],
     semv := [zero_sem\<lparr>semval := 3\<rparr>, zero_sem, zero_sem, zero_sem]\<rparr>"

lemma ex_aoe: "semaoe ex_si 3 0 0 user_example ex_set = (False, user_example, ex_set
    \<lparr>semfup := Some 1, sem_undos := (\<lambda>p. None)(1 := Some 0), semunp := Some 0,
     semu := [\<lparr>un_np = None, un_ent = [\<lparr>un_aoe = -3, un_num = 0, un_id = 0\<rparr>]\<rparr>, \<lparr>un_np = None, un_ent = []\<rparr>]\<rparr>)"
  by (simp add: semaoe_def semaoe_struct_def semaoe_entry_def ex_si_def ex_set_def ex_init_def ex_boot_def
      user_example_def set_np_def set_ent_def Let_def to_s16_def)

lemma ex_undo_eq:
  "semop_pass ex_si 0 0 [] [\<lparr>sem_num = 0, sem_op = 3, sem_flg = 0x1000\<rparr>] user_example ex_set
    = (PassDone, user_example, ex_undo)"
proof -
  have v: "semv ex_set = [zero_sem, zero_sem, zero_sem, zero_sem]" by (simp add: ex_set_def ex_init_def ex_boot_def)
  have m: "semvmx ex_si = 10" by (simp add: ex_si_def)
  show ?thesis
    by (simp add: sem_do_op_def op_aoe_def ex_aoe v Let_def m to_u16_def to_s16_def upd_sem_def wake_ncnt_def
        zero_sem_def ex_undo_def)
qed

lemma ex_undo_inv: "sem_inv ex_si ex_undo"
proof -
  have "ops_for (sema ex_set ! 0) [\<lparr>sem_num = 0, sem_op = 3, sem_flg = 0x1000\<rparr>]"
    by (simp add: ops_for_def ex_set_def)
  moreover have "sem_base (sema ex_set ! 0) = 0" by (simp add: ex_set_def)
  moreover have "u_error user_example = E_OK" by (simp add: user_example_def)
  ultimately show ?thesis using pass_inv(1) [OF ex_si_wf ex_inv _ ex_semconv] ex_undo_eq by fastforce
qed

text \<open>
  C8. \<^verbatim>\<open>semexit\<close> applies an exiting process's adjustments: each semaphore of a live set
  receives the pending adjustment of that process for it, unless the sum would leave 0 to
  SEMVMX, when it keeps its value; the process's undo structure is freed, its adjustments
  are gone and those of every other process are untouched; the invariant is kept.
\<close>

theorem semexit_applies_adjustments:
  assumes "si_wf si" and "sem_inv si st" and "semexit si u st = (u', st')"
  shows "u' = u \<and> sem_inv si st' \<and> sem_undos st' (p_index u) = None \<and> sema st' = sema st \<and>
    (\<forall>q s n. adj st' q s n = (if q = p_index u then 0 else adj st q s n)) \<and>
    (\<forall>i n. live st i \<longrightarrow> 0 \<le> n \<longrightarrow> n < sem_nsems (sema st ! i) \<longrightarrow>
       (let old = sv st (sem_base (sema st ! i) + nat n); a = adj st (p_index u) (set_id si st i) n
        in sv st' (sem_base (sema st ! i) + nat n) =
             (if 0 \<le> old + a \<and> old + a \<le> semvmx si then old + a else old)))"
  using semexit_spec [OF assms] by (simp add: clamp_add_def Let_def)

theorem semexit_applies_adjustments_witness:
  "\<exists>u' st'. semexit ex_si user_example ex_undo = (u', st') \<and> sv st' 0 = 0 \<and> sv ex_undo 0 = 3 \<and>
     sem_undos st' 1 = None"
proof -
  obtain u' st' where e: "semexit ex_si user_example ex_undo = (u', st')"
    by (cases "semexit ex_si user_example ex_undo") auto
  have "live ex_undo 0" "sem_base (sema ex_undo ! 0) = 0" "sem_nsems (sema ex_undo ! 0) = 2" "sv ex_undo 0 = 3"
    "p_index user_example = 1" "set_id ex_si ex_undo 0 = 0" "adj ex_undo 1 0 0 = -3" "semvmx ex_si = 10"
    by (simp_all add: live_def ex_undo_def ex_set_def ex_perm1_def allocated_def user_example_def set_id_def adj_def
        ex_si_def is_entry_def)
  note f = this
  have all: "\<forall>i n. live ex_undo i \<longrightarrow> 0 \<le> n \<longrightarrow> n < sem_nsems (sema ex_undo ! i) \<longrightarrow>
       (let old = sv ex_undo (sem_base (sema ex_undo ! i) + nat n); a = adj ex_undo 1 (set_id ex_si ex_undo i) n
        in sv st' (sem_base (sema ex_undo ! i) + nat n) =
             (if 0 \<le> old + a \<and> old + a \<le> semvmx ex_si then old + a else old))"
    and un: "sem_undos st' 1 = None"
    using semexit_applies_adjustments [OF ex_si_wf ex_undo_inv e] f(5) by simp_all
  have "sv st' 0 = 0" using spec [OF spec [OF all, of 0], of 0] f by simp
  then show ?thesis using e f un by blast
qed

text \<open>
  SETVAL: an authorized \<^verbatim>\<open>semctl\<close> that sets a semaphore of a set stores the value and
  the caller's pid, changes no other semaphore value, and cancels the pending adjustments
  of every process for that semaphore and for no other.
\<close>

theorem sem_setval_effect:
  assumes "si_wf si" and "sem_inv si st" and "fst (semconv si semid u st) = Some i"
    and "ipcaccess (sem_perm (sema st ! i)) SEM_A u = (False, u1)"
    and "0 \<le> n" and "n < sem_nsems (sema st ! i)" and "0 \<le> v" and "v \<le> semvmx si"
    and "sem_setval si semid i n v u st = (u', st')"
  shows "u' = u1 \<and> sem_inv si st' \<and>
    sempid (semv st' ! (sem_base (sema st ! i) + nat n)) = to_u16 (p_pid u1) \<and>
    (\<forall>k < length (semv st). sv st' k = (if k = sem_base (sema st ! i) + nat n then v else sv st k)) \<and>
    (\<forall>q s m. adj st' q s m = (if s = semid \<and> m = n then 0 else adj st q s m))"
proof -
  let ?k = "sem_base (sema st ! i) + nat n"
  have sets: "sets_wf si st" using assms(2) by (simp add: sem_inv_def)
  note l = semconv_live [OF assms(1) sets assms(3)]
  have k: "?k < length (semv st)" by (rule live_index [OF assms(1) sets l(1) assms(5,6)])
  have mx: "semvmx si \<le> 65535" "semmsl si \<le> 32767" using assms(1) by (simp_all add: si_wf_def)
  have "sem_nsems (sema st ! i) \<le> semmsl si" using sets l by (simp add: sets_wf_def)
  then have t: "to_u32 v = v" "to_u16 v = v" "to_u16 n = n"
    using assms(5-8) mx by (simp_all add: to_u32_def to_u16_id)
  define s1 where "s1 = upd_sem ?k (\<lambda>p. p\<lparr>sempid := to_u16 (p_pid u1)\<rparr>) (sem_store ?k v st)"
  have st': "u' = u1" "st' = semunrm semid n n s1"
    using assms(4-9) t by (auto simp: sem_setval_def Let_def s1_def)
  have "same_undo st s1" by (simp add: s1_def sem_store_def same_undo_def Let_def)
  note su = same_undoD [OF this]
  have "undo_wf si s1" using assms(2) su(1) by (simp add: sem_inv_def)
  note un = semunrm_spec [OF this, of semid n n]
  have "semv st' = semv s1" using un by (simp add: st' same_sems_def)
  moreover have "sv s1 j = (if j = ?k then v else sv st j)" for j
    using k by (simp add: s1_def sem_store_def sv_upd Let_def)
  moreover have "sempid (semv s1 ! ?k) = to_u16 (p_pid u1)"
    using k by (simp add: s1_def sem_store_def upd_sem_def wake_ncnt_def wake_zcnt_def woke_def Let_def)
  moreover have "sem_inv si st'" by (rule sem_setval_inv [OF assms(1,2,9)])
  moreover have "adj st' q s m = (if s = semid \<and> m = n then 0 else adj st q s m)" for q s m
    using un su(2) by (auto simp: st')
  ultimately show ?thesis using st'(1) by simp
qed

theorem sem_setval_effect_witness:
  "\<exists>u' st'. sem_setval ex_si 0 0 0 7 user_example ex_undo = (u', st') \<and> sv st' 0 = 7 \<and> adj st' 1 0 0 = 0"
proof -
  obtain u' st' where e: "sem_setval ex_si 0 0 0 7 user_example ex_undo = (u', st')"
    by (cases "sem_setval ex_si 0 0 0 7 user_example ex_undo") auto
  have c: "fst (semconv ex_si 0 user_example ex_undo) = Some 0"
    using ex_semconv [of user_example] by (simp add: semconv_def ex_undo_def)
  have a: "ipcaccess (sem_perm (sema ex_undo ! 0)) SEM_A user_example = (False, user_example)"
    by (simp add: ipcaccess_def ex_undo_def ex_set_def ex_perm1_def user_example_def suser_def)
  have f: "sem_base (sema ex_undo ! 0) = 0" "sem_nsems (sema ex_undo ! 0) = 2" "semvmx ex_si = 10" "length (semv ex_undo) = 4"
    by (simp_all add: ex_undo_def ex_set_def ex_si_def)
  show ?thesis
    using sem_setval_effect [OF ex_si_wf ex_undo_inv c a _ _ _ _ e] e f by simp
qed

text \<open>
  \<^verbatim>\<open>semaoe\<close> keeps the undo structures well-formed and accounts exactly: it fails, and
  changes no adjustment, exactly when the value or the resulting adjustment is beyond
  SEMAEM, the process has no undo structure and none is free, or it has no entry for the
  semaphore and no room for one; otherwise the value is subtracted from the caller's
  adjustment for that semaphore, and every other adjustment is as before.
\<close>

theorem semaoe_accounts:
  assumes "si_wf si" and "undo_wf si st" and "semaoe si val sid num u st = (err, u', st')"
  shows "undo_wf si st' \<and> semv st' = semv st \<and> sema st' = sema st \<and>
    (err \<longleftrightarrow> val \<noteq> 0 \<and>
       (val > semaem si \<or> val < - semaem si \<or> (sem_undos st (p_index u) = None \<and> semfup st = None) \<or>
        (if adj st (p_index u) sid num \<noteq> 0
         then adj st (p_index u) sid num - val > semaem si \<or> adj st (p_index u) sid num - val < - semaem si
         else proc_entries st (p_index u) \<ge> semume si))) \<and>
    (\<forall>q s n. adj st' q s n =
       (if \<not> err \<and> q = p_index u \<and> s = sid \<and> n = num then adj st q s n - val else adj st q s n)) \<and>
    (if err then u_error u' \<in> {ERANGE, EINVAL, ENOSPC} else u' = u)"
  using semaoe_spec [OF assms] by (cases err) (auto simp: aoe_fails_def same_sems_def)

theorem semaoe_accounts_witness:
  "\<exists>u' st'. semaoe ex_si 2 0 0 user_example ex_undo = (False, u', st') \<and> adj st' 1 0 0 = -5"
proof -
  obtain err u' st' where e: "semaoe ex_si 2 0 0 user_example ex_undo = (err, u', st')"
    by (cases "semaoe ex_si 2 0 0 user_example ex_undo") auto
  have w: "undo_wf ex_si ex_undo" using ex_undo_inv by (simp add: sem_inv_def)
  have f: "p_index user_example = 1" "adj ex_undo 1 0 0 = -3" "semaem ex_si = 8" "sem_undos ex_undo 1 = Some 0"
    by (simp_all add: user_example_def adj_def ex_undo_def ex_si_def is_entry_def)
  show ?thesis using semaoe_accounts [OF ex_si_wf w e] e f by simp
qed

end
