(* ===== verification/Ptr_List.thy ===== *)
theory Ptr_List
  imports Kernel_Prelude
begin

text \<open>
  Singly linked lists of the C code. A pointer is an optional index into an array, \<open>nx\<close>
  gives the next pointer of a cell, and \<open>linked nx p xs\<close> says that following \<open>nx\<close> from
  \<open>p\<close> visits exactly the cells \<open>xs\<close> and ends in NULL. The locale \<open>fifo\<close> is the interface
  of the facilities that keep an ordered queue in such lists.
\<close>

section \<open>Chains\<close>

fun linked :: "(nat \<Rightarrow> nat option) \<Rightarrow> nat option \<Rightarrow> nat list \<Rightarrow> bool" where
  "linked nx p [] \<longleftrightarrow> p = None"
| "linked nx p (x # xs) \<longleftrightarrow> p = Some x \<and> linked nx (nx x) xs"

text \<open>The cells reached from a pointer, at most as many as the first argument says.\<close>

fun chain_from :: "nat \<Rightarrow> (nat \<Rightarrow> nat option) \<Rightarrow> nat option \<Rightarrow> nat list" where
  "chain_from (Suc n) nx (Some x) = x # chain_from n nx (nx x)"
| "chain_from _ nx _ = []"

lemma linked_None [simp]: "linked nx None xs \<longleftrightarrow> xs = []"
  by (cases xs) auto

lemma linked_Some: "linked nx (Some x) xs \<longleftrightarrow> (\<exists>ys. xs = x # ys \<and> linked nx (nx x) ys)"
  by (cases xs) auto

lemma linked_cong: "(\<And>x. x \<in> set xs \<Longrightarrow> nx x = nx' x) \<Longrightarrow> linked nx p xs = linked nx' p xs"
  by (induction nx p xs rule: linked.induct) auto

text \<open>Appending a new last cell, and removing one.\<close>

lemma linked_snoc:
  assumes "linked nx p xs" and "distinct xs" and "y \<notin> set xs" and "nx y = None"
  shows "linked (if xs = [] then nx else nx(last xs := Some y)) (if xs = [] then Some y else p) (xs @ [y])"
  using assms
proof (induction xs arbitrary: p)
  case (Cons x xs)
  then have IH: "linked (if xs = [] then nx else nx(last xs := Some y)) (if xs = [] then Some y else nx x) (xs @ [y])"
    by auto
  show ?case
  proof (cases "xs = []")
    case True
    then show ?thesis using Cons.prems by auto
  next
    case False
    then have "x \<noteq> last xs" using Cons.prems(2) last_in_set [of xs] by auto
    then show ?thesis using IH False Cons.prems by (auto simp: fun_upd_def)
  qed
qed simp

lemma linked_remove:
  assumes "linked nx p (xs @ y # ys)" and "distinct (xs @ y # ys)"
  shows "linked (if xs = [] then nx else nx(last xs := nx y)) (if xs = [] then nx y else p) (xs @ ys)"
  using assms
proof (induction xs arbitrary: p)
  case (Cons x xs)
  then have IH: "linked (if xs = [] then nx else nx(last xs := nx y)) (if xs = [] then nx y else nx x) (xs @ ys)"
    by auto
  show ?case
  proof (cases "xs = []")
    case True
    have "linked (nx(x := nx y)) (nx y) ys = linked nx (nx y) ys"
      using Cons.prems(2) True by (intro linked_cong) auto
    then show ?thesis using IH True Cons.prems by (simp add: fun_upd_def)
  next
    case False
    then have "x \<noteq> last xs" using Cons.prems(2) last_in_set [of xs] by auto
    then show ?thesis using IH False Cons.prems by (auto simp: fun_upd_def)
  qed
qed simp

lemma linked_insert:
  assumes "linked nx p (xs @ ys)" and "distinct xs" and "y \<notin> set (xs @ ys)" and "set xs \<inter> set ys = {}"
    and "nx y = (if ys = [] then None else Some (hd ys))"
  shows "linked (if xs = [] then nx else nx(last xs := Some y)) (if xs = [] then Some y else p) (xs @ y # ys)"
  using assms
proof (induction xs arbitrary: p)
  case Nil
  then show ?case by (cases ys) auto
next
  case (Cons x xs)
  then have IH: "linked (if xs = [] then nx else nx(last xs := Some y)) (if xs = [] then Some y else nx x) (xs @ y # ys)"
    by auto
  show ?case
  proof (cases "xs = []")
    case True
    have "linked (nx(x := Some y)) (nx y) ys = linked nx (nx y) ys"
      using Cons.prems(3,4) by (intro linked_cong) auto
    then show ?thesis using True IH Cons.prems by (auto simp: fun_upd_def)
  next
    case False
    then have "x \<noteq> last xs" using Cons.prems(2) last_in_set [of xs] by auto
    then show ?thesis using IH False Cons.prems by (auto simp: fun_upd_def)
  qed
qed

lemma linked_tail:
  assumes "linked nx p (xs @ y # ys)"
  shows "linked nx (nx y) ys"
  using assms by (induction xs arbitrary: p) auto

lemma linked_chain_from: "linked nx p xs \<Longrightarrow> length xs \<le> n \<Longrightarrow> chain_from n nx p = xs"
proof (induction xs arbitrary: p n)
  case Nil
  then show ?case by (cases n) auto
next
  case (Cons x xs)
  then show ?case by (cases n) auto
qed

lemma distinct_length_le:
  assumes "distinct xs" and "set xs \<subseteq> {..<n}"
  shows "length xs \<le> n"
  using assms card_mono [of "{..<n}" "set xs"] distinct_card [of xs] by simp

section \<open>Queues as an interface\<close>

text \<open>
  A facility that keeps, for each of its queues \<open>i\<close>, a list of items in its state, each
  item of some kind: \<open>put\<close> adds items at the end, \<open>get\<close> takes items out, of each kind the
  earliest ones, and \<open>skip\<close> is every other step. None touches another queue.
\<close>

definition at_queue :: "nat \<Rightarrow> (nat \<times> 'a) list \<Rightarrow> 'a list" where
  "at_queue i xs = map snd (filter (\<lambda>x. fst x = i) xs)"

lemma at_queue_simps [simp]:
  "at_queue i [] = []"
  "at_queue i (xs @ ys) = at_queue i xs @ at_queue i ys"
  "at_queue i ((j, x) # xs) = (if j = i then x # at_queue i xs else at_queue i xs)"
  "at_queue i (map (Pair j) zs) = (if j = i then zs else [])"
  by (simp_all add: at_queue_def filter_map comp_def)

locale fifo =
  fixes items :: "'s \<Rightarrow> nat \<Rightarrow> 'a list"
    and kind :: "nat \<Rightarrow> 'a \<Rightarrow> 'k"
    and put :: "nat \<Rightarrow> 'a list \<Rightarrow> 's \<Rightarrow> 's \<Rightarrow> bool"
    and get :: "nat \<Rightarrow> 'a list \<Rightarrow> 's \<Rightarrow> 's \<Rightarrow> bool"
    and skip :: "'s \<Rightarrow> 's \<Rightarrow> bool"
    and ok :: "'s \<Rightarrow> bool"
  assumes put_ok: "ok s \<Longrightarrow> put i xs s s' \<Longrightarrow> ok s'"
    and put_items: "ok s \<Longrightarrow> put i xs s s' \<Longrightarrow> items s' = (items s)(i := items s i @ xs)"
    and get_ok: "ok s \<Longrightarrow> get i xs s s' \<Longrightarrow> ok s'"
    and get_other: "ok s \<Longrightarrow> get i xs s s' \<Longrightarrow> j \<noteq> i \<Longrightarrow> items s' j = items s j"
    and get_first: "ok s \<Longrightarrow> get i xs s s' \<Longrightarrow>
      filter (\<lambda>x. kind i x = k) (items s i) = filter (\<lambda>x. kind i x = k) (xs @ items s' i)"
    and skip_ok: "ok s \<Longrightarrow> skip s s' \<Longrightarrow> ok s' \<and> items s' = items s"
begin

text \<open>Runs, with what was put and what was taken.\<close>

inductive run :: "'s \<Rightarrow> (nat \<times> 'a) list \<Rightarrow> (nat \<times> 'a) list \<Rightarrow> 's \<Rightarrow> bool" where
  run_nil: "run s [] [] s"
| run_put: "run s ps gs s' \<Longrightarrow> put i xs s' s'' \<Longrightarrow> run s (ps @ map (Pair i) xs) gs s''"
| run_get: "run s ps gs s' \<Longrightarrow> get i xs s' s'' \<Longrightarrow> run s ps (gs @ map (Pair i) xs) s''"
| run_skip: "run s ps gs s' \<Longrightarrow> skip s' s'' \<Longrightarrow> run s ps gs s''"

lemma run_ok: "run s ps gs s' \<Longrightarrow> ok s \<Longrightarrow> ok s'"
  by (induction rule: run.induct) (use put_ok get_ok skip_ok in blast)+

text \<open>
  First in, first out: of each kind, what was there, then what was put, is what was taken,
  then what is left.
\<close>

lemma run_fifo:
  "run s ps gs s' \<Longrightarrow> ok s \<Longrightarrow>
    filter (\<lambda>x. kind i x = k) (items s i @ at_queue i ps) = filter (\<lambda>x. kind i x = k) (at_queue i gs @ items s' i)"
proof (induction rule: run.induct)
  case (run_put s ps gs s' j xs s'')
  then show ?case using put_items [OF run_ok [OF run_put.hyps(1) run_put.prems] run_put.hyps(2)] by (auto simp flip: append_assoc)
next
  case (run_get s ps gs s' j xs s'')
  have ok: "ok s'" using run_ok [OF run_get.hyps(1) run_get.prems] .
  show ?case
  proof (cases "j = i")
    case True
    then show ?thesis using run_get.IH [OF run_get.prems] get_first [OF ok run_get.hyps(2), of k] by simp
  next
    case False
    then show ?thesis using run_get.IH [OF run_get.prems] get_other [OF ok run_get.hyps(2), of i] by simp
  qed
next
  case (run_skip s ps gs s' s'')
  then show ?case using skip_ok [OF run_ok [OF run_skip.hyps(1) run_skip.prems] run_skip.hyps(2)] by simp
qed simp

end

end
