(* ===== verification/Sysv_Msg.thy ===== *)
theory Sysv_Msg
  imports Ipc_Perm Ipc_Map Ptr_List
begin

unbundle bit_operations_syntax

text \<open>
  System V messages, \<^verbatim>\<open>sys/sysV_msg.c\<close>: the queue headers, the message headers on the
  queues or on the free list, the allocation map of the text segments, and every call of
  the file. Message headers are indices into \<open>msgh\<close>, queues into \<open>msgque\<close>. Calls that
  sleep take what the rest of the system does meanwhile as an argument.
\<close>

section \<open>Data\<close>

abbreviation MSG_R :: "16 word" where "MSG_R \<equiv> 0x100"
abbreviation MSG_W :: "16 word" where "MSG_W \<equiv> 0x80"
abbreviation MSG_RWAIT :: "16 word" where "MSG_RWAIT \<equiv> 0x0200"
abbreviation MSG_WWAIT :: "16 word" where "MSG_WWAIT \<equiv> 0x0400"
abbreviation MSG_NOERROR :: "32 word" where "MSG_NOERROR \<equiv> 0x1000"

record msg =
  msg_next :: "nat option"
  msg_type :: int
  msg_ts :: int          \<comment> \<open>unsigned short\<close>
  msg_spot :: int

record msqid_ds =
  msg_perm :: ipc_perm
  msg_first :: "nat option"
  msg_last :: "nat option"
  msg_qnum :: int        \<comment> \<open>unsigned short, as are the next and \<open>msg_cbytes\<close>\<close>
  msg_qbytes :: int
  msg_lspid :: int
  msg_lrpid :: int
  msg_stime :: int
  msg_rtime :: int
  msg_ctime :: int
  msg_cbytes :: int

record msginfo =
  mi_msgmap :: int
  msgmax :: int
  msgmnb :: int
  msgmni :: int
  msgssz :: int
  msgtql :: int
  msgseg :: int

text \<open>The channels of \<^verbatim>\<open>wakeup\<close>: \<^verbatim>\<open>&qp->msg_qnum\<close>, \<^verbatim>\<open>qp\<close>, \<^verbatim>\<open>&msgfp\<close>, \<^verbatim>\<open>msgmap\<close>, the lock.\<close>

datatype msgchan = QnumCh nat | QueueCh nat | FreeCh | MapCh | LockCh nat

record msgstate =
  msgque :: "msqid_ds list"
  msgh :: "msg list"
  msgfp :: "nat option"
  msgmap :: ipcmap
  msg_pool :: "nat \<Rightarrow> int"      \<comment> \<open>the bytes at \<^verbatim>\<open>msg\<close>\<close>
  msg_time :: int
  msg_woken :: "msgchan list"

definition upd_q :: "nat \<Rightarrow> (msqid_ds \<Rightarrow> msqid_ds) \<Rightarrow> msgstate \<Rightarrow> msgstate" where
  "upd_q i f st = st\<lparr>msgque := (msgque st)[i := f (msgque st ! i)]\<rparr>"

definition upd_h :: "nat \<Rightarrow> (msg \<Rightarrow> msg) \<Rightarrow> msgstate \<Rightarrow> msgstate" where
  "upd_h h f st = st\<lparr>msgh := (msgh st)[h := f (msgh st ! h)]\<rparr>"

definition wake_msg :: "msgchan list \<Rightarrow> msgstate \<Rightarrow> msgstate" where
  "wake_msg cs st = st\<lparr>msg_woken := msg_woken st @ cs\<rparr>"

definition q_mode :: "nat \<Rightarrow> (16 word \<Rightarrow> 16 word) \<Rightarrow> msgstate \<Rightarrow> msgstate" where
  "q_mode i f st = upd_q i (\<lambda>q. q\<lparr>msg_perm := (msg_perm q)\<lparr>ip_mode := f (ip_mode (msg_perm q))\<rparr>\<rparr>) st"

definition has_mode :: "nat \<Rightarrow> 16 word \<Rightarrow> msgstate \<Rightarrow> bool" where
  "has_mode i b st \<longleftrightarrow> ip_mode (msg_perm (msgque st ! i)) AND b \<noteq> 0"

text \<open>The writers' flag is cleared and the three channels they sleep on are woken.\<close>

definition wake_writers :: "nat \<Rightarrow> msgstate \<Rightarrow> msgstate" where
  "wake_writers i st = wake_msg [QueueCh i, FreeCh, MapCh] (q_mode i (\<lambda>m. m AND NOT MSG_WWAIT) st)"

definition q_put :: "nat \<Rightarrow> ipc_perm \<Rightarrow> msgstate \<Rightarrow> msgstate" where
  "q_put i p st = upd_q i (\<lambda>q. q\<lparr>msg_perm := p\<rparr>) st"

definition q_lock :: "nat \<Rightarrow> (msgstate \<Rightarrow> msgstate) list \<Rightarrow> msgstate \<Rightarrow> msgstate lock_result" where
  "q_lock i envs st = ipc_lock (\<lambda>s. msg_perm (msgque s ! i)) (q_put i) envs st"

definition q_unlock :: "nat \<Rightarrow> msgstate \<Rightarrow> msgstate" where
  "q_unlock i st =
     (case ipc_unlock (msg_perm (msgque st ! i)) of
        (w, p) \<Rightarrow> (if w then wake_msg [LockCh i] else (\<lambda>s. s)) (q_put i p st))"

definition btoq :: "msginfo \<Rightarrow> int \<Rightarrow> int" where
  "btoq mi x = (x + msgssz mi - 1) div msgssz mi"

section \<open>Identifiers\<close>

definition msgconv :: "msginfo \<Rightarrow> int \<Rightarrow> uarea \<Rightarrow> msgstate \<Rightarrow> nat option \<times> uarea" where
  "msgconv mi q u st =
     (if q < 0 then (None, set_error EINVAL u)
      else let i = nat (q mod msgmni mi)
           in if \<not> allocated (msg_perm (msgque st ! i)) \<or> q div msgmni mi \<noteq> ip_seq (msg_perm (msgque st ! i))
              then (None, set_error EINVAL u) else (Some i, u))"

section \<open>Freeing a message\<close>

definition msg_unlink :: "nat \<Rightarrow> nat option \<Rightarrow> nat \<Rightarrow> msgstate \<Rightarrow> msgstate" where
  "msg_unlink i pmp mp st =
     (let st1 = (case pmp of
                   None \<Rightarrow> upd_q i (\<lambda>q. q\<lparr>msg_first := msg_next (msgh st ! mp)\<rparr>) st
                 | Some p \<Rightarrow> upd_h p (\<lambda>m. m\<lparr>msg_next := msg_next (msgh st ! mp)\<rparr>) st);
          st2 = (if msg_next (msgh st1 ! mp) = None then upd_q i (\<lambda>q. q\<lparr>msg_last := pmp\<rparr>) st1 else st1)
      in upd_q i (\<lambda>q. q\<lparr>msg_qnum := to_u16 (msg_qnum q - 1)\<rparr>) st2)"

definition msgfree :: "msginfo \<Rightarrow> nat \<Rightarrow> nat option \<Rightarrow> nat \<Rightarrow> msgstate \<Rightarrow> msgstate outcome" where
  "msgfree mi i pmp mp st =
     (let st3 = msg_unlink i pmp mp st;
          st4 = (if has_mode i MSG_WWAIT st3 then wake_writers i st3 else st3);
          m = msgh st4 ! mp
      in obind (if msg_ts m \<noteq> 0
                then obind (ipcmfree (msgmap st4) (btoq mi (msg_ts m)) (msg_spot m + 1)) (\<lambda>(mm, w).
                       Ret ((if w then wake_msg [MapCh] else (\<lambda>s. s)) (st4\<lparr>msgmap := mm\<rparr>)))
                else Ret st4) (\<lambda>st5.
           let st6 = upd_h mp (\<lambda>m. m\<lparr>msg_next := msgfp st5\<rparr>) st5;
               st7 = (if msgfp st5 = None then wake_writers i st6 else st6)
           in Ret (st7\<lparr>msgfp := Some mp\<rparr>)))"

section \<open>msgctl\<close>

datatype msg_out = MsgNone | MsgDs msqid_ds | MsgGot int "int list"

text \<open>A finished call, one asleep on a channel, and one asleep in \<^verbatim>\<open>ipc_lock\<close>.\<close>

datatype msg_run = MsgDone msg_out uarea msgstate | MsgSleeping msgchan uarea msgstate
  | MsgBlocked uarea msgstate

text \<open>
  User memory as a call sees it. A copy may sleep, so each is a function of the state;
  \<open>None\<close> and \<open>False\<close> are a failed copy.
\<close>

record msg_mem =
  in_mds :: "msgstate \<Rightarrow> msgstate \<times> (int \<times> int \<times> 16 word \<times> int) option" \<comment> \<open>uid, gid, mode, \<^verbatim>\<open>msg_qbytes\<close>\<close>
  in_type :: "msgstate \<Rightarrow> msgstate \<times> int option"
  in_text :: "nat \<Rightarrow> msgstate \<Rightarrow> msgstate \<times> int list option"
  out_copy :: "msgstate \<Rightarrow> msgstate \<times> bool"
  out_text :: "msgstate \<Rightarrow> msgstate \<times> bool"

text \<open>The loop of IPC_RMID; a list of more messages than the counter is a fault.\<close>

fun free_all :: "nat \<Rightarrow> msginfo \<Rightarrow> nat \<Rightarrow> msgstate \<Rightarrow> msgstate outcome" where
  "free_all n mi i st =
     (case msg_first (msgque st ! i) of
        None \<Rightarrow> Ret st
      | Some mp \<Rightarrow> (case n of 0 \<Rightarrow> Fault | Suc k \<Rightarrow> obind (msgfree mi i None mp st) (free_all k mi i)))"

definition msg_rmid :: "msginfo \<Rightarrow> int \<Rightarrow> nat \<Rightarrow> uarea \<Rightarrow> msgstate \<Rightarrow> (uarea \<times> msgstate) outcome" where
  "msg_rmid mi msgid i u st =
     (case owner_or_suser (msg_perm (msgque st ! i)) u of
        (False, u1) \<Rightarrow> Ret (u1, q_unlock i st)
      | (True, u1) \<Rightarrow>
          obind (free_all (length (msgh st)) mi i st) (\<lambda>st1.
            let st2 = upd_q i (\<lambda>q. q\<lparr>msg_cbytes := 0, msg_perm := (msg_perm q)\<lparr>ip_seq :=
                        (if to_s32 (msgid + msgmni mi) < 0 then 0 else to_u16 (ip_seq (msg_perm q) + 1))\<rparr>\<rparr>) st1;
                st3 = (if has_mode i MSG_RWAIT st2 then wake_msg [QnumCh i] st2 else st2);
                st4 = (if has_mode i MSG_WWAIT st3 then wake_writers i st3 else st3)
            in Ret (u1, q_mode i (\<lambda>_. 0) (q_unlock i st4))))"

definition msg_set :: "nat \<Rightarrow> msg_mem \<Rightarrow> uarea \<Rightarrow> msgstate \<Rightarrow> uarea \<times> msgstate" where
  "msg_set i mem u st =
     (case owner_or_suser (msg_perm (msgque st ! i)) u of
        (False, u1) \<Rightarrow> (u1, q_unlock i st)
      | (True, u1) \<Rightarrow>
          (case in_mds mem st of
             (st1, None) \<Rightarrow> (set_error EFAULT u1, q_unlock i st1)
           | (st1, Some (uid, gid, mode, qbytes)) \<Rightarrow>
               (let (ok, u2) = (if qbytes > msg_qbytes (msgque st1 ! i) then suser u1 else (True, u1))
                in if \<not> ok then (u2, q_unlock i st1)
                   else let st2 = (if qbytes > msg_qbytes (msgque st1 ! i) \<and> has_mode i MSG_WWAIT st1
                                   then wake_writers i st1 else st1);
                            st3 = upd_q i (\<lambda>q. q\<lparr>msg_perm := (msg_perm q)\<lparr>ip_uid := uid, ip_gid := gid,
                                      ip_mode := (ip_mode (msg_perm q) AND NOT 0x1FF) OR (mode AND 0x1FF)\<rparr>,
                                    msg_qbytes := qbytes, msg_ctime := msg_time st2\<rparr>) st2
                        in (u2, q_unlock i st3))))"

text \<open>The header in the format of \<^verbatim>\<open>struct omsqid_ds\<close>.\<close>

definition old_mds :: "msqid_ds \<Rightarrow> msqid_ds" where
  "old_mds q = q\<lparr>msg_perm := (msg_perm q)\<lparr>ip_uid := to_u16 (ip_uid (msg_perm q)),
       ip_gid := to_u16 (ip_gid (msg_perm q)), ip_cuid := to_u16 (ip_cuid (msg_perm q)),
       ip_cgid := to_u16 (ip_cgid (msg_perm q))\<rparr>,
     msg_lspid := to_u16 (msg_lspid q), msg_lrpid := to_u16 (msg_lrpid q)\<rparr>"

definition msg_stat :: "bool \<Rightarrow> nat \<Rightarrow> msg_mem \<Rightarrow> uarea \<Rightarrow> msgstate \<Rightarrow> msg_out \<times> uarea \<times> msgstate" where
  "msg_stat old i mem u st =
     (case ipcaccess (msg_perm (msgque st ! i)) MSG_R u of
        (True, u1) \<Rightarrow> (MsgNone, u1, q_unlock i st)
      | (False, u1) \<Rightarrow>
          (let q = msgque st ! i
           in case out_copy mem st of
                (st1, True) \<Rightarrow> (MsgDs (if old then old_mds q else q), u1, q_unlock i st1)
              | (st1, False) \<Rightarrow> (MsgNone, set_error EFAULT u1, q_unlock i st1)))"

definition msgctl1 :: "msginfo \<Rightarrow> bool \<Rightarrow> int \<Rightarrow> int \<Rightarrow> msg_mem \<Rightarrow> (msgstate \<Rightarrow> msgstate) list \<Rightarrow> uarea
    \<Rightarrow> msgstate \<Rightarrow> msg_run outcome" where
  "msgctl1 mi old msgid cmd mem ls u st =
     (case msgconv mi msgid u st of
        (None, u1) \<Rightarrow> Ret (MsgDone MsgNone u1 st)
      | (Some i, u1) \<Rightarrow>
          (case q_lock i ls st of
             Gone st1 \<Rightarrow> Ret (MsgDone MsgNone (set_error EINVAL u1) st1)
           | Blocked st1 \<Rightarrow> Ret (MsgBlocked u1 st1)
           | Locked st1 _ \<Rightarrow>
               (let u2 = u1\<lparr>u_rval1 := 0\<rparr>
                in if cmd = IPC_RMID then
                     obind (msg_rmid mi msgid i u2 st1) (\<lambda>(u3, st2). Ret (MsgDone MsgNone u3 st2))
                   else if cmd = IPC_SET then
                     (case msg_set i mem u2 st1 of (u3, st2) \<Rightarrow> Ret (MsgDone MsgNone u3 st2))
                   else if cmd = IPC_STAT then
                     (case msg_stat old i mem u2 st1 of (out, u3, st2) \<Rightarrow> Ret (MsgDone out u3 st2))
                   else Ret (MsgDone MsgNone (set_error EINVAL u2) (q_unlock i st1)))))"

section \<open>msgget and msginit\<close>

definition put_mperms :: "ipc_perm list \<Rightarrow> msgstate \<Rightarrow> msgstate" where
  "put_mperms ps st = st\<lparr>msgque := map2 (\<lambda>q p. q\<lparr>msg_perm := p\<rparr>) (msgque st) ps\<rparr>"

definition msgget :: "msginfo \<Rightarrow> int \<Rightarrow> 32 word \<Rightarrow> uarea \<Rightarrow> msgstate \<Rightarrow> uarea \<times> msgstate" where
  "msgget mi key msgflg u st =
     (case ipcgetperm key msgflg u (map msg_perm (msgque st)) of
        Inl e \<Rightarrow> (set_error e u, st)
      | Inr (i, s, ps) \<Rightarrow>
          (let st1 = put_mperms ps st;
               st2 = (if s \<noteq> 0 then upd_q i (\<lambda>q. q\<lparr>msg_first := None, msg_last := None, msg_qnum := 0,
                        msg_qbytes := to_u16 (msgmnb mi), msg_lspid := 0, msg_lrpid := 0,
                        msg_stime := 0, msg_rtime := 0, msg_ctime := msg_time st1\<rparr>) st1 else st1)
           in (u\<lparr>u_rval1 := to_s32 (ip_seq (msg_perm (msgque st2 ! i)) * msgmni mi + int i)\<rparr>, st2)))"

text \<open>\<open>got_mem\<close> tells whether \<^verbatim>\<open>wmemall\<close> found memory for the texts.\<close>

definition msginit :: "bool \<Rightarrow> msginfo \<Rightarrow> msgstate \<Rightarrow> (msginfo \<times> msgstate) outcome" where
  "msginit got_mem mi st =
     (let mi1 = (if to_u32 (msgmax mi) > 65535 then mi\<lparr>msgmax := 65535\<rparr> else mi);
          mi2 = (if to_u32 (msgmnb mi1) > 65535 then mi1\<lparr>msgmnb := 65535\<rparr> else mi1);
          mi3 = (if got_mem then mi2 else mi2\<lparr>msgseg := 0\<rparr>)
      in obind (ipcmfree (ipcmapinit (msgmap st) (mi_msgmap mi3)) (msgseg mi3) 1) (\<lambda>(mm, w).
           Ret (mi3, st\<lparr>msgmap := mm, msgfp := Some 0,
             msgh := map (\<lambda>k. if int (Suc k) < msgtql mi3 then (msgh st ! k)\<lparr>msg_next := Some (Suc k)\<rparr>
                              else msgh st ! k) [0..<length (msgh st)]\<rparr>)))"

section \<open>msgrcv\<close>

text \<open>
  The search for a message of the wanted type: \<open>pmp\<close> and \<open>mp\<close> walk the queue, \<open>spmp\<close>
  and \<open>smp\<close> are the best so far. The counter bounds the walk.
\<close>

fun find_msg :: "nat \<Rightarrow> msg list \<Rightarrow> int \<Rightarrow> nat option \<Rightarrow> nat option \<Rightarrow> nat option \<Rightarrow> nat option
    \<Rightarrow> nat option \<times> nat option" where
  "find_msg n hs typ pmp mp spmp smp =
     (case mp of
        None \<Rightarrow> (spmp, smp)
      | Some k \<Rightarrow>
          (case n of
             0 \<Rightarrow> (spmp, smp)
           | Suc n' \<Rightarrow>
               (let go = find_msg n' hs typ mp (msg_next (hs ! k))
                in if typ > 0 then
                     (if typ \<noteq> msg_type (hs ! k) then go spmp smp else (pmp, mp))
                   else if msg_type (hs ! k) \<le> to_s32 (- typ) then
                     (case smp of
                        Some b \<Rightarrow> if msg_type (hs ! b) \<le> msg_type (hs ! k) then go spmp smp else go pmp mp
                      | None \<Rightarrow> go pmp mp)
                   else go spmp smp)))"

definition pool_read :: "nat \<Rightarrow> nat \<Rightarrow> msgstate \<Rightarrow> int list" where
  "pool_read off n st = map (msg_pool st) [off..<off + n]"

definition pool_write :: "nat \<Rightarrow> int list \<Rightarrow> msgstate \<Rightarrow> msgstate" where
  "pool_write off bs st = st\<lparr>msg_pool :=
     (\<lambda>k. if off \<le> k \<and> k < off + length bs then bs ! (k - off) else msg_pool st k)\<rparr>"

text \<open>With the lock held: what ends the call, or \<open>None\<close> when there is no message.\<close>

definition rcv_try :: "msginfo \<Rightarrow> nat \<Rightarrow> int \<Rightarrow> int \<Rightarrow> 32 word \<Rightarrow> msg_mem \<Rightarrow> uarea \<Rightarrow> msgstate
    \<Rightarrow> (msg_out \<times> uarea \<times> msgstate) option outcome" where
  "rcv_try mi i msgsz msgtyp msgflg mem u st =
     (case (if msgtyp = 0 then (None, msg_first (msgque st ! i))
            else find_msg (length (msgh st)) (msgh st) msgtyp None (msg_first (msgque st ! i)) None None) of
        (spmp, None) \<Rightarrow> Ret None
      | (spmp, Some smp) \<Rightarrow>
          (let m = msgh st ! smp; sz = (if msgsz < msg_ts m then msgsz else msg_ts m)
           in if msgsz < msg_ts m \<and> msgflg AND MSG_NOERROR = 0
              then Ret (Some (MsgNone, set_error E2BIG u, q_unlock i st))
              else case out_copy mem st of
                     (st1, False) \<Rightarrow> Ret (Some (MsgNone, set_error EFAULT u, q_unlock i st1))
                   | (st1, True) \<Rightarrow>
                       (case (if sz \<noteq> 0 then out_text mem st1 else (st1, True)) of
                          (st2, False) \<Rightarrow> Ret (Some (MsgNone, set_error EFAULT u, q_unlock i st2))
                        | (st2, True) \<Rightarrow>
                            (let out = MsgGot (msg_type m) (pool_read (nat (msgssz mi * msg_spot m)) (nat sz) st1);
                                 st3 = upd_q i (\<lambda>q. q\<lparr>msg_cbytes := to_u16 (msg_cbytes q - msg_ts (msgh st2 ! smp)),
                                         msg_lrpid := p_pid u, msg_rtime := msg_time st2\<rparr>) st2
                             in obind (msgfree mi i spmp smp st3) (\<lambda>st4.
                                  Ret (Some (out, (set_error E_OK u)\<lparr>u_rval1 := sz\<rparr>, q_unlock i st4)))))))"

text \<open>
  The calls that sleep: \<open>ls\<close> is what happens during the sleeps in \<^verbatim>\<open>ipc_lock\<close>, and each
  element of \<open>es\<close> one sleep on a channel: whether a signal interrupted it, what the others
  did meanwhile, and what they do during the next \<^verbatim>\<open>ipc_lock\<close>.
\<close>

type_synonym msg_env = "bool \<times> (msgstate \<Rightarrow> msgstate) \<times> (msgstate \<Rightarrow> msgstate) list"

fun msgrcv_loop :: "msginfo \<Rightarrow> int \<Rightarrow> nat \<Rightarrow> int \<Rightarrow> int \<Rightarrow> 32 word \<Rightarrow> msg_mem \<Rightarrow> (msgstate \<Rightarrow> msgstate) list
    \<Rightarrow> msg_env list \<Rightarrow> uarea \<Rightarrow> msgstate \<Rightarrow> msg_run outcome" where
  "msgrcv_loop mi msqid i msgsz msgtyp msgflg mem ls es u st =
     (case q_lock i ls st of
        Gone st1 \<Rightarrow> Ret (MsgDone MsgNone (set_error EIDRM u) st1)
      | Blocked st1 \<Rightarrow> Ret (MsgBlocked u st1)
      | Locked st1 _ \<Rightarrow>
          obind (rcv_try mi i msgsz msgtyp msgflg mem u st1) (\<lambda>r.
            case r of
              Some (out, u1, st2) \<Rightarrow> Ret (MsgDone out u1 st2)
            | None \<Rightarrow>
                (let st2 = q_unlock i st1
                 in if msgflg AND IPC_NOWAIT \<noteq> 0 then Ret (MsgDone MsgNone (set_error ENOMSG u) st2)
                    else let st3 = q_mode i (\<lambda>m. m OR MSG_RWAIT) st2
                         in case es of
                              [] \<Rightarrow> Ret (MsgSleeping (QnumCh i) u st3)
                            | (intr, f, ls') # es' \<Rightarrow>
                                if intr then Ret (MsgDone MsgNone (set_error EINTR u)
                                  (wake_msg [QnumCh i] (q_mode i (\<lambda>m. m AND NOT MSG_RWAIT) (f st3))))
                                else if fst (msgconv mi msqid u (f st3)) = None
                                     then Ret (MsgDone MsgNone (set_error EIDRM u) (f st3))
                                else msgrcv_loop mi msqid i msgsz msgtyp msgflg mem ls' es' u (f st3))))"

definition msgrcv :: "msginfo \<Rightarrow> int \<Rightarrow> int \<Rightarrow> int \<Rightarrow> 32 word \<Rightarrow> msg_mem \<Rightarrow> (msgstate \<Rightarrow> msgstate) list
    \<Rightarrow> msg_env list \<Rightarrow> uarea \<Rightarrow> msgstate \<Rightarrow> msg_run outcome" where
  "msgrcv mi msqid msgsz msgtyp msgflg mem ls es u st =
     (case msgconv mi msqid u st of
        (None, u1) \<Rightarrow> Ret (MsgDone MsgNone u1 st)
      | (Some i, u1) \<Rightarrow>
          (case ipcaccess (msg_perm (msgque st ! i)) MSG_R u1 of
             (True, u2) \<Rightarrow> Ret (MsgDone MsgNone u2 st)
           | (False, u2) \<Rightarrow>
               if msgsz < 0 then Ret (MsgDone MsgNone (set_error EINVAL u2) st)
               else msgrcv_loop mi msqid i msgsz msgtyp msgflg mem ls es u2 st))"

section \<open>msgsnd\<close>

text \<open>A header goes back to the free list; if that was empty the writers are woken.\<close>

definition give_back :: "nat \<Rightarrow> nat \<Rightarrow> msgstate \<Rightarrow> msgstate" where
  "give_back i mp st =
     (let st1 = upd_h mp (\<lambda>m. m\<lparr>msg_next := msgfp st\<rparr>) st;
          st2 = (if msgfp st1 = None then wake_writers i st1 else st1)
      in st2\<lparr>msgfp := Some mp\<rparr>)"

definition msg_link :: "nat \<Rightarrow> nat \<Rightarrow> msgstate \<Rightarrow> msgstate" where
  "msg_link i mp st =
     (case msg_last (msgque st ! i) of
        None \<Rightarrow> upd_q i (\<lambda>q. q\<lparr>msg_first := Some mp, msg_last := Some mp\<rparr>) st
      | Some l \<Rightarrow> upd_q i (\<lambda>q. q\<lparr>msg_last := Some mp\<rparr>) (upd_h l (\<lambda>m. m\<lparr>msg_next := Some mp\<rparr>) st))"

text \<open>With header and segments allocated and the text copied: the message goes on the queue.\<close>

definition msg_post :: "nat \<Rightarrow> nat \<Rightarrow> int \<Rightarrow> int \<Rightarrow> int \<Rightarrow> uarea \<Rightarrow> msgstate \<Rightarrow> uarea \<times> msgstate" where
  "msg_post i mp type cnt spot u st =
     (let st1 = upd_q i (\<lambda>q. q\<lparr>msg_qnum := to_u16 (msg_qnum q + 1), msg_cbytes := to_u16 (msg_cbytes q + cnt),
                  msg_lspid := p_pid u, msg_stime := msg_time st\<rparr>) st;
          st2 = upd_h mp (\<lambda>m. m\<lparr>msg_next := None, msg_type := type, msg_ts := to_u16 cnt,
                  msg_spot := (if cnt \<noteq> 0 then spot else -1)\<rparr>) st1;
          st3 = msg_link i mp st2;
          st4 = (if has_mode i MSG_RWAIT st3
                 then wake_msg [QnumCh i] (q_mode i (\<lambda>m. m AND NOT MSG_RWAIT) st3) else st3)
      in (u\<lparr>u_rval1 := 0\<rparr>, q_unlock i st4))"

datatype snd_result = SndDone uarea msgstate | SndWait msgchan msgstate

definition snd_try :: "msginfo \<Rightarrow> nat \<Rightarrow> int \<Rightarrow> int \<Rightarrow> msg_mem \<Rightarrow> uarea \<Rightarrow> msgstate \<Rightarrow> snd_result outcome" where
  "snd_try mi i type cnt mem u st =
     (if cnt + msg_cbytes (msgque st ! i) > msg_qbytes (msgque st ! i)
      then Ret (SndWait (QueueCh i) (q_unlock i st))
      else case msgfp st of
        None \<Rightarrow> Ret (SndWait FreeCh (q_unlock i st))
      | Some mp \<Rightarrow>
          (let st1 = upd_h mp (\<lambda>m. m\<lparr>msg_next := None\<rparr>) (st\<lparr>msgfp := msg_next (msgh st ! mp)\<rparr>)
           in if cnt = 0 then (case msg_post i mp type cnt 0 u st1 of (u1, st2) \<Rightarrow> Ret (SndDone u1 st2))
              else obind (ipcmalloc (msgmap st1) (btoq mi cnt)) (\<lambda>(a, mm).
                let st2 = st1\<lparr>msgmap := mm\<rparr>
                in if a = 0 then Ret (SndWait MapCh (q_unlock i (give_back i mp st2)))
                   else case in_text mem (nat cnt) st2 of
                     (st3, Some bs) \<Rightarrow>
                       (case msg_post i mp type cnt (a - 1) (set_error E_OK u)
                               (pool_write (nat (msgssz mi * (a - 1))) bs st3) of
                          (u1, st4) \<Rightarrow> Ret (SndDone u1 st4))
                   | (st3, None) \<Rightarrow>
                       (let st4 = give_back i mp st3
                        in obind (ipcmfree (msgmap st4) (btoq mi cnt) (a - 1 + 1)) (\<lambda>(mm', w).
                             Ret (SndDone (set_error EFAULT u) (q_unlock i
                               ((if w then wake_msg [MapCh] else (\<lambda>s. s)) (st4\<lparr>msgmap := mm'\<rparr>)))))))))"

definition want_map :: "msgchan \<Rightarrow> msgstate \<Rightarrow> msgstate" where
  "want_map c st = (if c = MapCh
     then st\<lparr>msgmap := (msgmap st)\<lparr>ipcmapwant := to_u16 (ipcmapwant (msgmap st) + 1)\<rparr>\<rparr> else st)"

fun msgsnd_loop :: "msginfo \<Rightarrow> int \<Rightarrow> nat \<Rightarrow> int \<Rightarrow> int \<Rightarrow> 32 word \<Rightarrow> msg_mem \<Rightarrow> (msgstate \<Rightarrow> msgstate) list
    \<Rightarrow> msg_env list \<Rightarrow> uarea \<Rightarrow> msgstate \<Rightarrow> msg_run outcome" where
  "msgsnd_loop mi msqid i type cnt msgflg mem ls es u st =
     (if fst (msgconv mi msqid u st) = None then Ret (MsgDone MsgNone (set_error EIDRM u) st)
      else case q_lock i ls st of
        Gone st1 \<Rightarrow> Ret (MsgDone MsgNone (set_error EIDRM u) st1)
      | Blocked st1 \<Rightarrow> Ret (MsgBlocked u st1)
      | Locked st1 _ \<Rightarrow>
          obind (snd_try mi i type cnt mem u st1) (\<lambda>r.
            case r of
              SndDone u1 st2 \<Rightarrow> Ret (MsgDone MsgNone u1 st2)
            | SndWait c st2 \<Rightarrow>
                if msgflg AND IPC_NOWAIT \<noteq> 0 then Ret (MsgDone MsgNone (set_error EAGAIN u) st2)
                else let st3 = q_mode i (\<lambda>m. m OR MSG_WWAIT) (want_map c st2)
                     in case es of
                          [] \<Rightarrow> Ret (MsgSleeping c u st3)
                        | (intr, f, ls') # es' \<Rightarrow>
                            if intr then Ret (MsgDone MsgNone (set_error EINTR u) (wake_writers i (f st3)))
                            else msgsnd_loop mi msqid i type cnt msgflg mem ls' es' u (f st3)))"

definition msgsnd :: "msginfo \<Rightarrow> int \<Rightarrow> int \<Rightarrow> 32 word \<Rightarrow> msg_mem \<Rightarrow> (msgstate \<Rightarrow> msgstate) list
    \<Rightarrow> msg_env list \<Rightarrow> uarea \<Rightarrow> msgstate \<Rightarrow> msg_run outcome" where
  "msgsnd mi msqid msgsz msgflg mem ls es u st =
     (case in_type mem st of
        (st1, None) \<Rightarrow> Ret (MsgDone MsgNone (set_error EFAULT u) st1)
      | (st1, Some type) \<Rightarrow>
          (let u0 = set_error E_OK u
           in if type < 1 then Ret (MsgDone MsgNone (set_error EINVAL u0) st1)
              else case msgconv mi msqid u0 st1 of
                (None, u1) \<Rightarrow> Ret (MsgDone MsgNone u1 st1)
              | (Some i, u1) \<Rightarrow>
                  (case ipcaccess (msg_perm (msgque st1 ! i)) MSG_W u1 of
                     (True, u2) \<Rightarrow> Ret (MsgDone MsgNone u2 st1)
                   | (False, u2) \<Rightarrow>
                       if msgsz < 0 \<or> msgsz > msgmax mi then Ret (MsgDone MsgNone (set_error EINVAL u2) st1)
                       else msgsnd_loop mi msqid i type msgsz msgflg mem ls es u2 st1)))"

interpretation msgid: id_table "\<lambda>st q. fst (msgconv mi q u st)" "\<lambda>st i. msg_perm (msgque st ! i)" "msgmni mi"
  by unfold_locales (auto simp: msgconv_def Let_def)

end
