(* ===== verification/Msg_Inv.thy ===== *)
theory Msg_Inv
  imports Sysv_Msg
begin

text \<open>
  The invariant of the message facility and its preservation by the parts of the calls:
  the headers are shared out between the free list and the queues, each queue's list,
  counts and last pointer agree, and the text segments of queued messages are disjoint
  and taken from the map.
\<close>

section \<open>Representation\<close>

definition mi_wf :: "msginfo \<Rightarrow> bool" where
  "mi_wf mi \<longleftrightarrow> 0 < msgmni mi \<and> msgmni mi \<le> 32767 \<and> 0 < msgssz mi \<and> 0 < msgtql mi \<and> msgtql mi \<le> 65535 \<and>
     0 \<le> msgseg mi \<and> msgseg mi < 32768 \<and> 0 \<le> msgmax mi \<and> msgmax mi \<le> 65535 \<and>
     0 \<le> msgmnb mi \<and> msgmnb mi \<le> 65535"

definition nx :: "msgstate \<Rightarrow> nat \<Rightarrow> nat option" where
  "nx st h = msg_next (msgh st ! h)"

text \<open>The units of the map that hold a message's text.\<close>

definition text_units :: "msginfo \<Rightarrow> msg \<Rightarrow> nat set" where
  "text_units mi m = (if msg_ts m = 0 then {}
     else {Suc (nat (msg_spot m))..<Suc (nat (msg_spot m)) + nat (btoq mi (msg_ts m))})"

definition hdr_ok :: "msginfo \<Rightarrow> msg \<Rightarrow> bool" where
  "hdr_ok mi m \<longleftrightarrow> 1 \<le> msg_type m \<and> 0 \<le> msg_ts m \<and> msg_ts m \<le> 65535 \<and> (msg_ts m \<noteq> 0 \<longrightarrow> 0 \<le> msg_spot m) \<and>
     text_units mi m \<subseteq> {1..nat (msgseg mi)}"

text \<open>The headers \<open>F\<close> are free, \<open>Q i\<close> are on queue \<open>i\<close>.\<close>

definition shared_out :: "nat \<Rightarrow> nat \<Rightarrow> nat list \<Rightarrow> (nat \<Rightarrow> nat list) \<Rightarrow> bool" where
  "shared_out n m F Q \<longleftrightarrow> distinct F \<and> (\<forall>i < n. distinct (Q i) \<and> set F \<inter> set (Q i) = {}) \<and>
     (\<forall>i < n. \<forall>j < n. i \<noteq> j \<longrightarrow> set (Q i) \<inter> set (Q j) = {}) \<and>
     {..<m} = set F \<union> (\<Union>i < n. set (Q i))"

definition queue_rep :: "msgstate \<Rightarrow> msqid_ds \<Rightarrow> nat list \<Rightarrow> bool" where
  "queue_rep st q hs \<longleftrightarrow> linked (nx st) (msg_first q) hs \<and>
     msg_last q = (if hs = [] then None else Some (last hs)) \<and> msg_qnum q = int (length hs)"

definition msg_rep :: "msginfo \<Rightarrow> msgstate \<Rightarrow> nat list \<Rightarrow> (nat \<Rightarrow> nat list) \<Rightarrow> bool" where
  "msg_rep mi st F Q \<longleftrightarrow>
     length (msgque st) = nat (msgmni mi) \<and> length (msgh st) = nat (msgtql mi) \<and>
     shared_out (length (msgque st)) (length (msgh st)) F Q \<and>
     linked (nx st) (msgfp st) F \<and>
     (\<forall>i < length (msgque st). queue_rep st (msgque st ! i) (Q i) \<and>
        (\<not> allocated (msg_perm (msgque st ! i)) \<longrightarrow> Q i = []) \<and>
        (\<forall>h \<in> set (Q i). hdr_ok mi (msgh st ! h) \<and>
           text_units mi (msgh st ! h) \<inter> units (imap_segs (msgmap st)) = {})) \<and>
     (\<forall>i < length (msgque st). \<forall>j < length (msgque st). \<forall>h \<in> set (Q i). \<forall>k \<in> set (Q j). h \<noteq> k \<longrightarrow>
        text_units mi (msgh st ! h) \<inter> text_units mi (msgh st ! k) = {}) \<and>
     imap_wf (msgmap st) \<and> units (imap_segs (msgmap st)) \<subseteq> {1..nat (msgseg mi)} \<and>
     keys_unique (map msg_perm (msgque st)) \<and>
     (\<forall>i < length (msgque st). 0 \<le> ip_seq (msg_perm (msgque st ! i)) \<and> ip_seq (msg_perm (msgque st ! i)) < 65536 \<and>
        0 \<le> msg_qbytes (msgque st ! i) \<and> msg_qbytes (msgque st ! i) \<le> 65535)"

definition bytes_ok :: "msgstate \<Rightarrow> (nat \<Rightarrow> nat list) \<Rightarrow> bool" where
  "bytes_ok st Q \<longleftrightarrow> (\<forall>i < length (msgque st).
     msg_cbytes (msgque st ! i) = (\<Sum>h \<leftarrow> Q i. msg_ts (msgh st ! h)) \<and> msg_cbytes (msgque st ! i) \<le> 65535)"

text \<open>Between the steps of the facility no queue is locked.\<close>

definition unlocked :: "msgstate \<Rightarrow> bool" where
  "unlocked st \<longleftrightarrow> (\<forall>q \<in> set (msgque st). \<not> is_locked (msg_perm q) \<and> \<not> is_wanted (msg_perm q))"

definition msg_inv :: "msginfo \<Rightarrow> msgstate \<Rightarrow> bool" where
  "msg_inv mi st \<longleftrightarrow> (\<exists>F Q. msg_rep mi st F Q \<and> bytes_ok st Q) \<and> unlocked st"

text \<open>The contents of a queue, as a list of types and texts.\<close>

definition q_hdrs :: "msgstate \<Rightarrow> nat \<Rightarrow> nat list" where
  "q_hdrs st i = chain_from (length (msgh st)) (nx st) (msg_first (msgque st ! i))"

definition item :: "msginfo \<Rightarrow> msgstate \<Rightarrow> nat \<Rightarrow> int \<times> int list" where
  "item mi st h = (msg_type (msgh st ! h), pool_read (nat (msgssz mi * msg_spot (msgh st ! h))) (nat (msg_ts (msgh st ! h))) st)"

definition q_items :: "msginfo \<Rightarrow> msgstate \<Rightarrow> nat \<Rightarrow> (int \<times> int list) list" where
  "q_items mi st i = (if i < length (msgque st) then map (item mi st) (q_hdrs st i) else [])"

section \<open>Basic facts\<close>

lemma shared_out_length:
  assumes "shared_out n m F Q" and "i < n"
  shows "length (Q i) \<le> m" and "set (Q i) \<subseteq> {..<m}" and "set F \<subseteq> {..<m}"
proof -
  show "set (Q i) \<subseteq> {..<m}" "set F \<subseteq> {..<m}" using assms by (auto simp: shared_out_def)
  then show "length (Q i) \<le> m" using assms distinct_length_le by (auto simp: shared_out_def)
qed

lemma rep_hdrs:
  assumes "msg_rep mi st F Q" and "i < length (msgque st)"
  shows "q_hdrs st i = Q i"
proof -
  have so: "shared_out (length (msgque st)) (length (msgh st)) F Q" using assms unfolding msg_rep_def by blast
  have "linked (nx st) (msg_first (msgque st ! i)) (Q i)" using assms by (simp add: msg_rep_def queue_rep_def)
  then show ?thesis unfolding q_hdrs_def by (rule linked_chain_from) (rule shared_out_length(1) [OF so assms(2)])
qed

lemma btoq_bounds:
  assumes "mi_wf mi" and "0 < x"
  shows "1 \<le> btoq mi x" and "x \<le> msgssz mi * btoq mi x"
proof -
  let ?s = "msgssz mi"
  have s: "0 < ?s" using assms by (simp add: mi_wf_def)
  have "1 * ?s \<le> x + ?s - 1" using assms(2) by simp
  then show "1 \<le> btoq mi x" using s zdiv_mono1 [of "1 * ?s" "x + ?s - 1" ?s] by (simp add: btoq_def)
  have "x + ?s - 1 = ?s * btoq mi x + (x + ?s - 1) mod ?s" by (simp add: btoq_def)
  moreover have "(x + ?s - 1) mod ?s < ?s" using s by simp
  ultimately show "x \<le> ?s * btoq mi x" by linarith
qed

section \<open>Changes outside the representation\<close>

definition q_core :: "msqid_ds \<Rightarrow> bool \<times> int \<times> int \<times> nat option \<times> nat option \<times> int \<times> int \<times> int" where
  "q_core q = (allocated (msg_perm q), ip_seq (msg_perm q), ip_key (msg_perm q), msg_first q, msg_last q,
     msg_qnum q, msg_qbytes q, msg_cbytes q)"

definition core_eq :: "msgstate \<Rightarrow> msgstate \<Rightarrow> bool" where
  "core_eq st st' \<longleftrightarrow> msgh st' = msgh st \<and> msgfp st' = msgfp st \<and> imap_segs (msgmap st') = imap_segs (msgmap st) \<and>
     imap_wf (msgmap st') = imap_wf (msgmap st) \<and> msg_pool st' = msg_pool st \<and>
     length (msgque st') = length (msgque st) \<and> (\<forall>i. q_core (msgque st' ! i) = q_core (msgque st ! i))"

lemma core_eq_refl [simp]: "core_eq st st"
  by (simp add: core_eq_def)

lemma core_eq_trans [trans]: "core_eq a b \<Longrightarrow> core_eq b c \<Longrightarrow> core_eq a c"
  by (simp add: core_eq_def)

lemma core_eqD:
  assumes "core_eq st st'"
  shows "msgh st' = msgh st" and "length (msgque st') = length (msgque st)" and "msgfp st' = msgfp st"
    and "nx st' = nx st" and "msg_pool st' = msg_pool st"
    and "allocated (msg_perm (msgque st' ! i)) = allocated (msg_perm (msgque st ! i))"
    and "ip_seq (msg_perm (msgque st' ! i)) = ip_seq (msg_perm (msgque st ! i))"
    and "ip_key (msg_perm (msgque st' ! i)) = ip_key (msg_perm (msgque st ! i))"
    and "msg_first (msgque st' ! i) = msg_first (msgque st ! i)"
    and "msg_last (msgque st' ! i) = msg_last (msgque st ! i)"
    and "msg_qnum (msgque st' ! i) = msg_qnum (msgque st ! i)"
    and "msg_qbytes (msgque st' ! i) = msg_qbytes (msgque st ! i)"
    and "msg_cbytes (msgque st' ! i) = msg_cbytes (msgque st ! i)"
    and "imap_segs (msgmap st') = imap_segs (msgmap st)" and "imap_wf (msgmap st') = imap_wf (msgmap st)"
proof -
  have "q_core (msgque st' ! i) = q_core (msgque st ! i)" using assms by (simp add: core_eq_def)
  then show "allocated (msg_perm (msgque st' ! i)) = allocated (msg_perm (msgque st ! i))"
    "ip_seq (msg_perm (msgque st' ! i)) = ip_seq (msg_perm (msgque st ! i))"
    "ip_key (msg_perm (msgque st' ! i)) = ip_key (msg_perm (msgque st ! i))"
    "msg_first (msgque st' ! i) = msg_first (msgque st ! i)"
    "msg_last (msgque st' ! i) = msg_last (msgque st ! i)"
    "msg_qnum (msgque st' ! i) = msg_qnum (msgque st ! i)"
    "msg_qbytes (msgque st' ! i) = msg_qbytes (msgque st ! i)"
    "msg_cbytes (msgque st' ! i) = msg_cbytes (msgque st ! i)"
    by (simp_all add: q_core_def)
qed (use assms in \<open>simp_all add: core_eq_def nx_def [abs_def]\<close>)

lemma core_eq_rep:
  assumes c: "core_eq st st'" and r: "msg_rep mi st F Q"
  shows "msg_rep mi st' F Q"
proof -
  have "keys_unique (map msg_perm (msgque st))" using r unfolding msg_rep_def by blast
  then have "keys_unique (map msg_perm (msgque st'))" by (simp add: keys_unique_def core_eqD [OF c])
  then show ?thesis using r unfolding msg_rep_def queue_rep_def core_eqD [OF c] by blast
qed

lemma core_eq_bytes: "core_eq st st' \<Longrightarrow> bytes_ok st' Q = bytes_ok st Q"
  by (simp add: bytes_ok_def core_eqD)

lemma core_eq_items: "core_eq st st' \<Longrightarrow> q_items mi st' = q_items mi st"
  by (rule ext) (simp add: q_items_def q_hdrs_def item_def pool_read_def core_eqD cong: map_cong)

lemma core_eq_msgconv: "core_eq st st' \<Longrightarrow> fst (msgconv mi q v st') = fst (msgconv mi q v st)"
  by (simp add: msgconv_def Let_def core_eqD)

lemma core_eq_upd_q:
  assumes "\<And>q. q_core (f q) = q_core q"
  shows "core_eq st (upd_q i f st)"
  using assms by (simp add: core_eq_def upd_q_def nth_upd)

lemma core_eq_wake [simp]: "core_eq st (wake_msg cs st)"
  by (simp add: core_eq_def wake_msg_def)

lemma core_eq_mode:
  assumes "\<And>m. bit (f m) 15 = bit m 15"
  shows "core_eq st (q_mode i f st)"
  unfolding q_mode_def by (rule core_eq_upd_q) (simp add: q_core_def mode_bits assms)

lemma core_eq_writers [simp]: "core_eq st (wake_writers i st)"
  unfolding wake_writers_def
  by (rule core_eq_trans [OF core_eq_mode core_eq_wake]) (simp add: bit_simps)

lemma unlock_key [simp]: "ip_key (snd (ipc_unlock p)) = ip_key p" "ip_key (snd (ipc_lock_try p)) = ip_key p"
  by (simp_all add: ipc_unlock_def ipc_lock_try_def Let_def)

lemma core_eq_put:
  assumes "allocated p = allocated (msg_perm (msgque st ! i))" and "ip_seq p = ip_seq (msg_perm (msgque st ! i))"
    and "ip_key p = ip_key (msg_perm (msgque st ! i))"
  shows "core_eq st (q_put i p st)"
  using assms by (auto simp: core_eq_def q_put_def upd_q_def nth_upd q_core_def)

lemma core_eq_unlock [simp]: "core_eq st (q_unlock i st)"
proof -
  obtain w p where u: "ipc_unlock (msg_perm (msgque st ! i)) = (w, p)" by (cases "ipc_unlock (msg_perm (msgque st ! i))")
  then have "core_eq st (q_put i p st)"
    using unlock_simps(1,2) [of "msg_perm (msgque st ! i)"] unlock_key(1) [of "msg_perm (msgque st ! i)"]
    by (intro core_eq_put) simp_all
  then show ?thesis using u core_eq_trans [OF _ core_eq_wake] by (simp add: q_unlock_def)
qed

lemma core_eq_want [simp]: "core_eq st (want_map c st)"
  by (simp add: core_eq_def want_map_def imap_segs_def imap_wf_def)

text \<open>The core of a state decides what an operation on the core does.\<close>

lemma core_eq_upd_h: "core_eq a b \<Longrightarrow> core_eq (upd_h h f a) (upd_h h f b)"
  by (simp add: core_eq_def upd_h_def)

lemma core_eq_upd_q_cong:
  assumes "core_eq a b" and "\<And>q q'. q_core q = q_core q' \<Longrightarrow> q_core (f q) = q_core (f q')"
  shows "core_eq (upd_q i f a) (upd_q i f b)"
proof -
  have "q_core (f (msgque b ! i)) = q_core (f (msgque a ! i))"
    by (rule assms(2)) (use assms(1) in \<open>simp add: core_eq_def\<close>)
  then show ?thesis using assms(1) by (auto simp: core_eq_def upd_q_def nth_upd)
qed

lemma core_eq_fp: "core_eq a b \<Longrightarrow> core_eq (a\<lparr>msgfp := p\<rparr>) (b\<lparr>msgfp := p\<rparr>)"
  by (simp add: core_eq_def)

lemma core_eq_map: "core_eq a b \<Longrightarrow> core_eq (a\<lparr>msgmap := m\<rparr>) (b\<lparr>msgmap := m\<rparr>)"
  by (simp add: core_eq_def)

section \<open>Locks\<close>

definition locks :: "msgstate \<Rightarrow> (bool \<times> bool) list" where
  "locks st = map (\<lambda>q. (is_locked (msg_perm q), is_wanted (msg_perm q))) (msgque st)"

text \<open>Only queue \<open>i\<close> may be locked, and nobody waits for a lock.\<close>

definition held :: "nat \<Rightarrow> msgstate \<Rightarrow> bool" where
  "held i st \<longleftrightarrow> (\<forall>j < length (locks st). (j \<noteq> i \<longrightarrow> \<not> fst (locks st ! j)) \<and> \<not> snd (locks st ! j))"

lemma locks_upd_q:
  assumes "\<And>q. is_locked (msg_perm (f q)) = is_locked (msg_perm q)" "\<And>q. is_wanted (msg_perm (f q)) = is_wanted (msg_perm q)"
  shows "locks (upd_q i f st) = locks st"
proof (cases "i < length (msgque st)")
  case True
  then have "(map g (msgque st))[i := g (msgque st ! i)] = map g (msgque st)" for g :: "msqid_ds \<Rightarrow> bool \<times> bool"
    using list_update_id [of "map g (msgque st)" i] by simp
  then show ?thesis by (simp add: locks_def upd_q_def map_update assms)
qed (simp add: locks_def upd_q_def list_update_beyond)

lemma locks_mode: "(\<And>m. bit (f m) 14 = bit m 14) \<Longrightarrow> (\<And>m. bit (f m) 11 = bit m 11) \<Longrightarrow> locks (q_mode i f st) = locks st"
  unfolding q_mode_def by (rule locks_upd_q) (simp_all add: mode_bits)

lemma locks_simps [simp]:
  "locks (upd_h h g st) = locks st" "locks (wake_msg cs st) = locks st" "locks (want_map c st) = locks st"
  "locks (pool_write k bs st) = locks st" "locks (st\<lparr>msgmap := m\<rparr>) = locks st" "locks (st\<lparr>msgfp := p\<rparr>) = locks st"
  "locks (wake_writers i st) = locks st"
  by (simp_all add: locks_def upd_h_def wake_msg_def want_map_def pool_write_def wake_writers_def
      locks_mode [unfolded locks_def] bit_simps)

lemma unlocked_held: "unlocked st \<Longrightarrow> held i st"
  by (auto simp: unlocked_def held_def locks_def)

lemma held_locks: "locks st' = locks st \<Longrightarrow> held i st \<Longrightarrow> held i st'"
  by (simp add: held_def)

lemma q_unlock_unlocked: "held i st \<Longrightarrow> unlocked (q_unlock i st)"
proof -
  assume h: "held i st"
  obtain w p where u: "ipc_unlock (msg_perm (msgque st ! i)) = (w, p)" by (cases "ipc_unlock (msg_perm (msgque st ! i))")
  then have p: "\<not> is_locked p" "\<not> is_wanted p"
    using unlock_simps(3,4) [of "msg_perm (msgque st ! i)"] by simp_all
  have "\<not> is_locked (msg_perm (msgque (q_put i p st) ! j)) \<and> \<not> is_wanted (msg_perm (msgque (q_put i p st) ! j))"
    if "j < length (msgque st)" for j
    using p h that by (cases "j = i") (auto simp: q_put_def upd_q_def nth_upd held_def locks_def)
  moreover have "length (msgque (q_put i p st)) = length (msgque st)" by (simp add: q_put_def upd_q_def)
  ultimately show ?thesis
    using u by (auto simp: unlocked_def q_unlock_def wake_msg_def in_set_conv_nth)
qed

lemma q_lock_free:
  assumes "unlocked st" and "i < length (msgque st)"
  shows "\<exists>st'. q_lock i ls st = Locked st' ls \<and> core_eq st st' \<and> held i st' \<and> msg_time st' = msg_time st \<and>
    ip_uid (msg_perm (msgque st' ! i)) = ip_uid (msg_perm (msgque st ! i)) \<and>
    ip_cuid (msg_perm (msgque st' ! i)) = ip_cuid (msg_perm (msgque st ! i))"
proof -
  let ?p = "msg_perm (msgque st ! i)"
  have n: "\<not> is_locked ?p" "\<not> is_wanted ?p" using assms by (auto simp: unlocked_def)
  obtain p where t: "ipc_lock_try ?p = (True, p)" using n lock_try_simps(5) [of ?p] by (cases "ipc_lock_try ?p") auto
  have p: "allocated p = allocated ?p" "ip_seq p = ip_seq ?p" "ip_key p = ip_key ?p" "\<not> is_wanted p"
    using lock_try_simps(1,2,4) [of ?p] unlock_key(2) [of ?p] n t by auto
  have o: "ip_uid p = ip_uid ?p" "ip_cuid p = ip_cuid ?p" using t n by (auto simp: ipc_lock_try_def)
  have "held i (q_put i p st)"
    using assms p(4) by (auto simp: held_def unlocked_def locks_def q_put_def upd_q_def nth_upd)
  moreover have "q_lock i ls st = Locked (q_put i p st) ls"
    by (cases ls) (simp_all add: q_lock_def ipc_lock_def t)
  ultimately show ?thesis using core_eq_put [OF p(1-3)] o assms(2) by (auto simp: q_put_def upd_q_def)
qed

section \<open>Text segments\<close>

lemma ipcmfree_any:
  assumes "imap_wf mp" and "0 < n" and "0 < a" and "a + n < map_lim" and "{a..<a + n} \<inter> units (imap_segs mp) = {}"
  shows "\<exists>mm w. ipcmfree mp (int n) (int a) = Ret (mm, w) \<and> imap_wf mm \<and>
    units (imap_segs mm) \<subseteq> units (imap_segs mp) \<union> {a..<a + n} \<and>
    (im_lost mm = im_lost mp \<longrightarrow> units (imap_segs mm) = units (imap_segs mp) \<union> {a..<a + n})"
proof -
  let ?m = "mp\<lparr>im_lost := im_lost mp @ [(int n, int a)]\<rparr>"
  have m: "imap_wf ?m" "imap_segs ?m = imap_segs mp" using assms(1) by (simp_all add: imap_wf_def imap_segs_def)
  show ?thesis
  proof (cases "ipcmfree mp (int n) (int a) = Ret (?m, False)")
    case True
    then show ?thesis using m by (intro exI [of _ ?m] exI [of _ False]) auto
  next
    case False
    then show ?thesis using ipcmfree_effect [OF assms] by auto
  qed
qed

lemma text_units_range:
  assumes "mi_wf mi" and "hdr_ok mi m" and "msg_ts m \<noteq> 0"
  obtains n a where "0 < n" "0 < a" "a + n < map_lim" "text_units mi m = {a..<a + n}"
    "btoq mi (msg_ts m) = int n" "msg_spot m + 1 = int a"
proof -
  define n a where "n = nat (btoq mi (msg_ts m))" and "a = Suc (nat (msg_spot m))"
  have "0 < msg_ts m" using assms(2,3) by (simp add: hdr_ok_def)
  then have n: "0 < n" "btoq mi (msg_ts m) = int n" using btoq_bounds(1) [OF assms(1), of "msg_ts m"] unfolding n_def by simp_all
  have t: "text_units mi m = {a..<a + n}" using assms(3) by (simp add: text_units_def n_def a_def)
  have "a + n - 1 \<in> {a..<a + n}" using n by simp
  then have "a + n - 1 \<le> nat (msgseg mi)" using assms(2) unfolding t hdr_ok_def by force
  moreover have "nat (msgseg mi) < 32768" using assms(1) unfolding mi_wf_def by linarith
  ultimately have "a + n < map_lim" by simp
  moreover have "msg_spot m + 1 = int a" using assms(2,3) by (simp add: hdr_ok_def a_def)
  ultimately show ?thesis using that [of n a] n t by (simp add: a_def)
qed

section \<open>Freeing a message\<close>

lemma has_mode_wake: "core_eq st (if has_mode i b st then wake_writers i st else st)"
  by simp

lemma unlink_facts:
  fixes i mp :: nat and st :: msgstate
  assumes "pmp \<noteq> Some mp"
  defines "st' \<equiv> msg_unlink i pmp mp st"
  shows "length (msgh st') = length (msgh st)" and "length (msgque st') = length (msgque st)"
    and "msgfp st' = msgfp st" and "msgmap st' = msgmap st" and "msg_pool st' = msg_pool st"
    and "locks st' = locks st" and "msg_time st' = msg_time st"
    and "msgh st' ! mp = msgh st ! mp"
    and "msg_type (msgh st' ! h) = msg_type (msgh st ! h)" and "msg_ts (msgh st' ! h) = msg_ts (msgh st ! h)"
    and "msg_spot (msgh st' ! h) = msg_spot (msgh st ! h)"
    and "nx st' h = (if pmp = Some h \<and> h < length (msgh st) then nx st mp else nx st h)"
    and "j \<noteq> i \<Longrightarrow> msgque st' ! j = msgque st ! j"
    and "i < length (msgque st) \<Longrightarrow> msgque st' ! i = (msgque st ! i)
      \<lparr>msg_first := (if pmp = None then nx st mp else msg_first (msgque st ! i)),
       msg_last := (if nx st mp = None then pmp else msg_last (msgque st ! i)),
       msg_qnum := to_u16 (msg_qnum (msgque st ! i) - 1)\<rparr>"
proof -
  show "locks st' = locks st"
    by (simp add: st'_def msg_unlink_def Let_def locks_upd_q split: option.split)
qed (use assms(1) in \<open>auto simp: st'_def msg_unlink_def Let_def upd_q_def upd_h_def nth_upd nx_def split: option.split\<close>)

text \<open>What \<open>msgfree\<close> does to the core, with \<open>mm\<close> the map after the text is freed.\<close>

lemma msgfree_core:
  assumes p: "pmp \<noteq> Some mp"
    and fr: "if msg_ts (msgh st ! mp) \<noteq> 0
      then ipcmfree (msgmap st) (btoq mi (msg_ts (msgh st ! mp))) (msg_spot (msgh st ! mp) + 1) = Ret (mm, w)
      else mm = msgmap st"
  shows "\<exists>st'. msgfree mi i pmp mp st = Ret st' \<and> locks st' = locks st \<and>
    core_eq ((upd_h mp (\<lambda>m. m\<lparr>msg_next := msgfp st\<rparr>) ((msg_unlink i pmp mp st)\<lparr>msgmap := mm\<rparr>))\<lparr>msgfp := Some mp\<rparr>) st'"
proof -
  note u = unlink_facts [OF p, where i = i and st = st]
  define st3 where "st3 = msg_unlink i pmp mp st"
  define st4 where "st4 = (if has_mode i MSG_WWAIT st3 then wake_writers i st3 else st3)"
  define st5 where "st5 = (if msg_ts (msgh st ! mp) \<noteq> 0
    then (if w then wake_msg [MapCh] else (\<lambda>s. s)) (st4\<lparr>msgmap := mm\<rparr>) else st4)"
  define st6 where "st6 = upd_h mp (\<lambda>m. m\<lparr>msg_next := msgfp st5\<rparr>) st5"
  define st7 where "st7 = (if msgfp st5 = None then wake_writers i st6 else st6)"
  have e34: "core_eq st3 st4" by (simp add: st4_def)
  have m4: "msgh st4 ! mp = msgh st ! mp" "msgfp st4 = msgfp st"
    using core_eqD(1,3) [OF e34] u(8,3) by (simp_all add: st3_def)
  have mm4: "msgmap st4 = msgmap st"
    using u(4) by (simp add: st4_def st3_def wake_writers_def wake_msg_def q_mode_def upd_q_def)
  have "st4\<lparr>msgmap := msgmap st\<rparr> = st4" using mm4 by simp
  then have "core_eq (st4\<lparr>msgmap := mm\<rparr>) st5"
    using fr by (auto simp: st5_def split: if_splits)
  then have e5: "core_eq (st3\<lparr>msgmap := mm\<rparr>) st5" using core_eq_trans [OF core_eq_map [OF e34]] by blast
  have fp5: "msgfp st5 = msgfp st" using core_eqD(3) [OF e5] u(3) by (simp add: st3_def)
  have "core_eq (upd_h mp (\<lambda>m. m\<lparr>msg_next := msgfp st\<rparr>) (st3\<lparr>msgmap := mm\<rparr>)) st6"
    using core_eq_upd_h [OF e5] by (simp add: st6_def fp5)
  moreover have "core_eq st6 st7" by (simp add: st7_def)
  ultimately have "core_eq ((upd_h mp (\<lambda>m. m\<lparr>msg_next := msgfp st\<rparr>) (st3\<lparr>msgmap := mm\<rparr>))\<lparr>msgfp := Some mp\<rparr>)
      (st7\<lparr>msgfp := Some mp\<rparr>)"
    using core_eq_trans core_eq_fp by blast
  moreover have "msgfree mi i pmp mp st = Ret (st7\<lparr>msgfp := Some mp\<rparr>)"
    using fr m4 mm4
    by (simp add: msgfree_def Let_def st3_def [symmetric] st4_def [symmetric] st7_def st6_def st5_def split: if_splits)
  moreover have "locks (st7\<lparr>msgfp := Some mp\<rparr>) = locks st"
    using u(6) by (simp add: st7_def st6_def st5_def st4_def st3_def)
  ultimately show ?thesis by (auto simp: st3_def)
qed

text \<open>Nothing but the chains and counts of the queues has changed.\<close>

definition body_eq :: "msgstate \<Rightarrow> msgstate \<Rightarrow> bool" where
  "body_eq st st' \<longleftrightarrow> length (msgh st') = length (msgh st) \<and> length (msgque st') = length (msgque st) \<and>
     msg_pool st' = msg_pool st \<and>
     (\<forall>h. msg_type (msgh st' ! h) = msg_type (msgh st ! h) \<and> msg_ts (msgh st' ! h) = msg_ts (msgh st ! h) \<and>
        msg_spot (msgh st' ! h) = msg_spot (msgh st ! h)) \<and>
     (\<forall>j. allocated (msg_perm (msgque st' ! j)) = allocated (msg_perm (msgque st ! j)) \<and>
        ip_seq (msg_perm (msgque st' ! j)) = ip_seq (msg_perm (msgque st ! j)) \<and>
        ip_key (msg_perm (msgque st' ! j)) = ip_key (msg_perm (msgque st ! j)) \<and>
        msg_qbytes (msgque st' ! j) = msg_qbytes (msgque st ! j))"

definition cbytes :: "msgstate \<Rightarrow> int list" where
  "cbytes st = map msg_cbytes (msgque st)"

lemma core_eq_cbytes: "core_eq st st' \<Longrightarrow> cbytes st' = cbytes st"
  by (auto simp: cbytes_def core_eqD intro: nth_equalityI)

lemma bytes_ok_iff:
  "bytes_ok st Q \<longleftrightarrow> (\<forall>i < length (cbytes st). cbytes st ! i = (\<Sum>h \<leftarrow> Q i. msg_ts (msgh st ! h)) \<and> cbytes st ! i \<le> 65535)"
  by (auto simp: bytes_ok_def cbytes_def)

lemma body_eq_core: "core_eq st st' \<Longrightarrow> body_eq st st'"
  by (simp add: body_eq_def core_eqD)

lemma body_eq_trans: "body_eq a b \<Longrightarrow> body_eq b c \<Longrightarrow> body_eq a c"
  by (simp add: body_eq_def)

lemma body_eq_item: "body_eq st st' \<Longrightarrow> item mi st' h = item mi st h"
  by (simp add: item_def pool_read_def body_eq_def)

lemma body_eq_units:
  assumes "body_eq st st'"
  shows "text_units mi (msgh st' ! h) = text_units mi (msgh st ! h)" and "hdr_ok mi (msgh st' ! h) = hdr_ok mi (msgh st ! h)"
  using assms by (simp_all add: text_units_def hdr_ok_def body_eq_def)

lemma shared_outD:
  assumes "shared_out n m F Q"
  shows "distinct F" and "j < n \<Longrightarrow> distinct (Q j)" and "j < n \<Longrightarrow> set F \<inter> set (Q j) = {}"
    and "j < n \<Longrightarrow> k < n \<Longrightarrow> j \<noteq> k \<Longrightarrow> set (Q j) \<inter> set (Q k) = {}"
    and "{..<m} = set F \<union> (\<Union>j < n. set (Q j))"
  using assms unfolding shared_out_def by blast+

lemma shared_out_free:
  assumes "shared_out n m F Q" and "i < n" and "Q i = xs @ mp # ys"
  shows "shared_out n m (mp # F) (Q(i := xs @ ys))"
proof -
  have s: "distinct F" "\<And>j. j < n \<Longrightarrow> distinct (Q j) \<and> set F \<inter> set (Q j) = {}"
    "\<And>j k. j < n \<Longrightarrow> k < n \<Longrightarrow> j \<noteq> k \<Longrightarrow> set (Q j) \<inter> set (Q k) = {}" "{..<m} = set F \<union> (\<Union>j<n. set (Q j))"
    using assms(1) unfolding shared_out_def by blast+
  have mp: "mp \<in> set (Q i)" "mp \<notin> set F" "mp \<notin> set (xs @ ys)" "distinct (xs @ ys)" "set (xs @ ys) = set (Q i) - {mp}"
    using s(2) [OF assms(2)] assms(3) by auto
  have o: "mp \<notin> set (Q j)" if "j < n" "j \<noteq> i" for j using s(3) [OF that(1) assms(2) that(2)] mp(1) by blast
  have "(\<Union>j<n. set ((Q(i := xs @ ys)) j)) = (\<Union>j<n. set (Q j)) - {mp}"
  proof -
    have "set ((Q(i := xs @ ys)) j) = set (Q j) - {mp}" if "j < n" for j
      using mp(5) o [OF that] by (cases "j = i") auto
    then show ?thesis by auto
  qed
  then have "{..<m} = set (mp # F) \<union> (\<Union>j<n. set ((Q(i := xs @ ys)) j))"
    using s(4) mp(1) assms(2) by auto
  moreover have "distinct (mp # F)" using s(1) mp(2) by simp
  moreover have "distinct ((Q(i := xs @ ys)) j) \<and> set (mp # F) \<inter> set ((Q(i := xs @ ys)) j) = {}" if "j < n" for j
  proof (cases "j = i")
    case True
    then show ?thesis using mp s(2) [OF assms(2)] by auto
  next
    case False
    then show ?thesis using o [OF that] s(2) [OF that] by auto
  qed
  moreover have "set ((Q(i := xs @ ys)) j) \<inter> set ((Q(i := xs @ ys)) k) = {}" if "j < n" "k < n" "j \<noteq> k" for j k
  proof -
    have "set ((Q(i := xs @ ys)) l) \<subseteq> set (Q l)" for l using mp(5) by (cases "l = i") auto
    then have "set ((Q(i := xs @ ys)) j) \<subseteq> set (Q j)" "set ((Q(i := xs @ ys)) k) \<subseteq> set (Q k)" by blast+
    then show ?thesis using s(3) [OF that] by blast
  qed
  ultimately show ?thesis unfolding shared_out_def by (intro conjI allI impI) (simp_all only: simp_thms)
qed

text \<open>How a representation is assembled from its parts.\<close>

lemma msg_repD:
  assumes "msg_rep mi st F Q"
  shows "length (msgque st) = nat (msgmni mi)" and "length (msgh st) = nat (msgtql mi)"
    and "shared_out (length (msgque st)) (length (msgh st)) F Q" and "linked (nx st) (msgfp st) F"
    and "imap_wf (msgmap st)" and "units (imap_segs (msgmap st)) \<subseteq> {1..nat (msgseg mi)}"
    and "keys_unique (map msg_perm (msgque st))"
  using assms unfolding msg_rep_def by blast+

lemma msg_repD_queue:
  assumes "msg_rep mi st F Q" and "i < length (msgque st)"
  shows "queue_rep st (msgque st ! i) (Q i)" and "\<not> allocated (msg_perm (msgque st ! i)) \<Longrightarrow> Q i = []"
    and "h \<in> set (Q i) \<Longrightarrow> hdr_ok mi (msgh st ! h)"
    and "h \<in> set (Q i) \<Longrightarrow> text_units mi (msgh st ! h) \<inter> units (imap_segs (msgmap st)) = {}"
    and "0 \<le> ip_seq (msg_perm (msgque st ! i))" and "ip_seq (msg_perm (msgque st ! i)) < 65536"
    and "0 \<le> msg_qbytes (msgque st ! i)" and "msg_qbytes (msgque st ! i) \<le> 65535"
    and "j < length (msgque st) \<Longrightarrow> h \<in> set (Q i) \<Longrightarrow> k \<in> set (Q j) \<Longrightarrow> h \<noteq> k \<Longrightarrow>
      text_units mi (msgh st ! h) \<inter> text_units mi (msgh st ! k) = {}"
  using assms unfolding msg_rep_def by blast+

lemma msg_repI:
  assumes "length (msgque st) = nat (msgmni mi)" and "length (msgh st) = nat (msgtql mi)"
    and "shared_out (length (msgque st)) (length (msgh st)) F Q" and "linked (nx st) (msgfp st) F"
    and "imap_wf (msgmap st)" and "units (imap_segs (msgmap st)) \<subseteq> {1..nat (msgseg mi)}"
    and "keys_unique (map msg_perm (msgque st))"
    and "\<And>i. i < length (msgque st) \<Longrightarrow> queue_rep st (msgque st ! i) (Q i)"
    and "\<And>i. i < length (msgque st) \<Longrightarrow> \<not> allocated (msg_perm (msgque st ! i)) \<Longrightarrow> Q i = []"
    and "\<And>i h. i < length (msgque st) \<Longrightarrow> h \<in> set (Q i) \<Longrightarrow> hdr_ok mi (msgh st ! h)"
    and "\<And>i h. i < length (msgque st) \<Longrightarrow> h \<in> set (Q i) \<Longrightarrow>
      text_units mi (msgh st ! h) \<inter> units (imap_segs (msgmap st)) = {}"
    and "\<And>i j h k. i < length (msgque st) \<Longrightarrow> j < length (msgque st) \<Longrightarrow> h \<in> set (Q i) \<Longrightarrow> k \<in> set (Q j) \<Longrightarrow>
      h \<noteq> k \<Longrightarrow> text_units mi (msgh st ! h) \<inter> text_units mi (msgh st ! k) = {}"
    and "\<And>i. i < length (msgque st) \<Longrightarrow> 0 \<le> ip_seq (msg_perm (msgque st ! i)) \<and> ip_seq (msg_perm (msgque st ! i)) < 65536"
    and "\<And>i. i < length (msgque st) \<Longrightarrow> 0 \<le> msg_qbytes (msgque st ! i) \<and> msg_qbytes (msgque st ! i) \<le> 65535"
  shows "msg_rep mi st F Q"
  using assms unfolding msg_rep_def by (intro conjI allI impI ballI) blast+

lemma msg_rep_body:
  assumes rep: "msg_rep mi st F Q" and b: "body_eq st st'"
    and so: "shared_out (length (msgque st)) (length (msgh st)) F' Q'" and lf: "linked (nx st') (msgfp st') F'"
    and qr: "\<And>j. j < length (msgque st) \<Longrightarrow> queue_rep st' (msgque st' ! j) (Q' j)"
    and sub: "\<And>j. j < length (msgque st) \<Longrightarrow> set (Q' j) \<subseteq> set (Q j)"
    and mm: "imap_wf (msgmap st')" "units (imap_segs (msgmap st')) \<subseteq> {1..nat (msgseg mi)}"
    and dis: "\<And>j h. j < length (msgque st) \<Longrightarrow> h \<in> set (Q' j) \<Longrightarrow>
      text_units mi (msgh st ! h) \<inter> units (imap_segs (msgmap st')) = {}"
  shows "msg_rep mi st' F' Q'"
proof -
  have len: "length (msgque st') = length (msgque st)" "length (msgh st') = length (msgh st)"
    using b by (simp_all add: body_eq_def)
  have "keys_unique (map msg_perm (msgque st'))"
    using msg_repD(7) [OF rep] b by (simp add: keys_unique_def body_eq_def)
  moreover have "Q' j = []" if "j < length (msgque st)" "\<not> allocated (msg_perm (msgque st' ! j))" for j
  proof -
    have "Q j = []" using msg_repD_queue(2) [OF rep that(1)] that(2) b by (simp add: body_eq_def)
    then show ?thesis using sub [OF that(1)] by simp
  qed
  moreover have "hdr_ok mi (msgh st' ! h)" if "j < length (msgque st)" "h \<in> set (Q' j)" for j h
    using msg_repD_queue(3) [OF rep that(1)] sub [OF that(1)] that(2) body_eq_units(2) [OF b] by blast
  moreover have "text_units mi (msgh st' ! h) \<inter> text_units mi (msgh st' ! k) = {}"
    if "j < length (msgque st)" "l < length (msgque st)" "h \<in> set (Q' j)" "k \<in> set (Q' l)" "h \<noteq> k" for j l h k
    using msg_repD_queue(9) [OF rep that(1,2)] sub that unfolding body_eq_units(1) [OF b] by blast
  moreover have "0 \<le> ip_seq (msg_perm (msgque st' ! j)) \<and> ip_seq (msg_perm (msgque st' ! j)) < 65536 \<and>
      0 \<le> msg_qbytes (msgque st' ! j) \<and> msg_qbytes (msgque st' ! j) \<le> 65535" if "j < length (msgque st)" for j
    using msg_repD_queue(5-8) [OF rep that] b by (simp add: body_eq_def)
  ultimately show ?thesis
    using so lf qr mm dis msg_repD(1,2) [OF rep] unfolding msg_rep_def len body_eq_units(1) [OF b] by blast
qed

lemma msgfree_rep:
  assumes mi: "mi_wf mi" and rep: "msg_rep mi st F Q" and i: "i < length (msgque st)" and Q: "Q i = xs @ mp # ys"
  shows "\<exists>st'. msgfree mi i (if xs = [] then None else Some (last xs)) mp st = Ret st' \<and>
    msg_rep mi st' (mp # F) (Q(i := xs @ ys)) \<and> locks st' = locks st \<and> body_eq st st' \<and> cbytes st' = cbytes st"
proof -
  let ?p = "if xs = [] then None else Some (last xs)"
  note so = msg_repD(3) [OF rep]
  have d: "distinct (xs @ mp # ys)" "set F \<inter> set (Q i) = {}"
    using shared_outD(2,3) [OF so i] Q by simp_all
  have p: "?p \<noteq> Some mp" using d(1) last_in_set [of xs] by auto
  have mpQ: "mp \<in> set (Q i)" by (simp add: Q)
  note hm = msg_repD_queue(3) [OF rep i mpQ]
  let ?m = "msgh st ! mp"
  obtain mm w where fr: "if msg_ts ?m \<noteq> 0 then ipcmfree (msgmap st) (btoq mi (msg_ts ?m)) (msg_spot ?m + 1) = Ret (mm, w)
      else mm = msgmap st" and mm: "imap_wf mm" "units (imap_segs mm) \<subseteq> units (imap_segs (msgmap st)) \<union> text_units mi ?m"
  proof (cases "msg_ts ?m = 0")
    case True
    then show ?thesis using that [of "msgmap st"] msg_repD(5) [OF rep] by simp
  next
    case False
    obtain n a where r: "0 < n" "0 < a" "a + n < map_lim" "text_units mi ?m = {a..<a + n}"
      "btoq mi (msg_ts ?m) = int n" "msg_spot ?m + 1 = int a"
      by (rule text_units_range [OF mi hm False])
    have "{a..<a + n} \<inter> units (imap_segs (msgmap st)) = {}" using msg_repD_queue(4) [OF rep i mpQ] r(4) by simp
    then show ?thesis using ipcmfree_any [OF msg_repD(5) [OF rep] r(1-3)] that False r(4-6) by auto
  qed
  obtain st' where st': "msgfree mi i ?p mp st = Ret st'" "locks st' = locks st"
    and core: "core_eq ((upd_h mp (\<lambda>m. m\<lparr>msg_next := msgfp st\<rparr>) ((msg_unlink i ?p mp st)\<lparr>msgmap := mm\<rparr>))\<lparr>msgfp := Some mp\<rparr>) st'"
    using msgfree_core [OF p fr, of i] by blast
  define E where "E = (upd_h mp (\<lambda>m. m\<lparr>msg_next := msgfp st\<rparr>) ((msg_unlink i ?p mp st)\<lparr>msgmap := mm\<rparr>))\<lparr>msgfp := Some mp\<rparr>"
  note u = unlink_facts [OF p, where i = i and st = st]
  have mplen: "mp < length (msgh st)" using shared_out_length(2) [OF so i] mpQ by auto
  have bE: "body_eq st E"
    unfolding body_eq_def
  proof (intro conjI allI)
    fix j
    show "allocated (msg_perm (msgque E ! j)) = allocated (msg_perm (msgque st ! j))"
      "ip_seq (msg_perm (msgque E ! j)) = ip_seq (msg_perm (msgque st ! j))"
      "ip_key (msg_perm (msgque E ! j)) = ip_key (msg_perm (msgque st ! j))"
      "msg_qbytes (msgque E ! j) = msg_qbytes (msgque st ! j)"
      using u(13) [of j] u(14) i by (cases "j = i"; simp add: E_def upd_h_def)+
  qed (use u in \<open>simp_all add: E_def upd_h_def nth_upd\<close>)
  have nxE: "nx E h = (if h = mp then msgfp st else if ?p = Some h then nx st mp else nx st h)" if "h < length (msgh st)" for h
    using u(12) [of h] that u(1) mplen by (auto simp: E_def upd_h_def nx_def nth_upd)
  have in_len: "h < length (msgh st)" if "h \<in> set F \<or> j < length (msgque st) \<and> h \<in> set (Q j)" for h j
    using shared_out_length(2,3) [OF so] that i by auto
  have "linked (nx E) (msgfp st) F = linked (nx st) (msgfp st) F"
  proof (rule linked_cong)
    fix h assume h: "h \<in> set F"
    have "h \<noteq> mp" "?p \<noteq> Some h" using h d(2) Q last_in_set [of xs] by auto
    then show "nx E h = nx st h" using nxE in_len h by auto
  qed
  then have lf: "linked (nx E) (msgfp E) (mp # F)"
    using msg_repD(4) [OF rep] nxE [OF mplen] by (simp add: E_def)
  have qi: "queue_rep st (msgque st ! i) (xs @ mp # ys)" using msg_repD_queue(1) [OF rep i] Q by simp
  have "linked (if xs = [] then nx st else (nx st)(last xs := nx st mp)) (if xs = [] then nx st mp else msg_first (msgque st ! i)) (xs @ ys)"
    using qi d(1) by (intro linked_remove) (simp_all add: queue_rep_def)
  moreover have "linked (nx E) q (xs @ ys) = linked (if xs = [] then nx st else (nx st)(last xs := nx st mp)) q (xs @ ys)" for q
  proof (rule linked_cong)
    fix h assume h: "h \<in> set (xs @ ys)"
    then have "h \<noteq> mp" "h < length (msgh st)" using d(1) in_len [of h i] i Q by auto
    then show "nx E h = (if xs = [] then nx st else (nx st)(last xs := nx st mp)) h" using nxE by auto
  qed
  moreover have last_ys: "nx st mp = None \<longleftrightarrow> ys = []"
    using linked_tail [of "nx st" _ xs mp ys] qi by (cases ys) (auto simp: queue_rep_def)
  moreover have "msgque E ! i = (msgque st ! i)\<lparr>msg_first := (if xs = [] then nx st mp else msg_first (msgque st ! i)),
      msg_last := (if nx st mp = None then ?p else msg_last (msgque st ! i)), msg_qnum := to_u16 (msg_qnum (msgque st ! i) - 1)\<rparr>"
    using u(14) [OF i] by (simp add: E_def upd_h_def)
  moreover have "to_u16 (msg_qnum (msgque st ! i) - 1) = int (length (xs @ ys))"
  proof -
    have "length (Q i) \<le> 65535"
      using shared_out_length(1) [OF so i] msg_repD(2) [OF rep] mi unfolding mi_wf_def by linarith
    moreover have "msg_qnum (msgque st ! i) = int (Suc (length (xs @ ys)))" using qi by (simp add: queue_rep_def)
    ultimately show ?thesis using Q by (simp add: to_u16_id)
  qed
  ultimately have qE: "queue_rep E (msgque E ! i) (xs @ ys)"
    using qi by (auto simp: queue_rep_def)
  have oE: "queue_rep E (msgque E ! j) (Q j)" if j: "j < length (msgque st)" "j \<noteq> i" for j
  proof -
    note dj = shared_outD(4) [OF so j(1) i j(2)]
    have "linked (nx E) (msg_first (msgque st ! j)) (Q j) = linked (nx st) (msg_first (msgque st ! j)) (Q j)"
    proof (rule linked_cong)
      fix h assume h: "h \<in> set (Q j)"
      then have "h \<notin> set (Q i)" using dj by blast
      then have "h \<noteq> mp" "?p \<noteq> Some h" using Q last_in_set [of xs] by auto
      then show "nx E h = nx st h" using nxE in_len [of h j] h j(1) by auto
    qed
    moreover have "msgque E ! j = msgque st ! j" using u(13) [OF j(2)] by (simp add: E_def upd_h_def)
    ultimately show ?thesis using msg_repD_queue(1) [OF rep j(1)] by (simp add: queue_rep_def)
  qed
  have "msg_rep mi E (mp # F) (Q(i := xs @ ys))"
  proof (rule msg_rep_body [OF rep bE shared_out_free [where Q = Q, OF so i Q] lf])
    show "queue_rep E (msgque E ! j) ((Q(i := xs @ ys)) j)" if "j < length (msgque st)" for j
      using qE oE [OF that] by simp
    show "set ((Q(i := xs @ ys)) j) \<subseteq> set (Q j)" for j using Q by auto
    show "imap_wf (msgmap E)" using mm by (simp add: E_def upd_h_def)
    show "units (imap_segs (msgmap E)) \<subseteq> {1..nat (msgseg mi)}"
      using mm(2) msg_repD(6) [OF rep] hm unfolding hdr_ok_def by (auto simp: E_def upd_h_def)
    show "text_units mi (msgh st ! h) \<inter> units (imap_segs (msgmap E)) = {}"
      if j: "j < length (msgque st)" "h \<in> set ((Q(i := xs @ ys)) j)" for j h
    proof -
      have h: "h \<in> set (Q j)" "h \<noteq> mp"
        using j Q d(1) shared_outD(4) [OF so _ i, of j] mpQ by (auto split: if_splits)
      have "text_units mi (msgh st ! h) \<inter> text_units mi ?m = {}"
        by (rule msg_repD_queue(9) [OF rep j(1) i h(1) mpQ h(2)])
      moreover have "text_units mi (msgh st ! h) \<inter> units (imap_segs (msgmap st)) = {}"
        by (rule msg_repD_queue(4) [OF rep j(1) h(1)])
      moreover have "msgmap E = mm" by (simp add: E_def upd_h_def)
      ultimately show ?thesis using mm(2) by blast
    qed
  qed
  then have "msg_rep mi st' (mp # F) (Q(i := xs @ ys))" using core_eq_rep core by (simp add: E_def)
  moreover have "msg_cbytes (msgque E ! j) = msg_cbytes (msgque st ! j)" for j
    using u(13) [of j] u(14) i by (cases "j = i") (simp_all add: E_def upd_h_def)
  then have "cbytes E = cbytes st"
    using bE by (intro nth_equalityI) (simp_all add: cbytes_def body_eq_def)
  then have "cbytes st' = cbytes st" using core_eq_cbytes core by (simp add: E_def)
  moreover have "body_eq st st'" using body_eq_trans [OF bE body_eq_core] core by (simp add: E_def)
  ultimately show ?thesis using st' by blast
qed

end
