(* ===== verification/Msg_Calls.thy ===== *)
theory Msg_Calls
  imports Msg_Inv
begin

text \<open>
  The message calls against the contents of the queues: the search of \<^verbatim>\<open>msgrcv\<close> finds
  the message the type asks for, a send appends one message, a receive takes one out, and
  every call keeps the invariant.
\<close>

section \<open>The search for a message\<close>

definition prev :: "nat list \<Rightarrow> nat \<Rightarrow> nat option" where
  "prev hs k = (if k = 0 then None else Some (hs ! (k - 1)))"

text \<open>
  Position \<open>k\<close> is the one a receive of type \<open>typ\<close> must take: the first message for type
  0, the first of that type for a positive one, and for a negative one the first among
  those of the lowest type not above its absolute value.
\<close>

definition selects :: "int \<Rightarrow> int list \<Rightarrow> nat \<Rightarrow> bool" where
  "selects typ ts k \<longleftrightarrow> k < length ts \<and>
     (if typ = 0 then k = 0
      else if typ > 0 then ts ! k = typ \<and> (\<forall>j < k. ts ! j \<noteq> typ)
      else ts ! k \<le> - typ \<and>
        (\<forall>j < length ts. ts ! j \<le> - typ \<longrightarrow> (if j < k then ts ! k < ts ! j else ts ! k \<le> ts ! j)))"

definition candidate :: "int \<Rightarrow> int \<Rightarrow> bool" where
  "candidate typ t \<longleftrightarrow> (if typ = 0 then True else if typ > 0 then t = typ else t \<le> - typ)"

lemma selects_candidate: "selects typ ts k \<Longrightarrow> candidate typ (ts ! k) \<and> k < length ts"
  by (auto simp: selects_def candidate_def split: if_splits)

lemma selects_not_before:
  assumes "selects typ ts k" and "selects typ ts l"
  shows "\<not> k < l"
proof
  assume kl: "k < l"
  show False
  proof (cases "typ < 0")
    case True
    then have "ts ! k \<le> - typ" "ts ! l \<le> - typ" "k < length ts" "l < length ts" using assms by (simp_all add: selects_def)
    then have "ts ! l < ts ! k" "ts ! k \<le> ts ! l" using assms True kl by (auto simp: selects_def)
    then show False by simp
  next
    case False
    then show False using assms kl by (auto simp: selects_def split: if_splits)
  qed
qed

lemma selects_unique: "selects typ ts k \<Longrightarrow> selects typ ts l \<Longrightarrow> k = l"
  using selects_not_before by (metis nat_neq_iff)

lemma selects_snoc_other:
  assumes "selects typ ts k" and "typ < 0" and "\<not> (t \<le> - typ \<and> t < ts ! k)"
  shows "selects typ (ts @ [t]) k"
  using assms by (auto simp: selects_def nth_append not_less less_Suc_eq)

lemma selects_snoc_new:
  assumes "typ < 0" and "t \<le> - typ" and "\<forall>j < length ts. ts ! j \<le> - typ \<longrightarrow> t < ts ! j"
  shows "selects typ (ts @ [t]) (length ts)"
  using assms by (auto simp: selects_def nth_append less_Suc_eq)

lemma selects_first:
  assumes "0 < typ" and "t = typ" and "\<forall>x \<in> set ts. x \<noteq> typ"
  shows "selects typ (ts @ t # us) (length ts)"
  using assms by (auto simp: selects_def nth_append)

definition found :: "int \<Rightarrow> (nat \<Rightarrow> int) \<Rightarrow> nat list \<Rightarrow> nat option \<times> nat option \<Rightarrow> bool" where
  "found typ ty hs r \<longleftrightarrow>
     (case snd r of
        None \<Rightarrow> fst r = None \<and> (\<forall>h \<in> set hs. \<not> candidate typ (ty h))
      | Some s \<Rightarrow> \<exists>k. selects typ (map ty hs) k \<and> s = hs ! k \<and> fst r = prev hs k)"

lemma found_snoc:
  assumes neg: "typ < 0" and f: "found typ ty ds (spmp, smp)"
  shows "found typ ty (ds @ [h])
    (if ty h \<le> - typ \<and> (case smp of Some b \<Rightarrow> \<not> ty b \<le> ty h | None \<Rightarrow> True)
     then (prev (ds @ [h]) (length ds), Some h) else (spmp, smp))"
proof (cases smp)
  case None
  then have n: "spmp = None" "\<forall>x \<in> set ds. \<not> candidate typ (ty x)" using f by (simp_all add: found_def)
  show ?thesis
  proof (cases "ty h \<le> - typ")
    case True
    have "selects typ (map ty ds @ [ty h]) (length (map ty ds))"
      by (rule selects_snoc_new [OF neg True]) (use n(2) neg in \<open>auto simp: candidate_def\<close>)
    then show ?thesis using True None by (auto simp: found_def intro!: exI [of _ "length ds"])
  next
    case False
    then show ?thesis using None n neg by (simp add: found_def candidate_def)
  qed
next
  case (Some b)
  then obtain k where k: "selects typ (map ty ds) k" "b = ds ! k" "spmp = prev ds k"
    using f by (auto simp: found_def)
  have kl: "k < length ds" using k(1) by (simp add: selects_def)
  have tb: "map ty ds ! k = ty b" using k(2) kl by simp
  show ?thesis
  proof (cases "ty h \<le> - typ \<and> ty h < ty b")
    case True
    have "selects typ (map ty ds @ [ty h]) (length (map ty ds))"
    proof (rule selects_snoc_new [OF neg])
      show "\<forall>j < length (map ty ds). map ty ds ! j \<le> - typ \<longrightarrow> ty h < map ty ds ! j"
        using k(1) neg True tb unfolding selects_def by (smt (verit))
    qed (use True in simp)
    then show ?thesis using True Some by (auto simp: found_def intro!: exI [of _ "length ds"])
  next
    case False
    then have "selects typ (map ty ds @ [ty h]) k" using selects_snoc_other [OF k(1) neg] tb by simp
    then have "found typ ty (ds @ [h]) (spmp, smp)"
      using k Some kl by (auto simp: found_def nth_append prev_def intro!: exI [of _ k])
    then show ?thesis using False Some by (auto simp: not_le)
  qed
qed

lemma find_msg_found:
  assumes "typ \<noteq> 0" and "-2147483648 < typ" and "linked (\<lambda>h. msg_next (hs ! h)) mp rs" and "length rs \<le> n"
    and "found typ (\<lambda>h. msg_type (hs ! h)) ds (spmp, smp)" and "0 < typ \<Longrightarrow> smp = None"
    and "pmp = prev (ds @ rs) (length ds)"
  shows "found typ (\<lambda>h. msg_type (hs ! h)) (ds @ rs) (find_msg n hs typ pmp mp spmp smp)"
  using assms
proof (induction rs arbitrary: n mp pmp spmp smp ds)
  case Nil
  then show ?case by simp
next
  case (Cons h rs)
  let ?ty = "\<lambda>h. msg_type (hs ! h)"
  obtain n' where n: "n = Suc n'" "length rs \<le> n'" using Cons.prems(4) by (cases n) auto
  have mp: "mp = Some h" "linked (\<lambda>h. msg_next (hs ! h)) (msg_next (hs ! h)) rs" using Cons.prems(3) by simp_all
  have nxt: "Some h = prev ((ds @ [h]) @ rs) (length (ds @ [h]))" by (simp add: prev_def nth_append)
  have go: "found typ ?ty ((ds @ [h]) @ rs) (find_msg n' hs typ (Some h) (msg_next (hs ! h)) a b)"
    if "found typ ?ty (ds @ [h]) (a, b)" "0 < typ \<Longrightarrow> b = None" for a b
    by (rule Cons.IH [OF Cons.prems(1,2) mp(2) n(2) that nxt])
  show ?case
  proof (cases "0 < typ")
    case True
    then have sm: "smp = None" "spmp = None" "\<forall>x \<in> set ds. ?ty x \<noteq> typ"
      using Cons.prems(5,6) by (auto simp: found_def candidate_def)
    show ?thesis
    proof (cases "?ty h = typ")
      case eq: True
      have "selects typ (map ?ty (ds @ h # rs)) (length (map ?ty ds))"
        using selects_first [OF True eq, of "map ?ty ds" "map ?ty rs"] sm(3) by simp
      then show ?thesis
        using True eq n mp(1) Cons.prems(7) by (auto simp: found_def nth_append intro!: exI [of _ "length ds"])
    next
      case False
      then have "found typ ?ty (ds @ [h]) (None, None)" using sm(3) True by (auto simp: found_def candidate_def)
      then show ?thesis using go [of None None] True False n mp(1) sm by simp
    qed
  next
    case False
    then have neg: "typ < 0" "to_s32 (- typ) = - typ" using Cons.prems(1,2) by (simp_all add: to_s32_id)
    have p: "prev (ds @ [h]) (length ds) = pmp" using Cons.prems(7) by (simp add: prev_def nth_append)
    note f = found_snoc [OF neg(1) Cons.prems(5), of h, unfolded p]
    show ?thesis
    proof (cases "?ty h \<le> - typ \<and> (case smp of Some b \<Rightarrow> \<not> ?ty b \<le> ?ty h | None \<Rightarrow> True)")
      case True
      then have "found typ ?ty (ds @ [h]) (pmp, Some h)" using f by simp
      then show ?thesis
        using go [of pmp "Some h"] True neg n mp(1) by (auto simp: Let_def split: option.splits)
    next
      case not: False
      have "found typ ?ty (ds @ [h]) (spmp, smp)" using f unfolding if_not_P [OF not] .
      then show ?thesis
        using go [of spmp smp] not neg n mp(1) by (auto simp: Let_def split: option.splits)
    qed
  qed
qed

section \<open>Receiving\<close>

text \<open>Copies that do not sleep, with values of the C types.\<close>

definition quiet_msg :: "msg_mem \<Rightarrow> bool" where
  "quiet_msg mem \<longleftrightarrow> (\<forall>s. fst (in_mds mem s) = s) \<and> (\<forall>s. fst (in_type mem s) = s) \<and>
     (\<forall>n s. fst (in_text mem n s) = s) \<and> (\<forall>s. fst (out_copy mem s) = s) \<and> (\<forall>s. fst (out_text mem s) = s) \<and>
     (\<forall>s s' a b c qb. in_mds mem s = (s', Some (a, b, c, qb)) \<longrightarrow> 0 \<le> qb \<and> qb \<le> 65535) \<and>
     (\<forall>n s s' bs. in_text mem n s = (s', Some bs) \<longrightarrow> length bs = n)"

lemma quiet_msgD:
  assumes "quiet_msg mem"
  shows "in_mds mem s = (s', mo) \<Longrightarrow> s' = s" and "in_type mem s = (s', to) \<Longrightarrow> s' = s"
    and "in_text mem n s = (s', xo) \<Longrightarrow> s' = s" and "out_copy mem s = (s', b) \<Longrightarrow> s' = s"
    and "out_text mem s = (s', b) \<Longrightarrow> s' = s"
    and "in_mds mem s = (s', Some (a, b', c, qb)) \<Longrightarrow> 0 \<le> qb \<and> qb \<le> 65535"
    and "in_text mem n s = (s', Some bs) \<Longrightarrow> length bs = n"
  using assms unfolding quiet_msg_def by (metis fst_conv)+

lemma q_items_rep:
  assumes "msg_rep mi st F Q"
  shows "q_items mi st i = (if i < length (msgque st) then map (item mi st) (Q i) else [])"
  using rep_hdrs [OF assms] by (simp add: q_items_def)

lemma rep_upd_q:
  assumes rep: "msg_rep mi st F Q"
    and f: "\<And>q. (allocated (msg_perm (f q)), ip_seq (msg_perm (f q)), ip_key (msg_perm (f q)), msg_first (f q), msg_last (f q), msg_qnum (f q), msg_qbytes (f q))
      = (allocated (msg_perm q), ip_seq (msg_perm q), ip_key (msg_perm q), msg_first q, msg_last q, msg_qnum q, msg_qbytes q)"
  shows "msg_rep mi (upd_q i f st) F Q" and "body_eq st (upd_q i f st)"
proof -
  have f': "allocated (msg_perm (f q)) = allocated (msg_perm q)" "ip_seq (msg_perm (f q)) = ip_seq (msg_perm q)"
    "ip_key (msg_perm (f q)) = ip_key (msg_perm q)" "msg_first (f q) = msg_first q" "msg_last (f q) = msg_last q"
    "msg_qnum (f q) = msg_qnum q" "msg_qbytes (f q) = msg_qbytes q" for q using f [of q] by simp_all
  show b: "body_eq st (upd_q i f st)" by (simp add: body_eq_def upd_q_def nth_upd f')
  have n: "nx (upd_q i f st) = nx st" by (simp add: nx_def [abs_def] upd_q_def)
  show "msg_rep mi (upd_q i f st) F Q"
  proof (rule msg_rep_body [OF rep b msg_repD(3) [OF rep]])
    show "linked (nx (upd_q i f st)) (msgfp (upd_q i f st)) F"
      using msg_repD(4) [OF rep] n by (simp add: upd_q_def)
    show "queue_rep (upd_q i f st) (msgque (upd_q i f st) ! j) (Q j)" if "j < length (msgque st)" for j
      using msg_repD_queue(1) [OF rep that] n by (auto simp: queue_rep_def upd_q_def nth_upd f')
  qed (use msg_repD [OF rep] msg_repD_queue(4) [OF rep] in \<open>simp_all add: upd_q_def\<close>)
qed

text \<open>A header at position \<open>k\<close> is taken off its queue.\<close>

lemma split_at: "k < length xs \<Longrightarrow> xs = take k xs @ xs ! k # drop (Suc k) xs"
  by (simp add: id_take_nth_drop)

lemma prev_last: "k < length xs \<Longrightarrow> prev xs k = (if take k xs = [] then None else Some (last (take k xs)))"
  by (cases k) (auto simp: prev_def take_Suc_conv_app_nth)

lemma msgfree_at:
  assumes mi: "mi_wf mi" and rep: "msg_rep mi st F Q" and i: "i < length (msgque st)" and k: "k < length (Q i)"
  shows "\<exists>st'. msgfree mi i (prev (Q i) k) (Q i ! k) st = Ret st' \<and>
    msg_rep mi st' (Q i ! k # F) (Q(i := take k (Q i) @ drop (Suc k) (Q i))) \<and>
    locks st' = locks st \<and> body_eq st st' \<and> cbytes st' = cbytes st"
  unfolding prev_last [OF k] by (rule msgfree_rep [OF mi rep i split_at [OF k]])

lemma sum_remove:
  assumes "k < length xs"
  shows "(\<Sum>x \<leftarrow> take k xs @ drop (Suc k) xs. f x) = (\<Sum>x \<leftarrow> xs. f x) - (f (xs ! k) :: int)"
proof -
  have "(\<Sum>x \<leftarrow> xs. f x) = (\<Sum>x \<leftarrow> take k xs @ xs ! k # drop (Suc k) xs. f x)" using split_at [OF assms] by simp
  then show ?thesis by simp
qed

lemma sum_nonneg_map: "(\<And>x. x \<in> set xs \<Longrightarrow> 0 \<le> f x) \<Longrightarrow> 0 \<le> (\<Sum>x \<leftarrow> xs. f x :: int)"
  by (induction xs) auto

text \<open>The message is accounted off its queue and its header and text are freed.\<close>

lemma take_message:
  fixes p t :: int
  assumes mi: "mi_wf mi" and rep: "msg_rep mi st F Q" and bts: "bytes_ok st Q" and h: "held i st"
    and i: "i < length (msgque st)" and k: "k < length (Q i)"
  defines "st3 \<equiv> upd_q i (\<lambda>q. q\<lparr>msg_cbytes := to_u16 (msg_cbytes q - msg_ts (msgh st ! (Q i ! k))),
      msg_lrpid := p, msg_rtime := t\<rparr>) st"
  shows "\<exists>st4. msgfree mi i (prev (Q i) k) (Q i ! k) st3 = Ret st4 \<and> msg_inv mi (q_unlock i st4) \<and>
    q_items mi (q_unlock i st4) = (q_items mi st)(i := take k (q_items mi st i) @ drop (Suc k) (q_items mi st i))"
proof -
  have rep3: "msg_rep mi st3 F Q" and b3: "body_eq st st3"
    unfolding st3_def by (rule rep_upd_q [OF rep], simp)+
  have i3: "i < length (msgque st3)" using i by (simp add: st3_def upd_q_def)
  obtain st4 where st4: "msgfree mi i (prev (Q i) k) (Q i ! k) st3 = Ret st4"
    "msg_rep mi st4 (Q i ! k # F) (Q(i := take k (Q i) @ drop (Suc k) (Q i)))" "locks st4 = locks st3"
    "body_eq st3 st4" "cbytes st4 = cbytes st3"
    using msgfree_at [OF mi rep3 i3 k] by blast
  let ?Q = "Q(i := take k (Q i) @ drop (Suc k) (Q i))"
  note b4 = body_eq_trans [OF b3 st4(4)]
  have ts: "msg_ts (msgh st4 ! h) = msg_ts (msgh st ! h)" for h using b4 by (simp add: body_eq_def)
  have nn: "0 \<le> msg_ts (msgh st ! h)" if "j < length (msgque st)" "h \<in> set (Q j)" for j h
    using msg_repD_queue(3) [OF rep that] by (simp add: hdr_ok_def)
  have cb3: "cbytes st3 ! j = (if j = i then to_u16 (msg_cbytes (msgque st ! i) - msg_ts (msgh st ! (Q i ! k))) else cbytes st ! j)"
    if "j < length (msgque st)" for j
    using that i by (simp add: cbytes_def st3_def upd_q_def nth_upd)
  have "bytes_ok st4 ?Q"
    unfolding bytes_ok_iff st4(5)
  proof (intro allI impI)
    fix j assume "j < length (cbytes st3)"
    then have j: "j < length (msgque st)" by (simp add: cbytes_def st3_def upd_q_def)
    show "cbytes st3 ! j = (\<Sum>h \<leftarrow> ?Q j. msg_ts (msgh st4 ! h)) \<and> cbytes st3 ! j \<le> 65535"
    proof (cases "j = i")
      case True
      have c: "msg_cbytes (msgque st ! i) = (\<Sum>h \<leftarrow> Q i. msg_ts (msgh st ! h))" "msg_cbytes (msgque st ! i) \<le> 65535"
        using bts i unfolding bytes_ok_def by blast+
      have e: "(\<Sum>h \<leftarrow> ?Q i. msg_ts (msgh st4 ! h)) = msg_cbytes (msgque st ! i) - msg_ts (msgh st ! (Q i ! k))"
        using sum_remove [OF k, of "\<lambda>h. msg_ts (msgh st ! h)"] c(1) by (simp add: ts)
      have "0 \<le> (\<Sum>h \<leftarrow> ?Q i. msg_ts (msgh st4 ! h))"
        by (rule sum_nonneg_map) (use nn [OF i] set_take_subset [of k "Q i"] set_drop_subset [of "Suc k" "Q i"] in \<open>auto simp: ts\<close>)
      moreover have "0 \<le> msg_ts (msgh st ! (Q i ! k))" using nn [OF i] k by simp
      ultimately show ?thesis using True cb3 [OF i] e c(2) by (simp add: to_u16_id)
    next
      case False
      moreover have "msg_cbytes (msgque st ! j) = (\<Sum>h \<leftarrow> Q j. msg_ts (msgh st ! h))" "msg_cbytes (msgque st ! j) \<le> 65535"
        using bts j unfolding bytes_ok_def by blast+
      moreover have "cbytes st ! j = msg_cbytes (msgque st ! j)" using j by (simp add: cbytes_def)
      ultimately show ?thesis using cb3 [OF j] by (simp add: ts)
    qed
  qed
  moreover have "locks st3 = locks st" by (simp add: st3_def locks_upd_q)
  then have "unlocked (q_unlock i st4)" using q_unlock_unlocked held_locks h st4(3) by simp
  moreover note core_eq_rep [OF core_eq_unlock st4(2)] core_eq_bytes [OF core_eq_unlock]
  ultimately have "msg_inv mi (q_unlock i st4)" unfolding msg_inv_def by blast
  moreover have "q_items mi (q_unlock i st4) j = ((q_items mi st)(i := take k (q_items mi st i) @ drop (Suc k) (q_items mi st i))) j" for j
    using b4 i unfolding core_eq_items [OF core_eq_unlock] q_items_rep [OF st4(2)] q_items_rep [OF rep]
    by (auto simp: body_eq_item [OF b4] body_eq_def take_map drop_map cong: map_cong)
  ultimately show ?thesis using st4(1) by blast
qed

lemma nx_cong: "(\<lambda>h. msg_next (msgh st ! h)) = nx st"
  by (rule ext) (simp add: nx_def)

lemma rcv_try_spec:
  assumes mi: "mi_wf mi" and rep: "msg_rep mi st F Q" and bts: "bytes_ok st Q" and h: "held i st"
    and i: "i < length (msgque st)" and mem: "quiet_msg mem" and sz: "0 \<le> msgsz" and ty: "-2147483648 < msgtyp"
  shows "\<exists>r. rcv_try mi i msgsz msgtyp msgflg mem u st = Ret r \<and>
    (case r of
       None \<Rightarrow> \<forall>x \<in> set (q_items mi st i). \<not> candidate msgtyp (fst x)
     | Some (out, u', st') \<Rightarrow> msg_inv mi st' \<and>
         (if u_error u' = E_OK then
            \<exists>k. selects msgtyp (map fst (q_items mi st i)) k \<and>
              out = MsgGot (fst (q_items mi st i ! k)) (take (nat msgsz) (snd (q_items mi st i ! k))) \<and>
              (int (length (snd (q_items mi st i ! k))) > msgsz \<longrightarrow> msgflg AND MSG_NOERROR \<noteq> 0) \<and>
              u_rval1 u' = min msgsz (int (length (snd (q_items mi st i ! k)))) \<and>
              q_items mi st' = (q_items mi st)(i := take k (q_items mi st i) @ drop (Suc k) (q_items mi st i))
          else out = MsgNone \<and> q_items mi st' = q_items mi st))"
proof -
  note so = msg_repD(3) [OF rep]
  let ?tyf = "\<lambda>h. msg_type (msgh st ! h)"
  have it: "q_items mi st i = map (item mi st) (Q i)" using q_items_rep [OF rep] i by simp
  have types: "map fst (q_items mi st i) = map ?tyf (Q i)" by (simp add: it item_def comp_def)
  obtain spmp smp where s: "(if msgtyp = 0 then (None, msg_first (msgque st ! i))
            else find_msg (length (msgh st)) (msgh st) msgtyp None (msg_first (msgque st ! i)) None None) = (spmp, smp)"
    by (cases "if msgtyp = 0 then (None, msg_first (msgque st ! i))
            else find_msg (length (msgh st)) (msgh st) msgtyp None (msg_first (msgque st ! i)) None None") auto
  have lk: "linked (nx st) (msg_first (msgque st ! i)) (Q i)" using msg_repD_queue(1) [OF rep i] by (simp add: queue_rep_def)
  have f: "found msgtyp ?tyf (Q i) (spmp, smp)"
  proof (cases "msgtyp = 0")
    case True
    then show ?thesis using s lk by (cases "Q i") (auto simp: found_def selects_def prev_def)
  next
    case False
    have "found msgtyp ?tyf ([] @ Q i) (find_msg (length (msgh st)) (msgh st) msgtyp None (msg_first (msgque st ! i)) None None)"
      by (rule find_msg_found [OF False ty])
        (use lk shared_out_length(1) [OF so i] in \<open>simp_all add: nx_cong found_def prev_def\<close>)
    then show ?thesis using s False by simp
  qed
  show ?thesis
  proof (cases smp)
    case None
    then show ?thesis using s f by (auto simp: rcv_try_def found_def it item_def)
  next
    case (Some m)
    then obtain k where k: "selects msgtyp (map ?tyf (Q i)) k" "m = Q i ! k" "spmp = prev (Q i) k"
      using f by (auto simp: found_def)
    have kl: "k < length (Q i)" using selects_candidate [OF k(1)] by simp
    let ?ts = "msg_ts (msgh st ! m)"
    have ts0: "0 \<le> ?ts" using msg_repD_queue(3) [OF rep i] kl k(2) by (simp add: hdr_ok_def)
    define bs where "bs = snd (q_items mi st i ! k)"
    have bs: "bs = pool_read (nat (msgssz mi * msg_spot (msgh st ! m))) (nat ?ts) st" "fst (q_items mi st i ! k) = ?tyf m"
      using kl k(2) by (simp_all add: bs_def it item_def)
    have lbs: "int (length bs) = ?ts" using ts0 by (simp add: bs(1) pool_read_def)
    define n where "n = (if msgsz < ?ts then msgsz else ?ts)"
    have n: "n = min msgsz ?ts" by (simp add: n_def)
    have pr: "pool_read (nat (msgssz mi * msg_spot (msgh st ! m))) (nat n) st = take (nat msgsz) bs"
      using sz ts0 by (simp add: bs(1) pool_read_def take_map n min_def)
    have same: "msg_inv mi (q_unlock i st)" "q_items mi (q_unlock i st) = q_items mi st"
      using core_eq_rep [OF core_eq_unlock rep] core_eq_bytes [OF core_eq_unlock] bts q_unlock_unlocked [OF h]
        core_eq_items [OF core_eq_unlock] by (auto simp: msg_inv_def)
    show ?thesis
    proof (cases "msgsz < ?ts \<and> msgflg AND MSG_NOERROR = 0")
      case True
      then show ?thesis using s Some same by (simp add: rcv_try_def)
    next
      case go: False
      obtain b where b: "out_copy mem st = (st, b)" using quiet_msgD(4) [OF mem] by (cases "out_copy mem st") blast
      obtain b' where b': "out_text mem st = (st, b')" using quiet_msgD(5) [OF mem] by (cases "out_text mem st") blast
      show ?thesis
      proof (cases "b \<and> (n \<noteq> 0 \<longrightarrow> b')")
        case False
        then show ?thesis using s Some same go b b'
          by (auto simp: rcv_try_def n_def [symmetric] Let_def split: bool.splits)
      next
        case True
        define st3 where "st3 = upd_q i (\<lambda>q. q\<lparr>msg_cbytes := to_u16 (msg_cbytes q - ?ts),
                                         msg_lrpid := p_pid u, msg_rtime := msg_time st\<rparr>) st"
        obtain st4 where st4: "msgfree mi i spmp m st3 = Ret st4" "msg_inv mi (q_unlock i st4)"
          "q_items mi (q_unlock i st4) = (q_items mi st)(i := take k (q_items mi st i) @ drop (Suc k) (q_items mi st i))"
          using take_message [OF mi rep bts h i kl, where p = "p_pid u" and t = "msg_time st"] k(2,3) by (auto simp: st3_def)
        have cp: "(if n \<noteq> 0 then out_text mem st else (st, True)) = (st, True)" using True b' by simp
        have "rcv_try mi i msgsz msgtyp msgflg mem u st =
          Ret (Some (MsgGot (?tyf m) (take (nat msgsz) bs), (set_error E_OK u)\<lparr>u_rval1 := n\<rparr>, q_unlock i st4))"
          using True go b unfolding rcv_try_def s
          by (simp add: Some Let_def n_def [symmetric] cp pr st3_def [symmetric] st4(1))
        then show ?thesis using st4(2,3) k(1) go lbs bs(2) n bs_def by (auto simp: types)
      qed
    qed
  qed
qed

lemma msg_inv_core:
  assumes "core_eq st st'" and "msg_inv mi st" and "unlocked st'"
  shows "msg_inv mi st'"
  using assms core_eq_rep core_eq_bytes unfolding msg_inv_def by blast

lemma unlocked_locks: "locks st' = locks st \<Longrightarrow> unlocked st' = unlocked st"
proof -
  have "unlocked s \<longleftrightarrow> (\<forall>x \<in> set (locks s). \<not> fst x \<and> \<not> snd x)" for s by (simp add: unlocked_def locks_def)
  then show "locks st' = locks st \<Longrightarrow> unlocked st' = unlocked st" by simp
qed

text \<open>The set, or cleared, waiting bits of a queue.\<close>

lemma wait_bits:
  "core_eq st (q_mode i (\<lambda>m. m OR MSG_RWAIT) st)" "core_eq st (q_mode i (\<lambda>m. m OR MSG_WWAIT) st)"
  "core_eq st (q_mode i (\<lambda>m. m AND NOT MSG_RWAIT) st)"
  "locks (q_mode i (\<lambda>m. m OR MSG_RWAIT) st) = locks st" "locks (q_mode i (\<lambda>m. m OR MSG_WWAIT) st) = locks st"
  "locks (q_mode i (\<lambda>m. m AND NOT MSG_RWAIT) st) = locks st"
  by (auto intro!: core_eq_mode locks_mode simp: bit_simps)

text \<open>From the lock to the end of the call or to the next sleep.\<close>

definition msg_run_state :: "msg_run \<Rightarrow> msgstate" where
  "msg_run_state r = (case r of MsgDone out u st \<Rightarrow> st | MsgSleeping c u st \<Rightarrow> st | MsgBlocked u st \<Rightarrow> st)"

lemma msgrcv_segment:
  assumes mi: "mi_wf mi" and inv: "msg_inv mi st" and i: "i < length (msgque st)" and mem: "quiet_msg mem"
    and sz: "0 \<le> msgsz" and ty: "-2147483648 < msgtyp"
  shows "\<exists>r. msgrcv_loop mi msqid i msgsz msgtyp msgflg mem [] [] u st = Ret r \<and> msg_inv mi (msg_run_state r) \<and>
    (case r of
       MsgDone out u' st' \<Rightarrow>
         if u_error u' = E_OK then
            \<exists>k. selects msgtyp (map fst (q_items mi st i)) k \<and>
              out = MsgGot (fst (q_items mi st i ! k)) (take (nat msgsz) (snd (q_items mi st i ! k))) \<and>
              (int (length (snd (q_items mi st i ! k))) > msgsz \<longrightarrow> msgflg AND MSG_NOERROR \<noteq> 0) \<and>
              u_rval1 u' = min msgsz (int (length (snd (q_items mi st i ! k)))) \<and>
              q_items mi st' = (q_items mi st)(i := take k (q_items mi st i) @ drop (Suc k) (q_items mi st i))
         else out = MsgNone \<and> q_items mi st' = q_items mi st
     | MsgSleeping c u' st' \<Rightarrow> c = QnumCh i \<and> u' = u \<and> q_items mi st' = q_items mi st \<and>
         (\<forall>x \<in> set (q_items mi st i). \<not> candidate msgtyp (fst x)) \<and> msgflg AND IPC_NOWAIT = 0
     | MsgBlocked u' st' \<Rightarrow> False)"
proof -
  obtain F Q where rep: "msg_rep mi st F Q" and bts: "bytes_ok st Q" and ul: "unlocked st"
    using inv by (auto simp: msg_inv_def)
  obtain s1 where s1: "q_lock i [] st = Locked s1 []" "core_eq st s1" "held i s1"
    using q_lock_free [OF ul i, of "[]"] by blast
  have rep1: "msg_rep mi s1 F Q" and bts1: "bytes_ok s1 Q" and i1: "i < length (msgque s1)"
    using core_eq_rep [OF s1(2) rep] core_eq_bytes [OF s1(2)] bts core_eqD(2) [OF s1(2)] i by simp_all
  have it: "q_items mi s1 = q_items mi st" using core_eq_items [OF s1(2)] .
  obtain r where r: "rcv_try mi i msgsz msgtyp msgflg mem u s1 = Ret r"
    and sp: "case r of
       None \<Rightarrow> \<forall>x \<in> set (q_items mi st i). \<not> candidate msgtyp (fst x)
     | Some (out, u', st') \<Rightarrow> msg_inv mi st' \<and>
         (if u_error u' = E_OK then
            \<exists>k. selects msgtyp (map fst (q_items mi st i)) k \<and>
              out = MsgGot (fst (q_items mi st i ! k)) (take (nat msgsz) (snd (q_items mi st i ! k))) \<and>
              (int (length (snd (q_items mi st i ! k))) > msgsz \<longrightarrow> msgflg AND MSG_NOERROR \<noteq> 0) \<and>
              u_rval1 u' = min msgsz (int (length (snd (q_items mi st i ! k)))) \<and>
              q_items mi st' = (q_items mi st)(i := take k (q_items mi st i) @ drop (Suc k) (q_items mi st i))
          else out = MsgNone \<and> q_items mi st' = q_items mi st)"
    using rcv_try_spec [OF mi rep1 bts1 s1(3) i1 mem sz ty, of msgflg u] unfolding it by blast
  let ?s2 = "q_unlock i s1" and ?s3 = "q_mode i (\<lambda>m. m OR MSG_RWAIT) (q_unlock i s1)"
  have c2: "core_eq st ?s2" using core_eq_trans [OF s1(2) core_eq_unlock] .
  have c3: "core_eq st ?s3" using core_eq_trans [OF c2 wait_bits(1)] .
  have ul2: "unlocked ?s2" by (rule q_unlock_unlocked [OF s1(3)])
  have ul3: "unlocked ?s3" using ul2 unlocked_locks [OF wait_bits(4)] by blast
  show ?thesis
  proof (cases r)
    case None
    then show ?thesis
      using s1(1) r sp msg_inv_core [OF c2 inv ul2] msg_inv_core [OF c3 inv ul3] core_eq_items [OF c2] core_eq_items [OF c3]
      by (simp add: msg_run_state_def Let_def)
  next
    case (Some x)
    then show ?thesis using s1(1) r sp by (cases x) (simp add: msg_run_state_def)
  qed
qed

section \<open>Sending\<close>

lemma shared_out_use:
  assumes so: "shared_out n m (mp # F) Q" and i: "i < n"
  shows "shared_out n m F (Q(i := Q i @ [mp]))"
proof -
  have mpj: "mp \<notin> set (Q j)" if "j < n" for j using shared_outD(3) [OF so that] by simp
  have "distinct ((Q(i := Q i @ [mp])) j) \<and> set F \<inter> set ((Q(i := Q i @ [mp])) j) = {}" if "j < n" for j
    using shared_outD(1) [OF so] shared_outD(2,3) [OF so that] mpj [OF that] by auto
  moreover have "set ((Q(i := Q i @ [mp])) j) \<inter> set ((Q(i := Q i @ [mp])) k) = {}" if "j < n" "k < n" "j \<noteq> k" for j k
    using shared_outD(4) [OF so that] mpj [OF that(1)] mpj [OF that(2)] that(3) by auto
  moreover have "{..<m} = set F \<union> (\<Union>j<n. set ((Q(i := Q i @ [mp])) j))"
    using shared_outD(5) [OF so] i by (auto split: if_splits)
  moreover have "distinct F" using shared_outD(1) [OF so] by simp
  ultimately show ?thesis unfolding shared_out_def by (intro conjI allI impI) (simp_all only: simp_thms)
qed

lemma post_rep:
  assumes rep: "msg_rep mi st (mp # F) Q" and i: "i < length (msgque st)" and al: "allocated (msg_perm (msgque st ! i))"
    and len: "length (msgh st') = length (msgh st)" "length (msgque st') = length (msgque st)"
    and nx': "\<And>h. h < length (msgh st) \<Longrightarrow> nx st' h =
      (if h = mp then None else if Q i \<noteq> [] \<and> h = last (Q i) then Some mp else nx st h)"
    and same: "\<And>h. h \<noteq> mp \<Longrightarrow> text_units mi (msgh st' ! h) = text_units mi (msgh st ! h) \<and>
      hdr_ok mi (msgh st' ! h) = hdr_ok mi (msgh st ! h)"
    and m: "hdr_ok mi (msgh st' ! mp)" "text_units mi (msgh st' ! mp) \<inter> units (imap_segs (msgmap st')) = {}"
      "text_units mi (msgh st' ! mp) \<subseteq> units (imap_segs (msgmap st))"
    and mm: "imap_wf (msgmap st')" "units (imap_segs (msgmap st')) \<subseteq> units (imap_segs (msgmap st))"
    and fp: "msgfp st' = nx st mp"
    and perm: "\<And>j. allocated (msg_perm (msgque st' ! j)) = allocated (msg_perm (msgque st ! j)) \<and>
        ip_seq (msg_perm (msgque st' ! j)) = ip_seq (msg_perm (msgque st ! j)) \<and>
        ip_key (msg_perm (msgque st' ! j)) = ip_key (msg_perm (msgque st ! j)) \<and>
        msg_qbytes (msgque st' ! j) = msg_qbytes (msgque st ! j)"
    and other: "\<And>j. j \<noteq> i \<Longrightarrow> (msg_first (msgque st' ! j), msg_last (msgque st' ! j), msg_qnum (msgque st' ! j)) =
        (msg_first (msgque st ! j), msg_last (msgque st ! j), msg_qnum (msgque st ! j))"
    and qi: "msg_first (msgque st' ! i) = (if Q i = [] then Some mp else msg_first (msgque st ! i))"
      "msg_last (msgque st' ! i) = Some mp" "msg_qnum (msgque st' ! i) = msg_qnum (msgque st ! i) + 1"
  shows "msg_rep mi st' F (Q(i := Q i @ [mp]))"
proof -
  note so = msg_repD(3) [OF rep]
  let ?Q = "Q(i := Q i @ [mp])"
  have in_len: "h < length (msgh st)" if "h \<in> set (mp # F) \<or> j < length (msgque st) \<and> h \<in> set (Q j)" for h j
    using shared_out_length(2,3) [OF so] that i by fastforce
  have mpj: "mp \<notin> set (Q j)" "set F \<inter> set (Q j) = {}" if "j < length (msgque st)" for j
    using shared_outD(3) [OF so that] by auto
  have lF: "linked (nx st) (nx st mp) F" "mp \<notin> set F" using msg_repD(4) [OF rep] shared_outD(1) [OF so] by simp_all
  have "linked (nx st') (nx st mp) F = linked (nx st) (nx st mp) F"
  proof (rule linked_cong)
    fix h assume h: "h \<in> set F"
    then have "h \<noteq> mp" "\<not> (Q i \<noteq> [] \<and> h = last (Q i))" using lF(2) mpj(2) [OF i] last_in_set [of "Q i"] by auto
    moreover have "h < length (msgh st)" using in_len [of h i] h by simp
    ultimately show "nx st' h = nx st h" using nx' by auto
  qed
  then have lf: "linked (nx st') (msgfp st') F" using lF(1) fp by simp
  have qr: "queue_rep st' (msgque st' ! j) (?Q j)" if j: "j < length (msgque st)" for j
  proof (cases "j = i")
    case True
    have q: "linked (nx st) (msg_first (msgque st ! i)) (Q i)" "msg_qnum (msgque st ! i) = int (length (Q i))"
      using msg_repD_queue(1) [OF rep i] by (simp_all add: queue_rep_def)
    let ?n = "(nx st)(mp := None)"
    have "linked ?n (msg_first (msgque st ! i)) (Q i)"
      using q(1) mpj(1) [OF i] by (subst linked_cong [of "Q i" ?n "nx st"]) auto
    then have l: "linked (if Q i = [] then ?n else ?n(last (Q i) := Some mp)) (if Q i = [] then Some mp else msg_first (msgque st ! i)) (Q i @ [mp])"
      using shared_outD(2) [OF so i] mpj(1) [OF i] by (intro linked_snoc) simp_all
    have "linked (nx st') p (Q i @ [mp]) = linked (if Q i = [] then ?n else ?n(last (Q i) := Some mp)) p (Q i @ [mp])" for p
    proof (rule linked_cong)
      fix h assume h: "h \<in> set (Q i @ [mp])"
      then have "h < length (msgh st)" using in_len [of h i] i by auto
      moreover have "mp \<noteq> last (Q i)" if "Q i \<noteq> []" using mpj(1) [OF i] last_in_set [OF that] by auto
      ultimately show "nx st' h = (if Q i = [] then ?n else ?n(last (Q i) := Some mp)) h" using nx' by auto
    qed
    then show ?thesis using True l qi q(2) by (simp add: queue_rep_def)
  next
    case False
    have "linked (nx st') p (Q j) = linked (nx st) p (Q j)" for p
    proof (rule linked_cong)
      fix h assume h: "h \<in> set (Q j)"
      then have "h \<noteq> mp" "\<not> (Q i \<noteq> [] \<and> h = last (Q i))"
        using mpj(1) [OF j] shared_outD(4) [OF so j i False] last_in_set [of "Q i"] by auto
      moreover have "h < length (msgh st)" using in_len [of h j] h j by simp
      ultimately show "nx st' h = nx st h" using nx' by auto
    qed
    then show ?thesis using msg_repD_queue(1) [OF rep j] other [OF False] False by (simp add: queue_rep_def)
  qed
  have hd: "hdr_ok mi (msgh st' ! h)" if "j < length (msgque st)" "h \<in> set (?Q j)" for j h
    using msg_repD_queue(3) [OF rep that(1)] same [of h] m(1) that(2) by (cases "h = mp") (auto split: if_splits)
  have old: "text_units mi (msgh st' ! h) \<inter> units (imap_segs (msgmap st)) = {}" "h \<noteq> mp"
    if "j < length (msgque st)" "h \<in> set (Q j)" for j h
  proof -
    show "h \<noteq> mp" using mpj(1) [OF that(1)] that(2) by blast
    then show "text_units mi (msgh st' ! h) \<inter> units (imap_segs (msgmap st)) = {}"
      using msg_repD_queue(4) [OF rep that] same [of h] by simp
  qed
  have off: "text_units mi (msgh st' ! h) \<inter> units (imap_segs (msgmap st')) = {}" if "j < length (msgque st)" "h \<in> set (?Q j)" for j h
  proof (cases "h = mp")
    case False
    then have "h \<in> set (Q j)" using that(2) by (auto split: if_splits)
    then show ?thesis using old(1) [OF that(1)] mm(2) by blast
  qed (use m(2) in simp)
  have dis: "text_units mi (msgh st' ! h) \<inter> text_units mi (msgh st' ! k) = {}"
    if "j < length (msgque st)" "l < length (msgque st)" "h \<in> set (?Q j)" "k \<in> set (?Q l)" "h \<noteq> k" for j l h k
  proof -
    have hk: "h = mp \<or> h \<in> set (Q j)" "k = mp \<or> k \<in> set (Q l)" using that(3,4) by (auto split: if_splits)
    note d = that(5) and j = that(1) and l = that(2)
    from hk d consider "h = mp" "k \<in> set (Q l)" | "k = mp" "h \<in> set (Q j)" | "h \<in> set (Q j)" "k \<in> set (Q l)"
      by blast
    then show ?thesis
    proof cases
      case 1
      then show ?thesis using old(1) [OF l 1(2)] m(3) by blast
    next
      case 2
      then show ?thesis using old(1) [OF j 2(2)] m(3) by blast
    next
      case 3
      then show ?thesis
        using msg_repD_queue(9) [OF rep j l 3 d] same [of h] same [of k] old(2) [OF j 3(1)] old(2) [OF l 3(2)]
        by simp
    qed
  qed
  have ku: "keys_unique (map msg_perm (msgque st'))"
    using msg_repD(7) [OF rep] perm len by (simp add: keys_unique_def)
  have un: "\<not> allocated (msg_perm (msgque st' ! j)) \<longrightarrow> ?Q j = []" if "j < length (msgque st)" for j
    using msg_repD_queue(2) [OF rep that] perm [of j] al by (cases "j = i") simp_all
  have rng: "0 \<le> ip_seq (msg_perm (msgque st' ! j)) \<and> ip_seq (msg_perm (msgque st' ! j)) < 65536 \<and>
      0 \<le> msg_qbytes (msgque st' ! j) \<and> msg_qbytes (msgque st' ! j) \<le> 65535" if "j < length (msgque st)" for j
    using msg_repD_queue(5-8) [OF rep that] perm [of j] by simp
  have sub: "units (imap_segs (msgmap st')) \<subseteq> {1..nat (msgseg mi)}" using mm(2) msg_repD(6) [OF rep] by blast
  show ?thesis
    unfolding msg_rep_def len
    using msg_repD(1,2) [OF rep] shared_out_use [OF so i] lf qr hd off dis ku un rng sub mm(1) by blast
qed

definition posted :: "nat \<Rightarrow> nat \<Rightarrow> int \<Rightarrow> int \<Rightarrow> int \<Rightarrow> uarea \<Rightarrow> msgstate \<Rightarrow> msgstate" where
  "posted i mp type cnt spot u st =
     msg_link i mp (upd_h mp (\<lambda>m. m\<lparr>msg_next := None, msg_type := type, msg_ts := to_u16 cnt,
                  msg_spot := (if cnt \<noteq> 0 then spot else -1)\<rparr>)
       (upd_q i (\<lambda>q. q\<lparr>msg_qnum := to_u16 (msg_qnum q + 1), msg_cbytes := to_u16 (msg_cbytes q + cnt),
                  msg_lspid := p_pid u, msg_stime := msg_time st\<rparr>) st))"

lemma locks_posted: "locks (posted i mp type cnt spot u st) = locks st"
proof -
  have "locks (msg_link i mp s) = locks s" for s
    by (simp add: msg_link_def locks_upd_q split: option.split)
  then show ?thesis by (simp add: posted_def locks_upd_q)
qed

lemma msg_post_core:
  "\<exists>st4. msg_post i mp type cnt spot u st = (u\<lparr>u_rval1 := 0\<rparr>, q_unlock i st4) \<and>
    core_eq (posted i mp type cnt spot u st) st4 \<and> locks st4 = locks st"
proof -
  let ?E = "posted i mp type cnt spot u st"
  define st4 where "st4 = (if has_mode i MSG_RWAIT ?E
                 then wake_msg [QnumCh i] (q_mode i (\<lambda>m. m AND NOT MSG_RWAIT) ?E) else ?E)"
  have "msg_post i mp type cnt spot u st = (u\<lparr>u_rval1 := 0\<rparr>, q_unlock i st4)"
    unfolding st4_def posted_def msg_post_def Let_def by (rule refl)
  moreover have "core_eq ?E st4"
    using core_eq_trans [OF wait_bits(3) core_eq_wake] by (simp add: st4_def)
  moreover have "locks st4 = locks st" using wait_bits(6) [of i ?E] by (simp add: st4_def locks_posted)
  ultimately show ?thesis by blast
qed

lemma posted_facts:
  fixes i mp :: nat and st :: msgstate and u :: uarea and cnt type spot :: int
  assumes l: "msg_last (msgque st ! i) \<noteq> Some mp" and mp: "mp < length (msgh st)"
  defines "E \<equiv> posted i mp type cnt spot u st"
  shows "length (msgh E) = length (msgh st)" and "length (msgque E) = length (msgque st)"
    and "msgfp E = msgfp st" and "msgmap E = msgmap st" and "msg_pool E = msg_pool st"
    and "nx E h = (if h = mp then None else if msg_last (msgque st ! i) = Some h \<and> h < length (msgh st) then Some mp else nx st h)"
    and "h \<noteq> mp \<Longrightarrow> msg_type (msgh E ! h) = msg_type (msgh st ! h)" and "h \<noteq> mp \<Longrightarrow> msg_ts (msgh E ! h) = msg_ts (msgh st ! h)"
    and "h \<noteq> mp \<Longrightarrow> msg_spot (msgh E ! h) = msg_spot (msgh st ! h)"
    and "msg_type (msgh E ! mp) = type" and "msg_ts (msgh E ! mp) = to_u16 cnt"
    and "msg_spot (msgh E ! mp) = (if cnt \<noteq> 0 then spot else -1)"
    and "j \<noteq> i \<Longrightarrow> msgque E ! j = msgque st ! j"
    and "i < length (msgque st) \<Longrightarrow> msgque E ! i = (msgque st ! i)
      \<lparr>msg_first := (if msg_last (msgque st ! i) = None then Some mp else msg_first (msgque st ! i)), msg_last := Some mp,
       msg_qnum := to_u16 (msg_qnum (msgque st ! i) + 1), msg_cbytes := to_u16 (msg_cbytes (msgque st ! i) + cnt),
       msg_lspid := p_pid u, msg_stime := msg_time st\<rparr>"
  using assms(1,2)
  by (cases "i < length (msgque st)";
      auto simp: E_def posted_def msg_link_def upd_q_def upd_h_def nth_upd nx_def list_update_beyond not_less split: option.split)+

section \<open>Texts in the message buffer\<close>

lemma ipcmalloc_any:
  assumes "imap_wf mp" and "0 < n"
  shows "ipcmalloc mp (int n) = Ret (0, mp) \<or>
    (\<exists>a mm. ipcmalloc mp (int n) = Ret (int a, mm) \<and> 0 < a \<and> imap_wf mm \<and>
       {a..<a + n} \<subseteq> units (imap_segs mp) \<and> units (imap_segs mm) = units (imap_segs mp) - {a..<a + n})"
proof (cases "seg_alloc n (imap_segs mp)")
  case None
  then show ?thesis using ipcmalloc_refines [OF assms] by simp
next
  case (Some x)
  then obtain r mm where r: "ipcmalloc mp (int n) = Ret (int r, mm)" "imap_wf mm"
    using ipcmalloc_refines [OF assms] by (cases x) auto
  have ok: "segs_ok map_lim 0 (imap_segs mp)" using assms(1) by (simp add: imap_wf_def)
  obtain r' ys where x: "x = (r', ys)" by (cases x)
  have e: "r' = r" "imap_segs mm = ys" using ipcmalloc_refines [OF assms] Some r x by auto
  note t = seg_alloc_take [OF ok Some [unfolded x] assms(2)]
  have "r \<in> units (imap_segs mp)" using t e assms(2) by auto
  then have "0 < r" using units_lower [OF ok] by auto
  then show ?thesis using r t e by blast
qed

text \<open>The byte at offset \<open>k\<close> of the buffer lies in the unit one above its segment.\<close>

lemma byte_unit:
  assumes mi: "mi_wf mi" and m: "hdr_ok mi m"
    and k: "nat (msgssz mi * msg_spot m) \<le> k" "k < nat (msgssz mi * msg_spot m) + nat (msg_ts m)"
  shows "Suc (k div nat (msgssz mi)) \<in> text_units mi m"
proof -
  define S P B where "S = nat (msgssz mi)" and "P = nat (msg_spot m)" and "B = nat (btoq mi (msg_ts m))"
  have ts: "0 < msg_ts m" using k by linarith
  have S: "0 < S" "msgssz mi = int S" using mi by (simp_all add: mi_wf_def S_def)
  have P: "msg_spot m = int P" using m ts by (simp add: hdr_ok_def P_def)
  have B: "btoq mi (msg_ts m) = int B" "msg_ts m \<le> int S * int B"
    using btoq_bounds [OF mi ts] S by (simp_all add: B_def)
  have sp: "nat (msgssz mi * msg_spot m) = S * P" unfolding S P by (simp add: nat_mult_distrib)
  have "nat (msg_ts m) \<le> S * B" using B(2) by (simp add: nat_le_iff)
  then have "k < (P + B) * S" using k(2) unfolding sp by (simp add: algebra_simps)
  then have "k div S < P + B" by (rule less_mult_imp_div_less)
  moreover have "P * S \<le> k" using k(1) unfolding sp by (simp add: mult.commute)
  then have "P \<le> k div S" using S(1) by (simp add: less_eq_div_iff_mult_less_eq)
  ultimately show ?thesis using ts by (simp add: text_units_def S_def [symmetric] P_def [symmetric] B_def [symmetric])
qed

lemma pool_write_read:
  assumes mi: "mi_wf mi" and m: "hdr_ok mi m" and w: "hdr_ok mi w" "int (length bs) = msg_ts w"
    and d: "text_units mi m \<inter> text_units mi w = {}"
  shows "pool_read (nat (msgssz mi * msg_spot m)) (nat (msg_ts m)) (pool_write (nat (msgssz mi * msg_spot w)) bs st) =
    pool_read (nat (msgssz mi * msg_spot m)) (nat (msg_ts m)) st"
  unfolding pool_read_def
proof (rule map_cong [OF refl])
  fix k assume "k \<in> set [nat (msgssz mi * msg_spot m)..<nat (msgssz mi * msg_spot m) + nat (msg_ts m)]"
  then have "Suc (k div nat (msgssz mi)) \<in> text_units mi m" using byte_unit [OF mi m] by simp
  moreover have "Suc (k div nat (msgssz mi)) \<in> text_units mi w"
    if "nat (msgssz mi * msg_spot w) \<le> k" "k < nat (msgssz mi * msg_spot w) + length bs"
    using byte_unit [OF mi w(1) that(1)] that(2) w(2) by simp
  ultimately show "msg_pool (pool_write (nat (msgssz mi * msg_spot w)) bs st) k = msg_pool st k"
    using d by (auto simp: pool_write_def)
qed

lemma pool_read_own: "pool_read off (length bs) (pool_write off bs st) = bs"
  by (rule nth_equalityI) (simp_all add: pool_read_def pool_write_def)

section \<open>A send\<close>

lemma send_done:
  fixes cnt type spot :: int
  assumes mi: "mi_wf mi" and rep: "msg_rep mi st (mp # F) Q" and bts: "bytes_ok st Q" and h: "held i st"
    and i: "i < length (msgque st)" and al: "allocated (msg_perm (msgque st ! i))"
    and s: "msgh s = (msgh st)[mp := (msgh st ! mp)\<lparr>msg_next := None\<rparr>]" "msgque s = msgque st" "msgfp s = nx st mp"
    and cnt: "0 \<le> cnt" "cnt + msg_cbytes (msgque st ! i) \<le> msg_qbytes (msgque st ! i)"
  defines "m \<equiv> \<lparr>msg_next = None, msg_type = type, msg_ts = cnt, msg_spot = (if cnt \<noteq> 0 then spot else -1)\<rparr>"
  assumes m: "hdr_ok mi m" "text_units mi m \<subseteq> units (imap_segs (msgmap st))"
      "text_units mi m \<inter> units (imap_segs (msgmap s)) = {}"
    and mm: "imap_wf (msgmap s)" "units (imap_segs (msgmap s)) \<subseteq> units (imap_segs (msgmap st))"
    and bs: "int (length bs) = cnt"
      "msg_pool s = (if cnt = 0 then msg_pool st else msg_pool (pool_write (nat (msgssz mi * spot)) bs st))"
  shows "\<exists>st'. msg_post i mp type cnt spot u s = (u\<lparr>u_rval1 := 0\<rparr>, st') \<and> msg_inv mi st' \<and>
    q_items mi st' = (q_items mi st)(i := q_items mi st i @ [(type, bs)])"
proof -
  note so = msg_repD(3) [OF rep]
  have mpl: "mp < length (msgh st)" using shared_out_length(3) [OF so i] by simp
  have mpj: "mp \<notin> set (Q j)" if "j < length (msgque st)" for j using shared_outD(3) [OF so that] by simp
  have q: "msg_last (msgque st ! i) = (if Q i = [] then None else Some (last (Q i)))" "msg_qnum (msgque st ! i) = int (length (Q i))"
    using msg_repD_queue(1) [OF rep i] by (simp_all add: queue_rep_def)
  have l: "msg_last (msgque s ! i) \<noteq> Some mp" using q(1) mpj [OF i] last_in_set [of "Q i"] by (auto simp: s)
  have mps: "mp < length (msgh s)" using mpl by (simp add: s)
  let ?E = "posted i mp type cnt spot u s"
  note f = posted_facts [OF l mps, where cnt = cnt and type = type and spot = spot and u = u]
  have i_s: "i < length (msgque s)" using i by (simp add: s)
  have "msg_qbytes (msgque st ! i) \<le> 65535" using msg_repD_queue(8) [OF rep i] .
  moreover have c0: "msg_cbytes (msgque st ! i) = (\<Sum>h \<leftarrow> Q i. msg_ts (msgh st ! h))"
    using bts i unfolding bytes_ok_def by blast
  have "0 \<le> msg_cbytes (msgque st ! i)"
    unfolding c0 by (rule sum_nonneg_map) (use msg_repD_queue(3) [OF rep i] in \<open>simp add: hdr_ok_def\<close>)
  ultimately have u16: "to_u16 cnt = cnt" "to_u16 (msg_cbytes (msgque st ! i) + cnt) = msg_cbytes (msgque st ! i) + cnt"
    "msg_cbytes (msgque st ! i) + cnt \<le> 65535" using cnt by (simp_all add: to_u16_id)
  have qn: "to_u16 (msg_qnum (msgque st ! i) + 1) = msg_qnum (msgque st ! i) + 1"
  proof -
    have "distinct (mp # Q i)" "set (mp # Q i) \<subseteq> {..<length (msgh st)}"
      using shared_outD(2) [OF so i] mpj [OF i] mpl shared_out_length(2) [OF so i] by auto
    then have "length (mp # Q i) \<le> length (msgh st)" by (rule distinct_length_le)
    then have "Suc (length (Q i)) \<le> nat (msgtql mi)" using msg_repD(2) [OF rep] by simp
    then have "Suc (length (Q i)) \<le> 65535" using mi unfolding mi_wf_def by linarith
    then show ?thesis using q(2) by (simp add: to_u16_id)
  qed
  have mE: "msg_type (msgh ?E ! mp) = type" "msg_ts (msgh ?E ! mp) = cnt"
    "msg_spot (msgh ?E ! mp) = (if cnt \<noteq> 0 then spot else -1)"
    using f(10-12) u16(1) by simp_all
  have mE': "hdr_ok mi (msgh ?E ! mp) = hdr_ok mi m" "text_units mi (msgh ?E ! mp) = text_units mi m"
    by (simp_all only: hdr_ok_def text_units_def mE m_def msg.simps)
  have same: "msg_type (msgh ?E ! h) = msg_type (msgh st ! h)" "msg_ts (msgh ?E ! h) = msg_ts (msgh st ! h)"
    "msg_spot (msgh ?E ! h) = msg_spot (msgh st ! h)" if "h \<noteq> mp" for h
    using f(7-9) [OF that] that by (simp_all add: s)
  have other: "msgque ?E ! j = msgque st ! j" if "j \<noteq> i" for j using f(13) [OF that] by (simp add: s)
  have repE: "msg_rep mi ?E F (Q(i := Q i @ [mp]))"
  proof (rule post_rep [OF rep i al])
    show "length (msgh ?E) = length (msgh st)" "length (msgque ?E) = length (msgque st)" using f(1,2) by (simp_all add: s)
    show "nx ?E h = (if h = mp then None else if Q i \<noteq> [] \<and> h = last (Q i) then Some mp else nx st h)"
      if "h < length (msgh st)" for h
    proof -
      have "nx s h = nx st h" if "h \<noteq> mp" using that by (simp add: nx_def s)
      then show ?thesis using f(6) [of h] that q(1) by (auto simp: s split: if_splits)
    qed
    show "text_units mi (msgh ?E ! h) = text_units mi (msgh st ! h) \<and> hdr_ok mi (msgh ?E ! h) = hdr_ok mi (msgh st ! h)"
      if "h \<noteq> mp" for h by (simp only: hdr_ok_def text_units_def same [OF that] simp_thms)
    show "hdr_ok mi (msgh ?E ! mp)" "text_units mi (msgh ?E ! mp) \<inter> units (imap_segs (msgmap ?E)) = {}"
      "text_units mi (msgh ?E ! mp) \<subseteq> units (imap_segs (msgmap st))"
      using m mE' f(4) by simp_all
    show "imap_wf (msgmap ?E)" "units (imap_segs (msgmap ?E)) \<subseteq> units (imap_segs (msgmap st))" using mm f(4) by simp_all
    show "msgfp ?E = nx st mp" using f(3) s by simp
    show "allocated (msg_perm (msgque ?E ! j)) = allocated (msg_perm (msgque st ! j)) \<and>
        ip_seq (msg_perm (msgque ?E ! j)) = ip_seq (msg_perm (msgque st ! j)) \<and>
        ip_key (msg_perm (msgque ?E ! j)) = ip_key (msg_perm (msgque st ! j)) \<and>
        msg_qbytes (msgque ?E ! j) = msg_qbytes (msgque st ! j)" for j
      using other [of j] f(14) [OF i_s] by (cases "j = i") (simp_all add: s)
    show "(msg_first (msgque ?E ! j), msg_last (msgque ?E ! j), msg_qnum (msgque ?E ! j)) =
        (msg_first (msgque st ! j), msg_last (msgque st ! j), msg_qnum (msgque st ! j))" if "j \<noteq> i" for j
      by (simp add: other [OF that])
    show "msg_first (msgque ?E ! i) = (if Q i = [] then Some mp else msg_first (msgque st ! i))"
      "msg_last (msgque ?E ! i) = Some mp" "msg_qnum (msgque ?E ! i) = msg_qnum (msgque st ! i) + 1"
      using f(14) [OF i_s] q(1) qn by (simp_all add: s)
  qed
  have tsum: "(\<Sum>h \<leftarrow> Q j. msg_ts (msgh ?E ! h)) = (\<Sum>h \<leftarrow> Q j. msg_ts (msgh st ! h))" if "j < length (msgque st)" for j
  proof -
    have "map (\<lambda>h. msg_ts (msgh ?E ! h)) (Q j) = map (\<lambda>h. msg_ts (msgh st ! h)) (Q j)"
    proof (rule map_cong [OF refl])
      fix h assume "h \<in> set (Q j)"
      then have "h \<noteq> mp" using mpj [OF that] by blast
      then show "msg_ts (msgh ?E ! h) = msg_ts (msgh st ! h)" by (rule same(2))
    qed
    then show ?thesis by (rule arg_cong)
  qed
  have "bytes_ok ?E (Q(i := Q i @ [mp]))"
    unfolding bytes_ok_def
  proof (intro allI impI)
    fix j assume "j < length (msgque ?E)"
    then have j: "j < length (msgque st)" using f(2) by (simp add: s)
    have c: "msg_cbytes (msgque st ! j) = (\<Sum>h \<leftarrow> Q j. msg_ts (msgh st ! h))" "msg_cbytes (msgque st ! j) \<le> 65535"
      using bts j unfolding bytes_ok_def by blast+
    show "msg_cbytes (msgque ?E ! j) = (\<Sum>h \<leftarrow> (Q(i := Q i @ [mp])) j. msg_ts (msgh ?E ! h)) \<and> msg_cbytes (msgque ?E ! j) \<le> 65535"
    proof (cases "j = i")
      case True
      then show ?thesis using f(14) [OF i_s] c(1) tsum [OF i] mE(2) u16(2,3) by (simp add: s)
    next
      case False
      then show ?thesis using other [OF False] c tsum [OF j] by simp
    qed
  qed
  moreover obtain st4 where st4: "msg_post i mp type cnt spot u s = (u\<lparr>u_rval1 := 0\<rparr>, q_unlock i st4)"
    "core_eq ?E st4" "locks st4 = locks s"
    using msg_post_core by blast
  have c4: "core_eq ?E (q_unlock i st4)" using core_eq_trans [OF st4(2) core_eq_unlock] .
  have "locks s = locks st" by (simp add: locks_def s)
  then have "unlocked (q_unlock i st4)" using q_unlock_unlocked held_locks h st4(3) by simp
  ultimately have inv: "msg_inv mi (q_unlock i st4)"
    using core_eq_rep [OF c4 repE] core_eq_bytes [OF c4] unfolding msg_inv_def by blast
  have itm: "item mi ?E h = item mi st h" if "j < length (msgque st)" "h \<in> set (Q j)" for j h
  proof -
    have h: "h \<noteq> mp" using mpj [OF that(1)] that(2) by blast
    have "pool_read (nat (msgssz mi * msg_spot (msgh st ! h))) (nat (msg_ts (msgh st ! h))) ?E =
      pool_read (nat (msgssz mi * msg_spot (msgh st ! h))) (nat (msg_ts (msgh st ! h))) st"
    proof (cases "cnt = 0")
      case True
      then show ?thesis using f(5) bs(2) by (simp add: pool_read_def)
    next
      case False
      have "text_units mi (msgh st ! h) \<inter> text_units mi m = {}"
        using msg_repD_queue(4) [OF rep that] m(2) by blast
      then show ?thesis
        using pool_write_read [OF mi msg_repD_queue(3) [OF rep that] m(1), of bs st] bs False f(5)
        by (simp add: m_def pool_read_def)
    qed
    then show ?thesis by (simp add: item_def same [OF h])
  qed
  have new: "item mi ?E mp = (type, bs)"
  proof (cases "cnt = 0")
    case True
    then show ?thesis using mE bs(1) by (simp add: item_def pool_read_def)
  next
    case False
    have "nat cnt = length bs" using bs(1) by simp
    moreover have "pool_read (nat (msgssz mi * spot)) (length bs) ?E = bs"
      using pool_read_own [of "nat (msgssz mi * spot)" bs st] f(5) bs(2) False by (simp add: pool_read_def)
    ultimately show ?thesis using mE False by (simp add: item_def)
  qed
  have "q_items mi (q_unlock i st4) j = ((q_items mi st)(i := q_items mi st i @ [(type, bs)])) j" for j
    using i f(2) itm new unfolding core_eq_items [OF c4] q_items_rep [OF repE] q_items_rep [OF rep]
    by (auto simp: s)
  then show ?thesis using st4(1) inv by blast
qed

end
