(* ===== verification/Msg_Props.thy ===== *)
theory Msg_Props
  imports Msg_Calls
begin

text \<open>
  The message facility as a system: a whole send, removal, creation and boot, the steps
  any process can make, the invariant of every reachable state, and the properties of the
  calls.
\<close>

section \<open>Sending from the lock to the end or the next sleep\<close>

lemma rep_map:
  assumes rep: "msg_rep mi st F Q" and m: "imap_wf m" "units (imap_segs m) \<subseteq> units (imap_segs (msgmap st))"
  shows "msg_rep mi (st\<lparr>msgmap := m\<rparr>) F Q"
proof -
  have b: "body_eq st (st\<lparr>msgmap := m\<rparr>)" by (simp add: body_eq_def)
  have n: "nx (st\<lparr>msgmap := m\<rparr>) = nx st" by (simp add: nx_def [abs_def])
  show ?thesis
  proof (rule msg_rep_body [OF rep b msg_repD(3) [OF rep]])
    show "text_units mi (msgh st ! h) \<inter> units (imap_segs (msgmap (st\<lparr>msgmap := m\<rparr>))) = {}"
      if "j < length (msgque st)" "h \<in> set (Q j)" for j h
      using msg_repD_queue(4) [OF rep that] m(2) by (simp, blast)
    show "queue_rep (st\<lparr>msgmap := m\<rparr>) (msgque (st\<lparr>msgmap := m\<rparr>) ! j) (Q j)" if "j < length (msgque st)" for j
      using msg_repD_queue(1) [OF rep that] n by (simp add: queue_rep_def)
  qed (use msg_repD(4,6) [OF rep] m n in auto)
qed

lemma bytes_ok_map: "bytes_ok (st\<lparr>msgmap := m\<rparr>) Q = bytes_ok st Q"
  by (simp add: bytes_ok_def)

lemma q_items_map: "q_items mi (st\<lparr>msgmap := m\<rparr>) = q_items mi st"
  by (rule ext) (simp add: q_items_def q_hdrs_def item_def pool_read_def nx_def [abs_def])

lemma give_back_core:
  assumes s: "msgh s = (msgh st)[mp := (msgh st ! mp)\<lparr>msg_next := None\<rparr>]" "msgque s = msgque st"
      "msgfp s = msg_next (msgh st ! mp)" "msg_pool s = msg_pool st"
    and mp: "mp < length (msgh st)" "msgfp st = Some mp"
  shows "core_eq (st\<lparr>msgmap := msgmap s\<rparr>) (give_back i mp s)" and "locks (give_back i mp s) = locks st"
    and "msgmap (give_back i mp s) = msgmap s"
proof -
  define s1 where "s1 = upd_h mp (\<lambda>m. m\<lparr>msg_next := msgfp s\<rparr>) s"
  define s2 where "s2 = (if msgfp s1 = None then wake_writers i s1 else s1)"
  have gb: "give_back i mp s = s2\<lparr>msgfp := Some mp\<rparr>" by (simp add: give_back_def Let_def s1_def s2_def)
  have h: "msgh s1 = msgh st"
    using mp(1) by (intro nth_equalityI) (auto simp: s1_def upd_h_def s nth_upd)
  have "core_eq (s1\<lparr>msgfp := Some mp\<rparr>) (s2\<lparr>msgfp := Some mp\<rparr>)"
    by (rule core_eq_fp) (simp add: s2_def)
  moreover have "core_eq (st\<lparr>msgmap := msgmap s\<rparr>) (s1\<lparr>msgfp := Some mp\<rparr>)"
    using h by (simp add: core_eq_def mp(2)) (simp add: s1_def upd_h_def s)
  ultimately show "core_eq (st\<lparr>msgmap := msgmap s\<rparr>) (give_back i mp s)" using core_eq_trans gb by simp
  have "locks s = locks st" by (simp add: locks_def s)
  then show "locks (give_back i mp s) = locks st" by (simp add: gb s2_def s1_def)
  show "msgmap (give_back i mp s) = msgmap s"
    by (simp add: gb s2_def s1_def wake_writers_def wake_msg_def q_mode_def upd_q_def upd_h_def)
qed

text \<open>
  Why a send has to wait, by the channel it waits on: the text does not fit under the
  queue's byte limit, no header is free, or no free segment of the pool is long enough.
\<close>

definition snd_full :: "msginfo \<Rightarrow> nat \<Rightarrow> int \<Rightarrow> msgchan \<Rightarrow> msgstate \<Rightarrow> bool" where
  "snd_full mi i cnt c st \<longleftrightarrow>
     c = QueueCh i \<and> cnt + msg_cbytes (msgque st ! i) > msg_qbytes (msgque st ! i) \<or>
     c = FreeCh \<and> msgfp st = None \<or>
     c = MapCh \<and> cnt \<noteq> 0 \<and> (\<forall>(a, s) \<in> set (imap_segs (msgmap st)). int s < btoq mi cnt)"

text \<open>A send that is over has appended its message or failed; a wait has changed no contents.\<close>

definition snd_good :: "msginfo \<Rightarrow> nat \<Rightarrow> int \<Rightarrow> int \<Rightarrow> msg_mem \<Rightarrow> msgstate \<Rightarrow> snd_result \<Rightarrow> bool" where
  "snd_good mi i type cnt mem st r \<longleftrightarrow>
     (case r of
        SndDone u' st' \<Rightarrow> msg_inv mi st' \<and>
          (if u_error u' = E_OK then u_rval1 u' = 0 \<and>
             (\<exists>bs. int (length bs) = cnt \<and> (cnt \<noteq> 0 \<longrightarrow> (\<exists>s. in_text mem (nat cnt) s = (s, Some bs))) \<and>
                q_items mi st' = (q_items mi st)(i := q_items mi st i @ [(type, bs)]))
           else q_items mi st' = q_items mi st \<and> u_error u' = EFAULT \<and> (\<exists>s. in_text mem (nat cnt) s = (s, None)))
      | SndWait c st' \<Rightarrow> msg_inv mi st' \<and> core_eq st st' \<and> snd_full mi i cnt c st)"

lemma snd_wait:
  assumes inv: "msg_rep mi st F Q" "bytes_ok st Q" and c: "core_eq st s" and h: "held i s"
  shows "msg_inv mi (q_unlock i s)" and "core_eq st (q_unlock i s)"
proof -
  show ce: "core_eq st (q_unlock i s)" using core_eq_trans [OF c core_eq_unlock] .
  show "msg_inv mi (q_unlock i s)"
    using core_eq_rep [OF ce inv(1)] core_eq_bytes [OF ce] inv(2) q_unlock_unlocked [OF h] by (auto simp: msg_inv_def)
qed

lemma snd_try_spec:
  assumes mi: "mi_wf mi" and rep: "msg_rep mi st F Q" and bts: "bytes_ok st Q" and h: "held i st"
    and i: "i < length (msgque st)" and al: "allocated (msg_perm (msgque st ! i))" and mem: "quiet_msg mem"
    and ty: "1 \<le> type" and cnt: "0 \<le> cnt" and u: "u_error u = E_OK"
  shows "\<exists>r. snd_try mi i type cnt mem u st = Ret r \<and> snd_good mi i type cnt mem st r"
proof (cases "cnt + msg_cbytes (msgque st ! i) > msg_qbytes (msgque st ! i)")
  case True
  then show ?thesis using snd_wait [OF rep bts core_eq_refl h] by (simp add: snd_try_def snd_good_def snd_full_def)
next
  case room: False
  show ?thesis
  proof (cases "msgfp st")
    case None
    then show ?thesis using room snd_wait [OF rep bts core_eq_refl h] by (simp add: snd_try_def snd_good_def snd_full_def)
  next
    case (Some mp)
    then obtain F' where F: "F = mp # F'" using msg_repD(4) [OF rep] by (auto simp: linked_Some)
    note rep' = rep [unfolded F]
    have mpl: "mp < length (msgh st)" using shared_out_length(3) [OF msg_repD(3) [OF rep'] i] by simp
    define s1 where "s1 = upd_h mp (\<lambda>m. m\<lparr>msg_next := None\<rparr>) (st\<lparr>msgfp := msg_next (msgh st ! mp)\<rparr>)"
    have s1: "msgh s1 = (msgh st)[mp := (msgh st ! mp)\<lparr>msg_next := None\<rparr>]" "msgque s1 = msgque st"
      "msgfp s1 = nx st mp" "msgfp s1 = msg_next (msgh st ! mp)" "msg_pool s1 = msg_pool st" "msgmap s1 = msgmap st"
      by (simp_all add: s1_def upd_h_def nx_def)
    have room': "cnt + msg_cbytes (msgque st ! i) \<le> msg_qbytes (msgque st ! i)" using room by simp
    note fin = send_done [OF mi rep' bts h i al _ _ _ cnt room', where type = type]
    show ?thesis
    proof (cases "cnt = 0")
      case True
      have "\<exists>st'. msg_post i mp type cnt 0 u s1 = (u\<lparr>u_rval1 := 0\<rparr>, st') \<and> msg_inv mi st' \<and>
        q_items mi st' = (q_items mi st)(i := q_items mi st i @ [(type, [])])"
        using True ty s1 msg_repD(5) [OF rep] by (intro fin) (simp_all add: hdr_ok_def text_units_def)
      then show ?thesis using room Some True u by (auto simp: snd_try_def s1_def [symmetric] snd_good_def)
    next
      case False
      define n where "n = nat (btoq mi cnt)"
      have n: "0 < n" "btoq mi cnt = int n" using btoq_bounds(1) [OF mi, of cnt] cnt False by (simp_all add: n_def)
      have tr: "snd_try mi i type cnt mem u st =
          obind (ipcmalloc (msgmap st) (int n)) (\<lambda>(a, mm).
                let st2 = s1\<lparr>msgmap := mm\<rparr>
                in if a = 0 then Ret (SndWait MapCh (q_unlock i (give_back i mp st2)))
                   else case in_text mem (nat cnt) st2 of
                     (st3, Some bs) \<Rightarrow>
                       (case msg_post i mp type cnt (a - 1) (set_error E_OK u)
                               (pool_write (nat (msgssz mi * (a - 1))) bs st3) of
                          (u1, st4) \<Rightarrow> Ret (SndDone u1 st4))
                   | (st3, None) \<Rightarrow>
                       (let st4 = give_back i mp st3
                        in obind (ipcmfree (msgmap st4) (btoq mi cnt) (a - 1 + 1)) (\<lambda>(mm', w).
                             Ret (SndDone (set_error EFAULT u) (q_unlock i
                               ((if w then wake_msg [MapCh] else (\<lambda>s. s)) (st4\<lparr>msgmap := mm'\<rparr>)))))))"
        using room Some False s1(6) n(2) by (simp add: snd_try_def s1_def)
      consider "ipcmalloc (msgmap st) (int n) = Ret (0, msgmap st)"
        | a mm where "ipcmalloc (msgmap st) (int n) = Ret (int a, mm)" "0 < a" "imap_wf mm"
            "{a..<a + n} \<subseteq> units (imap_segs (msgmap st))" "units (imap_segs mm) = units (imap_segs (msgmap st)) - {a..<a + n}"
        using ipcmalloc_any [OF msg_repD(5) [OF rep] n(1)] by blast
      then show ?thesis
      proof cases
        case 1
        let ?g = "give_back i mp (s1\<lparr>msgmap := msgmap st\<rparr>)"
        have g: "core_eq st ?g" "locks ?g = locks st"
          using give_back_core(1,2) [of "s1\<lparr>msgmap := msgmap st\<rparr>" st mp i] s1 mpl Some by simp_all
        show ?thesis
          using snd_wait [OF rep bts g(1) held_locks [OF g(2) h]] 1 n(2)
            ipcmalloc_no_room [OF msg_repD(5) [OF rep] n(1) 1] False
          by (simp add: tr snd_good_def snd_full_def Let_def)
      next
        case (2 a mm)
        let ?s2 = "s1\<lparr>msgmap := mm\<rparr>"
        obtain bo where bo: "in_text mem (nat cnt) ?s2 = (?s2, bo)" using quiet_msgD(3) [OF mem] by (cases "in_text mem (nat cnt) ?s2") blast
        show ?thesis
        proof (cases bo)
          case None
          let ?g = "give_back i mp ?s2"
          have g: "core_eq (st\<lparr>msgmap := mm\<rparr>) ?g" "locks ?g = locks st" "msgmap ?g = mm"
            using give_back_core [of ?s2 st mp i] s1 mpl Some by simp_all
          have rng: "a + n < map_lim"
          proof -
            have "a + n - 1 \<in> {a..<a + n}" using n(1) by simp
            then have "a + n - 1 \<in> {1..nat (msgseg mi)}" using 2(4) msg_repD(6) [OF rep] by blast
            then have "a + n - 1 \<le> nat (msgseg mi)" by simp
            moreover have "nat (msgseg mi) < 32768" using mi unfolding mi_wf_def by linarith
            ultimately show ?thesis by linarith
          qed
          have "{a..<a + n} \<inter> units (imap_segs mm) = {}" using 2(5) by blast
          then obtain mm' w where fr: "ipcmfree mm (int n) (int a) = Ret (mm', w)" "imap_wf mm'"
            "units (imap_segs mm') \<subseteq> units (imap_segs mm) \<union> {a..<a + n}"
            using ipcmfree_any [OF 2(3) n(1) 2(2) rng] by blast
          have sub: "units (imap_segs mm') \<subseteq> units (imap_segs (msgmap st))" using fr(3) 2(4,5) by blast
          let ?s3 = "(if w then wake_msg [MapCh] else (\<lambda>s. s)) (?g\<lparr>msgmap := mm'\<rparr>)"
          have "(st\<lparr>msgmap := mm\<rparr>)\<lparr>msgmap := mm'\<rparr> = st\<lparr>msgmap := mm'\<rparr>" by simp
          then have "core_eq (st\<lparr>msgmap := mm'\<rparr>) (?g\<lparr>msgmap := mm'\<rparr>)" using core_eq_map [OF g(1), of mm'] by metis
          then have c3: "core_eq (st\<lparr>msgmap := mm'\<rparr>) ?s3" using core_eq_trans [OF _ core_eq_wake] by simp
          have h3: "held i ?s3" using held_locks [OF _ h] g(2) by simp
          have "bytes_ok (st\<lparr>msgmap := mm'\<rparr>) Q" using bts bytes_ok_map by blast
          note w3 = snd_wait [OF rep_map [OF rep fr(2) sub] this c3 h3]
          have it: "q_items mi (q_unlock i ?s3) = q_items mi st" using core_eq_items [OF w3(2)] q_items_map by metis
          have "snd_try mi i type cnt mem u st = Ret (SndDone (set_error EFAULT u) (q_unlock i ?s3))"
            using 2 bo None fr(1) g(3) n(2) by (simp add: tr Let_def)
          then show ?thesis using w3(1) it bo None by (auto simp: snd_good_def)
        next
          case (Some bs)
          have lb: "int (length bs) = cnt" using quiet_msgD(7) [OF mem] bo Some cnt by fastforce
          let ?s3 = "pool_write (nat (msgssz mi * (int a - 1))) bs ?s2"
          have s3: "msgh ?s3 = msgh s1" "msgque ?s3 = msgque s1" "msgfp ?s3 = msgfp s1" "msgmap ?s3 = mm"
            "msg_pool ?s3 = msg_pool (pool_write (nat (msgssz mi * (int a - 1))) bs st)"
            by (auto simp: pool_write_def s1(5) fun_eq_iff)
          have c16: "cnt \<le> 65535"
          proof -
            have "0 \<le> msg_cbytes (msgque st ! i)"
            proof -
              have "msg_cbytes (msgque st ! i) = (\<Sum>h \<leftarrow> Q i. msg_ts (msgh st ! h))"
                using bts i unfolding bytes_ok_def by blast
              moreover have "0 \<le> (\<Sum>h \<leftarrow> Q i. msg_ts (msgh st ! h))"
                by (rule sum_nonneg_map) (use msg_repD_queue(3) [OF rep i] in \<open>simp add: hdr_ok_def\<close>)
              ultimately show ?thesis by simp
            qed
            then show ?thesis using room' msg_repD_queue(8) [OF rep i] by simp
          qed
          have tu: "text_units mi \<lparr>msg_next = None, msg_type = type, msg_ts = cnt, msg_spot = (if cnt \<noteq> 0 then int a - 1 else -1)\<rparr> = {a..<a + n}"
          proof -
            have "Suc (nat (int a - 1)) = a" using 2(2) by linarith
            then show ?thesis using False n(2) by (simp add: text_units_def)
          qed
          have "\<exists>st'. msg_post i mp type cnt (int a - 1) (set_error E_OK u) ?s3 = ((set_error E_OK u)\<lparr>u_rval1 := 0\<rparr>, st') \<and>
            msg_inv mi st' \<and> q_items mi st' = (q_items mi st)(i := q_items mi st i @ [(type, bs)])"
          proof (rule fin)
            show "hdr_ok mi \<lparr>msg_next = None, msg_type = type, msg_ts = cnt, msg_spot = (if cnt \<noteq> 0 then int a - 1 else -1)\<rparr>"
              using ty cnt c16 2(2,4) msg_repD(6) [OF rep] unfolding hdr_ok_def tu by auto
          qed (use s1 s3 tu 2 lb False in \<open>auto simp: pool_write_def\<close>)
          then obtain st' where st': "msg_post i mp type cnt (int a - 1) (set_error E_OK u) ?s3 = ((set_error E_OK u)\<lparr>u_rval1 := 0\<rparr>, st')"
            "msg_inv mi st'" "q_items mi st' = (q_items mi st)(i := q_items mi st i @ [(type, bs)])" by blast
          have "snd_try mi i type cnt mem u st = Ret (SndDone ((set_error E_OK u)\<lparr>u_rval1 := 0\<rparr>) st')"
            using 2(1,2) bo Some st'(1) by (simp add: tr Let_def)
          then show ?thesis using st'(2,3) lb bo Some by (auto simp: snd_good_def)
        qed
      qed
    qed
  qed
qed

lemma msgconv_indep: "fst (msgconv mi q u st) = fst (msgconv mi q v st)"
  by (simp add: msgconv_def Let_def)

lemma msgconv_live:
  assumes "mi_wf mi" and "msg_rep mi st F Q" and "fst (msgconv mi q u st) = Some i"
  shows "i < length (msgque st)" and "allocated (msg_perm (msgque st ! i))"
proof -
  have "int i < msgmni mi" using msgid.conv_bound [OF _ assms(3)] assms(1) by (simp add: mi_wf_def)
  then show "i < length (msgque st)" using msg_repD(1) [OF assms(2)] by simp
  show "allocated (msg_perm (msgque st ! i))" using assms(3) by (auto simp: msgid.conv_iff)
qed

lemma msgsnd_segment:
  assumes mi: "mi_wf mi" and inv: "msg_inv mi st" and conv: "fst (msgconv mi msqid u st) = Some i"
    and mem: "quiet_msg mem" and ty: "1 \<le> type" and cnt: "0 \<le> cnt" and u: "u_error u = E_OK"
  shows "\<exists>r. msgsnd_loop mi msqid i type cnt msgflg mem [] [] u st = Ret r \<and> msg_inv mi (msg_run_state r) \<and>
    (case r of
       MsgDone out u' st' \<Rightarrow> out = MsgNone \<and>
         (if u_error u' = E_OK then u_rval1 u' = 0 \<and>
            (\<exists>bs. int (length bs) = cnt \<and> (cnt \<noteq> 0 \<longrightarrow> (\<exists>s. in_text mem (nat cnt) s = (s, Some bs))) \<and>
               q_items mi st' = (q_items mi st)(i := q_items mi st i @ [(type, bs)]))
          else q_items mi st' = q_items mi st \<and>
            (u_error u' = EFAULT \<and> (\<exists>s. in_text mem (nat cnt) s = (s, None)) \<or>
             u_error u' = EAGAIN \<and> msgflg AND IPC_NOWAIT \<noteq> 0 \<and> (\<exists>c. snd_full mi i cnt c st)))
     | MsgSleeping c u' st' \<Rightarrow> u' = u \<and> q_items mi st' = q_items mi st \<and> msgflg AND IPC_NOWAIT = 0 \<and>
         snd_full mi i cnt c st
     | MsgBlocked u' st' \<Rightarrow> False)"
proof -
  obtain F Q where rep: "msg_rep mi st F Q" and bts: "bytes_ok st Q" and ul: "unlocked st"
    using inv by (auto simp: msg_inv_def)
  note live = msgconv_live [OF mi rep conv]
  obtain s1 where s1: "q_lock i [] st = Locked s1 []" "core_eq st s1" "held i s1"
    using q_lock_free [OF ul live(1), of "[]"] by blast
  have rep1: "msg_rep mi s1 F Q" and bts1: "bytes_ok s1 Q" and i1: "i < length (msgque s1)"
    and al1: "allocated (msg_perm (msgque s1 ! i))"
    using core_eq_rep [OF s1(2) rep] core_eq_bytes [OF s1(2)] bts core_eqD(2,6) [OF s1(2)] live by simp_all
  have it: "q_items mi s1 = q_items mi st" using core_eq_items [OF s1(2)] .
  obtain r where r: "snd_try mi i type cnt mem u s1 = Ret r" "snd_good mi i type cnt mem s1 r"
    using snd_try_spec [OF mi rep1 bts1 s1(3) i1 al1 mem ty cnt u] by blast
  show ?thesis
  proof (cases r)
    case (SndDone u' st')
    then show ?thesis
      using r s1(1) conv by (auto simp: msg_run_state_def snd_good_def it)
  next
    case (SndWait c s2)
    have g: "msg_inv mi s2" "core_eq s1 s2" using r(2) by (simp_all add: SndWait snd_good_def)
    let ?s3 = "q_mode i (\<lambda>m. m OR MSG_WWAIT) (want_map c s2)"
    have c3: "core_eq s2 ?s3" using core_eq_trans [OF core_eq_want wait_bits(2)] .
    have "locks ?s3 = locks s2" using wait_bits(5) [of i "want_map c s2"] by simp
    then have ul3: "unlocked ?s3" using g(1) unlocked_locks unfolding msg_inv_def by blast
    note i3 = msg_inv_core [OF c3 g(1) ul3]
    have it2: "q_items mi s2 = q_items mi st" "q_items mi ?s3 = q_items mi st"
      using core_eq_items [OF g(2)] core_eq_items [OF c3] it by simp_all
    have run: "msgsnd_loop mi msqid i type cnt msgflg mem [] [] u st =
      Ret (if msgflg AND IPC_NOWAIT \<noteq> 0 then MsgDone MsgNone (set_error EAGAIN u) s2 else MsgSleeping c u ?s3)"
      using r(1) s1(1) conv SndWait by (simp add: Let_def)
    note e = core_eqD(3,12,13,14) [OF s1(2)]
    have w: "snd_full mi i cnt c st"
      using r(2) e by (simp add: SndWait snd_good_def snd_full_def)
    show ?thesis
    proof (cases "msgflg AND IPC_NOWAIT = 0")
      case True
      then show ?thesis unfolding run using i3 it2 w by (simp add: msg_run_state_def)
    next
      case False
      then show ?thesis unfolding run using g(1) it2 w by (auto simp: msg_run_state_def)
    qed
  qed
qed

section \<open>Removing a queue\<close>

lemma free_all_spec:
  assumes "mi_wf mi" and "msg_rep mi st F Q" and "i < length (msgque st)" and "length (Q i) \<le> n"
  shows "\<exists>st'. free_all n mi i st = Ret st' \<and> msg_rep mi st' (rev (Q i) @ F) (Q(i := [])) \<and>
    locks st' = locks st \<and> body_eq st st' \<and> cbytes st' = cbytes st"
  using assms
proof (induction "Q i" arbitrary: n st F Q)
  case Nil
  have Qi: "Q i = []" using Nil.hyps by simp
  have "msg_first (msgque st ! i) = None"
    using msg_repD_queue(1) [OF Nil.prems(2,3)] unfolding Qi by (simp add: queue_rep_def)
  moreover have "Q(i := []) = Q" using Qi by (simp add: fun_upd_idem)
  ultimately show ?case using Nil.prems(2) Qi by (cases n) (simp_all add: body_eq_def)
next
  case (Cons mp hs)
  have Qi: "Q i = [] @ mp # hs" using Cons.hyps(2) by simp
  obtain k where n: "n = Suc k" "length hs \<le> k" using Cons.prems(4) unfolding Qi by (cases n) auto
  have first: "msg_first (msgque st ! i) = Some mp"
    using msg_repD_queue(1) [OF Cons.prems(2,3)] unfolding Qi by (simp add: queue_rep_def)
  obtain s1 where s1: "msgfree mi i None mp st = Ret s1" "msg_rep mi s1 (mp # F) (Q(i := hs))" "locks s1 = locks st"
    "body_eq st s1" "cbytes s1 = cbytes st"
    using msgfree_rep [OF Cons.prems(1-3) Qi] by auto
  have i1: "i < length (msgque s1)" using s1(4) Cons.prems(3) by (simp add: body_eq_def)
  obtain s2 where s2: "free_all k mi i s1 = Ret s2" "msg_rep mi s2 (rev hs @ mp # F) (Q(i := []))" "locks s2 = locks s1"
    "body_eq s1 s2" "cbytes s2 = cbytes s1"
    using Cons.hyps(1) [of "Q(i := hs)" s1 "mp # F" k] Cons.prems(1) s1(2) i1 n(2) by auto
  have "free_all n mi i st = Ret s2" using first n s1(1) s2(1) by simp
  then show ?case
    using s2 s1 body_eq_trans unfolding Qi by auto
qed

text \<open>An empty queue's header gets new permissions.\<close>

lemma rep_perm:
  assumes rep: "msg_rep mi st F Q" and i: "i < length (msgque st)" and Q: "Q i = []"
    and p: "0 \<le> ip_seq p" "ip_seq p < 65536" "keys_unique ((map msg_perm (msgque st))[i := p])"
    and f: "msg_perm (f (msgque st ! i)) = p" "msg_first (f (msgque st ! i)) = None" "msg_last (f (msgque st ! i)) = None"
      "msg_qnum (f (msgque st ! i)) = 0" "0 \<le> msg_qbytes (f (msgque st ! i))" "msg_qbytes (f (msgque st ! i)) \<le> 65535"
  shows "msg_rep mi (upd_q i f st) F Q"
proof -
  let ?s = "upd_q i f st"
  have len: "length (msgque ?s) = length (msgque st)" "msgh ?s = msgh st" "msgmap ?s = msgmap st" "msgfp ?s = msgfp st"
    by (simp_all add: upd_q_def)
  have n: "nx ?s = nx st" by (simp add: nx_def [abs_def] len)
  have qj: "msgque ?s ! j = (if j = i then f (msgque st ! i) else msgque st ! j)" if "j < length (msgque st)" for j
    using that i by (simp add: upd_q_def nth_upd)
  have "queue_rep ?s (msgque ?s ! j) (Q j)" if "j < length (msgque st)" for j
    using msg_repD_queue(1) [OF rep that] qj [OF that] Q f n by (auto simp: queue_rep_def)
  moreover have "\<not> allocated (msg_perm (msgque ?s ! j)) \<longrightarrow> Q j = []" if "j < length (msgque st)" for j
    using msg_repD_queue(2) [OF rep that] qj [OF that] Q by simp
  moreover have "0 \<le> ip_seq (msg_perm (msgque ?s ! j)) \<and> ip_seq (msg_perm (msgque ?s ! j)) < 65536 \<and>
        0 \<le> msg_qbytes (msgque ?s ! j) \<and> msg_qbytes (msgque ?s ! j) \<le> 65535" if "j < length (msgque st)" for j
    using msg_repD_queue(5-8) [OF rep that] qj [OF that] p f by simp
  moreover have "keys_unique (map msg_perm (msgque ?s))" using p(3) f(1) by (simp add: upd_q_def map_update)
  ultimately show ?thesis
    using msg_repD [OF rep] msg_repD_queue(3,4,9) [OF rep] unfolding msg_rep_def len n by blast
qed

lemma bytes_ok_upd:
  assumes "bytes_ok st Q" and "Q i = []" and "msg_cbytes (f (msgque st ! i)) = 0"
  shows "bytes_ok (upd_q i f st) Q"
  unfolding bytes_ok_def
proof (intro allI impI)
  fix j assume "j < length (msgque (upd_q i f st))"
  then have j: "j < length (msgque st)" by (simp add: upd_q_def)
  have "msg_cbytes (msgque st ! j) = (\<Sum>h \<leftarrow> Q j. msg_ts (msgh st ! h))" "msg_cbytes (msgque st ! j) \<le> 65535"
    using assms(1) j unfolding bytes_ok_def by blast+
  then show "msg_cbytes (msgque (upd_q i f st) ! j) = (\<Sum>h \<leftarrow> Q j. msg_ts (msgh (upd_q i f st) ! h)) \<and>
    msg_cbytes (msgque (upd_q i f st) ! j) \<le> 65535"
    using assms(2,3) j by (cases "j = i") (simp_all add: upd_q_def nth_upd)
qed

lemma q_items_upd_q:
  assumes "msg_rep mi st F Q" and "msg_rep mi (upd_q i f st) F Q"
  shows "q_items mi (upd_q i f st) = q_items mi st"
proof (rule ext)
  fix j show "q_items mi (upd_q i f st) j = q_items mi st j"
    unfolding q_items_rep [OF assms(1)] q_items_rep [OF assms(2)]
    by (simp add: upd_q_def item_def pool_read_def cong: map_cong)
qed

lemma unlocked_mode0: "unlocked st \<Longrightarrow> unlocked (q_mode i (\<lambda>_. 0) st)"
  unfolding unlocked_def all_set_conv_all_nth
  by (auto simp: q_mode_def upd_q_def nth_upd is_locked_def is_wanted_def)

lemma msg_rmid_spec:
  assumes mi: "mi_wf mi" and rep: "msg_rep mi st F Q" and bts: "bytes_ok st Q" and h: "held i st"
    and i: "i < length (msgque st)" and ok: "owner_or_suser (msg_perm (msgque st ! i)) u = (True, u1)"
  shows "\<exists>st'. msg_rmid mi msgid i u st = Ret (u1, st') \<and> msg_inv mi st' \<and>
    msg_rep mi st' (rev (Q i) @ F) (Q(i := [])) \<and>
    q_items mi st' = (q_items mi st)(i := []) \<and> \<not> allocated (msg_perm (msgque st' ! i)) \<and>
    ip_seq (msg_perm (msgque st' ! i)) = (if to_s32 (msgid + msgmni mi) < 0 then 0
      else to_u16 (ip_seq (msg_perm (msgque st ! i)) + 1)) \<and>
    (\<forall>j. j \<noteq> i \<longrightarrow> allocated (msg_perm (msgque st' ! j)) = allocated (msg_perm (msgque st ! j)) \<and>
       ip_seq (msg_perm (msgque st' ! j)) = ip_seq (msg_perm (msgque st ! j)))"
proof -
  let ?Q = "Q(i := [])" and ?seq = "if to_s32 (msgid + msgmni mi) < 0 then 0 else to_u16 (ip_seq (msg_perm (msgque st ! i)) + 1)"
  obtain s1 where s1: "free_all (length (msgh st)) mi i st = Ret s1" "msg_rep mi s1 (rev (Q i) @ F) ?Q"
    "locks s1 = locks st" "body_eq st s1" "cbytes s1 = cbytes st"
    using free_all_spec [OF mi rep i shared_out_length(1) [OF msg_repD(3) [OF rep] i]] by blast
  have i1: "i < length (msgque s1)" using s1(4) i by (simp add: body_eq_def)
  define f2 where "f2 = (\<lambda>q. q\<lparr>msg_cbytes := 0, msg_perm := (msg_perm q)\<lparr>ip_seq :=
                        (if to_s32 (msgid + msgmni mi) < 0 then 0 else to_u16 (ip_seq (msg_perm q) + 1))\<rparr>\<rparr> :: msqid_ds)"
  define f0 where "f0 = (\<lambda>q. q\<lparr>msg_perm := (msg_perm q)\<lparr>ip_mode := 0\<rparr>\<rparr> :: msqid_ds)"
  define s2 where "s2 = upd_q i f2 s1"
  define s3 where "s3 = (if has_mode i MSG_RWAIT s2 then wake_msg [QnumCh i] s2 else s2)"
  define s4 where "s4 = (if has_mode i MSG_WWAIT s3 then wake_writers i s3 else s3)"
  let ?s5 = "q_mode i (\<lambda>_. 0) (q_unlock i s4)"
  have c5: "core_eq (upd_q i f0 s2) ?s5"
  proof -
    have "core_eq s2 s3" by (simp add: s3_def)
    also have "core_eq s3 s4" by (simp add: s4_def)
    also have "core_eq s4 (q_unlock i s4)" by simp
    finally have "core_eq s2 (q_unlock i s4)" .
    then show ?thesis
      unfolding q_mode_def f0_def by (rule core_eq_upd_q_cong) (simp add: q_core_def allocated_def)
  qed
  have e02: "upd_q i f0 s2 = upd_q i (f0 \<circ> f2) s1" using i1 by (simp add: upd_q_def s2_def)
  have q1: "msg_first (msgque s1 ! i) = None" "msg_last (msgque s1 ! i) = None" "msg_qnum (msgque s1 ! i) = 0"
    using msg_repD_queue(1) [OF s1(2) i1] by (simp_all add: queue_rep_def)
  have sq: "ip_seq (msg_perm (msgque s1 ! i)) = ip_seq (msg_perm (msgque st ! i))" using s1(4) by (simp add: body_eq_def)
  have "keys_unique ((map msg_perm (msgque s1))[i := msg_perm ((f0 \<circ> f2) (msgque s1 ! i))])"
    by (rule keys_unique_free [OF msg_repD(7) [OF s1(2)]]) (simp add: f0_def allocated_def)
  then have rep5: "msg_rep mi (upd_q i (f0 \<circ> f2) s1) (rev (Q i) @ F) ?Q"
    using s1(2) i1 q1 msg_repD_queue(7,8) [OF s1(2) i1]
    by (intro rep_perm [where p = "msg_perm ((f0 \<circ> f2) (msgque s1 ! i))"]) (simp_all add: f0_def f2_def)
  have tsum: "(\<Sum>h \<leftarrow> hs. msg_ts (msgh s1 ! h)) = (\<Sum>h \<leftarrow> hs. msg_ts (msgh st ! h))" for hs
    using s1(4) by (simp add: body_eq_def)
  have b5: "bytes_ok (upd_q i (f0 \<circ> f2) s1) ?Q"
    unfolding bytes_ok_def
  proof (intro allI impI)
    fix j assume "j < length (msgque (upd_q i (f0 \<circ> f2) s1))"
    then have j: "j < length (msgque st)" using s1(4) by (simp add: upd_q_def body_eq_def)
    have "cbytes s1 ! j = cbytes st ! j" using s1(5) by simp
    then have "msg_cbytes (msgque s1 ! j) = msg_cbytes (msgque st ! j)" using j s1(4) by (simp add: cbytes_def body_eq_def)
    moreover have "msg_cbytes (msgque st ! j) = (\<Sum>h \<leftarrow> Q j. msg_ts (msgh st ! h))" "msg_cbytes (msgque st ! j) \<le> 65535"
      using bts j unfolding bytes_ok_def by blast+
    ultimately show "msg_cbytes (msgque (upd_q i (f0 \<circ> f2) s1) ! j) =
        (\<Sum>h \<leftarrow> ?Q j. msg_ts (msgh (upd_q i (f0 \<circ> f2) s1) ! h)) \<and> msg_cbytes (msgque (upd_q i (f0 \<circ> f2) s1) ! j) \<le> 65535"
      using i1 tsum by (cases "j = i") (simp_all add: upd_q_def nth_upd f0_def f2_def)
  qed
  have l2: "locks s2 = locks s1" unfolding s2_def by (rule locks_upd_q) (simp_all add: f2_def is_locked_def is_wanted_def)
  have "held i s4" using held_locks [OF _ h] s1(3) l2 by (simp add: s4_def s3_def)
  then have ul: "unlocked ?s5" using unlocked_mode0 q_unlock_unlocked by blast
  have rep': "msg_rep mi ?s5 (rev (Q i) @ F) ?Q" using core_eq_rep [OF c5] rep5 e02 by simp
  then have inv: "msg_inv mi ?s5" using core_eq_bytes [OF c5] b5 e02 ul unfolding msg_inv_def by auto
  have "q_items mi ?s5 = q_items mi s1"
    using core_eq_items [OF c5] q_items_upd_q [OF s1(2) rep5] e02 by simp
  also have "\<dots> = (q_items mi st)(i := [])"
    using s1(4) unfolding q_items_rep [OF s1(2), abs_def] q_items_rep [OF rep, abs_def]
    by (auto simp: fun_eq_iff body_eq_def body_eq_item [OF s1(4)] cong: map_cong)
  finally have it: "q_items mi ?s5 = (q_items mi st)(i := [])" .
  have r: "msg_rmid mi msgid i u st = Ret (u1, ?s5)"
    unfolding msg_rmid_def ok s4_def s3_def s2_def f2_def by (simp add: s1(1) Let_def del: free_all.simps)
  have "\<not> allocated (msg_perm (msgque ?s5 ! i)) \<and> ip_seq (msg_perm (msgque ?s5 ! i)) = ?seq"
    using i1 unfolding core_eqD [OF c5] e02 by (simp add: upd_q_def f0_def f2_def allocated_def sq)
  moreover have "allocated (msg_perm (msgque ?s5 ! j)) = allocated (msg_perm (msgque st ! j)) \<and>
       ip_seq (msg_perm (msgque ?s5 ! j)) = ip_seq (msg_perm (msgque st ! j))" if "j \<noteq> i" for j
    using that s1(4) unfolding core_eqD [OF c5] e02 by (simp add: upd_q_def body_eq_def)
  ultimately show ?thesis using r inv rep' it by blast
qed

section \<open>The other calls\<close>

lemma rep_qbytes:
  assumes rep: "msg_rep mi st F Q" and v: "0 \<le> v" "v \<le> 65535"
  shows "msg_rep mi (upd_q i (\<lambda>q. q\<lparr>msg_qbytes := v\<rparr>) st) F Q"
proof -
  let ?s = "upd_q i (\<lambda>q. q\<lparr>msg_qbytes := v\<rparr>) st"
  have len: "length (msgque ?s) = length (msgque st)" "msgh ?s = msgh st" "msgmap ?s = msgmap st" "msgfp ?s = msgfp st"
    by (simp_all add: upd_q_def)
  have n: "nx ?s = nx st" by (simp add: nx_def [abs_def] len)
  have f: "msg_perm (msgque ?s ! j) = msg_perm (msgque st ! j)" "msg_first (msgque ?s ! j) = msg_first (msgque st ! j)"
    "msg_last (msgque ?s ! j) = msg_last (msgque st ! j)" "msg_qnum (msgque ?s ! j) = msg_qnum (msgque st ! j)"
    "msg_qbytes (msgque ?s ! j) = (if j = i \<and> i < length (msgque st) then v else msg_qbytes (msgque st ! j))" for j
    by (simp_all add: upd_q_def nth_upd)
  have "keys_unique (map msg_perm (msgque ?s))"
    using msg_repD(7) [OF rep] f(1) len(1) by (simp add: keys_unique_def)
  moreover have "0 \<le> msg_qbytes (msgque ?s ! j) \<and> msg_qbytes (msgque ?s ! j) \<le> 65535" if "j < length (msgque st)" for j
    using msg_repD_queue(7,8) [OF rep that] v f(5) by simp
  moreover have "queue_rep ?s (msgque ?s ! j) (Q j)" if "j < length (msgque st)" for j
    using msg_repD_queue(1) [OF rep that] f(2-4) [of j] n by (simp add: queue_rep_def)
  moreover note msg_repD [OF rep] msg_repD_queue(2-6) [OF rep] msg_repD_queue(9) [OF rep]
  ultimately show ?thesis by (intro msg_repI) (simp_all only: len n f(1), auto)
qed

lemma msg_set_spec:
  assumes rep: "msg_rep mi st F Q" and bts: "bytes_ok st Q" and h: "held i st" and mem: "quiet_msg mem"
  shows "msg_inv mi (snd (msg_set i mem u st)) \<and> q_items mi (snd (msg_set i mem u st)) = q_items mi st"
proof -
  have fin: "msg_inv mi (q_unlock i s) \<and> q_items mi (q_unlock i s) = q_items mi st"
    if s: "msg_rep mi s F Q" "bytes_ok s Q" "held i s" "q_items mi s = q_items mi st" for s
    using snd_wait(1) [OF s(1,2) core_eq_refl s(3)] core_eq_items [OF core_eq_unlock] s(4) by simp
  note f0 = fin [OF rep bts h refl]
  show ?thesis
  proof (cases "owner_or_suser (msg_perm (msgque st ! i)) u")
    case (Pair ok u1)
    obtain mo where mo: "in_mds mem st = (st, mo)" using quiet_msgD(1) [OF mem] by (cases "in_mds mem st") blast
    show ?thesis
    proof (cases "ok \<and> mo \<noteq> None")
      case False
      then show ?thesis using Pair mo f0 by (cases ok; cases mo) (simp_all add: msg_set_def)
    next
      case True
      then obtain uid gid mode qb where m: "mo = Some (uid, gid, mode, qb)" by auto
      have qb: "0 \<le> qb" "qb \<le> 65535" using quiet_msgD(6) [OF mem] mo m by auto
      obtain ok2 u2 where o2: "(if qb > msg_qbytes (msgque st ! i) then suser u1 else (True, u1)) = (ok2, u2)"
        by (cases "if qb > msg_qbytes (msgque st ! i) then suser u1 else (True, u1)") auto
      define s2 where "s2 = (if qb > msg_qbytes (msgque st ! i) \<and> has_mode i MSG_WWAIT st then wake_writers i st else st)"
      define g where "g = (\<lambda>q. q\<lparr>msg_perm := (msg_perm q)\<lparr>ip_uid := uid, ip_gid := gid,
          ip_mode := (ip_mode (msg_perm q) AND NOT 0x1FF) OR (mode AND 0x1FF)\<rparr>, msg_ctime := msg_time s2\<rparr> :: msqid_ds)"
      define s3 where "s3 = upd_q i (\<lambda>q. q\<lparr>msg_perm := (msg_perm q)\<lparr>ip_uid := uid, ip_gid := gid,
          ip_mode := (ip_mode (msg_perm q) AND NOT 0x1FF) OR (mode AND 0x1FF)\<rparr>, msg_qbytes := qb, msg_ctime := msg_time s2\<rparr>) s2"
      have r: "snd (msg_set i mem u st) = (if ok2 then q_unlock i s3 else q_unlock i st)"
        using True Pair mo m o2 by (simp add: msg_set_def Let_def s2_def s3_def split: prod.splits)
      have c2: "core_eq st s2" "locks s2 = locks st" by (simp_all add: s2_def)
      let ?s = "upd_q i (\<lambda>q. q\<lparr>msg_qbytes := qb\<rparr>) s2"
      have bitm: "bit ((m AND NOT 0x1FF) OR (mode AND 0x1FF)) k = bit m k" if "k \<in> {11, 14, 15}" for m :: "16 word" and k
        using that by (auto simp: bit_simps)
      have bitn: "bit ((m AND - 0x200) OR (mode AND 0x1FF)) k = bit m k" if "k \<in> {11, 14, 15}" for m :: "16 word" and k
        using bitm [OF that, of m] by simp
      have g: "core_eq ?s (upd_q i g ?s)"
        by (rule core_eq_upd_q) (simp add: g_def q_core_def mode_bits bitn)
      have gl: "locks (upd_q i g ?s) = locks ?s"
        by (rule locks_upd_q) (simp_all add: g_def mode_bits bitn)
      have gq: "q\<lparr>msg_perm := p, msg_qbytes := qb, msg_ctime := t\<rparr> = q\<lparr>msg_qbytes := qb, msg_perm := p, msg_ctime := t\<rparr>"
        for q :: msqid_ds and p t by simp
      have "upd_q i (g \<circ> (\<lambda>q. q\<lparr>msg_qbytes := qb\<rparr>)) s2 = upd_q i g ?s"
        by (cases "i < length (msgque s2)") (simp_all add: upd_q_def list_update_beyond not_less)
      then have s3: "s3 = upd_q i g ?s" unfolding s3_def gq by (simp add: g_def comp_def)
      have rep2: "msg_rep mi ?s F Q" by (rule rep_qbytes [OF core_eq_rep [OF c2(1) rep] qb])
      have bts2: "bytes_ok ?s Q"
      proof -
        have "bytes_ok s2 Q" using core_eq_bytes [OF c2(1)] bts by simp
        moreover have "cbytes ?s = cbytes s2" by (intro nth_equalityI) (simp_all add: cbytes_def upd_q_def nth_upd)
        moreover have "msgh ?s = msgh s2" by (simp add: upd_q_def)
        ultimately show ?thesis unfolding bytes_ok_iff by (simp only:)
      qed
      have l: "locks ?s = locks s2" by (rule locks_upd_q) simp_all
      have it: "q_items mi ?s = q_items mi st"
        using q_items_upd_q [OF core_eq_rep [OF c2(1) rep] rep2] core_eq_items [OF c2(1)] by simp
      have "msg_inv mi (q_unlock i s3) \<and> q_items mi (q_unlock i s3) = q_items mi st"
        unfolding s3
        by (rule fin [OF core_eq_rep [OF g rep2]])
          (use core_eq_bytes [OF g] bts2 held_locks [OF _ h] gl l c2(2) core_eq_items [OF g] it in simp_all)
      then show ?thesis using r f0 by simp
    qed
  qed
qed

lemma msg_stat_spec:
  assumes rep: "msg_rep mi st F Q" and bts: "bytes_ok st Q" and h: "held i st" and mem: "quiet_msg mem"
  shows "snd (snd (msg_stat old i mem u st)) = q_unlock i st"
proof -
  obtain b where "out_copy mem st = (st, b)" using quiet_msgD(4) [OF mem] by (cases "out_copy mem st") blast
  then show ?thesis by (simp add: msg_stat_def Let_def split: prod.splits bool.splits)
qed

text \<open>Every control call keeps the invariant, and only a removal changes contents.\<close>

lemma msgctl1_spec:
  assumes mi: "mi_wf mi" and inv: "msg_inv mi st" and mem: "quiet_msg mem"
  shows "\<exists>r. msgctl1 mi old msgid cmd mem [] u st = Ret r \<and> msg_inv mi (msg_run_state r) \<and>
    q_items mi (msg_run_state r) = (case fst (msgconv mi msgid u st) of None \<Rightarrow> q_items mi st
      | Some i \<Rightarrow> if cmd = IPC_RMID \<and> fst (owner_or_suser (msg_perm (msgque st ! i)) u) then (q_items mi st)(i := [])
          else q_items mi st)"
proof (cases "msgconv mi msgid u st")
  case (Pair io u1)
  show ?thesis
  proof (cases io)
    case None
    then show ?thesis using Pair inv by (simp add: msgctl1_def msg_run_state_def)
  next
    case (Some i)
    then have conv: "fst (msgconv mi msgid u st) = Some i" using Pair by simp
    have u1: "u1 = u" using Pair Some by (auto simp: msgconv_def Let_def split: if_splits)
    obtain F Q where rep: "msg_rep mi st F Q" and bts: "bytes_ok st Q" and ul: "unlocked st"
      using inv by (auto simp: msg_inv_def)
    note live = msgconv_live [OF mi rep conv]
    obtain s1 where s1: "q_lock i [] st = Locked s1 []" "core_eq st s1" "held i s1"
      "ip_uid (msg_perm (msgque s1 ! i)) = ip_uid (msg_perm (msgque st ! i))"
      "ip_cuid (msg_perm (msgque s1 ! i)) = ip_cuid (msg_perm (msgque st ! i))"
      using q_lock_free [OF ul live(1), of "[]"] by blast
    have it: "q_items mi s1 = q_items mi st" using core_eq_items [OF s1(2)] .
    have rep1: "msg_rep mi s1 F Q" and bts1: "bytes_ok s1 Q" and i1: "i < length (msgque s1)"
      using core_eq_rep [OF s1(2) rep] core_eq_bytes [OF s1(2)] bts core_eqD(2) [OF s1(2)] live(1) by simp_all
    let ?u = "u\<lparr>u_rval1 := 0\<rparr>" and ?own = "fst (owner_or_suser (msg_perm (msgque st ! i)) u)"
    have ow: "fst (owner_or_suser (msg_perm (msgque s1 ! i)) ?u) = ?own"
      using s1(4,5) by (auto simp: owner_or_suser_def suser_def)
    note ulk = snd_wait(1) [OF rep1 bts1 core_eq_refl s1(3)] core_eq_items [OF core_eq_unlock [of s1 i], of mi]
    have rm: "\<exists>u3 st2. msg_rmid mi msgid i ?u s1 = Ret (u3, st2) \<and> msg_inv mi st2 \<and>
      q_items mi st2 = (if ?own then (q_items mi st)(i := []) else q_items mi st)"
    proof (cases "owner_or_suser (msg_perm (msgque s1 ! i)) ?u")
      case o: (Pair ok u2)
      show ?thesis
      proof (cases ok)
        case True
        then have "owner_or_suser (msg_perm (msgque s1 ! i)) ?u = (True, u2)" using o by simp
        from msg_rmid_spec [OF mi rep1 bts1 s1(3) i1 this, of msgid] show ?thesis using ow o True it by auto
      next
        case False
        then show ?thesis using o ulk ow it by (simp add: msg_rmid_def)
      qed
    qed
    then obtain u3 s3 where rm': "msg_rmid mi msgid i ?u s1 = Ret (u3, s3)" "msg_inv mi s3"
      "q_items mi s3 = (if ?own then (q_items mi st)(i := []) else q_items mi st)" by blast
    have se: "msg_inv mi (snd (msg_set i mem ?u s1))" "q_items mi (snd (msg_set i mem ?u s1)) = q_items mi st"
      using msg_set_spec [OF rep1 bts1 s1(3) mem] it by simp_all
    have sta: "msg_inv mi (snd (snd (msg_stat old i mem ?u s1)))" "q_items mi (snd (snd (msg_stat old i mem ?u s1))) = q_items mi st"
      using msg_stat_spec [OF rep1 bts1 s1(3) mem] ulk it by simp_all
    have run: "msgctl1 mi old msgid cmd mem [] u st =
        (if cmd = IPC_RMID then Ret (MsgDone MsgNone u3 s3)
         else if cmd = IPC_SET then Ret (MsgDone MsgNone (fst (msg_set i mem ?u s1)) (snd (msg_set i mem ?u s1)))
         else if cmd = IPC_STAT then Ret (MsgDone (fst (msg_stat old i mem ?u s1)) (fst (snd (msg_stat old i mem ?u s1)))
           (snd (snd (msg_stat old i mem ?u s1))))
         else Ret (MsgDone MsgNone (set_error EINVAL ?u) (q_unlock i s1)))"
      using Pair Some u1 s1(1) rm'(1) by (simp add: msgctl1_def Let_def split: prod.splits)
    consider "cmd = IPC_RMID" | "cmd \<noteq> IPC_RMID" "cmd = IPC_SET" | "cmd \<noteq> IPC_RMID" "cmd \<noteq> IPC_SET" "cmd = IPC_STAT"
      | "cmd \<noteq> IPC_RMID" "cmd \<noteq> IPC_SET" "cmd \<noteq> IPC_STAT" by blast
    then show ?thesis
      by cases (use run rm'(2,3) se sta ulk it conv in \<open>simp_all add: msg_run_state_def\<close>)
  qed
qed

lemma put_mperms_nth:
  assumes "length ps = length (msgque st)" and "j < length (msgque st)"
  shows "msgque (put_mperms ps st) ! j = (msgque st ! j)\<lparr>msg_perm := ps ! j\<rparr>"
  using assms by (simp add: put_mperms_def)

lemma msgget_inv:
  assumes mi: "mi_wf mi" and inv: "msg_inv mi st"
  shows "msg_inv mi (snd (msgget mi key flg u st)) \<and> q_items mi (snd (msgget mi key flg u st)) = q_items mi st"
proof (cases "ipcgetperm key flg u (map msg_perm (msgque st))")
  case (Inl e)
  then show ?thesis using inv by (simp add: msgget_def)
next
  case (Inr x)
  then obtain i s ps where g: "ipcgetperm key flg u (map msg_perm (msgque st)) = Inr (i, s, ps)" by (cases x) auto
  obtain F Q where rep: "msg_rep mi st F Q" and bts: "bytes_ok st Q" and ul: "unlocked st"
    using inv by (auto simp: msg_inv_def)
  note res = ipcgetperm_result [OF msg_repD(7) [OF rep] g]
  have i: "i < length (msgque st)" and lps: "length ps = length (msgque st)" using res by auto
  show ?thesis
  proof (cases "s = 0")
    case True
    have "put_mperms (map msg_perm (msgque st)) st = st"
    proof -
      have "map2 (\<lambda>q p. q\<lparr>msg_perm := p\<rparr>) qs (map msg_perm qs) = qs" for qs :: "msqid_ds list"
        by (induction qs) simp_all
      then show ?thesis by (simp add: put_mperms_def)
    qed
    moreover have "ps = map msg_perm (msgque st)" using res True by auto
    ultimately show ?thesis using g True inv by (simp add: msgget_def Let_def)
  next
    case False
    then have un: "\<not> allocated (msg_perm (msgque st ! i))" and ps: "ps = (map msg_perm (msgque st))[i := ps ! i]"
      and md: "ip_mode (ps ! i) = IPC_ALLOC OR ucast (flg AND 0x1FF)" and sq: "ip_seq (ps ! i) = ip_seq (msg_perm (msgque st ! i))"
      and ku: "keys_unique ps"
      using res i by auto
    define f where "f = (\<lambda>q. q\<lparr>msg_perm := ps ! i, msg_first := None, msg_last := None, msg_qnum := 0,
        msg_qbytes := to_u16 (msgmnb mi), msg_lspid := 0, msg_lrpid := 0, msg_stime := 0, msg_rtime := 0,
        msg_ctime := msg_time st\<rparr> :: msqid_ds)"
    have psj: "ps ! j = msg_perm (msgque st ! j)" if "j < length (msgque st)" "j \<noteq> i" for j
      using that by (subst ps) (simp add: nth_list_update)
    have "put_mperms ps st = upd_q i (\<lambda>q. q\<lparr>msg_perm := ps ! i\<rparr>) st"
    proof -
      have "msgque (put_mperms ps st) = msgque (upd_q i (\<lambda>q. q\<lparr>msg_perm := ps ! i\<rparr>) st)"
      proof (rule nth_equalityI)
        fix j assume "j < length (msgque (put_mperms ps st))"
        then have j: "j < length (msgque st)" using lps by (simp add: put_mperms_def)
        then show "msgque (put_mperms ps st) ! j = msgque (upd_q i (\<lambda>q. q\<lparr>msg_perm := ps ! i\<rparr>) st) ! j"
          using put_mperms_nth [OF lps j] psj [OF j] by (cases "j = i") (simp_all add: upd_q_def nth_upd)
      qed (simp add: put_mperms_def upd_q_def lps)
      then show ?thesis by (simp add: put_mperms_def upd_q_def)
    qed
    then have r: "snd (msgget mi key flg u st) = upd_q i f st"
      using g False i by (simp add: msgget_def Let_def f_def upd_q_def)
    have Qi: "Q i = []" by (rule msg_repD_queue(2) [OF rep i un])
    have rep': "msg_rep mi (upd_q i f st) F Q"
    proof (rule rep_perm [OF rep i Qi])
      have "to_u16 (msgmnb mi) < 65536" by (rule to_u16_range(2))
      then have u: "to_u16 (msgmnb mi) \<le> 65535" by linarith
      show "0 \<le> ip_seq (ps ! i)" "ip_seq (ps ! i) < 65536" using msg_repD_queue(5,6) [OF rep i] sq by simp_all
      show "keys_unique ((map msg_perm (msgque st))[i := ps ! i])" using ku ps by simp
      show "msg_qbytes (f (msgque st ! i)) \<le> 65535" using u by (simp add: f_def)
    qed (simp_all add: f_def)
    have c0: "msg_cbytes (msgque st ! i) = 0"
    proof -
      have "msg_cbytes (msgque st ! i) = (\<Sum>h \<leftarrow> Q i. msg_ts (msgh st ! h))" using bts i unfolding bytes_ok_def by blast
      then show ?thesis by (simp add: Qi)
    qed
    have bts': "bytes_ok (upd_q i f st) Q" by (rule bytes_ok_upd [OF bts Qi]) (simp add: f_def c0)
    have "\<not> is_locked (ps ! i)" "\<not> is_wanted (ps ! i)" by (simp_all add: mode_bits md bit_simps)
    then have "unlocked (upd_q i f st)"
      using ul unfolding unlocked_def all_set_conv_all_nth by (simp add: upd_q_def nth_upd f_def)
    then show ?thesis using r rep' bts' q_items_upd_q [OF rep rep'] by (auto simp: msg_inv_def)
  qed
qed

end
