(* ===== verification/Msg_Reach.thy ===== *)
theory Msg_Reach
  imports Msg_Props
begin

text \<open>
  The message facility as a state machine: boot, the segments of its calls between
  sleeps, the invariant of every reachable state, the queues as an instance of \<open>fifo\<close>,
  and the properties of the facility.
\<close>

section \<open>Boot\<close>

text \<open>Zeroed arrays of the configured sizes; the map array has room for \<^verbatim>\<open>msginfo.msgmap\<close> entries.\<close>

definition msg_boot :: "msginfo \<Rightarrow> msgstate \<Rightarrow> bool" where
  "msg_boot mi st \<longleftrightarrow>
     length (msgque st) = nat (msgmni mi) \<and> length (msgh st) = nat (msgtql mi) \<and>
     (\<forall>q \<in> set (msgque st). ip_mode (msg_perm q) = 0 \<and> ip_seq (msg_perm q) = 0 \<and>
        msg_first q = None \<and> msg_last q = None \<and> msg_qnum q = 0 \<and> msg_qbytes q = 0 \<and> msg_cbytes q = 0) \<and>
     (\<forall>m \<in> set (msgh st). msg_next m = None) \<and>
     3 \<le> mi_msgmap mi \<and> mi_msgmap mi \<le> 32767 \<and>
     im_slots (msgmap st) = replicate (nat (mi_msgmap mi - 1)) zero_ent \<and> ipcmapwant (msgmap st) = 0"

text \<open>The limits of \<^verbatim>\<open>msginit\<close> on the configured values.\<close>

definition mi_conf :: "msginfo \<Rightarrow> bool" where
  "mi_conf mi \<longleftrightarrow> 0 < msgmni mi \<and> msgmni mi \<le> 32767 \<and> 0 < msgssz mi \<and> 0 < msgtql mi \<and> msgtql mi \<le> 65535 \<and>
     0 \<le> msgseg mi \<and> msgseg mi < 32768 \<and> 0 \<le> msgmax mi \<and> msgmax mi \<le> 2147483647 \<and>
     0 \<le> msgmnb mi \<and> msgmnb mi \<le> 2147483647"

lemma free_chain:
  assumes "length hs = m" and "\<forall>x \<in> set hs. msg_next x = None" and "i \<le> m"
  shows "linked (\<lambda>h. msg_next (map (\<lambda>k. if Suc k < m then (hs ! k)\<lparr>msg_next := Some (Suc k)\<rparr> else hs ! k) [0..<m] ! h))
    (if i < m then Some i else None) [i..<m]"
  using assms(3)
proof (induction "m - i" arbitrary: i)
  case (Suc d)
  then have i: "i < m" by simp
  then have "[i..<m] = i # [Suc i..<m]" by (rule upt_conv_Cons)
  moreover have "d = m - Suc i" "Suc i \<le> m" using Suc.hyps(2) i by simp_all
  note Suc.hyps(1) [OF this]
  ultimately show ?case using i assms(1,2) by (cases "Suc i < m") simp_all
qed simp

lemma msginit_inv:
  assumes c: "mi_conf mi" and b: "msg_boot mi st"
  shows "\<exists>mi' st'. msginit got mi st = Ret (mi', st') \<and> mi_wf mi' \<and> msg_inv mi' st' \<and> q_items mi' st' = (\<lambda>_. [])"
proof -
  define mi1 where "mi1 = (if to_u32 (msgmax mi) > 65535 then mi\<lparr>msgmax := 65535\<rparr> else mi)"
  define mi2 where "mi2 = (if to_u32 (msgmnb mi1) > 65535 then mi1\<lparr>msgmnb := 65535\<rparr> else mi1)"
  define mi3 where "mi3 = (if got then mi2 else mi2\<lparr>msgseg := 0\<rparr>)"
  have u: "to_u32 (msgmax mi) = msgmax mi" "to_u32 (msgmnb mi) = msgmnb mi"
    using c by (simp_all add: mi_conf_def to_u32_def)
  have e3: "mi_msgmap mi3 = mi_msgmap mi" "msgmni mi3 = msgmni mi" "msgtql mi3 = msgtql mi" "msgssz mi3 = msgssz mi"
    "msgseg mi3 = (if got then msgseg mi else 0)"
    "msgmax mi3 = min (msgmax mi) 65535" "msgmnb mi3 = min (msgmnb mi) 65535"
    using u by (simp_all add: mi3_def mi2_def mi1_def)
  have mi3: "mi_wf mi3" using c by (auto simp: mi_wf_def mi_conf_def e3)
  define m0 where "m0 = ipcmapinit (msgmap st) (mi_msgmap mi3)"
  have k: "3 \<le> mi_msgmap mi" "mi_msgmap mi \<le> 32767" using b by (simp_all add: msg_boot_def)
  then have "to_s16 (mi_msgmap mi - 2) = mi_msgmap mi - 2" by (intro to_s16_id) simp_all
  then have m0: "ipcmapsize m0 = int (nat (mi_msgmap mi - 2))" "im_slots m0 = replicate (Suc (nat (mi_msgmap mi - 2))) zero_ent"
    "ipcmapwant m0 = 0"
  proof -
    assume s: "to_s16 (mi_msgmap mi - 2) = mi_msgmap mi - 2"
    have n: "nat (mi_msgmap mi - 1) = Suc (nat (mi_msgmap mi - 2))" using k by arith
    show "ipcmapsize m0 = int (nat (mi_msgmap mi - 2))" "ipcmapwant m0 = 0"
      "im_slots m0 = replicate (Suc (nat (mi_msgmap mi - 2))) zero_ent"
      using b k s n by (simp_all add: m0_def e3 ipcmapinit_def msg_boot_def)
  qed
  have wf0: "imap_wf m0 \<and> imap_segs m0 = []"
    using m0 k by (intro imap_wfI [where k = "nat (mi_msgmap mi - 2)"]) simp_all
  define n where "n = nat (msgseg mi3)"
  have n: "1 + n < map_lim" "msgseg mi3 = int n" using mi3 unfolding n_def mi_wf_def by linarith+
  obtain mp where mp: "ipcmfree m0 (int n) 1 = Ret (mp, False)" "imap_wf mp" "units (imap_segs mp) = {1..<1 + n}"
  proof (cases "n = 0")
    case True
    then show ?thesis using that [of m0] wf0 m0(2,3) True
      by (simp add: ipcmfree_def zero_ent_def ipcmfree_wake_def)
  next
    case False
    have "ipcmapsize m0 \<noteq> 0" using m0 k by simp
    then show ?thesis using that ipcmfree_effect [of m0 n 1] wf0 n(1) m0(3) False by auto
  qed
  define st' where "st' = st\<lparr>msgmap := mp, msgfp := Some 0,
      msgh := map (\<lambda>k. if int (Suc k) < msgtql mi3 then (msgh st ! k)\<lparr>msg_next := Some (Suc k)\<rparr> else msgh st ! k)
        [0..<length (msgh st)]\<rparr>"
  have init: "msginit got mi st = Ret (mi3, st')"
    unfolding msginit_def Let_def mi1_def [symmetric] mi2_def [symmetric] mi3_def [symmetric] m0_def [symmetric] st'_def
    using mp(1) n(2) by simp
  have len: "length (msgh st) = nat (msgtql mi3)" "0 < nat (msgtql mi3)" "length (msgque st) = nat (msgmni mi3)"
    using b mi3 by (simp_all add: msg_boot_def e3 mi_wf_def)
  have qs: "ip_mode (msg_perm q) = 0" "ip_seq (msg_perm q) = 0" "msg_first q = None" "msg_last q = None"
    "msg_qnum q = 0" "msg_qbytes q = 0" "msg_cbytes q = 0" if "q \<in> set (msgque st)" for q
    using b that by (simp_all add: msg_boot_def)
  note qi = qs [OF nth_mem]
  have chain: "linked (nx st') (Some 0) [0..<nat (msgtql mi3)]"
  proof -
    have f: "(\<lambda>k. if int (Suc k) < msgtql mi3 then (msgh st ! k)\<lparr>msg_next := Some (Suc k)\<rparr> else msgh st ! k) =
        (\<lambda>k. if Suc k < nat (msgtql mi3) then (msgh st ! k)\<lparr>msg_next := Some (Suc k)\<rparr> else msgh st ! k)"
      by (rule ext) (simp add: zless_nat_eq_int_zless)
    have "msgh st' = map (\<lambda>k. if int (Suc k) < msgtql mi3 then (msgh st ! k)\<lparr>msg_next := Some (Suc k)\<rparr> else msgh st ! k)
        [0..<length (msgh st)]" by (simp only: st'_def) simp
    note hs = this [unfolded f len(1)]
    have "\<forall>x \<in> set (msgh st). msg_next x = None" using b by (simp add: msg_boot_def)
    from free_chain [OF len(1) this, of 0, folded hs] show ?thesis
      using len(2) by (simp add: nx_cong)
  qed
  have rep: "msg_rep mi3 st' [0..<nat (msgtql mi3)] (\<lambda>_. [])"
  proof (rule msg_repI)
    show "shared_out (length (msgque st')) (length (msgh st')) [0..<nat (msgtql mi3)] (\<lambda>_. [])"
      using len by (auto simp: shared_out_def st'_def)
    show "units (imap_segs (msgmap st')) \<subseteq> {1..nat (msgseg mi3)}"
      using mp(3) by (auto simp: st'_def n_def)
    show "keys_unique (map msg_perm (msgque st'))"
      using qi(1) by (simp add: keys_unique_def st'_def allocated_def)
  qed (use chain mp len qi in \<open>simp_all add: st'_def queue_rep_def\<close>)
  moreover have "bytes_ok st' (\<lambda>_. [])" using qi(7) by (simp add: bytes_ok_def st'_def)
  moreover have "unlocked st'" using qs(1) by (simp add: unlocked_def st'_def is_locked_def is_wanted_def)
  moreover have "q_items mi3 st' = (\<lambda>_. [])" using q_items_rep [OF rep] by (simp add: fun_eq_iff)
  ultimately show ?thesis using init mi3 by (auto simp: msg_inv_def)
qed

section \<open>Steps\<close>

text \<open>
  A step is a whole call, except that \<^verbatim>\<open>msgsnd\<close> and \<^verbatim>\<open>msgrcv\<close> are cut at their sleeps:
  from the check of the arguments, or from the end of a sleep, to the next sleep or the
  return. The two interrupt steps are what a signal makes a sleeping call do.
\<close>

definition snd_pre :: "msginfo \<Rightarrow> int \<Rightarrow> nat \<Rightarrow> int \<Rightarrow> int \<Rightarrow> msg_mem \<Rightarrow> uarea \<Rightarrow> msgstate \<Rightarrow> bool" where
  "snd_pre mi msqid i type cnt mem u st \<longleftrightarrow> fst (msgconv mi msqid u st) = Some i \<and> quiet_msg mem \<and>
     1 \<le> type \<and> 0 \<le> cnt \<and> cnt \<le> msgmax mi \<and> u_error u = E_OK"

definition rcv_pre :: "nat \<Rightarrow> int \<Rightarrow> int \<Rightarrow> msg_mem \<Rightarrow> msgstate \<Rightarrow> bool" where
  "rcv_pre i msgsz msgtyp mem st \<longleftrightarrow> i < length (msgque st) \<and> quiet_msg mem \<and> 0 \<le> msgsz \<and> -2147483648 < msgtyp"

inductive msg_step :: "msginfo \<Rightarrow> msgstate \<Rightarrow> msgstate \<Rightarrow> bool" for mi where
  mstep_get: "msgget mi key flg u st = (u', st') \<Longrightarrow> msg_step mi st st'"
| mstep_ctl: "msgctl1 mi old msgid cmd mem [] u st = Ret r \<Longrightarrow> quiet_msg mem \<Longrightarrow> msg_step mi st (msg_run_state r)"
| mstep_snd: "msgsnd_loop mi msqid i type cnt flg mem [] [] u st = Ret r \<Longrightarrow> snd_pre mi msqid i type cnt mem u st \<Longrightarrow>
    msg_step mi st (msg_run_state r)"
| mstep_rcv: "msgrcv_loop mi msqid i msgsz msgtyp flg mem [] [] u st = Ret r \<Longrightarrow> rcv_pre i msgsz msgtyp mem st \<Longrightarrow>
    msg_step mi st (msg_run_state r)"
| mstep_snd_intr: "msg_step mi st (wake_writers i st)"
| mstep_rcv_intr: "msg_step mi st (wake_msg [QnumCh i] (q_mode i (\<lambda>m. m AND NOT MSG_RWAIT) st))"
| mstep_clock: "msg_step mi st (st\<lparr>msg_time := t\<rparr>)"

inductive msg_reachable :: "msginfo \<Rightarrow> msgstate \<Rightarrow> bool" where
  msg_start: "mi_conf mi \<Longrightarrow> msg_boot mi st0 \<Longrightarrow> msginit got mi st0 = Ret (mi', st) \<Longrightarrow> msg_reachable mi' st"
| msg_more: "msg_reachable mi st \<Longrightarrow> msg_step mi st st' \<Longrightarrow> msg_reachable mi st'"

lemma core_eq_clock [simp]: "core_eq st (st\<lparr>msg_time := t\<rparr>)"
  by (simp add: core_eq_def)

lemma msg_step_inv: "msg_step mi st st' \<Longrightarrow> mi_wf mi \<Longrightarrow> msg_inv mi st \<Longrightarrow> msg_inv mi st'"
proof (induction rule: msg_step.induct)
  case (mstep_get key flg u st u' st')
  then show ?case using msgget_inv [OF mstep_get.prems, of key flg u] by simp
next
  case (mstep_ctl old msgid cmd mem u st r)
  then show ?case using msgctl1_spec [OF mstep_ctl.prems mstep_ctl.hyps(2), of old msgid cmd u] by simp
next
  case (mstep_snd msqid i type cnt flg mem u st r)
  have "fst (msgconv mi msqid u st) = Some i" "quiet_msg mem" "1 \<le> type" "0 \<le> cnt" "u_error u = E_OK"
    using mstep_snd.hyps(2) by (simp_all add: snd_pre_def)
  from msgsnd_segment [OF mstep_snd.prems this, of flg]
  obtain r' where "msgsnd_loop mi msqid i type cnt flg mem [] [] u st = Ret r'" "msg_inv mi (msg_run_state r')"
    by (elim exE conjE)
  then show ?case using mstep_snd.hyps(1) by (simp del: msgsnd_loop.simps)
next
  case (mstep_rcv msqid i msgsz msgtyp flg mem u st r)
  have "i < length (msgque st)" "quiet_msg mem" "0 \<le> msgsz" "-2147483648 < msgtyp"
    using mstep_rcv.hyps(2) by (simp_all add: rcv_pre_def)
  from msgrcv_segment [OF mstep_rcv.prems this, of msqid flg u]
  obtain r' where "msgrcv_loop mi msqid i msgsz msgtyp flg mem [] [] u st = Ret r'" "msg_inv mi (msg_run_state r')"
    by (elim exE conjE)
  then show ?case using mstep_rcv.hyps(1) by (simp del: msgrcv_loop.simps)
next
  case (mstep_snd_intr st i)
  have "unlocked st" using mstep_snd_intr.prems(2) by (simp add: msg_inv_def)
  moreover have "locks (wake_writers i st) = locks st" by simp
  ultimately show ?case using msg_inv_core [OF core_eq_writers mstep_snd_intr.prems(2)] unlocked_locks by blast
next
  case (mstep_rcv_intr st i)
  let ?st' = "wake_msg [QnumCh i] (q_mode i (\<lambda>m. m AND NOT MSG_RWAIT) st)"
  have "core_eq st ?st'" by (rule core_eq_trans [OF wait_bits(3) core_eq_wake])
  moreover have "locks ?st' = locks st" using wait_bits(6) [of i st] by simp
  moreover have "unlocked st" using mstep_rcv_intr.prems(2) by (simp add: msg_inv_def)
  ultimately have "unlocked ?st'" using unlocked_locks by blast
  with \<open>core_eq st ?st'\<close> show ?case by (rule msg_inv_core [OF _ mstep_rcv_intr.prems(2)])
next
  case (mstep_clock st t)
  then show ?case
    by (intro msg_inv_core [OF core_eq_clock mstep_clock.prems(2)]) (simp add: msg_inv_def unlocked_def)
qed

lemma msg_reachable_inv: "msg_reachable mi st \<Longrightarrow> mi_wf mi \<and> msg_inv mi st"
proof (induction rule: msg_reachable.induct)
  case (msg_start mi st0 got mi' st)
  then show ?case using msginit_inv [OF msg_start.hyps(1,2), of got] by auto
next
  case (msg_more mi st st')
  then show ?case using msg_step_inv by blast
qed

section \<open>An example system\<close>

definition ex_mi :: msginfo where
  "ex_mi = \<lparr>mi_msgmap = 4, msgmax = 20, msgmnb = 100, msgmni = 1, msgssz = 8, msgtql = 2, msgseg = 4\<rparr>"

definition ex_mperm0 :: ipc_perm where
  "ex_mperm0 = \<lparr>ip_uid = 0, ip_gid = 0, ip_cuid = 0, ip_cgid = 0, ip_mode = 0, ip_seq = 0, ip_key = 0\<rparr>"

definition ex_mperm :: ipc_perm where
  "ex_mperm = \<lparr>ip_uid = 8, ip_gid = 9, ip_cuid = 8, ip_cgid = 9, ip_mode = 0x8180, ip_seq = 0, ip_key = 77\<rparr>"

definition ex_msg0 :: msg where
  "ex_msg0 = \<lparr>msg_next = None, msg_type = 0, msg_ts = 0, msg_spot = 0\<rparr>"

definition ex_mboot :: msgstate where
  "ex_mboot = \<lparr>msgque = [\<lparr>msg_perm = ex_mperm0, msg_first = None, msg_last = None, msg_qnum = 0, msg_qbytes = 0,
       msg_lspid = 0, msg_lrpid = 0, msg_stime = 0, msg_rtime = 0, msg_ctime = 0, msg_cbytes = 0\<rparr>],
     msgh = [ex_msg0, ex_msg0], msgfp = None,
     msgmap = \<lparr>ipcmapsize = 0, ipcmapwant = 0, im_slots = [zero_ent, zero_ent, zero_ent], im_lost = []\<rparr>,
     msg_pool = (\<lambda>_. 0), msg_time = 100, msg_woken = []\<rparr>"

definition ex_mmap :: "nat \<Rightarrow> nat \<Rightarrow> ipcmap" where
  "ex_mmap a n = \<lparr>ipcmapsize = 1, ipcmapwant = 0,
     im_slots = [\<lparr>im_size = int n, im_addr = int a\<rparr>, zero_ent, zero_ent], im_lost = []\<rparr>"

definition ex_minit :: msgstate where
  "ex_minit = ex_mboot\<lparr>msgmap := ex_mmap 1 4, msgh := [ex_msg0\<lparr>msg_next := Some 1\<rparr>, ex_msg0], msgfp := Some 0\<rparr>"

text \<open>A queue was made, then three bytes of type 5 were sent.\<close>

definition ex_mget :: msgstate where
  "ex_mget = ex_minit\<lparr>msgque := [\<lparr>msg_perm = ex_mperm, msg_first = None, msg_last = None, msg_qnum = 0, msg_qbytes = 100,
       msg_lspid = 0, msg_lrpid = 0, msg_stime = 0, msg_rtime = 0, msg_ctime = 100, msg_cbytes = 0\<rparr>]\<rparr>"

definition ex_msent :: msgstate where
  "ex_msent = ex_minit\<lparr>msgque := [\<lparr>msg_perm = ex_mperm, msg_first = Some 0, msg_last = Some 0, msg_qnum = 1, msg_qbytes = 100,
       msg_lspid = 120, msg_lrpid = 0, msg_stime = 100, msg_rtime = 0, msg_ctime = 100, msg_cbytes = 3\<rparr>],
     msgh := [\<lparr>msg_next = None, msg_type = 5, msg_ts = 3, msg_spot = 0\<rparr>, ex_msg0], msgfp := Some 1,
     msgmap := ex_mmap 2 3, msg_pool := (\<lambda>k. if k < 3 then 7 else 0)\<rparr>"

definition ex_mem :: msg_mem where
  "ex_mem = \<lparr>in_mds = (\<lambda>s. (s, None)), in_type = (\<lambda>s. (s, Some 5)),
     in_text = (\<lambda>n s. (s, Some (replicate n 7))), out_copy = (\<lambda>s. (s, True)), out_text = (\<lambda>s. (s, True))\<rparr>"

lemma ex_mem_quiet: "quiet_msg ex_mem"
  by (auto simp: quiet_msg_def ex_mem_def)

lemma ex_mi_ok: "mi_conf ex_mi" "mi_wf ex_mi"
  by (simp_all add: mi_conf_def mi_wf_def ex_mi_def)

lemma ex_mboot_ok: "msg_boot ex_mi ex_mboot"
  by (simp add: msg_boot_def ex_mi_def ex_mboot_def ex_mperm0_def ex_msg0_def zero_ent_def numeral_eq_Suc)

lemma ex_mmap_eq: "ipcmfree (ipcmapinit (msgmap ex_mboot) 4) 4 1 = Ret (ex_mmap 1 4, False)"
  by (simp add: ex_mboot_def ex_mmap_def ipcmapinit_def ipcmfree_def ipcmfree_wake_def to_s16_def to_u16_def)

lemma ex_minit_eq: "msginit True ex_mi ex_mboot = Ret (ex_mi, ex_minit)"
proof -
  have m: "to_u32 (msgmax ex_mi) = 20" "to_u32 (msgmnb ex_mi) = 100" "mi_msgmap ex_mi = 4" "msgseg ex_mi = 4"
    "msgtql ex_mi = 2" by (simp_all add: ex_mi_def to_u32_def)
  moreover have "[0..<length (msgh ex_mboot)] = [0, 1]" by (simp add: ex_mboot_def upt_conv_Cons)
  ultimately show ?thesis using ex_mmap_eq
    by (simp add: msginit_def ex_minit_def) (simp add: ex_mboot_def)
qed

lemma ex_mget_eq: "msgget ex_mi 77 0x380 user_example ex_minit = (user_example, ex_mget)"
proof -
  have p: "ipcgetperm 77 0x380 user_example (map msg_perm (msgque ex_minit)) = Inr (0, 1, [ex_mperm])"
    by (simp add: ex_minit_def ex_mboot_def ex_mperm0_def ex_mperm_def ipcgetperm_def allocated_def
      ipc_init_def user_example_def)
  have v: "to_u16 (msgmnb ex_mi) = 100" "to_s32 0 = 0" by (simp_all add: ex_mi_def to_u16_def to_s32_def)
  show ?thesis
    unfolding msgget_def p sum.case prod.case Let_def
    by (simp add: put_mperms_def upd_q_def ex_mget_def v)
      (simp add: ex_minit_def ex_mboot_def ex_mperm_def user_example_def v)
qed

lemma ex_locked: "q_lock 0 [] (st\<lparr>msgque := [q\<lparr>msg_perm := ex_mperm\<rparr>]\<rparr>) =
    Locked (st\<lparr>msgque := [q\<lparr>msg_perm := ex_mperm\<lparr>ip_mode := 0xC180\<rparr>\<rparr>]\<rparr>) []"
  by (simp add: q_lock_def ipc_lock_def ipc_lock_try_def is_locked_def q_put_def upd_q_def ex_mperm_def)

lemma ex_unlocked: "q_unlock 0 (st\<lparr>msgque := [q\<lparr>msg_perm := ex_mperm\<lparr>ip_mode := 0xC180\<rparr>\<rparr>]\<rparr>) =
    st\<lparr>msgque := [q\<lparr>msg_perm := ex_mperm\<rparr>]\<rparr>"
  by (simp add: q_unlock_def ipc_unlock_def is_wanted_def q_put_def upd_q_def ex_mperm_def)

abbreviation ex_mlocked :: msgstate where
  "ex_mlocked \<equiv> ex_mget\<lparr>msgque := [(msgque ex_mget ! 0)\<lparr>msg_perm := ex_mperm\<lparr>ip_mode := 0xC180\<rparr>\<rparr>]\<rparr>"

lemma ex_snd_try: "snd_try ex_mi 0 5 3 ex_mem user_example ex_mlocked = Ret (SndDone user_example ex_msent)"
proof -
  have a: "ipcmalloc (ex_mmap 1 4) (btoq ex_mi 3) = Ret (1, ex_mmap 2 3)"
    by (simp add: ex_mmap_def ipcmalloc_def Let_def to_s16_def to_u16_def btoq_def ex_mi_def)
  have f: "msgfp ex_mlocked = Some 0" "msgmap ex_mlocked = ex_mmap 1 4" "msgssz ex_mi = 8"
    "\<not> msg_qbytes (msgque ex_mlocked ! 0) < 3 + msg_cbytes (msgque ex_mlocked ! 0)"
    by (simp_all add: ex_mget_def ex_minit_def ex_mi_def)
  define st1 where "st1 = ex_minit\<lparr>msgque := [(msgque ex_mget ! 0)\<lparr>msg_perm := ex_mperm\<lparr>ip_mode := 0xC180\<rparr>\<rparr>],
     msgh := [ex_msg0, ex_msg0], msgfp := Some 1, msgmap := ex_mmap 2 3, msg_pool := (\<lambda>k. if k < 3 then 7 else 0)\<rparr>"
  have post: "msg_post 0 0 5 3 0 (set_error E_OK user_example) st1 = (user_example, ex_msent)"
    by (simp add: msg_post_def Let_def msg_link_def upd_h_def upd_q_def has_mode_def q_unlock_def ipc_unlock_def
        is_wanted_def q_put_def st1_def ex_msent_def ex_mget_def ex_minit_def ex_mboot_def ex_mperm_def ex_msg0_def
        user_example_def to_u16_def)
  have um: "msgmap (upd_h h g s) = msgmap s" for h g s by (simp add: upd_h_def)
  have t: "in_text ex_mem n s = (s, Some (replicate n 7))" for n s by (simp add: ex_mem_def)
  have w: "pool_write 0 (replicate 3 7) (upd_h 0 (\<lambda>m. m\<lparr>msg_next := None\<rparr>)
      (ex_mlocked\<lparr>msgfp := msg_next (msgh ex_mlocked ! 0)\<rparr>)\<lparr>msgmap := ex_mmap 2 3\<rparr>) = st1"
    by (auto simp: pool_write_def upd_h_def st1_def ex_mget_def ex_minit_def ex_mboot_def ex_msg0_def fun_eq_iff)
  show ?thesis
    unfolding snd_try_def f Let_def option.case using a f post w um by (simp add: t)
qed

lemma ex_msnd_eq: "msgsnd_loop ex_mi 0 0 5 3 0 ex_mem [] [] user_example ex_mget =
    Ret (MsgDone MsgNone user_example ex_msent)"
proof -
  have c: "fst (msgconv ex_mi 0 user_example ex_mget) = Some 0"
    by (simp add: msgconv_def ex_mi_def ex_mget_def ex_mperm_def allocated_def)
  have l: "q_lock 0 [] ex_mget = Locked (ex_mget\<lparr>msgque := [(msgque ex_mget ! 0)\<lparr>msg_perm := ex_mperm\<lparr>ip_mode := 0xC180\<rparr>\<rparr>]\<rparr>) []"
    using ex_locked [where st = ex_mget and q = "msgque ex_mget ! 0"] by (simp add: ex_mget_def)
  show ?thesis
    by (simp add: c l ex_snd_try)
qed

lemma ex_snd_pre: "snd_pre ex_mi 0 0 5 3 ex_mem user_example ex_mget"
  by (simp add: snd_pre_def ex_mem_quiet msgconv_def allocated_def)
    (simp add: ex_mi_def ex_mget_def ex_mperm_def user_example_def)

lemma ex_mreach: "msg_reachable ex_mi ex_mget" "msg_reachable ex_mi ex_msent"
proof -
  have s: "msg_reachable ex_mi ex_minit" using msg_start [OF ex_mi_ok(1) ex_mboot_ok ex_minit_eq] .
  show g: "msg_reachable ex_mi ex_mget" using msg_more [OF s mstep_get [OF ex_mget_eq]] .
  show "msg_reachable ex_mi ex_msent"
    using msg_more [OF g mstep_snd [OF ex_msnd_eq ex_snd_pre]] by (simp add: msg_run_state_def)
qed

lemma ex_msg_inv: "msg_inv ex_mi ex_mget" "msg_inv ex_mi ex_msent"
  using ex_mreach msg_reachable_inv by blast+

lemma ex_hdrs: "q_hdrs ex_msent 0 = [0]"
proof -
  have "length (msgh ex_msent) = Suc (Suc 0)" "msg_first (msgque ex_msent ! 0) = Some 0" "nx ex_msent 0 = None"
    by (simp_all add: ex_msent_def nx_def)
  then show ?thesis by (simp add: q_hdrs_def)
qed

lemma ex_conv: "fst (msgconv ex_mi 0 u ex_msent) = Some 0"
  by (simp add: msgconv_def ex_mi_def ex_msent_def ex_mperm_def allocated_def)

section \<open>The queues are first in, first out\<close>

definition run_ok :: "msg_run \<Rightarrow> bool" where
  "run_ok r = (case r of MsgDone out u st \<Rightarrow> u_error u = E_OK | _ \<Rightarrow> False)"

text \<open>A send of \<open>x\<close> to queue \<open>i\<close>.\<close>

definition msg_sent :: "msginfo \<Rightarrow> nat \<Rightarrow> int \<times> int list \<Rightarrow> msgstate \<Rightarrow> msgstate \<Rightarrow> bool" where
  "msg_sent mi i x st st' \<longleftrightarrow> (\<exists>q flg mem u u'.
     snd_pre mi q i (fst x) (int (length (snd x))) mem u st \<and>
     (\<forall>s. in_text mem (length (snd x)) s = (s, Some (snd x))) \<and>
     msgsnd_loop mi q i (fst x) (int (length (snd x))) flg mem [] [] u st = Ret (MsgDone MsgNone u' st') \<and>
     u_error u' = E_OK)"

text \<open>
  What is seen of a message that leaves its queue: the receiver got the whole of it, or,
  under MSG_NOERROR, the beginning of its text, or it was discarded with the queue.
\<close>

datatype msg_log = Whole "int \<times> int list" | Cut "int \<times> int list" | Discarded "int \<times> int list"

fun logs :: "msg_log \<Rightarrow> int \<times> int list \<Rightarrow> bool" where
  "logs (Whole y) x \<longleftrightarrow> x = y"
| "logs (Cut y) x \<longleftrightarrow> fst x = fst y \<and> snd y = take (length (snd y)) (snd x)"
| "logs (Discarded y) x \<longleftrightarrow> x = y"

text \<open>A receive of type \<open>typ\<close> from queue \<open>i\<close>, and a removal of queue \<open>i\<close> by one who may.\<close>

definition msg_taken :: "msginfo \<Rightarrow> nat \<Rightarrow> int \<Rightarrow> msg_log \<Rightarrow> msgstate \<Rightarrow> msgstate \<Rightarrow> bool" where
  "msg_taken mi i typ w st st' \<longleftrightarrow> (\<exists>q msgsz flg mem u u' ty bs.
     rcv_pre i msgsz typ mem st \<and> w = (if flg AND MSG_NOERROR = 0 then Whole (ty, bs) else Cut (ty, bs)) \<and>
     msgrcv_loop mi q i msgsz typ flg mem [] [] u st = Ret (MsgDone (MsgGot ty bs) u' st') \<and>
     u_error u' = E_OK)"

definition rmid_done :: "msginfo \<Rightarrow> int \<Rightarrow> int \<Rightarrow> uarea \<Rightarrow> nat \<Rightarrow> msgstate \<Rightarrow> bool" where
  "rmid_done mi q cmd u i st \<longleftrightarrow> cmd = IPC_RMID \<and> fst (msgconv mi q u st) = Some i \<and>
     fst (owner_or_suser (msg_perm (msgque st ! i)) u)"

definition msg_removed :: "msginfo \<Rightarrow> nat \<Rightarrow> msgstate \<Rightarrow> msgstate \<Rightarrow> bool" where
  "msg_removed mi i st st' \<longleftrightarrow> (\<exists>old q cmd mem u r. msgctl1 mi old q cmd mem [] u st = Ret r \<and> quiet_msg mem \<and>
     rmid_done mi q cmd u i st \<and> st' = msg_run_state r)"

text \<open>
  Every other step: calls that fail, sleep or only make, find, read or set a queue, the end
  of a sleep by a signal, and the clock.
\<close>

inductive msg_idle :: "msginfo \<Rightarrow> msgstate \<Rightarrow> msgstate \<Rightarrow> bool" for mi where
  idle_get: "msgget mi key flg u st = (u', st') \<Longrightarrow> msg_idle mi st st'"
| idle_ctl: "msgctl1 mi old q cmd mem [] u st = Ret r \<Longrightarrow> quiet_msg mem \<Longrightarrow> (\<forall>i. \<not> rmid_done mi q cmd u i st) \<Longrightarrow>
    msg_idle mi st (msg_run_state r)"
| idle_snd: "msgsnd_loop mi msqid i type cnt flg mem [] [] u st = Ret r \<Longrightarrow> snd_pre mi msqid i type cnt mem u st \<Longrightarrow>
    \<not> run_ok r \<Longrightarrow> msg_idle mi st (msg_run_state r)"
| idle_rcv: "msgrcv_loop mi msqid i msgsz msgtyp flg mem [] [] u st = Ret r \<Longrightarrow> rcv_pre i msgsz msgtyp mem st \<Longrightarrow>
    \<not> run_ok r \<Longrightarrow> msg_idle mi st (msg_run_state r)"
| idle_snd_intr: "msg_idle mi st (wake_writers i st)"
| idle_rcv_intr: "msg_idle mi st (wake_msg [QnumCh i] (q_mode i (\<lambda>m. m AND NOT MSG_RWAIT) st))"
| idle_clock: "msg_idle mi st (st\<lparr>msg_time := t\<rparr>)"

lemma ex_Ret: "(\<exists>r. Ret x = Ret r \<and> P r) \<longleftrightarrow> P x"
  by simp

lemma msg_sent_spec:
  assumes "mi_wf mi" and "msg_inv mi st" and "msg_sent mi i x st st'"
  shows "msg_inv mi st' \<and> q_items mi st' = (q_items mi st)(i := q_items mi st i @ [x])"
proof -
  let ?n = "int (length (snd x))"
  obtain q flg mem u u' where s: "snd_pre mi q i (fst x) ?n mem u st"
    "\<forall>s. in_text mem (length (snd x)) s = (s, Some (snd x))"
    "msgsnd_loop mi q i (fst x) ?n flg mem [] [] u st = Ret (MsgDone MsgNone u' st')" "u_error u' = E_OK"
    using assms(3) unfolding msg_sent_def by blast
  have p: "fst (msgconv mi q u st) = Some i" "quiet_msg mem" "1 \<le> fst x" "0 \<le> ?n" "u_error u = E_OK"
    using s(1) by (simp_all add: snd_pre_def)
  from msgsnd_segment [OF assms(1,2) p, of flg]
  have inv: "msg_inv mi st'" and ex: "\<exists>bs. int (length bs) = ?n \<and> (?n \<noteq> 0 \<longrightarrow> (\<exists>s. in_text mem (nat ?n) s = (s, Some bs))) \<and>
      q_items mi st' = (q_items mi st)(i := q_items mi st i @ [(fst x, bs)])"
    unfolding s(3) using s(4) by (simp_all add: msg_run_state_def)
  obtain bs where bs: "int (length bs) = ?n" "?n \<noteq> 0 \<longrightarrow> (\<exists>s. in_text mem (nat ?n) s = (s, Some bs))"
    "q_items mi st' = (q_items mi st)(i := q_items mi st i @ [(fst x, bs)])"
    using ex by blast
  have "bs = snd x"
  proof (cases "snd x = []")
    case False
    then obtain t where "in_text mem (length (snd x)) t = (t, Some bs)" using bs(2) by auto
    moreover have "in_text mem (length (snd x)) t = (t, Some (snd x))" using s(2) by (rule spec)
    ultimately show ?thesis by simp
  qed (use bs(1) in simp)
  then show ?thesis using inv bs(3) by simp
qed

lemma msg_taken_spec:
  assumes "mi_wf mi" and "msg_inv mi st" and "msg_taken mi i typ w st st'"
  shows "msg_inv mi st' \<and> (\<exists>k. selects typ (map fst (q_items mi st i)) k \<and> logs w (q_items mi st i ! k) \<and>
    q_items mi st' = (q_items mi st)(i := take k (q_items mi st i) @ drop (Suc k) (q_items mi st i)))"
proof -
  obtain q msgsz flg mem u u' ty bs where s: "rcv_pre i msgsz typ mem st"
    "w = (if flg AND MSG_NOERROR = 0 then Whole (ty, bs) else Cut (ty, bs))"
    "msgrcv_loop mi q i msgsz typ flg mem [] [] u st = Ret (MsgDone (MsgGot ty bs) u' st')" "u_error u' = E_OK"
    using assms(3) unfolding msg_taken_def by blast
  have p: "i < length (msgque st)" "quiet_msg mem" "0 \<le> msgsz" "-2147483648 < typ"
    using s(1) by (simp_all add: rcv_pre_def)
  note seg = msgrcv_segment [OF assms(1,2) p, of q flg u, unfolded s(3) ex_Ret msg_run.case msg_run_state_def]
  have inv: "msg_inv mi st'" using seg by (rule conjunct1)
  note got = conjunct2 [OF seg, unfolded if_P [OF s(4)]]
  obtain k where k: "selects typ (map fst (q_items mi st i)) k"
    "MsgGot ty bs = MsgGot (fst (q_items mi st i ! k)) (take (nat msgsz) (snd (q_items mi st i ! k)))"
    "int (length (snd (q_items mi st i ! k))) > msgsz \<longrightarrow> flg AND MSG_NOERROR \<noteq> 0"
    "q_items mi st' = (q_items mi st)(i := take k (q_items mi st i) @ drop (Suc k) (q_items mi st i))"
    using got by (elim exE conjE)
  have "logs w (q_items mi st i ! k)"
  proof (cases "flg AND MSG_NOERROR = 0")
    case True
    then have "int (length (snd (q_items mi st i ! k))) \<le> msgsz" using k(3) by linarith
    then show ?thesis using k(2) True by (simp add: s(2) prod_eq_iff)
  next
    case False
    then show ?thesis using k(2) by (simp add: s(2) min_def)
  qed
  then show ?thesis using inv k(1,4) by blast
qed

lemma msg_removed_spec:
  assumes "mi_wf mi" and "msg_inv mi st" and "msg_removed mi i st st'"
  shows "msg_inv mi st' \<and> q_items mi st' = (q_items mi st)(i := [])"
proof -
  obtain old q cmd mem u r where m: "msgctl1 mi old q cmd mem [] u st = Ret r" "quiet_msg mem" "rmid_done mi q cmd u i st"
    "st' = msg_run_state r"
    using assms(3) unfolding msg_removed_def by blast
  then show ?thesis using msgctl1_spec [OF assms(1,2) m(2), of old q cmd u] by (simp add: rmid_done_def)
qed

lemma msg_idle_spec: "msg_idle mi st st' \<Longrightarrow> mi_wf mi \<Longrightarrow> msg_inv mi st \<Longrightarrow> msg_inv mi st' \<and> q_items mi st' = q_items mi st"
proof (induction rule: msg_idle.induct)
  case (idle_get key flg u st u' st')
  then show ?case using msgget_inv [OF idle_get.prems, of key flg u] by simp
next
  case (idle_ctl old q cmd mem u st r)
  then show ?case using msgctl1_spec [OF idle_ctl.prems idle_ctl.hyps(2), of old q cmd u]
    by (auto simp: rmid_done_def split: option.splits)
next
  case (idle_snd msqid i type cnt flg mem u st r)
  have p: "fst (msgconv mi msqid u st) = Some i" "quiet_msg mem" "1 \<le> type" "0 \<le> cnt" "u_error u = E_OK"
    using idle_snd.hyps(2) by (simp_all add: snd_pre_def)
  from msgsnd_segment [OF idle_snd.prems p, of flg] show ?case
    unfolding idle_snd.hyps(1) using idle_snd.hyps(3) by (cases r) (simp_all add: run_ok_def msg_run_state_def)
next
  case (idle_rcv msqid i msgsz msgtyp flg mem u st r)
  have p: "i < length (msgque st)" "quiet_msg mem" "0 \<le> msgsz" "-2147483648 < msgtyp"
    using idle_rcv.hyps(2) by (simp_all add: rcv_pre_def)
  from msgrcv_segment [OF idle_rcv.prems p, of msqid flg u] show ?case
    unfolding idle_rcv.hyps(1) using idle_rcv.hyps(3) by (cases r) (simp_all add: run_ok_def msg_run_state_def)
next
  case (idle_snd_intr st i)
  then show ?case using msg_step_inv [OF mstep_snd_intr] core_eq_items [OF core_eq_writers] by blast
next
  case (idle_rcv_intr st i)
  then show ?case using msg_step_inv [OF mstep_rcv_intr]
      core_eq_items [OF core_eq_trans [OF wait_bits(3) core_eq_wake]] by blast
next
  case (idle_clock st t)
  then show ?case using msg_step_inv [OF mstep_clock [where t = t]] core_eq_items [OF core_eq_clock] by blast
qed

text \<open>
  \<open>A i typ\<close>: receives of type \<open>typ\<close> from queue \<open>i\<close> happen. A queue that is only read with
  type 0 has messages of one kind, any other as many kinds as types.
\<close>

definition msg_kind :: "(nat \<Rightarrow> int \<Rightarrow> bool) \<Rightarrow> nat \<Rightarrow> int \<times> int list \<Rightarrow> int" where
  "msg_kind A i x = (if \<forall>t. A i t \<longrightarrow> t = 0 then 0 else fst x)"

definition msg_gone :: "msginfo \<Rightarrow> (nat \<Rightarrow> int \<Rightarrow> bool) \<Rightarrow> nat \<Rightarrow> (int \<times> int list) list \<Rightarrow> msgstate \<Rightarrow> msgstate \<Rightarrow> bool" where
  "msg_gone mi A i xs st st' \<longleftrightarrow>
     (\<exists>typ w k. A i typ \<and> msg_taken mi i typ w st st' \<and> selects typ (map fst (q_items mi st i)) k \<and>
        xs = [q_items mi st i ! k]) \<or>
     msg_removed mi i st st' \<and> xs = q_items mi st i"

lemma selects_not_earlier:
  assumes "selects typ ts k" and "j < k"
  shows "ts ! j \<noteq> ts ! k"
proof
  assume e: "ts ! j = ts ! k"
  have k: "k < length ts" "typ \<noteq> 0" using assms by (auto simp: selects_def)
  show False
  proof (cases "typ > 0")
    case False
    then have "ts ! j \<le> - typ" and "\<forall>j < length ts. ts ! j \<le> - typ \<longrightarrow> (if j < k then ts ! k < ts ! j else ts ! k \<le> ts ! j)"
      using assms(1) e k(2) by (simp_all add: selects_def)
    then show False using e assms(2) k(1) by (metis less_irrefl less_trans)
  qed (use assms e in \<open>simp add: selects_def\<close>)
qed

lemma selects_first_kind:
  assumes s: "selects typ (map fst xs) k" and A: "A i typ"
  shows "filter (\<lambda>x. msg_kind A i x = t) xs =
    filter (\<lambda>x. msg_kind A i x = t) ((xs ! k) # take k xs @ drop (Suc k) xs)"
proof -
  have k: "k < length xs" using selects_candidate [OF s] by simp
  have e: "filter (\<lambda>x. msg_kind A i x = t) xs = filter (\<lambda>x. msg_kind A i x = t) (take k xs @ xs ! k # drop (Suc k) xs)"
    by (rule arg_cong [OF id_take_nth_drop [OF k]])
  have "msg_kind A i x \<noteq> t" if x: "x \<in> set (take k xs)" and t: "msg_kind A i (xs ! k) = t" for x
  proof -
    obtain j where j: "j < k" "x = xs ! j" using x k by (auto simp: in_set_conv_nth)
    then have "typ \<noteq> 0" "fst x \<noteq> fst (xs ! k)" using s k selects_not_earlier [OF s j(1)] by (auto simp: selects_def)
    then have "\<not> (\<forall>t. A i t \<longrightarrow> t = 0)" using A by blast
    then show ?thesis using t \<open>fst x \<noteq> fst (xs ! k)\<close> unfolding msg_kind_def by argo
  qed
  then have f: "msg_kind A i (xs ! k) = t \<Longrightarrow> filter (\<lambda>x. msg_kind A i x = t) (take k xs) = []"
    by (auto simp: filter_empty_conv)
  show ?thesis unfolding e using f by (cases "msg_kind A i (xs ! k) = t") (simp_all only: filter_append filter.simps if_True if_False append_Nil simp_thms)
qed

lemma msg_gone_spec:
  assumes "mi_wf mi" and "msg_inv mi st" and "msg_gone mi A i xs st st'"
  shows "msg_inv mi st' \<and> (\<forall>j. j \<noteq> i \<longrightarrow> q_items mi st' j = q_items mi st j) \<and>
    filter (\<lambda>x. msg_kind A i x = t) (q_items mi st i) = filter (\<lambda>x. msg_kind A i x = t) (xs @ q_items mi st' i)"
  using assms(3) unfolding msg_gone_def
proof (elim disjE exE conjE)
  fix ty w k
  assume t: "A i ty" "msg_taken mi i ty w st st'" "selects ty (map fst (q_items mi st i)) k" "xs = [q_items mi st i ! k]"
  have "msg_inv mi st'" "q_items mi st' = (q_items mi st)(i := take k (q_items mi st i) @ drop (Suc k) (q_items mi st i))"
    using msg_taken_spec [OF assms(1,2) t(2)] selects_unique [OF _ t(3)] by blast+
  then show ?thesis using selects_first_kind [where A = A and i = i and t = t, OF t(3,1)] by (simp add: t(4))
next
  assume "msg_removed mi i st st'" "xs = q_items mi st i"
  then show ?thesis using msg_removed_spec [OF assms(1,2)] by simp
qed

interpretation mq: fifo "q_items mi" "msg_kind A" "\<lambda>i xs st st'. \<exists>x. xs = [x] \<and> msg_sent mi i x st st'"
  "msg_gone mi A" "msg_idle mi" "\<lambda>st. mi_wf mi \<and> msg_inv mi st" for mi A
proof unfold_locales
  fix st st' i xs j k
  assume ok: "mi_wf mi \<and> msg_inv mi st"
  show "mi_wf mi \<and> msg_inv mi st'" "q_items mi st' = (q_items mi st)(i := q_items mi st i @ xs)"
    if "\<exists>x. xs = [x] \<and> msg_sent mi i x st st'"
    using msg_sent_spec ok that by blast+
  show "mi_wf mi \<and> msg_inv mi st'" "j \<noteq> i \<Longrightarrow> q_items mi st' j = q_items mi st j"
    "filter (\<lambda>x. msg_kind A i x = k) (q_items mi st i) = filter (\<lambda>x. msg_kind A i x = k) (xs @ q_items mi st' i)"
    if "msg_gone mi A i xs st st'"
    using msg_gone_spec [OF _ _ that] ok by blast+
qed (use msg_idle_spec in blast)

text \<open>
  A sequence of sends, of receives of any type with or without MSG_NOERROR, of removals and
  of idle steps; what was sent, and what was seen of the messages that left their queues.
\<close>

inductive msg_traffic :: "msginfo \<Rightarrow> (nat \<Rightarrow> int \<Rightarrow> bool) \<Rightarrow> msgstate \<Rightarrow> (nat \<times> int \<times> int list) list \<Rightarrow>
    (nat \<times> msg_log) list \<Rightarrow> msgstate \<Rightarrow> bool" for mi A where
  traffic_start: "msg_traffic mi A st [] [] st"
| traffic_send: "msg_traffic mi A st ps ws st' \<Longrightarrow> msg_sent mi i x st' st'' \<Longrightarrow> msg_traffic mi A st (ps @ [(i, x)]) ws st''"
| traffic_receive: "msg_traffic mi A st ps ws st' \<Longrightarrow> A i typ \<Longrightarrow> msg_taken mi i typ w st' st'' \<Longrightarrow>
    msg_traffic mi A st ps (ws @ [(i, w)]) st''"
| traffic_remove: "msg_traffic mi A st ps ws st' \<Longrightarrow> msg_removed mi i st' st'' \<Longrightarrow>
    msg_traffic mi A st ps (ws @ map (\<lambda>x. (i, Discarded x)) (q_items mi st' i)) st''"
| traffic_idle: "msg_traffic mi A st ps ws st' \<Longrightarrow> msg_idle mi st' st'' \<Longrightarrow> msg_traffic mi A st ps ws st''"

abbreviation same_log :: "nat \<times> msg_log \<Rightarrow> nat \<times> int \<times> int list \<Rightarrow> bool" where
  "same_log w x \<equiv> fst w = fst x \<and> logs (snd w) (snd x)"

lemma traffic_run:
  "msg_traffic mi A st ps ws st' \<Longrightarrow> mi_wf mi \<Longrightarrow> msg_inv mi st \<Longrightarrow>
    \<exists>gs. list_all2 same_log ws gs \<and> mq.run mi A st ps gs st' \<and> msg_inv mi st'"
proof (induction rule: msg_traffic.induct)
  case (traffic_start st)
  then show ?case using mq.run_nil by auto
next
  case (traffic_send st ps ws st' i x st'')
  then obtain gs where IH: "list_all2 same_log ws gs" "mq.run mi A st ps gs st'" "msg_inv mi st'" by blast
  have "\<exists>y. [x] = [y] \<and> msg_sent mi i y st' st''" using traffic_send.hyps(2) by blast
  from mq.run_put [OF IH(2) this] show ?case
    using IH(1) msg_sent_spec [OF traffic_send.prems(1) IH(3) traffic_send.hyps(2)] by auto
next
  case (traffic_receive st ps ws st' i ty w st'')
  then obtain gs where IH: "list_all2 same_log ws gs" "mq.run mi A st ps gs st'" "msg_inv mi st'" by blast
  obtain k where k: "selects ty (map fst (q_items mi st' i)) k" "logs w (q_items mi st' i ! k)" "msg_inv mi st''"
    using msg_taken_spec [OF traffic_receive.prems(1) IH(3) traffic_receive.hyps(3)] by blast
  have "msg_gone mi A i [q_items mi st' i ! k] st' st''"
    unfolding msg_gone_def using traffic_receive.hyps(2,3) k(1) by blast
  from mq.run_get [OF IH(2) this] have "mq.run mi A st ps (gs @ [(i, q_items mi st' i ! k)]) st''" by simp
  moreover have "list_all2 same_log (ws @ [(i, w)]) (gs @ [(i, q_items mi st' i ! k)])"
    using IH(1) k(2) by (simp add: list_all2_appendI)
  ultimately show ?case using k(3) by blast
next
  case (traffic_remove st ps ws st' i st'')
  then obtain gs where IH: "list_all2 same_log ws gs" "mq.run mi A st ps gs st'" "msg_inv mi st'" by blast
  have "msg_gone mi A i (q_items mi st' i) st' st''" unfolding msg_gone_def using traffic_remove.hyps(2) by blast
  from mq.run_get [OF IH(2) this] have "mq.run mi A st ps (gs @ map (Pair i) (q_items mi st' i)) st''" .
  moreover have "list_all2 same_log (ws @ map (\<lambda>x. (i, Discarded x)) (q_items mi st' i)) (gs @ map (Pair i) (q_items mi st' i))"
    using IH(1) by (intro list_all2_appendI) (simp_all add: list_all2_map1 list_all2_map2 list_all2_same)
  ultimately show ?case using msg_removed_spec [OF traffic_remove.prems(1) IH(3) traffic_remove.hyps(2)] by blast
next
  case (traffic_idle st ps ws st' st'')
  then obtain gs where IH: "list_all2 same_log ws gs" "mq.run mi A st ps gs st'" "msg_inv mi st'" by blast
  show ?case using IH(1) mq.run_skip [OF IH(2) traffic_idle.hyps(2)]
      msg_idle_spec [OF traffic_idle.hyps(2) traffic_idle.prems(1) IH(3)] by blast
qed

lemma rep_free:
  assumes "msg_rep mi st F Q"
  shows "chain_from (length (msgh st)) (nx st) (msgfp st) = F"
proof -
  have so: "shared_out (length (msgque st)) (length (msgh st)) F Q" and l: "linked (nx st) (msgfp st) F"
    using assms unfolding msg_rep_def by blast+
  have "distinct F" "set F \<subseteq> {..<length (msgh st)}" using so by (auto simp: shared_out_def)
  then show ?thesis by (intro linked_chain_from [OF l] distinct_length_le)
qed

section \<open>The checks before the loops\<close>

lemma ipcaccess_result: "ipcaccess p m u = (b, v) \<Longrightarrow> if b then u_error v = EACCES else v = u"
  by (auto simp: ipcaccess_def Let_def split: if_splits)

lemma ipcaccess_indep: "fst (ipcaccess p m (set_error e u)) = fst (ipcaccess p m u)"
  by (simp add: ipcaccess_def Let_def)

lemma msgconv_result: "msgconv mi q u st = (io, v) \<Longrightarrow> if io = None then u_error v = EINVAL else v = u"
  by (auto simp: msgconv_def Let_def split: if_splits)

text \<open>Why a send is refused with error \<open>e\<close>.\<close>

definition snd_refused :: "msginfo \<Rightarrow> int \<Rightarrow> int \<Rightarrow> 32 word \<Rightarrow> msg_mem \<Rightarrow> uarea \<Rightarrow> msgstate \<Rightarrow> errno \<Rightarrow> bool" where
  "snd_refused mi msqid msgsz flg mem u st e \<longleftrightarrow>
     e = EFAULT \<and> (snd (in_type mem st) = None \<or> (\<exists>s. in_text mem (nat msgsz) s = (s, None))) \<or>
     e = EINVAL \<and> ((\<exists>type. snd (in_type mem st) = Some type \<and> type < 1) \<or> fst (msgconv mi msqid u st) = None \<or>
       msgsz < 0 \<or> msgsz > msgmax mi) \<or>
     e = EACCES \<and> (\<exists>i. fst (msgconv mi msqid u st) = Some i \<and> fst (ipcaccess (msg_perm (msgque st ! i)) MSG_W u)) \<or>
     e = EAGAIN \<and> flg AND IPC_NOWAIT \<noteq> 0 \<and>
       (\<exists>i c. fst (msgconv mi msqid u st) = Some i \<and> snd_full mi i msgsz c st)"

lemma msgsnd_cases:
  assumes it: "in_type mem st = (st1, ty)" "st1 = st"
    and bad: "\<And>v. msgsnd mi msqid msgsz flg mem ls es u st = Ret (MsgDone MsgNone v st1) \<Longrightarrow> u_error v \<noteq> E_OK \<Longrightarrow>
      snd_refused mi msqid msgsz flg mem u st1 (u_error v) \<Longrightarrow> P"
    and good: "\<And>type i. ty = Some type \<Longrightarrow> 1 \<le> type \<Longrightarrow> fst (msgconv mi msqid u st1) = Some i \<Longrightarrow> 0 \<le> msgsz \<Longrightarrow>
      msgsz \<le> msgmax mi \<Longrightarrow> msgsnd mi msqid msgsz flg mem ls es u st =
        msgsnd_loop mi msqid i type msgsz flg mem ls es (set_error E_OK u) st1 \<Longrightarrow> P"
  shows P
proof (cases ty)
  case None
  then show ?thesis using bad [of "set_error EFAULT u"] it by (simp add: msgsnd_def snd_refused_def)
next
  case (Some type)
  let ?u = "set_error E_OK u"
  obtain io v where c: "msgconv mi msqid ?u st1 = (io, v)" by (cases "msgconv mi msqid ?u st1")
  note cr = msgconv_result [OF c]
  have cv: "fst (msgconv mi msqid u st) = io" using msgconv_indep [of mi msqid u st1 ?u] c it(2) by simp
  have ty: "snd (in_type mem st) = Some type" using it Some by simp
  show ?thesis
  proof (cases "type < 1 \<or> io = None")
    case True
    let ?v = "if type < 1 then set_error EINVAL ?u else v"
    have "msgsnd mi msqid msgsz flg mem ls es u st = Ret (MsgDone MsgNone ?v st1)" "u_error ?v = EINVAL"
      using it Some c cr True by (auto simp: msgsnd_def Let_def)
    moreover have "snd_refused mi msqid msgsz flg mem u st1 EINVAL" using True cv ty it(2) by (auto simp: snd_refused_def)
    ultimately show ?thesis using bad by simp
  next
    case False
    then obtain i where i: "io = Some i" "1 \<le> type" by auto
    obtain b w where a: "ipcaccess (msg_perm (msgque st1 ! i)) MSG_W v = (b, w)"
      by (cases "ipcaccess (msg_perm (msgque st1 ! i)) MSG_W v")
    note ar = ipcaccess_result [OF a]
    have v: "v = ?u" using cr i by simp
    have au: "fst (ipcaccess (msg_perm (msgque st ! i)) MSG_W u) = b"
      using a it(2) ipcaccess_indep [of "msg_perm (msgque st ! i)" MSG_W E_OK u] by (simp add: v)
    have m: "msgsnd mi msqid msgsz flg mem ls es u st =
        (if b then Ret (MsgDone MsgNone w st1)
         else if msgsz < 0 \<or> msgsz > msgmax mi then Ret (MsgDone MsgNone (set_error EINVAL w) st1)
         else msgsnd_loop mi msqid i type msgsz flg mem ls es w st1)"
      using it Some c i a by (simp add: msgsnd_def Let_def del: msgsnd_loop.simps)
    show ?thesis
    proof (cases "b \<or> msgsz < 0 \<or> msgsz > msgmax mi")
      case True
      have "snd_refused mi msqid msgsz flg mem u st1 (if b then EACCES else EINVAL)"
        using True cv i(1) au it(2) by (auto simp: snd_refused_def)
      then show ?thesis using bad [of "if b then w else set_error EINVAL w"] m ar True
        by (auto simp del: msgsnd_loop.simps split: if_splits)
    next
      case False
      have "fst (msgconv mi msqid u st1) = Some i" using cv i it(2) by simp
      then show ?thesis using good [OF Some i(2)] m ar v False by (simp del: msgsnd_loop.simps)
    qed
  qed
qed

lemma msgrcv_cases:
  assumes bad: "\<And>v. msgrcv mi msqid msgsz msgtyp flg mem ls es u st = Ret (MsgDone MsgNone v st) \<Longrightarrow> u_error v \<noteq> E_OK \<Longrightarrow> P"
    and good: "\<And>i. fst (msgconv mi msqid u st) = Some i \<Longrightarrow> 0 \<le> msgsz \<Longrightarrow>
      msgrcv mi msqid msgsz msgtyp flg mem ls es u st = msgrcv_loop mi msqid i msgsz msgtyp flg mem ls es u st \<Longrightarrow> P"
  shows P
proof -
  obtain io v where c: "msgconv mi msqid u st = (io, v)" by (cases "msgconv mi msqid u st")
  note cr = msgconv_result [OF c]
  show ?thesis
  proof (cases io)
    case None
    then show ?thesis using bad [of v] c cr by (simp add: msgrcv_def)
  next
    case (Some i)
    obtain b w where a: "ipcaccess (msg_perm (msgque st ! i)) MSG_R v = (b, w)"
      by (cases "ipcaccess (msg_perm (msgque st ! i)) MSG_R v")
    note ar = ipcaccess_result [OF a]
    have v: "v = u" using cr Some by simp
    have m: "msgrcv mi msqid msgsz msgtyp flg mem ls es u st =
        (if b then Ret (MsgDone MsgNone w st) else if msgsz < 0 then Ret (MsgDone MsgNone (set_error EINVAL w) st)
         else msgrcv_loop mi msqid i msgsz msgtyp flg mem ls es w st)"
      using Some c a by (simp add: msgrcv_def del: msgrcv_loop.simps)
    show ?thesis
    proof (cases "b \<or> msgsz < 0")
      case True
      then show ?thesis using bad [of "if b then w else set_error EINVAL w"] m ar by (auto simp del: msgrcv_loop.simps)
    next
      case False
      then show ?thesis using good [of i] m ar v c Some by (simp del: msgrcv_loop.simps)
    qed
  qed
qed

section \<open>Properties\<close>

text \<open>
  C12. Messages are delivered in order. Take any sequence of sends, of receives of any
  type with or without MSG_NOERROR, of removals of queues, of other calls, of calls that
  fail or sleep, of interrupted sleeps and of clock ticks, in which the copies of user memory
  do not sleep. There is a list of whole messages that matches, one for one, what was seen of
  the messages that left the queues, such that for each queue and each type the messages that
  were on the queue followed by those sent to it are those that left it followed by those
  still on it, texts included; and on a queue that is read only with type 0 this is the
  order of all its messages together.
\<close>

theorem msg_fifo:
  assumes "mi_wf mi" and "msg_inv mi st" and "msg_traffic mi A st sent seen st'"
  shows "\<exists>gone. list_all2 (\<lambda>w x. fst w = fst x \<and> logs (snd w) (snd x)) seen gone \<and>
    (\<forall>i. (\<forall>t. filter (\<lambda>x. fst x = t) (q_items mi st i @ at_queue i sent) =
              filter (\<lambda>x. fst x = t) (at_queue i gone @ q_items mi st' i)) \<and>
       ((\<forall>t. A i t \<longrightarrow> t = 0) \<longrightarrow> q_items mi st i @ at_queue i sent = at_queue i gone @ q_items mi st' i))"
proof -
  obtain gs where gs: "list_all2 same_log seen gs" "mq.run mi A st sent gs st'"
    using traffic_run [OF assms(3,1,2)] by blast
  note f = mq.run_fifo [OF gs(2) conjI [OF assms(1,2)]]
  have "q_items mi st i @ at_queue i sent = at_queue i gs @ q_items mi st' i" if "\<forall>t. A i t \<longrightarrow> t = 0" for i
    using f [of i 0] that by (simp add: msg_kind_def)
  moreover have "filter (\<lambda>x. fst x = t) (q_items mi st i @ at_queue i sent) =
      filter (\<lambda>x. fst x = t) (at_queue i gs @ q_items mi st' i)" for i t
  proof (cases "\<forall>t. A i t \<longrightarrow> t = 0")
    case False
    then have "msg_kind A i = fst" by (auto simp: msg_kind_def fun_eq_iff)
    then show ?thesis using f [of i t] by simp
  qed (use calculation in simp)
  ultimately show ?thesis using gs(1) by blast
qed

text \<open>Three bytes of type 5 are sent, and received by one who asks for type 5.\<close>

definition got_of :: "msg_run outcome \<Rightarrow> (int \<times> int list) option" where
  "got_of r = (case r of Ret (MsgDone (MsgGot ty bs) u st) \<Rightarrow> if u_error u = E_OK then Some (ty, bs) else None | _ \<Rightarrow> None)"

lemma got_ofD:
  assumes "got_of r = Some x"
  obtains u' st' where "r = Ret (MsgDone (MsgGot (fst x) (snd x)) u' st')" and "u_error u' = E_OK"
  using assms by (auto simp: got_of_def split: outcome.splits msg_run.splits msg_out.splits if_splits)

lemma ex_mrcv: "got_of (msgrcv_loop ex_mi 0 0 10 5 0 ex_mem [] [] user_example ex_msent) = Some (5, [7, 7, 7])"
  by code_simp

theorem msg_fifo_witness:
  "\<exists>u' st'. msgrcv_loop ex_mi 0 0 10 5 0 ex_mem [] [] user_example ex_msent = Ret (MsgDone (MsgGot 5 [7, 7, 7]) u' st') \<and>
     filter (\<lambda>x. fst x = 5) (q_items ex_mi ex_mget 0) = filter (\<lambda>x. fst x = 5) (q_items ex_mi st' 0)"
proof -
  have l: "int (length (snd (5::int, [7, 7, 7::int]))) = 3" by simp
  have "in_text ex_mem (length (snd (5::int, [7, 7, 7::int]))) s = (s, Some (snd (5::int, [7, 7, 7])))" for s
    by (simp add: ex_mem_def numeral_eq_Suc)
  moreover have e: "u_error user_example = E_OK" by (simp add: user_example_def)
  ultimately have sent: "msg_sent ex_mi 0 (5, [7, 7, 7]) ex_mget ex_msent"
    unfolding msg_sent_def l fst_conv using ex_snd_pre ex_msnd_eq by blast
  obtain u' st' where g: "msgrcv_loop ex_mi 0 0 10 5 0 ex_mem [] [] user_example ex_msent = Ret (MsgDone (MsgGot 5 [7, 7, 7]) u' st')"
    "u_error u' = E_OK" using got_ofD [OF ex_mrcv] by auto
  have "length (msgque ex_msent) = 1" by (simp add: ex_msent_def)
  then have "rcv_pre 0 10 5 ex_mem ex_msent" by (simp add: rcv_pre_def ex_mem_quiet)
  then have "msg_taken ex_mi 0 5 (Whole (5, [7, 7, 7])) ex_msent st'" unfolding msg_taken_def using g by fastforce
  from traffic_receive [OF traffic_send [OF traffic_start sent], where A = "\<lambda>_ _. True", OF _ this]
  have "msg_traffic ex_mi (\<lambda>_ _. True) ex_mget [(0, (5, [7, 7, 7]))] [(0, Whole (5, [7, 7, 7]))] st'" by simp
  from msg_fifo [OF ex_mi_ok(2) ex_msg_inv(1) this]
  obtain gone where o: "list_all2 (\<lambda>w x. fst w = fst x \<and> logs (snd w) (snd x)) [(0, Whole (5, [7, 7, 7]))] gone"
    "\<And>t. filter (\<lambda>x. fst x = t) (q_items ex_mi ex_mget 0 @ at_queue 0 [(0, (5, [7, 7, 7]))]) =
       filter (\<lambda>x. fst x = t) (at_queue 0 gone @ q_items ex_mi st' 0)" by (elim exE conjE) blast
  have "gone = [(0, (5, [7, 7, 7]))]" using o(1) by (auto simp: list_all2_Cons1)
  then have "filter (\<lambda>x. fst x = 5) (q_items ex_mi ex_mget 0) @ [(5, [7, 7, 7])] =
      (5, [7, 7, 7]) # filter (\<lambda>x. fst x = 5) (q_items ex_mi st' 0)" using o(2) [of 5] by simp
  moreover have "q_items ex_mi ex_mget 0 = []"
    by (simp add: q_items_def q_hdrs_def ex_mget_def)
  ultimately show ?thesis using g(1) by auto
qed

text \<open>
  C13. In every state the message facility can reach by calls whose copies of user memory
  do not sleep, each message header is either free or on exactly one queue; each queue's
  count, last pointer and byte count describe its list; no text overlaps another text or a
  free segment; and an unused queue is empty. (The copy of \<^verbatim>\<open>msgsnd\<close> runs with a header
  and segments in hand that are neither free nor on a queue, so while one sleeps the first
  statement leaves that header out.)
\<close>

theorem msg_reachable_safe:
  assumes "msg_reachable mi st"
  defines "n \<equiv> length (msgque st)" and "F \<equiv> chain_from (length (msgh st)) (nx st) (msgfp st)"
  shows "distinct F \<and> {..<length (msgh st)} = set F \<union> (\<Union>i < n. set (q_hdrs st i)) \<and>
    (\<forall>i < n. \<forall>j < n. i \<noteq> j \<longrightarrow> set (q_hdrs st i) \<inter> set (q_hdrs st j) = {}) \<and>
    (\<forall>i < n. distinct (q_hdrs st i) \<and> set F \<inter> set (q_hdrs st i) = {} \<and>
       msg_qnum (msgque st ! i) = int (length (q_hdrs st i)) \<and>
       msg_last (msgque st ! i) = (if q_hdrs st i = [] then None else Some (last (q_hdrs st i))) \<and>
       msg_cbytes (msgque st ! i) = (\<Sum>h \<leftarrow> q_hdrs st i. msg_ts (msgh st ! h)) \<and>
       (\<not> allocated (msg_perm (msgque st ! i)) \<longrightarrow> q_hdrs st i = [])) \<and>
    (\<forall>i < n. \<forall>j < n. \<forall>h \<in> set (q_hdrs st i). \<forall>k \<in> set (q_hdrs st j).
       h \<noteq> k \<longrightarrow> text_units mi (msgh st ! h) \<inter> text_units mi (msgh st ! k) = {}) \<and>
    (\<forall>i < n. \<forall>h \<in> set (q_hdrs st i). text_units mi (msgh st ! h) \<subseteq> {1..nat (msgseg mi)} \<and>
       text_units mi (msgh st ! h) \<inter> units (imap_segs (msgmap st)) = {})"
proof -
  have mi: "mi_wf mi" and inv: "msg_inv mi st" using msg_reachable_inv [OF assms(1)] by blast+
  obtain F' Q where rep: "msg_rep mi st F' Q" and bts: "bytes_ok st Q" using inv by (auto simp: msg_inv_def)
  have Q: "q_hdrs st i = Q i" if "i < n" for i using rep_hdrs [OF rep] that by (simp add: n_def)
  have so: "shared_out n (length (msgh st)) F' Q" using rep unfolding msg_rep_def n_def by blast
  have F: "F = F'" unfolding F_def by (rule rep_free [OF rep])
  have b: "msg_cbytes (msgque st ! i) = (\<Sum>h \<leftarrow> Q i. msg_ts (msgh st ! h))" if "i < n" for i
    using bts that unfolding bytes_ok_def n_def by blast
  have ok: "hdr_ok mi (msgh st ! h)" "text_units mi (msgh st ! h) \<inter> units (imap_segs (msgmap st)) = {}"
    if "i < n" "h \<in> set (Q i)" for i h using rep that unfolding msg_rep_def n_def by blast+
  have dj: "text_units mi (msgh st ! h) \<inter> text_units mi (msgh st ! k) = {}"
    if "i < n" "j < n" "h \<in> set (Q i)" "k \<in> set (Q j)" "h \<noteq> k" for i j h k
    using rep that unfolding msg_rep_def n_def by blast
  have q: "queue_rep st (msgque st ! i) (Q i)" "\<not> allocated (msg_perm (msgque st ! i)) \<longrightarrow> Q i = []" if "i < n" for i
    using rep that unfolding msg_rep_def n_def by blast+
  have s: "distinct F'" "{..<length (msgh st)} = set F' \<union> (\<Union>i < n. set (q_hdrs st i))"
    "\<forall>i < n. \<forall>j < n. i \<noteq> j \<longrightarrow> set (q_hdrs st i) \<inter> set (q_hdrs st j) = {}"
    "\<forall>i < n. distinct (q_hdrs st i) \<and> set F' \<inter> set (q_hdrs st i) = {}"
    using so by (simp_all add: shared_out_def Q)
  show ?thesis unfolding F
    using s b ok dj q by (intro conjI allI impI ballI) (simp_all add: Q queue_rep_def hdr_ok_def)
qed

theorem msg_reachable_safe_witness:
  "q_hdrs ex_msent 0 = [0] \<and> {..<2} = set (chain_from 2 (nx ex_msent) (msgfp ex_msent)) \<union> {0::nat} \<and>
   text_units ex_mi (msgh ex_msent ! 0) = {1} \<and> msg_cbytes (msgque ex_msent ! 0) = 3"
proof -
  note conjunct1 [OF conjunct2 [OF msg_reachable_safe [OF ex_mreach(2)]]]
  moreover have "length (msgh ex_msent) = 2" "{..<length (msgque ex_msent)} = {0}"
    by (auto simp: ex_msent_def ex_minit_def)
  moreover have "text_units ex_mi (msgh ex_msent ! 0) = {1}" "msg_cbytes (msgque ex_msent ! 0) = 3"
    by (simp_all add: text_units_def btoq_def ex_mi_def ex_msent_def)
  ultimately show ?thesis using ex_hdrs by simp
qed

text \<open>
  C14. Let the copies of user memory not sleep. A call of \<^verbatim>\<open>msgsnd\<close> that succeeds appends
  exactly one message, of the type and the text copied in, to the queue its identifier names, and no longer than MSGMAX. A
  call that fails changes no queue, and fails only for a bad address, type, identifier or
  size, for want of write permission, or, under IPC_NOWAIT, for want of room. It sleeps only if
  IPC_NOWAIT is not given and only for want of room: on the queue's own channel if the text
  does not fit under the queue's byte limit, on the header channel if no header is free, on
  the map channel if the text is not empty and no free segment is long enough for it.
\<close>

theorem msgsnd_appends:
  assumes mi: "mi_wf mi" and inv: "msg_inv mi st" and mem: "quiet_msg mem"
  shows "\<exists>r. msgsnd mi msqid msgsz flg mem [] [] u st = Ret r \<and> msg_inv mi (msg_run_state r) \<and>
    (case r of
       MsgDone out u' st' \<Rightarrow>
         if u_error u' = E_OK then
           \<exists>i type bs. fst (msgconv mi msqid u st) = Some i \<and> in_type mem st = (st, Some type) \<and> 1 \<le> type \<and>
             int (length bs) = msgsz \<and> msgsz \<le> msgmax mi \<and>
             (msgsz \<noteq> 0 \<longrightarrow> (\<exists>s. in_text mem (nat msgsz) s = (s, Some bs))) \<and>
             q_items mi st' = (q_items mi st)(i := q_items mi st i @ [(type, bs)])
         else q_items mi st' = q_items mi st \<and> snd_refused mi msqid msgsz flg mem u st (u_error u')
     | MsgSleeping c u' st' \<Rightarrow> q_items mi st' = q_items mi st \<and> flg AND IPC_NOWAIT = 0 \<and>
         (\<exists>i. fst (msgconv mi msqid u st) = Some i \<and>
            (c = QueueCh i \<and> msgsz + msg_cbytes (msgque st ! i) > msg_qbytes (msgque st ! i) \<or>
             c = FreeCh \<and> msgfp st = None \<or>
             c = MapCh \<and> msgsz \<noteq> 0 \<and> (\<forall>(a, s) \<in> set (imap_segs (msgmap st)). int s < btoq mi msgsz)))
     | MsgBlocked u' st' \<Rightarrow> False)"
proof -
  obtain st1 ty where it: "in_type mem st = (st1, ty)" by (cases "in_type mem st")
  have st1: "st1 = st" using quiet_msgD(2) [OF mem it] .
  let ?u = "set_error E_OK u"
  show ?thesis (is "\<exists>r. ?call = _ \<and> _ \<and> ?good r")
  proof (rule msgsnd_cases [OF it st1, of mi msqid msgsz flg "[]" "[]" u])
    fix v assume "?call = Ret (MsgDone MsgNone v st1)" "u_error v \<noteq> E_OK"
      "snd_refused mi msqid msgsz flg mem u st1 (u_error v)"
    then show ?thesis using inv by (simp add: st1 msg_run_state_def)
  next
    fix type i assume t: "ty = Some type" "1 \<le> type" "fst (msgconv mi msqid u st1) = Some i" "0 \<le> msgsz" "msgsz \<le> msgmax mi"
      and r: "?call = msgsnd_loop mi msqid i type msgsz flg mem [] [] ?u st1"
    have c: "fst (msgconv mi msqid ?u st) = Some i" using t(3) msgconv_indep [of mi msqid ?u st u] by (simp add: st1)
    have e: "u_error ?u = E_OK" by simp
    from msgsnd_segment [OF mi inv c mem t(2,4) e, of flg]
    obtain r' where r': "msgsnd_loop mi msqid i type msgsz flg mem [] [] ?u st = Ret r'" "msg_inv mi (msg_run_state r')"
      and sp: "case r' of
       MsgDone out u' st' \<Rightarrow> out = MsgNone \<and>
         (if u_error u' = E_OK then u_rval1 u' = 0 \<and>
            (\<exists>bs. int (length bs) = msgsz \<and> (msgsz \<noteq> 0 \<longrightarrow> (\<exists>s. in_text mem (nat msgsz) s = (s, Some bs))) \<and>
               q_items mi st' = (q_items mi st)(i := q_items mi st i @ [(type, bs)]))
          else q_items mi st' = q_items mi st \<and>
            (u_error u' = EFAULT \<and> (\<exists>s. in_text mem (nat msgsz) s = (s, None)) \<or>
             u_error u' = EAGAIN \<and> flg AND IPC_NOWAIT \<noteq> 0 \<and> (\<exists>c. snd_full mi i msgsz c st)))
     | MsgSleeping c u' st' \<Rightarrow> u' = ?u \<and> q_items mi st' = q_items mi st \<and> flg AND IPC_NOWAIT = 0 \<and>
         snd_full mi i msgsz c st
     | MsgBlocked u' st' \<Rightarrow> False"
      by (elim exE conjE)
    have "?good r'"
    proof (cases r')
      case (MsgDone out u' st')
      then show ?thesis using sp t(1,2,3,5) by (cases "u_error u' = E_OK") (auto simp: it st1 snd_refused_def)
    next
      case (MsgSleeping c u' st')
      then show ?thesis using sp t(3) by (simp add: st1 snd_full_def)
    qed (use sp in simp)
    then show ?thesis using r r' by (simp del: msgsnd_loop.simps add: st1)
  qed
qed

lemma ex_msgsnd: "msgsnd ex_mi 0 3 0 ex_mem [] [] user_example ex_mget = Ret (MsgDone MsgNone user_example ex_msent)"
proof -
  have c: "msgconv ex_mi 0 user_example ex_mget = (Some 0, user_example)"
    by (simp add: msgconv_def ex_mi_def ex_mget_def ex_mperm_def allocated_def)
  have a: "ipcaccess (msg_perm (msgque ex_mget ! 0)) MSG_W user_example = (False, user_example)"
    by (simp add: ipcaccess_def ex_mget_def ex_mperm_def user_example_def)
  have "set_error E_OK user_example = user_example" "in_type ex_mem ex_mget = (ex_mget, Some 5)" "msgmax ex_mi = 20"
    by (simp_all add: user_example_def ex_mem_def ex_mi_def)
  then show ?thesis using c a ex_msnd_eq by (simp add: msgsnd_def Let_def del: msgsnd_loop.simps)
qed

theorem msgsnd_appends_witness:
  "msgsnd ex_mi 0 3 0 ex_mem [] [] user_example ex_mget = Ret (MsgDone MsgNone user_example ex_msent) \<and>
   (\<exists>bs. length bs = 3 \<and> q_items ex_mi ex_msent = (q_items ex_mi ex_mget)(0 := q_items ex_mi ex_mget 0 @ [(5, bs)]))"
proof -
  note sp = msgsnd_appends [OF ex_mi_ok(2) ex_msg_inv(1) ex_mem_quiet, of 0 3 0 user_example,
      unfolded ex_msgsnd ex_Ret msg_run.case]
  have e: "u_error user_example = E_OK" by (simp add: user_example_def)
  obtain i ty bs where r: "fst (msgconv ex_mi 0 user_example ex_mget) = Some i" "in_type ex_mem ex_mget = (ex_mget, Some ty)"
    "int (length bs) = 3" "q_items ex_mi ex_msent = (q_items ex_mi ex_mget)(i := q_items ex_mi ex_mget i @ [(ty, bs)])"
    using conjunct2 [OF sp, unfolded if_P [OF e]] by (elim exE conjE)
  have "i = 0" using r(1) by (auto simp: msgconv_def ex_mi_def Let_def split: if_splits)
  moreover have "ty = 5" using r(2) by (simp add: ex_mem_def)
  ultimately show ?thesis using r(3,4) ex_msgsnd by auto
qed

text \<open>
  C15. A call of \<^verbatim>\<open>msgrcv\<close> that succeeds delivers the message its type selects: the
  first for 0, the first of a positive type, the first of the lowest type not above the
  absolute value of a negative one. It delivers as much of the text as asked for, which is
  less than all only under MSG_NOERROR, and takes exactly that message off the queue. A
  failing call changes no queue, and one that sleeps found no message it could take.
\<close>

theorem msgrcv_takes:
  assumes mi: "mi_wf mi" and inv: "msg_inv mi st" and mem: "quiet_msg mem" and ty: "-2147483648 < msgtyp"
  shows "\<exists>r. msgrcv mi msqid msgsz msgtyp flg mem [] [] u st = Ret r \<and> msg_inv mi (msg_run_state r) \<and>
    (case r of
       MsgDone out u' st' \<Rightarrow>
         if u_error u' = E_OK then
           \<exists>i k. fst (msgconv mi msqid u st) = Some i \<and> selects msgtyp (map fst (q_items mi st i)) k \<and>
             out = MsgGot (fst (q_items mi st i ! k)) (take (nat msgsz) (snd (q_items mi st i ! k))) \<and>
             (int (length (snd (q_items mi st i ! k))) > msgsz \<longrightarrow> flg AND MSG_NOERROR \<noteq> 0) \<and>
             u_rval1 u' = min msgsz (int (length (snd (q_items mi st i ! k)))) \<and>
             q_items mi st' = (q_items mi st)(i := take k (q_items mi st i) @ drop (Suc k) (q_items mi st i))
         else out = MsgNone \<and> q_items mi st' = q_items mi st
     | MsgSleeping c u' st' \<Rightarrow> q_items mi st' = q_items mi st \<and> flg AND IPC_NOWAIT = 0 \<and>
         (\<exists>i. fst (msgconv mi msqid u st) = Some i \<and> c = QnumCh i \<and>
            (\<forall>x \<in> set (q_items mi st i). \<not> candidate msgtyp (fst x)))
     | MsgBlocked u' st' \<Rightarrow> False)" (is "\<exists>r. ?call = _ \<and> _ \<and> ?good r")
proof (rule msgrcv_cases [of mi msqid msgsz msgtyp flg mem "[]" "[]" u st])
  fix v assume "?call = Ret (MsgDone MsgNone v st)" "u_error v \<noteq> E_OK"
  then show ?thesis using inv by (simp add: msg_run_state_def)
next
  fix i assume c: "fst (msgconv mi msqid u st) = Some i" and sz: "0 \<le> msgsz"
    and r: "?call = msgrcv_loop mi msqid i msgsz msgtyp flg mem [] [] u st"
  obtain F Q where "msg_rep mi st F Q" using inv by (auto simp: msg_inv_def)
  then have i: "i < length (msgque st)" using msgconv_live(1) [OF mi _ c] by blast
  note seg = msgrcv_segment [OF mi inv i mem sz ty, of msqid flg u]
  then obtain r' where r': "msgrcv_loop mi msqid i msgsz msgtyp flg mem [] [] u st = Ret r'" by blast
  note sp = seg [unfolded r' ex_Ret]
  have "?good r'"
  proof (cases r')
    case (MsgDone out u' st')
    show ?thesis
    proof (cases "u_error u' = E_OK")
      case True
      show ?thesis using conjunct2 [OF sp [unfolded MsgDone msg_run.case], unfolded if_P [OF True]] c
        unfolding MsgDone msg_run.case if_P [OF True] by (elim exE conjE) (rule exI, rule exI, intro conjI)
    next
      case False
      show ?thesis using sp [unfolded MsgDone msg_run.case] unfolding MsgDone msg_run.case if_not_P [OF False] by blast
    qed
  next
    case (MsgSleeping ch u' st')
    show ?thesis using sp [unfolded MsgSleeping msg_run.case] c unfolding MsgSleeping msg_run.case by blast
  qed (use sp in simp)
  then show ?thesis using r r' sp by (simp del: msgrcv_loop.simps)
qed

theorem msgrcv_takes_witness:
  "\<exists>r. msgrcv ex_mi 0 10 0 0 ex_mem [] [] user_example ex_msent = Ret r \<and> msg_inv ex_mi (msg_run_state r) \<and>
     (\<forall>c u' s. r \<noteq> MsgSleeping c u' s)"
proof -
  have "(-2147483648::int) < 0" by simp
  from msgrcv_takes [OF ex_mi_ok(2) ex_msg_inv(2) ex_mem_quiet this, of 0 10 0 user_example]
  obtain r where r: "msgrcv ex_mi 0 10 0 0 ex_mem [] [] user_example ex_msent = Ret r" "msg_inv ex_mi (msg_run_state r)"
    and sp: "\<And>c u' s. r = MsgSleeping c u' s \<Longrightarrow>
       \<exists>i. fst (msgconv ex_mi 0 user_example ex_msent) = Some i \<and> (\<forall>x \<in> set (q_items ex_mi ex_msent i). \<not> candidate 0 (fst x))"
    by (elim exE conjE) fastforce
  have "item ex_mi ex_msent 0 \<in> set (q_items ex_mi ex_msent 0)"
    by (simp add: q_items_def ex_hdrs) (simp add: ex_msent_def)
  then obtain x where "x \<in> set (q_items ex_mi ex_msent 0)" by blast
  moreover have "candidate 0 (fst x)" for x :: "int \<times> int list" by (simp add: candidate_def)
  ultimately have "r \<noteq> MsgSleeping c u' s" for c u' s using sp [of c u' s] unfolding ex_conv by blast
  then show ?thesis using r by blast
qed

text \<open>
  IPC_RMID by the owner, the creator or the super-user empties exactly the named
  queue, gives all its headers back to the free list, and makes the identifier unknown;
  every other identifier keeps its meaning.
\<close>

theorem msg_rmid_frees:
  assumes mi: "mi_wf mi" and inv: "msg_inv mi st" and mem: "quiet_msg mem"
    and conv: "fst (msgconv mi msgid u st) = Some i" and own: "fst (owner_or_suser (msg_perm (msgque st ! i)) u)"
  shows "\<exists>u' st'. msgctl1 mi old msgid IPC_RMID mem [] u st = Ret (MsgDone MsgNone u' st') \<and> msg_inv mi st' \<and>
    q_items mi st' = (q_items mi st)(i := []) \<and>
    chain_from (length (msgh st')) (nx st') (msgfp st') =
      rev (q_hdrs st i) @ chain_from (length (msgh st)) (nx st) (msgfp st) \<and>
    fst (msgconv mi msgid v st') = None \<and>
    (\<forall>q j. j \<noteq> i \<longrightarrow> fst (msgconv mi q v st) = Some j \<longrightarrow> fst (msgconv mi q v st') = Some j)"
proof -
  obtain F Q where rep: "msg_rep mi st F Q" and bts: "bytes_ok st Q" and ul: "unlocked st"
    using inv by (auto simp: msg_inv_def)
  note live = msgconv_live [OF mi rep conv]
  obtain s1 where s1: "q_lock i [] st = Locked s1 []" "core_eq st s1" "held i s1"
    "ip_uid (msg_perm (msgque s1 ! i)) = ip_uid (msg_perm (msgque st ! i))"
    "ip_cuid (msg_perm (msgque s1 ! i)) = ip_cuid (msg_perm (msgque st ! i))"
    using q_lock_free [OF ul live(1), of "[]"] by blast
  have rep1: "msg_rep mi s1 F Q" and bts1: "bytes_ok s1 Q" and i1: "i < length (msgque s1)"
    using core_eq_rep [OF s1(2) rep] core_eq_bytes [OF s1(2)] bts core_eqD(2) [OF s1(2)] live(1) by simp_all
  let ?u = "u\<lparr>u_rval1 := 0\<rparr>"
  obtain u1 where o: "owner_or_suser (msg_perm (msgque s1 ! i)) ?u = (True, u1)"
    using own s1(4,5) by (auto simp: owner_or_suser_def suser_def split: if_splits)
  obtain st' where st': "msg_rmid mi msgid i ?u s1 = Ret (u1, st')" "msg_inv mi st'" "msg_rep mi st' (rev (Q i) @ F) (Q(i := []))"
    "q_items mi st' = (q_items mi s1)(i := [])" "\<not> allocated (msg_perm (msgque st' ! i))"
    "\<And>j. j \<noteq> i \<Longrightarrow> allocated (msg_perm (msgque st' ! j)) = allocated (msg_perm (msgque s1 ! j)) \<and>
       ip_seq (msg_perm (msgque st' ! j)) = ip_seq (msg_perm (msgque s1 ! j))"
    using msg_rmid_spec [OF mi rep1 bts1 s1(3) i1 o, of msgid] by blast
  have "msgconv mi msgid u st = (Some i, u)" using conv msgconv_result [of mi msgid u st] by (cases "msgconv mi msgid u st") auto
  then have "msgctl1 mi old msgid IPC_RMID mem [] u st = Ret (MsgDone MsgNone u1 st')"
    using s1(1) st'(1) by (simp add: msgctl1_def Let_def)
  moreover have "fst (msgconv mi msgid v st') = None"
    using msgid.conv_stale [OF conv] st'(5) msgconv_indep [of mi msgid v st' u] by simp
  moreover have "fst (msgconv mi q v st') = Some j" if "j \<noteq> i" "fst (msgconv mi q v st) = Some j" for q j
  proof -
    have e: "allocated (msg_perm (msgque st' ! j)) = allocated (msg_perm (msgque st ! j))"
        "ip_seq (msg_perm (msgque st' ! j)) = ip_seq (msg_perm (msgque st ! j))"
      using st'(6) [OF that(1)] core_eqD(6,7) [OF s1(2)] by simp_all
    have "allocated (msg_perm (msgque st ! j))" using msgconv_live(2) [OF mi rep that(2)] .
    then show ?thesis using that(2) e by (intro msgid.conv_same [OF that(2)]) simp_all
  qed
  moreover have "q_items mi st' = (q_items mi st)(i := [])" using st'(4) core_eq_items [OF s1(2)] by simp
  moreover have "chain_from (length (msgh st')) (nx st') (msgfp st') =
      rev (q_hdrs st i) @ chain_from (length (msgh st)) (nx st) (msgfp st)"
    unfolding rep_free [OF rep] rep_free [OF st'(3)] rep_hdrs [OF rep live(1)] ..
  ultimately show ?thesis using st'(2) by (intro exI conjI allI impI) assumption+
qed

theorem msg_rmid_frees_witness:
  "\<exists>u' st'. msgctl1 ex_mi False 0 IPC_RMID ex_mem [] user_example ex_msent = Ret (MsgDone MsgNone u' st') \<and>
     q_items ex_mi st' 0 = [] \<and> fst (msgconv ex_mi 0 user_example st') = None"
proof -
  have o: "fst (owner_or_suser (msg_perm (msgque ex_msent ! 0)) user_example)"
    by (simp add: owner_or_suser_def ex_msent_def ex_mperm_def user_example_def)
  from msg_rmid_frees [OF ex_mi_ok(2) ex_msg_inv(2) ex_mem_quiet ex_conv o, of False user_example]
  show ?thesis by (elim exE conjE) simp
qed

end
