(* ===== verification/Callout.thy ===== *)
theory Callout
  imports Ptr_List
begin

text \<open>
  The callout table, \<^verbatim>\<open>sys/kern_clock.c\<close>: the list of pending timeouts, each entry's
  time relative to the entry before it, the list of free entries and the list of smart
  polls, all threaded through one array. A pointer into the table is an index; \<open>None\<close> as
  a predecessor stands for the header \<^verbatim>\<open>&calltodo\<close>.

  Times are C ints, written on the integers: no entry is more than 0x7fffffff ticks away,
  and an overdue entry counts ticks downwards until \<^verbatim>\<open>softclock\<close> runs it, so as long as
  \<^verbatim>\<open>softclock\<close> catches up once in 0x80000000 ticks every time is an int (theorem
  \<open>callout_times_fit\<close>) and no sum wraps.
\<close>

section \<open>Data\<close>

text \<open>The timer routine of \<^verbatim>\<open>kern_time.c\<close> is named, every other function is a number.\<close>

datatype cfunc = Realitexpire | Fn nat

record callout =
  c_time :: int
  c_arg :: nat
  c_func :: cfunc
  c_next :: "nat option"

record costate =
  co_tab :: "callout list"
  callfree :: "nat option"
  calltodo :: "nat option"    \<comment> \<open>\<^verbatim>\<open>calltodo.c_next\<close>\<close>
  smart_poll :: "nat option"

definition upd_co :: "nat \<Rightarrow> (callout \<Rightarrow> callout) \<Rightarrow> costate \<Rightarrow> costate" where
  "upd_co i f st = st\<lparr>co_tab := (co_tab st)[i := f (co_tab st ! i)]\<rparr>"

fun next_of :: "costate \<Rightarrow> nat option \<Rightarrow> nat option" where
  "next_of st None = calltodo st"
| "next_of st (Some p) = c_next (co_tab st ! p)"

fun set_next :: "nat option \<Rightarrow> nat option \<Rightarrow> costate \<Rightarrow> costate" where
  "set_next None n st = st\<lparr>calltodo := n\<rparr>"
| "set_next (Some p) n st = upd_co p (\<lambda>c. c\<lparr>c_next := n\<rparr>) st"

text \<open>The boot code threads the whole table onto the free list.\<close>

definition callout_init :: "costate \<Rightarrow> costate" where
  "callout_init st = st\<lparr>callfree := Some 0,
     co_tab := map (\<lambda>k. if Suc k < length (co_tab st) then (co_tab st ! k)\<lparr>c_next := Some (Suc k)\<rparr> else co_tab st ! k)
       [0..<length (co_tab st)]\<rparr>"

section \<open>timeout\<close>

text \<open>The counter bounds the walks; a list longer than the table is a fault.\<close>

fun timeout_walk :: "nat \<Rightarrow> costate \<Rightarrow> int \<Rightarrow> nat option \<Rightarrow> (nat option \<times> nat option \<times> int) outcome" where
  "timeout_walk n st t p1 =
     (case next_of st p1 of
        None \<Rightarrow> Ret (p1, None, t)
      | Some p2 \<Rightarrow>
          if c_time (co_tab st ! p2) < t
          then (case n of
                  0 \<Rightarrow> Fault
                | Suc k \<Rightarrow> timeout_walk k st
                    (if c_time (co_tab st ! p2) > 0 then t - c_time (co_tab st ! p2) else t) (Some p2))
          else Ret (p1, Some p2, t))"

definition timeout :: "cfunc \<Rightarrow> nat \<Rightarrow> int \<Rightarrow> costate \<Rightarrow> costate outcome" where
  "timeout fn arg t st =
     (let t1 = (if t = 0 then 1 else t); t2 = (if t1 < 0 then 1 else t1)
      in case callfree st of
           None \<Rightarrow> Panic ''timeout table overflow''
         | Some pnew \<Rightarrow>
             (let st1 = upd_co pnew (\<lambda>c. c\<lparr>c_arg := arg, c_func := fn\<rparr>) (st\<lparr>callfree := c_next (co_tab st ! pnew)\<rparr>)
              in obind (timeout_walk (length (co_tab st)) st1 t2 None) (\<lambda>(p1, p2, t3).
                   let st2 = upd_co pnew (\<lambda>c. c\<lparr>c_next := p2, c_time := t3\<rparr>) (set_next p1 (Some pnew) st1)
                   in Ret (case p2 of None \<Rightarrow> st2 | Some q \<Rightarrow> upd_co q (\<lambda>c. c\<lparr>c_time := c_time c - t3\<rparr>) st2))))"

section \<open>find_timeout and untimeout\<close>

fun find_walk :: "nat \<Rightarrow> costate \<Rightarrow> cfunc \<Rightarrow> nat \<Rightarrow> nat option \<Rightarrow> int \<Rightarrow> (nat option \<times> nat option \<times> int) outcome" where
  "find_walk n st fn arg p1 hzleft =
     (case next_of st p1 of
        None \<Rightarrow> Ret (p1, None, hzleft)
      | Some p2 \<Rightarrow>
          (let c = co_tab st ! p2; hz' = (if c_time c > 0 then hzleft + c_time c else hzleft)
           in if c_func c = fn \<and> c_arg c = arg then Ret (p1, Some p2, hz')
              else case n of 0 \<Rightarrow> Fault | Suc k \<Rightarrow> find_walk k st fn arg (Some p2) hz'))"

definition co_unlink :: "nat option \<Rightarrow> nat \<Rightarrow> costate \<Rightarrow> costate" where
  "co_unlink p1 p2 st =
     (let c = co_tab st ! p2;
          st1 = (case c_next c of
                   Some r \<Rightarrow> if c_time c > 0 then upd_co r (\<lambda>d. d\<lparr>c_time := c_time d + c_time c\<rparr>) st else st
                 | None \<Rightarrow> st);
          st2 = set_next p1 (c_next c) st1
      in (upd_co p2 (\<lambda>d. d\<lparr>c_next := callfree st2\<rparr>) st2)\<lparr>callfree := Some p2\<rparr>)"

definition find_timeout :: "cfunc \<Rightarrow> nat \<Rightarrow> bool \<Rightarrow> costate \<Rightarrow> (int \<times> costate) outcome" where
  "find_timeout fn arg removeflag st =
     obind (find_walk (length (co_tab st)) st fn arg None 0) (\<lambda>(p1, p2, hzleft).
       case p2 of
         None \<Rightarrow> Ret (-1, st)
       | Some q \<Rightarrow> Ret (hzleft, if removeflag then co_unlink p1 q st else st))"

definition untimeout :: "cfunc \<Rightarrow> nat \<Rightarrow> costate \<Rightarrow> (int \<times> costate) outcome" where
  "untimeout fn arg st = find_timeout fn arg True st"

section \<open>The clock interrupts\<close>

text \<open>\<^verbatim>\<open>hardclock\<close> on the list: \<open>r\<close> is \<^verbatim>\<open>residual_ticks\<close>.\<close>

fun hardclock_walk :: "nat \<Rightarrow> int \<Rightarrow> nat option \<Rightarrow> costate \<Rightarrow> costate outcome" where
  "hardclock_walk n r p1 st =
     (case p1 of
        None \<Rightarrow> Ret st
      | Some p \<Rightarrow>
          if r = 0 then Ret st
          else let s = c_time (co_tab st ! p); st1 = upd_co p (\<lambda>c. c\<lparr>c_time := c_time c - r\<rparr>) st
               in if r \<le> s then Ret st1
                  else case n of
                         0 \<Rightarrow> Fault
                       | Suc k \<Rightarrow> hardclock_walk k (if s > 0 then r - s else r) (c_next (co_tab st1 ! p)) st1)"

definition hardclock_callouts :: "int \<Rightarrow> costate \<Rightarrow> costate outcome" where
  "hardclock_callouts ticks st = hardclock_walk (length (co_tab st)) ticks (calltodo st) st"

text \<open>
  \<^verbatim>\<open>softclock\<close> runs the functions that are due, each of which may use the table: \<open>call\<close>
  is what a function does to it. The calls made so far, with the lateness passed to each,
  are collected in \<open>log\<close>; \<open>None\<close> is a loop that does not end.
\<close>

partial_function (option) softclock ::
  "(cfunc \<Rightarrow> nat \<Rightarrow> int \<Rightarrow> costate \<Rightarrow> costate outcome) \<Rightarrow> (cfunc \<times> nat \<times> int) list \<Rightarrow> costate
    \<Rightarrow> ((cfunc \<times> nat \<times> int) list \<times> costate) outcome option" where
  "softclock call log st =
     (case calltodo st of
        None \<Rightarrow> Some (Ret (log, st))
      | Some p \<Rightarrow>
          (let c = co_tab st ! p
           in if c_time c > 0 then Some (Ret (log, st))
              else case call (c_func c) (c_arg c) (c_time c)
                     ((upd_co p (\<lambda>d. d\<lparr>c_next := callfree st\<rparr>) (st\<lparr>calltodo := c_next c\<rparr>))\<lparr>callfree := Some p\<rparr>) of
                     Ret st' \<Rightarrow> softclock call (log @ [(c_func c, c_arg c, c_time c)]) st'
                   | Panic s \<Rightarrow> Some (Panic s)
                   | Fault \<Rightarrow> Some Fault))"

section \<open>Smart polls\<close>

definition set_smart_poll :: "cfunc \<Rightarrow> nat \<Rightarrow> costate \<Rightarrow> costate outcome" where
  "set_smart_poll fn arg st =
     (case callfree st of
        None \<Rightarrow> Panic ''timeout table overflow''
      | Some spn \<Rightarrow>
          Ret ((upd_co spn (\<lambda>c. c\<lparr>c_func := fn, c_arg := arg, c_next := smart_poll st\<rparr>)
                 (st\<lparr>callfree := c_next (co_tab st ! spn)\<rparr>))\<lparr>smart_poll := Some spn\<rparr>))"

text \<open>
  The list is detached first, so a polled function may set new polls. \<open>todo\<close> is the
  rest of the detached list.
\<close>

fun poll_loop :: "nat \<Rightarrow> (cfunc \<Rightarrow> nat \<Rightarrow> costate \<Rightarrow> costate outcome) \<Rightarrow> nat option \<Rightarrow> costate \<Rightarrow> costate outcome" where
  "poll_loop n call todo st =
     (case todo of
        None \<Rightarrow> Ret st
      | Some spn \<Rightarrow>
          (case n of
             0 \<Rightarrow> Fault
           | Suc k \<Rightarrow>
               obind (call (c_func (co_tab st ! spn)) (c_arg (co_tab st ! spn)) st) (\<lambda>st1.
                 poll_loop k call (c_next (co_tab st1 ! spn))
                   ((upd_co spn (\<lambda>c. c\<lparr>c_next := callfree st1\<rparr>) st1)\<lparr>callfree := Some spn\<rparr>))))"

definition do_smart_poll :: "(cfunc \<Rightarrow> nat \<Rightarrow> costate \<Rightarrow> costate outcome) \<Rightarrow> costate \<Rightarrow> costate outcome" where
  "do_smart_poll call st =
     (case smart_poll st of
        None \<Rightarrow> Ret st
      | todo \<Rightarrow> poll_loop (length (co_tab st)) call todo (st\<lparr>smart_poll := None\<rparr>))"

section \<open>The table as lists\<close>

definition cn :: "costate \<Rightarrow> nat \<Rightarrow> nat option" where
  "cn st i = c_next (co_tab st ! i)"

text \<open>\<open>F\<close> are the free entries, \<open>S\<close> the smart polls, \<open>L\<close> the pending timeouts.\<close>

definition co_rep :: "costate \<Rightarrow> nat list \<Rightarrow> nat list \<Rightarrow> nat list \<Rightarrow> bool" where
  "co_rep st F S L \<longleftrightarrow> linked (cn st) (callfree st) F \<and> linked (cn st) (smart_poll st) S \<and>
     linked (cn st) (calltodo st) L \<and> distinct (F @ S @ L) \<and> set (F @ S @ L) \<subseteq> {..<length (co_tab st)}"

definition tms :: "costate \<Rightarrow> nat list \<Rightarrow> (int \<times> cfunc \<times> nat) list" where
  "tms st = map (\<lambda>i. (c_time (co_tab st ! i), c_func (co_tab st ! i), c_arg (co_tab st ! i)))"

text \<open>After an entry that is still to wait no entry has a negative time.\<close>

fun times_ok :: "(int \<times> 'a) list \<Rightarrow> bool" where
  "times_ok [] = True"
| "times_ok ((t, x) # r) = ((t > 0 \<longrightarrow> (\<forall>y \<in> set r. fst y \<ge> 0)) \<and> times_ok r)"

text \<open>What the relative times mean: the ticks left until each entry is due.\<close>

fun pending :: "int \<Rightarrow> (int \<times> 'a) list \<Rightarrow> (int \<times> 'a) list" where
  "pending a [] = []"
| "pending a ((t, x) # r) = (a + max t 0, x) # pending (a + max t 0) r"

definition co_list :: "costate \<Rightarrow> nat list" where
  "co_list st = chain_from (length (co_tab st)) (cn st) (calltodo st)"

definition co_pending :: "costate \<Rightarrow> (int \<times> cfunc \<times> nat) list" where
  "co_pending st = pending 0 (tms st (co_list st))"

definition co_free :: "costate \<Rightarrow> nat" where
  "co_free st = length (chain_from (length (co_tab st)) (cn st) (callfree st))"

definition co_inv :: "costate \<Rightarrow> bool" where
  "co_inv st \<longleftrightarrow> (\<exists>F S L. co_rep st F S L \<and> times_ok (tms st L))"

end
