(* ===== verification/Callout_Props.thy ===== *)
theory Callout_Props
  imports Callout
begin

text \<open>
  The operations on the callout table refine operations on the list of pending timeouts
  with their absolute times left. The list forms come first, then the pointer walks, then
  the properties.
\<close>

section \<open>The operations on lists of relative times\<close>

fun ins :: "int \<Rightarrow> 'a \<Rightarrow> (int \<times> 'a) list \<Rightarrow> (int \<times> 'a) list" where
  "ins t x [] = [(t, x)]"
| "ins t x ((s, y) # r) = (if s < t then (s, y) # ins (if s > 0 then t - s else t) x r else (t, x) # (s - t, y) # r)"

fun dec :: "int \<Rightarrow> (int \<times> 'a) list \<Rightarrow> (int \<times> 'a) list" where
  "dec r [] = []"
| "dec r ((t, x) # xs) =
     (if r = 0 then (t, x) # xs else if r \<le> t then (t - r, x) # xs else (t - r, x) # dec (if t > 0 then r - t else r) xs)"

fun bump :: "int \<Rightarrow> (int \<times> 'a) list \<Rightarrow> (int \<times> 'a) list" where
  "bump d [] = []"
| "bump d ((t, x) # r) = (if d > 0 then t + d else t, x) # r"

lemma pending_shift: "pending (a + d) xs = map (\<lambda>(l, x). (l + d, x)) (pending a xs)"
proof (induction xs arbitrary: a)
  case (Cons y xs)
  obtain t x where y: "y = (t, x)" by (cases y)
  have "a + d + max t 0 = a + max t 0 + d" by simp
  then show ?case unfolding y pending.simps using Cons [of "a + max t 0"] by (simp only: list.map prod.case) 
qed simp

lemma pending_ge: "(l, x) \<in> set (pending a xs) \<Longrightarrow> a \<le> l"
  by (induction a xs rule: pending.induct) fastforce+

lemma pending_ins:
  "0 < t \<Longrightarrow> pending a (ins t x xs) =
     takeWhile (\<lambda>p. fst p < a + t) (pending a xs) @ (a + t, x) # dropWhile (\<lambda>p. fst p < a + t) (pending a xs)"
proof (induction xs arbitrary: a t)
  case (Cons y xs)
  obtain s z where y: "y = (s, z)" by (cases y)
  show ?case
  proof (cases "s < t")
    case True
    let ?t = "if s > 0 then t - s else t"
    have e: "a + max s 0 + ?t = a + t" "0 < ?t" using True Cons.prems by auto
    show ?thesis using Cons.IH [OF e(2), of "a + max s 0"] True Cons.prems unfolding e(1) by (simp add: y)
  next
    case False
    then have "max s 0 = s" "max (s - t) 0 = s - t" "max t 0 = t" using Cons.prems by auto
    then show ?thesis using False by (simp add: y)
  qed
qed simp

lemma ins_ok: "0 < t \<Longrightarrow> times_ok xs \<Longrightarrow> times_ok (ins t x xs)"
proof (induction xs arbitrary: t)
  case (Cons y xs)
  obtain s z where y: "y = (s, z)" by (cases y)
  have mem: "fst q \<ge> 0" if "q \<in> set (ins u x xs)" "0 < u" "\<forall>q \<in> set xs. fst q \<ge> 0" for q u
    using that by (induction u x xs rule: ins.induct) (auto split: if_splits)
  show ?case using Cons.prems Cons.IH [of "if s > 0 then t - s else t"] mem [of _ "t - s"]
    by (auto simp: y)
qed simp

lemma pending_dec:
  "0 \<le> r \<Longrightarrow> pending b (dec r xs) = map (\<lambda>(l, x). (max b (l - (a - b) - r), x)) (pending a xs)"
proof (induction xs arbitrary: a b r)
  case (Cons y xs)
  obtain t z where y: "y = (t, z)" by (cases y)
  show ?case
  proof (cases "r \<le> t \<or> r = 0")
    case True
    let ?t = "if r = 0 then t else t - r"
    have d: "dec r ((t, z) # xs) = (?t, z) # xs" using True by auto
    have m: "max ?t 0 = max t 0 - r" using True Cons.prems by auto
    have n: "0 \<le> max t 0 - r" using m by (metis max.cobounded2)
    have "map (\<lambda>(l, x). (l + (b - a - r), x)) (pending (a + max t 0) xs) =
        map (\<lambda>(l, x). (max b (l - (a - b) - r), x)) (pending (a + max t 0) xs)"
    proof (rule map_cong [OF refl], clarify)
      fix l x assume "(l, x) \<in> set (pending (a + max t 0) xs)"
      then have "a + max t 0 \<le> l" by (rule pending_ge)
      then show "l + (b - a - r) = max b (l - (a - b) - r) \<and> x = x" using n by simp
    qed
    then have rest: "pending (a + max t 0 + (b - a - r)) xs =
        map (\<lambda>(l, x). (max b (l - (a - b) - r), x)) (pending (a + max t 0) xs)"
      by (simp only: pending_shift)
    have e: "b + max ?t 0 = a + max t 0 + (b - a - r)" "max b (a + max t 0 - (a - b) - r) = a + max t 0 + (b - a - r)"
      using m n by simp_all
    show ?thesis unfolding y d pending.simps e(1) list.map prod.case e(2) rest ..
  next
    case False
    let ?r = "if t > 0 then r - t else r"
    have r: "0 \<le> ?r" "a + max t 0 - b + ?r = a - b + r" using False Cons.prems by auto
    have d: "dec r (y # xs) = (t - r, z) # dec ?r xs" using False by (simp add: y)
    have "max (t - r) 0 = 0" "b = max b (b - r)" using False Cons.prems by simp_all
    then show ?thesis
      using Cons.IH [OF r(1), of b "a + max t 0"] False unfolding d y
      by (auto simp: algebra_simps)
  qed
qed simp

lemma dec_mem: "q \<in> set (dec r xs) \<Longrightarrow> \<forall>q \<in> set xs. fst q \<ge> 0 \<Longrightarrow> r \<le> 0 \<Longrightarrow> fst q \<ge> 0"
  by (induction r xs rule: dec.induct) (auto split: if_splits)

lemma dec_ok: "0 \<le> r \<Longrightarrow> times_ok xs \<Longrightarrow> times_ok (dec r xs)"
proof (induction xs arbitrary: r)
  case (Cons y xs)
  obtain t z where y: "y = (t, z)" by (cases y)
  show ?case using Cons.prems Cons.IH [of "if t > 0 then r - t else r"] by (auto simp: y)
qed simp

lemma bump_ok:
  assumes "times_ok (pre @ (t, x) # suf)"
  shows "times_ok (pre @ bump t suf)"
  using assms
proof (induction pre)
  case Nil
  then show ?case by (cases suf) auto
next
  case (Cons y pre)
  obtain s z where y: "y = (s, z)" by (cases y)
  show ?case using Cons by (cases suf) (force simp: y)+
qed

lemma pending_bump:
  assumes "times_ok (pre @ (t, x) # suf)"
  shows "pending a (pre @ bump t suf) =
    take (length pre) (pending a (pre @ (t, x) # suf)) @ drop (Suc (length pre)) (pending a (pre @ (t, x) # suf))"
  using assms
proof (induction pre arbitrary: a)
  case Nil
  then show ?case by (cases suf) (auto simp: max_def ac_simps)
next
  case (Cons y pre)
  then show ?case by (cases y) auto
qed

section \<open>The walks\<close>

lemma tms_cong: "(\<And>i. i \<in> set L \<Longrightarrow> co_tab st ! i = co_tab st' ! i) \<Longrightarrow> tms st L = tms st' L"
  by (simp add: tms_def)

lemma tms_simps [simp]: "tms st [] = []" "tms st (xs @ ys) = tms st xs @ tms st ys"
  "tms st (i # xs) = (c_time (co_tab st ! i), c_func (co_tab st ! i), c_arg (co_tab st ! i)) # tms st xs"
  "length (tms st xs) = length xs" "take k (tms st xs) = tms st (take k xs)" "drop k (tms st xs) = tms st (drop k xs)"
  by (simp_all add: tms_def take_map drop_map)

lemma next_of_Some: "next_of st (Some p) = cn st p"
  by (simp add: cn_def)

lemma timeout_walk_ins:
  assumes "linked (cn st) (next_of st p1) suf" and "length suf \<le> n"
  shows "\<exists>k t'. k \<le> length suf \<and>
    timeout_walk n st t p1 = Ret (if k = 0 then p1 else Some (suf ! (k - 1)), if k < length suf then Some (suf ! k) else None, t') \<and>
    (\<forall>x. ins t x (tms st suf) = tms st (take k suf) @ (t', x) #
       (case drop k suf of [] \<Rightarrow> []
        | q # r \<Rightarrow> (c_time (co_tab st ! q) - t', c_func (co_tab st ! q), c_arg (co_tab st ! q)) # tms st r))"
  using assms
proof (induction suf arbitrary: n t p1)
  case Nil
  then show ?case by simp
next
  case (Cons q suf)
  then obtain m where n: "n = Suc m" "length suf \<le> m" by (cases n) auto
  have p: "next_of st p1 = Some q" "linked (cn st) (next_of st (Some q)) suf"
    using Cons.prems(1) by (simp_all add: next_of_Some del: next_of.simps)
  let ?s = "c_time (co_tab st ! q)"
  show ?case
  proof (cases "?s < t")
    case True
    let ?t = "if ?s > 0 then t - ?s else t"
    obtain k t' where IH: "k \<le> length suf"
      "timeout_walk m st ?t (Some q) = Ret (if k = 0 then Some q else Some (suf ! (k - 1)), if k < length suf then Some (suf ! k) else None, t')"
      "\<forall>x. ins ?t x (tms st suf) = tms st (take k suf) @ (t', x) #
       (case drop k suf of [] \<Rightarrow> []
        | q # r \<Rightarrow> (c_time (co_tab st ! q) - t', c_func (co_tab st ! q), c_arg (co_tab st ! q)) # tms st r)"
      using Cons.IH [OF p(2) n(2), of ?t] by blast
    show ?thesis
      using IH(1) p(1) True n IH(2,3)
      by (intro exI [of _ "Suc k"] exI [of _ t']) (simp add: nth_Cons')
  next
    case False
    then show ?thesis using p(1) n by (intro exI [of _ 0] exI [of _ t]) simp
  qed
qed

definition matches :: "cfunc \<Rightarrow> nat \<Rightarrow> int \<times> cfunc \<times> nat \<Rightarrow> bool" where
  "matches fn arg x \<longleftrightarrow> fst (snd x) = fn \<and> snd (snd x) = arg"

text \<open>The position of the first entry of a function and argument.\<close>

definition first_match :: "cfunc \<Rightarrow> nat \<Rightarrow> (int \<times> cfunc \<times> nat) list \<Rightarrow> nat" where
  "first_match fn arg xs = length (takeWhile (\<lambda>x. \<not> matches fn arg x) xs)"

lemma find_walk_first:
  assumes "linked (cn st) (next_of st p1) suf" and "length suf \<le> n" and "j = first_match fn arg (tms st suf)"
  shows "if j < length suf
    then find_walk n st fn arg p1 a =
        Ret (if j = 0 then p1 else Some (suf ! (j - 1)), Some (suf ! j), fst (pending a (tms st suf) ! j))
    else \<exists>p h. find_walk n st fn arg p1 a = Ret (p, None, h)"
  using assms
proof (induction suf arbitrary: n p1 a j)
  case Nil
  then show ?case by simp
next
  case (Cons q suf)
  have p: "next_of st p1 = Some q" "linked (cn st) (next_of st (Some q)) suf"
    using Cons.prems(1) by (simp_all add: next_of_Some del: next_of.simps)
  let ?s = "c_time (co_tab st ! q)"
  let ?m = "c_func (co_tab st ! q) = fn \<and> c_arg (co_tab st ! q) = arg"
  let ?a = "if ?s > 0 then a + ?s else a"
  have a: "?a = a + max ?s 0" by simp
  show ?case
  proof (cases ?m)
    case True
    then show ?thesis using p(1) a Cons.prems(3) by (simp add: first_match_def matches_def)
  next
    case False
    obtain m where n: "n = Suc m" "length suf \<le> m" using Cons.prems(2) by (cases n) auto
    have j: "j = Suc (first_match fn arg (tms st suf))" using Cons.prems(3) False by (auto simp: first_match_def matches_def)
    have w: "find_walk n st fn arg p1 a = find_walk m st fn arg (Some q) ?a"
      by (subst find_walk.simps) (use p(1) False n in \<open>auto simp: Let_def simp del: find_walk.simps\<close>)
    show ?thesis
      using Cons.IH [OF p(2) n(2) refl, of ?a] unfolding w j a
      by (simp add: nth_Cons' del: find_walk.simps)
  qed
qed

lemma hardclock_walk_dec:
  assumes "linked (cn st) p L" and "distinct L" and "length L \<le> n" and "set L \<subseteq> {..<length (co_tab st)}"
  shows "\<exists>st'. hardclock_walk n r p st = Ret st' \<and> tms st' L = dec r (tms st L) \<and>
    (\<forall>i. i \<notin> set L \<longrightarrow> co_tab st' ! i = co_tab st ! i) \<and> cn st' = cn st \<and> length (co_tab st') = length (co_tab st) \<and>
    callfree st' = callfree st \<and> calltodo st' = calltodo st \<and> smart_poll st' = smart_poll st"
  using assms
proof (induction L arbitrary: n p r st)
  case Nil
  then show ?case by simp
next
  case (Cons q L)
  have p: "p = Some q" "linked (cn st) (cn st q) L" using Cons.prems(1) by auto
  obtain m where n: "n = Suc m" "length L \<le> m" using Cons.prems(3) by (cases n) auto
  let ?s = "c_time (co_tab st ! q)" and ?st1 = "upd_co q (\<lambda>c. c\<lparr>c_time := c_time c - r\<rparr>) st"
  have c1: "cn ?st1 = cn st" by (auto simp: cn_def upd_co_def nth_upd fun_eq_iff)
  have t1: "tms ?st1 L = tms st L" using Cons.prems(2) by (intro tms_cong) (auto simp: upd_co_def nth_upd)
  have q1: "co_tab ?st1 ! q = (co_tab st ! q)\<lparr>c_time := ?s - r\<rparr>" using Cons.prems(4) by (simp add: upd_co_def)
  consider "r = 0" | "r \<noteq> 0" "r \<le> ?s" | "r \<noteq> 0" "\<not> r \<le> ?s" by blast
  then show ?case
  proof cases
    case 1
    then show ?thesis using p by simp
  next
    case 2
    then show ?thesis using p q1 t1 c1 by (auto simp: Let_def) (auto simp: upd_co_def nth_upd)
  next
    case 3
    let ?r = "if ?s > 0 then r - ?s else r"
    have pre: "linked (cn ?st1) (cn st q) L" "distinct L" "set L \<subseteq> {..<length (co_tab ?st1)}"
      using p(2) c1 Cons.prems(2,4) by (auto simp: upd_co_def)
    obtain st' where IH: "hardclock_walk m ?r (cn st q) ?st1 = Ret st'" "tms st' L = dec ?r (tms ?st1 L)"
      "\<forall>i. i \<notin> set L \<longrightarrow> co_tab st' ! i = co_tab ?st1 ! i" "cn st' = cn ?st1" "length (co_tab st') = length (co_tab ?st1)"
      "callfree st' = callfree ?st1" "calltodo st' = calltodo ?st1" "smart_poll st' = smart_poll ?st1"
      using Cons.IH [OF pre(1,2) n(2) pre(3), of ?r] by blast
    have w: "hardclock_walk n r p st = Ret st'"
      using p(1) n(1) 3 IH(1) q1 by (simp add: Let_def cn_def)
    have "co_tab st' ! q = co_tab ?st1 ! q" using IH(3) Cons.prems(2) by simp
    then have "tms st' (q # L) = dec r (tms st (q # L))" using 3 q1 t1 IH(2) by simp
    moreover have "co_tab st' ! i = co_tab st ! i" if "i \<notin> set (q # L)" for i
      using IH(3) that by (simp add: upd_co_def nth_upd)
    ultimately show ?thesis using w IH c1 by (auto simp: upd_co_def)
  qed
qed

section \<open>The operations\<close>

lemma co_repD:
  assumes "co_rep st F S L"
  shows "linked (cn st) (callfree st) F" "linked (cn st) (smart_poll st) S" "linked (cn st) (calltodo st) L"
    and "distinct F" "distinct S" "distinct L" "set F \<inter> set S = {}" "set F \<inter> set L = {}" "set S \<inter> set L = {}"
    and "set F \<subseteq> {..<length (co_tab st)}" "set S \<subseteq> {..<length (co_tab st)}" "set L \<subseteq> {..<length (co_tab st)}"
    and "length L \<le> length (co_tab st)" "length F \<le> length (co_tab st)"
  using assms by (auto simp: co_rep_def intro!: distinct_length_le)

lemma upd_co_simps [simp]:
  "length (co_tab (upd_co i f st)) = length (co_tab st)" "callfree (upd_co i f st) = callfree st"
  "calltodo (upd_co i f st) = calltodo st" "smart_poll (upd_co i f st) = smart_poll st"
  by (simp_all add: upd_co_def)

lemma upd_co_nth: "co_tab (upd_co i f st) ! j = (if i = j \<and> i < length (co_tab st) then f (co_tab st ! i) else co_tab st ! j)"
  by (simp add: upd_co_def nth_upd)

lemma cn_upd: "i < length (co_tab st) \<Longrightarrow> cn (upd_co i f st) = (cn st)(i := c_next (f (co_tab st ! i)))"
  by (auto simp: cn_def fun_eq_iff upd_co_nth)

lemma set_next_simps [simp]:
  "length (co_tab (set_next p n st)) = length (co_tab st)" "callfree (set_next p n st) = callfree st"
  "smart_poll (set_next p n st) = smart_poll st"
  "calltodo (set_next p n st) = (if p = None then n else calltodo st)"
  by (cases p; simp)+

lemma set_next_nth:
  "co_tab (set_next p n st) ! j =
     (if p = Some j \<and> j < length (co_tab st) then (co_tab st ! j)\<lparr>c_next := n\<rparr> else co_tab st ! j)"
  by (cases p) (auto simp: upd_co_nth)

lemma cn_set_next:
  "(\<forall>i. p = Some i \<longrightarrow> i < length (co_tab st)) \<Longrightarrow>
     cn (set_next p n st) = (case p of None \<Rightarrow> cn st | Some i \<Rightarrow> (cn st)(i := n))"
  by (cases p) (auto simp: cn_upd, auto simp: cn_def)

lemma cn_other [simp]: "cn (st\<lparr>callfree := p\<rparr>) = cn st" "cn (st\<lparr>calltodo := p\<rparr>) = cn st" "cn (st\<lparr>smart_poll := p\<rparr>) = cn st"
  by (simp_all add: cn_def fun_eq_iff)

lemma before_last: "0 < k \<Longrightarrow> k \<le> length L \<Longrightarrow> L ! (k - 1) = last (take k L)"
  by (cases "L = []") (auto simp: last_conv_nth min_def)

lemma timeout_spec:
  assumes rep: "co_rep st (f # F) S L"
  shows "\<exists>st' k. timeout fn arg t st = Ret st' \<and> k \<le> length L \<and> co_rep st' F S (take k L @ f # drop k L) \<and>
    tms st' (take k L @ f # drop k L) = ins (max t 1) (fn, arg) (tms st L) \<and> length (co_tab st') = length (co_tab st) \<and>
    (\<forall>i. i \<noteq> f \<longrightarrow> i \<notin> set L \<longrightarrow> co_tab st' ! i = co_tab st ! i)"
proof -
  note r = co_repD [OF rep]
  have f: "callfree st = Some f" "linked (cn st) (cn st f) F" "f < length (co_tab st)" "f \<notin> set L" "f \<notin> set S" "f \<notin> set F"
    using r by auto
  have t2: "(if (if t = 0 then 1 else t) < 0 then 1 else (if t = 0 then 1 else t)) = max t 1" by auto
  let ?st1 = "upd_co f (\<lambda>c. c\<lparr>c_arg := arg, c_func := fn\<rparr>) (st\<lparr>callfree := c_next (co_tab st ! f)\<rparr>)"
  have c1: "cn ?st1 = cn st" using f(3) by (simp add: cn_upd) (simp add: cn_def fun_eq_iff)
  have l1: "linked (cn ?st1) (next_of ?st1 None) L" using r(3) by (simp only: c1) simp
  obtain k t' where k: "k \<le> length L"
    and w: "timeout_walk (length (co_tab st)) ?st1 (max t 1) None =
      Ret (if k = 0 then None else Some (L ! (k - 1)), if k < length L then Some (L ! k) else None, t')"
    and i: "\<And>x. ins (max t 1) x (tms ?st1 L) = tms ?st1 (take k L) @ (t', x) #
       (case drop k L of [] \<Rightarrow> []
        | q # r \<Rightarrow> (c_time (co_tab ?st1 ! q) - t', c_func (co_tab ?st1 ! q), c_arg (co_tab ?st1 ! q)) # tms ?st1 r)"
    using timeout_walk_ins [OF l1 r(13)] by blast
  let ?pre = "take k L" and ?suf = "drop k L"
  let ?p1 = "if k = 0 then None else Some (L ! (k - 1))" and ?p2 = "if k < length L then Some (L ! k) else None"
  have p1: "?p1 = (if ?pre = [] then None else Some (last ?pre))" using k before_last [of k L] by (cases "k = 0") auto
  have p2: "?p2 = (if ?suf = [] then None else Some (hd ?suf))" by (simp add: hd_drop_conv_nth)
  have L: "L = ?pre @ ?suf" by simp
  have dj: "distinct (?pre @ ?suf)" using r(6) by simp
  define st2 where "st2 = upd_co f (\<lambda>c. c\<lparr>c_next := ?p2, c_time := t'\<rparr>) (set_next ?p1 (Some f) ?st1)"
  define st3 where "st3 = (case ?p2 of None \<Rightarrow> st2 | Some q \<Rightarrow> upd_co q (\<lambda>c. c\<lparr>c_time := c_time c - t'\<rparr>) st2)"
  have res: "timeout fn arg t st = Ret st3"
    unfolding timeout_def Let_def t2 f(1) option.case w obind.simps prod.case st3_def st2_def by (simp del: next_of.simps)
  have lastp: "last ?pre \<in> set L" if "?pre \<noteq> []" using that by (metis in_set_takeD last_in_set)
  have len: "length (co_tab st3) = length (co_tab st)" by (simp add: st3_def st2_def split: option.split)
  have c2: "cn st2 = (if ?pre = [] then (cn st)(f := ?p2) else ((cn st)(f := ?p2))(last ?pre := Some f))"
  proof -
    have b: "\<forall>i. ?p1 = Some i \<longrightarrow> i < length (co_tab ?st1)" using lastp r(12) unfolding p1 by (auto split: if_splits)
    have cs: "cn (set_next ?p1 (Some f) ?st1) = (if ?pre = [] then cn st else (cn st)(last ?pre := Some f))"
      unfolding cn_set_next [OF b] c1 unfolding p1 by simp
    have fl: "f < length (co_tab (set_next ?p1 (Some f) ?st1))" using f(3) by simp
    have "?pre \<noteq> [] \<longrightarrow> last ?pre \<noteq> f" using lastp f(4) by auto
    then show ?thesis unfolding st2_def cn_upd [OF fl] cs by (auto simp del: take_eq_Nil)
  qed
  have c3: "cn st3 = cn st2" by (auto simp: st3_def cn_def upd_co_nth fun_eq_iff split: option.split)
  have td: "calltodo st3 = (if ?pre = [] then Some f else calltodo st)"
    using p1 by (simp add: st3_def st2_def split: option.split)
  have "linked ((cn st)(f := ?p2)) (calltodo st) (?pre @ ?suf) = linked (cn st) (calltodo st) (?pre @ ?suf)"
    using f(4) by (intro linked_cong) auto
  then have "linked ((cn st)(f := ?p2)) (calltodo st) (?pre @ ?suf)" using r(3) by simp
  then have lL: "linked (cn st3) (calltodo st3) (?pre @ f # ?suf)"
  proof -
    have "distinct ?pre" "set ?pre \<inter> set ?suf = {}" using dj unfolding distinct_append by blast+
    moreover have "f \<notin> set (?pre @ ?suf)" using f(4) by simp
    moreover have "((cn st)(f := ?p2)) f = (if ?suf = [] then None else Some (hd ?suf))" unfolding p2 by (rule fun_upd_same)
    ultimately have "linked (if ?pre = [] then (cn st)(f := ?p2) else ((cn st)(f := ?p2))(last ?pre := Some f))
        (if ?pre = [] then Some f else calltodo st) (?pre @ f # ?suf)"
      using \<open>linked ((cn st)(f := ?p2)) (calltodo st) (?pre @ ?suf)\<close> by (intro linked_insert)
    then show ?thesis unfolding c3 c2 td .
  qed
  have other: "cn st3 i = cn st i" if "i \<noteq> f" "i \<notin> set L" for i
    using that lastp unfolding c3 c2 by auto
  have lF: "linked (cn st3) (callfree st3) F"
  proof -
    have "callfree st3 = cn st f" by (simp add: st3_def st2_def cn_def split: option.split)
    moreover have "linked (cn st3) (cn st f) F = linked (cn st) (cn st f) F"
      using r(8) f(6) by (intro linked_cong other) auto
    ultimately show ?thesis using f(2) by simp
  qed
  have lS: "linked (cn st3) (smart_poll st3) S"
  proof -
    have "smart_poll st3 = smart_poll st" by (simp add: st3_def st2_def split: option.split)
    moreover have "linked (cn st3) (smart_poll st) S = linked (cn st) (smart_poll st) S"
      using r(9) f(5) by (intro linked_cong other) auto
    ultimately show ?thesis using r(2) by simp
  qed
  have e1: "tms st3 xs = tms st xs" if "f \<notin> set xs" "\<forall>i \<in> set xs. ?p2 \<noteq> Some i" for xs
    using that by (auto simp: tms_def st3_def st2_def upd_co_nth set_next_nth split: option.split)
  have e2: "tms ?st1 xs = tms st xs" if "f \<notin> set xs" for xs using that by (intro tms_cong) (auto simp: upd_co_nth)
  have tf: "(c_time (co_tab st3 ! f), c_func (co_tab st3 ! f), c_arg (co_tab st3 ! f)) = (t', fn, arg)"
  proof -
    have "?p2 \<noteq> Some f" "?p1 \<noteq> Some f" using f(4) k lastp unfolding p1 by (auto simp del: take_eq_Nil split: if_splits)
    then show ?thesis using f(3) by (auto simp: st3_def st2_def upd_co_nth set_next_nth split: option.split)
  qed
  have "tms st3 (?pre @ f # ?suf) = ins (max t 1) (fn, arg) (tms st L)"
  proof (cases ?suf)
    case Nil
    then have "?p2 = None" using p2 by simp
    then have "tms st3 ?pre = tms st ?pre" using f(4) by (intro e1) (auto dest: in_set_takeD)
    then show ?thesis using i [of "(fn, arg)"] e2 [of L] e2 [of ?pre] f(4) tf Nil by (auto dest: in_set_takeD)
  next
    case (Cons q r')
    have q: "?p2 = Some q" "q \<in> set L" using p2 Cons by (simp, metis in_set_dropD list.set_intros(1))
    have nq: "q \<notin> set ?pre" "q \<notin> set r'" "f \<notin> set ?pre" "f \<notin> set r'" "q \<noteq> f"
      using dj f(4) q Cons by (auto dest: in_set_takeD) (metis in_set_dropD list.set_intros(2))
    have "tms st3 ?pre = tms st ?pre" "tms st3 r' = tms st r'" using nq q by (auto intro!: e1)
    moreover have "co_tab st3 ! q = (co_tab st2 ! q)\<lparr>c_time := c_time (co_tab st2 ! q) - t'\<rparr>"
      "c_time (co_tab st2 ! q) = c_time (co_tab st ! q)" "c_func (co_tab st2 ! q) = c_func (co_tab st ! q)"
      "c_arg (co_tab st2 ! q) = c_arg (co_tab st ! q)"
      using q nq(5) r(12) by (auto simp: st3_def st2_def upd_co_nth set_next_nth)
    ultimately show ?thesis using i [of "(fn, arg)"] e2 [of L] e2 [of ?pre] e2 [of r'] f(4) tf Cons nq by (auto simp: upd_co_nth)
  qed
  moreover have "co_rep st3 F S (?pre @ f # ?suf)"
  proof -
    have "set (?pre @ f # ?suf) = insert f (set L)" using L by (metis Un_insert_right list.simps(15) set_append)
    moreover have "distinct (?pre @ f # ?suf)" using r(6) f(4) set_take_disj_set_drop_if_distinct [OF r(6) order_refl, of k] by (auto dest: in_set_takeD in_set_dropD)
    ultimately show ?thesis unfolding co_rep_def using lF lS lL len r f by auto
  qed
  moreover have "co_tab st3 ! i = co_tab st ! i" if "i \<noteq> f" "i \<notin> set L" for i
  proof -
    have "?p1 \<noteq> Some i" using lastp that(2) unfolding p1 by (auto simp del: take_eq_Nil split: if_splits)
    moreover have "?p2 \<noteq> Some i" using that(2) by auto
    ultimately show ?thesis using that(1)
      by (auto simp: st3_def st2_def upd_co_nth set_next_nth simp del: set_next.simps split: option.split if_splits)
  qed
  ultimately show ?thesis using res k len by blast
qed

lemma unlink_spec:
  assumes rep: "co_rep st F S L" and j: "j < length L"
  defines "q \<equiv> L ! j" and "p1 \<equiv> (if j = 0 then None else Some (L ! (j - 1)))"
  shows "co_rep (co_unlink p1 q st) (q # F) S (take j L @ drop (Suc j) L)"
    and "tms (co_unlink p1 q st) (take j L @ drop (Suc j) L) =
      tms st (take j L) @ bump (c_time (co_tab st ! q)) (tms st (drop (Suc j) L))"
    and "length (co_tab (co_unlink p1 q st)) = length (co_tab st)"
    and "i \<notin> set L \<Longrightarrow> co_tab (co_unlink p1 q st) ! i = co_tab st ! i"
proof -
  note r = co_repD [OF rep]
  let ?pre = "take j L" and ?suf = "drop (Suc j) L"
  have L: "L = ?pre @ q # ?suf" using j by (simp add: q_def id_take_nth_drop)
  have dj: "distinct (?pre @ q # ?suf)" using r(6) L by simp
  have qL: "q \<in> set L" using j by (simp add: q_def)
  then have q: "q \<in> set L" "q < length (co_tab st)" "q \<notin> set F" "q \<notin> set S" using r by auto
  have p1: "p1 = (if ?pre = [] then None else Some (last ?pre))"
    using j before_last [of j L] by (cases "j = 0") (auto simp: p1_def)
  have lastp: "?pre \<noteq> [] \<longrightarrow> last ?pre \<in> set L \<and> last ?pre \<noteq> q"
    using dj last_in_set [of ?pre] by (metis L Un_iff disjoint_iff distinct_append list.set_intros(1) set_append)
  define st1 where "st1 = (case c_next (co_tab st ! q) of
                   Some r \<Rightarrow> if c_time (co_tab st ! q) > 0 then upd_co r (\<lambda>d. d\<lparr>c_time := c_time d + c_time (co_tab st ! q)\<rparr>) st else st
                 | None \<Rightarrow> st)"
  define st2 where "st2 = set_next p1 (cn st q) st1"
  have st': "co_unlink p1 q st = (upd_co q (\<lambda>d. d\<lparr>c_next := callfree st2\<rparr>) st2)\<lparr>callfree := Some q\<rparr>"
    by (simp add: co_unlink_def Let_def st2_def st1_def cn_def)
  have nq: "linked (cn st) (cn st q) ?suf" using linked_tail [of "cn st" "calltodo st" ?pre q ?suf] r(3) L by simp
  then have nx: "cn st q = (if ?suf = [] then None else Some (hd ?suf))" by (cases ?suf) auto
  have l1: "length (co_tab st1) = length (co_tab st)" "callfree st1 = callfree st" "smart_poll st1 = smart_poll st"
    "calltodo st1 = calltodo st" by (simp_all add: st1_def split: option.split)
  have c1: "cn st1 = cn st" by (auto simp: st1_def cn_def upd_co_nth fun_eq_iff split: option.split)
  have b: "\<forall>i. p1 = Some i \<longrightarrow> i < length (co_tab st1)" using lastp r(12) l1 unfolding p1 by auto
  have c2: "cn st2 = (if ?pre = [] then cn st else (cn st)(last ?pre := cn st q))"
    unfolding st2_def cn_set_next [OF b] c1 unfolding p1 by simp
  have l2: "length (co_tab st2) = length (co_tab st)" "callfree st2 = callfree st" "smart_poll st2 = smart_poll st"
    "calltodo st2 = (if ?pre = [] then cn st q else calltodo st)" using p1 by (simp_all add: st2_def l1)
  let ?st' = "co_unlink p1 q st"
  show len: "length (co_tab ?st') = length (co_tab st)" by (simp add: st' l2)
  have nxL: "cn st q \<noteq> Some i" if "i \<notin> set L" for i
    using nx that in_set_dropD [of i "Suc j" L] hd_in_set [of ?suf] by (auto split: if_splits)
  show "co_tab ?st' ! i = co_tab st ! i" if "i \<notin> set L"
  proof -
    have "p1 \<noteq> Some i" "i \<noteq> q" using lastp that q(1) unfolding p1 by auto
    then show ?thesis using nxL [OF that]
      by (auto simp: st' st2_def st1_def upd_co_nth set_next_nth cn_def simp del: set_next.simps split: option.split)
  qed
  have c3: "cn ?st' = (cn st2)(q := callfree st)" using q(2) by (simp add: st' cn_upd l2)
  have other: "cn ?st' i = cn st i" if "i \<notin> set L" for i using that lastp q(1) unfolding c3 c2 by auto
  have "linked (if ?pre = [] then cn st else (cn st)(last ?pre := cn st q)) (if ?pre = [] then cn st q else calltodo st) (?pre @ ?suf)"
    using r(3) L dj by (intro linked_remove) simp_all
  then have "linked (cn st2) (calltodo st2) (?pre @ ?suf)" unfolding c2 l2(4) .
  moreover have "linked (cn ?st') (calltodo st2) (?pre @ ?suf) = linked (cn st2) (calltodo st2) (?pre @ ?suf)"
    using dj unfolding c3 by (intro linked_cong) auto
  ultimately have lL: "linked (cn ?st') (calltodo ?st') (?pre @ ?suf)" by (simp add: st')
  have "linked (cn ?st') (callfree st) F = linked (cn st) (callfree st) F" using r(8) by (intro linked_cong other) auto
  then have lF: "linked (cn ?st') (callfree ?st') (q # F)" using r(1) by (simp add: c3) (simp add: st')
  have "linked (cn ?st') (smart_poll st) S = linked (cn st) (smart_poll st) S" using r(9) by (intro linked_cong other) auto
  then have lS: "linked (cn ?st') (smart_poll ?st') S" using r(2) by (simp add: st' l2)
  have "set (?pre @ ?suf) \<subseteq> set L" by (auto dest: in_set_takeD in_set_dropD)
  moreover have "q \<notin> set (?pre @ ?suf)" "distinct (?pre @ ?suf)" using dj by simp_all
  ultimately show "co_rep ?st' (q # F) S (?pre @ ?suf)"
    unfolding co_rep_def using lF lS lL len r q by (simp add: subset_iff disjoint_iff) blast
  have e1: "tms ?st' xs = tms st xs" if "\<forall>i \<in> set xs. cn st q \<noteq> Some i" for xs
    using that by (auto simp: tms_def st' st2_def st1_def upd_co_nth set_next_nth cn_def split: option.split)
  show "tms ?st' (?pre @ ?suf) = tms st ?pre @ bump (c_time (co_tab st ! q)) (tms st ?suf)"
  proof (cases ?suf)
    case Nil
    then show ?thesis using nx e1 [of ?pre] by simp
  next
    case (Cons h r')
    have h: "cn st q = Some h" "h \<in> set L" "h \<notin> set ?pre" "h \<notin> set r'"
      using nx Cons dj L in_set_dropD [of h "Suc j" L] by auto
    have "c_next (co_tab st ! q) = Some h" "h < length (co_tab st)" using h(1,2) r(12) by (auto simp: cn_def)
    then have "c_time (co_tab ?st' ! h) = (if c_time (co_tab st ! q) > 0 then c_time (co_tab st ! h) + c_time (co_tab st ! q) else c_time (co_tab st ! h))"
      "c_func (co_tab ?st' ! h) = c_func (co_tab st ! h)" "c_arg (co_tab ?st' ! h) = c_arg (co_tab st ! h)"
      by (auto simp: st' st2_def st1_def upd_co_nth set_next_nth)
    moreover have "tms ?st' ?pre = tms st ?pre" "tms ?st' r' = tms st r'" using h by (auto intro!: e1)
    ultimately show ?thesis unfolding Cons tms_simps bump.simps by simp
  qed
qed

section \<open>Reading the lists off the table\<close>

lemma co_list_rep: "co_rep st F S L \<Longrightarrow> co_list st = L"
  using co_repD(3,13) linked_chain_from by (auto simp: co_list_def)

lemma co_free_rep: "co_rep st F S L \<Longrightarrow> co_free st = length F"
  using co_repD(1,14) linked_chain_from [of "cn st" "callfree st" F "length (co_tab st)"] by (auto simp: co_free_def)

lemma co_pending_rep: "co_rep st F S L \<Longrightarrow> co_pending st = pending 0 (tms st L)"
  by (simp add: co_pending_def co_list_rep)

lemma co_invI: "co_rep st F S L \<Longrightarrow> times_ok (tms st L) \<Longrightarrow> co_inv st"
  by (auto simp: co_inv_def)

lemma pending_snd: "map snd (pending a xs) = map snd xs"
  by (induction a xs rule: pending.induct) auto

lemma first_match_snd: "first_match fn arg xs = length (takeWhile (\<lambda>x. \<not> (fst x = fn \<and> snd x = arg)) (map snd xs))"
  by (simp add: first_match_def matches_def takeWhile_map comp_def)

lemma first_match_pending: "first_match fn arg (pending a xs) = first_match fn arg xs"
  by (simp add: first_match_snd pending_snd)

lemma length_pending [simp]: "length (pending a xs) = length xs"
  by (induction a xs rule: pending.induct) auto

text \<open>The due entries in the form \<^verbatim>\<open>softclock\<close> calls them.\<close>

definition due :: "(int \<times> cfunc \<times> nat) list \<Rightarrow> (cfunc \<times> nat \<times> int) list" where
  "due xs = map (\<lambda>(t, f, a). (f, a, t)) (takeWhile (\<lambda>x. fst x \<le> 0) xs)"

definition co_due :: "costate \<Rightarrow> (cfunc \<times> nat \<times> int) list" where
  "co_due st = due (tms st (co_list st))"

lemma co_due_rep: "co_rep st F S L \<Longrightarrow> co_due st = due (tms st L)"
  by (simp add: co_due_def co_list_rep)

lemma due_ins: "0 < t \<Longrightarrow> due (ins t x xs) = due xs"
  by (induction t x xs rule: ins.induct) (auto simp: due_def)

lemma timeout_effect:
  assumes "co_inv st" and "0 < co_free st"
  shows "\<exists>st'. timeout fn arg t st = Ret st' \<and> co_inv st' \<and> co_free st = Suc (co_free st') \<and> co_due st' = co_due st \<and>
    co_pending st' = takeWhile (\<lambda>p. fst p < max t 1) (co_pending st) @ (max t 1, fn, arg) # dropWhile (\<lambda>p. fst p < max t 1) (co_pending st)"
proof -
  obtain F S L where rep: "co_rep st F S L" and ok: "times_ok (tms st L)" using assms(1) by (auto simp: co_inv_def)
  obtain f F' where F: "F = f # F'" using assms(2) co_free_rep [OF rep] by (cases F) auto
  obtain st' k where st': "timeout fn arg t st = Ret st'" "co_rep st' F' S (take k L @ f # drop k L)"
    "tms st' (take k L @ f # drop k L) = ins (max t 1) (fn, arg) (tms st L)"
    using timeout_spec [OF rep [unfolded F]] by blast
  have t: "0 < max t 1" by simp
  show ?thesis
    using st'(1) co_invI [OF st'(2), unfolded st'(3), OF ins_ok [OF t ok]] co_free_rep [OF st'(2)] co_free_rep [OF rep] F
      co_due_rep [OF st'(2), unfolded st'(3)] co_due_rep [OF rep] due_ins [OF t]
      co_pending_rep [OF st'(2), unfolded st'(3)] co_pending_rep [OF rep]
      pending_ins [OF t, of 0 "(fn, arg)" "tms st L"] by simp
qed

lemma tms_split: "j < length L \<Longrightarrow> tms st L = tms st (take j L) @ (c_time (co_tab st ! (L ! j)), c_func (co_tab st ! (L ! j)), c_arg (co_tab st ! (L ! j))) # tms st (drop (Suc j) L)"
  by (subst id_take_nth_drop [of j L]) (simp_all del: append_take_drop_id)

lemma unlink_effect:
  assumes rep: "co_rep st F S L" and ok: "times_ok (tms st L)" and j: "j < length L"
  defines "st' \<equiv> co_unlink (if j = 0 then None else Some (L ! (j - 1))) (L ! j) st"
  shows "co_inv st'" and "co_pending st' = take j (co_pending st) @ drop (Suc j) (co_pending st)"
    and "co_free st' = Suc (co_free st)" and "length (co_tab st') = length (co_tab st)"
    and "tms st' (co_list st') = tms st (take j L) @ bump (c_time (co_tab st ! (L ! j))) (tms st (drop (Suc j) L))"
proof -
  note u = unlink_spec [OF rep j, folded st'_def]
  have l: "length (tms st (take j L)) = j" using j by simp
  show "co_inv st'" using co_invI [OF u(1), unfolded u(2)] bump_ok [OF ok [unfolded tms_split [OF j]]] by simp
  show "co_pending st' = take j (co_pending st) @ drop (Suc j) (co_pending st)"
    unfolding co_pending_rep [OF u(1)] co_pending_rep [OF rep] u(2)
    using pending_bump [OF ok [unfolded tms_split [OF j]], of 0] unfolding l tms_split [OF j, symmetric] .
  show "co_free st' = Suc (co_free st)" using co_free_rep [OF u(1)] co_free_rep [OF rep] by simp
  show "tms st' (co_list st') = tms st (take j L) @ bump (c_time (co_tab st ! (L ! j))) (tms st (drop (Suc j) L))"
    using co_list_rep [OF u(1)] u(2) by simp
qed (rule unlink_spec(3) [OF rep j, folded st'_def])

lemma find_timeout_effect:
  fixes fn arg
  assumes "co_inv st"
  defines "P \<equiv> co_pending st" and "k \<equiv> first_match fn arg (co_pending st)"
  shows "\<exists>h st'. find_timeout fn arg rm st = Ret (h, st') \<and> co_inv st' \<and> co_free st \<le> co_free st' \<and>
    (if k < length P then h = fst (P ! k) \<and> co_pending st' = (if rm then take k P @ drop (Suc k) P else P)
     else h = -1 \<and> st' = st)"
proof -
  obtain F S L where rep: "co_rep st F S L" and ok: "times_ok (tms st L)" using assms(1) by (auto simp: co_inv_def)
  note r = co_repD [OF rep]
  have P: "P = pending 0 (tms st L)" unfolding P_def by (rule co_pending_rep [OF rep])
  have k: "k = first_match fn arg (tms st L)" using P by (simp add: k_def P_def first_match_pending)
  have "linked (cn st) (next_of st None) L" using r(3) by simp
  note w = find_walk_first [OF this r(13) k, of 0]
  show ?thesis
  proof (cases "k < length L")
    case True
    then have "find_timeout fn arg rm st = Ret (fst (P ! k), if rm then co_unlink (if k = 0 then None else Some (L ! (k - 1))) (L ! k) st else st)"
      using w by (simp add: find_timeout_def P)
    then show ?thesis using unlink_effect(1-3) [OF rep ok True] assms(1) True P by (auto simp: P_def)
  next
    case False
    then show ?thesis using w assms(1) P by (auto simp: find_timeout_def)
  qed
qed

lemma hardclock_effect:
  assumes "co_inv st" and "0 \<le> ticks"
  shows "\<exists>st'. hardclock_callouts ticks st = Ret st' \<and> co_inv st' \<and> co_free st' = co_free st \<and>
    co_pending st' = map (\<lambda>(l, x). (max 0 (l - ticks), x)) (co_pending st)"
proof -
  obtain F S L where rep: "co_rep st F S L" and ok: "times_ok (tms st L)" using assms(1) by (auto simp: co_inv_def)
  note r = co_repD [OF rep]
  obtain st' where st': "hardclock_callouts ticks st = Ret st'" "tms st' L = dec ticks (tms st L)" "cn st' = cn st"
    "length (co_tab st') = length (co_tab st)" "callfree st' = callfree st" "calltodo st' = calltodo st" "smart_poll st' = smart_poll st"
    using hardclock_walk_dec [OF r(3,6,13,12), of ticks] by (auto simp: hardclock_callouts_def)
  have rep': "co_rep st' F S L" using rep by (simp add: co_rep_def st')
  show ?thesis
    using st'(1) co_invI [OF rep'] dec_ok [OF assms(2) ok] co_free_rep [OF rep'] co_free_rep [OF rep]
      co_pending_rep [OF rep'] co_pending_rep [OF rep] pending_dec [OF assms(2), of 0 "tms st L" 0] by (simp add: st'(2))
qed

section \<open>Running the due entries\<close>

lemma softclock_pop:
  assumes "co_inv st" and "calltodo st = Some p" and "c_time (co_tab st ! p) \<le> 0"
  defines "st' \<equiv> (upd_co p (\<lambda>d. d\<lparr>c_next := callfree st\<rparr>) (st\<lparr>calltodo := c_next (co_tab st ! p)\<rparr>))\<lparr>callfree := Some p\<rparr>"
  shows "co_inv st'" and "co_free st' = Suc (co_free st)" and "co_pending st' = tl (co_pending st)"
    and "co_due st = (c_func (co_tab st ! p), c_arg (co_tab st ! p), c_time (co_tab st ! p)) # co_due st'"
proof -
  obtain F S L where rep: "co_rep st F S L" and ok: "times_ok (tms st L)" using assms(1) by (auto simp: co_inv_def)
  have "linked (cn st) (Some p) L" using co_repD(3) [OF rep] assms(2) by simp
  then obtain L' where L: "L = p # L'" by (auto simp: linked_Some)
  have e: "st' = co_unlink None p st"
    using assms(3) by (simp add: st'_def co_unlink_def Let_def upd_co_def split: option.split)
  note u = unlink_effect [OF rep ok, of 0, unfolded L, simplified, folded e]
  show "co_inv st'" "co_free st' = Suc (co_free st)" using u(1,3) by simp_all
  show "co_pending st' = tl (co_pending st)" using u(2) by (simp add: drop_Suc)
  have b: "bump t xs = xs" if "t \<le> 0" for t and xs :: "(int \<times> cfunc \<times> nat) list" using that by (cases xs) auto
  show "co_due st = (c_func (co_tab st ! p), c_arg (co_tab st ! p), c_time (co_tab st ! p)) # co_due st'"
    using u(5) co_due_rep [OF rep] assms(3) by (simp add: L co_due_def due_def b)
qed

lemma softclock_all:
  assumes call: "\<And>f a t s. co_inv s \<Longrightarrow> 0 < co_free s \<Longrightarrow> \<exists>s'. call f a t s = Ret s' \<and> co_inv s' \<and> co_due s' = co_due s"
    and "co_inv st" and "n = length (co_due st)"
  shows "\<exists>st'. softclock call log st = Some (Ret (log @ co_due st, st')) \<and> co_inv st' \<and> co_due st' = []"
  using assms(2,3)
proof (induction n arbitrary: st log)
  case 0
  obtain F S L where rep: "co_rep st F S L" using 0 by (auto simp: co_inv_def)
  have d: "due (tms st L) = []" using 0 co_due_rep [OF rep] by simp
  show ?case
  proof (cases L)
    case Nil
    then have "calltodo st = None" using co_repD(3) [OF rep] by simp
    then show ?thesis using 0 by (subst softclock.simps) simp
  next
    case (Cons p L')
    then have "calltodo st = Some p" "c_time (co_tab st ! p) > 0"
      using co_repD(3) [OF rep] d by (auto simp: due_def split: if_splits)
    then show ?thesis using 0 by (subst softclock.simps) simp
  qed
next
  case (Suc n)
  obtain F S L where rep: "co_rep st F S L" using Suc.prems by (auto simp: co_inv_def)
  have d: "due (tms st L) \<noteq> []" using Suc.prems co_due_rep [OF rep] by auto
  then obtain p L' where L: "L = p # L'" by (cases L) (auto simp: due_def)
  then have p: "calltodo st = Some p" "c_time (co_tab st ! p) \<le> 0"
    using co_repD(3) [OF rep] d by (auto simp: due_def split: if_splits)
  let ?c = "co_tab st ! p"
  define s1 where "s1 = (upd_co p (\<lambda>d. d\<lparr>c_next := callfree st\<rparr>) (st\<lparr>calltodo := c_next ?c\<rparr>))\<lparr>callfree := Some p\<rparr>"
  note pop = softclock_pop [OF Suc.prems(1) p, folded s1_def]
  obtain s2 where s2: "call (c_func ?c) (c_arg ?c) (c_time ?c) s1 = Ret s2" "co_inv s2" "co_due s2 = co_due s1"
    using call [OF pop(1), of "c_func ?c" "c_arg ?c" "c_time ?c"] pop(2) by auto
  have "n = length (co_due s2)" using Suc.prems(2) pop(4) s2(3) by simp
  from Suc.IH [OF s2(2) this, of "log @ [(c_func ?c, c_arg ?c, c_time ?c)]"]
  obtain st' where "softclock call (log @ [(c_func ?c, c_arg ?c, c_time ?c)]) s2 =
      Some (Ret ((log @ [(c_func ?c, c_arg ?c, c_time ?c)]) @ co_due s2, st'))" "co_inv st'" "co_due st' = []" by blast
  moreover have "softclock call log st = softclock call (log @ [(c_func ?c, c_arg ?c, c_time ?c)]) s2"
    using p s2(1) by (subst softclock.simps) (simp add: s1_def Let_def)
  ultimately show ?case using pop(4) s2(3) by simp
qed

end
