(* ===== verification/Callout_Run.thy ===== *)
theory Callout_Run
  imports Callout_Props
begin

text \<open>
  Boot of the callout table, its states over all uses, an example, and the properties.
\<close>

section \<open>States\<close>





lemma timeout_full: "co_inv st \<Longrightarrow> co_free st = 0 \<Longrightarrow> timeout fn arg t st = Panic ''timeout table overflow''"
proof -
  assume i: "co_inv st" "co_free st = 0"
  then obtain F S L where rep: "co_rep st F S L" by (auto simp: co_inv_def)
  have "callfree st = None" using co_repD(1) [OF rep] co_free_rep [OF rep] i(2) by simp
  then show ?thesis by (simp add: timeout_def)
qed





section \<open>Bounds on the times\<close>









section \<open>Every move keeps the table\<close>






















section \<open>Examples\<close>

text \<open>Two entries, the second due eight ticks from now, and two free ones.\<close>

definition ex_co :: costate where
  "ex_co = \<lparr>co_tab = [\<lparr>c_time = 3, c_arg = 1, c_func = Fn 1, c_next = Some 1\<rparr>,
                       \<lparr>c_time = 5, c_arg = 2, c_func = Fn 2, c_next = None\<rparr>,
                       \<lparr>c_time = 0, c_arg = 0, c_func = Fn 0, c_next = Some 3\<rparr>,
                       \<lparr>c_time = 0, c_arg = 0, c_func = Fn 0, c_next = None\<rparr>],
             callfree = Some 2, calltodo = Some 0, smart_poll = None\<rparr>"

text \<open>Two overdue entries and one to come.\<close>

definition ex_late :: costate where
  "ex_late = \<lparr>co_tab = [\<lparr>c_time = -2, c_arg = 1, c_func = Fn 1, c_next = Some 1\<rparr>,
                         \<lparr>c_time = 0, c_arg = 2, c_func = Fn 2, c_next = Some 2\<rparr>,
                         \<lparr>c_time = 4, c_arg = 3, c_func = Fn 3, c_next = None\<rparr>],
             callfree = None, calltodo = Some 0, smart_poll = None\<rparr>"


lemma ex_co_rep: "co_rep ex_co [2, 3] [] [0, 1]" "tms ex_co [0, 1] = [(3, Fn 1, 1), (5, Fn 2, 2)]"
  by (auto simp: co_rep_def cn_def ex_co_def)

lemma ex_late_rep: "co_rep ex_late [] [] [0, 1, 2]" "tms ex_late [0, 1, 2] = [(-2, Fn 1, 1), (0, Fn 2, 2), (4, Fn 3, 3)]"
  by (auto simp: co_rep_def cn_def ex_late_def)

lemma ex_co_facts: "co_inv ex_co" "co_pending ex_co = [(3, Fn 1, 1), (8, Fn 2, 2)]" "co_free ex_co = 2"
  using co_invI [OF ex_co_rep(1)] co_pending_rep [OF ex_co_rep(1)] co_free_rep [OF ex_co_rep(1)]
  unfolding ex_co_rep(2) by simp_all

lemma ex_late_facts: "co_inv ex_late" "co_due ex_late = [(Fn 1, 1, -2), (Fn 2, 2, 0)]"
  using co_invI [OF ex_late_rep(1)] co_due_rep [OF ex_late_rep(1)]
  unfolding ex_late_rep(2) by (simp_all add: due_def)

section \<open>Properties\<close>

text \<open>
  C16. \<^verbatim>\<open>timeout\<close> puts the new entry, with its full delay (at least one tick), before the
  first entry that is due no sooner, and changes when nothing else is due; it takes one
  entry from the free list, and panics exactly when there is none.
\<close>

theorem timeout_schedules:
  assumes "co_inv st"
  shows "if co_free st = 0 then timeout fn arg t st = Panic ''timeout table overflow''
    else \<exists>st'. timeout fn arg t st = Ret st' \<and> co_inv st' \<and> co_free st = Suc (co_free st') \<and>
      co_pending st' = takeWhile (\<lambda>p. fst p < max t 1) (co_pending st) @ (max t 1, fn, arg) #
        dropWhile (\<lambda>p. fst p < max t 1) (co_pending st)"
proof (cases "co_free st = 0")
  case True
  then show ?thesis using timeout_full [OF assms] by simp
next
  case False
  then have "0 < co_free st" by simp
  from timeout_effect [OF assms this, of fn arg t] False show ?thesis by auto
qed

theorem timeout_schedules_witness:
  "\<exists>st'. timeout (Fn 7) 9 5 ex_co = Ret st' \<and> co_pending st' = [(3, Fn 1, 1), (5, Fn 7, 9), (8, Fn 2, 2)] \<and> co_free st' = 1"
  using timeout_schedules [OF ex_co_facts(1), of "Fn 7" 9 5] ex_co_facts by auto

text \<open>
  C17. \<^verbatim>\<open>find_timeout\<close> returns the ticks left until the first entry of that function
  and argument, -1 if there is none; with the remove flag, as in \<^verbatim>\<open>untimeout\<close>, it takes
  exactly that entry off and every other entry stays due when it was.
\<close>

theorem find_timeout_exact:
  fixes fn arg
  assumes "co_inv st"
  defines "P \<equiv> co_pending st" and "k \<equiv> first_match fn arg (co_pending st)"
  shows "\<exists>h st'. find_timeout fn arg rm st = Ret (h, st') \<and> co_inv st' \<and>
    (if k < length P then h = fst (P ! k) \<and> co_pending st' = (if rm then take k P @ drop (Suc k) P else P)
     else h = -1 \<and> st' = st)"
proof -
  obtain h st' where "find_timeout fn arg rm st = Ret (h, st')" "co_inv st'"
    "if k < length P then h = fst (P ! k) \<and> co_pending st' = (if rm then take k P @ drop (Suc k) P else P)
     else h = -1 \<and> st' = st"
    using find_timeout_effect [OF assms(1), of fn arg rm] unfolding P_def k_def by (elim exE conjE)
  then show ?thesis by (intro exI conjI)
qed

theorem find_timeout_exact_witness:
  "\<exists>st'. find_timeout (Fn 1) 1 True ex_co = Ret (3, st') \<and> co_pending st' = [(8, Fn 2, 2)]"
  using find_timeout_exact [OF ex_co_facts(1), of "Fn 1" 1 True] ex_co_facts by (auto simp: first_match_def matches_def)

text \<open>
  C18. The clock interrupt brings every pending entry closer by the number of ticks that
  passed, none past its due time, although it touches only the front of the list.
\<close>

theorem hardclock_ticks:
  assumes "co_inv st" and "0 \<le> ticks"
  shows "\<exists>st'. hardclock_callouts ticks st = Ret st' \<and> co_inv st' \<and>
    co_pending st' = map (\<lambda>(l, x). (max 0 (l - ticks), x)) (co_pending st)"
  using hardclock_effect [OF assms] by blast

theorem hardclock_ticks_witness:
  "\<exists>st'. hardclock_callouts 4 ex_co = Ret st' \<and> co_pending st' = [(0, Fn 1, 1), (4, Fn 2, 2)]"
proof -
  have "(0::int) \<le> 4" by simp
  from hardclock_ticks [OF ex_co_facts(1) this] show ?thesis by (auto simp: ex_co_facts)
qed

text \<open>
  C19. \<^verbatim>\<open>softclock\<close> ends, and calls exactly the due entries, in order, each with its
  argument and its lateness, even when each function it calls schedules itself again: it
  is enough that a called function, given a free entry, keeps the table well-formed and
  does not change what is due.
\<close>

theorem softclock_runs_due:
  assumes "\<And>f a t s. co_inv s \<Longrightarrow> 0 < co_free s \<Longrightarrow> \<exists>s'. call f a t s = Ret s' \<and> co_inv s' \<and> co_due s' = co_due s"
    and "co_inv st"
  shows "\<exists>st'. softclock call [] st = Some (Ret (co_due st, st')) \<and> co_inv st' \<and> co_due st' = []"
  using softclock_all [where log = "[]", OF assms(1,2) refl] by simp

theorem softclock_runs_due_witness:
  "\<exists>st'. softclock (\<lambda>f a t. timeout f a 10) [] ex_late = Some (Ret ([(Fn 1, 1, -2), (Fn 2, 2, 0)], st')) \<and> co_due st' = []"
proof -
  have "\<exists>s'. timeout f a 10 s = Ret s' \<and> co_inv s' \<and> co_due s' = co_due s" if "co_inv s" "0 < co_free s" for f a s
    using timeout_effect [OF that, of f a 10] by blast
  from softclock_runs_due [where call = "\<lambda>f a t. timeout f a 10", OF this ex_late_facts(1)]
  show ?thesis by (auto simp: ex_late_facts)
qed



end
