(* ===== verification/Timer.thy ===== *)
theory Timer
  imports Callout_Props Uarea "HOL-Library.Signed_Division"
begin

text \<open>
  Time of day and interval timers, \<^verbatim>\<open>sys/kern_time.c\<close>, with the clock part of
  \<^verbatim>\<open>hardclock\<close>, \<^verbatim>\<open>bumptime\<close> and \<^verbatim>\<open>hzto\<close> of \<^verbatim>\<open>sys/kern_clock.c\<close>. The real timers run on
  the callout table. \<^verbatim>\<open>tv_sec\<close> is an unsigned long, so its differences wrap;
  \<^verbatim>\<open>tv_usec\<close> is signed. \<^verbatim>\<open>HZ\<close> is 50 on this machine. Division of signed values
  truncates towards zero.
\<close>

section \<open>Times\<close>

record timeval =
  tv_sec :: int
  tv_usec :: int

record itimerval =
  it_interval :: timeval
  it_value :: timeval

abbreviation (input) HZ :: int where "HZ \<equiv> 50"
abbreviation (input) MAX_ALARM :: int where "MAX_ALARM \<equiv> 42949672"      \<comment> \<open>\<^verbatim>\<open>0x7fffffff / HZ\<close>\<close>
abbreviation (input) MAX_VTALARM :: int where "MAX_VTALARM \<equiv> 4294967295"
abbreviation (input) MAX_PROF :: int where "MAX_PROF \<equiv> 4294967295"

abbreviation (input) tv_zero :: timeval where "tv_zero \<equiv> \<lparr>tv_sec = 0, tv_usec = 0\<rparr>"

definition timerisset :: "timeval \<Rightarrow> bool" where
  "timerisset tv \<longleftrightarrow> tv_sec tv \<noteq> 0 \<or> tv_usec tv \<noteq> 0"

definition timer_later :: "timeval \<Rightarrow> timeval \<Rightarrow> bool" where
  "timer_later a b \<longleftrightarrow> tv_sec a > tv_sec b \<or> tv_sec a = tv_sec b \<and> tv_usec a > tv_usec b"

definition timevalfix :: "timeval \<Rightarrow> timeval" where
  "timevalfix t =
     (let t1 = (if tv_usec t < 0 then \<lparr>tv_sec = to_u32 (tv_sec t - 1), tv_usec = tv_usec t + 1000000\<rparr> else t)
      in if tv_usec t1 \<ge> 1000000 then \<lparr>tv_sec = to_u32 (tv_sec t1 + 1), tv_usec = tv_usec t1 - 1000000\<rparr> else t1)"

definition timevaladd :: "timeval \<Rightarrow> timeval \<Rightarrow> timeval" where
  "timevaladd t1 t2 = timevalfix \<lparr>tv_sec = to_u32 (tv_sec t1 + tv_sec t2), tv_usec = to_s32 (tv_usec t1 + tv_usec t2)\<rparr>"

definition timevalsub :: "timeval \<Rightarrow> timeval \<Rightarrow> timeval" where
  "timevalsub t1 t2 = timevalfix \<lparr>tv_sec = to_u32 (tv_sec t1 - tv_sec t2), tv_usec = to_s32 (tv_usec t1 - tv_usec t2)\<rparr>"

text \<open>The result is the error and the time, rounded up to one clock tick.\<close>

definition itimerfix :: "int \<Rightarrow> timeval \<Rightarrow> errno \<times> timeval" where
  "itimerfix tick tv =
     (if tv_usec tv < 0 \<or> tv_usec tv \<ge> 1000000 then (EINVAL, tv)
      else if tv_sec tv = 0 \<and> tv_usec tv \<noteq> 0 \<and> tv_usec tv < tick then (E_OK, tv\<lparr>tv_usec := tick\<rparr>)
      else (E_OK, tv))"

text \<open>The code at the label \<open>expire\<close>, with what is left of \<open>usec\<close>.\<close>

definition itimer_expire :: "itimerval \<Rightarrow> int \<Rightarrow> int \<times> itimerval" where
  "itimer_expire it usec =
     (if timerisset (it_interval it) then
        (let v = (it_interval it)\<lparr>tv_usec := tv_usec (it_interval it) - usec\<rparr>
         in (0, it\<lparr>it_value := (if tv_usec v < 0
               then \<lparr>tv_sec = to_u32 (tv_sec v - 1), tv_usec = tv_usec v + 1000000\<rparr> else v)\<rparr>))
      else (0, it\<lparr>it_value := (it_value it)\<lparr>tv_usec := 0\<rparr>\<rparr>))"

definition itimerdecr :: "itimerval \<Rightarrow> int \<Rightarrow> int \<times> itimerval" where
  "itimerdecr it usec =
     (if tv_usec (it_value it) < usec \<and> tv_sec (it_value it) = 0
      then itimer_expire it (usec - tv_usec (it_value it))
      else let v1 = (if tv_usec (it_value it) < usec
                     then \<lparr>tv_sec = to_u32 (tv_sec (it_value it) - 1), tv_usec = tv_usec (it_value it) + 1000000\<rparr>
                     else it_value it);
               it1 = it\<lparr>it_value := v1\<lparr>tv_usec := tv_usec v1 - usec\<rparr>\<rparr>
           in if timerisset (it_value it1) then (1, it1) else itimer_expire it1 0)"

section \<open>The clock\<close>

datatype sig = SIGALRM | SIGVTALRM | SIGPROF

record timerstate =
  tt_co :: costate
  tt_time :: timeval            \<comment> \<open>\<^verbatim>\<open>time\<close>\<close>
  tt_boottime :: timeval
  tt_tz :: "int \<times> int"
  tt_tick :: int
  old_tick :: int
  tickadj :: int
  tickdelta :: int
  timedelta :: int
  bigadj :: int
  p_realtimer :: "nat \<Rightarrow> itimerval"
  u_timer :: "nat \<Rightarrow> int \<Rightarrow> itimerval"    \<comment> \<open>of each process's user area\<close>
  psignals :: "(nat \<times> sig) list"       \<comment> \<open>the calls of \<^verbatim>\<open>psignal\<close>\<close>

function bump_loop :: "int \<Rightarrow> int \<Rightarrow> timeval" where
  "bump_loop s us = (if us \<ge> 1000000 then bump_loop (to_u32 (s + 1)) (us - 1000000) else \<lparr>tv_sec = s, tv_usec = us\<rparr>)"
  by pat_completeness auto
termination
  by (relation "measure (\<lambda>(s, us). nat us)") auto

definition bumptime :: "timeval \<Rightarrow> int \<Rightarrow> timeval" where
  "bumptime tv usec = bump_loop (tv_sec tv) (tv_usec tv + usec)"

text \<open>The elapsed microseconds and what is left of \<^verbatim>\<open>timedelta\<close>, by the \<^verbatim>\<open>switch\<close> of \<^verbatim>\<open>hardclock\<close>.\<close>

definition clock_elapsed :: "int \<Rightarrow> timerstate \<Rightarrow> int \<times> int" where
  "clock_elapsed ticks st =
     (if ticks = 1 then
        (if timedelta st = 0 then (old_tick st, timedelta st)
         else (old_tick st + tickdelta st, to_s32 (timedelta st - tickdelta st)))
      else if ticks = 2 then
        (if timedelta st = 0 then (old_tick st + old_tick st, timedelta st)
         else ((old_tick st + old_tick st) + (tickdelta st + tickdelta st), to_s32 (timedelta st - (tickdelta st + tickdelta st))))
      else
        (if timedelta st = 0 then (ticks * old_tick st, timedelta st)
         else (ticks * (old_tick st + tickdelta st), to_s32 (timedelta st - ticks * tickdelta st))))"

text \<open>\<^verbatim>\<open>hardclock\<close> as far as it concerns the time of day and the callouts.\<close>

definition hardclock :: "int \<Rightarrow> timerstate \<Rightarrow> timerstate outcome" where
  "hardclock ticks st =
     (case clock_elapsed ticks st of
        (elapsed, td) \<Rightarrow>
          obind (hardclock_callouts ticks (tt_co st)) (\<lambda>co.
            Ret (st\<lparr>timedelta := td, tt_co := co, tt_time := bumptime (tt_time st) elapsed\<rparr>)))"

definition hzto :: "timerstate \<Rightarrow> timeval \<Rightarrow> int" where
  "hzto st tv =
     (let sec = to_u32 (tv_sec tv - tv_sec (tt_time st))
      in if sec \<le> 0x7fffffff div HZ - HZ
         then to_s32 (sec * HZ + (tv_usec tv - tv_usec (tt_time st) + tt_tick st - 1) sdiv tt_tick st)
         else 0x7fffffff)"

definition settimeofday1 :: "timeval \<Rightarrow> (int \<times> int) option \<Rightarrow> timerstate \<Rightarrow> timerstate" where
  "settimeofday1 atv atz st =
     st\<lparr>tt_boottime := (tt_boottime st)\<lparr>tv_sec := to_u32 (tv_sec (tt_boottime st) + (tv_sec atv - tv_sec (tt_time st)))\<rparr>,
        tt_time := atv, tt_tz := (case atz of Some z \<Rightarrow> z | None \<Rightarrow> tt_tz st)\<rparr>"

text \<open>
  The arguments are the results of the two copies, the second only if a zone was passed.
  The site is not clustered: no flush of the inode times, no broadcast.
\<close>

definition settimeofday :: "timeval option \<Rightarrow> (int \<times> int) option option \<Rightarrow> uarea \<Rightarrow> timerstate \<Rightarrow> uarea \<times> timerstate" where
  "settimeofday tv_in tz_in u st =
     (case suser u of
        (False, u1) \<Rightarrow> (u1, st)
      | (True, u1) \<Rightarrow>
          (case tv_in of
             None \<Rightarrow> (set_error EFAULT u1, st)
           | Some atv \<Rightarrow>
               (case tz_in of
                  Some None \<Rightarrow> (set_error EFAULT u1, settimeofday1 atv None st)
                | Some (Some z) \<Rightarrow> (set_error E_OK u1, settimeofday1 atv (Some z) st)
                | None \<Rightarrow> (set_error E_OK u1, settimeofday1 atv None st))))"

definition setthetime :: "timeval \<Rightarrow> uarea \<Rightarrow> timerstate \<Rightarrow> uarea \<times> timerstate" where
  "setthetime tv u st =
     (case suser u of
        (False, u1) \<Rightarrow> (u1, st)
      | (True, u1) \<Rightarrow>
          (u1, st\<lparr>tt_boottime := (tt_boottime st)\<lparr>tv_sec := to_u32 (tv_sec (tt_boottime st) + (tv_sec tv - tv_sec (tt_time st)))\<rparr>,
                  tt_time := tv\<rparr>))"

text \<open>\<open>old_out\<close> is whether the old value was asked for, and then whether the copy out succeeded.\<close>

definition adjtime :: "timeval option \<Rightarrow> bool option \<Rightarrow> uarea \<Rightarrow> timerstate \<Rightarrow> uarea \<times> timeval option \<times> timerstate" where
  "adjtime tv_in old_out u st =
     (case suser u of
        (False, u1) \<Rightarrow> (u1, None, st)
      | (True, u1) \<Rightarrow>
          (case tv_in of
             None \<Rightarrow> (set_error EFAULT u1, None, st)
           | Some atv \<Rightarrow>
               (let u2 = set_error E_OK u1;
                    ndelta = to_s32 (tv_sec atv * 1000000 + tv_usec atv);
                    ntick = (if ndelta > bigadj st then 10 * tickadj st else tickadj st);
                    nd = (if ndelta smod ntick \<noteq> 0 then ndelta sdiv ntick * ntick else ndelta);
                    nt = (if nd < 0 then - ntick else ntick);
                    odelta = timedelta st;
                    st1 = st\<lparr>timedelta := nd, tickdelta := nt\<rparr>
                in case old_out of
                     None \<Rightarrow> (u2, None, st1)
                   | Some ok \<Rightarrow>
                       (set_error (if ok then E_OK else EFAULT) u2,
                        if ok then Some \<lparr>tv_sec = to_u32 (odelta sdiv 1000000), tv_usec = odelta smod 1000000\<rparr> else None,
                        st1))))"

section \<open>Interval timers\<close>

abbreviation (input) ITIMER_REAL :: int where "ITIMER_REAL \<equiv> 0"
abbreviation (input) ITIMER_VIRTUAL :: int where "ITIMER_VIRTUAL \<equiv> 1"
abbreviation (input) ITIMER_PROF :: int where "ITIMER_PROF \<equiv> 2"

definition timer_value :: "nat \<Rightarrow> int \<Rightarrow> timerstate \<Rightarrow> itimerval outcome" where
  "timer_value p which st =
     (if which = ITIMER_REAL then
        (let aitv = p_realtimer st p
         in if timerisset (it_value aitv) then
              obind (find_timeout Realitexpire p False (tt_co st)) (\<lambda>(hzleft, co).
                Ret (aitv\<lparr>it_value :=
                  (if hzleft = -1 then tv_zero
                   else if hzleft > 0 then \<lparr>tv_sec = hzleft div HZ, tv_usec = (hzleft mod HZ) * (1000000 div HZ)\<rparr>
                   else \<lparr>tv_sec = 0, tv_usec = 1\<rparr>)\<rparr>))
            else Ret aitv)
      else Ret (u_timer st p which))"

text \<open>\<open>out_ok\<close> is the result of the copy to the user.\<close>

definition getitimer :: "nat \<Rightarrow> int \<Rightarrow> bool \<Rightarrow> uarea \<Rightarrow> timerstate \<Rightarrow> (uarea \<times> itimerval option) outcome" where
  "getitimer p which out_ok u st =
     (if which \<notin> {ITIMER_REAL, ITIMER_VIRTUAL, ITIMER_PROF} then Ret (set_error EINVAL u, None)
      else obind (timer_value p which st) (\<lambda>aitv.
        if out_ok then Ret (set_error E_OK u, Some aitv) else Ret (set_error EFAULT u, None)))"

definition clip :: "int \<Rightarrow> timeval \<Rightarrow> timeval" where
  "clip m tv = (if tv_sec tv \<ge> m then \<lparr>tv_sec = m, tv_usec = 0\<rparr> else tv)"

definition clip_both :: "int \<Rightarrow> itimerval \<Rightarrow> itimerval" where
  "clip_both m it = it\<lparr>it_value := clip m (it_value it), it_interval := clip m (it_interval it)\<rparr>"

definition set_real :: "nat \<Rightarrow> itimerval \<Rightarrow> timerstate \<Rightarrow> timerstate outcome" where
  "set_real p aitv st =
     obind (untimeout Realitexpire p (tt_co st)) (\<lambda>(h, co1).
       let a1 = clip_both MAX_ALARM aitv
       in if timerisset (it_value a1) then
            (let a2 = a1\<lparr>it_value := timevaladd (it_value a1) (tt_time st)\<rparr>
             in obind (timeout Realitexpire p (hzto st (it_value a2)) co1) (\<lambda>co2.
                  Ret (st\<lparr>tt_co := co2, p_realtimer := (p_realtimer st)(p := a2)\<rparr>)))
          else Ret (st\<lparr>tt_co := co1, p_realtimer := (p_realtimer st)(p := a1)\<rparr>))"

definition set_utimer :: "nat \<Rightarrow> int \<Rightarrow> itimerval \<Rightarrow> timerstate \<Rightarrow> timerstate" where
  "set_utimer p which a st = st\<lparr>u_timer := (u_timer st)(p := (u_timer st p)(which := a))\<rparr>"

text \<open>
  \<open>itv_in\<close> is the value copied in; \<open>oitv\<close> whether the old value was asked for, and then
  whether copying it out succeeded.
\<close>

definition setitimer :: "nat \<Rightarrow> int \<Rightarrow> itimerval option \<Rightarrow> bool option \<Rightarrow> uarea \<Rightarrow> timerstate
    \<Rightarrow> (uarea \<times> itimerval option \<times> timerstate) outcome" where
  "setitimer p which itv_in oitv u st =
     (if which \<notin> {ITIMER_REAL, ITIMER_VIRTUAL, ITIMER_PROF} then Ret (set_error EINVAL u, None, st)
      else case itv_in of
        None \<Rightarrow> Ret (set_error EFAULT u, None, st)
      | Some aitv \<Rightarrow>
          obind (case oitv of None \<Rightarrow> Ret (set_error E_OK u, None) | Some ok \<Rightarrow> getitimer p which ok (set_error E_OK u) st) (\<lambda>(u1, old).
            case itimerfix (tt_tick st) (it_value aitv) of
              (e1, v) \<Rightarrow>
                if e1 \<noteq> E_OK then Ret (set_error EINVAL u1, old, st)
                else case itimerfix (tt_tick st) (it_interval aitv) of
                  (e2, i) \<Rightarrow>
                    if e2 \<noteq> E_OK then Ret (set_error EINVAL u1, old, st)
                    else let a = \<lparr>it_interval = i, it_value = v\<rparr>
                         in if which = ITIMER_REAL then obind (set_real p a st) (\<lambda>st1. Ret (u1, old, st1))
                            else if which = ITIMER_VIRTUAL
                                 then Ret (u1, old, set_utimer p which (clip_both MAX_VTALARM a) st)
                            else Ret (u1, old, set_utimer p which (clip_both MAX_PROF a) st)))"

text \<open>The loop that looks for the next time after now; \<open>None\<close> is a loop that does not end.\<close>

partial_function (option) realit_loop :: "timeval \<Rightarrow> timeval \<Rightarrow> timeval \<Rightarrow> timeval option" where
  "realit_loop interval now v =
     (let v1 = timevaladd v interval in if timer_later v1 now then Some v1 else realit_loop interval now v1)"

definition realitexpire :: "nat \<Rightarrow> timerstate \<Rightarrow> timerstate outcome option" where
  "realitexpire p st =
     (let st1 = st\<lparr>psignals := psignals st @ [(p, SIGALRM)]\<rparr>; it = p_realtimer st p
      in if \<not> timerisset (it_interval it)
         then Some (Ret (st1\<lparr>p_realtimer := (p_realtimer st)(p := it\<lparr>it_value := tv_zero\<rparr>)\<rparr>))
         else case realit_loop (it_interval it) (tt_time st)
                (if to_u32 (tv_sec (it_value it) - tv_sec (tt_time st)) > 1 then tt_time st else it_value it) of
                None \<Rightarrow> None
              | Some v \<Rightarrow>
                  Some (obind (timeout Realitexpire p (hzto st v) (tt_co st)) (\<lambda>co.
                    Ret (st1\<lparr>p_realtimer := (p_realtimer st)(p := it\<lparr>it_value := v\<rparr>), tt_co := co\<rparr>))))"

end
