(* ===== verification/Timer_Props.thy ===== *)
theory Timer_Props
  imports Timer Callout_Run
begin

text \<open>
  Times as microseconds, the timers on the callout table, and the properties of
  \<^verbatim>\<open>kern_time.c\<close>.
\<close>

section \<open>Microseconds\<close>

definition us :: "timeval \<Rightarrow> int" where
  "us tv = tv_sec tv * 1000000 + tv_usec tv"

definition tv_ok :: "timeval \<Rightarrow> bool" where
  "tv_ok tv \<longleftrightarrow> 0 \<le> tv_sec tv \<and> tv_sec tv < 4294967296 \<and> 0 \<le> tv_usec tv \<and> tv_usec tv < 1000000"

abbreviation (input) us_limit :: int where "us_limit \<equiv> 4294967296000000"

lemma us_pos: "tv_ok tv \<Longrightarrow> 0 \<le> us tv"
  by (simp add: tv_ok_def us_def)

lemma timerisset_us: "tv_ok tv \<Longrightarrow> timerisset tv \<longleftrightarrow> 0 < us tv"
  by (auto simp: tv_ok_def us_def timerisset_def)

lemma timer_later_us: "tv_ok a \<Longrightarrow> tv_ok b \<Longrightarrow> timer_later a b \<longleftrightarrow> us b < us a"
  by (auto simp: tv_ok_def us_def timer_later_def)

lemma timevaladd_us:
  assumes "tv_ok a" and "tv_ok b" and "us a + us b < us_limit"
  shows "tv_ok (timevaladd a b)" and "us (timevaladd a b) = us a + us b"
    and "timevaladd a b = (if tv_usec a + tv_usec b < 1000000
      then \<lparr>tv_sec = tv_sec a + tv_sec b, tv_usec = tv_usec a + tv_usec b\<rparr>
      else \<lparr>tv_sec = tv_sec a + tv_sec b + 1, tv_usec = tv_usec a + tv_usec b - 1000000\<rparr>)"
proof -
  have b: "0 \<le> tv_sec a" "0 \<le> tv_sec b" "0 \<le> tv_usec a" "tv_usec a < 1000000" "0 \<le> tv_usec b" "tv_usec b < 1000000"
    using assms(1,2) by (simp_all add: tv_ok_def)
  have l: "tv_sec a * 1000000 + tv_usec a + (tv_sec b * 1000000 + tv_usec b) < us_limit" using assms(3) by (simp add: us_def)
  then have s: "tv_sec a + tv_sec b < 4294967296" using b by linarith
  have s1: "tv_sec a + tv_sec b + 1 < 4294967296" if "1000000 \<le> tv_usec a + tv_usec b" using that l b by linarith
  show e: "timevaladd a b = (if tv_usec a + tv_usec b < 1000000
      then \<lparr>tv_sec = tv_sec a + tv_sec b, tv_usec = tv_usec a + tv_usec b\<rparr>
      else \<lparr>tv_sec = tv_sec a + tv_sec b + 1, tv_usec = tv_usec a + tv_usec b - 1000000\<rparr>)"
    using b s s1 by (simp add: timevaladd_def timevalfix_def Let_def to_u32_id to_s32_id)
  show "tv_ok (timevaladd a b)" "us (timevaladd a b) = us a + us b"
    using b s s1 unfolding e by (auto simp: tv_ok_def us_def)
qed

section \<open>The loop of realitexpire\<close>

lemma realit_loop_returns:
  assumes "tv_ok i" and "0 < us i" and "tv_ok now" and "tv_ok v"
    and "us now + us i < us_limit" and "us v + us i < us_limit"
  shows "\<exists>v' k. realit_loop i now v = Some v' \<and> tv_ok v' \<and> 0 < (k::nat) \<and> us v' = us v + int k * us i \<and> us now < us v' \<and>
    (k = 1 \<or> us v' \<le> us now + us i)"
  using assms(4,6)
proof (induction "nat (us now - us v)" arbitrary: v rule: less_induct)
  case less
  note a = timevaladd_us [OF less.prems(1) assms(1) less.prems(2)]
  show ?case
  proof (cases "us now < us v + us i")
    case True
    then have "realit_loop i now v = Some (timevaladd v i)"
      using timer_later_us [OF a(1) assms(3)] a(2) by (subst realit_loop.simps) (simp add: Let_def)
    then show ?thesis using a True by (intro exI [of _ "timevaladd v i"] exI [of _ 1]) simp
  next
    case False
    then have r: "realit_loop i now v = realit_loop i now (timevaladd v i)"
      using timer_later_us [OF a(1) assms(3)] a(2) by (subst realit_loop.simps) (simp add: Let_def)
    have "nat (us now - us (timevaladd v i)) < nat (us now - us v)" "us (timevaladd v i) + us i < us_limit"
      using False assms(2,5) a(2) by auto
    from less.hyps [OF this(1) a(1) this(2)] obtain v' k where
      k: "realit_loop i now (timevaladd v i) = Some v'" "tv_ok v'" "0 < (k::nat)" "us v' = us (timevaladd v i) + int k * us i"
        "us now < us v'" "k = 1 \<or> us v' \<le> us now + us i" by (elim exE conjE)
    have "us v' = us v + int (Suc k) * us i" using k(4) a(2) by (simp add: algebra_simps)
    moreover have "us v' \<le> us now + us i" using k(4,6) False a(2) by (elim disjE) simp_all
    moreover have "realit_loop i now v = Some v'" unfolding r by (rule k(1))
    ultimately show ?thesis using k(2,5) by (intro exI [of _ v'] exI [of _ "Suc k"]) blast
  qed
qed

section \<open>Ticks and microseconds\<close>

lemma hzto_bounds:
  assumes t: "tt_tick st = 20000" and v: "tv_ok v" and n: "tv_ok (tt_time st)" and l: "us v + us (tt_time st) < us_limit"
    and s: "tv_sec v < 42949622"
  shows "us v \<le> hzto st (timevaladd v (tt_time st)) * 20000" and "hzto st (timevaladd v (tt_time st)) * 20000 < us v + 40000"
proof -
  let ?n = "tt_time st"
  define a b where "a = tv_sec v" and "b = tv_usec v"
  have ab: "0 \<le> a" "a < 42949622" "0 \<le> b" "b < 1000000" using v s by (simp_all add: tv_ok_def a_def b_def)
  note e = timevaladd_us(3) [OF v n l]
  have "us v \<le> hzto st (timevaladd v ?n) * 20000 \<and> hzto st (timevaladd v ?n) * 20000 < us v + 40000"
  proof (cases "b + tv_usec ?n < 1000000")
    case True
    then have "hzto st (timevaladd v ?n) = to_s32 (a * 50 + (b + 19999) sdiv 20000)"
      using ab by (simp add: e hzto_def t a_def b_def Let_def to_u32_id add.commute)
    also have "(b + 19999) sdiv 20000 = (b + 19999) div 20000" using ab by (simp add: signed_divide_int_def)
    finally have h: "hzto st (timevaladd v ?n) = to_s32 (a * 50 + (b + 19999) div 20000)" .
    have q: "(b + 19999) div 20000 * 20000 \<le> b + 19999" "b + 19999 < (b + 19999) div 20000 * 20000 + 20000"
      using pos_mod_bound [of 20000 "b + 19999"] pos_mod_sign [of 20000 "b + 19999"] div_mult_mod_eq [of "b + 19999" 20000]
      by linarith+
    have "to_s32 (a * 50 + (b + 19999) div 20000) = a * 50 + (b + 19999) div 20000"
      using q ab by (intro to_s32_id) linarith+
    then show ?thesis using q h by (simp add: us_def a_def [symmetric] b_def [symmetric])
  next
    case False
    define m where "m = b - 980001"
    have h: "hzto st (timevaladd v ?n) = to_s32 ((a + 1) * 50 + m sdiv 20000)"
      using ab False by (simp add: e hzto_def t a_def b_def m_def Let_def to_u32_id)
    define q where "q = m sdiv 20000"
    have q: "-980001 + b \<le> 20000 * q + 19999" "20000 * q \<le> (if m < 0 then m + 19999 else m)" "-50 \<le> q" "q \<le> 0" "m \<le> 20000 * q + 19999"
    proof -
      have m: "-980001 \<le> m" "m < 19999" using ab by (simp_all add: m_def)
      have d: "q = (if m < 0 then - ((- m) div 20000) else m div 20000)" by (simp add: q_def signed_divide_int_def sgn_if)
      have r: "x div 20000 * 20000 \<le> x" "x < x div 20000 * 20000 + 20000" for x :: int
        using pos_mod_bound [of 20000 x] pos_mod_sign [of 20000 x] div_mult_mod_eq [of x 20000] by linarith+
      have neg: "m \<le> 20000 * q \<and> 20000 * q < m + 20000" if "m < 0"
        using r [of "- m"] d that by simp
      have pos: "20000 * q \<le> m \<and> m < 20000 * q + 20000" if "\<not> m < 0"
        using r [of m] d that by simp
      have "-980001 + b = m" by (simp add: m_def)
      then show "-980001 + b \<le> 20000 * q + 19999" "m \<le> 20000 * q + 19999" "-50 \<le> q" "q \<le> 0"
        using neg pos m by (cases "m < 0"; linarith)+
      show "20000 * q \<le> (if m < 0 then m + 19999 else m)" using neg pos by (cases "m < 0") auto
    qed
    have "-50 \<le> (a + 1) * 50 + q" "(a + 1) * 50 + q \<le> 2147481100" using q(3,4) ab by simp_all
    then have "to_s32 ((a + 1) * 50 + q) = (a + 1) * 50 + q" by (intro to_s32_id) simp_all
    then have "hzto st (timevaladd v ?n) * 20000 = a * 1000000 + 1000000 + 20000 * q" using h by (simp add: q_def)
    then show ?thesis using q by (auto simp: us_def a_def [symmetric] b_def [symmetric] m_def split: if_splits)
  qed
  then show "us v \<le> hzto st (timevaladd v ?n) * 20000" "hzto st (timevaladd v ?n) * 20000 < us v + 40000" by simp_all
qed

section \<open>Reading a timer off the callout table\<close>

lemma first_match_at:
  assumes "\<forall>x \<in> set xs. \<not> matches fn arg x" and "matches fn arg y"
  shows "first_match fn arg (xs @ y # ys) = length xs"
  using assms by (simp add: first_match_def takeWhile_append2 takeWhile_eq_all_conv)

lemma first_match_removed:
  assumes "length (filter (matches fn arg) P) \<le> 1" and "k = first_match fn arg P"
  shows "\<forall>x \<in> set (if k < length P then take k P @ drop (Suc k) P else P). \<not> matches fn arg x"
proof -
  let ?Q = "\<lambda>x. \<not> matches fn arg x"
  have k: "take k P = takeWhile ?Q P" using assms(2) unfolding first_match_def by (simp only: takeWhile_eq_take [symmetric])
  have t: "\<forall>x \<in> set (take k P). ?Q x" unfolding k by (auto dest: set_takeWhileD)
  show ?thesis
  proof (cases "k < length P")
    case True
    have "matches fn arg (P ! k)" using nth_length_takeWhile [of ?Q P] True assms(2) by (simp add: first_match_def)
    moreover have "P = take k P @ P ! k # drop (Suc k) P" using True by (simp add: id_take_nth_drop)
    then have "filter (matches fn arg) P = filter (matches fn arg) (take k P @ P ! k # drop (Suc k) P)" by simp
    ultimately have "filter (matches fn arg) (drop (Suc k) P) = []" using assms(1) by (simp split: if_splits)
    then show ?thesis using t True by (auto simp: filter_empty_conv)
  next
    case False
    then show ?thesis using t by simp
  qed
qed

text \<open>At most one callout of the real timer of a process is pending.\<close>

definition real_once :: "nat \<Rightarrow> costate \<Rightarrow> bool" where
  "real_once p co \<longleftrightarrow> length (filter (matches Realitexpire p) (co_pending co)) \<le> 1"

lemma rearm:
  assumes "co_inv co" and "0 < co_free co" and "\<forall>x \<in> set (co_pending co). \<not> matches Realitexpire p x"
  shows "\<exists>co'. timeout Realitexpire p t co = Ret co' \<and> co_inv co' \<and> real_once p co' \<and>
    find_timeout Realitexpire p False co' = Ret (max t 1, co')"
proof -
  let ?P = "co_pending co" and ?t = "max t 1"
  obtain co' where co': "timeout Realitexpire p t co = Ret co'" "co_inv co'"
    "co_pending co' = takeWhile (\<lambda>x. fst x < ?t) ?P @ (?t, Realitexpire, p) # dropWhile (\<lambda>x. fst x < ?t) ?P"
    using timeout_effect [OF assms(1,2), of Realitexpire p t] by blast
  have n: "\<forall>x \<in> set (takeWhile (\<lambda>x. fst x < ?t) ?P). \<not> matches Realitexpire p x"
    "\<forall>x \<in> set (dropWhile (\<lambda>x. fst x < ?t) ?P). \<not> matches Realitexpire p x"
    using assms(3) by (auto dest: set_takeWhileD set_dropWhileD)
  have y: "matches Realitexpire p (?t, Realitexpire, p)" by (simp add: matches_def)
  have "filter (matches Realitexpire p) (co_pending co') = [(?t, Realitexpire, p)]"
    using n y unfolding co'(3) by (simp add: filter_empty_conv [THEN iffD2])
  then have "real_once p co'" by (simp add: real_once_def)
  moreover have "find_timeout Realitexpire p False co' = Ret (?t, co')"
  proof -
    define k where "k = first_match Realitexpire p (co_pending co')"
    have k: "k = length (takeWhile (\<lambda>x. fst x < ?t) ?P)" unfolding k_def co'(3) by (rule first_match_at [OF n(1) y])
    obtain h st' where r: "find_timeout Realitexpire p False co' = Ret (h, st')"
      "if k < length (co_pending co') then h = fst (co_pending co' ! k) \<and> co_pending st' = co_pending co' else h = -1 \<and> st' = co'"
      using find_timeout_effect [OF co'(2), of Realitexpire p False] unfolding k_def by auto
    have "h = ?t" using r(2) unfolding co'(3) k by simp
    moreover have "st' = co'" using r(1) by (auto simp: find_timeout_def obind_Ret_iff split: prod.splits option.splits)
    ultimately show ?thesis using r(1) by simp
  qed
  ultimately show ?thesis using co' by blast
qed

section \<open>An example\<close>

definition ex_tt :: timerstate where
  "ex_tt = \<lparr>tt_co = ex_co, tt_time = \<lparr>tv_sec = 100, tv_usec = 500000\<rparr>, tt_boottime = tv_zero, tt_tz = (0, 0),
     tt_tick = 20000, old_tick = 20000, tickadj = 10, tickdelta = 10, timedelta = 30, bigadj = 1000000,
     p_realtimer = (\<lambda>p. \<lparr>it_interval = \<lparr>tv_sec = 0, tv_usec = 300000\<rparr>,
       it_value = (if p = 3 then \<lparr>tv_sec = 99, tv_usec = 800000\<rparr> else \<lparr>tv_sec = 100, tv_usec = 100000\<rparr>)\<rparr>),
     u_timer = (\<lambda>p w. \<lparr>it_interval = tv_zero, it_value = tv_zero\<rparr>), psignals = []\<rparr>"

lemma ex_tt_facts:
  "tt_tick ex_tt = 20000" "tv_ok (tt_time ex_tt)" "us (tt_time ex_tt) = 100500000" "co_inv (tt_co ex_tt)"
  "0 < co_free (tt_co ex_tt)" "\<forall>x \<in> set (co_pending (tt_co ex_tt)). \<not> matches Realitexpire p x" "real_once p (tt_co ex_tt)"
  using ex_co_facts by (simp_all add: ex_tt_def tv_ok_def us_def matches_def real_once_def)

lemma ex_tt_rate: "old_tick ex_tt = 20000" "tickdelta ex_tt = 10" "timedelta ex_tt = 30"
  by (simp_all add: ex_tt_def)

lemma ex_tt_timer:
  "it_interval (p_realtimer ex_tt p) = \<lparr>tv_sec = 0, tv_usec = 300000\<rparr>"
  "it_value (p_realtimer ex_tt 3) = \<lparr>tv_sec = 99, tv_usec = 800000\<rparr>"
  "it_value (p_realtimer ex_tt 4) = \<lparr>tv_sec = 100, tv_usec = 100000\<rparr>"
  "tt_time ex_tt = \<lparr>tv_sec = 100, tv_usec = 500000\<rparr>" "psignals ex_tt = []"
  by (simp_all add: ex_tt_def)

section \<open>Properties\<close>

lemma one_interval:
  fixes n i :: int
  assumes "0 < i" and "0 < (k::nat)" and "k = 1 \<or> v \<le> n + i" and "v = n + int k * i"
  shows "k = 1"
proof (rule ccontr)
  assume "k \<noteq> 1"
  then have "int k * i \<le> 1 * i" using assms(3,4) by simp
  then have "int k \<le> 1" using assms(1) by (rule mult_right_le_imp_le)
  then show False using assms(2) \<open>k \<noteq> 1\<close> by simp
qed

lemma realitexpire_returns:
  fixes st p
  defines "it \<equiv> p_realtimer st p" and "now \<equiv> tt_time st"
  defines "base \<equiv> (if tv_sec (it_value it) = tv_sec now \<or> tv_sec (it_value it) = tv_sec now + 1 then it_value it else now)"
  assumes ok: "tv_ok now" "tv_ok (it_value it)" "tv_ok (it_interval it)" "0 < us (it_interval it)"
    and lim: "us now + us (it_interval it) + 2000000 < us_limit"
    and co: "co_inv (tt_co st)" "0 < co_free (tt_co st)" "\<forall>x \<in> set (co_pending (tt_co st)). \<not> matches Realitexpire p x"
  shows "\<exists>st' k. realitexpire p st = Some (Ret st') \<and> psignals st' = psignals st @ [(p, SIGALRM)] \<and> 0 < (k::nat) \<and>
    us (it_value (p_realtimer st' p)) = us base + int k * us (it_interval it) \<and>
    us now < us (it_value (p_realtimer st' p)) \<and>
    (k = 1 \<or> us (it_value (p_realtimer st' p)) \<le> us now + us (it_interval it)) \<and>
    it_interval (p_realtimer st' p) = it_interval it \<and> co_inv (tt_co st') \<and> real_once p (tt_co st') \<and>
    find_timeout Realitexpire p False (tt_co st') = Ret (max (hzto st (it_value (p_realtimer st' p))) 1, tt_co st')"
proof -
  let ?i = "it_interval it" and ?v = "it_value it"
  have b: "0 \<le> tv_sec ?v" "0 \<le> tv_sec now" "tv_sec ?v < 4294967296" "0 \<le> tv_usec now" using ok by (simp_all add: tv_ok_def)
  have i: "0 \<le> us ?i" using us_pos [OF ok(3)] .
  then have n: "tv_sec now < 4294967294" using lim b(4) unfolding us_def [of now] by linarith
  have base: "base = (if to_u32 (tv_sec ?v - tv_sec now) > 1 then now else ?v)"
  proof (cases "tv_sec ?v < tv_sec now")
    case True
    then have "to_u32 (tv_sec ?v - tv_sec now) = tv_sec ?v - tv_sec now + 4294967296"
    proof -
      have "(tv_sec ?v - tv_sec now + 4294967296) mod 4294967296 = tv_sec ?v - tv_sec now + 4294967296"
        using True b n by (intro mod_pos_pos_trivial) simp_all
      then show ?thesis unfolding to_u32_def by simp
    qed
    then show ?thesis using True b n by (simp add: base_def)
  next
    case False
    then show ?thesis using b n by (auto simp: base_def to_u32_id)
  qed
  have bo: "tv_ok base" using ok by (simp add: base_def)
  have "us base < us now + 2000000"
    using ok b by (auto simp: base_def us_def tv_ok_def)
  then have l: "us now + us ?i < us_limit" "us base + us ?i < us_limit" using lim by simp_all
  obtain v' k where v': "realit_loop ?i now base = Some v'" "0 < (k::nat)" "us v' = us base + int k * us ?i" "us now < us v'"
    "k = 1 \<or> us v' \<le> us now + us ?i" "tv_ok v'"
    using realit_loop_returns [OF ok(3,4,1) bo l] by (elim exE conjE)
  obtain co' where co': "timeout Realitexpire p (hzto st v') (tt_co st) = Ret co'" "co_inv co'" "real_once p co'"
    "find_timeout Realitexpire p False co' = Ret (max (hzto st v') 1, co')"
    using rearm [OF co] by blast
  have set: "timerisset ?i" using timerisset_us [OF ok(3)] ok(4) by simp
  define st' where "st' = st\<lparr>psignals := psignals st @ [(p, SIGALRM)], p_realtimer := (p_realtimer st)(p := it\<lparr>it_value := v'\<rparr>), tt_co := co'\<rparr>"
  have "realitexpire p st = Some (Ret st')"
    using v'(1) co'(1) set unfolding base now_def st'_def realitexpire_def Let_def it_def
    by (cases "to_u32 (tv_sec (it_value (p_realtimer st p)) - tv_sec (tt_time st)) > 1") simp_all
  moreover have "p_realtimer st' p = it\<lparr>it_value := v'\<rparr>" "psignals st' = psignals st @ [(p, SIGALRM)]" "tt_co st' = co'"
    by (simp_all add: st'_def)
  ultimately show ?thesis
    using v'(2-5) co'(2-4) by (intro exI [of _ st'] exI [of _ k]) simp
qed



text \<open>
  When the due time of a real timer lies in an earlier second than the current time,
  however short the delay, the unsigned comparison takes it for a clock that was set back:
  the next due time is one interval after the current time, and the delay is added to
  every later expiry.
\<close>

theorem realitexpire_late_drifts:
  fixes st p
  defines "it \<equiv> p_realtimer st p" and "now \<equiv> tt_time st"
  assumes "tv_ok now" "tv_ok (it_value it)" "tv_ok (it_interval it)" "0 < us (it_interval it)"
    and "us now + us (it_interval it) + 2000000 < us_limit"
    and "co_inv (tt_co st)" "0 < co_free (tt_co st)" "\<forall>x \<in> set (co_pending (tt_co st)). \<not> matches Realitexpire p x"
    and "tv_sec (it_value it) < tv_sec now"
  shows "\<exists>st'. realitexpire p st = Some (Ret st') \<and>
    us (it_value (p_realtimer st' p)) = us now + us (it_interval it) \<and>
    ((us now - us (it_value it)) mod us (it_interval it) \<noteq> 0 \<longrightarrow>
       (\<forall>k::int. us (it_value (p_realtimer st' p)) \<noteq> us (it_value it) + k * us (it_interval it)))"
proof -
  have n: "\<not> (tv_sec (it_value it) = tv_sec now \<or> tv_sec (it_value it) = tv_sec now + 1)" using assms(11) by simp
  obtain st' k where r: "realitexpire p st = Some (Ret st')" "0 < (k::nat)"
    "us (it_value (p_realtimer st' p)) = us now + int k * us (it_interval it)"
    "k = 1 \<or> us (it_value (p_realtimer st' p)) \<le> us now + us (it_interval it)"
    using realitexpire_returns [of st p, folded it_def now_def, unfolded if_not_P [OF n], OF assms(3-10)] by (elim exE conjE)
  have k: "k = 1" by (rule one_interval [OF assms(6) r(2,4,3)])
  have "(us now - us (it_value it)) mod us (it_interval it) = 0"
    if "us (it_value (p_realtimer st' p)) = us (it_value it) + j * us (it_interval it)" for j
  proof -
    have "us now - us (it_value it) = (j - 1) * us (it_interval it)" using r(3) k that by (simp add: algebra_simps)
    then show ?thesis by simp
  qed
  then show ?thesis using r(1,3) k by auto
qed

theorem realitexpire_late_drifts_witness:
  "\<exists>st'. realitexpire 3 ex_tt = Some (Ret st') \<and> us (it_value (p_realtimer st' 3)) = 100800000 \<and>
    (\<forall>k. us (it_value (p_realtimer st' 3)) \<noteq> 99800000 + k * 300000)"
proof -
  have h: "tv_ok (tt_time ex_tt)" "tv_ok (it_value (p_realtimer ex_tt 3))" "tv_ok (it_interval (p_realtimer ex_tt 3))"
    "0 < us (it_interval (p_realtimer ex_tt 3))"
    "us (tt_time ex_tt) + us (it_interval (p_realtimer ex_tt 3)) + 2000000 < us_limit"
    "tv_sec (it_value (p_realtimer ex_tt 3)) < tv_sec (tt_time ex_tt)"
    by (simp_all add: ex_tt_timer tv_ok_def us_def)
  show ?thesis using realitexpire_late_drifts [OF h(1-5) ex_tt_facts(4-6) h(6)] by (auto simp: ex_tt_timer us_def)
qed

section \<open>Setting and reading a timer\<close>

lemma timer_of_ticks: "us \<lparr>tv_sec = h div HZ, tv_usec = (h mod HZ) * (1000000 div HZ)\<rparr> = h * 20000"
proof -
  have "h div 50 * 1000000 + h mod 50 * 20000 = (h div 50 * 50 + h mod 50) * 20000" by (simp only: distrib_right mult.assoc)
  then show ?thesis by (simp add: us_def)
qed

lemma itimerfix_id: "tv_ok v \<Longrightarrow> us v = 0 \<or> tick \<le> us v \<Longrightarrow> itimerfix tick v = (E_OK, v)"
  by (auto simp: itimerfix_def tv_ok_def us_def)

lemma untimeout_clears:
  assumes "co_inv co" and "real_once p co"
  shows "\<exists>h co'. untimeout Realitexpire p co = Ret (h, co') \<and> co_inv co' \<and> co_free co \<le> co_free co' \<and>
    (\<forall>x \<in> set (co_pending co'). \<not> matches Realitexpire p x)"
proof -
  define k where "k = first_match Realitexpire p (co_pending co)"
  obtain h co' where r: "find_timeout Realitexpire p True co = Ret (h, co')" "co_inv co'" "co_free co \<le> co_free co'"
    "if k < length (co_pending co)
     then h = fst (co_pending co ! k) \<and> co_pending co' = (if True then take k (co_pending co) @ drop (Suc k) (co_pending co) else co_pending co)
     else h = -1 \<and> co' = co"
    using find_timeout_effect [OF assms(1), of Realitexpire p True] unfolding k_def by (elim exE conjE)
  have "co_pending co' = (if k < length (co_pending co) then take k (co_pending co) @ drop (Suc k) (co_pending co) else co_pending co)"
    using r(4) by auto
  then have "\<forall>x \<in> set (co_pending co'). \<not> matches Realitexpire p x"
    using first_match_removed [OF assms(2) [unfolded real_once_def] k_def] by simp
  then show ?thesis using r(1-3) by (auto simp: untimeout_def)
qed

text \<open>
  C22. A real timer that is set reads back, at once, as what was set, rounded up to clock
  ticks: never early, and less than two ticks late. The old callout of the process is
  taken off, so exactly one is pending.
\<close>

theorem setitimer_getitimer:
  assumes st: "tt_tick st = 20000" "tv_ok (tt_time st)" "co_inv (tt_co st)" "0 < co_free (tt_co st)" "real_once p (tt_co st)"
    and v: "tv_ok v" "20000 \<le> us v" "tv_sec v < 42949622" "us v + us (tt_time st) < us_limit"
    and i: "tv_ok i" "us i = 0 \<or> 20000 \<le> us i" "tv_sec i < 42949672"
  shows "\<exists>st1 a. setitimer p ITIMER_REAL (Some \<lparr>it_interval = i, it_value = v\<rparr>) None u st = Ret (set_error E_OK u, None, st1) \<and>
    getitimer p ITIMER_REAL True u st1 = Ret (set_error E_OK u, Some a) \<and> it_interval a = i \<and>
    us v \<le> us (it_value a) \<and> us (it_value a) < us v + 40000 \<and> co_inv (tt_co st1) \<and> real_once p (tt_co st1)"
proof -
  obtain h co1 where c1: "untimeout Realitexpire p (tt_co st) = Ret (h, co1)" "co_inv co1" "co_free (tt_co st) \<le> co_free co1"
    "\<forall>x \<in> set (co_pending co1). \<not> matches Realitexpire p x"
    using untimeout_clears [OF st(3,5)] by (elim exE conjE)
  define w where "w = timevaladd v (tt_time st)"
  have w: "tv_ok w" "us w = us v + us (tt_time st)" using timevaladd_us [OF v(1) st(2) v(4)] by (simp_all add: w_def)
  define t where "t = hzto st w"
  have t: "us v \<le> t * 20000" "t * 20000 < us v + 40000"
    using hzto_bounds [OF st(1) v(1) st(2) v(4,3)] by (simp_all add: t_def w_def)
  have f: "0 < co_free co1" using st(4) c1(3) by simp
  obtain co2 where c2: "timeout Realitexpire p t co1 = Ret co2" "co_inv co2" "real_once p co2"
    "find_timeout Realitexpire p False co2 = Ret (max t 1, co2)"
    using rearm [OF c1(2) f c1(4), of t] by (elim exE conjE)
  define a where "a = \<lparr>it_interval = i, it_value = w\<rparr>"
  define st1 where "st1 = st\<lparr>tt_co := co2, p_realtimer := (p_realtimer st)(p := a)\<rparr>"
  have clip: "clip_both MAX_ALARM \<lparr>it_interval = i, it_value = v\<rparr> = \<lparr>it_interval = i, it_value = v\<rparr>"
    using v(3) i(3) by (simp add: clip_both_def clip_def)
  have "timerisset v" using timerisset_us [OF v(1)] v(2) by simp
  then have s: "set_real p \<lparr>it_interval = i, it_value = v\<rparr> st = Ret st1"
    using c1(1) c2(1) by (simp add: set_real_def clip Let_def w_def [symmetric] t_def [symmetric] st1_def a_def)
  have "setitimer p ITIMER_REAL (Some \<lparr>it_interval = i, it_value = v\<rparr>) None u st = Ret (set_error E_OK u, None, st1)"
    using s itimerfix_id [OF v(1)] itimerfix_id [OF i(1,2)] v(2) st(1) by (simp add: setitimer_def)
  moreover have "0 < us w" using w(2) v(2) us_pos [OF st(2)] by simp
  then have "timerisset w" using timerisset_us [OF w(1)] by simp
  moreover have "1 \<le> t" using t(1) v(2) by simp
  ultimately show ?thesis
    using c2(2-4) t timer_of_ticks [of t]
    by (intro exI [of _ st1] exI [of _ "\<lparr>it_interval = i, it_value = \<lparr>tv_sec = t div HZ, tv_usec = (t mod HZ) * (1000000 div HZ)\<rparr>\<rparr>"])
      (simp add: getitimer_def timer_value_def Let_def st1_def a_def)
qed

theorem setitimer_getitimer_witness:
  "\<forall>u. \<exists>st1 a. setitimer 4 0 (Some \<lparr>it_interval = tv_zero, it_value = \<lparr>tv_sec = 2, tv_usec = 7\<rparr>\<rparr>) None u ex_tt
      = Ret (set_error E_OK u, None, st1) \<and>
    getitimer 4 0 True u st1 = Ret (set_error E_OK u, Some a) \<and> 2000007 \<le> us (it_value a) \<and> us (it_value a) < 2040007"
proof (rule allI)
  fix u
  let ?v = "\<lparr>tv_sec = 2, tv_usec = 7\<rparr>"
  have h: "tv_ok ?v" "20000 \<le> us ?v" "tv_sec ?v < 42949622" "us ?v + us (tt_time ex_tt) < us_limit"
    "tv_ok tv_zero" "us tv_zero = 0 \<or> 20000 \<le> us tv_zero" "tv_sec tv_zero < 42949672"
    by (simp_all add: tv_ok_def us_def ex_tt_timer)
  show "\<exists>st1 a. setitimer 4 0 (Some \<lparr>it_interval = tv_zero, it_value = ?v\<rparr>) None u ex_tt
      = Ret (set_error E_OK u, None, st1) \<and>
    getitimer 4 0 True u st1 = Ret (set_error E_OK u, Some a) \<and> 2000007 \<le> us (it_value a) \<and> us (it_value a) < 2040007"
    using setitimer_getitimer [OF ex_tt_facts(1,2,4,5,7) h(1-7), where u = u and p = 4] by (auto simp: us_def)
qed

section \<open>The virtual timers\<close>

lemma timeval_upd: "(v :: timeval)\<lparr>tv_usec := x\<rparr> = \<lparr>tv_sec = tv_sec v, tv_usec = x\<rparr>"
  by (cases v) simp

lemma timevalborrow:
  assumes "tv_ok v" and "0 \<le> d" and "d \<le> 1000000" and "d \<le> us v"
  defines "r \<equiv> (if tv_usec v < d then \<lparr>tv_sec = to_u32 (tv_sec v - 1), tv_usec = tv_usec v + 1000000 - d\<rparr>
      else \<lparr>tv_sec = tv_sec v, tv_usec = tv_usec v - d\<rparr>)"
  shows "tv_ok r" and "us r = us v - d"
proof -
  have s: "0 < tv_sec v" if "tv_usec v < d" using assms(1,4) that by (simp add: tv_ok_def us_def)
  show "tv_ok r" "us r = us v - d" using assms(1-3) s by (auto simp: r_def tv_ok_def us_def to_u32_id)
qed

lemma itimer_expire_us:
  assumes "tv_ok (it_interval it)" and "0 < us (it_interval it)" and "0 \<le> d" and "d \<le> 1000000" and "d \<le> us (it_interval it)"
  shows "\<exists>it'. itimer_expire it d = (0, it') \<and> it_interval it' = it_interval it \<and> tv_ok (it_value it') \<and>
    us (it_value it') = us (it_interval it) - d"
proof -
  let ?i = "it_interval it"
  define r where "r = (if tv_usec ?i < d then \<lparr>tv_sec = to_u32 (tv_sec ?i - 1), tv_usec = tv_usec ?i + 1000000 - d\<rparr>
      else \<lparr>tv_sec = tv_sec ?i, tv_usec = tv_usec ?i - d\<rparr>)"
  have "itimer_expire it d = (0, it\<lparr>it_value := r\<rparr>)"
    using timerisset_us [OF assms(1)] assms(2) by (auto simp: itimer_expire_def r_def Let_def)
  then show ?thesis using timevalborrow [OF assms(1,3-5)] by (simp add: r_def)
qed

lemma itimerdecr_us:
  assumes v: "tv_ok (it_value it)" "0 < us (it_value it)" and i: "tv_ok (it_interval it)" "0 < us (it_interval it)"
    and d: "0 < d" "d \<le> 1000000" "d \<le> us (it_interval it)"
  shows "\<exists>it'. itimerdecr it d = (if us (it_value it) \<le> d then 0 else 1, it') \<and> it_interval it' = it_interval it \<and>
    tv_ok (it_value it') \<and>
    us (it_value it') = us (it_value it) - d + (if us (it_value it) \<le> d then us (it_interval it) else 0)"
proof -
  let ?v = "it_value it"
  show ?thesis
  proof (cases "tv_usec ?v < d \<and> tv_sec ?v = 0")
    case True
    then have e: "us ?v = tv_usec ?v" "us ?v \<le> d" "0 \<le> d - tv_usec ?v" "d - tv_usec ?v \<le> 1000000" "d - tv_usec ?v \<le> us (it_interval it)"
      using v d by (simp_all add: us_def tv_ok_def)
    obtain it' where x: "itimer_expire it (d - tv_usec ?v) = (0, it')" "it_interval it' = it_interval it" "tv_ok (it_value it')"
      "us (it_value it') = us (it_interval it) - (d - tv_usec ?v)"
      using itimer_expire_us [OF i e(3-5)] by (elim exE conjE)
    have "us (it_value it') = us ?v - d + (if us ?v \<le> d then us (it_interval it) else 0)" using x(4) e(1,2) by simp
    then show ?thesis using True x(1-3) e(2) by (intro exI [of _ it'] conjI) (simp_all add: itimerdecr_def)
  next
    case False
    define r where "r = (if tv_usec ?v < d then \<lparr>tv_sec = to_u32 (tv_sec ?v - 1), tv_usec = tv_usec ?v + 1000000 - d\<rparr>
        else \<lparr>tv_sec = tv_sec ?v, tv_usec = tv_usec ?v - d\<rparr>)"
    have le: "d \<le> us ?v" using False v d by (auto simp: us_def tv_ok_def)
    have r: "tv_ok r" "us r = us ?v - d" using timevalborrow [OF v(1) less_imp_le [OF d(1)] d(2) le] by (simp_all add: r_def)
    have e: "itimerdecr it d = (if timerisset r then (1, it\<lparr>it_value := r\<rparr>) else itimer_expire (it\<lparr>it_value := r\<rparr>) 0)"
      using False by (simp add: itimerdecr_def Let_def r_def timeval_upd)
    have t: "timerisset r \<longleftrightarrow> \<not> us ?v \<le> d" using timerisset_us [OF r(1)] r(2) by (simp add: not_le)
    show ?thesis
    proof (cases "us ?v \<le> d")
      case True
      then show ?thesis using e t r le itimer_expire_us [of "it\<lparr>it_value := r\<rparr>" 0] i by simp
    next
      case False
      then show ?thesis using e t r by simp
    qed
  qed
qed

text \<open>The clock charges a timer \<open>n\<close> times with \<open>d\<close> microseconds; how often it expired.\<close>

primrec decr_run :: "nat \<Rightarrow> int \<Rightarrow> itimerval \<Rightarrow> int \<times> itimerval" where
  "decr_run 0 d it = (0, it)"
| "decr_run (Suc n) d it =
     (case decr_run n d it of (k, it1) \<Rightarrow> (case itimerdecr it1 d of (r, it2) \<Rightarrow> (if r = 0 then k + 1 else k, it2)))"

text \<open>
  C23. A virtual or profiling timer does not drift: after \<open>n\<close> clock ticks it has expired
  exactly as often as a timer of exact periods would have, and what is left is what that
  timer would have left, whatever the interval's remainder by the tick.
\<close>

theorem itimer_no_drift:
  assumes "tv_ok (it_value it)" "0 < us (it_value it)" and "tv_ok (it_interval it)" "0 < us (it_interval it)"
    and "0 < d" "d \<le> 1000000" "d \<le> us (it_interval it)"
  shows "\<exists>k it'. decr_run n d it = (k, it') \<and> it_interval it' = it_interval it \<and> tv_ok (it_value it') \<and>
    us (it_value it') = us (it_value it) + k * us (it_interval it) - int n * d \<and> 0 < us (it_value it') \<and>
    k = (if int n * d < us (it_value it) then 0 else (int n * d - us (it_value it)) div us (it_interval it) + 1)"
proof -
  let ?v = "us (it_value it)" and ?i = "us (it_interval it)"
  have "\<exists>k it'. decr_run n d it = (k, it') \<and> it_interval it' = it_interval it \<and> tv_ok (it_value it') \<and>
    us (it_value it') = ?v + k * ?i - int n * d \<and> 0 < us (it_value it') \<and> (k = 0 \<or> 1 \<le> k \<and> us (it_value it') \<le> ?i)"
  proof (induction n)
    case 0
    then show ?case using assms(1,2) by simp
  next
    case (Suc n)
    then obtain k it1 where 1: "decr_run n d it = (k, it1)" "it_interval it1 = it_interval it" "tv_ok (it_value it1)"
      "us (it_value it1) = ?v + k * ?i - int n * d" "0 < us (it_value it1)" "k = 0 \<or> 1 \<le> k \<and> us (it_value it1) \<le> ?i"
      by (elim exE conjE)
    obtain it2 where 2: "itimerdecr it1 d = (if us (it_value it1) \<le> d then 0 else 1, it2)" "it_interval it2 = it_interval it"
      "tv_ok (it_value it2)" "us (it_value it2) = us (it_value it1) - d + (if us (it_value it1) \<le> d then ?i else 0)"
      using itimerdecr_us [OF 1(3,5) _ _ assms(5,6)] 1(2) assms(3,4,7) by auto
    let ?k = "if us (it_value it1) \<le> d then k + 1 else k"
    have "decr_run (Suc n) d it = (?k, it2)" using 1(1) 2(1) by simp
    moreover have "us (it_value it2) = ?v + ?k * ?i - int (Suc n) * d" using 1(4) 2(4) by (auto simp: algebra_simps)
    moreover have "0 < us (it_value it2)" using 1(5) 2(4) assms(5,7) by auto
    moreover have "?k = 0 \<or> 1 \<le> ?k \<and> us (it_value it2) \<le> ?i" using 1(6) 2(4) assms(5) by auto
    ultimately show ?case using 2(2,3) by blast
  qed
  then obtain k it' where r: "decr_run n d it = (k, it')" "it_interval it' = it_interval it" "tv_ok (it_value it')"
    "us (it_value it') = ?v + k * ?i - int n * d" "0 < us (it_value it')" "k = 0 \<or> 1 \<le> k \<and> us (it_value it') \<le> ?i"
    by (elim exE conjE)
  have "k = (if int n * d < ?v then 0 else (int n * d - ?v) div ?i + 1)"
  proof (cases "int n * d < ?v")
    case True
    have "k = 0"
    proof (rule ccontr)
      assume "k \<noteq> 0"
      then have "1 * ?i \<le> k * ?i" "us (it_value it') \<le> ?i" using r(6) assms(4) by (auto intro: mult_right_mono)
      then show False using r(4) True by simp
    qed
    then show ?thesis using True by simp
  next
    case False
    then have "1 \<le> k" "us (it_value it') \<le> ?i" using r(4-6) by auto
    have "int n * d - ?v = (k - 1) * ?i + (?i - us (it_value it'))" using r(4) by (simp add: algebra_simps)
    then have "(int n * d - ?v) div ?i = k - 1"
      using r(5) \<open>us (it_value it') \<le> ?i\<close> assms(4) by (intro int_div_pos_eq [of _ _ _ "?i - us (it_value it')"]) simp_all
    then show ?thesis using False by simp
  qed
  then show ?thesis using r(1-5) by blast
qed

theorem itimer_no_drift_witness:
  "\<exists>it'. decr_run 10 20000 \<lparr>it_interval = \<lparr>tv_sec = 0, tv_usec = 30000\<rparr>, it_value = \<lparr>tv_sec = 0, tv_usec = 50000\<rparr>\<rparr> = (6, it') \<and>
     us (it_value it') = 30000"
proof -
  let ?it = "\<lparr>it_interval = \<lparr>tv_sec = 0, tv_usec = 30000\<rparr>, it_value = \<lparr>tv_sec = 0, tv_usec = 50000\<rparr>\<rparr>"
  have h: "tv_ok (it_value ?it)" "0 < us (it_value ?it)" "tv_ok (it_interval ?it)" "0 < us (it_interval ?it)"
    "(0::int) < 20000" "20000 \<le> (1000000::int)" "20000 \<le> us (it_interval ?it)"
    by (simp_all add: tv_ok_def us_def)
  show ?thesis using itimer_no_drift [OF h, of 10] by (auto simp: us_def)
qed

section \<open>The slewed clock\<close>

lemma bump_loop_us:
  assumes "0 \<le> s" and "0 \<le> d" and "s * 1000000 + d < us_limit"
  shows "tv_ok (bump_loop s d) \<and> us (bump_loop s d) = s * 1000000 + d"
  using assms
proof (induction s d rule: bump_loop.induct)
  case (1 s d)
  show ?case
  proof (cases "1000000 \<le> d")
    case True
    have s: "to_u32 (s + 1) = s + 1" using 1(2-4) True by (intro to_u32_id) linarith+
    have "tv_ok (bump_loop (s + 1) (d - 1000000)) \<and> us (bump_loop (s + 1) (d - 1000000)) = (s + 1) * 1000000 + (d - 1000000)"
      using 1(1) [OF True, unfolded s] 1(2-4) True by simp
    then show ?thesis using True s by (subst (1 2) bump_loop.simps) simp
  next
    case False
    then have "bump_loop s d = \<lparr>tv_sec = s, tv_usec = d\<rparr>" by (subst bump_loop.simps) simp
    moreover have "s < 4294967296" using 1(2-4) by linarith
    ultimately show ?thesis using False 1(2,3) by (simp add: tv_ok_def us_def)
  qed
qed

lemma bumptime_us:
  "tv_ok tv \<Longrightarrow> 0 \<le> d \<Longrightarrow> us tv + d < us_limit \<Longrightarrow> tv_ok (bumptime tv d) \<and> us (bumptime tv d) = us tv + d"
  using bump_loop_us [of "tv_sec tv" "tv_usec tv + d"] by (simp add: bumptime_def tv_ok_def us_def)

primrec clock_run :: "int list \<Rightarrow> timerstate \<Rightarrow> timerstate outcome" where
  "clock_run [] st = Ret st"
| "clock_run (n # ns) st = obind (hardclock n st) (clock_run ns)"

text \<open>The ticks that are slewed, when \<open>m\<close> of them would make up the correction.\<close>

primrec slewed :: "int \<Rightarrow> int list \<Rightarrow> int" where
  "slewed m [] = 0"
| "slewed m (n # ns) = (if m = 0 then 0 else n + slewed (m - n) ns)"

lemma slewed_bounds: "\<forall>n \<in> set ns. 1 \<le> n \<Longrightarrow> 0 \<le> slewed m ns \<and> slewed m ns \<le> sum_list ns"
proof (induction ns arbitrary: m)
  case (Cons n ns)
  have "0 \<le> slewed (m - n) ns \<and> slewed (m - n) ns \<le> sum_list ns" using Cons by simp
  moreover have "0 \<le> sum_list ns" using Cons.prems by (intro sum_list_nonneg) auto
  ultimately show ?case using Cons.prems by simp
qed simp

lemma slewed_late: "m < 0 \<Longrightarrow> \<forall>n \<in> set ns. 1 \<le> n \<Longrightarrow> slewed m ns = sum_list ns"
  by (induction ns arbitrary: m) auto

lemma slewed_single: "0 \<le> m \<Longrightarrow> slewed m (replicate k 1) = min m (int k)"
  by (induction k arbitrary: m) auto

lemma slewed_0: "slewed 0 ns = 0"
  by (cases ns) simp_all

lemma clock_elapsed_eq:
  "clock_elapsed n st = (if timedelta st = 0 then (n * old_tick st, 0)
     else (n * (old_tick st + tickdelta st), to_s32 (timedelta st - n * tickdelta st)))"
  by (simp add: clock_elapsed_def distrib_left)

lemma clock_step:
  assumes "timedelta st = m * tickdelta st" "tickdelta st \<noteq> 0" "\<bar>tickdelta st\<bar> < 1000" "1 \<le> n"
    and "\<bar>m\<bar> * 1000 + n * 1000 < 2147483648"
  shows "clock_elapsed n st = (n * old_tick st + (if m = 0 then 0 else n * tickdelta st), (if m = 0 then 0 else m - n) * tickdelta st)"
proof -
  have "\<bar>(m - n) * tickdelta st\<bar> \<le> (\<bar>m\<bar> + n) * 1000"
    unfolding abs_mult using assms(3,4) by (intro mult_mono) auto
  then have "\<bar>(m - n) * tickdelta st\<bar> < 2147483648" using assms(5) by (simp add: distrib_right)
  then have "to_s32 ((m - n) * tickdelta st) = (m - n) * tickdelta st" by (intro to_s32_id) (simp_all add: abs_less_iff)
  moreover have "timedelta st - n * tickdelta st = (m - n) * tickdelta st" by (simp only: left_diff_distrib assms(1))
  moreover have "m = 0 \<longleftrightarrow> timedelta st = 0" using assms(1,2) by simp
  ultimately show ?thesis unfolding clock_elapsed_eq by (simp add: distrib_left)
qed

lemma clock_run_slewed:
  assumes "\<forall>n \<in> set ns. 1 \<le> n" "co_inv (tt_co st)" "tv_ok (tt_time st)"
    and "timedelta st = m * tickdelta st" "tickdelta st \<noteq> 0" "\<bar>tickdelta st\<bar> < 1000" "1000 \<le> old_tick st"
    and "\<bar>m\<bar> * 1000 + sum_list ns * 1000 < 2147483648"
    and "us (tt_time st) + sum_list ns * (old_tick st + 1000) < us_limit"
  shows "\<exists>st'. clock_run ns st = Ret st' \<and> tv_ok (tt_time st') \<and> timedelta st' = (m - slewed m ns) * tickdelta st \<and>
    us (tt_time st') = us (tt_time st) + sum_list ns * old_tick st + slewed m ns * tickdelta st"
  using assms
proof (induction ns arbitrary: st m)
  case Nil
  then show ?case by simp
next
  case (Cons n ns)
  have n: "1 \<le> n" "0 \<le> sum_list ns" using Cons.prems(1) slewed_bounds [of ns 0] by auto
  define m1 e where "m1 = (if m = 0 then 0 else m - n)" and "e = n * old_tick st + (if m = 0 then 0 else n * tickdelta st)"
  have c: "clock_elapsed n st = (e, m1 * tickdelta st)"
    using clock_step [OF Cons.prems(4-6) n(1)] Cons.prems(8) n(2) by (simp add: e_def m1_def)
  obtain co where co: "hardclock_callouts n (tt_co st) = Ret co" "co_inv co"
    using hardclock_effect [OF Cons.prems(2), of n] n(1) by auto
  have t: "\<bar>n * tickdelta st\<bar> \<le> n * 1000" unfolding abs_mult using Cons.prems(6) n(1) by (intro mult_mono) auto
  have o: "n * 1000 \<le> n * old_tick st" using Cons.prems(7) n(1) by (intro mult_left_mono) auto
  have e: "0 \<le> e" "e \<le> n * (old_tick st + 1000)" using t o n(1) unfolding e_def distrib_left abs_le_iff
    by (cases "m = 0"; simp only: if_True if_False simp_thms; linarith)+
  have s0: "0 \<le> sum_list ns * (old_tick st + 1000)" using n(2) Cons.prems(7) by (intro mult_nonneg_nonneg) auto
  have s: "us (tt_time st) + (n * (old_tick st + 1000) + sum_list ns * (old_tick st + 1000)) < us_limit"
    using Cons.prems(9) by (simp add: distrib_right)
  have b: "tv_ok (bumptime (tt_time st) e)" "us (bumptime (tt_time st) e) = us (tt_time st) + e"
    using bumptime_us [OF Cons.prems(3) e(1)] e(2) s s0 by simp_all
  define st1 where "st1 = st\<lparr>timedelta := m1 * tickdelta st, tt_co := co, tt_time := bumptime (tt_time st) e\<rparr>"
  have h: "hardclock n st = Ret st1" using c co(1) by (simp add: hardclock_def st1_def)
  have m1: "\<bar>m1\<bar> * 1000 + sum_list ns * 1000 < 2147483648" 
  proof -
    have "\<bar>m1\<bar> \<le> \<bar>m\<bar> + n" using n(1) abs_triangle_ineq4 [of m n] by (simp add: m1_def)
    then show ?thesis using Cons.prems(8) by simp
  qed
  have "\<exists>st'. clock_run ns st1 = Ret st' \<and> tv_ok (tt_time st') \<and> timedelta st' = (m1 - slewed m1 ns) * tickdelta st1 \<and>
      us (tt_time st') = us (tt_time st1) + sum_list ns * old_tick st1 + slewed m1 ns * tickdelta st1"
    using Cons.prems(1,5-7) co(2) b m1 e s by (intro Cons.IH) (simp_all add: st1_def)
  then obtain st' where r: "clock_run ns st1 = Ret st'" "tv_ok (tt_time st')" "timedelta st' = (m1 - slewed m1 ns) * tickdelta st1"
      "us (tt_time st') = us (tt_time st1) + sum_list ns * old_tick st1 + slewed m1 ns * tickdelta st1"
    by (elim exE conjE)
  have d: "m1 - slewed m1 ns = m - slewed m (n # ns)" by (simp add: m1_def slewed_0)
  have "e + sum_list ns * old_tick st + slewed m1 ns * tickdelta st =
      sum_list (n # ns) * old_tick st + slewed m (n # ns) * tickdelta st"
    by (simp add: e_def m1_def slewed_0 distrib_right)
  then show ?case using r h d b(2) by (simp add: st1_def)
qed

text \<open>
  While every clock interrupt stands for one tick, a correction of \<open>m\<close> ticks' worth
  is made up exactly: after \<open>k\<close> interrupts the clock has gained \<open>min m k\<close> times
  \<^verbatim>\<open>tickdelta\<close>, and \<^verbatim>\<open>timedelta\<close> holds the rest.
\<close>

theorem adjtime_exact:
  assumes "co_inv (tt_co st)" "tv_ok (tt_time st)" and "timedelta st = m * tickdelta st" "0 \<le> m"
    and "tickdelta st \<noteq> 0" "\<bar>tickdelta st\<bar> < 1000" "1000 \<le> old_tick st"
    and "m * 1000 + int k * 1000 < 2147483648" and "us (tt_time st) + int k * (old_tick st + 1000) < us_limit"
  shows "\<exists>st'. clock_run (replicate k 1) st = Ret st' \<and> timedelta st' = (m - min m (int k)) * tickdelta st \<and>
    us (tt_time st') = us (tt_time st) + int k * old_tick st + min m (int k) * tickdelta st"
proof -
  have "sum_list (replicate k (1::int)) = int k" by (simp add: sum_list_replicate)
  then show ?thesis
    using clock_run_slewed [of "replicate k 1" st m] assms slewed_single [OF assms(4), of k] by auto
qed

theorem adjtime_exact_witness:
  "\<exists>st'. clock_run (replicate 5 1) ex_tt = Ret st' \<and> timedelta st' = 0 \<and> us (tt_time st') = 100600030"
proof -
  have h: "timedelta ex_tt = 3 * tickdelta ex_tt" "(0::int) \<le> 3" "tickdelta ex_tt \<noteq> 0" "\<bar>tickdelta ex_tt\<bar> < 1000" "1000 \<le> old_tick ex_tt"
    "(3::int) * 1000 + int 5 * 1000 < 2147483648" "us (tt_time ex_tt) + int 5 * (old_tick ex_tt + 1000) < us_limit"
    by (simp_all add: ex_tt_def us_def)
  show ?thesis using adjtime_exact [OF ex_tt_facts(4,2) h] by (simp add: ex_tt_facts ex_tt_rate)
qed

text \<open>
  When an interrupt that stands for several ticks meets a correction with fewer ticks
  left, it takes \<^verbatim>\<open>timedelta\<close> past zero; no later interrupt brings it back, and the clock
  goes on gaining \<^verbatim>\<open>tickdelta\<close> every tick.
\<close>

theorem adjtime_overshoots:
  assumes "co_inv (tt_co st)" "tv_ok (tt_time st)" and "timedelta st = m * tickdelta st" "0 < m" "m < n"
    and "tickdelta st \<noteq> 0" "\<bar>tickdelta st\<bar> < 1000" "1000 \<le> old_tick st" and "\<forall>k \<in> set ns. 1 \<le> k"
    and "m * 1000 + (n + sum_list ns) * 1000 < 2147483648"
    and "us (tt_time st) + (n + sum_list ns) * (old_tick st + 1000) < us_limit"
  shows "\<exists>st'. clock_run (n # ns) st = Ret st' \<and> timedelta st' \<noteq> 0 \<and>
    us (tt_time st') = us (tt_time st) + (n + sum_list ns) * (old_tick st + tickdelta st)"
proof -
  have s: "slewed m (n # ns) = n + sum_list ns" using assms(4,5,9) slewed_late [of "m - n" ns] by simp
  have p: "\<forall>k \<in> set (n # ns). 1 \<le> k" using assms(4,5,9) by simp
  have a: "\<bar>m\<bar> * 1000 + sum_list (n # ns) * 1000 < 2147483648" using assms(4,10) by simp
  have b: "us (tt_time st) + sum_list (n # ns) * (old_tick st + 1000) < us_limit" using assms(11) by simp
  have "0 \<le> sum_list ns" using slewed_bounds [of ns 0] assms(9) by auto
  then have "m - (n + sum_list ns) \<noteq> 0" using assms(5) by simp
  then show ?thesis using clock_run_slewed [OF p assms(1-3,6-8) a b] assms(6) unfolding s by (auto simp: distrib_left)
qed

theorem adjtime_overshoots_witness:
  "\<exists>st'. clock_run [4, 1, 1] ex_tt = Ret st' \<and> timedelta st' \<noteq> 0 \<and> us (tt_time st') = 100620060"
proof -
  have h: "timedelta ex_tt = 3 * tickdelta ex_tt" "(0::int) < 3" "(3::int) < 4" "tickdelta ex_tt \<noteq> 0" "\<bar>tickdelta ex_tt\<bar> < 1000" "1000 \<le> old_tick ex_tt"
    "\<forall>k \<in> set [1, 1]. (1::int) \<le> k"
    "(3::int) * 1000 + (4 + sum_list [1, 1]) * 1000 < 2147483648"
    "us (tt_time ex_tt) + (4 + sum_list [1, 1]) * (old_tick ex_tt + 1000) < us_limit"
    by (simp_all add: ex_tt_def us_def)
  show ?thesis using adjtime_overshoots [OF ex_tt_facts(4,2) h] by (simp add: ex_tt_facts ex_tt_rate)
qed

end
