(* ===== verification/Clist.thy ===== *)
theory Clist
  imports Ptr_List
begin

text \<open>
  The character lists of the terminal drivers, \<^verbatim>\<open>sys/tty_subr.c\<close>. Every list is a chain
  of blocks of the array \<^verbatim>\<open>cfree\<close>; blocks in no list are on \<^verbatim>\<open>cfreelist\<close> or in the
  hands of a driver. A pointer to a block is its index. The list heads of all terminals
  are one function.
\<close>

section \<open>Data\<close>

abbreviation (input) CBSIZE :: nat where "CBSIZE \<equiv> 26"

record cblock =
  cb_next :: "nat option"
  c_first :: nat
  c_last :: nat
  c_data :: "8 word list"

record clist =
  c_cc :: int
  c_cf :: "nat option"
  c_cl :: "nat option"

record clstate =
  cfree :: "cblock list"
  cfreelist :: "nat option"       \<comment> \<open>\<^verbatim>\<open>cfreelist.c_next\<close>\<close>
  c_size :: nat                   \<comment> \<open>\<^verbatim>\<open>cfreelist.c_size\<close>\<close>
  clists :: "nat \<Rightarrow> clist"

definition upd_cb :: "nat \<Rightarrow> (cblock \<Rightarrow> cblock) \<Rightarrow> clstate \<Rightarrow> clstate" where
  "upd_cb b f st = st\<lparr>cfree := (cfree st)[b := f (cfree st ! b)]\<rparr>"

definition upd_cl :: "nat \<Rightarrow> (clist \<Rightarrow> clist) \<Rightarrow> clstate \<Rightarrow> clstate" where
  "upd_cl p f st = st\<lparr>clists := (clists st)(p := f (clists st p))\<rparr>"

section \<open>Operations\<close>

text \<open>The boot code frees the blocks one after the other.\<close>

definition cinit1 :: "nat \<Rightarrow> clstate \<Rightarrow> clstate" where
  "cinit1 n st = (upd_cb n (\<lambda>x. x\<lparr>cb_next := cfreelist st\<rparr>) st)\<lparr>cfreelist := Some n\<rparr>"

definition cinit :: "clstate \<Rightarrow> clstate" where
  "cinit st = (fold cinit1 [0..<length (cfree st)] st)\<lparr>c_size := CBSIZE\<rparr>"

definition putcf :: "nat \<Rightarrow> clstate \<Rightarrow> clstate" where
  "putcf b st = (upd_cb b (\<lambda>x. x\<lparr>cb_next := cfreelist st\<rparr>) st)\<lparr>cfreelist := Some b\<rparr>"

definition getcf :: "clstate \<Rightarrow> nat option \<times> clstate" where
  "getcf st =
     (case cfreelist st of
        None \<Rightarrow> (None, st)
      | Some b \<Rightarrow> (Some b, upd_cb b (\<lambda>x. x\<lparr>cb_next := None, c_first := 0, c_last := c_size st\<rparr>)
                             (st\<lparr>cfreelist := cb_next (cfree st ! b)\<rparr>)))"

definition getc :: "nat \<Rightarrow> clstate \<Rightarrow> (int \<times> clstate) outcome" where
  "getc p st =
     (if c_cc (clists st p) > 0 then
        (let st1 = upd_cl p (\<lambda>q. q\<lparr>c_cc := c_cc q - 1\<rparr>) st
         in case c_cf (clists st p) of
              None \<Rightarrow> Fault
            | Some b \<Rightarrow>
                (let x = cfree st ! b
                 in if c_first x \<ge> length (c_data x) then Fault
                    else let c = uint (c_data x ! c_first x);
                             st2 = upd_cb b (\<lambda>x. x\<lparr>c_first := Suc (c_first x)\<rparr>) st1
                         in if Suc (c_first x) = c_last x
                            then let st3 = upd_cl p (\<lambda>q. q\<lparr>c_cf := cb_next x, c_cl := (if cb_next x = None then None else c_cl q)\<rparr>) st2
                                 in Ret (c, (upd_cb b (\<lambda>x. x\<lparr>cb_next := cfreelist st3\<rparr>) st3)\<lparr>cfreelist := Some b\<rparr>)
                            else Ret (c, st2)))
      else Ret (-1, st))"

text \<open>A fresh block at the end of the list, if the last one is full or there is none.\<close>

definition putc_block :: "nat \<Rightarrow> clstate \<Rightarrow> (nat \<times> clstate) option" where
  "putc_block p st =
     (let obp = c_cl (clists st p)
      in case obp of
           Some b \<Rightarrow> if c_last (cfree st ! b) \<noteq> c_size st then Some (b, st)
                     else (case cfreelist st of
                             None \<Rightarrow> None
                           | Some n \<Rightarrow>
                               let st1 = upd_cb n (\<lambda>x. x\<lparr>cb_next := None, c_first := 0, c_last := 0\<rparr>)
                                           (st\<lparr>cfreelist := cb_next (cfree st ! n)\<rparr>)
                               in Some (n, upd_cl p (\<lambda>q. q\<lparr>c_cl := Some n\<rparr>) (upd_cb b (\<lambda>x. x\<lparr>cb_next := Some n\<rparr>) st1)))
         | None \<Rightarrow>
             (case cfreelist st of
                None \<Rightarrow> None
              | Some n \<Rightarrow>
                  let st1 = upd_cb n (\<lambda>x. x\<lparr>cb_next := None, c_first := 0, c_last := 0\<rparr>)
                              (st\<lparr>cfreelist := cb_next (cfree st ! n)\<rparr>)
                  in Some (n, upd_cl p (\<lambda>q. q\<lparr>c_cf := Some n, c_cl := Some n\<rparr>) st1)))"

definition putc :: "int \<Rightarrow> nat \<Rightarrow> clstate \<Rightarrow> (int \<times> clstate) outcome" where
  "putc c p st =
     (case putc_block p st of
        None \<Rightarrow> Ret (-1, st)
      | Some (b, st1) \<Rightarrow>
          (let x = cfree st1 ! b
           in if c_last x \<ge> length (c_data x) then Fault
              else Ret (0, upd_cl p (\<lambda>q. q\<lparr>c_cc := c_cc q + 1\<rparr>)
                     (upd_cb b (\<lambda>x. x\<lparr>c_data := (c_data x)[c_last x := word_of_int c], c_last := Suc (c_last x)\<rparr>) st1))))"

definition getcb :: "nat \<Rightarrow> clstate \<Rightarrow> nat option \<times> clstate" where
  "getcb p st =
     (case c_cf (clists st p) of
        None \<Rightarrow> (None, st)
      | Some b \<Rightarrow>
          (let x = cfree st ! b
           in (Some b, upd_cl p (\<lambda>q. q\<lparr>c_cc := c_cc q - (int (c_last x) - int (c_first x)), c_cf := cb_next x,
                                       c_cl := (if cb_next x = None then None else c_cl q)\<rparr>) st)))"

definition putcb :: "nat \<Rightarrow> nat \<Rightarrow> clstate \<Rightarrow> clstate" where
  "putcb b p st =
     (let st1 = (case c_cl (clists st p) of
                   None \<Rightarrow> upd_cl p (\<lambda>q. q\<lparr>c_cf := Some b\<rparr>) st
                 | Some o1 \<Rightarrow> upd_cb o1 (\<lambda>x. x\<lparr>cb_next := Some b\<rparr>) st);
          st2 = upd_cb b (\<lambda>x. x\<lparr>cb_next := None\<rparr>) (upd_cl p (\<lambda>q. q\<lparr>c_cl := Some b\<rparr>) st1);
          x = cfree st2 ! b
      in upd_cl p (\<lambda>q. q\<lparr>c_cc := c_cc q + (int (c_last x) - int (c_first x))\<rparr>) st2)"

section \<open>The lists\<close>

definition nx :: "clstate \<Rightarrow> nat \<Rightarrow> nat option" where
  "nx st b = cb_next (cfree st ! b)"

definition chars :: "clstate \<Rightarrow> nat \<Rightarrow> int list" where
  "chars st b = map uint (drop (c_first (cfree st ! b)) (take (c_last (cfree st ! b)) (c_data (cfree st ! b))))"

text \<open>A block of a list holds at least one character.\<close>

definition block_ok :: "clstate \<Rightarrow> nat \<Rightarrow> bool" where
  "block_ok st b \<longleftrightarrow> b < length (cfree st) \<and> c_first (cfree st ! b) < c_last (cfree st ! b) \<and> c_last (cfree st ! b) \<le> c_size st"

definition list_ok :: "clstate \<Rightarrow> clist \<Rightarrow> nat list \<Rightarrow> bool" where
  "list_ok st q xs \<longleftrightarrow> linked (nx st) (c_cf q) xs \<and> distinct xs \<and> c_cl q = (if xs = [] then None else Some (last xs)) \<and>
     (\<forall>b \<in> set xs. block_ok st b) \<and> c_cc q = int (length (concat (map (chars st) xs)))"

definition pool_ok :: "clstate \<Rightarrow> nat list \<Rightarrow> bool" where
  "pool_ok st F \<longleftrightarrow> c_size st = CBSIZE \<and> (\<forall>b < length (cfree st). length (c_data (cfree st ! b)) = CBSIZE) \<and>
     linked (nx st) (cfreelist st) F \<and> distinct F \<and> set F \<subseteq> {..<length (cfree st)}"

text \<open>\<open>F\<close> are the free blocks, \<open>L p\<close> those of list \<open>p\<close>.\<close>

definition cl_rep :: "clstate \<Rightarrow> nat list \<Rightarrow> (nat \<Rightarrow> nat list) \<Rightarrow> bool" where
  "cl_rep st F L \<longleftrightarrow> pool_ok st F \<and> (\<forall>p. list_ok st (clists st p) (L p)) \<and> (\<forall>p. set (L p) \<inter> set F = {}) \<and>
     (\<forall>p q. p \<noteq> q \<longrightarrow> set (L p) \<inter> set (L q) = {})"

definition cl_items :: "clstate \<Rightarrow> nat \<Rightarrow> int list" where
  "cl_items st p = concat (map (chars st) (chain_from (length (cfree st)) (nx st) (c_cf (clists st p))))"

definition cl_inv :: "clstate \<Rightarrow> bool" where
  "cl_inv st \<longleftrightarrow> (\<exists>F L. cl_rep st F L)"

definition cl_free :: "clstate \<Rightarrow> nat" where
  "cl_free st = length (chain_from (length (cfree st)) (nx st) (cfreelist st))"

end
