(* ===== verification/Clist_Props.thy ===== *)
theory Clist_Props
  imports Clist
begin

text \<open>
  What each operation does to the character lists, the interpretation of the queue
  interface on them, and the properties of \<^verbatim>\<open>tty_subr.c\<close>.
\<close>

section \<open>The representation\<close>

lemma upd_simps [simp]:
  "cfree (upd_cl p g st) = cfree st" "cfreelist (upd_cl p g st) = cfreelist st" "c_size (upd_cl p g st) = c_size st"
  "clists (upd_cl p g st) = (clists st)(p := g (clists st p))"
  "clists (upd_cb b f st) = clists st" "cfreelist (upd_cb b f st) = cfreelist st" "c_size (upd_cb b f st) = c_size st"
  "length (cfree (upd_cb b f st)) = length (cfree st)"
  "cfree (upd_cb b f st) ! d = (if b = d \<and> b < length (cfree st) then f (cfree st ! b) else cfree st ! d)"
  by (simp_all add: upd_cl_def upd_cb_def nth_upd)

lemma list_ok_frame:
  assumes "list_ok st q xs" and "\<forall>b \<in> set xs. cfree st' ! b = cfree st ! b"
    and "length (cfree st') = length (cfree st)" and "c_size st' = c_size st"
  shows "list_ok st' q xs"
proof -
  have "linked (nx st') (c_cf q) xs = linked (nx st) (c_cf q) xs" using assms(2) by (intro linked_cong) (simp add: nx_def)
  moreover have c: "map (chars st') xs = map (chars st) xs" using assms(2) by (simp add: chars_def)
  moreover have "\<forall>b \<in> set xs. block_ok st' b = block_ok st b" using assms(2-4) by (simp add: block_ok_def)
  ultimately show ?thesis using assms(1) unfolding list_ok_def c by simp
qed

lemma chars_frame: "\<forall>b \<in> set xs. cfree st' ! b = cfree st ! b \<Longrightarrow> map (chars st') xs = map (chars st) xs"
  by (simp add: chars_def)

lemma items_frame: "\<forall>b \<in> set xs. cfree st' ! b = cfree st ! b \<Longrightarrow> concat (map (chars st') xs) = concat (map (chars st) xs)"
  by (simp only: chars_frame)

lemma linked_frame: "\<forall>b \<in> set xs. cfree st' ! b = cfree st ! b \<Longrightarrow> linked (nx st') p xs = linked (nx st) p xs"
  by (intro linked_cong) (simp add: nx_def)

lemma cl_items_rep:
  assumes "cl_rep st F L"
  shows "cl_items st p = concat (map (chars st) (L p))"
proof -
  have l: "linked (nx st) (c_cf (clists st p)) (L p)" "distinct (L p)" "\<forall>b \<in> set (L p). b < length (cfree st)"
    using assms by (auto simp: cl_rep_def list_ok_def block_ok_def)
  then have "length (L p) \<le> length (cfree st)" by (intro distinct_length_le) auto
  then show ?thesis using linked_chain_from [OF l(1)] by (simp add: cl_items_def)
qed

lemma cl_free_rep:
  assumes "cl_rep st F L"
  shows "cl_free st = length F"
proof -
  have l: "linked (nx st) (cfreelist st) F" "distinct F" "set F \<subseteq> {..<length (cfree st)}"
    using assms by (auto simp: cl_rep_def pool_ok_def)
  then show ?thesis using linked_chain_from [OF l(1)] distinct_length_le [OF l(2,3)] by (simp add: cl_free_def)
qed

lemma cl_cc_rep: "cl_rep st F L \<Longrightarrow> c_cc (clists st p) = int (length (cl_items st p))"
  by (simp add: cl_items_rep) (simp add: cl_rep_def list_ok_def)

text \<open>
  A step on list \<open>p\<close> that changes only blocks of that list, free blocks and the blocks
  \<open>X\<close> of no list keeps every other list.
\<close>

lemma cl_rep_step:
  assumes r: "cl_rep st F L" and X: "\<forall>q. set (L q) \<inter> X = {}"
    and fr: "\<forall>b. b \<notin> set (L p) \<union> set F \<union> X \<longrightarrow> cfree st' ! b = cfree st ! b"
    and sm: "length (cfree st') = length (cfree st)" "c_size st' = c_size st" "\<forall>q. q \<noteq> p \<longrightarrow> clists st' q = clists st q"
    and new: "pool_ok st' F'" "list_ok st' (clists st' p) xs" "set xs \<inter> set F' = {}"
    and sub: "set xs \<union> set F' \<subseteq> set (L p) \<union> set F \<union> X"
  shows "cl_rep st' F' (L(p := xs))" and "cl_items st' = (cl_items st)(p := concat (map (chars st') xs))"
proof -
  have d: "set (L q) \<inter> (set (L p) \<union> set F \<union> X) = {}" if "q \<noteq> p" for q
  proof -
    have "set (L q) \<inter> set (L p) = {}" "set (L q) \<inter> set F = {}" using r that by (simp_all add: cl_rep_def)
    then show ?thesis using X by blast
  qed
  have same: "\<forall>b \<in> set (L q). cfree st' ! b = cfree st ! b" if "q \<noteq> p" for q using d [OF that] fr by auto
  have l: "list_ok st' (clists st' q) (L q)" if "q \<noteq> p" for q
  proof -
    have "list_ok st (clists st q) (L q)" using r by (simp add: cl_rep_def)
    from list_ok_frame [OF this same [OF that] sm(1,2)] show ?thesis using sm(3) that by simp
  qed
  have d2: "set (L q) \<inter> set (L q') = {}" if "q \<noteq> q'" for q q' using r that by (simp add: cl_rep_def)
  have "set ((L(p := xs)) q) \<inter> set ((L(p := xs)) q') = {}" if "q \<noteq> q'" for q q'
    using that d2 [OF that] d [of q] d [of q'] sub by (cases "q = p"; cases "q' = p") auto
  moreover have "set ((L(p := xs)) q) \<inter> set F' = {}" for q using new(3) d [of q] sub by (cases "q = p") auto
  ultimately show rep: "cl_rep st' F' (L(p := xs))" unfolding cl_rep_def using new(1,2) l by simp
  show "cl_items st' = (cl_items st)(p := concat (map (chars st') xs))"
  proof
    fix q
    show "cl_items st' q = ((cl_items st)(p := concat (map (chars st') xs))) q"
      using items_frame [OF same, of q] by (cases "q = p") (simp_all add: cl_items_rep [OF rep] cl_items_rep [OF r])
  qed
qed

section \<open>getc\<close>

lemma chars_nonempty: "block_ok st b \<Longrightarrow> c_size st = CBSIZE \<Longrightarrow> length (c_data (cfree st ! b)) = CBSIZE \<Longrightarrow>
  chars st b = uint (c_data (cfree st ! b) ! c_first (cfree st ! b)) #
    map uint (drop (Suc (c_first (cfree st ! b))) (take (c_last (cfree st ! b)) (c_data (cfree st ! b))))"
  by (simp add: chars_def block_ok_def Cons_nth_drop_Suc [symmetric])

lemma getc_effect:
  assumes "cl_inv st"
  shows "\<exists>st'. (if cl_items st p = [] then getc p st = Ret (-1, st) \<and> st' = st
      else getc p st = Ret (hd (cl_items st p), st')) \<and> cl_inv st' \<and>
      cl_items st' = (cl_items st)(p := tl (cl_items st p)) \<and> cl_free st \<le> cl_free st'"
proof -
  obtain F L where r: "cl_rep st F L" using assms by (auto simp: cl_inv_def)
  have pool: "pool_ok st F" and lp: "list_ok st (clists st p) (L p)" and dj: "set (L p) \<inter> set F = {}" using r by (auto simp: cl_rep_def)
  show ?thesis
  proof (cases "cl_items st p = []")
    case True
    then have "getc p st = Ret (-1, st)" using cl_cc_rep [OF r] by (simp add: getc_def)
    then show ?thesis using True assms by (intro exI [of _ st]) (simp add: fun_upd_idem)
  next
    case False
    then obtain b bs where L: "L p = b # bs" using cl_items_rep [OF r, of p] by (cases "L p") auto
    have q: "c_cf (clists st p) = Some b" "linked (nx st) (nx st b) bs" "b \<notin> set bs" "distinct bs" "block_ok st b"
      "\<forall>d \<in> set bs. block_ok st d" "c_cl (clists st p) = Some (last (b # bs))" "b \<notin> set F"
      using lp dj unfolding L list_ok_def by simp_all
    have cp: "0 < c_cc (clists st p)" using False cl_cc_rep [OF r, of p] by simp
    let ?x = "cfree st ! b"
    have b: "b < length (cfree st)" "length (c_data ?x) = 26" "c_first ?x < c_last ?x" "c_last ?x \<le> 26" "c_size st = 26"
      using pool q(5) by (simp_all add: pool_ok_def block_ok_def)
    note ch = chars_nonempty [OF q(5) b(5,2)]
    have it: "cl_items st p = chars st b @ concat (map (chars st) bs)" using cl_items_rep [OF r, of p] L by simp
    have cc: "c_cc (clists st p) = int (length (cl_items st p))" by (rule cl_cc_rep [OF r])
    show ?thesis
    proof (cases "Suc (c_first ?x) = c_last ?x")
      case True
      define st1 where "st1 = upd_cl p (\<lambda>q. q\<lparr>c_cf := cb_next ?x, c_cl := (if cb_next ?x = None then None else c_cl q)\<rparr>)
        (upd_cb b (\<lambda>x. x\<lparr>c_first := Suc (c_first x)\<rparr>) (upd_cl p (\<lambda>q. q\<lparr>c_cc := c_cc q - 1\<rparr>) st))"
      define st' where "st' = (upd_cb b (\<lambda>x. x\<lparr>cb_next := cfreelist st1\<rparr>) st1)\<lparr>cfreelist := Some b\<rparr>"
      have g: "getc p st = Ret (uint (c_data ?x ! c_first ?x), st')"
        using q cp b True by (simp add: getc_def Let_def st'_def st1_def)
      have same: "\<forall>d. d \<noteq> b \<longrightarrow> cfree st' ! d = cfree st ! d" and sm: "length (cfree st') = length (cfree st)"
        "c_size st' = c_size st" "\<forall>q. q \<noteq> p \<longrightarrow> clists st' q = clists st q" "cfreelist st' = Some b"
        "nx st' b = cfreelist st" "\<forall>d. length (c_data (cfree st' ! d)) = length (c_data (cfree st ! d))"
        using b by (simp_all add: st'_def st1_def nx_def)
      have ch1: "chars st b = [uint (c_data ?x ! c_first ?x)]" using ch True by simp
      have fr: "linked (nx st') (cfreelist st) F" 
      proof -
        have "\<forall>d \<in> set F. cfree st' ! d = cfree st ! d" using same q(8) by metis
        from linked_frame [OF this] show ?thesis using pool by (simp add: pool_ok_def)
      qed
      have new: "pool_ok st' (b # F)" using fr pool sm b(1) q(8) by (simp add: pool_ok_def)
      have fb: "\<forall>d \<in> set bs. cfree st' ! d = cfree st ! d" using same q(3) by auto
      have "clists st' p = (clists st p)\<lparr>c_cc := c_cc (clists st p) - 1, c_cf := nx st b,
          c_cl := (if nx st b = None then None else c_cl (clists st p))\<rparr>"
        by (simp add: st'_def st1_def nx_def)
      moreover have "nx st b = None \<longleftrightarrow> bs = []" using q(2) by (cases bs) auto
      ultimately have "list_ok st (clists st' p) bs"
        using q(2,4,6,7) cc it ch1 unfolding list_ok_def by auto
      then have ok: "list_ok st' (clists st' p) bs" using list_ok_frame fb sm by blast
      have "\<forall>d. d \<notin> set (L p) \<union> set F \<union> {} \<longrightarrow> cfree st' ! d = cfree st ! d" using same by (simp add: L)
      note st = cl_rep_step [OF r _ this sm(1-3) new ok]
      have d: "set bs \<inter> set (b # F) = {}" "set bs \<union> set (b # F) \<subseteq> set (L p) \<union> set F \<union> {}" using q(3) dj L by auto
      have "cl_rep st' (b # F) (L(p := bs))" "cl_items st' = (cl_items st)(p := concat (map (chars st') bs))"
        using st [OF _ d] by simp_all
      moreover have "concat (map (chars st') bs) = tl (cl_items st p)" using items_frame [OF fb] it ch1 by simp
      ultimately show ?thesis using g False it ch1 cl_free_rep [OF r] cl_free_rep [of st' "b # F"]
        by (intro exI [of _ st']) (auto simp: cl_inv_def)
    next
      case False
      define st' where "st' = upd_cb b (\<lambda>x. x\<lparr>c_first := Suc (c_first x)\<rparr>) (upd_cl p (\<lambda>q. q\<lparr>c_cc := c_cc q - 1\<rparr>) st)"
      have g: "getc p st = Ret (uint (c_data ?x ! c_first ?x), st')"
        using q cp b False by (simp add: getc_def Let_def st'_def)
      have same: "\<forall>d. d \<noteq> b \<longrightarrow> cfree st' ! d = cfree st ! d" and sm: "length (cfree st') = length (cfree st)"
        "c_size st' = c_size st" "\<forall>q. q \<noteq> p \<longrightarrow> clists st' q = clists st q" "cfreelist st' = cfreelist st"
        "nx st' = nx st" "\<forall>d. length (c_data (cfree st' ! d)) = length (c_data (cfree st ! d))"
        using b by (auto simp: st'_def nx_def fun_eq_iff)
      have new: "pool_ok st' F" using pool sm by (simp add: pool_ok_def)
      have fb: "\<forall>d \<in> set bs. cfree st' ! d = cfree st ! d" using same q(3) by auto
      have ch1: "chars st b = uint (c_data ?x ! c_first ?x) # chars st' b" using ch b(1) by (simp add: chars_def st'_def)
      have "block_ok st' b" using q(5) b False by (simp add: block_ok_def st'_def)
      moreover have "\<forall>d \<in> set bs. block_ok st' d" using q(6) fb sm by (simp add: block_ok_def)
      moreover have "clists st' p = (clists st p)\<lparr>c_cc := c_cc (clists st p) - 1\<rparr>" by (simp add: st'_def)
      ultimately have ok: "list_ok st' (clists st' p) (b # bs)"
        using q(1-4,7) cc it ch1 items_frame [OF fb] sm unfolding list_ok_def by simp
      have "\<forall>d. d \<notin> set (L p) \<union> set F \<union> {} \<longrightarrow> cfree st' ! d = cfree st ! d" using same by (simp add: L)
      note st = cl_rep_step [OF r _ this sm(1-3) new ok]
      have d: "set (b # bs) \<inter> set F = {}" "set (b # bs) \<union> set F \<subseteq> set (L p) \<union> set F \<union> {}" using dj L by auto
      have "cl_rep st' F (L(p := b # bs))" "cl_items st' = (cl_items st)(p := concat (map (chars st') (b # bs)))"
        using st [OF _ d] by simp_all
      moreover have "concat (map (chars st') (b # bs)) = tl (cl_items st p)" using items_frame [OF fb] it ch1 by simp
      ultimately show ?thesis using g \<open>cl_items st p \<noteq> []\<close> it ch1 cl_free_rep [OF r] cl_free_rep [of st' F]
        by (intro exI [of _ st']) (auto simp: cl_inv_def)
    qed
  qed
qed

section \<open>putc\<close>

text \<open>Storing a character in the last block of a list, which has room for it.\<close>

lemma store_effect:
  fixes c p
  assumes pool: "pool_ok st F" and b: "b < length (cfree st)" "c_last (cfree st ! b) < c_size st"
  defines "st' \<equiv> upd_cl p (\<lambda>q. q\<lparr>c_cc := c_cc q + 1\<rparr>)
      (upd_cb b (\<lambda>x. x\<lparr>c_data := (c_data x)[c_last x := word_of_int c], c_last := Suc (c_last x)\<rparr>) st)"
  assumes f: "c_first (cfree st ! b) \<le> c_last (cfree st ! b)"
  shows "chars st' b = chars st b @ [c mod 256]" and "block_ok st' b"
    and "\<forall>d. d \<noteq> b \<longrightarrow> cfree st' ! d = cfree st ! d" and "nx st' = nx st" and "pool_ok st' F"
    and "length (cfree st') = length (cfree st)" "c_size st' = c_size st"
    and "clists st' = (clists st)(p := (clists st p)\<lparr>c_cc := c_cc (clists st p) + 1\<rparr>)" "cfreelist st' = cfreelist st"
proof -
  have l: "length (c_data (cfree st ! b)) = 26" "c_last (cfree st ! b) < 26" using pool b by (simp_all add: pool_ok_def)
  have w: "uint (word_of_int c :: 8 word) = c mod 256" by (simp add: uint_word_of_int)
  show "chars st' b = chars st b @ [c mod 256]"
    using l b f by (simp add: chars_def st'_def take_Suc_conv_app_nth w)
  show "block_ok st' b" using b f by (simp add: block_ok_def st'_def)
  show nx: "nx st' = nx st" by (auto simp: nx_def st'_def fun_eq_iff)
  show "pool_ok st' F" unfolding pool_ok_def nx using pool by (simp add: pool_ok_def st'_def)
  show "\<forall>d. d \<noteq> b \<longrightarrow> cfree st' ! d = cfree st ! d" "length (cfree st') = length (cfree st)" "c_size st' = c_size st"
    "clists st' = (clists st)(p := (clists st p)\<lparr>c_cc := c_cc (clists st p) + 1\<rparr>)" "cfreelist st' = cfreelist st"
    by (simp_all add: st'_def)
qed

text \<open>The step that finds the block: the list with a possibly empty last block.\<close>

lemma putc_block_effect:
  assumes r: "cl_rep st F L"
  shows "case putc_block p st of
      None \<Rightarrow> F = []
    | Some (b, st1) \<Rightarrow> \<exists>xs F1. pool_ok st1 F1 \<and> distinct (xs @ [b]) \<and> set (xs @ [b]) \<inter> set F1 = {} \<and>
        set (xs @ [b]) \<union> set F1 \<subseteq> set (L p) \<union> set F \<and> linked (nx st1) (c_cf (clists st1 p)) (xs @ [b]) \<and>
        c_cl (clists st1 p) = Some b \<and> (\<forall>d \<in> set xs. block_ok st1 d) \<and> b < length (cfree st1) \<and>
        c_first (cfree st1 ! b) \<le> c_last (cfree st1 ! b) \<and> c_last (cfree st1 ! b) < c_size st1 \<and>
        concat (map (chars st1) (xs @ [b])) = cl_items st p \<and> c_cc (clists st1 p) = c_cc (clists st p) \<and>
        (\<forall>d. d \<notin> set (L p) \<union> set F \<longrightarrow> cfree st1 ! d = cfree st ! d) \<and> length (cfree st1) = length (cfree st) \<and>
        c_size st1 = c_size st \<and> (\<forall>q. q \<noteq> p \<longrightarrow> clists st1 q = clists st q)"
proof -
  have pool: "pool_ok st F" and lp: "list_ok st (clists st p) (L p)" and dj: "set (L p) \<inter> set F = {}" using r by (auto simp: cl_rep_def)
  have it: "cl_items st p = concat (map (chars st) (L p))" by (rule cl_items_rep [OF r])
  show ?thesis
  proof (cases "L p \<noteq> [] \<and> c_last (cfree st ! last (L p)) \<noteq> c_size st")
    case True
    define b xs where "b = last (L p)" and "xs = butlast (L p)"
    have L: "L p = xs @ [b]" using True by (simp add: b_def xs_def)
    have ok: "block_ok st b" "\<forall>d \<in> set xs. block_ok st d" using lp by (simp_all add: list_ok_def L)
    have g: "putc_block p st = Some (b, st)" using lp True by (simp add: putc_block_def Let_def list_ok_def b_def)
    have last: "c_last (cfree st ! b) < c_size st" using ok(1) True by (simp add: block_ok_def b_def)
    show ?thesis unfolding g prod.case option.case L
      by (rule exI [of _ xs], rule exI [of _ F], use last pool lp dj ok it L in \<open>auto simp: list_ok_def block_ok_def\<close>)
  next
    case False
    show ?thesis
    proof (cases F)
      case Nil
      then have "cfreelist st = None" using pool by (simp add: pool_ok_def)
      then show ?thesis using False lp Nil by (auto simp: putc_block_def Let_def list_ok_def)
    next
      case (Cons n F1)
      let ?st1 = "upd_cb n (\<lambda>x. x\<lparr>cb_next := None, c_first := 0, c_last := 0\<rparr>) (st\<lparr>cfreelist := cb_next (cfree st ! n)\<rparr>)"
      have n: "cfreelist st = Some n" "linked (nx st) (nx st n) F1" "n \<notin> set F1" "distinct F1" "n < length (cfree st)"
        "set F1 \<subseteq> {..<length (cfree st)}" "n \<notin> set (L p)" "set (L p) \<inter> set F1 = {}" "c_size st = 26"
        using pool dj unfolding Cons by (auto simp: pool_ok_def)
      define st1 where "st1 = (case c_cl (clists st p) of None \<Rightarrow> upd_cl p (\<lambda>q. q\<lparr>c_cf := Some n, c_cl := Some n\<rparr>) ?st1
        | Some b \<Rightarrow> upd_cl p (\<lambda>q. q\<lparr>c_cl := Some n\<rparr>) (upd_cb b (\<lambda>x. x\<lparr>cb_next := Some n\<rparr>) ?st1))"
      have g: "putc_block p st = Some (n, st1)"
        using False lp n(1) by (auto simp: putc_block_def Let_def list_ok_def st1_def)
      have ln: "L p \<noteq> [] \<Longrightarrow> last (L p) \<noteq> n" "L p \<noteq> [] \<Longrightarrow> last (L p) \<in> set (L p)" using n(7) last_in_set by metis+
      have cl: "c_cl (clists st p) = (if L p = [] then None else Some (last (L p)))" using lp by (simp add: list_ok_def)
      have nb: "cfree st1 ! n = (cfree st ! n)\<lparr>cb_next := None, c_first := 0, c_last := 0\<rparr>"
        "length (cfree st1) = length (cfree st)" "c_size st1 = c_size st" "\<forall>q. q \<noteq> p \<longrightarrow> clists st1 q = clists st q"
        "cfreelist st1 = nx st n" "c_cl (clists st1 p) = Some n" "c_cc (clists st1 p) = c_cc (clists st p)"
        "c_cf (clists st1 p) = (if L p = [] then Some n else c_cf (clists st p))"
        using n(5) ln cl by (auto simp: st1_def nx_def)
      have other: "cfree st1 ! d = (if L p \<noteq> [] \<and> d = last (L p) then (cfree st ! d)\<lparr>cb_next := Some n\<rparr> else cfree st ! d)"
        if "d \<noteq> n" for d
        using that ln cl lp by (auto simp: st1_def list_ok_def block_ok_def)
      have nx1: "nx st1 = (if L p = [] then (nx st)(n := None) else (nx st)(n := None, last (L p) := Some n))"
      proof
        fix d
        show "nx st1 d = (if L p = [] then (nx st)(n := None) else (nx st)(n := None, last (L p) := Some n)) d"
        proof (cases "d = n")
          case True
          then show ?thesis using nb(1) ln(1) by (cases "L p = []") (auto simp: nx_def)
        next
          case False
          then show ?thesis by (simp add: nx_def other [OF False])
        qed
      qed
      have lk: "linked ((nx st)(n := None)) (c_cf (clists st p)) (L p)" "linked (nx st1) (nx st n) F1"
      proof -
        have "linked (nx st) (c_cf (clists st p)) (L p)" using lp by (simp add: list_ok_def)
        then show "linked ((nx st)(n := None)) (c_cf (clists st p)) (L p)"
          using n(7) linked_cong [of "L p" "(nx st)(n := None)" "nx st"] by (metis fun_upd_apply)
        have "\<forall>d \<in> set F1. cfree st1 ! d = cfree st ! d" using n(3,8) ln(2) other by (metis disjoint_iff)
        from linked_frame [OF this] show "linked (nx st1) (nx st n) F1" using n(2) by simp
      qed
      have chain: "linked (nx st1) (c_cf (clists st1 p)) (L p @ [n])"
        unfolding nx1 nb(8) using linked_snoc [OF lk(1) _ n(7)] lp by (simp add: list_ok_def)
      have ch: "chars st1 d = chars st d" if "d \<noteq> n" for d using other [OF that] by (simp add: chars_def)
      have ch': "map (chars st1) (L p) = map (chars st) (L p)" using n(7) ch by (metis map_cong)
      have "chars st1 n = []" using nb(1) by (simp add: chars_def)
      then have items: "concat (map (chars st1) (L p @ [n])) = cl_items st p" unfolding it map_append concat_append ch' by simp
      have "c_first (cfree st1 ! d) = c_first (cfree st ! d)" "c_last (cfree st1 ! d) = c_last (cfree st ! d)" if "d \<noteq> n" for d
        using other [OF that] by simp_all
      then have "block_ok st1 d = block_ok st d" if "d \<noteq> n" for d using that nb(2,3) by (simp add: block_ok_def)
      then have bo: "\<forall>d \<in> set (L p). block_ok st1 d" using lp n(7) unfolding list_ok_def by metis
      have "length (c_data (cfree st1 ! d)) = length (c_data (cfree st ! d))" for d using nb(1) other by (cases "d = n") auto
      then have pool1: "pool_ok st1 F1" using pool nb(2,3,5) n(4,6) lk(2) by (simp add: pool_ok_def)
      have sets: "distinct (L p @ [n])" "set (L p @ [n]) \<inter> set F1 = {}" "set (L p @ [n]) \<union> set F1 \<subseteq> set (L p) \<union> set F"
        using lp n(3,7,8) by (auto simp: list_ok_def Cons)
      have room: "n < length (cfree st1)" "c_first (cfree st1 ! n) \<le> c_last (cfree st1 ! n)" "c_last (cfree st1 ! n) < c_size st1"
        using nb(1-3) n(5,9) by simp_all
      have far: "\<forall>d. d \<notin> set (L p) \<union> set F \<longrightarrow> cfree st1 ! d = cfree st ! d"
        using other ln(2) Cons by auto
      show ?thesis unfolding g prod.case option.case
        by (rule exI [of _ "L p"], rule exI [of _ F1], intro conjI)
          (fact pool1 sets chain nb bo room items far)+
    qed
  qed
qed

lemma putc_effect:
  assumes "cl_inv st"
  shows "\<exists>st'. cl_inv st' \<and>
    (putc c p st = Ret (0, st') \<and> cl_items st' = (cl_items st)(p := cl_items st p @ [c mod 256]) \<or>
     putc c p st = Ret (-1, st') \<and> st' = st \<and> cl_free st = 0)"
proof -
  obtain F L where r: "cl_rep st F L" using assms by (auto simp: cl_inv_def)
  show ?thesis
  proof (cases "putc_block p st")
    case None
    then have "F = []" using putc_block_effect [OF r, of p] by simp
    then have "cl_free st = 0" using cl_free_rep [OF r] by simp
    then show ?thesis using None assms by (auto simp: putc_def)
  next
    case (Some y)
    then obtain b st1 where g: "putc_block p st = Some (b, st1)" by (cases y) auto
    obtain xs F1 where e: "pool_ok st1 F1" "distinct (xs @ [b])" "set (xs @ [b]) \<inter> set F1 = {}"
      "set (xs @ [b]) \<union> set F1 \<subseteq> set (L p) \<union> set F" "linked (nx st1) (c_cf (clists st1 p)) (xs @ [b])"
      "c_cl (clists st1 p) = Some b" "\<forall>d \<in> set xs. block_ok st1 d" "b < length (cfree st1)"
      "c_first (cfree st1 ! b) \<le> c_last (cfree st1 ! b)" "c_last (cfree st1 ! b) < c_size st1"
      "concat (map (chars st1) (xs @ [b])) = cl_items st p" "c_cc (clists st1 p) = c_cc (clists st p)"
      "\<forall>d. d \<notin> set (L p) \<union> set F \<longrightarrow> cfree st1 ! d = cfree st ! d" "length (cfree st1) = length (cfree st)"
      "c_size st1 = c_size st" "\<forall>q. q \<noteq> p \<longrightarrow> clists st1 q = clists st q"
      using putc_block_effect [OF r, of p, unfolded g option.case prod.case] by (elim exE conjE)
    define st' where "st' = upd_cl p (\<lambda>q. q\<lparr>c_cc := c_cc q + 1\<rparr>)
      (upd_cb b (\<lambda>x. x\<lparr>c_data := (c_data x)[c_last x := word_of_int c], c_last := Suc (c_last x)\<rparr>) st1)"
    note s = store_effect [OF e(1,8,10,9), of p c, folded st'_def]
    have "c_last (cfree st1 ! b) < length (c_data (cfree st1 ! b))" using e(1,8,10) by (simp add: pool_ok_def)
    then have p: "putc c p st = Ret (0, st')" using g by (simp add: putc_def Let_def st'_def)
    have fx: "\<forall>d \<in> set xs. cfree st' ! d = cfree st1 ! d" using s(3) e(2) by auto
    have it: "concat (map (chars st') (xs @ [b])) = cl_items st p @ [c mod 256]"
      using items_frame [OF fx] s(1) e(11) by simp
    have "\<forall>d \<in> set xs. block_ok st' d" using e(7) fx s(6,7) by (simp add: block_ok_def)
    then have bo: "\<forall>d \<in> set (xs @ [b]). block_ok st' d" using s(2) by simp
    have cc: "c_cc (clists st' p) = int (length (concat (map (chars st') (xs @ [b]))))"
      using s(8) e(12) cl_cc_rep [OF r, of p] unfolding it by simp
    have "linked (nx st') (c_cf (clists st' p)) (xs @ [b])" "c_cl (clists st' p) = Some b" using e(5,6) s(4,8) by simp_all
    then have ok: "list_ok st' (clists st' p) (xs @ [b])" unfolding list_ok_def using e(2) bo cc by simp
    have far: "\<forall>d. d \<notin> set (L p) \<union> set F \<union> {} \<longrightarrow> cfree st' ! d = cfree st ! d"
    proof (intro allI impI)
      fix d
      assume "d \<notin> set (L p) \<union> set F \<union> {}"
      then have "d \<noteq> b" "cfree st1 ! d = cfree st ! d" using e(4,13) by auto
      then show "cfree st' ! d = cfree st ! d" using s(3) by simp
    qed
    have sm: "length (cfree st') = length (cfree st)" "c_size st' = c_size st" "\<forall>q. q \<noteq> p \<longrightarrow> clists st' q = clists st q"
      using s(6-8) e(14-16) by simp_all
    have sub: "set (xs @ [b]) \<union> set F1 \<subseteq> set (L p) \<union> set F \<union> {}" using e(4) by simp
    have "\<forall>q. set (L q) \<inter> {} = {}" by simp
    note t = cl_rep_step [OF r this far sm s(5) ok e(3) sub]
    have "cl_inv st'" unfolding cl_inv_def using t(1) by blast
    then show ?thesis using p t(2) it by (intro exI [of _ st']) simp
  qed
qed

section \<open>Whole blocks\<close>

text \<open>A block in the hands of a driver, in no list, with the characters it holds.\<close>

definition held :: "clstate \<Rightarrow> nat \<Rightarrow> bool" where
  "held st b \<longleftrightarrow> b < length (cfree st) \<and> (\<forall>F L. cl_rep st F L \<longrightarrow> b \<notin> set F \<and> (\<forall>p. b \<notin> set (L p)))"

lemma linked_unique: "linked f p xs \<Longrightarrow> linked f p ys \<Longrightarrow> xs = ys"
proof (induction xs arbitrary: p ys)
  case Nil
  then show ?case by (cases ys) simp_all
next
  case (Cons x xs)
  then show ?case by (cases ys) auto
qed

lemma cl_rep_unique:
  assumes "cl_rep st F L" and "cl_rep st F' L'"
  shows "F' = F \<and> L' = L"
proof -
  have l: "linked (nx st) (cfreelist st) F" "linked (nx st) (cfreelist st) F'"
    "\<forall>p. linked (nx st) (c_cf (clists st p)) (L p)" "\<forall>p. linked (nx st) (c_cf (clists st p)) (L' p)"
    using assms by (simp_all add: cl_rep_def pool_ok_def list_ok_def)
  have "L' p = L p" for p using linked_unique [OF spec [OF l(3)] spec [OF l(4)]] by simp
  then show ?thesis using linked_unique [OF l(1,2)] by auto
qed

lemma held_rep: "cl_rep st F L \<Longrightarrow> b < length (cfree st) \<Longrightarrow> b \<notin> set F \<Longrightarrow> (\<forall>p. b \<notin> set (L p)) \<Longrightarrow> held st b"
  unfolding held_def using cl_rep_unique by blast

lemma getcb_effect:
  assumes "cl_inv st"
  shows "\<exists>st'. (if cl_items st p = [] then getcb p st = (None, st')
      else \<exists>b. getcb p st = (Some b, st') \<and> held st' b \<and> block_ok st' b \<and> cl_items st p = chars st' b @ cl_items st' p) \<and>
    cl_inv st' \<and> cl_items st' = (cl_items st)(p := cl_items st' p) \<and> (cl_items st p = [] \<longrightarrow> cl_items st' p = [])"
proof -
  obtain F L where r: "cl_rep st F L" using assms by (auto simp: cl_inv_def)
  have pool: "pool_ok st F" and lp: "list_ok st (clists st p) (L p)" and dj: "set (L p) \<inter> set F = {}" using r by (auto simp: cl_rep_def)
  have it: "cl_items st p = concat (map (chars st) (L p))" by (rule cl_items_rep [OF r])
  show ?thesis
  proof (cases "L p")
    case Nil
    then have "getcb p st = (None, st)" using lp by (simp add: getcb_def list_ok_def)
    then show ?thesis using Nil it assms by (intro exI [of _ st]) (simp add: fun_upd_idem)
  next
    case (Cons b bs)
    have q: "c_cf (clists st p) = Some b" "linked (nx st) (nx st b) bs" "b \<notin> set bs" "distinct bs" "block_ok st b"
      "\<forall>d \<in> set bs. block_ok st d" "c_cl (clists st p) = Some (last (b # bs))" "b \<notin> set F" "set bs \<inter> set F = {}"
      using lp dj unfolding Cons list_ok_def by simp_all
    have b: "length (c_data (cfree st ! b)) = 26" "c_size st = 26" using pool q(5) by (simp_all add: pool_ok_def block_ok_def)
    define st' where "st' = upd_cl p (\<lambda>q. q\<lparr>c_cc := c_cc q - (int (c_last (cfree st ! b)) - int (c_first (cfree st ! b))),
      c_cf := cb_next (cfree st ! b), c_cl := (if cb_next (cfree st ! b) = None then None else c_cl q)\<rparr>) st"
    have g: "getcb p st = (Some b, st')" using q(1) by (simp add: getcb_def Let_def st'_def)
    have f: "cfree st' = cfree st" "c_size st' = c_size st" "cfreelist st' = cfreelist st" "nx st' = nx st" "chars st' = chars st"
      "\<forall>q. q \<noteq> p \<longrightarrow> clists st' q = clists st q"
      by (auto simp: st'_def nx_def chars_def fun_eq_iff)
    have bk: "\<And>d. block_ok st' d = block_ok st d" using f(1,2) by (simp add: block_ok_def)
    have lc: "int (length (chars st b)) = int (c_last (cfree st ! b)) - int (c_first (cfree st ! b))"
      using q(5) b by (simp add: chars_def block_ok_def)
    have "nx st b = None \<longleftrightarrow> bs = []" using q(2) by (cases bs) auto
    moreover have "clists st' p = (clists st p)\<lparr>c_cc := c_cc (clists st p) - (int (c_last (cfree st ! b)) - int (c_first (cfree st ! b))),
        c_cf := nx st b, c_cl := (if nx st b = None then None else c_cl (clists st p))\<rparr>"
      by (simp add: st'_def nx_def)
    moreover have "c_cc (clists st p) = int (length (chars st b)) + int (length (concat (map (chars st) bs)))"
      using cl_cc_rep [OF r, of p] it Cons by simp
    ultimately have ok: "list_ok st' (clists st' p) bs"
      using q(2,4,6,7) lc f(4,5) unfolding list_ok_def bk by auto
    have pool': "pool_ok st' F" using pool f by (simp add: pool_ok_def)
    have sub: "set bs \<union> set F \<subseteq> set (L p) \<union> set F \<union> {}" using Cons by auto
    have far: "\<forall>d. d \<notin> set (L p) \<union> set F \<union> {} \<longrightarrow> cfree st' ! d = cfree st ! d" using f by simp
    have "\<forall>q. set (L q) \<inter> {} = {}" by simp
    note t = cl_rep_step [OF r this far _ f(2,6) pool' ok q(9) sub]
    have t1: "cl_rep st' F (L(p := bs))" and t2: "cl_items st' = (cl_items st)(p := concat (map (chars st') bs))"
      using t f(1) by simp_all
    have "\<forall>q. b \<notin> set ((L(p := bs)) q)" using r q(3) Cons unfolding cl_rep_def by (metis disjoint_iff fun_upd_apply list.set_intros(1))
    then have h: "held st' b" using held_rep [OF t1] q(5,8) f(1) by (simp add: block_ok_def)
    have ne: "cl_items st p \<noteq> []" using chars_nonempty [OF q(5) b(2,1)] it Cons by simp
    have inv: "cl_inv st'" unfolding cl_inv_def using t1 by blast
    have "cl_items st p = chars st' b @ cl_items st' p" using it Cons f(5) t2 by simp
    then have "\<exists>b. getcb p st = (Some b, st') \<and> held st' b \<and> block_ok st' b \<and> cl_items st p = chars st' b @ cl_items st' p"
      using g h q(5) bk by blast
    then show ?thesis using ne inv t2 by (intro exI [of _ st']) simp
  qed
qed

lemma putcb_effect:
  fixes p
  assumes "cl_inv st" and h: "held st b" and b: "block_ok st b"
  defines "st' \<equiv> putcb b p st"
  shows "cl_inv st'" and "cl_items st' = (cl_items st)(p := cl_items st p @ chars st b)"
proof -
  obtain F L where r: "cl_rep st F L" using assms by (auto simp: cl_inv_def)
  have pool: "pool_ok st F" and lp: "list_ok st (clists st p) (L p)" and dj: "set (L p) \<inter> set F = {}" using r by (auto simp: cl_rep_def)
  have it: "cl_items st p = concat (map (chars st) (L p))" by (rule cl_items_rep [OF r])
  have n: "b < length (cfree st)" "b \<notin> set F" "\<forall>p. b \<notin> set (L p)" using h r by (auto simp: held_def)
  have cl: "c_cl (clists st p) = (if L p = [] then None else Some (last (L p)))" using lp by (simp add: list_ok_def)
  have ln: "L p \<noteq> [] \<Longrightarrow> last (L p) \<noteq> b" "L p \<noteq> [] \<Longrightarrow> last (L p) < length (cfree st)"
    "L p \<noteq> [] \<Longrightarrow> last (L p) \<in> set (L p)"
    using n(3) last_in_set [of "L p"] lp by (metis, metis list_ok_def block_ok_def, metis)
  have at: "cfree st' ! d = (if d = b then (cfree st ! b)\<lparr>cb_next := None\<rparr>
      else if L p \<noteq> [] \<and> d = last (L p) then (cfree st ! d)\<lparr>cb_next := Some b\<rparr> else cfree st ! d)" for d
    using n(1) ln cl by (auto simp: st'_def putcb_def Let_def)
  have f: "length (cfree st') = length (cfree st)" "c_size st' = c_size st" "cfreelist st' = cfreelist st"
    "\<forall>q. q \<noteq> p \<longrightarrow> clists st' q = clists st q" "c_cl (clists st' p) = Some b"
    "c_cf (clists st' p) = (if L p = [] then Some b else c_cf (clists st p))"
    "c_cc (clists st' p) = c_cc (clists st p) + (int (c_last (cfree st ! b)) - int (c_first (cfree st ! b)))"
    using n(1) ln cl by (auto simp: st'_def putcb_def Let_def)
  have nx1: "nx st' = (if L p = [] then (nx st)(b := None) else (nx st)(b := None, last (L p) := Some b))"
  proof
    fix d
    show "nx st' d = (if L p = [] then (nx st)(b := None) else (nx st)(b := None, last (L p) := Some b)) d"
      using ln(1) at [of d] by (cases "L p = []") (auto simp: nx_def)
  qed
  have ch: "chars st' = chars st" using at by (auto simp: chars_def fun_eq_iff)
  have bk: "\<And>d. block_ok st' d = block_ok st d" using at f(1,2) by (auto simp: block_ok_def)
  have "linked (nx st) (c_cf (clists st p)) (L p)" using lp by (simp add: list_ok_def)
  then have "linked ((nx st)(b := None)) (c_cf (clists st p)) (L p)"
    using n(3) linked_cong [of "L p" "(nx st)(b := None)" "nx st"] by (metis fun_upd_apply)
  then have chain: "linked (nx st') (c_cf (clists st' p)) (L p @ [b])"
    unfolding nx1 f(6) using linked_snoc [of "(nx st)(b := None)" _ "L p" b] lp n(3) by (simp add: list_ok_def)
  have lc: "int (length (chars st b)) = int (c_last (cfree st ! b)) - int (c_first (cfree st ! b))"
    using b pool by (simp add: chars_def block_ok_def pool_ok_def)
  have ok: "list_ok st' (clists st' p) (L p @ [b])"
    using chain lp b n(3) f(5,7) lc ch cl_cc_rep [OF r, of p] it unfolding list_ok_def bk by simp
  have "\<forall>d \<in> set F. cfree st' ! d = cfree st ! d" using at n(2) dj ln(3) by (metis disjoint_iff)
  from linked_frame [OF this] have "linked (nx st') (cfreelist st') F" using pool f(3) by (simp add: pool_ok_def)
  moreover have "length (c_data (cfree st' ! d)) = length (c_data (cfree st ! d))" for d using at [of d] by (auto split: if_splits)
  ultimately have pool': "pool_ok st' F" using pool f by (simp add: pool_ok_def)
  have X: "\<forall>q. set (L q) \<inter> {b} = {}" using n(3) by simp
  have far: "\<forall>d. d \<notin> set (L p) \<union> set F \<union> {b} \<longrightarrow> cfree st' ! d = cfree st ! d" using at ln(3) by auto
  have sub: "set (L p @ [b]) \<inter> set F = {}" "set (L p @ [b]) \<union> set F \<subseteq> set (L p) \<union> set F \<union> {b}" using n(2) dj by auto
  note t = cl_rep_step [OF r X far f(1,2,4) pool' ok sub]
  show "cl_inv st'" unfolding cl_inv_def using t(1) by blast
  show "cl_items st' = (cl_items st)(p := cl_items st p @ chars st b)" using t(2) ch it by simp
qed

section \<open>Free blocks\<close>

lemma putcf_effect:
  assumes "cl_inv st" and h: "held st b"
  shows "cl_inv (putcf b st)" and "cl_items (putcf b st) = cl_items st" and "cl_free (putcf b st) = Suc (cl_free st)"
proof -
  obtain F L where r: "cl_rep st F L" using assms by (auto simp: cl_inv_def)
  have pool: "pool_ok st F" using r by (simp add: cl_rep_def)
  have n: "b < length (cfree st)" "b \<notin> set F" "\<forall>p. b \<notin> set (L p)" using h r by (auto simp: held_def)
  define st' where "st' = putcf b st"
  have at: "cfree st' ! d = (if d = b then (cfree st ! b)\<lparr>cb_next := cfreelist st\<rparr> else cfree st ! d)" for d
    using n(1) by (simp add: st'_def putcf_def)
  have f: "length (cfree st') = length (cfree st)" "c_size st' = c_size st" "cfreelist st' = Some b" "clists st' = clists st"
    by (simp_all add: st'_def putcf_def)
  have "\<forall>d \<in> set F. cfree st' ! d = cfree st ! d" using at n(2) by metis
  from linked_frame [OF this] have "linked (nx st') (cfreelist st') (b # F)" using pool f(3) at by (simp add: pool_ok_def nx_def)
  moreover have "length (c_data (cfree st' ! d)) = length (c_data (cfree st ! d))" for d using at [of d] by (auto split: if_splits)
  ultimately have pool': "pool_ok st' (b # F)" using pool f n by (simp add: pool_ok_def)
  have X: "\<forall>q. set (L q) \<inter> {b} = {}" using n(3) by simp
  have same: "\<forall>d \<in> set (L p). cfree st' ! d = cfree st ! d" for p using at n(3) by metis
  have lp: "list_ok st (clists st 0) (L 0)" "set (L 0) \<inter> set F = {}" using r by (simp_all add: cl_rep_def)
  have ok: "list_ok st' (clists st' 0) (L 0)" using list_ok_frame [OF lp(1) same f(1,2)] f(4) by simp
  have far: "\<forall>d. d \<notin> set (L 0) \<union> set F \<union> {b} \<longrightarrow> cfree st' ! d = cfree st ! d" using at by simp
  have sub: "set (L 0) \<inter> set (b # F) = {}" "set (L 0) \<union> set (b # F) \<subseteq> set (L 0) \<union> set F \<union> {b}" using lp(2) n(3) by auto
  have cl: "\<forall>q. q \<noteq> 0 \<longrightarrow> clists st' q = clists st q" using f(4) by simp
  note t = cl_rep_step [OF r X far f(1,2) cl pool' ok sub]
  show "cl_inv (putcf b st)" unfolding cl_inv_def st'_def [symmetric] using t(1) by blast
  show "cl_items (putcf b st) = cl_items st"
    unfolding st'_def [symmetric] t(2) items_frame [OF same] using cl_items_rep [OF r, of 0] by (simp add: fun_upd_idem)
  show "cl_free (putcf b st) = Suc (cl_free st)"
    using cl_free_rep [OF t(1)] cl_free_rep [OF r] by (simp add: st'_def)
qed

lemma getcf_effect:
  assumes "cl_inv st"
  shows "cl_inv (snd (getcf st))" and "cl_items (snd (getcf st)) = cl_items st"
    and "case fst (getcf st) of None \<Rightarrow> cl_free st = 0 | Some b \<Rightarrow> held (snd (getcf st)) b \<and> cl_free st = Suc (cl_free (snd (getcf st)))"
proof -
  obtain F L where r: "cl_rep st F L" using assms by (auto simp: cl_inv_def)
  have pool: "pool_ok st F" using r by (simp add: cl_rep_def)
  have "cl_inv (snd (getcf st)) \<and> cl_items (snd (getcf st)) = cl_items st \<and>
    (case fst (getcf st) of None \<Rightarrow> cl_free st = 0 | Some b \<Rightarrow> held (snd (getcf st)) b \<and> cl_free st = Suc (cl_free (snd (getcf st))))"
  proof (cases F)
    case Nil
    then have "getcf st = (None, st)" using pool by (simp add: getcf_def pool_ok_def)
    then show ?thesis using assms cl_free_rep [OF r] Nil by simp
  next
    case (Cons b F1)
    have n: "cfreelist st = Some b" "linked (nx st) (nx st b) F1" "b \<notin> set F1" "distinct F1" "b < length (cfree st)"
      "set F1 \<subseteq> {..<length (cfree st)}"
      using pool unfolding Cons by (simp_all add: pool_ok_def)
    have nb: "\<forall>p. b \<notin> set (L p)" using r Cons by (auto simp: cl_rep_def)
    define st' where "st' = upd_cb b (\<lambda>x. x\<lparr>cb_next := None, c_first := 0, c_last := c_size st\<rparr>) (st\<lparr>cfreelist := cb_next (cfree st ! b)\<rparr>)"
    have g: "getcf st = (Some b, st')" using n(1) by (simp add: getcf_def st'_def)
    have at: "\<forall>d. d \<noteq> b \<longrightarrow> cfree st' ! d = cfree st ! d" by (simp add: st'_def)
    have f: "length (cfree st') = length (cfree st)" "c_size st' = c_size st" "cfreelist st' = nx st b" "clists st' = clists st"
      by (simp_all add: st'_def nx_def)
    have "\<forall>d \<in> set F1. cfree st' ! d = cfree st ! d" using at n(3) by metis
    from linked_frame [OF this] have "linked (nx st') (cfreelist st') F1" using n(2) f(3) by simp
    moreover have "length (c_data (cfree st' ! d)) = length (c_data (cfree st ! d))" for d by (simp add: st'_def)
    ultimately have pool': "pool_ok st' F1" using pool f n by (simp add: pool_ok_def)
    have same: "\<forall>d \<in> set (L p). cfree st' ! d = cfree st ! d" for p using at nb by metis
    have lp: "list_ok st (clists st 0) (L 0)" "set (L 0) \<inter> set F = {}" using r by (simp_all add: cl_rep_def)
    have ok: "list_ok st' (clists st' 0) (L 0)" using list_ok_frame [OF lp(1) same f(1,2)] f(4) by simp
    have far: "\<forall>d. d \<notin> set (L 0) \<union> set F \<union> {} \<longrightarrow> cfree st' ! d = cfree st ! d" using at Cons by auto
    have sub: "set (L 0) \<inter> set F1 = {}" "set (L 0) \<union> set F1 \<subseteq> set (L 0) \<union> set F \<union> {}" using lp(2) Cons by auto
    have cl: "\<forall>q. q \<noteq> 0 \<longrightarrow> clists st' q = clists st q" using f(4) by simp
    have X: "\<forall>q. set (L q) \<inter> {} = {}" by simp
    note t = cl_rep_step [OF r X far f(1,2) cl pool' ok sub]
    have t1: "cl_rep st' F1 L" using t(1) by simp
    have "cl_items st' = cl_items st"
      unfolding t(2) items_frame [OF same] using cl_items_rep [OF r, of 0] by (simp add: fun_upd_idem)
    moreover have "held st' b" using held_rep [OF t1] n(3,5) nb f(1) by simp
    moreover have "cl_free st = Suc (cl_free st')" using cl_free_rep [OF t1] cl_free_rep [OF r] Cons by simp
    ultimately show ?thesis using g t1 by (auto simp: cl_inv_def)
  qed
  then show "cl_inv (snd (getcf st))" "cl_items (snd (getcf st)) = cl_items st"
    "case fst (getcf st) of None \<Rightarrow> cl_free st = 0 | Some b \<Rightarrow> held (snd (getcf st)) b \<and> cl_free st = Suc (cl_free (snd (getcf st)))"
    by blast+
qed

text \<open>A driver writes into a block it holds.\<close>

lemma fill_effect:
  fixes f l
  assumes inv: "cl_inv st" and h: "held st b" and d: "length d = CBSIZE"
  defines "st' \<equiv> upd_cb b (\<lambda>x. x\<lparr>c_first := f, c_last := l, c_data := d\<rparr>) st"
  shows "cl_inv st'" and "cl_items st' = cl_items st" and "held st' b"
proof -
  obtain F L where r: "cl_rep st F L" using inv by (auto simp: cl_inv_def)
  have pool: "pool_ok st F" using r by (simp add: cl_rep_def)
  have n: "b < length (cfree st)" "b \<notin> set F" "\<forall>p. b \<notin> set (L p)" using h r by (auto simp: held_def)
  have at: "cfree st' ! e = (if e = b then (cfree st ! b)\<lparr>c_first := f, c_last := l, c_data := d\<rparr> else cfree st ! e)" for e
    using n(1) by (simp add: st'_def)
  have g: "length (cfree st') = length (cfree st)" "c_size st' = c_size st" "cfreelist st' = cfreelist st" "clists st' = clists st"
    "nx st' = nx st"
    using at by (auto simp: st'_def nx_def fun_eq_iff)
  have pool': "pool_ok st' F" using pool g at d unfolding pool_ok_def by simp
  have X: "\<forall>q. set (L q) \<inter> {b} = {}" using n(3) by simp
  have same: "\<forall>e \<in> set (L p). cfree st' ! e = cfree st ! e" for p using at n(3) by metis
  have lp: "list_ok st (clists st 0) (L 0)" "set (L 0) \<inter> set F = {}" using r by (simp_all add: cl_rep_def)
  have ok: "list_ok st' (clists st' 0) (L 0)" using list_ok_frame [OF lp(1) same g(1,2)] g(4) by simp
  have far: "\<forall>e. e \<notin> set (L 0) \<union> set F \<union> {b} \<longrightarrow> cfree st' ! e = cfree st ! e" using at by simp
  have sub: "set (L 0) \<union> set F \<subseteq> set (L 0) \<union> set F \<union> {b}" by blast
  have cl: "\<forall>q. q \<noteq> 0 \<longrightarrow> clists st' q = clists st q" using g(4) by simp
  note t = cl_rep_step [OF r X far g(1,2) cl pool' ok lp(2) sub]
  show "cl_inv st'" unfolding cl_inv_def using t(1) by blast
  show "cl_items st' = cl_items st"
    unfolding t(2) items_frame [OF same] using cl_items_rep [OF r, of 0] by (simp add: fun_upd_idem)
  have "\<forall>p. b \<notin> set ((L(0 := L 0)) p)" using n(3) by simp
  then show "held st' b" using held_rep [OF t(1)] n(1,2) g(1) by simp
qed

text \<open>The boot code.\<close>

definition cl_fresh :: "clstate \<Rightarrow> bool" where
  "cl_fresh st \<longleftrightarrow> (\<forall>x \<in> set (cfree st). length (c_data x) = CBSIZE) \<and> cfreelist st = None \<and>
     clists st = (\<lambda>p. \<lparr>c_cc = 0, c_cf = None, c_cl = None\<rparr>)"

lemma cinit1_fold:
  assumes "cl_fresh st" and "n \<le> length (cfree st)"
  shows "linked (nx (fold cinit1 [0..<n] st)) (cfreelist (fold cinit1 [0..<n] st)) (rev [0..<n]) \<and>
    length (cfree (fold cinit1 [0..<n] st)) = length (cfree st) \<and> clists (fold cinit1 [0..<n] st) = clists st \<and>
    (\<forall>b < length (cfree st). length (c_data (cfree (fold cinit1 [0..<n] st) ! b)) = CBSIZE)"
  using assms(2)
proof (induction n)
  case 0
  then show ?case using assms(1) by (simp add: cl_fresh_def)
next
  case (Suc n)
  define s1 where "s1 = fold cinit1 [0..<n] st"
  have IH: "linked (nx s1) (cfreelist s1) (rev [0..<n])" "length (cfree s1) = length (cfree st)" "clists s1 = clists st"
    "\<forall>b < length (cfree st). length (c_data (cfree s1 ! b)) = CBSIZE"
    using Suc unfolding s1_def by simp_all
  have "\<forall>d \<in> set (rev [0..<n]). cfree (cinit1 n s1) ! d = cfree s1 ! d" by (simp add: cinit1_def)
  from linked_frame [OF this] have "linked (nx (cinit1 n s1)) (Some n) (n # rev [0..<n])"
    using IH(1,2) Suc.prems by (simp add: nx_def cinit1_def)
  moreover have "cfreelist (cinit1 n s1) = Some n" "length (cfree (cinit1 n s1)) = length (cfree s1)"
    "clists (cinit1 n s1) = clists s1" "\<And>b. c_data (cfree (cinit1 n s1) ! b) = c_data (cfree s1 ! b)"
    by (simp_all add: cinit1_def)
  moreover have "fold cinit1 [0..<Suc n] st = cinit1 n s1" "rev [0..<Suc n] = n # rev [0..<n]" by (simp_all add: s1_def)
  ultimately show ?case using IH(2-4) by (simp only: simp_thms)
qed

lemma cinit_spec:
  assumes "cl_fresh st"
  shows "cl_inv (cinit st)" and "cl_items (cinit st) p = []" and "cl_free (cinit st) = length (cfree st)"
proof -
  let ?n = "length (cfree st)"
  define s1 where "s1 = fold cinit1 [0..<?n] st"
  have s1: "linked (nx s1) (cfreelist s1) (rev [0..<?n])" "length (cfree s1) = ?n" "clists s1 = clists st"
    "\<forall>b < ?n. length (c_data (cfree s1 ! b)) = CBSIZE"
    using cinit1_fold [OF assms, of ?n] unfolding s1_def by simp_all
  have "nx (cinit st) = nx s1" by (simp add: nx_def cinit_def s1_def fun_eq_iff)
  then have "cl_rep (cinit st) (rev [0..<?n]) (\<lambda>p. [])"
    using s1 assms by (auto simp: cl_rep_def pool_ok_def list_ok_def cinit_def s1_def [symmetric] cl_fresh_def)
  then show "cl_inv (cinit st)" "cl_items (cinit st) p = []" "cl_free (cinit st) = length (cfree st)"
    by (auto simp: cl_inv_def cl_items_rep cl_free_rep)
qed

section \<open>The lists as queues\<close>

definition cl_put :: "nat \<Rightarrow> int list \<Rightarrow> clstate \<Rightarrow> clstate \<Rightarrow> bool" where
  "cl_put p xs s s' \<longleftrightarrow> (\<exists>c. xs = [c mod 256] \<and> putc c p s = Ret (0, s')) \<or>
     (\<exists>b. held s b \<and> block_ok s b \<and> xs = chars s b \<and> s' = putcb b p s)"

definition cl_get :: "nat \<Rightarrow> int list \<Rightarrow> clstate \<Rightarrow> clstate \<Rightarrow> bool" where
  "cl_get p xs s s' \<longleftrightarrow> (\<exists>x. x \<noteq> -1 \<and> xs = [x] \<and> getc p s = Ret (x, s')) \<or>
     (\<exists>b. getcb p s = (Some b, s') \<and> xs = chars s' b)"

text \<open>
  A full or empty list that is tried, blocks that drivers take from and give to the free
  list, and what a driver writes into a block it holds.
\<close>

definition cl_idle :: "clstate \<Rightarrow> clstate \<Rightarrow> bool" where
  "cl_idle s s' \<longleftrightarrow> (\<exists>c p. putc c p s = Ret (-1, s')) \<or> (\<exists>p. getc p s = Ret (-1, s')) \<or>
     (\<exists>p. getcb p s = (None, s')) \<or> s' = snd (getcf s) \<or> (\<exists>b. held s b \<and> s' = putcf b s) \<or>
     (\<exists>b f l d. held s b \<and> length d = CBSIZE \<and> s' = upd_cb b (\<lambda>x. x\<lparr>c_first := f, c_last := l, c_data := d\<rparr>) s)"

lemma chars_range: "x \<in> set (chars st b) \<Longrightarrow> 0 \<le> x \<and> x < 256"
  using uint_lt2p [where ?'a = 8] by (auto simp: chars_def)

lemma items_range:
  assumes "cl_inv st" and "x \<in> set (cl_items st p)"
  shows "0 \<le> x" and "x < 256"
  using assms chars_range by (auto simp: cl_inv_def cl_items_rep)

lemma cl_put_effect:
  assumes ok: "cl_inv s" and p: "cl_put i xs s s'"
  shows "cl_inv s' \<and> cl_items s' = (cl_items s)(i := cl_items s i @ xs)"
  using p unfolding cl_put_def
proof (elim disjE exE conjE)
  fix c assume "xs = [c mod 256]" "putc c i s = Ret (0, s')"
  then show ?thesis using putc_effect [OF ok, of c i] by auto
next
  fix b assume "held s b" "block_ok s b" "xs = chars s b" "s' = putcb b i s"
  then show ?thesis using putcb_effect [OF ok] by simp
qed

lemma cl_get_effect:
  assumes ok: "cl_inv s" and g: "cl_get i xs s s'"
  shows "cl_inv s' \<and> cl_items s i = xs @ cl_items s' i \<and> (\<forall>j. j \<noteq> i \<longrightarrow> cl_items s' j = cl_items s j)"
  using g unfolding cl_get_def
proof (elim disjE exE conjE)
  fix x assume x: "x \<noteq> -1" "xs = [x]" "getc i s = Ret (x, s')"
  obtain s1 where s1: "if cl_items s i = [] then getc i s = Ret (-1, s) \<and> s1 = s else getc i s = Ret (hd (cl_items s i), s1)"
    "cl_inv s1" "cl_items s1 = (cl_items s)(i := tl (cl_items s i))"
    using getc_effect [OF ok, of i] by (elim exE conjE)
  then have "cl_items s i \<noteq> []" "x = hd (cl_items s i)" "s1 = s'" using x by (auto split: if_splits)
  then show ?thesis using s1(2,3) x(2) by simp
next
  fix b assume b: "getcb i s = (Some b, s')" "xs = chars s' b"
  obtain s1 where s1: "if cl_items s i = [] then getcb i s = (None, s1)
      else \<exists>b. getcb i s = (Some b, s1) \<and> held s1 b \<and> block_ok s1 b \<and> cl_items s i = chars s1 b @ cl_items s1 i"
    "cl_inv s1" "cl_items s1 = (cl_items s)(i := cl_items s1 i)"
    using getcb_effect [OF ok, of i] by (elim exE conjE)
  have o: "cl_items s1 j = cl_items s j" if "j \<noteq> i" for j
    by (subst s1(3)) (simp add: that)
  have "s1 = s'" "cl_items s i = chars s' b @ cl_items s' i" using s1(1) b(1) by (auto split: if_splits)
  then show ?thesis using s1(2) o b(2) by simp
qed

lemma cl_idle_effect:
  assumes ok: "cl_inv s" and d: "cl_idle s s'"
  shows "cl_inv s' \<and> cl_items s' = cl_items s"
  using d unfolding cl_idle_def
proof (elim disjE exE conjE)
  fix c p assume "putc c p s = Ret (-1, s')"
  then show ?thesis using putc_effect [OF ok, of c p] ok by auto
next
  fix p assume g: "getc p s = Ret (-1, s')"
  obtain s1 where "if cl_items s p = [] then getc p s = Ret (-1, s) \<and> s1 = s else getc p s = Ret (hd (cl_items s p), s1)"
    using getc_effect [OF ok, of p] by (elim exE conjE)
  moreover have "cl_items s p \<noteq> [] \<Longrightarrow> 0 \<le> hd (cl_items s p)" by (rule items_range(1) [OF ok hd_in_set])
  ultimately have "s' = s" using g by (auto split: if_splits)
  then show ?thesis using ok by simp
next
  fix p assume "getcb p s = (None, s')"
  then have "s' = s" by (auto simp: getcb_def Let_def split: option.splits)
  then show ?thesis using ok by simp
next
  assume "s' = snd (getcf s)"
  then show ?thesis using getcf_effect [OF ok] by simp
next
  fix b assume "held s b" "s' = putcf b s"
  then show ?thesis using putcf_effect [OF ok] by simp
next
  fix b f l d assume "held s b" "length d = CBSIZE" "s' = upd_cb b (\<lambda>x. x\<lparr>c_first := f, c_last := l, c_data := d\<rparr>) s"
  then show ?thesis using fill_effect [OF ok] by simp
qed

interpretation cq: fifo cl_items "\<lambda>_ _. ()" cl_put cl_get cl_idle cl_inv
proof unfold_locales
  fix s s' i xs j k
  assume ok: "cl_inv s"
  show "cl_inv s'" "cl_items s' = (cl_items s)(i := cl_items s i @ xs)" if "cl_put i xs s s'"
    using cl_put_effect [OF ok that] by blast+
  show "cl_inv s'" "filter (\<lambda>x. () = k) (cl_items s i) = filter (\<lambda>x. () = k) (xs @ cl_items s' i)"
    "j \<noteq> i \<Longrightarrow> cl_items s' j = cl_items s j" if "cl_get i xs s s'"
    using cl_get_effect [OF ok that] by simp_all
qed (rule cl_idle_effect)

text \<open>
  Any mixture of calls on any terminals, with the characters put and got, one by one or
  a block at a time.
\<close>

inductive tty_traffic :: "clstate \<Rightarrow> (nat \<times> int) list \<Rightarrow> (nat \<times> int) list \<Rightarrow> clstate \<Rightarrow> bool" where
  tty_boot: "cl_fresh st \<Longrightarrow> tty_traffic (cinit st) [] [] (cinit st)"
| tty_putc: "tty_traffic st ps gs st' \<Longrightarrow> putc c p st' = Ret (0, st'') \<Longrightarrow> tty_traffic st (ps @ [(p, c mod 256)]) gs st''"
| tty_getc: "tty_traffic st ps gs st' \<Longrightarrow> getc p st' = Ret (x, st'') \<Longrightarrow> x \<noteq> -1 \<Longrightarrow> tty_traffic st ps (gs @ [(p, x)]) st''"
| tty_putcb: "tty_traffic st ps gs st' \<Longrightarrow> held st' b \<Longrightarrow> block_ok st' b \<Longrightarrow>
    tty_traffic st (ps @ map (Pair p) (chars st' b)) gs (putcb b p st')"
| tty_getcb: "tty_traffic st ps gs st' \<Longrightarrow> getcb p st' = (Some b, st'') \<Longrightarrow>
    tty_traffic st ps (gs @ map (Pair p) (chars st'' b)) st''"
| tty_idle: "tty_traffic st ps gs st' \<Longrightarrow> cl_idle st' st'' \<Longrightarrow> tty_traffic st ps gs st''"

lemma tty_traffic_run: "tty_traffic st ps gs st' \<Longrightarrow> cq.run st ps gs st' \<and> (\<exists>s0. cl_fresh s0 \<and> st = cinit s0)"
proof (induction rule: tty_traffic.induct)
  case (tty_putc st ps gs st' c p st'')
  then have "cl_put p [c mod 256] st' st''" by (auto simp: cl_put_def)
  then show ?case using tty_putc.IH cq.run_put [of st ps gs st' p "[c mod 256]" st''] by simp
next
  case (tty_getc st ps gs st' p x st'')
  then have "cl_get p [x] st' st''" by (simp add: cl_get_def)
  then show ?case using tty_getc.IH cq.run_get [of st ps gs st' p "[x]" st''] by simp
next
  case (tty_putcb st ps gs st' b p)
  then have "cl_put p (chars st' b) st' (putcb b p st')" by (auto simp: cl_put_def)
  then show ?case using tty_putcb.IH cq.run_put by blast
next
  case (tty_getcb st ps gs st' p b st'')
  then have "cl_get p (chars st'' b) st' st''" by (auto simp: cl_get_def)
  then show ?case using tty_getcb.IH cq.run_get by blast
qed (blast intro: cq.run.intros)+

section \<open>Properties\<close>

lemma clist_facts:
  assumes "tty_traffic st ps gs st'"
  shows "at_queue p ps = at_queue p gs @ cl_items st' p" and "c_cc (clists st' p) = int (length (cl_items st' p))"
    and "\<exists>r. putc c p st' = Ret r" and "\<exists>r. getc p st' = Ret r"
proof -
  obtain s0 where s0: "cl_fresh s0" "st = cinit s0" and run: "cq.run st ps gs st'" using tty_traffic_run [OF assms] by blast
  have "cl_inv st" "cl_items st p = []" using cinit_spec [OF s0(1)] s0(2) by simp_all
  then have r: "cl_inv st'" "at_queue p ps = at_queue p gs @ cl_items st' p"
    using cq.run_ok [OF run] cq.run_fifo [OF run, of _ p] by simp_all
  then show "at_queue p ps = at_queue p gs @ cl_items st' p" by simp
  show "c_cc (clists st' p) = int (length (cl_items st' p))" using r(1) cl_cc_rep by (auto simp: cl_inv_def)
  show "\<exists>r. putc c p st' = Ret r" using putc_effect [OF r(1), of c p] by blast
  show "\<exists>r. getc p st' = Ret r" using getc_effect [OF r(1), of p] by (auto split: if_splits)
qed

text \<open>
  C24. Whatever mixture of \<^verbatim>\<open>putc\<close>, \<^verbatim>\<open>getc\<close>, \<^verbatim>\<open>putcb\<close>, \<^verbatim>\<open>getcb\<close>, \<^verbatim>\<open>putcf\<close>
  and \<^verbatim>\<open>getcf\<close> runs since boot, drivers writing into the blocks they hold in between:
  each list hands out, one by one or a block at a time, exactly the characters put into it,
  as bytes and in order, over all block boundaries; its count is the number of characters
  left, and \<^verbatim>\<open>putc\<close> and \<^verbatim>\<open>getc\<close> do not fault. A block given to \<^verbatim>\<open>putcb\<close> or
  \<^verbatim>\<open>putcf\<close> is one the driver holds, and one given to \<^verbatim>\<open>putcb\<close> is not empty.
\<close>

theorem clist_fifo:
  assumes "tty_traffic st ps gs st'"
  shows "at_queue p ps = at_queue p gs @ cl_items st' p \<and> c_cc (clists st' p) = int (length (cl_items st' p)) \<and>
    (\<exists>r. putc c p st' = Ret r) \<and> (\<exists>r. getc p st' = Ret r)"
  using clist_facts(1,2,4) [OF assms, of p] clist_facts(3) [OF assms, where p = p and c = c] by blast

definition ex_cl :: clstate where
  "ex_cl = \<lparr>cfree = replicate 2 \<lparr>cb_next = None, c_first = 0, c_last = 0, c_data = replicate 26 0\<rparr>, cfreelist = None,
     c_size = 0, clists = (\<lambda>p. \<lparr>c_cc = 0, c_cf = None, c_cl = None\<rparr>)\<rparr>"

lemma ex_cl_fresh: "cl_fresh ex_cl"
  by (simp add: cl_fresh_def ex_cl_def)

lemma ex_cl_traffic:
  "\<exists>st1 st2. putc 300 7 (cinit ex_cl) = Ret (0, st1) \<and> getc 7 st1 = Ret (44, st2) \<and>
    tty_traffic (cinit ex_cl) [(7, 44)] [] st1 \<and> tty_traffic (cinit ex_cl) [(7, 44)] [(7, 44)] st2"
proof -
  note f = ex_cl_fresh
  note c = cinit_spec [OF f]
  have n: "cl_free (cinit ex_cl) \<noteq> 0" using c(3) by (simp add: ex_cl_def)
  obtain st1 where 1: "cl_inv st1" "putc 300 7 (cinit ex_cl) = Ret (0, st1)" "cl_items st1 = (cl_items (cinit ex_cl))(7 := cl_items (cinit ex_cl) 7 @ [300 mod 256])"
    using putc_effect [OF c(1), of 300 7] n by (elim exE conjE disjE) simp_all
  then have "cl_items st1 7 = [44]" using c(2) by simp
  then obtain st2 where 2: "getc 7 st1 = Ret (44, st2)" using getc_effect [OF 1(1), of 7] by auto
  have t1: "tty_traffic (cinit ex_cl) [(7, 44)] [] st1" using tty_putc [OF tty_boot [OF f] 1(2)] by simp
  have "tty_traffic (cinit ex_cl) [(7, 44)] [(7, 44)] st2" using tty_getc [OF t1 2] by simp
  then show ?thesis using 1(2) 2 t1 by blast
qed

lemma ex_cl_block:
  assumes "tty_traffic st0 ps gs st" and "cl_items st p \<noteq> []"
  obtains b st' where "getcb p st = (Some b, st')" and "cl_items st p = chars st' b @ cl_items st' p"
    and "tty_traffic st0 (ps @ map (Pair q) (chars st' b)) (gs @ map (Pair p) (chars st' b)) (putcb b q st')"
proof -
  obtain s0 where s0: "cl_fresh s0" "st0 = cinit s0" and run: "cq.run st0 ps gs st" using tty_traffic_run [OF assms(1)] by blast
  have inv: "cl_inv st" using cq.run_ok [OF run] cinit_spec(1) [OF s0(1)] s0(2) by simp
  obtain b st' where g: "getcb p st = (Some b, st')" "held st' b" "block_ok st' b" "cl_items st p = chars st' b @ cl_items st' p"
    using getcb_effect [OF inv, of p] assms(2) by (auto split: if_splits)
  show thesis using that g(1,4) tty_putcb [OF tty_getcb [OF assms(1) g(1)] g(2,3)] by blast
qed

theorem clist_fifo_witness:
  "\<exists>st1 st2 b st3. putc 300 7 (cinit ex_cl) = Ret (0, st1) \<and> cl_items st1 7 = [44] \<and> c_cc (clists st1 7) = 1 \<and>
     getc 7 st1 = Ret (44, st2) \<and> cl_items st2 7 = [] \<and>
     getcb 7 st1 = (Some b, st3) \<and> cl_items (putcb b 8 st3) 7 = [] \<and> cl_items (putcb b 8 st3) 8 = [44]"
proof -
  obtain st1 st2 where t: "putc 300 7 (cinit ex_cl) = Ret (0, st1)" "getc 7 st1 = Ret (44, st2)"
    "tty_traffic (cinit ex_cl) [(7, 44)] [] st1" "tty_traffic (cinit ex_cl) [(7, 44)] [(7, 44)] st2"
    using ex_cl_traffic by blast
  have i: "cl_items st1 7 = [44]" "cl_items st2 7 = []"
    using conjunct1 [OF clist_fifo [OF t(3), of 7]] conjunct1 [OF clist_fifo [OF t(4), of 7]] by simp_all
  obtain b st3 where b: "getcb 7 st1 = (Some b, st3)" "cl_items st1 7 = chars st3 b @ cl_items st3 7"
    and tb: "tty_traffic (cinit ex_cl) ([(7, 44)] @ map (Pair 8) (chars st3 b)) ([] @ map (Pair 7) (chars st3 b)) (putcb b 8 st3)"
    using ex_cl_block [OF t(3), of 7 8] i(1) by auto
  have f: "[44] = chars st3 b @ cl_items (putcb b 8 st3) 7" "chars st3 b = cl_items (putcb b 8 st3) 8"
    using conjunct1 [OF clist_fifo [OF tb, of 7]] conjunct1 [OF clist_fifo [OF tb, of 8]] by simp_all
  have "getcb 7 st1 = (Some b, st3) \<Longrightarrow> cl_inv st1 \<Longrightarrow> chars st3 b \<noteq> []"
    using getcb_effect [of st1 7] i(1) chars_nonempty
    by (auto simp: cl_inv_def cl_rep_def pool_ok_def block_ok_def split: if_splits)
  moreover have "cl_inv st1" using cq.run_ok [OF conjunct1 [OF tty_traffic_run [OF t(3)]] cinit_spec(1) [OF ex_cl_fresh]] .
  ultimately have "chars st3 b = [44]" "cl_items (putcb b 8 st3) 7 = []"
    using f(1) b(1) by (auto simp: Cons_eq_append_conv)
  moreover have "c_cc (clists st1 7) = 1" using clist_facts(2) [OF t(3), of 7] i by simp
  ultimately show ?thesis using t(1,2) i b(1) f(2) by metis
qed

text \<open>
  A driver that takes a block off one list and appends it to another moves exactly
  the block's characters: off the front of the one, in order to the end of the other, and
  nothing else changes.
\<close>

theorem block_moves:
  assumes "tty_traffic st0 ps gs st" and "cl_items st p \<noteq> []" and "p \<noteq> q"
  shows "\<exists>b st' xs. getcb p st = (Some b, st') \<and> cl_inv (putcb b q st') \<and> xs \<noteq> [] \<and>
    cl_items st p = xs @ cl_items (putcb b q st') p \<and> cl_items (putcb b q st') q = cl_items st q @ xs \<and>
    (\<forall>r. r \<noteq> p \<and> r \<noteq> q \<longrightarrow> cl_items (putcb b q st') r = cl_items st r) \<and>
    c_cc (clists (putcb b q st') q) = c_cc (clists st q) + int (length xs)"
proof -
  obtain s0 where s0: "cl_fresh s0" "st0 = cinit s0" and run: "cq.run st0 ps gs st" using tty_traffic_run [OF assms(1)] by blast
  have inv: "cl_inv st" using cq.run_ok [OF run] cinit_spec(1) [OF s0(1)] s0(2) by simp
  obtain b st' where g: "getcb p st = (Some b, st')" "held st' b" "block_ok st' b" "cl_items st p = chars st' b @ cl_items st' p"
    "cl_inv st'" "cl_items st' = (cl_items st)(p := cl_items st' p)"
    using getcb_effect [OF inv, of p] assms(2) by (auto split: if_splits)
  note e = putcb_effect [OF g(5,2,3), of q]
  have q: "cl_items st' q = cl_items st q" "\<And>r. r \<noteq> p \<Longrightarrow> cl_items st' r = cl_items st r"
    using fun_cong [OF g(6)] assms(3) by auto
  have ne: "chars st' b \<noteq> []"
    using chars_nonempty [OF g(3)] g(3,5) by (auto simp: cl_inv_def cl_rep_def pool_ok_def block_ok_def)
  have "c_cc (clists (putcb b q st') q) = int (length (cl_items (putcb b q st') q))" "c_cc (clists st q) = int (length (cl_items st q))"
    using e(1) inv cl_cc_rep by (auto simp: cl_inv_def)
  then show ?thesis using g(1,4) e q ne assms(3)
    by (intro exI [of _ b] exI [of _ st'] exI [of _ "chars st' b"]) simp
qed

theorem block_moves_witness:
  "\<exists>st b st'. putc 300 7 (cinit ex_cl) = Ret (0, st) \<and> getcb 7 st = (Some b, st') \<and>
     cl_items (putcb b 8 st') 8 = [44] \<and> cl_items (putcb b 8 st') 7 = []"
proof -
  obtain st where t: "putc 300 7 (cinit ex_cl) = Ret (0, st)" "tty_traffic (cinit ex_cl) [(7, 44)] [] st"
    using ex_cl_traffic by blast
  have i: "cl_items st 7 = [44]" "cl_items st 8 = []"
    using clist_facts(1) [OF t(2), of 7] clist_facts(1) [OF t(2), of 8] by (simp_all add: at_queue_def)
  then obtain b st' xs where "getcb 7 st = (Some b, st')" "xs \<noteq> []" "cl_items st 7 = xs @ cl_items (putcb b 8 st') 7"
    "cl_items (putcb b 8 st') 8 = cl_items st 8 @ xs"
    using block_moves [OF t(2), of 7 8] by auto
  then show ?thesis using t(1) i by (auto simp: append_eq_Cons_conv Cons_eq_append_conv)
qed

end
