(* ===== verification/Hash_Chain.thy ===== *)
theory Hash_Chain
  imports Ptr_List
begin

text \<open>
  Hash chains through a table: the heads are indices, each entry holds the index of the
  next one, and index 0 ends a chain. The operations take the fields they work on as
  arguments; the locale states what these must satisfy and proves, once, what searching,
  linking and unlinking do.
\<close>

section \<open>Operations\<close>

text \<open>The first entry of a chain that passes a test; 0 is the end of the chain.\<close>

fun chain_search :: "nat \<Rightarrow> (nat \<Rightarrow> nat) \<Rightarrow> (nat \<Rightarrow> bool) \<Rightarrow> nat \<Rightarrow> nat outcome" where
  "chain_search n nxt hit p =
     (if p = 0 then Ret 0 else if hit p then Ret p
      else case n of 0 \<Rightarrow> Fault | Suc k \<Rightarrow> chain_search k nxt hit (nxt p))"

text \<open>The entry \<open>tp\<close> is looked for, with the entry before it, or itself when it is the first.\<close>

fun chain_pred :: "nat \<Rightarrow> (nat \<Rightarrow> nat) \<Rightarrow> nat \<Rightarrow> nat \<Rightarrow> nat \<Rightarrow> nat option outcome" where
  "chain_pred n nxt tp lp p =
     (if p = 0 then Ret None else if p = tp then Ret (Some lp)
      else case n of 0 \<Rightarrow> Fault | Suc k \<Rightarrow> chain_pred k nxt tp p (nxt p))"

definition chain_remove :: "nat \<Rightarrow> ('s \<Rightarrow> nat \<Rightarrow> nat) \<Rightarrow> (nat \<Rightarrow> nat \<Rightarrow> 's \<Rightarrow> 's) \<Rightarrow> ('s \<Rightarrow> nat \<Rightarrow> nat)
    \<Rightarrow> (nat \<Rightarrow> nat \<Rightarrow> 's \<Rightarrow> 's) \<Rightarrow> nat \<Rightarrow> nat \<Rightarrow> 's \<Rightarrow> (bool \<times> 's) outcome" where
  "chain_remove n nxt setn hs seth h tp s =
     obind (chain_pred n (nxt s) tp (hs s h) (hs s h)) (\<lambda>r.
       case r of
         None \<Rightarrow> Ret (False, s)
       | Some lp \<Rightarrow> Ret (True, if lp = tp then seth h (nxt s tp) s else setn lp (nxt s tp) s))"

definition chain_link :: "(nat \<Rightarrow> nat \<Rightarrow> 's \<Rightarrow> 's) \<Rightarrow> ('s \<Rightarrow> nat \<Rightarrow> nat) \<Rightarrow> (nat \<Rightarrow> nat \<Rightarrow> 's \<Rightarrow> 's) \<Rightarrow> nat \<Rightarrow> nat \<Rightarrow> 's \<Rightarrow> 's" where
  "chain_link setn hs seth h p s = seth h p (setn p (hs s h) s)"

section \<open>Chains\<close>

definition ptr :: "nat \<Rightarrow> nat option" where
  "ptr p = (if p = 0 then None else Some p)"

definition on_chain :: "(nat \<Rightarrow> nat) \<Rightarrow> nat \<Rightarrow> nat list \<Rightarrow> bool" where
  "on_chain nxt p xs \<longleftrightarrow> linked (\<lambda>i. ptr (nxt i)) (ptr p) xs \<and> 0 \<notin> set xs"

lemma on_chain_Nil [simp]: "on_chain nxt p [] \<longleftrightarrow> p = 0"
  by (simp add: on_chain_def ptr_def)

lemma on_chain_Cons [simp]: "on_chain nxt p (x # xs) \<longleftrightarrow> p = x \<and> x \<noteq> 0 \<and> on_chain nxt (nxt x) xs"
  by (auto simp: on_chain_def ptr_def)

lemma on_chain_0: "on_chain nxt 0 xs \<longleftrightarrow> xs = []"
  by (cases xs) auto

lemma on_chain_frame: "on_chain nxt p xs \<Longrightarrow> \<forall>x \<in> set xs. nxt' x = nxt x \<Longrightarrow> on_chain nxt' p xs"
  by (induction xs arbitrary: p) auto

lemma chain_search_found:
  "on_chain nxt p xs \<Longrightarrow> length xs \<le> n \<Longrightarrow>
    chain_search n nxt hit p = Ret (case find hit xs of None \<Rightarrow> 0 | Some x \<Rightarrow> x)"
proof (induction xs arbitrary: n p)
  case (Cons x xs)
  then show ?case by (cases n) auto
qed (subst chain_search.simps, simp)

lemma chain_pred_found:
  "on_chain nxt p (xs @ tp # ys) \<Longrightarrow> tp \<notin> set xs \<Longrightarrow> length xs \<le> n \<Longrightarrow>
    chain_pred n nxt tp lp p = Ret (Some (if xs = [] then lp else last xs))"
proof (induction xs arbitrary: n p lp)
  case (Cons x xs)
  then obtain k where n: "n = Suc k" by (cases n) auto
  have "chain_pred n nxt tp lp p = chain_pred k nxt tp x (nxt x)"
    using Cons.prems(1,2) by (subst chain_pred.simps) (auto simp: n)
  also have "\<dots> = Ret (Some (if xs = [] then x else last xs))"
    using Cons.prems n by (intro Cons.IH) auto
  finally show ?case by simp
qed (subst chain_pred.simps, simp)

lemma chain_pred_absent:
  "on_chain nxt p xs \<Longrightarrow> tp \<notin> set xs \<Longrightarrow> length xs \<le> n \<Longrightarrow> chain_pred n nxt tp lp p = Ret None"
proof (induction xs arbitrary: n p lp)
  case (Cons x xs)
  then show ?case by (cases n) auto
qed (subst chain_pred.simps, simp)

text \<open>The equations unfold for ever on a variable; the lemmas above replace them.\<close>

declare chain_search.simps [simp del] chain_pred.simps [simp del]

section \<open>The interface\<close>

text \<open>
  One table may carry several families of chains. \<open>nxt\<close> and \<open>hs\<close> read the links and
  heads of a family, \<open>setn\<close> and \<open>seth\<close> write them; \<open>C h\<close> are the entries of chain \<open>h\<close>.
\<close>

locale hash_chain =
  fixes cells :: "'s \<Rightarrow> nat"
    and nxt :: "'s \<Rightarrow> nat \<Rightarrow> nat" and setn :: "nat \<Rightarrow> nat \<Rightarrow> 's \<Rightarrow> 's"
    and hs :: "'s \<Rightarrow> nat \<Rightarrow> nat" and seth :: "nat \<Rightarrow> nat \<Rightarrow> 's \<Rightarrow> 's"
  assumes nxt_setn: "p < cells s \<Longrightarrow> nxt (setn p v s) = (nxt s)(p := v)"
    and hs_setn: "hs (setn p v s) = hs s"
    and nxt_seth: "nxt (seth h v s) = nxt s"
    and hs_seth: "hs (seth h v s) = (hs s)(h := v)"
    and cells_setn: "cells (setn p v s) = cells s"
    and cells_seth: "cells (seth h v s) = cells s"
begin

definition chains :: "'s \<Rightarrow> (nat \<Rightarrow> nat list) \<Rightarrow> bool" where
  "chains s C \<longleftrightarrow> (\<forall>h. on_chain (nxt s) (hs s h) (C h) \<and> distinct (C h) \<and> set (C h) \<subseteq> {..<cells s}) \<and>
     (\<forall>h h'. h \<noteq> h' \<longrightarrow> set (C h) \<inter> set (C h') = {})"

lemma chains_cong: "cells s' = cells s \<Longrightarrow> nxt s' = nxt s \<Longrightarrow> hs s' = hs s \<Longrightarrow> chains s' C = chains s C"
  by (simp add: chains_def)

lemma chain_length: "chains s C \<Longrightarrow> length (C h) \<le> cells s"
  unfolding chains_def by (intro distinct_length_le) auto

lemma search: "chains s C \<Longrightarrow>
    chain_search (cells s) (nxt s) hit (hs s h) = Ret (case find hit (C h) of None \<Rightarrow> 0 | Some x \<Rightarrow> x)"
  using chain_search_found [of "nxt s" "hs s h" "C h"] chain_length [of s C h] by (simp add: chains_def)

lemma chains_upd:
  assumes "chains s C" and "\<forall>x \<in> - set (C h). x \<notin> X \<longrightarrow> nxt s' x = nxt s x" and "\<forall>h'. X \<inter> set (C h') = {}"
    and "\<forall>h'. h' \<noteq> h \<longrightarrow> hs s' h' = hs s h'" and "cells s' = cells s"
    and "on_chain (nxt s') (hs s' h) xs" "distinct xs" "set xs \<subseteq> {..<cells s}" "set xs \<subseteq> set (C h) \<union> X"
  shows "chains s' (C(h := xs))"
proof -
  have d: "set (C h') \<inter> set (C h) = {}" if "h' \<noteq> h" for h' using assms(1) that by (simp add: chains_def)
  have "on_chain (nxt s') (hs s' h') (C h')" if "h' \<noteq> h" for h'
  proof -
    have "\<forall>x \<in> set (C h'). nxt s' x = nxt s x" using d [OF that] assms(2,3) by blast
    moreover have "on_chain (nxt s) (hs s' h') (C h')" using assms(1,4) that by (simp add: chains_def)
    ultimately show ?thesis using on_chain_frame by blast
  qed
  moreover have "set xs \<inter> set (C h') = {}" if "h' \<noteq> h" for h' using d [OF that] assms(3,9) by blast
  ultimately show ?thesis using assms(1,5-8) unfolding chains_def by (auto simp: Int_commute)
qed

lemma remove_absent:
  assumes "chains s C" and "tp \<notin> set (C h)"
  shows "chain_remove (cells s) nxt setn hs seth h tp s = Ret (False, s)"
  using chain_pred_absent [of "nxt s" "hs s h" "C h" tp] chain_length [OF assms(1), of h] assms
  by (simp add: chain_remove_def chains_def)

lemma remove_found:
  assumes "chains s C" and "tp \<in> set (C h)"
  shows "\<exists>s'. chain_remove (cells s) nxt setn hs seth h tp s = Ret (True, s') \<and> chains s' (C(h := remove1 tp (C h))) \<and>
    (s' = seth h (nxt s tp) s \<or> (\<exists>lp. s' = setn lp (nxt s tp) s))"
proof -
  obtain xs ys where C: "C h = xs @ tp # ys" "tp \<notin> set xs" using split_list_first [OF assms(2)] by blast
  have c: "on_chain (nxt s) (hs s h) (xs @ tp # ys)" "distinct (xs @ tp # ys)" "set (xs @ tp # ys) \<subseteq> {..<cells s}"
    using assms(1) C(1) unfolding chains_def by metis+
  have "length xs \<le> cells s" using chain_length [OF assms(1), of h] C by simp
  then have p: "chain_pred (cells s) (nxt s) tp (hs s h) (hs s h) = Ret (Some (if xs = [] then hs s h else last xs))"
    using chain_pred_found [OF c(1) C(2)] by simp
  have r: "remove1 tp (C h) = xs @ ys" using C by (simp add: remove1_append)
  show ?thesis
  proof (cases "xs = []")
    case True
    let ?s' = "seth h (nxt s tp) s"
    have h: "hs s h = tp" using c(1) True by simp
    have "chains ?s' (C(h := ys))"
      using c True C(1) by (intro chains_upd [OF assms(1), of h "{}"]) (auto simp: nxt_seth hs_seth cells_seth)
    then show ?thesis using p True h r by (simp add: chain_remove_def)
  next
    case False
    let ?s' = "setn (last xs) (nxt s tp) s"
    have l0: "last xs \<in> set xs" using False by simp
    then have l: "last xs \<in> set xs" "last xs < cells s" using c(3) by auto
    have ne: "last xs \<noteq> tp" using l(1) C(2) by blast
    have "linked (\<lambda>i. ptr (nxt s i)) (ptr (hs s h)) (xs @ tp # ys)" using c(1) by (simp add: on_chain_def)
    from linked_remove [OF this c(2)]
    have "linked ((\<lambda>i. ptr (nxt s i))(last xs := ptr (nxt s tp))) (ptr (hs s h)) (xs @ ys)" using False by simp
    moreover have "(\<lambda>i. ptr (nxt s i))(last xs := ptr (nxt s tp)) = (\<lambda>i. ptr (nxt ?s' i))"
      using nxt_setn [OF l(2)] by (simp add: fun_eq_iff)
    ultimately have "on_chain (nxt ?s') (hs ?s' h) (xs @ ys)" using c(1) by (simp add: on_chain_def hs_setn)
    then have "chains ?s' (C(h := xs @ ys))"
      using c(2,3) C(1) l by (intro chains_upd [OF assms(1), of h "{}"]) (auto simp: nxt_setn hs_setn cells_setn)
    then show ?thesis using p False ne r by (auto simp: chain_remove_def)
  qed
qed

lemma link:
  assumes "chains s C" and "\<forall>h'. p \<notin> set (C h')" and "0 < p" "p < cells s"
  shows "chains (chain_link setn hs seth h p s) (C(h := p # C h))"
proof -
  have n: "nxt (chain_link setn hs seth h p s) = (nxt s)(p := hs s h)"
    using nxt_setn [OF assms(4)] by (simp add: chain_link_def nxt_seth)
  have c: "on_chain (nxt s) (hs s h) (C h)" "distinct (C h)" "set (C h) \<subseteq> {..<cells s}" using assms(1) by (simp_all add: chains_def)
  have "on_chain ((nxt s)(p := hs s h)) (hs s h) (C h)" using on_chain_frame [OF c(1)] assms(2) by auto
  then show ?thesis
    using assms c by (intro chains_upd [OF assms(1), of h "{p}"]) (auto simp: n, simp_all add: chain_link_def hs_seth hs_setn cells_seth cells_setn)
qed

end

end
