(* ===== verification/Kproc.thy ===== *)
theory Kproc
  imports Hash_Chain
begin

unbundle bit_operations_syntax

text \<open>
  The process table with its four families of hash chains, \<^verbatim>\<open>sys/kern_proc.c\<close> and the
  link macros of \<^verbatim>\<open>h/proc.h\<close>: by process id, process group, session and user. Entry 0,
  the swapper, is in no chain. The heads are short arrays, written as functions of the
  masked key. Each family is an interpretation of the locale \<open>hash_chain\<close>.
\<close>

section \<open>The table\<close>

record proc =
  pr_pid :: int
  pr_ppid :: int
  pr_pgrp :: int
  pr_sid :: int
  pr_uid :: int
  pr_suid :: int
  pr_idhash :: nat
  pr_pgrphx :: nat
  pr_sidhx :: nat
  pr_uidhx :: nat
  pr_spriv :: bool      \<comment> \<open>\<^verbatim>\<open>p_flag & SPRIV\<close>\<close>
  pr_s2exec :: bool     \<comment> \<open>\<^verbatim>\<open>p_flag2 & S2EXEC\<close>\<close>
  pr_idwrite :: int

record proctab =
  procs :: "proc list"
  pidhash :: "nat \<Rightarrow> nat"
  pgrphash :: "nat \<Rightarrow> nat"
  sidhash :: "nat \<Rightarrow> nat"
  uidhash :: "nat \<Rightarrow> nat"
  PIDHMASK :: int
  PGRPHMASK :: int
  SIDHMASK :: int
  UIDHMASK :: int

definition upd_proc :: "nat \<Rightarrow> (proc \<Rightarrow> proc) \<Rightarrow> proctab \<Rightarrow> proctab" where
  "upd_proc i f k = k\<lparr>procs := (procs k)[i := f (procs k ! i)]\<rparr>"

definition hash_of :: "int \<Rightarrow> int \<Rightarrow> nat" where
  "hash_of m key = nat (key AND m)"

definition PIDHASH :: "proctab \<Rightarrow> int \<Rightarrow> nat" where "PIDHASH k pid = hash_of (PIDHMASK k) pid"
definition PGRPHASH :: "proctab \<Rightarrow> int \<Rightarrow> nat" where "PGRPHASH k pgrp = hash_of (PGRPHMASK k) pgrp"
definition SIDHASH :: "proctab \<Rightarrow> int \<Rightarrow> nat" where "SIDHASH k sid = hash_of (SIDHMASK k) sid"
definition UIDHASH :: "proctab \<Rightarrow> int \<Rightarrow> nat" where "UIDHASH k uid = hash_of (UIDHMASK k) uid"

text \<open>The fields of each family.\<close>

definition nproc :: "proctab \<Rightarrow> nat" where "nproc k = length (procs k)"
definition idx_of :: "proctab \<Rightarrow> nat \<Rightarrow> nat" where "idx_of k i = pr_idhash (procs k ! i)"
definition set_idx :: "nat \<Rightarrow> nat \<Rightarrow> proctab \<Rightarrow> proctab" where "set_idx i v = upd_proc i (\<lambda>p. p\<lparr>pr_idhash := v\<rparr>)"
definition set_idh :: "nat \<Rightarrow> nat \<Rightarrow> proctab \<Rightarrow> proctab" where "set_idh h v k = k\<lparr>pidhash := (pidhash k)(h := v)\<rparr>"
definition grpx_of :: "proctab \<Rightarrow> nat \<Rightarrow> nat" where "grpx_of k i = pr_pgrphx (procs k ! i)"
definition set_grpx :: "nat \<Rightarrow> nat \<Rightarrow> proctab \<Rightarrow> proctab" where "set_grpx i v = upd_proc i (\<lambda>p. p\<lparr>pr_pgrphx := v\<rparr>)"
definition set_grph :: "nat \<Rightarrow> nat \<Rightarrow> proctab \<Rightarrow> proctab" where "set_grph h v k = k\<lparr>pgrphash := (pgrphash k)(h := v)\<rparr>"
definition sidx_of :: "proctab \<Rightarrow> nat \<Rightarrow> nat" where "sidx_of k i = pr_sidhx (procs k ! i)"
definition set_sidx :: "nat \<Rightarrow> nat \<Rightarrow> proctab \<Rightarrow> proctab" where "set_sidx i v = upd_proc i (\<lambda>p. p\<lparr>pr_sidhx := v\<rparr>)"
definition set_sidh :: "nat \<Rightarrow> nat \<Rightarrow> proctab \<Rightarrow> proctab" where "set_sidh h v k = k\<lparr>sidhash := (sidhash k)(h := v)\<rparr>"
definition uidx_of :: "proctab \<Rightarrow> nat \<Rightarrow> nat" where "uidx_of k i = pr_uidhx (procs k ! i)"
definition set_uidx :: "nat \<Rightarrow> nat \<Rightarrow> proctab \<Rightarrow> proctab" where "set_uidx i v = upd_proc i (\<lambda>p. p\<lparr>pr_uidhx := v\<rparr>)"
definition set_uidh :: "nat \<Rightarrow> nat \<Rightarrow> proctab \<Rightarrow> proctab" where "set_uidh h v k = k\<lparr>uidhash := (uidhash k)(h := v)\<rparr>"

lemmas field_defs = idx_of_def set_idx_def set_idh_def grpx_of_def set_grpx_def set_grph_def sidx_of_def set_sidx_def
  set_sidh_def uidx_of_def set_uidx_def set_uidh_def upd_proc_def nproc_def

interpretation pidc: hash_chain nproc idx_of set_idx pidhash set_idh
  by unfold_locales (auto simp: field_defs fun_eq_iff nth_upd)

interpretation grpc: hash_chain nproc grpx_of set_grpx pgrphash set_grph
  by unfold_locales (auto simp: field_defs fun_eq_iff nth_upd)

interpretation sidc: hash_chain nproc sidx_of set_sidx sidhash set_sidh
  by unfold_locales (auto simp: field_defs fun_eq_iff nth_upd)

interpretation uidc: hash_chain nproc uidx_of set_uidx uidhash set_uidh
  by unfold_locales (auto simp: field_defs fun_eq_iff nth_upd)

section \<open>Operations\<close>

text \<open>\<^verbatim>\<open>&proc[0]\<close> is returned for pid 0; no process is None.\<close>

definition pfind :: "int \<Rightarrow> proctab \<Rightarrow> nat option outcome" where
  "pfind pid k =
     (if pid > 0
      then obind (chain_search (nproc k) (idx_of k) (\<lambda>p. pr_pid (procs k ! p) = pid) (pidhash k (PIDHASH k pid)))
             (\<lambda>p. Ret (if p = 0 then None else Some p))
      else if pid = 0 then Ret (Some 0) else Ret None)"

definition pgrpfind :: "int \<Rightarrow> proctab \<Rightarrow> nat option outcome" where
  "pgrpfind pgid k =
     (if pgid > 0
      then obind (chain_search (nproc k) (grpx_of k) (\<lambda>p. pr_pgrp (procs k ! p) = pgid) (pgrphash k (PGRPHASH k pgid)))
             (\<lambda>p. Ret (if p = 0 then None else Some p))
      else Ret None)"

definition premove :: "nat \<Rightarrow> proctab \<Rightarrow> (bool \<times> proctab) outcome" where
  "premove tp k = chain_remove (nproc k) idx_of set_idx pidhash set_idh (PIDHASH k (pr_pid (procs k ! tp))) tp k"

definition gremove :: "nat \<Rightarrow> proctab \<Rightarrow> (bool \<times> proctab) outcome" where
  "gremove tp k = chain_remove (nproc k) grpx_of set_grpx pgrphash set_grph (PGRPHASH k (pr_pgrp (procs k ! tp))) tp k"

definition sremove :: "nat \<Rightarrow> proctab \<Rightarrow> (bool \<times> proctab) outcome" where
  "sremove tp k = chain_remove (nproc k) sidx_of set_sidx sidhash set_sidh (SIDHASH k (pr_sid (procs k ! tp))) tp k"

definition uremove :: "nat \<Rightarrow> proctab \<Rightarrow> (bool \<times> proctab) outcome" where
  "uremove tp k = chain_remove (nproc k) uidx_of set_uidx uidhash set_uidh (UIDHASH k (pr_uid (procs k ! tp))) tp k"

definition plink :: "nat \<Rightarrow> int \<Rightarrow> proctab \<Rightarrow> proctab" where
  "plink p pid k = chain_link set_idx pidhash set_idh (PIDHASH k pid) p k"

definition glink :: "nat \<Rightarrow> int \<Rightarrow> proctab \<Rightarrow> proctab" where
  "glink p pgrp k = chain_link set_grpx pgrphash set_grph (PGRPHASH k pgrp) p k"

definition slink :: "nat \<Rightarrow> int \<Rightarrow> proctab \<Rightarrow> proctab" where
  "slink p sid k = chain_link set_sidx sidhash set_sidh (SIDHASH k sid) p k"

definition ulink :: "nat \<Rightarrow> int \<Rightarrow> proctab \<Rightarrow> proctab" where
  "ulink p ruid k = chain_link set_uidx uidhash set_uidh (UIDHASH k ruid) p k"

text \<open>The argument \<^verbatim>\<open>pgrp\<close> is a short.\<close>

definition gchange :: "nat \<Rightarrow> int \<Rightarrow> proctab \<Rightarrow> (bool \<times> proctab) outcome" where
  "gchange p pgrp k =
     (let g = to_s16 pgrp
      in obind (gremove p k) (\<lambda>(ok, k1).
           if \<not> ok then Ret (False, k1)
           else Ret (True, glink p g (upd_proc p (\<lambda>x. x\<lparr>pr_pgrp := g\<rparr>) k1))))"

definition schange :: "nat \<Rightarrow> int \<Rightarrow> proctab \<Rightarrow> (bool \<times> proctab) outcome" where
  "schange p sid k =
     obind (sremove p k) (\<lambda>(ok, k1).
       if \<not> ok then Ret (False, k1)
       else Ret (True, slink p sid (upd_proc p (\<lambda>x. x\<lparr>pr_sid := sid\<rparr>) k1)))"

end
