(* ===== verification/Prot.thy ===== *)
theory Prot
  imports Kproc Uarea
begin

text \<open>
  Identity and protection of processes, \<^verbatim>\<open>sys/kern_prot.c\<close>: the pool of credential
  structures with their reference counts, shared between processes and open files, and
  the system calls that read and change ids, group sets and process groups. \<open>i\<close> is the
  table index of the calling process, whose user area is \<open>users k i\<close>.
\<close>

section \<open>State\<close>

record cuser =
  cu_cred :: nat          \<comment> \<open>\<^verbatim>\<open>u.u_cred\<close>, an index of \<open>cr_tab\<close>\<close>
  cu_sgid :: int
  cu_error :: errno
  cu_rval1 :: int
  cu_rval2 :: int
  cu_asu :: bool

record kstate =
  kp :: proctab
  cr_tab :: "ucred list"
  crfreelist :: "nat list"
  cractive :: int
  users :: "nat \<Rightarrow> cuser"

abbreviation (input) MAXPID :: int where "MAXPID \<equiv> 30000"
abbreviation (input) MAXUID :: int where "MAXUID \<equiv> 60000"
abbreviation (input) NO_CHANGE :: int where "NO_CHANGE \<equiv> -1"

definition proc_at :: "nat \<Rightarrow> kstate \<Rightarrow> proc" where "proc_at i k = procs (kp k) ! i"

definition upd_user :: "nat \<Rightarrow> (cuser \<Rightarrow> cuser) \<Rightarrow> kstate \<Rightarrow> kstate" where
  "upd_user i f k = k\<lparr>users := (users k)(i := f (users k i))\<rparr>"

definition upd_cred :: "nat \<Rightarrow> (ucred \<Rightarrow> ucred) \<Rightarrow> kstate \<Rightarrow> kstate" where
  "upd_cred c f k = k\<lparr>cr_tab := (cr_tab k)[c := f (cr_tab k ! c)]\<rparr>"

definition upd_p :: "nat \<Rightarrow> (proc \<Rightarrow> proc) \<Rightarrow> kstate \<Rightarrow> kstate" where
  "upd_p i f k = k\<lparr>kp := upd_proc i f (kp k)\<rparr>"

definition cred_of :: "nat \<Rightarrow> kstate \<Rightarrow> ucred" where "cred_of i k = cr_tab k ! cu_cred (users k i)"

definition fail :: "errno \<Rightarrow> nat \<Rightarrow> kstate \<Rightarrow> kstate" where
  "fail e i = upd_user i (\<lambda>u. u\<lparr>cu_error := e\<rparr>)"

text \<open>The user area as the tests of \<open>Uarea\<close> see it, and what they write back.\<close>

definition uarea_of :: "nat \<Rightarrow> kstate \<Rightarrow> uarea" where
  "uarea_of i k = (let u = users k i in
     \<lparr>u_cred = cred_of i k, u_sgid = cu_sgid u, u_error = cu_error u, u_rval1 = cu_rval1 u, u_rval2 = cu_rval2 u,
      u_asu = cu_asu u, p_suid = pr_suid (proc_at i k), p_pid = pr_pid (proc_at i k), p_index = i\<rparr>)"

definition run_test :: "(uarea \<Rightarrow> bool \<times> uarea) \<Rightarrow> nat \<Rightarrow> kstate \<Rightarrow> bool \<times> kstate" where
  "run_test f i k = (case f (uarea_of i k) of
     (b, u) \<Rightarrow> (b, upd_user i (\<lambda>x. x\<lparr>cu_error := u_error u, cu_asu := u_asu u\<rparr>) k))"

section \<open>Credentials\<close>

definition zero_cred :: ucred where
  "zero_cred = \<lparr>cr_uid = 0, cr_gid = 0, cr_groups = replicate NGROUPS 0, cr_ruid = 0, cr_rgid = 0, cr_ref = 0\<rparr>"

text \<open>A new structure comes from the free list, or from the kernel allocator.\<close>

definition crget :: "kstate \<Rightarrow> nat \<times> kstate" where
  "crget k =
     (case crfreelist k of
        c # cs \<Rightarrow> (c, k\<lparr>crfreelist := cs, cr_tab := (cr_tab k)[c := zero_cred\<lparr>cr_ref := 1\<rparr>], cractive := cractive k + 1\<rparr>)
      | [] \<Rightarrow> (length (cr_tab k), k\<lparr>cr_tab := cr_tab k @ [zero_cred\<lparr>cr_ref := 1\<rparr>], cractive := cractive k + 1\<rparr>))"

definition crhold :: "nat \<Rightarrow> kstate \<Rightarrow> kstate" where
  "crhold c = upd_cred c (\<lambda>x. x\<lparr>cr_ref := to_s16 (cr_ref x + 1)\<rparr>)"

definition crfree :: "nat \<Rightarrow> kstate \<Rightarrow> kstate outcome" where
  "crfree c k =
     (let r = cr_ref (cr_tab k ! c)
      in if r \<le> 0 then
           (if r \<ge> -1 then Panic ''crfree: freeing free credential struct''
            else Panic ''crfree: credential reference overflow'')
         else let k1 = upd_cred c (\<lambda>x. x\<lparr>cr_ref := r - 1\<rparr>) k
              in if r - 1 \<noteq> 0 then Ret k1
                 else Ret (k1\<lparr>crfreelist := c # crfreelist k1, cractive := cractive k1 - 1\<rparr>))"

definition crcopy :: "nat \<Rightarrow> kstate \<Rightarrow> (nat \<times> kstate) outcome" where
  "crcopy c k =
     (case crget k of
        (n, k1) \<Rightarrow>
          obind (crfree c (upd_cred n (\<lambda>x. cr_tab k1 ! c) k1)) (\<lambda>k2.
            Ret (n, upd_cred n (\<lambda>x. x\<lparr>cr_ref := 1\<rparr>) k2)))"

definition crdup :: "nat \<Rightarrow> kstate \<Rightarrow> nat \<times> kstate" where
  "crdup c k =
     (case crget k of (n, k1) \<Rightarrow> (n, upd_cred n (\<lambda>x. (cr_tab k1 ! c)\<lparr>cr_ref := 1\<rparr>) k1))"

section \<open>Reading ids\<close>

definition getpid :: "nat \<Rightarrow> kstate \<Rightarrow> kstate" where
  "getpid i k = upd_user i (\<lambda>u. u\<lparr>cu_rval1 := pr_pid (proc_at i k), cu_rval2 := pr_ppid (proc_at i k)\<rparr>) k"

definition getuid :: "nat \<Rightarrow> kstate \<Rightarrow> kstate" where
  "getuid i k = upd_user i (\<lambda>u. u\<lparr>cu_rval1 := cr_ruid (cred_of i k), cu_rval2 := cr_uid (cred_of i k)\<rparr>) k"

definition getgid :: "nat \<Rightarrow> kstate \<Rightarrow> kstate" where
  "getgid i k = upd_user i (\<lambda>u. u\<lparr>cu_rval1 := cr_rgid (cred_of i k), cu_rval2 := cr_gid (cred_of i k)\<rparr>) k"

definition getpgrp2 :: "int \<Rightarrow> nat \<Rightarrow> kstate \<Rightarrow> kstate outcome" where
  "getpgrp2 pid0 i k =
     (let pid = (if pid0 = 0 then pr_pid (proc_at i k) else pid0)
      in obind (pfind pid (kp k)) (\<lambda>r.
           case r of
             None \<Rightarrow> Ret (fail ESRCH i k)
           | Some p \<Rightarrow>
               if pr_sid (proc_at p k) \<noteq> pr_sid (proc_at i k) then Ret (fail EPERM i k)
               else Ret (upd_user i (\<lambda>u. u\<lparr>cu_rval1 := pr_pgrp (proc_at p k)\<rparr>) k)))"

text \<open>The number of groups counts from the end to the last entry in use.\<close>

definition ngroups :: "int list \<Rightarrow> nat" where
  "ngroups gs = length (rev (dropWhile (\<lambda>g. g = NOGROUP) (rev gs)))"

text \<open>\<open>out_ok\<close> is the result of the copy to the user; what is copied comes back.\<close>

definition getgroups :: "int \<Rightarrow> bool \<Rightarrow> nat \<Rightarrow> kstate \<Rightarrow> int list option \<times> kstate" where
  "getgroups gidsetsize out_ok i k =
     (let n = ngroups (cr_groups (cred_of i k))
      in if gidsetsize = 0 then (None, upd_user i (\<lambda>u. u\<lparr>cu_rval1 := int n\<rparr>) k)
         else if gidsetsize < int n then (None, fail EINVAL i k)
         else if \<not> out_ok then (None, fail EFAULT i k)
         else (Some (take n (cr_groups (cred_of i k))), upd_user i (\<lambda>u. u\<lparr>cu_error := E_OK, cu_rval1 := int n\<rparr>) k))"

section \<open>Process groups\<close>

text \<open>Is a process of the group in the caller's session? Searched on the session's chain.\<close>

definition group_in_session :: "int \<Rightarrow> nat \<Rightarrow> kstate \<Rightarrow> bool outcome" where
  "group_in_session pgrp i k =
     (let sid = pr_sid (proc_at i k)
      in obind (chain_search (nproc (kp k)) (sidx_of (kp k))
                  (\<lambda>q. pr_pgrp (proc_at q k) = pgrp \<and> pr_sid (proc_at q k) = sid) (sidhash (kp k) (SIDHASH (kp k) sid)))
           (\<lambda>q. Ret (q \<noteq> 0)))"

definition setpgrp2_change :: "int \<Rightarrow> nat \<Rightarrow> nat \<Rightarrow> kstate \<Rightarrow> kstate outcome" where
  "setpgrp2_change pgrp p i k =
     obind (gchange p pgrp (kp k)) (\<lambda>(ok, kp1).
       if ok then Ret (k\<lparr>kp := kp1\<rparr>) else Panic ''setpgrp2: lost pgrphx'')"

definition setpgrp2_target :: "int \<Rightarrow> nat \<Rightarrow> nat \<Rightarrow> kstate \<Rightarrow> kstate outcome" where
  "setpgrp2_target pgrp p i k =
     (if pr_sid (proc_at p k) = pr_pid (proc_at p k) then Ret (fail EPERM i k)
      else if pr_pid (proc_at p k) \<noteq> pgrp
      then obind (group_in_session pgrp i k) (\<lambda>found.
             if found then setpgrp2_change pgrp p i k else Ret (fail EPERM i k))
      else setpgrp2_change pgrp p i k)"

definition setpgrp2 :: "int \<Rightarrow> int \<Rightarrow> nat \<Rightarrow> kstate \<Rightarrow> kstate outcome" where
  "setpgrp2 pid0 pgrp0 i k =
     (let pid = (if pid0 = 0 then pr_pid (proc_at i k) else pid0);
          pgrp = (if pgrp0 = 0 then pid else pgrp0)
      in if pgrp \<le> 0 \<or> pgrp \<ge> MAXPID then Ret (fail EINVAL i k)
         else if pid = pr_pid (proc_at i k) then setpgrp2_target pgrp i i k
         else obind (pfind pid (kp k)) (\<lambda>r.
           case r of
             None \<Rightarrow> Ret (fail ESRCH i k)
           | Some p \<Rightarrow>
               if pr_ppid (proc_at p k) \<noteq> pr_pid (proc_at i k) then Ret (fail ESRCH i k)
               else if pr_s2exec (proc_at p k) then Ret (fail EACCES i k)
               else if pr_sid (proc_at p k) \<noteq> pr_sid (proc_at i k) then Ret (fail EPERM i k)
               else setpgrp2_target pgrp p i k))"

text \<open>The result is the error, for the terminal driver. -1 stands for no group or session.\<close>

definition pgrpcheck :: "int \<Rightarrow> nat \<Rightarrow> kstate \<Rightarrow> errno outcome" where
  "pgrpcheck pgrp i k =
     (if pgrp \<le> 0 \<or> pgrp \<ge> MAXPID \<or> pgrp = NO_CHANGE then Ret EINVAL
      else if pr_sid (proc_at i k) = NO_CHANGE then Ret E_OK
      else obind (chain_search (nproc (kp k)) (grpx_of (kp k)) (\<lambda>p. pr_pgrp (proc_at p k) = pgrp)
                    (pgrphash (kp k) (PGRPHASH (kp k) pgrp)))
             (\<lambda>p. Ret (if p = 0 then EPERM
                        else if pr_sid (proc_at p k) \<noteq> pr_sid (proc_at i k) then EPERM else E_OK)))"

section \<open>Changing ids\<close>

definition bad_uid :: "int \<Rightarrow> bool" where
  "bad_uid x \<longleftrightarrow> x < 0 \<and> x \<noteq> NO_CHANGE \<or> x \<ge> MAXUID"

text \<open>One new id against the three the process has, then the super-user test.\<close>

definition id_allowed :: "int \<Rightarrow> int \<Rightarrow> int \<Rightarrow> int \<Rightarrow> nat \<Rightarrow> kstate \<Rightarrow> bool \<times> kstate" where
  "id_allowed a b c new i k =
     (if a \<noteq> new \<and> b \<noteq> new \<and> c \<noteq> new then run_test resuser i k else (True, k))"

definition setresuid_do :: "int \<Rightarrow> int \<Rightarrow> int \<Rightarrow> nat \<Rightarrow> kstate \<Rightarrow> kstate outcome" where
  "setresuid_do ruid euid suid i k =
     obind (crcopy (cu_cred (users k i)) (upd_p i (\<lambda>p. p\<lparr>pr_idwrite := 0\<rparr>) k)) (\<lambda>(n, k1).
       let k2 = upd_user i (\<lambda>u. u\<lparr>cu_cred := n\<rparr>) k1
       in obind (uremove i (kp k2)) (\<lambda>(ok, kp1).
            if \<not> ok then Panic ''setresuid: lost uidhx''
            else let k3 = k2\<lparr>kp := upd_proc i (\<lambda>p. p\<lparr>pr_uid := ruid, pr_suid := suid\<rparr>) (ulink i ruid kp1)\<rparr>
                 in Ret (upd_cred n (\<lambda>c. c\<lparr>cr_ruid := ruid, cr_uid := euid\<rparr>) k3)))"

definition setresuid :: "int \<Rightarrow> int \<Rightarrow> int \<Rightarrow> nat \<Rightarrow> kstate \<Rightarrow> kstate outcome" where
  "setresuid ruid0 euid0 suid0 i k =
     (if bad_uid ruid0 \<or> bad_uid euid0 \<or> bad_uid suid0 then Ret (fail EINVAL i k)
      else
        let r = cr_ruid (cred_of i k); e = cr_uid (cred_of i k); s = pr_suid (proc_at i k);
            ruid = (if ruid0 = NO_CHANGE then r else ruid0);
            euid = (if euid0 = NO_CHANGE then e else euid0);
            suid = (if suid0 = NO_CHANGE then s else suid0)
        in case id_allowed r e s ruid i k of (ok1, k1) \<Rightarrow>
             if \<not> ok1 then Ret k1
             else case id_allowed r e s euid i k1 of (ok2, k2) \<Rightarrow>
               if \<not> ok2 then Ret k2
               else case id_allowed r e s suid i k2 of (ok3, k3) \<Rightarrow>
                 if \<not> ok3 then Ret k3 else setresuid_do ruid euid suid i k3)"

definition setresgid_do :: "int \<Rightarrow> int \<Rightarrow> int \<Rightarrow> nat \<Rightarrow> kstate \<Rightarrow> kstate outcome" where
  "setresgid_do rgid egid sgid i k =
     obind (crcopy (cu_cred (users k i)) k) (\<lambda>(n, k1).
       Ret (upd_p i (\<lambda>p. p\<lparr>pr_spriv := True, pr_idwrite := 0\<rparr>)
         (upd_cred n (\<lambda>c. c\<lparr>cr_gid := egid, cr_rgid := rgid\<rparr>)
           (upd_user i (\<lambda>u. u\<lparr>cu_cred := n, cu_sgid := sgid\<rparr>) k1))))"

definition setresgid :: "int \<Rightarrow> int \<Rightarrow> int \<Rightarrow> nat \<Rightarrow> kstate \<Rightarrow> kstate outcome" where
  "setresgid rgid0 egid0 sgid0 i k =
     (if bad_uid rgid0 \<or> bad_uid egid0 \<or> bad_uid sgid0 then Ret (fail EINVAL i k)
      else
        let r = cr_rgid (cred_of i k); e = cr_gid (cred_of i k); s = cu_sgid (users k i);
            rgid = (if rgid0 = NO_CHANGE then r else rgid0);
            egid = (if egid0 = NO_CHANGE then e else egid0);
            sgid = (if sgid0 = NO_CHANGE then s else sgid0)
        in case id_allowed r e s rgid i k of (ok1, k1) \<Rightarrow>
             if \<not> ok1 then Ret k1
             else case id_allowed r e s egid i k1 of (ok2, k2) \<Rightarrow>
               if \<not> ok2 then Ret k2
               else case id_allowed r e s sgid i k2 of (ok3, k3) \<Rightarrow>
                 if \<not> ok3 then Ret k3 else setresgid_do rgid egid sgid i k3)"

text \<open>The loop over the new groups; the result is whether all were accepted.\<close>

fun setgroups_check :: "int list \<Rightarrow> nat \<Rightarrow> kstate \<Rightarrow> bool \<times> kstate" where
  "setgroups_check [] i k = (True, k)"
| "setgroups_check (g # gs) i k =
     (if g \<ge> MAXUID then (False, fail EINVAL i k)
      else if groupmember g (uarea_of i k) then setgroups_check gs i k
      else case run_test suser i k of (ok, k1) \<Rightarrow> if ok then setgroups_check gs i k1 else (False, k1))"

text \<open>
  \<open>copied\<close> is the result of the copy from the user, \<open>gidsetsize\<close> groups. A negative size
  that the copy lets pass makes the loop write before the array.
\<close>

definition setgroups :: "int \<Rightarrow> int list option \<Rightarrow> nat \<Rightarrow> kstate \<Rightarrow> kstate outcome" where
  "setgroups gidsetsize copied i k =
     (if gidsetsize > int NGROUPS then Ret (fail EINVAL i k)
      else case crdup (cu_cred (users k i)) k of (newcr, k1) \<Rightarrow>
        (case copied of
           None \<Rightarrow> crfree newcr (fail EFAULT i k1)
         | Some new \<Rightarrow>
             let n = nat gidsetsize;
                 k2 = fail E_OK i (upd_cred newcr (\<lambda>c. c\<lparr>cr_groups := take n new @ drop n (cr_groups c)\<rparr>) k1)
             in case setgroups_check (take n new) i k2 of (ok, k3) \<Rightarrow>
                  if \<not> ok then crfree newcr k3
                  else if gidsetsize < 0 then Fault
                  else let tmpcr = cu_cred (users k3 i)
                       in obind (crfree tmpcr (upd_user i (\<lambda>u. u\<lparr>cu_cred := newcr\<rparr>) k3)) (\<lambda>k4.
                            Ret (upd_p i (\<lambda>p. p\<lparr>pr_spriv := True\<rparr>)
                              (upd_cred newcr (\<lambda>c. c\<lparr>cr_groups := take n (cr_groups c) @ replicate (NGROUPS - n) NOGROUP\<rparr>) k4)))))"

end
