(* ===== verification/Kproc_Props.thy ===== *)
theory Kproc_Props
  imports Kproc
begin

text \<open>
  The invariant of the process table: every live process is in exactly the chain its key
  hashes to, in each of the four families, and what the operations do to it.
\<close>

section \<open>The invariant\<close>

definition pid_ok :: "nat set \<Rightarrow> proctab \<Rightarrow> bool" where
  "pid_ok A k \<longleftrightarrow> (\<exists>C. pidc.chains k C \<and> (\<forall>h p. p \<in> set (C h) \<longleftrightarrow> p \<in> A \<and> PIDHASH k (pr_pid (procs k ! p)) = h))"

definition grp_ok :: "nat set \<Rightarrow> proctab \<Rightarrow> bool" where
  "grp_ok A k \<longleftrightarrow> (\<exists>C. grpc.chains k C \<and> (\<forall>h p. p \<in> set (C h) \<longleftrightarrow> p \<in> A \<and> PGRPHASH k (pr_pgrp (procs k ! p)) = h))"

definition sid_ok :: "nat set \<Rightarrow> proctab \<Rightarrow> bool" where
  "sid_ok A k \<longleftrightarrow> (\<exists>C. sidc.chains k C \<and> (\<forall>h p. p \<in> set (C h) \<longleftrightarrow> p \<in> A \<and> SIDHASH k (pr_sid (procs k ! p)) = h))"

definition uid_ok :: "nat set \<Rightarrow> proctab \<Rightarrow> bool" where
  "uid_ok A k \<longleftrightarrow> (\<exists>C. uidc.chains k C \<and> (\<forall>h p. p \<in> set (C h) \<longleftrightarrow> p \<in> A \<and> UIDHASH k (pr_uid (procs k ! p)) = h))"

definition table_ok :: "nat set \<Rightarrow> proctab \<Rightarrow> bool" where
  "table_ok A k \<longleftrightarrow> A \<subseteq> {1..<nproc k} \<and> pid_ok A k \<and> grp_ok A k \<and> sid_ok A k \<and> uid_ok A k \<and>
     inj_on (\<lambda>p. pr_pid (procs k ! p)) A \<and> (\<forall>p \<in> A. 0 < pr_pid (procs k ! p))"

text \<open>Two tables agree on a family when its links, heads and keys are the same.\<close>

lemma pid_ok_cong: "nproc k' = nproc k \<Longrightarrow> idx_of k' = idx_of k \<Longrightarrow> pidhash k' = pidhash k \<Longrightarrow> PIDHMASK k' = PIDHMASK k \<Longrightarrow>
    \<forall>p. pr_pid (procs k' ! p) = pr_pid (procs k ! p) \<Longrightarrow> pid_ok A k' = pid_ok A k"
  unfolding pid_ok_def PIDHASH_def using pidc.chains_cong [of k' k] by simp

lemma grp_ok_cong: "nproc k' = nproc k \<Longrightarrow> grpx_of k' = grpx_of k \<Longrightarrow> pgrphash k' = pgrphash k \<Longrightarrow> PGRPHMASK k' = PGRPHMASK k \<Longrightarrow>
    \<forall>p. pr_pgrp (procs k' ! p) = pr_pgrp (procs k ! p) \<Longrightarrow> grp_ok A k' = grp_ok A k"
  unfolding grp_ok_def PGRPHASH_def using grpc.chains_cong [of k' k] by simp

lemma sid_ok_cong: "nproc k' = nproc k \<Longrightarrow> sidx_of k' = sidx_of k \<Longrightarrow> sidhash k' = sidhash k \<Longrightarrow> SIDHMASK k' = SIDHMASK k \<Longrightarrow>
    \<forall>p. pr_sid (procs k' ! p) = pr_sid (procs k ! p) \<Longrightarrow> sid_ok A k' = sid_ok A k"
  unfolding sid_ok_def SIDHASH_def using sidc.chains_cong [of k' k] by simp

lemma uid_ok_cong: "nproc k' = nproc k \<Longrightarrow> uidx_of k' = uidx_of k \<Longrightarrow> uidhash k' = uidhash k \<Longrightarrow> UIDHMASK k' = UIDHMASK k \<Longrightarrow>
    \<forall>p. pr_uid (procs k' ! p) = pr_uid (procs k ! p) \<Longrightarrow> uid_ok A k' = uid_ok A k"
  unfolding uid_ok_def UIDHASH_def using uidc.chains_cong [of k' k] by simp

section \<open>Looking up\<close>

lemma find_unique:
  assumes "\<And>x y. x \<in> set xs \<Longrightarrow> y \<in> set xs \<Longrightarrow> P x \<Longrightarrow> P y \<Longrightarrow> x = y" and "x \<in> set xs" "P x"
  shows "find P xs = Some x"
  using assms by (induction xs) auto

lemma pfind_exact:
  assumes "table_ok A k" and "0 < pid"
  shows "pfind pid k = Ret r \<longleftrightarrow> (case r of Some p \<Rightarrow> p \<in> A \<and> pr_pid (procs k ! p) = pid
    | None \<Rightarrow> \<forall>p \<in> A. pr_pid (procs k ! p) \<noteq> pid)"
proof -
  obtain C where C: "pidc.chains k C" "\<forall>h p. p \<in> set (C h) \<longleftrightarrow> p \<in> A \<and> PIDHASH k (pr_pid (procs k ! p)) = h"
    using assms(1) by (auto simp: table_ok_def pid_ok_def)
  let ?hit = "\<lambda>p. pr_pid (procs k ! p) = pid" and ?c = "C (PIDHASH k pid)"
  have A: "A \<subseteq> {1..<nproc k}" "inj_on (\<lambda>p. pr_pid (procs k ! p)) A" using assms(1) by (simp_all add: table_ok_def)
  have p: "pfind pid k = Ret (case find ?hit ?c of None \<Rightarrow> None | Some x \<Rightarrow> if x = 0 then None else Some x)"
    using assms(2) pidc.search [OF C(1)] by (simp add: pfind_def split: option.splits)
  show ?thesis
  proof (cases "\<exists>q \<in> A. ?hit q")
    case True
    then obtain q where q: "q \<in> A" "?hit q" by blast
    have "find ?hit ?c = Some q"
      using q C(2) A(2) by (intro find_unique) (auto simp: inj_on_def)
    moreover have "q \<noteq> 0" using q(1) A(1) by auto
    ultimately have "pfind pid k = Ret (Some q)" using p by simp
    then show ?thesis using q A(2) by (auto split: option.splits simp: inj_on_def)
  next
    case False
    then have "find ?hit ?c = None" using C(2) by (auto simp: find_None_iff)
    then have "pfind pid k = Ret None" using p by simp
    then show ?thesis using False by (auto split: option.splits)
  qed
qed

lemma pfind_returns: "table_ok A k \<Longrightarrow> 0 < pid \<Longrightarrow> \<exists>r. pfind pid k = Ret r"
proof -
  assume t: "table_ok A k" and p: "0 < pid"
  show ?thesis
  proof (cases "\<exists>q \<in> A. pr_pid (procs k ! q) = pid")
    case True
    then obtain q where "q \<in> A" "pr_pid (procs k ! q) = pid" by blast
    then have "pfind pid k = Ret (Some q)" using pfind_exact [OF t p, of "Some q"] by simp
    then show ?thesis by blast
  next
    case False
    then have "pfind pid k = Ret None" using pfind_exact [OF t p, of None] by simp
    then show ?thesis by blast
  qed
qed

section \<open>Changing a group or a user\<close>

text \<open>What two states of one entry share when only one family's link differs.\<close>

lemma gchange_effect:
  assumes t: "table_ok A k" and p: "p \<in> A" and g: "to_s16 pgrp = pgrp"
  shows "\<exists>k'. gchange p pgrp k = Ret (True, k') \<and> table_ok A k' \<and> nproc k' = nproc k \<and>
    (\<forall>q. procs k' ! q = (procs k ! q)\<lparr>pr_pgrp := (if q = p then pgrp else pr_pgrp (procs k ! q)), pr_pgrphx := grpx_of k' q\<rparr>)"
proof -
  have A: "p < nproc k" "0 < p" using t p by (auto simp: table_ok_def)
  obtain C where C: "grpc.chains k C" "\<forall>h q. q \<in> set (C h) \<longleftrightarrow> q \<in> A \<and> PGRPHASH k (pr_pgrp (procs k ! q)) = h"
    using t by (auto simp: table_ok_def grp_ok_def)
  define h where "h = PGRPHASH k (pr_pgrp (procs k ! p))"
  have "p \<in> set (C h)" using C(2) p by (simp add: h_def)
  from grpc.remove_found [OF C(1) this] obtain k1 where k1: "gremove p k = Ret (True, k1)" "grpc.chains k1 (C(h := remove1 p (C h)))"
    "k1 = set_grph h (grpx_of k p) k \<or> (\<exists>lp. k1 = set_grpx lp (grpx_of k p) k)"
    by (auto simp: gremove_def h_def)
  define k2 where "k2 = upd_proc p (\<lambda>x. x\<lparr>pr_pgrp := pgrp\<rparr>) k1"
  have n1: "nproc k1 = nproc k" "PGRPHMASK k1 = PGRPHMASK k" using k1(3) by (auto simp: field_defs)
  have c2: "grpc.chains k2 (C(h := remove1 p (C h)))"
    using k1(2) grpc.chains_cong [of k2 k1] by (simp add: k2_def field_defs fun_eq_iff nth_upd)
  have dist: "distinct (C h)" using C(1) by (simp add: grpc.chains_def)
  have out: "\<forall>h'. p \<notin> set ((C(h := remove1 p (C h))) h')" using C(2) dist by (auto simp: h_def)
  define h2 where "h2 = PGRPHASH k pgrp"
  define k3 where "k3 = glink p pgrp k2"
  have H2: "PGRPHASH k2 pgrp = h2" using n1 by (simp add: PGRPHASH_def h2_def k2_def upd_proc_def)
  have "p < nproc k2" using A(1) n1(1) by (simp add: k2_def field_defs)
  then have c3: "grpc.chains k3 ((C(h := remove1 p (C h)))(h2 := p # (C(h := remove1 p (C h))) h2))"
    unfolding k3_def glink_def H2 by (rule grpc.link [OF c2 out A(2)])
  have gc: "gchange p pgrp k = Ret (True, k3)" using k1(1) g by (simp add: gchange_def Let_def k3_def k2_def)
  have pr: "procs k3 ! q = (procs k ! q)\<lparr>pr_pgrp := (if q = p then pgrp else pr_pgrp (procs k ! q)), pr_pgrphx := grpx_of k3 q\<rparr>" for q
    using k1(3) A(1) by (auto simp: k3_def k2_def glink_def chain_link_def field_defs nth_upd)
  have n3: "nproc k3 = nproc k" using k1(3) by (auto simp: k3_def k2_def glink_def chain_link_def field_defs)
  have masks: "PIDHMASK k3 = PIDHMASK k" "SIDHMASK k3 = SIDHMASK k" "UIDHMASK k3 = UIDHMASK k" "PGRPHMASK k3 = PGRPHMASK k"
    "pidhash k3 = pidhash k" "sidhash k3 = sidhash k" "uidhash k3 = uidhash k"
    using k1(3) by (auto simp: k3_def k2_def glink_def chain_link_def field_defs)
  have "grp_ok A k3"
  proof -
    have "q \<in> set (((C(h := remove1 p (C h)))(h2 := p # (C(h := remove1 p (C h))) h2)) h') \<longleftrightarrow>
        q \<in> A \<and> PGRPHASH k3 (pr_pgrp (procs k3 ! q)) = h'" for h' q
    proof (cases "q = p")
      case True
      then show ?thesis using p out pr [of p] masks(4) by (auto simp: PGRPHASH_def h2_def)
    next
      case False
      then show ?thesis using C(2) dist pr [of q] masks(4) by (auto simp: PGRPHASH_def)
    qed
    then show ?thesis using c3 unfolding grp_ok_def by blast
  qed
  moreover have "pid_ok A k3 = pid_ok A k"
    using pr n3 masks by (intro pid_ok_cong) (simp_all add: idx_of_def fun_eq_iff)
  moreover have "sid_ok A k3 = sid_ok A k"
    using pr n3 masks by (intro sid_ok_cong) (simp_all add: sidx_of_def fun_eq_iff)
  moreover have "uid_ok A k3 = uid_ok A k"
    using pr n3 masks by (intro uid_ok_cong) (simp_all add: uidx_of_def fun_eq_iff)
  moreover have "pr_pid (procs k3 ! q) = pr_pid (procs k ! q)" for q using pr [of q] by simp
  ultimately have "table_ok A k3" using t n3 by (simp add: table_ok_def)
  then show ?thesis using gc n3 pr by blast
qed

lemma uchange_effect:
  assumes t: "table_ok A k" and p: "p \<in> A"
  shows "\<exists>k1. uremove p k = Ret (True, k1) \<and> (let k' = upd_proc p (\<lambda>x. x\<lparr>pr_uid := r, pr_suid := s\<rparr>) (ulink p r k1) in
    table_ok A k' \<and> nproc k' = nproc k \<and>
    (\<forall>q. procs k' ! q = (procs k ! q)\<lparr>pr_uid := (if q = p then r else pr_uid (procs k ! q)),
       pr_suid := (if q = p then s else pr_suid (procs k ! q)), pr_uidhx := uidx_of k' q\<rparr>))"
proof -
  have A: "p < nproc k" "0 < p" using t p by (auto simp: table_ok_def)
  obtain C where C: "uidc.chains k C" "\<forall>h q. q \<in> set (C h) \<longleftrightarrow> q \<in> A \<and> UIDHASH k (pr_uid (procs k ! q)) = h"
    using t by (auto simp: table_ok_def uid_ok_def)
  define h where "h = UIDHASH k (pr_uid (procs k ! p))"
  have "p \<in> set (C h)" using C(2) p by (simp add: h_def)
  from uidc.remove_found [OF C(1) this] obtain k1 where k1: "uremove p k = Ret (True, k1)" "uidc.chains k1 (C(h := remove1 p (C h)))"
    "k1 = set_uidh h (uidx_of k p) k \<or> (\<exists>lp. k1 = set_uidx lp (uidx_of k p) k)"
    by (auto simp: uremove_def h_def)
  have n1: "nproc k1 = nproc k" "UIDHMASK k1 = UIDHMASK k" using k1(3) by (auto simp: field_defs)
  have dist: "distinct (C h)" using C(1) by (simp add: uidc.chains_def)
  have out: "\<forall>h'. p \<notin> set ((C(h := remove1 p (C h))) h')" using C(2) dist by (auto simp: h_def)
  define h2 where "h2 = UIDHASH k r"
  have H2: "UIDHASH k1 r = h2" using n1 by (simp add: UIDHASH_def h2_def)
  define k2 where "k2 = ulink p r k1"
  define k3 where "k3 = upd_proc p (\<lambda>x. x\<lparr>pr_uid := r, pr_suid := s\<rparr>) k2"
  let ?C = "(C(h := remove1 p (C h)))(h2 := p # (C(h := remove1 p (C h))) h2)"
  have "p < nproc k1" using A(1) n1(1) by simp
  then have "uidc.chains k2 ?C" unfolding k2_def ulink_def H2 by (rule uidc.link [OF k1(2) out A(2)])
  then have c3: "uidc.chains k3 ?C"
    using uidc.chains_cong [of k3 k2] by (simp add: k3_def field_defs fun_eq_iff nth_upd)
  have pr: "procs k3 ! q = (procs k ! q)\<lparr>pr_uid := (if q = p then r else pr_uid (procs k ! q)),
       pr_suid := (if q = p then s else pr_suid (procs k ! q)), pr_uidhx := uidx_of k3 q\<rparr>" for q
    using k1(3) A(1) by (auto simp: k3_def k2_def ulink_def chain_link_def field_defs nth_upd)
  have n3: "nproc k3 = nproc k" using k1(3) by (auto simp: k3_def k2_def ulink_def chain_link_def field_defs)
  have masks: "PIDHMASK k3 = PIDHMASK k" "SIDHMASK k3 = SIDHMASK k" "UIDHMASK k3 = UIDHMASK k" "PGRPHMASK k3 = PGRPHMASK k"
    "pidhash k3 = pidhash k" "sidhash k3 = sidhash k" "pgrphash k3 = pgrphash k"
    using k1(3) by (auto simp: k3_def k2_def ulink_def chain_link_def field_defs)
  have "uid_ok A k3"
  proof -
    have "q \<in> set (?C h') \<longleftrightarrow> q \<in> A \<and> UIDHASH k3 (pr_uid (procs k3 ! q)) = h'" for h' q
    proof (cases "q = p")
      case True
      then show ?thesis using p out pr [of p] masks(3) by (auto simp: UIDHASH_def h2_def)
    next
      case False
      then show ?thesis using C(2) dist pr [of q] masks(3) by (auto simp: UIDHASH_def)
    qed
    then show ?thesis using c3 unfolding uid_ok_def by blast
  qed
  moreover have "pid_ok A k3 = pid_ok A k"
    using pr n3 masks by (intro pid_ok_cong) (simp_all add: idx_of_def fun_eq_iff)
  moreover have "sid_ok A k3 = sid_ok A k"
    using pr n3 masks by (intro sid_ok_cong) (simp_all add: sidx_of_def fun_eq_iff)
  moreover have "grp_ok A k3 = grp_ok A k"
    using pr n3 masks by (intro grp_ok_cong) (simp_all add: grpx_of_def fun_eq_iff)
  moreover have "pr_pid (procs k3 ! q) = pr_pid (procs k ! q)" for q using pr [of q] by simp
  ultimately have "table_ok A k3" using t n3 by (simp add: table_ok_def)
  then show ?thesis using k1(1) n3 pr unfolding k3_def k2_def Let_def by blast
qed

text \<open>A change of fields that no chain depends on.\<close>

lemma table_ok_upd:
  assumes "\<And>x. pr_pid (g x) = pr_pid x \<and> pr_pgrp (g x) = pr_pgrp x \<and> pr_sid (g x) = pr_sid x \<and> pr_uid (g x) = pr_uid x"
    and "\<And>x. pr_idhash (g x) = pr_idhash x \<and> pr_pgrphx (g x) = pr_pgrphx x \<and> pr_sidhx (g x) = pr_sidhx x \<and> pr_uidhx (g x) = pr_uidhx x"
  shows "table_ok A (upd_proc i g k) = table_ok A k"
proof -
  let ?k = "upd_proc i g k"
  have h: "pidhash ?k = pidhash k" "pgrphash ?k = pgrphash k" "sidhash ?k = sidhash k" "uidhash ?k = uidhash k"
    "PIDHMASK ?k = PIDHMASK k" "PGRPHMASK ?k = PGRPHMASK k" "SIDHMASK ?k = SIDHMASK k" "UIDHMASK ?k = UIDHMASK k" "nproc ?k = nproc k"
    by (simp_all add: upd_proc_def nproc_def)
  have p: "pr_pid (procs ?k ! q) = pr_pid (procs k ! q)" "pr_pgrp (procs ?k ! q) = pr_pgrp (procs k ! q)"
    "pr_sid (procs ?k ! q) = pr_sid (procs k ! q)" "pr_uid (procs ?k ! q) = pr_uid (procs k ! q)"
    "idx_of ?k q = idx_of k q" "grpx_of ?k q = grpx_of k q" "sidx_of ?k q = sidx_of k q" "uidx_of ?k q = uidx_of k q" for q
    using assms by (simp_all add: upd_proc_def nth_upd idx_of_def grpx_of_def sidx_of_def uidx_of_def)
  show ?thesis
    using pid_ok_cong [of ?k k A] grp_ok_cong [of ?k k A] sid_ok_cong [of ?k k A] uid_ok_cong [of ?k k A] h p
    by (simp add: table_ok_def fun_eq_iff)
qed

section \<open>An example\<close>

text \<open>Two processes of one session, one a child of the other, behind process 0.\<close>

definition ex_proc :: "int \<Rightarrow> int \<Rightarrow> nat \<Rightarrow> proc" where
  "ex_proc pid ppid link = \<lparr>pr_pid = pid, pr_ppid = ppid, pr_pgrp = 5, pr_sid = 5, pr_uid = 101, pr_suid = 102,
     pr_idhash = link, pr_pgrphx = link, pr_sidhx = link, pr_uidhx = link, pr_spriv = False, pr_s2exec = False, pr_idwrite = 0\<rparr>"

definition ex_ptab :: proctab where
  "ex_ptab = \<lparr>procs = [ex_proc 0 0 0, ex_proc 7 1 0, ex_proc 8 7 1], pidhash = (\<lambda>h. if h = 0 then 2 else 0),
     pgrphash = (\<lambda>h. if h = 0 then 2 else 0), sidhash = (\<lambda>h. if h = 0 then 2 else 0), uidhash = (\<lambda>h. if h = 0 then 2 else 0),
     PIDHMASK = 0, PGRPHMASK = 0, SIDHMASK = 0, UIDHMASK = 0\<rparr>"

lemma ex_ptab_ok: "table_ok {1, 2} ex_ptab"
proof -
  let ?C = "\<lambda>h. if h = 0 then [2, 1] else [] :: nat list"
  have n: "nproc ex_ptab = 3" by (simp add: ex_ptab_def nproc_def)
  have h: "PIDHASH ex_ptab x = 0" "PGRPHASH ex_ptab x = 0" "SIDHASH ex_ptab x = 0" "UIDHASH ex_ptab x = 0" for x
    by (simp_all add: PIDHASH_def PGRPHASH_def SIDHASH_def UIDHASH_def hash_of_def ex_ptab_def)
  have "pidc.chains ex_ptab ?C" "grpc.chains ex_ptab ?C" "sidc.chains ex_ptab ?C" "uidc.chains ex_ptab ?C"
    by (auto simp: pidc.chains_def grpc.chains_def sidc.chains_def uidc.chains_def nproc_def idx_of_def grpx_of_def sidx_of_def uidx_of_def
        ex_ptab_def ex_proc_def split: if_splits)
  moreover have "\<forall>h' p. p \<in> set (?C h') \<longleftrightarrow> p \<in> {1, 2} \<and> (0::nat) = h'" by auto
  ultimately have "pid_ok {1, 2} ex_ptab" "grp_ok {1, 2} ex_ptab" "sid_ok {1, 2} ex_ptab" "uid_ok {1, 2} ex_ptab"
    unfolding pid_ok_def grp_ok_def sid_ok_def uid_ok_def h by blast+
  then show "table_ok {1, 2} ex_ptab" unfolding table_ok_def n by (simp add: ex_ptab_def ex_proc_def)
qed

end
