(* ===== verification/Prot_Props.thy ===== *)
theory Prot_Props
  imports Prot Kproc_Props
begin

text \<open>
  Reference counts of the credentials, isolation of the processes that share them, and
  what the system calls of \<^verbatim>\<open>kern_prot.c\<close> can and cannot give a process.
\<close>

section \<open>Reference counts\<close>

text \<open>
  \<open>A\<close> are the live processes, \<open>f c\<close> the references to \<open>c\<close> that open files and other
  holders have.
\<close>

definition refs :: "nat set \<Rightarrow> (nat \<Rightarrow> nat) \<Rightarrow> kstate \<Rightarrow> nat \<Rightarrow> nat" where
  "refs A f k c = card {i \<in> A. cu_cred (users k i) = c} + f c"

definition cred_ok :: "nat set \<Rightarrow> (nat \<Rightarrow> nat) \<Rightarrow> kstate \<Rightarrow> bool" where
  "cred_ok A f k \<longleftrightarrow> finite A \<and> distinct (crfreelist k) \<and> set (crfreelist k) \<subseteq> {..<length (cr_tab k)} \<and>
     (\<forall>i \<in> A. cu_cred (users k i) < length (cr_tab k)) \<and> (\<forall>c \<ge> length (cr_tab k). f c = 0) \<and>
     (\<forall>c < length (cr_tab k). cr_ref (cr_tab k ! c) = int (refs A f k c) \<and> (c \<in> set (crfreelist k) \<longleftrightarrow> refs A f k c = 0)) \<and>
     cractive k = int (length (cr_tab k)) - int (length (crfreelist k))"

definition body :: "ucred \<Rightarrow> ucred" where "body c = c\<lparr>cr_ref := 0\<rparr>"

lemma body_eq: "body x = body y \<longleftrightarrow> cr_uid x = cr_uid y \<and> cr_gid x = cr_gid y \<and> cr_groups x = cr_groups y \<and>
    cr_ruid x = cr_ruid y \<and> cr_rgid x = cr_rgid y"
  by (cases x; cases y) (auto simp: body_def)

lemma upd_cred_simps [simp]:
  "kp (upd_cred c g k) = kp k" "users (upd_cred c g k) = users k" "crfreelist (upd_cred c g k) = crfreelist k"
  "cractive (upd_cred c g k) = cractive k" "length (cr_tab (upd_cred c g k)) = length (cr_tab k)"
  "cr_tab (upd_cred c g k) ! d = (if c = d \<and> c < length (cr_tab k) then g (cr_tab k ! c) else cr_tab k ! d)"
  "cr_tab (upd_user i h k) = cr_tab k" "crfreelist (upd_user i h k) = crfreelist k" "cractive (upd_user i h k) = cractive k"
  "kp (upd_user i h k) = kp k" "users (upd_user i h k) = (users k)(i := h (users k i))"
  by (simp_all add: upd_cred_def upd_user_def nth_upd)

lemma refs_users: "users k' = users k \<Longrightarrow> refs A f k' c = refs A f k c"
  by (simp add: refs_def)

lemma refs_0: "finite A \<Longrightarrow> refs A f k c = 0 \<longleftrightarrow> (\<forall>i \<in> A. cu_cred (users k i) \<noteq> c) \<and> f c = 0"
  by (auto simp: refs_def)

lemma held_in_table: "cred_ok A f k \<Longrightarrow> 0 < f c \<Longrightarrow> c < length (cr_tab k)"
  unfolding cred_ok_def by (metis leI less_numeral_extra(3))

lemma cred_ok_upd:
  assumes "cred_ok A f k" and "\<And>x. x = cr_tab k ! c \<Longrightarrow> cr_ref (g x) = cr_ref x"
  shows "cred_ok A f (upd_cred c g k)"
  using assms refs_users [of "upd_cred c g k" k A f] by (auto simp: cred_ok_def)

lemma crget_ok:
  assumes "cred_ok A f k" and "crget k = (n, k1)"
  shows "cred_ok A (f(n := 1)) k1" and "f n = 0" and "\<forall>i \<in> A. cu_cred (users k i) \<noteq> n" and "n < length (cr_tab k1)"
    and "users k1 = users k" and "kp k1 = kp k" and "\<forall>c < length (cr_tab k). c \<noteq> n \<longrightarrow> cr_tab k1 ! c = cr_tab k ! c"
    and "length (cr_tab k) \<le> length (cr_tab k1)"
proof -
  have fin: "finite A" using assms(1) by (simp add: cred_ok_def)
  have n0: "refs A f k n = 0 \<and> n \<le> length (cr_tab k)"
  proof (cases "crfreelist k")
    case Nil
    then have "n = length (cr_tab k)" using assms(2) by (simp add: crget_def)
    then show ?thesis using assms(1) fin by (auto simp: refs_0 cred_ok_def)
  next
    case (Cons c cs)
    then have "n = c" using assms(2) by (simp add: crget_def)
    then show ?thesis using assms(1) Cons by (auto simp: cred_ok_def)
  qed
  show nf: "f n = 0" and nu: "\<forall>i \<in> A. cu_cred (users k i) \<noteq> n" using n0 fin by (simp_all add: refs_0)
  show u: "users k1 = users k" and "kp k1 = kp k" "\<forall>c < length (cr_tab k). c \<noteq> n \<longrightarrow> cr_tab k1 ! c = cr_tab k ! c"
    "length (cr_tab k) \<le> length (cr_tab k1)" "n < length (cr_tab k1)"
    using assms by (auto simp: crget_def cred_ok_def nth_append split: list.splits)
  have "{i \<in> A. cu_cred (users k i) = n} = {}" using nu by auto
  then have "card {i \<in> A. cu_cred (users k i) = n} = 0" by (simp only: card.empty)
  then have r: "refs A (f(n := 1)) k1 c = (if c = n then 1 else refs A f k c)" for c using u by (simp add: refs_def)
  show "cred_ok A (f(n := 1)) k1"
  proof (cases "crfreelist k")
    case Nil
    then have k1: "n = length (cr_tab k)" "k1 = k\<lparr>cr_tab := cr_tab k @ [zero_cred\<lparr>cr_ref := 1\<rparr>], cractive := cractive k + 1\<rparr>"
      using assms(2) by (simp_all add: crget_def)
    show ?thesis using assms(1) r Nil unfolding cred_ok_def k1 by (auto simp: nth_append less_Suc_eq)
  next
    case (Cons c cs)
    then have k1: "n = c" "k1 = k\<lparr>crfreelist := cs, cr_tab := (cr_tab k)[c := zero_cred\<lparr>cr_ref := 1\<rparr>], cractive := cractive k + 1\<rparr>"
      using assms(2) by (auto simp: crget_def)
    show ?thesis using assms(1) r Cons unfolding cred_ok_def k1 by (auto simp: nth_upd)
  qed
qed

lemma crfree_ok:
  assumes "cred_ok A f k" and "0 < f c"
  shows "\<exists>k'. crfree c k = Ret k' \<and> cred_ok A (f(c := f c - 1)) k' \<and> users k' = users k \<and> kp k' = kp k \<and>
    length (cr_tab k') = length (cr_tab k) \<and> (\<forall>d. body (cr_tab k' ! d) = body (cr_tab k ! d))"
proof -
  have c: "c < length (cr_tab k)" by (rule held_in_table [OF assms])
  then have r: "cr_ref (cr_tab k ! c) = int (refs A f k c)" using assms(1) by (simp add: cred_ok_def)
  have p: "0 < refs A f k c" using assms(2) by (simp add: refs_def)
  define k1 where "k1 = upd_cred c (\<lambda>x. x\<lparr>cr_ref := int (refs A f k c) - 1\<rparr>) k"
  have rf: "refs A (f(c := f c - 1)) k1 d = (if d = c then refs A f k c - 1 else refs A f k d)" for d
    using assms(2) by (simp add: refs_def k1_def)
  have b: "body (cr_tab k1 ! d) = body (cr_tab k ! d)" for d by (simp add: k1_def body_def)
  have notfree: "c \<notin> set (crfreelist k)" using assms(1) c p by (auto simp: cred_ok_def)
  show ?thesis
  proof (cases "refs A f k c = 1")
    case False
    then have "crfree c k = Ret k1" using r p by (simp add: crfree_def Let_def k1_def)
    moreover have "cred_ok A (f(c := f c - 1)) k1"
      using assms(1) rf p False unfolding cred_ok_def by (auto simp: k1_def)
    ultimately show ?thesis using b by (simp add: k1_def)
  next
    case True
    define k' where "k' = k1\<lparr>crfreelist := c # crfreelist k1, cractive := cractive k1 - 1\<rparr>"
    have "crfree c k = Ret k'" using r p True by (simp add: crfree_def Let_def k1_def k'_def)
    moreover have rf': "refs A (f(c := f c - 1)) k' d = (if d = c then 0 else refs A f k d)" for d
    proof -
      have "refs A (f(c := f c - 1)) k' d = refs A (f(c := f c - 1)) k1 d" by (intro refs_users) (simp add: k'_def)
      then show ?thesis using rf [of d] True by simp
    qed
    have "cred_ok A (f(c := f c - 1)) k'"
      using assms(1) True c notfree unfolding cred_ok_def rf' by (auto simp: k'_def k1_def)
    ultimately show ?thesis using b by (simp add: k1_def k'_def)
  qed
qed

lemma crhold_ok:
  assumes "cred_ok A f k" and "0 < refs A f k c" and "refs A f k c < 32767" and "c < length (cr_tab k)"
  shows "cred_ok A (f(c := Suc (f c))) (crhold c k)"
proof -
  have r: "cr_ref (cr_tab k ! c) = int (refs A f k c)" using assms(1,4) by (simp add: cred_ok_def)
  then have s: "to_s16 (cr_ref (cr_tab k ! c) + 1) = int (Suc (refs A f k c))" using assms(3) by (subst to_s16_id) simp_all
  have rf: "refs A (f(c := Suc (f c))) (crhold c k) d = (if d = c then Suc (refs A f k c) else refs A f k d)" for d
    by (simp add: refs_def crhold_def)
  show ?thesis using assms s r unfolding cred_ok_def rf by (auto simp: crhold_def)
qed

text \<open>A process is made to point to another structure it has a reference to.\<close>

lemma repoint_ok:
  assumes "cred_ok A f k" and i: "i \<in> A" and n: "0 < f n" "cu_cred (users k i) \<noteq> n"
    and h: "cu_cred (h (users k i)) = n"
  defines "c \<equiv> cu_cred (users k i)"
  shows "cred_ok A (f(n := f n - 1, c := Suc (f c))) (upd_user i h k)"
proof -
  let ?k = "upd_user i h k" and ?f = "f(n := f n - 1, c := Suc (f c))"
  have fin: "finite A" using assms(1) by (simp add: cred_ok_def)
  have nl: "n < length (cr_tab k)" by (rule held_in_table [OF assms(1) n(1)])
  have cl: "c < length (cr_tab k)" using assms(1) i by (simp add: cred_ok_def c_def)
  have cn: "c \<noteq> n" using n(2) by (simp add: c_def)
  have s1: "{j \<in> A. cu_cred (users ?k j) = n} = insert i {j \<in> A. cu_cred (users k j) = n}" using i h by auto
  have s2: "{j \<in> A. cu_cred (users k j) = c} = insert i {j \<in> A. cu_cred (users ?k j) = c}" using i cn h by (auto simp: c_def)
  have s3: "{j \<in> A. cu_cred (users ?k j) = d} = {j \<in> A. cu_cred (users k j) = d}" if "d \<noteq> n" "d \<noteq> c" for d
    using that h by (auto simp: c_def)
  have c1: "card {j \<in> A. cu_cred (users ?k j) = n} = Suc (card {j \<in> A. cu_cred (users k j) = n})"
    unfolding s1 using fin n(2) by (subst card_insert_disjoint) auto
  have c2: "card {j \<in> A. cu_cred (users k j) = c} = Suc (card {j \<in> A. cu_cred (users ?k j) = c})"
    unfolding s2 using fin cn h by (subst card_insert_disjoint) auto
  have rf: "refs A ?f ?k d = refs A f k d" for d
    using c1 c2 s3 [of d] n(1) cn by (cases "d = n"; cases "d = c") (simp_all add: refs_def)
  have "\<forall>j \<in> A. cu_cred (users ?k j) < length (cr_tab k)" using assms(1) nl h by (simp add: cred_ok_def)
  then show ?thesis using assms(1) nl cl unfolding cred_ok_def rf by auto
qed

lemma crfree_upd_user: "crfree c (upd_user i h k) = obind (crfree c k) (\<lambda>k'. Ret (upd_user i h k'))"
  by (simp add: crfree_def Let_def) (simp add: upd_user_def upd_cred_def)

lemma crfree_upd_cred:
  "n \<noteq> c \<Longrightarrow> obind (crfree c (upd_cred n g k)) (\<lambda>k2. Ret (n, upd_cred n h k2)) =
    obind (crfree c (upd_cred n (\<lambda>x. h (g x)) k)) (\<lambda>k2. Ret (n, k2))"
  by (cases "n < length (cr_tab k)")
    (simp_all add: crfree_def Let_def upd_cred_def nth_upd list_update_swap list_update_beyond)

text \<open>Copying the caller's structure and switching to the copy.\<close>

lemma switch_ok:
  assumes ok: "cred_ok A f k" and i: "i \<in> A" and h: "\<And>u n. cu_cred (h n u) = n"
  shows "\<exists>n k1. crcopy (cu_cred (users k i)) k = Ret (n, k1) \<and> (let k2 = upd_user i (h n) k1 in
    cred_ok A f k2 \<and> n < length (cr_tab k2) \<and> f n = 0 \<and> (\<forall>j \<in> A. cu_cred (users k j) \<noteq> n) \<and>
    users k2 = (users k)(i := h n (users k i)) \<and> kp k2 = kp k \<and>
    body (cr_tab k2 ! n) = body (cred_of i k) \<and> (\<forall>d < length (cr_tab k). d \<noteq> n \<longrightarrow> body (cr_tab k2 ! d) = body (cr_tab k ! d)))"
proof -
  define c where "c = cu_cred (users k i)"
  obtain n k1 where g: "crget k = (n, k1)" by (cases "crget k")
  note e = crget_ok [OF ok g]
  have cn: "c \<noteq> n" using e(3) i by (simp add: c_def)
  have cl: "c < length (cr_tab k)" using ok i by (simp add: cred_ok_def c_def)
  have c1: "cr_tab k1 ! c = cr_tab k ! c" using e(7) cl cn by simp
  define kb where "kb = upd_cred n (\<lambda>x. (cr_tab k1 ! c)\<lparr>cr_ref := 1\<rparr>) k1"
  have "cr_ref (cr_tab k1 ! n) = 1"
  proof -
    have "{j \<in> A. cu_cred (users k j) = n} = {}" using e(3) by auto
    then have "card {j \<in> A. cu_cred (users k j) = n} = 0" by (simp only: card.empty)
    then show ?thesis using e(1,4,5) by (simp add: cred_ok_def refs_def)
  qed
  then have kb: "cred_ok A (f(n := 1)) kb" unfolding kb_def by (intro cred_ok_upd [OF e(1)]) simp
  have kbu: "users kb = users k" "kp kb = kp k" "length (cr_tab kb) = length (cr_tab k1)" using e(5,6) by (simp_all add: kb_def)
  have "cred_ok A ((f(n := 1))(n := (f(n := 1)) n - 1, c := Suc ((f(n := 1)) c))) (upd_user i (h n) kb)"
    using repoint_ok [OF kb i, of n "h n"] kbu(1) cn h by (simp add: c_def)
  then have rp: "cred_ok A (f(c := Suc (f c))) (upd_user i (h n) kb)" using cn e(2) by (simp add: fun_upd_twist fun_upd_idem)
  obtain k' where k': "crfree c (upd_user i (h n) kb) = Ret k'" "cred_ok A f k'" "users k' = users (upd_user i (h n) kb)"
    "kp k' = kp (upd_user i (h n) kb)" "length (cr_tab k') = length (cr_tab kb)" "\<forall>d. body (cr_tab k' ! d) = body (cr_tab kb ! d)"
    using crfree_ok [OF rp, of c] by (auto simp: fun_upd_idem)
  then obtain k2 where k2: "crfree c kb = Ret k2" "k' = upd_user i (h n) k2"
    unfolding crfree_upd_user by (auto simp: obind_Ret_iff)
  have "crcopy c k = Ret (n, k2)"
    using crfree_upd_cred [OF cn [symmetric], of "\<lambda>x. cr_tab k1 ! c" k1 "\<lambda>x. x\<lparr>cr_ref := 1\<rparr>"] k2(1) g
    by (simp add: crcopy_def kb_def)
  moreover have "body (cr_tab k' ! n) = body (cred_of i k)"
    using k'(6) e(4) c1 by (simp add: kb_def body_def cred_of_def c_def)
  moreover have "\<forall>d < length (cr_tab k). d \<noteq> n \<longrightarrow> body (cr_tab k' ! d) = body (cr_tab k ! d)"
    using k'(6) e(7) by (simp add: kb_def)
  moreover have "n < length (cr_tab k')" using e(4) k'(5) kbu(3) by simp
  moreover have "users k' = (users k)(i := h n (users k i))" "kp k' = kp k" using k'(3,4) kbu(1,2) by simp_all
  ultimately show ?thesis using k'(2) e(2,3) k2(2) unfolding c_def Let_def by blast
qed

section \<open>Ids\<close>

definition uids :: "nat \<Rightarrow> kstate \<Rightarrow> int set" where
  "uids i k = {cr_ruid (cred_of i k), cr_uid (cred_of i k), pr_suid (proc_at i k)}"

text \<open>Every group the process can act under: its three group ids and its group set.\<close>

definition gids :: "nat \<Rightarrow> kstate \<Rightarrow> int set" where
  "gids i k = {cr_rgid (cred_of i k), cr_gid (cred_of i k), cu_sgid (users k i)} \<union>
     set (takeWhile (\<lambda>g. g \<noteq> NOGROUP) (take NGROUPS (cr_groups (cred_of i k))))"

text \<open>
  What a call of process \<open>i\<close> leaves alone: the identity of every other process, the
  contents of every structure an open file holds, and all process groups and sessions.
\<close>

definition same_groups :: "kstate \<Rightarrow> kstate \<Rightarrow> bool" where
  "same_groups k k' \<longleftrightarrow> (\<forall>q. pr_pid (proc_at q k') = pr_pid (proc_at q k) \<and> pr_pgrp (proc_at q k') = pr_pgrp (proc_at q k) \<and>
     pr_sid (proc_at q k') = pr_sid (proc_at q k) \<and> pr_ppid (proc_at q k') = pr_ppid (proc_at q k))"

definition isolated :: "nat set \<Rightarrow> (nat \<Rightarrow> nat) \<Rightarrow> nat \<Rightarrow> kstate \<Rightarrow> kstate \<Rightarrow> bool" where
  "isolated A f i k k' \<longleftrightarrow> (\<forall>c. 0 < f c \<longrightarrow> body (cr_tab k' ! c) = body (cr_tab k ! c)) \<and>
     (\<forall>j \<in> A. j \<noteq> i \<longrightarrow> body (cred_of j k') = body (cred_of j k) \<and> users k' j = users k j \<and> pr_suid (proc_at j k') = pr_suid (proc_at j k)) \<and>
     same_groups k k'"

definition sys_ok :: "nat set \<Rightarrow> (nat \<Rightarrow> nat) \<Rightarrow> kstate \<Rightarrow> bool" where
  "sys_ok A f k \<longleftrightarrow> table_ok A (kp k) \<and> cred_ok A f k"

lemma isolated_refl: "isolated A f i k k"
  by (simp add: isolated_def same_groups_def)

lemma isolated_trans: "isolated A f i k k1 \<Longrightarrow> isolated A f i k1 k2 \<Longrightarrow> isolated A f i k k2"
  by (simp add: isolated_def same_groups_def)

text \<open>Steps that change only the error and the accounting flag of the caller.\<close>

definition quiet :: "nat \<Rightarrow> kstate \<Rightarrow> kstate \<Rightarrow> bool" where
  "quiet i k k' \<longleftrightarrow> (\<exists>e a. k' = upd_user i (\<lambda>u. u\<lparr>cu_error := e, cu_asu := a\<rparr>) k)"

lemma quiet_facts:
  assumes "quiet i k k'"
  shows "kp k' = kp k" "cr_tab k' = cr_tab k" "crfreelist k' = crfreelist k" "cractive k' = cractive k"
    "cu_cred (users k' j) = cu_cred (users k j)" "cu_sgid (users k' j) = cu_sgid (users k j)" "j \<noteq> i \<Longrightarrow> users k' j = users k j"
    "cred_of j k' = cred_of j k" "proc_at j k' = proc_at j k" "uids j k' = uids j k" "gids j k' = gids j k"
proof -
  obtain e a where k': "k' = upd_user i (\<lambda>u. u\<lparr>cu_error := e, cu_asu := a\<rparr>) k" using assms by (auto simp: quiet_def)
  show "kp k' = kp k" "cr_tab k' = cr_tab k" "crfreelist k' = crfreelist k" "cractive k' = cractive k"
    "cu_cred (users k' j) = cu_cred (users k j)" "cu_sgid (users k' j) = cu_sgid (users k j)" "j \<noteq> i \<Longrightarrow> users k' j = users k j"
    by (simp_all add: k')
  then show "cred_of j k' = cred_of j k" "proc_at j k' = proc_at j k" "uids j k' = uids j k" "gids j k' = gids j k"
    by (simp_all add: cred_of_def proc_at_def uids_def gids_def)
qed

lemma quiet_refl: "quiet i k k"
  unfolding quiet_def by (intro exI [of _ "cu_error (users k i)"] exI [of _ "cu_asu (users k i)"]) (simp add: upd_user_def)

lemma quiet_trans:
  assumes "quiet i k k1" and "quiet i k1 k2"
  shows "quiet i k k2"
proof -
  obtain e a where k1: "k1 = upd_user i (\<lambda>u. u\<lparr>cu_error := e, cu_asu := a\<rparr>) k" using assms(1) by (auto simp: quiet_def)
  obtain e' a' where k2: "k2 = upd_user i (\<lambda>u. u\<lparr>cu_error := e', cu_asu := a'\<rparr>) k1" using assms(2) by (auto simp: quiet_def)
  have "k2 = upd_user i (\<lambda>u. u\<lparr>cu_error := e', cu_asu := a'\<rparr>) k" unfolding k2 k1 by (simp add: upd_user_def)
  then show ?thesis unfolding quiet_def by blast
qed

lemma quiet_fail: "quiet i k (fail e i k)"
  unfolding quiet_def by (intro exI [of _ e] exI [of _ "cu_asu (users k i)"]) (simp add: fail_def upd_user_def)

lemma quiet_run_test: "quiet i k (snd (run_test t i k))"
  unfolding quiet_def run_test_def by (auto split: prod.splits)

lemma quiet_ok:
  assumes "quiet i k k'"
  shows "sys_ok A f k' = sys_ok A f k" "cred_ok A f k' = cred_ok A f k" "isolated A f i k k'"
  using quiet_facts [OF assms] by (simp_all add: sys_ok_def cred_ok_def refs_def isolated_def same_groups_def)

lemma run_resuser: "fst (run_test resuser i k) \<longleftrightarrow> 0 \<in> uids i k"
  by (auto simp: run_test_def uids_def resuser_def uarea_of_def Let_def)

lemma run_suser: "fst (run_test suser i k) \<longleftrightarrow> cr_uid (cred_of i k) = 0"
  by (auto simp: run_test_def suser_def uarea_of_def Let_def)

lemma id_allowed_facts:
  assumes "id_allowed a b c new i k = (ok, k1)"
  shows "quiet i k k1" and "ok \<Longrightarrow> new \<in> {a, b, c} \<or> 0 \<in> uids i k"
proof -
  show "quiet i k k1"
    using assms quiet_refl [of i k] quiet_run_test [of i k resuser] by (auto simp: id_allowed_def split: if_splits)
  assume ok
  then show "new \<in> {a, b, c} \<or> 0 \<in> uids i k"
    using assms run_resuser [of i k] by (auto simp: id_allowed_def split: if_splits)
qed

section \<open>setresuid and setresgid\<close>

text \<open>What a call did to the caller's ids: nothing, or what it was allowed to do.\<close>

definition no_gain :: "nat \<Rightarrow> kstate \<Rightarrow> kstate \<Rightarrow> bool" where
  "no_gain i k k' \<longleftrightarrow> 0 \<in> uids i k \<or> uids i k' \<subseteq> uids i k \<and> gids i k' \<subseteq> gids i k"

lemma quiet_no_gain: "quiet i k k' \<Longrightarrow> no_gain i k k'"
  using quiet_facts(10,11) by (simp add: no_gain_def)

lemma switch_isolated:
  assumes ok: "cred_ok A f k" and "f n = 0" "\<forall>j \<in> A. cu_cred (users k j) \<noteq> n"
    and "\<forall>d < length (cr_tab k). d \<noteq> n \<longrightarrow> body (cr_tab k' ! d) = body (cr_tab k ! d)"
    and "\<forall>j. j \<noteq> i \<longrightarrow> users k' j = users k j" and "\<forall>j. j \<noteq> i \<longrightarrow> pr_suid (proc_at j k') = pr_suid (proc_at j k)"
    and "same_groups k k'"
  shows "isolated A f i k k'"
proof -
  have "body (cr_tab k' ! c) = body (cr_tab k ! c)" if "0 < f c" for c
  proof -
    have "c \<noteq> n" using that assms(2) by auto
    then show ?thesis using held_in_table [OF ok that] assms(4) by simp
  qed
  moreover have "body (cred_of j k') = body (cred_of j k)" if "j \<in> A" "j \<noteq> i" for j
    using ok that assms(3-5) by (simp add: cred_of_def cred_ok_def)
  ultimately show ?thesis using assms(5-7) by (simp add: isolated_def)
qed

lemma setresuid_do_effect:
  assumes ok: "sys_ok A f k" and i: "i \<in> A"
  shows "\<exists>k'. setresuid_do r e s i k = Ret k' \<and> sys_ok A f k' \<and> isolated A f i k k' \<and>
    cr_ruid (cred_of i k') = r \<and> cr_uid (cred_of i k') = e \<and> pr_suid (proc_at i k') = s \<and> gids i k' = gids i k"
proof -
  define k0 where "k0 = upd_p i (\<lambda>p. p\<lparr>pr_idwrite := 0\<rparr>) k"
  have t: "table_ok A (kp k)" and co: "cred_ok A f k" using ok by (simp_all add: sys_ok_def)
  have k0: "cr_tab k0 = cr_tab k" "users k0 = users k" "crfreelist k0 = crfreelist k" "cractive k0 = cractive k"
    "cred_of i k0 = cred_of i k"
    by (simp_all add: k0_def upd_p_def cred_of_def)
  have tk0: "table_ok A (kp k0)" using t by (simp add: k0_def upd_p_def table_ok_upd)
  have s0: "pr_suid (proc_at j k0) = pr_suid (proc_at j k)" "same_groups k k0" for j
    by (simp_all add: k0_def upd_p_def upd_proc_def proc_at_def nth_upd same_groups_def)
  have co0: "cred_ok A f k0" using co refs_users [of k0 k A f] k0 by (simp add: cred_ok_def)
  obtain n k1 where k1: "crcopy (cu_cred (users k0 i)) k0 = Ret (n, k1)" and
    sw: "let k2 = upd_user i (\<lambda>u. u\<lparr>cu_cred := n\<rparr>) k1 in
      cred_ok A f k2 \<and> n < length (cr_tab k2) \<and> f n = 0 \<and> (\<forall>j \<in> A. cu_cred (users k0 j) \<noteq> n) \<and>
      users k2 = (users k0)(i := (users k0 i)\<lparr>cu_cred := n\<rparr>) \<and> kp k2 = kp k0 \<and>
      body (cr_tab k2 ! n) = body (cred_of i k0) \<and> (\<forall>d < length (cr_tab k0). d \<noteq> n \<longrightarrow> body (cr_tab k2 ! d) = body (cr_tab k0 ! d))"
    using switch_ok [OF co0 i, of "\<lambda>n u. u\<lparr>cu_cred := n\<rparr>"] by auto
  define k2 where "k2 = upd_user i (\<lambda>u. u\<lparr>cu_cred := n\<rparr>) k1"
  have k2: "cred_ok A f k2" "n < length (cr_tab k2)" "f n = 0" "\<forall>j \<in> A. cu_cred (users k0 j) \<noteq> n"
    "users k2 = (users k0)(i := (users k0 i)\<lparr>cu_cred := n\<rparr>)" "kp k2 = kp k0" "body (cr_tab k2 ! n) = body (cred_of i k0)"
    "\<forall>d < length (cr_tab k0). d \<noteq> n \<longrightarrow> body (cr_tab k2 ! d) = body (cr_tab k0 ! d)"
    using sw unfolding k2_def [symmetric] Let_def by blast+
  obtain kq where kq: "uremove i (kp k2) = Ret (True, kq)" and
    uq: "let k' = upd_proc i (\<lambda>x. x\<lparr>pr_uid := r, pr_suid := s\<rparr>) (ulink i r kq) in
      table_ok A k' \<and> nproc k' = nproc (kp k2) \<and>
      (\<forall>q. procs k' ! q = (procs (kp k2) ! q)\<lparr>pr_uid := (if q = i then r else pr_uid (procs (kp k2) ! q)),
       pr_suid := (if q = i then s else pr_suid (procs (kp k2) ! q)), pr_uidhx := uidx_of k' q\<rparr>)"
    using uchange_effect [where A = A and k = "kp k2" and p = i and r = r and s = s] tk0 i k2(6) by auto
  define kr where "kr = upd_proc i (\<lambda>x. x\<lparr>pr_uid := r, pr_suid := s\<rparr>) (ulink i r kq)"
  have kr: "table_ok A kr" "pr_suid (procs kr ! q) = (if q = i then s else pr_suid (procs (kp k2) ! q))"
    "pr_pid (procs kr ! q) = pr_pid (procs (kp k2) ! q)" "pr_pgrp (procs kr ! q) = pr_pgrp (procs (kp k2) ! q)"
    "pr_sid (procs kr ! q) = pr_sid (procs (kp k2) ! q)" "pr_ppid (procs kr ! q) = pr_ppid (procs (kp k2) ! q)" for q
    using uq unfolding kr_def [symmetric] Let_def by auto
  define k3 where "k3 = upd_cred n (\<lambda>c. c\<lparr>cr_ruid := r, cr_uid := e\<rparr>) (k2\<lparr>kp := kr\<rparr>)"
  have run: "setresuid_do r e s i k = Ret k3"
  proof -
    have "kp k2 = kp k1" by (simp add: k2_def)
    then show ?thesis
      using k1 kq by (simp add: setresuid_do_def k0_def [symmetric] Let_def k2_def [symmetric] kr_def [symmetric] k3_def k0(2))
  qed
  have "cred_ok A f (k2\<lparr>kp := kr\<rparr>)" using k2(1) refs_users [of "k2\<lparr>kp := kr\<rparr>" k2 A f] by (simp add: cred_ok_def)
  then have co3: "cred_ok A f k3" unfolding k3_def by (intro cred_ok_upd) simp_all
  have u3: "users k3 = (users k)(i := (users k i)\<lparr>cu_cred := n\<rparr>)" "kp k3 = kr" using k2(5) k0(2) by (simp_all add: k3_def)
  have c3: "cred_of i k3 = (cr_tab k2 ! n)\<lparr>cr_ruid := r, cr_uid := e\<rparr>" using k2(2) u3 by (simp add: cred_of_def k3_def)
  have "isolated A f i k k3"
  proof (rule switch_isolated [OF co k2(3)])
    show "\<forall>j \<in> A. cu_cred (users k j) \<noteq> n" using k2(4) k0(2) by simp
    show "\<forall>d < length (cr_tab k). d \<noteq> n \<longrightarrow> body (cr_tab k3 ! d) = body (cr_tab k ! d)" using k2(8) k0(1) by (simp add: k3_def)
    show "\<forall>j. j \<noteq> i \<longrightarrow> users k3 j = users k j" using u3 by simp
    show "\<forall>j. j \<noteq> i \<longrightarrow> pr_suid (proc_at j k3) = pr_suid (proc_at j k)"
      using kr(2) u3(2) k2(6) s0(1) by (simp add: proc_at_def)
    show "same_groups k k3" using kr(3-6) u3(2) k2(6) s0(2) by (simp add: proc_at_def same_groups_def)
  qed
  moreover have "gids i k3 = gids i k"
    using c3 u3 k2(7) k0(5) by (simp add: gids_def body_eq)
  ultimately show ?thesis using run co3 kr u3(2) c3 by (auto simp: sys_ok_def proc_at_def)
qed

lemma three_checks:
  assumes "id_allowed a b c x i k = (ok1, k1)" "id_allowed a b c y i k1 = (ok2, k2)" "id_allowed a b c z i k2 = (ok3, k3)"
  shows "quiet i k k1" "quiet i k k2" "quiet i k k3" and "ok1 \<Longrightarrow> ok2 \<Longrightarrow> ok3 \<Longrightarrow> {x, y, z} \<subseteq> {a, b, c} \<or> 0 \<in> uids i k"
proof -
  note e1 = id_allowed_facts [OF assms(1)] and e2 = id_allowed_facts [OF assms(2)] and e3 = id_allowed_facts [OF assms(3)]
  show q1: "quiet i k k1" by (rule e1(1))
  show q2: "quiet i k k2" by (rule quiet_trans [OF q1 e2(1)])
  show q3: "quiet i k k3" by (rule quiet_trans [OF q2 e3(1)])
  show "{x, y, z} \<subseteq> {a, b, c} \<or> 0 \<in> uids i k" if "ok1" "ok2" "ok3"
    using e1(2) [OF that(1)] e2(2) [OF that(2)] e3(2) [OF that(3)] quiet_facts(10) [OF q1] quiet_facts(10) [OF q2] by blast
qed

lemma quiet_result: "quiet i k k' \<Longrightarrow> sys_ok A f k \<Longrightarrow> sys_ok A f k' \<and> isolated A f i k k' \<and> no_gain i k k'"
  using quiet_ok quiet_no_gain by blast

lemma setresuid_effect:
  assumes ok: "sys_ok A f k" and i: "i \<in> A"
  shows "\<exists>k'. setresuid r0 e0 s0 i k = Ret k' \<and> sys_ok A f k' \<and> isolated A f i k k' \<and> no_gain i k k'"
proof (cases "bad_uid r0 \<or> bad_uid e0 \<or> bad_uid s0")
  case True
  then show ?thesis using quiet_result [OF quiet_fail ok] by (simp add: setresuid_def)
next
  case False
  let ?r = "cr_ruid (cred_of i k)" and ?e = "cr_uid (cred_of i k)" and ?s = "pr_suid (proc_at i k)"
  define x y z where "x = (if r0 = NO_CHANGE then ?r else r0)" and "y = (if e0 = NO_CHANGE then ?e else e0)"
    and "z = (if s0 = NO_CHANGE then ?s else s0)"
  obtain ok1 k1 where 1: "id_allowed ?r ?e ?s x i k = (ok1, k1)" by (cases "id_allowed ?r ?e ?s x i k")
  obtain ok2 k2 where 2: "id_allowed ?r ?e ?s y i k1 = (ok2, k2)" by (cases "id_allowed ?r ?e ?s y i k1")
  obtain ok3 k3 where 3: "id_allowed ?r ?e ?s z i k2 = (ok3, k3)" by (cases "id_allowed ?r ?e ?s z i k2")
  note c = three_checks [OF 1 2 3]
  have run: "setresuid r0 e0 s0 i k =
      (if \<not> ok1 then Ret k1 else if \<not> ok2 then Ret k2 else if \<not> ok3 then Ret k3 else setresuid_do x y z i k3)"
    using False 1 2 3 by (simp add: setresuid_def Let_def x_def y_def z_def)
  show ?thesis
  proof (cases "ok1 \<and> ok2 \<and> ok3")
    case True
    have ok3: "sys_ok A f k3" using quiet_ok(1) [OF c(3)] ok by simp
    obtain k' where k': "setresuid_do x y z i k3 = Ret k'" "sys_ok A f k'" "isolated A f i k3 k'"
      "cr_ruid (cred_of i k') = x" "cr_uid (cred_of i k') = y" "pr_suid (proc_at i k') = z" "gids i k' = gids i k3"
      using setresuid_do_effect [OF ok3 i, where r = x and e = y and s = z] by (elim exE conjE)
    have "uids i k = {?r, ?e, ?s}" "uids i k' = {x, y, z}" using k'(4-6) by (simp_all add: uids_def)
    then have "no_gain i k k'" using c(4) True k'(7) quiet_facts(11) [OF c(3)] by (auto simp: no_gain_def)
    then show ?thesis using run True k'(1-3) isolated_trans [OF quiet_ok(3) [OF c(3)]] by auto
  next
    case False
    then have "\<exists>k'. setresuid r0 e0 s0 i k = Ret k' \<and> quiet i k k'" using run c(1-3) by auto
    then show ?thesis using quiet_result [OF _ ok] by blast
  qed
qed

lemma setresgid_do_effect:
  assumes ok: "sys_ok A f k" and i: "i \<in> A"
  shows "\<exists>k'. setresgid_do r e s i k = Ret k' \<and> sys_ok A f k' \<and> isolated A f i k k' \<and> uids i k' = uids i k \<and>
    cr_rgid (cred_of i k') = r \<and> cr_gid (cred_of i k') = e \<and> cu_sgid (users k' i) = s \<and>
    cr_groups (cred_of i k') = cr_groups (cred_of i k)"
proof -
  have t: "table_ok A (kp k)" and co: "cred_ok A f k" using ok by (simp_all add: sys_ok_def)
  define h where "h = (\<lambda>n (u::cuser). u\<lparr>cu_cred := n, cu_sgid := s\<rparr>)"
  obtain n k1 where k1: "crcopy (cu_cred (users k i)) k = Ret (n, k1)" and
    sw: "let k2 = upd_user i (h n) k1 in
      cred_ok A f k2 \<and> n < length (cr_tab k2) \<and> f n = 0 \<and> (\<forall>j \<in> A. cu_cred (users k j) \<noteq> n) \<and>
      users k2 = (users k)(i := h n (users k i)) \<and> kp k2 = kp k \<and>
      body (cr_tab k2 ! n) = body (cred_of i k) \<and> (\<forall>d < length (cr_tab k). d \<noteq> n \<longrightarrow> body (cr_tab k2 ! d) = body (cr_tab k ! d))"
    using switch_ok [OF co i, of h] by (auto simp: h_def)
  define k2 where "k2 = upd_user i (h n) k1"
  have k2: "cred_ok A f k2" "n < length (cr_tab k2)" "f n = 0" "\<forall>j \<in> A. cu_cred (users k j) \<noteq> n"
    "users k2 = (users k)(i := h n (users k i))" "kp k2 = kp k" "body (cr_tab k2 ! n) = body (cred_of i k)"
    "\<forall>d < length (cr_tab k). d \<noteq> n \<longrightarrow> body (cr_tab k2 ! d) = body (cr_tab k ! d)"
    using sw unfolding k2_def [symmetric] Let_def by blast+
  define k3 where "k3 = upd_p i (\<lambda>p. p\<lparr>pr_spriv := True, pr_idwrite := 0\<rparr>) (upd_cred n (\<lambda>c. c\<lparr>cr_gid := e, cr_rgid := r\<rparr>) k2)"
  have run: "setresgid_do r e s i k = Ret k3"
    using k1 by (simp add: setresgid_do_def k3_def k2_def h_def)
  have "cred_ok A f (upd_cred n (\<lambda>c. c\<lparr>cr_gid := e, cr_rgid := r\<rparr>) k2)" by (rule cred_ok_upd [OF k2(1)]) simp
  then have co3: "cred_ok A f k3" by (simp add: k3_def upd_p_def cred_ok_def refs_def)
  have t3: "table_ok A (kp k3)" using t k2(6) by (simp add: k3_def upd_p_def table_ok_upd)
  have s3: "pr_suid (proc_at j k3) = pr_suid (proc_at j k)" "same_groups k k3" for j
    using k2(6) by (simp_all add: k3_def upd_p_def upd_proc_def proc_at_def nth_upd same_groups_def)
  have u3: "users k3 = (users k)(i := h n (users k i))" "cr_tab k3 = cr_tab (upd_cred n (\<lambda>c. c\<lparr>cr_gid := e, cr_rgid := r\<rparr>) k2)"
    using k2(5) by (simp_all add: k3_def upd_p_def)
  have c3: "cred_of i k3 = (cr_tab k2 ! n)\<lparr>cr_gid := e, cr_rgid := r\<rparr>" using k2(2) u3 by (simp add: cred_of_def h_def)
  have "isolated A f i k k3"
    using k2(4,8) u3 s3 by (intro switch_isolated [OF co k2(3)]) simp_all
  moreover have "uids i k3 = uids i k" using c3 k2(7) s3 by (simp add: uids_def body_eq)
  ultimately show ?thesis using run co3 t3 c3 k2(7) u3(1) by (auto simp: sys_ok_def body_eq h_def)
qed

lemma setresgid_effect:
  assumes ok: "sys_ok A f k" and i: "i \<in> A"
  shows "\<exists>k'. setresgid r0 e0 s0 i k = Ret k' \<and> sys_ok A f k' \<and> isolated A f i k k' \<and> no_gain i k k'"
proof (cases "bad_uid r0 \<or> bad_uid e0 \<or> bad_uid s0")
  case True
  then show ?thesis using quiet_result [OF quiet_fail ok] by (simp add: setresgid_def)
next
  case False
  let ?r = "cr_rgid (cred_of i k)" and ?e = "cr_gid (cred_of i k)" and ?s = "cu_sgid (users k i)"
  define x y z where "x = (if r0 = NO_CHANGE then ?r else r0)" and "y = (if e0 = NO_CHANGE then ?e else e0)"
    and "z = (if s0 = NO_CHANGE then ?s else s0)"
  obtain ok1 k1 where 1: "id_allowed ?r ?e ?s x i k = (ok1, k1)" by (cases "id_allowed ?r ?e ?s x i k")
  obtain ok2 k2 where 2: "id_allowed ?r ?e ?s y i k1 = (ok2, k2)" by (cases "id_allowed ?r ?e ?s y i k1")
  obtain ok3 k3 where 3: "id_allowed ?r ?e ?s z i k2 = (ok3, k3)" by (cases "id_allowed ?r ?e ?s z i k2")
  note c = three_checks [OF 1 2 3]
  have run: "setresgid r0 e0 s0 i k =
      (if \<not> ok1 then Ret k1 else if \<not> ok2 then Ret k2 else if \<not> ok3 then Ret k3 else setresgid_do x y z i k3)"
    using False 1 2 3 by (simp add: setresgid_def Let_def x_def y_def z_def)
  show ?thesis
  proof (cases "ok1 \<and> ok2 \<and> ok3")
    case True
    have ok3: "sys_ok A f k3" using quiet_ok(1) [OF c(3)] ok by simp
    obtain k' where k': "setresgid_do x y z i k3 = Ret k'" "sys_ok A f k'" "isolated A f i k3 k'" "uids i k' = uids i k3"
      "cr_rgid (cred_of i k') = x" "cr_gid (cred_of i k') = y" "cu_sgid (users k' i) = z"
      "cr_groups (cred_of i k') = cr_groups (cred_of i k3)"
      using setresgid_do_effect [OF ok3 i, where r = x and e = y and s = z] by (elim exE conjE)
    have "{x, y, z} \<subseteq> {?r, ?e, ?s} \<or> 0 \<in> uids i k" using c(4) True by simp
    then have "no_gain i k k'"
      using k'(4-8) quiet_facts(8,10) [OF c(3)] by (auto simp: no_gain_def gids_def)
    then show ?thesis using run True k'(1-3) isolated_trans [OF quiet_ok(3) [OF c(3)]] by auto
  next
    case False
    then have "\<exists>k'. setresgid r0 e0 s0 i k = Ret k' \<and> quiet i k k'" using run c(1-3) by auto
    then show ?thesis using quiet_result [OF _ ok] by blast
  qed
qed

section \<open>setgroups\<close>

lemma groupmember_gids: "groupmember g (uarea_of i k) \<Longrightarrow> g \<in> gids i k"
  by (auto simp: groupmember_def group_scan_iff gids_def uarea_of_def Let_def)

lemma setgroups_check_facts:
  "setgroups_check gs i k = (ok, k') \<Longrightarrow> quiet i k k' \<and> (ok \<longrightarrow> set gs \<subseteq> gids i k \<or> 0 \<in> uids i k)"
proof (induction gs arbitrary: k)
  case Nil
  then show ?case using quiet_refl by auto
next
  case (Cons g gs)
  show ?case
  proof (cases "g \<ge> MAXUID")
    case True
    then show ?thesis using Cons.prems quiet_fail by auto
  next
    case False
    show ?thesis
    proof (cases "groupmember g (uarea_of i k)")
      case True
      then show ?thesis using Cons.IH [of k] Cons.prems False groupmember_gids by auto
    next
      case nm: False
      obtain b k1 where k1: "run_test suser i k = (b, k1)" by (cases "run_test suser i k")
      have q: "quiet i k k1" using quiet_run_test [of i k suser] k1 by simp
      show ?thesis
      proof (cases b)
        case True
        have root: "0 \<in> uids i k" using run_suser [of i k] k1 True by (simp add: uids_def)
        have "setgroups_check gs i k1 = (ok, k')" using Cons.prems False nm k1 True by simp
        then have "quiet i k1 k'" using Cons.IH [of k1] by simp
        then show ?thesis using quiet_trans [OF q] root by simp
      next
        case no: False
        then have "k' = k1" "\<not> ok" using Cons.prems False nm k1 by simp_all
        then show ?thesis using q by simp
      qed
    qed
  qed
qed

lemma crdup_ok:
  assumes ok: "cred_ok A f k" and c: "c < length (cr_tab k)" "0 < refs A f k c" and d: "crdup c k = (n, kb)"
  shows "cred_ok A (f(n := 1)) kb" and "f n = 0" and "\<forall>i \<in> A. cu_cred (users k i) \<noteq> n" and "users kb = users k"
    and "kp kb = kp k" and "n < length (cr_tab kb)" and "body (cr_tab kb ! n) = body (cr_tab k ! c)"
    and "\<forall>d < length (cr_tab k). d \<noteq> n \<longrightarrow> cr_tab kb ! d = cr_tab k ! d" and "length (cr_tab k) \<le> length (cr_tab kb)"
proof -
  obtain k1 where g: "crget k = (n, k1)" and kb: "kb = upd_cred n (\<lambda>x. (cr_tab k1 ! c)\<lparr>cr_ref := 1\<rparr>) k1"
    using d by (cases "crget k") (auto simp: crdup_def)
  note e = crget_ok [OF ok g]
  have fin: "finite A" using ok by (simp add: cred_ok_def)
  have "refs A f k n = 0" unfolding refs_0 [OF fin] using e(2,3) by blast
  then have cn: "c \<noteq> n" using c(2) by auto
  have e0: "{j \<in> A. cu_cred (users k j) = n} = {}" using e(3) by auto
  have "refs A (f(n := 1)) k1 n = 1" unfolding refs_def e(5) e0 by simp
  then have "cr_ref (cr_tab k1 ! n) = 1" using e(1,4) by (simp add: cred_ok_def)
  then show "cred_ok A (f(n := 1)) kb" unfolding kb by (intro cred_ok_upd [OF e(1)]) simp
  show "f n = 0" "\<forall>i \<in> A. cu_cred (users k i) \<noteq> n" "users kb = users k" "kp kb = kp k" "n < length (cr_tab kb)"
    "\<forall>d < length (cr_tab k). d \<noteq> n \<longrightarrow> cr_tab kb ! d = cr_tab k ! d" "length (cr_tab k) \<le> length (cr_tab kb)"
    using e by (simp_all add: kb)
  show "body (cr_tab kb ! n) = body (cr_tab k ! c)" using e(4,7) c(1) cn by (simp add: kb body_def)
qed

text \<open>The copy is given back: nothing has changed but the error.\<close>

lemma undo_copy:
  assumes ok: "sys_ok A f k" and kc: "cred_ok A (f(n := 1)) kc" "f n = 0" "\<forall>j \<in> A. cu_cred (users k j) \<noteq> n"
    and same: "\<forall>d < length (cr_tab k). d \<noteq> n \<longrightarrow> cr_tab kc ! d = cr_tab k ! d" "kp kc = kp k"
    and u: "\<forall>j. cu_cred (users kc j) = cu_cred (users k j) \<and> cu_sgid (users kc j) = cu_sgid (users k j)"
    "\<forall>j. j \<noteq> i \<longrightarrow> users kc j = users k j" and i: "i \<in> A"
  shows "\<exists>k'. crfree n kc = Ret k' \<and> sys_ok A f k' \<and> isolated A f i k k' \<and> no_gain i k k'"
proof -
  have co: "cred_ok A f k" using ok by (simp add: sys_ok_def)
  obtain k' where k': "crfree n kc = Ret k'" "cred_ok A (f(n := 0)) k'" "users k' = users kc" "kp k' = kp kc"
    "\<forall>d. body (cr_tab k' ! d) = body (cr_tab kc ! d)"
    using crfree_ok [OF kc(1), of n] by auto
  have ps: "proc_at j k' = proc_at j k" for j using k'(4) same(2) by (simp add: proc_at_def)
  have "isolated A f i k k'"
    using k'(3,5) same(1) u ps by (intro switch_isolated [OF co kc(2,3)]) (simp_all add: same_groups_def)
  moreover have b: "body (cred_of i k') = body (cred_of i k)"
    using co i kc(3) k'(3,5) same(1) u(1) by (simp add: cred_of_def cred_ok_def)
  have "uids i k' = uids i k" "gids i k' = gids i k" using b ps u(1) k'(3) by (simp_all add: uids_def gids_def body_eq)
  then have "no_gain i k k'" by (simp add: no_gain_def)
  moreover have "sys_ok A f k'" using ok k'(2,4) kc(2) same(2) by (simp add: sys_ok_def fun_upd_idem)
  ultimately show ?thesis using k'(1) by blast
qed

lemma setgroups_effect:
  assumes ok: "sys_ok A f k" and i: "i \<in> A" and n: "copied \<noteq> None \<longrightarrow> 0 \<le> size0 \<and> length (the copied) = nat size0"
  shows "\<exists>k'. setgroups size0 copied i k = Ret k' \<and> sys_ok A f k' \<and> isolated A f i k k' \<and> no_gain i k k'"
proof (cases "size0 > int NGROUPS")
  case True
  then show ?thesis using quiet_result [OF quiet_fail ok] by (simp add: setgroups_def)
next
  case le: False
  have co: "cred_ok A f k" and t: "table_ok A (kp k)" using ok by (simp_all add: sys_ok_def)
  define c where "c = cu_cred (users k i)"
  have c: "c < length (cr_tab k)" "0 < refs A f k c" using co i by (auto simp: cred_ok_def c_def refs_def card_gt_0_iff)
  obtain m kb where d: "crdup c k = (m, kb)" by (cases "crdup c k")
  note e = crdup_ok [OF co c d]
  show ?thesis
  proof (cases copied)
    case None
    let ?kc = "fail EFAULT i kb"
    have q: "quiet i kb ?kc" by (rule quiet_fail)
    have kc: "cred_ok A (f(m := 1)) ?kc" using e(1) quiet_ok(2) [OF q] by simp
    have "\<exists>k'. crfree m ?kc = Ret k' \<and> sys_ok A f k' \<and> isolated A f i k k' \<and> no_gain i k k'"
      using quiet_facts [OF q] e by (intro undo_copy [OF ok kc e(2,3)] i) simp_all
    then show ?thesis using le d None by (simp add: setgroups_def c_def)
  next
    case (Some new)
    define nn where "nn = nat size0"
    have nn: "0 \<le> size0" "length new = nn" "nn \<le> 20" using n Some le by (simp_all add: nn_def)
    define k2 where "k2 = fail E_OK i (upd_cred m (\<lambda>c. c\<lparr>cr_groups := take nn new @ drop nn (cr_groups c)\<rparr>) kb)"
    obtain okc k3 where k3: "setgroups_check (take nn new) i k2 = (okc, k3)" by (cases "setgroups_check (take nn new) i k2")
    have q2: "quiet i (upd_cred m (\<lambda>c. c\<lparr>cr_groups := take nn new @ drop nn (cr_groups c)\<rparr>) kb) k3"
      using setgroups_check_facts [OF k3] unfolding k2_def by (blast intro: quiet_trans [OF quiet_fail])
    note q = quiet_facts [OF q2]
    have k3ok: "cred_ok A (f(m := 1)) k3"
      unfolding quiet_ok(2) [OF q2] by (rule cred_ok_upd [OF e(1)]) simp
    have run: "setgroups size0 copied i k = (if \<not> okc then crfree m k3 else
        obind (crfree (cu_cred (users k3 i)) (upd_user i (\<lambda>u. u\<lparr>cu_cred := m\<rparr>) k3)) (\<lambda>k4.
          Ret (upd_p i (\<lambda>p. p\<lparr>pr_spriv := True\<rparr>)
            (upd_cred m (\<lambda>c. c\<lparr>cr_groups := take nn (cr_groups c) @ replicate (NGROUPS - nn) NOGROUP\<rparr>) k4))))"
      using le d Some nn(1) k3 by (simp add: setgroups_def c_def Let_def nn_def [symmetric] k2_def)
    show ?thesis
    proof (cases okc)
      case False
      have "\<exists>k'. crfree m k3 = Ret k' \<and> sys_ok A f k' \<and> isolated A f i k k' \<and> no_gain i k k'"
        using q e by (intro undo_copy [OF ok k3ok e(2,3)] i) simp_all
      then show ?thesis using run False by simp
    next
      case True
      have cu: "cu_cred (users k3 i) = c" using q(5) e(4) by (simp add: c_def)
      have cm: "c \<noteq> m" using e(3) i by (simp add: c_def)
      let ?h = "\<lambda>u :: cuser. u\<lparr>cu_cred := m\<rparr>"
      have "cred_ok A ((f(m := 1))(m := (f(m := 1)) m - 1, c := Suc ((f(m := 1)) c))) (upd_user i ?h k3)"
        using repoint_ok [OF k3ok i, of m ?h] cu cm by simp
      then have rp: "cred_ok A (f(c := Suc (f c))) (upd_user i ?h k3)" using cm e(2) by (simp add: fun_upd_twist fun_upd_idem)
      obtain k4 where k4: "crfree c (upd_user i ?h k3) = Ret k4" "cred_ok A f k4" "users k4 = users (upd_user i ?h k3)"
        "kp k4 = kp (upd_user i ?h k3)" "length (cr_tab k4) = length (cr_tab (upd_user i ?h k3))"
        "\<forall>d. body (cr_tab k4 ! d) = body (cr_tab (upd_user i ?h k3) ! d)"
        using crfree_ok [OF rp, of c] by (auto simp: fun_upd_idem)
      define k' where "k' = upd_p i (\<lambda>p. p\<lparr>pr_spriv := True\<rparr>)
            (upd_cred m (\<lambda>c. c\<lparr>cr_groups := take nn (cr_groups c) @ replicate (NGROUPS - nn) NOGROUP\<rparr>) k4)"
      have r: "setgroups size0 copied i k = Ret k'" using run True k4(1) cu by (simp add: k'_def)
      have "cred_ok A f (upd_cred m (\<lambda>c. c\<lparr>cr_groups := take nn (cr_groups c) @ replicate (NGROUPS - nn) NOGROUP\<rparr>) k4)"
        by (rule cred_ok_upd [OF k4(2)]) simp
      then have co': "cred_ok A f k'" by (simp add: k'_def upd_p_def cred_ok_def refs_def)
      have kp4: "kp k4 = kp k" using k4(4) q(1) e(5) by simp
      have t': "table_ok A (kp k')" using t kp4 by (simp add: k'_def upd_p_def table_ok_upd)
      have s': "pr_suid (proc_at j k') = pr_suid (proc_at j k)" "same_groups k k'" for j
        using kp4 by (simp_all add: k'_def upd_p_def upd_proc_def proc_at_def nth_upd same_groups_def)
      have u': "users k' = users (upd_user i ?h k3)" using k4(3) by (simp add: k'_def upd_p_def)
      have tab: "body (cr_tab k' ! x) = body (cr_tab k ! x)" if "x < length (cr_tab k)" "x \<noteq> m" for x
        using that k4(6) q(2) e(8) by (simp add: k'_def upd_p_def)
      have "isolated A f i k k'"
        using tab u' q(7) e(4) s' by (intro switch_isolated [OF co e(2,3)]) simp_all
      moreover have "no_gain i k k'"
      proof -
        have ml: "m < length (cr_tab k4)" using k4(5) q(2) e(6) by simp
        have b4: "body (cr_tab k4 ! m) = body ((cr_tab kb ! m)\<lparr>cr_groups := take nn new @ drop nn (cr_groups (cr_tab kb ! m))\<rparr>)"
          using k4(6) q(2) e(6) by simp
        have "cred_of i k' = (cr_tab k4 ! m)\<lparr>cr_groups := take nn (cr_groups (cr_tab k4 ! m)) @ replicate (20 - nn) NOGROUP\<rparr>"
          using ml u' by (simp add: cred_of_def k'_def upd_p_def)
        then have cr: "cr_ruid (cred_of i k') = cr_ruid (cred_of i k)" "cr_uid (cred_of i k') = cr_uid (cred_of i k)"
          "cr_rgid (cred_of i k') = cr_rgid (cred_of i k)" "cr_gid (cred_of i k') = cr_gid (cred_of i k)"
          "cr_groups (cred_of i k') = new @ replicate (20 - nn) NOGROUP"
          using b4 e(7) nn(2) by (simp_all add: body_eq cred_of_def c_def)
        have "set (takeWhile (\<lambda>g. g \<noteq> NOGROUP) (take NGROUPS (cr_groups (cred_of i k')))) \<subseteq> set new"
          using cr(5) nn(2,3) by (auto dest!: set_takeWhileD)
        moreover have "set new \<subseteq> gids i k2 \<or> 0 \<in> uids i k2" using setgroups_check_facts [OF k3] True nn(2) by simp
        moreover have "cred_of i k2 = cred_of i k" "proc_at i k2 = proc_at i k" "cu_sgid (users k2 i) = cu_sgid (users k i)"
          using e(3,4,5,8) co i cm [symmetric] by (simp_all add: k2_def fail_def cred_of_def proc_at_def cred_ok_def c_def)
        then have "gids i k2 = gids i k" "uids i k2 = uids i k" by (simp_all add: gids_def uids_def)
        moreover have "uids i k' = uids i k" using cr s' by (simp add: uids_def)
        moreover have "cu_sgid (users k' i) = cu_sgid (users k i)" using u' q(6) e(4) by simp
        ultimately show ?thesis using cr by (auto simp: no_gain_def gids_def)
      qed
      ultimately show ?thesis using r co' t' by (auto simp: sys_ok_def)
    qed
  qed
qed

section \<open>setpgrp2\<close>

text \<open>A process group lies in one session, which is also that of the process it is named after.\<close>

definition groups_ok :: "nat set \<Rightarrow> kstate \<Rightarrow> bool" where
  "groups_ok A k \<longleftrightarrow> (\<forall>p \<in> A. \<forall>q \<in> A.
     pr_pgrp (proc_at p k) = pr_pgrp (proc_at q k) \<or> pr_pid (proc_at p k) = pr_pgrp (proc_at q k) \<longrightarrow>
     pr_sid (proc_at p k) = pr_sid (proc_at q k))"

lemma groups_ok_same: "same_groups k k' \<Longrightarrow> groups_ok A k' = groups_ok A k"
  by (simp add: groups_ok_def same_groups_def)

lemma group_in_session_iff:
  assumes "table_ok A (kp k)"
  shows "group_in_session g i k = Ret (\<exists>q \<in> A. pr_pgrp (proc_at q k) = g \<and> pr_sid (proc_at q k) = pr_sid (proc_at i k))"
proof -
  let ?s = "pr_sid (proc_at i k)"
  obtain C where C: "sidc.chains (kp k) C" "\<forall>h p. p \<in> set (C h) \<longleftrightarrow> p \<in> A \<and> SIDHASH (kp k) (pr_sid (procs (kp k) ! p)) = h"
    using assms by (auto simp: table_ok_def sid_ok_def)
  have A: "0 \<notin> A" using assms by (auto simp: table_ok_def)
  let ?hit = "\<lambda>q. pr_pgrp (proc_at q k) = g \<and> pr_sid (proc_at q k) = ?s" and ?c = "C (SIDHASH (kp k) ?s)"
  have r: "group_in_session g i k = Ret ((case find ?hit ?c of None \<Rightarrow> 0 | Some x \<Rightarrow> x) \<noteq> 0)"
    using sidc.search [OF C(1)] by (simp add: group_in_session_def Let_def)
  have m: "q \<in> set ?c \<and> ?hit q \<longleftrightarrow> q \<in> A \<and> ?hit q" for q using C(2) by (auto simp: proc_at_def)
  show ?thesis
  proof (cases "find ?hit ?c")
    case None
    then have "\<not> (\<exists>q \<in> A. ?hit q)" using m by (auto simp: find_None_iff)
    then show ?thesis using r None by simp
  next
    case (Some x)
    then have "x \<in> set ?c" "?hit x" by (auto simp: find_Some_iff)
    then have x: "x \<in> A" "?hit x" using m by blast+
    then have "x \<noteq> 0" using A by metis
    then show ?thesis using r Some x by auto
  qed
qed

lemma gchange_groups:
  assumes ok: "sys_ok A f k" "groups_ok A k" and p: "p \<in> A" and g: "0 < g" "g < MAXPID"
    and why: "pr_pid (proc_at p k) = g \<or>
      (\<exists>q \<in> A. pr_pgrp (proc_at q k) = g \<and> pr_sid (proc_at q k) = pr_sid (proc_at p k))"
  shows "\<exists>k'. setpgrp2_change g p i k = Ret k' \<and> sys_ok A f k' \<and> groups_ok A k' \<and> users k' = users k \<and> cr_tab k' = cr_tab k \<and>
    (\<forall>q. uids q k' = uids q k \<and> gids q k' = gids q k \<and>
      pr_pgrp (proc_at q k') = (if q = p then g else pr_pgrp (proc_at q k)) \<and> pr_sid (proc_at q k') = pr_sid (proc_at q k) \<and>
      pr_pid (proc_at q k') = pr_pid (proc_at q k))"
proof -
  have t: "table_ok A (kp k)" and co: "cred_ok A f k" using ok(1) by (simp_all add: sys_ok_def)
  have "to_s16 g = g" using g by (intro to_s16_id) simp_all
  then obtain kq where kq: "gchange p g (kp k) = Ret (True, kq)" "table_ok A kq"
    "\<forall>q. procs kq ! q = (procs (kp k) ! q)\<lparr>pr_pgrp := (if q = p then g else pr_pgrp (procs (kp k) ! q)), pr_pgrphx := grpx_of kq q\<rparr>"
    using gchange_effect [OF t p] by blast
  define k' where "k' = k\<lparr>kp := kq\<rparr>"
  have f: "pr_pgrp (proc_at q k') = (if q = p then g else pr_pgrp (proc_at q k))" "pr_sid (proc_at q k') = pr_sid (proc_at q k)"
    "pr_pid (proc_at q k') = pr_pid (proc_at q k)" "pr_suid (proc_at q k') = pr_suid (proc_at q k)" "cred_of q k' = cred_of q k" for q
    using kq(3) by (simp_all add: k'_def proc_at_def cred_of_def)
  have inj: "x = p" if "x \<in> A" "pr_pid (proc_at x k) = pr_pid (proc_at p k)" for x
    using t p that by (auto simp: table_ok_def proc_at_def dest: inj_onD)
  have run: "setpgrp2_change g p i k = Ret k'" using kq(1) by (simp add: setpgrp2_change_def k'_def)
  have new: "pr_sid (proc_at x k) = pr_sid (proc_at p k)"
    if x: "x \<in> A" and e: "pr_pgrp (proc_at x k) = g \<or> pr_pid (proc_at x k) = g" for x
    using why
  proof
    assume g0: "pr_pid (proc_at p k) = g"
    show ?thesis
    proof (cases "pr_pid (proc_at x k) = g")
      case True
      then show ?thesis using inj [OF x] g0 by simp
    next
      case False
      then show ?thesis using e ok(2) p x g0 unfolding groups_ok_def by metis
    qed
  next
    assume "\<exists>q \<in> A. pr_pgrp (proc_at q k) = g \<and> pr_sid (proc_at q k) = pr_sid (proc_at p k)"
    then show ?thesis using e ok(2) x unfolding groups_ok_def by metis
  qed
  have own: "pr_sid (proc_at x k) = pr_sid (proc_at p k)" if "x \<in> A" "pr_pgrp (proc_at x k) = pr_pid (proc_at p k)" for x
    using that ok(2) p unfolding groups_ok_def by metis
  have "groups_ok A k'"
    unfolding groups_ok_def f
  proof (intro ballI impI)
    fix x y
    assume x: "x \<in> A" and y: "y \<in> A"
      and e: "(if x = p then g else pr_pgrp (proc_at x k)) = (if y = p then g else pr_pgrp (proc_at y k)) \<or>
        pr_pid (proc_at x k) = (if y = p then g else pr_pgrp (proc_at y k))"
    show "pr_sid (proc_at x k) = pr_sid (proc_at y k)"
    proof (cases "y = p")
      case True
      then show ?thesis using e new [OF x] by (cases "x = p") auto
    next
      case yp: False
      show ?thesis
      proof (cases "x = p")
        case True
        then show ?thesis using e yp new [OF y] own [OF y] by auto
      next
        case False
        then have "pr_pgrp (proc_at x k) = pr_pgrp (proc_at y k) \<or> pr_pid (proc_at x k) = pr_pgrp (proc_at y k)"
          using e yp by simp
        then show ?thesis by (rule ok(2) [unfolded groups_ok_def, rule_format, OF x y])
      qed
    qed
  qed
  moreover have "sys_ok A f k'" using kq(2) co by (simp add: sys_ok_def k'_def cred_ok_def refs_def)
  moreover have "users k' = users k" "cr_tab k' = cr_tab k" by (simp_all add: k'_def)
  moreover have "uids q k' = uids q k" "gids q k' = gids q k" for q using f by (simp_all add: uids_def gids_def k'_def)
  ultimately show ?thesis using run f(1-3) by blast
qed

lemma quiet_groups: "quiet i k k' \<Longrightarrow> groups_ok A k' = groups_ok A k"
  using quiet_facts(9) by (simp add: groups_ok_def)

text \<open>
  Every outcome of \<^verbatim>\<open>setpgrp2\<close>: an error, or the group of the caller or of its child in
  the same session is set, to the process's own id or to a group of that session.
\<close>

lemma setpgrp2_effect:
  assumes ok: "sys_ok A f k" "groups_ok A k" and i: "i \<in> A"
  shows "\<exists>k'. setpgrp2 pid0 g0 i k = Ret k' \<and> sys_ok A f k' \<and> groups_ok A k' \<and>
    (quiet i k k' \<or> users k' = users k \<and> cr_tab k' = cr_tab k \<and> (\<forall>q. uids q k' = uids q k \<and> gids q k' = gids q k \<and>
      pr_pid (proc_at q k') = pr_pid (proc_at q k) \<and> pr_sid (proc_at q k') = pr_sid (proc_at q k)))"
proof -
  let ?P = "\<lambda>r. \<exists>k'. r = Ret k' \<and> sys_ok A f k' \<and> groups_ok A k' \<and>
    (quiet i k k' \<or> users k' = users k \<and> cr_tab k' = cr_tab k \<and> (\<forall>q. uids q k' = uids q k \<and> gids q k' = gids q k \<and>
      pr_pid (proc_at q k') = pr_pid (proc_at q k) \<and> pr_sid (proc_at q k') = pr_sid (proc_at q k)))"
  have err: "?P (Ret (fail e i k))" for e
    using quiet_fail [of i k e] quiet_ok(1) quiet_groups ok by blast
  define pid where "pid = (if pid0 = 0 then pr_pid (proc_at i k) else pid0)"
  define g where "g = (if g0 = 0 then pid else g0)"
  have t: "table_ok A (kp k)" using ok(1) by (simp add: sys_ok_def)
  have change: "?P (setpgrp2_change g p i k)" if "p \<in> A" "0 < g" "g < MAXPID"
    "pr_pid (proc_at p k) = g \<or> (\<exists>q \<in> A. pr_pgrp (proc_at q k) = g \<and> pr_sid (proc_at q k) = pr_sid (proc_at p k))" for p
    using gchange_groups [OF ok that, of i] by (elim exE conjE) (intro exI conjI; auto)
  have target: "?P (setpgrp2_target g p i k)" if p: "p \<in> A" "0 < g" "g < MAXPID" "pr_sid (proc_at p k) = pr_sid (proc_at i k)" for p
  proof (cases "pr_sid (proc_at p k) = pr_pid (proc_at p k)")
    case True
    then show ?thesis using err by (simp add: setpgrp2_target_def)
  next
    case False
    show ?thesis
    proof (cases "pr_pid (proc_at p k) = g \<or> (\<exists>q \<in> A. pr_pgrp (proc_at q k) = g \<and> pr_sid (proc_at q k) = pr_sid (proc_at i k))")
      case True
      then have "setpgrp2_target g p i k = setpgrp2_change g p i k"
        using False by (auto simp: setpgrp2_target_def group_in_session_iff [OF t])
      then show ?thesis using change [OF p(1-3)] True p(4) by simp
    next
      case no: False
      then have "setpgrp2_target g p i k = Ret (fail EPERM i k)"
        using False by (auto simp: setpgrp2_target_def group_in_session_iff [OF t])
      then show ?thesis using err by simp
    qed
  qed
  show ?thesis
  proof (cases "g \<le> 0 \<or> g \<ge> MAXPID")
    case True
    then have "setpgrp2 pid0 g0 i k = Ret (fail EINVAL i k)" by (auto simp: setpgrp2_def Let_def pid_def [symmetric] g_def [symmetric])
    then show ?thesis using err by simp
  next
    case g: False
    show ?thesis
    proof (cases "pid = pr_pid (proc_at i k)")
      case True
      then have "setpgrp2 pid0 g0 i k = setpgrp2_target g i i k"
        using g unfolding setpgrp2_def Let_def pid_def [symmetric] g_def [symmetric] by simp
      then show ?thesis using target [OF i] g by simp
    next
      case other: False
      have run: "setpgrp2 pid0 g0 i k = obind (pfind pid (kp k)) (\<lambda>r.
           case r of
             None \<Rightarrow> Ret (fail ESRCH i k)
           | Some p \<Rightarrow>
               if pr_ppid (proc_at p k) \<noteq> pr_pid (proc_at i k) then Ret (fail ESRCH i k)
               else if pr_s2exec (proc_at p k) then Ret (fail EACCES i k)
               else if pr_sid (proc_at p k) \<noteq> pr_sid (proc_at i k) then Ret (fail EPERM i k)
               else setpgrp2_target g p i k)"
        using g other unfolding setpgrp2_def Let_def pid_def [symmetric] g_def [symmetric] by simp
      have "\<exists>r. pfind pid (kp k) = Ret r \<and> (\<forall>p. r = Some p \<longrightarrow> p \<in> A)"
      proof (cases "0 < pid")
        case True
        then obtain r where r: "pfind pid (kp k) = Ret r" using pfind_returns [OF t] by blast
        then show ?thesis using pfind_exact [OF t True, of r] by (auto split: option.splits)
      next
        case neg: False
        have "pid \<noteq> 0" using i t by (auto simp: pid_def table_ok_def proc_at_def split: if_splits)
        then show ?thesis using neg by (simp add: pfind_def)
      qed
      then obtain r where r: "pfind pid (kp k) = Ret r" "\<forall>p. r = Some p \<longrightarrow> p \<in> A" by blast
      show ?thesis
      proof (cases r)
        case None
        then show ?thesis using run r err by simp
      next
        case (Some p)
        then show ?thesis using run r err target [of p] g by simp
      qed
    qed
  qed
qed

section \<open>Runs\<close>

text \<open>The copy from the user of a group list brings in as many groups as were asked for.\<close>

definition copy_ok :: "int \<Rightarrow> int list option \<Rightarrow> bool" where
  "copy_ok n copied \<longleftrightarrow> (copied \<noteq> None \<longrightarrow> 0 \<le> n \<and> length (the copied) = nat n)"

text \<open>Calls of any live process, and references taken and given back by open files.\<close>

inductive prot_run :: "nat set \<Rightarrow> kstate \<Rightarrow> (nat \<Rightarrow> nat) \<Rightarrow> kstate \<Rightarrow> (nat \<Rightarrow> nat) \<Rightarrow> bool" for A k0 f0 where
  prot_start: "prot_run A k0 f0 k0 f0"
| prot_uid: "prot_run A k0 f0 k f \<Longrightarrow> i \<in> A \<Longrightarrow> setresuid r e s i k = Ret k' \<Longrightarrow> prot_run A k0 f0 k' f"
| prot_gid: "prot_run A k0 f0 k f \<Longrightarrow> i \<in> A \<Longrightarrow> setresgid r e s i k = Ret k' \<Longrightarrow> prot_run A k0 f0 k' f"
| prot_groups: "prot_run A k0 f0 k f \<Longrightarrow> i \<in> A \<Longrightarrow> copy_ok n gs \<Longrightarrow> setgroups n gs i k = Ret k' \<Longrightarrow> prot_run A k0 f0 k' f"
| prot_pgrp: "prot_run A k0 f0 k f \<Longrightarrow> i \<in> A \<Longrightarrow> setpgrp2 p g i k = Ret k' \<Longrightarrow> prot_run A k0 f0 k' f"
| prot_hold: "prot_run A k0 f0 k f \<Longrightarrow> 0 < refs A f k c \<Longrightarrow> refs A f k c < 32767 \<Longrightarrow>
    prot_run A k0 f0 (crhold c k) (f(c := Suc (f c)))"
| prot_drop: "prot_run A k0 f0 k f \<Longrightarrow> 0 < f c \<Longrightarrow> crfree c k = Ret k' \<Longrightarrow> prot_run A k0 f0 k' (f(c := f c - 1))"

lemma isolated_ids:
  assumes "isolated A f i k k'" and "no_gain i k k'" and "j \<in> A" and "0 \<notin> uids j k"
  shows "uids j k' \<subseteq> uids j k \<and> gids j k' \<subseteq> gids j k"
proof (cases "j = i")
  case True
  then show ?thesis using assms(2,4) by (simp add: no_gain_def)
next
  case False
  then show ?thesis using assms(1,3) by (simp add: isolated_def uids_def gids_def body_eq)
qed

text \<open>One step of a run, in the terms the properties use.\<close>

lemma refs_in_table:
  assumes "cred_ok A f k" and "0 < refs A f k c"
  shows "c < length (cr_tab k)"
proof (cases "0 < f c")
  case True
  then show ?thesis by (rule held_in_table [OF assms(1)])
next
  case False
  have "finite A" using assms(1) by (simp add: cred_ok_def)
  then have "\<exists>i \<in> A. cu_cred (users k i) = c" using assms(2) False refs_0 [of A f k c] by auto
  then show ?thesis using assms(1) by (auto simp: cred_ok_def)
qed

lemma hold_drop:
  assumes "cred_ok A f k" and "(0 < refs A f k c \<and> refs A f k c < 32767 \<and> k' = crhold c k \<and> f' = f(c := Suc (f c))) \<or>
      (0 < f c \<and> crfree c k = Ret k' \<and> f' = f(c := f c - 1))"
  shows "cred_ok A f' k'" and "kp k' = kp k" and "users k' = users k" and "body (cr_tab k' ! d) = body (cr_tab k ! d)"
proof -
  have "cred_ok A f' k' \<and> kp k' = kp k \<and> users k' = users k \<and> (\<forall>d. body (cr_tab k' ! d) = body (cr_tab k ! d))"
    using assms(2)
  proof
    assume h: "0 < refs A f k c \<and> refs A f k c < 32767 \<and> k' = crhold c k \<and> f' = f(c := Suc (f c))"
    then show ?thesis using crhold_ok [OF assms(1), of c] refs_in_table [OF assms(1), of c] by (simp add: crhold_def body_def)
  next
    assume "0 < f c \<and> crfree c k = Ret k' \<and> f' = f(c := f c - 1)"
    then show ?thesis using crfree_ok [OF assms(1), of c] by auto
  qed
  then show "cred_ok A f' k'" "kp k' = kp k" "users k' = users k" "body (cr_tab k' ! d) = body (cr_tab k ! d)" by blast+
qed

lemma copied_ok: "copy_ok n gs \<Longrightarrow> gs \<noteq> None \<longrightarrow> 0 \<le> n \<and> length (the gs) = nat n"
  by (simp add: copy_ok_def)

lemma prot_run_inv:
  assumes "prot_run A k0 f0 k f" and "sys_ok A f0 k0" and "groups_ok A k0"
  shows "sys_ok A f k \<and> groups_ok A k \<and>
    (\<forall>j \<in> A. 0 \<notin> uids j k0 \<longrightarrow> uids j k \<subseteq> uids j k0 \<and> gids j k \<subseteq> gids j k0)"
  using assms
proof (induction rule: prot_run.induct)
  case prot_start
  then show ?case by simp
next
  case (prot_uid k f i r e s k')
  then have "sys_ok A f k" by simp
  with prot_uid have "sys_ok A f k'" "isolated A f i k k'" "no_gain i k k'"
    using setresuid_effect [of A f k i r e s] by auto
  then show ?case using prot_uid isolated_ids [of A f i k k'] groups_ok_same [of k k' A] unfolding isolated_def by blast
next
  case (prot_gid k f i r e s k')
  then have "sys_ok A f k" by simp
  with prot_gid have "sys_ok A f k'" "isolated A f i k k'" "no_gain i k k'"
    using setresgid_effect [of A f k i r e s] by auto
  then show ?case using prot_gid isolated_ids [of A f i k k'] groups_ok_same [of k k' A] unfolding isolated_def by blast
next
  case (prot_groups k f i n gs k')
  then have "sys_ok A f k" by simp
  with prot_groups have "sys_ok A f k'" "isolated A f i k k'" "no_gain i k k'"
    using setgroups_effect [of A f k i gs n] copied_ok by auto
  then show ?case using prot_groups isolated_ids [of A f i k k'] groups_ok_same [of k k' A] unfolding isolated_def by blast
next
  case (prot_pgrp k f i p g k')
  have IH: "sys_ok A f k" "groups_ok A k" "\<forall>j \<in> A. 0 \<notin> uids j k0 \<longrightarrow> uids j k \<subseteq> uids j k0 \<and> gids j k \<subseteq> gids j k0"
    using prot_pgrp by blast+
  obtain k2 where k2: "setpgrp2 p g i k = Ret k2" "sys_ok A f k2" "groups_ok A k2"
    "quiet i k k2 \<or> users k2 = users k \<and> cr_tab k2 = cr_tab k \<and> (\<forall>q. uids q k2 = uids q k \<and> gids q k2 = gids q k \<and>
      pr_pid (proc_at q k2) = pr_pid (proc_at q k) \<and> pr_sid (proc_at q k2) = pr_sid (proc_at q k))"
    using setpgrp2_effect [OF IH(1,2) prot_pgrp.hyps(2), of p g] by (elim exE conjE)
  have "k2 = k'" using k2(1) prot_pgrp.hyps(3) by simp
  moreover have "uids q k2 = uids q k \<and> gids q k2 = gids q k" for q
  proof (cases "quiet i k k2")
    case True
    then show ?thesis using quiet_facts(10,11) [OF True, of q] by simp
  next
    case False
    then show ?thesis using k2(4) by blast
  qed
  ultimately show ?case using k2(2,3) IH(3) by simp
next
  case (prot_hold k f c)
  have IH: "sys_ok A f k" "groups_ok A k" "\<forall>j \<in> A. 0 \<notin> uids j k0 \<longrightarrow> uids j k \<subseteq> uids j k0 \<and> gids j k \<subseteq> gids j k0"
    using prot_hold by blast+
  note e = hold_drop [of A f k c "crhold c k" "f(c := Suc (f c))"]
  have d: "cred_ok A (f(c := Suc (f c))) (crhold c k)" "kp (crhold c k) = kp k" "users (crhold c k) = users k"
    "\<And>d. body (cr_tab (crhold c k) ! d) = body (cr_tab k ! d)"
    using e IH(1) prot_hold.hyps(2,3) by (simp_all add: sys_ok_def)
  have u: "uids j (crhold c k) = uids j k" "gids j (crhold c k) = gids j k" "proc_at j (crhold c k) = proc_at j k" for j
    using d(2,3) d(4) [of "cu_cred (users k j)"] by (simp_all add: uids_def gids_def proc_at_def cred_of_def body_eq)
  then have "groups_ok A (crhold c k) = groups_ok A k" by (intro groups_ok_same) (simp add: same_groups_def)
  then show ?case using IH d(1) [unfolded fun_upd_def] d(2) u(1,2) by (simp add: sys_ok_def)
next
  case (prot_drop k f c k')
  have IH: "sys_ok A f k" "groups_ok A k" "\<forall>j \<in> A. 0 \<notin> uids j k0 \<longrightarrow> uids j k \<subseteq> uids j k0 \<and> gids j k \<subseteq> gids j k0"
    using prot_drop by blast+
  note e = hold_drop [of A f k c k' "f(c := f c - 1)"]
  have d: "cred_ok A (f(c := f c - 1)) k'" "kp k' = kp k" "users k' = users k" "\<And>d. body (cr_tab k' ! d) = body (cr_tab k ! d)"
    using e IH(1) prot_drop.hyps(2,3) by (simp_all add: sys_ok_def)
  have u: "uids j k' = uids j k" "gids j k' = gids j k" "proc_at j k' = proc_at j k" for j
    using d(2,3) d(4) [of "cu_cred (users k j)"] by (simp_all add: uids_def gids_def proc_at_def cred_of_def body_eq)
  then have "groups_ok A k' = groups_ok A k" by (intro groups_ok_same) (simp add: same_groups_def)
  then show ?case using IH d(1) [unfolded fun_upd_def One_nat_def] d(2) u(1,2) by (simp add: sys_ok_def)
qed

section \<open>An example\<close>

text \<open>Two processes of one session sharing a credential structure, one a child of the other.\<close>

definition ex_sys :: kstate where
  "ex_sys = \<lparr>kp = ex_ptab,
     cr_tab = [\<lparr>cr_uid = 102, cr_gid = 20, cr_groups = 20 # 30 # replicate 18 NOGROUP, cr_ruid = 101, cr_rgid = 21, cr_ref = 2\<rparr>],
     crfreelist = [], cractive = 1, users = (\<lambda>i. \<lparr>cu_cred = 0, cu_sgid = 20, cu_error = E_OK, cu_rval1 = 0, cu_rval2 = 0, cu_asu = False\<rparr>)\<rparr>"

lemma ex_sys_ok: "sys_ok {1, 2} (\<lambda>c. 0) ex_sys" and ex_sys_groups: "groups_ok {1, 2} ex_sys"
proof -
  have "table_ok {1, 2} (kp ex_sys)" using ex_ptab_ok by (simp add: ex_sys_def)
  moreover have "{i \<in> {1, 2}. cu_cred (users ex_sys i) = c} = (if c = 0 then {1, 2 :: nat} else {})" for c by (auto simp: ex_sys_def)
  then have "refs {1, 2} (\<lambda>c. 0) ex_sys c = (if c = 0 then 2 else 0)" for c by (simp add: refs_def)
  then have "cred_ok {1, 2} (\<lambda>c. 0) ex_sys" by (simp add: cred_ok_def ex_sys_def)
  ultimately show "sys_ok {1, 2} (\<lambda>c. 0) ex_sys" by (simp add: sys_ok_def)
  show "groups_ok {1, 2} ex_sys" by (simp add: groups_ok_def proc_at_def ex_sys_def ex_ptab_def ex_proc_def)
qed

lemma ex_sys_ids: "uids 1 ex_sys = {101, 102}" "gids 1 ex_sys = {20, 21, 30}" "uids 2 ex_sys = {101, 102}"
  by (auto simp: uids_def gids_def cred_of_def proc_at_def ex_sys_def ex_ptab_def ex_proc_def)

lemma ex_sys_run: "\<exists>k'. setresuid (-1) 101 (-1) 1 ex_sys = Ret k' \<and> prot_run {1, 2} ex_sys (\<lambda>c. 0) k' (\<lambda>c. 0) \<and>
    cr_uid (cred_of 1 k') = 101 \<and> cr_uid (cred_of 2 k') = 102"
proof -
  let ?k = "ex_sys"
  have i: "(1::nat) \<in> {1, 2}" by simp
  obtain k' where k': "setresuid_do 101 101 102 1 ?k = Ret k'" "isolated {1, 2} (\<lambda>c. 0) 1 ?k k'" "cr_uid (cred_of 1 k') = 101"
    using setresuid_do_effect [OF ex_sys_ok i, of 101 101 102] by blast
  have c: "cr_ruid (cred_of 1 ?k) = 101" "cr_uid (cred_of 1 ?k) = 102" "pr_suid (proc_at 1 ?k) = 102" "cr_uid (cred_of 2 ?k) = 102"
    by (simp_all add: cred_of_def proc_at_def ex_sys_def ex_ptab_def ex_proc_def)
  have "setresuid (-1) 101 (-1) 1 ?k = Ret k'"
    using k'(1) c by (simp add: setresuid_def bad_uid_def id_allowed_def Let_def)
  moreover have "cr_uid (cred_of 2 k') = 102" using k'(2) c(4) by (simp add: isolated_def body_eq)
  ultimately show ?thesis using prot_uid [OF prot_start i] k'(3) by blast
qed

section \<open>Properties\<close>

lemma prot_reachable_facts:
  assumes "prot_run A k0 f0 k f" and "sys_ok A f0 k0" and "groups_ok A k0" and "i \<in> A"
  shows "table_ok A (kp k)" and "cred_ok A f k" and "groups_ok A k"
    and "\<exists>k'. setresuid r e s i k = Ret k'" and "\<exists>k'. setresgid r e s i k = Ret k'"
    and "copy_ok n gs \<Longrightarrow> \<exists>k'. setgroups n gs i k = Ret k'" and "\<exists>k'. setpgrp2 p g i k = Ret k'"
    and "0 < f c \<Longrightarrow> \<exists>k'. crfree c k = Ret k'"
proof -
  have ok: "sys_ok A f k" "groups_ok A k" using prot_run_inv [OF assms(1-3)] by blast+
  show "table_ok A (kp k)" "cred_ok A f k" "groups_ok A k" using ok by (simp_all add: sys_ok_def)
  show "\<exists>k'. setresuid r e s i k = Ret k'" using setresuid_effect [OF ok(1) assms(4)] by blast
  show "\<exists>k'. setresgid r e s i k = Ret k'" using setresgid_effect [OF ok(1) assms(4)] by blast
  show "\<exists>k'. setgroups n gs i k = Ret k'" if "copy_ok n gs"
    using setgroups_effect [OF ok(1) assms(4) copied_ok [OF that]] by blast
  show "\<exists>k'. setpgrp2 p g i k = Ret k'" using setpgrp2_effect [OF ok assms(4)] by blast
  show "\<exists>k'. crfree c k = Ret k'" if "0 < f c" using crfree_ok [OF \<open>cred_ok A f k\<close> that] by blast
qed

text \<open>
  C25. Whatever the processes do with their ids, groups and process groups and whatever
  files they open and close, every live process stays in the right hash chains, every
  credential structure's count is the number of its holders and it is free exactly when
  that is zero, a process group never spans two sessions, and no call panics.
\<close>

theorem prot_reachable_safe:
  assumes "prot_run A k0 f0 k f" and "sys_ok A f0 k0" and "groups_ok A k0" and "i \<in> A"
  shows "table_ok A (kp k) \<and> cred_ok A f k \<and> groups_ok A k \<and> (\<exists>k'. setresuid r e s i k = Ret k') \<and>
    (\<exists>k'. setresgid r e s i k = Ret k') \<and> (copy_ok n gs \<longrightarrow> (\<exists>k'. setgroups n gs i k = Ret k')) \<and>
    (\<exists>k'. setpgrp2 p g i k = Ret k') \<and> (0 < f c \<longrightarrow> (\<exists>k'. crfree c k = Ret k'))"
  by (intro conjI impI; (rule prot_reachable_facts [OF assms]; assumption?))

theorem prot_reachable_safe_witness:
  "\<exists>k k2. setresuid (-1) 101 (-1) 1 ex_sys = Ret k \<and> cred_ok {1, 2} (\<lambda>c. 0) k \<and> groups_ok {1, 2} k \<and>
     setpgrp2 8 0 1 k = Ret k2"
proof -
  obtain k where k: "setresuid (-1) 101 (-1) 1 ex_sys = Ret k" "prot_run {1, 2} ex_sys (\<lambda>c. 0) k (\<lambda>c. 0)"
    using ex_sys_run by blast
  have i: "(1::nat) \<in> {1, 2}" by simp
  show ?thesis using k(1) prot_reachable_safe [OF k(2) ex_sys_ok ex_sys_groups i, where p = 8 and g = 0] by blast
qed

text \<open>
  C26. A process none of whose user ids is the super-user's never gains an id: after any
  run its real, effective and saved user ids, and every group it can act under, are among
  those it began with.
\<close>

theorem ids_never_grow:
  assumes "prot_run A k0 f0 k f" and "sys_ok A f0 k0" and "groups_ok A k0" and "i \<in> A" and "0 \<notin> uids i k0"
  shows "uids i k \<subseteq> uids i k0 \<and> gids i k \<subseteq> gids i k0"
  using prot_run_inv [OF assms(1-3)] assms(4,5) by blast

theorem ids_never_grow_witness:
  "\<exists>k. setresuid (-1) 101 (-1) 1 ex_sys = Ret k \<and> uids 1 k \<subseteq> {101, 102} \<and> gids 1 k \<subseteq> {20, 21, 30}"
proof -
  obtain k where k: "setresuid (-1) 101 (-1) 1 ex_sys = Ret k" "prot_run {1, 2} ex_sys (\<lambda>c. 0) k (\<lambda>c. 0)"
    using ex_sys_run by blast
  have "(1::nat) \<in> {1, 2}" by simp
  moreover have "0 \<notin> uids 1 ex_sys" unfolding ex_sys_ids by simp
  note r = ids_never_grow [OF k(2) ex_sys_ok ex_sys_groups calculation this]
  from r show ?thesis using k(1) ex_sys_ids by auto
qed

text \<open>
  C27. Credentials are shared copy-on-write: a call that changes the caller's ids leaves
  the identity of every other process and the contents of every structure that an open
  file holds as they were, even those the caller shared.
\<close>

theorem ids_copy_on_write:
  assumes "prot_run A k0 f0 k f" and "sys_ok A f0 k0" and "groups_ok A k0" and "i \<in> A"
    and "setresuid r e s i k = Ret k' \<or> setresgid r e s i k = Ret k' \<or> (copy_ok n gs \<and> setgroups n gs i k = Ret k')"
  shows "(\<forall>j \<in> A. j \<noteq> i \<longrightarrow> body (cred_of j k') = body (cred_of j k) \<and> uids j k' = uids j k \<and> gids j k' = gids j k) \<and>
    (\<forall>c. 0 < f c \<longrightarrow> body (cr_tab k' ! c) = body (cr_tab k ! c))"
proof -
  have ok: "sys_ok A f k" using prot_run_inv [OF assms(1-3)] by blast
  have "isolated A f i k k'"
    using assms(5)
  proof (elim disjE conjE)
    assume "setresuid r e s i k = Ret k'"
    then show ?thesis using setresuid_effect [OF ok assms(4), of r e s] by auto
  next
    assume "setresgid r e s i k = Ret k'"
    then show ?thesis using setresgid_effect [OF ok assms(4), of r e s] by auto
  next
    assume g: "copy_ok n gs" "setgroups n gs i k = Ret k'"
    then show ?thesis using setgroups_effect [OF ok assms(4) copied_ok [OF g(1)]] by auto
  qed
  then show ?thesis
    by (auto simp: isolated_def uids_def gids_def body_eq)
qed

theorem ids_copy_on_write_witness:
  "\<exists>k'. setresuid (-1) 101 (-1) 1 ex_sys = Ret k' \<and> cr_uid (cred_of 1 k') = 101 \<and> uids 2 k' = {101, 102}"
proof -
  obtain k' where k': "setresuid (-1) 101 (-1) 1 ex_sys = Ret k'" "cr_uid (cred_of 1 k') = 101"
    using ex_sys_run by blast
  have "(1::nat) \<in> {1, 2}" by simp
  from ids_copy_on_write [OF prot_start ex_sys_ok ex_sys_groups this disjI1 [OF k'(1)]]
  have "uids 2 k' = uids 2 ex_sys" by simp
  then show ?thesis using k' ex_sys_ids by blast
qed

end
