(* ===== verification/Lockf.thy ===== *)
theory Lockf
  imports Ptr_List Kproc
begin

unbundle bit_operations_syntax

text \<open>
  Record locks, \<^verbatim>\<open>ufs/ufs_lockf.c\<close> with the calls \<^verbatim>\<open>ufs_lockf\<close> and \<^verbatim>\<open>ufs_lockctl\<close> of
  \<^verbatim>\<open>ufs/ufs_vnops.c\<close> and the range checks of \<^verbatim>\<open>lockf\<close> and \<^verbatim>\<open>fcntl\<close>. The locks of an
  inode are a list through the table \<^verbatim>\<open>locklist\<close>, whose entry 0 heads the list of free
  entries. An entry is an index; \<open>None\<close> as a predecessor is the header in the inode. The
  kernel is not in a cluster: \<^verbatim>\<open>u.u_nsp\<close> is null and no entry is \<^verbatim>\<open>L_REMOTE\<close>. The three flags
  left, \<^verbatim>\<open>IWANT\<close>, \<^verbatim>\<open>ILBUSY\<close> and \<^verbatim>\<open>NFS_WANTS_LOCK\<close>, are fields of their own.
\<close>

section \<open>Data\<close>

abbreviation (input) MAX_LOCK_SIZE :: int where "MAX_LOCK_SIZE \<equiv> 0x7fffffff"
abbreviation (input) F_ULOCK :: int where "F_ULOCK \<equiv> 0"
abbreviation (input) F_LOCK :: int where "F_LOCK \<equiv> 1"
abbreviation (input) F_TLOCK :: int where "F_TLOCK \<equiv> 2"
abbreviation (input) F_TEST :: int where "F_TEST \<equiv> 3"
abbreviation (input) F_GETLK :: int where "F_GETLK \<equiv> 5"
abbreviation (input) F_SETLK :: int where "F_SETLK \<equiv> 6"
abbreviation (input) F_SETLKW :: int where "F_SETLKW \<equiv> 7"
abbreviation (input) F_SETLK_NFSCALLBACK :: int where "F_SETLK_NFSCALLBACK \<equiv> -1"
abbreviation (input) F_RDLCK :: int where "F_RDLCK \<equiv> 1"
abbreviation (input) F_WRLCK :: int where "F_WRLCK \<equiv> 2"
abbreviation (input) F_UNLCK :: int where "F_UNLCK \<equiv> 3"

datatype lockf_type = L_LOCKF | L_READ | L_WRITE | L_COPEN | L_FCNTL

record lockent =
  ll_link :: "nat option"
  ll_count :: int
  ll_iwant :: bool
  ll_busy :: bool           \<comment> \<open>\<^verbatim>\<open>ILBUSY\<close>\<close>
  ll_nfs :: bool            \<comment> \<open>\<^verbatim>\<open>NFS_WANTS_LOCK\<close>\<close>
  ll_proc :: "nat option"   \<comment> \<open>index into \<^verbatim>\<open>proc\<close>\<close>
  ll_start :: int
  ll_end :: int
  ll_type :: int
  ll_ip :: "nat option"

record flock =
  l_type :: int
  l_whence :: int
  l_start :: int
  l_len :: int
  l_pid :: int

text \<open>
  The last three fields record the calls of \<^verbatim>\<open>wakeup\<close>, of the NFS lock manager and of
  \<^verbatim>\<open>checksync\<close>. \<open>i_remote\<close> is \<^verbatim>\<open>remoteip\<close>.
\<close>

record lkstate =
  locklist :: "lockent list"
  i_locklist :: "nat \<Rightarrow> nat option"
  i_mode :: "nat \<Rightarrow> 16 word"
  i_remote :: "nat \<Rightarrow> bool"
  p_dlchan :: "nat \<Rightarrow> nat option"
  ptab :: proctab
  woken :: "nat list"
  nfs_informed :: "(nat option \<times> int \<times> int \<times> int) list"
  synced :: "nat list"

abbreviation ent :: "lkstate \<Rightarrow> nat \<Rightarrow> lockent" where
  "ent st c \<equiv> locklist st ! c"

definition upd_ll :: "nat \<Rightarrow> (lockent \<Rightarrow> lockent) \<Rightarrow> lkstate \<Rightarrow> lkstate" where
  "upd_ll c f st = st\<lparr>locklist := (locklist st)[c := f (ent st c)]\<rparr>"

text \<open>The link after a predecessor in the list of inode \<open>ip\<close>.\<close>

definition get_link :: "nat \<Rightarrow> nat option \<Rightarrow> lkstate \<Rightarrow> nat option" where
  "get_link ip cl st = (case cl of None \<Rightarrow> i_locklist st ip | Some c \<Rightarrow> ll_link (ent st c))"

definition set_link :: "nat \<Rightarrow> nat option \<Rightarrow> nat option \<Rightarrow> lkstate \<Rightarrow> lkstate" where
  "set_link ip cl v st =
     (case cl of None \<Rightarrow> st\<lparr>i_locklist := (i_locklist st)(ip := v)\<rparr>
      | Some c \<Rightarrow> upd_ll c (\<lambda>e. e\<lparr>ll_link := v\<rparr>) st)"

definition pid_at :: "lkstate \<Rightarrow> nat \<Rightarrow> int" where
  "pid_at st p = pr_pid (procs (ptab st) ! p)"

definition is_my_lock :: "nat \<Rightarrow> nat \<Rightarrow> lkstate \<Rightarrow> bool" where
  "is_my_lock p c st \<longleftrightarrow> ll_proc (ent st c) = Some p"

section \<open>Lock structures\<close>

definition lockinc :: "nat \<Rightarrow> lkstate \<Rightarrow> lkstate" where
  "lockinc c = upd_ll c (\<lambda>e. e\<lparr>ll_count := ll_count e + 1\<rparr>)"

definition lockdec :: "nat \<Rightarrow> lkstate \<Rightarrow> lkstate" where
  "lockdec c st =
     (let st1 = upd_ll c (\<lambda>e. e\<lparr>ll_count := ll_count e - 1\<rparr>) st
      in if ll_count (ent st1 c) = 0
         then (let st2 = upd_ll c (\<lambda>e. e\<lparr>ll_link := ll_link (ent st1 0)\<rparr>) st1
               in upd_ll 0 (\<lambda>e. e\<lparr>ll_link := Some c\<rparr>) st2)
         else st1)"

text \<open>The owner given to the lock manager is \<^verbatim>\<open>ll_proc->p_pid\<close>; a lock with the flag has an owner.\<close>

definition check_lock_sleep :: "nat \<Rightarrow> lkstate \<Rightarrow> lkstate" where
  "check_lock_sleep c st =
     (let st1 = (if ll_iwant (ent st c)
                 then (upd_ll c (\<lambda>e. e\<lparr>ll_iwant := False\<rparr>) st)\<lparr>woken := woken st @ [c]\<rparr> else st);
          e = ent st1 c
      in if ll_nfs e
         then (upd_ll c (\<lambda>e. e\<lparr>ll_nfs := False\<rparr>) st1)\<lparr>nfs_informed := nfs_informed st1 @
                [(ll_ip e, ll_start e, ll_end e, case ll_proc e of Some q \<Rightarrow> pid_at st1 q | None \<Rightarrow> 0)]\<rparr>
         else st1)"

definition lockfree :: "nat \<Rightarrow> lkstate \<Rightarrow> lkstate" where
  "lockfree c st =
     lockdec c (upd_ll c (\<lambda>e. e\<lparr>ll_ip := None, ll_busy := False, ll_proc := Some 0\<rparr>) (check_lock_sleep c st))"

text \<open>The table is linked into the list of free entries at the first use.\<close>

definition lock_init :: "lkstate \<Rightarrow> lkstate" where
  "lock_init st =
     fold (\<lambda>c s. lockfree c (upd_ll c (\<lambda>e. e\<lparr>ll_iwant := False, ll_busy := False, ll_nfs := False, ll_count := 1\<rparr>) s))
       [1..<length (locklist st)] (upd_ll 0 (\<lambda>e. e\<lparr>ll_proc := Some 0\<rparr>) st)"

definition lockalloc :: "lockf_type \<Rightarrow> lkstate \<Rightarrow> (errno + nat) \<times> lkstate" where
  "lockalloc fn st =
     (let st1 = (if ll_proc (ent st 0) = None then lock_init st else st)
      in case ll_link (ent st1 0) of
           None \<Rightarrow> (Inl (if fn = L_LOCKF then EDEADLK else ENOLCK), st1)
         | Some nl \<Rightarrow>
             (let st2 = upd_ll 0 (\<lambda>e. e\<lparr>ll_link := ll_link (ent st1 nl)\<rparr>) st1
              in (Inr nl, upd_ll nl (\<lambda>e. e\<lparr>ll_link := None, ll_count := 1\<rparr>) st2)))"

text \<open>The error is \<open>E_OK\<close> exactly when the C function returns 0.\<close>

definition lockadd :: "nat \<Rightarrow> nat \<Rightarrow> nat option \<Rightarrow> int \<Rightarrow> int \<Rightarrow> lockf_type \<Rightarrow> int \<Rightarrow> lkstate \<Rightarrow> errno \<times> lkstate" where
  "lockadd p ip cl LB UB fn ty st =
     (case lockalloc fn st of
        (Inl e, st1) \<Rightarrow> (e, st1)
      | (Inr nl, st1) \<Rightarrow>
          (let st2 = upd_ll nl (\<lambda>e. e\<lparr>ll_link := get_link ip cl st1\<rparr>) st1;
               st3 = set_link ip cl (Some nl) st2
           in (E_OK, upd_ll nl (\<lambda>e. e\<lparr>ll_proc := Some p, ll_start := LB, ll_end := UB, ll_type := ty,
                 ll_busy := True, ll_ip := Some ip\<rparr>) st3)))"

section \<open>Ranges\<close>

text \<open>The 8's digit and the 1's digit of the region type.\<close>

datatype rpos = BEFORE | START | MIDDLE | END | AFTER

definition find_lock_range :: "lockent \<Rightarrow> int \<Rightarrow> int \<Rightarrow> rpos \<times> rpos" where
  "find_lock_range e LB UB =
     (if LB < ll_start e then BEFORE else if LB = ll_start e then START else if LB < ll_end e then MIDDLE
      else if LB = ll_end e then END else AFTER,
      if UB < ll_start e then BEFORE else if UB = ll_start e then START else if UB < ll_end e then MIDDLE
      else if UB = ll_end e then END else AFTER)"

text \<open>
  \<^verbatim>\<open>compress_lock_list\<close> behind the lock \<open>cl\<close>: \<open>nl\<close> is the last lock of the process that
  was looked at. The first argument counts steps, as in the walks below.
\<close>

fun compress_walk :: "nat \<Rightarrow> nat \<Rightarrow> int \<Rightarrow> int \<Rightarrow> nat \<Rightarrow> nat \<Rightarrow> lkstate \<Rightarrow> lkstate outcome" where
  "compress_walk n p LB UB nl cl st =
     (case ll_link (ent st cl) of
        None \<Rightarrow> Ret st
      | Some c \<Rightarrow>
          (case n of
             0 \<Rightarrow> Fault
           | Suc k \<Rightarrow>
               if is_my_lock p c st \<and> ll_start (ent st c) \<le> UB then
                 (let r = find_lock_range (ent st c) LB UB
                  in if r \<in> {(BEFORE, START), (BEFORE, MIDDLE), (START, MIDDLE)}
                     then compress_walk k p LB UB c c (upd_ll c (\<lambda>e. e\<lparr>ll_start := UB\<rparr>) st)
                     else if r \<in> {(BEFORE, END), (BEFORE, AFTER), (START, END), (START, AFTER)}
                     then (let st1 = lockfree c (upd_ll nl (\<lambda>e. e\<lparr>ll_link := ll_link (ent st c)\<rparr>) st)
                           in if ll_link (ent st1 nl) = None then Ret st1
                              else compress_walk k p LB UB nl nl st1)
                     else Panic ''compress_lock_list'')
               else compress_walk k p LB UB nl c st))"

definition compress_lock_list :: "nat \<Rightarrow> nat \<Rightarrow> int \<Rightarrow> int \<Rightarrow> lkstate \<Rightarrow> lkstate outcome" where
  "compress_lock_list p cl LB UB st = compress_walk (length (locklist st)) p LB UB cl cl st"

section \<open>Adding a lock\<close>

text \<open>
  What the switch of \<^verbatim>\<open>insert_lock\<close> does at a lock \<open>cl\<close> of the process, with \<open>nl\<close> before it:
  return, go on with the loop (\<open>Walk\<close> with the new \<^verbatim>\<open>found_one\<close>), or leave it to compress the
  list behind a lock (\<open>Inserted\<close>).
\<close>

datatype ins_next = Return errno | Walk "nat option" | Inserted nat

text \<open>Inside a lock of another type: its front gets an entry, then the new lock, the old entry keeps the rest.\<close>

definition split_lock :: "nat \<Rightarrow> nat \<Rightarrow> int \<Rightarrow> int \<Rightarrow> lockf_type \<Rightarrow> int \<Rightarrow> nat option \<Rightarrow> nat \<Rightarrow> lkstate \<Rightarrow> ins_next \<times> lkstate" where
  "split_lock p ip LB UB fn ty nl cl st =
     (case lockadd p ip nl (ll_start (ent st cl)) LB fn (ll_type (ent st cl)) st of
        (er, st1) \<Rightarrow>
          if er \<noteq> E_OK then (Return er, st1)
          else (case lockadd p ip (get_link ip nl st1) LB UB fn ty st1 of
                  (er2, st2) \<Rightarrow>
                    if er2 = E_OK then (Return E_OK, upd_ll cl (\<lambda>e. e\<lparr>ll_start := UB\<rparr>) st2)
                    else (case get_link ip nl st2 of
                            Some tmp \<Rightarrow> (Return er2, lockfree tmp (set_link ip nl (Some cl) st2))
                          | None \<Rightarrow> (Return er2, st2))))"

definition insert_case :: "nat \<Rightarrow> nat \<Rightarrow> int \<Rightarrow> int \<Rightarrow> lockf_type \<Rightarrow> int \<Rightarrow> nat option \<Rightarrow> nat option \<Rightarrow> nat \<Rightarrow> lkstate
    \<Rightarrow> ins_next \<times> lkstate" where
  "insert_case p ip LB UB fn ty found nl cl st =
     (let e = ent st cl; same = (ll_type e = ty)
      in case find_lock_range e LB UB of
           (BEFORE, BEFORE) \<Rightarrow> (case lockadd p ip nl LB UB fn ty st of (er, st1) \<Rightarrow> (Return er, st1))
         | (BEFORE, END) \<Rightarrow> (Return E_OK, upd_ll cl (\<lambda>e. e\<lparr>ll_type := ty, ll_start := LB\<rparr>) st)
         | (BEFORE, AFTER) \<Rightarrow> (Inserted cl, upd_ll cl (\<lambda>e. e\<lparr>ll_type := ty, ll_start := LB, ll_end := UB\<rparr>) st)
         | (BEFORE, _) \<Rightarrow>
             if same then (Return E_OK, upd_ll cl (\<lambda>e. e\<lparr>ll_start := LB\<rparr>) st)
             else (case lockadd p ip nl LB UB fn ty st of
                     (er, st1) \<Rightarrow> (Return er, if er = E_OK then upd_ll cl (\<lambda>e. e\<lparr>ll_start := UB\<rparr>) st1 else st1))
         | (START, START) \<Rightarrow> (Return E_OK, upd_ll cl (\<lambda>e. e\<lparr>ll_type := ty\<rparr>) st)
         | (START, MIDDLE) \<Rightarrow>
             if same then (Return E_OK, st)
             else (case lockadd p ip nl LB UB fn ty st of
                     (er, st1) \<Rightarrow> (Return er, if er = E_OK then upd_ll cl (\<lambda>e. e\<lparr>ll_start := UB\<rparr>) st1 else st1))
         | (START, END) \<Rightarrow> (Return E_OK, upd_ll cl (\<lambda>e. e\<lparr>ll_type := ty\<rparr>) st)
         | (START, AFTER) \<Rightarrow> (Inserted cl, upd_ll cl (\<lambda>e. e\<lparr>ll_type := ty, ll_end := UB\<rparr>) st)
         | (MIDDLE, MIDDLE) \<Rightarrow>
             if same then (Return E_OK, st)
             else split_lock p ip LB UB fn ty nl cl st
         | (MIDDLE, END) \<Rightarrow>
             if same then (Return E_OK, st)
             else (case lockadd p ip (Some cl) LB UB fn ty st of
                     (er, st1) \<Rightarrow> (Return er, if er = E_OK then upd_ll cl (\<lambda>e. e\<lparr>ll_end := LB\<rparr>) st1 else st1))
         | (END, END) \<Rightarrow> (Return E_OK, upd_ll cl (\<lambda>e. e\<lparr>ll_type := ty\<rparr>) st)
         | (AFTER, AFTER) \<Rightarrow> (Walk (Some cl), st)
         | (s, AFTER) \<Rightarrow>
             if same then (Inserted cl, upd_ll cl (\<lambda>e. e\<lparr>ll_end := UB\<rparr>) st)
             else (case lockadd p ip (Some cl) LB UB fn ty st of
                     (er, st1) \<Rightarrow>
                       if er \<noteq> E_OK then (Return er, st1)
                       else (let st2 = upd_ll cl (\<lambda>e. e\<lparr>ll_end := LB\<rparr>) st1
                             in (case ll_link (ent st2 cl) of Some c \<Rightarrow> (Inserted c, st2) | None \<Rightarrow> (Inserted cl, st2))))
         | _ \<Rightarrow> (Walk found, st))"

fun insert_walk :: "nat \<Rightarrow> nat \<Rightarrow> nat \<Rightarrow> int \<Rightarrow> int \<Rightarrow> lockf_type \<Rightarrow> int \<Rightarrow> nat option \<Rightarrow> nat option \<Rightarrow> nat \<Rightarrow> lkstate
    \<Rightarrow> (errno \<times> lkstate) outcome" where
  "insert_walk n p ip LB UB fn ty found nl cl st =
     (case (if is_my_lock p cl st then insert_case p ip LB UB fn ty found nl cl st else (Walk found, st)) of
        (Return er, st1) \<Rightarrow> Ret (er, st1)
      | (Inserted c, st1) \<Rightarrow> obind (compress_lock_list p c LB UB st1) (\<lambda>st2. Ret (E_OK, st2))
      | (Walk found', st1) \<Rightarrow>
          (case ll_link (ent st1 cl) of
             None \<Rightarrow> Ret (lockadd p ip (case found' of Some f \<Rightarrow> Some f | None \<Rightarrow> Some cl) LB UB fn ty st1)
           | Some c \<Rightarrow> (case n of 0 \<Rightarrow> Fault | Suc k \<Rightarrow> insert_walk k p ip LB UB fn ty found' (Some cl) c st1)))"

text \<open>The first lock of a file tells the other sites.\<close>

definition insert_lock :: "nat \<Rightarrow> nat \<Rightarrow> int \<Rightarrow> int \<Rightarrow> lockf_type \<Rightarrow> int \<Rightarrow> lkstate \<Rightarrow> (errno \<times> lkstate) outcome" where
  "insert_lock p ip LB UB fn ty st =
     (case i_locklist st ip of
        None \<Rightarrow> (case lockadd p ip None LB UB fn ty st of
                   (er, st1) \<Rightarrow> Ret (er, if er = E_OK \<and> \<not> i_remote st1 ip then st1\<lparr>synced := synced st1 @ [ip]\<rparr> else st1))
      | Some cl \<Rightarrow> insert_walk (length (locklist st)) p ip LB UB fn ty None None cl st)"

section \<open>Removing locks\<close>

text \<open>
  The loop of \<^verbatim>\<open>delete_lock\<close>; \<open>cl\<close> is the predecessor. It leaves the function early when
  there is no entry behind a deleted one.
\<close>

fun delete_walk :: "nat \<Rightarrow> nat \<Rightarrow> nat \<Rightarrow> int \<Rightarrow> int \<Rightarrow> lockf_type \<Rightarrow> nat option \<Rightarrow> lkstate \<Rightarrow> (errno \<times> lkstate) outcome" where
  "delete_walk n p ip LB UB fn cl st =
     (case get_link ip cl st of
        None \<Rightarrow> Ret (E_OK, if \<not> i_remote st ip \<and> i_locklist st ip = None then st\<lparr>synced := synced st @ [ip]\<rparr> else st)
      | Some nl \<Rightarrow>
          (case n of
             0 \<Rightarrow> Fault
           | Suc k \<Rightarrow>
               if \<not> is_my_lock p nl st then delete_walk k p ip LB UB fn (Some nl) st
               else if ll_start (ent st nl) \<ge> UB \<or> LB \<ge> ll_end (ent st nl) then delete_walk k p ip LB UB fn (Some nl) st
               else (let r = find_lock_range (ent st nl) LB UB
                 in if r \<in> {(BEFORE, MIDDLE), (START, MIDDLE)}
                    then delete_walk k p ip LB UB fn cl (check_lock_sleep nl (upd_ll nl (\<lambda>e. e\<lparr>ll_start := UB\<rparr>) st))
                    else if r \<in> {(BEFORE, END), (BEFORE, AFTER), (START, END), (START, AFTER)}
                    then (let st1 = lockfree nl (set_link ip cl (ll_link (ent st nl)) st)
                          in if get_link ip cl st1 = None then Ret (E_OK, st1) else delete_walk k p ip LB UB fn cl st1)
                    else if r = (MIDDLE, MIDDLE)
                    then (case lockadd p ip (Some nl) UB (ll_end (ent st nl)) fn (ll_type (ent st nl)) st of
                            (er, st1) \<Rightarrow>
                              if er \<noteq> E_OK then Ret (er, st1)
                              else delete_walk k p ip LB UB fn cl (check_lock_sleep nl (upd_ll nl (\<lambda>e. e\<lparr>ll_end := LB\<rparr>) st1)))
                    else if r = (MIDDLE, END)
                    then delete_walk k p ip LB UB fn cl (check_lock_sleep nl (upd_ll nl (\<lambda>e. e\<lparr>ll_end := LB\<rparr>) st))
                    else if r = (MIDDLE, AFTER)
                    then delete_walk k p ip LB UB fn (Some nl) (check_lock_sleep nl (upd_ll nl (\<lambda>e. e\<lparr>ll_end := LB\<rparr>) st))
                    else delete_walk k p ip LB UB fn (Some nl) st)))"

definition delete_lock :: "nat \<Rightarrow> nat \<Rightarrow> int \<Rightarrow> int \<Rightarrow> lockf_type \<Rightarrow> lkstate \<Rightarrow> (errno \<times> lkstate) outcome" where
  "delete_lock p ip LB UB fn st = delete_walk (3 * length (locklist st)) p ip LB UB fn None st"

text \<open>\<^verbatim>\<open>unlock\<close>, called by close; the result says whether anything was released.\<close>

fun unlock_walk :: "nat \<Rightarrow> nat \<Rightarrow> nat \<Rightarrow> nat option \<Rightarrow> bool \<Rightarrow> lkstate \<Rightarrow> (bool \<times> lkstate) outcome" where
  "unlock_walk n p ip cl r st =
     (case get_link ip cl st of
        None \<Rightarrow> Ret (r, st)
      | Some nl \<Rightarrow>
          (case n of
             0 \<Rightarrow> Fault
           | Suc k \<Rightarrow>
               if is_my_lock p nl st
               then unlock_walk k p ip cl True (lockfree nl (set_link ip cl (ll_link (ent st nl)) st))
               else unlock_walk k p ip (Some nl) r st))"

definition unlock :: "nat \<Rightarrow> nat \<Rightarrow> lkstate \<Rightarrow> (bool \<times> lkstate) outcome" where
  "unlock p ip st = unlock_walk (length (locklist st)) p ip None False st"

fun any_lock :: "nat \<Rightarrow> (lockent \<Rightarrow> bool) \<Rightarrow> nat option \<Rightarrow> lkstate \<Rightarrow> bool outcome" where
  "any_lock n P lp st =
     (case lp of
        None \<Rightarrow> Ret False
      | Some c \<Rightarrow> (case n of 0 \<Rightarrow> Fault | Suc k \<Rightarrow> if P (ent st c) then Ret True else any_lock k P (ll_link (ent st c)) st))"

definition check_for_locks :: "nat \<Rightarrow> int \<Rightarrow> lkstate \<Rightarrow> bool outcome" where
  "check_for_locks ip pid st =
     any_lock (length (locklist st)) (\<lambda>e. case ll_proc e of Some q \<Rightarrow> pid_at st q = pid | None \<Rightarrow> False) (i_locklist st ip) st"

definition check_for_nfs_callbacks :: "nat \<Rightarrow> lkstate \<Rightarrow> bool outcome" where
  "check_for_nfs_callbacks ip st = any_lock (length (locklist st)) ll_nfs (i_locklist st ip) st"

section \<open>Deadlock\<close>

definition dd_procstat :: "nat \<Rightarrow> lkstate \<Rightarrow> nat option" where
  "dd_procstat q st = p_dlchan st q"

text \<open>
  From a lock to its owner to the lock that one waits for, until the requester \<open>p\<close> or a
  process that does not wait. A pid that \<^verbatim>\<open>pfind\<close> does not know is a null pointer
  dereference; \<^verbatim>\<open>p_faddr\<close> is 0 outside a cluster.
\<close>

fun deadlock_walk :: "nat \<Rightarrow> nat \<Rightarrow> nat \<Rightarrow> lkstate \<Rightarrow> bool outcome" where
  "deadlock_walk n p lp st =
     (case ll_proc (ent st lp) of
        None \<Rightarrow> Fault
      | Some q \<Rightarrow>
          if pid_at st q = pid_at st p then Ret True
          else obind (pfind (pid_at st q) (ptab st)) (\<lambda>r. case r of
                 None \<Rightarrow> Fault
               | Some q' \<Rightarrow>
                   (case dd_procstat q' st of
                      None \<Rightarrow> Ret False
                    | Some lp' \<Rightarrow> (case n of 0 \<Rightarrow> Fault | Suc k \<Rightarrow> deadlock_walk k p lp' st))))"

definition deadlock :: "nat \<Rightarrow> nat \<Rightarrow> lkstate \<Rightarrow> bool outcome" where
  "deadlock p lp st = deadlock_walk (nproc (ptab st)) p lp st"

section \<open>Looking for a lock in the way\<close>

definition enforced :: "16 word \<Rightarrow> bool" where
  "enforced m \<longleftrightarrow> m AND 0x400 \<noteq> 0 \<and> m AND 0xF000 = 0x8000 \<and> m AND 8 = 0"

text \<open>
  What \<^verbatim>\<open>locked\<close> does at a lock of another process in the range: look on, return, report
  the lock to \<^verbatim>\<open>F_GETLK\<close>, or wait for it. \<open>nd\<close> is \<^verbatim>\<open>fpflags & (FNDELAY|FNBLOCK)\<close>.
\<close>

datatype verdict = Skip | Stop bool errno | Report | Wait

definition lock_verdict :: "int \<Rightarrow> lockf_type \<Rightarrow> int \<Rightarrow> bool \<Rightarrow> 16 word \<Rightarrow> lockent \<Rightarrow> verdict" where
  "lock_verdict flag fn lty nd m e =
     (if fn = L_COPEN then (if enforced m then Stop True EAGAIN else Stop False E_OK)
      else if flag = F_TEST \<or> flag = F_TLOCK then Stop True EACCES
      else if fn = L_FCNTL \<and> \<not> (ll_type e = F_RDLCK \<and> lty = F_WRLCK \<or> ll_type e = F_WRLCK) then Skip
      else if fn = L_FCNTL \<and> flag = F_SETLK then Stop True EACCES
      else if fn = L_FCNTL \<and> flag = F_GETLK then Report
      else if fn = L_READ \<or> fn = L_WRITE then
        (if fn = L_READ \<and> ll_type e \<noteq> F_WRLCK then Skip
         else if enforced m then (if nd then Stop True EAGAIN else Wait)
         else Skip)
      else if flag \<noteq> F_LOCK \<and> flag \<noteq> F_SETLKW \<and> flag \<noteq> F_SETLK_NFSCALLBACK then Skip
      else Wait)"

definition report_lock :: "lkstate \<Rightarrow> lockent \<Rightarrow> flock" where
  "report_lock st e =
     \<lparr>l_type = ll_type e, l_whence = 0, l_start = ll_start e,
      l_len = (if ll_end e = MAX_LOCK_SIZE then 0 else ll_end e - ll_start e),
      l_pid = (case ll_proc e of Some q \<Rightarrow> pid_at st q | None \<Rightarrow> 0)\<rparr>"

definition unblock :: "nat \<Rightarrow> nat \<Rightarrow> lkstate \<Rightarrow> lkstate" where
  "unblock p c st = (lockdec c st)\<lparr>p_dlchan := (p_dlchan st)(p := None)\<rparr>"

text \<open>
  One scan of the list, up to the return of \<^verbatim>\<open>locked\<close> (its value, \<^verbatim>\<open>u.u_error\<close>, the flock
  structure), the sleep on a lock, or a new scan because the lock is gone.
\<close>

datatype scan_result = Answer bool errno flock lkstate | Sleeps nat lkstate | Again nat lkstate

fun locked_scan :: "nat \<Rightarrow> int \<Rightarrow> nat \<Rightarrow> nat \<Rightarrow> int \<Rightarrow> int \<Rightarrow> lockf_type \<Rightarrow> flock \<Rightarrow> int \<Rightarrow> bool \<Rightarrow> nat option \<Rightarrow> lkstate
    \<Rightarrow> scan_result outcome" where
  "locked_scan n flag p ip LB UB fn fl lty nd nl st =
     (case nl of
        None \<Rightarrow> Ret (Answer False E_OK fl st)
      | Some c \<Rightarrow>
          (case n of
             0 \<Rightarrow> Fault
           | Suc k \<Rightarrow>
               (let e = ent st c; go = locked_scan k flag p ip LB UB fn fl lty nd (ll_link e) st
                in if is_my_lock p c st \<or> LB \<ge> ll_end e \<or> ll_start e \<ge> UB then go
                   else (case lock_verdict flag fn lty nd (i_mode st ip) e of
                           Skip \<Rightarrow> go
                         | Stop r er \<Rightarrow> Ret (Answer r er fl st)
                         | Report \<Rightarrow> Ret (Answer True E_OK (report_lock st e) st)
                         | Wait \<Rightarrow>
                             (let st1 = lockinc c (st\<lparr>p_dlchan := (p_dlchan st)(p := Some c)\<rparr>)
                              in obind (deadlock p c st1) (\<lambda>d.
                                   if d then Ret (Answer True EDEADLK fl (unblock p c st1))
                                   else if ll_busy (ent st1 c) then
                                     (if flag = F_SETLK_NFSCALLBACK
                                      then Ret (Answer True EACCES fl (upd_ll c (\<lambda>e. e\<lparr>ll_nfs := True\<rparr>) (unblock p c st1)))
                                      else Ret (Sleeps c (upd_ll c (\<lambda>e. e\<lparr>ll_iwant := True\<rparr>) st1)))
                                   else Ret (Again c st1)))))))"

text \<open>
  The whole of \<^verbatim>\<open>locked\<close>. The list has, for each sleep, what the other processes do
  meanwhile and whether a signal interrupts it; \<open>Asleep\<close> is a process still asleep when the
  list ends. The first argument counts scans.
\<close>

datatype locked_result = Done bool errno flock lkstate | Asleep nat lkstate

fun locked_loop :: "nat \<Rightarrow> int \<Rightarrow> nat \<Rightarrow> nat \<Rightarrow> int \<Rightarrow> int \<Rightarrow> lockf_type \<Rightarrow> flock \<Rightarrow> int \<Rightarrow> bool
    \<Rightarrow> ((lkstate \<Rightarrow> lkstate) \<times> bool) list \<Rightarrow> lkstate \<Rightarrow> locked_result outcome" where
  "locked_loop n flag p ip LB UB fn fl lty nd envs st =
     obind (locked_scan (length (locklist st)) flag p ip LB UB fn fl lty nd (i_locklist st ip) st) (\<lambda>r. case r of
       Answer b er fl' st' \<Rightarrow> Ret (Done b er fl' st')
     | Again c st' \<Rightarrow> (case n of 0 \<Rightarrow> Fault | Suc k \<Rightarrow> locked_loop k flag p ip LB UB fn fl lty nd envs (unblock p c st'))
     | Sleeps c st' \<Rightarrow>
         (case envs of
            [] \<Rightarrow> Ret (Asleep c st')
          | (env, intr) # es \<Rightarrow>
              (let st2 = unblock p c (env st')
               in if intr then Ret (Done True EINTR fl st2)
                  else (case n of 0 \<Rightarrow> Fault | Suc k \<Rightarrow> locked_loop k flag p ip LB UB fn fl lty nd es st2))))"

definition locked :: "int \<Rightarrow> nat \<Rightarrow> nat \<Rightarrow> int \<Rightarrow> int \<Rightarrow> lockf_type \<Rightarrow> flock \<Rightarrow> int \<Rightarrow> bool
    \<Rightarrow> ((lkstate \<Rightarrow> lkstate) \<times> bool) list \<Rightarrow> lkstate \<Rightarrow> locked_result outcome" where
  "locked flag p ip LB UB fn fl lty nd envs st = locked_loop (length envs) flag p ip LB UB fn fl lty nd envs st"

section \<open>The calls\<close>

text \<open>The rest of \<^verbatim>\<open>ufs_lockf\<close> after \<^verbatim>\<open>locked\<close>, and the call.\<close>

datatype call_result = Returned errno flock lkstate | Blocked nat lkstate

definition lockf_rest :: "int \<Rightarrow> nat \<Rightarrow> nat \<Rightarrow> int \<Rightarrow> int \<Rightarrow> bool \<Rightarrow> errno \<Rightarrow> lkstate \<Rightarrow> (errno \<times> lkstate) outcome" where
  "lockf_rest flag p ip LB UB r er st =
     (if r \<or> flag = F_TEST then Ret (er, st) else insert_lock p ip LB UB L_LOCKF F_WRLCK st)"

definition ufs_lockf :: "int \<Rightarrow> nat \<Rightarrow> nat \<Rightarrow> int \<Rightarrow> int \<Rightarrow> flock \<Rightarrow> bool \<Rightarrow> ((lkstate \<Rightarrow> lkstate) \<times> bool) list \<Rightarrow> lkstate
    \<Rightarrow> call_result outcome" where
  "ufs_lockf flag p ip LB UB fl nd envs st =
     (if flag = F_ULOCK then obind (delete_lock p ip LB UB L_LOCKF st) (\<lambda>(er, st1). Ret (Returned er fl st1))
      else obind (locked flag p ip LB UB L_LOCKF fl F_WRLCK nd envs st) (\<lambda>r. case r of
             Asleep c st1 \<Rightarrow> Ret (Blocked c st1)
           | Done b er fl1 st1 \<Rightarrow> obind (lockf_rest flag p ip LB UB b er st1) (\<lambda>(er2, st2). Ret (Returned er2 fl st2))))"

definition lockctl_rest :: "nat \<Rightarrow> nat \<Rightarrow> int \<Rightarrow> int \<Rightarrow> int \<Rightarrow> bool \<Rightarrow> errno \<Rightarrow> lkstate \<Rightarrow> (errno \<times> lkstate) outcome" where
  "lockctl_rest p ip LB UB lty r er st = (if r then Ret (er, st) else insert_lock p ip LB UB L_FCNTL lty st)"

definition ufs_lockctl :: "int \<Rightarrow> nat \<Rightarrow> nat \<Rightarrow> int \<Rightarrow> int \<Rightarrow> flock \<Rightarrow> bool \<Rightarrow> ((lkstate \<Rightarrow> lkstate) \<times> bool) list \<Rightarrow> lkstate
    \<Rightarrow> call_result outcome" where
  "ufs_lockctl cmd p ip LB UB fl nd envs st =
     (if cmd = F_GETLK then
        obind (locked F_GETLK p ip LB UB L_FCNTL fl (l_type fl) nd envs st) (\<lambda>r. case r of
          Asleep c st1 \<Rightarrow> Ret (Blocked c st1)
        | Done b er fl1 st1 \<Rightarrow> Ret (Returned er (if b then fl1 else fl1\<lparr>l_type := F_UNLCK\<rparr>) st1))
      else if cmd = F_SETLK_NFSCALLBACK \<or> cmd = F_SETLK \<or> cmd = F_SETLKW then
        (if l_type fl = F_RDLCK \<or> l_type fl = F_WRLCK then
           obind (locked cmd p ip LB UB L_FCNTL fl (l_type fl) nd envs st) (\<lambda>r. case r of
             Asleep c st1 \<Rightarrow> Ret (Blocked c st1)
           | Done b er fl1 st1 \<Rightarrow> obind (lockctl_rest p ip LB UB (l_type fl) b er st1) (\<lambda>(er2, st2). Ret (Returned er2 fl st2)))
         else if l_type fl = F_UNLCK then obind (delete_lock p ip LB UB L_FCNTL st) (\<lambda>(er, st1). Ret (Returned er fl st1))
         else Ret (Returned E_OK fl st))
      else Ret (Returned E_OK fl st))"

section \<open>From the arguments to the range\<close>

text \<open>\<^verbatim>\<open>lockf\<close>: the offset of the file and the signed size; sums wrap.\<close>

definition lockf_range :: "int \<Rightarrow> int \<Rightarrow> int \<Rightarrow> errno + int \<times> int" where
  "lockf_range flag offset sz =
     (if flag > F_TEST \<or> flag < F_ULOCK \<or> offset > MAX_LOCK_SIZE then Inl EINVAL
      else if sz < 0 then
        (let UB = offset; LB = to_s32 (UB + sz)
         in if LB < 0 then Inl EINVAL else if LB = UB then Inl EINVAL else Inr (LB, UB))
      else
        (let LB = offset; UB = to_s32 (LB + sz);
             UB' = (if UB \<le> 0 \<or> sz = 0 \<or> UB > MAX_LOCK_SIZE then MAX_LOCK_SIZE else UB)
         in if LB = UB' then Inl EINVAL else Inr (LB, UB')))"

text \<open>\<^verbatim>\<open>fcntl\<close>: \<open>offset\<close> and \<open>sz\<close> are the position and the size of the file.\<close>

definition fcntl_range :: "int \<Rightarrow> int \<Rightarrow> flock \<Rightarrow> errno + int \<times> int" where
  "fcntl_range offset sz fl =
     (if l_whence fl \<notin> {0, 1, 2} then Inl EINVAL
      else
        (let LB0 = (if l_whence fl = 1 then to_s32 (l_start fl + offset)
                    else if l_whence fl = 2 then to_s32 (l_start fl + sz) else l_start fl);
             LB = (if LB0 > MAX_LOCK_SIZE then MAX_LOCK_SIZE else LB0)
         in if LB0 \<le> MAX_LOCK_SIZE \<and> LB < 0 then Inl EINVAL
            else if l_len fl = 0 then Inr (LB, MAX_LOCK_SIZE)
            else
              (let UB0 = to_s32 (LB + l_len fl); UB = (if UB0 > MAX_LOCK_SIZE then MAX_LOCK_SIZE else UB0)
               in if UB < 0 \<or> UB < LB \<or> UB = LB then Inl EINVAL else Inr (LB, UB))))"

section \<open>The system calls\<close>

text \<open>
  What the calls use of an open file. The results add whether the descriptor is marked
  \<^verbatim>\<open>UF_FDLOCK\<close> and the process \<^verbatim>\<open>SLKDONE\<close>. The privilege to lock read-only files is an
  argument, as are a copied-in structure, the file size that \<^verbatim>\<open>VOP_GETATTR\<close> gives and
  whether the structure can be copied out.
\<close>

record lkfile =
  f_vnode :: bool
  f_read :: bool
  f_write :: bool
  f_fifo :: bool
  f_offset :: int
  f_ip :: nat
  f_ndelay :: bool

definition no_flock :: flock where
  "no_flock = \<lparr>l_type = 0, l_whence = 0, l_start = 0, l_len = 0, l_pid = 0\<rparr>"

definition lockf :: "lkfile option \<Rightarrow> bool \<Rightarrow> int \<Rightarrow> int \<Rightarrow> nat \<Rightarrow> ((lkstate \<Rightarrow> lkstate) \<times> bool) list \<Rightarrow> lkstate
    \<Rightarrow> (call_result \<times> bool) outcome" where
  "lockf fp priv flag sz p envs st =
     (case fp of
        None \<Rightarrow> Ret (Returned EBADF no_flock st, False)
      | Some f \<Rightarrow>
          if \<not> f_vnode f then Ret (Returned EINVAL no_flock st, False)
          else if (flag = F_LOCK \<or> flag = F_TLOCK) \<and> f_read f \<and> \<not> f_write f \<and> \<not> priv
          then Ret (Returned EBADF no_flock st, False)
          else (case lockf_range flag (if f_fifo f then 0 else f_offset f) sz of
                  Inl er \<Rightarrow> Ret (Returned er no_flock st, False)
                | Inr (LB, UB) \<Rightarrow>
                    obind (ufs_lockf flag p (f_ip f) LB UB no_flock (f_ndelay f) envs st) (\<lambda>r. case r of
                      Returned er fl st1 \<Rightarrow> Ret (r, er = E_OK \<and> flag \<noteq> F_TEST \<and> flag \<noteq> F_ULOCK)
                    | Blocked c st1 \<Rightarrow> Ret (r, False))))"

definition fcntl_lock :: "lkfile option \<Rightarrow> flock option \<Rightarrow> errno + int \<Rightarrow> bool \<Rightarrow> int \<Rightarrow> nat \<Rightarrow> ((lkstate \<Rightarrow> lkstate) \<times> bool) list
    \<Rightarrow> lkstate \<Rightarrow> (call_result \<times> bool) outcome" where
  "fcntl_lock fp copied attr cpout cmd p envs st =
     (case fp of
        None \<Rightarrow> Ret (Returned EBADF no_flock st, False)
      | Some f \<Rightarrow>
          if \<not> f_vnode f then Ret (Returned EINVAL no_flock st, False)
          else (case copied of
             None \<Rightarrow> Ret (Returned EFAULT no_flock st, False)
           | Some fl \<Rightarrow>
               (case (if l_whence fl = 2 then attr else Inr 0) of
                  Inl er \<Rightarrow> Ret (Returned er fl st, False)
                | Inr fsize \<Rightarrow>
                    (case fcntl_range (f_offset f) fsize fl of
                       Inl er \<Rightarrow> Ret (Returned er fl st, False)
                     | Inr (LB, UB) \<Rightarrow>
                         if l_type fl \<notin> {F_RDLCK, F_WRLCK, F_UNLCK} then Ret (Returned EINVAL fl st, False)
                         else if (cmd = F_SETLK \<or> cmd = F_SETLKW) \<and>
                           (l_type fl = F_RDLCK \<and> \<not> f_read f \<or> l_type fl = F_WRLCK \<and> \<not> f_write f)
                         then Ret (Returned EBADF fl st, False)
                         else obind (ufs_lockctl cmd p (f_ip f) LB UB fl (f_ndelay f) envs st) (\<lambda>r. case r of
                           Returned er fl1 st1 \<Rightarrow>
                             Ret (Returned (if cmd = F_GETLK \<and> er = E_OK \<and> \<not> cpout then EFAULT else er) fl1 st1,
                               er = E_OK \<and> cmd \<noteq> F_GETLK \<and> l_type fl1 \<noteq> F_UNLCK)
                         | Blocked c st1 \<Rightarrow> Ret (r, False))))))"

section \<open>Reading and writing\<close>

text \<open>
  The test of \<^verbatim>\<open>ufs_rdwr\<close> before the transfer: \<open>off\<close> and \<open>len\<close> are the offset and the length
  of the first buffer. The lock type that it passes is not set and not used. Then the
  offset at which the transfer starts.
\<close>

definition rdwr_check :: "nat \<Rightarrow> nat \<Rightarrow> bool \<Rightarrow> int \<Rightarrow> int \<Rightarrow> bool \<Rightarrow> ((lkstate \<Rightarrow> lkstate) \<times> bool) list \<Rightarrow> lkstate
    \<Rightarrow> call_result outcome" where
  "rdwr_check p ip w off len nd envs st =
     (if i_mode st ip AND 0xF000 = 0x8000 \<and> i_locklist st ip \<noteq> None
      then obind (locked F_LOCK p ip off (to_s32 (off + len)) (if w then L_WRITE else L_READ) no_flock 0 nd envs st) (\<lambda>r. case r of
             Asleep c st1 \<Rightarrow> Ret (Blocked c st1)
           | Done b er fl st1 \<Rightarrow> Ret (Returned (if b then er else E_OK) fl st1))
      else Ret (Returned E_OK no_flock st))"

definition rdwr_offset :: "bool \<Rightarrow> bool \<Rightarrow> int \<Rightarrow> int \<Rightarrow> int" where
  "rdwr_offset w app off isize = (if app \<and> w then isize else off)"

end
