(* ===== verification/Lockf_Ranges.thy ===== *)
theory Lockf_Ranges
  imports Main
begin

text \<open>
  What the locks of one process on one file mean: a list of ranges with a type, in address
  order and disjoint. The operations of \<^verbatim>\<open>ufs/ufs_lockf.c\<close> on such a list, and their effect
  on the lock that each byte carries.
\<close>

type_synonym range = "int \<times> int \<times> int"  \<comment> \<open>first byte, first byte behind, type\<close>

fun sorted_rg :: "range list \<Rightarrow> bool" where
  "sorted_rg [] \<longleftrightarrow> True"
| "sorted_rg ((s, e, t) # r) \<longleftrightarrow> s < e \<and> (\<forall>v \<in> set r. e \<le> fst v) \<and> sorted_rg r"

definition carries :: "range list \<Rightarrow> int \<Rightarrow> int \<Rightarrow> bool" where
  "carries vs x t \<longleftrightarrow> (\<exists>(s, e, u) \<in> set vs. s \<le> x \<and> x < e \<and> u = t)"

lemma carries_simps [simp]:
  "\<not> carries [] x t"
  "carries ((s, e, u) # r) x t \<longleftrightarrow> s \<le> x \<and> x < e \<and> u = t \<or> carries r x t"
  "carries (vs @ ws) x t \<longleftrightarrow> carries vs x t \<or> carries ws x t"
  by (auto simp: carries_def)

lemma carries_lower: "carries vs x t \<Longrightarrow> \<forall>v \<in> set vs. a \<le> fst v \<Longrightarrow> a \<le> x"
  by (force simp: carries_def)

lemma sorted_rg_append:
  "sorted_rg (vs @ ws) \<longleftrightarrow> sorted_rg vs \<and> sorted_rg ws \<and> (\<forall>(s, e, t) \<in> set vs. \<forall>w \<in> set ws. e \<le> fst w)"
  by (induction vs rule: sorted_rg.induct) auto

lemma sorted_rg_nonempty: "sorted_rg vs \<Longrightarrow> (s, e, t) \<in> set vs \<Longrightarrow> s < e"
  by (induction vs rule: sorted_rg.induct) auto

text \<open>At most one type at a byte.\<close>

lemma carries_unique: "sorted_rg vs \<Longrightarrow> carries vs x t \<Longrightarrow> carries vs x u \<Longrightarrow> t = u"
proof (induction vs rule: sorted_rg.induct)
  case (2 s e t' r)
  then have "carries r x w \<Longrightarrow> e \<le> x" for w using carries_lower [of r x w e] by simp
  with 2 show ?case by force
qed simp

section \<open>Adding a range\<close>

text \<open>Cutting \<open>UB\<close> and what is below it off the ranges behind an extended lock.\<close>

fun cut_below :: "int \<Rightarrow> range list \<Rightarrow> range list" where
  "cut_below UB [] = []"
| "cut_below UB ((s, e, t) # r) =
     (if UB < s then [(s, e, t)] else if UB < e then [(UB, e, t)] else []) @ cut_below UB r"

lemma cut_below_lower: "v \<in> set (cut_below UB vs) \<Longrightarrow> UB \<le> fst v"
  by (induction UB vs rule: cut_below.induct) (auto split: if_splits)

lemma cut_below_lower2: "\<forall>v \<in> set vs. a \<le> fst v \<Longrightarrow> v \<in> set (cut_below UB vs) \<Longrightarrow> a \<le> fst v"
  by (induction UB vs rule: cut_below.induct) (auto split: if_splits)

lemma cut_below_sorted: "sorted_rg vs \<Longrightarrow> sorted_rg (cut_below UB vs)"
proof (induction UB vs rule: cut_below.induct)
  case (2 UB s e t r)
  then show ?case
    using cut_below_lower2 [of r e _ UB] by (auto simp: sorted_rg_append)
qed simp

lemma cut_below_carries: "sorted_rg vs \<Longrightarrow> carries (cut_below UB vs) x t \<longleftrightarrow> UB \<le> x \<and> carries vs x t"
proof (induction UB vs rule: cut_below.induct)
  case (2 UB s e t' r)
  then show ?case
    by (auto dest: carries_lower [of r x _ e])
qed simp

lemma cut_below_id: "\<forall>v \<in> set vs. UB \<le> fst v \<Longrightarrow> sorted_rg vs \<Longrightarrow> cut_below UB vs = vs"
  by (induction UB vs rule: cut_below.induct) (auto simp: le_less)

text \<open>The switch of \<^verbatim>\<open>insert_lock\<close> at the first range that does not end before \<open>LB\<close>.\<close>

fun ins_head :: "int \<Rightarrow> int \<Rightarrow> int \<Rightarrow> range list \<Rightarrow> range list" where
  "ins_head LB UB ty [] = [(LB, UB, ty)]"
| "ins_head LB UB ty ((s, e, t) # r) =
     (if UB < s then (LB, UB, ty) # (s, e, t) # r
      else if UB < e then
        (if LB \<le> s then (if t = ty then (LB, e, t) # r else (LB, UB, ty) # (UB, e, t) # r)
         else (if t = ty then (s, e, t) # r else (s, LB, t) # (LB, UB, ty) # (UB, e, t) # r))
      else if UB = e then
        (if LB \<le> s then (LB, e, ty) # r
         else (if t = ty then (s, e, t) # r else (s, LB, t) # (LB, UB, ty) # r))
      else
        (if LB \<le> s then (LB, UB, ty) # cut_below UB r
         else (if t = ty then (s, UB, t) # cut_below UB r else (s, LB, t) # (LB, UB, ty) # cut_below UB r)))"

lemma ins_head_lower:
  assumes "sorted_rg vs" and "\<forall>v \<in> set vs. a \<le> fst v" and "a \<le> LB" and "LB < UB" and "w \<in> set (ins_head LB UB ty vs)"
  shows "a \<le> fst w"
proof (cases vs)
  case Nil
  then show ?thesis using assms by simp
next
  case (Cons v r)
  obtain s e t where v: "v = (s, e, t)" by (cases v)
  have "\<forall>w \<in> set r. a \<le> fst w" "a \<le> s" using assms(2) Cons v by auto
  then show ?thesis
    using assms(3-5) cut_below_lower2 [of r a w UB] by (auto simp: Cons v split: if_splits)
qed

lemma ins_head_sorted:
  assumes "sorted_rg vs" and "LB < UB" and "vs \<noteq> [] \<Longrightarrow> LB \<le> fst (snd (hd vs))"
  shows "sorted_rg (ins_head LB UB ty vs)"
proof (cases vs)
  case Nil
  then show ?thesis using assms by simp
next
  case (Cons v r)
  obtain s e t where v: "v = (s, e, t)" by (cases v)
  have r: "sorted_rg r" "\<forall>w \<in> set r. e \<le> fst w" "s < e" "LB \<le> e" using assms Cons v by auto
  then show ?thesis
    using assms(2) cut_below_sorted [OF r(1), of UB] cut_below_lower [of _ UB r]
    by (auto simp: Cons v) (use r in force)+
qed

lemma ins_head_carries:
  assumes "sorted_rg vs" and "LB < UB" and "vs \<noteq> [] \<Longrightarrow> LB \<le> fst (snd (hd vs))"
  shows "carries (ins_head LB UB ty vs) x u \<longleftrightarrow> (if LB \<le> x \<and> x < UB then u = ty else carries vs x u)"
proof (cases vs)
  case Nil
  then show ?thesis using assms by auto
next
  case (Cons v r)
  obtain s e t where v: "v = (s, e, t)" by (cases v)
  have r: "sorted_rg r" "\<forall>w \<in> set r. e \<le> fst w" "s < e" "LB \<le> e" using assms Cons v by auto
  have low: "carries r x u \<Longrightarrow> e \<le> x" using carries_lower r(2) by blast
  show ?thesis
    using assms(2) r(3,4) low by (auto simp: Cons v cut_below_carries [OF r(1)])
qed

text \<open>The whole insertion.\<close>

definition ins_range :: "int \<Rightarrow> int \<Rightarrow> int \<Rightarrow> range list \<Rightarrow> range list" where
  "ins_range LB UB ty vs = takeWhile (\<lambda>(s, e, t). e < LB) vs @ ins_head LB UB ty (dropWhile (\<lambda>(s, e, t). e < LB) vs)"

theorem ins_range_ok:
  assumes "sorted_rg vs" and "LB < UB"
  shows "sorted_rg (ins_range LB UB ty vs) \<and>
    (\<forall>x u. carries (ins_range LB UB ty vs) x u \<longleftrightarrow> (if LB \<le> x \<and> x < UB then u = ty else carries vs x u))"
proof -
  let ?P = "\<lambda>(s, e, t). e < LB"
  let ?a = "takeWhile ?P vs" and ?b = "dropWhile ?P vs"
  have ab: "sorted_rg (?a @ ?b)" using assms(1) by simp
  then have a: "sorted_rg ?a" and b: "sorted_rg ?b" and sep: "\<forall>(s, e, t) \<in> set ?a. \<forall>w \<in> set ?b. e \<le> fst w"
    by (auto simp only: sorted_rg_append)
  have hd: "?b \<noteq> [] \<Longrightarrow> LB \<le> fst (snd (hd ?b))" using hd_dropWhile [of ?P vs] by (force split: prod.splits)
  have before: "\<forall>(s, e, t) \<in> set ?a. e < LB" by (auto dest: set_takeWhileD)
  have "\<forall>(s, e, t) \<in> set ?a. \<forall>w \<in> set (ins_head LB UB ty ?b). e \<le> fst w"
  proof clarify
    fix s e t s' e' t' assume v: "(s, e, t) \<in> set ?a" and w: "(s', e', t') \<in> set (ins_head LB UB ty ?b)"
    have "\<forall>w \<in> set ?b. e \<le> fst w" "e < LB" using v sep before by blast+
    then show "e \<le> fst (s', e', t')" using ins_head_lower [OF b _ _ assms(2) w, of e] by simp
  qed
  then have "sorted_rg (ins_range LB UB ty vs)"
    using a ins_head_sorted [OF b assms(2) hd] by (simp add: ins_range_def sorted_rg_append)
  moreover have "carries (ins_range LB UB ty vs) x u \<longleftrightarrow> (if LB \<le> x \<and> x < UB then u = ty else carries vs x u)" for x u
  proof -
    have "carries ?a x u \<Longrightarrow> x < LB" using before by (force simp: carries_def)
    moreover have "carries vs x u \<longleftrightarrow> carries ?a x u \<or> carries ?b x u"
      using carries_simps(3) [of ?a ?b x u] by simp
    ultimately show ?thesis
      using ins_head_carries [OF b assms(2) hd, of ty x u] by (auto simp: ins_range_def)
  qed
  ultimately show ?thesis by blast
qed

section \<open>Removing a range\<close>

fun del_range :: "int \<Rightarrow> int \<Rightarrow> range list \<Rightarrow> range list" where
  "del_range LB UB [] = []"
| "del_range LB UB ((s, e, t) # r) =
     (if UB \<le> s \<or> e \<le> LB then [(s, e, t)]
      else (if s < LB then [(s, LB, t)] else []) @ (if UB < e then [(UB, e, t)] else [])) @ del_range LB UB r"

lemma del_range_lower: "sorted_rg vs \<Longrightarrow> \<forall>v \<in> set vs. a \<le> fst v \<Longrightarrow> v \<in> set (del_range LB UB vs) \<Longrightarrow> a \<le> fst v"
  by (induction LB UB vs rule: del_range.induct) (auto split: if_splits)

theorem del_range_ok:
  assumes "sorted_rg vs" and "LB < UB"
  shows "sorted_rg (del_range LB UB vs) \<and>
    (\<forall>x u. carries (del_range LB UB vs) x u \<longleftrightarrow> \<not> (LB \<le> x \<and> x < UB) \<and> carries vs x u)"
  using assms
proof (induction LB UB vs rule: del_range.induct)
  case (2 LB UB s e t r)
  have r: "sorted_rg r" "\<forall>v \<in> set r. e \<le> fst v" "s < e" using 2 by auto
  note IH = 2(1) [OF r(1) 2(3)]
  have "\<forall>v \<in> set (del_range LB UB r). e \<le> fst v" using del_range_lower [OF r(1,2)] by blast
  then have "sorted_rg (del_range LB UB ((s, e, t) # r))"
    using IH r(3) 2(3) by (auto simp: sorted_rg_append)
  moreover have "carries (del_range LB UB ((s, e, t) # r)) x u \<longleftrightarrow> \<not> (LB \<le> x \<and> x < UB) \<and> carries ((s, e, t) # r) x u" for x u
    using IH r(3) 2(3) by auto
  ultimately show ?case by blast
qed simp

lemma del_range_id: "\<forall>(s, e, t) \<in> set vs. UB \<le> s \<or> e \<le> LB \<Longrightarrow> del_range LB UB vs = vs"
  by (induction LB UB vs rule: del_range.induct) auto

end
