(* ===== verification/Lockf_List.thy ===== *)
theory Lockf_List
  imports Lockf Lockf_Ranges Kproc_Props
begin

text \<open>
  The lock table as lists of entries, and what adding and freeing a lock do to them.
\<close>

section \<open>Representation\<close>

abbreviation nxt :: "lkstate \<Rightarrow> nat \<Rightarrow> nat option" where
  "nxt st \<equiv> \<lambda>c. ll_link (ent st c)"

abbreviation cells :: "lkstate \<Rightarrow> nat set" where
  "cells st \<equiv> {1..<length (locklist st)}"

definition waiters :: "lkstate \<Rightarrow> nat \<Rightarrow> nat set" where
  "waiters st c = {q. p_dlchan st q = Some c}"

text \<open>
  \<open>F\<close> is the list of free entries, \<open>L ip\<close> the locks of a file. An entry in neither is one
  that was freed while processes wait on it. The count of an entry is one for the lock and
  one for every process that waits on it.
\<close>

definition lk_rep :: "lkstate \<Rightarrow> nat list \<Rightarrow> (nat \<Rightarrow> nat list) \<Rightarrow> bool" where
  "lk_rep st F L \<longleftrightarrow>
     locklist st \<noteq> [] \<and> ll_proc (ent st 0) = Some 0 \<and>
     linked (nxt st) (nxt st 0) F \<and> (\<forall>ip. linked (nxt st) (i_locklist st ip) (L ip)) \<and>
     distinct F \<and> (\<forall>ip. distinct (L ip)) \<and> (\<forall>ip jp. ip \<noteq> jp \<longrightarrow> set (L ip) \<inter> set (L jp) = {}) \<and>
     set F \<subseteq> cells st \<and> (\<forall>ip. set (L ip) \<subseteq> cells st) \<and> (\<forall>ip. \<forall>c \<in> set (L ip). ll_ip (ent st c) = Some ip) \<and>
     (\<forall>c \<in> cells st. (ll_busy (ent st c) \<longleftrightarrow> (\<exists>ip. c \<in> set (L ip))) \<and>
       (\<not> ll_busy (ent st c) \<longrightarrow> ll_proc (ent st c) = Some 0) \<and>
       ll_count (ent st c) = of_bool (ll_busy (ent st c)) + int (card (waiters st c)) \<and>
       (c \<in> set F \<longleftrightarrow> \<not> ll_busy (ent st c) \<and> waiters st c = {})) \<and>
     finite {q. p_dlchan st q \<noteq> None} \<and> (\<forall>q c. p_dlchan st q = Some c \<longrightarrow> c \<in> cells st)"

text \<open>An entry without its link.\<close>

definition dat :: "lkstate \<Rightarrow> nat \<Rightarrow> lockent" where
  "dat st c = (ent st c)\<lparr>ll_link := None\<rparr>"

lemma dat_fields:
  assumes "dat st' c = dat st c"
  shows "ll_count (ent st' c) = ll_count (ent st c)" "ll_busy (ent st' c) = ll_busy (ent st c)"
    "ll_proc (ent st' c) = ll_proc (ent st c)" "ll_start (ent st' c) = ll_start (ent st c)"
    "ll_end (ent st' c) = ll_end (ent st c)" "ll_type (ent st' c) = ll_type (ent st c)"
    "ll_ip (ent st' c) = ll_ip (ent st c)" "ll_iwant (ent st' c) = ll_iwant (ent st c)" "ll_nfs (ent st' c) = ll_nfs (ent st c)"
  using assms by (simp_all add: dat_def lockent.defs(1) lockent.equality) (metis lockent.ext_inject lockent.surjective lockent.update_convs(1))+

lemma ent_upd: "ent (upd_ll c f st) d = (if d = c \<and> c < length (locklist st) then f (ent st c) else ent st d)"
  by (simp add: upd_ll_def nth_upd)

lemma upd_ll_simps [simp]:
  "length (locklist (upd_ll c f st)) = length (locklist st)" "i_locklist (upd_ll c f st) = i_locklist st"
  "i_mode (upd_ll c f st) = i_mode st" "i_remote (upd_ll c f st) = i_remote st" "p_dlchan (upd_ll c f st) = p_dlchan st"
  "ptab (upd_ll c f st) = ptab st" "woken (upd_ll c f st) = woken st" "nfs_informed (upd_ll c f st) = nfs_informed st"
  "synced (upd_ll c f st) = synced st" "waiters (upd_ll c f st) = waiters st" "locklist (upd_ll c f st) = [] \<longleftrightarrow> locklist st = []"
  by (simp_all add: upd_ll_def waiters_def fun_eq_iff)

text \<open>What no operation on the lists changes.\<close>

definition same_env :: "lkstate \<Rightarrow> lkstate \<Rightarrow> bool" where
  "same_env st st' \<longleftrightarrow> length (locklist st') = length (locklist st) \<and> i_mode st' = i_mode st \<and> i_remote st' = i_remote st \<and>
     p_dlchan st' = p_dlchan st \<and> ptab st' = ptab st"

lemma same_env_simps [simp]: "same_env st st" "same_env st (upd_ll c f st)" "same_env st (st\<lparr>woken := w\<rparr>)"
  "same_env st (st\<lparr>nfs_informed := n\<rparr>)" "same_env st (st\<lparr>synced := y\<rparr>)"
  by (simp_all add: same_env_def)

lemma same_env_trans: "same_env st st' \<Longrightarrow> same_env st' st'' \<Longrightarrow> same_env st st''"
  by (simp add: same_env_def)

lemma same_env_upd [simp]: "same_env st st' \<Longrightarrow> same_env st (upd_ll c f st')" "same_env st st' \<Longrightarrow> same_env st (st'\<lparr>woken := w\<rparr>)"
  "same_env st st' \<Longrightarrow> same_env st (st'\<lparr>nfs_informed := n\<rparr>)" "same_env st st' \<Longrightarrow> same_env st (st'\<lparr>i_locklist := i\<rparr>)"
  by (simp_all add: same_env_def)

lemma lk_rep_cong:
  assumes "same_env st st'" and "i_locklist st' = i_locklist st"
    and "\<And>c. ll_link (ent st' c) = ll_link (ent st c) \<and> ll_busy (ent st' c) = ll_busy (ent st c) \<and>
      ll_proc (ent st' c) = ll_proc (ent st c) \<and> ll_ip (ent st' c) = ll_ip (ent st c) \<and> ll_count (ent st' c) = ll_count (ent st c)"
  shows "lk_rep st' F L = lk_rep st F L"
proof -
  have "nxt st' = nxt st" using assms(3) by (simp add: fun_eq_iff)
  moreover have "waiters st' = waiters st" using assms(1) by (simp add: waiters_def same_env_def fun_eq_iff)
  moreover have "locklist st' = [] \<longleftrightarrow> locklist st = []" using assms(1) by (metis same_env_def length_0_conv)
  ultimately show ?thesis
    unfolding lk_rep_def using assms by (simp add: same_env_def)
qed

text \<open>Updates of an entry that do not move it.\<close>

definition mild :: "(lockent \<Rightarrow> lockent) \<Rightarrow> bool" where
  "mild f \<longleftrightarrow> (\<forall>e. ll_link (f e) = ll_link e \<and> ll_busy (f e) = ll_busy e \<and> ll_proc (f e) = ll_proc e \<and>
     ll_ip (f e) = ll_ip e \<and> ll_count (f e) = ll_count e)"

lemma mild_rep: "mild f \<Longrightarrow> lk_rep (upd_ll c f st) F L = lk_rep st F L"
  by (rule lk_rep_cong) (simp_all add: ent_upd mild_def)

lemma dat_upd_other: "d \<noteq> c \<Longrightarrow> dat (upd_ll c f st) d = dat st d"
  by (simp add: dat_def ent_upd)

lemma mildI [simp]:
  "mild (\<lambda>e. e\<lparr>ll_start := a\<rparr>)" "mild (\<lambda>e. e\<lparr>ll_end := a\<rparr>)" "mild (\<lambda>e. e\<lparr>ll_type := t\<rparr>)"
  "mild (\<lambda>e. e\<lparr>ll_type := t, ll_start := a\<rparr>)" "mild (\<lambda>e. e\<lparr>ll_type := t, ll_end := a\<rparr>)"
  "mild (\<lambda>e. e\<lparr>ll_type := t, ll_start := a, ll_end := b\<rparr>)" "mild (\<lambda>e. e\<lparr>ll_iwant := w\<rparr>)" "mild (\<lambda>e. e\<lparr>ll_nfs := w\<rparr>)"
  by (simp_all add: mild_def)

section \<open>Adding an entry\<close>

definition pred :: "nat list \<Rightarrow> nat option" where
  "pred xs = (if xs = [] then None else Some (last xs))"

lemma pred_simps [simp]: "pred [] = None" "pred (xs @ [x]) = Some x" "xs \<noteq> [] \<Longrightarrow> pred xs = Some (last xs)"
  by (simp_all add: pred_def)

lemma get_link_pred:
  assumes "lk_rep st F L" and "L ip = xs @ ys"
  shows "get_link ip (pred xs) st = (if ys = [] then None else Some (hd ys))"
proof -
  have l: "linked (nxt st) (i_locklist st ip) (xs @ ys)" using assms by (simp add: lk_rep_def) metis
  show ?thesis
  proof (cases "xs = []")
    case True
    then show ?thesis using l by (cases ys) (auto simp: get_link_def pred_def)
  next
    case False
    then have "xs @ ys = butlast xs @ last xs # ys" by (metis append.assoc append_Cons append_Nil append_butlast_last_id)
    then have "linked (nxt st) (i_locklist st ip) (butlast xs @ last xs # ys)" using l by (simp only:)
    then have "linked (nxt st) (nxt st (last xs)) ys" by (rule linked_tail)
    then show ?thesis using False by (cases ys) (auto simp: get_link_def pred_def)
  qed
qed

lemma rep_cell: "lk_rep st F L \<Longrightarrow> L ip = xs @ c # ys \<Longrightarrow> c < length (locklist st) \<and> c \<noteq> 0"
  unfolding lk_rep_def by (metis atLeastLessThan_iff in_set_conv_decomp not_one_le_zero subsetD)

lemma lockadd_full: "lk_rep st [] L \<Longrightarrow> lockadd p ip cl LB UB fn ty st = (if fn = L_LOCKF then EDEADLK else ENOLCK, st)"
  by (simp add: lockadd_def lockalloc_def lk_rep_def)


lemma lockadd_rep:
  fixes LB UB :: int and fn ty
  assumes rep: "lk_rep st (c # F) L" and L: "L ip = xs @ ys" and p: "p \<noteq> 0"
  defines "r \<equiv> lockadd p ip (pred xs) LB UB fn ty st"
  shows "fst r = E_OK \<and> lk_rep (snd r) F (L(ip := xs @ c # ys)) \<and> same_env st (snd r) \<and>
    (\<forall>d. d \<noteq> c \<longrightarrow> dat (snd r) d = dat st d) \<and>
    (ll_proc (ent (snd r) c), ll_start (ent (snd r) c), ll_end (ent (snd r) c), ll_type (ent (snd r) c)) = (Some p, LB, UB, ty) \<and>
    woken (snd r) = woken st \<and> nfs_informed (snd r) = nfs_informed st \<and> synced (snd r) = synced st"
proof -
  define n where "n = length (locklist st)"
  have F: "linked (nxt st) (nxt st 0) (c # F)" "distinct (c # F)" "set (c # F) \<subseteq> cells st" and init: "ll_proc (ent st 0) = Some 0"
    and ne: "locklist st \<noteq> []" and Ll: "\<And>jp. linked (nxt st) (i_locklist st jp) (L jp)" and Ld: "\<And>jp. distinct (L jp)"
    and Lr: "\<And>jp. set (L jp) \<subseteq> cells st" and LL: "\<And>ip jp. ip \<noteq> jp \<Longrightarrow> set (L ip) \<inter> set (L jp) = {}"
    and Lip: "\<And>jp d. d \<in> set (L jp) \<Longrightarrow> ll_ip (ent st d) = Some jp"
    and cell: "\<And>d. d \<in> cells st \<Longrightarrow> (ll_busy (ent st d) \<longleftrightarrow> (\<exists>ip. d \<in> set (L ip))) \<and>
       (\<not> ll_busy (ent st d) \<longrightarrow> ll_proc (ent st d) = Some 0) \<and>
       ll_count (ent st d) = of_bool (ll_busy (ent st d)) + int (card (waiters st d)) \<and>
       (d \<in> set (c # F) \<longleftrightarrow> \<not> ll_busy (ent st d) \<and> waiters st d = {})"
    and W: "finite {q. p_dlchan st q \<noteq> None}" "\<And>q d. p_dlchan st q = Some d \<Longrightarrow> d \<in> cells st"
    using rep by (simp_all add: lk_rep_def)
  have c: "c < n" "c \<noteq> 0" "nxt st 0 = Some c" "linked (nxt st) (nxt st c) F" using F by (auto simp: n_def)
  have n: "0 < n" using ne by (simp add: n_def)
  have "c \<in> cells st" "c \<in> set (c # F)" using F(3) by simp_all
  then have free: "\<not> ll_busy (ent st c)" "waiters st c = {}" using cell [of c] by blast+
  have FL: "d \<in> set (c # F) \<Longrightarrow> d \<notin> set (L jp)" for d jp using cell [of d] F(3) by blast
  have cL: "c \<notin> set (L jp)" for jp using FL [of c] by simp
  have zL: "0 \<notin> set (L jp)" for jp using Lr [of jp] by auto
  have zF: "0 \<notin> set F" using F(3) by auto
  have lx: "last xs < n" "last xs \<noteq> 0" "last xs \<noteq> c" "last xs \<in> set (L ip)" if "xs \<noteq> []"
  proof -
    have x: "last xs \<in> set (L ip)" using L last_in_set [OF that] by simp
    then show "last xs < n" "last xs \<noteq> 0" "last xs \<noteq> c" "last xs \<in> set (L ip)"
      using Lr [of ip] cL [of ip] by (auto simp: n_def)
  qed
  define st1 where "st1 = upd_ll c (\<lambda>e. e\<lparr>ll_link := None, ll_count := 1\<rparr>) (upd_ll 0 (\<lambda>e. e\<lparr>ll_link := nxt st c\<rparr>) st)"
  have la: "lockalloc fn st = (Inr c, st1)" using init c(3) by (simp add: lockalloc_def st1_def)
  have e1: "ent st1 d = (if d = c then (ent st c)\<lparr>ll_link := None, ll_count := 1\<rparr> else if d = 0 then (ent st 0)\<lparr>ll_link := nxt st c\<rparr> else ent st d)" for d
    using c n by (simp add: st1_def ent_upd n_def)
  have n1: "length (locklist st1) = n" "i_locklist st1 = i_locklist st" by (simp_all add: st1_def n_def)
  have g: "get_link ip (pred xs) st1 = (if ys = [] then None else Some (hd ys))"
  proof -
    have "get_link ip (pred xs) st1 = get_link ip (pred xs) st"
      by (cases "xs = []") (use lx in \<open>auto simp: get_link_def pred_def e1 n1\<close>)
    then show ?thesis using get_link_pred [OF rep, of ip xs ys] L by simp
  qed
  define new where "new = (ent st c)\<lparr>ll_link := (if ys = [] then None else Some (hd ys)), ll_count := 1, ll_proc := Some p, ll_start := LB,
    ll_end := UB, ll_type := ty, ll_busy := True, ll_ip := Some ip\<rparr>"
  define st2 where "st2 = snd r"
  have r: "r = (E_OK, st2)"
    by (simp add: st2_def r_def lockadd_def la)
  have st2: "st2 = upd_ll c (\<lambda>e. e\<lparr>ll_proc := Some p, ll_start := LB, ll_end := UB, ll_type := ty, ll_busy := True, ll_ip := Some ip\<rparr>)
      (set_link ip (pred xs) (Some c) (upd_ll c (\<lambda>e. e\<lparr>ll_link := (if ys = [] then None else Some (hd ys))\<rparr>) st1))"
    using g by (simp add: st2_def r_def lockadd_def la)
  have e2: "ent st2 d = (if d = c then new else if d = 0 then (ent st 0)\<lparr>ll_link := nxt st c\<rparr>
      else if xs \<noteq> [] \<and> d = last xs then (ent st d)\<lparr>ll_link := Some c\<rparr> else ent st d)" for d
    using c n lx n1 by (auto simp: st2 set_link_def pred_def ent_upd e1 new_def)
  have i2: "i_locklist st2 = (if xs = [] then (i_locklist st)(ip := Some c) else i_locklist st)"
    by (simp add: st2 set_link_def pred_def n1)
  have env: "same_env st st2" "woken st2 = woken st" "nfs_informed st2 = nfs_informed st" "synced st2 = synced st"
    by (simp_all add: st2 set_link_def pred_def st1_def)
  have n2: "length (locklist st2) = n" "waiters st2 = waiters st" "p_dlchan st2 = p_dlchan st"
    using env(1) by (simp_all add: same_env_def n_def waiters_def fun_eq_iff)
  have l2: "nxt st2 d = (if d = c then (if ys = [] then None else Some (hd ys)) else if d = 0 then nxt st c
      else if xs \<noteq> [] \<and> d = last xs then Some c else nxt st d)" for d
    by (simp add: e2 new_def)
  have lF: "linked (nxt st2) (nxt st2 0) F"
  proof -
    have "linked (nxt st2) (nxt st c) F = linked (nxt st) (nxt st c) F"
      using F(2) zF FL lx by (intro linked_cong) (auto simp: l2)
    then show ?thesis using c(2,4) by (simp add: l2)
  qed
  have lo: "linked (nxt st2) (i_locklist st2 jp) (L jp)" if "jp \<noteq> ip" for jp
  proof -
    have "linked (nxt st2) (i_locklist st jp) (L jp) = linked (nxt st) (i_locklist st jp) (L jp)"
      using cL zL LL [OF that] lx by (intro linked_cong) (auto simp: l2)
    then show ?thesis using Ll that by (simp add: i2)
  qed
  have li: "linked (nxt st2) (i_locklist st2 ip) (xs @ c # ys)"
  proof -
    let ?nx = "(nxt st)(c := if ys = [] then None else Some (hd ys))"
    have "linked ?nx (i_locklist st ip) (xs @ ys) = linked (nxt st) (i_locklist st ip) (xs @ ys)"
      using cL [of ip] L by (intro linked_cong) auto
    then have "linked ?nx (i_locklist st ip) (xs @ ys)" using Ll [of ip] L by simp
    then have *: "linked (if xs = [] then ?nx else ?nx(last xs := Some c)) (if xs = [] then Some c else i_locklist st ip) (xs @ c # ys)"
      using Ld [of ip] cL [of ip] L by (intro linked_insert) auto
    have "linked (nxt st2) (i_locklist st2 ip) (xs @ c # ys) =
        linked (if xs = [] then ?nx else ?nx(last xs := Some c)) (i_locklist st2 ip) (xs @ c # ys)"
      using zL [of ip] L c(2) lx by (intro linked_cong) (auto simp: l2)
    moreover have "i_locklist st2 ip = (if xs = [] then Some c else i_locklist st ip)" by (simp add: i2)
    ultimately show ?thesis using * by (simp only:)
  qed
  have dist: "distinct (xs @ c # ys)" using Ld [of ip] cL [of ip] L by auto
  let ?L = "L(ip := xs @ c # ys)"
  have in_L: "(\<exists>jp. d \<in> set (?L jp)) \<longleftrightarrow> d = c \<or> (\<exists>jp. d \<in> set (L jp))" for d
  proof
    assume "\<exists>jp. d \<in> set (?L jp)"
    then obtain jp where "d \<in> set (?L jp)" ..
    then show "d = c \<or> (\<exists>jp. d \<in> set (L jp))" using L by (cases "jp = ip") (auto intro: exI [of _ ip])
  next
    assume "d = c \<or> (\<exists>jp. d \<in> set (L jp))"
    then show "\<exists>jp. d \<in> set (?L jp)"
    proof
      assume "\<exists>jp. d \<in> set (L jp)"
      then obtain jp where jp: "d \<in> set (L jp)" ..
      then show ?thesis using L by (intro exI [of _ jp]) auto
    qed (auto intro: exI [of _ ip])
  qed
  have cells2: "(ll_busy (ent st2 d) \<longleftrightarrow> (\<exists>ip. d \<in> set (?L ip))) \<and>
       (\<not> ll_busy (ent st2 d) \<longrightarrow> ll_proc (ent st2 d) = Some 0) \<and>
       ll_count (ent st2 d) = of_bool (ll_busy (ent st2 d)) + int (card (waiters st2 d)) \<and>
       (d \<in> set F \<longleftrightarrow> \<not> ll_busy (ent st2 d) \<and> waiters st2 d = {})" if "d \<in> cells st" for d
  proof (cases "d = c")
    case True
    then show ?thesis using free F(2) in_L [of d] by (simp add: e2 new_def n2)
  next
    case False
    have "d \<noteq> 0" using that by simp
    then have f: "ll_busy (ent st2 d) = ll_busy (ent st d)" "ll_proc (ent st2 d) = ll_proc (ent st d)" "ll_count (ent st2 d) = ll_count (ent st d)"
      using False by (simp_all add: e2)
    have "d \<in> set (c # F) \<longleftrightarrow> d \<in> set F" using False by simp
    then show ?thesis using cell [OF that] in_L [of d] False unfolding f n2(2) by blast
  qed
  have "lk_rep st2 F ?L"
    unfolding lk_rep_def
  proof (intro conjI allI impI ballI)
    show "locklist st2 \<noteq> []" using n2(1) n by auto
    show "ll_proc (ent st2 0) = Some 0" using init c(2) by (simp add: e2)
    show "linked (nxt st2) (nxt st2 0) F" by (fact lF)
    show "linked (nxt st2) (i_locklist st2 jp) (?L jp)" for jp using lo li by (cases "jp = ip") auto
    show "distinct F" using F(2) by simp
    show "distinct (?L jp)" for jp using dist Ld by simp
    show "set (?L jp) \<inter> set (?L kp) = {}" if "jp \<noteq> kp" for jp kp
      using LL [OF that] cL L that by auto
    show "set F \<subseteq> cells st2" using F(3) n2(1) by (simp add: n_def)
    show "set (?L jp) \<subseteq> cells st2" for jp using Lr [of jp] L c n2(1) by (auto simp: n_def)
    show "ll_ip (ent st2 d) = Some jp" if "d \<in> set (?L jp)" for jp d
      using that Lip [of d] L zL [of jp] zL [of ip] by (cases "jp = ip"; cases "d = c") (auto simp: e2 new_def cL)
    show "finite {q. p_dlchan st2 q \<noteq> None}" using W(1) n2(3) by simp
    show "d \<in> cells st2" if "p_dlchan st2 q = Some d" for q d using W(2) that n2 by (simp add: n_def)
    fix d assume "d \<in> cells st2"
    then have "d \<in> cells st" using n2(1) by (simp add: n_def)
    note x = cells2 [OF this]
    show "ll_busy (ent st2 d) \<longleftrightarrow> (\<exists>ip. d \<in> set (?L ip))" "ll_count (ent st2 d) = of_bool (ll_busy (ent st2 d)) + int (card (waiters st2 d))"
      "d \<in> set F \<longleftrightarrow> \<not> ll_busy (ent st2 d) \<and> waiters st2 d = {}"
      using x by blast+
    show "ll_proc (ent st2 d) = Some 0" if "\<not> ll_busy (ent st2 d)" using x that by blast
  qed
  moreover have "dat st2 d = dat st d" if "d \<noteq> c" for d using that by (simp add: dat_def e2)
  ultimately show ?thesis
    using env by (simp add: r e2 new_def)
qed

section \<open>Taking an entry out\<close>

lemma ent_check_lock_sleep: "ent (check_lock_sleep c st) d =
    (if d = c \<and> c < length (locklist st) then (ent st c)\<lparr>ll_iwant := False, ll_nfs := False\<rparr> else ent st d)"
  by (auto simp: check_lock_sleep_def Let_def ent_upd)

lemma check_lock_sleep_simps [simp]:
  "same_env st (check_lock_sleep c st)" "i_locklist (check_lock_sleep c st) = i_locklist st"
  "synced (check_lock_sleep c st) = synced st" "length (locklist (check_lock_sleep c st)) = length (locklist st)"
  "woken (check_lock_sleep c st) = woken st @ (if ll_iwant (ent st c) then [c] else [])"
  by (auto simp: check_lock_sleep_def Let_def)

lemma check_lock_sleep_rep: "lk_rep (check_lock_sleep c st) F L = lk_rep st F L"
  by (rule lk_rep_cong) (simp_all add: ent_check_lock_sleep)

lemma same_env_set_link [simp]: "same_env st (set_link ip cl v st)" "length (locklist (set_link ip cl v st)) = length (locklist st)"
  by (simp_all add: set_link_def same_env_def split: option.split)

lemma lockfree_rep:
  assumes rep: "lk_rep st F L" and L: "L ip = xs @ c # ys"
  defines "st' \<equiv> lockfree c (set_link ip (pred xs) (nxt st c) st)"
  shows "\<exists>F'. lk_rep st' F' (L(ip := xs @ ys)) \<and> same_env st st' \<and> (\<forall>d. d \<noteq> c \<longrightarrow> dat st' d = dat st d) \<and> synced st' = synced st \<and>
    woken st' = woken st @ (if ll_iwant (ent st c) then [c] else []) \<and> set F \<subseteq> set F' \<and> set F' \<subseteq> insert c (set F)"
proof -
  define n where "n = length (locklist st)"
  have F: "linked (nxt st) (nxt st 0) F" "distinct F" "set F \<subseteq> cells st" and init: "ll_proc (ent st 0) = Some 0"
    and ne: "locklist st \<noteq> []" and Ll: "\<And>jp. linked (nxt st) (i_locklist st jp) (L jp)" and Ld: "\<And>jp. distinct (L jp)"
    and Lr: "\<And>jp. set (L jp) \<subseteq> cells st" and LL: "\<And>ip jp. ip \<noteq> jp \<Longrightarrow> set (L ip) \<inter> set (L jp) = {}"
    and Lip: "\<And>jp d. d \<in> set (L jp) \<Longrightarrow> ll_ip (ent st d) = Some jp"
    and cell: "\<And>d. d \<in> cells st \<Longrightarrow> (ll_busy (ent st d) \<longleftrightarrow> (\<exists>ip. d \<in> set (L ip))) \<and>
       (\<not> ll_busy (ent st d) \<longrightarrow> ll_proc (ent st d) = Some 0) \<and>
       ll_count (ent st d) = of_bool (ll_busy (ent st d)) + int (card (waiters st d)) \<and>
       (d \<in> set F \<longleftrightarrow> \<not> ll_busy (ent st d) \<and> waiters st d = {})"
    and W: "finite {q. p_dlchan st q \<noteq> None}" "\<And>q d. p_dlchan st q = Some d \<Longrightarrow> d \<in> cells st"
    using rep by (simp_all add: lk_rep_def)
  have cL: "c \<in> set (L ip)" using L by simp
  then have c: "c < n" "c \<noteq> 0" "c \<in> cells st" using Lr [of ip] by (auto simp: n_def)
  have n: "0 < n" using ne by (simp add: n_def)
  have busy: "ll_busy (ent st c)" "ll_count (ent st c) = 1 + int (card (waiters st c))" "c \<notin> set F"
    using cell [OF c(3)] cL by auto
  have finw: "finite (waiters st c)" using W(1) by (rule rev_finite_subset) (auto simp: waiters_def)
  have zL: "0 \<notin> set (L jp)" for jp using Lr [of jp] by auto
  have zF: "0 \<notin> set F" using F(3) by auto
  have FL: "d \<in> set F \<Longrightarrow> d \<notin> set (L jp)" for d jp using cell [of d] F(3) by blast
  have dist: "distinct (xs @ c # ys)" using Ld [of ip] L by simp
  have lx: "last xs < n" "last xs \<noteq> 0" "last xs \<noteq> c" "last xs \<in> set (L ip)" if "xs \<noteq> []"
  proof -
    have "last xs \<in> set xs" using last_in_set [OF that] .
    then show "last xs < n" "last xs \<noteq> 0" "last xs \<noteq> c" "last xs \<in> set (L ip)"
      using Lr [of ip] L dist by (auto simp: n_def)
  qed
  let ?z = "waiters st c = {}"
  define old where "old = (ent st c)\<lparr>ll_iwant := False, ll_nfs := False, ll_ip := None, ll_busy := False, ll_proc := Some 0,
    ll_count := int (card (waiters st c)), ll_link := (if ?z then nxt st 0 else nxt st c)\<rparr>"
  define st0 where "st0 = set_link ip (pred xs) (nxt st c) st"
  have e0: "ent st0 d = (if xs \<noteq> [] \<and> d = last xs then (ent st d)\<lparr>ll_link := nxt st c\<rparr> else ent st d)" for d
    using lx by (auto simp: st0_def set_link_def pred_def ent_upd n_def)
  have n0: "length (locklist st0) = n" by (simp add: st0_def n_def)
  define st1 where "st1 = upd_ll c (\<lambda>e. e\<lparr>ll_ip := None, ll_busy := False, ll_proc := Some 0\<rparr>) (check_lock_sleep c st0)"
  have e1: "ent st1 d = (if d = c then (ent st c)\<lparr>ll_iwant := False, ll_nfs := False, ll_ip := None, ll_busy := False, ll_proc := Some 0\<rparr>
      else ent st0 d)" for d
    using c(1) lx e0 [of c] n0 by (auto simp: st1_def ent_upd ent_check_lock_sleep)
  have n1: "length (locklist st1) = n" by (simp add: st1_def n0)
  have st': "st' = lockdec c st1" by (simp add: st'_def lockfree_def st1_def st0_def)
  have e2: "ent st' d = (if d = c then old else if d = 0 then (if ?z then (ent st 0)\<lparr>ll_link := Some c\<rparr> else ent st 0)
      else if xs \<noteq> [] \<and> d = last xs then (ent st d)\<lparr>ll_link := nxt st c\<rparr> else ent st d)" for d
  proof -
    have "ent st0 0 = ent st 0" using e0 [of 0] lx by auto
    moreover have "int (card (waiters st c)) = 0 \<longleftrightarrow> ?z" using finw by simp
    ultimately show ?thesis
      using c(1,2) n n1 busy(2) by (auto simp: st' lockdec_def Let_def ent_upd e1 e0 old_def)
  qed
  have i2: "i_locklist st' = (if xs = [] then (i_locklist st)(ip := nxt st c) else i_locklist st)"
    by (simp add: st' lockdec_def st1_def st0_def set_link_def pred_def Let_def)
  have env: "same_env st st'" "synced st' = synced st" "woken st' = woken st @ (if ll_iwant (ent st c) then [c] else [])"
  proof -
    have "same_env st st0" "synced st0 = synced st" "woken st0 = woken st" "ll_iwant (ent st0 c) = ll_iwant (ent st c)"
      using e0 [of c] by (simp_all add: st0_def set_link_def pred_def)
    then have "same_env st st1" "synced st1 = synced st" "woken st1 = woken st @ (if ll_iwant (ent st c) then [c] else [])"
      using same_env_trans [of st st0 "check_lock_sleep c st0"] by (simp_all add: st1_def)
    then show "same_env st st'" "synced st' = synced st" "woken st' = woken st @ (if ll_iwant (ent st c) then [c] else [])"
      by (simp_all add: st' lockdec_def Let_def)
  qed
  have n2: "length (locklist st') = n" "waiters st' = waiters st" "p_dlchan st' = p_dlchan st"
    using env(1) by (simp_all add: same_env_def n_def waiters_def fun_eq_iff)
  define F' where "F' = (if ?z then c # F else F)"
  have l2: "nxt st' d = (if d = c then (if ?z then nxt st 0 else nxt st c) else if d = 0 then (if ?z then Some c else nxt st 0)
      else if xs \<noteq> [] \<and> d = last xs then nxt st c else nxt st d)" for d
    by (simp add: e2 old_def)
  have lF: "linked (nxt st') (nxt st' 0) F'"
  proof -
    have "linked (nxt st') (nxt st 0) F = linked (nxt st) (nxt st 0) F"
      using zF FL busy(3) lx by (intro linked_cong) (auto simp: l2)
    then show ?thesis using F(1) c(2) by (simp add: F'_def l2)
  qed
  have lo: "linked (nxt st') (i_locklist st' jp) (L jp)" if "jp \<noteq> ip" for jp
  proof -
    have "linked (nxt st') (i_locklist st jp) (L jp) = linked (nxt st) (i_locklist st jp) (L jp)"
      using cL zL LL [OF that] lx by (intro linked_cong) (auto simp: l2)
    then show ?thesis using Ll that by (simp add: i2)
  qed
  have li: "linked (nxt st') (i_locklist st' ip) (xs @ ys)"
  proof -
    have *: "linked (if xs = [] then nxt st else (nxt st)(last xs := nxt st c)) (if xs = [] then nxt st c else i_locklist st ip) (xs @ ys)"
      using linked_remove [of "nxt st" "i_locklist st ip" xs c ys] Ll [of ip] L dist by simp
    have "linked (nxt st') (i_locklist st' ip) (xs @ ys) =
        linked (if xs = [] then nxt st else (nxt st)(last xs := nxt st c)) (i_locklist st' ip) (xs @ ys)"
    proof (rule linked_cong)
      fix x assume "x \<in> set (xs @ ys)"
      then have "x \<noteq> c" "x \<noteq> 0" using zL [of ip] L dist by auto
      then show "nxt st' x = (if xs = [] then nxt st else (nxt st)(last xs := nxt st c)) x" by (simp add: l2)
    qed
    moreover have "i_locklist st' ip = (if xs = [] then nxt st c else i_locklist st ip)" by (simp add: i2)
    ultimately show ?thesis using * by (simp only:)
  qed
  let ?L = "L(ip := xs @ ys)"
  have in_L: "d \<noteq> c \<Longrightarrow> d \<in> set (?L jp) \<longleftrightarrow> d \<in> set (L jp)" "c \<notin> set (?L jp)" for d jp
    using L dist cL LL [of jp ip] by auto
  have "lk_rep st' F' ?L"
    unfolding lk_rep_def
  proof (intro conjI allI impI ballI)
    show "locklist st' \<noteq> []" using n2(1) n by auto
    show "ll_proc (ent st' 0) = Some 0" using init c(2) by (simp add: e2)
    show "linked (nxt st') (nxt st' 0) F'" by (fact lF)
    show "linked (nxt st') (i_locklist st' jp) (?L jp)" for jp using lo li by (cases "jp = ip") auto
    show "distinct F'" using F(2) busy(3) by (simp add: F'_def)
    show "distinct (?L jp)" for jp using dist Ld by simp
    show "set (?L jp) \<inter> set (?L kp) = {}" if "jp \<noteq> kp" for jp kp
      using LL [OF that] L that by auto
    show "set F' \<subseteq> cells st'" using F(3) c n2(1) by (simp add: n_def F'_def)
    show "set (?L jp) \<subseteq> cells st'" for jp using Lr [of jp] L n2(1) by (auto simp: n_def)
    show "ll_ip (ent st' d) = Some jp" if "d \<in> set (?L jp)" for jp d
    proof -
      have d: "d \<noteq> c" using that in_L(2) by blast
      have x: "d \<in> set (L jp)" using that in_L(1) [OF d] by blast
      then have "d \<noteq> 0" using zL [of jp] by (cases "d = 0") simp_all
      then show ?thesis using d Lip [OF x] by (auto simp: e2)
    qed
    show "finite {q. p_dlchan st' q \<noteq> None}" using W(1) n2(3) by simp
    show "d \<in> cells st'" if "p_dlchan st' q = Some d" for q d using W(2) that n2 by (simp add: n_def)
    fix d assume "d \<in> cells st'"
    then have d: "d \<in> cells st" "d \<noteq> 0" using n2(1) by (simp_all add: n_def)
    have "(ll_busy (ent st' d) \<longleftrightarrow> (\<exists>ip. d \<in> set (?L ip))) \<and>
       (\<not> ll_busy (ent st' d) \<longrightarrow> ll_proc (ent st' d) = Some 0) \<and>
       ll_count (ent st' d) = of_bool (ll_busy (ent st' d)) + int (card (waiters st' d)) \<and>
       (d \<in> set F' \<longleftrightarrow> \<not> ll_busy (ent st' d) \<and> waiters st' d = {})"
    proof (cases "d = c")
      case True
      then show ?thesis using busy(3) in_L(2) by (simp add: e2 old_def n2 F'_def del: fun_upd_apply)
    next
      case False
      then have a: "d \<in> set F' \<longleftrightarrow> d \<in> set F" "(\<exists>ip. d \<in> set (?L ip)) \<longleftrightarrow> (\<exists>ip. d \<in> set (L ip))"
        using in_L(1) [OF False] by (simp_all add: F'_def)
      have f: "ll_busy (ent st' d) = ll_busy (ent st d)" "ll_proc (ent st' d) = ll_proc (ent st d)" "ll_count (ent st' d) = ll_count (ent st d)"
        using False d(2) by (simp_all add: e2)
      show ?thesis using cell [OF d(1)] unfolding n2(2) a f by blast
    qed
    then show "ll_busy (ent st' d) \<longleftrightarrow> (\<exists>ip. d \<in> set (?L ip))" "ll_count (ent st' d) = of_bool (ll_busy (ent st' d)) + int (card (waiters st' d))"
      "d \<in> set F' \<longleftrightarrow> \<not> ll_busy (ent st' d) \<and> waiters st' d = {}" "\<not> ll_busy (ent st' d) \<Longrightarrow> ll_proc (ent st' d) = Some 0"
      by blast+
  qed
  moreover have "dat st' d = dat st d" if "d \<noteq> c" for d using that by (simp add: dat_def e2)
  moreover have "set F \<subseteq> set F'" "set F' \<subseteq> insert c (set F)" by (auto simp: F'_def)
  ultimately show ?thesis using env by blast
qed

end
