(* ===== verification/Lockf_Ops.thy ===== *)
theory Lockf_Ops
  imports Lockf_List
begin

text \<open>
  The walks of \<^verbatim>\<open>insert_lock\<close>, \<^verbatim>\<open>compress_lock_list\<close>, \<^verbatim>\<open>delete_lock\<close> and \<^verbatim>\<open>unlock\<close> over the list
  of a file, against the operations on ranges.
\<close>

section \<open>The locks of one process\<close>

lemma exI3: "P a b c \<Longrightarrow> \<exists>x y z. P x y z"
  by blast

definition rg :: "lkstate \<Rightarrow> nat \<Rightarrow> range" where
  "rg st c = (ll_start (ent st c), ll_end (ent st c), ll_type (ent st c))"

lemma rg_dat: "dat st' c = dat st c \<Longrightarrow> rg st' c = rg st c"
  using dat_fields [of st' c st] by (simp add: rg_def)

lemma my_dat: "dat st' c = dat st c \<Longrightarrow> is_my_lock p c st' = is_my_lock p c st"
  using dat_fields(3) [of st' c st] by (simp add: is_my_lock_def)

lemma is_my_lock_mild: "mild f \<Longrightarrow> is_my_lock p c (upd_ll d f st) = is_my_lock p c st"
  by (simp add: is_my_lock_def ent_upd mild_def)

lemma rg_upd_other: "d \<noteq> c \<Longrightarrow> rg (upd_ll c f st) d = rg st d"
  by (simp add: rg_def ent_upd)

lemma rep_linked: "lk_rep st F L \<Longrightarrow> linked (nxt st) (i_locklist st ip) (L ip)"
  by (simp add: lk_rep_def)

lemma rep_distinct: "lk_rep st F L \<Longrightarrow> distinct (L ip)"
  by (simp add: lk_rep_def)

lemma rep_tail: "lk_rep st F L \<Longrightarrow> L ip = xs @ c # ys \<Longrightarrow> linked (nxt st) (nxt st c) ys"
  using rep_linked [of st F L ip] linked_tail [of "nxt st" "i_locklist st ip" xs c ys] by simp

lemma rep_next: "lk_rep st F L \<Longrightarrow> L ip = xs @ c # ys \<Longrightarrow> nxt st c = (case ys of [] \<Rightarrow> None | d # _ \<Rightarrow> Some d)"
  using rep_tail [of st F L ip xs c ys] by (cases ys) auto

lemma rep_length: "lk_rep st F L \<Longrightarrow> length (L ip) < length (locklist st)"
proof -
  assume r: "lk_rep st F L"
  then have "distinct (L ip)" "set (L ip) \<subseteq> cells st" "locklist st \<noteq> []" by (simp_all add: lk_rep_def)
  then have "length (L ip) \<le> card (cells st)" using card_mono [of "cells st" "set (L ip)"] distinct_card [of "L ip"] by simp
  then show ?thesis using \<open>locklist st \<noteq> []\<close> by (cases "locklist st") auto
qed

section \<open>compress_lock_list\<close>

declare compress_walk.simps [simp del]

lemma compress_skip:
  assumes "linked (nxt st) (nxt st cl) ys" and "\<forall>c \<in> set ys. is_my_lock p c st \<longrightarrow> UB < ll_start (ent st c)" and "length ys \<le> n"
  shows "compress_walk n p LB UB nl cl st = Ret st"
  using assms
proof (induction ys arbitrary: n cl)
  case Nil
  then show ?case by (simp add: compress_walk.simps [of n])
next
  case (Cons c ys)
  then obtain k where k: "n = Suc k" by (cases n) auto
  have "compress_walk k p LB UB nl c st = Ret st" using Cons k by simp
  then show ?case using Cons.prems k by (subst compress_walk.simps) auto
qed

lemma compress_walk_ok:
  assumes "lk_rep st F L" and "L ip = xs @ z # r @ b" and "\<forall>c \<in> set r. is_my_lock p c st" and "\<forall>c \<in> set b. \<not> is_my_lock p c st"
    and "sorted_rg (map (rg st) r)" and "\<forall>v \<in> set (map (rg st) r). LB \<le> fst v" and "LB < UB" and "length r + length b \<le> n"
  shows "\<exists>st' F' r'. compress_walk n p LB UB z z st = Ret st' \<and> lk_rep st' F' (L(ip := xs @ z # r' @ b)) \<and> same_env st st' \<and>
    (\<forall>c. c \<notin> set r \<longrightarrow> dat st' c = dat st c) \<and> map (rg st') r' = cut_below UB (map (rg st) r) \<and> set r' \<subseteq> set r \<and>
    (\<forall>c \<in> set r'. is_my_lock p c st') \<and> synced st' = synced st"
  using assms
proof (induction r arbitrary: xs z st F L n)
  case Nil
  have w: "compress_walk n p LB UB z z st = Ret st"
    using rep_tail [OF Nil.prems(1,2)] Nil.prems by (intro compress_skip) auto
  show ?case
    by (rule exI3 [of _ st F "[]"]) (use w Nil.prems in \<open>simp add: fun_upd_idem\<close>)
next
  case (Cons c r)
  note rep = Cons.prems(1) and L = Cons.prems(2)
  have L2: "L ip = (xs @ [z]) @ c # r @ b" using L by simp
  have nx: "nxt st z = Some c" using rep_next [OF rep, of ip xs z "(c # r) @ b"] L by simp
  have c: "c < length (locklist st)" "c \<noteq> 0" using rep_cell [OF rep L2] by simp_all
  have dist: "distinct (xs @ z # c # r @ b)" using rep_distinct [OF rep, of ip] L by simp
  have own: "is_my_lock p c st" using Cons.prems(3) by simp
  obtain s e t where v: "rg st c = (s, e, t)" by (cases "rg st c")
  then have ev: "ll_start (ent st c) = s" "ll_end (ent st c) = e" "ll_type (ent st c) = t" by (simp_all add: rg_def)
  have srt: "s < e" "\<forall>w \<in> set (map (rg st) r). e \<le> fst w" "sorted_rg (map (rg st) r)" "LB \<le> s"
    using Cons.prems(5,6) v by auto
  obtain k where k: "n = Suc k" "length r + length b \<le> k" using Cons.prems(8) by (cases n) auto
  show ?case
  proof (cases "UB < s")
    case True
    have w: "compress_walk n p LB UB z z st = Ret st"
    proof (rule compress_skip)
      show "linked (nxt st) (nxt st z) ((c # r) @ b)" using rep_tail [OF rep L] by simp
      show "\<forall>d \<in> set ((c # r) @ b). is_my_lock p d st \<longrightarrow> UB < ll_start (ent st d)"
        using Cons.prems(4) True srt(1,2) ev by (auto simp: rg_def)
    qed (use Cons.prems(8) in simp)
    have cut: "cut_below UB (map (rg st) (c # r)) = map (rg st) (c # r)"
      using True srt v by (intro cut_below_id) auto
    show ?thesis
      by (rule exI3 [of _ st F "c # r"]) (use w cut rep L Cons.prems(3) in \<open>simp add: fun_upd_idem\<close>)
  next
    case False
    show ?thesis
    proof (cases "UB < e")
      case True
      define st1 where "st1 = upd_ll c (\<lambda>e. e\<lparr>ll_start := UB\<rparr>) st"
      have w: "compress_walk n p LB UB z z st = compress_walk k p LB UB c c st1"
        using nx own ev False True srt(4) Cons.prems(7)
        by (subst compress_walk.simps) (auto simp: k st1_def find_lock_range_def Let_def)
      have r1: "lk_rep st1 F L" using rep by (simp add: st1_def mild_rep)
      have m1: "is_my_lock p d st1 = is_my_lock p d st" for d by (simp add: st1_def is_my_lock_mild)
      have cr: "map (rg st1) r = map (rg st) r" using dist by (auto simp: st1_def intro!: rg_upd_other)
      have v1: "rg st1 c = (UB, e, t)" using c ev by (simp add: rg_def st1_def ent_upd)
      obtain st' F' r' where IH: "compress_walk k p LB UB c c st1 = Ret st'" "lk_rep st' F' (L(ip := (xs @ [z]) @ c # r' @ b))" "same_env st1 st'"
          "\<forall>d. d \<notin> set r \<longrightarrow> dat st' d = dat st1 d" "map (rg st') r' = cut_below UB (map (rg st) r)" "set r' \<subseteq> set r"
          "\<forall>d \<in> set r'. is_my_lock p d st'" "synced st' = synced st1"
      proof -
        have "\<forall>d \<in> set r. is_my_lock p d st1" "\<forall>d \<in> set b. \<not> is_my_lock p d st1" "sorted_rg (map (rg st1) r)"
          "\<forall>v \<in> set (map (rg st1) r). LB \<le> fst v"
          using Cons.prems(3,4,6) srt(3) unfolding m1 cr by auto
        from Cons.IH [OF r1 L2 this Cons.prems(7) k(2)] show ?thesis using that unfolding cr by blast
      qed
      have cn: "c \<notin> set r" using dist by simp
      have "dat st' c = dat st1 c" using IH(4) cn by simp
      then have vc: "rg st' c = (UB, e, t)" "is_my_lock p c st'" using v1 own rg_dat my_dat m1 by metis+
      have "dat st' d = dat st d" if "d \<notin> set (c # r)" for d
        using that IH(4) by (simp add: st1_def dat_upd_other)
      moreover have "same_env st st'" using IH(3) by (simp add: st1_def same_env_def)
      moreover have "synced st' = synced st" using IH(8) by (simp add: st1_def)
      moreover have "map (rg st') (c # r') = cut_below UB (map (rg st) (c # r))" using IH(5) vc v False True by simp
      moreover have "set (c # r') \<subseteq> set (c # r)" "\<forall>d \<in> set (c # r'). is_my_lock p d st'" using IH(6,7) vc by auto
      moreover have "lk_rep st' F' (L(ip := xs @ z # (c # r') @ b))" using IH(2) by simp
      ultimately show ?thesis using IH(1) w by metis
    next
      case False2: False
      define st1 where "st1 = lockfree c (upd_ll z (\<lambda>e. e\<lparr>ll_link := nxt st c\<rparr>) st)"
      have st1: "st1 = lockfree c (set_link ip (pred (xs @ [z])) (nxt st c) st)" by (simp add: st1_def set_link_def)
      obtain F1 where r1: "lk_rep st1 F1 (L(ip := (xs @ [z]) @ r @ b))" "same_env st st1" "\<forall>d. d \<noteq> c \<longrightarrow> dat st1 d = dat st d"
          "synced st1 = synced st"
        using lockfree_rep [OF rep L2] unfolding st1 by blast
      have w: "compress_walk n p LB UB z z st = (if nxt st1 z = None then Ret st1 else compress_walk k p LB UB z z st1)"
        using nx own ev \<open>\<not> UB < s\<close> False2 srt(4) srt(1) Cons.prems(7)
        by (subst compress_walk.simps) (auto simp: k st1_def find_lock_range_def Let_def)
      have cut: "cut_below UB (map (rg st) (c # r)) = cut_below UB (map (rg st) r)" using \<open>\<not> UB < s\<close> False2 v by simp
      have L1: "(L(ip := (xs @ [z]) @ r @ b)) ip = xs @ z # r @ b" by simp
      have cn: "c \<notin> set r" "c \<notin> set b" "c \<noteq> z" using dist by auto
      have m1: "\<forall>d \<in> set r. is_my_lock p d st1" "\<forall>d \<in> set b. \<not> is_my_lock p d st1"
        using Cons.prems(3,4) r1(3) cn my_dat by (metis list.set_intros(2))+
      have cr: "map (rg st1) r = map (rg st) r" using r1(3) cn rg_dat by (metis (no_types, lifting) map_cong)
      show ?thesis
      proof (cases "nxt st1 z = None")
        case True
        then have rb: "r = [] \<and> b = []" using rep_next [OF r1(1) L1] by (auto split: list.splits)
        show ?thesis
          by (rule exI3 [of _ st1 F1 "[]"]) (use rb w True r1 cut in \<open>simp del: fun_upd_apply\<close>)
      next
        case False
        obtain st' F' r' where IH: "compress_walk k p LB UB z z st1 = Ret st'" "lk_rep st' F' ((L(ip := (xs @ [z]) @ r @ b))(ip := xs @ z # r' @ b))"
          "same_env st1 st'"
          "\<forall>d. d \<notin> set r \<longrightarrow> dat st' d = dat st1 d" "map (rg st') r' = cut_below UB (map (rg st) r)" "set r' \<subseteq> set r"
          "\<forall>d \<in> set r'. is_my_lock p d st'" "synced st' = synced st1"
        proof -
          have "sorted_rg (map (rg st1) r)" "\<forall>v \<in> set (map (rg st1) r). LB \<le> fst v"
            using Cons.prems(6) srt(3) unfolding cr by auto
          from Cons.IH [OF r1(1) L1 m1 this Cons.prems(7) k(2)] show ?thesis using that unfolding cr by blast
        qed
        have "same_env st st'" using r1(2) IH(3) by (rule same_env_trans)
        moreover have "dat st' d = dat st d" if "d \<notin> set (c # r)" for d using that IH(4) r1(3) by simp
        moreover have "lk_rep st' F' (L(ip := xs @ z # r' @ b))" using IH(2) by simp
        moreover have "compress_walk n p LB UB z z st = Ret st'" using IH(1) w False by simp
        moreover have "set r' \<subseteq> set (c # r)" using IH(6) by auto
        ultimately show ?thesis using IH(5,7,8) cut r1(4) by metis
      qed
    qed
  qed
qed

section \<open>insert_lock\<close>

text \<open>The locks \<open>m\<close> became others with the ranges \<open>vs\<close>, between \<open>xs\<close> and \<open>b\<close>; or nothing changed.\<close>

definition moved :: "nat \<Rightarrow> nat \<Rightarrow> nat list \<Rightarrow> nat list \<Rightarrow> nat list \<Rightarrow> range list \<Rightarrow> nat list \<Rightarrow> (nat \<Rightarrow> nat list) \<Rightarrow> lkstate \<Rightarrow> lkstate \<Rightarrow> bool" where
  "moved p ip xs m b vs F L st st' \<longleftrightarrow>
     (\<exists>F' m'. lk_rep st' F' (L(ip := xs @ m' @ b)) \<and> map (rg st') m' = vs \<and> (\<forall>c \<in> set m'. is_my_lock p c st')) \<and>
     (\<forall>c. c \<notin> set F \<union> set m \<longrightarrow> dat st' c = dat st c) \<and> same_env st st'"

definition kept :: "nat list \<Rightarrow> (nat \<Rightarrow> nat list) \<Rightarrow> lkstate \<Rightarrow> lkstate \<Rightarrow> bool" where
  "kept F L st st' \<longleftrightarrow> (\<exists>F'. lk_rep st' F' L) \<and> (\<forall>c. c \<notin> set F \<longrightarrow> dat st' c = dat st c) \<and> same_env st st'"

text \<open>
  Too few entries are free for a request on a file where the caller has the ranges \<open>vs\<close>: none,
  or only one though a lock of another type has to be cut in two around the new one.
\<close>

abbreviation full_error :: "lockf_type \<Rightarrow> errno" where
  "full_error fn \<equiv> (if fn = L_LOCKF then EDEADLK else ENOLCK)"

definition short :: "nat list \<Rightarrow> int \<Rightarrow> int \<Rightarrow> int \<Rightarrow> range list \<Rightarrow> bool" where
  "short F LB UB ty vs \<longleftrightarrow> F = [] \<or> length F = 1 \<and> (\<exists>(s, e, t) \<in> set vs. s < LB \<and> UB < e \<and> t \<noteq> ty)"

lemma short_mono: "short F LB UB ty vs \<Longrightarrow> set vs \<subseteq> set ws \<Longrightarrow> short F LB UB ty ws"
  unfolding short_def by blast

lemma short_none: "short [] LB UB ty vs"
  by (simp add: short_def)

lemma movedI:
  assumes "lk_rep st' F' (L(ip := xs @ m' @ b))" and "map (rg st') m' = vs" and "\<forall>c \<in> set m'. is_my_lock p c st'"
    and "\<And>c. c \<notin> set F \<Longrightarrow> c \<notin> set m \<Longrightarrow> dat st' c = dat st c" and "same_env st st'"
  shows "moved p ip xs m b vs F L st st'"
  using assms unfolding moved_def by blast

lemma kept_refl: "lk_rep st F L \<Longrightarrow> kept F L st st"
  by (auto simp: kept_def)

lemma lockadd_at:
  assumes rep: "lk_rep st F L" and L: "L ip = xs @ ys" and p: "p \<noteq> 0"
  obtains (full) "lockadd p ip (pred xs) LB UB fn ty st = (full_error fn, st)" "F = []"
  | (added) c F' st' where "lockadd p ip (pred xs) LB UB fn ty st = (E_OK, st')" "F = c # F'" "lk_rep st' F' (L(ip := xs @ c # ys))"
      "same_env st st'" "\<forall>d. d \<noteq> c \<longrightarrow> dat st' d = dat st d" "rg st' c = (LB, UB, ty)" "is_my_lock p c st'" "synced st' = synced st"
      "c \<notin> set xs" "c \<notin> set ys"
proof (cases F)
  case Nil
  then show ?thesis using lockadd_full [of st L p ip "pred xs" LB UB fn ty] rep Nil by (intro full) (auto split: if_splits)
next
  case (Cons c F')
  obtain e st' where r: "lockadd p ip (pred xs) LB UB fn ty st = (e, st')" by (cases "lockadd p ip (pred xs) LB UB fn ty st")
  note x = lockadd_rep [OF rep [unfolded Cons] L p, of LB UB fn ty, unfolded r fst_conv snd_conv]
  have "distinct (xs @ c # ys)" using x rep_distinct [of st' F' "L(ip := xs @ c # ys)" ip] by simp
  then show ?thesis using x r Cons by (intro added [of st' c F']) (auto simp: rg_def is_my_lock_def)
qed

lemma mild_moved:
  assumes "lk_rep st F L" and "L ip = xs @ d # r @ b" and "mild f" and "\<forall>c \<in> set (d # r). is_my_lock p c st"
    and "rg (upd_ll d f st) d = v"
  shows "moved p ip xs (d # r) b (v # map (rg st) r) F L st (upd_ll d f st)"
proof (rule movedI [where m' = "d # r" and F' = F])
  have "distinct (xs @ d # r @ b)" using rep_distinct [OF assms(1), of ip] assms(2) by simp
  then show "map (rg (upd_ll d f st)) (d # r) = v # map (rg st) r"
    using assms(5) by (auto intro!: rg_upd_other)
  show "lk_rep (upd_ll d f st) F (L(ip := xs @ (d # r) @ b))" using assms(1-3) by (simp add: mild_rep fun_upd_idem)
  show "\<forall>c \<in> set (d # r). is_my_lock p c (upd_ll d f st)" using assms(3,4) by (simp add: is_my_lock_mild)
qed (auto simp: dat_upd_other)

text \<open>A further in-place change of one of the new locks.\<close>

lemma rg_upd: "c < length (locklist st) \<Longrightarrow> rg (upd_ll c f st) c = (ll_start (f (ent st c)), ll_end (f (ent st c)), ll_type (f (ent st c)))"
  by (simp add: rg_def ent_upd)

lemma add_before:
  assumes rep: "lk_rep st F L" and L: "L ip = xs @ d # r @ b" and own: "\<forall>c \<in> set (d # r). is_my_lock p c st"
    and st1: "F = c # F'" "lk_rep st1 F' (L(ip := xs @ c # d # r @ b))" "same_env st st1" "\<forall>e. e \<noteq> c \<longrightarrow> dat st1 e = dat st e"
      "rg st1 c = w" "is_my_lock p c st1" "c \<notin> set (d # r @ b)"
    and f: "mild f" "rg (upd_ll d f st1) d = v"
  shows "moved p ip xs (d # r) b (w # v # map (rg st) r) F L st (upd_ll d f st1)"
proof (rule movedI [where m' = "c # d # r" and F' = F'])
  have "d \<notin> set r" "c \<noteq> d" using rep_distinct [OF rep, of ip] L st1(7) by auto
  then have "rg (upd_ll d f st1) c = w" "\<forall>e \<in> set r. rg (upd_ll d f st1) e = rg st e"
    using st1(4,5,7) rg_dat rg_upd_other by (metis, metis Un_iff list.set_intros(2) set_append)
  then show "map (rg (upd_ll d f st1)) (c # d # r) = w # v # map (rg st) r" using f(2) by simp
  show "lk_rep (upd_ll d f st1) F' (L(ip := xs @ (c # d # r) @ b))" using st1(2) f(1) by (simp add: mild_rep)
  have "\<forall>e \<in> set (d # r). is_my_lock p e st1" using own st1(4,7) my_dat by (metis Un_iff append_Cons set_append)
  then show "\<forall>e \<in> set (c # d # r). is_my_lock p e (upd_ll d f st1)" using st1(6) f(1) by (simp add: is_my_lock_mild)
  show "dat (upd_ll d f st1) e = dat st e" if "e \<notin> set F" "e \<notin> set (d # r)" for e
    using that st1(1,4) by (simp add: dat_upd_other)
  show "same_env st (upd_ll d f st1)" using st1(3) by simp
qed

lemma add_after:
  assumes rep: "lk_rep st F L" and L: "L ip = xs @ d # r @ b" and own: "\<forall>c \<in> set (d # r). is_my_lock p c st"
    and st1: "F = c # F'" "lk_rep st1 F' (L(ip := (xs @ [d]) @ c # r @ b))" "same_env st st1" "\<forall>e. e \<noteq> c \<longrightarrow> dat st1 e = dat st e"
      "rg st1 c = w" "is_my_lock p c st1" "c \<notin> set (xs @ [d])" "c \<notin> set (r @ b)"
    and f: "mild f" "rg (upd_ll d f st1) d = v"
  defines "st2 \<equiv> upd_ll d f st1"
  shows "lk_rep st2 F' (L(ip := xs @ ([d] @ c # r) @ b)) \<and> map (rg st2) (d # c # r) = v # w # map (rg st) r \<and>
    (\<forall>e \<in> set (d # c # r). is_my_lock p e st2) \<and> (\<forall>e. e \<notin> set F \<and> e \<notin> set (d # r) \<longrightarrow> dat st2 e = dat st e) \<and> same_env st st2"
proof (intro conjI)
  have "d \<notin> set r" "c \<noteq> d" using rep_distinct [OF rep, of ip] L st1(7) by auto
  then have "rg st2 c = w" "\<forall>e \<in> set r. rg st2 e = rg st e"
    using st1(4,5,8) rg_dat rg_upd_other unfolding st2_def by (metis, metis Un_iff set_append)
  then show "map (rg st2) (d # c # r) = v # w # map (rg st) r" using f(2) by (simp add: st2_def)
  show "lk_rep st2 F' (L(ip := xs @ ([d] @ c # r) @ b))" using st1(2) f(1) by (simp add: st2_def mild_rep)
  have "\<forall>e \<in> set (d # r). is_my_lock p e st1" using own st1(4,8) \<open>c \<noteq> d\<close> my_dat by (metis Un_iff set_append set_ConsD)
  then show "\<forall>e \<in> set (d # c # r). is_my_lock p e st2" using st1(6) f(1) by (simp add: st2_def is_my_lock_mild)
  show "\<forall>e. e \<notin> set F \<and> e \<notin> set (d # r) \<longrightarrow> dat st2 e = dat st e"
    using st1(1,4) by (simp add: st2_def dat_upd_other)
  show "same_env st st2" using st1(3) by (simp add: st2_def)
qed

lemma compress_moved:
  assumes rep: "lk_rep st1 F1 (L(ip := xs @ (ys @ z # r) @ b))" and own: "\<forall>e \<in> set (ys @ z # r). is_my_lock p e st1"
    and b: "\<forall>e \<in> set b. \<not> is_my_lock p e st1" and r: "map (rg st1) r = map (rg st) r" "sorted_rg (map (rg st) r)"
      "\<forall>v \<in> set (map (rg st) r). LB \<le> fst v" "LB < UB"
    and fr: "\<forall>e. e \<notin> set F \<and> e \<notin> set m \<longrightarrow> dat st1 e = dat st e" "same_env st st1" "set r \<subseteq> set m"
  shows "\<exists>st2. compress_lock_list p z LB UB st1 = Ret st2 \<and>
    moved p ip xs m b (map (rg st1) (ys @ [z]) @ cut_below UB (map (rg st) r)) F L st st2"
proof -
  let ?L = "L(ip := xs @ (ys @ z # r) @ b)"
  have L: "?L ip = (xs @ ys) @ z # r @ b" by simp
  have n: "length r + length b \<le> length (locklist st1)" using rep_length [OF rep, of ip] by simp
  have or: "\<forall>e \<in> set r. is_my_lock p e st1" using own by simp
  have sr: "sorted_rg (map (rg st1) r)" "\<forall>v \<in> set (map (rg st1) r). LB \<le> fst v" using r(2,3) unfolding r(1) by blast+
  from compress_walk_ok [OF rep L or b sr r(4) n] obtain st2 F2 r' where
    c: "compress_walk (length (locklist st1)) p LB UB z z st1 = Ret st2" "lk_rep st2 F2 (?L(ip := (xs @ ys) @ z # r' @ b))" "same_env st1 st2"
      "\<forall>c. c \<notin> set r \<longrightarrow> dat st2 c = dat st1 c" "map (rg st2) r' = cut_below UB (map (rg st1) r)" "set r' \<subseteq> set r"
      "\<forall>c \<in> set r'. is_my_lock p c st2"
    by blast
  have dist: "\<forall>e \<in> set (ys @ [z]). e \<notin> set r" using rep_distinct [OF rep, of ip] by auto
  then have d2: "\<forall>e \<in> set (ys @ [z]). dat st2 e = dat st1 e" using c(4) by blast
  have "moved p ip xs m b (map (rg st1) (ys @ [z]) @ cut_below UB (map (rg st) r)) F L st st2"
  proof (rule movedI [where m' = "ys @ z # r'" and F' = F2])
    show "lk_rep st2 F2 (L(ip := xs @ (ys @ z # r') @ b))" using c(2) by simp
    have "map (rg st2) (ys @ [z]) = map (rg st1) (ys @ [z])" using d2 by (intro map_cong refl rg_dat) blast
    then show "map (rg st2) (ys @ z # r') = map (rg st1) (ys @ [z]) @ cut_below UB (map (rg st) r)" using c(5) r(1) by simp
    have "is_my_lock p e st2" if "e \<in> set (ys @ [z])" for e
      using my_dat [of st2 e st1 p] d2 own that by auto
    then show "\<forall>e \<in> set (ys @ z # r'). is_my_lock p e st2" using c(7) by auto
    show "dat st2 e = dat st e" if "e \<notin> set F" "e \<notin> set m" for e
    proof -
      have "e \<notin> set r" using that(2) fr(3) by blast
      then show ?thesis using that c(4) fr(1) by simp
    qed
    show "same_env st st2" using fr(2) c(3) by (rule same_env_trans)
  qed
  then show ?thesis using c(1) by (auto simp: compress_lock_list_def)
qed

text \<open>Inside a lock of another type: two new entries, or none.\<close>

lemma insert_middle:
  fixes LB UB :: int and fn ty
  assumes rep: "lk_rep st F L" and L: "L ip = xs @ d # r @ b" and own: "\<forall>c \<in> set (d # r). is_my_lock p c st" and p: "p \<noteq> 0"
    and v: "rg st d = (s, e, t)"
  defines "R \<equiv> split_lock p ip LB UB fn ty (pred xs) d st"
  shows "(\<exists>st1. R = (Return E_OK, st1) \<and> moved p ip xs (d # r) b ((s, LB, t) # (LB, UB, ty) # (UB, e, t) # map (rg st) r) F L st st1) \<or>
    (\<exists>st1. R = (Return (full_error fn), st1) \<and> kept F L st st1 \<and> (F = [] \<or> length F = 1))"
proof (rule lockadd_at [OF rep L p, of s LB fn t], goal_cases)
  case full: 1
  then have "R = (Return (full_error fn), st)" using v by (simp add: R_def split_lock_def rg_def)
  then show ?thesis using full(2) kept_refl [OF rep] by blast
next
  case added: (2 c F1 st1)
  let ?L1 = "L(ip := xs @ c # d # r @ b)"
  have gl: "get_link ip (pred xs) st1 = Some c"
    using get_link_pred [OF added(3), of ip xs "c # d # r @ b"] by simp
  have L1: "?L1 ip = (xs @ [c]) @ d # r @ b" by simp
  have pc: "pred (xs @ [c]) = Some c" by simp
  have dist1: "distinct (xs @ c # d # r @ b)" using rep_distinct [OF added(3), of ip] by simp
  show ?thesis
  proof (rule lockadd_at [OF added(3) L1 p, of LB UB fn ty, unfolded pc], goal_cases)
    case full: 1
    have nx: "nxt st1 c = Some d" using rep_next [OF added(3), of ip xs c "d # r @ b"] by simp
    let ?st2 = "lockfree c (set_link ip (pred xs) (nxt st1 c) st1)"
    have R: "R = (Return (full_error fn), ?st2)" using v added(1) full gl nx by (simp add: R_def split_lock_def rg_def)
    have L1': "?L1 ip = xs @ c # (d # r @ b)" by simp
    obtain F2 where "lk_rep ?st2 F2 (?L1(ip := xs @ d # r @ b))" "same_env st1 ?st2" "\<forall>e. e \<noteq> c \<longrightarrow> dat ?st2 e = dat st1 e"
      using lockfree_rep [OF added(3) L1'] by blast
    moreover have "?L1(ip := xs @ d # r @ b) = L" using L by (auto simp: fun_eq_iff)
    ultimately have "kept F L st ?st2"
      using added(2,4,5) by (auto simp: kept_def intro: same_env_trans)
    moreover have "length F = 1" using added(2) full(2) by simp
    ultimately show ?thesis using R by blast
  next
    case added2: (2 c2 F2 st2)
    let ?f = "\<lambda>e. e\<lparr>ll_start := UB\<rparr>" and ?st = "upd_ll d (\<lambda>e. e\<lparr>ll_start := UB\<rparr>) st2"
    have R: "R = (Return E_OK, ?st)" using v added(1) added2(1) gl by (simp add: R_def split_lock_def rg_def)
    have ne: "d \<noteq> c" "d \<noteq> c2" "c \<noteq> c2" "d \<notin> set r" "c \<notin> set r" "c2 \<notin> set r" using dist1 added2(9,10) by auto
    have env: "same_env st st2" using added(4) added2(4) by (rule same_env_trans)
    have same: "dat st2 e = dat st e" if "e \<noteq> c" "e \<noteq> c2" for e using that added(5) added2(5) by simp
    have "d < length (locklist st2)" using rep_cell [OF rep L] env by (simp add: same_env_def)
    moreover have "rg st2 d = (s, e, t)" using same [of d] ne v rg_dat by metis
    ultimately have vd: "rg ?st d = (UB, e, t)" by (simp add: rg_def ent_upd)
    have "dat st2 c = dat st1 c" using added2(5) ne by simp
    then have vc: "rg st2 c = (s, LB, t)" "is_my_lock p c st2" using added(6,7) rg_dat my_dat by metis+
    have vr: "map (rg ?st) r = map (rg st) r"
    proof (intro map_cong refl)
      fix x assume x: "x \<in> set r"
      then have "dat ?st x = dat st x" using ne same [of x] dat_upd_other [of x d ?f st2] by metis
      then show "rg ?st x = rg st x" by (rule rg_dat)
    qed
    have or: "\<forall>x \<in> set (d # r). is_my_lock p x ?st"
    proof
      fix x assume x: "x \<in> set (d # r)"
      then have "dat st2 x = dat st x" using ne same [of x] by auto
      moreover have "is_my_lock p x st" using own x by blast
      ultimately show "is_my_lock p x ?st" using my_dat [of st2 x st p] by (simp add: is_my_lock_mild)
    qed
    have "moved p ip xs (d # r) b ((s, LB, t) # (LB, UB, ty) # (UB, e, t) # map (rg st) r) F L st ?st"
    proof (rule movedI [where m' = "c # c2 # d # r" and F' = F2])
      show "lk_rep ?st F2 (L(ip := xs @ (c # c2 # d # r) @ b))" using added2(3) by (simp add: mild_rep del: fun_upd_apply)
      show "map (rg ?st) (c # c2 # d # r) = (s, LB, t) # (LB, UB, ty) # (UB, e, t) # map (rg st) r"
        using vc(1) added2(6) vd vr ne by (simp add: rg_upd_other)
      show "\<forall>x \<in> set (c # c2 # d # r). is_my_lock p x ?st"
        using or vc(2) added2(7) by (simp add: is_my_lock_mild)
      show "dat ?st x = dat st x" if "x \<notin> set F" "x \<notin> set (d # r)" for x
        using that same [of x] added(2) added2(2) by (simp add: dat_upd_other)
      show "same_env st ?st" using env by simp
    qed
    then show ?thesis using R by blast
  qed
qed

lemma insert_case_ok:
  assumes rep: "lk_rep st F L" and L: "L ip = xs @ d # r @ b" and own: "\<forall>c \<in> set (d # r). is_my_lock p c st"
    and b: "\<forall>c \<in> set b. \<not> is_my_lock p c st" and srt: "sorted_rg (map (rg st) (d # r))" and le: "LB \<le> ll_end (ent st d)" "LB < UB"
    and p: "p \<noteq> 0"
  shows "(\<exists>st1. insert_case p ip LB UB fn ty found (pred xs) d st = (Return E_OK, st1) \<and>
        moved p ip xs (d # r) b (ins_head LB UB ty (map (rg st) (d # r))) F L st st1) \<or>
    (\<exists>st1. insert_case p ip LB UB fn ty found (pred xs) d st = (Return (full_error fn), st1) \<and> kept F L st st1 \<and>
        short F LB UB ty (map (rg st) (d # r))) \<or>
    (\<exists>c st1 st2. insert_case p ip LB UB fn ty found (pred xs) d st = (Inserted c, st1) \<and> compress_lock_list p c LB UB st1 = Ret st2 \<and>
        moved p ip xs (d # r) b (ins_head LB UB ty (map (rg st) (d # r))) F L st st2)"
proof -
  obtain s e t where v: "rg st d = (s, e, t)" by (cases "rg st d")
  then have ev: "ll_start (ent st d) = s" "ll_end (ent st d) = e" "ll_type (ent st d) = t" by (simp_all add: rg_def)
  have d: "d < length (locklist st)" "d \<noteq> 0" using rep_cell [OF rep L] by simp_all
  have sr: "s < e" "\<forall>w \<in> set (map (rg st) r). e \<le> fst w" "sorted_rg (map (rg st) r)" "LB \<le> e" using srt v le(1) ev by auto
  then have sL: "\<forall>w \<in> set (map (rg st) r). LB \<le> fst w" by auto
  have dist: "distinct (xs @ d # r @ b)" using rep_distinct [OF rep, of ip] L by simp
  let ?I = "insert_case p ip LB UB fn ty found (pred xs) d st"
  let ?ok = "\<exists>st1. ?I = (Return E_OK, st1) \<and> moved p ip xs (d # r) b (ins_head LB UB ty (map (rg st) (d # r))) F L st st1"
  let ?err = "\<exists>st1. ?I = (Return (full_error fn), st1) \<and> kept F L st st1 \<and> short F LB UB ty (map (rg st) (d # r))"
  let ?ins = "\<exists>c st1 st2. ?I = (Inserted c, st1) \<and> compress_lock_list p c LB UB st1 = Ret st2 \<and>
        moved p ip xs (d # r) b (ins_head LB UB ty (map (rg st) (d # r))) F L st st2"
  have fl: "find_lock_range (ent st d) LB UB =
    (if LB < s then BEFORE else if LB = s then START else if LB < e then MIDDLE else END,
     if UB < s then BEFORE else if UB = s then START else if UB < e then MIDDLE else if UB = e then END else AFTER)"
    using ev sr(4) by (auto simp: find_lock_range_def)
  note ic = insert_case_def Let_def fl ev
  have inplace: "moved p ip xs (d # r) b (w # map (rg st) r) F L st (upd_ll d f st)" if "mild f" "rg (upd_ll d f st) d = w" for f w
    using mild_moved [OF rep L that(1) own that(2)] .
  have nochange: "moved p ip xs (d # r) b (map (rg st) (d # r)) F L st st"
    using rep L own by (intro movedI [where m' = "d # r" and F' = F]) (simp_all add: fun_upd_idem)
  have comp1: "\<exists>st2. compress_lock_list p d LB UB (upd_ll d f st) = Ret st2 \<and>
      moved p ip xs (d # r) b (w # cut_below UB (map (rg st) r)) F L st st2" if f: "mild f" "rg (upd_ll d f st) d = w" for f w
  proof -
    have "map (rg (upd_ll d f st)) r = map (rg st) r" using dist by (auto intro!: rg_upd_other)
    moreover have "lk_rep (upd_ll d f st) F (L(ip := xs @ ([] @ d # r) @ b))" using rep L f(1) by (simp add: mild_rep fun_upd_idem)
    ultimately show ?thesis
      using compress_moved [of "upd_ll d f st" F L ip xs "[]" d r b p st LB UB F "d # r"] own b f sr(3) sL le(2)
      by (auto simp: is_my_lock_mild dat_upd_other)
  qed
  have cmp2: "\<exists>st2. compress_lock_list p c LB UB (upd_ll d f st1) = Ret st2 \<and>
      moved p ip xs (d # r) b (w # (LB, UB, ty) # cut_below UB (map (rg st) r)) F L st st2"
    if st1: "F = c # F'" "lk_rep st1 F' (L(ip := (xs @ [d]) @ c # r @ b))" "same_env st st1" "\<forall>e. e \<noteq> c \<longrightarrow> dat st1 e = dat st e"
      "rg st1 c = (LB, UB, ty)" "is_my_lock p c st1" "c \<notin> set (xs @ [d])" "c \<notin> set (r @ b)" and f: "mild f" "rg (upd_ll d f st1) d = w"
    for c F' st1 f w
  proof -
    let ?st = "upd_ll d f st1"
    note a = add_after [OF rep L own st1 f]
    have "\<forall>e \<in> set b. \<not> is_my_lock p e ?st"
      using b st1(4,8) f(1) my_dat by (metis Un_iff is_my_lock_mild set_append)
    moreover have "map (rg ?st) r = map (rg st) r" using a by simp
    ultimately show ?thesis
      using compress_moved [of ?st F' L ip xs "[d]" c r b p st LB UB F "d # r"] a sr(3) sL le(2) by auto
  qed
  show ?thesis
  proof (cases "UB \<le> e")
    case True
    show ?thesis
    proof (cases "LB \<le> s")
      case LBs: True
      show ?thesis
      proof (cases "UB < e \<and> (UB < s \<or> t \<noteq> ty)")
        case add: True
        show ?thesis
        proof (rule lockadd_at [OF rep L p, of LB UB fn ty], goal_cases)
          case full: 1
          then have "?I = (Return (full_error fn), st)" using add LBs le(2) unfolding ic by auto
          then show ?thesis using full(2) kept_refl [OF rep] short_none by blast
        next
          case added: (2 c F' st1)
          have cd: "c \<notin> set (d # r @ b)" "c \<noteq> d" using added(10) by auto
          have "dat st1 d = dat st d" using added(5) cd by simp
          then have e1: "rg st1 d = (s, e, t)" using v rg_dat by metis
          have d1: "d < length (locklist st1)" using d added(4) by (simp add: same_env_def)
          have len: "ll_end (ent st1 d) = e" "ll_type (ent st1 d) = t" using e1 by (simp_all add: rg_def)
          note ab = add_before [OF rep L own added(2-7) cd(1)]
          show ?thesis
          proof (cases "UB < s")
            case True
            have "moved p ip xs (d # r) b ((LB, UB, ty) # (s, e, t) # map (rg st) r) F L st (upd_ll d (\<lambda>x. x) st1)"
              by (rule ab) (use e1 d1 in \<open>simp_all add: mild_def rg_def ent_upd\<close>)
            moreover have "upd_ll d (\<lambda>x. x) st1 = st1" by (simp add: upd_ll_def)
            moreover have "?I = (Return E_OK, st1)" using added(1) True LBs le(2) unfolding ic by auto
            ultimately show ?thesis using True v by auto
          next
            case False
            have "moved p ip xs (d # r) b ((LB, UB, ty) # (UB, e, t) # map (rg st) r) F L st (upd_ll d (\<lambda>e. e\<lparr>ll_start := UB\<rparr>) st1)"
              by (rule ab) (use len d1 in \<open>simp_all add: rg_upd\<close>)
            moreover have "?I = (Return E_OK, upd_ll d (\<lambda>e. e\<lparr>ll_start := UB\<rparr>) st1)"
              using added(1) False add LBs le(2) unfolding ic by auto
            moreover have "ins_head LB UB ty (map (rg st) (d # r)) = (LB, UB, ty) # (UB, e, t) # map (rg st) r"
              using v False add LBs by simp
            ultimately show ?thesis by (metis (no_types, lifting))
          qed
        qed
      next
        case noadd: False
        then have iv: "ins_head LB UB ty (map (rg st) (d # r)) = (LB, e, ty) # map (rg st) r"
          using v True LBs le(2) sr(1) by auto
        have "\<exists>f. ?I = (Return E_OK, upd_ll d f st) \<and> mild f \<and> rg (upd_ll d f st) d = (LB, e, ty)"
        proof (cases "UB = e"; cases "LB = s")
          assume "UB = e" "LB = s"
          moreover from this have "?I = (Return E_OK, upd_ll d (\<lambda>e. e\<lparr>ll_type := ty\<rparr>) st)"
            using sr(1) unfolding ic by auto
          ultimately show ?thesis using d ev by (intro exI [of _ "\<lambda>e. e\<lparr>ll_type := ty\<rparr>"]) (simp add: rg_upd)
        next
          assume "UB = e" "LB \<noteq> s"
          moreover from this have "?I = (Return E_OK, upd_ll d (\<lambda>e. e\<lparr>ll_type := ty, ll_start := LB\<rparr>) st)"
            using LBs sr(1) unfolding ic by auto
          ultimately show ?thesis using d ev by (intro exI [of _ "\<lambda>e. e\<lparr>ll_type := ty, ll_start := LB\<rparr>"]) (simp add: rg_upd)
        next
          assume "UB \<noteq> e" "LB = s"
          moreover from this have n: "\<not> UB < s" "t = ty" "UB < e" using noadd True by auto
          moreover have "?I = (Return E_OK, st)" using n \<open>LB = s\<close> le(2) unfolding ic by auto
          moreover have "upd_ll d (\<lambda>x. x) st = st" by (simp add: upd_ll_def)
          ultimately show ?thesis using v by (intro exI [of _ "\<lambda>x. x"]) (simp add: mild_def)
        next
          assume "UB \<noteq> e" "LB \<noteq> s"
          moreover from this have n: "\<not> UB < s" "t = ty" "UB < e" using noadd True by auto
          moreover have "?I = (Return E_OK, upd_ll d (\<lambda>e. e\<lparr>ll_start := LB\<rparr>) st)"
            using n \<open>LB \<noteq> s\<close> LBs le(2) unfolding ic by auto
          ultimately show ?thesis using d ev by (intro exI [of _ "\<lambda>e. e\<lparr>ll_start := LB\<rparr>"]) (simp add: rg_upd)
        qed
        then show ?thesis using inplace iv by metis
      qed
    next
      case LBs: False
      then have LBm: "s < LB" "LB < e" using True le(2) by auto
      show ?thesis
      proof (cases "t = ty")
        case same: True
        have "?I = (Return E_OK, st)" using same True LBm le(2) unfolding ic by auto
        moreover have "ins_head LB UB ty (map (rg st) (d # r)) = map (rg st) (d # r)" using v same True LBm le(2) by auto
        ultimately show ?thesis using nochange by metis
      next
        case diff: False
        show ?thesis
        proof (cases "UB = e")
          case eq: True
          have iv: "ins_head LB UB ty (map (rg st) (d # r)) = (s, LB, t) # (LB, UB, ty) # map (rg st) r"
            using v diff eq LBm by auto
          have L': "L ip = (xs @ [d]) @ r @ b" using L by simp
          show ?thesis
          proof (rule lockadd_at [OF rep L' p, of LB UB fn ty], goal_cases)
            case full: 1
            then have "?I = (Return (full_error fn), st)" using diff eq LBm unfolding ic by auto
            then show ?thesis using full(2) kept_refl [OF rep] short_none by blast
          next
            case added: (2 c F' st1)
            let ?f = "\<lambda>e. e\<lparr>ll_end := LB\<rparr>"
            have f: "rg (upd_ll d ?f st1) d = (s, LB, t)"
            proof -
              have "rg st1 d = (s, e, t)" using v rg_dat added(5,9) by (metis in_set_conv_decomp)
              then show ?thesis using d added(4) by (simp add: rg_def ent_upd same_env_def)
            qed
            have I: "?I = (Return E_OK, upd_ll d ?f st1)" using added(1) diff eq LBm unfolding ic by auto
            note aa = add_after [OF rep L own added(2-7,9,10) mildI(2) f]
            have "moved p ip xs (d # r) b ((s, LB, t) # (LB, UB, ty) # map (rg st) r) F L st (upd_ll d ?f st1)"
              by (rule movedI [where m' = "d # c # r" and F' = F']) (use aa in auto)
            then show ?thesis using I iv by metis
          qed
        next
          case neq: False
          then have UBe: "UB < e" using True by simp
          have "?I = split_lock p ip LB UB fn ty (pred xs) d st" using diff UBe LBm le(2) unfolding ic by auto
          moreover have "ins_head LB UB ty (map (rg st) (d # r)) = (s, LB, t) # (LB, UB, ty) # (UB, e, t) # map (rg st) r"
            using v diff UBe LBm le(2) by auto
          moreover have "F = [] \<or> length F = 1 \<Longrightarrow> short F LB UB ty (map (rg st) (d # r))"
            using v diff UBe LBm by (auto simp: short_def)
          ultimately show ?thesis
            using insert_middle [OF rep L own p v, where LB = LB and UB = UB and fn = fn and ty = ty] by (metis (no_types, lifting))
        qed
      qed
    qed
  next
    case False
    then have UBe: "e < UB" by simp
    show ?thesis
    proof (cases "LB \<le> s")
      case LBs: True
      have iv: "ins_head LB UB ty (map (rg st) (d # r)) = (LB, UB, ty) # cut_below UB (map (rg st) r)"
        using v UBe LBs sr(1) by auto
      have "\<exists>f. ?I = (Inserted d, upd_ll d f st) \<and> mild f \<and> rg (upd_ll d f st) d = (LB, UB, ty)"
      proof (cases "LB = s")
        case True
        moreover from this have "?I = (Inserted d, upd_ll d (\<lambda>e. e\<lparr>ll_type := ty, ll_end := UB\<rparr>) st)"
          using UBe sr(1) unfolding ic by auto
        ultimately show ?thesis using d ev by (intro exI [of _ "\<lambda>e. e\<lparr>ll_type := ty, ll_end := UB\<rparr>"]) (simp add: rg_upd)
      next
        case neq: False
        then have "?I = (Inserted d, upd_ll d (\<lambda>e. e\<lparr>ll_type := ty, ll_start := LB, ll_end := UB\<rparr>) st)"
          using UBe LBs sr(1) unfolding ic by auto
        then show ?thesis using d
          by (intro exI [of _ "\<lambda>e. e\<lparr>ll_type := ty, ll_start := LB, ll_end := UB\<rparr>"]) (simp add: rg_upd)
      qed
      then show ?thesis using comp1 iv by metis
    next
      case LBs: False
      show ?thesis
      proof (cases "t = ty")
        case same: True
        have "?I = (Inserted d, upd_ll d (\<lambda>e. e\<lparr>ll_end := UB\<rparr>) st)"
          using same UBe LBs sr(1,4) unfolding ic by auto
        moreover have "ins_head LB UB ty (map (rg st) (d # r)) = (s, UB, t) # cut_below UB (map (rg st) r)"
          using v same UBe LBs sr(1) by auto
        moreover have "rg (upd_ll d (\<lambda>e. e\<lparr>ll_end := UB\<rparr>) st) d = (s, UB, t)" using d ev by (simp add: rg_upd)
        ultimately show ?thesis using comp1 [OF mildI(2)] by metis
      next
        case diff: False
        have iv: "ins_head LB UB ty (map (rg st) (d # r)) = (s, LB, t) # (LB, UB, ty) # cut_below UB (map (rg st) r)"
          using v diff UBe LBs sr(1) by auto
        have L': "L ip = (xs @ [d]) @ r @ b" using L by simp
        show ?thesis
        proof (rule lockadd_at [OF rep L' p, of LB UB fn ty], goal_cases)
          case full: 1
          then have "?I = (Return (full_error fn), st)" using diff UBe LBs sr(1,4) unfolding ic by auto
          then show ?thesis using full(2) kept_refl [OF rep] short_none by blast
        next
          case added: (2 c F' st1)
          let ?f = "\<lambda>e. e\<lparr>ll_end := LB\<rparr>"
          have f: "rg (upd_ll d ?f st1) d = (s, LB, t)"
          proof -
            have "rg st1 d = (s, e, t)" using v rg_dat added(5,9) by (metis in_set_conv_decomp)
            then show ?thesis using d added(4) by (simp add: rg_def ent_upd same_env_def)
          qed
          have "lk_rep (upd_ll d ?f st1) F' (L(ip := (xs @ [d]) @ c # r @ b))" using added(3) by (simp add: mild_rep)
          then have "nxt (upd_ll d ?f st1) d = Some c"
            using rep_next [of "upd_ll d ?f st1" F' "L(ip := (xs @ [d]) @ c # r @ b)" ip xs d "c # r @ b"] by simp
          then have I: "?I = (Inserted c, upd_ll d ?f st1)" using added(1) diff UBe LBs sr(1,4) unfolding ic by auto
          obtain st2 where "compress_lock_list p c LB UB (upd_ll d ?f st1) = Ret st2"
            "moved p ip xs (d # r) b ((s, LB, t) # (LB, UB, ty) # cut_below UB (map (rg st) r)) F L st st2"
            using cmp2 [OF added(2-7,9,10) mildI(2) f] by blast
          then show ?thesis using I iv by metis
        qed
      qed
    qed
  qed
qed

end
