(* ===== verification/Lockf_Insert.thy ===== *)
theory Lockf_Insert
  imports Lockf_Ops
begin

text \<open>
  The whole of \<^verbatim>\<open>insert_lock\<close>, \<^verbatim>\<open>delete_lock\<close> and \<^verbatim>\<open>unlock\<close> on the list of a file whose
  locks are grouped by process.
\<close>

section \<open>The loop of insert_lock\<close>

declare insert_walk.simps [simp del]

definition passes :: "nat \<Rightarrow> int \<Rightarrow> lkstate \<Rightarrow> nat \<Rightarrow> bool" where
  "passes p LB st c \<longleftrightarrow> (is_my_lock p c st \<longrightarrow> ll_start (ent st c) < ll_end (ent st c) \<and> ll_end (ent st c) < LB)"

definition last_mine :: "nat \<Rightarrow> lkstate \<Rightarrow> nat list \<Rightarrow> nat option \<Rightarrow> nat option" where
  "last_mine p st xs f = foldl (\<lambda>f c. if is_my_lock p c st then Some c else f) f xs"

lemma last_mine_simps [simp]:
  "last_mine p st [] f = f" "last_mine p st (xs @ ys) f = last_mine p st ys (last_mine p st xs f)"
  "last_mine p st (c # xs) f = last_mine p st xs (if is_my_lock p c st then Some c else f)"
  by (simp_all add: last_mine_def)

lemma last_mine_none: "\<forall>c \<in> set xs. \<not> is_my_lock p c st \<Longrightarrow> last_mine p st xs f = f"
  by (induction xs) auto

lemma last_mine_all: "\<forall>c \<in> set xs. is_my_lock p c st \<Longrightarrow> xs \<noteq> [] \<Longrightarrow> last_mine p st xs f = Some (last xs)"
  by (induction xs rule: rev_induct) auto

lemma insert_walk_pass:
  assumes "lk_rep st F L" and "L ip = xs @ c # ys" and "passes p LB st c" and "LB < UB" and "ys = [] \<or> n = Suc k"
  shows "insert_walk n p ip LB UB fn ty f nl c st =
    (case ys of [] \<Rightarrow> Ret (lockadd p ip (case last_mine p st [c] f of Some g \<Rightarrow> Some g | None \<Rightarrow> Some c) LB UB fn ty st)
     | d # _ \<Rightarrow> insert_walk k p ip LB UB fn ty (last_mine p st [c] f) (Some c) d st)"
proof -
  have nx: "nxt st c = (case ys of [] \<Rightarrow> None | d # _ \<Rightarrow> Some d)" using rep_next [OF assms(1,2)] .
  have "(if is_my_lock p c st then insert_case p ip LB UB fn ty f nl c st else (Walk f, st)) = (Walk (last_mine p st [c] f), st)"
    using assms(3,4) by (auto simp: passes_def insert_case_def find_lock_range_def Let_def)
  then show ?thesis using nx assms(5) by (subst insert_walk.simps) (auto split: list.splits)
qed

text \<open>Passing a whole stretch of the list, up to another entry or to the end.\<close>

lemma insert_walk_to:
  assumes "lk_rep st F L" and "L ip = xs @ ws @ d # ys" and "\<forall>c \<in> set ws. passes p LB st c" and "LB < UB" and "length ws \<le> n"
  shows "insert_walk n p ip LB UB fn ty f (pred xs) (hd (ws @ [d])) st =
    insert_walk (n - length ws) p ip LB UB fn ty (last_mine p st ws f) (pred (xs @ ws)) d st"
  using assms
proof (induction ws arbitrary: xs n f)
  case (Cons c ws)
  obtain k where k: "n = Suc k" using Cons.prems(5) by (cases n) auto
  have L: "L ip = xs @ c # ws @ d # ys" "L ip = (xs @ [c]) @ ws @ d # ys" using Cons.prems(2) by simp_all
  have "insert_walk n p ip LB UB fn ty f (pred xs) c st =
      insert_walk k p ip LB UB fn ty (last_mine p st [c] f) (pred (xs @ [c])) (hd (ws @ [d])) st"
    using insert_walk_pass [OF Cons.prems(1) L(1), where n = n and k = k and UB = UB and p = p and LB = LB] Cons.prems(3,4) k
    by (cases ws) auto
  also have "\<dots> = insert_walk (k - length ws) p ip LB UB fn ty (last_mine p st ws (last_mine p st [c] f)) (pred ((xs @ [c]) @ ws)) d st"
    using Cons.IH [OF Cons.prems(1) L(2), of k] Cons.prems(3,4,5) k by simp
  finally show ?case using k by simp
qed simp

lemma insert_walk_end:
  assumes "lk_rep st F L" and "L ip = xs @ ws" and "ws \<noteq> []" and "\<forall>c \<in> set ws. passes p LB st c" and "LB < UB" and "length ws \<le> n"
  shows "insert_walk n p ip LB UB fn ty f (pred xs) (hd ws) st =
    Ret (lockadd p ip (case last_mine p st ws f of Some g \<Rightarrow> Some g | None \<Rightarrow> pred (xs @ ws)) LB UB fn ty st)"
proof -
  obtain vs d where ws: "ws = vs @ [d]" using assms(3) by (cases ws rule: rev_cases) auto
  have L: "L ip = xs @ vs @ d # []" "L ip = (xs @ vs) @ d # []" using assms(2) ws by simp_all
  have "insert_walk n p ip LB UB fn ty f (pred xs) (hd ws) st =
      insert_walk (n - length vs) p ip LB UB fn ty (last_mine p st vs f) (pred (xs @ vs)) d st"
    using insert_walk_to [OF assms(1) L(1), of p LB UB n fn ty f] assms(4-6) ws by simp
  also have "\<dots> = Ret (lockadd p ip (case last_mine p st [d] (last_mine p st vs f) of Some g \<Rightarrow> Some g | None \<Rightarrow> Some d) LB UB fn ty st)"
    using insert_walk_pass [OF assms(1) L(2), of p LB UB "n - length vs" undefined fn ty "last_mine p st vs f" "pred (xs @ vs)"] assms(4,5) ws by simp
  finally show ?thesis using ws by (cases "last_mine p st vs f") simp_all
qed

section \<open>Grouped lists\<close>

text \<open>The locks of a process stand together, in address order.\<close>

definition block :: "('a \<Rightarrow> bool) \<Rightarrow> 'a list \<Rightarrow> bool" where
  "block P xs \<longleftrightarrow> (\<exists>a m b. xs = a @ m @ b \<and> (\<forall>c \<in> set m. P c) \<and> (\<forall>c \<in> set a \<union> set b. \<not> P c))"

lemma blockI: "xs = a @ m @ b \<Longrightarrow> \<forall>c \<in> set m. P c \<Longrightarrow> \<forall>c \<in> set a \<union> set b. \<not> P c \<Longrightarrow> block P xs"
  unfolding block_def by (rule exI [of _ a], rule exI [of _ m], rule exI [of _ b]) simp

lemma blockE:
  assumes "block P xs"
  obtains a m b where "xs = a @ m @ b" "\<forall>c \<in> set m. P c" "\<forall>c \<in> set a \<union> set b. \<not> P c"
  using assms by (auto simp only: block_def)

lemma block_dropWhile: "block P xs \<longleftrightarrow> (\<forall>c \<in> set (dropWhile P (dropWhile (\<lambda>c. \<not> P c) xs)). \<not> P c)"
proof
  assume "block P xs"
  then obtain a m b where x: "xs = a @ m @ b" "\<forall>c \<in> set m. P c" "\<forall>c \<in> set a \<union> set b. \<not> P c" by (rule blockE)
  have 1: "dropWhile (\<lambda>c. \<not> P c) xs = dropWhile (\<lambda>c. \<not> P c) (m @ b)" using x by (simp add: dropWhile_append2)
  show "\<forall>c \<in> set (dropWhile P (dropWhile (\<lambda>c. \<not> P c) xs)). \<not> P c"
  proof (cases m)
    case Nil
    show ?thesis using x(3) unfolding 1 Nil by (auto dest!: set_dropWhileD)
  next
    case (Cons d m1)
    then have "dropWhile (\<lambda>c. \<not> P c) (m @ b) = m @ b" using x(2) by simp
    moreover have "dropWhile P (m @ b) = dropWhile P b" using x(2) by (simp add: dropWhile_append2)
    ultimately show ?thesis using x(3) set_dropWhileD [of _ P b] unfolding 1 by auto
  qed
next
  let ?a = "takeWhile (\<lambda>c. \<not> P c) xs" and ?r = "dropWhile (\<lambda>c. \<not> P c) xs"
  assume "\<forall>c \<in> set (dropWhile P ?r). \<not> P c"
  moreover have "xs = ?a @ takeWhile P ?r @ dropWhile P ?r" by simp
  moreover have "\<forall>c \<in> set ?a. \<not> P c" "\<forall>c \<in> set (takeWhile P ?r). P c" by (auto dest: set_takeWhileD)
  ultimately show "block P xs" by (intro blockI [of xs ?a "takeWhile P ?r" "dropWhile P ?r"]) blast+
qed

lemma block_replace:
  assumes "block P (a @ m @ b)" and "\<forall>c \<in> set m \<union> set m'. \<not> P c" and "m = [] \<Longrightarrow> b = []"
  shows "block P (a @ m' @ b)"
proof (cases "\<exists>c \<in> set a. P c")
  case True
  let ?a = "dropWhile (\<lambda>c. \<not> P c) a"
  obtain e where e: "e \<in> set a" "P e" using True by blast
  have 1: "dropWhile (\<lambda>c. \<not> P c) (a @ m @ b) = ?a @ m @ b" using e by (intro dropWhile_append1 [of e]) simp_all
  have 2: "dropWhile P (?a @ m @ b) = dropWhile P ?a @ m @ b"
  proof (cases "\<exists>c \<in> set ?a. \<not> P c")
    case False
    have "dropWhile P ?a = []" using False unfolding dropWhile_eq_Nil_conv by blast
    moreover have "dropWhile P (?a @ m @ b) = dropWhile P (m @ b)" by (rule dropWhile_append2) (use False in blast)
    moreover have "dropWhile P (m @ b) = m @ b"
    proof (cases m)
      case (Cons d m1)
      then have "\<not> P d" using assms(2) by simp
      then show ?thesis using Cons by simp
    qed (use assms(3) in simp)
    ultimately show ?thesis by (simp only: append_Nil)
  next
    case True
    then obtain e where "e \<in> set ?a" "\<not> P e" by blast
    then show ?thesis by (rule dropWhile_append1)
  qed
  have n: "\<forall>c \<in> set (dropWhile P ?a) \<union> set b. \<not> P c"
    using assms(1) unfolding block_dropWhile 1 2 set_append by blast
  then have "block P a" unfolding block_dropWhile by blast
  then obtain x y z where "a = x @ y @ z" "\<forall>c \<in> set y. P c" "\<forall>c \<in> set x \<union> set z. \<not> P c" by (rule blockE)
  moreover have "\<forall>c \<in> set b. \<not> P c" using n by blast
  ultimately show ?thesis using assms(2) by (intro blockI [of _ x y "z @ m' @ b"]) auto
next
  case False
  have "dropWhile (\<lambda>c. \<not> P c) ((a @ m) @ b) = dropWhile (\<lambda>c. \<not> P c) b"
    by (rule dropWhile_append2) (use False assms(2) in auto)
  then have 3: "dropWhile (\<lambda>c. \<not> P c) (a @ m @ b) = dropWhile (\<lambda>c. \<not> P c) b" by (simp only: append_assoc)
  have "block P b" using assms(1) unfolding block_dropWhile 3 .
  then obtain x y z where "b = x @ y @ z" "\<forall>c \<in> set y. P c" "\<forall>c \<in> set x \<union> set z. \<not> P c" by (rule blockE)
  then show ?thesis using False assms(2) by (intro blockI [of _ "a @ m' @ x" y z]) auto
qed

lemma block_cong: "(\<And>c. c \<in> set xs \<Longrightarrow> P c = Q c) \<Longrightarrow> block P xs = block Q xs"
proof -
  have imp: "block Q xs" if "block P xs" "\<forall>c \<in> set xs. P c = Q c" for P Q
  proof -
    obtain a m b where x: "xs = a @ m @ b" "\<forall>c \<in> set m. P c" "\<forall>c \<in> set a \<union> set b. \<not> P c"
      using \<open>block P xs\<close> by (rule blockE)
    have "\<forall>c \<in> set m. Q c" "\<forall>c \<in> set a \<union> set b. \<not> Q c" using x(2,3) that(2) unfolding x(1) set_append by blast+
    then show ?thesis using x(1) by (intro blockI)
  qed
  assume "\<And>c. c \<in> set xs \<Longrightarrow> P c = Q c"
  then show ?thesis using imp [of P Q] imp [of Q P] by blast
qed

abbreviation grouped :: "nat \<Rightarrow> lkstate \<Rightarrow> nat list \<Rightarrow> bool" where
  "grouped p st xs \<equiv> block (\<lambda>c. is_my_lock p c st) xs"

definition mine :: "nat \<Rightarrow> lkstate \<Rightarrow> nat list \<Rightarrow> range list" where
  "mine p st xs = map (rg st) (filter (\<lambda>c. is_my_lock p c st) xs)"

lemma mine_parts:
  assumes "\<forall>c \<in> set m. is_my_lock p c st" and "\<forall>c \<in> set a \<union> set b. \<not> is_my_lock p c st"
  shows "mine p st (a @ m @ b) = map (rg st) m" "grouped p st (a @ m @ b)"
proof -
  have "filter (\<lambda>c. is_my_lock p c st) m = m" "filter (\<lambda>c. is_my_lock p c st) a = []" "filter (\<lambda>c. is_my_lock p c st) b = []"
    using assms by (auto simp: filter_id_conv filter_empty_conv)
  then show "mine p st (a @ m @ b) = map (rg st) m" by (simp add: mine_def)
  show "grouped p st (a @ m @ b)" using assms by (auto simp: block_def)
qed

lemma groupedE:
  assumes "grouped p st xs"
  obtains a m b where "xs = a @ m @ b" "\<forall>c \<in> set m. is_my_lock p c st" "\<forall>c \<in> set a \<union> set b. \<not> is_my_lock p c st"
    "mine p st xs = map (rg st) m" "m = [] \<Longrightarrow> b = []"
proof -
  obtain a m b where x: "xs = a @ m @ b" "\<forall>c \<in> set m. is_my_lock p c st" "\<forall>c \<in> set a \<union> set b. \<not> is_my_lock p c st"
    using assms by (rule blockE)
  show ?thesis
  proof (cases "m = []")
    case True
    show ?thesis by (rule that [of "a @ b" "[]" "[]"]) (use x True mine_parts(1) [of "[]" p st "a @ b" "[]"] in auto)
  next
    case False
    show ?thesis by (rule that [of a m b]) (use x False mine_parts(1) [OF x(2,3)] in simp_all)
  qed
qed

text \<open>Every list has the locks of each process in one block, in address order and disjoint.\<close>

definition list_ok :: "lkstate \<Rightarrow> (nat \<Rightarrow> nat list) \<Rightarrow> bool" where
  "list_ok st L \<longleftrightarrow> (\<forall>ip q. grouped q st (L ip) \<and> sorted_rg (mine q st (L ip)))"

lemma mine_cong: "(\<And>c. c \<in> set xs \<Longrightarrow> dat st' c = dat st c) \<Longrightarrow> mine q st' xs = mine q st xs"
proof -
  assume d: "\<And>c. c \<in> set xs \<Longrightarrow> dat st' c = dat st c"
  then have "filter (\<lambda>c. is_my_lock q c st') xs = filter (\<lambda>c. is_my_lock q c st) xs"
    using my_dat by (intro filter_cong refl) blast
  moreover have "map (rg st') (filter (\<lambda>c. is_my_lock q c st) xs) = map (rg st) (filter (\<lambda>c. is_my_lock q c st) xs)"
  proof (intro map_cong refl)
    fix c assume "c \<in> set (filter (\<lambda>c. is_my_lock q c st) xs)"
    then show "rg st' c = rg st c" by (intro rg_dat d) simp
  qed
  ultimately show ?thesis by (simp add: mine_def)
qed

lemma grouped_cong: "(\<And>c. c \<in> set xs \<Longrightarrow> dat st' c = dat st c) \<Longrightarrow> grouped q st' xs = grouped q st xs"
  by (rule block_cong) (metis my_dat)

lemma mine_append: "mine q st (xs @ ys) = mine q st xs @ mine q st ys"
  by (simp add: mine_def)

lemma mine_none: "\<forall>c \<in> set xs. \<not> is_my_lock q c st \<Longrightarrow> mine q st xs = []"
  by (simp add: mine_def filter_empty_conv)

text \<open>Which process waits for a lock of which.\<close>

definition waits :: "lkstate \<Rightarrow> (nat \<times> nat) set" where
  "waits st = {(q, r). \<exists>c. p_dlchan st q = Some c \<and> ll_proc (ent st c) = Some r}"

lemma rep_disjoint: "lk_rep st F L \<Longrightarrow> set (L jp) \<inter> set F = {}"
proof -
  assume rep: "lk_rep st F L"
  have "c \<notin> set F" if "c \<in> set (L jp)" for c
  proof -
    have "c \<in> cells st" using rep that unfolding lk_rep_def by (elim conjE) blast
    then have "ll_busy (ent st c)" "c \<in> set F \<longrightarrow> \<not> ll_busy (ent st c)" using rep that unfolding lk_rep_def by (elim conjE, blast)+
    then show ?thesis by blast
  qed
  then show ?thesis by blast
qed

lemma rep_waited:
  assumes "lk_rep st F L" and "p_dlchan st q = Some c"
  shows "c \<notin> set F \<and> ((\<exists>kp. c \<in> set (L kp)) \<or> ll_proc (ent st c) = Some 0)"
proof -
  have "c \<in> cells st" "waiters st c \<noteq> {}" using assms by (auto simp: lk_rep_def waiters_def)
  then have "c \<in> set F \<longleftrightarrow> \<not> ll_busy (ent st c) \<and> waiters st c = {}" "ll_busy (ent st c) \<longleftrightarrow> (\<exists>ip. c \<in> set (L ip))"
    "\<not> ll_busy (ent st c) \<longrightarrow> ll_proc (ent st c) = Some 0"
    using assms(1) unfolding lk_rep_def by (elim conjE, blast)+
  then show ?thesis using \<open>waiters st c \<noteq> {}\<close> by blast
qed

lemma moved_waits:
  assumes rep: "lk_rep st F L" "lk_rep st' F' (L(ip := a @ m' @ b))" and L: "L ip = a @ m @ b"
    and own: "\<forall>c \<in> set m. is_my_lock p c st" "\<forall>c \<in> set m'. is_my_lock p c st'"
    and d: "\<forall>c. c \<notin> set F \<union> set m \<longrightarrow> dat st' c = dat st c" "same_env st st'" and w: "(q, r) \<in> waits st'"
  shows "(q, r) \<in> waits st \<or> r = 0"
proof -
  obtain c where c: "p_dlchan st' q = Some c" "ll_proc (ent st' c) = Some r" using w by (auto simp: waits_def)
  then have c': "p_dlchan st q = Some c" using d(2) by (simp add: same_env_def)
  have F: "c \<notin> set F" using rep_waited [OF rep(1) c'] by blast
  show ?thesis
  proof (cases "c \<in> set m")
    case False
    then have "dat st' c = dat st c" using F d(1) by blast
    then show ?thesis using c c' dat_fields(3) [of st' c st] by (auto simp: waits_def)
  next
    case True
    show ?thesis
    proof (cases "c \<in> set m'")
      case True
      then show ?thesis using \<open>c \<in> set m\<close> own c c' by (auto simp: is_my_lock_def waits_def)
    next
      case False
      have "c \<in> set (L ip)" using True L by simp
      then have "c \<notin> set (L kp)" if "kp \<noteq> ip" for kp using rep(1) that unfolding lk_rep_def by (elim conjE) blast
      moreover have "c \<notin> set a \<union> set b" using rep_distinct [OF rep(1), of ip] L True by auto
      ultimately have "c \<notin> set ((L(ip := a @ m' @ b)) kp)" for kp using False by (cases "kp = ip") auto
      then have "ll_proc (ent st' c) = Some 0" using rep_waited [OF rep(2) c(1)] by blast
      then show ?thesis using c by simp
    qed
  qed
qed

lemma moved_list_ok:
  assumes mv: "moved p ip a m b vs F L st st'" and L: "L ip = a @ m @ b" and own: "\<forall>c \<in> set m. is_my_lock p c st"
    "\<forall>c \<in> set a \<union> set b. \<not> is_my_lock p c st" "m = [] \<Longrightarrow> b = []" and ok: "list_ok st L" and rep: "lk_rep st F L" and vs: "sorted_rg vs"
  shows "\<exists>F' L'. lk_rep st' F' L' \<and> list_ok st' L' \<and> mine p st' (L' ip) = vs \<and>
    (\<forall>q jp. q \<noteq> p \<or> jp \<noteq> ip \<longrightarrow> mine q st' (L' jp) = mine q st (L jp)) \<and> same_env st st' \<and>
    (\<forall>q r. (q, r) \<in> waits st' \<longrightarrow> (q, r) \<in> waits st \<or> r = 0) \<and>
    (\<forall>jp. \<forall>c \<in> set (L' jp). is_my_lock p c st' \<or> c \<in> set (L jp) \<and> dat st' c = dat st c)"
proof -
  obtain F' m' where mv': "lk_rep st' F' (L(ip := a @ m' @ b))" "map (rg st') m' = vs" "\<forall>c \<in> set m'. is_my_lock p c st'"
      "\<forall>c. c \<notin> set F \<union> set m \<longrightarrow> dat st' c = dat st c" "same_env st st'"
    using mv by (auto simp: moved_def)
  have FL: "set (L jp) \<inter> set F = {}" for jp using rep by (rule rep_disjoint)
  have LL: "set (L jp) \<inter> set (L ip) = {}" if "jp \<noteq> ip" for jp using rep that by (simp add: lk_rep_def)
  have dist: "distinct (a @ m @ b)" using rep_distinct [OF rep, of ip] L by simp
  have dab: "dat st' c = dat st c" if "c \<in> set a \<union> set b" for c
    using that mv'(4) FL [of ip] L dist by (metis UnCI UnE disjoint_iff distinct_append set_append)
  have doth: "dat st' c = dat st c" if "jp \<noteq> ip" "c \<in> set (L jp)" for c jp
    using that mv'(4) FL [of jp] LL [OF that(1)] L by (metis UnCI UnE disjoint_iff set_append)
  let ?L = "L(ip := a @ m' @ b)"
  have nab: "\<forall>c \<in> set a \<union> set b. \<not> is_my_lock p c st'" using own(2) dab my_dat by metis
  have mp: "mine p st' (?L ip) = vs" "grouped p st' (?L ip)" using mine_parts [OF mv'(3) nab] mv'(2) by simp_all
  have mq: "mine q st' (?L ip) = mine q st (L ip)" "grouped q st' (?L ip)" if "q \<noteq> p" for q
  proof -
    have nm: "\<forall>c \<in> set m. \<not> is_my_lock q c st" "\<forall>c \<in> set m'. \<not> is_my_lock q c st'"
      using own(1) mv'(3) that by (auto simp: is_my_lock_def)
    have "mine q st' a = mine q st a" "mine q st' b = mine q st b" using dab by (auto intro!: mine_cong)
    then show "mine q st' (?L ip) = mine q st (L ip)" using nm by (simp add: L mine_append mine_none)
    define P where "P = (\<lambda>c. if c \<in> set m' then False else is_my_lock q c st)"
    have "c \<in> set m \<Longrightarrow> \<not> P c" "c \<in> set m' \<Longrightarrow> \<not> P c" for c using nm by (auto simp: P_def)
    have dm: "set m' \<inter> (set a \<union> set b) = {}"
      using rep_distinct [OF mv'(1), of ip] by auto
    have "block P (a @ m @ b) = grouped q st (a @ m @ b)"
      using nm dm by (intro block_cong) (auto simp: P_def)
    then have "block P (a @ m @ b)" using ok L by (metis list_ok_def)
    then have "block P (a @ m' @ b)" by (rule block_replace [OF _ _ own(3)]) (use nm(1) in \<open>auto simp: P_def\<close>)
    moreover have "block P (a @ m' @ b) = grouped q st' (a @ m' @ b)"
    proof (intro block_cong)
      fix c assume c: "c \<in> set (a @ m' @ b)"
      show "P c = is_my_lock q c st'"
      proof (cases "c \<in> set m'")
        case False
        then show ?thesis using c my_dat [OF dab [of c], of q] by (simp add: P_def)
      qed (use nm(2) in \<open>simp add: P_def\<close>)
    qed
    ultimately show "grouped q st' (?L ip)" by simp
  qed
  have mo: "mine q st' (?L jp) = mine q st (L jp)" "grouped q st' (?L jp)" if "jp \<noteq> ip" for q jp
    using that doth [OF that] mine_cong [of "L jp" st' st q] grouped_cong [of "L jp" st' st q] ok by (simp_all add: list_ok_def)
  have mine': "mine q st' (?L jp) = (if q = p \<and> jp = ip then vs else mine q st (L jp))" for q jp
    using mp(1) mq(1) mo(1) by metis
  have grp': "grouped q st' (?L jp)" for q jp using mp(2) mq(2) mo(2) by metis
  have "list_ok st' ?L" using mine' grp' vs ok by (simp add: list_ok_def)
  moreover have "mine p st' (?L ip) = vs" using mine' [of p ip] by simp
  moreover have "\<forall>q jp. q \<noteq> p \<or> jp \<noteq> ip \<longrightarrow> mine q st' (?L jp) = mine q st (L jp)" using mine' by simp
  moreover have "\<forall>q r. (q, r) \<in> waits st' \<longrightarrow> (q, r) \<in> waits st \<or> r = 0"
    using moved_waits [OF rep mv'(1) L own(1) mv'(3,4,5)] by blast
  moreover have "\<forall>jp. \<forall>c \<in> set (?L jp). is_my_lock p c st' \<or> c \<in> set (L jp) \<and> dat st' c = dat st c"
  proof (intro allI ballI)
    fix jp c assume c: "c \<in> set (?L jp)"
    show "is_my_lock p c st' \<or> c \<in> set (L jp) \<and> dat st' c = dat st c"
    proof (cases "jp = ip")
      case True
      then have "c \<in> set m' \<or> c \<in> set a \<union> set b" using c by auto
      then show ?thesis using mv'(3) dab [of c] L True by auto
    next
      case False
      then show ?thesis using c doth [OF False] by simp
    qed
  qed
  ultimately show ?thesis using mv'(1,5) by (intro exI [of _ F'] exI [of _ ?L]) blast
qed

section \<open>insert_lock\<close>

lemma moved_synced: "moved p ip a m b vs F L st (st'\<lparr>synced := y\<rparr>) = moved p ip a m b vs F L st st'"
proof -
  have "lk_rep (st'\<lparr>synced := y\<rparr>) F' L' = lk_rep st' F' L'" for F' L'
    by (rule lk_rep_cong) simp_all
  moreover have "rg (st'\<lparr>synced := y\<rparr>) = rg st'" "dat (st'\<lparr>synced := y\<rparr>) = dat st'"
    by (simp_all add: rg_def dat_def fun_eq_iff)
  ultimately show ?thesis by (simp add: moved_def is_my_lock_def same_env_def)
qed

lemma added_moved:
  assumes "F = c # F'" "lk_rep st' F' (L(ip := a @ c # b))" "same_env st st'" "\<forall>d. d \<noteq> c \<longrightarrow> dat st' d = dat st d"
    "rg st' c = w" "is_my_lock p c st'" and own: "\<forall>d \<in> set m. is_my_lock p d st" and a: "a = xs @ m" and n: "c \<notin> set m"
  shows "moved p ip xs m b (map (rg st) m @ [w]) F L st st'"
proof (rule movedI [where m' = "m @ [c]" and F' = F'])
  have d: "dat st' d = dat st d" if "d \<in> set m" for d using that n assms(4) by metis
  then have "map (rg st') m = map (rg st) m" by (intro map_cong refl rg_dat)
  then show "map (rg st') (m @ [c]) = map (rg st) m @ [w]" using assms(5) by simp
  have "is_my_lock p e st'" if "e \<in> set m" for e using own that my_dat [OF d [OF that]] by simp
  then show "\<forall>e \<in> set (m @ [c]). is_my_lock p e st'" using assms(6) by simp
  show "lk_rep st' F' (L(ip := xs @ (m @ [c]) @ b))" using assms(2) a by simp
  show "dat st' d = dat st d" if "d \<notin> set F" "d \<notin> set m" for d using that assms(1,4) by simp
qed (fact assms(3))

text \<open>A change of the locks behind \<open>m1\<close> is one of all of \<open>m1 @ m2\<close>.\<close>

lemma moved_widen:
  assumes mv: "moved p ip (xs @ m1) m2 b vs F L st st'" and own: "\<forall>d \<in> set m1. is_my_lock p d st" and rep: "lk_rep st F L"
    and L: "L ip = xs @ m1 @ m2 @ b"
  shows "moved p ip xs (m1 @ m2) b (map (rg st) m1 @ vs) F L st st'"
proof -
  obtain F' m' where m': "lk_rep st' F' (L(ip := (xs @ m1) @ m' @ b))" "map (rg st') m' = vs" "\<forall>c \<in> set m'. is_my_lock p c st'"
      "\<forall>c. c \<notin> set F \<union> set m2 \<longrightarrow> dat st' c = dat st c" "same_env st st'"
    using mv unfolding moved_def by blast
  have d: "dat st' c = dat st c" if "c \<in> set m1" for c
  proof -
    have "c \<notin> set F" using rep that L unfolding lk_rep_def by (metis Un_iff disjoint_iff in_mono set_append)
    moreover have "c \<notin> set m2" using rep_distinct [OF rep, of ip] L that by auto
    ultimately show ?thesis using m'(4) by blast
  qed
  show ?thesis
  proof (rule movedI [where m' = "m1 @ m'" and F' = F'])
    show "lk_rep st' F' (L(ip := xs @ (m1 @ m') @ b))" using m'(1) by simp
    have "map (rg st') m1 = map (rg st) m1" using d by (intro map_cong refl rg_dat)
    then show "map (rg st') (m1 @ m') = map (rg st) m1 @ vs" using m'(2) by simp
    have "\<forall>c \<in> set m1. is_my_lock p c st'" using own d my_dat by blast
    then show "\<forall>c \<in> set (m1 @ m'). is_my_lock p c st'" using m'(3) by auto
    show "dat st' c = dat st c" if "c \<notin> set F" "c \<notin> set (m1 @ m2)" for c using that m'(4) by simp
  qed (fact m'(5))
qed

lemma insert_lock_moved:
  assumes rep: "lk_rep st F L" and L: "L ip = a @ m @ b" and own: "\<forall>c \<in> set m. is_my_lock p c st" "\<forall>c \<in> set a \<union> set b. \<not> is_my_lock p c st"
    and mb: "m = [] \<Longrightarrow> b = []" and srt: "sorted_rg (map (rg st) m)" and le: "LB < UB" and p: "p \<noteq> 0"
  shows "\<exists>er st'. insert_lock p ip LB UB fn ty st = Ret (er, st') \<and>
    (er = E_OK \<and> moved p ip a m b (ins_range LB UB ty (map (rg st) m)) F L st st' \<or>
     er = full_error fn \<and> kept F L st st' \<and> short F LB UB ty (map (rg st) m))"
proof -
  let ?P = "\<lambda>c. ll_end (ent st c) < LB"
  define m1 m2 where "m1 = takeWhile ?P m" and "m2 = dropWhile ?P m"
  have m: "m = m1 @ m2" by (simp add: m1_def m2_def)
  have tw: "takeWhile (\<lambda>(s, e, t). e < LB) (map (rg st) m) = map (rg st) m1" "dropWhile (\<lambda>(s, e, t). e < LB) (map (rg st) m) = map (rg st) m2"
    by (simp_all add: m1_def m2_def takeWhile_map dropWhile_map rg_def o_def)
  have iv: "ins_range LB UB ty (map (rg st) m) = map (rg st) m1 @ ins_head LB UB ty (map (rg st) m2)"
    by (simp add: ins_range_def tw)
  have ne: "ll_start (ent st c) < ll_end (ent st c)" if "c \<in> set m" for c
  proof -
    have "rg st c \<in> set (map (rg st) m)" using that by simp
    then show ?thesis using sorted_rg_nonempty [OF srt] by (simp add: rg_def)
  qed
  have "passes p LB st c" if "c \<in> set m1" for c
    using set_takeWhileD [of c ?P m] that ne [of c] by (simp add: passes_def m1_def)
  then have pass: "\<forall>c \<in> set (a @ m1). passes p LB st c" "\<forall>c \<in> set b. passes p LB st c"
    using own(2) by (auto simp: passes_def)
  have len: "length (L ip) < length (locklist st)" using rep by (rule rep_length)
  have n: "length (a @ m1) \<le> length (locklist st)" "length (a @ m1 @ b) \<le> length (locklist st)" using len L m by simp_all
  have first: "i_locklist st ip = (case L ip of [] \<Rightarrow> None | c # _ \<Rightarrow> Some c)"
    using rep_linked [OF rep, of ip] by (cases "L ip") auto
  have own1: "\<forall>c \<in> set m1. is_my_lock p c st" using own(1) m by simp
  have lm: "last_mine p st (a @ m1) None = (if m1 = [] then None else Some (last m1))"
    using last_mine_none [of a p st None] own(2) last_mine_all [OF own1] by simp
  show ?thesis
  proof (cases "m2 = []")
    case True
    have La: "L ip = (a @ m1) @ b" using L m True by simp
    have pp: "m1 = [] \<Longrightarrow> b = []" using mb m True by simp
    have cp: "\<exists>er st'. lockadd p ip (pred (a @ m1)) LB UB fn ty st = (er, st') \<and>
      (er = E_OK \<and> moved p ip a m b (ins_range LB UB ty (map (rg st) m)) F L st st' \<or> er = full_error fn \<and> st' = st \<and> F = [])"
    proof (rule lockadd_at [OF rep La p, of LB UB fn ty], goal_cases)
      case (2 c F' st')
      have "moved p ip a m1 b (map (rg st) m1 @ [(LB, UB, ty)]) F L st st'"
        by (rule added_moved [OF 2(2-7) own1 refl]) (use 2(9) in simp)
      then show ?case using 2(1) True m iv by simp
    qed simp
    show ?thesis
    proof (cases "L ip")
      case Nil
      then have "a = []" "m1 = []" using La by simp_all
      then show ?thesis using cp first Nil kept_refl [OF rep] short_none
        by (auto simp: insert_lock_def moved_synced)
    next
      case (Cons c cs)
      have "insert_lock p ip LB UB fn ty st = insert_walk (length (locklist st)) p ip LB UB fn ty None (pred []) (hd (L ip)) st"
        using first Cons by (simp add: insert_lock_def)
      also have "\<dots> = Ret (lockadd p ip (case last_mine p st (L ip) None of Some g \<Rightarrow> Some g | None \<Rightarrow> pred ([] @ L ip)) LB UB fn ty st)"
        using pass n(2) La le Cons by (intro insert_walk_end [OF rep]) auto
      also have "(case last_mine p st (L ip) None of Some g \<Rightarrow> Some g | None \<Rightarrow> pred ([] @ L ip)) = pred (a @ m1)"
        using lm La pp own(2) last_mine_none [of b p st] by (auto simp: pred_def)
      finally show ?thesis using cp kept_refl [OF rep] short_none by auto
    qed
  next
    case False
    then obtain d r where m2: "m2 = d # r" by (cases m2) auto
    have Ld: "L ip = (a @ m1) @ d # r @ b" "L ip = [] @ (a @ m1) @ d # r @ b" using L m m2 by simp_all
    have "\<not> ?P d" using m2 hd_dropWhile [of ?P m] by (simp add: m2_def)
    then have d: "LB \<le> ll_end (ent st d)" by simp
    have own2: "\<forall>c \<in> set (d # r). is_my_lock p c st" "\<forall>c \<in> set b. \<not> is_my_lock p c st" using own m m2 by auto
    have srt2: "sorted_rg (map (rg st) (d # r))" using srt m m2 by (simp add: sorted_rg_append del: sorted_rg.simps)
    define f k where "f = last_mine p st (a @ m1) None" and "k = length (locklist st) - length (a @ m1)"
    have h: "i_locklist st ip = Some (hd ((a @ m1) @ [d]))" using first Ld by (cases "a @ m1") auto
    have w: "insert_lock p ip LB UB fn ty st = insert_walk k p ip LB UB fn ty f (pred (a @ m1)) d st"
      using insert_walk_to [OF rep Ld(2) pass(1) le n(1), of fn ty None] h by (simp add: insert_lock_def f_def k_def)
    have dm: "is_my_lock p d st" using own2 by simp
    have wide: "moved p ip a m b (ins_range LB UB ty (map (rg st) m)) F L st st'"
      if "moved p ip (a @ m1) (d # r) b (ins_head LB UB ty (map (rg st) (d # r))) F L st st'" for st'
      using moved_widen [OF that own1 rep] L m m2 iv by simp
    from insert_case_ok [OF rep Ld(1) own2 srt2 d le p, of fn ty f]
    consider (ret) st1 where "insert_case p ip LB UB fn ty f (pred (a @ m1)) d st = (Return E_OK, st1)"
        "moved p ip (a @ m1) (d # r) b (ins_head LB UB ty (map (rg st) (d # r))) F L st st1"
      | (err) st1 where "insert_case p ip LB UB fn ty f (pred (a @ m1)) d st = (Return (full_error fn), st1)" "kept F L st st1"
        "short F LB UB ty (map (rg st) (d # r))"
      | (ins) c st1 st2 where "insert_case p ip LB UB fn ty f (pred (a @ m1)) d st = (Inserted c, st1)"
        "compress_lock_list p c LB UB st1 = Ret st2" "moved p ip (a @ m1) (d # r) b (ins_head LB UB ty (map (rg st) (d # r))) F L st st2"
      by blast
    then show ?thesis
    proof cases
      case ret
      then have "insert_lock p ip LB UB fn ty st = Ret (E_OK, st1)" using w dm by (simp add: insert_walk.simps [of k])
      then show ?thesis using wide [OF ret(2)] by blast
    next
      case err
      then have "insert_lock p ip LB UB fn ty st = Ret (full_error fn, st1)" using w dm by (simp add: insert_walk.simps [of k])
      moreover have "short F LB UB ty (map (rg st) m)" by (rule short_mono [OF err(3)]) (use m m2 in auto)
      ultimately show ?thesis using err(2) by blast
    next
      case ins
      then have "insert_lock p ip LB UB fn ty st = Ret (E_OK, st2)" using w dm by (simp add: insert_walk.simps [of k])
      then show ?thesis using wide [OF ins(3)] by blast
    qed
  qed
qed

end
