(* ===== verification/Lockf_Delete.thy ===== *)
theory Lockf_Delete
  imports Lockf_Insert
begin

text \<open>
  \<^verbatim>\<open>delete_lock\<close> and \<^verbatim>\<open>unlock\<close> on the list of a file.
\<close>

section \<open>The loop of delete_lock\<close>

lemma rep_not_free:
  assumes "lk_rep st F L" and "c \<in> set (L ip)"
  shows "c \<notin> set F"
proof -
  have "c \<in> cells st" using assms unfolding lk_rep_def by (elim conjE) blast
  then have "ll_busy (ent st c)" "c \<in> set F \<longrightarrow> \<not> ll_busy (ent st c)" using assms unfolding lk_rep_def by (elim conjE, blast)+
  then show ?thesis by blast
qed

declare delete_walk.simps [simp del] unlock_walk.simps [simp del]

lemma delete_walk_end:
  assumes "lk_rep st F L" and "L ip = xs"
  shows "\<exists>y. delete_walk n p ip LB UB fn (pred xs) st = Ret (E_OK, st\<lparr>synced := y\<rparr>)"
proof -
  have "get_link ip (pred xs) st = None" using get_link_pred [OF assms(1), of ip xs "[]"] assms(2) by simp
  then have "delete_walk n p ip LB UB fn (pred xs) st =
      Ret (E_OK, st\<lparr>synced := (if \<not> i_remote st ip \<and> i_locklist st ip = None then synced st @ [ip] else synced st)\<rparr>)"
    by (subst delete_walk.simps) simp
  then show ?thesis by blast
qed

definition apart :: "nat \<Rightarrow> int \<Rightarrow> int \<Rightarrow> lkstate \<Rightarrow> nat \<Rightarrow> bool" where
  "apart p LB UB st c \<longleftrightarrow> (is_my_lock p c st \<longrightarrow> UB \<le> ll_start (ent st c) \<or> ll_end (ent st c) \<le> LB)"

lemma delete_walk_to:
  assumes "lk_rep st F L" and "L ip = xs @ ws @ ys" and "\<forall>c \<in> set ws. apart p LB UB st c" and "length ws \<le> n"
  shows "delete_walk n p ip LB UB fn (pred xs) st = delete_walk (n - length ws) p ip LB UB fn (pred (xs @ ws)) st"
  using assms
proof (induction ws arbitrary: xs n)
  case (Cons c ws)
  obtain k where k: "n = Suc k" using Cons.prems(4) by (cases n) auto
  have "get_link ip (pred xs) st = Some c" using get_link_pred [OF Cons.prems(1), of ip xs "c # ws @ ys"] Cons.prems(2) by simp
  then have "delete_walk n p ip LB UB fn (pred xs) st = delete_walk k p ip LB UB fn (pred (xs @ [c])) st"
    using Cons.prems(3) k by (subst delete_walk.simps) (auto simp: apart_def)
  also have "\<dots> = delete_walk (k - length ws) p ip LB UB fn (pred ((xs @ [c]) @ ws)) st"
    using Cons.prems k by (intro Cons.IH) auto
  finally show ?case using k by simp
qed simp

text \<open>One lock that overlaps the range and is cut at one side.\<close>

lemma delete_trim:
  assumes rep: "lk_rep st F L" and L: "L ip = xs @ c # ys" and my: "is_my_lock p c st" and v: "rg st c = (s, e, t)" and se: "s < e"
    and ov: "s < UB" "LB < e" "LB < UB" and one: "(s < LB) \<noteq> (UB < e)" and n: "2 \<le> n"
  shows "\<exists>st1 k. delete_walk n p ip LB UB fn (pred xs) st = delete_walk k p ip LB UB fn (pred (xs @ [c])) st1 \<and> n \<le> k + 2 \<and>
    lk_rep st1 F L \<and> same_env st st1 \<and> (\<forall>d. d \<noteq> c \<longrightarrow> dat st1 d = dat st d) \<and> is_my_lock p c st1 \<and>
    rg st1 c = (if s < LB then (s, LB, t) else (UB, e, t))"
proof -
  have ev: "ll_start (ent st c) = s" "ll_end (ent st c) = e" "ll_type (ent st c) = t" using v by (simp_all add: rg_def)
  have c: "c < length (locklist st)" using rep_cell [OF rep L] by simp
  obtain k where k: "n = Suc (Suc k)" using n by (metis Suc_le_D numeral_2_eq_2 Suc_le_mono)
  let ?f = "\<lambda>e. if s < LB then e\<lparr>ll_end := LB\<rparr> else e\<lparr>ll_start := UB\<rparr>"
  let ?st = "check_lock_sleep c (upd_ll c ?f st)"
  have f: "mild ?f" by (simp add: mild_def)
  have r1: "lk_rep ?st F L" using rep f by (simp add: check_lock_sleep_rep mild_rep)
  have e1: "ent ?st d = (if d = c then (?f (ent st c))\<lparr>ll_iwant := False, ll_nfs := False\<rparr> else ent st d)" for d
    using c by (simp add: ent_check_lock_sleep ent_upd)
  have v1: "rg ?st c = (if s < LB then (s, LB, t) else (UB, e, t))" using ev by (simp add: rg_def e1)
  have m1: "is_my_lock p c ?st" using my by (simp add: is_my_lock_def e1)
  have "get_link ip (pred xs) st = Some c" using get_link_pred [OF rep, of ip xs "c # ys"] L by simp
  then have step: "delete_walk n p ip LB UB fn (pred xs) st =
      delete_walk (Suc k) p ip LB UB fn (if s < LB \<and> e < UB then Some c else pred xs) ?st"
    using my ev ov one se k by (subst delete_walk.simps) (auto simp: find_lock_range_def Let_def)
  have same: "same_env st ?st" using same_env_trans [of st "upd_ll c ?f st" ?st] by simp
  have oth: "\<forall>d. d \<noteq> c \<longrightarrow> dat ?st d = dat st d" by (simp add: dat_def e1)
  show ?thesis
  proof (cases "s < LB \<and> e < UB")
    case True
    then show ?thesis using step r1 same oth m1 v1 k by (intro exI [of _ ?st] exI [of _ "Suc k"]) simp
  next
    case False
    have "apart p LB UB ?st c" using v1 by (auto simp: apart_def rg_def split: if_splits)
    then have "delete_walk (Suc k) p ip LB UB fn (pred xs) ?st = delete_walk k p ip LB UB fn (pred (xs @ [c])) ?st"
      using delete_walk_to [OF r1, of ip xs "[c]" ys p LB UB "Suc k" fn] L by simp
    then show ?thesis using step False r1 same oth m1 v1 k by (intro exI [of _ ?st] exI [of _ k]) simp
  qed
qed

definition cut_in_two :: "int \<Rightarrow> int \<Rightarrow> range list \<Rightarrow> bool" where
  "cut_in_two LB UB vs \<longleftrightarrow> (\<exists>(s, e, t) \<in> set vs. s < LB \<and> UB < e)"

lemma cut_in_two_simps [simp]:
  "\<not> cut_in_two LB UB []" "cut_in_two LB UB (v # vs) \<longleftrightarrow> fst v < LB \<and> UB < fst (snd v) \<or> cut_in_two LB UB vs"
  by (auto simp: cut_in_two_def)

lemma cut_in_two_low: "\<forall>v \<in> set vs. LB \<le> fst v \<Longrightarrow> \<not> cut_in_two LB UB vs"
  by (fastforce simp: cut_in_two_def)

definition del_result :: "lockf_type \<Rightarrow> nat \<Rightarrow> nat \<Rightarrow> nat list \<Rightarrow> nat list \<Rightarrow> nat list \<Rightarrow> int \<Rightarrow> int \<Rightarrow> nat list \<Rightarrow> (nat \<Rightarrow> nat list) \<Rightarrow> lkstate
    \<Rightarrow> (errno \<times> lkstate) outcome \<Rightarrow> bool" where
  "del_result fn p ip xs r b LB UB F L st R \<longleftrightarrow>
     (if F = [] \<and> cut_in_two LB UB (map (rg st) r) then R = Ret (full_error fn, st)
      else \<exists>st'. R = Ret (E_OK, st') \<and> moved p ip xs r b (del_range LB UB (map (rg st) r)) F L st st')"

text \<open>From the result for the rest of the list to the result with a changed or new front.\<close>

lemma del_result_front:
  assumes R: "del_result fn p ip (xs @ ws) r b LB UB F1 L1 st1 R" and L1: "\<And>z. L1(ip := z) = L(ip := z)"
    and r1: "\<forall>d \<in> set r. dat st1 d = dat st d" and low: "\<forall>v \<in> set (map (rg st) r). LB \<le> fst v"
    and ws: "\<forall>c \<in> set ws. is_my_lock p c st1" "\<forall>c \<in> set ws. c \<notin> set F1 \<and> c \<notin> set r"
    and vs: "del_range LB UB (map (rg st) q) = map (rg st1) ws @ del_range LB UB (map (rg st) r)"
    and fr: "\<forall>c. c \<notin> set F \<and> c \<notin> set q \<longrightarrow> c \<notin> set F1 \<and> c \<notin> set r \<and> dat st1 c = dat st c" "same_env st st1"
    and room: "\<not> (F = [] \<and> cut_in_two LB UB (map (rg st) q))"
  shows "del_result fn p ip xs q b LB UB F L st R"
proof -
  have mr: "map (rg st1) r = map (rg st) r" using r1 by (intro map_cong refl rg_dat) blast
  have "\<not> cut_in_two LB UB (map (rg st1) r)" using low unfolding mr by (rule cut_in_two_low)
  then obtain st' where R': "R = Ret (E_OK, st')" "moved p ip (xs @ ws) r b (del_range LB UB (map (rg st1) r)) F1 L1 st1 st'"
    using R unfolding del_result_def by auto
  then obtain F' m' where m': "lk_rep st' F' (L(ip := (xs @ ws) @ m' @ b))" "map (rg st') m' = del_range LB UB (map (rg st) r)"
      "\<forall>c \<in> set m'. is_my_lock p c st'" "\<forall>c. c \<notin> set F1 \<union> set r \<longrightarrow> dat st' c = dat st1 c" "same_env st1 st'"
    unfolding moved_def L1 mr by blast
  have dw: "dat st' c = dat st1 c" if "c \<in> set ws" for c using ws(2) m'(4) that by blast
  have "moved p ip xs q b (del_range LB UB (map (rg st) q)) F L st st'"
  proof (rule movedI [where m' = "ws @ m'" and F' = F'])
    show "lk_rep st' F' (L(ip := xs @ (ws @ m') @ b))" using m'(1) by simp
    have "map (rg st') ws = map (rg st1) ws" using dw by (intro map_cong refl rg_dat)
    then show "map (rg st') (ws @ m') = del_range LB UB (map (rg st) q)" using m'(2) vs by simp
    have "is_my_lock p c st'" if "c \<in> set ws" for c using ws(1) that my_dat [OF dw [OF that]] by simp
    then show "\<forall>c \<in> set (ws @ m'). is_my_lock p c st'" using m'(3) by auto
    show "dat st' c = dat st c" if "c \<notin> set F" "c \<notin> set q" for c using fr(1) that m'(4) by simp
    show "same_env st st'" using fr(2) m'(5) by (rule same_env_trans)
  qed
  then show ?thesis using R'(1) room unfolding del_result_def by auto
qed

lemma moved_nothing:
  assumes "lk_rep st F L" and "L ip = xs @ b"
  shows "moved p ip xs [] b [] F L st (st\<lparr>synced := y\<rparr>)"
  unfolding moved_synced by (rule movedI [where m' = "[]" and F' = F]) (use assms in \<open>simp_all add: fun_upd_idem\<close>)

lemma delete_walk_ok:
  assumes "lk_rep st F L" and "L ip = xs @ r @ b" and "\<forall>c \<in> set r. is_my_lock p c st" and "\<forall>c \<in> set b. \<not> is_my_lock p c st"
    and "sorted_rg (map (rg st) r)" and "LB < UB" and "p \<noteq> 0" and "3 * length r + length b \<le> n"
  shows "del_result fn p ip xs r b LB UB F L st (delete_walk n p ip LB UB fn (pred xs) st)"
  using assms
proof (induction r arbitrary: xs st F L n)
  case Nil
  have L: "L ip = xs @ b @ []" "L ip = xs @ b" using Nil.prems(2) by simp_all
  have "delete_walk n p ip LB UB fn (pred xs) st = delete_walk (n - length b) p ip LB UB fn (pred (xs @ b)) st"
    using Nil.prems by (intro delete_walk_to [OF Nil.prems(1) L(1)]) (auto simp: apart_def)
  moreover obtain y where "delete_walk (n - length b) p ip LB UB fn (pred (xs @ b)) st = Ret (E_OK, st\<lparr>synced := y\<rparr>)"
    using delete_walk_end [OF Nil.prems(1) L(2)] by blast
  ultimately show ?case using moved_nothing [OF Nil.prems(1) L(2), of p y] by (auto simp: del_result_def)
next
  case (Cons c r)
  note rep = Cons.prems(1)
  have L: "L ip = xs @ c # r @ b" using Cons.prems(2) by simp
  have L2: "L ip = (xs @ [c]) @ r @ b" using L by simp
  have my: "is_my_lock p c st" using Cons.prems(3) by simp
  have own: "\<forall>c \<in> set r. is_my_lock p c st" using Cons.prems(3) by simp
  obtain s e t where v: "rg st c = (s, e, t)" by (cases "rg st c")
  then have ev: "ll_start (ent st c) = s" "ll_end (ent st c) = e" "ll_type (ent st c) = t" by (simp_all add: rg_def)
  have srt: "s < e" "\<forall>w \<in> set (map (rg st) r). e \<le> fst w" "sorted_rg (map (rg st) r)" using Cons.prems(5) v by auto
  have dist: "distinct (xs @ c # r @ b)" using rep_distinct [OF rep, of ip] L by simp
  have cn: "c \<notin> set r" "c \<notin> set b" using dist by auto
  have cF: "c \<notin> set F" using rep_not_free [OF rep, of c ip] L by simp
  have n3: "3 * length r + length b + 3 \<le> n" using Cons.prems(8) by simp
  have keep: "\<forall>d \<in> set r. is_my_lock p d st1" "\<forall>d \<in> set b. \<not> is_my_lock p d st1" "map (rg st1) r = map (rg st) r"
      "\<forall>d \<in> set r. dat st1 d = dat st d"
    if oth: "\<forall>d. d \<noteq> c \<longrightarrow> d \<notin> set F \<longrightarrow> dat st1 d = dat st d" for st1
  proof -
    have FL: "d \<notin> set F" if "d \<in> set (r @ b)" for d
      using rep_not_free [OF rep, of d ip] L that by auto
    have d: "dat st1 d = dat st d" if x: "d \<in> set (r @ b)" for d
    proof -
      have "d \<noteq> c" using x cn by auto
      then show ?thesis using oth FL [OF x] by blast
    qed
    show "\<forall>d \<in> set r. dat st1 d = dat st d" using d by simp
    show "map (rg st1) r = map (rg st) r" using d by (intro map_cong refl rg_dat) simp
    have "is_my_lock p x st1 = is_my_lock p x st" if "x \<in> set (r @ b)" for x using my_dat [OF d [OF that]] .
    then show "\<forall>d \<in> set r. is_my_lock p d st1" "\<forall>d \<in> set b. \<not> is_my_lock p d st1" using own Cons.prems(4) by simp_all
  qed
  show ?case
  proof (cases "UB \<le> s \<or> e \<le> LB")
    case True
    have "apart p LB UB st c" using True ev by (simp add: apart_def)
    then have w: "delete_walk n p ip LB UB fn (pred xs) st = delete_walk (n - 1) p ip LB UB fn (pred (xs @ [c])) st"
      using delete_walk_to [OF rep, of ip xs "[c]" "r @ b" p LB UB n fn] L n3 by simp
    have vs: "del_range LB UB (map (rg st) (c # r)) = [(s, e, t)] @ del_range LB UB (map (rg st) r)" using True v by simp
    have nc: "cut_in_two LB UB (map (rg st) (c # r)) = cut_in_two LB UB (map (rg st) r)" using True v Cons.prems(6) srt(1) by auto
    have "del_result fn p ip (xs @ [c]) r b LB UB F L st (delete_walk (n - 1) p ip LB UB fn (pred (xs @ [c])) st)"
      using Cons.IH [OF rep L2 own Cons.prems(4) srt(3) Cons.prems(6,7)] n3 by simp
    then consider (ok) st' where "delete_walk n p ip LB UB fn (pred xs) st = Ret (E_OK, st')"
        "moved p ip (xs @ [c]) r b (del_range LB UB (map (rg st) r)) F L st st'" "\<not> (F = [] \<and> cut_in_two LB UB (map (rg st) r))"
      | (bad) "delete_walk n p ip LB UB fn (pred xs) st = Ret (full_error fn, st)" "F = []" "cut_in_two LB UB (map (rg st) r)"
      unfolding del_result_def w by (auto split: if_splits)
    then show ?thesis
    proof cases
      case ok
      have "moved p ip xs ([c] @ r) b (map (rg st) [c] @ del_range LB UB (map (rg st) r)) F L st st'"
        using my L by (intro moved_widen [OF ok(2) _ rep]) simp_all
      then show ?thesis using ok(1,3) vs v nc unfolding del_result_def by auto
    next
      case bad
      then show ?thesis using nc unfolding del_result_def by simp
    qed
  next
    case ov: False
    then have low: "\<forall>v \<in> set (map (rg st) r). LB \<le> fst v" using srt(2) by auto
    consider (trim) "(s < LB) \<noteq> (UB < e)" | (del) "LB \<le> s" "e \<le> UB" | (mid) "s < LB" "UB < e" by linarith
    then show ?thesis
    proof cases
      case trim
      have "s < UB" "LB < e" "2 \<le> n" using ov n3 by auto
      from delete_trim [OF rep L my v srt(1) this(1,2) Cons.prems(6) trim this(3), of fn]
      obtain st1 k where st1: "delete_walk n p ip LB UB fn (pred xs) st = delete_walk k p ip LB UB fn (pred (xs @ [c])) st1" "n \<le> k + 2"
          "lk_rep st1 F L" "same_env st st1" "\<forall>d. d \<noteq> c \<longrightarrow> dat st1 d = dat st d" "is_my_lock p c st1"
          "rg st1 c = (if s < LB then (s, LB, t) else (UB, e, t))"
        by blast
      have k: "\<forall>d \<in> set r. is_my_lock p d st1" "\<forall>d \<in> set b. \<not> is_my_lock p d st1" "map (rg st1) r = map (rg st) r"
        "\<forall>d \<in> set r. dat st1 d = dat st d" using keep [of st1] st1(5) by auto
      have "del_result fn p ip (xs @ [c]) r b LB UB F L st1 (delete_walk k p ip LB UB fn (pred (xs @ [c])) st1)"
        by (rule Cons.IH [OF st1(3) L2 k(1,2) srt(3) [folded k(3)] Cons.prems(6,7)]) (use st1(2) n3 in simp)
      then show ?thesis unfolding st1(1)
      proof (rule del_result_front [OF _ refl k(4) low])
        show "del_range LB UB (map (rg st) (c # r)) = map (rg st1) [c] @ del_range LB UB (map (rg st) r)"
          using v st1(7) trim ov by auto
        show "\<forall>d. d \<notin> set F \<and> d \<notin> set (c # r) \<longrightarrow> d \<notin> set F \<and> d \<notin> set r \<and> dat st1 d = dat st d"
          using st1(5) by simp
        show "\<not> (F = [] \<and> cut_in_two LB UB (map (rg st) (c # r)))" using v trim cut_in_two_low [OF low] by auto
      qed (use st1(4,6) cF cn in auto)
    next
      case del
      let ?st1 = "lockfree c (set_link ip (pred xs) (nxt st c) st)"
      obtain F1 where F1: "lk_rep ?st1 F1 (L(ip := xs @ r @ b))" "same_env st ?st1" "\<forall>d. d \<noteq> c \<longrightarrow> dat ?st1 d = dat st d" "set F1 \<subseteq> insert c (set F)"
        using lockfree_rep [OF rep L] by blast
      define L1 where "L1 = L(ip := xs @ r @ b)"
      have L1: "L1 ip = xs @ r @ b" "\<And>z. L1(ip := z) = L(ip := z)" by (simp_all add: L1_def)
      obtain k where k: "n = Suc k" using n3 by (cases n) auto
      have "get_link ip (pred xs) st = Some c" using get_link_pred [OF rep, of ip xs "c # r @ b"] L by simp
      then have step: "delete_walk n p ip LB UB fn (pred xs) st =
          (if get_link ip (pred xs) ?st1 = None then Ret (E_OK, ?st1) else delete_walk k p ip LB UB fn (pred xs) ?st1)"
        using my ev ov del srt(1) k by (subst delete_walk.simps) (auto simp: find_lock_range_def Let_def)
      note kp = keep [of ?st1]
      have kk: "\<forall>d \<in> set r. is_my_lock p d ?st1" "\<forall>d \<in> set b. \<not> is_my_lock p d ?st1" "map (rg ?st1) r = map (rg st) r"
        "\<forall>d \<in> set r. dat ?st1 d = dat st d" using kp F1(3) by auto
      have "del_result fn p ip xs r b LB UB F1 L1 ?st1 (delete_walk n p ip LB UB fn (pred xs) st)"
      proof (cases "get_link ip (pred xs) ?st1 = None")
        case True
        then have "r = []" "b = []" using get_link_pred [OF F1(1), of ip xs "r @ b"] by (auto split: if_splits)
        moreover have "moved p ip xs [] [] [] F1 L1 ?st1 (?st1\<lparr>synced := synced ?st1\<rparr>)"
          using F1(1) L1 calculation by (intro moved_nothing) (simp_all add: L1_def)
        ultimately show ?thesis using step True by (simp add: del_result_def)
      next
        case False
        have "del_result fn p ip xs r b LB UB F1 L1 ?st1 (delete_walk k p ip LB UB fn (pred xs) ?st1)"
          by (rule Cons.IH [OF F1(1) [folded L1_def] L1(1) kk(1,2) srt(3) [folded kk(3)] Cons.prems(6,7)]) (use n3 k in simp)
        then show ?thesis using step False by simp
      qed
      then have "del_result fn p ip (xs @ []) r b LB UB F1 L1 ?st1 (delete_walk n p ip LB UB fn (pred xs) st)" by simp
      then show ?thesis
      proof (rule del_result_front [OF _ L1(2) kk(4) low])
        show "del_range LB UB (map (rg st) (c # r)) = map (rg ?st1) [] @ del_range LB UB (map (rg st) r)"
          using v del ov by auto
        show "\<forall>d. d \<notin> set F \<and> d \<notin> set (c # r) \<longrightarrow> d \<notin> set F1 \<and> d \<notin> set r \<and> dat ?st1 d = dat st d"
          using F1(3,4) by auto
        show "same_env st ?st1" by (fact F1(2))
        show "\<not> (F = [] \<and> cut_in_two LB UB (map (rg st) (c # r)))" using v del cut_in_two_low [OF low] by auto
      qed simp_all
    next
      case mid
      obtain k where k: "n = Suc (Suc (Suc k))" "3 * length r + length b \<le> k" proof -
        have "n = Suc (Suc (Suc (n - 3)))" "3 * length r + length b \<le> n - 3" using n3 by simp_all
        then show ?thesis by (rule that)
      qed
      have gl: "get_link ip (pred xs) st = Some c" using get_link_pred [OF rep, of ip xs "c # r @ b"] L by simp
      have pc: "pred (xs @ [c]) = Some c" by simp
      have step: "delete_walk n p ip LB UB fn (pred xs) st =
          (case lockadd p ip (Some c) UB e fn t st of (er, st1) \<Rightarrow>
             if er \<noteq> E_OK then Ret (er, st1)
             else delete_walk (Suc (Suc k)) p ip LB UB fn (pred xs) (check_lock_sleep c (upd_ll c (\<lambda>e. e\<lparr>ll_end := LB\<rparr>) st1)))"
        using gl my ev ov mid k by (subst delete_walk.simps) (auto simp: find_lock_range_def Let_def)
      show ?thesis
      proof (rule lockadd_at [OF rep L2 Cons.prems(7), of UB e fn t, unfolded pc], goal_cases)
        case 1
        then have "delete_walk n p ip LB UB fn (pred xs) st = Ret (full_error fn, st)" using step by simp
        moreover have "cut_in_two LB UB (map (rg st) (c # r))" using v mid by simp
        ultimately show ?case using 1(2) unfolding del_result_def by simp
      next
        case (2 c2 F' st1)
        let ?st2 = "check_lock_sleep c (upd_ll c (\<lambda>e. e\<lparr>ll_end := LB\<rparr>) st1)"
        have c1: "c < length (locklist st1)" using rep_cell [OF rep L] 2(4) by (simp add: same_env_def)
        have ne: "c2 \<noteq> c" using 2(9) by simp
        have e2: "ent ?st2 d = (if d = c then (ent st1 c)\<lparr>ll_end := LB, ll_iwant := False, ll_nfs := False\<rparr> else ent st1 d)" for d
          using c1 by (simp add: ent_check_lock_sleep ent_upd)
        define L1 where "L1 = L(ip := xs @ [c, c2] @ r @ b)"
        have L1: "L1 ip = (xs @ [c, c2]) @ r @ b" "\<And>z. L1(ip := z) = L(ip := z)" "L1 ip = xs @ [c, c2] @ (r @ b)" by (simp_all add: L1_def)
        have r2: "lk_rep ?st2 F' L1" using 2(3) by (simp add: check_lock_sleep_rep mild_rep L1_def)
        have "dat st1 c = dat st c" using 2(5) ne by simp
        then have "rg st1 c = (s, e, t)" "is_my_lock p c st1" using v my rg_dat my_dat by metis+
        then have vc: "rg ?st2 c = (s, LB, t)" "is_my_lock p c ?st2" by (simp_all add: rg_def e2 is_my_lock_def)
        have vc2: "rg ?st2 c2 = (UB, e, t)" "is_my_lock p c2 ?st2" using 2(6,7) ne by (simp_all add: rg_def e2 is_my_lock_def)
        have ap: "\<forall>d \<in> set [c, c2]. apart p LB UB ?st2 d" using vc(1) vc2(1) by (simp add: apart_def rg_def)
        have w: "delete_walk n p ip LB UB fn (pred xs) st = delete_walk k p ip LB UB fn (pred (xs @ [c, c2])) ?st2"
          using step 2(1) delete_walk_to [OF r2 L1(3) ap, of "Suc (Suc k)" fn] by simp
        have od: "dat ?st2 d = dat st d" if "d \<noteq> c" "d \<noteq> c2" for d
          using that 2(5) by (simp add: dat_def e2)
        have kp: "\<forall>d. d \<noteq> c \<longrightarrow> d \<notin> set F \<longrightarrow> dat ?st2 d = dat st d" using od 2(2) by auto
        note kk = keep [OF kp]
        have env: "same_env st ?st2"
          using 2(4) same_env_trans [of st "upd_ll c (\<lambda>e. e\<lparr>ll_end := LB\<rparr>) st1" ?st2] by simp
        have dF: "c2 \<notin> set F'" "c2 \<notin> set r" "c \<notin> set F'"
          using 2(2,10) rep cF by (auto simp: lk_rep_def)
        have "del_result fn p ip (xs @ [c, c2]) r b LB UB F' L1 ?st2 (delete_walk k p ip LB UB fn (pred (xs @ [c, c2])) ?st2)"
          by (rule Cons.IH [OF r2 L1(1) kk(1,2) srt(3) [folded kk(3)] Cons.prems(6,7) k(2)])
        then show ?case unfolding w
        proof (rule del_result_front [OF _ L1(2) kk(4) low])
          show "del_range LB UB (map (rg st) (c # r)) = map (rg ?st2) [c, c2] @ del_range LB UB (map (rg st) r)"
            using v vc(1) vc2(1) mid ov by auto
          show "\<forall>d. d \<notin> set F \<and> d \<notin> set (c # r) \<longrightarrow> d \<notin> set F' \<and> d \<notin> set r \<and> dat ?st2 d = dat st d"
            using od 2(2) by auto
          show "\<forall>d \<in> set [c, c2]. is_my_lock p d ?st2" using vc(2) vc2(2) by simp
          show "\<forall>d \<in> set [c, c2]. d \<notin> set F' \<and> d \<notin> set r" using dF cn by simp
          show "same_env st ?st2" by (fact env)
          show "\<not> (F = [] \<and> cut_in_two LB UB (map (rg st) (c # r)))" using 2(2) by simp
        qed
      qed
    qed
  qed
qed

lemma delete_lock_moved:
  assumes rep: "lk_rep st F L" and L: "L ip = a @ m @ b" and own: "\<forall>c \<in> set m. is_my_lock p c st" "\<forall>c \<in> set a \<union> set b. \<not> is_my_lock p c st"
    and srt: "sorted_rg (map (rg st) m)" and le: "LB < UB" and p: "p \<noteq> 0"
  shows "del_result fn p ip a m b LB UB F L st (delete_lock p ip LB UB fn st)"
proof -
  have len: "length a + length m + length b < length (locklist st)" using rep_length [OF rep, of ip] L by simp
  have "delete_lock p ip LB UB fn st = delete_walk (3 * length (locklist st)) p ip LB UB fn (pred []) st"
    by (simp add: delete_lock_def)
  also have "\<dots> = delete_walk (3 * length (locklist st) - length a) p ip LB UB fn (pred a) st"
    using delete_walk_to [OF rep, of ip "[]" a "m @ b" p LB UB] L own(2) len by (simp add: apart_def)
  finally show ?thesis using delete_walk_ok [OF rep L own(1) _ srt le p] own(2) len by simp
qed

section \<open>unlock\<close>

lemma unlock_walk_ok:
  assumes "lk_rep st F L" and "L ip = xs @ ys" and "length ys \<le> n"
  shows "\<exists>st' F'. unlock_walk n p ip (pred xs) r st = Ret (r \<or> (\<exists>c \<in> set ys. is_my_lock p c st), st') \<and>
    lk_rep st' F' (L(ip := xs @ filter (\<lambda>c. \<not> is_my_lock p c st) ys)) \<and> same_env st st' \<and>
    (\<forall>c. c \<notin> set ys \<or> \<not> is_my_lock p c st \<longrightarrow> dat st' c = dat st c)"
  using assms
proof (induction ys arbitrary: xs n r st F L)
  case Nil
  have "get_link ip (pred xs) st = None" using get_link_pred [OF Nil.prems(1), of ip xs "[]"] Nil.prems(2) by simp
  then have "unlock_walk n p ip (pred xs) r st = Ret (r, st)" by (subst unlock_walk.simps) simp
  then show ?case using Nil.prems by (intro exI [of _ st] exI [of _ F]) (simp add: fun_upd_idem)
next
  case (Cons c ys)
  obtain k where k: "n = Suc k" "length ys \<le> k" using Cons.prems(3) by (cases n) auto
  have gl: "get_link ip (pred xs) st = Some c" using get_link_pred [OF Cons.prems(1), of ip xs "c # ys"] Cons.prems(2) by simp
  have cn: "c \<notin> set ys" using rep_distinct [OF Cons.prems(1), of ip] Cons.prems(2) by simp
  show ?case
  proof (cases "is_my_lock p c st")
    case True
    let ?st1 = "lockfree c (set_link ip (pred xs) (nxt st c) st)"
    obtain F1 where F1: "lk_rep ?st1 F1 (L(ip := xs @ ys))" "same_env st ?st1" "\<forall>d. d \<noteq> c \<longrightarrow> dat ?st1 d = dat st d"
      using lockfree_rep [OF Cons.prems(1,2)] by blast
    have my: "is_my_lock p d ?st1 = is_my_lock p d st" if "d \<noteq> c" for d using F1(3) that my_dat by metis
    have step: "unlock_walk n p ip (pred xs) r st = unlock_walk k p ip (pred xs) True ?st1"
      using gl True k by (subst unlock_walk.simps) simp
    obtain st' F' where IH: "unlock_walk k p ip (pred xs) True ?st1 = Ret (True \<or> (\<exists>c \<in> set ys. is_my_lock p c ?st1), st')"
        "lk_rep st' F' ((L(ip := xs @ ys))(ip := xs @ filter (\<lambda>c. \<not> is_my_lock p c ?st1) ys))" "same_env ?st1 st'"
        "\<forall>c. c \<notin> set ys \<or> \<not> is_my_lock p c ?st1 \<longrightarrow> dat st' c = dat ?st1 c"
      using Cons.IH [OF F1(1) fun_upd_same k(2), of True] by blast
    have "filter (\<lambda>c. \<not> is_my_lock p c ?st1) ys = filter (\<lambda>c. \<not> is_my_lock p c st) ys"
      using my cn by (intro filter_cong refl) metis
    then have "lk_rep st' F' (L(ip := xs @ filter (\<lambda>c. \<not> is_my_lock p c st) (c # ys)))" using IH(2) True by simp
    moreover have "same_env st st'" using F1(2) IH(3) by (rule same_env_trans)
    moreover have "\<forall>d. d \<notin> set (c # ys) \<or> \<not> is_my_lock p d st \<longrightarrow> dat st' d = dat st d"
    proof (intro allI impI)
      fix d assume d: "d \<notin> set (c # ys) \<or> \<not> is_my_lock p d st"
      then have "d \<noteq> c" using True by auto
      then show "dat st' d = dat st d" using d IH(4) F1(3) my [of d] by simp
    qed
    ultimately show ?thesis using step IH(1) True by (intro exI [of _ st'] exI [of _ F']) (simp del: fun_upd_apply)
  next
    case False
    have step: "unlock_walk n p ip (pred xs) r st = unlock_walk k p ip (pred (xs @ [c])) r st"
      using gl False k by (subst unlock_walk.simps) simp
    have L: "L ip = (xs @ [c]) @ ys" using Cons.prems(2) by simp
    show ?thesis using Cons.IH [OF Cons.prems(1) L k(2), of r] step False by auto
  qed
qed

lemma unlock_moved:
  assumes rep: "lk_rep st F L" and L: "L ip = a @ m @ b" and own: "\<forall>c \<in> set m. is_my_lock p c st" "\<forall>c \<in> set a \<union> set b. \<not> is_my_lock p c st"
  shows "\<exists>st'. unlock p ip st = Ret (m \<noteq> [], st') \<and> moved p ip a m b [] F L st st'"
proof -
  have n: "length (L ip) \<le> length (locklist st)" using rep_length [OF rep, of ip] by simp
  obtain st' F' where u: "unlock_walk (length (locklist st)) p ip (pred []) False st = Ret (False \<or> (\<exists>c \<in> set (L ip). is_my_lock p c st), st')"
      "lk_rep st' F' (L(ip := [] @ filter (\<lambda>c. \<not> is_my_lock p c st) (L ip)))" "same_env st st'"
      "\<forall>c. c \<notin> set (L ip) \<or> \<not> is_my_lock p c st \<longrightarrow> dat st' c = dat st c"
    using unlock_walk_ok [OF rep append_Nil [symmetric] n, of p False] by blast
  have f: "filter (\<lambda>c. \<not> is_my_lock p c st) (L ip) = a @ b"
    using own unfolding L by (auto simp: filter_id_conv filter_empty_conv)
  have "moved p ip a m b [] F L st st'"
  proof (rule movedI [where m' = "[]" and F' = F'])
    show "lk_rep st' F' (L(ip := a @ [] @ b))" using u(2) f by simp
    show "dat st' c = dat st c" if "c \<notin> set F" "c \<notin> set m" for c
      using u(4) that own(2) L by (metis Un_iff set_append)
  qed (use u(3) in simp_all)
  moreover have "(\<exists>c \<in> set (L ip). is_my_lock p c st) \<longleftrightarrow> m \<noteq> []" using own L by (cases m) auto
  ultimately show ?thesis using u(1) by (auto simp: unlock_def)
qed

end
