(* ===== verification/Lockf_State.thy ===== *)
theory Lockf_State
  imports Lockf_Delete
begin

text \<open>
  The invariant of the record locks and what each operation does to the locks that the
  processes hold.
\<close>

section \<open>Locks held\<close>

definition lock_list :: "lkstate \<Rightarrow> nat \<Rightarrow> nat list" where
  "lock_list st ip = chain_from (length (locklist st)) (nxt st) (i_locklist st ip)"

text \<open>Process \<open>q\<close> holds a lock of type \<open>t\<close> on byte \<open>x\<close> of file \<open>ip\<close>.\<close>

definition holds :: "lkstate \<Rightarrow> nat \<Rightarrow> nat \<Rightarrow> int \<Rightarrow> int \<Rightarrow> bool" where
  "holds st ip q x t \<longleftrightarrow> (\<exists>c \<in> set (lock_list st ip).
     is_my_lock q c st \<and> ll_start (ent st c) \<le> x \<and> x < ll_end (ent st c) \<and> ll_type (ent st c) = t)"

lemma rep_lock_list: "lk_rep st F L \<Longrightarrow> lock_list st ip = L ip"
  unfolding lock_list_def using rep_linked [of st F L ip] rep_length [of st F L ip] by (intro linked_chain_from) simp_all

text \<open>The free entries, and whether they are too few for a request.\<close>

definition free_locks :: "lkstate \<Rightarrow> nat list" where
  "free_locks st = chain_from (length (locklist st)) (nxt st) (nxt st 0)"

lemma rep_free_locks: "lk_rep st F L \<Longrightarrow> free_locks st = F"
proof -
  assume r: "lk_rep st F L"
  then have "distinct F" "set F \<subseteq> cells st" "linked (nxt st) (nxt st 0) F" by (simp_all add: lk_rep_def)
  moreover have "length F \<le> card (cells st)" using calculation card_mono [of "cells st" "set F"] distinct_card [of F] by simp
  ultimately show ?thesis unfolding free_locks_def by (intro linked_chain_from) simp_all
qed

definition too_few :: "nat \<Rightarrow> nat \<Rightarrow> int \<Rightarrow> int \<Rightarrow> int \<Rightarrow> lkstate \<Rightarrow> bool" where
  "too_few p ip LB UB ty st \<longleftrightarrow> free_locks st = [] \<or>
     length (free_locks st) = 1 \<and> (\<exists>c \<in> set (lock_list st ip). is_my_lock p c st \<and>
       ll_start (ent st c) < LB \<and> UB < ll_end (ent st c) \<and> ll_type (ent st c) \<noteq> ty)"

lemma too_few_short: "lk_rep st F L \<Longrightarrow> too_few p ip LB UB ty st \<longleftrightarrow> short F LB UB ty (mine p st (L ip))"
  by (auto simp: too_few_def short_def rep_free_locks rep_lock_list mine_def rg_def)

lemma cut_in_two_mine: "lk_rep st F L \<Longrightarrow> cut_in_two LB UB (mine p st (L ip)) \<longleftrightarrow>
    (\<exists>c \<in> set (lock_list st ip). is_my_lock p c st \<and> ll_start (ent st c) < LB \<and> UB < ll_end (ent st c))"
  by (auto simp: cut_in_two_def rep_lock_list mine_def rg_def)

lemma rep_holds: "lk_rep st F L \<Longrightarrow> holds st ip q x t \<longleftrightarrow> carries (mine q st (L ip)) x t"
  by (auto simp: holds_def rep_lock_list carries_def mine_def rg_def)

section \<open>The invariant\<close>

text \<open>
  \<open>A\<close> are the live processes. The locks of a file belong to live processes, have a lock
  type, and no process waits, directly or through others, for itself.
\<close>

definition lk_inv :: "nat set \<Rightarrow> lkstate \<Rightarrow> nat list \<Rightarrow> (nat \<Rightarrow> nat list) \<Rightarrow> bool" where
  "lk_inv A st F L \<longleftrightarrow> lk_rep st F L \<and> list_ok st L \<and> table_ok A (ptab st) \<and> pid_at st 0 = 0 \<and>
     (\<forall>q. p_dlchan st q \<noteq> None \<longrightarrow> q \<in> A) \<and> (\<forall>ip. \<forall>c \<in> set (L ip). \<exists>q \<in> A. is_my_lock q c st) \<and>
     (\<forall>ip q x t. carries (mine q st (L ip)) x t \<longrightarrow> t = F_RDLCK \<or> t = F_WRLCK) \<and> acyclic (waits st)"

definition lk_ok :: "nat set \<Rightarrow> lkstate \<Rightarrow> bool" where
  "lk_ok A st \<longleftrightarrow> (\<exists>F L. lk_inv A st F L)"

text \<open>Two processes hold locks on the same byte only to read.\<close>

definition compatible :: "lkstate \<Rightarrow> bool" where
  "compatible st \<longleftrightarrow> (\<forall>ip q r x t u. q \<noteq> r \<longrightarrow> holds st ip q x t \<longrightarrow> holds st ip r x u \<longrightarrow> t = F_RDLCK \<and> u = F_RDLCK)"

lemma live_nonzero: "lk_inv A st F L \<Longrightarrow> p \<in> A \<Longrightarrow> p \<noteq> 0"
  by (auto simp: lk_inv_def table_ok_def)

lemma lk_inv_group:
  assumes "lk_inv A st F L"
  obtains a m b where "L ip = a @ m @ b" "\<forall>c \<in> set m. is_my_lock p c st" "\<forall>c \<in> set a \<union> set b. \<not> is_my_lock p c st"
    "mine p st (L ip) = map (rg st) m" "m = [] \<Longrightarrow> b = []" "sorted_rg (map (rg st) m)"
proof -
  have g: "grouped p st (L ip)" "sorted_rg (mine p st (L ip))" using assms by (simp_all add: lk_inv_def list_ok_def)
  obtain a m b where m: "L ip = a @ m @ b" "\<forall>c \<in> set m. is_my_lock p c st" "\<forall>c \<in> set a \<union> set b. \<not> is_my_lock p c st"
    "mine p st (L ip) = map (rg st) m" "m = [] \<Longrightarrow> b = []"
    by (rule groupedE [OF g(1)]) blast
  show ?thesis using that [OF m] g(2) m(4) by simp
qed

lemma waits_zero: "lk_inv A st F L \<Longrightarrow> (0, r) \<notin> waits st"
  using live_nonzero [of A st F L 0] unfolding lk_inv_def waits_def by blast

lemma acyclic_zero:
  assumes "acyclic R" and "\<And>r. (0, r) \<notin> R'" and "\<And>q r. (q, r) \<in> R' \<Longrightarrow> (q, r) \<in> R \<or> r = (0::nat)"
  shows "acyclic R'"
proof -
  have "(x, y) \<in> R'\<^sup>+ \<Longrightarrow> y = 0 \<or> (x, y) \<in> R\<^sup>+" for x y
  proof (induction rule: trancl_induct)
    case (base y)
    then show ?case using assms(3) by blast
  next
    case (step y z)
    then show ?case using assms(2,3) by (metis trancl.trancl_into_trancl)
  qed
  moreover have "(0, y) \<notin> R'\<^sup>+" for y using assms(2) by (meson tranclD)
  ultimately show ?thesis using assms(1) by (auto simp: acyclic_def)
qed

lemma moved_ok:
  assumes inv: "lk_inv A st F L" and p: "p \<in> A" and L: "L ip = a @ m @ b" and own: "\<forall>c \<in> set m. is_my_lock p c st"
    "\<forall>c \<in> set a \<union> set b. \<not> is_my_lock p c st" "m = [] \<Longrightarrow> b = []" and mv: "moved p ip a m b vs F L st st'" and vs: "sorted_rg vs"
      "\<And>x t. carries vs x t \<Longrightarrow> t = F_RDLCK \<or> t = F_WRLCK"
  shows "lk_ok A st' \<and> same_env st st' \<and>
    (\<forall>jp q x t. holds st' jp q x t \<longleftrightarrow> (if q = p \<and> jp = ip then carries vs x t else holds st jp q x t))"
proof -
  have i: "lk_rep st F L" "list_ok st L" "table_ok A (ptab st)" "pid_at st 0 = 0" "\<forall>q. p_dlchan st q \<noteq> None \<longrightarrow> q \<in> A"
    "\<forall>ip. \<forall>c \<in> set (L ip). \<exists>q \<in> A. is_my_lock q c st" "\<forall>ip q x t. carries (mine q st (L ip)) x t \<longrightarrow> t = F_RDLCK \<or> t = F_WRLCK"
    "acyclic (waits st)"
    using inv by (simp_all add: lk_inv_def)
  obtain F' L' where x: "lk_rep st' F' L'" "list_ok st' L'" "mine p st' (L' ip) = vs"
      "\<forall>q jp. q \<noteq> p \<or> jp \<noteq> ip \<longrightarrow> mine q st' (L' jp) = mine q st (L jp)" "same_env st st'"
      "\<forall>q r. (q, r) \<in> waits st' \<longrightarrow> (q, r) \<in> waits st \<or> r = 0"
      "\<forall>jp. \<forall>c \<in> set (L' jp). is_my_lock p c st' \<or> c \<in> set (L jp) \<and> dat st' c = dat st c"
    using moved_list_ok [OF mv L own i(2,1) vs(1)] by blast
  have mine': "mine q st' (L' jp) = (if q = p \<and> jp = ip then vs else mine q st (L jp))" for q jp using x(3,4) by metis
  have "\<exists>q \<in> A. is_my_lock q c st'" if "c \<in> set (L' jp)" for jp c using that x(7) p i(6) my_dat by metis
  moreover have "acyclic (waits st')"
  proof (rule acyclic_zero [OF i(8)])
    show "(0, r) \<notin> waits st'" for r using x(5) live_nonzero [OF inv, of 0] i(5) unfolding waits_def same_env_def by auto
  qed (use x(6) in blast)
  ultimately have "lk_inv A st' F' L'"
    using x(1,2,5) i(3,4,5,7) vs(2) by (auto simp: lk_inv_def same_env_def pid_at_def mine' split: if_splits)
  moreover have "holds st' jp q x t \<longleftrightarrow> (if q = p \<and> jp = ip then carries vs x t else holds st jp q x t)" for jp q x t
    using rep_holds [OF x(1)] rep_holds [OF i(1)] mine' by simp
  ultimately show ?thesis using x(5) by (auto simp: lk_ok_def)
qed

lemma kept_ok:
  assumes inv: "lk_inv A st F L" and k: "kept F L st st'"
  shows "lk_ok A st' \<and> same_env st st' \<and> holds st' = holds st"
proof -
  have i: "lk_rep st F L" "list_ok st L" "table_ok A (ptab st)" "pid_at st 0 = 0" "\<forall>q. p_dlchan st q \<noteq> None \<longrightarrow> q \<in> A"
    "\<forall>ip. \<forall>c \<in> set (L ip). \<exists>q \<in> A. is_my_lock q c st" "\<forall>ip q x t. carries (mine q st (L ip)) x t \<longrightarrow> t = F_RDLCK \<or> t = F_WRLCK"
    "acyclic (waits st)"
    using inv by (simp_all add: lk_inv_def)
  obtain F' where x: "lk_rep st' F' L" "\<forall>c. c \<notin> set F \<longrightarrow> dat st' c = dat st c" "same_env st st'" using k by (auto simp: kept_def)
  have d: "dat st' c = dat st c" if "c \<in> set (L jp)" for c jp using x(2) rep_not_free [OF i(1) that] by blast
  have m: "mine q st' (L jp) = mine q st (L jp)" "grouped q st' (L jp) = grouped q st (L jp)" for q jp
    using mine_cong [of "L jp" st' st q] grouped_cong [of "L jp" st' st q] d [of _ jp] by simp_all
  have "waits st' = waits st"
  proof -
    have "ll_proc (ent st' c) = ll_proc (ent st c)" if "p_dlchan st q = Some c" for q c
      using rep_waited [OF i(1) that] x(2) dat_fields(3) [of st' c st] by blast
    then show ?thesis using x(3) by (auto simp: waits_def same_env_def)
  qed
  moreover have "is_my_lock q c st' = is_my_lock q c st" if "c \<in> set (L jp)" for q c jp using d [OF that] my_dat by metis
  ultimately have "lk_inv A st' F' L"
    using x i m by (auto simp: lk_inv_def list_ok_def same_env_def pid_at_def)
  moreover have "holds st' = holds st"
    using rep_holds [OF x(1)] rep_holds [OF i(1)] m by (simp add: fun_eq_iff)
  ultimately show ?thesis using x(3) by (auto simp: lk_ok_def)
qed

section \<open>What the operations do\<close>

lemma insert_lock_holds:
  assumes "lk_ok A st" and "p \<in> A" and "LB < UB" and "ty = F_RDLCK \<or> ty = F_WRLCK"
  shows "\<exists>er st'. insert_lock p ip LB UB fn ty st = Ret (er, st') \<and> lk_ok A st' \<and> same_env st st' \<and>
    (\<forall>jp q x t. holds st' jp q x t \<longleftrightarrow>
       (if er = E_OK \<and> q = p \<and> jp = ip \<and> LB \<le> x \<and> x < UB then t = ty else holds st jp q x t)) \<and>
    (er \<noteq> E_OK \<longrightarrow> er = full_error fn \<and> too_few p ip LB UB ty st)"
proof -
  obtain F L where inv: "lk_inv A st F L" using assms(1) by (auto simp: lk_ok_def)
  note rep = inv [unfolded lk_inv_def, THEN conjunct1]
  obtain a m b where g: "L ip = a @ m @ b" "\<forall>c \<in> set m. is_my_lock p c st" "\<forall>c \<in> set a \<union> set b. \<not> is_my_lock p c st"
    "mine p st (L ip) = map (rg st) m" "m = [] \<Longrightarrow> b = []" "sorted_rg (map (rg st) m)"
    by (rule lk_inv_group [OF inv]) blast
  have car: "carries (map (rg st) m) x t \<longleftrightarrow> holds st ip p x t" for x t using rep_holds [OF rep] g(4) by simp
  obtain er st' where r: "insert_lock p ip LB UB fn ty st = Ret (er, st')"
    "er = E_OK \<and> moved p ip a m b (ins_range LB UB ty (map (rg st) m)) F L st st' \<or>
     er = full_error fn \<and> kept F L st st' \<and> short F LB UB ty (map (rg st) m)"
    using insert_lock_moved [OF rep g(1-3,5,6) assms(3) live_nonzero [OF inv assms(2)]] by blast
  show ?thesis
  proof (cases "er = E_OK")
    case True
    then have mv: "moved p ip a m b (ins_range LB UB ty (map (rg st) m)) F L st st'" using r(2) by (auto split: if_splits)
    note io = ins_range_ok [OF g(6) assms(3), of ty]
    have "carries (map (rg st) m) x t \<Longrightarrow> t = F_RDLCK \<or> t = F_WRLCK" for x t
      using inv g(4) unfolding lk_inv_def by metis
    then have "carries (ins_range LB UB ty (map (rg st) m)) x t \<Longrightarrow> t = F_RDLCK \<or> t = F_WRLCK" for x t
      using io assms(4) by (metis (full_types))
    from moved_ok [OF inv assms(2) g(1-3,5) mv conjunct1 [OF io] this]
    show ?thesis using r(1) True io car by (intro exI [of _ er] exI [of _ st']) auto
  next
    case False
    then have "er = full_error fn" "kept F L st st'" "too_few p ip LB UB ty st"
      using r(2) too_few_short [OF rep, of p ip LB UB ty] g(4) by auto
    then show ?thesis using r(1) False kept_ok [OF inv] by (intro exI [of _ er] exI [of _ st']) auto
  qed
qed

lemma delete_lock_holds:
  assumes "lk_ok A st" and "p \<in> A" and "LB < UB"
  shows "\<exists>er st'. delete_lock p ip LB UB fn st = Ret (er, st') \<and> lk_ok A st' \<and> same_env st st' \<and>
    (\<forall>jp q x t. holds st' jp q x t \<longleftrightarrow>
       \<not> (er = E_OK \<and> q = p \<and> jp = ip \<and> LB \<le> x \<and> x < UB) \<and> holds st jp q x t) \<and>
    (if free_locks st = [] \<and> (\<exists>c \<in> set (lock_list st ip). is_my_lock p c st \<and> ll_start (ent st c) < LB \<and> UB < ll_end (ent st c))
     then er = full_error fn \<and> st' = st else er = E_OK)"
proof -
  obtain F L where inv: "lk_inv A st F L" using assms(1) by (auto simp: lk_ok_def)
  note rep = inv [unfolded lk_inv_def, THEN conjunct1]
  obtain a m b where g: "L ip = a @ m @ b" "\<forall>c \<in> set m. is_my_lock p c st" "\<forall>c \<in> set a \<union> set b. \<not> is_my_lock p c st"
    "mine p st (L ip) = map (rg st) m" "m = [] \<Longrightarrow> b = []" "sorted_rg (map (rg st) m)"
    by (rule lk_inv_group [OF inv]) blast
  have car: "carries (map (rg st) m) x t \<longleftrightarrow> holds st ip p x t" for x t using rep_holds [OF rep] g(4) by simp
  note R = delete_lock_moved [OF rep g(1-3,6) assms(3) live_nonzero [OF inv assms(2)], of fn, unfolded del_result_def]
  note do = del_range_ok [OF g(6) assms(3)]
  have cut: "F = [] \<and> cut_in_two LB UB (map (rg st) m) \<longleftrightarrow> free_locks st = [] \<and>
      (\<exists>c \<in> set (lock_list st ip). is_my_lock p c st \<and> ll_start (ent st c) < LB \<and> UB < ll_end (ent st c))"
    using cut_in_two_mine [OF rep, of LB UB p ip] rep_free_locks [OF rep] g(4) by simp
  show ?thesis
  proof (cases "F = [] \<and> cut_in_two LB UB (map (rg st) m)")
    case False
    then obtain st' where st': "delete_lock p ip LB UB fn st = Ret (E_OK, st')"
      and mv: "moved p ip a m b (del_range LB UB (map (rg st) m)) F L st st'"
      using R by auto
    have "carries (map (rg st) m) x t \<Longrightarrow> t = F_RDLCK \<or> t = F_WRLCK" for x t
      using inv g(4) unfolding lk_inv_def by metis
    then have "carries (del_range LB UB (map (rg st) m)) x t \<Longrightarrow> t = F_RDLCK \<or> t = F_WRLCK" for x t using do by blast
    from moved_ok [OF inv assms(2) g(1-3,5) mv conjunct1 [OF do] this]
    show ?thesis unfolding cut [symmetric] using st' do car False by (intro exI [of _ E_OK] exI [of _ st']) auto
  next
    case True
    then have "delete_lock p ip LB UB fn st = Ret (full_error fn, st)" using R by simp
    then show ?thesis unfolding cut [symmetric] using assms(1) True by (intro exI [of _ "full_error fn"] exI [of _ st]) auto
  qed
qed

lemma unlock_holds:
  assumes "lk_ok A st" and "p \<in> A"
  shows "\<exists>r st'. unlock p ip st = Ret (r, st') \<and> lk_ok A st' \<and> same_env st st' \<and>
    (\<forall>jp q x t. holds st' jp q x t \<longleftrightarrow> \<not> (q = p \<and> jp = ip) \<and> holds st jp q x t)"
proof -
  obtain F L where inv: "lk_inv A st F L" using assms(1) by (auto simp: lk_ok_def)
  note rep = inv [unfolded lk_inv_def, THEN conjunct1]
  obtain a m b where g: "L ip = a @ m @ b" "\<forall>c \<in> set m. is_my_lock p c st" "\<forall>c \<in> set a \<union> set b. \<not> is_my_lock p c st"
    "mine p st (L ip) = map (rg st) m" "m = [] \<Longrightarrow> b = []" "sorted_rg (map (rg st) m)"
    by (rule lk_inv_group [OF inv]) blast
  obtain st' where u: "unlock p ip st = Ret (m \<noteq> [], st')" "moved p ip a m b [] F L st st'"
    using unlock_moved [OF rep g(1-3)] by blast
  show ?thesis using moved_ok [OF inv assms(2) g(1-3,5) u(2)] u(1) by auto
qed

end
