(* ===== verification/Lockf_Wait.thy ===== *)
theory Lockf_Wait
  imports Lockf_State
begin

text \<open>
  Waiting for a record lock: the search for a deadlock ends and is exact, a process that
  starts to wait keeps the invariant, and so does one that stops.
\<close>

section \<open>The search for a deadlock\<close>

text \<open>Where the search can be: the processes that \<open>pfind\<close> knows by their number.\<close>

definition owners_ok :: "nat set \<Rightarrow> lkstate \<Rightarrow> bool" where
  "owners_ok A st \<longleftrightarrow> table_ok A (ptab st) \<and> pid_at st 0 = 0 \<and>
     (\<forall>q c. p_dlchan st q = Some c \<longrightarrow> (\<exists>r \<in> insert 0 A. ll_proc (ent st c) = Some r))"

lemma pid_at_eq: "owners_ok A st \<Longrightarrow> q \<in> insert 0 A \<Longrightarrow> p \<in> insert 0 A \<Longrightarrow> pid_at st q = pid_at st p \<longleftrightarrow> q = p"
  unfolding owners_ok_def table_ok_def pid_at_def inj_on_def by (metis insertE less_irrefl)

lemma pfind_owner:
  assumes "owners_ok A st" and "q \<in> insert 0 A"
  shows "pfind (pid_at st q) (ptab st) = Ret (Some q)"
proof (cases "q = 0")
  case True
  then show ?thesis using assms(1) by (simp add: owners_ok_def pfind_def)
next
  case False
  have t: "table_ok A (ptab st)" using assms(1) by (simp add: owners_ok_def)
  have q: "q \<in> A" "0 < pid_at st q" using False assms(2) t by (auto simp: table_ok_def pid_at_def)
  show ?thesis using pfind_exact [OF t q(2), of "Some q"] q(1) by (simp add: pid_at_def)
qed

lemma waits_fun: "(q, r) \<in> waits st \<Longrightarrow> (q, s) \<in> waits st \<Longrightarrow> r = s"
  by (auto simp: waits_def)

lemma waits_owner: "owners_ok A st \<Longrightarrow> (q, r) \<in> waits st \<Longrightarrow> r \<in> insert 0 A"
  by (simp add: owners_ok_def waits_def) (metis option.inject insertE insert_iff)

text \<open>The part of the relation that the search sees, which stops at the requester.\<close>

definition others :: "nat \<Rightarrow> lkstate \<Rightarrow> (nat \<times> nat) set" where
  "others p st = {(q, r) \<in> waits st. q \<noteq> p}"

lemma others_path:
  assumes "(q, q') \<in> others p st"
  shows "(q, p) \<in> (others p st)\<^sup>* \<longleftrightarrow> (q', p) \<in> (others p st)\<^sup>*"
proof
  assume "(q, p) \<in> (others p st)\<^sup>*"
  then show "(q', p) \<in> (others p st)\<^sup>*"
  proof (cases rule: converse_rtranclE)
    case base
    then show ?thesis using assms by (simp add: others_def)
  next
    case (step r)
    then show ?thesis using assms waits_fun by (auto simp: others_def)
  qed
qed (use assms in \<open>auto intro: converse_rtrancl_into_rtrancl\<close>)

lemma deadlock_walk_exact:
  assumes ok: "owners_ok A st" and p: "p \<in> A" and ac: "acyclic (others p st)"
    and lp: "ll_proc (ent st lp) = Some q" "q \<in> insert 0 A" and n: "card ((others p st)\<^sup>+ `` {q}) \<le> n"
  shows "deadlock_walk n p lp st = Ret ((q, p) \<in> (others p st)\<^sup>*)"
  using lp n
proof (induction n arbitrary: lp q)
  have fin: "finite ((others p st)\<^sup>+ `` {q})" for q
  proof -
    have "r \<in> insert 0 A" if "(q, r) \<in> (others p st)\<^sup>+" for r
      using tranclD2 [OF that] waits_owner [OF ok] unfolding others_def by blast
    moreover have "finite (insert 0 A)" using ok finite_subset by (auto simp: owners_ok_def table_ok_def)
    ultimately show ?thesis by (metis Image_singleton_iff finite_subset subsetI)
  qed
  have edge: "\<exists>lp' r. p_dlchan st q = Some lp' \<and> ll_proc (ent st lp') = Some r \<and> r \<in> insert 0 A \<and> (q, r) \<in> others p st"
    if "q \<noteq> p" "p_dlchan st q \<noteq> None" for q
    using that ok unfolding owners_ok_def others_def waits_def by blast
  have stop: "deadlock_walk k p lp st = Ret ((q, p) \<in> (others p st)\<^sup>*)"
    if q: "ll_proc (ent st lp) = Some q" "q \<in> insert 0 A" and e: "q = p \<or> p_dlchan st q = None" for k lp q
  proof (cases "q = p")
    case True
    then show ?thesis using q by simp
  next
    case False
    then have "(q, p) \<notin> (others p st)\<^sup>*" using e by (auto simp: others_def waits_def elim: converse_rtranclE)
    then show ?thesis using False e q p pid_at_eq [OF ok q(2), of p] pfind_owner [OF ok q(2)] by (simp add: dd_procstat_def)
  qed
  {
    case 0
    have "(others p st)\<^sup>+ `` {q} = {}" using 0(3) fin by simp
    then have "(q, r) \<notin> others p st" for r by blast
    then have "q = p \<or> p_dlchan st q = None" using edge by blast
    then show ?case using stop 0 by blast
  next
    case (Suc n)
    show ?case
    proof (cases "q = p \<or> p_dlchan st q = None")
      case True
      then show ?thesis using stop Suc.prems by blast
    next
      case False
      then obtain lp' r where l: "p_dlchan st q = Some lp'" and r: "r \<in> insert 0 A" "ll_proc (ent st lp') = Some r"
        and e: "(q, r) \<in> others p st" using edge by blast
      have "(others p st)\<^sup>+ `` {r} \<subset> (others p st)\<^sup>+ `` {q}"
        using e ac by (auto simp: acyclic_def intro: trancl_into_trancl2)
      then have "card ((others p st)\<^sup>+ `` {r}) \<le> n" using psubset_card_mono [OF fin] Suc.prems(3) by (metis less_Suc_eq_le less_le_trans)
      from Suc.IH [OF r(2,1) this]
      have w: "deadlock_walk n p lp' st = Ret ((q, p) \<in> (others p st)\<^sup>*)" using others_path [OF e] by simp
      have "pid_at st q \<noteq> pid_at st p" using pid_at_eq [OF ok Suc.prems(2), of p] p False by simp
      then show ?thesis
        by (subst deadlock_walk.simps) (use Suc.prems l w pfind_owner [OF ok Suc.prems(2)] in \<open>simp add: dd_procstat_def del: deadlock_walk.simps\<close>)
    qed
  }
qed

lemma deadlock_exact:
  assumes ok: "owners_ok A st" and p: "p \<in> A" and ac: "acyclic (others p st)"
    and lp: "ll_proc (ent st lp) = Some q" "q \<in> insert 0 A"
  shows "deadlock p lp st = Ret ((q, p) \<in> (others p st)\<^sup>*)"
proof -
  have "(others p st)\<^sup>+ `` {q} \<subseteq> insert 0 A"
    using waits_owner [OF ok] unfolding others_def by (blast dest: tranclD2)
  also have "\<dots> \<subseteq> {..<nproc (ptab st)}" using ok p by (auto simp: owners_ok_def table_ok_def)
  finally have "card ((others p st)\<^sup>+ `` {q}) \<le> nproc (ptab st)" using card_mono [of "{..<nproc (ptab st)}"] by fastforce
  then show ?thesis unfolding deadlock_def by (rule deadlock_walk_exact [OF ok p ac lp])
qed

section \<open>Starting and ending a wait\<close>

abbreviation wait_on :: "nat \<Rightarrow> nat \<Rightarrow> lkstate \<Rightarrow> lkstate" where
  "wait_on p c st \<equiv> lockinc c (st\<lparr>p_dlchan := (p_dlchan st)(p := Some c)\<rparr>)"

lemma ent_wait_on: "ent (wait_on p c st) d =
    (if d = c \<and> c < length (locklist st) then (ent st c)\<lparr>ll_count := ll_count (ent st c) + 1\<rparr> else ent st d)"
  by (simp add: lockinc_def ent_upd)

lemma wait_on_simps [simp]:
  "length (locklist (wait_on p c st)) = length (locklist st)" "i_locklist (wait_on p c st) = i_locklist st"
  "i_mode (wait_on p c st) = i_mode st" "i_remote (wait_on p c st) = i_remote st" "ptab (wait_on p c st) = ptab st"
  "p_dlchan (wait_on p c st) = (p_dlchan st)(p := Some c)" "locklist (wait_on p c st) = [] \<longleftrightarrow> locklist st = []"
  by (simp_all add: lockinc_def)

lemma wait_on_waiters: "p_dlchan st p = None \<Longrightarrow> waiters (wait_on p c st) d = (if d = c then insert p (waiters st d) else waiters st d)"
  by (auto simp: waiters_def)

lemma rep_fin_waiters: "lk_rep st F L \<Longrightarrow> finite (waiters st c)"
  unfolding lk_rep_def waiters_def by (elim conjE) (erule rev_finite_subset, auto)

lemma rep_busy: "lk_rep st F L \<Longrightarrow> c \<in> set (L ip) \<Longrightarrow> c \<in> cells st \<and> ll_busy (ent st c)"
  unfolding lk_rep_def by (elim conjE) blast

lemma wait_on_rep:
  assumes rep: "lk_rep st F L" and c: "c \<in> set (L ip)" and p: "p_dlchan st p = None"
  shows "lk_rep (wait_on p c st) F L"
proof -
  let ?s = "wait_on p c st"
  have cc: "c \<in> cells st" "ll_busy (ent st c)" using rep_busy [OF rep c] by simp_all
  have same: "nxt ?s = nxt st" "\<And>d. nxt ?s d = nxt st d" "\<And>d. ll_busy (ent ?s d) = ll_busy (ent st d)" "\<And>d. ll_proc (ent ?s d) = ll_proc (ent st d)"
    "\<And>d. ll_ip (ent ?s d) = ll_ip (ent st d)" "cells ?s = cells st"
    by (simp_all add: fun_eq_iff ent_wait_on)
  have cnt: "ll_count (ent ?s d) = of_bool (ll_busy (ent st d)) + int (card (waiters ?s d))" if "d \<in> cells st" for d
  proof -
    have "ll_count (ent st d) = of_bool (ll_busy (ent st d)) + int (card (waiters st d))"
      using rep that unfolding lk_rep_def by (elim conjE) blast
    moreover have "p \<notin> waiters st d" using p by (simp add: waiters_def)
    ultimately show ?thesis
      using rep_fin_waiters [OF rep, of d] that p by (cases "d = c") (simp_all add: ent_wait_on wait_on_waiters)
  qed
  have free: "d \<in> set F \<longleftrightarrow> \<not> ll_busy (ent st d) \<and> waiters ?s d = {}" if "d \<in> cells st" for d
  proof -
    have "d \<in> set F \<longleftrightarrow> \<not> ll_busy (ent st d) \<and> waiters st d = {}"
      using rep that unfolding lk_rep_def by (elim conjE) blast
    then show ?thesis using cc(2) by (simp add: wait_on_waiters [OF p])
  qed
  have fin: "finite {q. p_dlchan ?s q \<noteq> None}"
  proof -
    have "{q. p_dlchan ?s q \<noteq> None} = insert p {q. p_dlchan st q \<noteq> None}" by auto
    then show ?thesis using rep by (simp add: lk_rep_def)
  qed
  have "\<forall>q d. p_dlchan ?s q = Some d \<longrightarrow> d \<in> cells st" using rep cc(1) unfolding lk_rep_def by (elim conjE) simp
  moreover have "\<forall>d \<in> cells st. (ll_busy (ent st d) \<longleftrightarrow> (\<exists>ip. d \<in> set (L ip))) \<and> (\<not> ll_busy (ent st d) \<longrightarrow> ll_proc (ent st d) = Some 0)"
    using rep unfolding lk_rep_def by (elim conjE) blast
  ultimately show ?thesis using rep cnt free fin unfolding lk_rep_def same by (elim conjE) (intro conjI ballI; simp)
qed

lemma unblock_wait_on:
  assumes "c < length (locklist st)" and "0 < ll_count (ent st c)" and "p_dlchan st p = None"
  shows "unblock p c (wait_on p c st) = st"
proof -
  have "(p_dlchan st)(p := None) = p_dlchan st" using assms(3) by (simp add: fun_eq_iff)
  moreover have "(locklist st)[c := ent st c] = locklist st" by simp
  ultimately show ?thesis
    using assms(1,2) by (simp add: unblock_def lockdec_def lockinc_def upd_ll_def Let_def)
qed

lemma unblock_simps [simp]:
  "length (locklist (unblock p c st)) = length (locklist st)" "i_locklist (unblock p c st) = i_locklist st"
  "i_mode (unblock p c st) = i_mode st" "i_remote (unblock p c st) = i_remote st" "ptab (unblock p c st) = ptab st"
  "p_dlchan (unblock p c st) = (p_dlchan st)(p := None)" "locklist (unblock p c st) = [] \<longleftrightarrow> locklist st = []"
  by (simp_all add: unblock_def lockdec_def Let_def)

lemma ent_unblock:
  assumes "c < length (locklist st)" and "c \<noteq> 0"
  shows "ent (unblock p c st) d =
    (if ll_count (ent st c) = 1
     then (if d = c then (ent st c)\<lparr>ll_count := 0, ll_link := nxt st 0\<rparr> else if d = 0 then (ent st 0)\<lparr>ll_link := Some c\<rparr> else ent st d)
     else if d = c then (ent st c)\<lparr>ll_count := ll_count (ent st c) - 1\<rparr> else ent st d)"
  using assms by (auto simp: unblock_def lockdec_def Let_def ent_upd)

lemma unblock_waiters: "waiters (unblock p c st) d = waiters st d - {p}"
  by (auto simp: waiters_def)

lemma unblock_rep:
  assumes rep: "lk_rep st F L" and p: "p_dlchan st p = Some c"
  shows "\<exists>F'. lk_rep (unblock p c st) F' L"
proof -
  let ?s = "unblock p c st"
  have cc: "c \<in> cells st" using rep p unfolding lk_rep_def by (elim conjE) blast
  then have cn: "c < length (locklist st)" "c \<noteq> 0" by simp_all
  note e = ent_unblock [OF cn, of p]
  have pw: "p \<in> waiters st c" using p by (simp add: waiters_def)
  have fin: "finite (waiters st d)" for d by (rule rep_fin_waiters [OF rep])
  have cells: "(ll_busy (ent st d) \<longleftrightarrow> (\<exists>ip. d \<in> set (L ip))) \<and> (\<not> ll_busy (ent st d) \<longrightarrow> ll_proc (ent st d) = Some 0) \<and>
     ll_count (ent st d) = of_bool (ll_busy (ent st d)) + int (card (waiters st d)) \<and>
     (d \<in> set F \<longleftrightarrow> \<not> ll_busy (ent st d) \<and> waiters st d = {})" if "d \<in> cells st" for d
    using rep that unfolding lk_rep_def by (elim conjE) blast
  have one: "ll_count (ent st c) = 1 \<longleftrightarrow> \<not> ll_busy (ent st c) \<and> waiters st c = {p}"
  proof -
    have "0 < card (waiters st c)" using pw fin card_gt_0_iff by blast
    then have "ll_count (ent st c) = 1 \<longleftrightarrow> \<not> ll_busy (ent st c) \<and> card (waiters st c) = 1"
      using cells [OF cc] by auto
    then show ?thesis using pw by (auto simp: card_1_singleton_iff)
  qed
  have same: "ll_busy (ent ?s d) = ll_busy (ent st d)" "ll_proc (ent ?s d) = ll_proc (ent st d)" "ll_ip (ent ?s d) = ll_ip (ent st d)" for d
    by (simp_all add: e)
  have wd: "d \<noteq> c \<Longrightarrow> waiters ?s d = waiters st d" for d using p by (auto simp: unblock_waiters waiters_def)
  have cnt: "ll_count (ent ?s d) = of_bool (ll_busy (ent st d)) + int (card (waiters ?s d))" if "d \<in> cells st" for d
  proof (cases "d = c")
    case True
    have "0 < card (waiters st c)" using pw fin card_gt_0_iff by blast
    then have "int (card (waiters ?s c)) = int (card (waiters st c)) - 1" using pw fin by (simp add: unblock_waiters)
    then show ?thesis using True cells [OF cc] by (simp add: e)
  next
    case False
    then show ?thesis using cells [OF that] that wd [OF False] by (auto simp: e)
  qed
  have finP: "finite {q. p_dlchan ?s q \<noteq> None}"
    using rep unfolding lk_rep_def by (elim conjE) (erule rev_finite_subset, auto)
  have rng: "\<forall>q d. p_dlchan ?s q = Some d \<longrightarrow> d \<in> cells st" using rep unfolding lk_rep_def by (elim conjE) simp
  have lists: "locklist st \<noteq> []" "ll_proc (ent st 0) = Some 0" "linked (nxt st) (nxt st 0) F" "\<And>ip. linked (nxt st) (i_locklist st ip) (L ip)"
     "distinct F" "\<And>ip. distinct (L ip)" "\<And>ip jp. ip \<noteq> jp \<Longrightarrow> set (L ip) \<inter> set (L jp) = {}"
     "set F \<subseteq> cells st" "\<And>ip. set (L ip) \<subseteq> cells st" "\<And>ip c. c \<in> set (L ip) \<Longrightarrow> ll_ip (ent st c) = Some ip"
    using rep by (simp_all add: lk_rep_def)
  show ?thesis
  proof (cases "ll_count (ent st c) = 1")
    case True
    have cf: "c \<notin> set F" "\<And>ip. c \<notin> set (L ip)" using cells [OF cc] one True pw by blast+
    have z: "0 \<notin> set F" "\<And>ip. 0 \<notin> set (L ip)" using lists(8,9) by force+
    have nx: "nxt ?s d = (if d = c then nxt st 0 else if d = 0 then Some c else nxt st d)" for d using True by (simp add: e)
    have "linked (nxt ?s) (nxt st 0) F"
      using lists(3) linked_cong [of F "nxt st" "nxt ?s" "nxt st 0"] nx cf(1) z(1) by metis
    then have "linked (nxt ?s) (nxt ?s 0) (c # F)" using nx cn by simp
    moreover have "linked (nxt ?s) (i_locklist st ip) (L ip)" for ip
      using lists(4) [of ip] linked_cong [of "L ip" "nxt st" "nxt ?s" "i_locklist st ip"] nx cf(2) [of ip] z(2) [of ip] by metis
    moreover have "d \<in> set (c # F) \<longleftrightarrow> \<not> ll_busy (ent st d) \<and> waiters ?s d = {}" if "d \<in> cells st" for d
      using cells [OF that] one True wd [of d] by (cases "d = c") (simp_all add: unblock_waiters)
    moreover have "set (c # F) \<subseteq> cells st" using cc lists(8) by simp
    ultimately have "lk_rep ?s (c # F) L"
      using lists cells cnt cf(1) finP rng cn unfolding lk_rep_def same by (intro conjI ballI allI impI; simp add: same)
    then show ?thesis by blast
  next
    case False
    have nx: "nxt ?s d = nxt st d" for d using False by (simp add: e)
    then have nx': "nxt ?s = nxt st" by (simp add: fun_eq_iff)
    have "d \<in> set F \<longleftrightarrow> \<not> ll_busy (ent st d) \<and> waiters ?s d = {}" if "d \<in> cells st" for d
    proof (cases "d = c")
      case True
      have "ll_busy (ent st c) \<or> waiters st c \<noteq> {p}" using one False by blast
      then have "ll_busy (ent st c) \<or> waiters ?s c \<noteq> {}" using pw by (auto simp: unblock_waiters)
      moreover have "c \<notin> set F" using cells [OF cc] pw by blast
      ultimately show ?thesis using True by blast
    qed (use cells [OF that] wd in simp)
    then have "lk_rep ?s F L"
      using lists cells cnt finP rng cn unfolding lk_rep_def same nx' by (intro conjI ballI allI impI; simp add: same nx)
    then show ?thesis by blast
  qed
qed

section \<open>The invariant\<close>

lemma inv_transfer:
  assumes inv: "lk_inv A st F L" and rep: "lk_rep st' F' L" and pt: "ptab st' = ptab st"
    and e: "\<And>d. ll_proc (ent st' d) = ll_proc (ent st d) \<and> ll_start (ent st' d) = ll_start (ent st d) \<and>
      ll_end (ent st' d) = ll_end (ent st d) \<and> ll_type (ent st' d) = ll_type (ent st d)"
    and w: "\<And>q. p_dlchan st' q \<noteq> None \<Longrightarrow> q \<in> A" and ac: "acyclic (waits st')"
  shows "lk_inv A st' F' L \<and> holds st' = holds st"
proof -
  have i: "lk_rep st F L" "list_ok st L" "table_ok A (ptab st)" "pid_at st 0 = 0" "\<forall>ip. \<forall>c \<in> set (L ip). \<exists>q \<in> A. is_my_lock q c st"
    "\<forall>ip q x t. carries (mine q st (L ip)) x t \<longrightarrow> t = F_RDLCK \<or> t = F_WRLCK"
    using inv by (simp_all add: lk_inv_def)
  have my: "is_my_lock q c st' = is_my_lock q c st" for q c using e by (simp add: is_my_lock_def)
  have m: "mine q st' xs = mine q st xs" "grouped q st' xs = grouped q st xs" for q xs
    using e by (simp_all add: mine_def rg_def my cong: filter_cong)
  have "lk_inv A st' F' L" using i rep pt w ac by (simp add: lk_inv_def list_ok_def my m pid_at_def)
  moreover have "holds st' = holds st" using rep_holds [OF rep] rep_holds [OF i(1)] m by (simp add: fun_eq_iff)
  ultimately show ?thesis by simp
qed

lemma inv_owners: "lk_inv A st F L \<Longrightarrow> owners_ok A st"
proof -
  assume inv: "lk_inv A st F L"
  have "\<exists>r \<in> insert 0 A. ll_proc (ent st c) = Some r" if q: "p_dlchan st q = Some c" for q c
  proof (cases "\<exists>kp. c \<in> set (L kp)")
    case True
    then show ?thesis using inv by (auto simp: lk_inv_def is_my_lock_def)
  next
    case False
    then have "ll_proc (ent st c) = Some 0" using rep_waited [of st F L q c] inv q by (simp add: lk_inv_def)
    then show ?thesis by blast
  qed
  then show ?thesis using inv unfolding owners_ok_def lk_inv_def by blast
qed

lemma waits_wait_on: "p_dlchan st p = None \<Longrightarrow> ll_proc (ent st c) = Some q \<Longrightarrow> waits (wait_on p c st) = insert (p, q) (waits st)"
  by (auto simp: waits_def ent_wait_on split: if_splits)

lemma others_wait_on: "p_dlchan st p = None \<Longrightarrow> others p (wait_on p c st) = waits st"
  by (auto simp: others_def waits_def ent_wait_on split: if_splits)

lemma wait_on_inv:
  assumes inv: "lk_inv A st F L" and c: "c \<in> set (L ip)" and p: "p \<in> A" "p_dlchan st p = None"
    and q: "ll_proc (ent st c) = Some q" "(q, p) \<notin> (waits st)\<^sup>*"
  shows "lk_inv A (wait_on p c st) F L \<and> holds (wait_on p c st) = holds st"
proof (rule inv_transfer [OF inv])
  show "lk_rep (wait_on p c st) F L" using wait_on_rep [of st F L c ip p] inv c p(2) by (simp add: lk_inv_def)
  show "acyclic (waits (wait_on p c st))"
    using inv q(2) by (simp add: waits_wait_on [OF p(2) q(1)] acyclic_insert lk_inv_def)
  show "q \<in> A" if "p_dlchan (wait_on p c st) q \<noteq> None" for q using that p(1) inv by (auto simp: lk_inv_def split: if_splits)
qed (simp_all add: ent_wait_on)

lemma flag_inv:
  assumes inv: "lk_inv A st F L" and f: "mild f" "\<And>e. ll_start (f e) = ll_start e \<and> ll_end (f e) = ll_end e \<and> ll_type (f e) = ll_type e"
  shows "lk_inv A (upd_ll c f st) F L \<and> holds (upd_ll c f st) = holds st \<and> waits (upd_ll c f st) = waits st"
proof -
  have pr: "ll_proc (ent (upd_ll c f st) d) = ll_proc (ent st d)" for d using f(1) by (simp add: ent_upd mild_def)
  then have w: "waits (upd_ll c f st) = waits st" by (simp add: waits_def)
  have "lk_inv A (upd_ll c f st) F L \<and> holds (upd_ll c f st) = holds st"
    by (rule inv_transfer [OF inv]) (use inv pr w f in \<open>auto simp: mild_rep lk_inv_def ent_upd\<close>)
  then show ?thesis using w by blast
qed

lemma unblock_inv:
  assumes inv: "lk_inv A st F L" and p: "p_dlchan st p = Some c"
  shows "(\<exists>F'. lk_inv A (unblock p c st) F' L) \<and> holds (unblock p c st) = holds st"
proof -
  have rep: "lk_rep st F L" using inv by (simp add: lk_inv_def)
  then have "c \<in> cells st" using p unfolding lk_rep_def by (elim conjE) blast
  then have cn: "c < length (locklist st)" "c \<noteq> 0" by simp_all
  note e = ent_unblock [OF cn, of p]
  obtain F' where F': "lk_rep (unblock p c st) F' L" using unblock_rep [OF rep p] by blast
  have "waits (unblock p c st) \<subseteq> waits st" by (auto simp: waits_def e split: if_splits)
  then have "acyclic (waits (unblock p c st))" using inv acyclic_subset by (auto simp: lk_inv_def)
  then have "lk_inv A (unblock p c st) F' L \<and> holds (unblock p c st) = holds st"
    by (intro inv_transfer [OF inv F']) (use inv in \<open>auto simp: e lk_inv_def split: if_splits\<close>)
  then show ?thesis by blast
qed

section \<open>One scan of a list\<close>

text \<open>The lock that a scan stops at, and what the scan does there.\<close>

definition passed :: "int \<Rightarrow> nat \<Rightarrow> nat \<Rightarrow> int \<Rightarrow> int \<Rightarrow> lockf_type \<Rightarrow> int \<Rightarrow> bool \<Rightarrow> lkstate \<Rightarrow> nat \<Rightarrow> bool" where
  "passed flag p ip LB UB fn lty nd st c \<longleftrightarrow> is_my_lock p c st \<or> LB \<ge> ll_end (ent st c) \<or> ll_start (ent st c) \<ge> UB \<or>
     lock_verdict flag fn lty nd (i_mode st ip) (ent st c) = Skip"

definition at_lock :: "int \<Rightarrow> nat \<Rightarrow> nat \<Rightarrow> lockf_type \<Rightarrow> flock \<Rightarrow> int \<Rightarrow> bool \<Rightarrow> lkstate \<Rightarrow> nat \<Rightarrow> scan_result" where
  "at_lock flag p ip fn fl lty nd st c =
     (case lock_verdict flag fn lty nd (i_mode st ip) (ent st c) of
        Stop r er \<Rightarrow> Answer r er fl st
      | Report \<Rightarrow> Answer True E_OK (report_lock st (ent st c)) st
      | _ \<Rightarrow> if \<exists>q. ll_proc (ent st c) = Some q \<and> (q, p) \<in> (waits st)\<^sup>* then Answer True EDEADLK fl st
             else if flag = F_SETLK_NFSCALLBACK then Answer True EACCES fl (upd_ll c (\<lambda>e. e\<lparr>ll_nfs := True\<rparr>) st)
             else Sleeps c (upd_ll c (\<lambda>e. e\<lparr>ll_iwant := True\<rparr>) (wait_on p c st)))"

lemma wait_exact:
  assumes inv: "lk_inv A st F L" and c: "c \<in> set (L ip)" and p: "p \<in> A" "p_dlchan st p = None"
  shows "deadlock p c (wait_on p c st) = Ret (\<exists>q. ll_proc (ent st c) = Some q \<and> (q, p) \<in> (waits st)\<^sup>*)"
    and "unblock p c (wait_on p c st) = st" and "ll_busy (ent (wait_on p c st) c)"
proof -
  have rep: "lk_rep st F L" using inv by (simp add: lk_inv_def)
  have cc: "c \<in> cells st" "ll_busy (ent st c)" using rep_busy [OF rep c] by simp_all
  obtain q where q: "q \<in> A" "ll_proc (ent st c) = Some q" using inv c unfolding lk_inv_def is_my_lock_def by blast
  have ok: "owners_ok A (wait_on p c st)"
    using inv_owners [OF inv] q by (auto simp: owners_ok_def pid_at_def ent_wait_on)
  have "acyclic (others p (wait_on p c st))" using inv by (simp add: others_wait_on [OF p(2)] lk_inv_def)
  from deadlock_exact [OF ok p(1) this, of c q] q
  show "deadlock p c (wait_on p c st) = Ret (\<exists>q. ll_proc (ent st c) = Some q \<and> (q, p) \<in> (waits st)\<^sup>*)"
    by (simp add: others_wait_on [OF p(2)] ent_wait_on)
  have "ll_count (ent st c) = of_bool (ll_busy (ent st c)) + int (card (waiters st c))"
    using rep cc(1) unfolding lk_rep_def by (elim conjE) blast
  then show "unblock p c (wait_on p c st) = st" using cc p(2) by (intro unblock_wait_on) simp_all
  show "ll_busy (ent (wait_on p c st) c)" using cc(2) by (simp add: ent_wait_on)
qed

lemma locked_scan_exact:
  assumes inv: "lk_inv A st F L" and p: "p \<in> A" "p_dlchan st p = None"
    and L: "L ip = xs @ ys" and n: "length ys \<le> n"
  shows "locked_scan n flag p ip LB UB fn fl lty nd (if ys = [] then None else Some (hd ys)) st =
    Ret (case find (\<lambda>c. \<not> passed flag p ip LB UB fn lty nd st c) ys of
           None \<Rightarrow> Answer False E_OK fl st | Some c \<Rightarrow> at_lock flag p ip fn fl lty nd st c)"
  using L n
proof (induction ys arbitrary: n xs)
  case Nil
  then show ?case by (subst locked_scan.simps) simp
next
  case (Cons c ys)
  obtain k where k: "n = Suc k" "length ys \<le> k" using Cons.prems(2) by (cases n) auto
  have rep: "lk_rep st F L" using inv by (simp add: lk_inv_def)
  have nx: "nxt st c = (if ys = [] then None else Some (hd ys))" using rep_next [OF rep Cons.prems(1)] by (cases ys) auto
  note IH = Cons.IH [of "xs @ [c]" k, simplified, OF Cons.prems(1) k(2)]
  have c: "c \<in> set (L ip)" using Cons.prems(1) by simp
  note w = wait_exact [OF inv c p]
  show ?case
  proof (cases "passed flag p ip LB UB fn lty nd st c")
    case True
    have "locked_scan n flag p ip LB UB fn fl lty nd (Some c) st = locked_scan k flag p ip LB UB fn fl lty nd (nxt st c) st"
      using True by (subst locked_scan.simps) (auto simp: k(1) passed_def Let_def simp del: locked_scan.simps)
    then show ?thesis using True IH nx by simp
  next
    case False
    then have "locked_scan n flag p ip LB UB fn fl lty nd (Some c) st = Ret (at_lock flag p ip fn fl lty nd st c)"
      using w by (subst locked_scan.simps)
        (auto simp: k(1) passed_def at_lock_def Let_def simp del: locked_scan.simps split: verdict.split)
    then show ?thesis using False by simp
  qed
qed

end
