(* ===== verification/Lockf_Calls.thy ===== *)
theory Lockf_Calls
  imports Lockf_Wait
begin

text \<open>
  The calls that set, test and wait for record locks, each on every branch, in terms of the
  locks that the processes hold.
\<close>

section \<open>Locks in the way\<close>

text \<open>Another process holds a lock in the range; \<open>share\<close> says that read locks do not count.\<close>

definition in_way :: "nat \<Rightarrow> nat \<Rightarrow> int \<Rightarrow> int \<Rightarrow> bool \<Rightarrow> lkstate \<Rightarrow> nat \<Rightarrow> bool" where
  "in_way p ip LB UB share st q \<longleftrightarrow> q \<noteq> p \<and> (\<exists>x t. LB \<le> x \<and> x < UB \<and> holds st ip q x t \<and> \<not> (share \<and> t = F_RDLCK))"

lemma inv_lock:
  assumes inv: "lk_inv A st F L" and c: "c \<in> set (L ip)"
  shows "\<exists>q \<in> A. ll_proc (ent st c) = Some q" "ll_start (ent st c) < ll_end (ent st c)"
    "ll_type (ent st c) = F_RDLCK \<or> ll_type (ent st c) = F_WRLCK"
proof -
  obtain q where q: "q \<in> A" "is_my_lock q c st" using inv c unfolding lk_inv_def by blast
  then show "\<exists>q \<in> A. ll_proc (ent st c) = Some q" by (auto simp: is_my_lock_def)
  have m: "rg st c \<in> set (mine q st (L ip))" using c q(2) by (simp add: mine_def)
  have "sorted_rg (mine q st (L ip))" using inv by (simp add: lk_inv_def list_ok_def)
  then show s: "ll_start (ent st c) < ll_end (ent st c)" using sorted_rg_nonempty [OF _ m [unfolded rg_def]] by simp
  have "carries (mine q st (L ip)) (ll_start (ent st c)) (ll_type (ent st c))"
    unfolding carries_def by (rule bexI [OF _ m]) (use s in \<open>simp add: rg_def\<close>)
  then show "ll_type (ent st c) = F_RDLCK \<or> ll_type (ent st c) = F_WRLCK" using inv unfolding lk_inv_def by blast
qed

lemma inv_holds: "lk_inv A st F L \<Longrightarrow> holds st ip q x t \<longleftrightarrow> (\<exists>c \<in> set (L ip). ll_proc (ent st c) = Some q \<and>
    ll_start (ent st c) \<le> x \<and> x < ll_end (ent st c) \<and> ll_type (ent st c) = t)"
  using rep_lock_list [of st F L ip] by (auto simp: lk_inv_def holds_def is_my_lock_def)

text \<open>What a scan stops at, when its verdicts are those of a shared or an exclusive request.\<close>

lemma find_passed:
  assumes inv: "lk_inv A st F L" and r: "LB < UB"
    and v: "\<And>c. c \<in> set (L ip) \<Longrightarrow>
      lock_verdict flag fn lty nd (i_mode st ip) (ent st c) = Skip \<longleftrightarrow> share \<and> ll_type (ent st c) = F_RDLCK"
  shows "case find (\<lambda>c. \<not> passed flag p ip LB UB fn lty nd st c) (L ip) of
      None \<Rightarrow> \<forall>q. \<not> in_way p ip LB UB share st q
    | Some c \<Rightarrow> c \<in> set (L ip) \<and> (\<exists>q \<in> A. ll_proc (ent st c) = Some q \<and> in_way p ip LB UB share st q)"
proof (cases "find (\<lambda>c. \<not> passed flag p ip LB UB fn lty nd st c) (L ip)")
  case None
  then have "passed flag p ip LB UB fn lty nd st c" if "c \<in> set (L ip)" for c using that by (auto simp: find_None_iff)
  then have "\<not> in_way p ip LB UB share st q" for q
    unfolding in_way_def inv_holds [OF inv] passed_def is_my_lock_def using v by fastforce
  then show ?thesis using None by simp
next
  case (Some c)
  then have c: "c \<in> set (L ip)" "\<not> passed flag p ip LB UB fn lty nd st c" by (auto simp: find_Some_iff)
  obtain q where q: "q \<in> A" "ll_proc (ent st c) = Some q" using inv_lock(1) [OF inv c(1)] by blast
  have n: "q \<noteq> p" "LB < ll_end (ent st c)" "ll_start (ent st c) < UB" "\<not> (share \<and> ll_type (ent st c) = F_RDLCK)"
    using c v q(2) by (auto simp: passed_def is_my_lock_def)
  have "holds st ip q (max LB (ll_start (ent st c))) (ll_type (ent st c))"
    unfolding inv_holds [OF inv] using n(2) c(1) q(2) inv_lock(2) [OF inv c(1)] by (intro bexI [of _ c]) auto
  then have "in_way p ip LB UB share st q"
    unfolding in_way_def using n(1,3,4) r
    by (intro conjI exI [of _ "max LB (ll_start (ent st c))"] exI [of _ "ll_type (ent st c)"]) auto
  then show ?thesis using Some c(1) q by auto
qed

section \<open>One pass of \<^verbatim>\<open>locked\<close>\<close>

lemma locked_exact:
  assumes inv: "lk_inv A st F L" and p: "p \<in> A" "p_dlchan st p = None"
  shows "locked flag p ip LB UB fn fl lty nd envs st =
    (case (case find (\<lambda>c. \<not> passed flag p ip LB UB fn lty nd st c) (L ip) of
             None \<Rightarrow> Answer False E_OK fl st | Some c \<Rightarrow> at_lock flag p ip fn fl lty nd st c) of
       Answer b er fl' st' \<Rightarrow> Ret (Done b er fl' st')
     | Sleeps c st' \<Rightarrow>
         (case envs of
            [] \<Rightarrow> Ret (Asleep c st')
          | (env, intr) # es \<Rightarrow>
              if intr then Ret (Done True EINTR fl (unblock p c (env st')))
              else locked flag p ip LB UB fn fl lty nd es (unblock p c (env st')))
     | Again c st' \<Rightarrow> Fault)"
proof -
  have rep: "lk_rep st F L" using inv by (simp add: lk_inv_def)
  have h: "i_locklist st ip = (if L ip = [] then None else Some (hd (L ip)))"
    using rep_linked [OF rep, of ip] by (cases "L ip") auto
  have n: "length (L ip) \<le> length (locklist st)" using rep_length [OF rep, of ip] by simp
  note s = locked_scan_exact [OF inv p, of ip "[]" "L ip" "length (locklist st)" flag LB UB fn fl lty nd, simplified, OF n, folded h]
  have na: "at_lock flag p ip fn fl lty nd st c \<noteq> Again d st'" for c d st' by (auto simp: at_lock_def split: verdict.split)
  show ?thesis
    unfolding locked_def by (subst locked_loop.simps)
      (use na in \<open>auto simp: s Let_def simp del: locked_loop.simps split: scan_result.split option.split list.split\<close>)
qed

section \<open>Requests\<close>

text \<open>
  \<open>share\<close> and \<open>V\<close> say what a request does at a lock in its range: pass the read locks, if it
  shares, and do \<open>V\<close> at any other.
\<close>

definition request :: "int \<Rightarrow> lockf_type \<Rightarrow> int \<Rightarrow> bool \<Rightarrow> 16 word \<Rightarrow> bool \<Rightarrow> verdict \<Rightarrow> bool" where
  "request flag fn lty nd m share V \<longleftrightarrow> V \<noteq> Skip \<and>
     (\<forall>e. ll_type e = F_RDLCK \<or> ll_type e = F_WRLCK \<longrightarrow>
        lock_verdict flag fn lty nd m e = (if share \<and> ll_type e = F_RDLCK then Skip else V))"

lemma request_lockf: "request F_LOCK L_LOCKF F_WRLCK nd m False Wait" "request F_TLOCK L_LOCKF F_WRLCK nd m False (Stop True EACCES)"
    "request F_TEST L_LOCKF F_WRLCK nd m False (Stop True EACCES)"
  by (simp_all add: request_def lock_verdict_def)

lemma request_fcntl:
  assumes "lty = F_RDLCK \<or> lty = F_WRLCK"
  shows "request F_SETLK L_FCNTL lty nd m (lty = F_RDLCK) (Stop True EACCES)" "request F_GETLK L_FCNTL lty nd m (lty = F_RDLCK) Report"
    "request F_SETLKW L_FCNTL lty nd m (lty = F_RDLCK) Wait" "request F_SETLK_NFSCALLBACK L_FCNTL lty nd m (lty = F_RDLCK) Wait"
  using assms by (auto simp: request_def lock_verdict_def)

lemma request_rdwr:
  assumes "enforced m"
  shows "request F_LOCK (if w then L_WRITE else L_READ) lty nd m (\<not> w) (if nd then Stop True EAGAIN else Wait)"
  using assms by (auto simp: request_def lock_verdict_def)

lemma locked_request:
  assumes inv: "lk_inv A st F L" and p: "p \<in> A" "p_dlchan st p = None" and r: "LB < UB"
    and rq: "request flag fn lty nd (i_mode st ip) share V"
  shows "locked flag p ip LB UB fn fl lty nd [] st = Ret (Done False E_OK fl st) \<and> (\<forall>q. \<not> in_way p ip LB UB share st q) \<or>
    (\<exists>c \<in> set (L ip). \<exists>q \<in> A. ll_proc (ent st c) = Some q \<and> in_way p ip LB UB share st q \<and>
      locked flag p ip LB UB fn fl lty nd [] st = Ret
        (case V of
           Stop b er \<Rightarrow> Done b er fl st
         | Report \<Rightarrow> Done True E_OK (report_lock st (ent st c)) st
         | _ \<Rightarrow> if (q, p) \<in> (waits st)\<^sup>* then Done True EDEADLK fl st
                else if flag = F_SETLK_NFSCALLBACK then Done True EACCES fl (upd_ll c (\<lambda>e. e\<lparr>ll_nfs := True\<rparr>) st)
                else Asleep c (upd_ll c (\<lambda>e. e\<lparr>ll_iwant := True\<rparr>) (wait_on p c st))))"
proof -
  have v: "lock_verdict flag fn lty nd (i_mode st ip) (ent st c) = (if share \<and> ll_type (ent st c) = F_RDLCK then Skip else V)"
    if "c \<in> set (L ip)" for c
    using rq inv_lock(3) [OF inv that] unfolding request_def by blast
  have V: "V \<noteq> Skip" using rq by (simp add: request_def)
  have s: "lock_verdict flag fn lty nd (i_mode st ip) (ent st c) = Skip \<longleftrightarrow> share \<and> ll_type (ent st c) = F_RDLCK"
    if "c \<in> set (L ip)" for c using v [OF that] V by simp
  note f = find_passed [OF inv r, of ip flag fn lty nd share p, OF s]
  note e = locked_exact [OF inv p, of flag ip LB UB fn fl lty nd "[]"]
  show ?thesis
  proof (cases "find (\<lambda>c. \<not> passed flag p ip LB UB fn lty nd st c) (L ip)")
    case None
    then show ?thesis using f e by simp
  next
    case (Some c)
    then obtain q where c: "c \<in> set (L ip)" "q \<in> A" "ll_proc (ent st c) = Some q" "in_way p ip LB UB share st q" using f by auto
    have "\<not> passed flag p ip LB UB fn lty nd st c" using Some by (auto simp: find_Some_iff)
    then have "lock_verdict flag fn lty nd (i_mode st ip) (ent st c) = V" using v [OF c(1)] by (auto simp: passed_def split: if_splits)
    then have "locked flag p ip LB UB fn fl lty nd [] st = Ret
        (case V of
           Stop b er \<Rightarrow> Done b er fl st
         | Report \<Rightarrow> Done True E_OK (report_lock st (ent st c)) st
         | _ \<Rightarrow> if (q, p) \<in> (waits st)\<^sup>* then Done True EDEADLK fl st
                else if flag = F_SETLK_NFSCALLBACK then Done True EACCES fl (upd_ll c (\<lambda>e. e\<lparr>ll_nfs := True\<rparr>) st)
                else Asleep c (upd_ll c (\<lambda>e. e\<lparr>ll_iwant := True\<rparr>) (wait_on p c st)))"
      using e Some c(3) by (auto simp: at_lock_def split: verdict.splits)
    then show ?thesis using c by blast
  qed
qed

lemma asleep_inv:
  assumes inv: "lk_inv A st F L" and c: "c \<in> set (L ip)" and p: "p \<in> A" "p_dlchan st p = None"
    and q: "ll_proc (ent st c) = Some q" "(q, p) \<notin> (waits st)\<^sup>*"
  defines "st' \<equiv> upd_ll c (\<lambda>e. e\<lparr>ll_iwant := True\<rparr>) (wait_on p c st)"
  shows "lk_ok A st' \<and> holds st' = holds st \<and> waits st' = insert (p, q) (waits st) \<and> p_dlchan st' = (p_dlchan st)(p := Some c)"
proof -
  note w = wait_on_inv [OF inv c p q]
  have "lk_inv A st' F L \<and> holds st' = holds (wait_on p c st) \<and> waits st' = waits (wait_on p c st)"
    unfolding st'_def by (rule flag_inv [OF conjunct1 [OF w]]) simp_all
  then show ?thesis using w waits_wait_on [OF p(2) q(1)] by (auto simp: lk_ok_def st'_def)
qed

section \<open>Setting a lock\<close>

definition granted :: "nat \<Rightarrow> nat \<Rightarrow> int \<Rightarrow> int \<Rightarrow> int \<Rightarrow> lkstate \<Rightarrow> lkstate \<Rightarrow> bool" where
  "granted p ip LB UB ty st st' \<longleftrightarrow>
     (\<forall>jp q x t. holds st' jp q x t \<longleftrightarrow> (if q = p \<and> jp = ip \<and> LB \<le> x \<and> x < UB then t = ty else holds st jp q x t))"

text \<open>
  What a request to set a lock may do. When nothing is in the way it is granted; it may fail,
  with \<open>full\<close> and with no lock changed, only if the table is short of entries: none is free, or
  one only and a lock of the caller of another type has to be cut in two. When something is in
  the way it fails, or if it may wait it goes to sleep, unless the process that it would wait
  for waits, directly or through others, for it.
\<close>

definition set_spec :: "bool \<Rightarrow> bool \<Rightarrow> errno \<Rightarrow> nat \<Rightarrow> nat \<Rightarrow> int \<Rightarrow> int \<Rightarrow> int \<Rightarrow> lkstate \<Rightarrow> call_result \<Rightarrow> bool" where
  "set_spec wait share full p ip LB UB ty st res \<longleftrightarrow>
     (case res of
        Returned er fl st' \<Rightarrow>
          p_dlchan st' = p_dlchan st \<and>
          (if \<exists>q. in_way p ip LB UB share st q
           then st' = st \<and> (if wait then er = EDEADLK \<and> (\<exists>q. in_way p ip LB UB share st q \<and> (q, p) \<in> (waits st)\<^sup>*) else er = EACCES)
           else if er = E_OK then granted p ip LB UB ty st st'
           else er = full \<and> holds st' = holds st \<and> too_few p ip LB UB ty st)
      | Blocked c st' \<Rightarrow>
          wait \<and> holds st' = holds st \<and> p_dlchan st' = (p_dlchan st)(p := Some c) \<and>
          (\<exists>q. in_way p ip LB UB share st q \<and> (q, p) \<notin> (waits st)\<^sup>* \<and> waits st' = insert (p, q) (waits st)))"

fun result_state :: "call_result \<Rightarrow> lkstate" where
  "result_state (Returned er fl st) = st"
| "result_state (Blocked c st) = st"

lemma set_lock:
  assumes ok: "lk_ok A st" and p: "p \<in> A" "p_dlchan st p = None" and r: "LB < UB" and ty: "ty = F_RDLCK \<or> ty = F_WRLCK"
    and rq: "request flag fn lty nd (i_mode st ip) share V" and V: "V = (if wait then Wait else Stop True EACCES)"
    and fl: "flag \<noteq> F_SETLK_NFSCALLBACK"
  shows "\<exists>res. obind (locked flag p ip LB UB fn fl lty nd [] st) (\<lambda>r. case r of
       Asleep c st1 \<Rightarrow> Ret (Blocked c st1)
     | Done b er fl1 st1 \<Rightarrow> obind (if b then Ret (er, st1) else insert_lock p ip LB UB fn ty st1)
         (\<lambda>(er2, st2). Ret (Returned er2 (G fl1) st2))) = Ret res \<and>
     lk_ok A (result_state res) \<and> set_spec wait share (full_error fn) p ip LB UB ty st res"
proof -
  obtain F L where inv: "lk_inv A st F L" using ok by (auto simp: lk_ok_def)
  from locked_request [OF inv p r rq, of fl] show ?thesis
  proof (elim disjE conjE bexE)
    assume l: "locked flag p ip LB UB fn fl lty nd [] st = Ret (Done False E_OK fl st)" and n: "\<forall>q. \<not> in_way p ip LB UB share st q"
    obtain er st' where i: "insert_lock p ip LB UB fn ty st = Ret (er, st')" "lk_ok A st'" "same_env st st'"
       "\<forall>jp q x t. holds st' jp q x t \<longleftrightarrow> (if er = E_OK \<and> q = p \<and> jp = ip \<and> LB \<le> x \<and> x < UB then t = ty else holds st jp q x t)"
       "er \<noteq> E_OK \<longrightarrow> er = full_error fn \<and> too_few p ip LB UB ty st"
      using insert_lock_holds [OF ok p(1) r ty, of ip fn] by blast
    then have "set_spec wait share (full_error fn) p ip LB UB ty st (Returned er (G fl) st')"
      using n by (auto simp: set_spec_def granted_def same_env_def fun_eq_iff)
    then show ?thesis using l i(1,2) by simp
  next
    fix c q assume c: "c \<in> set (L ip)" and q: "q \<in> A" "ll_proc (ent st c) = Some q" "in_way p ip LB UB share st q"
      and l: "locked flag p ip LB UB fn fl lty nd [] st = Ret
        (case V of
           Stop b er \<Rightarrow> Done b er fl st
         | Report \<Rightarrow> Done True E_OK (report_lock st (ent st c)) st
         | _ \<Rightarrow> if (q, p) \<in> (waits st)\<^sup>* then Done True EDEADLK fl st
                else if flag = F_SETLK_NFSCALLBACK then Done True EACCES fl (upd_ll c (\<lambda>e. e\<lparr>ll_nfs := True\<rparr>) st)
                else Asleep c (upd_ll c (\<lambda>e. e\<lparr>ll_iwant := True\<rparr>) (wait_on p c st)))"
    have iw: "\<exists>q. in_way p ip LB UB share st q" using q(3) by blast
    show ?thesis
    proof (cases "wait \<and> (q, p) \<notin> (waits st)\<^sup>*")
      case False
      then show ?thesis using l V ok q(3) iw by (auto simp: set_spec_def)
    next
      case True
      note a = asleep_inv [OF inv c p q(2)]
      have "set_spec wait share (full_error fn) p ip LB UB ty st (Blocked c (upd_ll c (\<lambda>e. e\<lparr>ll_iwant := True\<rparr>) (wait_on p c st)))"
        using a True q(3) unfolding set_spec_def call_result.case by blast
      then show ?thesis using l V True fl a by simp
    qed
  qed
qed

lemma lockf_set:
  assumes "lk_ok A st" and "p \<in> A" and "p_dlchan st p = None" and "LB < UB" and "flag = F_LOCK \<or> flag = F_TLOCK"
  shows "\<exists>res. ufs_lockf flag p ip LB UB fl nd [] st = Ret res \<and> lk_ok A (result_state res) \<and>
    set_spec (flag = F_LOCK) False EDEADLK p ip LB UB F_WRLCK st res"
proof -
  have rq: "request flag L_LOCKF F_WRLCK nd (i_mode st ip) False (if flag = F_LOCK then Wait else Stop True EACCES)"
    using request_lockf assms(5) by auto
  have e: "ufs_lockf flag p ip LB UB fl nd [] st = obind (locked flag p ip LB UB L_LOCKF fl F_WRLCK nd [] st) (\<lambda>r. case r of
       Asleep c st1 \<Rightarrow> Ret (Blocked c st1)
     | Done b er fl1 st1 \<Rightarrow> obind (if b then Ret (er, st1) else insert_lock p ip LB UB L_LOCKF F_WRLCK st1)
         (\<lambda>(er2, st2). Ret (Returned er2 fl st2)))"
    using assms(5) by (auto simp: ufs_lockf_def lockf_rest_def intro!: arg_cong [where f = "obind _"] split: locked_result.split)
  have "\<exists>res. ufs_lockf flag p ip LB UB fl nd [] st = Ret res \<and> lk_ok A (result_state res) \<and>
    set_spec (flag = F_LOCK) False (full_error L_LOCKF) p ip LB UB F_WRLCK st res"
    unfolding e by (rule set_lock [OF assms(1-4) _ rq refl]) (use assms(5) in auto)
  then show ?thesis by simp
qed

lemma fcntl_set:
  assumes "lk_ok A st" and "p \<in> A" and "p_dlchan st p = None" and "LB < UB" and "cmd = F_SETLK \<or> cmd = F_SETLKW"
    and "l_type fl = F_RDLCK \<or> l_type fl = F_WRLCK"
  shows "\<exists>res. ufs_lockctl cmd p ip LB UB fl nd [] st = Ret res \<and> lk_ok A (result_state res) \<and>
    set_spec (cmd = F_SETLKW) (l_type fl = F_RDLCK) ENOLCK p ip LB UB (l_type fl) st res"
proof -
  have rq: "request cmd L_FCNTL (l_type fl) nd (i_mode st ip) (l_type fl = F_RDLCK) (if cmd = F_SETLKW then Wait else Stop True EACCES)"
    using request_fcntl [OF assms(6)] assms(5) by auto
  have e: "ufs_lockctl cmd p ip LB UB fl nd [] st = obind (locked cmd p ip LB UB L_FCNTL fl (l_type fl) nd [] st) (\<lambda>r. case r of
       Asleep c st1 \<Rightarrow> Ret (Blocked c st1)
     | Done b er fl1 st1 \<Rightarrow> obind (if b then Ret (er, st1) else insert_lock p ip LB UB L_FCNTL (l_type fl) st1)
         (\<lambda>(er2, st2). Ret (Returned er2 fl st2)))"
    using assms(5,6) by (auto simp: ufs_lockctl_def lockctl_rest_def intro!: arg_cong [where f = "obind _"] split: locked_result.split)
  have "\<exists>res. ufs_lockctl cmd p ip LB UB fl nd [] st = Ret res \<and> lk_ok A (result_state res) \<and>
    set_spec (cmd = F_SETLKW) (l_type fl = F_RDLCK) (full_error L_FCNTL) p ip LB UB (l_type fl) st res"
    unfolding e by (rule set_lock [OF assms(1-4,6) rq refl]) (use assms(5) in auto)
  then show ?thesis by simp
qed

section \<open>Asking for a lock\<close>

text \<open>What \<^verbatim>\<open>F_GETLK\<close> reports is a lock of another process that is in the way.\<close>

lemma fcntl_getlk:
  assumes "lk_ok A st" and "p \<in> A" and "p_dlchan st p = None" and "LB < UB" and "l_type fl = F_RDLCK \<or> l_type fl = F_WRLCK"
  shows "\<exists>fl'. ufs_lockctl F_GETLK p ip LB UB fl nd [] st = Ret (Returned E_OK fl' st) \<and>
    (if \<exists>q. in_way p ip LB UB (l_type fl = F_RDLCK) st q
     then \<exists>q. in_way p ip LB UB (l_type fl = F_RDLCK) st q \<and> l_pid fl' = pid_at st q \<and>
       (\<forall>x. l_start fl' \<le> x \<and> x < (if l_len fl' = 0 then MAX_LOCK_SIZE else l_start fl' + l_len fl') \<longrightarrow> holds st ip q x (l_type fl'))
     else fl' = fl\<lparr>l_type := F_UNLCK\<rparr>)"
proof -
  obtain F L where inv: "lk_inv A st F L" using assms(1) by (auto simp: lk_ok_def)
  note rq = request_fcntl(2) [OF assms(5), of nd "i_mode st ip"]
  from locked_request [OF inv assms(2-4) rq, of fl] show ?thesis
  proof (elim disjE conjE bexE)
    fix c q assume c: "c \<in> set (L ip)" "ll_proc (ent st c) = Some q" "in_way p ip LB UB (l_type fl = F_RDLCK) st q"
      and l: "locked F_GETLK p ip LB UB L_FCNTL fl (l_type fl) nd [] st = Ret
        (case Report of
           Stop b er \<Rightarrow> Done b er fl st
         | Report \<Rightarrow> Done True E_OK (report_lock st (ent st c)) st
         | _ \<Rightarrow> if (q, p) \<in> (waits st)\<^sup>* then Done True EDEADLK fl st
                else if F_GETLK = F_SETLK_NFSCALLBACK then Done True EACCES fl (upd_ll c (\<lambda>e. e\<lparr>ll_nfs := True\<rparr>) st)
                else Asleep c (upd_ll c (\<lambda>e. e\<lparr>ll_iwant := True\<rparr>) (wait_on p c st)))"
    have u: "ufs_lockctl F_GETLK p ip LB UB fl nd [] st = Ret (Returned E_OK (report_lock st (ent st c)) st)"
      using l by (simp add: ufs_lockctl_def)
    have "holds st ip q x (ll_type (ent st c))" if "ll_start (ent st c) \<le> x" "x < ll_end (ent st c)" for x
      unfolding inv_holds [OF inv] using c that by blast
    moreover have "ll_start (ent st c) < ll_end (ent st c)" by (rule inv_lock(2) [OF inv c(1)])
    ultimately have "\<forall>x. l_start (report_lock st (ent st c)) \<le> x \<and> x < (if l_len (report_lock st (ent st c)) = 0 then MAX_LOCK_SIZE
        else l_start (report_lock st (ent st c)) + l_len (report_lock st (ent st c))) \<longrightarrow> holds st ip q x (l_type (report_lock st (ent st c)))"
      by (auto simp: report_lock_def split: if_splits)
    moreover have "l_pid (report_lock st (ent st c)) = pid_at st q" using c(2) by (simp add: report_lock_def)
    ultimately show ?thesis using u c(3) by auto
  next
    assume "locked F_GETLK p ip LB UB L_FCNTL fl (l_type fl) nd [] st = Ret (Done False E_OK fl st)"
      and "\<forall>q. \<not> in_way p ip LB UB (l_type fl = F_RDLCK) st q"
    then show ?thesis by (auto simp: ufs_lockctl_def)
  qed
qed

section \<open>Reading and writing\<close>

lemma rdwr_enforced:
  assumes "lk_ok A st" and "p \<in> A" and "p_dlchan st p = None" and "off < to_s32 (off + len)" and "enforced (i_mode st ip)"
  shows "\<exists>res. rdwr_check p ip w off len nd [] st = Ret res \<and> lk_ok A (result_state res) \<and>
    (case res of
       Returned er fl st' \<Rightarrow> st' = st \<and>
         (if \<exists>q. in_way p ip off (to_s32 (off + len)) (\<not> w) st q
          then if nd then er = EAGAIN
               else er = EDEADLK \<and> (\<exists>q. in_way p ip off (to_s32 (off + len)) (\<not> w) st q \<and> (q, p) \<in> (waits st)\<^sup>*)
          else er = E_OK)
     | Blocked c st' \<Rightarrow> \<not> nd \<and> holds st' = holds st \<and> p_dlchan st' = (p_dlchan st)(p := Some c) \<and>
         (\<exists>q. in_way p ip off (to_s32 (off + len)) (\<not> w) st q \<and> (q, p) \<notin> (waits st)\<^sup>* \<and> waits st' = insert (p, q) (waits st)))"
proof -
  obtain F L where inv: "lk_inv A st F L" using assms(1) by (auto simp: lk_ok_def)
  have m: "i_mode st ip AND 0xF000 = 0x8000" using assms(5) by (simp add: enforced_def)
  show ?thesis
  proof (cases "i_locklist st ip")
    case None
    then have "L ip = []" using inv rep_linked [of st F L ip] by (auto simp: lk_inv_def)
    then have "\<not> in_way p ip off (to_s32 (off + len)) (\<not> w) st q" for q using inv_holds [OF inv] by (simp add: in_way_def)
    then show ?thesis using None assms(1) by (simp add: rdwr_check_def)
  next
    case (Some h)
    let ?fn = "if w then L_WRITE else L_READ"
    note rq = request_rdwr [OF assms(5), of w 0 nd]
    from locked_request [OF inv assms(2-4) rq, of no_flock] show ?thesis
    proof (elim disjE conjE bexE)
      assume "locked F_LOCK p ip off (to_s32 (off + len)) ?fn no_flock 0 nd [] st = Ret (Done False E_OK no_flock st)"
        and "\<forall>q. \<not> in_way p ip off (to_s32 (off + len)) (\<not> w) st q"
      then show ?thesis using Some m assms(1) by (auto simp: rdwr_check_def)
    next
      fix c q assume c: "c \<in> set (L ip)" "ll_proc (ent st c) = Some q" "in_way p ip off (to_s32 (off + len)) (\<not> w) st q"
        and l: "locked F_LOCK p ip off (to_s32 (off + len)) ?fn no_flock 0 nd [] st = Ret
          (case if nd then Stop True EAGAIN else Wait of
             Stop b er \<Rightarrow> Done b er no_flock st
           | Report \<Rightarrow> Done True E_OK (report_lock st (ent st c)) st
           | _ \<Rightarrow> if (q, p) \<in> (waits st)\<^sup>* then Done True EDEADLK no_flock st
                  else if F_LOCK = F_SETLK_NFSCALLBACK then Done True EACCES no_flock (upd_ll c (\<lambda>e. e\<lparr>ll_nfs := True\<rparr>) st)
                  else Asleep c (upd_ll c (\<lambda>e. e\<lparr>ll_iwant := True\<rparr>) (wait_on p c st)))"
      have iw: "\<exists>q. in_way p ip off (to_s32 (off + len)) (\<not> w) st q" using c(3) by blast
      show ?thesis
      proof (cases "nd \<or> (q, p) \<in> (waits st)\<^sup>*")
        case True
        then show ?thesis using l iw c(3) Some m assms(1) by (auto simp: rdwr_check_def)
      next
        case False
        then have f: "\<not> nd" "(q, p) \<notin> (waits st)\<^sup>*" by simp_all
        note a = asleep_inv [OF inv c(1) assms(2,3) c(2) f(2)]
        have "rdwr_check p ip w off len nd [] st = Ret (Blocked c (upd_ll c (\<lambda>e. e\<lparr>ll_iwant := True\<rparr>) (wait_on p c st)))"
          using l f Some m by (simp add: rdwr_check_def)
        then show ?thesis using a f c(3) by auto
      qed
    qed
  qed
qed

end
