(* ===== verification/Lockf_Reach.thy ===== *)
theory Lockf_Reach
  imports Lockf_Calls
begin

text \<open>
  Record locks as a state machine: processes call, sleep, wake up and close files in any
  order. What holds in every state that is reached.
\<close>

section \<open>Calls\<close>

datatype lkcall =
    Lockf_call int nat int int bool
  | Fcntl_call int nat int int flock bool
  | Rdwr_call bool nat int int bool

fun lk_call :: "lkcall \<Rightarrow> nat \<Rightarrow> ((lkstate \<Rightarrow> lkstate) \<times> bool) list \<Rightarrow> lkstate \<Rightarrow> call_result outcome" where
  "lk_call (Lockf_call flag ip LB UB nd) p envs st = ufs_lockf flag p ip LB UB no_flock nd envs st"
| "lk_call (Fcntl_call cmd ip LB UB fl nd) p envs st = ufs_lockctl cmd p ip LB UB fl nd envs st"
| "lk_call (Rdwr_call w ip off len nd) p envs st = rdwr_check p ip w off len nd envs st"

fun call_flock :: "lkcall \<Rightarrow> flock" where
  "call_flock (Fcntl_call cmd ip LB UB fl nd) = fl"
| "call_flock _ = no_flock"

text \<open>The ranges that \<^verbatim>\<open>lockf\<close> and \<^verbatim>\<open>fcntl\<close> pass, but for the empty one at the end of the address range.\<close>

fun call_ok :: "lkcall \<Rightarrow> bool" where
  "call_ok (Lockf_call flag ip LB UB nd) \<longleftrightarrow> flag \<in> {F_ULOCK, F_LOCK, F_TLOCK, F_TEST} \<and> LB < UB"
| "call_ok (Fcntl_call cmd ip LB UB fl nd) \<longleftrightarrow> LB < UB"
| "call_ok (Rdwr_call w ip off len nd) \<longleftrightarrow> True"

section \<open>A call that sleeps\<close>

text \<open>
  A call with a sleep is the call up to the sleep, what the others do, and then either its
  end by a signal or the call again. So the steps below can start every call without sleeps
  and start it again when its process wakes up.
\<close>

lemma locked_resume:
  assumes "lk_ok A st" and "p \<in> A" and "p_dlchan st p = None"
  shows "locked flag p ip LB UB fn fl lty nd ((env, intr) # es) st =
    (case locked flag p ip LB UB fn fl lty nd [] st of
       Ret (Asleep c st') \<Rightarrow>
         (if intr then Ret (Done True EINTR fl (unblock p c (env st'))) else locked flag p ip LB UB fn fl lty nd es (unblock p c (env st')))
     | r \<Rightarrow> r)"
proof -
  obtain F L where inv: "lk_inv A st F L" using assms(1) by (auto simp: lk_ok_def)
  show ?thesis unfolding locked_exact [OF inv assms(2,3)] by (simp split: scan_result.split)
qed

lemma resume_with:
  assumes "lk_ok A st" and "p \<in> A" and "p_dlchan st p = None"
    and "\<And>c s. K (Asleep c s) = Ret (Blocked c s)" and "\<And>b er fl s c s'. K (Done b er fl s) \<noteq> Ret (Blocked c s')"
    and "\<And>s. K (Done True EINTR fl s) = Ret (Returned EINTR F s)"
  shows "obind (locked flag p ip LB UB fn fl lty nd ((env, intr) # es) st) K =
    (case obind (locked flag p ip LB UB fn fl lty nd [] st) K of
       Ret (Blocked c st') \<Rightarrow>
         (if intr then Ret (Returned EINTR F (unblock p c (env st')))
          else obind (locked flag p ip LB UB fn fl lty nd es (unblock p c (env st'))) K)
     | r \<Rightarrow> r)"
proof -
  note r = locked_resume [OF assms(1-3), of flag ip LB UB fn fl lty nd env intr es]
  show ?thesis
  proof (cases "locked flag p ip LB UB fn fl lty nd [] st")
    case (Ret x)
    then show ?thesis
    proof (cases x)
      case (Done b er fl' s)
      then show ?thesis using r Ret assms(5) [of b er fl' s] by (auto split: outcome.split call_result.split)
    qed (use r Ret assms(4,6) in simp)
  qed (use r in simp_all)
qed

lemma no_sleep:
  assumes "f ((env, intr) # es) st = m" and "f [] st = m" and "\<And>c s. m \<noteq> Ret (Blocked c s)"
  shows "f ((env, intr) # es) st = (case f [] st of Ret (Blocked c st') \<Rightarrow> X c st' | r \<Rightarrow> r)"
  using assms by (auto split: outcome.split call_result.split)

lemma locked_empty: "i_locklist st ip = None \<Longrightarrow> locked flag p ip LB UB fn fl lty nd es st = Ret (Done False E_OK fl st)"
  unfolding locked_def by (subst locked_loop.simps, subst locked_scan.simps) simp

lemma asleep_mode:
  assumes "lk_ok A st" and "p \<in> A" and "p_dlchan st p = None" and "locked flag p ip LB UB fn fl lty nd [] st = Ret (Asleep c st')"
  shows "i_mode st' = i_mode st"
proof -
  obtain F L where inv: "lk_inv A st F L" using assms(1) by (auto simp: lk_ok_def)
  show ?thesis
    using assms(4) unfolding locked_exact [OF inv assms(2,3)]
    by (auto simp: at_lock_def split: option.splits verdict.splits if_splits)
qed

theorem sleep_then_again:
  assumes "lk_ok A st" and "p \<in> A" and "p_dlchan st p = None" and "\<And>s. i_mode (env s) = i_mode s"
  shows "lk_call k p ((env, intr) # es) st =
    (case lk_call k p [] st of
       Ret (Blocked c st') \<Rightarrow>
         (if intr then Ret (Returned EINTR (call_flock k) (unblock p c (env st'))) else lk_call k p es (unblock p c (env st')))
     | r \<Rightarrow> r)"
proof -
  note r = resume_with [OF assms(1-3), where env = env and intr = intr and es = es]
  have nb: "obind m (\<lambda>(er, s). Ret (Returned er (g er s) s)) \<noteq> Ret (Blocked c s')" for m g c s' by (cases m) auto
  show ?thesis
  proof (cases k)
    case (Lockf_call flag ip LB UB nd)
    show ?thesis
    proof (cases "flag = F_ULOCK")
      case True
      show ?thesis unfolding Lockf_call by (rule no_sleep [OF refl]) (simp_all add: True ufs_lockf_def nb)
    next
      case False
      define K where "K = (\<lambda>r. case r of Asleep c st1 \<Rightarrow> Ret (Blocked c st1)
        | Done b er fl1 st1 \<Rightarrow> obind (lockf_rest flag p ip LB UB b er st1) (\<lambda>(er2, st2). Ret (Returned er2 no_flock st2)))"
      have e: "lk_call k p envs s = obind (locked flag p ip LB UB L_LOCKF no_flock F_WRLCK nd envs s) K" for envs s
        using False by (simp add: Lockf_call ufs_lockf_def K_def)
      show ?thesis unfolding e by (rule r) (simp_all add: K_def nb lockf_rest_def Lockf_call)
    qed
  next
    case (Fcntl_call cmd ip LB UB fl nd)
    consider "cmd = F_GETLK" | "cmd = F_SETLK_NFSCALLBACK \<or> cmd = F_SETLK \<or> cmd = F_SETLKW" "l_type fl = F_RDLCK \<or> l_type fl = F_WRLCK"
      | "cmd \<noteq> F_GETLK" "\<not> ((cmd = F_SETLK_NFSCALLBACK \<or> cmd = F_SETLK \<or> cmd = F_SETLKW) \<and> (l_type fl = F_RDLCK \<or> l_type fl = F_WRLCK))"
      by blast
    then show ?thesis
    proof cases
      case 1
      define K where "K = (\<lambda>r. case r of Asleep c st1 \<Rightarrow> Ret (Blocked c st1)
        | Done b er fl1 st1 \<Rightarrow> Ret (Returned er (if b then fl1 else fl1\<lparr>l_type := F_UNLCK\<rparr>) st1))"
      have e: "lk_call k p envs s = obind (locked F_GETLK p ip LB UB L_FCNTL fl (l_type fl) nd envs s) K" for envs s
        using 1 by (simp add: Fcntl_call ufs_lockctl_def K_def)
      show ?thesis unfolding e by (rule r) (simp_all add: K_def Fcntl_call)
    next
      case 2
      define K where "K = (\<lambda>r. case r of Asleep c st1 \<Rightarrow> Ret (Blocked c st1)
        | Done b er fl1 st1 \<Rightarrow> obind (lockctl_rest p ip LB UB (l_type fl) b er st1) (\<lambda>(er2, st2). Ret (Returned er2 fl st2)))"
      have e: "lk_call k p envs s = obind (locked cmd p ip LB UB L_FCNTL fl (l_type fl) nd envs s) K" for envs s
        using 2 by (auto simp: Fcntl_call ufs_lockctl_def K_def)
      show ?thesis unfolding e by (rule r) (simp_all add: K_def nb lockctl_rest_def Fcntl_call)
    next
      case 3
      show ?thesis unfolding Fcntl_call by (rule no_sleep [OF refl]) (use 3 in \<open>auto simp: ufs_lockctl_def nb\<close>)
    qed
  next
    case (Rdwr_call w ip off len nd)
    define K where "K = (\<lambda>r. case r of Asleep c st1 \<Rightarrow> Ret (Blocked c st1)
      | Done b er fl st1 \<Rightarrow> Ret (Returned (if b then er else E_OK) fl st1))"
    let ?l = "locked F_LOCK p ip off (to_s32 (off + len)) (if w then L_WRITE else L_READ) no_flock 0 nd"
    have e: "lk_call k p envs s = obind (?l envs s) K" if "i_mode s ip AND 0xF000 = 0x8000" for envs s
      using that by (simp add: Rdwr_call rdwr_check_def K_def locked_empty)
    show ?thesis
    proof (cases "i_mode st ip AND 0xF000 = 0x8000")
      case True
      note x = r [of K no_flock no_flock F_LOCK ip off "to_s32 (off + len)" "if w then L_WRITE else L_READ" 0 nd]
      show ?thesis
      proof (cases "?l [] st")
        case (Ret y)
        show ?thesis
        proof (cases y)
          case (Done b er fl s)
          then show ?thesis using x Ret by (simp add: e [OF True] K_def)
        next
          case (Asleep c s)
          have "i_mode (unblock p c (env s)) ip AND 0xF000 = 0x8000"
            using asleep_mode [OF assms(1-3)] Ret Asleep True assms(4) by simp
          note e2 = e [OF this]
          show ?thesis using x Ret Asleep by (simp add: e [OF True] e2 K_def) (simp add: Rdwr_call)
        qed
      qed (use x in \<open>simp_all add: e [OF True] K_def\<close>)
    next
      case False
      show ?thesis unfolding Rdwr_call by (rule no_sleep [OF refl]) (use False in \<open>simp_all add: rdwr_check_def\<close>)
    qed
  qed
qed

section \<open>What a call does to the state\<close>

text \<open>
  The locks stay, one is set with nothing in the way, or some go; and the caller sleeps
  exactly when the call does not return.
\<close>

definition sound_call :: "nat set \<Rightarrow> nat \<Rightarrow> lkstate \<Rightarrow> call_result \<Rightarrow> bool" where
  "sound_call A p st res \<longleftrightarrow> lk_ok A (result_state res) \<and>
     p_dlchan (result_state res) = (p_dlchan st)(p := case res of Returned er fl s \<Rightarrow> None | Blocked c s \<Rightarrow> Some c) \<and>
     (compatible st \<longrightarrow> compatible (result_state res))"

lemma granted_compatible:
  assumes c: "compatible st" and g: "granted p ip LB UB ty st st'" and n: "\<And>q. \<not> in_way p ip LB UB (ty = F_RDLCK) st q"
  shows "compatible st'"
proof -
  have h: "holds st' jp q x t \<longleftrightarrow> (if q = p \<and> jp = ip \<and> LB \<le> x \<and> x < UB then t = ty else holds st jp q x t)" for jp q x t
    using g by (simp add: granted_def)
  have o: "ty = F_RDLCK \<and> u = F_RDLCK" if "r \<noteq> p" "LB \<le> x" "x < UB" "holds st ip r x u" for r x u
    using n [of r] that unfolding in_way_def by blast
  show ?thesis unfolding compatible_def
  proof (intro allI impI)
    fix jp q r x t u assume q: "q \<noteq> r" and a: "holds st' jp q x t" "holds st' jp r x u"
    have c': "holds st jp q x t \<Longrightarrow> holds st jp r x u \<Longrightarrow> t = F_RDLCK \<and> u = F_RDLCK"
      using c q unfolding compatible_def by blast
    consider (1) "q = p \<and> jp = ip \<and> LB \<le> x \<and> x < UB" | (2) "r = p \<and> jp = ip \<and> LB \<le> x \<and> x < UB"
      | (3) "\<not> (q = p \<and> jp = ip \<and> LB \<le> x \<and> x < UB)" "\<not> (r = p \<and> jp = ip \<and> LB \<le> x \<and> x < UB)" by blast
    then show "t = F_RDLCK \<and> u = F_RDLCK"
    proof cases
      case 1
      then have "t = ty" "holds st ip r x u" using a q by (simp_all add: h)
      then show ?thesis using o [of r x u] 1 q by blast
    next
      case 2
      then have "u = ty" "holds st ip q x t" using a q by (simp_all add: h)
      then show ?thesis using o [of q x t] 2 q by blast
    next
      case 3
      then have "holds st jp q x t" "holds st jp r x u" using a unfolding h by argo+
      then show ?thesis by (rule c')
    qed
  qed
qed

lemma fewer_compatible: "compatible st \<Longrightarrow> (\<And>jp q x t. holds st' jp q x t \<Longrightarrow> holds st jp q x t) \<Longrightarrow> compatible st'"
  unfolding compatible_def by blast

lemma sound_same:
  assumes "lk_ok A st'" and "holds st' = holds st" and "p_dlchan st' = p_dlchan st" and "p_dlchan st p = None"
  shows "sound_call A p st (Returned er fl st')"
proof -
  have "(p_dlchan st)(p := None) = p_dlchan st" using assms(4) by (simp add: fun_eq_iff)
  then show ?thesis using assms(1-3) by (auto simp: sound_call_def compatible_def)
qed

lemma locked_sound:
  assumes "lk_ok A st" and p: "p \<in> A" "p_dlchan st p = None"
  shows "\<exists>r. locked flag p ip LB UB fn fl lty nd [] st = Ret r \<and>
    (case r of
       Done b er fl' st' \<Rightarrow> lk_ok A st' \<and> holds st' = holds st \<and> p_dlchan st' = p_dlchan st \<and> (\<not> b \<longrightarrow> st' = st)
     | Asleep c st' \<Rightarrow> lk_ok A st' \<and> holds st' = holds st \<and> p_dlchan st' = (p_dlchan st)(p := Some c))"
proof -
  obtain F L where inv: "lk_inv A st F L" using assms(1) by (auto simp: lk_ok_def)
  note e = locked_exact [OF inv p, of flag ip LB UB fn fl lty nd "[]"]
  show ?thesis
  proof (cases "find (\<lambda>c. \<not> passed flag p ip LB UB fn lty nd st c) (L ip)")
    case None
    then show ?thesis using e assms(1) by simp
  next
    case (Some c)
    then have c: "c \<in> set (L ip)" "\<not> passed flag p ip LB UB fn lty nd st c" by (auto simp: find_Some_iff)
    obtain q where q: "ll_proc (ent st c) = Some q" using inv_lock(1) [OF inv c(1)] by blast
    have nfs: "lk_ok A (upd_ll c (\<lambda>e. e\<lparr>ll_nfs := True\<rparr>) st) \<and> holds (upd_ll c (\<lambda>e. e\<lparr>ll_nfs := True\<rparr>) st) = holds st"
      using flag_inv [OF inv, of "\<lambda>e. e\<lparr>ll_nfs := True\<rparr>" c] by (auto simp: lk_ok_def)
    have no: "lock_verdict flag fn lty nd (i_mode st ip) (ent st c) \<noteq> Skip" using c(2) by (simp add: passed_def)
    show ?thesis
    proof (cases "lock_verdict flag fn lty nd (i_mode st ip) (ent st c)")
      case Wait
      show ?thesis
      proof (cases "(q, p) \<in> (waits st)\<^sup>* \<or> flag = F_SETLK_NFSCALLBACK")
        case True
        then show ?thesis using e Some Wait q assms(1) nfs by (auto simp: at_lock_def)
      next
        case False
        note a = asleep_inv [OF inv c(1) p q]
        have "locked flag p ip LB UB fn fl lty nd [] st = Ret (Asleep c (upd_ll c (\<lambda>e. e\<lparr>ll_iwant := True\<rparr>) (wait_on p c st)))"
          using e Some Wait q False by (simp add: at_lock_def)
        then show ?thesis using a False by simp
      qed
    qed (use no e Some assms(1) in \<open>simp_all add: at_lock_def\<close>)
  qed
qed

lemma locked_free:
  assumes "lk_ok A st" and p: "p \<in> A" "p_dlchan st p = None" and r: "LB < UB"
    and rq: "request flag fn lty nd (i_mode st ip) share V" "\<And>b er. V = Stop b er \<Longrightarrow> b"
    and d: "locked flag p ip LB UB fn fl lty nd [] st = Ret (Done False er fl' st')"
  shows "\<not> in_way p ip LB UB share st q"
proof -
  obtain F L where inv: "lk_inv A st F L" using assms(1) by (auto simp: lk_ok_def)
  from locked_request [OF inv p r rq(1), of fl] show ?thesis
  proof (elim disjE conjE bexE)
    fix c q' assume l: "locked flag p ip LB UB fn fl lty nd [] st = Ret
        (case V of
           Stop b er \<Rightarrow> Done b er fl st
         | Report \<Rightarrow> Done True E_OK (report_lock st (ent st c)) st
         | _ \<Rightarrow> if (q', p) \<in> (waits st)\<^sup>* then Done True EDEADLK fl st
                else if flag = F_SETLK_NFSCALLBACK then Done True EACCES fl (upd_ll c (\<lambda>e. e\<lparr>ll_nfs := True\<rparr>) st)
                else Asleep c (upd_ll c (\<lambda>e. e\<lparr>ll_iwant := True\<rparr>) (wait_on p c st)))"
    then show ?thesis using d rq(2) by (auto split: verdict.splits if_splits)
  qed simp
qed

lemma set_sound:
  assumes "lk_ok A (result_state res)" and "set_spec wait share full p ip LB UB ty st res" and "share = (ty = F_RDLCK)"
    and "p_dlchan st p = None"
  shows "sound_call A p st res"
proof (cases res)
  case (Returned er fl st')
  have n: "(p_dlchan st)(p := None) = p_dlchan st" using assms(4) by (simp add: fun_eq_iff)
  show ?thesis
  proof (cases "(\<exists>q. in_way p ip LB UB share st q) \<or> er \<noteq> E_OK")
    case True
    then have "holds st' = holds st" "p_dlchan st' = p_dlchan st" using assms(2) Returned by (auto simp: set_spec_def split: if_splits)
    then show ?thesis using assms(1) Returned assms(4) by (auto intro: sound_same)
  next
    case False
    then have "granted p ip LB UB ty st st'" "p_dlchan st' = p_dlchan st" using assms(2) Returned by (auto simp: set_spec_def split: if_splits)
    then show ?thesis using assms(1,3) Returned n granted_compatible [of st p ip LB UB ty st'] False by (auto simp: sound_call_def)
  qed
next
  case (Blocked c st')
  then show ?thesis using assms(1,2) by (auto simp: set_spec_def sound_call_def compatible_def)
qed

lemma delete_sound:
  assumes "lk_ok A st" and "p \<in> A" and "p_dlchan st p = None" and "LB < UB"
  shows "\<exists>res. obind (delete_lock p ip LB UB fn st) (\<lambda>(er, st1). Ret (Returned er fl st1)) = Ret res \<and> sound_call A p st res"
proof -
  obtain er st' where d: "delete_lock p ip LB UB fn st = Ret (er, st')" "lk_ok A st'" "same_env st st'"
    "\<forall>jp q x t. holds st' jp q x t \<longleftrightarrow> \<not> (er = E_OK \<and> q = p \<and> jp = ip \<and> LB \<le> x \<and> x < UB) \<and> holds st jp q x t"
    using delete_lock_holds [OF assms(1,2,4)] by metis
  have "compatible st \<Longrightarrow> compatible st'" using d(4) fewer_compatible by blast
  moreover have "(p_dlchan st)(p := None) = p_dlchan st" using assms(3) by (simp add: fun_eq_iff)
  ultimately show ?thesis using d by (simp add: sound_call_def same_env_def)
qed

text \<open>A call whose locks stay as they are.\<close>

lemma look_sound:
  assumes "lk_ok A st" and "p \<in> A" and "p_dlchan st p = None"
  shows "\<exists>res. obind (locked flag p ip LB UB fn fl lty nd [] st) (\<lambda>r. case r of
      Asleep c st1 \<Rightarrow> Ret (Blocked c st1) | Done b er fl1 st1 \<Rightarrow> Ret (Returned (g b er) (G b fl1) st1)) = Ret res \<and> sound_call A p st res"
proof -
  obtain r where r: "locked flag p ip LB UB fn fl lty nd [] st = Ret r" "case r of
       Done b er fl' st' \<Rightarrow> lk_ok A st' \<and> holds st' = holds st \<and> p_dlchan st' = p_dlchan st \<and> (\<not> b \<longrightarrow> st' = st)
     | Asleep c st' \<Rightarrow> lk_ok A st' \<and> holds st' = holds st \<and> p_dlchan st' = (p_dlchan st)(p := Some c)"
    using locked_sound [OF assms, of flag ip LB UB fn fl lty nd] by blast
  show ?thesis
  proof (cases r)
    case (Done b er fl' st')
    then show ?thesis using r sound_same [of A st' st p "g b er" "G b fl'"] assms(3) by simp
  next
    case (Asleep c st')
    then show ?thesis using r by (auto simp: sound_call_def compatible_def)
  qed
qed

lemma nfs_sound:
  assumes "lk_ok A st" and p: "p \<in> A" "p_dlchan st p = None" and r: "LB < UB" and ty: "lty = F_RDLCK \<or> lty = F_WRLCK"
  shows "\<exists>res. obind (locked F_SETLK_NFSCALLBACK p ip LB UB L_FCNTL fl lty nd [] st) (\<lambda>r. case r of
      Asleep c st1 \<Rightarrow> Ret (Blocked c st1)
    | Done b er fl1 st1 \<Rightarrow> obind (lockctl_rest p ip LB UB lty b er st1) (\<lambda>(er2, st2). Ret (Returned er2 fl st2))) = Ret res \<and>
    sound_call A p st res"
proof -
  obtain x where x: "locked F_SETLK_NFSCALLBACK p ip LB UB L_FCNTL fl lty nd [] st = Ret x" "case x of
       Done b er fl' st' \<Rightarrow> lk_ok A st' \<and> holds st' = holds st \<and> p_dlchan st' = p_dlchan st \<and> (\<not> b \<longrightarrow> st' = st)
     | Asleep c st' \<Rightarrow> lk_ok A st' \<and> holds st' = holds st \<and> p_dlchan st' = (p_dlchan st)(p := Some c)"
    using locked_sound [OF assms(1-3), of F_SETLK_NFSCALLBACK ip LB UB L_FCNTL fl lty nd] by blast
  show ?thesis
  proof (cases x)
    case (Asleep c st')
    then show ?thesis using x by (auto simp: sound_call_def compatible_def)
  next
    case (Done b er fl' st')
    show ?thesis
    proof (cases b)
      case True
      then show ?thesis using x Done sound_same [of A st' st p er fl] p(2) by (simp add: lockctl_rest_def)
    next
      case False
      then have st': "st' = st" using x Done by simp
      have n: "\<not> in_way p ip LB UB (lty = F_RDLCK) st q" for q
        by (rule locked_free [OF assms(1-4) request_fcntl(4) [OF ty]]) (use x Done False in auto)
      obtain er2 s2 where i: "insert_lock p ip LB UB L_FCNTL lty st = Ret (er2, s2)" "lk_ok A s2" "same_env st s2"
         "\<forall>jp q x t. holds s2 jp q x t \<longleftrightarrow> (if er2 = E_OK \<and> q = p \<and> jp = ip \<and> LB \<le> x \<and> x < UB then t = lty else holds st jp q x t)"
         "er2 \<noteq> E_OK \<longrightarrow> er2 = ENOLCK \<and> too_few p ip LB UB lty st"
        using insert_lock_holds [OF assms(1) p(1) r ty, of ip L_FCNTL] by auto
      have "set_spec False (lty = F_RDLCK) ENOLCK p ip LB UB lty st (Returned er2 fl s2)"
        using n i(3-5) by (auto simp: set_spec_def granted_def same_env_def fun_eq_iff)
      then have "sound_call A p st (Returned er2 fl s2)" using set_sound [OF _ _ refl p(2)] i(2) by simp
      then show ?thesis using x(1) Done False st' i(1) by (simp add: lockctl_rest_def)
    qed
  qed
qed

lemma call_sound:
  assumes "lk_ok A st" and "p \<in> A" and "p_dlchan st p = None" and "call_ok k"
  shows "\<exists>res. lk_call k p [] st = Ret res \<and> sound_call A p st res"
proof (cases k)
  case (Lockf_call flag ip LB UB nd)
  then have r: "LB < UB" "flag = F_ULOCK \<or> flag = F_LOCK \<or> flag = F_TLOCK \<or> flag = F_TEST" using assms(4) by auto
  consider "flag = F_ULOCK" | "flag = F_TEST" | "flag = F_LOCK \<or> flag = F_TLOCK" using r(2) by blast
  then show ?thesis
  proof cases
    case 1
    then show ?thesis using delete_sound [OF assms(1-3) r(1)] by (simp add: Lockf_call ufs_lockf_def)
  next
    case 2
    have "obind (lockf_rest F_TEST p ip LB UB b er s) (\<lambda>(er2, st2). Ret (Returned er2 no_flock st2)) = Ret (Returned er no_flock s)" for b er s
      by (simp add: lockf_rest_def)
    then show ?thesis using 2 look_sound [OF assms(1-3), of F_TEST ip LB UB L_LOCKF no_flock F_WRLCK nd "\<lambda>b er. er" "\<lambda>b fl. no_flock"]
      by (simp add: Lockf_call ufs_lockf_def)
  next
    case 3
    obtain res where x: "ufs_lockf flag p ip LB UB no_flock nd [] st = Ret res" "lk_ok A (result_state res)"
      "set_spec (flag = F_LOCK) False EDEADLK p ip LB UB F_WRLCK st res" using lockf_set [OF assms(1-3) r(1) 3] by blast
    have "sound_call A p st res" by (rule set_sound [OF x(2,3) _ assms(3)]) simp
    then show ?thesis using x(1) by (simp add: Lockf_call)
  qed
next
  case (Fcntl_call cmd ip LB UB fl nd)
  then have r: "LB < UB" using assms(4) by simp
  consider "cmd = F_GETLK" | "cmd \<in> {F_SETLK_NFSCALLBACK, F_SETLK, F_SETLKW}" "l_type fl = F_UNLCK"
    | "cmd = F_SETLK_NFSCALLBACK" "l_type fl = F_RDLCK \<or> l_type fl = F_WRLCK"
    | "cmd = F_SETLK \<or> cmd = F_SETLKW" "l_type fl = F_RDLCK \<or> l_type fl = F_WRLCK"
    | "cmd \<noteq> F_GETLK" "cmd \<notin> {F_SETLK_NFSCALLBACK, F_SETLK, F_SETLKW} \<or> l_type fl \<notin> {F_RDLCK, F_WRLCK, F_UNLCK}" by blast
  then show ?thesis
  proof cases
    case 1
    then show ?thesis using look_sound [OF assms(1-3), of F_GETLK ip LB UB L_FCNTL fl "l_type fl" nd "\<lambda>b er. er"
      "\<lambda>b fl1. if b then fl1 else fl1\<lparr>l_type := F_UNLCK\<rparr>"] by (simp add: Fcntl_call ufs_lockctl_def)
  next
    case 2
    then show ?thesis using delete_sound [OF assms(1-3) r] by (auto simp: Fcntl_call ufs_lockctl_def)
  next
    case 3
    then show ?thesis using nfs_sound [OF assms(1-3) r 3(2), of ip fl nd] by (auto simp: Fcntl_call ufs_lockctl_def)
  next
    case 4
    obtain res where x: "ufs_lockctl cmd p ip LB UB fl nd [] st = Ret res" "lk_ok A (result_state res)"
      "set_spec (cmd = F_SETLKW) (l_type fl = F_RDLCK) ENOLCK p ip LB UB (l_type fl) st res" using fcntl_set [OF assms(1-3) r 4] by blast
    have "sound_call A p st res" by (rule set_sound [OF x(2,3) refl assms(3)])
    then show ?thesis using x(1) by (simp add: Fcntl_call)
  next
    case 5
    then show ?thesis using sound_same [OF assms(1) refl refl assms(3)] by (auto simp: Fcntl_call ufs_lockctl_def)
  qed
next
  case (Rdwr_call w ip off len nd)
  then show ?thesis
    using look_sound [OF assms(1-3), of F_LOCK ip off "to_s32 (off + len)" "if w then L_WRITE else L_READ" no_flock 0 nd
        "\<lambda>b er. if b then er else E_OK" "\<lambda>b fl. fl"] sound_same [OF assms(1) refl refl assms(3)]
    by (simp add: rdwr_check_def)
qed

section \<open>The table at its first use\<close>

definition zero_ent :: lockent where
  "zero_ent = \<lparr>ll_link = None, ll_count = 0, ll_iwant = False, ll_busy = False, ll_nfs = False, ll_proc = None,
     ll_start = 0, ll_end = 0, ll_type = 0, ll_ip = None\<rparr>"

text \<open>Memory that is all zero, and a process table with the processes \<open>A\<close>.\<close>

definition lk_boot :: "nat set \<Rightarrow> lkstate \<Rightarrow> bool" where
  "lk_boot A st \<longleftrightarrow> locklist st \<noteq> [] \<and> locklist st = replicate (length (locklist st)) zero_ent \<and> i_locklist st = (\<lambda>ip. None) \<and>
     p_dlchan st = (\<lambda>q. None) \<and> table_ok A (ptab st) \<and> pid_at st 0 = 0"

abbreviation init_one :: "nat \<Rightarrow> lkstate \<Rightarrow> lkstate" where
  "init_one c s \<equiv> lockfree c (upd_ll c (\<lambda>e. e\<lparr>ll_iwant := False, ll_busy := False, ll_nfs := False, ll_count := 1\<rparr>) s)"

lemma init_one_ent:
  assumes "0 < c" and "c < length (locklist s)"
  shows "ent (init_one c s) d = (if d = c then (ent s c)\<lparr>ll_iwant := False, ll_busy := False, ll_nfs := False, ll_count := 0,
      ll_ip := None, ll_proc := Some 0, ll_link := nxt s 0\<rparr> else if d = 0 then (ent s 0)\<lparr>ll_link := Some c\<rparr> else ent s d)"
    and "length (locklist (init_one c s)) = length (locklist s) \<and> i_locklist (init_one c s) = i_locklist s \<and>
      p_dlchan (init_one c s) = p_dlchan s \<and> ptab (init_one c s) = ptab s"
  using assms by (auto simp: lockfree_def lockdec_def check_lock_sleep_def Let_def ent_upd)

lemma init_table:
  assumes "m \<le> length (locklist s)" and "0 < m" and "ll_link (ent s 0) = None" and "ll_proc (ent s 0) = Some 0"
  defines "t \<equiv> fold init_one [1..<m] s"
  shows "linked (nxt t) (nxt t 0) (rev [1..<m]) \<and> ll_proc (ent t 0) = Some 0 \<and>
    (\<forall>c \<in> {1..<m}. \<not> ll_busy (ent t c) \<and> ll_proc (ent t c) = Some 0 \<and> ll_count (ent t c) = 0) \<and>
    length (locklist t) = length (locklist s) \<and> i_locklist t = i_locklist s \<and> p_dlchan t = p_dlchan s \<and> ptab t = ptab s"
  using assms(1,2) unfolding t_def
proof (induction m)
  case (Suc m)
  show ?case
  proof (cases "m = 0")
    case True
    then show ?thesis using assms(3,4) by simp
  next
    case False
    define u where "u = fold init_one [1..<m] s"
    note IH = Suc.IH [folded u_def]
    have ih: "linked (nxt u) (nxt u 0) (rev [1..<m])" "ll_proc (ent u 0) = Some 0"
      "\<forall>c \<in> {1..<m}. \<not> ll_busy (ent u c) \<and> ll_proc (ent u c) = Some 0 \<and> ll_count (ent u c) = 0"
      "length (locklist u) = length (locklist s)" "i_locklist u = i_locklist s" "p_dlchan u = p_dlchan s" "ptab u = ptab s"
      using IH Suc.prems False by simp_all
    have m: "0 < m" "m < length (locklist u)" using False Suc.prems ih(4) by simp_all
    have f: "fold init_one [1..<Suc m] s = init_one m u" using False by (simp add: u_def)
    note e = init_one_ent [OF m]
    have "linked (nxt (init_one m u)) (nxt u 0) (rev [1..<m])"
      using ih(1) linked_cong [of "rev [1..<m]" "nxt u" "nxt (init_one m u)" "nxt u 0"] by (simp add: e(1))
    then have "linked (nxt (init_one m u)) (nxt (init_one m u) 0) (rev [1..<Suc m])" using m by (simp add: e(1))
    moreover have "\<forall>c \<in> {1..<Suc m}. \<not> ll_busy (ent (init_one m u) c) \<and> ll_proc (ent (init_one m u) c) = Some 0 \<and> ll_count (ent (init_one m u) c) = 0"
      using ih(3) by (auto simp: e(1) less_Suc_eq)
    ultimately show ?thesis unfolding f using ih(2,4-7) e(2) m by (simp add: e(1))
  qed
qed simp

lemma boot_zero: "lk_boot A z \<Longrightarrow> c < length (locklist z) \<Longrightarrow> ent z c = zero_ent"
proof -
  assume b: "lk_boot A z" and c: "c < length (locklist z)"
  obtain n where n: "locklist z = replicate n zero_ent" using b unfolding lk_boot_def by blast
  then show ?thesis using c by simp
qed

lemma boot_ok:
  assumes "lk_boot A z"
  shows "lk_ok A (lock_init z)" "holds (lock_init z) = (\<lambda>ip q x t. False)" "p_dlchan (lock_init z) = (\<lambda>q. None)"
proof -
  let ?s = "upd_ll 0 (\<lambda>e. e\<lparr>ll_proc := Some 0\<rparr>) z" and ?t = "lock_init z" and ?n = "length (locklist z)"
  have z: "locklist z \<noteq> []" "\<And>c. c < ?n \<Longrightarrow> ent z c = zero_ent" "i_locklist z = (\<lambda>ip. None)" "p_dlchan z = (\<lambda>q. None)"
      "table_ok A (ptab z)" "pid_at z 0 = 0"
    using assms boot_zero [OF assms] unfolding lk_boot_def by blast+
  then have n: "0 < ?n" by simp
  have t: "?t = fold init_one [1..<?n] ?s" by (simp add: lock_init_def)
  have "ll_link (ent ?s 0) = None" "ll_proc (ent ?s 0) = Some 0" using n z(2) [of 0] by (simp_all add: ent_upd zero_ent_def)
  note T = init_table [of ?n ?s, OF _ n this, folded t]
  have i: "linked (nxt ?t) (nxt ?t 0) (rev [1..<?n])" "ll_proc (ent ?t 0) = Some 0"
    "\<And>c. c \<in> {1..<?n} \<Longrightarrow> \<not> ll_busy (ent ?t c) \<and> ll_proc (ent ?t c) = Some 0 \<and> ll_count (ent ?t c) = 0"
    "length (locklist ?t) = ?n" "i_locklist ?t = i_locklist z" "p_dlchan ?t = p_dlchan z" "ptab ?t = ptab z"
    using T by simp_all
  show d: "p_dlchan ?t = (\<lambda>q. None)" using i(6) z(4) by simp
  then have w: "waiters ?t c = {}" "waits ?t = {}" for c by (auto simp: waiters_def waits_def)
  have rep: "lk_rep ?t (rev [1..<?n]) (\<lambda>ip. [])"
    unfolding lk_rep_def
  proof (intro conjI ballI allI impI)
    show "locklist ?t \<noteq> []" using i(4) n by auto
    show "linked (nxt ?t) (i_locklist ?t ip) []" for ip using i(5) z(3) by simp
    show "ll_count (ent ?t c) = of_bool (ll_busy (ent ?t c)) + int (card (waiters ?t c))" if "c \<in> cells ?t" for c
      using i(3) [of c] that by (simp add: w(1) i(4))
  qed (use i(1-4) d w(1) in auto)
  have "lk_inv A ?t (rev [1..<?n]) (\<lambda>ip. [])"
    using rep i(7) z(5,6) w(2) d by (simp add: lk_inv_def list_ok_def block_def mine_def pid_at_def acyclic_def)
  then show "lk_ok A ?t" by (auto simp: lk_ok_def)
  show "holds ?t = (\<lambda>ip q x t. False)" using rep_holds [OF rep] by (simp add: fun_eq_iff mine_def)
qed

text \<open>The code fills the table when the first lock is set, and finds it as if filled at boot.\<close>

lemma first_use:
  assumes "lk_boot A z"
  shows "insert_lock p ip LB UB fn ty z = insert_lock p ip LB UB fn ty (lock_init z)"
proof -
  let ?s = "upd_ll 0 (\<lambda>e. e\<lparr>ll_proc := Some 0\<rparr>) z" and ?t = "lock_init z" and ?n = "length (locklist z)"
  have "locklist z \<noteq> []" "i_locklist z = (\<lambda>ip. None)" using assms unfolding lk_boot_def by blast+
  then have z: "locklist z \<noteq> []" "ent z 0 = zero_ent" "i_locklist z = (\<lambda>ip. None)" using boot_zero [OF assms, of 0] by simp_all
  then have n: "0 < ?n" by simp
  have t: "?t = fold init_one [1..<?n] ?s" by (simp add: lock_init_def)
  have "ll_link (ent ?s 0) = None" "ll_proc (ent ?s 0) = Some 0" using n z(2) by (simp_all add: ent_upd zero_ent_def)
  note i = init_table [of ?n ?s, OF _ n this, folded t, simplified]
  have "lockalloc fn z = lockalloc fn ?t" using z(2) i by (simp add: lockalloc_def zero_ent_def)
  then show ?thesis using i z(3) by (simp add: insert_lock_def lockadd_def)
qed

section \<open>Steps\<close>

text \<open>
  A state is the kernel's and the call that each sleeping process is in. A process starts a
  call and returns or sleeps; a sleeping process wakes up at any time and starts again, or
  is interrupted; a process that does not sleep closes a file.
\<close>

type_synonym lkrun = "lkstate \<times> (nat \<Rightarrow> lkcall option)"

inductive lk_step :: "nat set \<Rightarrow> lkrun \<Rightarrow> lkrun \<Rightarrow> bool" for A where
  lk_return: "p \<in> A \<Longrightarrow> w p = None \<Longrightarrow> call_ok k \<Longrightarrow> lk_call k p [] st = Ret (Returned er fl st') \<Longrightarrow> lk_step A (st, w) (st', w)"
| lk_sleep: "p \<in> A \<Longrightarrow> w p = None \<Longrightarrow> call_ok k \<Longrightarrow> lk_call k p [] st = Ret (Blocked c st') \<Longrightarrow> lk_step A (st, w) (st', w(p := Some k))"
| lk_wake: "w p = Some k \<Longrightarrow> p_dlchan st p = Some c \<Longrightarrow> lk_call k p [] (unblock p c st) = Ret (Returned er fl st') \<Longrightarrow>
    lk_step A (st, w) (st', w(p := None))"
| lk_again: "w p = Some k \<Longrightarrow> p_dlchan st p = Some c \<Longrightarrow> lk_call k p [] (unblock p c st) = Ret (Blocked d st') \<Longrightarrow>
    lk_step A (st, w) (st', w)"
| lk_signal: "w p = Some k \<Longrightarrow> p_dlchan st p = Some c \<Longrightarrow> lk_step A (st, w) (unblock p c st, w(p := None))"
| lk_close: "p \<in> A \<Longrightarrow> w p = None \<Longrightarrow> unlock p ip st = Ret (r, st') \<Longrightarrow> lk_step A (st, w) (st', w)"

inductive_cases lk_stepE: "lk_step A s s'"

inductive lk_reach :: "nat set \<Rightarrow> lkrun \<Rightarrow> bool" for A where
  lk_start: "lk_boot A z \<Longrightarrow> lk_reach A (lock_init z, \<lambda>p. None)"
| lk_next: "lk_reach A s \<Longrightarrow> lk_step A s s' \<Longrightarrow> lk_reach A s'"

text \<open>The sleeping processes are the ones in a call, and the calls have ranges.\<close>

definition run_ok :: "nat set \<Rightarrow> lkrun \<Rightarrow> bool" where
  "run_ok A s \<longleftrightarrow> (case s of (st, w) \<Rightarrow> lk_ok A st \<and> compatible st \<and>
     (\<forall>p. w p = None \<longleftrightarrow> p_dlchan st p = None) \<and> (\<forall>p k. w p = Some k \<longrightarrow> p \<in> A \<and> call_ok k))"

lemma unblock_ok:
  assumes "lk_ok A st" and "p_dlchan st p = Some c"
  shows "lk_ok A (unblock p c st)" "holds (unblock p c st) = holds st"
  using assms unblock_inv unfolding lk_ok_def by blast+

lemma step_ok:
  assumes "run_ok A s" and "lk_step A s s'"
  shows "run_ok A s'"
  using assms(2)
proof (cases rule: lk_step.cases)
  case (lk_return p w k st er fl st')
  then have "sound_call A p st (Returned er fl st')" using assms(1) call_sound [of A st p k] by (auto simp: run_ok_def)
  then show ?thesis using assms(1) lk_return by (auto simp: run_ok_def sound_call_def)
next
  case (lk_sleep p w k st c st')
  then have "sound_call A p st (Blocked c st')" using assms(1) call_sound [of A st p k] by (auto simp: run_ok_def)
  then show ?thesis using assms(1) lk_sleep by (auto simp: run_ok_def sound_call_def)
next
  case (lk_wake w p k st c er fl st')
  have u: "lk_ok A (unblock p c st)" "compatible (unblock p c st)" "p \<in> A" "call_ok k"
    using assms(1) lk_wake unblock_ok [of A st p c] by (auto simp: run_ok_def compatible_def)
  then have "sound_call A p (unblock p c st) (Returned er fl st')" using call_sound [of A "unblock p c st" p k] lk_wake by simp
  then show ?thesis using assms(1) lk_wake u by (auto simp: run_ok_def sound_call_def)
next
  case (lk_again w p k st c d st')
  have u: "lk_ok A (unblock p c st)" "compatible (unblock p c st)" "p \<in> A" "call_ok k"
    using assms(1) lk_again unblock_ok [of A st p c] by (auto simp: run_ok_def compatible_def)
  then have "sound_call A p (unblock p c st) (Blocked d st')" using call_sound [of A "unblock p c st" p k] lk_again by simp
  then show ?thesis using assms(1) lk_again u by (auto simp: run_ok_def sound_call_def)
next
  case (lk_signal w p k st c)
  then show ?thesis using assms(1) unblock_ok [of A st p c] by (auto simp: run_ok_def compatible_def)
next
  case (lk_close p w ip st r st')
  then obtain x where x: "lk_ok A st'" "same_env st st'" "\<forall>jp q x t. holds st' jp q x t \<longleftrightarrow> \<not> (q = p \<and> jp = ip) \<and> holds st jp q x t"
    using assms(1) unlock_holds [of A st p ip] by (auto simp: run_ok_def)
  have r: "lk_ok A st" "compatible st" "\<forall>p. w p = None \<longleftrightarrow> p_dlchan st p = None" "\<forall>p k. w p = Some k \<longrightarrow> p \<in> A \<and> call_ok k"
    using assms(1) lk_close(1) by (simp_all add: run_ok_def)
  have "compatible st'" by (rule fewer_compatible [OF r(2)]) (use x(3) in blast)
  moreover have "p_dlchan st' = p_dlchan st" using x(2) by (simp add: same_env_def)
  ultimately show ?thesis using r x(1) lk_close(2) by (simp add: run_ok_def)
qed

lemma reach_ok: "lk_reach A s \<Longrightarrow> run_ok A s"
proof (induction rule: lk_reach.induct)
  case (lk_start z)
  then show ?case using boot_ok by (simp add: run_ok_def compatible_def)
qed (rule step_ok)

section \<open>In every state\<close>

lemma reach_compatible: "lk_reach A (st, w) \<Longrightarrow> compatible st"
  using reach_ok by (auto simp: run_ok_def)

text \<open>A process that does not sleep can make any call and close any file: nothing faults and nothing panics.\<close>

lemma reach_returns:
  assumes "lk_reach A (st, w)" and "p \<in> A" and "w p = None" and "call_ok k"
  shows "(\<exists>res. lk_call k p [] st = Ret res) \<and> (\<exists>r. unlock p ip st = Ret r)"
  using reach_ok [OF assms(1)] assms(2-4) call_sound [of A st p k] unlock_holds [of A st p ip] by (auto simp: run_ok_def)

lemma reach_waits_end:
  assumes "lk_reach A (st, w)" and "w p \<noteq> None"
  shows "\<exists>r. (p, r) \<in> (waits st)\<^sup>+ \<and> w r = None"
proof -
  have ok: "run_ok A (st, w)" by (rule reach_ok [OF assms(1)])
  then obtain F L where inv: "lk_inv A st F L" by (auto simp: run_ok_def lk_ok_def)
  have o: "owners_ok A st" by (rule inv_owners [OF inv])
  have ex: "\<exists>r. (q, r) \<in> waits st" if wq: "w q \<noteq> None" for q
  proof -
    have "\<forall>p. w p = None \<longleftrightarrow> p_dlchan st p = None" using ok by (simp add: run_ok_def)
    then have "p_dlchan st q \<noteq> None" using wq by metis
    then obtain c where c: "p_dlchan st q = Some c" by auto
    then obtain r where "ll_proc (ent st c) = Some r" using o by (auto simp: owners_ok_def)
    then show ?thesis using c by (auto simp: waits_def)
  qed
  have "finite (waits st)"
  proof (rule finite_subset)
    show "waits st \<subseteq> A \<times> insert 0 A"
    proof clarify
      fix q r assume qr: "(q, r) \<in> waits st"
      have rn: "\<forall>p. w p = None \<longleftrightarrow> p_dlchan st p = None" "\<forall>p k. w p = Some k \<longrightarrow> p \<in> A \<and> call_ok k"
        using ok by (simp_all add: run_ok_def)
      have "p_dlchan st q \<noteq> None" using qr by (auto simp: waits_def)
      then have "q \<in> A" using rn by (metis not_None_eq)
      then show "q \<in> A \<and> r \<in> insert 0 A" using waits_owner [OF o qr] by blast
    qed
    show "finite (A \<times> insert 0 A)" using o finite_subset by (auto simp: owners_ok_def table_ok_def)
  qed
  then have "wf ((waits st)\<inverse>)" using inv by (intro finite_acyclic_wf_converse) (simp_all add: lk_inv_def)
  then have "w q \<noteq> None \<longrightarrow> (\<exists>r. (q, r) \<in> (waits st)\<^sup>+ \<and> w r = None)" for q
  proof (induction q rule: wf_induct_rule)
    case (less q)
    show ?case
    proof
      assume "w q \<noteq> None"
      then obtain r where r: "(q, r) \<in> waits st" using ex by blast
      show "\<exists>r. (q, r) \<in> (waits st)\<^sup>+ \<and> w r = None"
      proof (cases "w r")
        case None
        then show ?thesis using r by blast
      next
        case (Some k)
        then show ?thesis using less.IH [of r] r by (auto intro: trancl_into_trancl2)
      qed
    qed
  qed
  then show ?thesis using assms(2) by blast
qed

end
