(* ===== verification/Lockf_Props.thy ===== *)
theory Lockf_Props
  imports Lockf_Reach
begin

text \<open>
  The properties of the record locks, with the runs that show that their hypotheses can hold.
\<close>

section \<open>An example\<close>

text \<open>
  Six entries and two processes. File 9 is a regular file with enforced locks. Process 1
  locks the first 100 bytes of file 9, process 2 the first 10 of file 5, and process 1 then
  waits for those.
\<close>

definition ex_zero :: lkstate where
  "ex_zero = \<lparr>locklist = replicate 6 zero_ent, i_locklist = (\<lambda>ip. None), i_mode = (\<lambda>ip. 0x8400), i_remote = (\<lambda>ip. False),
     p_dlchan = (\<lambda>q. None), ptab = ex_ptab, woken = [], nfs_informed = [], synced = []\<rparr>"

definition after_call :: "lkcall \<Rightarrow> nat \<Rightarrow> lkstate \<Rightarrow> lkstate" where
  "after_call k p st = (case lk_call k p [] st of Ret r \<Rightarrow> result_state r | _ \<Rightarrow> st)"

definition ex0 :: lkstate where "ex0 = lock_init ex_zero"
definition ex1 :: lkstate where "ex1 = after_call (Lockf_call F_LOCK 9 0 100 False) 1 ex0"
definition ex2 :: lkstate where "ex2 = after_call (Lockf_call F_LOCK 5 0 10 False) 2 ex1"
definition ex3 :: lkstate where "ex3 = after_call (Lockf_call F_LOCK 5 0 10 False) 1 ex2"

fun returned_ok :: "call_result outcome \<Rightarrow> bool" where
  "returned_ok (Ret (Returned er fl st)) \<longleftrightarrow> er = E_OK"
| "returned_ok _ \<longleftrightarrow> False"

fun blocked :: "call_result outcome \<Rightarrow> bool" where
  "blocked (Ret (Blocked c st)) \<longleftrightarrow> True"
| "blocked _ \<longleftrightarrow> False"

lemma ex_calls: "returned_ok (lk_call (Lockf_call F_LOCK 9 0 100 False) 1 [] ex0)"
    "returned_ok (lk_call (Lockf_call F_LOCK 5 0 10 False) 2 [] ex1)" "blocked (lk_call (Lockf_call F_LOCK 5 0 10 False) 1 [] ex2)"
  by code_simp+

lemma ex_boot: "lk_boot {1, 2} ex_zero"
  using ex_ptab_ok by (simp add: lk_boot_def ex_zero_def pid_at_def ex_ptab_def ex_proc_def)

lemma returned_after: "returned_ok (lk_call k p [] st) \<Longrightarrow> \<exists>fl. lk_call k p [] st = Ret (Returned E_OK fl (after_call k p st))"
  by (cases "lk_call k p [] st" rule: returned_ok.cases) (auto simp: after_call_def)

lemma blocked_after: "blocked (lk_call k p [] st) \<Longrightarrow> \<exists>c. lk_call k p [] st = Ret (Blocked c (after_call k p st))"
  by (cases "lk_call k p [] st" rule: blocked.cases) (auto simp: after_call_def)

text \<open>A call that returns, and one that sleeps, as a step.\<close>

lemma reach_return:
  assumes "lk_reach A (st, w)" and "p \<in> A" "w p = None" "call_ok k" and "returned_ok (lk_call k p [] st)"
  shows "lk_reach A (after_call k p st, w)"
  using returned_after [OF assms(5)] lk_return [of p A w k st] assms(2-4) lk_next [OF assms(1)] by blast

lemma reach_sleep:
  assumes "lk_reach A (st, w)" and "p \<in> A" "w p = None" "call_ok k" and "blocked (lk_call k p [] st)"
  shows "lk_reach A (after_call k p st, w(p := Some k))"
  using blocked_after [OF assms(5)] lk_sleep [of p A w k st] assms(2-4) lk_next [OF assms(1)] by blast

lemma ex_reach: "lk_reach {1, 2} (ex0, \<lambda>p. None)" "lk_reach {1, 2} (ex1, \<lambda>p. None)" "lk_reach {1, 2} (ex2, \<lambda>p. None)"
    "lk_reach {1, 2} (ex3, (\<lambda>p. None)(1 := Some (Lockf_call F_LOCK 5 0 10 False)))"
proof -
  show r0: "lk_reach {1, 2} (ex0, \<lambda>p. None)" unfolding ex0_def by (rule lk_start [OF ex_boot])
  show r1: "lk_reach {1, 2} (ex1, \<lambda>p. None)" unfolding ex1_def by (rule reach_return [OF r0 _ _ _ ex_calls(1)]) simp_all
  show r2: "lk_reach {1, 2} (ex2, \<lambda>p. None)" unfolding ex2_def by (rule reach_return [OF r1 _ _ _ ex_calls(2)]) simp_all
  show "lk_reach {1, 2} (ex3, (\<lambda>p. None)(1 := Some (Lockf_call F_LOCK 5 0 10 False)))"
    unfolding ex3_def by (rule reach_sleep [OF r2 _ _ _ ex_calls(3)]) simp_all
qed

lemma ex_ok: "lk_ok {1, 2} ex1" "lk_ok {1, 2} ex3"
  using ex_reach(2,4) [THEN reach_ok] by (simp_all add: run_ok_def)

lemma ex_state: "p_dlchan ex1 1 = None" "p_dlchan ex1 2 = None" "p_dlchan ex3 2 = None" "lock_list ex3 9 = [5]"
    "ll_proc (ent ex3 5) = Some 1" "p_dlchan ex3 1 = Some 4" "ll_proc (ent ex3 4) = Some 2"
    "holds ex1 9 1 50 F_WRLCK" "enforced (i_mode ex1 9)"
  by code_simp+

section \<open>Properties\<close>

text \<open>
  C28. In every state that is reached from boot by calls on non-empty ranges, with whatever
  sleeps, wakeups, signals and closes between them, the lock table is well formed, and a byte
  that one process has locked is locked by another only if both locks are read locks. The calls
  on a non-empty range are all but one kind: \<^verbatim>\<open>fcntl\<close> lets a range that starts at
  \<^verbatim>\<open>MAX_LOCK_SIZE\<close> through, and after such a call the claim can fail (\<open>fcntl_empty_range\<close>).
\<close>

theorem record_locks_exclude:
  assumes "lk_reach A (st, w)"
  shows "lk_ok A st \<and> (\<forall>ip q r x t u. q \<noteq> r \<longrightarrow> holds st ip q x t \<longrightarrow> holds st ip r x u \<longrightarrow> t = F_RDLCK \<and> u = F_RDLCK)"
  using reach_compatible [OF assms] reach_ok [OF assms] by (simp add: run_ok_def compatible_def)

theorem record_locks_exclude_witness: "lk_ok {1, 2} ex1 \<and> holds ex1 9 1 50 F_WRLCK \<and> \<not> holds ex1 9 2 50 F_RDLCK"
proof -
  note e = record_locks_exclude [OF ex_reach(2)]
  have "\<not> holds ex1 9 2 50 F_RDLCK"
  proof
    assume "holds ex1 9 2 50 F_RDLCK"
    from e [THEN conjunct2, rule_format, OF _ ex_state(8) this] show False by simp
  qed
  then show ?thesis using e [THEN conjunct1] ex_state(8) by blast
qed

text \<open>
  C29. In every state that is reached, a process that does not sleep can make any call and
  close any file: the call returns or sleeps, the walks end within the table, and the panic
  of \<^verbatim>\<open>compress_lock_list\<close> is not reached.
\<close>

theorem record_lock_calls_return:
  assumes "lk_reach A (st, w)" and "p \<in> A" and "w p = None" and "call_ok k"
  shows "(\<exists>res. lk_call k p [] st = Ret res) \<and> (\<exists>r. unlock p ip st = Ret r)"
  by (rule reach_returns [OF assms])

theorem record_lock_calls_return_witness:
  "(\<exists>res. lk_call (Fcntl_call F_SETLKW 9 20 30 \<lparr>l_type = F_RDLCK, l_whence = 0, l_start = 20, l_len = 10, l_pid = 0\<rparr> False) 2 [] ex3 = Ret res) \<and>
    (\<exists>r. unlock 2 5 ex3 = Ret r)"
  by (rule record_lock_calls_return [OF ex_reach(4)]) simp_all

text \<open>
  C30. In every state that is reached, the chain of owners that starts at a sleeping process
  ends at a process that does not sleep: there is no deadlock among record locks. The end
  is 0 when the entry that a process of the chain waits for was freed, so that it is about
  to wake up.
\<close>

theorem record_lock_waits_end:
  assumes "lk_reach A (st, w)" and "w p \<noteq> None"
  shows "\<exists>r. (p, r) \<in> (waits st)\<^sup>+ \<and> w r = None"
  by (rule reach_waits_end [OF assms])

theorem record_lock_waits_end_witness:
  "\<exists>r. (1, r) \<in> (waits ex3)\<^sup>+ \<and> ((\<lambda>p. None)(1 := Some (Lockf_call F_LOCK 5 0 10 False))) r = (None :: lkcall option)"
  by (rule record_lock_waits_end [OF ex_reach(4)]) simp

text \<open>
  C31. \<^verbatim>\<open>lockf\<close> with \<^verbatim>\<open>F_LOCK\<close> or \<^verbatim>\<open>F_TLOCK\<close> refines the abstract request. When no lock of another
  process is in the way, it is granted over exactly the bytes asked for, or fails with
  \<^verbatim>\<open>EDEADLK\<close> and changes no lock; it fails only if no entry of the table is free, or one only
  and a read lock of the caller has to be cut in two. When a lock of another is in the way,
  \<^verbatim>\<open>F_TLOCK\<close> fails with \<^verbatim>\<open>EACCES\<close>, and \<^verbatim>\<open>F_LOCK\<close> sleeps, or fails with \<^verbatim>\<open>EDEADLK\<close> if an owner
  waits for the caller.
\<close>

theorem lockf_refines:
  assumes "lk_ok A st" and "p \<in> A" and "p_dlchan st p = None" and "LB < UB" and "flag = F_LOCK \<or> flag = F_TLOCK"
  shows "\<exists>res. ufs_lockf flag p ip LB UB fl nd [] st = Ret res \<and> lk_ok A (result_state res) \<and>
    set_spec (flag = F_LOCK) False EDEADLK p ip LB UB F_WRLCK st res"
  by (rule lockf_set [OF assms])

theorem lockf_refines_witness:
  "\<exists>res. ufs_lockf F_TLOCK 2 9 50 60 no_flock False [] ex1 = Ret res \<and> lk_ok {1, 2} (result_state res) \<and>
    set_spec False False EDEADLK 2 9 50 60 F_WRLCK ex1 res"
  using lockf_refines [OF ex_ok(1), of 2 50 60 F_TLOCK 9 no_flock False] ex_state(2) by simp

text \<open>
  C32. \<^verbatim>\<open>fcntl\<close> with \<^verbatim>\<open>F_SETLK\<close> or \<^verbatim>\<open>F_SETLKW\<close>, on a range that is not empty, refines the
  abstract request in the same way, where a read lock is not stopped by the read locks of
  others: with nothing in the way it is granted over exactly the bytes asked for, or fails with
  \<^verbatim>\<open>ENOLCK\<close> and changes no lock, the latter only if no entry is free, or one only and a lock of
  the caller of the other type has to be cut in two. The empty range at \<^verbatim>\<open>MAX_LOCK_SIZE\<close>, the
  only one that \<^verbatim>\<open>fcntl\<close> lets through, is not covered (see \<open>fcntl_empty_range\<close>).
\<close>

theorem fcntl_refines:
  assumes "lk_ok A st" and "p \<in> A" and "p_dlchan st p = None" and "LB < UB" and "cmd = F_SETLK \<or> cmd = F_SETLKW"
    and "l_type fl = F_RDLCK \<or> l_type fl = F_WRLCK"
  shows "\<exists>res. ufs_lockctl cmd p ip LB UB fl nd [] st = Ret res \<and> lk_ok A (result_state res) \<and>
    set_spec (cmd = F_SETLKW) (l_type fl = F_RDLCK) ENOLCK p ip LB UB (l_type fl) st res"
  by (rule fcntl_set [OF assms])

theorem fcntl_refines_witness:
  "\<exists>res. ufs_lockctl F_SETLKW 1 9 20 30 (no_flock\<lparr>l_type := F_RDLCK\<rparr>) False [] ex1 = Ret res \<and> lk_ok {1, 2} (result_state res) \<and>
    set_spec True True ENOLCK 1 9 20 30 F_RDLCK ex1 res"
  using fcntl_refines [OF ex_ok(1), of 1 20 30 F_SETLKW "no_flock\<lparr>l_type := F_RDLCK\<rparr>" 9 False] ex_state(1) by simp

text \<open>
  C33. Unlocking a range takes the caller's locks off exactly its bytes, and leaves all other
  bytes, files and processes alone; it fails, and then changes nothing, exactly when no entry of
  the table is free and one lock of the caller reaches beyond the range on both sides, so that
  it would have to be cut in two.
\<close>

theorem delete_lock_exact:
  assumes "lk_ok A st" and "p \<in> A" and "LB < UB"
  shows "\<exists>er st'. delete_lock p ip LB UB fn st = Ret (er, st') \<and> lk_ok A st' \<and>
    (\<forall>jp q x t. holds st' jp q x t \<longleftrightarrow>
       \<not> (er = E_OK \<and> q = p \<and> jp = ip \<and> LB \<le> x \<and> x < UB) \<and> holds st jp q x t) \<and>
    (if free_locks st = [] \<and> (\<exists>c \<in> set (lock_list st ip). is_my_lock p c st \<and> ll_start (ent st c) < LB \<and> UB < ll_end (ent st c))
     then er = (if fn = L_LOCKF then EDEADLK else ENOLCK) \<and> st' = st else er = E_OK)"
  using delete_lock_holds [OF assms, of ip fn] by blast

theorem delete_lock_exact_witness:
  "\<exists>er st'. delete_lock 1 9 20 30 L_LOCKF ex1 = Ret (er, st') \<and> lk_ok {1, 2} st' \<and>
    (\<forall>jp q x t. holds st' jp q x t \<longleftrightarrow> \<not> (er = E_OK \<and> q = 1 \<and> jp = 9 \<and> 20 \<le> x \<and> x < 30) \<and> holds ex1 jp q x t) \<and>
    (if free_locks ex1 = [] \<and> (\<exists>c \<in> set (lock_list ex1 9). is_my_lock 1 c ex1 \<and> ll_start (ent ex1 c) < 20 \<and> 30 < ll_end (ent ex1 c))
     then er = (if L_LOCKF = L_LOCKF then EDEADLK else ENOLCK) \<and> st' = ex1 else er = E_OK)"
  by (rule delete_lock_exact [OF ex_ok(1)]) simp_all

text \<open>
  C34. The search for a deadlock ends, and finds one exactly when the owner of the lock waits,
  directly or through others, for the process that is about to sleep on it.
\<close>

theorem deadlock_search_exact:
  assumes "lk_ok A st" and "p \<in> A" and "p_dlchan st p = None" and "c \<in> set (lock_list st ip)"
  shows "deadlock p c (lockinc c (st\<lparr>p_dlchan := (p_dlchan st)(p := Some c)\<rparr>)) =
    Ret (\<exists>q. ll_proc (ent st c) = Some q \<and> (q, p) \<in> (waits st)\<^sup>*)"
proof -
  obtain F L where inv: "lk_inv A st F L" using assms(1) by (auto simp: lk_ok_def)
  then have "c \<in> set (L ip)" using rep_lock_list [of st F L ip] assms(4) by (simp add: lk_inv_def)
  from wait_exact(1) [OF inv this assms(2,3)] show ?thesis .
qed

theorem deadlock_search_exact_witness: "deadlock 2 5 (lockinc 5 (ex3\<lparr>p_dlchan := (p_dlchan ex3)(2 := Some 5)\<rparr>)) = Ret True"
proof -
  have "(1, 2) \<in> waits ex3" using ex_state(6,7) by (auto simp: waits_def)
  then show ?thesis
    using deadlock_search_exact [OF ex_ok(2), of 2 5 9] ex_state(3-5) by auto
qed

text \<open>
  C35. The test that a read or a write of a file with enforced locks passes before it starts,
  for an offset \<open>off\<close> of the file and a first buffer of \<open>len\<close> bytes, where \<open>len\<close> is not 0 and
  \<open>off + len\<close> does not wrap in 32 bits: it lets the call through exactly when no lock of another
  process is in the way of these \<open>len\<close> bytes, where reads share with read locks; otherwise the
  call fails, with \<^verbatim>\<open>EAGAIN\<close> if it may not sleep and with \<^verbatim>\<open>EDEADLK\<close> if an owner waits for the caller, or
  sleeps.
  The offset is the one before an append is moved to the end of the file, and only the first
  buffer is looked at, so that other bytes of the call are not protected (\<open>append_misses_lock\<close>).
\<close>

theorem rdwr_honours_locks:
  assumes "lk_ok A st" and "p \<in> A" and "p_dlchan st p = None" and "off < to_s32 (off + len)" and "enforced (i_mode st ip)"
  shows "\<exists>res. rdwr_check p ip w off len nd [] st = Ret res \<and> lk_ok A (result_state res) \<and>
    (case res of
       Returned er fl st' \<Rightarrow> st' = st \<and>
         (if \<exists>q. in_way p ip off (to_s32 (off + len)) (\<not> w) st q
          then if nd then er = EAGAIN
               else er = EDEADLK \<and> (\<exists>q. in_way p ip off (to_s32 (off + len)) (\<not> w) st q \<and> (q, p) \<in> (waits st)\<^sup>*)
          else er = E_OK)
     | Blocked c st' \<Rightarrow> \<not> nd \<and> holds st' = holds st \<and> p_dlchan st' = (p_dlchan st)(p := Some c) \<and>
         (\<exists>q. in_way p ip off (to_s32 (off + len)) (\<not> w) st q \<and> (q, p) \<notin> (waits st)\<^sup>* \<and> waits st' = insert (p, q) (waits st)))"
  by (rule rdwr_enforced [OF assms])

theorem rdwr_honours_locks_witness:
  "\<exists>res. rdwr_check 2 9 True 40 8 True [] ex1 = Ret res \<and> lk_ok {1, 2} (result_state res) \<and>
    (case res of
       Returned er fl st' \<Rightarrow> st' = ex1 \<and>
         (if \<exists>q. in_way 2 9 40 (to_s32 (40 + 8)) (\<not> True) ex1 q
          then if True then er = EAGAIN
               else er = EDEADLK \<and> (\<exists>q. in_way 2 9 40 (to_s32 (40 + 8)) (\<not> True) ex1 q \<and> (q, 2) \<in> (waits ex1)\<^sup>*)
          else er = E_OK)
     | Blocked c st' \<Rightarrow> \<not> True \<and> holds st' = holds ex1 \<and> p_dlchan st' = (p_dlchan ex1)(2 := Some c) \<and>
         (\<exists>q. in_way 2 9 40 (to_s32 (40 + 8)) (\<not> True) ex1 q \<and> (q, 2) \<notin> (waits ex1)\<^sup>* \<and> waits st' = insert (2, q) (waits ex1)))"
  by (rule rdwr_honours_locks [OF ex_ok(1)]) (simp_all add: ex_state to_s32_def)

lemma lockf_wrap:
  assumes "0 \<le> sz" "0 \<le> offset" "sz \<le> 0x7fffffff" "offset \<le> 0x7fffffff"
  shows "to_s32 (offset + sz) \<le> 0 \<or> to_s32 (offset + sz) = offset + sz"
proof (cases "offset + sz < 0x80000000")
  case True
  then show ?thesis using to_s32_id [of "offset + sz"] assms by simp
next
  case False
  then have "(offset + sz + 0x80000000) mod 0x100000000 = (offset + sz - 0x80000000) mod 0x100000000" by (subst mod_pos_geq) simp_all
  also have "\<dots> = offset + sz - 0x80000000" using False assms by (intro mod_pos_pos_trivial) auto
  finally show ?thesis using assms by (simp add: to_s32_def)
qed

text \<open>
  C36. The ranges that \<^verbatim>\<open>lockf\<close> and \<^verbatim>\<open>fcntl\<close> compute from their 32-bit arguments lie within
  the address range, whatever wraps around, and are not empty but for one: \<^verbatim>\<open>fcntl\<close> lets a
  lock to the end of the file start at \<^verbatim>\<open>MAX_LOCK_SIZE\<close>. A refused range is \<^verbatim>\<open>EINVAL\<close>.
\<close>

theorem lock_range_bounds:
  assumes "0 \<le> offset" and "offset \<le> MAX_LOCK_SIZE" and "-0x80000000 \<le> sz" and "sz \<le> 0x7fffffff"
    and "-0x80000000 \<le> l_start fl" and "l_start fl \<le> 0x7fffffff"
  shows "(case lockf_range flag offset sz of
      Inl er \<Rightarrow> er = EINVAL
    | Inr (LB, UB) \<Rightarrow> 0 \<le> LB \<and> LB < UB \<and> UB \<le> MAX_LOCK_SIZE) \<and>
    (case fcntl_range offset fsize fl of
      Inl er \<Rightarrow> er = EINVAL
    | Inr (LB, UB) \<Rightarrow> 0 \<le> LB \<and> UB \<le> MAX_LOCK_SIZE \<and> (LB < UB \<or> LB = MAX_LOCK_SIZE \<and> UB = MAX_LOCK_SIZE \<and> l_len fl = 0))"
proof
  have "sz < 0 \<Longrightarrow> to_s32 (offset + sz) = offset + sz" using assms(1-3) by (intro to_s32_id) auto
  then show "case lockf_range flag offset sz of Inl er \<Rightarrow> er = EINVAL | Inr (LB, UB) \<Rightarrow> 0 \<le> LB \<and> LB < UB \<and> UB \<le> MAX_LOCK_SIZE"
    using assms(1-4) lockf_wrap [of sz offset] by (auto simp: lockf_range_def Let_def)
  define LB where "LB = (if l_whence fl = 1 then to_s32 (l_start fl + offset)
    else if l_whence fl = 2 then to_s32 (l_start fl + fsize) else l_start fl)"
  define UB where "UB = to_s32 (LB + l_len fl)"
  have m: "\<not> MAX_LOCK_SIZE < to_s32 x" for x using to_s32_range(2) [of x] by linarith
  have ml: "\<not> MAX_LOCK_SIZE < LB" "\<not> MAX_LOCK_SIZE < UB" using m assms(6) unfolding LB_def UB_def by (simp_all del: to_s32_range)
  have "fcntl_range offset fsize fl = (if l_whence fl \<notin> {0, 1, 2} \<or> LB < 0 then Inl EINVAL else if l_len fl = 0 then Inr (LB, MAX_LOCK_SIZE)
      else if UB < 0 \<or> UB < LB \<or> UB = LB then Inl EINVAL else Inr (LB, UB))"
    unfolding fcntl_range_def LB_def [symmetric] Let_def UB_def [symmetric] using ml by (simp add: UB_def [symmetric])
  then show "case fcntl_range offset fsize fl of Inl er \<Rightarrow> er = EINVAL
    | Inr (LB, UB) \<Rightarrow> 0 \<le> LB \<and> UB \<le> MAX_LOCK_SIZE \<and> (LB < UB \<or> LB = MAX_LOCK_SIZE \<and> UB = MAX_LOCK_SIZE \<and> l_len fl = 0)"
    using ml by (simp, linarith)
qed

theorem lock_range_bounds_witness:
  "(case lockf_range F_LOCK 100 (-40) of
      Inl er \<Rightarrow> er = EINVAL
    | Inr (LB, UB) \<Rightarrow> 0 \<le> LB \<and> LB < UB \<and> UB \<le> MAX_LOCK_SIZE) \<and>
    (case fcntl_range 100 0 no_flock of
      Inl er \<Rightarrow> er = EINVAL
    | Inr (LB, UB) \<Rightarrow> 0 \<le> LB \<and> UB \<le> MAX_LOCK_SIZE \<and> (LB < UB \<or> LB = MAX_LOCK_SIZE \<and> UB = MAX_LOCK_SIZE \<and> l_len no_flock = 0))"
  by (rule lock_range_bounds) (simp_all add: no_flock_def)

section \<open>Where the code does not do what it means to\<close>

text \<open>
  The empty range at \<^verbatim>\<open>MAX_LOCK_SIZE\<close> passes \<^verbatim>\<open>fcntl\<close>, is in the way of nobody, and
  \<^verbatim>\<open>insert_lock\<close> then changes the type of the lock that ends there: from a state that is
  reached, a process gets a write lock on bytes that another has locked for reading.
\<close>

definition ex_fl :: "int \<Rightarrow> int \<Rightarrow> flock" where
  "ex_fl ty a = \<lparr>l_type = ty, l_whence = 0, l_start = a, l_len = 0, l_pid = 0\<rparr>"

definition ex4 :: lkstate where "ex4 = after_call (Fcntl_call F_SETLK 9 100 MAX_LOCK_SIZE (ex_fl F_RDLCK 100) False) 1 ex0"
definition ex5 :: lkstate where "ex5 = after_call (Fcntl_call F_SETLK 9 50 MAX_LOCK_SIZE (ex_fl F_RDLCK 50) False) 2 ex4"
definition ex6 :: lkstate where "ex6 = after_call (Fcntl_call F_SETLK 9 MAX_LOCK_SIZE MAX_LOCK_SIZE (ex_fl F_WRLCK MAX_LOCK_SIZE) False) 1 ex5"

theorem fcntl_empty_range:
  "lk_reach {1, 2} (ex5, \<lambda>p. None) \<and> fcntl_range 0 0 (ex_fl F_WRLCK MAX_LOCK_SIZE) = Inr (MAX_LOCK_SIZE, MAX_LOCK_SIZE) \<and>
    (\<exists>fl. ufs_lockctl F_SETLK 1 9 MAX_LOCK_SIZE MAX_LOCK_SIZE (ex_fl F_WRLCK MAX_LOCK_SIZE) False [] ex5 = Ret (Returned E_OK fl ex6)) \<and>
    holds ex6 9 1 200 F_WRLCK \<and> holds ex6 9 2 200 F_RDLCK"
proof -
  have c: "returned_ok (lk_call (Fcntl_call F_SETLK 9 100 MAX_LOCK_SIZE (ex_fl F_RDLCK 100) False) 1 [] ex0)"
    "returned_ok (lk_call (Fcntl_call F_SETLK 9 50 MAX_LOCK_SIZE (ex_fl F_RDLCK 50) False) 2 [] ex4)"
    "returned_ok (lk_call (Fcntl_call F_SETLK 9 MAX_LOCK_SIZE MAX_LOCK_SIZE (ex_fl F_WRLCK MAX_LOCK_SIZE) False) 1 [] ex5)"
    by code_simp+
  have r4: "lk_reach {1, 2} (ex4, \<lambda>p. None)" unfolding ex4_def by (rule reach_return [OF ex_reach(1) _ _ _ c(1)]) simp_all
  have r5: "lk_reach {1, 2} (ex5, \<lambda>p. None)" unfolding ex5_def by (rule reach_return [OF r4 _ _ _ c(2)]) simp_all
  have "holds ex6 9 1 200 F_WRLCK" "holds ex6 9 2 200 F_RDLCK"
    "fcntl_range 0 0 (ex_fl F_WRLCK MAX_LOCK_SIZE) = Inr (MAX_LOCK_SIZE, MAX_LOCK_SIZE)" by code_simp+
  then show ?thesis using r5 returned_after [OF c(3), folded ex6_def] by simp
qed

text \<open>
  A write lock that is made a read lock does not wake the processes that sleep on it, though
  what they ask for is no longer in the way: here process 1 asks for a read lock on bytes
  that process 2 then holds for reading only, and nobody wakes it up.
\<close>

definition ex7 :: lkstate where "ex7 = after_call (Fcntl_call F_SETLKW 5 0 5 (ex_fl F_RDLCK 0) False) 1 ex2"
definition ex8 :: lkstate where "ex8 = after_call (Fcntl_call F_SETLK 5 0 10 (ex_fl F_RDLCK 0) False) 2 ex7"

theorem downgrade_wakes_nobody:
  "lk_reach {1, 2} (ex8, (\<lambda>p. None)(1 := Some (Fcntl_call F_SETLKW 5 0 5 (ex_fl F_RDLCK 0) False))) \<and> woken ex8 = [] \<and>
    p_dlchan ex8 1 = Some 4 \<and> \<not> in_way 1 5 0 5 True ex8 2"
proof -
  have c: "blocked (lk_call (Fcntl_call F_SETLKW 5 0 5 (ex_fl F_RDLCK 0) False) 1 [] ex2)"
    "returned_ok (lk_call (Fcntl_call F_SETLK 5 0 10 (ex_fl F_RDLCK 0) False) 2 [] ex7)"
    by code_simp+
  have r7: "lk_reach {1, 2} (ex7, (\<lambda>p. None)(1 := Some (Fcntl_call F_SETLKW 5 0 5 (ex_fl F_RDLCK 0) False)))"
    unfolding ex7_def by (rule reach_sleep [OF ex_reach(3) _ _ _ c(1)]) simp_all
  have "lk_reach {1, 2} (ex8, (\<lambda>p. None)(1 := Some (Fcntl_call F_SETLKW 5 0 5 (ex_fl F_RDLCK 0) False)))"
    unfolding ex8_def by (rule reach_return [OF r7 _ _ _ c(2)]) simp_all
  moreover have "woken ex8 = []" "p_dlchan ex8 1 = Some 4" "lock_list ex8 5 = [4]" "ll_type (ent ex8 4) = F_RDLCK" by code_simp+
  moreover from this have "\<not> in_way 1 5 0 5 True ex8 2" by (auto simp: in_way_def holds_def)
  ultimately show ?thesis by blast
qed

text \<open>
  The test before a write looks at the offset of the file, also when the write is an append
  that then starts at the end of the file: the test passes at offset 150, the write goes to
  offset 50, which process 1 has locked, on a file with enforced locks.
\<close>

theorem append_misses_lock:
  "enforced (i_mode ex1 9) \<and> returned_ok (rdwr_check 2 9 True 150 8 False [] ex1) \<and> rdwr_offset True True 150 50 = 50 \<and>
    holds ex1 9 1 50 F_WRLCK"
  by code_simp

end
