(* ===== verification/Ring_List.thy ===== *)
theory Ring_List
  imports Kernel_Prelude
begin

text \<open>
  Doubly linked rings through a header, as \<^verbatim>\<open>insque\<close> and \<^verbatim>\<open>remque\<close> keep them. The operations
  take the two link fields they work on as arguments; the locale states what these must
  satisfy and proves, once, what inserting and removing an element do to a ring.
\<close>

section \<open>Operations\<close>

text \<open>Insert \<open>e\<close> behind \<open>p\<close>.\<close>

definition ring_insque :: "('s \<Rightarrow> 'r \<Rightarrow> 'r) \<Rightarrow> ('r \<Rightarrow> 'r \<Rightarrow> 's \<Rightarrow> 's) \<Rightarrow> ('r \<Rightarrow> 'r \<Rightarrow> 's \<Rightarrow> 's) \<Rightarrow> 'r \<Rightarrow> 'r \<Rightarrow> 's \<Rightarrow> 's" where
  "ring_insque nx set_nx set_pv e p s =
     (let n = nx s p in set_pv e p (set_pv n e (set_nx e n (set_nx p e s))))"

definition ring_remque :: "('s \<Rightarrow> 'r \<Rightarrow> 'r) \<Rightarrow> ('s \<Rightarrow> 'r \<Rightarrow> 'r) \<Rightarrow> ('r \<Rightarrow> 'r \<Rightarrow> 's \<Rightarrow> 's) \<Rightarrow> ('r \<Rightarrow> 'r \<Rightarrow> 's \<Rightarrow> 's) \<Rightarrow> 'r \<Rightarrow> 's \<Rightarrow> 's" where
  "ring_remque nx pv set_nx set_pv e s =
     (let n = nx s e; p = pv s e in set_pv n p (set_nx p n s))"

text \<open>The first element of a ring that passes a test, from \<open>r\<close> on up to the header.\<close>

fun ring_find :: "nat \<Rightarrow> ('r \<Rightarrow> 'r) \<Rightarrow> ('r \<Rightarrow> bool) \<Rightarrow> 'r \<Rightarrow> 'r \<Rightarrow> 'r option outcome" where
  "ring_find n nx hit h r =
     (if r = h then Ret None else if hit r then Ret (Some r)
      else case n of 0 \<Rightarrow> Fault | Suc k \<Rightarrow> ring_find k nx hit h (nx r))"

declare ring_find.simps [simp del]

section \<open>Rings\<close>

text \<open>The elements \<open>xs\<close> and the header \<open>h\<close> are linked both ways.\<close>

definition ring :: "('r \<Rightarrow> 'r) \<Rightarrow> ('r \<Rightarrow> 'r) \<Rightarrow> 'r \<Rightarrow> 'r list \<Rightarrow> bool" where
  "ring nx pv h xs \<longleftrightarrow> distinct (h # xs) \<and> map nx (h # xs) = xs @ [h] \<and> map pv (xs @ [h]) = h # xs"

lemma ring_frame:
  assumes "ring nx pv h xs" and "\<And>x. x \<in> insert h (set xs) \<Longrightarrow> nx' x = nx x \<and> pv' x = pv x"
  shows "ring nx' pv' h xs"
proof -
  have "map nx' (h # xs) = map nx (h # xs)" "map pv' (xs @ [h]) = map pv (xs @ [h])" using assms(2) by auto
  then show ?thesis using assms(1) unfolding ring_def by (simp only:)
qed

lemma ring_nil [simp]: "ring nx pv h [] \<longleftrightarrow> nx h = h \<and> pv h = h"
  by (simp add: ring_def)

text \<open>The links around a place of a ring.\<close>

lemma last_split: "\<exists>us. h # xs = us @ [last (h # xs)] \<and> length us = length xs"
proof (intro exI conjI)
  show "h # xs = butlast (h # xs) @ [last (h # xs)]" by (rule append_butlast_last_id [symmetric]) (rule list.distinct(2))
  show "length (butlast (h # xs)) = length xs" unfolding length_butlast by (simp only: list.size add_diff_cancel_right')
qed

lemma end_in: "last (h # xs) \<in> set (h # xs @ zs)" "hd (ys @ [h]) \<in> set (h # xs @ ys)" "hd (ys @ [h]) \<in> set (h # xs @ e # ys)"
proof -
  have "last (h # xs) \<in> set (h # xs)" by (rule last_in_set) (rule list.distinct(2))
  then show "last (h # xs) \<in> set (h # xs @ zs)" by (simp only: set_append set_simps) blast
  show "hd (ys @ [h]) \<in> set (h # xs @ ys)" "hd (ys @ [h]) \<in> set (h # xs @ e # ys)" by (cases ys, simp_all)+
qed

lemma hd_split: "\<exists>vs. ys @ [h] = hd (ys @ [h]) # vs \<and> length vs = length ys"
  by (cases ys) auto

lemma ring_insert:
  assumes r: "ring nx pv h (xs @ ys)" and e: "e \<notin> set (h # xs @ ys)"
  defines "p \<equiv> last (h # xs)" and "n \<equiv> hd (ys @ [h])"
  shows "ring (nx(p := e, e := n)) (pv(e := p, n := e)) h (xs @ e # ys)" and "nx p = n"
proof -
  obtain us where us: "h # xs = us @ [p]" "length us = length xs" using last_split [of h xs, folded p_def] by blast
  obtain vs where vs: "ys @ [h] = n # vs" "length vs = length ys" using hd_split [of ys h, folded n_def] by blast
  have d: "distinct (us @ p # ys)" "distinct (xs @ n # vs)" "e \<notin> set (us @ p # ys)" "e \<notin> set (xs @ n # vs)"
  proof -
    have e1: "us @ p # ys = h # xs @ ys" using arg_cong [OF us(1), of "\<lambda>l. l @ ys"] by simp
    have e2: "xs @ n # vs = xs @ ys @ [h]" using vs(1) by simp
    have "distinct (h # xs @ ys)" "distinct (xs @ ys @ [h])" "e \<notin> set (h # xs @ ys)" "e \<notin> set (xs @ ys @ [h])"
      using r e by (auto simp: ring_def)
    then show "distinct (us @ p # ys)" "distinct (xs @ n # vs)" "e \<notin> set (us @ p # ys)" "e \<notin> set (xs @ n # vs)"
      unfolding e1 e2 by blast+
  qed
  have h: "h # xs @ zs = us @ p # zs" for zs using arg_cong [OF us(1), of "\<lambda>l. l @ zs"] by simp
  have "map nx (us @ p # ys) = xs @ n # vs" using r vs(1) unfolding ring_def h by simp
  then have n: "map nx us = xs" "nx p = n" "map nx ys = vs" using us(2) by simp_all
  have "map pv (xs @ n # vs) = us @ p # ys" using r vs(1) unfolding ring_def h by simp
  then have q: "map pv xs = us" "pv n = p" "map pv vs = ys" using us(2) by simp_all
  let ?nx = "nx(p := e, e := n)" and ?pv = "pv(e := p, n := e)"
  have "map ?nx us = map nx us" "map ?nx ys = map nx ys" using d by auto
  then have 1: "map ?nx (us @ p # e # ys) = xs @ e # n # vs" using n d by auto
  have "map ?pv xs = map pv xs" "map ?pv vs = map pv vs" using d by auto
  then have 2: "map ?pv (xs @ e # n # vs) = us @ p # e # ys" using q d by auto
  have "distinct (us @ p # e # ys)" using d by auto
  then show "ring ?nx ?pv h (xs @ e # ys)" using 1 2 vs(1) unfolding ring_def h by simp
  show "nx p = n" by (rule n)
qed

lemma ring_remove:
  assumes r: "ring nx pv h (xs @ e # ys)"
  defines "p \<equiv> last (h # xs)" and "n \<equiv> hd (ys @ [h])"
  shows "ring (nx(p := n)) (pv(n := p)) h (xs @ ys)" and "nx e = n" and "pv e = p"
proof -
  obtain us where us: "h # xs = us @ [p]" "length us = length xs" using last_split [of h xs, folded p_def] by blast
  obtain vs where vs: "ys @ [h] = n # vs" "length vs = length ys" using hd_split [of ys h, folded n_def] by blast
  have h: "h # xs @ zs = us @ p # zs" for zs using arg_cong [OF us(1), of "\<lambda>l. l @ zs"] by simp
  have d: "distinct (us @ p # e # ys)" using r unfolding ring_def h by simp
  have d2: "distinct (xs @ e # n # vs)"
  proof -
    have e2: "xs @ e # n # vs = xs @ e # ys @ [h]" using vs(1) by simp
    have "distinct (xs @ e # ys @ [h])" using r by (auto simp: ring_def)
    then show ?thesis unfolding e2 .
  qed
  have "map nx (us @ p # e # ys) = xs @ e # n # vs" using r vs(1) unfolding ring_def h by simp
  then have n: "map nx us = xs" "nx p = e" "nx e = n" "map nx ys = vs" using us(2) by simp_all
  have "map pv (xs @ e # n # vs) = us @ p # e # ys" using r vs(1) unfolding ring_def h by simp
  then have q: "map pv xs = us" "pv e = p" "pv n = e" "map pv vs = ys" using us(2) by simp_all
  let ?nx = "nx(p := n)" and ?pv = "pv(n := p)"
  have "map ?nx us = map nx us" "map ?nx ys = map nx ys" using d by auto
  then have 1: "map ?nx (us @ p # ys) = xs @ n # vs" using n by simp
  have "map ?pv xs = map pv xs" "map ?pv vs = map pv vs" using d2 by auto
  then have 2: "map ?pv (xs @ n # vs) = us @ p # ys" using q by simp
  have "distinct (us @ p # ys)" using d by auto
  then show "ring ?nx ?pv h (xs @ ys)" using 1 2 vs(1) unfolding ring_def h by simp
  show "nx e = n" "pv e = p" by (rule n q)+
qed

lemma ring_find_ring:
  assumes "ring nx pv h xs" and "length xs \<le> n"
  shows "ring_find n nx hit h (nx h) = Ret (find hit xs)"
proof -
  have "map nx (a # xs) = xs @ [h] \<Longrightarrow> h \<notin> set xs \<Longrightarrow> length xs \<le> n \<Longrightarrow> ring_find n nx hit h (nx a) = Ret (find hit xs)" for a xs n
  proof (induction xs arbitrary: a n)
    case Nil
    then show ?case by (subst ring_find.simps) simp
  next
    case (Cons x xs)
    then obtain k where "n = Suc k" by (cases n) auto
    then show ?case using Cons by (subst ring_find.simps) auto
  qed
  then show ?thesis using assms by (simp add: ring_def)
qed

section \<open>The interface\<close>

text \<open>Two link fields of a state that are read and written independently.\<close>

locale ring_links =
  fixes nx pv :: "'s \<Rightarrow> 'r \<Rightarrow> 'r"
    and set_nx set_pv :: "'r \<Rightarrow> 'r \<Rightarrow> 's \<Rightarrow> 's"
  assumes nx_set_nx: "nx (set_nx r v s) = (nx s)(r := v)"
    and pv_set_pv: "pv (set_pv r v s) = (pv s)(r := v)"
    and nx_set_pv: "nx (set_pv r v s) = nx s"
    and pv_set_nx: "pv (set_nx r v s) = pv s"
begin

abbreviation rings :: "'s \<Rightarrow> 'r \<Rightarrow> 'r list \<Rightarrow> bool" where
  "rings s \<equiv> ring (nx s) (pv s)"

lemmas links = nx_set_nx pv_set_pv nx_set_pv pv_set_nx

lemma insque:
  assumes "rings s h (xs @ ys)" and "e \<notin> set (h # xs @ ys)"
  shows "rings (ring_insque nx set_nx set_pv e (last (h # xs)) s) h (xs @ e # ys)"
proof -
  have "hd (ys @ [h]) \<in> set (h # xs @ ys)" by (rule end_in)
  then have "hd (ys @ [h]) \<noteq> e" using assms(2) by metis
  then show ?thesis
    using ring_insert [OF assms] by (simp add: ring_insque_def links Let_def fun_upd_twist [of "hd (ys @ [h])" e] del: last.simps)
qed

lemma remque:
  assumes "rings s h (xs @ e # ys)"
  shows "rings (ring_remque nx pv set_nx set_pv e s) h (xs @ ys)"
  using ring_remove [OF assms] by (simp add: ring_remque_def links Let_def del: last.simps)

text \<open>A ring that shares no element is left alone.\<close>

lemma insque_other:
  assumes r: "rings s h (xs @ ys)" and e: "e \<notin> set (h # xs @ ys)" and g: "rings s g zs"
    and d: "set (g # zs) \<inter> insert e (set (h # xs @ ys)) = {}"
  shows "rings (ring_insque nx set_nx set_pv e (last (h # xs)) s) g zs"
proof -
  define p n where "p = last (h # xs)" and "n = hd (ys @ [h])"
  have p: "p \<in> set (h # xs @ ys)" unfolding p_def by (rule end_in)
  have n: "n \<in> set (h # xs @ ys)" unfolding n_def by (rule end_in)
  have nx: "nx s p = n" unfolding p_def n_def by (rule ring_insert(2) [OF r e])
  have "x \<noteq> e \<and> x \<noteq> p \<and> x \<noteq> n" if "x \<in> insert g (set zs)" for x using d p n that by auto
  then have "nx (ring_insque nx set_nx set_pv e p s) x = nx s x \<and> pv (ring_insque nx set_nx set_pv e p s) x = pv s x"
    if "x \<in> insert g (set zs)" for x using that nx by (simp add: ring_insque_def links Let_def)
  then show ?thesis unfolding p_def [symmetric] by (rule ring_frame [OF g])
qed

lemma remque_other:
  assumes r: "rings s h (xs @ e # ys)" and g: "rings s g zs" and d: "set (g # zs) \<inter> set (h # xs @ e # ys) = {}"
  shows "rings (ring_remque nx pv set_nx set_pv e s) g zs"
proof -
  define p n where "p = last (h # xs)" and "n = hd (ys @ [h])"
  have p: "p \<in> set (h # xs @ e # ys)" unfolding p_def by (rule end_in)
  have n: "n \<in> set (h # xs @ e # ys)" unfolding n_def by (rule end_in)
  have l: "nx s e = n" "pv s e = p" unfolding p_def n_def by (rule ring_remove(2,3) [OF r])+
  have "x \<noteq> p \<and> x \<noteq> n" if "x \<in> insert g (set zs)" for x using d p n that by auto
  then have "nx (ring_remque nx pv set_nx set_pv e s) x = nx s x \<and> pv (ring_remque nx pv set_nx set_pv e s) x = pv s x"
    if "x \<in> insert g (set zs)" for x using that l by (simp add: ring_remque_def links Let_def)
  then show ?thesis by (rule ring_frame [OF g])
qed

text \<open>Removing an element that is linked to itself does nothing.\<close>

lemma remque_self:
  assumes "nx s e = e" and "pv s e = e"
  shows "nx (ring_remque nx pv set_nx set_pv e s) = nx s" "pv (ring_remque nx pv set_nx set_pv e s) = pv s"
  using assms by (simp_all add: ring_remque_def links fun_eq_iff)

end

end
