(* ===== verification/Dnlc.thy ===== *)
theory Dnlc
  imports Ring_List
begin

unbundle bit_operations_syntax

text \<open>
  The directory name lookup cache, \<^verbatim>\<open>sys/vfs_dnlc.c\<close>: entries on a ring in order of use and
  on a ring for each hash value. The links are functions from places to places: an entry of
  \<^verbatim>\<open>ncache\<close>, a header of \<^verbatim>\<open>nc_hash\<close> or \<^verbatim>\<open>nc_lru\<close>. A vnode and a credential structure are
  indices; the fields of a vnode that the cache reads come with the state. The statistics
  and the spin locks are left out, and nothing else runs while \<^verbatim>\<open>VN_RELE\<close> may sleep.
\<close>

section \<open>Data\<close>

abbreviation (input) NC_NAMLEN :: nat where "NC_NAMLEN \<equiv> 15"
abbreviation (input) NC_HASH_SIZE :: nat where "NC_HASH_SIZE \<equiv> 256"

datatype ncref = Ent nat | Hd nat | Lru

record ncache =
  nc_vp :: "nat option"
  nc_dp :: "nat option"
  nc_namlen :: nat
  nc_name :: "int list"      \<comment> \<open>\<^verbatim>\<open>NC_NAMLEN\<close> bytes\<close>
  nc_cred :: "nat option"    \<comment> \<open>\<open>None\<close> is \<^verbatim>\<open>NOCRED\<close>\<close>

datatype fstype = VNFS | VUFS | VOTHER

text \<open>\<open>inactive\<close> records the calls of \<^verbatim>\<open>VOP_INACTIVE\<close>, \<open>v_addr\<close> is the address of a vnode.\<close>

record dnst =
  hnext :: "ncref \<Rightarrow> ncref"
  hprev :: "ncref \<Rightarrow> ncref"
  lnext :: "ncref \<Rightarrow> ncref"
  lprev :: "ncref \<Rightarrow> ncref"
  ncache :: "ncache list"
  doingcache :: bool
  v_count :: "nat \<Rightarrow> int"
  v_addr :: "nat \<Rightarrow> int"
  v_fs :: "nat \<Rightarrow> fstype"
  r_rcred :: "nat \<Rightarrow> nat option"
  r_wcred :: "nat \<Rightarrow> nat option"
  i_dev :: "nat \<Rightarrow> int"
  cr_refs :: "nat \<Rightarrow> int"
  cr_freed :: "nat list"
  inactive :: "nat list"

abbreviation nce :: "dnst \<Rightarrow> nat \<Rightarrow> ncache" where "nce st i \<equiv> ncache st ! i"

definition upd_nc :: "nat \<Rightarrow> (ncache \<Rightarrow> ncache) \<Rightarrow> dnst \<Rightarrow> dnst" where
  "upd_nc i f st = st\<lparr>ncache := (ncache st)[i := f (nce st i)]\<rparr>"

text \<open>The fields of each kind of ring.\<close>

definition set_hnext :: "ncref \<Rightarrow> ncref \<Rightarrow> dnst \<Rightarrow> dnst" where "set_hnext r v st = st\<lparr>hnext := (hnext st)(r := v)\<rparr>"
definition set_hprev :: "ncref \<Rightarrow> ncref \<Rightarrow> dnst \<Rightarrow> dnst" where "set_hprev r v st = st\<lparr>hprev := (hprev st)(r := v)\<rparr>"
definition set_lnext :: "ncref \<Rightarrow> ncref \<Rightarrow> dnst \<Rightarrow> dnst" where "set_lnext r v st = st\<lparr>lnext := (lnext st)(r := v)\<rparr>"
definition set_lprev :: "ncref \<Rightarrow> ncref \<Rightarrow> dnst \<Rightarrow> dnst" where "set_lprev r v st = st\<lparr>lprev := (lprev st)(r := v)\<rparr>"

lemmas link_defs = set_hnext_def set_hprev_def set_lnext_def set_lprev_def

interpretation hashr: ring_links hnext hprev set_hnext set_hprev
  by unfold_locales (simp_all add: link_defs)

interpretation lrur: ring_links lnext lprev set_lnext set_lprev
  by unfold_locales (simp_all add: link_defs)

definition INS_HASH :: "ncref \<Rightarrow> ncref \<Rightarrow> dnst \<Rightarrow> dnst" where "INS_HASH = ring_insque hnext set_hnext set_hprev"
definition RM_HASH :: "ncref \<Rightarrow> dnst \<Rightarrow> dnst" where "RM_HASH = ring_remque hnext hprev set_hnext set_hprev"
definition INS_LRU :: "ncref \<Rightarrow> ncref \<Rightarrow> dnst \<Rightarrow> dnst" where "INS_LRU = ring_insque lnext set_lnext set_lprev"
definition RM_LRU :: "ncref \<Rightarrow> dnst \<Rightarrow> dnst" where "RM_LRU = ring_remque lnext lprev set_lnext set_lprev"
definition NULL_HASH :: "ncref \<Rightarrow> dnst \<Rightarrow> dnst" where "NULL_HASH r st = set_hnext r r (set_hprev r r st)"

definition dnlc_init :: "dnst \<Rightarrow> dnst" where
  "dnlc_init st =
     fold (\<lambda>h. NULL_HASH (Hd h)) [0..<NC_HASH_SIZE]
       (fold (\<lambda>i s. upd_nc i (\<lambda>e. e\<lparr>nc_dp := None, nc_vp := None, nc_cred := None\<rparr>) (NULL_HASH (Ent i) (INS_LRU (Ent i) Lru s)))
         [0..<length (ncache st)] (set_lprev Lru Lru (set_lnext Lru Lru st)))"

section \<open>References\<close>

definition VN_HOLD :: "nat \<Rightarrow> dnst \<Rightarrow> dnst" where
  "VN_HOLD v st = st\<lparr>v_count := (v_count st)(v := v_count st v + 1)\<rparr>"

definition vn_rele :: "nat option \<Rightarrow> dnst \<Rightarrow> dnst outcome" where
  "vn_rele vp st =
     (case vp of
        None \<Rightarrow> Fault
      | Some v \<Rightarrow>
          (let c = v_count st v - 1; st1 = st\<lparr>v_count := (v_count st)(v := c)\<rparr>
           in if c = -1 then Panic ''vn_rele''
              else Ret (if c = 0 then st1\<lparr>inactive := inactive st1 @ [v]\<rparr> else st1)))"

text \<open>
  \<^verbatim>\<open>crhold\<close> and \<^verbatim>\<open>crfree\<close>, called where there are credentials. The count is a signed short;
  \<open>cr_freed\<close> is the list of free structures.
\<close>

definition nc_crhold :: "nat option \<Rightarrow> dnst \<Rightarrow> dnst" where
  "nc_crhold cred st = (case cred of None \<Rightarrow> st | Some c \<Rightarrow> st\<lparr>cr_refs := (cr_refs st)(c := to_s16 (cr_refs st c + 1))\<rparr>)"

definition nc_crfree :: "nat option \<Rightarrow> dnst \<Rightarrow> dnst outcome" where
  "nc_crfree cred st =
     (case cred of
        None \<Rightarrow> Ret st
      | Some c \<Rightarrow>
          (let r = cr_refs st c in
           if r \<le> 0 then
             (if r \<ge> -1 then Panic ''crfree: freeing free credential struct''
              else Panic ''crfree: credential reference overflow'')
           else let st1 = st\<lparr>cr_refs := (cr_refs st)(c := r - 1)\<rparr>
                in Ret (if r - 1 = 0 then st1\<lparr>cr_freed := c # cr_freed st1\<rparr> else st1)))"

section \<open>Searching\<close>

text \<open>\<open>name\<close> is not empty: for an empty one the macro reads the byte in front of it.\<close>

definition NC_HASH :: "int list \<Rightarrow> nat \<Rightarrow> int \<Rightarrow> nat" where
  "NC_HASH name namlen addr = nat ((hd name + name ! (namlen - 1) + int namlen + addr) AND 255)"

datatype credarg = ANYCRED | Cred "nat option"

definition nc_match :: "nat \<Rightarrow> int list \<Rightarrow> credarg \<Rightarrow> ncache \<Rightarrow> bool" where
  "nc_match dp name cred e \<longleftrightarrow> nc_dp e = Some dp \<and> nc_namlen e = length name \<and>
     (cred = ANYCRED \<or> cred = Cred (nc_cred e)) \<and> hd (nc_name e) = hd name \<and> take (length name) (nc_name e) = name"

text \<open>A test of an entry, on places.\<close>

fun at_ent :: "dnst \<Rightarrow> (ncache \<Rightarrow> bool) \<Rightarrow> ncref \<Rightarrow> bool" where
  "at_ent st P (Ent i) \<longleftrightarrow> P (nce st i)"
| "at_ent st P _ \<longleftrightarrow> False"

definition dnlc_search :: "nat \<Rightarrow> int list \<Rightarrow> nat \<Rightarrow> credarg \<Rightarrow> dnst \<Rightarrow> ncref option outcome" where
  "dnlc_search dp name hash cred st =
     ring_find (length (ncache st)) (hnext st) (at_ent st (nc_match dp name cred)) (Hd hash) (hnext st (Hd hash))"

section \<open>Entering and looking up\<close>

text \<open>Whether the old credentials of a reused entry are released, for one of its vnodes.\<close>

definition drops_cred :: "nat option \<Rightarrow> nat option \<Rightarrow> dnst \<Rightarrow> bool" where
  "drops_cred vp cred st \<longleftrightarrow>
     (case vp of None \<Rightarrow> False
      | Some v \<Rightarrow> cred \<noteq> None \<and> v_fs st v = VNFS \<and> (cred \<noteq> r_rcred st v \<or> cred \<noteq> r_wcred st v))"

definition rele_opt :: "nat option \<Rightarrow> dnst \<Rightarrow> dnst outcome" where
  "rele_opt vp st = (if vp = None then Ret st else vn_rele vp st)"

definition dnlc_backout :: "nat \<Rightarrow> nat \<Rightarrow> nat option \<Rightarrow> dnst \<Rightarrow> dnst outcome" where
  "dnlc_backout dp vp cred st =
     obind (vn_rele (Some dp) st) (\<lambda>st1. obind (vn_rele (Some vp) st1) (\<lambda>st2. nc_crfree cred st2))"

text \<open>Take the least recently used entry \<open>i\<close> over.\<close>

definition dnlc_reuse :: "nat \<Rightarrow> nat \<Rightarrow> int list \<Rightarrow> nat \<Rightarrow> nat option \<Rightarrow> nat \<Rightarrow> dnst \<Rightarrow> dnst outcome" where
  "dnlc_reuse i dp name vp cred hash st =
     (let e = nce st i;
          st1 = RM_HASH (Ent i) (RM_LRU (Ent i) st);
          st2 = upd_nc i (\<lambda>e. e\<lparr>nc_dp := Some dp, nc_vp := Some vp, nc_namlen := length name,
                  nc_name := name @ drop (length name) (nc_name e), nc_cred := cred\<rparr>) st1;
          st3 = INS_LRU (Ent i) (lprev st2 Lru) st2;
          st4 = INS_HASH (Ent i) (Hd hash) st3;
          old = (if drops_cred (nc_dp e) (nc_cred e) st \<or> drops_cred (nc_vp e) (nc_cred e) st then nc_cred e else None)
      in obind (nc_crfree old st4) (\<lambda>st5. obind (rele_opt (nc_dp e) st5) (rele_opt (nc_vp e))))"

definition dnlc_enter :: "nat \<Rightarrow> int list \<Rightarrow> nat \<Rightarrow> nat option \<Rightarrow> dnst \<Rightarrow> dnst outcome" where
  "dnlc_enter dp name vp cred st =
     (if \<not> doingcache st \<or> length name > NC_NAMLEN then Ret st
      else if (case cred of None \<Rightarrow> False | Some c \<Rightarrow> cr_refs st c \<ge> 0x4000) then Ret st
      else if name = [] then Fault
      else
        (let hash = NC_HASH name (length name) (v_addr st dp);
             st1 = nc_crhold cred (VN_HOLD vp (VN_HOLD dp st))
         in obind (dnlc_search dp name hash (Cred cred) st1) (\<lambda>r.
              if r \<noteq> None then dnlc_backout dp vp cred st1
              else (case lnext st1 Lru of
                      Ent i \<Rightarrow> dnlc_reuse i dp name vp cred hash st1
                    | _ \<Rightarrow> dnlc_backout dp vp cred st1))))"

definition dnlc_lookup :: "nat \<Rightarrow> int list \<Rightarrow> credarg \<Rightarrow> dnst \<Rightarrow> (nat option \<times> dnst) outcome" where
  "dnlc_lookup dp name cred st =
     (if \<not> doingcache st \<or> length name > NC_NAMLEN then Ret (None, st)
      else if name = [] then Fault
      else
        (let hash = NC_HASH name (length name) (v_addr st dp)
         in obind (dnlc_search dp name hash cred st) (\<lambda>r.
              case r of
                None \<Rightarrow> Ret (None, st)
              | Some (Ent i) \<Rightarrow>
                  (let st1 = RM_LRU (Ent i) st;
                       st2 = INS_LRU (Ent i) (lprev st1 Lru) st1;
                       st3 = (if hprev st2 (Ent i) \<noteq> Hd hash
                              then (let p = hprev st2 (hprev st2 (Ent i)) in INS_HASH (Ent i) p (RM_HASH (Ent i) st2))
                              else st2)
                   in Ret (nc_vp (nce st3 i), st3))
              | Some _ \<Rightarrow> Fault)))"

section \<open>Removing\<close>

definition dnlc_rm :: "nat \<Rightarrow> dnst \<Rightarrow> dnst outcome" where
  "dnlc_rm i st =
     (let e = nce st i;
          st1 = upd_nc i (\<lambda>e. e\<lparr>nc_dp := None, nc_vp := None, nc_cred := None\<rparr>) st;
          st2 = NULL_HASH (Ent i) (INS_LRU (Ent i) Lru (RM_HASH (Ent i) (RM_LRU (Ent i) st1)))
      in obind (vn_rele (nc_dp e) st2) (\<lambda>st3. obind (vn_rele (nc_vp e) st3) (nc_crfree (nc_cred e))))"

text \<open>
  The loops take an entry out and start again, until none is found; the first argument
  counts the entries.
\<close>

fun rm_loop :: "nat \<Rightarrow> (dnst \<Rightarrow> ncref option outcome) \<Rightarrow> dnst \<Rightarrow> dnst outcome" where
  "rm_loop n finder st =
     obind (finder st) (\<lambda>r. case r of
       None \<Rightarrow> Ret st
     | Some (Ent i) \<Rightarrow> (case n of 0 \<Rightarrow> Fault | Suc k \<Rightarrow> obind (dnlc_rm i st) (rm_loop k finder))
     | Some _ \<Rightarrow> Fault)"

declare rm_loop.simps [simp del]

definition dnlc_remove :: "nat \<Rightarrow> int list \<Rightarrow> dnst \<Rightarrow> dnst outcome" where
  "dnlc_remove dp name st =
     (if length name > NC_NAMLEN then Ret st else if name = [] then Fault
      else rm_loop (length (ncache st)) (dnlc_search dp name (NC_HASH name (length name) (v_addr st dp)) ANYCRED) st)"

text \<open>The first entry of the first hash ring that is not empty.\<close>

definition purge_find :: "dnst \<Rightarrow> ncref option outcome" where
  "purge_find st =
     (case find (\<lambda>h. hnext st (Hd h) \<noteq> Hd h) [0..<NC_HASH_SIZE] of
        None \<Rightarrow> Ret None
      | Some h \<Rightarrow>
          (case hnext st (Hd h) of
             Ent i \<Rightarrow>
               if nc_dp (nce st i) = None \<or> nc_vp (nce st i) = None then Panic ''dnlc_purge: zero vp''
               else Ret (Some (Ent i))
           | r \<Rightarrow> Ret (Some r)))"

definition dnlc_purge :: "dnst \<Rightarrow> dnst outcome" where
  "dnlc_purge st = rm_loop (length (ncache st)) purge_find st"

definition lru_find :: "(ncache \<Rightarrow> bool) \<Rightarrow> dnst \<Rightarrow> ncref option outcome" where
  "lru_find P st = ring_find (length (ncache st)) (lnext st) (at_ent st P) Lru (lnext st Lru)"

definition dnlc_purge_vp :: "nat \<Rightarrow> dnst \<Rightarrow> dnst outcome" where
  "dnlc_purge_vp v st = rm_loop (length (ncache st)) (lru_find (\<lambda>e. nc_dp e = Some v \<or> nc_vp e = Some v)) st"

definition dnlc_purge_dev :: "int \<Rightarrow> dnst \<Rightarrow> dnst outcome" where
  "dnlc_purge_dev dev st =
     rm_loop (length (ncache st))
       (\<lambda>s. lru_find (\<lambda>e. case nc_vp e of None \<Rightarrow> False | Some v \<Rightarrow> v_fs s v = VUFS \<and> i_dev s v = dev) s) st"

definition dnlc_purge1 :: "dnst \<Rightarrow> (bool \<times> dnst) outcome" where
  "dnlc_purge1 st =
     obind (lru_find (\<lambda>e. nc_dp e \<noteq> None) st) (\<lambda>r. case r of
       None \<Rightarrow> Ret (False, st)
     | Some (Ent i) \<Rightarrow> obind (dnlc_rm i st) (\<lambda>st1. Ret (True, st1))
     | Some _ \<Rightarrow> Fault)"

end
