(* ===== verification/Dnlc_Rings.thy ===== *)
theory Dnlc_Rings
  imports Dnlc
begin

text \<open>
  The rings of the name cache as lists of entries, and what the operations on their links do.
\<close>

lemmas dn_links = hashr.links lrur.links

lemma link_fields [simp]:
  "ncache (set_hnext r v st) = ncache st" "ncache (set_hprev r v st) = ncache st"
  "ncache (set_lnext r v st) = ncache st" "ncache (set_lprev r v st) = ncache st"
  "hnext (set_lnext r v st) = hnext st" "hprev (set_lnext r v st) = hprev st" "hnext (set_lprev r v st) = hnext st"
  "hprev (set_lprev r v st) = hprev st" "lnext (set_hnext r v st) = lnext st" "lprev (set_hnext r v st) = lprev st"
  "lnext (set_hprev r v st) = lnext st" "lprev (set_hprev r v st) = lprev st"
  by (simp_all add: link_defs)

lemma hash_fields [simp]:
  "ncache (INS_HASH e p st) = ncache st" "lnext (INS_HASH e p st) = lnext st" "lprev (INS_HASH e p st) = lprev st"
  "ncache (RM_HASH e st) = ncache st" "lnext (RM_HASH e st) = lnext st" "lprev (RM_HASH e st) = lprev st"
  "ncache (NULL_HASH e st) = ncache st" "lnext (NULL_HASH e st) = lnext st" "lprev (NULL_HASH e st) = lprev st"
  by (simp_all add: INS_HASH_def RM_HASH_def NULL_HASH_def ring_insque_def ring_remque_def Let_def)

lemma lru_fields [simp]:
  "ncache (INS_LRU e p st) = ncache st" "hnext (INS_LRU e p st) = hnext st" "hprev (INS_LRU e p st) = hprev st"
  "ncache (RM_LRU e st) = ncache st" "hnext (RM_LRU e st) = hnext st" "hprev (RM_LRU e st) = hprev st"
  by (simp_all add: INS_LRU_def RM_LRU_def ring_insque_def ring_remque_def Let_def)

lemma upd_nc_fields [simp]:
  "hnext (upd_nc i f st) = hnext st" "hprev (upd_nc i f st) = hprev st" "lnext (upd_nc i f st) = lnext st"
  "lprev (upd_nc i f st) = lprev st" "length (ncache (upd_nc i f st)) = length (ncache st)"
  by (simp_all add: upd_nc_def)

text \<open>The fields that the operations on links and entries leave alone.\<close>

definition same_outer :: "dnst \<Rightarrow> dnst \<Rightarrow> bool" where
  "same_outer st st' \<longleftrightarrow> doingcache st' = doingcache st \<and> v_count st' = v_count st \<and> v_addr st' = v_addr st \<and> v_fs st' = v_fs st \<and>
     r_rcred st' = r_rcred st \<and> r_wcred st' = r_wcred st \<and> i_dev st' = i_dev st \<and> cr_refs st' = cr_refs st \<and> cr_freed st' = cr_freed st \<and> inactive st' = inactive st"

lemma same_outer_ops [simp]:
  "same_outer st st" "same_outer st (INS_HASH e p st') = same_outer st st'" "same_outer st (RM_HASH e st') = same_outer st st'"
  "same_outer st (NULL_HASH e st') = same_outer st st'" "same_outer st (INS_LRU e p st') = same_outer st st'"
  "same_outer st (RM_LRU e st') = same_outer st st'" "same_outer st (upd_nc i f st') = same_outer st st'"
  by (simp_all add: same_outer_def INS_HASH_def RM_HASH_def NULL_HASH_def INS_LRU_def RM_LRU_def ring_insque_def ring_remque_def
      Let_def link_defs upd_nc_def)

lemma Ent_image [simp]: "Ent i \<in> Ent ` S \<longleftrightarrow> i \<in> S" "Hd h \<notin> Ent ` S" "Lru \<notin> Ent ` S" "inj_on Ent S"
    "Ent ` S \<inter> Ent ` T = Ent ` (S \<inter> T)"
  by (auto simp: inj_on_def)

section \<open>The hash rings\<close>

text \<open>
  \<open>C h\<close> are the entries with hash value \<open>h\<close>. An entry in no list is linked to itself, but
  for the entries in \<open>X\<close>, which are being moved.
\<close>

definition hrep :: "nat set \<Rightarrow> dnst \<Rightarrow> (nat \<Rightarrow> nat list) \<Rightarrow> bool" where
  "hrep X st C \<longleftrightarrow> (\<forall>h. hashr.rings st (Hd h) (map Ent (C h))) \<and> (\<forall>g h. g \<noteq> h \<longrightarrow> set (C g) \<inter> set (C h) = {}) \<and>
     (\<forall>i \<in> X. \<forall>h. i \<notin> set (C h)) \<and> (\<forall>i. i \<notin> X \<longrightarrow> (\<forall>h. i \<notin> set (C h)) \<longrightarrow> hashr.rings st (Ent i) [])"

lemma hrep_cong: "hnext st' = hnext st \<Longrightarrow> hprev st' = hprev st \<Longrightarrow> hrep X st' C = hrep X st C"
  by (simp add: hrep_def)

lemma hrep_remove:
  assumes r: "hrep {} st C" and C: "C h = a @ i # b"
  shows "hrep {i} (RM_HASH (Ent i) st) (C(h := a @ b))"
proof -
  let ?C = "C(h := a @ b)"
  have rg: "\<And>g. hashr.rings st (Hd g) (map Ent (C g))" and dj: "\<And>f g. f \<noteq> g \<Longrightarrow> set (C f) \<inter> set (C g) = {}"
    and sf: "\<And>j. \<forall>g. j \<notin> set (C g) \<Longrightarrow> hashr.rings st (Ent j) []" using r by (auto simp: hrep_def)
  have ri: "hashr.rings st (Hd h) (map Ent a @ Ent i # map Ent b)" using rg [of h] C by simp
  have di: "distinct (a @ i # b)" using rg [of h] C by (simp add: ring_def distinct_map)
  have "hashr.rings (RM_HASH (Ent i) st) (Hd g) (map Ent (?C g))" for g
  proof (cases "g = h")
    case True
    then show ?thesis using hashr.remque [OF ri] by (simp add: RM_HASH_def)
  next
    case False
    have "set (Hd g # map Ent (C g)) \<inter> set (Hd h # map Ent a @ Ent i # map Ent b) = {}"
      using False dj [OF False] C by auto
    from hashr.remque_other [OF ri rg this] show ?thesis using False by (simp add: RM_HASH_def)
  qed
  moreover have "i \<notin> set (?C g)" for g using dj [of g h] C di by auto
  moreover have "hashr.rings (RM_HASH (Ent i) st) (Ent j) []" if j: "j \<noteq> i" "\<forall>g. j \<notin> set (?C g)" for j
  proof -
    have "j \<notin> set (C g)" for g using j(1) j(2) [rule_format, of g] C by (cases "g = h") simp_all
    then have out: "\<forall>g. j \<notin> set (C g)" by blast
    then have "set (Ent j # []) \<inter> set (Hd h # map Ent a @ Ent i # map Ent b) = {}" using C j(1) out [rule_format, of h] by auto
    from hashr.remque_other [OF ri sf [OF out] this] show ?thesis by (simp add: RM_HASH_def)
  qed
  moreover have "set (?C f) \<inter> set (?C g) = {}" if "f \<noteq> g" for f g
    using dj [OF that] dj [of h g] dj [of f h] C that by (cases "f = h"; cases "g = h") auto
  ultimately show ?thesis unfolding hrep_def by blast
qed

lemma hrep_remove_self:
  assumes r: "hrep {} st C" and i: "\<And>h. i \<notin> set (C h)"
  shows "hrep {i} (RM_HASH (Ent i) st) C"
proof -
  have "\<forall>i. i \<notin> {} \<longrightarrow> (\<forall>h. i \<notin> set (C h)) \<longrightarrow> hashr.rings st (Ent i) []" using r unfolding hrep_def by (elim conjE)
  then have "hashr.rings st (Ent i) []" using i by simp
  then have "hnext st (Ent i) = Ent i" "hprev st (Ent i) = Ent i" by simp_all
  note s = hashr.remque_self [OF this]
  have "hrep {} (RM_HASH (Ent i) st) C" using r hrep_cong [of "RM_HASH (Ent i) st" st] by (simp add: RM_HASH_def s)
  moreover have "hrep {} s' C \<Longrightarrow> hrep {i} s' C" for s' using i unfolding hrep_def by (elim conjE) (intro conjI ballI allI impI; simp)
  ultimately show ?thesis by blast
qed

lemma hrep_null:
  assumes r: "hrep {i} st C"
  shows "hrep {} (NULL_HASH (Ent i) st) C"
proof -
  have rg: "\<And>h. hashr.rings st (Hd h) (map Ent (C h))" and sf: "\<And>j. j \<noteq> i \<Longrightarrow> \<forall>h. j \<notin> set (C h) \<Longrightarrow> hashr.rings st (Ent j) []"
    and iC: "\<And>h. i \<notin> set (C h)" and dj: "\<And>f g. f \<noteq> g \<Longrightarrow> set (C f) \<inter> set (C g) = {}" using r by (simp_all add: hrep_def)
  let ?s = "NULL_HASH (Ent i) st"
  have l: "hnext ?s x = (if x = Ent i then Ent i else hnext st x) \<and> hprev ?s x = (if x = Ent i then Ent i else hprev st x)" for x
    by (simp add: NULL_HASH_def dn_links)
  have "hashr.rings ?s (Hd h) (map Ent (C h))" for h
  proof (rule ring_frame [OF rg])
    fix x assume "x \<in> insert (Hd h) (set (map Ent (C h)))"
    then have "x \<noteq> Ent i" using iC [of h] by auto
    then show "hnext ?s x = hnext st x \<and> hprev ?s x = hprev st x" by (simp add: l)
  qed
  moreover have "hashr.rings ?s (Ent j) []" if "\<forall>h. j \<notin> set (C h)" for j
    using sf [OF _ that] by (cases "j = i") (simp_all add: l)
  ultimately show ?thesis using dj unfolding hrep_def by simp
qed

lemma hrep_insert:
  assumes r: "hrep {i} st C" and C: "C h = a @ b"
  shows "hrep {} (INS_HASH (Ent i) (last (Hd h # map Ent a)) st) (C(h := a @ i # b))"
proof -
  let ?C = "C(h := a @ i # b)" and ?s = "INS_HASH (Ent i) (last (Hd h # map Ent a)) st"
  have rg: "\<And>g. hashr.rings st (Hd g) (map Ent (C g))" and dj: "\<And>f g. f \<noteq> g \<Longrightarrow> set (C f) \<inter> set (C g) = {}"
    and sf: "\<And>j. j \<noteq> i \<Longrightarrow> \<forall>g. j \<notin> set (C g) \<Longrightarrow> hashr.rings st (Ent j) []" and iC: "\<And>g. i \<notin> set (C g)"
    using r by (auto simp: hrep_def)
  have ri: "hashr.rings st (Hd h) (map Ent a @ map Ent b)" using rg [of h] C by simp
  have ie: "Ent i \<notin> set (Hd h # map Ent a @ map Ent b)" using iC [of h] C by auto
  have "hashr.rings ?s (Hd g) (map Ent (?C g))" for g
  proof (cases "g = h")
    case True
    then show ?thesis using hashr.insque [OF ri ie] by (simp add: INS_HASH_def)
  next
    case False
    have "set (Hd g # map Ent (C g)) \<inter> insert (Ent i) (set (Hd h # map Ent a @ map Ent b)) = {}"
      using False dj [OF False] C iC [of g] by auto
    from hashr.insque_other [OF ri ie rg this] show ?thesis using False by (simp add: INS_HASH_def)
  qed
  moreover have "hashr.rings ?s (Ent j) []" if j: "\<forall>g. j \<notin> set (?C g)" for j
  proof -
    have ji: "j \<noteq> i" using j [rule_format, of h] by auto
    have out: "\<forall>g. j \<notin> set (C g)"
    proof
      fix g show "j \<notin> set (C g)" using j [rule_format, of g] C by (cases "g = h") auto
    qed
    have "set (Ent j # []) \<inter> insert (Ent i) (set (Hd h # map Ent a @ map Ent b)) = {}"
      using ji out [rule_format, of h] C by auto
    from hashr.insque_other [OF ri ie sf [OF ji out] this] show ?thesis by (simp add: INS_HASH_def)
  qed
  moreover have "set (?C f) \<inter> set (?C g) = {}" if "f \<noteq> g" for f g
    using dj [OF that] dj [of h g] dj [of f h] iC [of f] iC [of g] C that by (cases "f = h"; cases "g = h") auto
  ultimately show ?thesis unfolding hrep_def by blast
qed

section \<open>The ring in order of use\<close>

abbreviation lrep :: "dnst \<Rightarrow> nat list \<Rightarrow> bool" where
  "lrep st Q \<equiv> lrur.rings st Lru (map Ent Q)"

lemma lrep_remove: "lrep st (a @ i # b) \<Longrightarrow> lrep (RM_LRU (Ent i) st) (a @ b)"
  using lrur.remque [of st Lru "map Ent a" "Ent i" "map Ent b"] by (simp add: RM_LRU_def)

lemma lrep_front: "lrep st Q \<Longrightarrow> i \<notin> set Q \<Longrightarrow> lrep (INS_LRU (Ent i) Lru st) (i # Q)"
  using lrur.insque [of st Lru "[]" "map Ent Q" "Ent i"] by (auto simp: INS_LRU_def)

lemma lrep_back: "lrep st Q \<Longrightarrow> i \<notin> set Q \<Longrightarrow> lrep (INS_LRU (Ent i) (lprev st Lru) st) (Q @ [i])"
proof -
  assume r: "lrep st Q" and i: "i \<notin> set Q"
  have "lprev st Lru = last (Lru # map Ent Q)"
    using r by (cases Q rule: rev_cases) (auto simp: ring_def)
  moreover have "lrur.rings (ring_insque lnext set_lnext set_lprev (Ent i) (last (Lru # map Ent Q)) st) Lru (map Ent Q @ [Ent i])"
    using lrur.insque [of st Lru "map Ent Q" "[]" "Ent i"] r i by simp
  ultimately show ?thesis by (simp add: INS_LRU_def)
qed

lemma lrep_next: "lrep st Q \<Longrightarrow> lnext st Lru = (if Q = [] then Lru else Ent (hd Q))"
  by (cases Q) (auto simp: ring_def)

end
