(* ===== verification/Dnlc_State.thy ===== *)
theory Dnlc_State
  imports Dnlc_Rings
begin

text \<open>
  The name cache as a list of names in order of use, the references it holds, and the
  effect of searching, releasing and removing.
\<close>

section \<open>Invariant and abstraction\<close>

type_synonym nckey = "nat \<times> int list \<times> nat option"  \<comment> \<open>directory, name, credentials\<close>

abbreviation valid :: "ncache \<Rightarrow> bool" where "valid e \<equiv> nc_dp e \<noteq> None"

definition key_of :: "ncache \<Rightarrow> nckey" where
  "key_of e = (the (nc_dp e), take (nc_namlen e) (nc_name e), nc_cred e)"

definition hash_key :: "dnst \<Rightarrow> nckey \<Rightarrow> nat" where
  "hash_key st k = (case k of (dp, name, c) \<Rightarrow> NC_HASH name (length name) (v_addr st dp))"

definition entry_ok :: "ncache \<Rightarrow> bool" where
  "entry_ok e \<longleftrightarrow> length (nc_name e) = NC_NAMLEN \<and> (nc_dp e = None \<longleftrightarrow> nc_vp e = None) \<and> (nc_dp e = None \<longrightarrow> nc_cred e = None) \<and>
     (valid e \<longrightarrow> 1 \<le> nc_namlen e \<and> nc_namlen e \<le> NC_NAMLEN)"

text \<open>\<open>Q\<close> is the order of use, unused entries first.\<close>

definition dn_rep :: "dnst \<Rightarrow> nat list \<Rightarrow> (nat \<Rightarrow> nat list) \<Rightarrow> bool" where
  "dn_rep st Q C \<longleftrightarrow> lrep st Q \<and> set Q = {..<length (ncache st)} \<and> hrep {} st C \<and>
     (\<forall>h. set (C h) = {i. i < length (ncache st) \<and> valid (nce st i) \<and> hash_key st (key_of (nce st i)) = h}) \<and>
     (\<forall>i < length (ncache st). entry_ok (nce st i)) \<and>
     inj_on (\<lambda>i. key_of (nce st i)) {i. i < length (ncache st) \<and> valid (nce st i)} \<and>
     (\<exists>a b. Q = a @ b \<and> (\<forall>i \<in> set a. \<not> valid (nce st i)) \<and> (\<forall>i \<in> set b. valid (nce st i)))"

definition names :: "dnst \<Rightarrow> nat list \<Rightarrow> (nckey \<times> nat) list" where
  "names st Q = map (\<lambda>i. (key_of (nce st i), the (nc_vp (nce st i)))) (filter (\<lambda>i. valid (nce st i)) Q)"

definition caches :: "dnst \<Rightarrow> (nckey \<times> nat) list \<Rightarrow> bool" where
  "caches st l \<longleftrightarrow> (\<exists>Q C. dn_rep st Q C \<and> l = names st Q)"

section \<open>References\<close>

text \<open>The references of the cache to a vnode, and what is left of its count.\<close>

definition vrefs :: "ncache list \<Rightarrow> nat \<Rightarrow> int" where
  "vrefs es v = (\<Sum>e\<leftarrow>es. of_bool (nc_dp e = Some v) + of_bool (nc_vp e = Some v))"

definition others :: "dnst \<Rightarrow> nat \<Rightarrow> int" where
  "others st v = v_count st v - vrefs (ncache st) v"

lemma sum_list_upd: "i < length es \<Longrightarrow> (\<Sum>e\<leftarrow>es[i := x]. f e) = (\<Sum>e\<leftarrow>es. f e) - f (es ! i) + (f x :: int)"
  by (induction es arbitrary: i) (auto split: nat.split)

lemma vrefs_upd: "i < length es \<Longrightarrow> vrefs (es[i := x]) v = vrefs es v
    - of_bool (nc_dp (es ! i) = Some v) - of_bool (nc_vp (es ! i) = Some v) + of_bool (nc_dp x = Some v) + of_bool (nc_vp x = Some v)"
  by (simp add: vrefs_def sum_list_upd)

lemma vrefs_nonneg: "0 \<le> vrefs es v"
  unfolding vrefs_def by (rule sum_list_nonneg) auto

text \<open>The same for credentials.\<close>

definition crefs :: "ncache list \<Rightarrow> nat \<Rightarrow> int" where
  "crefs es c = (\<Sum>e\<leftarrow>es. of_bool (nc_cred e = Some c))"

definition cothers :: "dnst \<Rightarrow> nat \<Rightarrow> int" where
  "cothers st c = cr_refs st c - crefs (ncache st) c"

lemma crefs_upd: "i < length es \<Longrightarrow> crefs (es[i := x]) c = crefs es c - of_bool (nc_cred (es ! i) = Some c) + of_bool (nc_cred x = Some c)"
  by (simp add: crefs_def sum_list_upd)

lemma crefs_nonneg: "0 \<le> crefs es c"
  unfolding crefs_def by (rule sum_list_nonneg) auto

text \<open>An entry holds what it refers to.\<close>

lemma vrefs_entry: "i < length es \<Longrightarrow> of_bool (nc_dp (es ! i) = Some v) + of_bool (nc_vp (es ! i) = Some v) \<le> vrefs es v"
  using vrefs_upd [of i es "(es ! i)\<lparr>nc_dp := None, nc_vp := None\<rparr>" v] vrefs_nonneg [of "es[i := (es ! i)\<lparr>nc_dp := None, nc_vp := None\<rparr>]" v] by simp

lemma crefs_entry: "i < length es \<Longrightarrow> of_bool (nc_cred (es ! i) = Some c) \<le> crefs es c"
  using crefs_upd [of i es "(es ! i)\<lparr>nc_cred := None\<rparr>" c] crefs_nonneg [of "es[i := (es ! i)\<lparr>nc_cred := None\<rparr>]" c] by simp

text \<open>What taking and releasing references leaves alone.\<close>

definition same_cache :: "dnst \<Rightarrow> dnst \<Rightarrow> bool" where
  "same_cache st st' \<longleftrightarrow> hnext st' = hnext st \<and> hprev st' = hprev st \<and> lnext st' = lnext st \<and> lprev st' = lprev st \<and>
     ncache st' = ncache st \<and> doingcache st' = doingcache st \<and> v_addr st' = v_addr st \<and> v_fs st' = v_fs st \<and>
     r_rcred st' = r_rcred st \<and> r_wcred st' = r_wcred st \<and> i_dev st' = i_dev st"

lemma same_cache_trans: "same_cache s t \<Longrightarrow> same_cache t u \<Longrightarrow> same_cache s u"
  by (simp add: same_cache_def)

lemma hash_key_cong: "v_addr st' = v_addr st \<Longrightarrow> hash_key st' = hash_key st"
  by (simp add: hash_key_def fun_eq_iff)

lemma same_cache_rep:
  assumes "same_cache st st'"
  shows "dn_rep st' Q C = dn_rep st Q C" and "names st' Q = names st Q"
proof -
  have "hrep {} st' C = hrep {} st C" "hash_key st' = hash_key st"
    by (rule hrep_cong hash_key_cong; use assms in \<open>simp add: same_cache_def\<close>)+
  then show "dn_rep st' Q C = dn_rep st Q C" "names st' Q = names st Q"
    using assms by (simp_all add: same_cache_def dn_rep_def names_def)
qed

definition dec_opt :: "nat option \<Rightarrow> (nat \<Rightarrow> int) \<Rightarrow> nat \<Rightarrow> int" where
  "dec_opt r f = (\<lambda>x. f x - of_bool (r = Some x))"

lemma vn_rele_ok:
  assumes "1 \<le> v_count st v"
  obtains st' where "vn_rele (Some v) st = Ret st'" "same_cache st st'" "v_count st' = dec_opt (Some v) (v_count st)" "cr_refs st' = cr_refs st"
  using assms by (auto simp: vn_rele_def Let_def same_cache_def dec_opt_def fun_eq_iff)

lemma rele_opt_ok:
  assumes "\<And>v. vp = Some v \<Longrightarrow> 1 \<le> v_count st v"
  obtains st' where "rele_opt vp st = Ret st'" "same_cache st st'" "v_count st' = dec_opt vp (v_count st)" "cr_refs st' = cr_refs st"
proof (cases vp)
  case None
  then show ?thesis using that [of st] by (simp add: rele_opt_def same_cache_def dec_opt_def)
next
  case (Some v)
  then obtain st' where "vn_rele (Some v) st = Ret st'" "same_cache st st'" "v_count st' = dec_opt (Some v) (v_count st)" "cr_refs st' = cr_refs st"
    using assms vn_rele_ok by blast
  then show ?thesis using that [of st'] Some by (simp add: rele_opt_def)
qed

lemma nc_crfree_ok:
  assumes "\<And>c. cred = Some c \<Longrightarrow> 1 \<le> cr_refs st c"
  obtains st' where "nc_crfree cred st = Ret st'" "same_cache st st'" "v_count st' = v_count st" "cr_refs st' = dec_opt cred (cr_refs st)"
proof (cases cred)
  case None
  then show ?thesis using that [of st] by (simp add: nc_crfree_def same_cache_def dec_opt_def)
next
  case (Some c)
  have "1 \<le> cr_refs st c" using assms Some by simp
  then show ?thesis using that Some by (auto simp: nc_crfree_def Let_def same_cache_def dec_opt_def fun_eq_iff)
qed

section \<open>Searching\<close>

lemma match_key:
  assumes "entry_ok e" and "name \<noteq> []"
  shows "nc_match dp name (Cred c) e \<longleftrightarrow> valid e \<and> key_of e = (dp, name, c)"
    and "nc_match dp name ANYCRED e \<longleftrightarrow> valid e \<and> fst (key_of e) = dp \<and> fst (snd (key_of e)) = name"
proof -
  have k: "nc_namlen e = length name \<and> hd (nc_name e) = hd name \<and> take (length name) (nc_name e) = name \<longleftrightarrow> take (nc_namlen e) (nc_name e) = name"
    if "valid e"
  proof
    assume t: "take (nc_namlen e) (nc_name e) = name"
    have "nc_namlen e \<le> length (nc_name e)" using assms(1) that by (simp add: entry_ok_def)
    then have n: "length name = nc_namlen e" using t by (metis length_take min_absorb2)
    have "hd name = hd (nc_name e)" using assms(2) n unfolding t [symmetric] by (intro hd_take) auto
    then show "nc_namlen e = length name \<and> hd (nc_name e) = hd name \<and> take (length name) (nc_name e) = name" using t n by simp
  qed simp
  show "nc_match dp name (Cred c) e \<longleftrightarrow> valid e \<and> key_of e = (dp, name, c)"
    using k by (cases "nc_dp e") (auto simp: nc_match_def key_of_def)
  show "nc_match dp name ANYCRED e \<longleftrightarrow> valid e \<and> fst (key_of e) = dp \<and> fst (snd (key_of e)) = name"
    using k by (cases "nc_dp e") (auto simp: nc_match_def key_of_def)
qed

lemma find_map: "find P (map f xs) = map_option f (find (P \<circ> f) xs)"
  by (induction xs) auto

lemma lrep_distinct: "lrep st Q \<Longrightarrow> distinct Q"
  by (simp add: ring_def distinct_map)

lemma hash_list:
  assumes "dn_rep st Q C"
  shows "distinct (C h)" "length (C h) \<le> length (ncache st)"
proof -
  have r: "hashr.rings st (Hd h) (map Ent (C h))" "set (C h) \<subseteq> {..<length (ncache st)}" using assms by (auto simp: dn_rep_def hrep_def)
  then show d: "distinct (C h)" by (simp add: ring_def distinct_map)
  show "length (C h) \<le> length (ncache st)" using d r(2) card_mono [of "{..<length (ncache st)}" "set (C h)"] distinct_card [OF d] by simp
qed

lemma search_find:
  assumes rep: "dn_rep st Q C"
  shows "dnlc_search dp name hash cr st = Ret (map_option Ent (find (\<lambda>i. nc_match dp name cr (nce st i)) (C hash)))"
proof -
  have "hashr.rings st (Hd hash) (map Ent (C hash))" using rep by (simp add: dn_rep_def hrep_def)
  from ring_find_ring [OF this] hash_list [OF rep] show ?thesis
    by (simp add: dnlc_search_def find_map comp_def)
qed

text \<open>An exact search finds the entry with the key; one for any credentials finds one with the name.\<close>

lemma search_key:
  assumes rep: "dn_rep st Q C" and name: "name \<noteq> []" and h: "h = NC_HASH name (length name) (v_addr st dp)"
  shows "(\<exists>i < length (ncache st). valid (nce st i) \<and> key_of (nce st i) = (dp, name, c) \<and> dnlc_search dp name h (Cred c) st = Ret (Some (Ent i))) \<or>
    (\<forall>i < length (ncache st). valid (nce st i) \<longrightarrow> key_of (nce st i) \<noteq> (dp, name, c)) \<and> dnlc_search dp name h (Cred c) st = Ret None"
proof -
  have C: "set (C h) = {i. i < length (ncache st) \<and> valid (nce st i) \<and> hash_key st (key_of (nce st i)) = h}"
    and ok: "\<And>i. i < length (ncache st) \<Longrightarrow> entry_ok (nce st i)" using rep by (simp_all add: dn_rep_def)
  show ?thesis
  proof (cases "find (\<lambda>i. nc_match dp name (Cred c) (nce st i)) (C h)")
    case None
    have "key_of (nce st i) \<noteq> (dp, name, c)" if i: "i < length (ncache st)" "valid (nce st i)" for i
    proof
      assume k: "key_of (nce st i) = (dp, name, c)"
      then have "i \<in> set (C h)" using i C h by (simp add: hash_key_def)
      then show False using None match_key(1) [OF ok [OF i(1)] name] i k by (auto simp: find_None_iff)
    qed
    then show ?thesis using None search_find [OF rep] by simp
  next
    case (Some i)
    then have "i \<in> set (C h)" "nc_match dp name (Cred c) (nce st i)" by (auto simp: find_Some_iff)
    then have "i < length (ncache st)" "valid (nce st i) \<and> key_of (nce st i) = (dp, name, c)" using C ok match_key(1) [OF _ name] by auto
    then show ?thesis using Some search_find [OF rep] by auto
  qed
qed

lemma search_any:
  assumes rep: "dn_rep st Q C" and name: "name \<noteq> []" and h: "h = NC_HASH name (length name) (v_addr st dp)"
  defines "hit \<equiv> \<lambda>i. i < length (ncache st) \<and> valid (nce st i) \<and> fst (key_of (nce st i)) = dp \<and> fst (snd (key_of (nce st i))) = name"
  shows "(\<exists>i. hit i \<and> dnlc_search dp name h ANYCRED st = Ret (Some (Ent i))) \<or> (\<forall>i. \<not> hit i) \<and> dnlc_search dp name h ANYCRED st = Ret None"
proof -
  have C: "set (C h) = {i. i < length (ncache st) \<and> valid (nce st i) \<and> hash_key st (key_of (nce st i)) = h}"
    and ok: "\<And>i. i < length (ncache st) \<Longrightarrow> entry_ok (nce st i)" using rep by (simp_all add: dn_rep_def)
  show ?thesis
  proof (cases "find (\<lambda>i. nc_match dp name ANYCRED (nce st i)) (C h)")
    case None
    have "\<not> hit i" for i
    proof
      assume k: "hit i"
      then have "i \<in> set (C h)" using C h by (auto simp: hash_key_def hit_def split: prod.splits)
      then show False using None match_key(2) [OF ok name, of i dp] k by (auto simp: find_None_iff hit_def)
    qed
    then show ?thesis using None search_find [OF rep] by simp
  next
    case (Some i)
    then have "i \<in> set (C h)" "nc_match dp name ANYCRED (nce st i)" by (auto simp: find_Some_iff)
    then have "hit i" using C ok match_key(2) [OF _ name] by (auto simp: hit_def)
    then show ?thesis using Some search_find [OF rep] by auto
  qed
qed

end
