(* ===== verification/Dnlc_Ops.thy ===== *)
theory Dnlc_Ops
  imports Dnlc_State
begin

text \<open>
  What each operation of the name cache does to the list of names, and that the references
  held outside of the cache stay as they are.
\<close>

section \<open>Rings with an entry taken out\<close>

lemma remove1_split: "distinct xs \<Longrightarrow> xs = a @ i # b \<Longrightarrow> remove1 i xs = a @ b"
  by (simp add: remove1_append)

lemma lrep_remove1: "lrep st Q \<Longrightarrow> i \<in> set Q \<Longrightarrow> lrep (RM_LRU (Ent i) st) (remove1 i Q)"
proof -
  assume r: "lrep st Q" and i: "i \<in> set Q"
  obtain a b where Q: "Q = a @ i # b" using i by (meson split_list)
  then have "remove1 i Q = a @ b" using lrep_distinct [OF r] by (rule remove1_split [rotated])
  then show ?thesis using r Q lrep_remove by simp
qed

lemma hrep_remove1:
  assumes r: "hrep {} st C"
  shows "hrep {i} (RM_HASH (Ent i) st) (\<lambda>h. remove1 i (C h))"
proof (cases "\<exists>h. i \<in> set (C h)")
  case False
  then have "(\<lambda>h. remove1 i (C h)) = C" by (simp add: fun_eq_iff remove1_idem)
  then show ?thesis using hrep_remove_self [OF r] False by simp
next
  case True
  then obtain h a b where C: "C h = a @ i # b" by (meson split_list)
  have d: "distinct (C h)" and o: "\<And>g. g \<noteq> h \<Longrightarrow> set (C g) \<inter> set (C h) = {}"
    using r by (auto simp: hrep_def ring_def distinct_map)
  have "remove1 i (C g) = (C(h := a @ b)) g" for g
    using remove1_split [OF d C] o [of g] C by (cases "g = h") (auto simp: remove1_idem)
  then have e: "(\<lambda>g. remove1 i (C g)) = C(h := a @ b)" by (rule ext)
  show ?thesis unfolding e by (rule hrep_remove [OF r C])
qed

section \<open>What stays\<close>

definition same_env :: "dnst \<Rightarrow> dnst \<Rightarrow> bool" where
  "same_env st st' \<longleftrightarrow> doingcache st' = doingcache st \<and> v_addr st' = v_addr st \<and> v_fs st' = v_fs st \<and>
     r_rcred st' = r_rcred st \<and> r_wcred st' = r_wcred st \<and> i_dev st' = i_dev st \<and> length (ncache st') = length (ncache st)"

lemma same_env_refl [simp]: "same_env st st" and same_env_trans: "same_env s t \<Longrightarrow> same_env t u \<Longrightarrow> same_env s u"
  by (simp_all add: same_env_def)

text \<open>The cache holds no more references than there are.\<close>

definition held :: "dnst \<Rightarrow> bool" where
  "held st \<longleftrightarrow> (\<forall>v. 0 \<le> others st v) \<and> (\<forall>c. 0 \<le> cothers st c)"

definition same_refs :: "dnst \<Rightarrow> dnst \<Rightarrow> bool" where
  "same_refs st st' \<longleftrightarrow> others st' = others st \<and> cothers st' = cothers st"

lemma same_refs_refl [simp]: "same_refs st st" and same_refs_trans: "same_refs s t \<Longrightarrow> same_refs t u \<Longrightarrow> same_refs s u"
  by (simp_all add: same_refs_def)

lemma same_refs_held: "same_refs st st' \<Longrightarrow> held st' = held st"
  by (simp add: same_refs_def held_def)

lemma held_count:
  assumes "held st" and "i < length (ncache st)"
  shows "of_bool (nc_dp (nce st i) = Some v) + of_bool (nc_vp (nce st i) = Some v) \<le> v_count st v"
    and "of_bool (nc_cred (nce st i) = Some c) \<le> cr_refs st c"
proof -
  have "0 \<le> others st v" "0 \<le> cothers st c" using assms(1) by (simp_all add: held_def)
  then show "of_bool (nc_dp (nce st i) = Some v) + of_bool (nc_vp (nce st i) = Some v) \<le> v_count st v"
    "of_bool (nc_cred (nce st i) = Some c) \<le> cr_refs st c"
    using vrefs_entry [OF assms(2), of v] crefs_entry [OF assms(2), of c] by (simp_all add: others_def cothers_def)
qed

section \<open>Taking a name out\<close>

lemma rm_rep:
  assumes rep: "dn_rep st Q C" and i: "i < length (ncache st)" and v: "valid (nce st i)"
    and l: "lrep st' (i # remove1 i Q)" and h: "hrep {} st' (\<lambda>h. remove1 i (C h))"
    and nc: "ncache st' = (ncache st)[i := (nce st i)\<lparr>nc_dp := None, nc_vp := None, nc_cred := None\<rparr>]"
    and va: "v_addr st' = v_addr st"
  shows "dn_rep st' (i # remove1 i Q) (\<lambda>h. remove1 i (C h))"
    and "names st' (i # remove1 i Q) = filter (\<lambda>p. fst p \<noteq> key_of (nce st i)) (names st Q)"
proof -
  have hk: "hash_key st' = hash_key st" by (rule hash_key_cong [OF va])
  have Q: "set Q = {..<length (ncache st)}" and C: "\<And>h. set (C h) = {i. i < length (ncache st) \<and> valid (nce st i) \<and> hash_key st (key_of (nce st i)) = h}"
    and ok: "\<And>i. i < length (ncache st) \<Longrightarrow> entry_ok (nce st i)"
    and inj: "inj_on (\<lambda>i. key_of (nce st i)) {i. i < length (ncache st) \<and> valid (nce st i)}" using rep by (simp_all add: dn_rep_def)
  have dQ: "distinct Q" using rep lrep_distinct by (auto simp: dn_rep_def)
  have dC: "distinct (C h)" for h by (rule hash_list [OF rep])
  obtain a b where ab: "Q = a @ b" "\<forall>i \<in> set a. \<not> valid (nce st i)" "\<forall>i \<in> set b. valid (nce st i)" using rep by (auto simp: dn_rep_def)
  have e: "nce st' j = (if j = i then (nce st i)\<lparr>nc_dp := None, nc_vp := None, nc_cred := None\<rparr> else nce st j)" for j
    using i by (simp add: nc nth_upd)
  have len: "length (ncache st') = length (ncache st)" by (simp add: nc)
  have ia: "i \<notin> set a" using ab(2) v by auto
  then have Q': "i # remove1 i Q = (i # a) @ remove1 i b" by (simp add: ab(1) remove1_append)
  have db: "distinct b" using dQ ab(1) by simp
  have 1: "set (i # remove1 i Q) = {..<length (ncache st')}" using dQ Q i by (auto simp: len)
  have 2: "set (remove1 i (C h)) = {i. i < length (ncache st') \<and> valid (nce st' i) \<and> hash_key st' (key_of (nce st' i)) = h}" for h
    using dC [of h] C [of h] by (auto simp: len e hk)
  have 3: "entry_ok (nce st' j)" if "j < length (ncache st')" for j using ok [of j] that by (auto simp: e len entry_ok_def)
  have 4: "inj_on (\<lambda>j. key_of (nce st' j)) {j. j < length (ncache st') \<and> valid (nce st' j)}"
    using inj by (auto simp: inj_on_def e len)
  have 5: "(\<forall>j \<in> set (i # a). \<not> valid (nce st' j)) \<and> (\<forall>j \<in> set (remove1 i b). valid (nce st' j))"
    using ab(2,3) db by (auto simp: e)
  show "dn_rep st' (i # remove1 i Q) (\<lambda>h. remove1 i (C h))"
    unfolding dn_rep_def using l h 1 2 3 4 5 Q' by blast
  have "j \<noteq> i \<longleftrightarrow> key_of (nce st j) \<noteq> key_of (nce st i)" if "j \<in> set Q" "valid (nce st j)" for j
    using inj_onD [OF inj, of j i] that i v Q by auto
  then have f: "filter (\<lambda>j. valid (nce st j) \<and> j \<noteq> i) Q = filter (\<lambda>j. key_of (nce st j) \<noteq> key_of (nce st i)) (filter (\<lambda>j. valid (nce st j)) Q)"
    unfolding filter_filter by (intro filter_cong refl) blast
  have fi: "filter (\<lambda>j. valid (nce st' j)) (i # remove1 i Q) = filter (\<lambda>j. valid (nce st j) \<and> j \<noteq> i) Q"
  proof -
    have "filter (\<lambda>j. valid (nce st' j)) (i # remove1 i Q) = filter (\<lambda>j. valid (nce st' j)) (filter (\<lambda>j. j \<noteq> i) Q)"
      using dQ by (simp add: e distinct_remove1_removeAll removeAll_filter_not_eq)
    also have "\<dots> = filter (\<lambda>j. valid (nce st j) \<and> j \<noteq> i) Q"
      unfolding filter_filter by (intro filter_cong refl) (auto simp: e)
    finally show ?thesis .
  qed
  have "names st' (i # remove1 i Q) = map (\<lambda>j. (key_of (nce st j), the (nc_vp (nce st j)))) (filter (\<lambda>j. valid (nce st j) \<and> j \<noteq> i) Q)"
    unfolding names_def fi by (intro map_cong refl) (simp add: e)
  then show "names st' (i # remove1 i Q) = filter (\<lambda>p. fst p \<noteq> key_of (nce st i)) (names st Q)"
    unfolding f names_def by (simp add: filter_map comp_def)
qed

definition cleared :: "ncache \<Rightarrow> ncache" where
  "cleared e = e\<lparr>nc_dp := None, nc_vp := None, nc_cred := None\<rparr>"

text \<open>The links and the entry after \<open>dnlc_rm\<close>, before the references are released.\<close>

definition rm_links :: "nat \<Rightarrow> dnst \<Rightarrow> dnst" where
  "rm_links i st = NULL_HASH (Ent i) (INS_LRU (Ent i) Lru (RM_HASH (Ent i) (RM_LRU (Ent i) (upd_nc i cleared st))))"

lemma dnlc_rm_alt: "dnlc_rm i st =
    obind (vn_rele (nc_dp (nce st i)) (rm_links i st)) (\<lambda>st3. obind (vn_rele (nc_vp (nce st i)) st3) (nc_crfree (nc_cred (nce st i))))"
  by (simp add: dnlc_rm_def rm_links_def cleared_def [abs_def] Let_def)

lemma rm_links_rep:
  assumes rep: "dn_rep st Q C" and i: "i < length (ncache st)" and v: "valid (nce st i)"
  shows "dn_rep (rm_links i st) (i # remove1 i Q) (\<lambda>h. remove1 i (C h))"
    and "names (rm_links i st) (i # remove1 i Q) = filter (\<lambda>p. fst p \<noteq> key_of (nce st i)) (names st Q)"
    and "ncache (rm_links i st) = (ncache st)[i := cleared (nce st i)]" and "same_outer st (rm_links i st)"
proof -
  let ?s1 = "RM_LRU (Ent i) (upd_nc i cleared st)"
  have Q: "set Q = {..<length (ncache st)}" and l: "lrep st Q" and h: "hrep {} st C" using rep by (simp_all add: dn_rep_def)
  have d: "distinct Q" by (rule lrep_distinct [OF l])
  have "lrep (upd_nc i cleared st) Q" using l by simp
  then have l1: "lrep (RM_HASH (Ent i) ?s1) (remove1 i Q)" using lrep_remove1 [of "upd_nc i cleared st" Q i] i Q by simp
  have l2: "lrep (rm_links i st) (i # remove1 i Q)"
    using lrep_front [OF l1, of i] d by (simp add: rm_links_def)
  have "hrep {} ?s1 C" using h hrep_cong [of ?s1 st "{}" C] by simp
  from hrep_remove1 [OF this, of i] have "hrep {i} (INS_LRU (Ent i) Lru (RM_HASH (Ent i) ?s1)) (\<lambda>h. remove1 i (C h))"
    using hrep_cong [of "INS_LRU (Ent i) Lru (RM_HASH (Ent i) ?s1)" "RM_HASH (Ent i) ?s1" "{i}"] by simp
  from hrep_null [OF this] have h2: "hrep {} (rm_links i st) (\<lambda>h. remove1 i (C h))" by (simp add: rm_links_def)
  show nc: "ncache (rm_links i st) = (ncache st)[i := cleared (nce st i)]" by (simp add: rm_links_def upd_nc_def)
  show o: "same_outer st (rm_links i st)" by (simp add: rm_links_def)
  have va: "v_addr (rm_links i st) = v_addr st" using o by (simp add: same_outer_def)
  from rm_rep [OF rep i v l2 h2 nc [unfolded cleared_def] va]
  show "dn_rep (rm_links i st) (i # remove1 i Q) (\<lambda>h. remove1 i (C h))"
    "names (rm_links i st) (i # remove1 i Q) = filter (\<lambda>p. fst p \<noteq> key_of (nce st i)) (names st Q)" by simp_all
qed

lemma dec_opt_at: "dec_opt r f x = f x - of_bool (r = Some x)"
  by (simp add: dec_opt_def)

lemma dnlc_rm_ok:
  assumes rep: "dn_rep st Q C" and i: "i < length (ncache st)" and v: "valid (nce st i)" and held: "held st"
  obtains st' where "dnlc_rm i st = Ret st'" "dn_rep st' (i # remove1 i Q) (\<lambda>h. remove1 i (C h))"
    "names st' (i # remove1 i Q) = filter (\<lambda>p. fst p \<noteq> key_of (nce st i)) (names st Q)" "same_refs st st'" "same_env st st'"
proof -
  let ?s = "rm_links i st" and ?e = "nce st i"
  note s = rm_links_rep [OF rep i v]
  have cnt: "v_count ?s = v_count st" "cr_refs ?s = cr_refs st" using s(4) by (simp_all add: same_outer_def)
  have "entry_ok ?e" using rep i by (simp add: dn_rep_def)
  then obtain d p where dp: "nc_dp ?e = Some d" "nc_vp ?e = Some p" using v by (auto simp: entry_ok_def)
  note hc = held_count [OF held i]
  obtain s1 where s1: "vn_rele (Some d) ?s = Ret s1" "same_cache ?s s1" "v_count s1 = dec_opt (Some d) (v_count ?s)" "cr_refs s1 = cr_refs ?s"
  proof -
    have "1 \<le> v_count ?s d" using hc(1) [of d] dp cnt by (auto simp: of_bool_def split: if_splits)
    then show ?thesis by (rule vn_rele_ok) (rule that)
  qed
  have "1 \<le> v_count s1 p" using hc(1) [of p] dp by (auto simp: s1(3) cnt dec_opt_at split: if_splits)
  then obtain s2 where s2: "vn_rele (Some p) s1 = Ret s2" "same_cache s1 s2" "v_count s2 = dec_opt (Some p) (v_count s1)" "cr_refs s2 = cr_refs s1"
    using vn_rele_ok by blast
  have "1 \<le> cr_refs s2 c" if "nc_cred ?e = Some c" for c using hc(2) [of c] that by (simp add: s2(4) s1(4) cnt)
  then obtain s3 where s3: "nc_crfree (nc_cred ?e) s2 = Ret s3" "same_cache s2 s3" "v_count s3 = v_count s2" "cr_refs s3 = dec_opt (nc_cred ?e) (cr_refs s2)"
    using nc_crfree_ok by blast
  have sc: "same_cache ?s s3" by (rule same_cache_trans [OF same_cache_trans [OF s1(2) s2(2)] s3(2)])
  have nc: "ncache s3 = (ncache st)[i := cleared ?e]" using sc s(3) by (simp add: same_cache_def)
  show thesis
  proof (rule that)
    show "dnlc_rm i st = Ret s3" using s1(1) s2(1) s3(1) dp by (simp add: dnlc_rm_alt)
    show "dn_rep s3 (i # remove1 i Q) (\<lambda>h. remove1 i (C h))" using s(1) same_cache_rep(1) [OF sc] by simp
    show "names s3 (i # remove1 i Q) = filter (\<lambda>p. fst p \<noteq> key_of ?e) (names st Q)" using s(2) same_cache_rep(2) [OF sc] by simp
    show "same_refs st s3" using dp
      by (simp add: same_refs_def fun_eq_iff others_def cothers_def nc vrefs_upd [OF i] crefs_upd [OF i] cleared_def s3 s2 s1 cnt dec_opt_at)
    show "same_env st s3" using sc s(4) by (simp add: same_env_def same_cache_def same_outer_def s(3))
  qed
qed

end
