(* ===== verification/Dnlc_Purge.thy ===== *)
theory Dnlc_Purge
  imports Dnlc_Ops
begin

text \<open>
  The operations that take names out: each loop finds an entry that passes a test as long
  as there is one, so it ends, and leaves the names that do not pass, in their order.
\<close>

section \<open>The list of names\<close>

definition entry_of :: "ncache \<Rightarrow> nckey \<times> nat" where
  "entry_of e = (key_of e, the (nc_vp e))"

lemma names_entry: "names st Q = map (\<lambda>i. entry_of (nce st i)) (filter (\<lambda>i. valid (nce st i)) Q)"
  by (simp add: names_def entry_of_def)

lemma names_set: "dn_rep st Q C \<Longrightarrow> set (names st Q) = {entry_of (nce st i) | i. i < length (ncache st) \<and> valid (nce st i)}"
  by (auto simp: names_entry dn_rep_def)

lemma names_none:
  assumes "dn_rep st Q C" and "\<forall>i < length (ncache st). valid (nce st i) \<longrightarrow> \<not> hit (entry_of (nce st i))"
  shows "filter (\<lambda>p. \<not> hit p) (names st Q) = names st Q"
  using assms(2) by (intro filter_True) (auto simp: names_set [OF assms(1)])

lemma names_distinct: "dn_rep st Q C \<Longrightarrow> distinct (map fst (names st Q))"
  using lrep_distinct [of st Q] by (auto simp: names_def dn_rep_def comp_def distinct_map inj_on_def)

lemma dn_rep_length: "dn_rep st Q C \<Longrightarrow> length Q = length (ncache st)"
  using lrep_distinct [of st Q] distinct_card [of Q] by (simp add: dn_rep_def)

lemma names_length: "dn_rep st Q C \<Longrightarrow> length (names st Q) \<le> length (ncache st)"
  using dn_rep_length [of st Q C] by (simp add: names_def le_trans [OF length_filter_le])

text \<open>With distinct keys, taking a key out takes one pair out.\<close>

lemma filter_key:
  assumes d: "distinct (map fst l)" and p: "p \<in> set l"
  shows "filter (\<lambda>q. fst q \<noteq> fst p) l = filter (\<lambda>q. q \<noteq> p) l"
  by (intro filter_cong refl) (metis d p eq_key_imp_eq_value prod.collapse)

lemma filter_out:
  assumes p: "p \<in> set l" and hit: "hit p"
  shows "filter (\<lambda>q. \<not> hit q) (filter (\<lambda>q. q \<noteq> p) l) = filter (\<lambda>q. \<not> hit q) l"
    and "length (filter hit (filter (\<lambda>q. q \<noteq> p) l)) < length (filter hit l)"
proof -
  show "filter (\<lambda>q. \<not> hit q) (filter (\<lambda>q. q \<noteq> p) l) = filter (\<lambda>q. \<not> hit q) l"
    using hit by (auto simp: filter_filter intro!: filter_cong)
  have "filter hit (filter (\<lambda>q. q \<noteq> p) l) = filter (\<lambda>q. q \<noteq> p) (filter hit l)" by (simp add: filter_filter conj_commute)
  also have "length \<dots> < length (filter hit l)" using p hit by (intro length_filter_less [of p]) auto
  finally show "length (filter hit (filter (\<lambda>q. q \<noteq> p) l)) < length (filter hit l)" .
qed

section \<open>The loop\<close>

text \<open>\<open>f\<close> finds an entry that passes \<open>hit\<close>, when there is one.\<close>

definition finds :: "dnst \<Rightarrow> (nckey \<times> nat \<Rightarrow> bool) \<Rightarrow> (dnst \<Rightarrow> ncref option outcome) \<Rightarrow> bool" where
  "finds st0 hit f \<longleftrightarrow> (\<forall>st Q C. same_env st0 st \<and> dn_rep st Q C \<longrightarrow>
     (\<exists>i < length (ncache st). valid (nce st i) \<and> hit (entry_of (nce st i)) \<and> f st = Ret (Some (Ent i))) \<or>
     (\<forall>i < length (ncache st). valid (nce st i) \<longrightarrow> \<not> hit (entry_of (nce st i))) \<and> f st = Ret None)"

lemma rm_loop_ok:
  assumes f: "finds st0 hit f"
  shows "same_env st0 st \<Longrightarrow> dn_rep st Q C \<Longrightarrow> held st \<Longrightarrow> length (filter hit (names st Q)) \<le> n \<Longrightarrow>
    \<exists>st' Q' C'. rm_loop n f st = Ret st' \<and> dn_rep st' Q' C' \<and> names st' Q' = filter (\<lambda>p. \<not> hit p) (names st Q) \<and>
      same_refs st st' \<and> same_env st st'"
proof (induction n arbitrary: st Q C)
  case (0 st Q C)
  have n: "\<not> hit p" if "p \<in> set (names st Q)" for p using 0(4) that by (auto simp: filter_empty_conv)
  then have "\<forall>i < length (ncache st). valid (nce st i) \<longrightarrow> \<not> hit (entry_of (nce st i))" using names_set [OF 0(2)] by blast
  then have "f st = Ret None" using f 0(1,2) unfolding finds_def by blast
  then have "rm_loop 0 f st = Ret st" by (subst rm_loop.simps) simp
  moreover have "names st Q = filter (\<lambda>p. \<not> hit p) (names st Q)" using n by (intro filter_True [symmetric]) blast
  ultimately show ?case using 0(2) same_refs_refl same_env_refl by blast
next
  case (Suc n st Q C)
  consider i where "i < length (ncache st)" "valid (nce st i)" "hit (entry_of (nce st i))" "f st = Ret (Some (Ent i))"
    | "\<forall>i < length (ncache st). valid (nce st i) \<longrightarrow> \<not> hit (entry_of (nce st i))" "f st = Ret None"
    using f Suc(2,3) unfolding finds_def by blast
  then show ?case
  proof cases
    case 2
    then have "names st Q = filter (\<lambda>p. \<not> hit p) (names st Q)" using names_none [OF Suc(3)] by simp
    moreover have "rm_loop (Suc n) f st = Ret st" using 2(2) by (subst rm_loop.simps) simp
    ultimately show ?thesis using Suc(3) same_refs_refl same_env_refl by blast
  next
    case 1
    define p where "p = entry_of (nce st i)"
    have p: "p \<in> set (names st Q)" "hit p" using 1 names_set [OF Suc(3)] by (auto simp: p_def)
    obtain s1 where s1: "dnlc_rm i st = Ret s1" "dn_rep s1 (i # remove1 i Q) (\<lambda>h. remove1 i (C h))"
      "names s1 (i # remove1 i Q) = filter (\<lambda>q. fst q \<noteq> key_of (nce st i)) (names st Q)" "same_refs st s1" "same_env st s1"
      by (rule dnlc_rm_ok [OF Suc(3) 1(1,2) Suc(4)])
    have n1: "names s1 (i # remove1 i Q) = filter (\<lambda>q. q \<noteq> p) (names st Q)"
      using s1(3) filter_key [OF names_distinct [OF Suc(3)] p(1)] by (simp add: p_def entry_of_def)
    have "length (filter hit (names s1 (i # remove1 i Q))) \<le> n"
      unfolding n1 using filter_out(2) [of p "names st Q" hit, OF p] Suc(5) by linarith
    moreover have "held s1" using Suc(4) same_refs_held [OF s1(4)] by simp
    ultimately obtain st' Q' C' where r: "rm_loop n f s1 = Ret st'" "dn_rep st' Q' C'"
      "names st' Q' = filter (\<lambda>p. \<not> hit p) (names s1 (i # remove1 i Q))" "same_refs s1 st'" "same_env s1 st'"
      using Suc.IH [OF same_env_trans [OF Suc(2) s1(5)] s1(2)] by blast
    have "rm_loop (Suc n) f st = Ret st'" using 1(4) s1(1) r(1) by (subst rm_loop.simps) simp
    moreover have "names st' Q' = filter (\<lambda>p. \<not> hit p) (names st Q)"
      unfolding r(3) n1 by (rule filter_out(1) [of p "names st Q" hit, OF p])
    ultimately show ?thesis using r(2) same_refs_trans [OF s1(4) r(4)] same_env_trans [OF s1(5) r(5)] by blast
  qed
qed

text \<open>The loop as an operation on the list of names.\<close>

definition filters :: "dnst \<Rightarrow> (nckey \<times> nat) list \<Rightarrow> (nckey \<times> nat \<Rightarrow> bool) \<Rightarrow> dnst outcome \<Rightarrow> bool" where
  "filters st l keep r \<longleftrightarrow> (\<exists>st'. r = Ret st' \<and> caches st' (filter keep l) \<and> same_refs st st' \<and> same_env st st')"

lemma rm_loop_filters:
  assumes c: "caches st l" and h: "held st" and f: "finds st hit f"
  shows "filters st l (\<lambda>p. \<not> hit p) (rm_loop (length (ncache st)) f st)"
proof -
  obtain Q C where rep: "dn_rep st Q C" and l: "l = names st Q" using c by (auto simp: caches_def)
  have "length (filter hit (names st Q)) \<le> length (ncache st)"
    using names_length [OF rep] length_filter_le [of hit "names st Q"] by linarith
  from rm_loop_ok [OF f same_env_refl rep h this] show ?thesis
    unfolding filters_def caches_def l by metis
qed

section \<open>The finders\<close>

lemma search_finds:
  assumes "name \<noteq> []"
  shows "finds st0 (\<lambda>p. fst (fst p) = dp \<and> fst (snd (fst p)) = name) (dnlc_search dp name (NC_HASH name (length name) (v_addr st0 dp)) ANYCRED)"
  unfolding finds_def
proof (intro allI impI, elim conjE)
  fix st Q C assume e: "same_env st0 st" and rep: "dn_rep st Q C"
  have h: "NC_HASH name (length name) (v_addr st0 dp) = NC_HASH name (length name) (v_addr st dp)" using e by (simp add: same_env_def)
  show "(\<exists>i < length (ncache st). valid (nce st i) \<and> (fst (fst (entry_of (nce st i))) = dp \<and> fst (snd (fst (entry_of (nce st i)))) = name) \<and>
      dnlc_search dp name (NC_HASH name (length name) (v_addr st0 dp)) ANYCRED st = Ret (Some (Ent i))) \<or>
    (\<forall>i < length (ncache st). valid (nce st i) \<longrightarrow> \<not> (fst (fst (entry_of (nce st i))) = dp \<and> fst (snd (fst (entry_of (nce st i)))) = name)) \<and>
      dnlc_search dp name (NC_HASH name (length name) (v_addr st0 dp)) ANYCRED st = Ret None"
    using search_any [OF rep assms refl, of dp] unfolding h entry_of_def fst_conv by blast
qed

lemma lru_find_rep:
  assumes rep: "dn_rep st Q C"
  shows "lru_find P st = Ret (map_option Ent (find (\<lambda>i. P (nce st i)) Q))"
proof -
  have r: "lrur.rings st Lru (map Ent Q)" using rep by (simp add: dn_rep_def)
  from ring_find_ring [OF r] dn_rep_length [OF rep] show ?thesis by (simp add: lru_find_def find_map comp_def)
qed

lemma lru_finds:
  assumes P: "\<And>st e. same_env st0 st \<Longrightarrow> entry_ok e \<Longrightarrow> P st e \<longleftrightarrow> valid e \<and> hit (entry_of e)"
  shows "finds st0 hit (\<lambda>s. lru_find (P s) s)"
  unfolding finds_def
proof (intro allI impI, elim conjE)
  fix st Q C assume e: "same_env st0 st" and rep: "dn_rep st Q C"
  have Q: "set Q = {..<length (ncache st)}" and ok: "\<And>i. i < length (ncache st) \<Longrightarrow> entry_ok (nce st i)" using rep by (simp_all add: dn_rep_def)
  note p = P [OF e ok]
  show "(\<exists>i < length (ncache st). valid (nce st i) \<and> hit (entry_of (nce st i)) \<and> lru_find (P st) st = Ret (Some (Ent i))) \<or>
    (\<forall>i < length (ncache st). valid (nce st i) \<longrightarrow> \<not> hit (entry_of (nce st i))) \<and> lru_find (P st) st = Ret None"
  proof (cases "find (\<lambda>i. P st (nce st i)) Q")
    case None
    then show ?thesis using p Q by (auto simp: lru_find_rep [OF rep] find_None_iff)
  next
    case (Some i)
    then have "i \<in> set Q" "P st (nce st i)" by (auto simp: find_Some_iff)
    then show ?thesis using Some p [of i] Q by (auto simp: lru_find_rep [OF rep])
  qed
qed

text \<open>Hash values are within the table.\<close>

lemma NC_HASH_less: "NC_HASH name n a < NC_HASH_SIZE"
proof -
  have "x AND 255 \<le> 255" for x :: int by (rule AND_upper2) simp
  then show ?thesis by (simp add: NC_HASH_def nat_less_iff le_less_trans)
qed

lemma hash_key_less: "hash_key st k < NC_HASH_SIZE"
  by (simp add: hash_key_def NC_HASH_less split: prod.split)

lemma purge_finds: "finds st0 (\<lambda>_. True) purge_find"
  unfolding finds_def
proof (intro allI impI, elim conjE)
  fix st Q C assume e: "same_env st0 st" and rep: "dn_rep st Q C"
  have rg: "\<And>h. hashr.rings st (Hd h) (map Ent (C h))" and C: "\<And>h. set (C h) = {i. i < length (ncache st) \<and> valid (nce st i) \<and> hash_key st (key_of (nce st i)) = h}"
    and ok: "\<And>i. i < length (ncache st) \<Longrightarrow> entry_ok (nce st i)" using rep by (simp_all add: dn_rep_def hrep_def)
  have nx: "hnext st (Hd h) = (if C h = [] then Hd h else Ent (hd (C h)))" for h using rg [of h] by (cases "C h") (auto simp: ring_def)
  show "(\<exists>i < length (ncache st). valid (nce st i) \<and> True \<and> purge_find st = Ret (Some (Ent i))) \<or>
    (\<forall>i < length (ncache st). valid (nce st i) \<longrightarrow> \<not> True) \<and> purge_find st = Ret None"
  proof (cases "find (\<lambda>h. hnext st (Hd h) \<noteq> Hd h) [0..<NC_HASH_SIZE]")
    case None
    then have n: "C h = []" if "h < NC_HASH_SIZE" for h using that nx [of h] by (auto simp: find_None_iff split: if_splits)
    have "\<not> valid (nce st i)" if i: "i < length (ncache st)" for i
    proof
      assume v: "valid (nce st i)"
      have "hash_key st (key_of (nce st i)) < NC_HASH_SIZE" by (rule hash_key_less)
      then have "C (hash_key st (key_of (nce st i))) = []" by (rule n)
      then show False using C [of "hash_key st (key_of (nce st i))"] i v by auto
    qed
    then show ?thesis using None by (simp add: purge_find_def)
  next
    case (Some h)
    then have "hnext st (Hd h) \<noteq> Hd h" by (auto simp: find_Some_iff)
    then have ne: "C h \<noteq> []" "hnext st (Hd h) = Ent (hd (C h))" using nx [of h] by (auto split: if_splits)
    then have i: "hd (C h) < length (ncache st)" "valid (nce st (hd (C h)))" using C [of h] hd_in_set [of "C h"] by auto
    then have "nc_dp (nce st (hd (C h))) \<noteq> None" "nc_vp (nce st (hd (C h))) \<noteq> None" using ok [OF i(1)] by (auto simp: entry_ok_def)
    then show ?thesis using Some ne(2) i by (auto simp: purge_find_def)
  qed
qed

section \<open>Removing and purging\<close>

lemma caches_short: "caches st l \<Longrightarrow> p \<in> set l \<Longrightarrow> 1 \<le> length (fst (snd (fst p))) \<and> length (fst (snd (fst p))) \<le> NC_NAMLEN"
proof -
  assume c: "caches st l" and p: "p \<in> set l"
  obtain Q C where rep: "dn_rep st Q C" and l: "l = names st Q" using c by (auto simp: caches_def)
  obtain i where i: "p = entry_of (nce st i)" "i < length (ncache st)" "valid (nce st i)" using p l names_set [OF rep] by auto
  have "entry_ok (nce st i)" using rep i(2) by (simp add: dn_rep_def)
  then show ?thesis using i(1,3) by (auto simp: entry_ok_def entry_of_def key_of_def)
qed

lemma dnlc_remove_filters:
  assumes c: "caches st l" and h: "held st" and n: "name \<noteq> []"
  shows "filters st l (\<lambda>p. \<not> (fst (fst p) = dp \<and> fst (snd (fst p)) = name)) (dnlc_remove dp name st)"
proof (cases "length name > NC_NAMLEN")
  case False
  then show ?thesis using rm_loop_filters [OF c h search_finds [OF n]] n by (simp add: dnlc_remove_def)
next
  case True
  have "filter (\<lambda>p. \<not> (fst (fst p) = dp \<and> fst (snd (fst p)) = name)) l = l"
  proof (rule filter_True, intro ballI notI, elim conjE)
    fix p assume p: "p \<in> set l" "fst (snd (fst p)) = name"
    then show False using caches_short [OF c p(1)] True by simp
  qed
  then show ?thesis using True c by (simp add: dnlc_remove_def filters_def)
qed

lemma dnlc_purge_filters: "caches st l \<Longrightarrow> held st \<Longrightarrow> filters st l (\<lambda>p. False) (dnlc_purge st)"
  using rm_loop_filters [OF _ _ purge_finds] by (simp add: dnlc_purge_def)

lemma dnlc_purge_vp_filters:
  assumes "caches st l" and "held st"
  shows "filters st l (\<lambda>p. \<not> (fst (fst p) = v \<or> snd p = v)) (dnlc_purge_vp v st)"
  unfolding dnlc_purge_vp_def
  by (rule rm_loop_filters [OF assms], rule lru_finds) (auto simp: entry_ok_def entry_of_def key_of_def)

lemma dnlc_purge_dev_filters:
  assumes "caches st l" and "held st"
  shows "filters st l (\<lambda>p. \<not> (v_fs st (snd p) = VUFS \<and> i_dev st (snd p) = dev)) (dnlc_purge_dev dev st)"
  unfolding dnlc_purge_dev_def
  by (rule rm_loop_filters [OF assms], rule lru_finds) (auto simp: entry_ok_def entry_of_def same_env_def split: option.splits)

text \<open>Taking the oldest name out.\<close>

lemma dn_rep_split:
  assumes "dn_rep st Q C"
  obtains a b where "Q = a @ b" "\<forall>i \<in> set a. \<not> valid (nce st i)" "\<forall>i \<in> set b. valid (nce st i)" "names st Q = map (\<lambda>i. entry_of (nce st i)) b"
proof -
  obtain a b where ab: "Q = a @ b" "\<forall>i \<in> set a. \<not> valid (nce st i)" "\<forall>i \<in> set b. valid (nce st i)" using assms by (auto simp: dn_rep_def)
  have "filter (\<lambda>i. valid (nce st i)) Q = b" using filter_False [OF ab(2)] filter_True [OF ab(3)] by (simp add: ab(1))
  then show thesis using that [OF ab] by (simp add: names_entry)
qed

lemma find_first: "\<forall>x \<in> set a. \<not> P x \<Longrightarrow> \<forall>x \<in> set b. P x \<Longrightarrow> find P (a @ b) = (if b = [] then None else Some (hd b))"
  by (induction a) (cases b, auto)

lemma dnlc_purge1_ok:
  assumes c: "caches st l" and h: "held st"
  shows "\<exists>st'. dnlc_purge1 st = Ret (l \<noteq> [], st') \<and> caches st' (tl l) \<and> same_refs st st' \<and> same_env st st'"
proof -
  obtain Q C where rep: "dn_rep st Q C" and l: "l = names st Q" using c by (auto simp: caches_def)
  obtain a b where ab: "Q = a @ b" "\<forall>i \<in> set a. \<not> valid (nce st i)" "\<forall>i \<in> set b. valid (nce st i)" "names st Q = map (\<lambda>i. entry_of (nce st i)) b"
    by (rule dn_rep_split [OF rep])
  have f: "lru_find (\<lambda>e. nc_dp e \<noteq> None) st = Ret (if b = [] then None else Some (Ent (hd b)))"
    unfolding lru_find_rep [OF rep] ab(1) using find_first [OF ab(2,3)] by simp
  show ?thesis
  proof (cases b)
    case Nil
    then show ?thesis using f c l ab(4) by (simp add: dnlc_purge1_def)
  next
    case (Cons i r)
    have i: "i < length (ncache st)" "valid (nce st i)" using rep ab(1,3) Cons by (auto simp: dn_rep_def)
    obtain s1 where s1: "dnlc_rm i st = Ret s1" "dn_rep s1 (i # remove1 i Q) (\<lambda>h. remove1 i (C h))"
      "names s1 (i # remove1 i Q) = filter (\<lambda>q. fst q \<noteq> key_of (nce st i)) (names st Q)" "same_refs st s1" "same_env st s1"
      by (rule dnlc_rm_ok [OF rep i h])
    have hd: "names st Q = (key_of (nce st i), the (nc_vp (nce st i))) # tl l" using ab(4) Cons l by (simp add: entry_of_def)
    have "key_of (nce st i) \<notin> fst ` set (tl l)" using names_distinct [OF rep] unfolding hd by simp
    then have "\<forall>q \<in> set (tl l). fst q \<noteq> key_of (nce st i)" by (metis imageI)
    then have "filter (\<lambda>q. fst q \<noteq> key_of (nce st i)) (names st Q) = tl l" unfolding hd by simp
    then have "caches s1 (tl l)" using s1(2,3) by (auto simp: caches_def)
    moreover have "dnlc_purge1 st = Ret (True, s1)" using f Cons s1(1) by (simp add: dnlc_purge1_def)
    moreover have "l \<noteq> []" using hd l by (metis list.distinct(1))
    ultimately show ?thesis using s1(4,5) by (intro exI [of _ s1]) simp
  qed
qed

end
