(* ===== verification/Dnlc_Enter.thy ===== *)
theory Dnlc_Enter
  imports Dnlc_Purge
begin

text \<open>Entering and looking up names.\<close>

section \<open>Taking references\<close>

definition taken :: "nat \<Rightarrow> nat \<Rightarrow> nat option \<Rightarrow> dnst \<Rightarrow> dnst" where
  "taken dp vp cred st = nc_crhold cred (VN_HOLD vp (VN_HOLD dp st))"

lemma taken_fields:
  assumes "\<And>c. cred = Some c \<Longrightarrow> -32768 \<le> cr_refs st c \<and> cr_refs st c < 32767"
  shows "same_cache st (taken dp vp cred st)"
    and "v_count (taken dp vp cred st) v = v_count st v + of_bool (dp = v) + of_bool (vp = v)"
    and "cr_refs (taken dp vp cred st) c = cr_refs st c + of_bool (cred = Some c)"
  using assms by (auto simp: taken_def nc_crhold_def VN_HOLD_def same_cache_def to_s16_id split: option.split)

text \<open>When the name is not entered, the references are given back.\<close>

lemma backout_ok:
  assumes t: "\<And>c. cred = Some c \<Longrightarrow> 0 \<le> cr_refs st c \<and> cr_refs st c < 32767" and v: "\<And>v. 0 \<le> v_count st v"
  obtains st' where "dnlc_backout dp vp cred (taken dp vp cred st) = Ret st'" "same_cache st st'" "v_count st' = v_count st" "cr_refs st' = cr_refs st"
proof -
  let ?s = "taken dp vp cred st"
  have "-32768 \<le> cr_refs st c \<and> cr_refs st c < 32767" if "cred = Some c" for c using t [OF that] by simp
  note f = taken_fields [of cred st dp vp, OF this]
  have "1 \<le> v_count ?s dp" using v [of dp] by (simp add: f(2))
  then obtain s1 where s1: "vn_rele (Some dp) ?s = Ret s1" "same_cache ?s s1" "v_count s1 = dec_opt (Some dp) (v_count ?s)" "cr_refs s1 = cr_refs ?s"
    by (rule vn_rele_ok)
  have "1 \<le> v_count s1 vp" using v [of vp] by (simp add: s1(3) dec_opt_at f(2))
  then obtain s2 where s2: "vn_rele (Some vp) s1 = Ret s2" "same_cache s1 s2" "v_count s2 = dec_opt (Some vp) (v_count s1)" "cr_refs s2 = cr_refs s1"
    by (rule vn_rele_ok)
  have "1 \<le> cr_refs s2 c" if "cred = Some c" for c
  proof -
    have "cr_refs ?s c = cr_refs st c + 1" by (subst f(3)) (use that in simp_all)
    then show ?thesis using t [OF that] by (simp add: s2(4) s1(4))
  qed
  then obtain s3 where s3: "nc_crfree cred s2 = Ret s3" "same_cache s2 s3" "v_count s3 = v_count s2" "cr_refs s3 = dec_opt cred (cr_refs s2)"
    using nc_crfree_ok by blast
  show thesis
  proof (rule that)
    show "dnlc_backout dp vp cred ?s = Ret s3" using s1(1) s2(1) s3(1) by (simp add: dnlc_backout_def)
    show "same_cache st s3" using f(1) s1(2) s2(2) s3(2) by (blast intro: same_cache_trans)
    show "v_count s3 = v_count st" by (simp add: fun_eq_iff s3(3) s2(3) s1(3) dec_opt_at f(2))
    show "cr_refs s3 = cr_refs st" by (simp add: fun_eq_iff s3(4) s2(4) s1(4) dec_opt_at f(3))
  qed
qed

section \<open>Reusing the oldest entry\<close>

text \<open>An entry \<open>i\<close> taken over for another name, at the end of the ring.\<close>

lemma reuse_rep:
  assumes rep: "dn_rep st (i # Q) C"
    and new: "valid e" "entry_ok e" "\<And>j. j < length (ncache st) \<Longrightarrow> valid (nce st j) \<Longrightarrow> key_of (nce st j) \<noteq> key_of e"
    and hk: "hash_key st (key_of e) = h"
    and l: "lrep st' (Q @ [i])" and hr: "hrep {} st' ((\<lambda>g. remove1 i (C g))(h := i # remove1 i (C h)))"
    and nc: "ncache st' = (ncache st)[i := e]" and va: "v_addr st' = v_addr st"
  shows "dn_rep st' (Q @ [i]) ((\<lambda>g. remove1 i (C g))(h := i # remove1 i (C h)))"
    and "names st' (Q @ [i]) = (if length (names st (i # Q)) < length (ncache st) then names st (i # Q) else tl (names st (i # Q))) @ [entry_of e]"
proof -
  let ?C = "(\<lambda>g. remove1 i (C g))(h := i # remove1 i (C h))"
  have Q: "set (i # Q) = {..<length (ncache st)}" and C: "\<And>h. set (C h) = {i. i < length (ncache st) \<and> valid (nce st i) \<and> hash_key st (key_of (nce st i)) = h}"
    and ok: "\<And>i. i < length (ncache st) \<Longrightarrow> entry_ok (nce st i)"
    and inj: "inj_on (\<lambda>i. key_of (nce st i)) {i. i < length (ncache st) \<and> valid (nce st i)}" using rep by (simp_all add: dn_rep_def)
  have dQ: "distinct (i # Q)" using rep lrep_distinct [of st "i # Q"] by (simp add: dn_rep_def)
  have i: "i < length (ncache st)" using Q by auto
  have dC: "distinct (C h)" for h by (rule hash_list [OF rep])
  have hke: "hash_key st' = hash_key st" by (rule hash_key_cong [OF va])
  have e: "nce st' j = (if j = i then e else nce st j)" for j using i by (simp add: nc nth_upd)
  have len: "length (ncache st') = length (ncache st)" by (simp add: nc)
  obtain a b where ab: "i # Q = a @ b" "\<forall>j \<in> set a. \<not> valid (nce st j)" "\<forall>j \<in> set b. valid (nce st j)" "names st (i # Q) = map (\<lambda>j. entry_of (nce st j)) b"
    by (rule dn_rep_split [OF rep])
  have 1: "set (Q @ [i]) = {..<length (ncache st')}" using Q by (auto simp: len)
  have 2: "set (?C g) = {j. j < length (ncache st') \<and> valid (nce st' j) \<and> hash_key st' (key_of (nce st' j)) = g}" for g
    using C [of g] C [of h] dC new(1) hk i by (auto simp: len e hke)
  have 3: "entry_ok (nce st' j)" if "j < length (ncache st')" for j using ok [of j] new(2) that by (simp add: e len)
  have 4: "inj_on (\<lambda>j. key_of (nce st' j)) {j. j < length (ncache st') \<and> valid (nce st' j)}"
  proof (rule inj_onI)
    fix j k assume "j \<in> {j. j < length (ncache st') \<and> valid (nce st' j)}" "k \<in> {j. j < length (ncache st') \<and> valid (nce st' j)}"
      and k: "key_of (nce st' j) = key_of (nce st' k)"
    then have j: "j < length (ncache st)" "j \<noteq> i \<Longrightarrow> valid (nce st j)" "k < length (ncache st)" "k \<noteq> i \<Longrightarrow> valid (nce st k)"
      by (auto simp: len e)
    show "j = k"
    proof (cases "j = i \<or> k = i")
      case True
      then show ?thesis using k new(3) [OF j(1) j(2)] new(3) [OF j(3) j(4)] by (auto simp: e split: if_splits)
    next
      case False
      then show ?thesis using k j inj_onD [OF inj, of j k] by (simp add: e)
    qed
  qed
  have out: "j \<noteq> i" if "j \<in> set Q" for j using dQ that by auto
  have a': "Q = tl a @ (if a = [] then tl b else b)" using ab(1) by (cases a; cases b) auto
  have 5: "(\<forall>j \<in> set (tl a). \<not> valid (nce st' j)) \<and> (\<forall>j \<in> set ((if a = [] then tl b else b) @ [i]). valid (nce st' j))"
  proof (intro conjI ballI)
    fix j assume j: "j \<in> set (tl a)"
    then have "j \<in> set Q" by (subst a') simp
    then show "\<not> valid (nce st' j)" using out [of j] ab(2) j list.set_sel(2) [of a j] by (cases a) (auto simp: e)
  next
    fix j assume j: "j \<in> set ((if a = [] then tl b else b) @ [i])"
    show "valid (nce st' j)"
    proof (cases "j = i")
      case True
      then show ?thesis using new(1) by (simp add: e)
    next
      case False
      then have "j \<in> set b" using j list.set_sel(2) [of b j] by (cases b) (auto split: if_splits)
      then show ?thesis using ab(3) False by (simp add: e)
    qed
  qed
  show "dn_rep st' (Q @ [i]) ?C"
    unfolding dn_rep_def
  proof (intro conjI)
    show "\<exists>a b. Q @ [i] = a @ b \<and> (\<forall>i \<in> set a. \<not> valid (nce st' i)) \<and> (\<forall>i \<in> set b. valid (nce st' i))"
    proof (intro exI conjI)
      show "Q @ [i] = tl a @ ((if a = [] then tl b else b) @ [i])" by (subst a') simp
    qed (use 5 in blast)+
  qed (use l hr 1 2 3 4 in blast)+
  have bl: "length b < length (ncache st) \<longleftrightarrow> a \<noteq> []" using arg_cong [OF ab(1), of length] dn_rep_length [OF rep]
    by (cases a) auto
  have "filter (\<lambda>j. valid (nce st' j)) Q = (if a = [] then tl b else b)"
  proof -
    have "filter (\<lambda>j. valid (nce st' j)) (tl a) = []" using 5 by (simp add: filter_empty_conv)
    moreover have "filter (\<lambda>j. valid (nce st' j)) (if a = [] then tl b else b) = (if a = [] then tl b else b)"
      using 5 by (intro filter_True) auto
    ultimately show ?thesis by (subst a') simp
  qed
  moreover have "map (\<lambda>j. entry_of (nce st' j)) (if a = [] then tl b else b) = map (\<lambda>j. entry_of (nce st j)) (if a = [] then tl b else b)"
  proof (intro map_cong refl)
    fix j assume "j \<in> set (if a = [] then tl b else b)"
    then have "j \<in> set Q" by (subst a') simp
    then show "entry_of (nce st' j) = entry_of (nce st j)" using out [of j] by (simp add: e)
  qed
  ultimately have "names st' (Q @ [i]) = map (\<lambda>j. entry_of (nce st j)) (if a = [] then tl b else b) @ [entry_of e]"
    using new(1) by (simp add: names_entry e)
  then show "names st' (Q @ [i]) = (if length (names st (i # Q)) < length (ncache st) then names st (i # Q) else tl (names st (i # Q))) @ [entry_of e]"
    using bl by (simp add: ab(4) map_tl)
qed

text \<open>The entry and the links after the reuse, before the old references are released.\<close>

definition filled :: "nat \<Rightarrow> int list \<Rightarrow> nat \<Rightarrow> nat option \<Rightarrow> ncache \<Rightarrow> ncache" where
  "filled dp name vp cred e = e\<lparr>nc_dp := Some dp, nc_vp := Some vp, nc_namlen := length name,
     nc_name := name @ drop (length name) (nc_name e), nc_cred := cred\<rparr>"

definition reuse_links :: "nat \<Rightarrow> (ncache \<Rightarrow> ncache) \<Rightarrow> nat \<Rightarrow> dnst \<Rightarrow> dnst" where
  "reuse_links i f hash st =
     (let s = upd_nc i f (RM_HASH (Ent i) (RM_LRU (Ent i) st)) in INS_HASH (Ent i) (Hd hash) (INS_LRU (Ent i) (lprev s Lru) s))"

definition dropped :: "ncache \<Rightarrow> dnst \<Rightarrow> nat option" where
  "dropped e st = (if drops_cred (nc_dp e) (nc_cred e) st \<or> drops_cred (nc_vp e) (nc_cred e) st then nc_cred e else None)"

lemma dnlc_reuse_alt: "dnlc_reuse i dp name vp cred hash st =
    obind (nc_crfree (dropped (nce st i) st) (reuse_links i (filled dp name vp cred) hash st))
      (\<lambda>st5. obind (rele_opt (nc_dp (nce st i)) st5) (rele_opt (nc_vp (nce st i))))"
  by (simp add: dnlc_reuse_def reuse_links_def dropped_def filled_def [abs_def] Let_def)

lemma filled_ok:
  fixes vp :: nat
  assumes "entry_ok e" and "name \<noteq> []" and "length name \<le> NC_NAMLEN"
  shows "valid (filled dp name vp cred e)" "entry_ok (filled dp name vp cred e)" "key_of (filled dp name vp cred e) = (dp, name, cred)"
    "entry_of (filled dp name vp cred e) = ((dp, name, cred), vp)"
  using assms by (auto simp: filled_def entry_ok_def key_of_def entry_of_def Suc_le_eq)

lemma reuse_links_rep:
  fixes vp :: nat
  assumes rep: "dn_rep st (i # Q) C" and name: "name \<noteq> []" "length name \<le> NC_NAMLEN"
    and new: "\<And>j. j < length (ncache st) \<Longrightarrow> valid (nce st j) \<Longrightarrow> key_of (nce st j) \<noteq> (dp, name, cred)"
    and h: "h = NC_HASH name (length name) (v_addr st dp)"
  defines "st' \<equiv> reuse_links i (filled dp name vp cred) h st" and "l \<equiv> names st (i # Q)"
  shows "caches st' ((if length l < length (ncache st) then l else tl l) @ [((dp, name, cred), vp)])"
    and "ncache st' = (ncache st)[i := filled dp name vp cred (nce st i)]" and "same_outer st st'"
proof -
  let ?e = "filled dp name vp cred (nce st i)" and ?s1 = "RM_LRU (Ent i) st" and ?C = "\<lambda>g. remove1 i (C g)"
  define s2 where "s2 = upd_nc i (filled dp name vp cred) (RM_HASH (Ent i) ?s1)"
  have s': "st' = INS_HASH (Ent i) (Hd h) (INS_LRU (Ent i) (lprev s2 Lru) s2)" by (simp add: st'_def reuse_links_def s2_def)
  have Q: "set (i # Q) = {..<length (ncache st)}" and l: "lrep st (i # Q)" and hr: "hrep {} st C" using rep by (simp_all add: dn_rep_def)
  have d: "distinct (i # Q)" by (rule lrep_distinct [OF l])
  have i: "i < length (ncache st)" using Q by auto
  have "entry_ok (nce st i)" using rep i by (simp add: dn_rep_def)
  note e = filled_ok [OF this name, of dp vp cred]
  have "lrep s2 Q" using lrep_remove1 [OF l, of i] by (simp add: s2_def)
  from lrep_back [OF this, of i] have l': "lrep st' (Q @ [i])" using d by (simp add: s')
  have "hrep {} ?s1 C" using hr hrep_cong [of ?s1 st "{}" C] by simp
  from hrep_remove1 [OF this, of i] have "hrep {i} (INS_LRU (Ent i) (lprev s2 Lru) s2) ?C"
    using hrep_cong [of "INS_LRU (Ent i) (lprev s2 Lru) s2" "RM_HASH (Ent i) ?s1" "{i}" ?C] by (simp add: s2_def)
  from hrep_insert [OF this, of h "[]" "remove1 i (C h)"] have h': "hrep {} st' (?C(h := i # remove1 i (C h)))" by (simp add: s')
  show nc: "ncache st' = (ncache st)[i := ?e]" by (simp add: s' s2_def upd_nc_def)
  show o: "same_outer st st'" by (simp add: s' s2_def)
  have va: "v_addr st' = v_addr st" using o by (simp add: same_outer_def)
  have hk: "hash_key st (key_of ?e) = h" by (simp add: e(3) hash_key_def h)
  have nw: "key_of (nce st j) \<noteq> key_of ?e" if "j < length (ncache st)" "valid (nce st j)" for j using new [OF that] by (simp add: e(3))
  note r = reuse_rep [OF rep e(1,2) nw hk l' h' nc va]
  show "caches st' ((if length l < length (ncache st) then l else tl l) @ [((dp, name, cred), vp)])"
    unfolding caches_def l_def using r e(4) by metis
qed

lemma taken_rep:
  assumes "same_cache st t"
  shows "dnlc_search dp name h cr t = dnlc_search dp name h cr st" "lnext t = lnext st"
proof -
  have "at_ent t P = at_ent st P" for P
  proof
    fix r show "at_ent t P r = at_ent st P r" using assms by (cases r) (simp_all add: same_cache_def)
  qed
  then show "dnlc_search dp name h cr t = dnlc_search dp name h cr st" using assms by (simp add: dnlc_search_def same_cache_def)
  show "lnext t = lnext st" using assms by (simp add: same_cache_def)
qed

text \<open>The references after a reuse: what is not released of the old credentials stays.\<close>

lemma reuse_ok:
  fixes dp vp :: nat
  assumes rep: "dn_rep st (i # Q) C" and held: "held st" and name: "name \<noteq> []" "length name \<le> NC_NAMLEN"
    and new: "\<And>j. j < length (ncache st) \<Longrightarrow> valid (nce st j) \<Longrightarrow> key_of (nce st j) \<noteq> (dp, name, cred)"
    and h: "h = NC_HASH name (length name) (v_addr st dp)" and cr: "\<And>c. cred = Some c \<Longrightarrow> cr_refs st c < 0x4000"
  defines "l \<equiv> names st (i # Q)" and "lost \<equiv> if dropped (nce st i) st = None then nc_cred (nce st i) else None"
  obtains st' where "dnlc_reuse i dp name vp cred h (taken dp vp cred st) = Ret st'"
    "caches st' ((if length l < length (ncache st) then l else tl l) @ [((dp, name, cred), vp)])"
    "others st' = others st" "cothers st' = (\<lambda>c. cothers st c + of_bool (lost = Some c))" "same_env st st'"
proof -
  let ?t = "taken dp vp cred st" and ?e = "nce st i" and ?f = "filled dp name vp cred"
  have pos: "0 \<le> v_count st v" "0 \<le> cr_refs st c" for v c
    using held vrefs_nonneg [of "ncache st" v] crefs_nonneg [of "ncache st" c] by (simp_all add: held_def others_def cothers_def) (smt (verit, best))+
  have "-32768 \<le> cr_refs st c \<and> cr_refs st c < 32767" if "cred = Some c" for c using cr [OF that] pos(2) [of c] by simp
  note t = taken_fields [of cred st dp vp, OF this]
  have dr: "drops_cred v c ?t = drops_cred v c st" for v c using t(1) by (cases v) (simp_all add: drops_cred_def same_cache_def)
  have te: "ncache ?t = ncache st" "v_addr ?t = v_addr st" "dropped e ?t = dropped e st" for e
    using t(1) by (simp_all add: same_cache_def dropped_def dr)
  have i: "i < length (ncache st)" using rep by (auto simp: dn_rep_def)
  have rt: "dn_rep ?t (i # Q) C" "names ?t (i # Q) = l" using same_cache_rep [OF t(1)] rep by (simp_all add: l_def)
  have nw: "key_of (nce ?t j) \<noteq> (dp, name, cred)" if "j < length (ncache ?t)" "valid (nce ?t j)" for j using new [of j] that by (simp add: te)
  have ht: "h = NC_HASH name (length name) (v_addr ?t dp)" by (simp add: h te)
  define s1 where "s1 = reuse_links i ?f h ?t"
  note r = reuse_links_rep [OF rt(1) name nw ht, of vp, folded s1_def]
  have o: "same_env ?t s1" "v_count s1 = v_count ?t" "cr_refs s1 = cr_refs ?t" using r(2,3) by (simp_all add: same_outer_def same_env_def)
  have ok: "entry_ok ?e" using rep i by (simp add: dn_rep_def)
  note hc = held_count [OF held i]
  have drop: "dropped ?e st = None \<or> dropped ?e st = nc_cred ?e" by (simp add: dropped_def)
  have "1 \<le> cr_refs s1 c" if "dropped ?e st = Some c" for c
    using hc(2) [of c] drop that by (simp add: o(3) t(3))
  then obtain s2 where s2: "nc_crfree (dropped ?e st) s1 = Ret s2" "same_cache s1 s2" "v_count s2 = v_count s1" "cr_refs s2 = dec_opt (dropped ?e st) (cr_refs s1)"
    using nc_crfree_ok by blast
  have "1 \<le> v_count s2 v" if "nc_dp ?e = Some v" for v
    using hc(1) [of v] that by (simp add: s2(3) o(2) t(2) of_bool_def split: if_splits)
  then obtain s3 where s3: "rele_opt (nc_dp ?e) s2 = Ret s3" "same_cache s2 s3" "v_count s3 = dec_opt (nc_dp ?e) (v_count s2)" "cr_refs s3 = cr_refs s2"
    using rele_opt_ok by blast
  have "1 \<le> v_count s3 v" if "nc_vp ?e = Some v" for v
    using hc(1) [of v] that by (simp add: s3(3) s2(3) o(2) t(2) dec_opt_at of_bool_def split: if_splits)
  then obtain s4 where s4: "rele_opt (nc_vp ?e) s3 = Ret s4" "same_cache s3 s4" "v_count s4 = dec_opt (nc_vp ?e) (v_count s3)" "cr_refs s4 = cr_refs s3"
    using rele_opt_ok by blast
  have sc: "same_cache s1 s4" using s2(2) s3(2) s4(2) by (blast intro: same_cache_trans)
  have nc: "ncache s4 = (ncache st)[i := ?f ?e]" using sc r(2) by (simp add: same_cache_def te)
  show thesis
  proof (rule that)
    show "dnlc_reuse i dp name vp cred h ?t = Ret s4"
      using s2(1) s3(1) s4(1) by (simp add: dnlc_reuse_alt te s1_def)
    show "caches s4 ((if length l < length (ncache st) then l else tl l) @ [((dp, name, cred), vp)])"
      using r(1) unfolding caches_def same_cache_rep [OF sc] rt(2) te(1) .
    show "others s4 = others st"
      by (simp add: fun_eq_iff others_def nc vrefs_upd [OF i] filled_def s4(3) s3(3) s2(3) o(2) t(2) dec_opt_at)
    show "cothers s4 = (\<lambda>c. cothers st c + of_bool (lost = Some c))"
      using drop by (auto simp: fun_eq_iff cothers_def nc crefs_upd [OF i] filled_def s4(4) s3(4) s2(4) o(3) t(3) dec_opt_at lost_def)
    show "same_env st s4" using sc t(1) o(1) by (simp add: same_env_def same_cache_def)
  qed
qed

section \<open>Entering a name\<close>

text \<open>The list after a name is entered, in a cache of \<open>n\<close> entries.\<close>

definition lru_enter :: "nat \<Rightarrow> nckey \<times> nat \<Rightarrow> (nckey \<times> nat) list \<Rightarrow> (nckey \<times> nat) list" where
  "lru_enter n p l = (if fst p \<in> fst ` set l \<or> n = 0 then l else (if length l < n then l else tl l) @ [p])"

text \<open>
  The credentials whose count is one too high afterwards: those of the name that has to go,
  unless one of its vnodes is an NFS one that uses other credentials.
\<close>

definition loses :: "dnst \<Rightarrow> nckey \<times> nat \<Rightarrow> (nckey \<times> nat) list \<Rightarrow> nat option" where
  "loses st p l =
     (if fst p \<notin> fst ` set l \<and> l \<noteq> [] \<and> length l = length (ncache st) then
        (case hd l of ((d, _, c), v) \<Rightarrow> if drops_cred (Some d) c st \<or> drops_cred (Some v) c st then None else c)
      else None)"

lemma dnlc_enter_ok:
  fixes dp vp :: nat
  assumes c: "caches st l" and held: "held st" and on: "doingcache st" and name: "name \<noteq> []" "length name \<le> NC_NAMLEN"
    and cr: "\<And>c. cred = Some c \<Longrightarrow> cr_refs st c < 0x4000"
  defines "n \<equiv> length (ncache st)" and "p \<equiv> ((dp, name, cred), vp)"
  shows "\<exists>st'. dnlc_enter dp name vp cred st = Ret st' \<and> caches st' (lru_enter n p l) \<and> others st' = others st \<and>
    cothers st' = (\<lambda>c. cothers st c + of_bool (loses st p l = Some c)) \<and> same_env st st'"
proof -
  let ?t = "taken dp vp cred st" and ?h = "NC_HASH name (length name) (v_addr st dp)"
  obtain Q C where rep: "dn_rep st Q C" and l: "l = names st Q" using c by (auto simp: caches_def)
  have pos: "0 \<le> v_count st v" "0 \<le> cr_refs st c" for v c
    using held vrefs_nonneg [of "ncache st" v] crefs_nonneg [of "ncache st" c] by (simp_all add: held_def others_def cothers_def) (smt (verit, best))+
  have cr': "0 \<le> cr_refs st c \<and> cr_refs st c < 32767" if "cred = Some c" for c using cr [OF that] pos(2) [of c] by simp
  then have "-32768 \<le> cr_refs st c \<and> cr_refs st c < 32767" if "cred = Some c" for c using that by force
  note t = taken_fields [of cred st dp vp, OF this]
  have sc: "same_cache st ?t" using t(1) by blast
  have e: "dnlc_enter dp name vp cred st = obind (dnlc_search dp name ?h (Cred cred) st) (\<lambda>r.
      if r \<noteq> None then dnlc_backout dp vp cred ?t
      else (case lnext st Lru of Ent i \<Rightarrow> dnlc_reuse i dp name vp cred ?h ?t | _ \<Rightarrow> dnlc_backout dp vp cred ?t))"
  proof -
    have g: "\<not> (case cred of None \<Rightarrow> False | Some c \<Rightarrow> 0x4000 \<le> cr_refs st c)" using cr by (auto split: option.split simp: not_le)
    have "dnlc_enter dp name vp cred st = obind (dnlc_search dp name ?h (Cred cred) ?t) (\<lambda>r.
      if r \<noteq> None then dnlc_backout dp vp cred ?t
      else (case lnext ?t Lru of Ent i \<Rightarrow> dnlc_reuse i dp name vp cred ?h ?t | _ \<Rightarrow> dnlc_backout dp vp cred ?t))"
      unfolding taken_def dnlc_enter_def Let_def using on name g by simp
    then show ?thesis unfolding taken_rep [OF sc] .
  qed
  obtain b where b: "dnlc_backout dp vp cred ?t = Ret b" "same_cache st b" "v_count b = v_count st" "cr_refs b = cr_refs st"
    using backout_ok [of cred st, OF cr' pos(1)] by blast
  have bc: "caches b l \<and> others b = others st \<and> cothers b = cothers st \<and> same_env st b"
    using c same_cache_rep [OF b(2)] b(2-4) by (auto simp: caches_def others_def cothers_def fun_eq_iff same_cache_def same_env_def)
  have keys: "(dp, name, cred) \<in> fst ` set l \<longleftrightarrow> (\<exists>i < length (ncache st). valid (nce st i) \<and> key_of (nce st i) = (dp, name, cred))"
    unfolding l names_set [OF rep] entry_of_def by force
  consider i where "i < length (ncache st)" "valid (nce st i)" "key_of (nce st i) = (dp, name, cred)" "dnlc_search dp name ?h (Cred cred) st = Ret (Some (Ent i))"
    | "\<forall>i < length (ncache st). valid (nce st i) \<longrightarrow> key_of (nce st i) \<noteq> (dp, name, cred)" "dnlc_search dp name ?h (Cred cred) st = Ret None"
    using search_key [OF rep name(1) refl, of dp cred] by blast
  then show ?thesis
  proof cases
    case 1
    then have "lru_enter n p l = l" "loses st p l = None" using keys by (auto simp: lru_enter_def loses_def p_def)
    moreover have "dnlc_enter dp name vp cred st = Ret b" using e 1(4) b(1) by simp
    ultimately show ?thesis using bc by (intro exI [of _ b]) simp
  next
    case 2
    have nk: "(dp, name, cred) \<notin> fst ` set l" using keys 2(1) by blast
    show ?thesis
    proof (cases Q)
      case Nil
      then have "n = 0" "l = []" using dn_rep_length [OF rep] l by (simp_all add: n_def names_def)
      moreover have "lnext st Lru = Lru" using lrep_next [of st Q] rep Nil by (simp add: dn_rep_def)
      then have "dnlc_enter dp name vp cred st = Ret b" using e 2(2) b(1) by simp
      ultimately show ?thesis using bc by (intro exI [of _ b]) (simp add: lru_enter_def loses_def)
    next
      case (Cons i R)
      have ln: "lnext st Lru = Ent i" using lrep_next [of st Q] rep Cons by (simp add: dn_rep_def)
      have n0: "n \<noteq> 0" using dn_rep_length [OF rep] Cons by (auto simp: n_def)
      have rep': "dn_rep st (i # R) C" using rep Cons by simp
      define lost where "lost = (if dropped (nce st i) st = None then nc_cred (nce st i) else None)"
      obtain st' where st': "dnlc_reuse i dp name vp cred ?h ?t = Ret st'"
        "caches st' ((if length l < n then l else tl l) @ [p])"
        "others st' = others st" "cothers st' = (\<lambda>c. cothers st c + of_bool (lost = Some c))" "same_env st st'"
        using reuse_ok [where dp = dp and cred = cred and vp = vp, OF rep' held name _ refl cr] 2(1) unfolding l Cons n_def p_def lost_def by blast
      have ok: "entry_ok (nce st i)" using rep' by (auto simp: dn_rep_def)
      obtain a b where ab: "i # R = a @ b" "\<forall>j \<in> set a. \<not> valid (nce st j)" "\<forall>j \<in> set b. valid (nce st j)" "names st (i # R) = map (\<lambda>j. entry_of (nce st j)) b"
        by (rule dn_rep_split [OF rep'])
      have full: "length l = n \<longleftrightarrow> a = []"
        using arg_cong [OF ab(1), of length] ab(4) l Cons dn_rep_length [OF rep] by (cases a) (auto simp: n_def)
      have "lost = loses st p l"
      proof (cases a)
        case (Cons x a')
        then have "\<not> valid (nce st i)" using ab(1,2) by auto
        then have "nc_cred (nce st i) = None" using ok by (auto simp: entry_ok_def)
        then show ?thesis using full Cons by (simp add: lost_def loses_def n_def)
      next
        case Nil
        then have i: "hd l = entry_of (nce st i)" "l \<noteq> []" using ab(1,4) l Cons by (metis list.map(2) list.sel(1) append_Nil list.discI)+
        have "valid (nce st i)" using ab(1,3) Nil by auto
        then obtain d v where dv: "nc_dp (nce st i) = Some d" "nc_vp (nce st i) = Some v" using ok by (auto simp: entry_ok_def)
        then have "entry_of (nce st i) = ((d, take (nc_namlen (nce st i)) (nc_name (nce st i)), nc_cred (nce st i)), v)"
          by (simp add: entry_of_def key_of_def)
        then show ?thesis using nk i full Nil dv
          by (auto simp: loses_def lost_def dropped_def p_def n_def drops_cred_def)
      qed
      moreover have "dnlc_enter dp name vp cred st = Ret st'" using e 2(2) ln st'(1) by simp
      moreover have "lru_enter n p l = (if length l < n then l else tl l) @ [p]" using nk n0 by (simp add: lru_enter_def p_def)
      ultimately show ?thesis using st'(2-5) by (intro exI [of _ st']) simp
    qed
  qed
qed

text \<open>Where caching is off, the name too long or the credentials too much in use, nothing happens.\<close>

lemma dnlc_enter_skip:
  "\<not> doingcache st \<or> length name > NC_NAMLEN \<or> (\<exists>c. cred = Some c \<and> 0x4000 \<le> cr_refs st c) \<Longrightarrow> dnlc_enter dp name vp cred st = Ret st"
  by (auto simp: dnlc_enter_def split: option.split)

end
