(* ===== verification/Dnlc_Reach.thy ===== *)
theory Dnlc_Reach
  imports Dnlc_Enter
begin

text \<open>Looking a name up, the start of the cache, and the runs of its operations.\<close>

section \<open>Looking up\<close>

lemma rep_reorder:
  assumes rep: "dn_rep st Q C" and i: "i < length (ncache st)" "valid (nce st i)"
    and l: "lrep st' (remove1 i Q @ [i])" and h: "hrep {} st' C'" and C: "\<And>h. set (C' h) = set (C h)"
    and nc: "ncache st' = ncache st" and va: "v_addr st' = v_addr st"
  shows "dn_rep st' (remove1 i Q @ [i]) C'"
    and "names st' (remove1 i Q @ [i]) = filter (\<lambda>q. q \<noteq> entry_of (nce st i)) (names st Q) @ [entry_of (nce st i)]"
proof -
  have hk: "hash_key st' = hash_key st" by (rule hash_key_cong [OF va])
  have Q: "set Q = {..<length (ncache st)}" and inj: "inj_on (\<lambda>i. key_of (nce st i)) {i. i < length (ncache st) \<and> valid (nce st i)}"
    using rep by (simp_all add: dn_rep_def)
  have dQ: "distinct Q" using rep lrep_distinct by (auto simp: dn_rep_def)
  obtain a b where ab: "Q = a @ b" "\<forall>i \<in> set a. \<not> valid (nce st i)" "\<forall>i \<in> set b. valid (nce st i)" "names st Q = map (\<lambda>i. entry_of (nce st i)) b"
    by (rule dn_rep_split [OF rep])
  have ia: "i \<notin> set a" using ab(2) i(2) by auto
  then have Q': "remove1 i Q @ [i] = a @ (remove1 i b @ [i])" by (simp add: ab(1) remove1_append)
  have b': "\<forall>j \<in> set (remove1 i b @ [i]). valid (nce st j)" using ab(3) i(2) set_remove1_subset [of i b] by auto
  have "set (remove1 i Q @ [i]) = {..<length (ncache st)}" using dQ Q i(1) by auto
  moreover have "\<exists>a b. remove1 i Q @ [i] = a @ b \<and> (\<forall>i \<in> set a. \<not> valid (nce st i)) \<and> (\<forall>i \<in> set b. valid (nce st i))"
    using Q' ab(2) b' by blast
  ultimately show "dn_rep st' (remove1 i Q @ [i]) C'"
    using rep l h unfolding dn_rep_def nc hk C by (elim conjE) (intro conjI; assumption)
  have "filter (\<lambda>j. valid (nce st j)) (remove1 i Q @ [i]) = remove1 i b @ [i]"
    unfolding Q' filter_append using filter_False [OF ab(2)] b' by simp
  moreover have "remove1 i b = filter (\<lambda>j. j \<noteq> i) b" using dQ ab(1) by (auto simp: distinct_remove1_removeAll removeAll_filter_not_eq intro!: filter_cong)
  moreover have "filter (\<lambda>q. q \<noteq> entry_of (nce st i)) (map (\<lambda>j. entry_of (nce st j)) b) = map (\<lambda>j. entry_of (nce st j)) (filter (\<lambda>j. j \<noteq> i) b)"
  proof -
    have "entry_of (nce st j) \<noteq> entry_of (nce st i) \<longleftrightarrow> j \<noteq> i" if "j \<in> set b" for j
      using inj_onD [OF inj, of j i] that ab(1,3) Q i by (auto simp: entry_of_def)
    then show ?thesis unfolding filter_map comp_def by (intro arg_cong [of _ _ "map _"] filter_cong refl)
  qed
  ultimately show "names st' (remove1 i Q @ [i]) = filter (\<lambda>q. q \<noteq> entry_of (nce st i)) (names st Q) @ [entry_of (nce st i)]"
    unfolding ab(4) by (simp add: names_entry nc)
qed

text \<open>The place in front of the one before.\<close>

definition step_forward :: "nat \<Rightarrow> nat \<Rightarrow> dnst \<Rightarrow> dnst" where
  "step_forward i hash st =
     (if hprev st (Ent i) \<noteq> Hd hash then let p = hprev st (hprev st (Ent i)) in INS_HASH (Ent i) p (RM_HASH (Ent i) st) else st)"

lemma step_forward_fields [simp]:
  "ncache (step_forward i h st) = ncache st" "lnext (step_forward i h st) = lnext st" "lprev (step_forward i h st) = lprev st"
  "same_outer st0 (step_forward i h st) = same_outer st0 st"
  by (simp_all add: step_forward_def Let_def)

lemma step_forward_rep:
  assumes r: "hrep {} st C" and i: "i \<in> set (C h)"
  shows "\<exists>C'. hrep {} (step_forward i h st) C' \<and> (\<forall>g. set (C' g) = set (C g))"
proof -
  obtain a b where C: "C h = a @ i # b" using i by (meson split_list)
  have rg: "hashr.rings st (Hd h) (map Ent a @ Ent i # map Ent b)" using r C by (auto simp: hrep_def dest: spec [of _ h])
  note p = ring_remove(3) [OF rg]
  show ?thesis
  proof (cases a rule: rev_cases)
    case Nil
    then have "step_forward i h st = st" using p by (simp add: step_forward_def)
    then show ?thesis using r by auto
  next
    case (snoc a' j)
    have pi: "hprev st (Ent i) = Ent j" using p snoc by simp
    have rj: "hashr.rings st (Hd h) (map Ent a' @ Ent j # map Ent (i # b))" using rg snoc by simp
    have pj: "hprev st (Ent j) = last (Hd h # map Ent a')" by (rule ring_remove(3) [OF rj])
    have s: "step_forward i h st = INS_HASH (Ent i) (last (Hd h # map Ent a')) (RM_HASH (Ent i) st)"
      by (simp add: step_forward_def pi pj Let_def del: last.simps)
    have h1: "hrep {i} (RM_HASH (Ent i) st) (C(h := a @ b))" by (rule hrep_remove [OF r C])
    have "(C(h := a @ b)) h = a' @ j # b" using snoc by simp
    from hrep_insert [OF h1 this] have "hrep {} (step_forward i h st) (C(h := a' @ i # j # b))" unfolding s fun_upd_upd .
    moreover have "set ((C(h := a' @ i # j # b)) g) = set (C g)" for g using C snoc by auto
    ultimately show ?thesis by blast
  qed
qed

text \<open>The names a search is after.\<close>

definition wanted :: "nat \<Rightarrow> int list \<Rightarrow> credarg \<Rightarrow> nckey \<times> nat \<Rightarrow> bool" where
  "wanted dp name cr p \<longleftrightarrow> fst (fst p) = dp \<and> fst (snd (fst p)) = name \<and> (cr = ANYCRED \<or> cr = Cred (snd (snd (fst p))))"

lemma search_wanted:
  assumes rep: "dn_rep st Q C" and name: "name \<noteq> []" and h: "h = NC_HASH name (length name) (v_addr st dp)"
  shows "(\<exists>i < length (ncache st). valid (nce st i) \<and> wanted dp name cr (entry_of (nce st i)) \<and> dnlc_search dp name h cr st = Ret (Some (Ent i))) \<or>
    (\<forall>i < length (ncache st). valid (nce st i) \<longrightarrow> \<not> wanted dp name cr (entry_of (nce st i))) \<and> dnlc_search dp name h cr st = Ret None"
proof (cases cr)
  case ANYCRED
  have w: "wanted dp name cr (entry_of e) \<longleftrightarrow> fst (key_of e) = dp \<and> fst (snd (key_of e)) = name" for e by (simp add: wanted_def ANYCRED entry_of_def)
  show ?thesis unfolding w unfolding ANYCRED using search_any [OF rep name h] by blast
next
  case (Cred c)
  have w: "wanted dp name cr (entry_of e) \<longleftrightarrow> key_of e = (dp, name, c)" for e by (auto simp: wanted_def Cred entry_of_def key_of_def)
  show ?thesis unfolding w unfolding Cred using search_key [OF rep name h, of c] by blast
qed

lemma dnlc_lookup_ok:
  assumes c: "caches st l" and on: "doingcache st" and name: "name \<noteq> []" "length name \<le> NC_NAMLEN"
  shows "(\<exists>p st'. p \<in> set l \<and> wanted dp name cr p \<and> dnlc_lookup dp name cr st = Ret (Some (snd p), st') \<and>
      caches st' (filter (\<lambda>q. q \<noteq> p) l @ [p]) \<and> same_refs st st' \<and> same_env st st') \<or>
    (\<forall>p \<in> set l. \<not> wanted dp name cr p) \<and> dnlc_lookup dp name cr st = Ret (None, st)"
proof -
  obtain Q C where rep: "dn_rep st Q C" and l: "l = names st Q" using c by (auto simp: caches_def)
  let ?h = "NC_HASH name (length name) (v_addr st dp)"
  consider i where "i < length (ncache st)" "valid (nce st i)" "wanted dp name cr (entry_of (nce st i))" "dnlc_search dp name ?h cr st = Ret (Some (Ent i))"
    | "\<forall>i < length (ncache st). valid (nce st i) \<longrightarrow> \<not> wanted dp name cr (entry_of (nce st i))" "dnlc_search dp name ?h cr st = Ret None"
    using search_wanted [OF rep name(1) refl, of dp cr] by blast
  then show ?thesis
  proof cases
    case 2
    then have "\<forall>p \<in> set l. \<not> wanted dp name cr p" unfolding l names_set [OF rep] by auto
    moreover have "dnlc_lookup dp name cr st = Ret (None, st)" using on name 2(2) by (simp add: dnlc_lookup_def)
    ultimately show ?thesis by blast
  next
    case 1
    let ?s1 = "RM_LRU (Ent i) st"
    define s2 where "s2 = INS_LRU (Ent i) (lprev ?s1 Lru) ?s1"
    define s3 where "s3 = step_forward i ?h s2"
    have Q: "set Q = {..<length (ncache st)}" and lr: "lrep st Q" and hr: "hrep {} st C" and ok: "entry_ok (nce st i)"
      and C: "i \<in> set (C ?h)"
      using rep 1 by (auto simp: dn_rep_def hash_key_def wanted_def entry_of_def split: prod.splits)
    have d: "distinct Q" by (rule lrep_distinct [OF lr])
    have "lrep ?s1 (remove1 i Q)" using lrep_remove1 [OF lr] 1(1) Q by simp
    from lrep_back [OF this, of i] have l3: "lrep s3 (remove1 i Q @ [i])" using d by (simp add: s3_def s2_def)
    have "hrep {} s2 C" using hr hrep_cong [of s2 st "{}" C] by (simp add: s2_def)
    from step_forward_rep [OF this C] obtain C' where C': "hrep {} s3 C'" "\<And>g. set (C' g) = set (C g)" unfolding s3_def by blast
    have nc: "ncache s3 = ncache st" "same_outer st s3" by (simp_all add: s3_def s2_def)
    then have va: "v_addr s3 = v_addr st" by (simp add: same_outer_def)
    note r = rep_reorder [OF rep 1(1,2) l3 C' nc(1) va]
    obtain v where v: "nc_vp (nce st i) = Some v" using ok 1(2) by (auto simp: entry_ok_def)
    have "dnlc_lookup dp name cr st = Ret (nc_vp (nce s3 i), s3)"
      using on name 1(4) by (simp add: dnlc_lookup_def Let_def s3_def s2_def step_forward_def)
    then have "dnlc_lookup dp name cr st = Ret (Some (snd (entry_of (nce st i))), s3)" by (simp add: nc(1) v entry_of_def)
    moreover have "caches s3 (filter (\<lambda>q. q \<noteq> entry_of (nce st i)) l @ [entry_of (nce st i)])" using r by (auto simp: caches_def l)
    moreover have "entry_of (nce st i) \<in> set l" using 1(1,2) unfolding l names_set [OF rep] by blast
    moreover have "same_refs st s3" "same_env st s3"
      using nc by (auto simp: same_refs_def same_env_def same_outer_def others_def cothers_def fun_eq_iff)
    ultimately show ?thesis using 1(3) by blast
  qed
qed

lemma dnlc_lookup_skip: "\<not> doingcache st \<or> length name > NC_NAMLEN \<Longrightarrow> dnlc_lookup dp name cr st = Ret (None, st)"
  by (simp add: dnlc_lookup_def)

section \<open>The start\<close>

text \<open>
  The entries as the loader leaves them. The links of places outside of the arrays, which
  nothing reads, are taken to be set.
\<close>

definition cold :: "dnst \<Rightarrow> bool" where
  "cold st \<longleftrightarrow> (\<forall>e \<in> set (ncache st). length (nc_name e) = NC_NAMLEN) \<and>
     (\<forall>i \<ge> length (ncache st). hnext st (Ent i) = Ent i \<and> hprev st (Ent i) = Ent i) \<and>
     (\<forall>h \<ge> NC_HASH_SIZE. hnext st (Hd h) = Hd h \<and> hprev st (Hd h) = Hd h)"

definition init_entry :: "nat \<Rightarrow> dnst \<Rightarrow> dnst" where
  "init_entry i s = upd_nc i cleared (NULL_HASH (Ent i) (INS_LRU (Ent i) Lru s))"

lemma NULL_HASH_links [simp]: "hnext (NULL_HASH r s) = (hnext s)(r := r)" "hprev (NULL_HASH r s) = (hprev s)(r := r)"
  by (simp_all add: NULL_HASH_def link_defs)

lemma fold_null:
  "ncache (fold (\<lambda>h. NULL_HASH (Hd h)) xs s) = ncache s" "lnext (fold (\<lambda>h. NULL_HASH (Hd h)) xs s) = lnext s"
  "lprev (fold (\<lambda>h. NULL_HASH (Hd h)) xs s) = lprev s" "same_outer st0 (fold (\<lambda>h. NULL_HASH (Hd h)) xs s) = same_outer st0 s"
  "hnext (fold (\<lambda>h. NULL_HASH (Hd h)) xs s) r = (if r \<in> Hd ` set xs then r else hnext s r)"
  "hprev (fold (\<lambda>h. NULL_HASH (Hd h)) xs s) r = (if r \<in> Hd ` set xs then r else hprev s r)"
  by (induction xs arbitrary: s) auto

lemma fold_init:
  assumes "lrep s []" and "k \<le> length (ncache s)"
  defines "t \<equiv> fold init_entry [0..<k] s"
  shows "lrep t (rev [0..<k]) \<and> ncache t = map (\<lambda>i. if i < k then cleared (nce s i) else nce s i) [0..<length (ncache s)] \<and>
    (\<forall>r. hnext t r = (if r \<in> Ent ` {..<k} then r else hnext s r) \<and> hprev t r = (if r \<in> Ent ` {..<k} then r else hprev s r)) \<and> same_outer s t"
  using assms(2) unfolding t_def
proof (induction k)
  case 0
  then show ?case using assms(1) by (simp add: map_nth)
next
  case (Suc k)
  let ?t = "fold init_entry [0..<k] s"
  have IH: "lrep ?t (rev [0..<k])" "ncache ?t = map (\<lambda>i. if i < k then cleared (nce s i) else nce s i) [0..<length (ncache s)]"
    "\<And>r. hnext ?t r = (if r \<in> Ent ` {..<k} then r else hnext s r) \<and> hprev ?t r = (if r \<in> Ent ` {..<k} then r else hprev s r)" "same_outer s ?t"
    using Suc by simp_all
  have f: "fold init_entry [0..<Suc k] s = init_entry k ?t" by simp
  have "lrep (init_entry k ?t) (k # rev [0..<k])" using lrep_front [OF IH(1), of k] by (simp add: init_entry_def)
  moreover have "ncache (init_entry k ?t) = map (\<lambda>i. if i < Suc k then cleared (nce s i) else nce s i) [0..<length (ncache s)]"
  proof (rule nth_equalityI)
    have u: "ncache (init_entry k ?t) = (ncache ?t)[k := cleared (nce ?t k)]" by (simp add: init_entry_def upd_nc_def)
    show "length (ncache (init_entry k ?t)) = length (map (\<lambda>i. if i < Suc k then cleared (nce s i) else nce s i) [0..<length (ncache s)])"
      unfolding u IH(2) by simp
    fix j assume "j < length (ncache (init_entry k ?t))"
    then have j: "j < length (ncache s)" unfolding u IH(2) by simp
    then show "nce (init_entry k ?t) j = map (\<lambda>i. if i < Suc k then cleared (nce s i) else nce s i) [0..<length (ncache s)] ! j"
      unfolding u using Suc.prems by (cases "j = k") (simp_all add: IH(2))
  qed
  moreover have "same_outer s (init_entry k ?t)" using IH(4) by (simp add: init_entry_def)
  moreover have "hnext (init_entry k ?t) r = (if r \<in> Ent ` {..<Suc k} then r else hnext s r) \<and> hprev (init_entry k ?t) r = (if r \<in> Ent ` {..<Suc k} then r else hprev s r)" for r
    using IH(3) [of r] by (auto simp: init_entry_def lessThan_Suc)
  ultimately show ?case unfolding f by simp
qed

lemma dnlc_init_alt: "dnlc_init st = fold (\<lambda>h. NULL_HASH (Hd h)) [0..<NC_HASH_SIZE]
    (fold init_entry [0..<length (ncache st)] (set_lprev Lru Lru (set_lnext Lru Lru st)))"
  by (simp add: dnlc_init_def init_entry_def [abs_def] cleared_def [abs_def])

lemma vrefs_cleared: "vrefs (map (\<lambda>i. cleared (f i)) xs) v = 0" "crefs (map (\<lambda>i. cleared (f i)) xs) c = 0"
  by (simp_all add: vrefs_def crefs_def cleared_def comp_def)

lemma dnlc_init_ok:
  assumes cold: "cold st"
  shows "caches (dnlc_init st) []" and "others (dnlc_init st) = v_count st" and "cothers (dnlc_init st) = cr_refs st"
    and "same_env st (dnlc_init st)" and "same_outer st (dnlc_init st)"
proof -
  let ?n = "length (ncache st)" and ?s = "set_lprev Lru Lru (set_lnext Lru Lru st)" and ?i = "dnlc_init st"
  have s: "lrep ?s []" "same_outer st ?s" by (simp_all add: link_defs same_outer_def)
  define t where "t = fold init_entry [0..<?n] ?s"
  have t: "lrep t (rev [0..<?n])" "ncache t = map (\<lambda>i. cleared (nce st i)) [0..<?n]" "same_outer ?s t"
    "\<And>r. hnext t r = (if r \<in> Ent ` {..<?n} then r else hnext st r) \<and> hprev t r = (if r \<in> Ent ` {..<?n} then r else hprev st r)"
    using fold_init [OF s(1), of ?n] by (simp_all add: t_def)
  have i: "?i = fold (\<lambda>h. NULL_HASH (Hd h)) [0..<NC_HASH_SIZE] t" by (simp add: dnlc_init_alt t_def)
  have nc: "ncache ?i = map (\<lambda>i. cleared (nce st i)) [0..<?n]" unfolding i fold_null by (rule t(2))
  have lr: "lrep ?i (rev [0..<?n])" unfolding i fold_null by (rule t(1))
  have hn: "hnext ?i r = r \<and> hprev ?i r = r" if "r \<noteq> Lru" for r
    using cold t(4) [of r] that by (cases r) (auto simp: i fold_null cold_def not_less image_iff)
  have hr: "hrep {} ?i (\<lambda>_. [])" using hn by (simp add: hrep_def)
  have e: "nce ?i j = cleared (nce st j)" if "j < ?n" for j using that by (simp add: nc)
  have "entry_ok (cleared (nce st j))" if "j < ?n" for j using cold that by (auto simp: cold_def entry_ok_def cleared_def)
  moreover have "\<not> valid (cleared x)" for x by (simp add: cleared_def)
  ultimately have "dn_rep ?i (rev [0..<?n]) (\<lambda>_. [])"
    unfolding dn_rep_def
  proof (intro conjI)
    show "\<exists>a b. rev [0..<?n] = a @ b \<and> (\<forall>j \<in> set a. \<not> valid (nce ?i j)) \<and> (\<forall>j \<in> set b. valid (nce ?i j))"
      using e by (intro exI [of _ "rev [0..<?n]"] exI [of _ "[]"]) (simp add: cleared_def)
  qed (use lr hr e in \<open>auto simp: nc inj_on_def cleared_def\<close>)
  moreover have "names ?i (rev [0..<?n]) = []" using e by (auto simp: names_entry cleared_def filter_empty_conv)
  ultimately show "caches ?i []" by (metis caches_def)
  have "same_outer st t" using t(3) s(2) by (simp add: same_outer_def)
  then show o: "same_outer st ?i" unfolding i fold_null(4) .
  then show "others ?i = v_count st" "cothers ?i = cr_refs st" "same_env st ?i"
    by (auto simp: fun_eq_iff others_def cothers_def nc vrefs_cleared same_outer_def same_env_def)
qed

section \<open>Runs\<close>

datatype dncall = Enter nat "int list" nat "nat option" | Lookup nat "int list" credarg | Remove nat "int list"
  | Purge | PurgeVp nat | PurgeDev int | Purge1

fun dn_exec :: "dncall \<Rightarrow> dnst \<Rightarrow> dnst outcome" where
  "dn_exec (Enter dp name vp cred) st = dnlc_enter dp name vp cred st"
| "dn_exec (Lookup dp name cred) st = obind (dnlc_lookup dp name cred st) (\<lambda>(v, st1). Ret st1)"
| "dn_exec (Remove dp name) st = dnlc_remove dp name st"
| "dn_exec Purge st = dnlc_purge st"
| "dn_exec (PurgeVp v) st = dnlc_purge_vp v st"
| "dn_exec (PurgeDev dev) st = dnlc_purge_dev dev st"
| "dn_exec Purge1 st = obind (dnlc_purge1 st) (\<lambda>(b, st1). Ret st1)"

text \<open>Names are not empty: \<^verbatim>\<open>lookuppn\<close> answers for an empty component itself.\<close>

fun named :: "dncall \<Rightarrow> bool" where
  "named (Enter dp name vp cred) \<longleftrightarrow> name \<noteq> []"
| "named (Lookup dp name cred) \<longleftrightarrow> name \<noteq> []"
| "named (Remove dp name) \<longleftrightarrow> name \<noteq> []"
| "named _ \<longleftrightarrow> True"

text \<open>The rest of the kernel takes and releases references of its own, and keeps off the cache.\<close>

definition dn_rest :: "dnst \<Rightarrow> dnst \<Rightarrow> bool" where
  "dn_rest st st' \<longleftrightarrow> hnext st' = hnext st \<and> hprev st' = hprev st \<and> lnext st' = lnext st \<and> lprev st' = lprev st \<and>
     ncache st' = ncache st \<and> v_addr st' = v_addr st \<and> held st'"

inductive dn_reach :: "dnst \<Rightarrow> bool" where
  boot: "cold st \<Longrightarrow> (\<forall>v. 0 \<le> v_count st v) \<Longrightarrow> (\<forall>c. 0 \<le> cr_refs st c) \<Longrightarrow> dn_reach (dnlc_init st)"
| call: "dn_reach st \<Longrightarrow> named c \<Longrightarrow> dn_exec c st = Ret st' \<Longrightarrow> dn_reach st'"
| rest: "dn_reach st \<Longrightarrow> dn_rest st st' \<Longrightarrow> dn_reach st'"

lemma filters_exec: "filters st l keep r \<Longrightarrow> held st \<Longrightarrow> \<exists>st' l'. r = Ret st' \<and> caches st' l' \<and> held st'"
  unfolding filters_def using same_refs_held by blast

lemma dn_exec_ok:
  assumes c: "caches st l" and h: "held st" and n: "named c"
  shows "\<exists>st' l'. dn_exec c st = Ret st' \<and> caches st' l' \<and> held st'"
proof (cases c)
  case [simp]: (Enter dp name vp cred)
  show ?thesis
  proof (cases "\<not> doingcache st \<or> length name > NC_NAMLEN \<or> (\<exists>c. cred = Some c \<and> 0x4000 \<le> cr_refs st c)")
    case True
    then show ?thesis using dnlc_enter_skip c h by auto
  next
    case False
    then have cr: "\<And>c. cred = Some c \<Longrightarrow> cr_refs st c < 0x4000" by force
    obtain st' where st': "dnlc_enter dp name vp cred st = Ret st'" "caches st' (lru_enter (length (ncache st)) ((dp, name, cred), vp) l)"
      "others st' = others st" "cothers st' = (\<lambda>c. cothers st c + of_bool (loses st ((dp, name, cred), vp) l = Some c))"
      using dnlc_enter_ok [where dp = dp and name = name and vp = vp and cred = cred, OF c h _ _ _ cr] n False by auto
    have "held st'" using h by (simp add: held_def st'(3,4))
    then show ?thesis using st'(1,2) by auto
  qed
next
  case [simp]: (Lookup dp name cr)
  show ?thesis
  proof (cases "\<not> doingcache st \<or> length name > NC_NAMLEN")
    case True
    then show ?thesis using dnlc_lookup_skip c h by auto
  next
    case False
    then show ?thesis using dnlc_lookup_ok [OF c, of name dp cr] n c h same_refs_held by auto
  qed
next
  case [simp]: (Remove dp name)
  then show ?thesis using filters_exec [OF dnlc_remove_filters [OF c h] h] n by simp
next
  case [simp]: Purge
  then show ?thesis using filters_exec [OF dnlc_purge_filters [OF c h] h] by simp
next
  case [simp]: (PurgeVp v)
  then show ?thesis using filters_exec [OF dnlc_purge_vp_filters [OF c h] h] by simp
next
  case [simp]: (PurgeDev dev)
  then show ?thesis using filters_exec [OF dnlc_purge_dev_filters [OF c h] h] by simp
next
  case [simp]: Purge1
  then show ?thesis using dnlc_purge1_ok [OF c h] same_refs_held [of st] h by auto
qed

lemma dn_rest_caches: "dn_rest st st' \<Longrightarrow> caches st l \<Longrightarrow> caches st' l"
proof -
  assume r: "dn_rest st st'" and c: "caches st l"
  have "hrep {} st' C = hrep {} st C" "hash_key st' = hash_key st" for C
    by (rule hrep_cong hash_key_cong; use r in \<open>simp add: dn_rest_def\<close>)+
  then have "dn_rep st' Q C = dn_rep st Q C" "names st' Q = names st Q" for Q C
    using r by (simp_all add: dn_rest_def dn_rep_def names_def)
  then show ?thesis using c by (simp add: caches_def)
qed

lemma dn_reach_inv: "dn_reach st \<Longrightarrow> (\<exists>l. caches st l) \<and> held st"
proof (induction rule: dn_reach.induct)
  case (boot st)
  then show ?case using dnlc_init_ok [OF boot(1)] by (auto simp: held_def)
next
  case (call st c st')
  then show ?case using dn_exec_ok by force
next
  case (rest st st')
  then show ?case using dn_rest_caches by (auto simp: dn_rest_def)
qed

end
