(* ===== verification/Dnlc_Props.thy ===== *)
theory Dnlc_Props
  imports Dnlc_Reach
begin

text \<open>The properties of the directory name cache, with an example cache of two entries.\<close>

section \<open>An example\<close>

text \<open>Vnodes 1 and 2 are directories; the file vnodes are NFS ones that hold credentials 7 of their own.\<close>

definition ex_blank :: ncache where
  "ex_blank = \<lparr>nc_vp = None, nc_dp = None, nc_namlen = 0, nc_name = replicate NC_NAMLEN 0, nc_cred = None\<rparr>"

definition ex_dn0 :: dnst where
  "ex_dn0 = \<lparr>hnext = \<lambda>r. r, hprev = \<lambda>r. r, lnext = \<lambda>r. r, lprev = \<lambda>r. r, ncache = [ex_blank, ex_blank], doingcache = True,
     v_count = \<lambda>v. 1, v_addr = \<lambda>v. 1024 * int v, v_fs = \<lambda>v. if v = 5 then VUFS else VNFS, r_rcred = \<lambda>v. Some 7, r_wcred = \<lambda>v. Some 7,
     i_dev = \<lambda>v. 3, cr_refs = \<lambda>c. 1, cr_freed = [], inactive = []\<rparr>"

abbreviation (input) nm_a :: "int list" where "nm_a \<equiv> [97]"
abbreviation (input) nm_bc :: "int list" where "nm_bc \<equiv> [98, 99]"
abbreviation (input) nm_d :: "int list" where "nm_d \<equiv> [100]"

fun ret_of :: "'a outcome \<Rightarrow> 'a" where
  "ret_of (Ret x) = x"

definition ex_dn1 :: dnst where "ex_dn1 = dnlc_init ex_dn0"
definition ex_dn2 :: dnst where "ex_dn2 = ret_of (dnlc_enter 1 nm_a 3 (Some 7) ex_dn1)"
definition ex_dn3 :: dnst where "ex_dn3 = ret_of (dnlc_enter 2 nm_bc 5 None ex_dn2)"

definition ex_names :: "(nckey \<times> nat) list" where
  "ex_names = [((1, nm_a, Some 7), 3), ((2, nm_bc, None), 5)]"

lemma ex_cold: "cold ex_dn0"
  by (simp add: cold_def ex_dn0_def ex_blank_def)

lemma ex_dn_reach: "dn_reach ex_dn1"
  unfolding ex_dn1_def by (rule dn_reach.boot [OF ex_cold]) (simp_all add: ex_dn0_def)

lemma ex_dn1: "caches ex_dn1 []" "held ex_dn1" "same_outer ex_dn0 ex_dn1" "length (ncache ex_dn1) = 2"
proof -
  note i = dnlc_init_ok [OF ex_cold, folded ex_dn1_def]
  show "caches ex_dn1 []" "same_outer ex_dn0 ex_dn1" by (rule i)+
  show "held ex_dn1" using i(2,3) by (simp add: held_def ex_dn0_def)
  show "length (ncache ex_dn1) = 2" using i(4) by (simp add: same_env_def ex_dn0_def)
qed

lemma ex_dn2: "dnlc_enter 1 nm_a 3 (Some 7) ex_dn1 = Ret ex_dn2" "caches ex_dn2 [((1, nm_a, Some 7), 3)]" "held ex_dn2" "same_env ex_dn1 ex_dn2"
proof -
  have on: "doingcache ex_dn1" "cr_refs ex_dn1 7 < 0x4000" using ex_dn1(3) by (simp_all add: same_outer_def ex_dn0_def)
  obtain st' where st': "dnlc_enter 1 nm_a 3 (Some 7) ex_dn1 = Ret st'" "caches st' [((1, nm_a, Some 7), 3)]" "others st' = others ex_dn1"
    "cothers st' = cothers ex_dn1" "same_env ex_dn1 st'"
    using dnlc_enter_ok [where dp = 1 and name = nm_a and vp = 3 and cred = "Some 7", OF ex_dn1(1,2) on(1)] on(2)
    by (auto simp: lru_enter_def loses_def ex_dn1(4))
  then have "ex_dn2 = st'" by (simp add: ex_dn2_def)
  then show "dnlc_enter 1 nm_a 3 (Some 7) ex_dn1 = Ret ex_dn2" "caches ex_dn2 [((1, nm_a, Some 7), 3)]" "held ex_dn2" "same_env ex_dn1 ex_dn2"
    using st' ex_dn1(2) by (simp_all add: held_def)
qed

lemma ex_env: "doingcache ex_dn2" "length (ncache ex_dn2) = 2" "v_fs ex_dn2 = v_fs ex_dn0" "r_rcred ex_dn2 = r_rcred ex_dn0" "r_wcred ex_dn2 = r_wcred ex_dn0"
    "i_dev ex_dn2 = i_dev ex_dn0"
  using ex_dn2(4) ex_dn1(3,4) by (auto simp: same_env_def same_outer_def ex_dn0_def)

lemma ex_dn3: "dnlc_enter 2 nm_bc 5 None ex_dn2 = Ret ex_dn3" "caches ex_dn3 ex_names" "held ex_dn3" "same_env ex_dn2 ex_dn3"
proof -
  obtain st' where st': "dnlc_enter 2 nm_bc 5 None ex_dn2 = Ret st'" "caches st' ex_names" "others st' = others ex_dn2"
    "cothers st' = cothers ex_dn2" "same_env ex_dn2 st'"
    using dnlc_enter_ok [where dp = 2 and name = nm_bc and vp = 5 and cred = None, OF ex_dn2(2,3) ex_env(1)]
    by (auto simp: lru_enter_def loses_def ex_env(2) ex_names_def)
  then have "ex_dn3 = st'" by (simp add: ex_dn3_def)
  then show "dnlc_enter 2 nm_bc 5 None ex_dn2 = Ret ex_dn3" "caches ex_dn3 ex_names" "held ex_dn3" "same_env ex_dn2 ex_dn3"
    using st' ex_dn2(3) by (simp_all add: held_def)
qed

lemma ex_env3: "doingcache ex_dn3" "length (ncache ex_dn3) = 2" "v_fs ex_dn3 = v_fs ex_dn0" "r_rcred ex_dn3 = r_rcred ex_dn0" "r_wcred ex_dn3 = r_wcred ex_dn0"
    "i_dev ex_dn3 = i_dev ex_dn0"
  using ex_dn3(4) ex_env by (auto simp: same_env_def)

section \<open>Properties\<close>

definition accepts :: "dnst \<Rightarrow> int list \<Rightarrow> nat option \<Rightarrow> bool" where
  "accepts st name cred \<longleftrightarrow> doingcache st \<and> length name \<le> NC_NAMLEN \<and> (case cred of None \<Rightarrow> True | Some c \<Rightarrow> cr_refs st c < 0x4000)"

text \<open>
  C37. Entering a name always returns. A name the cache accepts and does not hold is added
  as the most recent one, and in a full cache the least recent one goes; a name it holds
  changes nothing. The vnodes of the cache are held once for each entry that refers to
  them and released with it. The credentials are held as well, but those of the name that
  goes are given back only when one of its vnodes is an NFS one that uses other
  credentials for reading or writing: otherwise their count stays one too high.
\<close>

theorem dnlc_enter_lru:
  assumes "caches st l" and "held st" and "name \<noteq> []"
  shows "\<exists>st'. dnlc_enter dp name vp cred st = Ret st' \<and>
    (if accepts st name cred
     then caches st' (lru_enter (length (ncache st)) ((dp, name, cred), vp) l) \<and> others st' = others st \<and>
       cothers st' = (\<lambda>c. cothers st c + of_bool (loses st ((dp, name, cred), vp) l = Some c)) \<and> same_env st st'
     else st' = st)"
proof (cases "accepts st name cred")
  case True
  then have a: "doingcache st" "length name \<le> NC_NAMLEN" "\<And>c. cred = Some c \<Longrightarrow> cr_refs st c < 0x4000" by (auto simp: accepts_def)
  show ?thesis using dnlc_enter_ok [where dp = dp and vp = vp and cred = cred, OF assms(1,2) a(1) assms(3) a(2,3)] True by auto
next
  case False
  then show ?thesis using dnlc_enter_skip [of st name cred] by (auto simp: accepts_def not_le split: option.splits)
qed

text \<open>At the full example cache the name of directory 1 goes, and its NFS credentials stay counted.\<close>

theorem dnlc_enter_lru_witness:
  "\<exists>st'. dnlc_enter 1 nm_d 4 None ex_dn3 = Ret st' \<and> caches st' [((2, nm_bc, None), 5), ((1, nm_d, None), 4)] \<and>
    cothers st' 7 = cothers ex_dn3 7 + 1"
proof -
  have "loses ex_dn3 ((1, nm_d, None), 4) ex_names = Some 7"
    by (simp add: loses_def ex_names_def ex_env3 drops_cred_def) (simp add: ex_dn0_def)
  moreover have "lru_enter 2 ((1, nm_d, None), 4) ex_names = [((2, nm_bc, None), 5), ((1, nm_d, None), 4)]"
    by (simp add: lru_enter_def ex_names_def)
  moreover have "accepts ex_dn3 nm_d None" by (simp add: accepts_def ex_env3)
  ultimately show ?thesis
    using dnlc_enter_lru [OF ex_dn3(2,3), of nm_d 1 4 None] by (auto simp: ex_env3)
qed

text \<open>
  C38. Looking a name up returns the vnode of a name of that directory that is entered with
  the given credentials, or of any such name when any credentials will do, and makes it the
  most recent one; when there is none, it returns none and changes nothing. It takes no
  references.
\<close>

theorem dnlc_lookup_exact:
  assumes "caches st l" and "name \<noteq> []"
  shows "if doingcache st \<and> (\<exists>p \<in> set l. wanted dp name cr p)
    then \<exists>p st'. p \<in> set l \<and> wanted dp name cr p \<and> dnlc_lookup dp name cr st = Ret (Some (snd p), st') \<and>
      caches st' (filter (\<lambda>q. q \<noteq> p) l @ [p]) \<and> same_refs st st' \<and> same_env st st'
    else dnlc_lookup dp name cr st = Ret (None, st)"
proof (cases "doingcache st \<and> length name \<le> NC_NAMLEN")
  case True
  then have "doingcache st" "length name \<le> NC_NAMLEN" by blast+
  from dnlc_lookup_ok [OF assms(1) this(1) assms(2) this(2), of dp cr] this(1) show ?thesis by (simp only:) metis
next
  case False
  have "\<not> wanted dp name cr p" if "doingcache st" "p \<in> set l" for p
    using caches_short [OF assms(1) that(2)] False that(1) by (auto simp: wanted_def)
  then show ?thesis using False dnlc_lookup_skip [of st name dp cr] by auto
qed

theorem dnlc_lookup_exact_witness:
  "\<exists>st'. dnlc_lookup 1 nm_a (Cred (Some 7)) ex_dn3 = Ret (Some 3, st') \<and> caches st' [((2, nm_bc, None), 5), ((1, nm_a, Some 7), 3)]"
  using dnlc_lookup_exact [OF ex_dn3(2), of nm_a 1 "Cred (Some 7)"] by (auto simp: ex_env3 ex_names_def wanted_def)

text \<open>
  C39. Removing a name, and purging the cache, a vnode or a device, takes out exactly the
  names concerned, whatever their credentials, and leaves the others in their order;
  purging one takes the least recent name out and tells whether there was one. Each loop
  ends without a panic, and what the cache held for the names is released, no more.
\<close>

theorem dnlc_purge_exact:
  assumes "caches st l" and "held st" and "name \<noteq> []"
  shows "filters st l (\<lambda>((d, n, c), v). \<not> (d = dp \<and> n = name)) (dnlc_remove dp name st) \<and>
    filters st l (\<lambda>p. False) (dnlc_purge st) \<and>
    filters st l (\<lambda>((d, n, c), v). d \<noteq> vp \<and> v \<noteq> vp) (dnlc_purge_vp vp st) \<and>
    filters st l (\<lambda>((d, n, c), v). \<not> (v_fs st v = VUFS \<and> i_dev st v = dev)) (dnlc_purge_dev dev st) \<and>
    (\<exists>st'. dnlc_purge1 st = Ret (l \<noteq> [], st') \<and> caches st' (tl l) \<and> same_refs st st' \<and> same_env st st')"
proof (intro conjI)
  show "filters st l (\<lambda>((d, n, c), v). \<not> (d = dp \<and> n = name)) (dnlc_remove dp name st)"
    using dnlc_remove_filters [OF assms, of dp] by (simp add: case_prod_unfold)
  show "filters st l (\<lambda>((d, n, c), v). d \<noteq> vp \<and> v \<noteq> vp) (dnlc_purge_vp vp st)"
    using dnlc_purge_vp_filters [OF assms(1,2), of vp] by (simp add: case_prod_unfold)
  show "filters st l (\<lambda>((d, n, c), v). \<not> (v_fs st v = VUFS \<and> i_dev st v = dev)) (dnlc_purge_dev dev st)"
    using dnlc_purge_dev_filters [OF assms(1,2), of dev] by (simp add: case_prod_unfold)
qed (rule dnlc_purge_filters [OF assms(1,2)] dnlc_purge1_ok [OF assms(1,2)])+

theorem dnlc_purge_exact_witness:
  "filters ex_dn3 ex_names (\<lambda>((d, n, c), v). \<not> (d = 1 \<and> n = nm_a)) (dnlc_remove 1 nm_a ex_dn3) \<and>
   filter (\<lambda>((d, n, c), v). \<not> (d = 1 \<and> n = nm_a)) ex_names = [((2, nm_bc, None), 5)]"
  using dnlc_purge_exact [OF ex_dn3(2,3), of nm_a 1] by (simp add: ex_names_def)

text \<open>
  C40. From the start of the kernel on, whatever names are entered, looked up, removed and
  purged while the rest of the kernel takes and releases references of its own, the rings
  of the cache hold a list of names with distinct keys that fits the table, no vnode or
  credential structure has fewer references than the cache holds, and every further call
  returns: no loop runs on, no count falls below zero, no panic is met.
\<close>

theorem dnlc_runs:
  assumes "dn_reach st"
  shows "(\<exists>l. caches st l \<and> distinct (map fst l) \<and> length l \<le> length (ncache st)) \<and>
    (\<forall>v. vrefs (ncache st) v \<le> v_count st v) \<and> (\<forall>c. crefs (ncache st) c \<le> cr_refs st c) \<and>
    (\<forall>c. named c \<longrightarrow> (\<exists>st'. dn_exec c st = Ret st'))"
proof (intro conjI allI impI)
  obtain l where c: "caches st l" and h: "held st" using dn_reach_inv [OF assms] by blast
  obtain Q C where rep: "dn_rep st Q C" and l: "l = names st Q" using c by (auto simp: caches_def)
  show "\<exists>l. caches st l \<and> distinct (map fst l) \<and> length l \<le> length (ncache st)"
    using c l names_distinct [OF rep] names_length [OF rep] by blast
  show "vrefs (ncache st) v \<le> v_count st v" "crefs (ncache st) c \<le> cr_refs st c" for v c using h by (simp_all add: held_def others_def cothers_def)
  show "\<exists>st'. dn_exec k st = Ret st'" if "named k" for k using dn_exec_ok [OF c h that] by blast
qed

theorem dnlc_runs_witness:
  "dn_reach ex_dn3 \<and> (\<exists>st'. dn_exec (PurgeVp 5) ex_dn3 = Ret st')"
proof -
  have "dn_reach ex_dn2" by (rule dn_reach.call [OF ex_dn_reach, of "Enter 1 nm_a 3 (Some 7)"]) (simp_all add: ex_dn2(1) [simplified])
  then have r: "dn_reach ex_dn3" by (rule dn_reach.call [of _ "Enter 2 nm_bc 5 None"]) (simp_all add: ex_dn3)
  then show ?thesis using dnlc_runs [OF r] by (metis named.simps(5))
qed

end
