(* ===== verification/Spec2Isabelle.thy ===== *)
theory Spec2Isabelle
  imports Rmap Sem_Props Msg_Reach Callout_Run Timer_Props Clist_Props Prot_Props Lockf_Props Dnlc_Props
begin

text \<open>
  A verification library of the HP-UX 9.10 kernel: the parts of
  \<^verbatim>\<open>src/source_product/9.10/sys.A.B9.10\<close> that keep their state in tables and lists of their own.
  File names below are relative to that directory. What the whole system does beyond these
  parts is listed at the end.

  \<^bold>\<open>The parts and how they interact.\<close>
  A resource map (\<^verbatim>\<open>sys/subr_rmap.c\<close>) and an IPC map (\<^verbatim>\<open>sys/sysV_map.c\<close>) hand out ranges of
  units; the semaphore calls take their semaphores from an IPC map, the message calls the
  segments of their texts. Both facilities find, create and check their entries through
  \<^verbatim>\<open>sys/sysV_ipc.c\<close>, on the credentials of the user area, which \<^verbatim>\<open>sys/kern_prot.c\<close> changes.
  \<^verbatim>\<open>kern_prot.c\<close> looks processes up in the chains of the process table (\<^verbatim>\<open>sys/kern_proc.c\<close>), and
  so does the search for a deadlock of the record locks (\<^verbatim>\<open>ufs/ufs_lockf.c\<close>). The callout table
  (\<^verbatim>\<open>sys/kern_clock.c\<close>) runs functions after a time; the real timers of \<^verbatim>\<open>sys/kern_time.c\<close> are
  such functions. The character lists (\<^verbatim>\<open>sys/tty_subr.c\<close>) and the directory name cache
  (\<^verbatim>\<open>sys/vfs_dnlc.c\<close>) stand alone; the cache holds vnodes and credentials by their counts.

  \<^bold>\<open>Conventions.\<close>
  A C function is a function from a state to an \<^verbatim>\<open>outcome\<close>: \<open>Ret\<close>, \<open>Panic\<close> with the message, or
  \<open>Fault\<close> where the code would run off an array or a list. Structures are records; pointers
  are indices, optional where the code tests for null. Integers are kept in range by the
  stores that the code makes (\<open>to_s16\<close>, \<open>to_u16\<close>, \<open>to_s32\<close>, \<open>add32\<close>) or are words where the code
  works on bits. \<^verbatim>\<open>u.u_error\<close> is a field of the user area. A walk over a list takes a counter;
  its start value is the size of the table (three times that in \<open>delete_walk\<close>, which can pass
  an entry again after a split, the number of processes in \<open>deadlock_walk\<close>), and the theorems
  show that \<open>Fault\<close> is not met, so the counter is always enough. \<open>softclock\<close> and \<open>realit_loop\<close>,
  whose end depends on times, are partial functions with an optional result, and are proved to
  have one. A sleep is a list of functions that say what the rest of the kernel does
  meanwhile, or a result that says what is waited for, with the rest of the call as a step of its own.

  \<^bold>\<open>Theories.\<close>
  \<^item> \<open>Kernel_Prelude\<close>: outcomes, machine arithmetic, arrays as lists, error numbers.
  \<^item> \<open>Seg_List\<close>, \<open>Rmap\<close>, \<open>Ipc_Map\<close>: the abstract list of free extents and the locale
    \<open>extent_allocator\<close> (grants are disjoint and nothing is lost over any run of requests), which
    both kinds of maps interpret. The maps are slot arrays as in the C code, with the
    delimiter entry; \<open>rmalloc\<close>, \<open>rmfree\<close>, \<open>rmget\<close>, \<open>rminit\<close>, \<open>ipcmalloc\<close>, \<open>ipcmfree\<close>. Shown: first fit,
    accounting of every unit including the ones an overflow loses, panic exactly on a double free.
  \<^item> \<open>Uarea\<close>, \<open>Ipc_Perm\<close>: the user area, \<open>suser\<close>, \<open>groupmember\<close>; \<open>ipcaccess\<close>, \<open>ipcgetperm\<close>, the
    sleeping lock of an entry as a transition system, the locale \<open>id_table\<close> for identifiers made of a
    slot and a sequence number. Shown: results and errors of \<open>ipcgetperm\<close>, exclusion and no
    lost sleeper for the lock.
  \<^item> \<open>Sem_Undo\<close>, \<open>Sysv_Sem\<close>, \<open>Sem_Props\<close>: all of \<^verbatim>\<open>sys/sysV_sem.c\<close>, with the undo structures.
    Shown: a pass of \<open>semop\<close> is all or nothing, adjustments are applied at exit, identifiers die
    with their set, and an invariant of all reachable states (\<open>sem_reachable\<close>).
  \<^item> \<open>Ptr_List\<close>: singly linked lists and the locale \<open>fifo\<close> (what comes out is what went in, in
    order within each kind of item), interpreted on the message queues (\<open>mq\<close>, where the kind is
    the type of a message) and on the character lists (\<open>cq\<close>, with one kind).
  \<^item> \<open>Sysv_Msg\<close>, \<open>Msg_Inv\<close>, \<open>Msg_Calls\<close>, \<open>Msg_Props\<close>, \<open>Msg_Reach\<close>: all of \<^verbatim>\<open>sys/sysV_msg.c\<close>.
    Shown: what \<open>msgsnd\<close>, \<open>msgrcv\<close> and \<open>msgctl\<close> do on every branch, the invariant of headers, counts
    and texts in all reachable states (\<open>msg_reachable\<close>), and over traffic of all calls
    (\<open>msg_traffic\<close>) queues as first-in first-out lists, for each type and, when they are read with
    type 0, as a whole.
  \<^item> \<open>Callout\<close>, \<open>Callout_Props\<close>, \<open>Callout_Run\<close>: \<open>timeout\<close>, \<open>untimeout\<close>, \<open>find_timeout\<close>, the queue part
    of \<open>hardclock\<close>, \<open>softclock\<close>, smart polls. The list of differences refines a list of absolute
    times; \<open>softclock\<close> ends and runs the due entries in order. Runs of all operations (\<open>co_late\<close>, which
    counts the ticks since no entry was overdue) keep every time an int, if \<open>softclock\<close> catches up
    within 2147483648 ticks; beyond that the model's unbounded \<open>c_time\<close> would differ from the C field.
  \<^item> \<open>Timer\<close>, \<open>Timer_Props\<close>: \<^verbatim>\<open>sys/kern_time.c\<close> and the clock part of \<open>hardclock\<close>. A real timer
    stays on its multiples unless it is late beyond a second, virtual timers do not drift, a timer reads back what was set.
  \<^item> \<open>Clist\<close>, \<open>Clist_Props\<close>: \<^verbatim>\<open>sys/tty_subr.c\<close> on its blocks; over any mixture of its six
    operations (\<open>tty_traffic\<close>) every list is a queue of characters.
  \<^item> \<open>Hash_Chain\<close>, \<open>Kproc\<close>, \<open>Kproc_Props\<close>: the locale \<open>hash_chain\<close> and its four interpretations
    on the process table (by process, group, session and user), \<^verbatim>\<open>sys/kern_proc.c\<close>.
  \<^item> \<open>Prot\<close>, \<open>Prot_Props\<close>: \<^verbatim>\<open>sys/kern_prot.c\<close> on the pool of credentials, the user areas and the
    process table. Counts, chains and sessions agree in all runs (\<open>prot_run\<close>), no process gains
    an identity without the super-user, and changing one never shows in another.
  \<^item> \<open>Lockf\<close>: \<^verbatim>\<open>ufs/ufs_lockf.c\<close>, \<open>ufs_lockf\<close>, \<open>ufs_lockctl\<close> and the test of \<open>ufs_rdwr\<close> in
    \<^verbatim>\<open>ufs/ufs_vnops.c\<close>, the lock commands of \<open>fcntl\<close>. \<open>Lockf_Ranges\<close> has the abstract side, a list of
    typed ranges; \<open>Lockf_List\<close> the table as lists; \<open>Lockf_Ops\<close>, \<open>Lockf_Insert\<close>, \<open>Lockf_Delete\<close> the
    walks that insert, compress and delete; \<open>Lockf_State\<close>, \<open>Lockf_Wait\<close> the invariant and the
    search for a deadlock; \<open>Lockf_Calls\<close> the calls; \<open>Lockf_Reach\<close> the runs (\<open>lk_reach\<close>);
    \<open>Lockf_Props\<close> the properties: exclusion, every call returns, every wait chain ends, the calls
    refine abstract requests (\<open>set_spec\<close>), and are refused with nothing in the way only when the
    table is short of entries (\<open>too_few\<close>).
  \<^item> \<open>Ring_List\<close>: doubly linked rings and the locale \<open>ring_links\<close>. \<open>Dnlc\<close>: all of
    \<^verbatim>\<open>sys/vfs_dnlc.c\<close>, with both kinds of rings as interpretations. \<open>Dnlc_Rings\<close> has the rings as
    lists, \<open>Dnlc_State\<close> the invariant and the list of names in order of use, \<open>Dnlc_Ops\<close>,
    \<open>Dnlc_Purge\<close>, \<open>Dnlc_Enter\<close> the operations on it, \<open>Dnlc_Reach\<close> the runs (\<open>dn_reach\<close>), \<open>Dnlc_Props\<close>
    the properties: the rings refine a list of at most \<^verbatim>\<open>ncsize\<close> names, every loop ends, the counts
    of vnodes are exact.

  \<^bold>\<open>Configuration and assumptions.\<close>
  The kernel is the single-processor one of the Series 300: HZ is 50, a tick 20000
  microseconds, \<^verbatim>\<open>tickadj\<close> 10; job control, POSIX, ACLs, auditing, quotas and the autochanger
  are compiled in, the debugging, multiprocessor and Series 800 branches are not; NGROUPS 20,
  MAXUID 60000, MAXPID 30000, CBSIZE 26, NFLOCKS 200, MAX_LOCK_SIZE 0x7fffffff, NC_NAMLEN 15,
  256 hash headers. Interrupt levels and spin locks are left out. The machine is not in a
  cluster. The counts \<open>v_count\<close> and \<open>ll_count\<close> are unbounded: the first counts holders, of which
  memory has far fewer than 2147483648, the second is at most one more than the processes
  that wait. Copies from and to user memory are parameters. Runs of the semaphore and message
  calls assume copies that do not sleep and message types above the lowest long; runs of
  \<open>Prot\<close> that a copy of a group list that succeeds brings as many entries as asked for and that
  no reference count reaches 32767; runs of the record locks keep the set of processes and
  start calls on ranges that are not empty; runs of the name cache use names that are not
  empty, which \<^verbatim>\<open>lookuppn\<close> of \<^verbatim>\<open>sys/vfs_lookup.c\<close> sees to, and nothing else runs while it
  releases a vnode.

  \<^bold>\<open>What modelling showed.\<close>
  The theorem \<open>rmfree_value\<close>: \<open>rmfree\<close> can return 0 for the segment it made. \<open>realitexpire_late_drifts\<close>:
  a real timer that is late across a second boundary loses its delay for good. \<open>adjtime_overshoots\<close>: a clock
  correction can pass its end and go on. \<open>fcntl_empty_range\<close>: a lock from MAX_LOCK_SIZE on changes the
  type of another lock untested. \<open>downgrade_wakes_nobody\<close>: turning a write lock into a read lock wakes no
  reader. \<open>append_misses_lock\<close>: enforced locks are tested at the wrong offset for an append.
  In the name cache, an entry that is reused mostly leaves its credentials counted.

  \<^bold>\<open>Not modelled.\<close>
  The accounting part of \<open>hardclock\<close> and the microsecond counter behind \<open>gettimeofday\<close>; the
  walks of the process tree and the creation and end of processes; the hash of remote lock
  owners of a cluster; the statistics of the name cache. Shared memory, virtual memory, the
  memory allocator and the trap and boot code rest on hardware and raw memory; the buffer
  cache, the file systems and the vnode layer on drivers and tables of function pointers;
  sockets, protocols, NFS, network IPC and the cluster protocol on interrupts and other machines.
  Signals, scheduling, privileged groups, terminals, auditing, drivers, the debugger, and the
  commands and libraries outside of the kernel are left out.
\<close>

end
